(* ===== verification/Prelude.thy ===== *)
theory Prelude
  imports Complex_Main "HOL-Library.AList" "HOL-Library.Multiset" "HOL-Library.List_Lexorder"
    "HOL-Library.Char_ord" "HOL-Library.Product_Lexorder"
begin

text \<open>
  What the component theories share: Python's exceptions as values, a dict as an association
  list in insertion order, a \<open>for\<close> loop with \<open>break\<close>, Python's \<open>round\<close>, a stable sort in
  decreasing order, and the split of a list into maximal runs of equal elements. The lemmas
  are declared \<open>[simp]\<close> or put into a collection (\<open>dict_simps\<close>, \<open>run_simps\<close>), so that
  the component proofs are a few steps of automation.
\<close>

named_theorems dict_simps \<open>reading a dict after an update\<close>
named_theorems run_simps \<open>facts about maximal runs\<close>

subsection \<open>Exceptions\<close>

datatype py_error =
    ValueError
  | KeyError
  | IndexError
  | AssertionError
  | ZeroDivisionError
  | OverflowError
  | TypeError
  | AttributeError
  | RuntimeError

subsection \<open>Dictionaries in insertion order\<close>

text \<open>
  Python dicts iterate in insertion order, and writing an existing key keeps its place:
  \<^const>\<open>AList.update\<close> does exactly that. \<open>pop\<close> is \<^const>\<open>AList.delete\<close>.
\<close>

type_synonym ('k, 'v) dict = "('k \<times> 'v) list"

abbreviation dict_keys :: "('k, 'v) dict \<Rightarrow> 'k list" where
  "dict_keys d \<equiv> map fst d"

abbreviation dict_ok :: "('k, 'v) dict \<Rightarrow> bool" where
  "dict_ok d \<equiv> distinct (map fst d)"

definition dict_set :: "'k \<Rightarrow> 'v \<Rightarrow> ('k, 'v) dict \<Rightarrow> ('k, 'v) dict" where
  "dict_set k v d = AList.update k v d"

definition dict_pop :: "'k \<Rightarrow> ('k, 'v) dict \<Rightarrow> ('k, 'v) dict" where
  "dict_pop k d = AList.delete k d"

definition dict_has :: "('k, 'v) dict \<Rightarrow> 'k \<Rightarrow> bool" where
  "dict_has d k = (map_of d k \<noteq> None)"

definition dict_get :: "('k, 'v) dict \<Rightarrow> 'k \<Rightarrow> 'v \<Rightarrow> 'v" where
  "dict_get d k v = (case map_of d k of Some w \<Rightarrow> w | None \<Rightarrow> v)"

definition dict_setdefault :: "'k \<Rightarrow> 'v \<Rightarrow> ('k, 'v) dict \<Rightarrow> ('k, 'v) dict" where
  "dict_setdefault k v d = (if dict_has d k then d else dict_set k v d)"

fun dict_update :: "('k, 'v) dict \<Rightarrow> ('k, 'v) dict \<Rightarrow> ('k, 'v) dict" where
  "dict_update [] d = d"
| "dict_update ((k, v) # kvs) d = dict_update kvs (dict_set k v d)"

text \<open>The dict comprehension \<open>{k: f(k) for k in ks}\<close>: a repeated key keeps its first place.\<close>

fun dict_of :: "('k \<Rightarrow> 'v) \<Rightarrow> 'k list \<Rightarrow> ('k, 'v) dict \<Rightarrow> ('k, 'v) dict" where
  "dict_of f [] d = d"
| "dict_of f (k # ks) d = dict_of f ks (dict_set k (f k) d)"

declare map_of_eq_Some_iff [simp del]

lemma map_of_dict_set [simp, dict_simps]: "map_of (dict_set k v d) = (map_of d)(k \<mapsto> v)"
  by (simp add: dict_set_def update_conv')

lemma map_of_dict_pop [simp, dict_simps]: "map_of (dict_pop k d) = (map_of d)(k := None)"
  by (simp add: dict_pop_def delete_conv')

lemma dict_keys_set:
  "dict_keys (dict_set k v d) = (if k \<in> set (dict_keys d) then dict_keys d else dict_keys d @ [k])"
  by (simp add: dict_set_def update_keys)

lemma dict_keys_set_member [simp]:
  "k \<in> set (dict_keys d) \<Longrightarrow> dict_keys (dict_set k v d) = dict_keys d"
  by (simp add: dict_keys_set)

lemma dict_keys_pop: "dict_keys (dict_pop k d) = removeAll k (dict_keys d)"
  by (simp add: dict_pop_def delete_keys)

lemma dict_ok_set [simp]: "dict_ok d \<Longrightarrow> dict_ok (dict_set k v d)"
  by (simp add: dict_keys_set)

lemma dict_ok_pop [simp]: "dict_ok d \<Longrightarrow> dict_ok (dict_pop k d)"
  by (simp add: dict_keys_pop distinct_removeAll)

lemma set_keys_dict_set [simp]: "fst ` set (dict_set k v d) = insert k (fst ` set d)"
  by (auto simp: dict_set_def dom_update)

lemma set_keys_dict_pop [simp]: "fst ` set (dict_pop k d) = fst ` set d - {k}"
  using arg_cong [OF dict_keys_pop, of set k d] by simp

lemma dict_has_iff: "dict_has d k \<longleftrightarrow> k \<in> fst ` set d"
  by (simp add: dict_has_def map_of_eq_None_iff)

lemma map_of_not_None_iff: "map_of d k \<noteq> None \<longleftrightarrow> k \<in> fst ` set d"
  by (simp add: map_of_eq_None_iff)

lemma map_of_keyD: "k \<in> fst ` set d \<Longrightarrow> \<exists>v. map_of d k = Some v"
  using map_of_not_None_iff [of d k] by auto

lemma dict_get_set [simp, dict_simps]:
  "dict_get (dict_set k v d) k' w = (if k' = k then v else dict_get d k' w)"
  by (simp add: dict_get_def)

lemma dict_get_pop [simp, dict_simps]:
  "dict_get (dict_pop k d) k' w = (if k' = k then w else dict_get d k' w)"
  by (simp add: dict_get_def)

lemma dict_get_Some: "map_of d k = Some v \<Longrightarrow> dict_get d k w = v"
  by (simp add: dict_get_def)

lemma dict_get_None: "k \<notin> fst ` set d \<Longrightarrow> dict_get d k w = w"
  by (simp add: dict_get_def flip: map_of_eq_None_iff)

lemma set_keys_move_to_end:
  assumes "map_of d k = Some v"
  shows "fst ` set (dict_pop k d @ [(k, v)]) = fst ` set d"
proof -
  have "k \<in> fst ` set d" using assms by (metis map_of_not_None_iff option.distinct(1))
  then show ?thesis by (simp only: set_append image_Un set_keys_dict_pop) auto
qed

lemma dict_set_new: "k \<notin> fst ` set d \<Longrightarrow> dict_set k v d = d @ [(k, v)]"
  by (induction d) (auto simp: dict_set_def)

lemma length_dict_set:
  "length (dict_set k v d) = (if k \<in> fst ` set d then length d else Suc (length d))"
  using arg_cong [OF dict_keys_set, of length k v d] by (simp split: if_splits)

lemma length_dict_pop:
  "dict_ok d \<Longrightarrow> k \<in> fst ` set d \<Longrightarrow> length (dict_pop k d) = length d - 1"
proof -
  assume ok: "dict_ok d" and k: "k \<in> fst ` set d"
  have "length (dict_pop k d) = length (removeAll k (dict_keys d))"
    using arg_cong [OF dict_keys_pop, of length k d] by simp
  also have "\<dots> = length (dict_keys d) - 1"
    using ok k distinct_remove1_removeAll [OF ok, of k] by (simp flip: distinct_remove1_removeAll
        add: length_remove1)
  finally show ?thesis by simp
qed

lemma move_to_end:
  assumes "dict_ok d" and "k \<in> fst ` set d"
  shows "dict_ok (dict_pop k d @ [(k, v)])" and "length (dict_pop k d @ [(k, v)]) = length d"
    and "fst ` set (dict_pop k d @ [(k, v)]) = fst ` set d"
proof -
  show "dict_ok (dict_pop k d @ [(k, v)])" using assms(1) by simp
  have "0 < length d" using assms(2) by (cases d) auto
  then show "length (dict_pop k d @ [(k, v)]) = length d"
    using length_dict_pop [OF assms] by simp
  show "fst ` set (dict_pop k d @ [(k, v)]) = fst ` set d"
    using assms(2) by (simp only: set_append image_Un set_keys_dict_pop) auto
qed

lemma map_of_dict_update:
  "map_of (dict_update kvs d) k =
     (case map_of (rev kvs) k of Some v \<Rightarrow> Some v | None \<Rightarrow> map_of d k)"
  by (induction kvs d rule: dict_update.induct) (auto simp: map_add_def split: option.splits)

lemma map_of_dict_of:
  "map_of (dict_of f ks d) k = (if k \<in> set ks then Some (f k) else map_of d k)"
  by (induction f ks d rule: dict_of.induct) auto

lemma set_keys_dict_of [simp]: "fst ` set (dict_of f ks d) = set ks \<union> fst ` set d"
  by (induction f ks d rule: dict_of.induct) auto

lemma dict_ok_dict_of [simp]: "dict_ok d \<Longrightarrow> dict_ok (dict_of f ks d)"
  by (induction f ks d rule: dict_of.induct) auto

lemma set_keys_dict_update [simp]:
  "fst ` set (dict_update kvs d) = fst ` set kvs \<union> fst ` set d"
  by (induction kvs d rule: dict_update.induct) auto

lemma dict_ok_dict_update [simp]: "dict_ok d \<Longrightarrow> dict_ok (dict_update kvs d)"
  by (induction kvs d rule: dict_update.induct) auto

text \<open>
  The interface the components rely on when they keep state in a dict: reading after a
  write, reading after a removal, and which keys there are.
\<close>

locale dict_interface =
  fixes put :: "'k \<Rightarrow> 'v \<Rightarrow> 'd \<Rightarrow> 'd"
    and remove :: "'k \<Rightarrow> 'd \<Rightarrow> 'd"
    and look :: "'d \<Rightarrow> 'k \<Rightarrow> 'v option"
  assumes look_put: "look (put k v d) = (look d)(k \<mapsto> v)"
    and look_remove: "look (remove k d) = (look d)(k := None)"
begin

lemma look_put_same: "look (put k v d) k = Some v"
  by (simp add: look_put)

lemma look_put_other: "k' \<noteq> k \<Longrightarrow> look (put k v d) k' = look d k'"
  by (simp add: look_put)

lemma remove_put: "look (remove k (put k v d)) = look (remove k d)"
  by (simp add: look_put look_remove)

lemma put_put: "look (put k v (put k w d)) = look (put k v d)"
  by (simp add: look_put)

end

interpretation pydict: dict_interface dict_set dict_pop map_of
  by unfold_locales simp_all

text \<open>
  A cache of bounded size: inserting an absent key makes it resident, brings in nothing else
  and keeps the cache within its capacity, whatever it evicts.
\<close>

locale bounded_cache =
  fixes resident :: "'s \<Rightarrow> 'k list"
    and capacity :: "'s \<Rightarrow> nat"
    and insert_key :: "'v \<Rightarrow> 'k \<Rightarrow> 's \<Rightarrow> 's"
    and cache_ok :: "'s \<Rightarrow> bool"
  assumes ok_bounded: "cache_ok s \<Longrightarrow> length (resident s) \<le> capacity s \<and> distinct (resident s)"
    and insert_ok: "cache_ok s \<Longrightarrow> k \<notin> set (resident s) \<Longrightarrow> cache_ok (insert_key v k s)"
    and insert_capacity: "cache_ok s \<Longrightarrow> k \<notin> set (resident s) \<Longrightarrow> capacity (insert_key v k s) = capacity s"
    and insert_resident: "cache_ok s \<Longrightarrow> k \<notin> set (resident s) \<Longrightarrow>
      k \<in> set (resident (insert_key v k s)) \<and> set (resident (insert_key v k s)) \<subseteq> insert k (set (resident s))"
begin

fun load_all :: "('v \<times> 'k) list \<Rightarrow> 's \<Rightarrow> 's" where
  "load_all [] s = s"
| "load_all ((v, k) # ks) s =
     load_all ks (if k \<in> set (resident s) then s else insert_key v k s)"

lemma load_all_ok: "cache_ok s \<Longrightarrow> cache_ok (load_all ks s) \<and> capacity (load_all ks s) = capacity s"
proof (induction ks s rule: load_all.induct)
  case (2 v k ks s)
  then show ?case using insert_ok [of s k v] insert_capacity [of s k v] by (cases "k \<in> set (resident s)") auto
qed simp

lemma load_all_bounded: "cache_ok s \<Longrightarrow> length (resident (load_all ks s)) \<le> capacity s"
  using load_all_ok [of s ks] ok_bounded [of "load_all ks s"] by simp

lemma load_all_sub:
  "cache_ok s \<Longrightarrow> set (resident (load_all ks s)) \<subseteq> set (resident s) \<union> snd ` set ks"
proof (induction ks s rule: load_all.induct)
  case (2 v k ks s)
  show ?case
  proof (cases "k \<in> set (resident s)")
    case True
    then show ?thesis using 2 by auto
  next
    case False
    then show ?thesis using 2 insert_ok [OF 2(2) False, of v] insert_resident [OF 2(2) False, of v] by auto
  qed
qed simp

lemma last_is_resident: "cache_ok s \<Longrightarrow> k \<in> set (resident (load_all (ks @ [(v, k)]) s))"
proof (induction ks s rule: load_all.induct)
  case (1 s)
  then show ?case using insert_resident [of s k v] by simp
next
  case (2 w j ks s)
  then show ?case using insert_ok [of s j w] by (cases "j \<in> set (resident s)") auto
qed

end

subsection \<open>A for loop with break\<close>

datatype 's flow = Next 's | Break 's

fun for_each :: "('x \<Rightarrow> 's \<Rightarrow> 's flow) \<Rightarrow> 'x list \<Rightarrow> 's \<Rightarrow> 's" where
  "for_each body [] s = s"
| "for_each body (x # xs) s =
     (case body x s of Next s' \<Rightarrow> for_each body xs s' | Break s' \<Rightarrow> s')"

fun flow_state :: "'s flow \<Rightarrow> 's" where
  "flow_state (Next s) = s"
| "flow_state (Break s) = s"

lemma for_each_inv:
  assumes "I s" and "\<And>x s. x \<in> set xs \<Longrightarrow> I s \<Longrightarrow> I (flow_state (body x s))"
  shows "I (for_each body xs s)"
  using assms
proof (induction xs arbitrary: s)
  case (Cons x xs)
  then have "I (flow_state (body x s))" by simp
  then show ?case using Cons by (cases "body x s") auto
qed simp

subsection \<open>Numbers\<close>

text \<open>Python's \<open>round\<close> to an integer: to the nearest, a half to the even neighbour.\<close>

definition py_round :: "real \<Rightarrow> int" where
  "py_round x =
     (let f = \<lfloor>x\<rfloor>; d = x - of_int f
      in if d < 1/2 then f else if d > 1/2 then f + 1 else if even f then f else f + 1)"

lemma py_round_bounds: "x - 1/2 \<le> py_round x" "py_round x \<le> x + 1/2"
  using of_int_floor_le [of x] real_of_int_floor_add_one_gt [of x]
  by (simp_all add: py_round_def Let_def) linarith+

text \<open>\<open>round(x, n)\<close>, on exact reals.\<close>

definition py_round_to :: "nat \<Rightarrow> real \<Rightarrow> real" where
  "py_round_to n x = of_int (py_round (x * 10 ^ n)) / 10 ^ n"

lemma py_round_to_close: "\<bar>py_round_to n x - x\<bar> \<le> 1 / (2 * 10 ^ n)"
proof -
  define p :: real where "p = 10 ^ n"
  have p: "0 < p" by (simp add: p_def)
  have "py_round_to n x - x = (of_int (py_round (x * p)) - x * p) / p"
    using p by (simp add: py_round_to_def p_def field_simps)
  moreover have "\<bar>of_int (py_round (x * p)) - x * p\<bar> \<le> 1/2" using py_round_bounds [of "x * p"] by linarith
  ultimately show ?thesis
    using p divide_right_mono [of "\<bar>of_int (py_round (x * p)) - x * p\<bar>" "1/2" p]
    by (simp add: abs_divide p_def)
qed

text \<open>\<open>math.ceil(n / 2)\<close> on a non-negative integer.\<close>

definition ceil_half :: "nat \<Rightarrow> nat" where
  "ceil_half n = (n + 1) div 2"

lemma ceil_half_bounds: "n \<le> 2 * ceil_half n" "2 * ceil_half n \<le> n + 1" "ceil_half n \<le> n"
  unfolding ceil_half_def by presburger+

lemma ceil_half_is_ceiling: "int (ceil_half n) = \<lceil>real n / 2\<rceil>"
proof (rule sym, rule ceiling_unique)
  show "real_of_int (int (ceil_half n)) - 1 < real n / 2"
    using ceil_half_bounds(2) [of n] by linarith
  show "real n / 2 \<le> real_of_int (int (ceil_half n))"
    using ceil_half_bounds(1) [of n] by linarith
qed

subsection \<open>Sorting\<close>

text \<open>
  \<open>sorted(xs, key=f)\<close> is the stable \<^const>\<open>sort_key\<close>; \<open>sorted(xs, key=f, reverse=True)\<close>
  keeps equal elements in their order too, so for a real-valued key it sorts by the negated key.
\<close>

definition sort_desc :: "('x \<Rightarrow> real) \<Rightarrow> 'x list \<Rightarrow> 'x list" where
  "sort_desc f xs = sort_key (\<lambda>x. - f x) xs"

lemma set_sort_desc [simp]: "set (sort_desc f xs) = set xs"
  by (simp add: sort_desc_def)

lemma mset_sort_desc [simp]: "mset (sort_desc f xs) = mset xs"
  by (simp add: sort_desc_def)

lemma length_sort_desc [simp]: "length (sort_desc f xs) = length xs"
  by (simp add: sort_desc_def)

lemma distinct_sort_desc [simp]: "distinct (sort_desc f xs) = distinct xs"
  by (simp add: sort_desc_def)

lemma sort_desc_decreasing: "sorted_wrt (\<lambda>x y. f y \<le> f x) (sort_desc f xs)"
proof -
  have "sorted (map (\<lambda>x. - f x) (sort_desc f xs))"
    by (simp add: sort_desc_def)
  then show ?thesis by (simp add: sorted_map)
qed

lemma sort_desc_stable: "filter (\<lambda>x. f x = v) (sort_desc f xs) = filter (\<lambda>x. f x = v) xs"
proof -
  have "filter (\<lambda>x. - f x = - v) (sort_key (\<lambda>x. - f x) xs) = filter (\<lambda>x. - f x = - v) xs"
    by (rule sort_key_stable)
  then show ?thesis by (simp add: sort_desc_def)
qed

subsection \<open>Maximal runs of equal elements\<close>

function runs :: "'x list \<Rightarrow> 'x list list" where
  "runs [] = []"
| "runs (x # xs) = (x # takeWhile ((=) x) xs) # runs (dropWhile ((=) x) xs)"
  by pat_completeness auto
termination
  by (relation "measure length") (auto simp: length_dropWhile_le le_imp_less_Suc)

lemma concat_runs [simp, run_simps]: "concat (runs xs) = xs"
  by (induction xs rule: runs.induct) auto

lemma runs_eq_Nil [simp]: "runs xs = [] \<longleftrightarrow> xs = []"
  by (cases xs) auto

lemma runs_nonempty: "r \<in> set (runs xs) \<Longrightarrow> r \<noteq> []"
  by (induction xs rule: runs.induct) auto

lemma runs_homogeneous: "r \<in> set (runs xs) \<Longrightarrow> x \<in> set r \<Longrightarrow> x = hd r"
proof (induction xs rule: runs.induct)
  case (2 y ys)
  then show ?case by (auto dest: set_takeWhileD)
qed simp

lemma sum_length_runs [simp, run_simps]: "sum_list (map length (runs xs)) = length xs"
proof -
  have "sum_list (map length (runs xs)) = length (concat (runs xs))"
    by (simp only: length_concat)
  then show ?thesis by simp
qed

lemma length_runs_le: "length (runs xs) \<le> length xs"
proof (induction xs rule: runs.induct)
  case (2 x xs)
  then show ?case using length_dropWhile_le [of "(=) x" xs] by simp
qed simp

lemma hd_dropWhile_run: "dropWhile ((=) x) xs \<noteq> [] \<Longrightarrow> hd (dropWhile ((=) x) xs) \<noteq> x"
  using hd_dropWhile [of "(=) x" xs] by auto

lemma map_hd_runs: "map hd (runs xs) = remdups_adj xs"
proof (induction xs rule: runs.induct)
  case (2 x xs)
  have "remdups_adj (x # xs) = x # remdups_adj (dropWhile ((=) x) xs)"
  proof (induction xs)
    case (Cons y ys)
    then show ?case by (cases "y = x") auto
  qed simp
  with 2 show ?case by simp
qed simp

text \<open>Every run-length encoder of the program promises the same thing.\<close>

locale run_encoder =
  fixes encode :: "'t list \<Rightarrow> 'e list"
    and expand :: "'e \<Rightarrow> 't list"
    and key :: "'t \<Rightarrow> 'k"
    and valid :: "'t list \<Rightarrow> bool"
  assumes expand_encode: "valid ts \<Longrightarrow> concat (map expand (encode ts)) = ts"
    and one_per_run: "valid ts \<Longrightarrow> map (map key \<circ> expand) (encode ts) = runs (map key ts)"
begin

lemma total_length: "valid ts \<Longrightarrow> (\<Sum>e\<leftarrow>encode ts. length (expand e)) = length ts"
  using arg_cong [OF expand_encode, of ts length] by (simp add: length_concat o_def)

lemma count_runs: "valid ts \<Longrightarrow> length (encode ts) = length (runs (map key ts))"
  using arg_cong [OF one_per_run, of ts length] by simp

lemma segment_nonempty: "valid ts \<Longrightarrow> e \<in> set (encode ts) \<Longrightarrow> expand e \<noteq> []"
proof -
  assume "valid ts" and "e \<in> set (encode ts)"
  then have "map key (expand e) \<in> set (runs (map key ts))"
    by (force simp flip: one_per_run)
  then show ?thesis using runs_nonempty by fastforce
qed

lemma segment_homogeneous:
  assumes "valid ts" and "e \<in> set (encode ts)" and "t \<in> set (expand e)" and "u \<in> set (expand e)"
  shows "key t = key u"
proof -
  from assms(1,2) have r: "map key (expand e) \<in> set (runs (map key ts))"
    by (force simp flip: one_per_run)
  have "key t = hd (map key (expand e))" and "key u = hd (map key (expand e))"
    using assms(3,4) by (auto intro: runs_homogeneous [OF r])
  then show ?thesis by simp
qed

lemma one_segment_per_key:
  "valid ts \<Longrightarrow> distinct (remdups_adj (map key ts)) \<Longrightarrow>
   distinct (map (hd \<circ> map key \<circ> expand) (encode ts))"
proof -
  assume v: "valid ts" and d: "distinct (remdups_adj (map key ts))"
  have "map (hd \<circ> map key \<circ> expand) (encode ts) = map hd (map (map key \<circ> expand) (encode ts))"
    by simp
  also have "\<dots> = remdups_adj (map key ts)"
    by (simp only: one_per_run [OF v] map_hd_runs)
  finally show ?thesis using d by simp
qed

end

interpretation list_runs: run_encoder runs id id "\<lambda>_. True"
  by unfold_locales (simp_all add: comp_def)

end
