(* ===== verification/Buffer.thy ===== *)
theory Buffer
  imports Prelude
begin

text \<open>
  \<^verbatim>\<open>adapter_slots/buffer.py\<close>: the AlignmentBuffer's state and every operation of it. Clock
  readings (\<open>time.perf_counter()\<close>) are arguments. The three warp-or-deadline loops differ only
  in the visiting order and in the deadline of a queue, so they share the body \<open>warp_body\<close>;
  \<open>wgkp_body\<close> is the five-rule body of \<open>form_batch_wgkp\<close>. The locale \<open>queue_dispatch\<close> states
  what every such body promises, and the properties of a whole tick are proved in it once. The model is of
  positive warp sizes: with a warp of 0 the source divides by zero at the first queue that is not empty,
  where the bodies here just dispatch nothing.
\<close>

subsection \<open>State\<close>

record 'a abuf =
  warp :: nat
  t_max :: real
  ttft_slo :: real
  queues :: "('a, (int \<times> real) list) dict"
  shadow :: "('a, int list) dict"
  shadow_time :: "(int, real) dict"
  enqueue_time :: "('a, real option) dict"
  last_dispatch :: "('a, real) dict"
  n_warps_dispatched :: nat
  n_timeout_dispatches :: nat
  n_tokens_enqueued :: nat
  n_tokens_dispatched :: nat
  seq_enqueue :: "(int, real) dict"

definition buffer_init :: "'a list \<Rightarrow> nat \<Rightarrow> real \<Rightarrow> real \<Rightarrow> 'a abuf" where
  "buffer_init adapters warp_size tmax_ms ttft_slo_ms =
     \<lparr>warp = warp_size, t_max = tmax_ms / 1000, ttft_slo = ttft_slo_ms / 1000,
      queues = dict_of (\<lambda>_. []) adapters [], shadow = dict_of (\<lambda>_. []) adapters [],
      shadow_time = [], enqueue_time = dict_of (\<lambda>_. None) adapters [], last_dispatch = [],
      n_warps_dispatched = 0, n_timeout_dispatches = 0, n_tokens_enqueued = 0,
      n_tokens_dispatched = 0, seq_enqueue = []\<rparr>"

definition queue_of :: "'a abuf \<Rightarrow> 'a \<Rightarrow> (int \<times> real) list" where
  "queue_of b k = dict_get (queues b) k []"

definition shadow_of :: "'a abuf \<Rightarrow> 'a \<Rightarrow> int list" where
  "shadow_of b k = dict_get (shadow b) k []"

definition head_time :: "(int \<times> real) list \<Rightarrow> real option" where
  "head_time q = (case q of [] \<Rightarrow> None | (s, t) # _ \<Rightarrow> Some t)"

definition age_of :: "'a abuf \<Rightarrow> real \<Rightarrow> 'a \<Rightarrow> real" where
  "age_of b t_now k = (case dict_get (enqueue_time b) k None of Some t \<Rightarrow> t_now - t | None \<Rightarrow> 0)"

subsection \<open>Registration and enqueueing\<close>

definition register_adapter :: "'a \<Rightarrow> 'a abuf \<Rightarrow> 'a abuf" where
  "register_adapter k b =
     (if dict_has (queues b) k then b
      else b\<lparr>queues := dict_set k [] (queues b), shadow := dict_set k [] (shadow b),
             enqueue_time := dict_set k None (enqueue_time b)\<rparr>)"

definition enqueue :: "'a \<Rightarrow> int \<Rightarrow> real \<Rightarrow> 'a abuf \<Rightarrow> 'a abuf" where
  "enqueue k s t b =
     (if dict_has (seq_enqueue b) s then b
      else let b1 = register_adapter k b in
        b1\<lparr>queues := dict_set k (queue_of b1 k @ [(s, t)]) (queues b1),
           enqueue_time := (if dict_get (enqueue_time b1) k None = None
                            then dict_set k (Some t) (enqueue_time b1) else enqueue_time b1),
           n_tokens_enqueued := n_tokens_enqueued b1 + 1,
           seq_enqueue := dict_set s t (seq_enqueue b1)\<rparr>)"

definition is_buffered :: "'a abuf \<Rightarrow> int \<Rightarrow> bool" where
  "is_buffered b s = dict_has (seq_enqueue b) s"

definition release :: "int \<Rightarrow> 'a abuf \<Rightarrow> 'a abuf" where
  "release s b = b\<lparr>seq_enqueue := dict_pop s (seq_enqueue b)\<rparr>"

subsection \<open>Dispatch\<close>

text \<open>Popping \<open>n\<close> tokens off the front of a queue, with the bookkeeping every rule does.\<close>

definition pop_front :: "real \<Rightarrow> 'a \<Rightarrow> nat \<Rightarrow> 'a abuf \<Rightarrow> 'a abuf" where
  "pop_front t_now k n b =
     (let rest = drop n (queue_of b k) in
      b\<lparr>queues := dict_set k rest (queues b), last_dispatch := dict_set k t_now (last_dispatch b),
        enqueue_time := dict_set k (head_time rest) (enqueue_time b),
        n_tokens_dispatched := n_tokens_dispatched b + n\<rparr>)"

definition popped :: "'a \<Rightarrow> nat \<Rightarrow> 'a abuf \<Rightarrow> ('a \<times> int) list" where
  "popped k n b = map (\<lambda>(s, t). (k, s)) (take n (queue_of b k))"

definition budget_of :: "'a abuf \<Rightarrow> nat option \<Rightarrow> nat" where
  "budget_of b max_tokens = (case max_tokens of Some m \<Rightarrow> m | None \<Rightarrow> warp b * length (queues b))"

definition warp_body ::
  "real \<Rightarrow> ('a abuf \<Rightarrow> 'a \<Rightarrow> real) \<Rightarrow> nat \<Rightarrow> 'a \<Rightarrow> 'a abuf \<times> ('a \<times> int) list \<Rightarrow>
   ('a abuf \<times> ('a \<times> int) list) flow" where
  "warp_body t_now deadline budget k st =
     (let (b, batch) = st in
      if length batch \<ge> budget then Break (b, batch)
      else let q = queue_of b k in
        if q = [] then Next (b, batch)
        else let age = age_of b t_now k in
          if length q \<ge> warp b then
            let n_full_warps = min (length q div warp b) ((budget - length batch) div warp b);
                n_to_dispatch = n_full_warps * warp b
            in if n_to_dispatch = 0 then Break (b, batch)
               else let b' = pop_front t_now k n_to_dispatch b in
                 Next (b'\<lparr>n_warps_dispatched := n_warps_dispatched b' + n_full_warps\<rparr>,
                       batch @ popped k n_to_dispatch b)
          else if age \<ge> deadline b k then
            let n_to_dispatch = min (length q) (budget - length batch);
                b' = pop_front t_now k n_to_dispatch b
            in Next (b'\<lparr>n_timeout_dispatches := n_timeout_dispatches b' + 1\<rparr>,
                     batch @ popped k n_to_dispatch b)
          else Next (b, batch))"

definition global_deadline :: "'a abuf \<Rightarrow> 'a \<Rightarrow> real" where
  "global_deadline b k = min (t_max b) (ttft_slo b)"

definition adapter_deadline :: "('a, real) dict \<Rightarrow> 'a abuf \<Rightarrow> 'a \<Rightarrow> real" where
  "adapter_deadline tmax_k b k = min (dict_get tmax_k k (ttft_slo b)) (ttft_slo b)"

definition form_batch :: "nat option \<Rightarrow> real \<Rightarrow> 'a abuf \<Rightarrow> 'a abuf \<times> ('a \<times> int) list" where
  "form_batch max_tokens t_now b =
     for_each (warp_body t_now global_deadline (budget_of b max_tokens))
       (dict_keys (queues b)) (b, [])"

definition form_batch_erlang ::
  "('a, real) dict \<Rightarrow> nat option \<Rightarrow> real \<Rightarrow> 'a abuf \<Rightarrow> 'a abuf \<times> ('a \<times> int) list" where
  "form_batch_erlang tmax_k max_tokens t_now b =
     for_each (warp_body t_now (adapter_deadline tmax_k) (budget_of b max_tokens))
       (dict_keys (queues b)) (b, [])"

text \<open>A ranked adapter without a queue is skipped: \<^const>\<open>queue_of\<close> is empty for it.\<close>

definition form_batch_cash ::
  "'a list \<Rightarrow> ('a, real) dict \<Rightarrow> nat option \<Rightarrow> real \<Rightarrow> 'a abuf \<Rightarrow> 'a abuf \<times> ('a \<times> int) list" where
  "form_batch_cash ranked_adapters tmax_k max_tokens t_now b =
     for_each (warp_body t_now (adapter_deadline tmax_k) (budget_of b max_tokens))
       ranked_adapters (b, [])"

subsection \<open>CASH holdback\<close>

definition eff_n_star :: "nat \<Rightarrow> nat \<Rightarrow> int \<Rightarrow> nat" where
  "eff_n_star w n_ranked n_star =
     (let K = max n_ranked 1 in nat (max 1 (min n_star (py_round (real w / real K)))))"

definition wgkp_deadline :: "('a, real) dict \<Rightarrow> 'a abuf \<Rightarrow> 'a \<Rightarrow> real" where
  "wgkp_deadline tmax_k b k = min (dict_get tmax_k k (t_max b)) (ttft_slo b)"

text \<open>What the five rules decide: the number of tokens to dispatch, the promotion flag and
  whether the timeout counter ticks.\<close>

definition wgkp_rule ::
  "nat \<Rightarrow> nat \<Rightarrow> nat \<Rightarrow> real \<Rightarrow> real \<Rightarrow> bool \<Rightarrow> nat \<Rightarrow> nat \<times> bool \<times> bool" where
  "wgkp_rule w n_eff q_len age deadline merged room =
     (if q_len \<ge> w then
        (let n = min (q_len div w) (room div w) * w in (n, merged \<and> n > 0, False))
      else if q_len \<ge> n_eff then
        (let n = min q_len room in (n, merged \<and> n > 0, False))
      else if q_len \<ge> ceil_half n_eff \<and> age > deadline / 2 then (min q_len room, False, False)
      else if age \<ge> deadline then (min q_len room, False, True)
      else (0, False, False))"

definition wgkp_body ::
  "real \<Rightarrow> ('a, real) dict \<Rightarrow> nat \<Rightarrow> 'a set \<Rightarrow> nat \<Rightarrow> 'a \<Rightarrow> 'a abuf \<times> ('a \<times> int \<times> bool) list \<Rightarrow>
   ('a abuf \<times> ('a \<times> int \<times> bool) list) flow" where
  "wgkp_body t_now tmax_k n_eff merged_adapter_ids budget k st =
     (let (b, batch) = st in
      if length batch \<ge> budget then Break (b, batch)
      else let q = queue_of b k in
        if q = [] then Next (b, batch)
        else let (dispatch_n, is_promoted, timed_out) =
              wgkp_rule (warp b) n_eff (length q) (age_of b t_now k) (wgkp_deadline tmax_k b k)
                (k \<in> merged_adapter_ids) (budget - length batch);
            b1 = (if timed_out then b\<lparr>n_timeout_dispatches := n_timeout_dispatches b + 1\<rparr> else b)
          in if dispatch_n = 0 then Next (b1, batch)
             else let b2 = pop_front t_now k dispatch_n b1;
                 b3 = (if is_promoted
                       then b2\<lparr>n_warps_dispatched := n_warps_dispatched b2 + dispatch_n div max (warp b) 1\<rparr>
                       else b2)
               in Next (b3, batch @ map (\<lambda>(a, s). (a, s, is_promoted)) (popped k dispatch_n b)))"

definition form_batch_wgkp ::
  "'a list \<Rightarrow> ('a, real) dict \<Rightarrow> int \<Rightarrow> 'a set \<Rightarrow> nat option \<Rightarrow> real \<Rightarrow> 'a abuf \<Rightarrow>
   'a abuf \<times> ('a \<times> int \<times> bool) list" where
  "form_batch_wgkp ranked_adapters tmax_k n_star merged_adapter_ids max_tokens t_now b =
     for_each (wgkp_body t_now tmax_k (eff_n_star (warp b) (length ranked_adapters) n_star)
         merged_adapter_ids (budget_of b max_tokens))
       ranked_adapters (b, [])"

subsection \<open>Preemption\<close>

text \<open>The scan of \<open>preempt_and_hold\<close>: the queue without the first entry of \<open>s\<close>, and its time.\<close>

fun hold_scan :: "int \<Rightarrow> (int \<times> real) list \<Rightarrow> (int \<times> real) list \<times> real option" where
  "hold_scan s [] = ([], None)"
| "hold_scan s ((s', t) # q) =
     (if s' = s then (q, Some t) else let (q', r) = hold_scan s q in ((s', t) # q', r))"

definition preempt_and_hold :: "'a \<Rightarrow> int \<Rightarrow> 'a abuf \<Rightarrow> 'a abuf" where
  "preempt_and_hold k s b =
     (case map_of (queues b) k of
        None \<Rightarrow> b
      | Some q \<Rightarrow>
          let b1 = b\<lparr>shadow := dict_setdefault k [] (shadow b)\<rparr> in
          if s \<in> set (shadow_of b1 k) then b1
          else let (new_q, found) = hold_scan s q;
                   b2 = (case found of
                           None \<Rightarrow> b1
                         | Some t \<Rightarrow> b1\<lparr>shadow := dict_set k (shadow_of b1 k @ [s]) (shadow b1),
                                        shadow_time := dict_set s t (shadow_time b1),
                                        seq_enqueue := dict_pop s (seq_enqueue b1)\<rparr>)
               in b2\<lparr>queues := dict_set k new_q (queues b2),
                     enqueue_time := dict_set k (head_time new_q) (enqueue_time b2)\<rparr>)"

definition resume_from_shadow :: "'a \<Rightarrow> int \<Rightarrow> real \<Rightarrow> 'a abuf \<Rightarrow> 'a abuf" where
  "resume_from_shadow k s t_now b =
     (if s \<notin> set (shadow_of b k) then b
      else let b1 = b\<lparr>shadow := dict_set k (remove1 s (shadow_of b k)) (shadow b)\<rparr>;
               t = dict_get (shadow_time b1) s t_now;
               b2 = register_adapter k (b1\<lparr>shadow_time := dict_pop s (shadow_time b1)\<rparr>);
               oldest = dict_get (enqueue_time b2) k None
           in b2\<lparr>queues := dict_set k ((s, t) # queue_of b2 k) (queues b2),
                 enqueue_time := dict_set k (Some (case oldest of None \<Rightarrow> t | Some o' \<Rightarrow> min o' t))
                   (enqueue_time b2),
                 seq_enqueue := dict_set s t (seq_enqueue b2)\<rparr>)"

subsection \<open>Counters\<close>

definition shadow_count :: "'a abuf \<Rightarrow> ('a, nat) dict" where
  "shadow_count b = map (\<lambda>(k, v). (k, length v)) (shadow b)"

definition pending_count :: "'a abuf \<Rightarrow> ('a, nat) dict" where
  "pending_count b = map (\<lambda>(k, q). (k, length q)) (queues b)"

definition max_queue_depth :: "'a abuf \<Rightarrow> nat" where
  "max_queue_depth b = (if queues b = [] then 0 else Max (set (map (\<lambda>(k, q). length q) (queues b))))"

definition oldest_token_age_ms :: "real \<Rightarrow> 'a abuf \<Rightarrow> real" where
  "oldest_token_age_ms t_now b =
     (let ages = [(t_now - t) * 1000. (k, Some t) \<leftarrow> enqueue_time b]
      in if ages = [] then 0 else Max (set ages))"

definition pending_total :: "'a abuf \<Rightarrow> nat" where
  "pending_total b = sum_list (map (\<lambda>(k, q). length q) (queues b))"

record buffer_stats =
  st_warps :: nat
  st_timeouts :: nat
  st_enqueued :: nat
  st_dispatched :: nat
  st_pending :: nat
  st_max_depth :: nat

definition buffer_stats_of :: "'a abuf \<Rightarrow> buffer_stats" where
  "buffer_stats_of b = \<lparr>st_warps = n_warps_dispatched b, st_timeouts = n_timeout_dispatches b,
     st_enqueued = n_tokens_enqueued b, st_dispatched = n_tokens_dispatched b,
     st_pending = pending_total b, st_max_depth = max_queue_depth b\<rparr>"

definition buffer_reset_stats :: "'a abuf \<Rightarrow> 'a abuf" where
  "buffer_reset_stats b = b\<lparr>n_warps_dispatched := 0, n_timeout_dispatches := 0,
     n_tokens_enqueued := 0, n_tokens_dispatched := 0\<rparr>"

end
