(* ===== verification/BufferTick.thy ===== *)
theory BufferTick
  imports Buffer "HOL-Library.Sublist"
begin

text \<open>
  What one call of a \<open>form_batch\<close> function does to the buffer, proved once for every dispatch
  rule: the locale \<open>queue_dispatch\<close> is the contract of a loop body, \<open>tick\<close> the effect of a
  whole call. \<open>prompt_dispatch\<close> extends it with what the rule does to a queue when the batch
  has room for it, from which the deadline guarantees follow.
\<close>

subsection \<open>The effect of a tick\<close>

text \<open>The sequence ids of adapter \<open>k\<close> in a batch, in batch order.\<close>

definition sel :: "'a \<Rightarrow> ('a \<times> int) list \<Rightarrow> int list" where
  "sel k out = map snd (filter (\<lambda>p. fst p = k) out)"

lemma sel_simps [simp]:
  "sel k [] = []" "sel k (xs @ ys) = sel k xs @ sel k ys"
  "sel k (p # ps) = (if fst p = k then snd p # sel k ps else sel k ps)"
  by (simp_all add: sel_def)

lemma sel_popped: "sel j (popped k n b) = (if j = k then map fst (take n (queue_of b k)) else [])"
  by (auto simp: sel_def popped_def filter_map o_def case_prod_beta filter_empty_conv)

lemma length_popped [simp]: "length (popped k n b) = min n (length (queue_of b k))"
  by (simp add: popped_def min.commute)

lemma fst_popped: "map fst (popped k n b) = replicate (min n (length (queue_of b k))) k"
  by (simp add: popped_def o_def case_prod_beta map_replicate_const min.commute)

lemma queue_of_dict_set:
  "queues b' = dict_set k q (queues b) \<Longrightarrow> queue_of b' j = (if j = k then q else queue_of b j)"
  by (simp add: queue_of_def)

lemma queue_of_keyD: "queue_of b k \<noteq> [] \<Longrightarrow> k \<in> fst ` set (queues b)"
  by (metis dict_get_None queue_of_def)

definition pops :: "'a \<Rightarrow> nat \<Rightarrow> 'a abuf \<Rightarrow> 'a abuf \<Rightarrow> bool" where
  "pops k n b b' \<longleftrightarrow>
     queues b' = dict_set k (drop n (queue_of b k)) (queues b) \<and>
     enqueue_time b' = dict_set k (head_time (drop n (queue_of b k))) (enqueue_time b) \<and>
     seq_enqueue b' = seq_enqueue b \<and> shadow b' = shadow b \<and> shadow_time b' = shadow_time b \<and>
     warp b' = warp b \<and> t_max b' = t_max b \<and> ttft_slo b' = ttft_slo b \<and>
     n_tokens_enqueued b' = n_tokens_enqueued b \<and>
     n_tokens_dispatched b' = n_tokens_dispatched b + n"

definition tick :: "'a abuf \<Rightarrow> ('a \<times> int) list \<Rightarrow> 'a abuf \<Rightarrow> bool" where
  "tick b out b' \<longleftrightarrow>
     (\<forall>k. sel k out = map fst (take (length (sel k out)) (queue_of b k)) \<and>
          queue_of b' k = drop (length (sel k out)) (queue_of b k) \<and>
          dict_get (enqueue_time b') k None =
            (if sel k out = [] then dict_get (enqueue_time b) k None else head_time (queue_of b' k))) \<and>
     dict_keys (queues b') = dict_keys (queues b) \<and>
     (dict_ok (enqueue_time b) \<longrightarrow> dict_ok (enqueue_time b')) \<and>
     (fst ` set (queues b) \<subseteq> fst ` set (enqueue_time b) \<longrightarrow>
        fst ` set (enqueue_time b') = fst ` set (enqueue_time b)) \<and>
     seq_enqueue b' = seq_enqueue b \<and> shadow b' = shadow b \<and> shadow_time b' = shadow_time b \<and>
     warp b' = warp b \<and> t_max b' = t_max b \<and> ttft_slo b' = ttft_slo b \<and>
     n_tokens_enqueued b' = n_tokens_enqueued b \<and>
     n_tokens_dispatched b' = n_tokens_dispatched b + length out"

lemma tick_refl: "tick b [] b"
  by (simp add: tick_def)

lemma tick_pops:
  assumes t: "tick b out b1" and p: "pops k n b1 b2" and n: "0 < n" "n \<le> length (queue_of b1 k)"
  shows "tick b (out @ popped k n b1) b2"
proof -
  have k: "k \<in> fst ` set (queues b1)" using n by (intro queue_of_keyD) auto
  then have keys: "dict_keys (queues b2) = dict_keys (queues b1)"
    using p by (simp add: pops_def)
  have q2: "queue_of b2 j = (if j = k then drop n (queue_of b1 k) else queue_of b1 j)" for j
    using p by (intro queue_of_dict_set) (simp add: pops_def)
  let ?l = "length (sel k out)"
  have q1: "queue_of b1 k = drop ?l (queue_of b k)" and s1: "sel k out = map fst (take ?l (queue_of b k))"
    using t by (auto simp: tick_def)
  have len: "?l + n \<le> length (queue_of b k)" using n q1 by simp
  have sk: "sel k (out @ popped k n b1) = map fst (take (?l + n) (queue_of b k))"
    using s1 by (simp add: sel_popped q1 take_add)
  have lk: "length (sel k (out @ popped k n b1)) = ?l + n" using len by (simp only: sk) simp
  have other: "sel j (out @ popped k n b1) = sel j out" if "j \<noteq> k" for j
    using that by (simp add: sel_popped)
  have per_queue: "sel j (out @ popped k n b1) =
        map fst (take (length (sel j (out @ popped k n b1))) (queue_of b j)) \<and>
      queue_of b2 j = drop (length (sel j (out @ popped k n b1))) (queue_of b j) \<and>
      dict_get (enqueue_time b2) j None =
        (if sel j (out @ popped k n b1) = [] then dict_get (enqueue_time b) j None
         else head_time (queue_of b2 j))" for j
  proof (cases "j = k")
    case True
    have ne: "sel k (out @ popped k n b1) \<noteq> []" using lk n(1) by (metis add_is_0 gr_implies_not0 list.size(3))
    have "dict_get (enqueue_time b2) k None = head_time (queue_of b2 k)"
      using p by (simp add: pops_def q2)
    then show ?thesis using ne unfolding True lk
      by (simp only: sk if_False) (simp add: q2 q1 add.commute)
  next
    case False
    then show ?thesis
      using t p unfolding other [OF False] by (simp add: tick_def q2 pops_def)
  qed
  have "fst ` set (queues b) \<subseteq> fst ` set (enqueue_time b) \<longrightarrow>
      fst ` set (enqueue_time b2) = fst ` set (enqueue_time b)"
  proof
    assume sub: "fst ` set (queues b) \<subseteq> fst ` set (enqueue_time b)"
    have "fst ` set (queues b1) = fst ` set (queues b)"
      using t by (metis tick_def list.set_map)
    then show "fst ` set (enqueue_time b2) = fst ` set (enqueue_time b)"
      using t p k sub by (auto simp: tick_def pops_def)
  qed
  moreover have "dict_ok (enqueue_time b) \<longrightarrow> dict_ok (enqueue_time b2)"
    using t p by (simp add: tick_def pops_def)
  moreover have "dict_keys (queues b2) = dict_keys (queues b)"
    using t keys by (simp add: tick_def)
  moreover have "seq_enqueue b2 = seq_enqueue b" "shadow b2 = shadow b" "shadow_time b2 = shadow_time b"
      "warp b2 = warp b" "t_max b2 = t_max b" "ttft_slo b2 = ttft_slo b"
      "n_tokens_enqueued b2 = n_tokens_enqueued b"
      "n_tokens_dispatched b2 = n_tokens_dispatched b + length (out @ popped k n b1)"
    using t p n by (simp_all add: tick_def pops_def)
  ultimately show ?thesis
    unfolding tick_def [of b "out @ popped k n b1" b2] using per_queue by blast
qed

lemma tick_trans:
  assumes t1: "tick b o1 b1" and t2: "tick b1 o2 b2"
  shows "tick b (o1 @ o2) b2"
proof -
  have "sel k (o1 @ o2) = map fst (take (length (sel k (o1 @ o2))) (queue_of b k)) \<and>
      queue_of b2 k = drop (length (sel k (o1 @ o2))) (queue_of b k) \<and>
      dict_get (enqueue_time b2) k None =
        (if sel k (o1 @ o2) = [] then dict_get (enqueue_time b) k None else head_time (queue_of b2 k))" for k
  proof -
    let ?l1 = "length (sel k o1)" and ?l2 = "length (sel k o2)"
    have s1: "sel k o1 = map fst (take ?l1 (queue_of b k))" and q1: "queue_of b1 k = drop ?l1 (queue_of b k)"
      and e1: "dict_get (enqueue_time b1) k None =
        (if sel k o1 = [] then dict_get (enqueue_time b) k None else head_time (queue_of b1 k))"
      using t1 unfolding tick_def by blast+
    have s2: "sel k o2 = map fst (take ?l2 (queue_of b1 k))" and q2: "queue_of b2 k = drop ?l2 (queue_of b1 k)"
      and e2: "dict_get (enqueue_time b2) k None =
        (if sel k o2 = [] then dict_get (enqueue_time b1) k None else head_time (queue_of b2 k))"
      using t2 unfolding tick_def by blast+
    have "sel k (o1 @ o2) = map fst (take (?l1 + ?l2) (queue_of b k))"
      using s1 s2 by (simp add: q1 take_add)
    moreover have "queue_of b2 k = drop (?l1 + ?l2) (queue_of b k)"
      by (simp add: q2 q1 add.commute)
    moreover have "sel k o2 = [] \<Longrightarrow> queue_of b2 k = queue_of b1 k"
      by (simp add: q2)
    moreover have len: "length (sel k (o1 @ o2)) = ?l1 + ?l2" by simp
    moreover have "dict_get (enqueue_time b2) k None =
        (if sel k o1 @ sel k o2 = [] then dict_get (enqueue_time b) k None else head_time (queue_of b2 k))"
    proof (cases "sel k o2 = []")
      case True
      then show ?thesis using e1 e2 calculation(3) by simp
    next
      case False
      then show ?thesis using e2 by simp
    qed
    ultimately show ?thesis unfolding len by simp
  qed
  moreover have "fst ` set (queues b1) = fst ` set (queues b)"
    using t1 by (metis tick_def list.set_map)
  moreover have "dict_keys (queues b2) = dict_keys (queues b)" "seq_enqueue b2 = seq_enqueue b"
      "shadow b2 = shadow b" "shadow_time b2 = shadow_time b"
      "warp b2 = warp b" "t_max b2 = t_max b" "ttft_slo b2 = ttft_slo b"
      "n_tokens_enqueued b2 = n_tokens_enqueued b"
      "n_tokens_dispatched b2 = n_tokens_dispatched b + length (o1 @ o2)"
      "dict_ok (enqueue_time b) \<Longrightarrow> dict_ok (enqueue_time b2)"
      "fst ` set (queues b1) \<subseteq> fst ` set (enqueue_time b1) \<Longrightarrow>
        fst ` set (enqueue_time b2) = fst ` set (enqueue_time b1)"
      "fst ` set (queues b) \<subseteq> fst ` set (enqueue_time b) \<Longrightarrow>
        fst ` set (enqueue_time b1) = fst ` set (enqueue_time b)"
    using t1 t2 by (simp_all add: tick_def)
  ultimately show ?thesis
    unfolding tick_def [of b "o1 @ o2"] by metis
qed

lemma subseq_distinct: "subseq xs ys \<Longrightarrow> distinct ys \<Longrightarrow> distinct xs"
  by (auto simp: subseq_conv_nths intro: distinct_nthsI)

subsection \<open>The contract of a loop body\<close>

locale queue_dispatch =
  fixes body :: "'a \<Rightarrow> 'a abuf \<times> 'e list \<Rightarrow> ('a abuf \<times> 'e list) flow"
    and proj :: "'e \<Rightarrow> 'a \<times> int"
    and budget :: nat
  assumes step: "flow_state (body k (b, batch)) = (b, batch) \<or>
    (\<exists>n b' xs. flow_state (body k (b, batch)) = (b', batch @ xs) \<and> 0 < n \<and>
       n \<le> length (queue_of b k) \<and> n \<le> budget - length batch \<and> pops k n b b' \<and>
       map proj xs = popped k n b)"
begin

lemma visit:
  "\<exists>xs b'. for_each body ks (b, batch) = (b', batch @ xs) \<and> tick b (map proj xs) b' \<and>
     length (batch @ xs) \<le> max budget (length batch) \<and>
     subseq (remdups_adj (map (fst \<circ> proj) xs)) ks"
proof (induction ks arbitrary: b batch)
  case Nil
  show ?case by (rule exI [of _ "[]"]) (simp add: tick_refl)
next
  case (Cons k ks)
  show ?case
  proof (cases "body k (b, batch)")
    case (Next s)
    from step [of k b batch] consider
      (hold) "s = (b, batch)"
    | (pop) n b1 ys where "s = (b1, batch @ ys)" "0 < n" "n \<le> length (queue_of b k)"
        "n \<le> budget - length batch" "pops k n b b1" "map proj ys = popped k n b"
      by (auto simp: Next)
    then show ?thesis
    proof cases
      case hold
      obtain xs b' where "for_each body ks (b, batch) = (b', batch @ xs)" "tick b (map proj xs) b'"
          "length (batch @ xs) \<le> max budget (length batch)"
          "subseq (remdups_adj (map (fst \<circ> proj) xs)) ks"
        using Cons.IH by blast
      then show ?thesis using Next hold
        by (intro exI [of _ xs] exI [of _ b']) (simp add: comp_def list_emb_Cons)
    next
      case pop
      obtain xs b' where r: "for_each body ks (b1, batch @ ys) = (b', (batch @ ys) @ xs)"
          "tick b1 (map proj xs) b'"
          "length ((batch @ ys) @ xs) \<le> max budget (length (batch @ ys))"
          "subseq (remdups_adj (map (fst \<circ> proj) xs)) ks"
        using Cons.IH by blast
      have lys: "length ys = n"
        using arg_cong [OF pop(6), of length] pop(3) by simp
      have t: "tick b (map proj ys) b1"
        using tick_pops [OF tick_refl pop(5) pop(2,3)] pop(6) by simp
      have "tick b (map proj ys @ map proj xs) b'"
        using t r(2) by (rule tick_trans)
      moreover have "length (batch @ ys @ xs) \<le> max budget (length batch)"
        using r(3) pop(2,4) lys by auto
      moreover have "subseq (remdups_adj (map (fst \<circ> proj) (ys @ xs))) (k # ks)"
      proof -
        have "map (fst \<circ> proj) ys = replicate n k"
          using arg_cong [OF pop(6), of "map fst"] pop(3) by (simp add: fst_popped)
        then have "remdups_adj (map (fst \<circ> proj) (ys @ xs)) =
            remdups_adj (replicate n k @ map (fst \<circ> proj) xs)" by simp
        moreover have "subseq (remdups_adj (replicate n k @ zs)) (k # remdups_adj zs)" for zs
        proof (induction n)
          case (Suc n)
          have "remdups_adj (replicate (Suc n) k @ zs) = k # remdups_adj zs \<or>
              remdups_adj (replicate (Suc n) k @ zs) = remdups_adj zs"
          proof (induction n)
            case 0
            show ?case by (cases zs) auto
          next
            case (Suc n)
            then show ?case by simp
          qed
          then show ?case by (auto intro: subseq_Cons')
        qed (auto intro: list_emb_Cons)
        ultimately show ?thesis using r(4) by (metis subseq_Cons2 subseq_order.trans)
      qed
      ultimately show ?thesis
        using r(1) Next pop(1) by (intro exI [of _ "ys @ xs"] exI [of _ b']) (simp add: comp_def)
    qed
  next
    case (Break s)
    from step [of k b batch] consider
      (hold) "s = (b, batch)"
    | (pop) n b1 ys where "s = (b1, batch @ ys)" "0 < n" "n \<le> length (queue_of b k)"
        "n \<le> budget - length batch" "pops k n b b1" "map proj ys = popped k n b"
      by (auto simp: Break)
    then show ?thesis
    proof cases
      case hold
      then show ?thesis using Break tick_refl by (intro exI [of _ "[]"] exI [of _ b]) simp
    next
      case pop
      have "length ys = n" using arg_cong [OF pop(6), of length] pop(3) by simp
      moreover have "map (fst \<circ> proj) ys = replicate n k"
        using arg_cong [OF pop(6), of "map fst"] pop(3) by (simp add: fst_popped)
      moreover have "tick b (map proj ys) b1"
        using tick_pops [OF tick_refl pop(5) pop(2,3)] pop(6) by simp
      moreover have "length (batch @ ys) \<le> max budget (length batch)"
        using pop(2,4) \<open>length ys = n\<close> by simp
      ultimately show ?thesis
        using Break pop
        by (intro exI [of _ ys] exI [of _ b1]) (auto simp: remdups_adj_replicate comp_def)
    qed
  qed
qed

lemma whole_tick:
  assumes "for_each body ks (b, []) = (b', out)"
  shows "tick b (map proj out) b'" and "length out \<le> budget"
    and "subseq (remdups_adj (map (fst \<circ> proj) out)) ks"
  using visit [of ks b "[]"] assms by auto

lemma contiguous:
  assumes "for_each body ks (b, []) = (b', out)" and "distinct ks"
  shows "distinct (remdups_adj (map (fst \<circ> proj) out))"
  using whole_tick(3) [OF assms(1)] assms(2) by (rule subseq_distinct)

end

lemma pops_pop_front:
  "pops k n b ((pop_front t k n b)\<lparr>n_warps_dispatched := x\<rparr>)"
  "pops k n b ((pop_front t k n b)\<lparr>n_timeout_dispatches := x\<rparr>)"
  "pops k n b (pop_front t k n b)"
  by (simp_all add: pops_def pop_front_def Let_def)

interpretation warp_rule: queue_dispatch "warp_body t_now deadline budget" id budget
  for t_now :: real and deadline :: "'a abuf \<Rightarrow> 'a \<Rightarrow> real" and budget :: nat
proof
  fix k :: 'a and b :: "'a abuf" and batch :: "('a \<times> int) list"
  let ?n1 = "min (length (queue_of b k) div warp b) ((budget - length batch) div warp b) * warp b"
  have n1: "?n1 \<le> length (queue_of b k)" "?n1 \<le> budget - length batch"
    by (metis div_times_less_eq_dividend le_trans min.cobounded1 min.cobounded2 mult_le_mono1)+
  let ?f = "flow_state (warp_body t_now deadline budget k (b, batch))"
  let ?n2 = "min (length (queue_of b k)) (budget - length batch)"
  consider (hold) "?f = (b, batch)"
    | (full) "0 < ?n1"
        "?f = ((pop_front t_now k ?n1 b)\<lparr>n_warps_dispatched := n_warps_dispatched (pop_front t_now k ?n1 b)
           + min (length (queue_of b k) div warp b) ((budget - length batch) div warp b)\<rparr>, batch @ popped k ?n1 b)"
    | (late) "0 < ?n2"
        "?f = ((pop_front t_now k ?n2 b)\<lparr>n_timeout_dispatches := n_timeout_dispatches (pop_front t_now k ?n2 b) + 1\<rparr>,
           batch @ popped k ?n2 b)"
  proof (cases "length batch \<ge> budget \<or> queue_of b k = []")
    case True
    then show ?thesis using hold by (auto simp: warp_body_def Let_def)
  next
    case False
    then have n2: "0 < ?n2" and F: "\<not> budget \<le> length batch" "queue_of b k \<noteq> []" by simp_all
    consider "length (queue_of b k) \<ge> warp b" "?n1 = 0" | "length (queue_of b k) \<ge> warp b" "0 < ?n1"
      | "\<not> length (queue_of b k) \<ge> warp b" "age_of b t_now k \<ge> deadline b k"
      | "\<not> length (queue_of b k) \<ge> warp b" "\<not> age_of b t_now k \<ge> deadline b k"
      by linarith
    then show ?thesis
    proof cases
      case 1
      then show ?thesis using hold F by (simp only: warp_body_def Let_def prod.case flow_state.simps if_True if_False simp_thms)
    next
      case 2
      have ne: "(?n1 = 0) = False" unfolding eq_False by (rule gr_implies_not0 [OF 2(2)])
      show ?thesis using 2 F by (intro full) (simp_all only: ne warp_body_def Let_def prod.case flow_state.simps if_True if_False simp_thms)
    next
      case 3
      then show ?thesis using late F n2 by (simp only: warp_body_def Let_def prod.case flow_state.simps if_True if_False simp_thms)
    next
      case 4
      then show ?thesis using hold F by (simp only: warp_body_def Let_def prod.case flow_state.simps if_True if_False simp_thms)
    qed
  qed
  then show "?f = (b, batch) \<or>
    (\<exists>n b' xs. ?f = (b', batch @ xs) \<and> 0 < n \<and> n \<le> length (queue_of b k) \<and>
       n \<le> budget - length batch \<and> pops k n b b' \<and> map id xs = popped k n b)"
  proof cases
    case full
    show ?thesis
      unfolding full(2) by (intro disjI2 exI conjI, rule refl) (use full n1 in \<open>simp_all add: pops_pop_front\<close>)
  next
    case late
    show ?thesis
      unfolding late(2) by (intro disjI2 exI conjI, rule refl) (use late in \<open>simp_all add: pops_pop_front\<close>)
  qed simp
qed

definition token_of :: "'a \<times> int \<times> bool \<Rightarrow> 'a \<times> int" where
  "token_of p = (fst p, fst (snd p))"

lemma wgkp_rule_bounds:
  assumes "wgkp_rule w n_eff q age dl m room = (n, promoted, timed_out)"
  shows "n \<le> q" and "n \<le> room" and "timed_out \<Longrightarrow> n = min q room" and "promoted \<Longrightarrow> m \<and> 0 < n"
proof -
  have "min (q div w) (room div w) * w \<le> q" "min (q div w) (room div w) * w \<le> room"
    by (metis div_times_less_eq_dividend le_trans min.cobounded1 min.cobounded2 mult_le_mono1)+
  then show "n \<le> q" "n \<le> room" "timed_out \<Longrightarrow> n = min q room" "promoted \<Longrightarrow> m \<and> 0 < n"
    using assms by (auto simp: wgkp_rule_def Let_def split: if_splits)
qed

lemma map_token_of_flagged: "map token_of (map (\<lambda>(a, s). (a, s, f)) xs) = xs"
  by (induction xs) (auto simp: token_of_def)

interpretation wgkp: queue_dispatch "wgkp_body t_now tmax_k n_eff merged budget" token_of budget
  for t_now :: real and tmax_k :: "('a, real) dict" and n_eff :: nat and merged :: "'a set"
    and budget :: nat
proof
  fix k :: 'a and b :: "'a abuf" and batch :: "('a \<times> int \<times> bool) list"
  let ?f = "flow_state (wgkp_body t_now tmax_k n_eff merged budget k (b, batch))"
  obtain n p u where r: "wgkp_rule (warp b) n_eff (length (queue_of b k)) (age_of b t_now k)
      (wgkp_deadline tmax_k b k) (k \<in> merged) (budget - length batch) = (n, p, u)"
    by (metis prod_cases3)
  have q1: "queue_of (b\<lparr>n_timeout_dispatches := x\<rparr>) k = queue_of b k" for x by (simp add: queue_of_def)
  show "?f = (b, batch) \<or>
    (\<exists>n b' xs. ?f = (b', batch @ xs) \<and> 0 < n \<and> n \<le> length (queue_of b k) \<and>
       n \<le> budget - length batch \<and> pops k n b b' \<and> map token_of xs = popped k n b)"
  proof (cases "length batch \<ge> budget \<or> queue_of b k = [] \<or> n = 0")
    case True
    have "n = 0 \<Longrightarrow> \<not> length batch \<ge> budget \<Longrightarrow> queue_of b k \<noteq> [] \<Longrightarrow> \<not> u"
      using wgkp_rule_bounds(3) [OF r] by (auto simp: min_def split: if_splits)
    then show ?thesis using True r by (auto simp: wgkp_body_def Let_def)
  next
    case False
    let ?b1 = "if u then b\<lparr>n_timeout_dispatches := n_timeout_dispatches b + 1\<rparr> else b"
    let ?b2 = "pop_front t_now k n ?b1"
    let ?b3 = "if p then ?b2\<lparr>n_warps_dispatched := n_warps_dispatched ?b2 + n div max (warp b) 1\<rparr> else ?b2"
    have f: "?f = (?b3, batch @ map (\<lambda>(a, s). (a, s, p)) (popped k n b))"
      using False r by (simp add: wgkp_body_def Let_def)
    have "pops k n b ?b3" by (simp add: pops_def pop_front_def Let_def q1)
    then show ?thesis
      using f False wgkp_rule_bounds(1,2) [OF r] map_token_of_flagged [of p "popped k n b"]
      by (intro disjI2 exI [of _ n] exI [of _ ?b3] exI conjI) auto
  qed
qed

subsection \<open>Batches with room for every token\<close>

text \<open>What a rule takes from a queue the batch has room for.\<close>

definition warp_amount :: "real \<Rightarrow> ('a abuf \<Rightarrow> 'a \<Rightarrow> real) \<Rightarrow> 'a abuf \<Rightarrow> 'a \<Rightarrow> nat" where
  "warp_amount t deadline b k =
     (let n = length (queue_of b k) in
      if n \<ge> warp b then n div warp b * warp b else if age_of b t k \<ge> deadline b k then n else 0)"

definition wgkp_amount ::
  "real \<Rightarrow> ('a, real) dict \<Rightarrow> nat \<Rightarrow> 'a set \<Rightarrow> 'a abuf \<Rightarrow> 'a \<Rightarrow> nat" where
  "wgkp_amount t d n_eff ms b k =
     (let n = length (queue_of b k) in
      fst (wgkp_rule (warp b) n_eff n (age_of b t k) (wgkp_deadline d b k) (k \<in> ms) n))"

text \<open>The part of the buffer a rule looks at for adapter \<open>k\<close>.\<close>

definition same_view :: "'a \<Rightarrow> 'a abuf \<Rightarrow> 'a abuf \<Rightarrow> bool" where
  "same_view k b b' \<longleftrightarrow> queue_of b' k = queue_of b k \<and>
     dict_get (enqueue_time b') k None = dict_get (enqueue_time b) k None \<and>
     warp b' = warp b \<and> t_max b' = t_max b \<and> ttft_slo b' = ttft_slo b"

locale prompt_dispatch = queue_dispatch +
  fixes amount :: "'a abuf \<Rightarrow> 'a \<Rightarrow> nat"
  assumes empty_next: "queue_of b k = [] \<Longrightarrow> body k (b, batch) = Next (b, batch) \<or>
      (body k (b, batch) = Break (b, batch) \<and> budget \<le> length batch)"
    and roomy: "0 < warp b \<Longrightarrow> queue_of b k \<noteq> [] \<Longrightarrow>
      length batch + length (queue_of b k) \<le> budget \<Longrightarrow>
      \<exists>b' xs. body k (b, batch) = Next (b', batch @ xs) \<and>
        length (queue_of b' k) = length (queue_of b k) - amount b k"
    and amount_view: "same_view k b b' \<Longrightarrow> amount b' k = amount b k"
begin

lemma step_view:
  assumes "flow_state (body j (b, batch)) = (b1, batch @ xs)"
  shows "warp b1 = warp b \<and> length xs \<le> length (queue_of b j) \<and> (i \<noteq> j \<longrightarrow> same_view i b b1)"
proof -
  from step [of j b batch] assms consider "b1 = b" "xs = []"
    | n where "pops j n b b1" "n \<le> length (queue_of b j)" "map proj xs = popped j n b"
    by auto
  then show ?thesis
  proof cases
    case (2 n)
    have "length xs = n" using arg_cong [OF 2(3), of length] 2(2) by simp
    then show ?thesis using 2 by (simp add: same_view_def pops_def queue_of_def)
  qed (simp add: same_view_def)
qed

lemma other_queue:
  assumes "for_each body ks (b, batch) = (b', out)" and "k \<notin> set ks"
  shows "queue_of b' k = queue_of b k"
proof -
  obtain xs where t: "tick b (map proj xs) b'" and s: "subseq (remdups_adj (map (fst \<circ> proj) xs)) ks"
    using visit [of ks b batch] assms(1) by auto
  have "set (map (fst \<circ> proj) xs) \<subseteq> set ks"
    using s by (metis notin_set_nthsI remdups_adj_set subseq_conv_nths subsetI)
  then have "sel k (map proj xs) = []"
    using assms(2) by (auto simp: sel_def filter_empty_conv)
  then show ?thesis using t by (simp add: tick_def)
qed

lemma amount_settles:
  assumes "0 < warp b" and "distinct ks"
    and "length batch + (\<Sum>k\<leftarrow>ks. length (queue_of b k)) \<le> budget"
    and "for_each body ks (b, batch) = (b', out)"
    and "k \<in> set ks" and "queue_of b k \<noteq> []"
  shows "length (queue_of b' k) = length (queue_of b k) - amount b k"
  using assms
proof (induction ks arbitrary: b batch)
  case (Cons j ks)
  show ?case
  proof (cases "queue_of b j = []")
    case True
    then have kj: "k \<in> set ks" using Cons.prems(5,6) by auto
    consider "body j (b, batch) = Next (b, batch)" | "budget \<le> length batch"
      using empty_next [OF True] by blast
    then show ?thesis
    proof cases
      case 1
      then have "for_each body ks (b, batch) = (b', out)" using Cons.prems(4) by simp
      from Cons.IH [OF Cons.prems(1) _ _ this kj Cons.prems(6)] show ?thesis
        using Cons.prems(2,3) True by simp
    next
      case 2
      have "length (queue_of b k) \<le> (\<Sum>k\<leftarrow>ks. length (queue_of b k))"
        using kj by (intro member_le_sum_list) auto
      also have "\<dots> \<le> 0" using 2 Cons.prems(3) by (simp only: list.map sum_list.Cons)
      finally show ?thesis using Cons.prems(6) by simp
    qed
  next
    case False
    obtain b1 xs where bd: "body j (b, batch) = Next (b1, batch @ xs)"
        and l1: "length (queue_of b1 j) = length (queue_of b j) - amount b j"
      using roomy [OF Cons.prems(1) False, of batch] Cons.prems(3) by auto
    have r: "for_each body ks (b1, batch @ xs) = (b', out)" using Cons.prems(4) bd by simp
    from step_view [of j b batch b1 xs] bd
    have w: "warp b1 = warp b" and lx: "length xs \<le> length (queue_of b j)"
      and view: "\<And>i. i \<noteq> j \<Longrightarrow> same_view i b b1" by simp_all
    show ?thesis
    proof (cases "k = j")
      case True
      then have "k \<notin> set ks" using Cons.prems(2) by simp
      with other_queue [OF r] show ?thesis using True l1 by simp
    next
      case False
      have same: "i \<in> set ks \<Longrightarrow> queue_of b1 i = queue_of b i" for i
        using Cons.prems(2) view [of i] unfolding same_view_def by force
      have "(\<Sum>i\<leftarrow>ks. length (queue_of b1 i)) = (\<Sum>i\<leftarrow>ks. length (queue_of b i))"
        by (intro arg_cong [of _ _ sum_list] map_cong refl) (simp add: same)
      then have "length (batch @ xs) + (\<Sum>i\<leftarrow>ks. length (queue_of b1 i)) \<le> budget"
        using Cons.prems(3) lx by simp
      from Cons.IH [OF _ _ this r] show ?thesis
        using Cons.prems w False view [OF False] amount_view [OF view [OF False]]
        by (simp add: same_view_def)
    qed
  qed
qed simp

end

lemma warp_body_prompt:
  assumes dl: "\<And>k (b :: 'a abuf) b'. same_view k b b' \<Longrightarrow> deadline b' k = deadline b k"
  shows "prompt_dispatch (warp_body t deadline budget) id budget (warp_amount t deadline)"
proof
  fix k :: 'a and b :: "'a abuf" and batch
  show "queue_of b k = [] \<Longrightarrow> warp_body t deadline budget k (b, batch) = Next (b, batch) \<or>
      warp_body t deadline budget k (b, batch) = Break (b, batch) \<and> budget \<le> length batch"
    by (simp add: warp_body_def)
next
  fix k :: 'a and b :: "'a abuf" and batch :: "('a \<times> int) list"
  assume a: "0 < warp b" "queue_of b k \<noteq> []" "length batch + length (queue_of b k) \<le> budget"
  let ?n = "length (queue_of b k)"
  have room: "\<not> budget \<le> length batch" using a(2,3) by (cases "queue_of b k") auto
  have m: "min (?n div warp b) ((budget - length batch) div warp b) = ?n div warp b"
    "min ?n (budget - length batch) = ?n"
    using a(3) by (simp_all add: div_le_mono min_absorb1)
  have q: "queue_of (pop_front t k i b\<lparr>n_warps_dispatched := x\<rparr>) k = drop i (queue_of b k)"
    "queue_of (pop_front t k i b\<lparr>n_timeout_dispatches := x\<rparr>) k = drop i (queue_of b k)" for i x
    by (simp_all add: pop_front_def queue_of_def Let_def)
  have nz: "warp b \<le> ?n \<Longrightarrow> ?n div warp b * warp b \<noteq> 0" using a(1) by (simp add: div_eq_0_iff)
  show "\<exists>b' xs. warp_body t deadline budget k (b, batch) = Next (b', batch @ xs) \<and>
      length (queue_of b' k) = ?n - warp_amount t deadline b k"
    using a room nz by (simp add: warp_body_def warp_amount_def Let_def m q) auto
next
  fix k :: 'a and b b' :: "'a abuf"
  assume "same_view k b b'"
  then show "warp_amount t deadline b' k = warp_amount t deadline b k"
    using dl [of k b b'] by (simp add: warp_amount_def same_view_def age_of_def Let_def)
qed

lemma deadline_view:
  "same_view k b b' \<Longrightarrow> global_deadline b' k = global_deadline b k"
  "same_view k b b' \<Longrightarrow> adapter_deadline d b' k = adapter_deadline d b k"
  "same_view k b b' \<Longrightarrow> wgkp_deadline d b' k = wgkp_deadline d b k"
  by (simp_all add: same_view_def global_deadline_def adapter_deadline_def wgkp_deadline_def)

interpretation static_prompt: prompt_dispatch "warp_body t global_deadline budget" id budget
    "warp_amount t global_deadline"
  for t :: real and budget :: nat
  by (rule warp_body_prompt) (rule deadline_view)

interpretation adapter_prompt: prompt_dispatch "warp_body t (adapter_deadline d) budget" id budget
    "warp_amount t (adapter_deadline d)"
  for t :: real and d :: "('a, real) dict" and budget :: nat
  by (rule warp_body_prompt) (rule deadline_view)

interpretation wgkp_prompt: prompt_dispatch "wgkp_body t d n_eff ms budget" token_of budget
    "wgkp_amount t d n_eff ms"
  for t :: real and d :: "('a, real) dict" and n_eff :: nat and ms :: "'a set" and budget :: nat
proof
  fix k :: 'a and b :: "'a abuf" and batch
  show "queue_of b k = [] \<Longrightarrow> wgkp_body t d n_eff ms budget k (b, batch) = Next (b, batch) \<or>
      wgkp_body t d n_eff ms budget k (b, batch) = Break (b, batch) \<and> budget \<le> length batch"
    by (simp add: wgkp_body_def)
next
  fix k :: 'a and b :: "'a abuf" and batch :: "('a \<times> int \<times> bool) list"
  assume a: "0 < warp b" "queue_of b k \<noteq> []" "length batch + length (queue_of b k) \<le> budget"
  let ?n = "length (queue_of b k)" and ?m = "k \<in> ms"
  have room: "\<not> budget \<le> length batch" using a(2,3) by (cases "queue_of b k") auto
  have m: "min (?n div warp b) ((budget - length batch) div warp b) = ?n div warp b"
    "min ?n (budget - length batch) = ?n"
    using a(3) by (simp_all add: div_le_mono min_absorb1)
  have rule: "wgkp_rule (warp b) n_eff ?n age dl mg (budget - length batch) =
      wgkp_rule (warp b) n_eff ?n age dl mg ?n" for age dl mg
    by (simp add: wgkp_rule_def m)
  obtain i p u where r: "wgkp_rule (warp b) n_eff ?n (age_of b t k) (wgkp_deadline d b k) ?m ?n = (i, p, u)"
    by (metis prod_cases3)
  have q: "queue_of (pop_front t k i b'\<lparr>n_warps_dispatched := x\<rparr>) k = drop i (queue_of b' k)"
    "queue_of (pop_front t k i b') k = drop i (queue_of b' k)"
    "queue_of (b\<lparr>n_timeout_dispatches := y\<rparr>) k = queue_of b k" for x y b'
    by (simp_all add: pop_front_def queue_of_def Let_def)
  show "\<exists>b' xs. wgkp_body t d n_eff ms budget k (b, batch) = Next (b', batch @ xs) \<and>
      length (queue_of b' k) = ?n - wgkp_amount t d n_eff ms b k"
    using a room by (simp add: wgkp_body_def wgkp_amount_def Let_def rule r q)
next
  fix k :: 'a and b b' :: "'a abuf"
  assume v: "same_view k b b'"
  then show "wgkp_amount t d n_eff ms b' k = wgkp_amount t d n_eff ms b k"
    using deadline_view(3) [OF v] by (simp add: wgkp_amount_def same_view_def age_of_def Let_def)
qed

subsection \<open>The four dispatch functions\<close>

text \<open>The arguments that select one of them; the dispatcher's modes call exactly one per tick.\<close>

datatype 'a policy =
    Static
  | Erlang "('a, real) dict"
  | Cash "'a list" "('a, real) dict"
  | Wgkp "'a list" "('a, real) dict" int "'a set"

fun dispatch :: "'a policy \<Rightarrow> nat option \<Rightarrow> real \<Rightarrow> 'a abuf \<Rightarrow> 'a abuf \<times> ('a \<times> int) list" where
  "dispatch Static m t b = form_batch m t b"
| "dispatch (Erlang d) m t b = form_batch_erlang d m t b"
| "dispatch (Cash ks d) m t b = form_batch_cash ks d m t b"
| "dispatch (Wgkp ks d n ms) m t b =
     (let (b', out) = form_batch_wgkp ks d n ms m t b in (b', map token_of out))"

fun visited :: "'a policy \<Rightarrow> 'a abuf \<Rightarrow> 'a list" where
  "visited Static b = dict_keys (queues b)"
| "visited (Erlang d) b = dict_keys (queues b)"
| "visited (Cash ks d) b = ks"
| "visited (Wgkp ks d n ms) b = ks"

lemmas form_defs = form_batch_def form_batch_erlang_def form_batch_cash_def form_batch_wgkp_def

lemma dispatch_tick:
  assumes "dispatch p m t b = (b', out)"
  shows "tick b out b'" and "length out \<le> budget_of b m"
    and "subseq (remdups_adj (map fst out)) (visited p b)"
proof -
  have "tick b out b' \<and> length out \<le> budget_of b m \<and> subseq (remdups_adj (map fst out)) (visited p b)"
  proof (cases p)
    case Static
    then show ?thesis using assms warp_rule.whole_tick [of t global_deadline _ _ b b' out]
      by (simp add: form_defs)
  next
    case (Erlang d)
    then show ?thesis using assms warp_rule.whole_tick [of t "adapter_deadline d" _ _ b b' out]
      by (simp add: form_defs)
  next
    case (Cash ks d)
    then show ?thesis using assms warp_rule.whole_tick [of t "adapter_deadline d" _ _ b b' out]
      by (simp add: form_defs)
  next
    case (Wgkp ks d n ms)
    obtain fl where "form_batch_wgkp ks d n ms m t b = (b', fl)" "out = map token_of fl"
      using assms Wgkp by (auto split: prod.splits)
    then show ?thesis using Wgkp wgkp.whole_tick [of t d _ ms _ ks b b' fl]
      by (simp add: form_defs comp_def)
  qed
  then show "tick b out b'" "length out \<le> budget_of b m"
    "subseq (remdups_adj (map fst out)) (visited p b)" by blast+
qed

lemma tick_queue: "tick b out b' \<Longrightarrow> map fst (queue_of b k) = sel k out @ map fst (queue_of b' k)"
  unfolding tick_def by (metis append_take_drop_id map_append)

fun policy_deadline :: "'a policy \<Rightarrow> 'a abuf \<Rightarrow> 'a \<Rightarrow> real" where
  "policy_deadline Static b k = global_deadline b k"
| "policy_deadline (Erlang d) b k = adapter_deadline d b k"
| "policy_deadline (Cash ks d) b k = adapter_deadline d b k"
| "policy_deadline (Wgkp ks d n ms) b k = wgkp_deadline d b k"

text \<open>The enqueue time kept for an adapter is its head's, and no later token is older.\<close>

definition well_timed :: "'a abuf \<Rightarrow> 'a \<Rightarrow> bool" where
  "well_timed b k \<longleftrightarrow> dict_get (enqueue_time b) k None = head_time (queue_of b k) \<and>
     sorted (map snd (queue_of b k))"

text \<open>A small buffer to evaluate: two adapters, warps of two tokens, three tokens queued.\<close>

definition sample_buffer :: "int abuf" where
  "sample_buffer = enqueue 2 13 (1/10) (enqueue 1 12 (1/10) (enqueue 1 11 0 (buffer_init [1, 2] 2 50 100)))"

lemmas dict_eval = dict_set_def dict_get_def dict_pop_def dict_has_def

lemma sample_buffer_eval: "sample_buffer =
   \<lparr>warp = 2, t_max = 1/20, ttft_slo = 1/10,
    queues = [(1, [(11, 0), (12, 1/10)]), (2, [(13, 1/10)])],
    shadow = [(1, []), (2, [])], shadow_time = [],
    enqueue_time = [(1, Some 0), (2, Some (1/10))], last_dispatch = [],
    n_warps_dispatched = 0, n_timeout_dispatches = 0, n_tokens_enqueued = 3,
    n_tokens_dispatched = 0, seq_enqueue = [(11, 0), (12, 1/10), (13, 1/10)]\<rparr>"
  by (simp add: sample_buffer_def enqueue_def buffer_init_def dict_eval register_adapter_def
      queue_of_def Let_def)

lemmas batch_eval = sample_buffer_eval form_defs warp_body_def Let_def queue_of_def dict_eval pop_front_def
  popped_def head_time_def age_of_def global_deadline_def adapter_deadline_def budget_of_def

text \<open>Adapter 1 has a full warp; adapter 2's only token is 20 ms old, below its deadline.\<close>

abbreviation sample_dispatch :: "int abuf \<times> (int \<times> int) list" where
  "sample_dispatch \<equiv> dispatch Static (Some 10) (3/25) sample_buffer"

lemma sample_tick:
  "snd sample_dispatch = [(1, 11), (1, 12)]" "queue_of (fst sample_dispatch) 1 = []"
  "queue_of (fst sample_dispatch) 2 = [(13, 1/10)]" "n_tokens_dispatched (fst sample_dispatch) = 2"
  by (simp_all add: batch_eval)

lemma sample_fields: "warp sample_buffer = 2" "dict_keys (queues sample_buffer) = [1, 2]"
  "queue_of sample_buffer 1 = [(11, 0), (12, 1/10)]" "queue_of sample_buffer 2 = [(13, 1/10)]"
  "n_tokens_dispatched sample_buffer = 0" "well_timed sample_buffer 2" "budget_of sample_buffer (Some 10) = 10"
  "policy_deadline Static sample_buffer 2 = 1/20"
  by (simp_all add: sample_buffer_eval queue_of_def dict_eval well_timed_def head_time_def budget_of_def
      global_deadline_def)

text \<open>C10: Every tick, under every dispatch policy, stays within its token budget and serves each
  adapter first in, first out: for each adapter, the sequence ids queued before the tick are
  those of the batch, in batch order, followed by those still queued. So nothing is dropped,
  duplicated or reordered inside an adapter, and the dispatch counter grows by the batch size.\<close>

theorem tick_is_fifo_within_budget:
  assumes "dispatch p m t b = (b', out)"
  shows "length out \<le> budget_of b m \<and>
    map fst (queue_of b k) = map snd (filter (\<lambda>e. fst e = k) out) @ map fst (queue_of b' k) \<and>
    n_tokens_dispatched b' = n_tokens_dispatched b + length out"
proof -
  have "n_tokens_dispatched b' = n_tokens_dispatched b + length out"
    using dispatch_tick(1) [OF assms] by (simp add: tick_def)
  then show ?thesis
    using dispatch_tick [OF assms] tick_queue [of b out b' k] by (simp add: sel_def)
qed

theorem tick_is_fifo_within_budget_witness:
  "length (snd sample_dispatch) \<le> 10 \<and> [11, 12] = map snd (filter (\<lambda>e. fst e = 1) [(1::int, 11::int), (1, 12)]) \<and>
   n_tokens_dispatched (fst sample_dispatch) = 2"
  using tick_is_fifo_within_budget [of Static "Some 10" "3/25" sample_buffer "fst sample_dispatch"
      "snd sample_dispatch" 1]
  by (simp add: sample_tick sample_fields del: dispatch.simps)

text \<open>The tokens of one adapter are contiguous in every batch whose visiting order has no
  repetition (the queues' own order, or a ranking without duplicates), so a batch switches
  adapter at most once per adapter and the kernel sees one segment each.\<close>

theorem adapters_are_contiguous:
  assumes "dispatch p m t b = (b', out)" and "distinct (visited p b)"
  shows "distinct (map hd (runs (map fst out)))"
  unfolding map_hd_runs using dispatch_tick(3) [OF assms(1)] assms(2) by (rule subseq_distinct)

theorem adapters_are_contiguous_witness: "distinct (map hd (runs (map fst (snd sample_dispatch))))"
  using adapters_are_contiguous [of Static "Some 10" "3/25" sample_buffer "fst sample_dispatch"
      "snd sample_dispatch"]
  by (simp add: sample_fields del: dispatch.simps)

lemma well_timed_age:
  assumes "well_timed b k" and "(s, \<tau>) \<in> set (queue_of b k)"
  shows "t - \<tau> \<le> age_of b t k"
proof (cases "queue_of b k")
  case (Cons e q)
  then have "snd e \<le> \<tau>" using assms by (auto simp: well_timed_def)
  then show ?thesis using assms(1) Cons
    by (simp add: well_timed_def age_of_def head_time_def split: prod.splits)
qed (use assms in simp)

text \<open>How many tokens each policy takes from a queue it has room for.\<close>

fun policy_amount :: "'a policy \<Rightarrow> real \<Rightarrow> 'a abuf \<Rightarrow> 'a \<Rightarrow> nat" where
  "policy_amount Static t b k = warp_amount t global_deadline b k"
| "policy_amount (Erlang d) t b k = warp_amount t (adapter_deadline d) b k"
| "policy_amount (Cash ks d) t b k = warp_amount t (adapter_deadline d) b k"
| "policy_amount (Wgkp ks d n ms) t b k =
     wgkp_amount t d (eff_n_star (warp b) (length ks) n) ms b k"

lemma dispatch_amount:
  assumes "0 < warp b" and "distinct (visited p b)"
    and "(\<Sum>k\<leftarrow>visited p b. length (queue_of b k)) \<le> budget_of b m"
    and "dispatch p m t b = (b', out)" and "k \<in> set (visited p b)" and "queue_of b k \<noteq> []"
  shows "length (queue_of b' k) = length (queue_of b k) - policy_amount p t b k"
proof (cases p)
  case (Wgkp ks d n ms)
  obtain fl where "form_batch_wgkp ks d n ms m t b = (b', fl)"
    using assms(4) Wgkp by (auto split: prod.splits)
  then show ?thesis
    using wgkp_prompt.amount_settles [OF assms(1), of ks "[]" "budget_of b m" t d _ ms b' fl k] assms Wgkp
    by (simp add: form_defs)
next
  case Static
  then show ?thesis
    using static_prompt.amount_settles [OF assms(1), of "dict_keys (queues b)" "[]" "budget_of b m" t b' out k]
      assms by (simp add: form_defs)
next
  case (Erlang d)
  then show ?thesis
    using adapter_prompt.amount_settles [OF assms(1), of "dict_keys (queues b)" "[]" "budget_of b m" t d b' out k]
      assms by (simp add: form_defs)
next
  case (Cash ks d)
  then show ?thesis
    using adapter_prompt.amount_settles [OF assms(1), of ks "[]" "budget_of b m" t d b' out k]
      assms by (simp add: form_defs)
qed

lemma amount_left:
  assumes "0 < warp b"
  shows "length (queue_of b k) - policy_amount p t b k < warp b \<and>
    (length (queue_of b k) < warp b \<longrightarrow> policy_deadline p b k \<le> age_of b t k \<longrightarrow>
     length (queue_of b k) - policy_amount p t b k = 0)"
proof -
  have "n - n div warp b * warp b < warp b" for n
    using assms by (simp add: minus_div_mult_eq_mod)
  then show ?thesis
    using assms by (cases p) (auto simp: warp_amount_def wgkp_amount_def wgkp_rule_def Let_def)
qed

text \<open>A queue with a full warp is served one at least, if there is room.\<close>

lemma full_warps_taken:
  assumes "0 < warp b" and "warp b \<le> length (queue_of b k)"
  shows "warp b \<le> policy_amount p t b k"
proof -
  have "1 \<le> length (queue_of b k) div warp b" using assms by (simp add: div_greater_zero_iff Suc_le_eq)
  then have "warp b \<le> length (queue_of b k) div warp b * warp b" by (cases "length (queue_of b k) div warp b") auto
  then show ?thesis
    using assms by (cases p) (auto simp: warp_amount_def wgkp_amount_def wgkp_rule_def Let_def)
qed

text \<open>
  The age a tick sees covers every queued token: the enqueue time kept for the adapter is not later than
  any of them. A queue whose tokens were enqueued and dispatched only is like this; a resumed token
  is put at the head with its old time, and the time kept is the minimum, so this holds right after a
  resumption too, but a dispatch that leaves resumed tokens of different ages behind can lose it.
\<close>

definition age_covers :: "'a abuf \<Rightarrow> 'a \<Rightarrow> bool" where
  "age_covers b k \<longleftrightarrow> list_all (\<lambda>(s, \<tau>). case dict_get (enqueue_time b) k None of None \<Rightarrow> False | Some e \<Rightarrow> e \<le> \<tau>)
     (queue_of b k)"

lemma age_covers_bound: "age_covers b k \<Longrightarrow> (s, \<tau>) \<in> set (queue_of b k) \<Longrightarrow> t - \<tau> \<le> age_of b t k"
  by (auto simp: age_covers_def list_all_iff age_of_def split: option.splits)

lemma well_timed_covers: "well_timed b k \<Longrightarrow> age_covers b k"
  by (cases "queue_of b k") (auto simp: well_timed_def age_covers_def list_all_iff head_time_def)

lemma deadline_within_slo: "policy_deadline p b k \<le> ttft_slo b"
  by (cases p) (simp_all add: global_deadline_def adapter_deadline_def wgkp_deadline_def)

text \<open>A tick with room serves at least the tokens in front of a warp once one of them is overdue.\<close>

lemma overdue_front_served:
  assumes "0 < warp b" and "distinct (visited p b)"
    and "(\<Sum>k\<leftarrow>visited p b. length (queue_of b k)) \<le> budget_of b m"
    and "dispatch p m t b = (b', out)" and "k \<in> set (visited p b)" and "age_covers b k"
    and front: "prefix xs (queue_of b k)" "length xs < warp b"
    and late: "(s, \<tau>) \<in> set xs" "policy_deadline p b k \<le> t - \<tau>"
  shows "prefix (map fst xs) (sel k out)"
proof -
  have ne: "queue_of b k \<noteq> []" and old: "(s, \<tau>) \<in> set (queue_of b k)"
    using front(1) late(1) set_mono_prefix by (auto simp: prefix_def)
  have age: "policy_deadline p b k \<le> age_of b t k"
    using age_covers_bound [OF assms(6) old, of t] late(2) by linarith
  have n: "length (queue_of b' k) = length (queue_of b k) - policy_amount p t b k"
    by (rule dispatch_amount [OF assms(1-5) ne])
  have sel: "map fst (queue_of b k) = sel k out @ map fst (queue_of b' k)"
    by (rule tick_queue [OF dispatch_tick(1) [OF assms(4)]])
  have "length xs + length (queue_of b' k) \<le> length (queue_of b k)"
  proof (cases "length (queue_of b k) < warp b")
    case True
    then have "length (queue_of b' k) = 0" using amount_left [OF assms(1), of k p t] n age by simp
    then show ?thesis using prefix_length_le [OF front(1)] by simp
  next
    case False
    then show ?thesis using full_warps_taken [OF assms(1), of k p t] n front(2) by linarith
  qed
  moreover have "length (queue_of b k) = length (sel k out) + length (queue_of b' k)"
    using arg_cong [OF sel, of length] by simp
  ultimately have "length (map fst xs) \<le> length (sel k out)" by simp
  moreover have "prefix (map fst xs) (map fst (queue_of b k))" using front(1) by (rule map_mono_prefix)
  moreover have "prefix (sel k out) (map fst (queue_of b k))" using sel by (metis prefixI)
  ultimately show ?thesis using prefix_length_prefix by blast
qed

text \<open>C11: When a batch has room for every queued token, a tick leaves fewer than one warp of
  tokens in each queue it visits, and every token it leaves behind either is younger than its
  adapter's deadline, which is at most T_SLO, or is the remainder of a queue that held a full warp and
  was dispatched in whole warps. That remainder, and every other token left behind, is served first by the
  next tick that finds one of them past its deadline: under whichever policy that tick runs, and whatever
  was enqueued behind them meanwhile, the sequences left behind are the first of that adapter in its batch.
  Both ticks visit each adapter once, have a budget for all queued tokens and a positive warp size, and find
  an enqueue time for the adapter that is not later than any token in its queue; the last can fail after tokens
  were preempted and resumed (see \<open>age_covers\<close>).\<close>

theorem roomy_tick_meets_deadlines:
  assumes "0 < warp b" and "distinct (visited p b)"
    and "(\<Sum>k\<leftarrow>visited p b. length (queue_of b k)) \<le> budget_of b m"
    and "dispatch p m t b = (b', out)" and "k \<in> set (visited p b)" and "age_covers b k"
  shows "length (queue_of b' k) < warp b \<and> policy_deadline p b k \<le> ttft_slo b \<and>
    (\<forall>(s, \<tau>) \<in> set (queue_of b' k).
       warp b \<le> length (queue_of b k) \<or> t - \<tau> < policy_deadline p b k) \<and>
    (\<forall>q m2 t2 c c' out2. warp c = warp b \<and> ttft_slo c = ttft_slo b \<and> prefix (queue_of b' k) (queue_of c k) \<and>
       age_covers c k \<and> distinct (visited q c) \<and> (\<Sum>j\<leftarrow>visited q c. length (queue_of c j)) \<le> budget_of c m2 \<and>
       k \<in> set (visited q c) \<and> dispatch q m2 t2 c = (c', out2) \<longrightarrow>
       policy_deadline q c k \<le> ttft_slo b \<and>
       ((\<exists>(s, \<tau>) \<in> set (queue_of b' k). policy_deadline q c k \<le> t2 - \<tau>) \<longrightarrow>
          prefix (map fst (queue_of b' k)) (map snd (filter (\<lambda>e. fst e = k) out2))))"
proof (intro conjI allI impI)
  have left: "length (queue_of b' k) < warp b \<and>
      (length (queue_of b k) < warp b \<longrightarrow> policy_deadline p b k \<le> age_of b t k \<longrightarrow> queue_of b' k = [])"
  proof (cases "queue_of b k = []")
    case True
    then show ?thesis using dispatch_tick(1) [OF assms(4)] assms(1) by (simp add: tick_def)
  next
    case False
    show ?thesis using dispatch_amount [OF assms(1-5) False] amount_left [OF assms(1), of k p t]
      by (simp flip: length_0_conv)
  qed
  then show "length (queue_of b' k) < warp b" by blast
  have "set (queue_of b' k) \<subseteq> set (queue_of b k)"
    using dispatch_tick(1) [OF assms(4)] by (metis tick_def set_drop_subset)
  then have "t - \<tau> \<le> age_of b t k" if "(s, \<tau>) \<in> set (queue_of b' k)" for s \<tau>
    using age_covers_bound [OF assms(6)] that by blast
  with left show "\<forall>(s, \<tau>) \<in> set (queue_of b' k). warp b \<le> length (queue_of b k) \<or> t - \<tau> < policy_deadline p b k"
    by fastforce
  fix q m2 t2 c c' out2
  assume next_tick: "warp c = warp b \<and> ttft_slo c = ttft_slo b \<and> prefix (queue_of b' k) (queue_of c k) \<and>
       age_covers c k \<and> distinct (visited q c) \<and> (\<Sum>j\<leftarrow>visited q c. length (queue_of c j)) \<le> budget_of c m2 \<and>
       k \<in> set (visited q c) \<and> dispatch q m2 t2 c = (c', out2)"
  then show "policy_deadline q c k \<le> ttft_slo b" using deadline_within_slo [of q c k] by simp
  assume "\<exists>(s, \<tau>) \<in> set (queue_of b' k). policy_deadline q c k \<le> t2 - \<tau>"
  then show "prefix (map fst (queue_of b' k)) (map snd (filter (\<lambda>e. fst e = k) out2))"
    using overdue_front_served [of c q m2 t2 c' out2 k "queue_of b' k"] next_tick left assms(1)
    by (auto simp: sel_def)
qed (rule deadline_within_slo)

text \<open>A second tick, 80 ms later, after adapter 1 enqueued another token.\<close>

abbreviation sample_later :: "int abuf" where
  "sample_later \<equiv> enqueue 1 14 (1/10) (fst sample_dispatch)"

lemma sample_later_fields:
  "warp sample_later = 2" "ttft_slo sample_later = 1/10" "ttft_slo sample_buffer = 1/10"
  "dict_keys (queues sample_later) = [1, 2]"
  "queue_of sample_later 1 = [(14, 1/10)]" "queue_of sample_later 2 = [(13, 1/10)]" "age_covers sample_later 2"
  "budget_of sample_later (Some 10) = 10" "policy_deadline Static sample_later 2 = 1/20"
  by (simp_all add: batch_eval enqueue_def register_adapter_def age_covers_def)

theorem roomy_tick_meets_deadlines_witness:
  "length (queue_of (fst sample_dispatch) 2) < 2 \<and>
   list_all (\<lambda>(s, \<tau>). 3/25 - \<tau> < 1/20) (queue_of (fst sample_dispatch) 2) \<and>
   prefix [13] (map snd (filter (\<lambda>e. fst e = 2) (snd (dispatch Static (Some 10) (1/5) sample_later))))"
proof -
  have "0 < warp sample_buffer" "distinct (visited Static sample_buffer)"
    "(\<Sum>k\<leftarrow>visited Static sample_buffer. length (queue_of sample_buffer k)) \<le> budget_of sample_buffer (Some 10)"
    "dispatch Static (Some 10) (3/25) sample_buffer = (fst sample_dispatch, snd sample_dispatch)"
    "2 \<in> set (visited Static sample_buffer)" "age_covers sample_buffer 2"
    using well_timed_covers [OF sample_fields(6)] by (simp_all add: sample_fields del: dispatch.simps)
  note now = roomy_tick_meets_deadlines [OF this, unfolded sample_tick sample_fields sample_later_fields]
  let ?later = "dispatch Static (Some 10) (1/5) sample_later"
  note later = now [THEN conjunct2, THEN conjunct2, THEN conjunct2, THEN spec [of _ Static], THEN spec [of _ "Some 10"],
      THEN spec [of _ "1/5"], THEN spec [of _ sample_later], THEN spec [of _ "fst ?later"], THEN spec [of _ "snd ?later"]]
  have "prefix [13] (map snd (filter (\<lambda>e. fst e = 2) (snd ?later)))"
    using later by (simp add: sample_later_fields del: dispatch.simps)
  then show ?thesis using now by (simp add: sample_tick del: dispatch.simps)
qed

end
