(* ===== verification/BufferTrace.thy ===== *)
theory BufferTrace
  imports BufferTick
begin

text \<open>
  Histories of the buffer: a sequence of calls of its public operations, each with its clock
  reading, and what every such history guarantees. \<open>step_event\<close> is one call, \<open>run_trace\<close> a
  history with the batches it produced.
\<close>

subsection \<open>Events\<close>

datatype 'a event =
    Enq 'a int real
  | Rel int
  | Tick "'a policy" "nat option" real
  | Preempt 'a int
  | Resume 'a int real

fun step_event :: "'a event \<Rightarrow> 'a abuf \<Rightarrow> 'a abuf \<times> ('a \<times> int) list" where
  "step_event (Enq k s t) b = (enqueue k s t b, [])"
| "step_event (Rel s) b = (release s b, [])"
| "step_event (Tick p m t) b = dispatch p m t b"
| "step_event (Preempt k s) b = (preempt_and_hold k s b, [])"
| "step_event (Resume k s t) b = (resume_from_shadow k s t b, [])"

fun run_trace :: "'a event list \<Rightarrow> 'a abuf \<Rightarrow> 'a abuf \<times> ('a \<times> int) list" where
  "run_trace [] b = (b, [])"
| "run_trace (e # es) b =
     (let (b1, out) = step_event e b; (b2, outs) = run_trace es b1 in (b2, out @ outs))"

text \<open>The sequence ids of adapter \<open>k\<close> that \<open>enqueue\<close> accepted along a history.\<close>

fun accepted :: "'a \<Rightarrow> 'a event \<Rightarrow> 'a abuf \<Rightarrow> int list" where
  "accepted k (Enq j s t) b = (if j = k \<and> \<not> is_buffered b s then [s] else [])"
| "accepted k _ b = []"

fun arrived :: "'a \<Rightarrow> 'a event list \<Rightarrow> 'a abuf \<Rightarrow> int list" where
  "arrived k [] b = []"
| "arrived k (e # es) b = accepted k e b @ arrived k es (fst (step_event e b))"

text \<open>The three per-adapter dictionaries have the same keys.\<close>

definition buf_ok :: "'a abuf \<Rightarrow> bool" where
  "buf_ok b \<longleftrightarrow> dict_ok (queues b) \<and> dict_ok (shadow b) \<and> dict_ok (enqueue_time b) \<and>
     fst ` set (shadow b) = fst ` set (queues b) \<and> fst ` set (enqueue_time b) = fst ` set (queues b)"

definition held :: "'a abuf \<Rightarrow> 'a \<Rightarrow> int multiset" where
  "held b k = mset (map fst (queue_of b k)) + mset (shadow_of b k)"

subsection \<open>One step\<close>

lemma view_simps [simp]:
  "queue_of (b\<lparr>shadow := x1\<rparr>) k = queue_of b k" "queue_of (b\<lparr>shadow_time := x2\<rparr>) k = queue_of b k"
  "queue_of (b\<lparr>seq_enqueue := x3\<rparr>) k = queue_of b k" "queue_of (b\<lparr>enqueue_time := x4\<rparr>) k = queue_of b k"
  "queue_of (b\<lparr>queues := dict_set j q d\<rparr>) k = (if k = j then q else dict_get d k [])"
  "queue_of (b\<lparr>n_tokens_enqueued := x5\<rparr>) k = queue_of b k"
  "shadow_of (b\<lparr>queues := y1\<rparr>) k = shadow_of b k" "shadow_of (b\<lparr>shadow_time := y2\<rparr>) k = shadow_of b k"
  "shadow_of (b\<lparr>seq_enqueue := y3\<rparr>) k = shadow_of b k" "shadow_of (b\<lparr>enqueue_time := y4\<rparr>) k = shadow_of b k"
  "shadow_of (b\<lparr>shadow := dict_set j s d'\<rparr>) k = (if k = j then s else dict_get d' k [])"
  "shadow_of (b\<lparr>n_tokens_enqueued := y5\<rparr>) k = shadow_of b k"
  by (simp_all add: queue_of_def shadow_of_def)

lemma view_folds: "dict_get (queues b) k [] = queue_of b k" "dict_get (shadow b) k [] = shadow_of b k"
  by (simp_all add: queue_of_def shadow_of_def)

lemma buf_ok_init: "buf_ok (buffer_init ks w t s)"
  by (simp add: buf_ok_def buffer_init_def)

lemma register_ok: "buf_ok b \<Longrightarrow> buf_ok (register_adapter k b)"
  by (auto simp: buf_ok_def register_adapter_def)

lemma register_keys: "k \<in> fst ` set (queues (register_adapter k b))"
  by (simp add: register_adapter_def dict_has_iff)

lemma register_queue [simp]: "queue_of (register_adapter k b) j = queue_of b j"
  by (auto simp: register_adapter_def queue_of_def dict_has_iff dict_get_None)

lemma register_shadow: "buf_ok b \<Longrightarrow> shadow_of (register_adapter k b) j = shadow_of b j"
  by (auto simp: register_adapter_def shadow_of_def dict_has_iff dict_get_None buf_ok_def)

lemma register_time: "buf_ok b \<Longrightarrow>
  dict_get (enqueue_time (register_adapter k b)) j None = dict_get (enqueue_time b) j None"
  by (auto simp: register_adapter_def dict_has_iff dict_get_None buf_ok_def)

lemma register_simps [simp]: "seq_enqueue (register_adapter k b) = seq_enqueue b"
  "shadow_time (register_adapter k b) = shadow_time b" "warp (register_adapter k b) = warp b"
  by (simp_all add: register_adapter_def)

lemma enqueue_ok: "buf_ok b \<Longrightarrow> buf_ok (enqueue k s t b)"
  using register_ok [of b k] register_keys [of k b]
  by (auto simp: enqueue_def buf_ok_def Let_def)

lemma tick_ok: "tick b out b' \<Longrightarrow> buf_ok b \<Longrightarrow> buf_ok b'"
  unfolding tick_def buf_ok_def by (metis list.set_map order_refl)

lemma hold_scan_mset:
  "hold_scan s q = (q', r) \<Longrightarrow> mset (map fst q) = mset (map fst q') + (if r = None then {#} else {#s#})"
  by (induction q arbitrary: q') (auto split: if_splits prod.splits)

text \<open>In a consistent buffer, what \<open>preempt_and_hold\<close> and \<open>resume_from_shadow\<close> change.\<close>

lemma preempt_eq:
  assumes ok: "buf_ok b"
  shows "preempt_and_hold k s b =
    (if k \<notin> fst ` set (queues b) \<or> s \<in> set (shadow_of b k) then b
     else case hold_scan s (queue_of b k) of
       (q', None) \<Rightarrow> b\<lparr>queues := dict_set k q' (queues b),
                       enqueue_time := dict_set k (head_time q') (enqueue_time b)\<rparr>
     | (q', Some t) \<Rightarrow> b\<lparr>shadow := dict_set k (shadow_of b k @ [s]) (shadow b),
                         shadow_time := dict_set s t (shadow_time b),
                         seq_enqueue := dict_pop s (seq_enqueue b),
                         queues := dict_set k q' (queues b),
                         enqueue_time := dict_set k (head_time q') (enqueue_time b)\<rparr>)"
proof (cases "map_of (queues b) k")
  case None
  then have "k \<notin> fst ` set (queues b)" by (simp add: map_of_eq_None_iff)
  with None show ?thesis by (simp add: preempt_and_hold_def)
next
  case (Some q)
  then have k: "k \<in> fst ` set (queues b)" by (force dest: map_of_SomeD)
  then have sh: "dict_setdefault k [] (shadow b) = shadow b"
    using ok by (simp add: dict_setdefault_def dict_has_iff buf_ok_def)
  have "queue_of b k = q" using Some by (simp add: queue_of_def dict_get_Some)
  then show ?thesis using Some k
    by (simp add: preempt_and_hold_def sh Let_def split: prod.splits option.splits)
qed

lemma resume_eq:
  assumes ok: "buf_ok b"
  shows "resume_from_shadow k s t b =
    (if s \<notin> set (shadow_of b k) then b
     else let \<tau> = dict_get (shadow_time b) s t in
       b\<lparr>shadow := dict_set k (remove1 s (shadow_of b k)) (shadow b),
         shadow_time := dict_pop s (shadow_time b),
         queues := dict_set k ((s, \<tau>) # queue_of b k) (queues b),
         enqueue_time := dict_set k (Some (case dict_get (enqueue_time b) k None of None \<Rightarrow> \<tau>
             | Some o' \<Rightarrow> min o' \<tau>)) (enqueue_time b),
         seq_enqueue := dict_set s \<tau> (seq_enqueue b)\<rparr>)"
proof (cases "s \<in> set (shadow_of b k)")
  case True
  have "k \<in> fst ` set (queues b)"
    using True ok by (metis buf_ok_def dict_get_None empty_iff list.set(1) shadow_of_def)
  then show ?thesis
    using True by (simp add: resume_from_shadow_def register_adapter_def dict_has_iff Let_def view_folds
        split: option.splits)
qed (simp add: resume_from_shadow_def)

lemma shadow_keyD: "buf_ok b \<Longrightarrow> s \<in> set (shadow_of b k) \<Longrightarrow> k \<in> fst ` set (queues b)"
  by (metis buf_ok_def dict_get_None empty_iff list.set(1) shadow_of_def)

lemma preempt_ok: "buf_ok b \<Longrightarrow> buf_ok (preempt_and_hold k s b)"
  by (auto simp: preempt_eq buf_ok_def split: prod.splits option.splits)

lemma resume_ok: "buf_ok b \<Longrightarrow> buf_ok (resume_from_shadow k s t b)"
  using shadow_keyD [of b s k] by (auto simp: resume_eq buf_ok_def Let_def)

lemma release_ok: "buf_ok b \<Longrightarrow> buf_ok (release s b)"
  by (simp add: release_def buf_ok_def)

lemma step_ok: "buf_ok b \<Longrightarrow> buf_ok (fst (step_event e b))"
proof (cases e)
  case (Tick p m t)
  then show "buf_ok b \<Longrightarrow> ?thesis"
    using dispatch_tick(1) [of p m t b] tick_ok by (metis prod.collapse step_event.simps(3))
qed (auto simp: enqueue_ok preempt_ok resume_ok release_ok)

text \<open>Tokens are neither lost nor created by any operation.\<close>

lemma held_view: "queue_of b' k = queue_of b k \<Longrightarrow> shadow_of b' k = shadow_of b k \<Longrightarrow> held b' k = held b k"
  by (simp add: held_def)

lemma enqueue_held: "buf_ok b \<Longrightarrow>
  held (enqueue j s t b) k = held b k + (if j = k \<and> \<not> is_buffered b s then {#s#} else {#})"
  using register_shadow [of b j]
  by (auto simp: enqueue_def held_def is_buffered_def view_folds Let_def)

lemma preempt_held: "buf_ok b \<Longrightarrow> held (preempt_and_hold j s b) k = held b k"
proof -
  assume ok: "buf_ok b"
  obtain q' r where h: "hold_scan s (queue_of b j) = (q', r)" by force
  show "held (preempt_and_hold j s b) k = held b k"
    using hold_scan_mset [OF h]
    by (auto simp: preempt_eq [OF ok] h held_def view_folds split: option.splits)
qed

lemma resume_held: "buf_ok b \<Longrightarrow> held (resume_from_shadow j s t b) k = held b k"
  by (auto simp: resume_eq held_def view_folds Let_def)

lemma tick_held: "tick b out b' \<Longrightarrow> mset (sel k out) + held b' k = held b k"
  using tick_queue [of b out b' k] by (simp add: held_def tick_def shadow_of_def)

lemma release_held: "held (release s b) k = held b k"
  by (simp add: release_def held_def)

lemma step_held:
  assumes "buf_ok b"
  shows "mset (sel k (snd (step_event e b))) + held (fst (step_event e b)) k =
    held b k + mset (accepted k e b)"
proof (cases e)
  case (Tick p m t)
  then show ?thesis using dispatch_tick(1) [of p m t b] tick_held by (metis accepted.simps(3) add.right_neutral
      mset.simps(1) prod.collapse step_event.simps(3))
qed (use assms in \<open>auto simp: enqueue_held preempt_held resume_held release_held\<close>)

lemma trace_ok: "buf_ok b \<Longrightarrow> buf_ok (fst (run_trace es b))"
proof (induction es arbitrary: b)
  case (Cons e es)
  then have "buf_ok (fst (run_trace es (fst (step_event e b))))" by (simp add: step_ok)
  then show ?case by (simp add: case_prod_beta Let_def)
qed simp

lemma trace_held:
  assumes "buf_ok b"
  shows "mset (sel k (snd (run_trace es b))) + held (fst (run_trace es b)) k =
    held b k + mset (arrived k es b)"
  using assms
proof (induction es arbitrary: b)
  case (Cons e es)
  let ?b1 = "fst (step_event e b)"
  have "mset (sel k (snd (run_trace es ?b1))) + held (fst (run_trace es ?b1)) k =
      held ?b1 k + mset (arrived k es ?b1)"
    by (rule Cons.IH [OF step_ok [OF Cons.prems]])
  then show ?case
    using step_held [OF Cons.prems, of k e] by (simp add: case_prod_beta Let_def ac_simps)
qed simp

text \<open>C9: No token is lost or invented, over any history of enqueues, releases, ticks under any
  policy, preemptions and resumptions of a new buffer: for each adapter the sequence ids that
  \<open>enqueue\<close> accepted are, with multiplicity, exactly those dispatched plus those still queued
  or held in the shadow queue.\<close>

theorem tokens_are_conserved:
  assumes "run_trace es (buffer_init ks w tm slo) = (b', out)"
  shows "mset (arrived k es (buffer_init ks w tm slo)) =
    mset (map snd (filter (\<lambda>e. fst e = k) out)) + mset (map fst (queue_of b' k)) + mset (shadow_of b' k)"
proof -
  have "held (buffer_init ks w tm slo) k = {#}"
    by (simp add: held_def buffer_init_def queue_of_def shadow_of_def dict_get_def map_of_dict_of)
  then show ?thesis
    using trace_held [OF buf_ok_init, of k es ks w tm slo] assms by (simp add: sel_def held_def ac_simps)
qed

theorem tokens_are_conserved_witness:
  "let out = snd (run_trace [Enq 1 11 0, Enq 2 13 0, Preempt 2 13, Tick Static None 1]
      (buffer_init [1, 2 :: int] 2 50 100))
   in mset [11] = mset (map snd (filter (\<lambda>e. fst e = 1) out)) + ({#} :: int multiset)"
  using tokens_are_conserved [OF prod.collapse [symmetric], of 1
      "[Enq 1 11 0, Enq 2 13 0, Preempt 2 13, Tick Static None 1]" "[1, 2 :: int]" 2 50 100]
  by (simp add: Let_def enqueue_def buffer_init_def dict_eval register_adapter_def queue_of_def
      preempt_and_hold_def is_buffered_def dict_setdefault_def shadow_of_def form_defs warp_body_def
      pop_front_def popped_def head_time_def age_of_def global_deadline_def budget_of_def)

subsection \<open>Order of service\<close>

fun holds_no_token :: "'a event \<Rightarrow> bool" where
  "holds_no_token (Preempt k s) = False"
| "holds_no_token (Resume k s t) = False"
| "holds_no_token _ = True"

lemma enqueue_queue: "queue_of (enqueue j s t b) k =
  queue_of b k @ (if j = k \<and> \<not> is_buffered b s then [(s, t)] else [])"
  by (auto simp: enqueue_def is_buffered_def Let_def view_folds)

lemma step_fifo:
  assumes "holds_no_token e"
  shows "sel k (snd (step_event e b)) @ map fst (queue_of (fst (step_event e b)) k) =
    map fst (queue_of b k) @ accepted k e b"
proof (cases e)
  case (Tick p m t)
  then show ?thesis
    using dispatch_tick(1) [of p m t b] tick_queue by (metis accepted.simps(3) append_Nil2 prod.collapse step_event.simps(3))
qed (use assms in \<open>auto simp: enqueue_queue release_def\<close>)

lemma trace_fifo:
  assumes "\<forall>e\<in>set es. holds_no_token e"
  shows "sel k (snd (run_trace es b)) @ map fst (queue_of (fst (run_trace es b)) k) =
    map fst (queue_of b k) @ arrived k es b"
  using assms
proof (induction es arbitrary: b)
  case (Cons e es)
  let ?b1 = "fst (step_event e b)"
  have "sel k (snd (run_trace es ?b1)) @ map fst (queue_of (fst (run_trace es ?b1)) k) =
      map fst (queue_of ?b1 k) @ arrived k es ?b1"
    using Cons by simp
  then show ?case
    using step_fifo [of e k b] Cons.prems by (simp add: case_prod_beta Let_def)
qed simp

text \<open>C12: Within an adapter, service is first come, first served across ticks: over any history
  without preemption, the sequence ids dispatched for an adapter followed by those still
  queued are exactly the ids \<open>enqueue\<close> accepted for it, in the order of their arrival.\<close>

theorem service_is_first_come_first_served:
  assumes "run_trace es (buffer_init ks w tm slo) = (b', out)" and "\<forall>e\<in>set es. holds_no_token e"
  shows "arrived k es (buffer_init ks w tm slo) =
    map snd (filter (\<lambda>e. fst e = k) out) @ map fst (queue_of b' k)"
proof -
  have "queue_of (buffer_init ks w tm slo) k = []"
    by (simp add: buffer_init_def queue_of_def dict_get_def map_of_dict_of)
  then show ?thesis
    using trace_fifo [OF assms(2), of k "buffer_init ks w tm slo"] assms(1) by (simp add: sel_def)
qed

text \<open>A history to evaluate: three arrivals, one of them held, two ticks.\<close>

definition sample_history :: "int event list" where
  "sample_history = [Enq 1 11 0, Enq 2 13 (1/50), Enq 1 11 (1/40), Tick Static None (1/25),
     Enq 1 12 (1/25), Tick (Erlang []) (Some 2) (3/50)]"

lemmas trace_eval = sample_history_def Let_def enqueue_def buffer_init_def dict_eval register_adapter_def
  queue_of_def is_buffered_def shadow_of_def form_defs warp_body_def pop_front_def popped_def head_time_def
  age_of_def global_deadline_def adapter_deadline_def budget_of_def

lemma sample_history_eval:
  "snd (run_trace sample_history (buffer_init [1, 2] 2 50 55)) = [(1, 11), (1, 12)]"
  "arrived 1 sample_history (buffer_init [1, 2] 2 50 55) = [11, 12]"
  by (simp_all add: trace_eval)

theorem service_is_first_come_first_served_witness:
  "arrived 1 sample_history (buffer_init [1, 2] 2 50 55) =
    [11, 12] @ map fst (queue_of (fst (run_trace sample_history (buffer_init [1, 2] 2 50 55))) 1)"
proof -
  have "\<forall>e\<in>set sample_history. holds_no_token e" by (simp add: sample_history_def)
  from service_is_first_come_first_served [OF prod.collapse [symmetric] this, where ks = "[1, 2]"
      and w = 2 and tm = 50 and slo = 55 and k = 1]
  show ?thesis by (simp add: sample_history_eval)
qed

subsection \<open>Enqueue times\<close>

fun event_times :: "'a event \<Rightarrow> real list" where
  "event_times (Enq k s t) = [t]"
| "event_times _ = []"

fun is_resume :: "'a event \<Rightarrow> bool" where
  "is_resume (Resume k s t) = True"
| "is_resume _ = False"

definition timed :: "real \<Rightarrow> 'a abuf \<Rightarrow> bool" where
  "timed T b \<longleftrightarrow> (\<forall>k. well_timed b k \<and> (\<forall>(s, t) \<in> set (queue_of b k). t \<le> T))"

lemma hold_scan_sub:
  "hold_scan s q = (q', r) \<Longrightarrow> subseq q' q"
  by (induction q arbitrary: q') (auto split: if_splits prod.splits)

lemma subseq_sorted: "subseq xs ys \<Longrightarrow> sorted (map f ys) \<Longrightarrow> sorted (map f xs)"
  by (metis sorted_nths subseq_conv_nths subseq_map)

lemma head_time_append: "head_time (q @ r) = (if q = [] then head_time r else head_time q)"
  by (cases q) (auto simp: head_time_def)

lemma head_time_None [simp]: "head_time q = None \<longleftrightarrow> q = []"
  by (auto simp: head_time_def split: list.splits)

lemma timed_enqueue:
  assumes "timed T b" and "T \<le> t" and "buf_ok b"
  shows "timed t (enqueue j s t b)"
proof (cases "is_buffered b s")
  case True
  then show ?thesis using assms by (force simp: timed_def enqueue_def is_buffered_def)
next
  case False
  have time: "dict_get (enqueue_time (enqueue j s t b)) k None =
      (if k = j \<and> queue_of b j = [] then Some t else dict_get (enqueue_time b) k None)" for k
  proof -
    have "dict_get (enqueue_time b) j None = None \<longleftrightarrow> queue_of b j = []"
      using assms(1) by (simp add: timed_def well_timed_def)
    then show ?thesis
      using False register_time [OF assms(3), of j] by (auto simp: enqueue_def is_buffered_def Let_def)
  qed
  show ?thesis unfolding timed_def
  proof (intro allI conjI)
    fix k
    have b: "well_timed b k" "\<forall>(s, t) \<in> set (queue_of b k). t \<le> T"
      using assms(1) by (auto simp: timed_def)
    then have "\<forall>e\<in>set (queue_of b k). snd e \<le> t" using assms(2) by fastforce
    then show "well_timed (enqueue j s t b) k"
      using b(1) False by (auto simp: well_timed_def time enqueue_queue sorted_append head_time_append)
        (simp add: head_time_def)
    show "\<forall>(s, u) \<in> set (queue_of (enqueue j s t b) k). u \<le> t"
      using b(2) assms(2) by (force simp: enqueue_queue)
  qed
qed

lemma timed_tick:
  assumes t: "timed T b" and "tick b out b'"
  shows "timed T b'"
  unfolding timed_def
proof (intro allI conjI)
  fix k
  let ?n = "length (sel k out)"
  have q: "queue_of b' k = drop ?n (queue_of b k)"
    and e: "dict_get (enqueue_time b') k None =
      (if sel k out = [] then dict_get (enqueue_time b) k None else head_time (queue_of b' k))"
    using assms(2) by (auto simp: tick_def)
  have "well_timed b k" using t by (simp add: timed_def)
  then show "well_timed b' k"
    using e q by (auto simp: well_timed_def sorted_wrt_drop split: if_splits simp flip: drop_map)
  show "\<forall>(s, u) \<in> set (queue_of b' k). u \<le> T"
    using t unfolding q timed_def by (metis in_set_dropD)
qed

lemma timed_preempt:
  assumes t: "timed T b" and ok: "buf_ok b"
  shows "timed T (preempt_and_hold j s b)"
proof (cases "j \<notin> fst ` set (queues b) \<or> s \<in> set (shadow_of b j)")
  case True
  then show ?thesis using t by (auto simp: preempt_eq [OF ok])
next
  case False
  obtain q' r where h: "hold_scan s (queue_of b j) = (q', r)" by force
  let ?b = "preempt_and_hold j s b"
  have q: "queue_of ?b k = (if k = j then q' else queue_of b k)" for k
    using False by (auto simp: preempt_eq [OF ok] h view_folds split: option.splits)
  have e: "dict_get (enqueue_time ?b) k None =
      (if k = j then head_time q' else dict_get (enqueue_time b) k None)" for k
    using False by (auto simp: preempt_eq [OF ok] h split: option.splits)
  have sub: "subseq q' (queue_of b j)" using hold_scan_sub [OF h] .
  have "sorted (map snd q')"
    using t subseq_sorted [OF sub] by (metis timed_def well_timed_def)
  moreover have "set q' \<subseteq> set (queue_of b j)"
    using sub by (metis notin_set_nthsI subseq_conv_nths subsetI)
  moreover have "\<forall>(s, u) \<in> set (queue_of b j). u \<le> T" using t by (simp add: timed_def)
  ultimately have "\<forall>(s, u) \<in> set q'. u \<le> T" "sorted (map snd q')" by blast+
  then show ?thesis using t by (auto simp: timed_def well_timed_def q e)
qed

lemma timed_trace:
  assumes "timed T b" and "buf_ok b" and "\<forall>e\<in>set es. \<not> is_resume e"
    and "sorted (T # concat (map event_times es))"
  shows "\<exists>T'. timed T' (fst (run_trace es b))"
  using assms
proof (induction es arbitrary: T b)
  case (Cons e es)
  let ?b1 = "fst (step_event e b)"
  have ok: "buf_ok ?b1" by (rule step_ok [OF Cons.prems(2)])
  have "\<exists>T1. timed T1 ?b1 \<and> sorted (T1 # concat (map event_times es))"
  proof (cases e)
    case (Enq k s t)
    then show ?thesis using timed_enqueue [OF Cons.prems(1) _ Cons.prems(2), of t k s] Cons.prems(4)
      by (intro exI [of _ t]) auto
  next
    case (Tick p m t)
    then show ?thesis
      using timed_tick [OF Cons.prems(1) dispatch_tick(1) [of p m t b]] Cons.prems(4)
      by (intro exI [of _ T]) (simp, metis prod.collapse)
  next
    case (Rel s)
    then show ?thesis using Cons.prems by (intro exI [of _ T]) (simp add: timed_def well_timed_def release_def)
  next
    case (Preempt k s)
    then show ?thesis using timed_preempt [OF Cons.prems(1,2)] Cons.prems(4) by (intro exI [of _ T]) simp
  next
    case (Resume k s t)
    then show ?thesis using Cons.prems(3) by simp
  qed
  then show ?case using Cons.IH [OF _ ok] Cons.prems(3) by (auto simp: case_prod_beta Let_def)
qed auto

text \<open>As long as no held token is resumed and the clock does not go back, the enqueue time
  kept per adapter is the time of the oldest token in its queue, and each queue is in the order
  of its tokens' times, so the age the deadlines are compared with is the longest wait.\<close>

theorem enqueue_time_is_oldest:
  assumes "\<forall>e\<in>set es. \<not> is_resume e" and "sorted (concat (map event_times es))"
  shows "well_timed (fst (run_trace es (buffer_init ks w tm slo))) k"
proof -
  let ?ts = "concat (map event_times es)"
  define T where "T = (if ?ts = [] then 0 else hd ?ts)"
  have "timed T (buffer_init ks w tm slo)"
    by (simp add: timed_def well_timed_def buffer_init_def queue_of_def dict_get_def map_of_dict_of
        head_time_def)
  moreover have "sorted (T # ?ts)" using assms(2) by (cases ?ts) (auto simp: T_def simp del: concat_eq_Nil_conv)
  ultimately show ?thesis
    using timed_trace [OF _ buf_ok_init assms(1)] by (metis timed_def)
qed

theorem enqueue_time_is_oldest_witness:
  "well_timed (fst (run_trace sample_history (buffer_init [1, 2] 2 50 55))) 2"
  by (rule enqueue_time_is_oldest) (simp_all add: sample_history_def)

subsection \<open>Sequences that vanish from the queues\<close>

text \<open>
  \<open>enqueue\<close> ignores a sequence that still has an enqueue record. The record is dropped by
  \<open>release\<close> only, so a dispatched sequence that was not released is never queued again.
\<close>

definition ghost :: "int \<Rightarrow> 'a abuf \<Rightarrow> bool" where
  "ghost s b \<longleftrightarrow> is_buffered b s \<and> (\<forall>k. s \<notin> fst ` set (queue_of b k) \<and> s \<notin> set (shadow_of b k))"

lemma hold_scan_absent: "s \<notin> fst ` set q \<Longrightarrow> hold_scan s q = (q, None)"
  by (induction q) auto

lemma hold_scan_keys: "hold_scan s q = (q', r) \<Longrightarrow> fst ` set q' \<subseteq> fst ` set q"
proof -
  assume "hold_scan s q = (q', r)"
  then have "subseq q' q" by (rule hold_scan_sub)
  then show ?thesis by (metis image_mono notin_set_nthsI subseq_conv_nths subsetI)
qed

lemma ghost_step:
  assumes g: "ghost s b" and ok: "buf_ok b" and e: "e \<noteq> Rel s"
  shows "ghost s (fst (step_event e b)) \<and> s \<notin> snd ` set (snd (step_event e b))"
proof (cases e)
  case (Enq k s' t)
  then show ?thesis
    using g register_shadow [OF ok, of k] by (auto simp: ghost_def enqueue_def is_buffered_def dict_has_def Let_def view_folds)
next
  case (Rel s')
  then show ?thesis using g e by (simp add: ghost_def is_buffered_def release_def dict_has_def)
next
  case (Tick p m t)
  obtain b' out where d: "dispatch p m t b = (b', out)" by force
  have tk: "tick b out b'" by (rule dispatch_tick(1) [OF d])
  have "s \<notin> set (sel k out)" "s \<notin> fst ` set (queue_of b' k)" for k
  proof -
    have "fst ` set (queue_of b k) = set (sel k out) \<union> fst ` set (queue_of b' k)"
      using arg_cong [OF tick_queue [OF tk, of k], of set] by simp
    then show "s \<notin> set (sel k out)" "s \<notin> fst ` set (queue_of b' k)"
      using g unfolding ghost_def by blast+
  qed
  moreover have "seq_enqueue b' = seq_enqueue b" "shadow b' = shadow b" using tk by (auto simp: tick_def)
  ultimately show ?thesis
    using g Tick d by (auto simp: ghost_def is_buffered_def shadow_of_def sel_def)
next
  case (Preempt k s')
  obtain q' r where h: "hold_scan s' (queue_of b k) = (q', r)" by force
  have "s' = s \<Longrightarrow> r = None" using h hold_scan_absent [of s "queue_of b k"] g by (auto simp: ghost_def)
  then show ?thesis
    using g Preempt hold_scan_keys [OF h]
    by (auto simp: preempt_eq [OF ok] h ghost_def is_buffered_def dict_has_def view_folds split: option.splits)
next
  case (Resume k s' t)
  have "s' \<in> set (shadow_of b k) \<Longrightarrow> s' \<noteq> s" using g by (auto simp: ghost_def)
  then show ?thesis
    using g Resume by (auto simp: resume_eq [OF ok] ghost_def is_buffered_def dict_has_def view_folds Let_def
        notin_set_remove1)
qed

lemma trace_ghost:
  assumes "ghost s b" and "buf_ok b" and "Rel s \<notin> set es" and "run_trace es b = (b', out)"
  shows "s \<notin> snd ` set out \<and> ghost s b'"
  using assms
proof (induction es arbitrary: b b' out)
  case (Cons e es)
  obtain b1 o1 where e: "step_event e b = (b1, o1)" by force
  obtain o2 where r: "run_trace es b1 = (b', o2)" "out = o1 @ o2"
    using Cons.prems(4) e by (auto split: prod.splits)
  have "ghost s b1" "s \<notin> snd ` set o1" "buf_ok b1"
    using ghost_step [OF Cons.prems(1,2), of e] step_ok [OF Cons.prems(2), of e] e Cons.prems(3) by auto
  then show ?case using Cons.IH [of b1 b' o2] Cons.prems(3) r by auto
qed simp

text \<open>A sequence whose enqueue record survives while no queue holds it (it was dispatched to a
  step vLLM did not run, so the scheduler never released it) is invisible to the buffer: until
  \<open>release\<close> is called for it, no sequence of enqueues, ticks, preemptions or resumptions ever
  puts it into a batch, although each \<open>enqueue\<close> call for it returns normally.\<close>

theorem unreleased_sequence_starves:
  assumes "ghost s b" and "buf_ok b" and "Rel s \<notin> set es" and "run_trace es b = (b', out)"
  shows "s \<notin> snd ` set out \<and> ghost s b'"
  by (rule trace_ghost [OF assms])

definition sample_ghost :: "int abuf" where
  "sample_ghost = fst (run_trace [Enq 1 11 0, Enq 1 12 0, Tick Static None (1/100)] (buffer_init [1] 2 50 100))"

lemma sample_ghost_facts: "ghost 11 sample_ghost" "buf_ok sample_ghost"
proof -
  show "ghost 11 sample_ghost" by (simp add: sample_ghost_def ghost_def trace_eval)
  show "buf_ok sample_ghost" unfolding sample_ghost_def by (rule trace_ok [OF buf_ok_init])
qed

theorem unreleased_sequence_starves_witness:
  "11 \<notin> snd ` set (snd (run_trace [Enq 1 11 1, Tick Static None 2] sample_ghost)) \<and>
   ghost 11 (fst (run_trace [Enq 1 11 1, Tick Static None 2] sample_ghost))"
  by (rule unreleased_sequence_starves [OF sample_ghost_facts _ prod.collapse [symmetric]]) simp

subsection \<open>Holding and resuming one token\<close>

lemma hold_scan_found:
  assumes "distinct (map fst q)" and "(s, t) \<in> set q"
  shows "hold_scan s q = (filter (\<lambda>e. fst e \<noteq> s) q, Some t)"
  using assms
proof (induction q)
  case (Cons e q)
  obtain s' t' where e: "e = (s', t')" by force
  show ?case
  proof (cases "s' = s")
    case True
    then have "filter (\<lambda>e. fst e \<noteq> s) q = q"
      using Cons.prems(1) e by (force simp: filter_id_conv)
    then show ?thesis using True e Cons.prems by force
  next
    case False
    then show ?thesis using Cons e by auto
  qed
qed simp

text \<open>Holding a queued token and resuming it gives it back with its original enqueue time, at
  the head of its queue: the other tokens keep their order, the shadow queue is as before, the
  token has its enqueue record again, and the age the deadline rule sees for the adapter is
  what it was before, so a preemption costs a token nothing of the time it already waited.\<close>

theorem hold_then_resume_keeps_age:
  fixes t :: real
  assumes "buf_ok b" and "well_timed b k" and "distinct (map fst (queue_of b k))"
    and "(s, \<tau>) \<in> set (queue_of b k)" and "s \<notin> set (shadow_of b k)"
    and b': "b' = resume_from_shadow k s t (preempt_and_hold k s b)"
  shows "queue_of b' k = (s, \<tau>) # filter (\<lambda>e. fst e \<noteq> s) (queue_of b k) \<and>
    shadow_of b' k = shadow_of b k \<and> map_of (seq_enqueue b') s = Some \<tau> \<and>
    dict_get (enqueue_time b') k None = dict_get (enqueue_time b) k None"
proof -
  let ?q = "filter (\<lambda>e. fst e \<noteq> s) (queue_of b k)"
  let ?b1 = "preempt_and_hold k s b"
  have k: "k \<in> fst ` set (queues b)" using assms(4) by (intro queue_of_keyD) auto
  have b1: "?b1 = b\<lparr>shadow := dict_set k (shadow_of b k @ [s]) (shadow b),
      shadow_time := dict_set s \<tau> (shadow_time b), seq_enqueue := dict_pop s (seq_enqueue b),
      queues := dict_set k ?q (queues b), enqueue_time := dict_set k (head_time ?q) (enqueue_time b)\<rparr>"
    using k assms(5) by (simp add: preempt_eq [OF assms(1)] hold_scan_found [OF assms(3,4)])
  have ok: "buf_ok ?b1" by (rule preempt_ok [OF assms(1)])
  have sh: "shadow_of ?b1 k = shadow_of b k @ [s]" and qu: "queue_of ?b1 k = ?q"
    and times: "dict_get (shadow_time ?b1) s t = \<tau>" "dict_get (enqueue_time ?b1) k None = head_time ?q"
    by (simp_all add: b1)
  have "remove1 s (shadow_of b k @ [s]) = shadow_of b k"
    using assms(5) by (simp add: remove1_append)
  moreover have "(case head_time ?q of None \<Rightarrow> \<tau> | Some o' \<Rightarrow> min o' \<tau>) = the (head_time (queue_of b k))"
  proof (cases "queue_of b k")
    case (Cons e q)
    then have sq: "sorted (snd e # map snd q)" using assms(2) by (simp add: well_timed_def)
    show ?thesis
    proof (cases "fst e = s")
      case True
      then have "s \<notin> fst ` set q" using Cons assms(3) by auto
      then have "\<forall>x\<in>set q. fst x \<noteq> s" by (metis image_eqI)
      then have "?q = q" using True Cons by (simp add: filter_id_conv)
      moreover have "e = (s, \<tau>)"
        using \<open>s \<notin> fst ` set q\<close> Cons assms(4) by force
      ultimately show ?thesis using sq Cons by (cases q) (auto simp: head_time_def)
    next
      case False
      then have "snd e \<le> \<tau>" using sq Cons assms(4) by force
      then show ?thesis using False Cons by (cases e) (auto simp: head_time_def)
    qed
  qed (use assms(4) in simp)
  moreover have "head_time (queue_of b k) \<noteq> None" using assms(4) by auto
  ultimately show ?thesis
    using assms(2) by (auto simp: b' resume_eq [OF ok] Let_def view_folds well_timed_def sh qu times)
qed

theorem hold_then_resume_keeps_age_witness:
  "dict_get (enqueue_time (resume_from_shadow 1 12 5 (preempt_and_hold 1 12 sample_buffer))) 1 None = Some 0"
proof -
  have "buf_ok sample_buffer" "well_timed sample_buffer 1" "distinct (map fst (queue_of sample_buffer 1))"
    "(12, 1/10) \<in> set (queue_of sample_buffer 1)" "12 \<notin> set (shadow_of sample_buffer 1)"
    "dict_get (enqueue_time sample_buffer) 1 None = Some 0"
    by (simp_all add: sample_buffer_eval buf_ok_def well_timed_def queue_of_def dict_get_def head_time_def
        shadow_of_def)
  then show ?thesis using hold_then_resume_keeps_age [of sample_buffer 1 12 "1/10" _ 5] by metis
qed

end
