(* ===== verification/Dispatch.thy ===== *)
theory Dispatch
  imports Prelude
begin

text \<open>
  \<^verbatim>\<open>adapter_slots/dispatch/\<close>: the Erlang deadlines (\<^verbatim>\<open>erlang.py\<close>) and the CASH scores and
  visiting order (\<^verbatim>\<open>cash.py\<close>). scipy is not part of the repository: \<open>gammainc\<close> and
  \<open>gammaincinv\<close> are parameters, their documented laws the locale \<open>incomplete_gamma\<close>, which is
  interpreted on the closed form of the Erlang distribution function.
\<close>

subsection \<open>The regularised incomplete gamma function\<close>

text \<open>
  The code passes integer shapes only: the warp size, or the number of missing tokens.
\<close>

locale incomplete_gamma =
  fixes gammainc :: "nat \<Rightarrow> real \<Rightarrow> real"
    and gammaincinv :: "nat \<Rightarrow> real \<Rightarrow> real"
  assumes at_zero: "0 < a \<Longrightarrow> gammainc a 0 = 0"
    and below_one: "0 < a \<Longrightarrow> 0 \<le> x \<Longrightarrow> gammainc a x < 1"
    and increasing: "0 < a \<Longrightarrow> 0 \<le> x \<Longrightarrow> x < y \<Longrightarrow> gammainc a x < gammainc a y"
    and shape: "0 < a \<Longrightarrow> 0 \<le> x \<Longrightarrow> gammainc (Suc a) x \<le> gammainc a x"
    and inverse: "0 < a \<Longrightarrow> 0 \<le> q \<Longrightarrow> q < 1 \<Longrightarrow>
      0 \<le> gammaincinv a q \<and> gammainc a (gammaincinv a q) = q"
begin

lemma mono: "0 < a \<Longrightarrow> 0 \<le> x \<Longrightarrow> x \<le> y \<Longrightarrow> gammainc a x \<le> gammainc a y"
  using increasing [of a x y] by (cases "x < y") simp_all

lemma nonneg: "0 < a \<Longrightarrow> 0 \<le> x \<Longrightarrow> 0 \<le> gammainc a x"
  using mono [of a 0 x] at_zero by simp

lemma shape_antimono: "0 < a \<Longrightarrow> a \<le> b \<Longrightarrow> 0 \<le> x \<Longrightarrow> gammainc b x \<le> gammainc a x"
proof (induction b)
  case (Suc b)
  show ?case
  proof (cases "a = Suc b")
    case False
    with Suc have "gammainc b x \<le> gammainc a x" and "0 < b" by auto
    with shape [of b x] Suc.prems show ?thesis by linarith
  qed simp
qed simp

lemma inverse_pos: "0 < a \<Longrightarrow> 0 < q \<Longrightarrow> q < 1 \<Longrightarrow> 0 < gammaincinv a q"
  using inverse [of a q] at_zero [of a] by (cases "gammaincinv a q = 0") auto

lemma at_min:
  assumes "0 < a" and "0 \<le> x" and "0 \<le> y"
  shows "gammainc a (min x y) = min (gammainc a x) (gammainc a y)"
  using mono [OF assms(1)] assms by (auto simp: min_def intro: order_antisym)

end

text \<open>
  For an integer shape the function has a closed form: the probability that a Poisson variable
  of mean \<open>x\<close> is at least \<open>a\<close>.
\<close>

definition erlang_P :: "nat \<Rightarrow> real \<Rightarrow> real" where
  "erlang_P a x = 1 - exp (- x) * (\<Sum>i<a. x ^ i / fact i)"

definition erlang_P_inv :: "nat \<Rightarrow> real \<Rightarrow> real" where
  "erlang_P_inv a q = (THE x. 0 \<le> x \<and> erlang_P a x = q)"

lemma erlang_P_deriv:
  "DERIV (erlang_P (Suc n)) x :> exp (- x) * (x ^ n / fact n)"
proof (induction n)
  case 0
  show ?case unfolding erlang_P_def by (auto intro!: derivative_eq_intros)
next
  case (Suc n)
  have split: "erlang_P (Suc (Suc n)) = (\<lambda>x. erlang_P (Suc n) x - exp (- x) * (x ^ Suc n / fact (Suc n)))"
    by (simp add: erlang_P_def fun_eq_iff algebra_simps)
  have "DERIV (\<lambda>x :: real. x ^ Suc n / fact (Suc n)) x :> real (Suc n) * x ^ n / fact (Suc n)"
    using DERIV_cdivide [OF DERIV_pow [of "Suc n" x UNIV], of "fact (Suc n)"] by (simp del: fact_Suc power_Suc)
  also have "real (Suc n) * x ^ n / fact (Suc n) = x ^ n / fact n" by simp
  finally have pow: "DERIV (\<lambda>x :: real. x ^ Suc n / fact (Suc n)) x :> x ^ n / fact n" .
  have "DERIV (\<lambda>x :: real. exp (- x)) x :> - exp (- x)"
    by (auto intro!: derivative_eq_intros)
  from DERIV_mult [OF this pow]
  have "DERIV (\<lambda>x. exp (- x) * (x ^ Suc n / fact (Suc n))) x :>
      exp (- x) * (x ^ n / fact n) - exp (- x) * (x ^ Suc n / fact (Suc n))"
    by (simp add: algebra_simps)
  from DERIV_diff [OF Suc this] show ?case unfolding split by simp
qed

lemma erlang_P_increasing:
  assumes "0 < a" and "0 \<le> x" and "x < y"
  shows "erlang_P a x < erlang_P a y"
proof -
  obtain n where a: "a = Suc n" using assms(1) by (metis gr0_implies_Suc)
  have "\<exists>z. x < z \<and> z < y \<and> erlang_P a y - erlang_P a x = (y - x) * (exp (- z) * (z ^ n / fact n))"
    unfolding a by (rule MVT2 [OF assms(3)]) (rule erlang_P_deriv)
  then obtain z where "x < z" and "erlang_P a y - erlang_P a x = (y - x) * (exp (- z) * (z ^ n / fact n))"
    by blast
  moreover have "0 < (y - x) * (exp (- z) * (z ^ n / fact n))"
    using assms \<open>x < z\<close> by simp
  ultimately show ?thesis by linarith
qed

lemma erlang_P_zero: "0 < a \<Longrightarrow> erlang_P a 0 = 0"
proof -
  assume "0 < a"
  then have "(\<Sum>i<a. (0::real) ^ i / fact i) = (\<Sum>i\<in>{0}. 0 ^ i / fact i)"
    by (intro sum.mono_neutral_right) auto
  then show ?thesis by (simp add: erlang_P_def)
qed

lemma erlang_P_below_one: "0 < a \<Longrightarrow> 0 \<le> x \<Longrightarrow> erlang_P a x < 1"
proof -
  assume a: "0 < a" and x: "0 \<le> x"
  have "x ^ 0 / fact 0 \<le> (\<Sum>i<a. x ^ i / fact i)"
    using a x by (intro member_le_sum) auto
  then show ?thesis by (simp add: erlang_P_def)
qed

lemma erlang_P_shape: "0 < a \<Longrightarrow> 0 \<le> x \<Longrightarrow> erlang_P (Suc a) x \<le> erlang_P a x"
  by (simp add: erlang_P_def)

lemma erlang_P_limit: "(erlang_P a \<longlongrightarrow> 1) at_top"
proof -
  have "((\<lambda>x::real. x ^ i / fact i * exp (- x)) \<longlongrightarrow> 0 / fact i) at_top" for i
  proof -
    have "((\<lambda>x::real. x ^ i / exp x / fact i) \<longlongrightarrow> 0 / fact i) at_top"
      by (intro tendsto_intros tendsto_power_div_exp_0) simp
    then show ?thesis by (simp add: exp_minus field_simps)
  qed
  then have "((\<lambda>x::real. 1 - (\<Sum>i<a. x ^ i / fact i * exp (- x))) \<longlongrightarrow> 1 - (\<Sum>i<a. 0 / fact i)) at_top"
    by (intro tendsto_intros)
  then show ?thesis
    by (simp add: erlang_P_def [abs_def] sum_distrib_left mult.commute)
qed

lemma erlang_P_inverse:
  assumes "0 < a" and "0 \<le> q" and "q < 1"
  shows "0 \<le> erlang_P_inv a q \<and> erlang_P a (erlang_P_inv a q) = q"
proof -
  have "eventually (\<lambda>x. q < erlang_P a x) at_top"
    using order_tendstoD(1) [OF erlang_P_limit assms(3)] .
  then obtain b0 where b0: "\<And>x. b0 \<le> x \<Longrightarrow> q < erlang_P a x"
    by (auto simp: eventually_at_top_linorder)
  obtain n where a: "a = Suc n" using assms(1) by (metis gr0_implies_Suc)
  let ?b = "max b0 0"
  have "\<exists>x. 0 \<le> x \<and> x \<le> ?b \<and> erlang_P a x = q"
  proof (rule IVT')
    show "erlang_P a 0 \<le> q" using assms erlang_P_zero by simp
    show "q \<le> erlang_P a ?b" using b0 [of ?b] by simp
    show "continuous_on {0..?b} (erlang_P a)"
      unfolding a by (intro DERIV_continuous_on) (rule DERIV_subset [OF erlang_P_deriv], simp)
  qed simp
  then obtain x where x: "0 \<le> x" "erlang_P a x = q" by blast
  have uniq: "y = x" if "0 \<le> y \<and> erlang_P a y = q" for y
  proof (rule ccontr)
    assume "y \<noteq> x"
    then consider "y < x" | "x < y" by linarith
    then show False
    proof cases
      case 1
      from erlang_P_increasing [OF assms(1) _ this] that x show False by simp
    next
      case 2
      from erlang_P_increasing [OF assms(1) x(1) this] that x show False by simp
    qed
  qed
  have "(THE x. 0 \<le> x \<and> erlang_P a x = q) = x"
    using x uniq by (intro the_equality conjI) assumption+
  with x show ?thesis by (simp add: erlang_P_inv_def)
qed

interpretation erlang_gamma: incomplete_gamma erlang_P erlang_P_inv
proof (rule incomplete_gamma.intro)
qed (fact erlang_P_zero erlang_P_below_one erlang_P_increasing erlang_P_shape erlang_P_inverse)+

subsection \<open>Erlang deadlines\<close>

text \<open>The \<open>lru_cache\<close> on the quantile changes no result.\<close>

definition gamma_ppf_unit_scale :: "(nat \<Rightarrow> real \<Rightarrow> real) \<Rightarrow> nat \<Rightarrow> real \<Rightarrow> real" where
  "gamma_ppf_unit_scale gammaincinv warp_size war_target = gammaincinv warp_size war_target"

definition compute_tmax_erlang ::
  "(nat \<Rightarrow> real \<Rightarrow> real) \<Rightarrow> nat \<Rightarrow> real \<Rightarrow> real \<Rightarrow> real \<Rightarrow> real" where
  "compute_tmax_erlang gammaincinv warp_size lambda_k war_target ttft_slo_ms =
     (if lambda_k \<le> 0 then ttft_slo_ms / 1000
      else let t_fill = gamma_ppf_unit_scale gammaincinv warp_size war_target / lambda_k
        in min t_fill (ttft_slo_ms / 1000))"

definition compute_tmax_erlang_batch ::
  "(nat \<Rightarrow> real \<Rightarrow> real) \<Rightarrow> nat \<Rightarrow> ('a, real) dict \<Rightarrow> real \<Rightarrow> real \<Rightarrow> ('a, real) dict" where
  "compute_tmax_erlang_batch gammaincinv warp_size lambda_k_dict war_target ttft_slo_ms =
     map (\<lambda>(adapter_id, lam).
       (adapter_id, compute_tmax_erlang gammaincinv warp_size lam war_target ttft_slo_ms)) lambda_k_dict"

text \<open>\<open>scipy.stats.erlang.cdf(t, a, scale)\<close> is the incomplete gamma function at \<open>t / scale\<close>.\<close>

definition erlang_cdf :: "(nat \<Rightarrow> real \<Rightarrow> real) \<Rightarrow> real \<Rightarrow> nat \<Rightarrow> real \<Rightarrow> real" where
  "erlang_cdf gammainc t warp_size lambda_k =
     (if lambda_k \<le> 0 \<or> t \<le> 0 then 0 else gammainc warp_size (t / (1 / lambda_k)))"

lemma map_of_tmax_batch:
  "map_of (compute_tmax_erlang_batch G w rates q slo) k =
     map_option (\<lambda>lam. compute_tmax_erlang G w lam q slo) (map_of rates k)"
  by (induction rates) (auto simp: compute_tmax_erlang_batch_def)

subsection \<open>CASH\<close>

record cash =
  cash_W :: nat

definition cash_score ::
  "(nat \<Rightarrow> real \<Rightarrow> real) \<Rightarrow> nat \<Rightarrow> nat \<Rightarrow> real \<Rightarrow> real \<Rightarrow> real" where
  "cash_score gammainc w q lam left =
     (let missing = max (int w - int q) 0;
          s = min (real q / real w) 1;
          p_fill = (if missing > 0 then gammainc (nat (max missing 1)) (lam * left) else 1)
      in lam * s * p_fill)"

definition compute_indices ::
  "(nat \<Rightarrow> real \<Rightarrow> real) \<Rightarrow> cash \<Rightarrow> ('a, nat) dict \<Rightarrow> ('a, real) dict \<Rightarrow> ('a, real) dict \<Rightarrow>
   ('a, real) dict \<Rightarrow> ('a, real) dict" where
  "compute_indices gammainc c queue_lens ages lambda_est deadlines =
     map (\<lambda>(k, q).
       (k, cash_score gammainc (cash_W c) q
             (max (dict_get lambda_est k 0) 0)
             (max (dict_get deadlines k 0 - dict_get ages k 0) 0))) queue_lens"

definition rank :: "('a, real) dict \<Rightarrow> 'a list" where
  "rank indices = sort_desc (\<lambda>k. dict_get indices k 0) (dict_keys indices)"

lemma keys_compute_indices [simp]: "dict_keys (compute_indices G c ql ages lam dl) = dict_keys ql"
  by (simp add: compute_indices_def o_def case_prod_beta)

lemma map_of_indices:
  "map_of (compute_indices G c ql ages lam dl) k =
     map_option (\<lambda>q. cash_score G (cash_W c) q (max (dict_get lam k 0) 0)
       (max (dict_get dl k 0 - dict_get ages k 0) 0)) (map_of ql k)"
  by (induction ql) (auto simp: compute_indices_def)

context incomplete_gamma begin

lemma tmax_in_slo:
  assumes "0 < w" and "0 \<le> q" and "q < 1" and "0 \<le> slo"
  shows "0 \<le> compute_tmax_erlang gammaincinv w lam q slo \<and>
    compute_tmax_erlang gammaincinv w lam q slo \<le> slo / 1000"
proof -
  have "0 \<le> gammaincinv w q" using inverse [OF assms(1-3)] by simp
  then show ?thesis
    using assms(4) min.cobounded2 [of "gammaincinv w q / lam" "slo / 1000"]
    by (auto simp: compute_tmax_erlang_def gamma_ppf_unit_scale_def Let_def simp del: min.cobounded2)
qed

lemma fill_probability_at_tmax:
  assumes "0 < w" and "0 < q" and "q < 1" and "0 < slo" and "0 < lam"
  shows "erlang_cdf gammainc (compute_tmax_erlang gammaincinv w lam q slo) w lam =
    min q (erlang_cdf gammainc (slo / 1000) w lam)"
proof -
  let ?x = "gammaincinv w q"
  have x: "0 < ?x" "gammainc w ?x = q" using inverse_pos inverse assms by auto
  have t: "compute_tmax_erlang gammaincinv w lam q slo = min (?x / lam) (slo / 1000)"
    using assms by (simp add: compute_tmax_erlang_def gamma_ppf_unit_scale_def)
  have "0 < ?x / lam" using x assms by simp
  then have pos: "\<not> min (?x / lam) (slo / 1000) \<le> 0" using assms by (simp add: min_le_iff_disj)
  have "min (?x / lam) (slo / 1000) * lam = min ?x (slo / 1000 * lam)"
    using assms by (simp add: min_def field_simps)
  then show ?thesis
    using pos assms x at_min [OF assms(1), of ?x "slo / 1000 * lam"]
    by (simp only: erlang_cdf_def t) simp
qed

lemma tmax_antitone:
  assumes "0 < w" and "0 < q" and "q < 1" and "0 < lam" and "lam \<le> lam'"
  shows "compute_tmax_erlang gammaincinv w lam' q slo \<le> compute_tmax_erlang gammaincinv w lam q slo"
proof -
  have "gammaincinv w q / lam' \<le> gammaincinv w q / lam"
    using inverse_pos [OF assms(1-3)] assms by (intro divide_left_mono) auto
  then show ?thesis
    using assms min.mono [of "gammaincinv w q / lam'" "gammaincinv w q / lam" "slo / 1000" "slo / 1000"]
    by (simp add: compute_tmax_erlang_def gamma_ppf_unit_scale_def Let_def del: min.bounded_iff)
qed

lemma cash_score_bounds:
  assumes "0 < w" and "0 \<le> lam" and "0 \<le> left"
  shows "0 \<le> cash_score gammainc w q lam left" and "cash_score gammainc w q lam left \<le> lam"
proof -
  let ?s = "min (real q / real w) 1"
  let ?p = "if int w - int q > 0 then gammainc (nat (int w - int q)) (lam * left) else 1"
  have s: "0 \<le> ?s" "?s \<le> 1" by auto
  have p: "0 \<le> ?p" "?p \<le> 1"
    using assms nonneg [of "w - q" "lam * left"] below_one [of "w - q" "lam * left"]
    by (auto simp: nat_diff_distrib intro: less_imp_le)
  have eq: "cash_score gammainc w q lam left = lam * (?s * ?p)"
    by (simp add: cash_score_def Let_def max_absorb1 mult.assoc)
  show "0 \<le> cash_score gammainc w q lam left" unfolding eq using assms s p by (intro mult_nonneg_nonneg)
  have "?s * ?p \<le> 1" using s p by (intro mult_le_one)
  then show "cash_score gammainc w q lam left \<le> lam" unfolding eq using assms(2) by (intro mult_left_le)
qed

lemma cash_score_full: "0 < w \<Longrightarrow> w \<le> q \<Longrightarrow> cash_score gammainc w q lam left = lam"
  by (simp add: cash_score_def Let_def)

lemma cash_score_mono:
  assumes "0 < w" and "0 \<le> lam" and "0 \<le> left" and "q \<le> q'"
  shows "cash_score gammainc w q lam left \<le> cash_score gammainc w q' lam left"
proof (cases "w \<le> q'")
  case True
  then show ?thesis using cash_score_bounds(2) [OF assms(1-3)] cash_score_full assms(1) by simp
next
  case False
  then have m: "0 < w - q'" "w - q' \<le> w - q" using assms(4) by auto
  have x: "0 \<le> lam * left" using assms by simp
  have e: "cash_score gammainc w r lam left = lam * (real r / real w * gammainc (w - r) (lam * left))"
    if "r < w" for r
    using that by (simp add: cash_score_def Let_def max_absorb1 nat_diff_distrib)
  have "real q / real w * gammainc (w - q) (lam * left) \<le> real q' / real w * gammainc (w - q') (lam * left)"
    using shape_antimono [OF m(1,2) x] nonneg [of "w - q" "lam * left"] m x assms
    by (intro mult_mono divide_right_mono) auto
  from mult_left_mono [OF this assms(2)] show ?thesis using e [of q] e [of q'] False assms by simp
qed

end

subsection \<open>Properties\<close>

text \<open>C19: Theorem 1: with scipy's incomplete gamma functions as documented, the deadline
  \<open>T*(k)\<close> is the time by which a queue fills with probability WAR*, capped at T\_SLO: the fill
  probability at the deadline is exactly \<open>min WAR* F(T_SLO)\<close>, so WAR* when the cap is inactive
  and \<open>F(T_SLO) < WAR*\<close> when it binds.\<close>

theorem deadline_fill_probability:
  assumes "incomplete_gamma P Pinv" and "0 < w" and "0 < q" and "q < 1" and "0 < slo" and "0 < lam"
  shows "erlang_cdf P (compute_tmax_erlang Pinv w lam q slo) w lam =
    min q (erlang_cdf P (slo / 1000) w lam)"
  using assms by (intro incomplete_gamma.fill_probability_at_tmax)

theorem deadline_fill_probability_witness:
  "erlang_cdf erlang_P (compute_tmax_erlang erlang_P_inv 32 100 (4/5) 200) 32 100 =
     min (4/5) (erlang_cdf erlang_P (200 / 1000) 32 100)"
  by (rule deadline_fill_probability [OF erlang_gamma.incomplete_gamma_axioms]) simp_all

text \<open>Every deadline of the batch function lies in \<open>[0, T_SLO]\<close>, adapters with a rate of zero or
  below get T\_SLO itself, and among positive rates a faster adapter never gets a later deadline.\<close>

theorem deadlines_bounded_and_antitone:
  assumes "incomplete_gamma P Pinv" and "0 < w" and "0 < q" and "q < 1" and "0 \<le> slo"
    and "map_of rates k = Some lam"
    and "T = compute_tmax_erlang_batch Pinv w rates q slo"
  shows "\<exists>t. map_of T k = Some t \<and> 0 \<le> t \<and> t \<le> slo / 1000 \<and> (lam \<le> 0 \<longrightarrow> t = slo / 1000) \<and>
    (\<forall>k' lam' t'. map_of rates k' = Some lam' \<longrightarrow> map_of T k' = Some t' \<longrightarrow> 0 < lam \<longrightarrow> lam \<le> lam' \<longrightarrow> t' \<le> t)"
proof (intro exI conjI)
  show "map_of T k = Some (compute_tmax_erlang Pinv w lam q slo)"
    using assms(6,7) by (simp add: map_of_tmax_batch)
  show "0 \<le> compute_tmax_erlang Pinv w lam q slo" "compute_tmax_erlang Pinv w lam q slo \<le> slo / 1000"
    using incomplete_gamma.tmax_in_slo [OF assms(1,2) _ assms(4,5)] assms(3) by auto
  show "lam \<le> 0 \<longrightarrow> compute_tmax_erlang Pinv w lam q slo = slo / 1000"
    by (simp add: compute_tmax_erlang_def)
  show "\<forall>k' lam' t'. map_of rates k' = Some lam' \<longrightarrow> map_of T k' = Some t' \<longrightarrow> 0 < lam \<longrightarrow> lam \<le> lam' \<longrightarrow>
      t' \<le> compute_tmax_erlang Pinv w lam q slo"
    using incomplete_gamma.tmax_antitone [OF assms(1-4)] assms(7) by (auto simp: map_of_tmax_batch)
qed

theorem deadlines_bounded_and_antitone_witness:
  "\<exists>t. map_of (compute_tmax_erlang_batch erlang_P_inv 32 [(1::nat, 5), (2, 50)] (4/5) 200) 1 = Some t \<and>
     0 \<le> t \<and> t \<le> 1/5"
  using deadlines_bounded_and_antitone [OF erlang_gamma.incomplete_gamma_axioms, of 32 "4/5" 200
      "[(1::nat, 5), (2, 50)]" 1 5 _, OF _ _ _ _ _ refl] by auto

text \<open>CASH scores reward fill: every score lies between 0 and the adapter's rate, a queue that
  holds a full warp scores its whole rate, and of two adapters with the same rate and the same
  time left the one with the longer queue never scores lower.\<close>

theorem cash_scores_reward_fill:
  assumes "incomplete_gamma P Pinv" and "0 < cash_W c" and "I = compute_indices P c qlens ages rates dls"
    and "map_of qlens i = Some qi" and "map_of qlens j = Some qj"
    and "dict_get rates i 0 = dict_get rates j 0"
    and "dict_get dls i 0 - dict_get ages i 0 = dict_get dls j 0 - dict_get ages j 0"
    and "qi \<le> qj"
  shows "0 \<le> dict_get I i 0 \<and> dict_get I i 0 \<le> dict_get I j 0 \<and> dict_get I j 0 \<le> max (dict_get rates j 0) 0 \<and>
    (cash_W c \<le> qj \<longrightarrow> dict_get I j 0 = max (dict_get rates j 0) 0)"
proof -
  let ?lam = "max (dict_get rates j 0) 0" and ?left = "max (dict_get dls j 0 - dict_get ages j 0) 0"
  have I: "dict_get I i 0 = cash_score P (cash_W c) qi ?lam ?left"
    "dict_get I j 0 = cash_score P (cash_W c) qj ?lam ?left"
    by (rule dict_get_Some, simp add: assms(3-7) map_of_indices)+
  have pos: "0 \<le> ?lam" "0 \<le> ?left" by simp_all
  show ?thesis unfolding I
    using incomplete_gamma.cash_score_bounds [OF assms(1,2) pos]
      incomplete_gamma.cash_score_mono [OF assms(1,2) pos assms(8)]
      incomplete_gamma.cash_score_full [OF assms(1,2)] by blast
qed

theorem cash_scores_reward_fill_witness:
  "let I = compute_indices erlang_P \<lparr>cash_W = 4\<rparr> [(1::nat, 1), (2, 4)] [(1, 1/100), (2, 2/100)]
       [(1, 30), (2, 30)] [(1, 1/10), (2, 11/100)]
   in dict_get I 1 0 \<le> dict_get I 2 0 \<and> dict_get I 2 0 = 30"
  using cash_scores_reward_fill [OF erlang_gamma.incomplete_gamma_axioms _ refl,
      of "\<lparr>cash_W = 4\<rparr>" "[(1::nat, 1), (2, 4)]" 1 1 2 4 "[(1, 30), (2, 30)]"
      "[(1, 1/10), (2, 11/100)]" "[(1, 1/100), (2, 2/100)]"]
  by (simp add: Let_def dict_get_def)

text \<open>The visiting order is a permutation of the scored adapters in decreasing score, and
  adapters of equal score keep their dict order.\<close>

theorem cash_rank_is_stable_descending:
  "mset (rank I) = mset (dict_keys I) \<and>
   sorted_wrt (\<lambda>x y. dict_get I y 0 \<le> dict_get I x 0) (rank I) \<and>
   filter (\<lambda>k. dict_get I k 0 = v) (rank I) = filter (\<lambda>k. dict_get I k 0 = v) (dict_keys I)"
  unfolding rank_def by (simp add: sort_desc_decreasing sort_desc_stable)

end
