(* ===== verification/Control.thy ===== *)
theory Control
  imports Prelude
begin

text \<open>
  The two estimators of \<^verbatim>\<open>adapter_slots/control/\<close>: the per-adapter EWMA arrival rate
  (\<^verbatim>\<open>estimator.py\<close>) and the PI controller of the global deadline T\_max
  (\<^verbatim>\<open>pi_controller.py\<close>). Clock readings are arguments; times and rates are exact reals.
\<close>

subsection \<open>ArrivalRateEstimator\<close>

record 'a estimator =
  est_alpha :: real
  est_default_rate :: real
  last_arrival :: "('a, real) dict"
  rate_estimate :: "('a, real) dict"
  arrival_count :: "('a, nat) dict"

text \<open>\<open>tp_rank\<close> is \<open>LOCAL_RANK\<close>, read only when \<open>enforce_rank0\<close> is set.\<close>

definition estimator_init :: "real \<Rightarrow> real \<Rightarrow> bool \<Rightarrow> int \<Rightarrow> py_error + 'a estimator" where
  "estimator_init alpha default_rate enforce_rank0 tp_rank =
     (if enforce_rank0 \<and> tp_rank \<noteq> 0 then Inl AssertionError
      else if \<not> (0 < alpha \<and> alpha < 1) then Inl ValueError
      else Inr \<lparr>est_alpha = alpha, est_default_rate = default_rate,
                last_arrival = [], rate_estimate = [], arrival_count = []\<rparr>)"

definition get_rate :: "'a estimator \<Rightarrow> 'a \<Rightarrow> real" where
  "get_rate e adapter_id = dict_get (rate_estimate e) adapter_id (est_default_rate e)"

definition estimator_update :: "'a \<Rightarrow> real \<Rightarrow> 'a estimator \<Rightarrow> 'a estimator \<times> real" where
  "estimator_update adapter_id t_now e =
     (let e1 = e\<lparr>arrival_count :=
                 dict_set adapter_id (dict_get (arrival_count e) adapter_id 0 + 1) (arrival_count e)\<rparr>;
          e2 = (case map_of (last_arrival e) adapter_id of
                  Some t_last \<Rightarrow>
                    (let iat = max (t_now - t_last) (1 / 10 ^ 9);
                         old_rate = dict_get (rate_estimate e1) adapter_id (est_default_rate e)
                     in e1\<lparr>rate_estimate :=
                          dict_set adapter_id ((1 - est_alpha e) * old_rate + est_alpha e / iat)
                            (rate_estimate e1)\<rparr>)
                | None \<Rightarrow>
                    e1\<lparr>rate_estimate :=
                      dict_setdefault adapter_id (est_default_rate e) (rate_estimate e1)\<rparr>);
          e3 = e2\<lparr>last_arrival := dict_set adapter_id t_now (last_arrival e2)\<rparr>
      in (e3, dict_get (rate_estimate e3) adapter_id (est_default_rate e)))"

definition set_rates :: "('a, real) dict \<Rightarrow> 'a estimator \<Rightarrow> 'a estimator" where
  "set_rates rates e = e\<lparr>rate_estimate := dict_update rates (rate_estimate e)\<rparr>"

definition get_all_rates :: "'a estimator \<Rightarrow> ('a, real) dict" where
  "get_all_rates e = rate_estimate e"

definition get_arrival_count :: "'a estimator \<Rightarrow> 'a \<Rightarrow> nat" where
  "get_arrival_count e adapter_id = dict_get (arrival_count e) adapter_id 0"

definition estimator_reset :: "'a option \<Rightarrow> 'a estimator \<Rightarrow> 'a estimator" where
  "estimator_reset adapter_id e =
     (case adapter_id of
        Some a \<Rightarrow> e\<lparr>last_arrival := dict_pop a (last_arrival e),
                    rate_estimate := dict_pop a (rate_estimate e),
                    arrival_count := dict_pop a (arrival_count e)\<rparr>
      | None \<Rightarrow> e\<lparr>last_arrival := [], rate_estimate := [], arrival_count := []\<rparr>)"

record 'a estimator_summary =
  n_adapters_seen :: nat
  sum_alpha :: real
  sum_rates :: "('a, real) dict"
  sum_arrival_counts :: "('a, nat) dict"

definition estimator_summary_of :: "'a estimator \<Rightarrow> 'a estimator_summary" where
  "estimator_summary_of e = \<lparr>n_adapters_seen = length (rate_estimate e), sum_alpha = est_alpha e,
     sum_rates = rate_estimate e, sum_arrival_counts = arrival_count e\<rparr>"

text \<open>What the state keeps: positive rates, and an arrival record only beside a rate.\<close>

definition estimator_ok :: "'a estimator \<Rightarrow> bool" where
  "estimator_ok e \<longleftrightarrow> 0 < est_alpha e \<and> est_alpha e < 1 \<and> 0 < est_default_rate e \<and>
     dict_ok (last_arrival e) \<and> dict_ok (rate_estimate e) \<and> dict_ok (arrival_count e) \<and>
     (\<forall>k r. map_of (rate_estimate e) k = Some r \<longrightarrow> 0 < r) \<and>
     fst ` set (last_arrival e) \<subseteq> fst ` set (rate_estimate e)"

lemma estimator_init_ok:
  "estimator_init a d b r = Inr e \<Longrightarrow> 0 < d \<Longrightarrow> estimator_ok e"
  by (auto simp: estimator_init_def estimator_ok_def split: if_splits)

lemma ewma_pos: "0 < a \<Longrightarrow> a < 1 \<Longrightarrow> 0 < r \<Longrightarrow> 0 < iat \<Longrightarrow> 0 < (1 - a) * r + a / (iat :: real)"
  by (intro add_pos_pos) auto

lemma iat_pos: "0 < max (t - s) (1 / 10 ^ 9 :: real)"
  by (simp add: less_max_iff_disj)

text \<open>The new rate, in the two cases of the code.\<close>

definition next_rate :: "'a estimator \<Rightarrow> 'a \<Rightarrow> real \<Rightarrow> real" where
  "next_rate e k t =
     (case map_of (last_arrival e) k of
        Some s \<Rightarrow> (1 - est_alpha e) * get_rate e k + est_alpha e / max (t - s) (1 / 10 ^ 9)
      | None \<Rightarrow> get_rate e k)"

lemma estimator_update_fields:
  "est_alpha (fst (estimator_update k t e)) = est_alpha e"
  "est_default_rate (fst (estimator_update k t e)) = est_default_rate e"
  "last_arrival (fst (estimator_update k t e)) = dict_set k t (last_arrival e)"
  "arrival_count (fst (estimator_update k t e)) =
     dict_set k (dict_get (arrival_count e) k 0 + 1) (arrival_count e)"
  by (simp_all add: estimator_update_def Let_def split: option.splits)

lemma estimator_update_rate:
  "map_of (rate_estimate (fst (estimator_update k t e))) = (map_of (rate_estimate e))(k \<mapsto> next_rate e k t)"
  "snd (estimator_update k t e) = next_rate e k t"
  by (auto simp: estimator_update_def Let_def next_rate_def get_rate_def dict_setdefault_def
      dict_has_def dict_get_def split: option.splits)

lemma get_rate_update [simp]:
  "get_rate (fst (estimator_update k t e)) j = (if j = k then next_rate e k t else get_rate e j)"
  by (simp add: get_rate_def dict_get_def estimator_update_rate estimator_update_fields)

lemma dict_ok_rate_update:
  "dict_ok (rate_estimate e) \<Longrightarrow> dict_ok (rate_estimate (fst (estimator_update k t e)))"
  by (simp add: estimator_update_def Let_def dict_setdefault_def split: option.splits)

lemma rate_keys_update:
  "fst ` set (rate_estimate (fst (estimator_update k t e))) = insert k (fst ` set (rate_estimate e))"
  by (auto simp: estimator_update_def Let_def dict_setdefault_def dict_has_iff split: option.splits)

lemma get_rate_pos: "estimator_ok e \<Longrightarrow> 0 < get_rate e k"
  by (auto simp: estimator_ok_def get_rate_def dict_get_def split: option.splits)

lemma next_rate_pos: "estimator_ok e \<Longrightarrow> 0 < next_rate e k t"
  using get_rate_pos [of e k] ewma_pos iat_pos
  by (auto simp: next_rate_def estimator_ok_def split: option.splits)

lemma estimator_update_ok: "estimator_ok e \<Longrightarrow> estimator_ok (fst (estimator_update k t e))"
  using next_rate_pos [of e k t]
  by (auto simp: estimator_ok_def estimator_update_fields estimator_update_rate dict_ok_rate_update
      rate_keys_update)

lemma set_rates_ok:
  assumes "estimator_ok e" and "\<forall>r\<in>snd ` set rates. 0 < r"
  shows "estimator_ok (set_rates rates e)"
proof -
  have "map_of (rev rates) k = Some r \<Longrightarrow> 0 < r" for k r
    using assms(2) by (force dest!: map_of_SomeD)
  then show ?thesis
    using assms by (auto simp: estimator_ok_def set_rates_def map_of_dict_update split: option.splits)
qed

lemma estimator_reset_ok: "estimator_ok e \<Longrightarrow> estimator_ok (estimator_reset k e)"
  by (auto simp: estimator_ok_def estimator_reset_def split: option.splits if_splits)

text \<open>Arrivals of one adapter at the times \<open>ts\<close>.\<close>

fun arrivals :: "'a \<Rightarrow> real list \<Rightarrow> 'a estimator \<Rightarrow> 'a estimator" where
  "arrivals k [] e = e"
| "arrivals k (t # ts) e = arrivals k ts (fst (estimator_update k t e))"

lemma arrivals_append: "arrivals k (xs @ ys) e = arrivals k ys (arrivals k xs e)"
  by (induction xs arbitrary: e) auto

lemma arrivals_alpha [simp]: "est_alpha (arrivals k ts e) = est_alpha e"
  by (induction ts arbitrary: e) (auto simp: estimator_update_fields)

lemma arrivals_last: "map_of (last_arrival (arrivals k (ts @ [t]) e)) k = Some t"
  by (simp add: arrivals_append estimator_update_fields)

lemma next_rate_steady:
  assumes "map_of (last_arrival e) k = Some s" and "1 / 10 ^ 9 \<le> d"
  shows "next_rate e k (s + d) - 1 / d = (1 - est_alpha e) * (get_rate e k - 1 / d)"
  using assms by (simp add: next_rate_def max_def algebra_simps)

lemma arrivals_steady:
  assumes "map_of (last_arrival e) k = Some s" and "1 / 10 ^ 9 \<le> d"
  shows "get_rate (arrivals k (map (\<lambda>i. s + real (Suc i) * d) [0..<n]) e) k - 1 / d =
           (1 - est_alpha e) ^ n * (get_rate e k - 1 / d)"
proof (induction n)
  case (Suc n)
  let ?ts = "map (\<lambda>i. s + real (Suc i) * d) [0..<n]"
  let ?e = "arrivals k ?ts e"
  have last: "map_of (last_arrival ?e) k = Some (s + real n * d)"
  proof (cases n)
    case (Suc m)
    then have "?ts = map (\<lambda>i. s + real (Suc i) * d) [0..<m] @ [s + real n * d]" by simp
    then show ?thesis by (metis arrivals_last)
  qed (use assms in simp)
  have "s + real (Suc n) * d = (s + real n * d) + d" by (simp add: algebra_simps)
  then have "get_rate (arrivals k (map (\<lambda>i. s + real (Suc i) * d) [0..<Suc n]) e) k =
      next_rate ?e k ((s + real n * d) + d)"
    by (simp only: upt_Suc_append [of 0 n] zero_le map_append arrivals_append list.map
        arrivals.simps get_rate_update if_True refl)
  then show ?case
    using next_rate_steady [OF last assms(2)] Suc.IH by simp
qed simp

subsection \<open>PIController\<close>

record pi_controller =
  pi_kp :: real
  pi_ki :: real
  pi_war_target :: real
  pi_tmax :: real
  pi_tmax_min :: real
  pi_tmax_max :: real
  pi_margin :: real
  pi_slope_alpha :: real
  pi_L :: "real option"
  pi_t :: nat
  pi_prev_error :: "real option"
  pi_prev_war :: "real option"
  pi_prev_tmax :: "real option"

definition pi_init ::
  "real \<Rightarrow> real \<Rightarrow> real \<Rightarrow> real \<Rightarrow> real \<Rightarrow> real \<Rightarrow> real \<Rightarrow> real \<Rightarrow> py_error + pi_controller" where
  "pi_init kp ki war_target tmax_init tmax_min tmax_max margin slope_alpha =
     (if kp \<le> 0 \<or> ki \<le> 0 then Inl ValueError
      else Inr \<lparr>pi_kp = kp, pi_ki = ki, pi_war_target = war_target, pi_tmax = tmax_init,
                pi_tmax_min = tmax_min, pi_tmax_max = tmax_max, pi_margin = margin,
                pi_slope_alpha = slope_alpha, pi_L = None, pi_t = 0, pi_prev_error = None,
                pi_prev_war = None, pi_prev_tmax = None\<rparr>)"

definition effective_gains :: "pi_controller \<Rightarrow> real \<times> real" where
  "effective_gains c =
     (case pi_L c of
        None \<Rightarrow> (pi_kp c, pi_ki c)
      | Some L \<Rightarrow>
          if L = 0 then (pi_kp c, pi_ki c)
          else let bound = pi_margin c * 2 / L; total = 2 * pi_kp c + pi_ki c in
            if total \<le> bound then (pi_kp c, pi_ki c)
            else let scale = bound / total in (pi_kp c * scale, pi_ki c * scale))"

text \<open>\<open>_prev_tmax\<close> is written together with \<open>_prev_war\<close>, so it is read only when set.\<close>

definition update_slope :: "real \<Rightarrow> pi_controller \<Rightarrow> pi_controller" where
  "update_slope war c =
     (case (pi_prev_war c, pi_prev_tmax c) of
        (Some prev_war, Some prev_tmax) \<Rightarrow>
          (let d_tmax = pi_tmax c - prev_tmax in
           if \<bar>d_tmax\<bar> < 1 / 10 ^ 6 then c
           else let sample = \<bar>(war - prev_war) / d_tmax\<bar> in
             c\<lparr>pi_L := Some (case pi_L c of
                 None \<Rightarrow> sample
               | Some L \<Rightarrow> (1 - pi_slope_alpha c) * L + pi_slope_alpha c * sample)\<rparr>)
      | _ \<Rightarrow> c)"

definition pi_update :: "real \<Rightarrow> pi_controller \<Rightarrow> pi_controller \<times> real" where
  "pi_update war_observed c0 =
     (let c = update_slope war_observed c0;
          (kp, ki) = effective_gains c;
          e = pi_war_target c - war_observed;
          de = (case pi_prev_error c of None \<Rightarrow> 0 | Some e0 \<Rightarrow> e - e0);
          tmax = min (max (pi_tmax c + kp * de + ki * e) (pi_tmax_min c)) (pi_tmax_max c)
      in (c\<lparr>pi_prev_error := Some e, pi_prev_war := Some war_observed,
            pi_prev_tmax := Some (pi_tmax c), pi_tmax := tmax, pi_t := pi_t c + 1\<rparr>, tmax))"

record pi_summary =
  psum_t :: nat
  psum_tmax :: real
  psum_war_target :: real
  psum_kp :: real
  psum_ki :: real
  psum_L :: "real option"

definition pi_summary_of :: "pi_controller \<Rightarrow> pi_summary" where
  "pi_summary_of c = (let (kp, ki) = effective_gains c in
     \<lparr>psum_t = pi_t c, psum_tmax = pi_tmax c, psum_war_target = pi_war_target c,
      psum_kp = kp, psum_ki = ki, psum_L = pi_L c\<rparr>)"

fun pi_run :: "real list \<Rightarrow> pi_controller \<Rightarrow> pi_controller" where
  "pi_run [] c = c"
| "pi_run (w # ws) c = pi_run ws (fst (pi_update w c))"

definition pi_ok :: "pi_controller \<Rightarrow> bool" where
  "pi_ok c \<longleftrightarrow> 0 < pi_kp c \<and> 0 < pi_ki c \<and> 0 < pi_margin c \<and> pi_tmax_min c \<le> pi_tmax_max c \<and>
     0 \<le> pi_slope_alpha c \<and> pi_slope_alpha c \<le> 1 \<and>
     (case pi_L c of None \<Rightarrow> True | Some L \<Rightarrow> 0 \<le> L) \<and>
     (pi_prev_war c = None \<longleftrightarrow> pi_prev_tmax c = None) \<and>
     (pi_prev_war c = None \<longleftrightarrow> pi_prev_error c = None)"

lemma update_slope_fields [simp]:
  "pi_kp (update_slope w c) = pi_kp c" "pi_ki (update_slope w c) = pi_ki c"
  "pi_war_target (update_slope w c) = pi_war_target c" "pi_tmax (update_slope w c) = pi_tmax c"
  "pi_tmax_min (update_slope w c) = pi_tmax_min c" "pi_tmax_max (update_slope w c) = pi_tmax_max c"
  "pi_margin (update_slope w c) = pi_margin c" "pi_slope_alpha (update_slope w c) = pi_slope_alpha c"
  "pi_prev_error (update_slope w c) = pi_prev_error c" "pi_prev_war (update_slope w c) = pi_prev_war c"
  "pi_prev_tmax (update_slope w c) = pi_prev_tmax c" "pi_t (update_slope w c) = pi_t c"
  by (simp_all add: update_slope_def Let_def split: option.splits)

lemma update_slope_ok: "pi_ok c \<Longrightarrow> pi_ok (update_slope w c)"
  by (auto simp: pi_ok_def update_slope_def Let_def split: option.splits)

lemma pi_update_fields:
  "pi_kp (fst (pi_update w c)) = pi_kp c" "pi_ki (fst (pi_update w c)) = pi_ki c"
  "pi_war_target (fst (pi_update w c)) = pi_war_target c"
  "pi_tmax_min (fst (pi_update w c)) = pi_tmax_min c" "pi_tmax_max (fst (pi_update w c)) = pi_tmax_max c"
  "pi_margin (fst (pi_update w c)) = pi_margin c" "pi_slope_alpha (fst (pi_update w c)) = pi_slope_alpha c"
  "pi_L (fst (pi_update w c)) = pi_L (update_slope w c)"
  "pi_t (fst (pi_update w c)) = pi_t c + 1" "pi_prev_war (fst (pi_update w c)) = Some w"
  "pi_prev_error (fst (pi_update w c)) = Some (pi_war_target c - w)"
  "pi_prev_tmax (fst (pi_update w c)) = Some (pi_tmax c)"
  "pi_tmax (fst (pi_update w c)) = snd (pi_update w c)"
  by (simp_all add: pi_update_def Let_def split: prod.splits)

lemma pi_update_ok: "pi_ok c \<Longrightarrow> pi_ok (fst (pi_update w c))"
  using update_slope_ok [of c w] by (auto simp: pi_ok_def pi_update_fields split: option.splits)

lemma pi_run_ok: "pi_ok c \<Longrightarrow> pi_ok (pi_run ws c)"
  by (induction ws arbitrary: c) (auto intro: pi_update_ok)

lemma pi_run_snoc: "pi_run (ws @ [w]) c = fst (pi_update w (pi_run ws c))"
  by (induction ws arbitrary: c) auto

lemma pi_run_limits [simp]:
  "pi_tmax_min (pi_run ws c) = pi_tmax_min c" "pi_tmax_max (pi_run ws c) = pi_tmax_max c"
  by (induction ws arbitrary: c) (auto simp: pi_update_fields)

lemma pi_update_in_limits:
  "pi_tmax_min c \<le> pi_tmax_max c \<Longrightarrow>
   pi_tmax_min c \<le> snd (pi_update w c) \<and> snd (pi_update w c) \<le> pi_tmax_max c"
  by (auto simp: pi_update_def Let_def split: prod.splits)

lemma effective_gains_pos:
  assumes "pi_ok c" and "effective_gains c = (kp, ki)"
  shows "0 < kp" "0 < ki" "kp \<le> pi_kp c" "ki \<le> pi_ki c" "kp * pi_ki c = ki * pi_kp c"
proof -
  have "0 < kp \<and> 0 < ki \<and> kp \<le> pi_kp c \<and> ki \<le> pi_ki c \<and> kp * pi_ki c = ki * pi_kp c"
  proof (cases "pi_L c")
    case (Some L)
    let ?b = "pi_margin c * 2 / L" and ?t = "2 * pi_kp c + pi_ki c"
    show ?thesis
    proof (cases "L = 0 \<or> ?t \<le> ?b")
      case False
      have t: "0 < ?t" and b: "0 < ?b" using assms False Some by (auto simp: pi_ok_def)
      have s: "0 < ?b / ?t" "?b / ?t \<le> 1"
        using divide_pos_pos [OF b t] divide_le_eq_1_pos [OF t, of ?b] False by simp_all
      obtain x where x: "x = ?b / ?t" by simp
      have "kp = pi_kp c * x" "ki = pi_ki c * x"
        using assms(2) Some False by (auto simp: effective_gains_def Let_def x)
      moreover have "0 < pi_kp c" "0 < pi_ki c" using assms(1) by (simp_all add: pi_ok_def)
      ultimately show ?thesis using s unfolding x [symmetric] by (simp add: mult_left_le)
    next
      case True
      then have "kp = pi_kp c" "ki = pi_ki c"
        using assms(2) Some by (auto simp: effective_gains_def Let_def split: if_splits)
      then show ?thesis using assms(1) by (simp add: pi_ok_def)
    qed
  qed (use assms in \<open>auto simp: effective_gains_def pi_ok_def\<close>)
  then show "0 < kp" "0 < ki" "kp \<le> pi_kp c" "ki \<le> pi_ki c" "kp * pi_ki c = ki * pi_kp c"
    by auto
qed

lemma effective_gains_region:
  assumes "pi_ok c" and "effective_gains c = (kp, ki)" and "pi_L c = Some L" and "0 < L"
  shows "2 * kp + ki \<le> pi_margin c * 2 / L"
proof (cases "2 * pi_kp c + pi_ki c \<le> pi_margin c * 2 / L")
  case False
  let ?b = "pi_margin c * 2 / L" and ?t = "2 * pi_kp c + pi_ki c"
  have t: "?t \<noteq> 0" using assms(1) by (auto simp: pi_ok_def)
  have "kp = pi_kp c * (?b / ?t)" "ki = pi_ki c * (?b / ?t)"
    using assms False by (auto simp: effective_gains_def Let_def)
  then have "2 * kp + ki = ?t * (?b / ?t)" by (simp only: ring_distribs mult.assoc)
  also have "\<dots> = ?b" using t by simp
  finally show ?thesis by simp
qed (use assms in \<open>auto simp: effective_gains_def Let_def\<close>)

subsection \<open>The loop around its operating point\<close>

text \<open>
  Theorem 2 linearises the plant: the observed WAR answers T\_max with slope \<open>l\<close>. A second-order
  recurrence \<open>e (n + 2) = (1 - p - q) e (n + 1) + p e n\<close> decides the error; its characteristic
  roots are real and, for \<open>0 < p\<close>, \<open>0 < q\<close>, \<open>2 p + q < 2\<close>, inside the unit circle.
\<close>

lemma characteristic_roots:
  fixes p q :: real
  assumes "0 < p" "0 < q" "2 * p + q < 2"
  obtains r s where "r + s = 1 - p - q" "r * s = - p" "\<bar>r\<bar> < 1" "\<bar>s\<bar> < 1" "r \<noteq> s"
proof -
  let ?a = "1 - p - q"
  let ?d = "sqrt (?a\<^sup>2 + 4 * p)"
  have dpos: "0 < ?a\<^sup>2 + 4 * p" using assms by (simp add: add_nonneg_pos)
  have d2: "?d * ?d = ?a\<^sup>2 + 4 * p" using dpos by simp
  have d0: "0 < ?d" using dpos by simp
  have lt1: "?d < 2 - ?a"
  proof (rule real_less_lsqrt)
    have "(2 - ?a)\<^sup>2 - (?a\<^sup>2 + 4 * p) = 4 * q" by (simp add: power2_eq_square algebra_simps)
    then show "?a\<^sup>2 + 4 * p < (2 - ?a)\<^sup>2" using assms by linarith
  qed (use assms in linarith)
  have lt2: "?d < 2 + ?a"
  proof (rule real_less_lsqrt)
    have "(2 + ?a)\<^sup>2 - (?a\<^sup>2 + 4 * p) = 4 * (2 - 2 * p - q)" by (simp add: power2_eq_square algebra_simps)
    also have "0 < \<dots>" using assms by simp
    finally show "?a\<^sup>2 + 4 * p < (2 + ?a)\<^sup>2" by simp
  qed (use assms in linarith)
  let ?r = "(?a + ?d) / 2" and ?s = "(?a - ?d) / 2"
  show thesis
  proof
    show "?r + ?s = 1 - p - q" by (simp add: field_simps)
    have "?r * ?s = (?a * ?a - ?d * ?d) / 4" by (simp add: field_simps)
    then show "?r * ?s = - p" unfolding d2 by (simp add: power2_eq_square)
    have lin: "\<bar>(a + d) / 2\<bar> < 1 \<and> \<bar>(a - d) / 2\<bar> < 1 \<and> (a + d) / 2 \<noteq> (a - d) / 2"
      if "0 < d" "d < 2 - a" "d < 2 + a" for a d :: real
      using that by (auto simp: abs_if)
    show "\<bar>?r\<bar> < 1" "\<bar>?s\<bar> < 1" "?r \<noteq> ?s" using lin [OF d0 lt1 lt2] by blast+
  qed
qed

lemma recurrence_tends_to_zero:
  fixes e :: "nat \<Rightarrow> real"
  assumes pq: "0 < p" "0 < q" "2 * p + q < 2"
    and rec: "\<And>n. e (n + 2) = (1 - p - q) * e (n + 1) + p * e n"
  shows "e \<longlonglongrightarrow> 0"
proof -
  obtain r s where rs: "r + s = 1 - p - q" "r * s = - p" "\<bar>r\<bar> < 1" "\<bar>s\<bar> < 1" "r \<noteq> s"
    using characteristic_roots [OF pq] by blast
  have step: "e (n + 2) = (r + s) * e (n + 1) - r * s * e n" for n
    using rec [of n] rs(1,2) by simp
  have geo: "e (n + 1) - x * e n = y ^ n * (e 1 - x * e 0)" if "x + y = r + s" "x * y = r * s" for x y n
  proof (induction n)
    case (Suc n)
    have "e (Suc n + 1) - x * e (Suc n) = (x + y) * e (n + 1) - x * y * e n - x * e (n + 1)"
      using step [of n] that by (simp add: numeral_2_eq_2)
    also have "\<dots> = y * (e (n + 1) - x * e n)" by (simp add: algebra_simps)
    finally show ?case using Suc.IH by simp
  qed simp
  have "(r - s) * e n = r ^ n * (e 1 - s * e 0) - s ^ n * (e 1 - r * e 0)" for n
    using geo [of s r n] geo [of r s n] by (simp add: algebra_simps)
  then have closed: "e n = (r ^ n * (e 1 - s * e 0) - s ^ n * (e 1 - r * e 0)) / (r - s)" for n
    using rs(5) by (metis eq_iff_diff_eq_0 nonzero_mult_div_cancel_left)
  have "(\<lambda>n. (r ^ n * (e 1 - s * e 0) - s ^ n * (e 1 - r * e 0)) / (r - s)) \<longlonglongrightarrow>
      (0 * (e 1 - s * e 0) - 0 * (e 1 - r * e 0)) / (r - s)"
    using rs by (intro tendsto_intros LIMSEQ_power_zero) auto
  then show ?thesis unfolding closed [symmetric] by simp
qed

text \<open>
  The code in closed loop with a linear plant: each step observes \<open>w0 + l * (T - T0)\<close> at the
  current T\_max and updates.
\<close>

definition plant :: "real \<Rightarrow> real \<Rightarrow> real \<Rightarrow> pi_controller \<Rightarrow> real" where
  "plant w0 l T0 c = w0 + l * (pi_tmax c - T0)"

fun closed_loop :: "real \<Rightarrow> real \<Rightarrow> real \<Rightarrow> nat \<Rightarrow> pi_controller \<Rightarrow> pi_controller" where
  "closed_loop w0 l T0 0 c = c"
| "closed_loop w0 l T0 (Suc n) c =
     (let d = closed_loop w0 l T0 n c in fst (pi_update (plant w0 l T0 d) d))"

text \<open>The T\_max the update proposes before it is clipped.\<close>

definition proposed_tmax :: "real \<Rightarrow> pi_controller \<Rightarrow> real" where
  "proposed_tmax war c =
     (let (kp, ki) = effective_gains (update_slope war c); e = pi_war_target c - war in
      pi_tmax c + kp * (case pi_prev_error c of None \<Rightarrow> 0 | Some e0 \<Rightarrow> e - e0) + ki * e)"

lemma pi_update_unclipped:
  assumes "pi_tmax_min c \<le> proposed_tmax war c" and "proposed_tmax war c \<le> pi_tmax_max c"
  shows "pi_tmax (fst (pi_update war c)) = proposed_tmax war c"
proof -
  obtain kp ki where g: "effective_gains (update_slope war c) = (kp, ki)" by fastforce
  have "pi_tmax (fst (pi_update war c)) =
      min (max (proposed_tmax war c) (pi_tmax_min c)) (pi_tmax_max c)"
    by (cases "pi_prev_error c") (simp_all add: pi_update_def proposed_tmax_def g Let_def)
  then show ?thesis using assms by simp
qed

text \<open>With the slope known, the observed finite difference is the slope again.\<close>

definition slope_known :: "real \<Rightarrow> real \<Rightarrow> real \<Rightarrow> pi_controller \<Rightarrow> bool" where
  "slope_known w0 l T0 c \<longleftrightarrow> pi_L c = Some l \<and>
     (\<exists>T. pi_prev_tmax c = Some T \<and> pi_prev_war c = Some (w0 + l * (T - T0)) \<and>
          pi_prev_error c = Some (pi_war_target c - (w0 + l * (T - T0))))"

lemma update_slope_plant:
  assumes "slope_known w0 l T0 c" and "0 < l"
  shows "pi_L (update_slope (plant w0 l T0 c) c) = Some l"
proof -
  obtain T where T: "pi_prev_tmax c = Some T" "pi_prev_war c = Some (w0 + l * (T - T0))"
    and L: "pi_L c = Some l" using assms(1) by (auto simp: slope_known_def)
  show ?thesis
  proof (cases "\<bar>pi_tmax c - T\<bar> < 1 / 10 ^ 6")
    case False
    then have nz: "pi_tmax c - T \<noteq> 0" by auto
    have "plant w0 l T0 c - (w0 + l * (T - T0)) = l * (pi_tmax c - T)"
      by (simp add: plant_def algebra_simps)
    then have "\<bar>(plant w0 l T0 c - (w0 + l * (T - T0))) / (pi_tmax c - T)\<bar> = l"
      using nz assms(2) by simp
    then show ?thesis using False T L by (simp add: update_slope_def Let_def algebra_simps)
  qed (use T L in \<open>simp add: update_slope_def Let_def\<close>)
qed

lemma slope_known_update:
  assumes "slope_known w0 l T0 c" and "0 < l"
  shows "slope_known w0 l T0 (fst (pi_update (plant w0 l T0 c) c))"
  using update_slope_plant [OF assms]
  by (simp add: slope_known_def pi_update_fields plant_def)

lemma closed_loop_slope_known:
  "slope_known w0 l T0 c \<Longrightarrow> 0 < l \<Longrightarrow> slope_known w0 l T0 (closed_loop w0 l T0 n c)"
  by (induction n) (auto simp: Let_def intro: slope_known_update)

lemma closed_loop_fields [simp]:
  "pi_kp (closed_loop w0 l T0 n c) = pi_kp c" "pi_ki (closed_loop w0 l T0 n c) = pi_ki c"
  "pi_margin (closed_loop w0 l T0 n c) = pi_margin c"
  "pi_war_target (closed_loop w0 l T0 n c) = pi_war_target c"
  by (induction n) (auto simp: Let_def pi_update_fields)

lemma effective_gains_cong:
  "pi_kp c = pi_kp d \<Longrightarrow> pi_ki c = pi_ki d \<Longrightarrow> pi_margin c = pi_margin d \<Longrightarrow> pi_L c = pi_L d \<Longrightarrow>
   effective_gains c = effective_gains d"
  by (simp add: effective_gains_def Let_def split: option.splits)

definition loop_error :: "real \<Rightarrow> real \<Rightarrow> real \<Rightarrow> pi_controller \<Rightarrow> nat \<Rightarrow> real" where
  "loop_error w0 l T0 c n = pi_war_target c - plant w0 l T0 (closed_loop w0 l T0 n c)"

lemma loop_error_step:
  assumes known: "slope_known w0 l T0 d" and l: "0 < l" and g: "effective_gains d = (kp, ki)"
    and prev: "pi_prev_error d = Some e0"
    and noclip: "pi_tmax (fst (pi_update (plant w0 l T0 d) d)) = proposed_tmax (plant w0 l T0 d) d"
  shows "pi_war_target d - plant w0 l T0 (fst (pi_update (plant w0 l T0 d) d)) =
    (1 - l * kp - l * ki) * (pi_war_target d - plant w0 l T0 d) + l * kp * e0"
proof -
  let ?e = "pi_war_target d - plant w0 l T0 d"
  have "effective_gains (update_slope (plant w0 l T0 d) d) = effective_gains d"
    using update_slope_plant [OF known l] known by (intro effective_gains_cong) (auto simp: slope_known_def)
  then have t: "pi_tmax (fst (pi_update (plant w0 l T0 d) d)) = pi_tmax d + kp * (?e - e0) + ki * ?e"
    using noclip prev g by (simp add: proposed_tmax_def Let_def)
  obtain e where e: "e = ?e" by simp
  have "plant w0 l T0 (fst (pi_update (plant w0 l T0 d) d)) =
      w0 + l * (pi_tmax d + kp * (e - e0) + ki * e - T0)"
    by (simp only: plant_def [of w0 l T0 "fst _"] t e)
  moreover have "pi_war_target d = e + (w0 + l * (pi_tmax d - T0))"
    unfolding e by (simp add: plant_def [of w0 l T0 d])
  ultimately have "pi_war_target d - plant w0 l T0 (fst (pi_update (plant w0 l T0 d) d)) =
      (1 - l * kp - l * ki) * e + l * kp * e0"
    by (simp only:) (simp add: algebra_simps)
  then show ?thesis unfolding e .
qed

lemma loop_error_recurrence:
  assumes ok: "pi_ok c" and known: "slope_known w0 l T0 c" and l: "0 < l"
    and g: "effective_gains c = (kp, ki)"
    and noclip: "\<And>n. let d = closed_loop w0 l T0 n c in
      pi_tmax_min d \<le> proposed_tmax (plant w0 l T0 d) d \<and>
      proposed_tmax (plant w0 l T0 d) d \<le> pi_tmax_max d"
  shows "loop_error w0 l T0 c (n + 2) =
    (1 - l * kp - l * ki) * loop_error w0 l T0 c (n + 1) + l * kp * loop_error w0 l T0 c n"
proof -
  let ?d = "closed_loop w0 l T0 (n + 1) c"
  have k: "slope_known w0 l T0 ?d" by (rule closed_loop_slope_known [OF known l])
  have gd: "effective_gains ?d = (kp, ki)"
    unfolding g [symmetric] by (rule effective_gains_cong)
      (use k known in \<open>auto simp: slope_known_def simp del: closed_loop.simps\<close>)
  have prev: "pi_prev_error ?d = Some (loop_error w0 l T0 c n)"
    by (simp add: Let_def pi_update_fields loop_error_def)
  have "pi_tmax (fst (pi_update (plant w0 l T0 ?d) ?d)) = proposed_tmax (plant w0 l T0 ?d) ?d"
    using noclip [of "n + 1"] by (intro pi_update_unclipped) (simp_all only: Let_def)
  from loop_error_step [OF k l gd prev this] show ?thesis
    by (simp add: loop_error_def Let_def pi_update_fields)
qed

subsection \<open>Properties\<close>

datatype 'a est_op = Arrive 'a real | SetRates "('a, real) dict" | Reset "'a option"

fun est_step :: "'a est_op \<Rightarrow> 'a estimator \<Rightarrow> 'a estimator" where
  "est_step (Arrive k t) e = fst (estimator_update k t e)"
| "est_step (SetRates rates) e = set_rates rates e"
| "est_step (Reset k) e = estimator_reset k e"

fun est_op_ok :: "'a est_op \<Rightarrow> bool" where
  "est_op_ok (SetRates rates) = (\<forall>r\<in>snd ` set rates. 0 < r)"
| "est_op_ok _ = True"

lemma est_steps_ok:
  "estimator_ok e \<Longrightarrow> \<forall>x\<in>set ops. est_op_ok x \<Longrightarrow> estimator_ok (fold est_step ops e)"
proof (induction ops arbitrary: e)
  case (Cons x ops)
  have "estimator_ok (est_step x e)"
    using Cons.prems by (cases x) (auto intro: estimator_update_ok set_rates_ok estimator_reset_ok)
  with Cons show ?case by simp
qed simp

text \<open>Every rate estimate the scheduler reads is positive: from a constructor call that
  succeeds with a positive default rate, any sequence of arrivals (at any times, even out of
  order), rate presets with positive rates and resets leaves \<open>get_rate\<close> positive for every
  adapter, seen or not.\<close>

theorem rates_stay_positive:
  assumes "estimator_init alpha d b rank = Inr e" and "0 < d" and "\<forall>x\<in>set ops. est_op_ok x"
  shows "0 < get_rate (fold est_step ops e) k"
  using assms by (intro get_rate_pos est_steps_ok estimator_init_ok)

theorem rates_stay_positive_witness:
  "\<exists>e. estimator_init (1/10) 1 True 0 = Inr e \<and>
     0 < get_rate (fold est_step [Arrive 0 5, Arrive 0 4, SetRates [(1, 3)], Reset (Some 0)] e) (0::nat)"
proof -
  obtain e :: "nat estimator" where e: "estimator_init (1/10) 1 True 0 = Inr e"
    by (simp add: estimator_init_def)
  have "0 < get_rate (fold est_step [Arrive 0 5, Arrive 0 4, SetRates [(1, 3)], Reset (Some 0)] e) 0"
    by (rule rates_stay_positive [OF e]) simp_all
  with e show ?thesis by blast
qed

text \<open>The EWMA finds the true rate of a regular stream: arrivals every \<open>d\<close> seconds (\<open>d\<close> at
  least the code's floor of 1 ns) move the estimate geometrically, with factor \<open>1 - alpha\<close> per
  arrival, towards \<open>1 / d\<close>, and the estimate converges to it.\<close>

theorem ewma_converges:
  assumes "map_of (last_arrival e) k = Some s" and "1 / 10 ^ 9 \<le> d" and "0 < est_alpha e" and "est_alpha e < 1"
  shows "(\<forall>n. get_rate (arrivals k (map (\<lambda>i. s + real (Suc i) * d) [0..<n]) e) k =
             1 / d + (1 - est_alpha e) ^ n * (get_rate e k - 1 / d)) \<and>
    (\<lambda>n. get_rate (arrivals k (map (\<lambda>i. s + real (Suc i) * d) [0..<n]) e) k) \<longlonglongrightarrow> 1 / d"
proof -
  have closed: "get_rate (arrivals k (map (\<lambda>i. s + real (Suc i) * d) [0..<n]) e) k =
      1 / d + (1 - est_alpha e) ^ n * (get_rate e k - 1 / d)" for n
    using arrivals_steady [OF assms(1,2), of n] by (simp only: algebra_simps)
  have "(\<lambda>n. 1 / d + (1 - est_alpha e) ^ n * (get_rate e k - 1 / d)) \<longlonglongrightarrow>
      1 / d + 0 * (get_rate e k - 1 / d)"
    using assms by (intro tendsto_intros LIMSEQ_power_zero) simp
  with closed show ?thesis by simp
qed

definition demo_estimator :: "nat estimator" where
  "demo_estimator = \<lparr>est_alpha = 1/10, est_default_rate = 1, last_arrival = [(7, 2)],
     rate_estimate = [(7, 1)], arrival_count = [(7, 1)]\<rparr>"

theorem ewma_converges_witness:
  "(\<lambda>n. get_rate (arrivals 7 (map (\<lambda>i. 2 + real (Suc i) * (1/4)) [0..<n]) demo_estimator) 7) \<longlonglongrightarrow> 4"
  using ewma_converges [of demo_estimator 7 2 "1/4", THEN conjunct2] by (simp add: demo_estimator_def)

text \<open>T\_max never leaves the limits: after at least one update, whatever WAR values are
  observed, it lies between \<open>tmax_min\<close> and \<open>tmax_max\<close> (so at most T\_SLO, which the scheduler
  passes as \<open>tmax_max\<close>), even when the initial T\_max did not.\<close>

theorem tmax_within_limits:
  assumes "pi_init kp ki target init lo hi margin a = Inr c" and "lo \<le> hi" and "ws \<noteq> []"
  shows "lo \<le> pi_tmax (pi_run ws c) \<and> pi_tmax (pi_run ws c) \<le> hi"
proof -
  obtain us w where ws: "ws = us @ [w]" using assms(3) by (metis rev_exhaust)
  have "pi_tmax_min c = lo" "pi_tmax_max c = hi"
    using assms(1) by (auto simp: pi_init_def split: if_splits)
  then show ?thesis
    using pi_update_in_limits [of "pi_run us c" w] assms(2)
    by (simp add: ws pi_run_snoc pi_update_fields)
qed

theorem tmax_within_limits_witness:
  "\<exists>c. pi_init (1/100) (1/1000) (4/5) 7 (1/1000) (1/5) (9/10) (1/5) = Inr c \<and>
     pi_tmax (pi_run [1/2, 1] c) \<le> 1/5"
proof -
  obtain c where c: "pi_init (1/100) (1/1000) (4/5) 7 (1/1000) (1/5) (9/10) (1/5) = Inr c"
    by (simp add: pi_init_def)
  with tmax_within_limits [OF c, of "[1/2, 1]"] show ?thesis by simp
qed

text \<open>The gains of every update lie in the stable region of Theorem 2: whatever WAR values were
  observed before, once a slope estimate \<open>L > 0\<close> exists both gains are positive, keep their
  configured ratio and satisfy \<open>2 K_p + K_i \<le> margin * 2 / L\<close>, which is below \<open>2 / L\<close> for a
  margin under 1.\<close>

theorem gains_in_stable_region:
  assumes "pi_init kp0 ki0 target init lo hi margin a = Inr c0" and "lo \<le> hi"
    and "0 < margin" and "margin < 1" and "0 \<le> a" and "a \<le> 1"
    and "c = update_slope w (pi_run ws c0)" and "pi_L c = Some L" and "0 < L"
    and "effective_gains c = (kp, ki)"
  shows "0 < kp \<and> 0 < ki \<and> kp * ki0 = ki * kp0 \<and> 2 * kp + ki < 2 / L"
proof -
  have f: "pi_kp (pi_run ws c0) = pi_kp c0" "pi_ki (pi_run ws c0) = pi_ki c0"
      "pi_margin (pi_run ws c0) = pi_margin c0"
    by (induction ws arbitrary: c0) (auto simp: pi_update_fields)
  have i: "pi_ok c0" "pi_kp c0 = kp0" "pi_ki c0 = ki0" "pi_margin c0 = margin"
    using assms(1-6) by (auto simp: pi_init_def pi_ok_def split: if_splits)
  have ok: "pi_ok c" unfolding assms(7) by (intro update_slope_ok pi_run_ok i)
  have "2 * kp + ki \<le> pi_margin c * 2 / L"
    by (rule effective_gains_region [OF ok assms(10,8,9)])
  also have "\<dots> < 2 / L"
    using assms(4,9) f i by (simp add: assms(7) divide_strict_right_mono)
  finally show ?thesis
    using effective_gains_pos [OF ok assms(10)] f i by (simp add: assms(7))
qed

theorem gains_in_stable_region_witness:
  "\<exists>c0 kp ki. pi_init 2 1 (4/5) 0 0 5 (9/10) (1/5) = Inr c0 \<and>
     effective_gains (update_slope 1 (pi_run [0] c0)) = (kp, ki) \<and>
     0 < kp \<and> 0 < ki \<and> kp * 1 = ki * 2 \<and> 2 * kp + ki < 2 / (5/4)"
proof -
  obtain c0 where c0: "pi_init 2 1 (4/5) 0 0 5 (9/10) (1/5) = Inr c0"
    by (simp add: pi_init_def)
  obtain kp ki where g: "effective_gains (update_slope 1 (pi_run [0] c0)) = (kp, ki)" by fastforce
  have L: "pi_L (update_slope 1 (pi_run [0] c0)) = Some (5/4)"
    using c0 by (auto simp: pi_init_def pi_update_def update_slope_def effective_gains_def Let_def)
  have "0 < kp \<and> 0 < ki \<and> kp * 1 = ki * 2 \<and> 2 * kp + ki < 2 / (5/4)"
    by (rule gains_in_stable_region [OF c0 _ _ _ _ _ refl L _ g]) simp_all
  with c0 g show ?thesis by blast
qed

text \<open>C20: Theorem 2 for the code itself, in closed loop with a linear plant of slope \<open>l\<close> that the
  controller has estimated: with positive gains scaled by a margin under 1, and as long as T\_max
  is not clipped, the alignment error converges to zero from every starting point.\<close>

theorem pi_loop_converges:
  assumes ok: "pi_ok c" and known: "slope_known w0 l T0 c" and l: "0 < l" and m: "pi_margin c < 1"
    and noclip: "\<And>n. let d = closed_loop w0 l T0 n c in
      pi_tmax_min d \<le> proposed_tmax (plant w0 l T0 d) d \<and>
      proposed_tmax (plant w0 l T0 d) d \<le> pi_tmax_max d"
  shows "loop_error w0 l T0 c \<longlonglongrightarrow> 0"
proof -
  obtain kp ki where g: "effective_gains c = (kp, ki)" by fastforce
  have L: "pi_L c = Some l" using known by (simp add: slope_known_def)
  have pos: "0 < l * kp" "0 < l * ki" using effective_gains_pos [OF ok g] l by simp_all
  have "2 * kp + ki \<le> pi_margin c * 2 / l" by (rule effective_gains_region [OF ok g L l])
  also have "\<dots> < 2 / l" using m l by (simp add: divide_strict_right_mono)
  finally have "2 * (l * kp) + l * ki < 2" using l by (simp add: field_simps)
  then show ?thesis
    by (rule recurrence_tends_to_zero [OF pos])
      (use loop_error_recurrence [OF ok known l g noclip] in simp)
qed

definition demo_controller :: "real \<Rightarrow> nat \<Rightarrow> pi_controller" where
  "demo_controller x n = \<lparr>pi_kp = 1/8, pi_ki = 5/8, pi_war_target = 1, pi_tmax = 1 - x / 2,
     pi_tmax_min = 0, pi_tmax_max = 5, pi_margin = 9/10, pi_slope_alpha = 1/5, pi_L = Some 1,
     pi_t = n, pi_prev_error = Some x, pi_prev_war = Some (1 - x), pi_prev_tmax = Some (1 - x)\<rparr>"

lemma demo_update:
  assumes "0 < x" "x \<le> 1"
  shows "fst (pi_update (plant 1 1 1 (demo_controller x n)) (demo_controller x n)) =
    demo_controller (x / 2) (Suc n)"
proof -
  have s: "update_slope (1 - x / 2) (demo_controller x n) = demo_controller x n"
    using assms by (simp add: update_slope_def demo_controller_def Let_def)
  show ?thesis
    using assms by (simp add: pi_update_def plant_def demo_controller_def [of x n] Let_def
        s [unfolded demo_controller_def [of x n]] effective_gains_def)
      (simp add: demo_controller_def max_def min_def)
qed

lemma demo_loop: "closed_loop 1 1 1 n (demo_controller 1 0) = demo_controller ((1/2) ^ n) n"
proof (induction n)
  case (Suc n)
  have "((1/2) ^ n :: real) \<le> 1" by (simp add: power_le_one)
  with Suc demo_update [of "(1/2) ^ n" n] show ?case by (simp add: Let_def)
qed simp

theorem pi_loop_converges_witness: "loop_error 1 1 1 (demo_controller 1 0) \<longlonglongrightarrow> 0"
proof (rule pi_loop_converges)
  fix n
  obtain x :: real where x: "x = (1/2) ^ n" "0 < x" "x \<le> 1" by (simp add: power_le_one)
  then show "let d = closed_loop 1 1 1 n (demo_controller 1 0) in
      pi_tmax_min d \<le> proposed_tmax (plant 1 1 1 d) d \<and>
      proposed_tmax (plant 1 1 1 d) d \<le> pi_tmax_max d"
    unfolding demo_loop Let_def x(1) [symmetric]
    by (auto simp: proposed_tmax_def plant_def demo_controller_def update_slope_def effective_gains_def Let_def)
qed (simp_all add: demo_controller_def pi_ok_def slope_known_def)

end
