(* ===== verification/Metrics.thy ===== *)
theory Metrics
  imports Prelude
begin

text \<open>
  The alignment metrics of \<^verbatim>\<open>adapter_slots/metrics/\<close>: WAR (\<^verbatim>\<open>war.py\<close>, the share of
  complete warps whose tokens belong to one adapter) and GWAR(n*) (\<^verbatim>\<open>gwar.py\<close>, the share of
  tokens in same-adapter runs of at least n* tokens). Ratios of floats are exact reals here.
\<close>

subsection \<open>WAR\<close>

definition WARP_SIZE :: nat where
  "WARP_SIZE = 32"

text \<open>The slice \<open>batch_tokens[j * warp_size : (j + 1) * warp_size]\<close>.\<close>

definition warp_slice :: "'a list \<Rightarrow> nat \<Rightarrow> nat \<Rightarrow> 'a list" where
  "warp_slice xs w j = take w (drop (j * w) xs)"

text \<open>
  A token dict carries one key, \<open>adapter_id\<close>; a token is its adapter. A warp size of zero
  makes \<open>n // warp_size\<close> raise.
\<close>

definition compute_war :: "'a list \<Rightarrow> nat \<Rightarrow> py_error + real" where
  "compute_war batch_tokens warp_size =
     (let n = length batch_tokens in
      if n = 0 then Inr 0
      else if warp_size = 0 then Inl ZeroDivisionError
      else let m = n div warp_size in
        if m = 0 then Inr 0
        else let aligned = foldl (\<lambda>aligned j.
               if card (set (warp_slice batch_tokens warp_size j)) = 1 then aligned + 1
               else aligned) (0::nat) [0..<m]
          in Inr (real aligned / real m))"

text \<open>
  The array version runs on numpy, which is not part of the repository: its four calls are
  parameters, with numpy's documented results as \<open>numpy_ok\<close>.
\<close>

record numpy =
  np_array_int32 :: "int list \<Rightarrow> py_error + int list"
  np_reshape :: "int list \<Rightarrow> nat \<Rightarrow> nat \<Rightarrow> int list list"
  np_row_min :: "int list list \<Rightarrow> int list"
  np_row_max :: "int list list \<Rightarrow> int list"
  np_count_eq :: "int list \<Rightarrow> int list \<Rightarrow> nat"

definition fits_int32 :: "int \<Rightarrow> bool" where
  "fits_int32 x \<longleftrightarrow> - (2 ^ 31) \<le> x \<and> x < 2 ^ 31"

definition numpy_ok :: "numpy \<Rightarrow> bool" where
  "numpy_ok np \<longleftrightarrow>
     (\<forall>xs. (\<forall>x\<in>set xs. fits_int32 x) \<longrightarrow> np_array_int32 np xs = Inr xs) \<and>
     (\<forall>xs r c. length xs = r * c \<longrightarrow> np_reshape np xs r c = map (warp_slice xs c) [0..<r]) \<and>
     (\<forall>rows. [] \<notin> set rows \<longrightarrow> np_row_min np rows = map (Min \<circ> set) rows) \<and>
     (\<forall>rows. [] \<notin> set rows \<longrightarrow> np_row_max np rows = map (Max \<circ> set) rows) \<and>
     (\<forall>xs ys. length xs = length ys \<longrightarrow>
        np_count_eq np xs ys = length (filter (\<lambda>(x, y). x = y) (zip xs ys)))"

definition compute_war_from_ids :: "numpy \<Rightarrow> int list \<Rightarrow> nat \<Rightarrow> py_error + real" where
  "compute_war_from_ids np adapter_ids warp_size =
     (case np_array_int32 np adapter_ids of
        Inl e \<Rightarrow> Inl e
      | Inr arr \<Rightarrow>
          (let n = length arr in
           if warp_size = 0 then Inl ZeroDivisionError
           else let m = n div warp_size in
             if m = 0 then Inr 0
             else let warps = np_reshape np (take (m * warp_size) arr) m warp_size;
                      aligned = np_count_eq np (np_row_min np warps) (np_row_max np warps)
               in Inr (real aligned / real m)))"

text \<open>A numpy on lists, to show the hypotheses hold together.\<close>

definition numpy_ref :: numpy where
  "numpy_ref = \<lparr>
     np_array_int32 = (\<lambda>xs. if \<forall>x\<in>set xs. fits_int32 x then Inr xs else Inl OverflowError),
     np_reshape = (\<lambda>xs r c. map (warp_slice xs c) [0..<r]),
     np_row_min = (\<lambda>rows. map (Min \<circ> set) rows),
     np_row_max = (\<lambda>rows. map (Max \<circ> set) rows),
     np_count_eq = (\<lambda>xs ys. length (filter (\<lambda>(x, y). x = y) (zip xs ys)))\<rparr>"

lemma numpy_ref_ok: "numpy_ok numpy_ref"
  by (simp add: numpy_ok_def numpy_ref_def)

definition aligned_warps :: "'a list \<Rightarrow> nat \<Rightarrow> nat list" where
  "aligned_warps xs w = filter (\<lambda>j. card (set (warp_slice xs w j)) = 1) [0..<length xs div w]"

lemma foldl_count: "foldl (\<lambda>a j. if P j then a + 1 else a) (k::nat) js = k + length (filter P js)"
  by (induction js arbitrary: k) auto

lemma length_warp_slice [simp]:
  "j < length xs div w \<Longrightarrow> length (warp_slice xs w j) = w"
proof -
  assume j: "j < length xs div w"
  then have "(j + 1) * w \<le> length xs"
    by (metis Suc_eq_plus1 Suc_leI le_trans mult_le_mono1 times_div_less_eq_dividend mult.commute)
  then show ?thesis by (simp add: warp_slice_def)
qed

lemma compute_war_eq:
  "0 < w \<Longrightarrow> compute_war xs w =
     (if length xs div w = 0 then Inr 0
      else Inr (real (length (aligned_warps xs w)) / real (length xs div w)))"
  by (auto simp: compute_war_def Let_def aligned_warps_def foldl_count)

lemma compute_war_bounds: "compute_war xs w = Inr r \<Longrightarrow> 0 \<le> r \<and> r \<le> 1"
proof (cases "w = 0")
  case True
  then show "compute_war xs w = Inr r \<Longrightarrow> 0 \<le> r \<and> r \<le> 1"
    by (auto simp: compute_war_def Let_def split: if_splits)
next
  case False
  assume r: "compute_war xs w = Inr r"
  have "length (aligned_warps xs w) \<le> length xs div w"
    unfolding aligned_warps_def by (rule order_trans [OF length_filter_le]) simp
  with r False show ?thesis
    by (auto simp: compute_war_eq divide_le_eq_1 split: if_splits)
qed

lemma card_1_iff_Min_Max:
  fixes A :: "int set"
  assumes "finite A" and "A \<noteq> {}"
  shows "card A = 1 \<longleftrightarrow> Min A = Max A"
proof
  assume "card A = 1"
  then show "Min A = Max A" by (auto simp: card_1_singleton_iff)
next
  assume eq: "Min A = Max A"
  have "A = {Min A}"
  proof (intro equalityI subsetI)
    fix x
    assume "x \<in> A"
    then have "Min A \<le> x" and "x \<le> Max A" using assms(1) by auto
    with eq show "x \<in> {Min A}" by simp
  qed (use Min_in assms in auto)
  then show "card A = 1" by (metis card_1_singleton_iff One_nat_def)
qed

lemma warp_slice_take:
  "j < m \<Longrightarrow> warp_slice (take (m * w) xs) w j = warp_slice xs w j"
proof -
  assume "j < m"
  then have "(j + 1) * w \<le> m * w" by (intro mult_le_mono1) simp
  then have "w \<le> m * w - j * w" by simp
  then show ?thesis by (simp add: warp_slice_def drop_take min_def)
qed

subsection \<open>GWAR\<close>

text \<open>The inner loop: \<open>j\<close> advances while the token is of the run that starts at \<open>i\<close>.\<close>

function scan_run :: "'a list \<Rightarrow> nat \<Rightarrow> nat \<Rightarrow> nat" where
  "scan_run xs i j = (if j < length xs \<and> xs ! j = xs ! i then scan_run xs i (Suc j) else j)"
  by pat_completeness auto
termination
  by (relation "measure (\<lambda>(xs, i, j). length xs - j)") auto

declare scan_run.simps [simp del]

lemma scan_run_ge: "j \<le> scan_run xs i j"
proof (induction xs i j rule: scan_run.induct)
  case (1 xs i j)
  show ?case
  proof (cases "j < length xs \<and> xs ! j = xs ! i")
    case True
    with 1 have "Suc j \<le> scan_run xs i (Suc j)" by simp
    with True show ?thesis by (simp add: scan_run.simps [of xs i j])
  next
    case False
    then show ?thesis by (auto simp: scan_run.simps [of xs i j])
  qed
qed

lemma scan_run_le: "j \<le> length xs \<Longrightarrow> scan_run xs i j \<le> length xs"
proof (induction xs i j rule: scan_run.induct)
  case (1 xs i j)
  then show ?case by (subst scan_run.simps) simp
qed

lemma scan_run_takeWhile:
  "j \<le> length xs \<Longrightarrow> scan_run xs i j = j + length (takeWhile ((=) (xs ! i)) (drop j xs))"
proof (induction xs i j rule: scan_run.induct)
  case (1 xs i j)
  show ?case
  proof (cases "j < length xs \<and> xs ! j = xs ! i")
    case True
    then have "drop j xs = xs ! i # drop (Suc j) xs"
      by (metis Cons_nth_drop_Suc)
    with True 1 show ?thesis by (subst scan_run.simps) simp
  next
    case False
    then show ?thesis
    proof (cases "j < length xs")
      case True
      with False have "takeWhile ((=) (xs ! i)) (drop j xs) = []"
        by (auto simp flip: Cons_nth_drop_Suc)
      with False show ?thesis by (subst scan_run.simps) auto
    qed (subst scan_run.simps, simp)
  qed
qed

text \<open>The outer loop of \<open>compute_gwar\<close>.\<close>

function gwar_scan :: "'a list \<Rightarrow> int \<Rightarrow> nat \<Rightarrow> nat \<Rightarrow> nat" where
  "gwar_scan xs threshold i promoted =
     (if i < length xs
      then let j = scan_run xs i (i + 1); seg_len = j - i
           in gwar_scan xs threshold j
                (if int seg_len \<ge> threshold then promoted + seg_len else promoted)
      else promoted)"
  by pat_completeness auto
termination
proof (relation "measure (\<lambda>(xs, t, i, p). length xs - i)", goal_cases)
  case (2 xs t i p j s)
  then show ?case using scan_run_ge [of "i + 1" xs i] by simp
qed simp

declare gwar_scan.simps [simp del]

definition compute_gwar :: "'a list \<Rightarrow> int \<Rightarrow> real" where
  "compute_gwar adapter_ids threshold =
     (let n = length adapter_ids in
      if n = 0 \<or> threshold \<le> 0 then 0
      else if threshold = 1 then 1
      else real (gwar_scan adapter_ids threshold 0 0) / real n)"

text \<open>The run-length encoding built by \<open>compute_gwar_curve\<close>.\<close>

function seg_scan :: "'a list \<Rightarrow> nat \<Rightarrow> nat list \<Rightarrow> nat list" where
  "seg_scan xs i seg_lengths =
     (if i < length xs
      then let j = scan_run xs i (i + 1) in seg_scan xs j (seg_lengths @ [j - i])
      else seg_lengths)"
  by pat_completeness auto
termination
proof (relation "measure (\<lambda>(xs, i, p). length xs - i)", goal_cases)
  case (2 xs i p j)
  then show ?case using scan_run_ge [of "i + 1" xs i] by simp
qed simp

declare seg_scan.simps [simp del]

definition compute_gwar_curve :: "'a list \<Rightarrow> int list \<Rightarrow> (int, real) dict" where
  "compute_gwar_curve adapter_ids thresholds =
     (let n = length adapter_ids in
      if n = 0 then dict_of (\<lambda>t. 0) thresholds []
      else let seg_lengths = seg_scan adapter_ids 0 [] in
        dict_of (\<lambda>thr.
           if thr \<le> 0 then 1
           else if thr = 1 then 1
           else real (sum_list (filter (\<lambda>s. int s \<ge> thr) seg_lengths)) / real n) thresholds [])"

text \<open>Both loops walk over the maximal runs.\<close>

definition promoted_tokens :: "'a list \<Rightarrow> int \<Rightarrow> nat" where
  "promoted_tokens xs t = sum_list (filter (\<lambda>s. int s \<ge> t) (map length (runs xs)))"

lemma run_at:
  assumes "i < length xs"
  shows "runs (drop i xs) =
    (xs ! i # takeWhile ((=) (xs ! i)) (drop (Suc i) xs)) # runs (drop (scan_run xs i (i + 1)) xs)"
    and "length (xs ! i # takeWhile ((=) (xs ! i)) (drop (Suc i) xs)) = scan_run xs i (i + 1) - i"
proof -
  let ?t = "takeWhile ((=) (xs ! i)) (drop (Suc i) xs)"
  have s: "scan_run xs i (Suc i) = Suc i + length ?t"
    using assms scan_run_takeWhile [of "Suc i" xs i] by simp
  have d: "drop i xs = xs ! i # drop (Suc i) xs"
    using assms by (simp add: Cons_nth_drop_Suc)
  have "dropWhile ((=) (xs ! i)) (drop (Suc i) xs) = drop (length ?t) (drop (Suc i) xs)"
    by (rule dropWhile_eq_drop)
  then show "runs (drop i xs) = (xs ! i # ?t) # runs (drop (scan_run xs i (i + 1)) xs)"
    by (simp only: d runs.simps s drop_drop Suc_eq_plus1 [symmetric]) (simp add: add.commute)
  show "length (xs ! i # ?t) = scan_run xs i (i + 1) - i"
    by (simp add: s)
qed

lemma gwar_scan_runs:
  "gwar_scan xs t i p = p + promoted_tokens (drop i xs) t"
proof (induction xs t i p rule: gwar_scan.induct)
  case (1 xs t i p)
  show ?case
  proof (cases "i < length xs")
    case True
    with 1 [OF True refl refl] run_at [OF True] show ?thesis
      by (subst gwar_scan.simps) (auto simp: promoted_tokens_def Let_def)
  qed (subst gwar_scan.simps, simp add: promoted_tokens_def)
qed

lemma seg_scan_runs: "seg_scan xs i acc = acc @ map length (runs (drop i xs))"
proof (induction xs i acc rule: seg_scan.induct)
  case (1 xs i acc)
  show ?case
  proof (cases "i < length xs")
    case True
    with 1 [OF True refl] run_at [OF True] show ?thesis
      by (subst seg_scan.simps) (simp add: Let_def)
  qed (subst seg_scan.simps, simp)
qed

lemma sum_list_filter_le: "sum_list (filter P (xs :: nat list)) \<le> sum_list xs"
  by (induction xs) auto

lemma promoted_tokens_le: "promoted_tokens xs t \<le> length xs"
  using sum_list_filter_le [of "\<lambda>s. int s \<ge> t" "map length (runs xs)"]
  by (simp add: promoted_tokens_def)

lemma promoted_tokens_one: "t \<le> 1 \<Longrightarrow> promoted_tokens xs t = length xs"
proof -
  assume t: "t \<le> 1"
  have "\<forall>s\<in>set (map length (runs xs)). int s \<ge> t"
  proof
    fix s
    assume "s \<in> set (map length (runs xs))"
    then obtain r where "r \<in> set (runs xs)" and "s = length r" by auto
    with runs_nonempty have "0 < s" by auto
    with t show "t \<le> int s" by simp
  qed
  then have "filter (\<lambda>s. int s \<ge> t) (map length (runs xs)) = map length (runs xs)"
    by (simp add: filter_id_conv)
  then show ?thesis by (simp add: promoted_tokens_def)
qed

lemma promoted_tokens_antimono: "t \<le> t' \<Longrightarrow> promoted_tokens xs t' \<le> promoted_tokens xs t"
proof -
  assume t: "t \<le> t'"
  have "sum_list (filter (\<lambda>s. int s \<ge> t') ls) \<le> sum_list (filter (\<lambda>s. int s \<ge> t) ls)" for ls :: "nat list"
    using t by (induction ls) auto
  then show ?thesis by (simp add: promoted_tokens_def)
qed

lemma compute_gwar_runs:
  "1 \<le> t \<Longrightarrow> xs \<noteq> [] \<Longrightarrow> compute_gwar xs t = real (promoted_tokens xs t) / real (length xs)"
  by (auto simp: compute_gwar_def Let_def gwar_scan_runs promoted_tokens_one)

subsection \<open>WAR against GWAR\<close>

text \<open>The positions covered by a homogeneous window of \<open>w\<close> tokens.\<close>

definition windows :: "'a list \<Rightarrow> nat \<Rightarrow> nat set" where
  "windows xs w = {p. \<exists>i. i \<le> p \<and> p < i + w \<and> i + w \<le> length xs \<and>
     (\<forall>q. i \<le> q \<and> q < i + w \<longrightarrow> xs ! q = xs ! i)}"

lemma windows_subset: "windows xs w \<subseteq> {..<length xs}"
  by (auto simp: windows_def)

lemma windows_append_run:
  assumes r: "r \<noteq> []" "\<forall>x\<in>set r. x = hd r" and sep: "ys \<noteq> [] \<Longrightarrow> hd ys \<noteq> hd r"
  shows "windows (r @ ys) w \<subseteq> (if w \<le> length r then {..<length r} else {}) \<union>
           (\<lambda>p. p + length r) ` windows ys w"
proof
  fix p
  assume "p \<in> windows (r @ ys) w"
  then obtain i where i: "i \<le> p" "p < i + w" "i + w \<le> length r + length ys"
    and eq: "\<And>q. i \<le> q \<Longrightarrow> q < i + w \<Longrightarrow> (r @ ys) ! q = (r @ ys) ! i"
    by (auto simp: windows_def)
  show "p \<in> (if w \<le> length r then {..<length r} else {}) \<union> (\<lambda>p. p + length r) ` windows ys w"
  proof (cases "i < length r")
    case True
    have "i + w \<le> length r"
    proof (rule ccontr)
      assume "\<not> i + w \<le> length r"
      then have b: "length r < i + w" and ne: "ys \<noteq> []" using i by auto
      have "(r @ ys) ! length r = (r @ ys) ! i" using eq [of "length r"] b True by simp
      then have "hd ys = r ! i" using True ne by (simp add: nth_append hd_conv_nth)
      moreover have "r ! i = hd r" using r True by simp
      ultimately show False using sep ne by simp
    qed
    with i show ?thesis by auto
  next
    case False
    have "p - length r \<in> windows ys w"
      unfolding windows_def
    proof (intro CollectI exI [of _ "i - length r"] conjI allI impI)
      fix q
      assume q: "i - length r \<le> q \<and> q < i - length r + w"
      then have "(r @ ys) ! (q + length r) = (r @ ys) ! i" using False by (intro eq) auto
      then show "ys ! q = ys ! (i - length r)" using False by (simp add: nth_append)
    qed (use i False in auto)
    moreover have "p = (p - length r) + length r" using i False by simp
    ultimately show ?thesis by blast
  qed
qed

lemma card_windows: "card (windows xs w) \<le> promoted_tokens xs (int w)"
proof (induction xs rule: runs.induct)
  case 1
  have "windows ([] :: 'a list) w = {}" by (auto simp: windows_def)
  then show ?case by (simp only: card.empty)
next
  case (2 x xs)
  let ?r = "x # takeWhile ((=) x) xs" and ?ys = "dropWhile ((=) x) xs"
  have hom: "\<forall>y\<in>set ?r. y = hd ?r" by (auto dest: set_takeWhileD)
  have sep: "?ys \<noteq> [] \<Longrightarrow> hd ?ys \<noteq> hd ?r" using hd_dropWhile_run [of x xs] by simp
  have eq: "x # xs = ?r @ ?ys" by simp
  let ?big = "if w \<le> length ?r then {..<length ?r} else {}"
  have fin: "finite (windows ?ys w)" by (rule finite_subset [OF windows_subset]) simp
  have "windows (x # xs) w \<subseteq> ?big \<union> (\<lambda>p. p + length ?r) ` windows ?ys w"
    using windows_append_run [OF _ hom sep, of w] by (simp only: eq) simp
  then have "card (windows (x # xs) w) \<le> card (?big \<union> (\<lambda>p. p + length ?r) ` windows ?ys w)"
    using fin by (intro card_mono) auto
  also have "\<dots> \<le> card ?big + card ((\<lambda>p. p + length ?r) ` windows ?ys w)"
    by (rule card_Un_le)
  also have "\<dots> \<le> (if w \<le> length ?r then length ?r else 0) + card (windows ?ys w)"
    using card_image_le [OF fin, of "\<lambda>p. p + length ?r"] by simp
  also have "\<dots> \<le> promoted_tokens (x # xs) (int w)"
    using 2 by (simp add: promoted_tokens_def)
  finally show ?case .
qed

lemma aligned_warp_window:
  assumes "j \<in> set (aligned_warps xs w)" and "j * w \<le> p" and "p < j * w + w"
  shows "p \<in> windows xs w"
proof -
  from assms(1) have j: "j < length xs div w" and c: "card (set (warp_slice xs w j)) = 1"
    by (auto simp: aligned_warps_def)
  have len: "j * w + w \<le> length xs"
    using j by (metis Suc_leI add.commute le_trans mult_Suc mult_le_mono1 times_div_less_eq_dividend mult.commute)
  from c obtain a where a: "set (warp_slice xs w j) = {a}" by (auto simp: card_1_singleton_iff)
  have "xs ! q = a" if "j * w \<le> q" "q < j * w + w" for q
  proof -
    have "warp_slice xs w j ! (q - j * w) = xs ! q"
      using that len by (simp add: warp_slice_def)
    moreover have "warp_slice xs w j ! (q - j * w) \<in> set (warp_slice xs w j)"
      using that j by (intro nth_mem) simp
    ultimately show ?thesis using a by simp
  qed
  then show ?thesis using assms(2,3) len unfolding windows_def by (intro CollectI exI [of _ "j * w"]) auto
qed

lemma aligned_tokens_le_promoted:
  assumes "0 < w"
  shows "length (aligned_warps xs w) * w \<le> promoted_tokens xs (int w)"
proof -
  let ?J = "set (aligned_warps xs w)"
  let ?blk = "\<lambda>j. {j * w..<j * w + w}"
  have d: "distinct (aligned_warps xs w)" by (simp add: aligned_warps_def)
  have disj: "?blk i \<inter> ?blk j = {}" if "i \<noteq> j" for i j
  proof -
    have "p div w = k" if "p \<in> ?blk k" for p k
      using that assms by (auto intro!: div_nat_eqI simp: algebra_simps)
    with that show ?thesis by blast
  qed
  have "length (aligned_warps xs w) * w = (\<Sum>j\<in>?J. card (?blk j))"
    using d by (simp add: distinct_card)
  also have "\<dots> = card (\<Union>j\<in>?J. ?blk j)"
    using disj by (intro card_UN_disjoint [symmetric]) auto
  also have "\<dots> \<le> card (windows xs w)"
    by (intro card_mono finite_subset [OF windows_subset]) (auto intro: aligned_warp_window)
  also have "\<dots> \<le> promoted_tokens xs (int w)" by (rule card_windows)
  finally show ?thesis .
qed

subsection \<open>Properties\<close>

text \<open>The numpy version of WAR computes the same ratio as the reference loop over token
  dicts, on every batch of int32 adapter ids and every positive warp size, under numpy's
  documented array operations.\<close>

theorem war_from_ids_agrees:
  assumes "numpy_ok np" and "\<forall>x\<in>set ids. fits_int32 x" and "0 < w"
  shows "compute_war_from_ids np ids w = compute_war ids w"
proof (cases "length ids div w = 0")
  case True
  have "np_array_int32 np ids = Inr ids" using assms by (simp add: numpy_ok_def)
  with True assms(3) show ?thesis by (simp add: compute_war_from_ids_def compute_war_eq)
next
  case False
  let ?m = "length ids div w"
  let ?warps = "map (warp_slice ids w) [0..<?m]"
  let ?mm = "\<lambda>f :: int set \<Rightarrow> int. map (f \<circ> set) ?warps"
  have arr: "np_array_int32 np ids = Inr ids" using assms by (simp add: numpy_ok_def)
  have len: "length (take (?m * w) ids) = ?m * w"
    using div_times_less_eq_dividend [of "length ids" w] by simp
  have warps: "np_reshape np (take (?m * w) ids) ?m w = ?warps"
    using assms(1) len by (simp add: numpy_ok_def warp_slice_take)
  have ne: "[] \<notin> set ?warps"
    using assms(3) by (fastforce dest: length_warp_slice)
  have "np_row_min np ?warps = ?mm Min" "np_row_max np ?warps = ?mm Max"
    using assms(1) ne by (auto simp: numpy_ok_def)
  then have "np_count_eq np (np_row_min np ?warps) (np_row_max np ?warps) =
      length (filter (\<lambda>(x, y). x = y) (zip (?mm Min) (?mm Max)))"
    using assms(1) by (simp add: numpy_ok_def)
  also have "\<dots> = length (filter (\<lambda>j. Min (set (warp_slice ids w j)) = Max (set (warp_slice ids w j))) [0..<?m])"
    by (simp add: zip_map_map zip_same_conv_map filter_map o_def)
  also have "\<dots> = length (aligned_warps ids w)"
  proof -
    have "card (set (warp_slice ids w j)) = 1 \<longleftrightarrow>
        Min (set (warp_slice ids w j)) = Max (set (warp_slice ids w j))" if "j < ?m" for j
    proof (rule card_1_iff_Min_Max)
      have "warp_slice ids w j \<noteq> []" using length_warp_slice [OF that] assms(3) by auto
      then show "set (warp_slice ids w j) \<noteq> {}" by simp
    qed simp
    then show ?thesis unfolding aligned_warps_def
      by (intro arg_cong [where f = length] filter_cong) auto
  qed
  finally show ?thesis
    using False assms(3) by (simp add: compute_war_from_ids_def compute_war_eq arr warps)
qed

theorem war_from_ids_agrees_witness:
  "compute_war_from_ids numpy_ref [7, 7, 3, 7, 5, 5] 2 = compute_war [7, 7, 3, 7, 5, 5 :: int] 2"
  by (rule war_from_ids_agrees [OF numpy_ref_ok]) (simp_all add: fits_int32_def)

text \<open>GWAR is a share that falls as the threshold grows: on a non-empty batch it lies in
  [0, 1], equals 1 at \<open>n* = 1\<close>, is non-increasing over the thresholds \<open>n* \<ge> 1\<close>, and the scan
  returns exactly the tokens in maximal same-adapter runs of at least n* tokens.\<close>

theorem gwar_is_antitone_share:
  assumes "1 \<le> t" and "t \<le> t'" and "xs \<noteq> []"
  shows "0 \<le> compute_gwar xs t' \<and> compute_gwar xs t' \<le> compute_gwar xs t \<and> compute_gwar xs t \<le> 1 \<and>
    compute_gwar xs 1 = 1 \<and>
    compute_gwar xs t * length xs = (\<Sum>r\<leftarrow>runs xs. if t \<le> int (length r) then length r else 0)"
proof -
  have "promoted_tokens xs t = (\<Sum>r\<leftarrow>runs xs. if t \<le> int (length r) then length r else 0)"
    unfolding promoted_tokens_def by (induction "runs xs" rule: list.induct) (simp_all add: sum_list_map_filter' filter_map o_def sum_list_map_filter)
  moreover have "real (promoted_tokens xs t') \<le> real (promoted_tokens xs t)"
    using promoted_tokens_antimono [OF assms(2)] by simp
  ultimately show ?thesis
    using assms promoted_tokens_le [of xs t] promoted_tokens_one [of 1 xs]
    by (simp add: compute_gwar_runs divide_right_mono)
qed

theorem gwar_is_antitone_share_witness:
  "compute_gwar [7, 7, 7, 3, 5, 5 :: nat] 3 \<le> compute_gwar [7, 7, 7, 3, 5, 5 :: nat] 2"
  using gwar_is_antitone_share [of 2 3 "[7, 7, 7, 3, 5, 5 :: nat]"] by simp

text \<open>The one-pass curve agrees with the single-threshold scan: for every requested threshold of
  at least 1 the dict \<open>compute_gwar_curve\<close> returns holds the value \<open>compute_gwar\<close> computes, for
  the empty batch too.\<close>

theorem gwar_curve_agrees:
  assumes "t \<in> set thresholds" and "1 \<le> t"
  shows "map_of (compute_gwar_curve xs thresholds) t = Some (compute_gwar xs t)"
proof (cases "xs = []")
  case True
  with assms show ?thesis by (simp add: compute_gwar_curve_def compute_gwar_def map_of_dict_of)
next
  case False
  have "seg_scan xs 0 [] = map length (runs xs)" by (simp add: seg_scan_runs)
  then show ?thesis
    using assms False promoted_tokens_one [of 1 xs]
    by (auto simp: compute_gwar_curve_def Let_def map_of_dict_of compute_gwar_runs promoted_tokens_def)
qed

theorem gwar_curve_agrees_witness:
  "map_of (compute_gwar_curve [7, 7, 7, 3 :: nat] [1, 2, 4]) 2 = Some (compute_gwar [7, 7, 7, 3 :: nat] 2)"
  by (rule gwar_curve_agrees) simp_all

text \<open>Below 1 the two functions disagree, and GWAR is not non-increasing there: on every
  non-empty batch \<open>compute_gwar\<close> returns 0 for a threshold of 0 or less, \<open>compute_gwar_curve\<close>
  returns 1 for the same threshold.\<close>

theorem gwar_disagree_below_one:
  assumes "xs \<noteq> []" and "t \<le> 0" and "t \<in> set thresholds"
  shows "compute_gwar xs t = 0 \<and> map_of (compute_gwar_curve xs thresholds) t = Some 1 \<and>
    compute_gwar xs t < compute_gwar xs 1"
  using assms by (auto simp: compute_gwar_def compute_gwar_curve_def Let_def map_of_dict_of)

theorem gwar_disagree_below_one_witness:
  "compute_gwar [7, 7 :: nat] 0 = 0 \<and> map_of (compute_gwar_curve [7, 7 :: nat] [0, 2]) 0 = Some 1"
  using gwar_disagree_below_one [of "[7, 7 :: nat]" 0 "[0, 2]"] by simp

text \<open>WAR bounds GWAR from below: the tokens of the complete homogeneous warps that WAR counts
  all lie in same-adapter runs of at least a warp, so \<open>WAR * (N div W) * W\<close> is at most
  \<open>GWAR(W) * N\<close>; in particular a fully aligned batch of whole warps has \<open>GWAR(W) = 1\<close>.\<close>

theorem war_bounds_gwar:
  assumes "compute_war xs w = Inr r" and "0 < w"
  shows "r * real (length xs div w) * real w \<le> compute_gwar xs (int w) * real (length xs)"
proof (cases "length xs div w = 0")
  case False
  then have ne: "xs \<noteq> []" by auto
  have "r * real (length xs div w) * real w = real (length (aligned_warps xs w) * w)"
    using assms False by (auto simp: compute_war_eq)
  also have "\<dots> \<le> real (promoted_tokens xs (int w))"
    using aligned_tokens_le_promoted [OF assms(2), of xs] by (rule of_nat_mono)
  also have "\<dots> = compute_gwar xs (int w) * real (length xs)"
    using ne assms(2) by (simp add: compute_gwar_runs)
  finally show ?thesis .
qed (simp add: compute_gwar_def Let_def)

theorem war_bounds_gwar_witness:
  "(2/3 :: real) * 3 * 2 \<le> compute_gwar [7, 7, 3, 7, 5, 5 :: nat] 2 * 6"
proof -
  have "compute_war [7, 7, 3, 7, 5, 5 :: nat] 2 = Inr (2/3)"
    by (simp add: compute_war_def warp_slice_def upt_rec)
  from war_bounds_gwar [OF this] show ?thesis by simp
qed

end
