(* ===== verification/Wgkp.thy ===== *)
theory Wgkp
  imports BufferTick
begin

text \<open>
  \<^verbatim>\<open>kernel/wgkp_dispatcher.py\<close>: the run-length encoding of a dispatched batch into segment
  descriptors, with the atomicity check and the cumulative counters, and its composition with
  \<open>form_batch_wgkp\<close>. The encoder is an instance of the \<open>run_encoder\<close> interface.
\<close>

subsection \<open>Segment descriptors\<close>

record 'a segment =
  adapter_id :: 'a
  seq_ids :: "int list"
  is_promoted :: bool
  segment_size :: nat

text \<open>The dataclass with its \<open>__post_init__\<close>: a size of 0 means the number of sequence ids.\<close>

definition make_segment :: "'a \<Rightarrow> int list \<Rightarrow> bool \<Rightarrow> nat \<Rightarrow> 'a segment" where
  "make_segment a ids p n = \<lparr>adapter_id = a, seq_ids = ids, is_promoted = p,
     segment_size = (if n = 0 then length ids else n)\<rparr>"

record dispatcher =
  total_batches :: nat
  total_promoted_tokens :: nat
  total_tokens :: nat

definition dispatcher_init :: dispatcher where
  "dispatcher_init = \<lparr>total_batches = 0, total_promoted_tokens = 0, total_tokens = 0\<rparr>"

subsection \<open>Segmentation\<close>

text \<open>The inner loop: the sequence ids of the run of adapter \<open>a\<close> at the front, and the rest.\<close>

fun take_run :: "'a \<Rightarrow> bool \<Rightarrow> ('a \<times> int \<times> bool) list \<Rightarrow>
    py_error + int list \<times> ('a \<times> int \<times> bool) list" where
  "take_run a p [] = Inr ([], [])"
| "take_run a p ((a', s, p') # rest) =
     (if a' \<noteq> a then Inr ([], (a', s, p') # rest)
      else if p' \<noteq> p then Inl ValueError
      else case take_run a p rest of
             Inl e \<Rightarrow> Inl e
           | Inr (ids, rest') \<Rightarrow> Inr (s # ids, rest'))"

lemma take_run_shorter: "take_run a p xs = Inr (ids, rest) \<Longrightarrow> length rest \<le> length xs"
proof (induction a p xs arbitrary: ids rest rule: take_run.induct)
  case (2 a p a' s p' xs)
  then show ?case by (fastforce split: if_splits sum.splits)
qed simp

text \<open>The outer loop: the segments so far and the promoted-token counter.\<close>

function segment_loop ::
  "('a \<times> int \<times> bool) list \<Rightarrow> 'a segment list \<Rightarrow> nat \<Rightarrow> (py_error + 'a segment list) \<times> nat" where
  "segment_loop [] segs n = (Inr segs, n)"
| "segment_loop ((a, s, p) # rest) segs n =
     (case take_run a p rest of
        Inl e \<Rightarrow> (Inl e, n)
      | Inr (ids, rest') \<Rightarrow>
          segment_loop rest' (segs @ [make_segment a (s # ids) p (length (s # ids))])
            (if p then n + length (s # ids) else n))"
  by pat_completeness auto
termination
  by (relation "measure (length \<circ> fst)") (auto dest: take_run_shorter)

definition segment_and_promote ::
  "('a \<times> int \<times> bool) list \<Rightarrow> dispatcher \<Rightarrow> (py_error + 'a segment list) \<times> dispatcher" where
  "segment_and_promote raw_batch d =
     (if raw_batch = [] then (Inr [], d)
      else let d1 = d\<lparr>total_batches := total_batches d + 1,
                      total_tokens := total_tokens d + length raw_batch\<rparr>;
               (r, n) = segment_loop raw_batch [] (total_promoted_tokens d1)
           in (r, d1\<lparr>total_promoted_tokens := n\<rparr>))"

definition promotion_fraction :: "dispatcher \<Rightarrow> real" where
  "promotion_fraction d =
     (if total_tokens d = 0 then 0 else real (total_promoted_tokens d) / real (total_tokens d))"

definition dispatcher_stats :: "dispatcher \<Rightarrow> nat \<times> nat \<times> nat \<times> real" where
  "dispatcher_stats d = (total_batches d, total_tokens d, total_promoted_tokens d, promotion_fraction d)"

definition dispatcher_reset_stats :: "dispatcher \<Rightarrow> dispatcher" where
  "dispatcher_reset_stats d = d\<lparr>total_batches := 0, total_promoted_tokens := 0, total_tokens := 0\<rparr>"

subsection \<open>When the encoder raises\<close>

text \<open>Neighbouring tokens of one adapter carry the same promotion flag.\<close>

fun atomic_flags :: "('a \<times> int \<times> bool) list \<Rightarrow> bool" where
  "atomic_flags (x # y # zs) \<longleftrightarrow>
     (fst x = fst y \<longrightarrow> snd (snd x) = snd (snd y)) \<and> atomic_flags (y # zs)"
| "atomic_flags _ = True"

lemma atomic_Cons: "atomic_flags (x # xs) \<Longrightarrow> atomic_flags xs"
  by (cases xs) auto

lemma take_run_atomic:
  "atomic_flags ((a, s0, p) # xs) \<Longrightarrow>
   take_run a p xs = Inr (map (fst \<circ> snd) (takeWhile (\<lambda>x. fst x = a) xs), dropWhile (\<lambda>x. fst x = a) xs) \<and>
   (\<forall>x\<in>set (takeWhile (\<lambda>x. fst x = a) xs). snd (snd x) = p) \<and>
   atomic_flags (dropWhile (\<lambda>x. fst x = a) xs)"
proof (induction xs arbitrary: s0)
  case (Cons x xs)
  obtain a' s' p' where x: "x = (a', s', p')" by (metis prod_cases3)
  show ?case
  proof (cases "a' = a")
    case True
    then have "p' = p" "atomic_flags ((a, s', p) # xs)" using Cons.prems x by auto
    then show ?thesis using Cons.IH [of s'] True x by auto
  next
    case False
    then show ?thesis using Cons.prems x atomic_Cons by auto
  qed
qed simp

lemma take_run_raises:
  "\<not> atomic_flags ((a, s0, p) # xs) \<Longrightarrow> take_run a p xs = Inr (ids, rest) \<Longrightarrow> \<not> atomic_flags rest"
proof (induction xs arbitrary: s0 ids rest)
  case (Cons x xs)
  obtain a' s' p' where x: "x = (a', s', p')" by (metis prod_cases3)
  show ?case
  proof (cases "a' = a")
    case True
    then show ?thesis using Cons x by (auto split: if_splits sum.splits)
  next
    case False
    then show ?thesis using Cons.prems x by auto
  qed
qed simp

lemma take_run_error: "take_run a p xs = Inl e \<Longrightarrow> e = ValueError \<and> \<not> atomic_flags ((a, s0, p) # xs)"
proof (induction xs arbitrary: s0)
  case (Cons x xs)
  obtain a' s' p' where x: "x = (a', s', p')" by (metis prod_cases3)
  show ?case using Cons x by (auto split: if_splits sum.splits)
qed simp

lemma segment_loop_outcome:
  "if atomic_flags xs then (\<exists>gs. fst (segment_loop xs segs n) = Inr gs)
   else fst (segment_loop xs segs n) = Inl ValueError"
proof (induction xs segs n rule: segment_loop.induct)
  case (2 a s p rest segs n)
  show ?case
  proof (cases "take_run a p rest")
    case (Inl e)
    then show ?thesis using take_run_error [OF Inl, of s] by simp
  next
    case (Inr r)
    obtain ids rest' where r: "r = (ids, rest')" by force
    have "atomic_flags rest' = atomic_flags ((a, s, p) # rest)"
      using take_run_atomic [of a s p rest] take_run_raises [of a s p rest ids rest'] Inr r by auto
    then show ?thesis using 2 [OF Inr r [symmetric]] Inr r by (simp split: if_splits)
  qed
qed simp

text \<open>On an atomic batch: the segments, and the promoted tokens counted.\<close>

definition expand_segment :: "'a segment \<Rightarrow> ('a \<times> int \<times> bool) list" where
  "expand_segment g = map (\<lambda>s. (adapter_id g, s, is_promoted g)) (seq_ids g)"

lemma triples_of_run:
  assumes "\<forall>x\<in>set xs. fst x = a \<and> snd (snd x) = p"
  shows "map (\<lambda>s. (a, s, p)) (map (fst \<circ> snd) xs) = xs"
  using assms by (induction xs) auto

lemma segment_loop_spec:
  assumes "atomic_flags xs"
  shows "\<exists>gs. segment_loop xs segs n = (Inr (segs @ gs), n + length (filter (snd \<circ> snd) xs)) \<and>
    concat (map expand_segment gs) = xs \<and> map (map fst \<circ> expand_segment) gs = runs (map fst xs) \<and>
    (\<forall>g\<in>set gs. segment_size g = length (seq_ids g))"
  using assms
proof (induction xs segs n rule: segment_loop.induct)
  case (2 a s p rest segs n)
  let ?same = "takeWhile (\<lambda>x. fst x = a) rest" and ?rest = "dropWhile (\<lambda>x. fst x = a) rest"
  let ?ids = "map (fst \<circ> snd) ?same"
  let ?g = "make_segment a (s # ?ids) p (length (s # ?ids))"
  have r: "take_run a p rest = Inr (?ids, ?rest)" and u: "\<forall>x\<in>set ?same. snd (snd x) = p"
    and at: "atomic_flags ?rest"
    using take_run_atomic [OF 2(2)] by auto
  obtain gs where gs: "segment_loop ?rest (segs @ [?g]) (if p then n + length (s # ?ids) else n) =
        (Inr ((segs @ [?g]) @ gs), (if p then n + length (s # ?ids) else n) + length (filter (snd \<circ> snd) ?rest))"
      "concat (map expand_segment gs) = ?rest" "map (map fst \<circ> expand_segment) gs = runs (map fst ?rest)"
      "\<forall>g\<in>set gs. segment_size g = length (seq_ids g)"
    using 2(1) [OF r refl at] by blast
  have same: "map (\<lambda>s. (a, s, p)) ?ids = ?same"
    using u by (intro triples_of_run) (auto dest: set_takeWhileD)
  have g: "expand_segment ?g = (a, s, p) # ?same"
    using same by (simp add: expand_segment_def make_segment_def)
  have cnt: "length (filter (snd \<circ> snd) ((a, s, p) # rest)) =
      (if p then length (s # ?ids) else 0) + length (filter (snd \<circ> snd) ?rest)"
  proof -
    have "filter (snd \<circ> snd) ?same = (if p then ?same else [])"
      using u by (auto intro!: filter_True filter_False)
    moreover have "length (filter (snd \<circ> snd) rest) =
        length (filter (snd \<circ> snd) ?same) + length (filter (snd \<circ> snd) ?rest)"
      by (metis filter_append length_append takeWhile_dropWhile_id)
    ultimately show ?thesis by simp
  qed
  have rn: "runs (map fst ((a, s, p) # rest)) = map fst (expand_segment ?g) # runs (map fst ?rest)"
  proof -
    have "takeWhile ((=) a) (map fst rest) = map fst ?same" "dropWhile ((=) a) (map fst rest) = map fst ?rest"
      by (simp_all add: takeWhile_map dropWhile_map comp_def eq_commute)
    then show ?thesis unfolding g by simp
  qed
  have sl: "segment_loop ((a, s, p) # rest) segs n =
      segment_loop ?rest (segs @ [?g]) (if p then n + length (s # ?ids) else n)"
    by (simp add: r)
  have "segment_loop ((a, s, p) # rest) segs n =
      (Inr (segs @ (?g # gs)), n + length (filter (snd \<circ> snd) ((a, s, p) # rest)))"
    unfolding sl gs(1) cnt by simp
  moreover have "concat (map expand_segment (?g # gs)) = (a, s, p) # rest"
    by (simp only: list.map concat.simps g gs(2) append_Cons takeWhile_dropWhile_id)
  moreover have "map (map fst \<circ> expand_segment) (?g # gs) = runs (map fst ((a, s, p) # rest))"
    unfolding rn using gs(3) by simp
  moreover have "\<forall>h\<in>set (?g # gs). segment_size h = length (seq_ids h)"
    using gs(4) by (simp add: make_segment_def)
  ultimately show ?case by blast
qed simp

definition segments_of :: "('a \<times> int \<times> bool) list \<Rightarrow> 'a segment list" where
  "segments_of xs = (case fst (segment_loop xs [] 0) of Inr gs \<Rightarrow> gs | Inl e \<Rightarrow> [])"

interpretation segments: run_encoder segments_of expand_segment fst atomic_flags
proof
  fix xs :: "('a \<times> int \<times> bool) list"
  assume "atomic_flags xs"
  then obtain gs where "segment_loop xs [] 0 = (Inr ([] @ gs), 0 + length (filter (snd \<circ> snd) xs))"
      "concat (map expand_segment gs) = xs" "map (map fst \<circ> expand_segment) gs = runs (map fst xs)"
    using segment_loop_spec [of xs "[]" 0] by blast
  then show "concat (map expand_segment (segments_of xs)) = xs"
    "map (map fst \<circ> expand_segment) (segments_of xs) = runs (map fst xs)"
    by (simp_all add: segments_of_def)
qed

lemma segment_and_promote_eq:
  assumes "atomic_flags xs"
  shows "segment_and_promote xs d = (Inr (segments_of xs),
    d\<lparr>total_batches := total_batches d + (if xs = [] then 0 else 1),
      total_tokens := total_tokens d + length xs,
      total_promoted_tokens := total_promoted_tokens d + length (filter (snd \<circ> snd) xs)\<rparr>)"
proof -
  obtain gs where "segment_loop xs [] (total_promoted_tokens d) =
      (Inr gs, total_promoted_tokens d + length (filter (snd \<circ> snd) xs))"
      "concat (map expand_segment gs) = xs"
    using segment_loop_spec [OF assms, of "[]" "total_promoted_tokens d"] by auto
  moreover have "fst (segment_loop xs segs n) = fst (segment_loop xs segs m)" for segs n m
  proof (induction xs segs n arbitrary: m rule: segment_loop.induct)
    case (2 a s p rest segs n)
    show ?case
    proof (cases "take_run a p rest")
      case (Inr r)
      obtain ids rest' where r: "r = (ids, rest')" by force
      show ?thesis using 2 [OF Inr r [symmetric]] Inr r by simp
    qed simp
  qed simp
  ultimately show ?thesis
    by (auto simp: segment_and_promote_def segments_of_def Let_def)
      (metis fst_conv sum.case(2))
qed

text \<open>C18: Segmenting a batch raises \<open>ValueError\<close> exactly when two neighbouring tokens of one adapter
  disagree on the promotion flag. Otherwise the descriptors are a lossless run-length encoding:
  expanding them gives the batch back in order, there is one per maximal run of an adapter, and
  each one's size field is its number of sequence ids.\<close>

theorem segmentation_is_lossless:
  "case segment_and_promote xs d of
     (Inl e, d') \<Rightarrow> e = ValueError \<and> \<not> atomic_flags xs
   | (Inr gs, d') \<Rightarrow> atomic_flags xs \<and> concat (map expand_segment gs) = xs \<and>
       map (map fst \<circ> expand_segment) gs = runs (map fst xs) \<and>
       list_all (\<lambda>g. segment_size g = length (seq_ids g)) gs"
proof (cases "atomic_flags xs")
  case True
  obtain gs where "segment_loop xs [] 0 = (Inr gs, 0 + length (filter (snd \<circ> snd) xs))"
      "\<forall>g\<in>set gs. segment_size g = length (seq_ids g)"
    using segment_loop_spec [OF True, of "[]" 0] by auto
  then have "list_all (\<lambda>g. segment_size g = length (seq_ids g)) (segments_of xs)"
    by (simp add: segments_of_def list_all_iff)
  then show ?thesis
    using True segments.expand_encode [OF True] segments.one_per_run [OF True]
    by (simp add: segment_and_promote_eq)
next
  case False
  then have "fst (segment_and_promote xs d) = Inl ValueError"
    using segment_loop_outcome [of xs "[]" "total_promoted_tokens d"]
    by (auto simp: segment_and_promote_def Let_def split: prod.splits)
  then show ?thesis using False by (simp add: case_prod_beta)
qed

subsection \<open>The batches the buffer produces\<close>

text \<open>The flag is a function of the adapter.\<close>

definition uniform :: "('a \<times> int \<times> bool) list \<Rightarrow> ('a \<Rightarrow> bool) \<Rightarrow> bool" where
  "uniform xs f \<longleftrightarrow> (\<forall>x\<in>set xs. snd (snd x) = f (fst x))"

lemma uniform_atomic: "uniform xs f \<Longrightarrow> atomic_flags xs"
  by (induction xs rule: atomic_flags.induct) (auto simp: uniform_def)

lemma wgkp_body_block:
  "\<exists>b' ys p. flow_state (wgkp_body t d n_eff ms budget k (b, batch)) = (b', batch @ ys) \<and>
     (\<forall>y\<in>set ys. fst y = k \<and> snd (snd y) = p) \<and> (p \<longrightarrow> k \<in> ms)"
proof -
  obtain n p u where r: "wgkp_rule (warp b) n_eff (length (queue_of b k)) (age_of b t k)
      (wgkp_deadline d b k) (k \<in> ms) (budget - length batch) = (n, p, u)"
    by (metis prod_cases3)
  have pm: "p \<longrightarrow> k \<in> ms" using wgkp_rule_bounds(4) [OF r] by blast
  let ?ys = "map (\<lambda>(a, s). (a, s, p)) (popped k n b)"
  have blk: "\<forall>y\<in>set ?ys. fst y = k \<and> snd (snd y) = p" by (auto simp: popped_def)
  show ?thesis
  proof (cases "length batch \<ge> budget \<or> queue_of b k = [] \<or> n = 0")
    case True
    then have "\<exists>b'. flow_state (wgkp_body t d n_eff ms budget k (b, batch)) = (b', batch @ [])"
      using r by (auto simp: wgkp_body_def Let_def)
    then show ?thesis by (metis empty_iff list.set(1))
  next
    case False
    then have "\<exists>b'. flow_state (wgkp_body t d n_eff ms budget k (b, batch)) = (b', batch @ ?ys)"
      using r by (simp add: wgkp_body_def Let_def)
    then show ?thesis using blk pm by metis
  qed
qed

lemma wgkp_loop_uniform:
  assumes "distinct ks"
  shows "\<exists>b' xs f. for_each (wgkp_body t d n_eff ms budget) ks (b, batch) = (b', batch @ xs) \<and>
     uniform xs f \<and> fst ` set xs \<subseteq> set ks \<and> (\<forall>k. f k \<longrightarrow> k \<in> ms)"
  using assms
proof (induction ks arbitrary: b batch)
  case Nil
  then show ?case by (auto simp: uniform_def intro: exI [of _ "\<lambda>_. False"])
next
  case (Cons k ks)
  obtain b1 ys p where b: "flow_state (wgkp_body t d n_eff ms budget k (b, batch)) = (b1, batch @ ys)"
      and y: "\<forall>y\<in>set ys. fst y = k \<and> snd (snd y) = p" and p: "p \<longrightarrow> k \<in> ms"
    using wgkp_body_block [of t d n_eff ms budget k b batch] by (elim exE conjE)
  show ?case
  proof (cases "wgkp_body t d n_eff ms budget k (b, batch)")
    case (Next s)
    obtain b2 xs f where r: "for_each (wgkp_body t d n_eff ms budget) ks (b1, batch @ ys) = (b2, (batch @ ys) @ xs)"
        and x: "uniform xs f" "fst ` set xs \<subseteq> set ks" "\<forall>k. f k \<longrightarrow> k \<in> ms"
      using Cons.IH [of b1 "batch @ ys"] Cons.prems by auto
    have "uniform (ys @ xs) (f(k := p))"
      using x(1,2) y Cons.prems by (auto simp: uniform_def)
    moreover have "fst ` set (ys @ xs) \<subseteq> set (k # ks)" using y x(2) by auto
    moreover have "\<forall>j. (f(k := p)) j \<longrightarrow> j \<in> ms" using x(3) p by simp
    moreover have "for_each (wgkp_body t d n_eff ms budget) (k # ks) (b, batch) = (b2, batch @ ys @ xs)"
      using Next b r by simp
    ultimately show ?thesis by blast
  next
    case (Break s)
    have "fst ` set ys \<subseteq> set (k # ks)" using y by auto
    moreover have "uniform ys (\<lambda>j. j = k \<and> p)" using y by (simp add: uniform_def)
    ultimately show ?thesis using Break b p
      by (intro exI [of _ b1] exI [of _ ys] exI [of _ "\<lambda>j. j = k \<and> p"]) simp
  qed
qed

text \<open>The two halves of WGKP dispatch fit: on a ranking without duplicates the batch the buffer
  forms never makes the segmentation raise. Every ranked adapter gets at most one segment, the
  segments hold exactly the batch, and a promoted segment's adapter has its merged weights
  resident.\<close>

theorem wgkp_batches_segment:
  assumes "distinct ranked" and "form_batch_wgkp ranked tmax_k n_star ms m t b = (b', batch)"
  shows "\<exists>gs d'. segment_and_promote batch d = (Inr gs, d') \<and>
    concat (map expand_segment gs) = batch \<and> distinct (map (hd \<circ> map fst \<circ> expand_segment) gs) \<and>
    (\<forall>g\<in>set gs. is_promoted g \<longrightarrow> adapter_id g \<in> ms)"
proof -
  obtain f where xs: "uniform batch f" "\<forall>k. f k \<longrightarrow> k \<in> ms"
    using wgkp_loop_uniform [OF assms(1), of t tmax_k "eff_n_star (warp b) (length ranked) n_star" ms
        "budget_of b m" b "[]"] assms(2) by (auto simp: form_defs)
  have at: "atomic_flags batch" using xs uniform_atomic by blast
  have dis: "distinct (remdups_adj (map fst batch))"
    using wgkp.contiguous [OF _ assms(1), of t tmax_k _ ms _ b b' batch] assms(2)
    by (simp add: form_defs comp_def token_of_def)
  have "\<forall>g\<in>set (segments_of batch). is_promoted g \<longrightarrow> adapter_id g \<in> ms"
  proof (intro ballI impI)
    fix g assume g: "g \<in> set (segments_of batch)" "is_promoted g"
    then obtain x where x: "x \<in> set (expand_segment g)"
      using segments.segment_nonempty [OF at g(1)] by (meson list.set_sel(1))
    then have "x \<in> set batch" using g(1) by (subst segments.expand_encode [OF at, symmetric]) auto
    then show "adapter_id g \<in> ms" using x g(2) xs by (auto simp: expand_segment_def uniform_def)
  qed
  then show ?thesis
    using segments.expand_encode [OF at] segments.one_segment_per_key [OF at dis]
    by (auto simp: segment_and_promote_eq [OF at])
qed

text \<open>Two adapters; only adapter 1 has merged weights, and its queue reaches the threshold.\<close>

lemma sample_wgkp:
  "snd (form_batch_wgkp [2, 1] [] 2 {1} (Some 10) (3/10) sample_buffer) =
     [(2, 13, False), (1, 11, True), (1, 12, True)]"
  by (simp add: batch_eval wgkp_body_def wgkp_rule_def wgkp_deadline_def eff_n_star_def py_round_def ceil_half_def)

theorem wgkp_batches_segment_witness:
  "\<exists>gs d'. segment_and_promote [(2, 13, False), (1, 11, True), (1, 12, True)] dispatcher_init = (Inr gs, d') \<and>
    distinct (map (hd \<circ> map fst \<circ> expand_segment) gs) \<and> (\<forall>g\<in>set gs. is_promoted g \<longrightarrow> adapter_id g \<in> {1 :: int})"
proof -
  have "distinct [2, 1 :: int]" by simp
  from wgkp_batches_segment [OF this prod.collapse [symmetric], of "[]" 2 "{1}" "Some 10" "3/10" sample_buffer dispatcher_init]
  show ?thesis unfolding sample_wgkp by blast
qed

subsection \<open>Counters\<close>

fun segment_batches :: "('a \<times> int \<times> bool) list list \<Rightarrow> dispatcher \<Rightarrow> dispatcher" where
  "segment_batches [] d = d"
| "segment_batches (xs # xss) d = segment_batches xss (snd (segment_and_promote xs d))"

lemma segment_loop_count:
  "snd (segment_loop xs segs n) \<le> n + length xs"
proof (induction xs segs n rule: segment_loop.induct)
  case (2 a s p rest segs n)
  show ?case
  proof (cases "take_run a p rest")
    case (Inr r)
    obtain ids rest' where r: "r = (ids, rest')" by force
    have "length ids + length rest' = length rest"
      using Inr unfolding r
      by (induction a p rest arbitrary: ids rest' rule: take_run.induct)
        (auto split: if_splits sum.splits)
    then show ?thesis using 2 [OF Inr r [symmetric]] Inr r by (auto split: if_splits)
  qed simp
qed simp

lemma segment_counts:
  "total_promoted_tokens d \<le> total_tokens d \<Longrightarrow>
   total_promoted_tokens (snd (segment_and_promote xs d)) \<le> total_tokens (snd (segment_and_promote xs d))"
  using segment_loop_count [of xs "[]" "total_promoted_tokens d"]
  by (auto simp: segment_and_promote_def Let_def split: prod.splits)

text \<open>The promoted fraction the dispatcher reports is a fraction: after any sequence of batches,
  including ones it rejected with an exception halfway, it lies between 0 and 1.\<close>

theorem promotion_fraction_in_unit_interval:
  "0 \<le> promotion_fraction (segment_batches xss dispatcher_init) \<and>
   promotion_fraction (segment_batches xss dispatcher_init) \<le> 1"
proof -
  have "total_promoted_tokens d \<le> total_tokens d \<Longrightarrow>
      total_promoted_tokens (segment_batches xss d) \<le> total_tokens (segment_batches xss d)"
    for d by (induction xss arbitrary: d) (simp_all add: segment_counts)
  then have "total_promoted_tokens (segment_batches xss dispatcher_init) \<le>
      total_tokens (segment_batches xss dispatcher_init)"
    by (simp add: dispatcher_init_def)
  then show ?thesis by (simp add: promotion_fraction_def divide_le_eq)
qed

end
