(* ===== verification/Apt.thy ===== *)
theory Apt
  imports Prelude
begin

text \<open>
  \<^verbatim>\<open>kernel/apt.py\<close>: the AdaptivePromoThreshold, which chooses the promotion threshold n* from a
  measured crossover profile and the rolling mean of the queue depth. Reading and parsing a
  profile file is the argument \<open>read\<close> of the definitions (\<open>None\<close> when the file is missing or
  not a valid profile); queue depths are reals.
\<close>

record entry =
  gemm_faster :: bool
  psi_gemm :: real

record profile =
  hardware :: string
  prof_warp_size :: int
  crossover_curve :: "(int, entry) dict"

record apt =
  min_speedup :: real
  update_interval :: int
  fallback_threshold :: int
  apt_profile :: profile
  sorted_thresholds :: "(int \<times> entry) list"
  apt_current :: int
  tick_count :: int
  depth_history :: "real list"

definition fallback_profile :: profile where
  "fallback_profile = \<lparr>hardware = ''fallback'', prof_warp_size = 32, crossover_curve = []\<rparr>"

text \<open>An explicit path is tried alone; otherwise the environment variable, then the default.\<close>

fun first_profile :: "(string \<Rightarrow> profile option) \<Rightarrow> string list \<Rightarrow> profile" where
  "first_profile read [] = fallback_profile"
| "first_profile read (p # ps) =
     (if p = [] then first_profile read ps
      else case read p of Some pr \<Rightarrow> pr | None \<Rightarrow> first_profile read ps)"

definition load_profile :: "(string \<Rightarrow> profile option) \<Rightarrow> string \<Rightarrow> string \<Rightarrow> string \<Rightarrow> profile" where
  "load_profile read env_path default_path hw_profile_path =
     (if hw_profile_path \<noteq> [] then (case read hw_profile_path of Some pr \<Rightarrow> pr | None \<Rightarrow> fallback_profile)
      else first_profile read [env_path, default_path])"

definition thresholds_of :: "real \<Rightarrow> profile \<Rightarrow> (int \<times> entry) list" where
  "thresholds_of ms pr =
     sort_key fst (filter (\<lambda>(n, e). gemm_faster e \<and> psi_gemm e \<ge> ms) (crossover_curve pr))"

definition initial_threshold :: "(int \<times> entry) list \<Rightarrow> int \<Rightarrow> int" where
  "initial_threshold ts fallback = (case ts of [] \<Rightarrow> fallback | (n, e) # _ \<Rightarrow> n)"

definition apt_init :: "profile \<Rightarrow> real \<Rightarrow> int \<Rightarrow> int \<Rightarrow> apt" where
  "apt_init pr ms interval fallback =
     (let ts = thresholds_of ms pr in
      \<lparr>min_speedup = ms, update_interval = interval, fallback_threshold = fallback, apt_profile = pr,
       sorted_thresholds = ts, apt_current = initial_threshold ts fallback, tick_count = 0,
       depth_history = []\<rparr>)"

fun select_loop :: "(int \<times> entry) list \<Rightarrow> real \<Rightarrow> int option \<Rightarrow> int option" where
  "select_loop [] depth selected = selected"
| "select_loop ((n, e) # ts) depth selected =
     (if of_int n \<le> depth then select_loop ts depth (Some n) else selected)"

definition select_threshold :: "apt \<Rightarrow> real \<Rightarrow> int" where
  "select_threshold a depth =
     (case select_loop (sorted_thresholds a) depth None of Some n \<Rightarrow> n | None \<Rightarrow> fallback_threshold a)"

definition apt_update :: "real \<Rightarrow> apt \<Rightarrow> apt" where
  "apt_update mean_queue_depth a =
     (let a1 = a\<lparr>tick_count := tick_count a + 1, depth_history := depth_history a @ [mean_queue_depth]\<rparr> in
      if tick_count a1 \<ge> update_interval a1
      then let rolling_mean = sum_list (depth_history a1) / length (depth_history a1) in
           a1\<lparr>apt_current := select_threshold a1 rolling_mean, tick_count := 0, depth_history := []\<rparr>
      else a1)"

definition current_threshold :: "apt \<Rightarrow> int" where
  "current_threshold a = apt_current a"

fun apt_run :: "real list \<Rightarrow> apt \<Rightarrow> apt" where
  "apt_run [] a = a"
| "apt_run (d # ds) a = apt_run ds (apt_update d a)"

subsection \<open>Specification\<close>

text \<open>The promotable segment lengths of a profile, and the threshold for a mean queue depth.\<close>

definition promotable :: "real \<Rightarrow> profile \<Rightarrow> int set" where
  "promotable ms pr = {n. \<exists>e. (n, e) \<in> set (crossover_curve pr) \<and> gemm_faster e \<and> psi_gemm e \<ge> ms}"

definition best_threshold :: "int set \<Rightarrow> int \<Rightarrow> real \<Rightarrow> int" where
  "best_threshold S fallback depth =
     (let T = {n \<in> S. of_int n \<le> depth} in if T = {} then fallback else Max T)"

lemma finite_promotable: "finite (promotable ms pr)"
  by (rule finite_subset [of _ "fst ` set (crossover_curve pr)"]) (force simp: promotable_def)+

lemma fst_thresholds: "fst ` set (thresholds_of ms pr) = promotable ms pr"
  by (force simp: thresholds_of_def promotable_def)

lemma sorted_thresholds_of: "sorted (map fst (thresholds_of ms pr))"
  by (simp add: thresholds_of_def)

lemma select_loop_spec:
  fixes depth :: real
  assumes "sorted (map fst ts)" and "\<forall>m. sel = Some m \<longrightarrow> (\<forall>n\<in>fst ` set ts. m \<le> n) \<and> of_int m \<le> depth"
  shows "select_loop ts depth sel =
    (let T = {n \<in> fst ` set ts. of_int n \<le> depth} in if T = {} then sel else Some (Max T))"
  using assms
proof (induction ts depth sel rule: select_loop.induct)
  case (2 n e ts depth sel)
  let ?T = "{m \<in> fst ` set ts. of_int m \<le> depth}" and ?U = "{m \<in> fst ` set ((n, e) # ts). of_int m \<le> depth}"
  have le: "\<forall>m\<in>fst ` set ts. n \<le> m" using 2(2) by auto
  show ?case
  proof (cases "of_int n \<le> depth")
    case True
    have U: "?U = insert n ?T" using True by auto
    have "select_loop ts depth (Some n) = (let T = ?T in if T = {} then Some n else Some (Max T))"
    proof (rule 2(1) [OF True])
      show "sorted (map fst ts)" using 2(2) by simp
      show "\<forall>m. Some n = Some m \<longrightarrow> (\<forall>n\<in>fst ` set ts. m \<le> n) \<and> of_int m \<le> depth"
        using le True by simp
    qed
    moreover have "Max (insert n ?T) = (if ?T = {} then n else Max ?T)"
    proof (cases "?T = {}")
      case False
      have fin: "finite ?T" by simp
      have "Max ?T \<in> ?T" by (rule Max_in [OF fin False])
      then have "n \<le> Max ?T" using le by blast
      then have "Max (insert n ?T) = Max ?T" unfolding Max_insert [OF fin False] by (rule max_absorb2)
      then show ?thesis by (simp only: False if_False)
    next
      case True
      show ?thesis unfolding True by simp
    qed
    ultimately show ?thesis using True U by (auto simp: Let_def)
  next
    case False
    then have "?U = {}" using le by force
    then show ?thesis using False by simp
  qed
qed simp

lemma select_is_best:
  "sorted_thresholds a = thresholds_of ms pr \<Longrightarrow>
   select_threshold a depth = best_threshold (promotable ms pr) (fallback_threshold a) depth"
  using select_loop_spec [OF sorted_thresholds_of, of None ms pr depth]
  by (auto simp: select_threshold_def best_threshold_def Let_def fst_thresholds)

lemma initial_is_least:
  "initial_threshold (thresholds_of ms pr) fb =
   (if promotable ms pr = {} then fb else Min (promotable ms pr))"
proof (cases "thresholds_of ms pr")
  case Nil
  then show ?thesis using fst_thresholds [of ms pr] by (simp add: initial_threshold_def)
next
  case (Cons t ts)
  then have "Min (promotable ms pr) = fst t"
    using sorted_thresholds_of [of ms pr] fst_thresholds [of ms pr, symmetric]
    by (auto intro!: Min_eqI)
  moreover have "promotable ms pr \<noteq> {}" using Cons fst_thresholds [of ms pr] by auto
  ultimately show ?thesis using Cons by (simp add: initial_threshold_def split: prod.splits)
qed

subsection \<open>Runs\<close>

lemma apt_run_append: "apt_run (xs @ ys) a = apt_run ys (apt_run xs a)"
  by (induction xs arbitrary: a) auto

text \<open>The threshold after a history of depths: that of the last completed interval.\<close>

definition threshold_after :: "nat \<Rightarrow> int set \<Rightarrow> int \<Rightarrow> real list \<Rightarrow> int" where
  "threshold_after k S fb ds =
     (let q = length ds div k in
      if q = 0 then (if S = {} then fb else Min S)
      else best_threshold S fb (sum_list (take k (drop ((q - 1) * k) ds)) / k))"

lemma last_interval:
  assumes "0 < k"
  shows "(Suc n) div k = (if Suc (n mod k) = k then Suc (n div k) else n div k)"
    and "(Suc n) mod k = (if Suc (n mod k) = k then 0 else Suc (n mod k))"
  using assms by (auto simp: mod_Suc div_Suc)

lemma apt_run_state:
  assumes k: "0 < k"
    and a0_def: "a0 = apt_init pr ms (int k) fb"
  shows "sorted_thresholds (apt_run ds a0) = thresholds_of ms pr \<and>
    update_interval (apt_run ds a0) = int k \<and> fallback_threshold (apt_run ds a0) = fb \<and>
    tick_count (apt_run ds a0) = int (length ds mod k) \<and>
    depth_history (apt_run ds a0) = drop (length ds div k * k) ds \<and>
    apt_current (apt_run ds a0) = threshold_after k (promotable ms pr) fb ds"
proof (induction ds rule: rev_induct)
  case Nil
  then show ?case
    by (simp add: a0_def apt_init_def Let_def threshold_after_def initial_is_least)
next
  case (snoc d ds)
  let ?a = "apt_run ds a0" and ?n = "length ds"
  have run: "apt_run (ds @ [d]) a0 = apt_update d ?a" by (simp add: apt_run_append)
  have hist: "drop (?n div k * k) (ds @ [d]) = drop (?n div k * k) ds @ [d]"
    by (simp add: div_times_less_eq_dividend)
  have len: "length (drop (?n div k * k) ds @ [d]) = Suc (?n mod k)"
    by (simp add: minus_div_mult_eq_mod)
  show ?case
  proof (cases "Suc (?n mod k) = k")
    case True
    then have q: "Suc ?n div k = Suc (?n div k)" "Suc ?n mod k = 0" using last_interval [OF k, of ?n] by auto
    have d0: "drop (Suc (?n div k) * k) (ds @ [d]) = []"
    proof -
      have "Suc ?n div k * k = Suc ?n" using q(2) by (metis add.right_neutral div_mult_mod_eq)
      then show ?thesis using q(1) by simp
    qed
    have tk: "take k (drop (?n div k * k) (ds @ [d])) = drop (?n div k * k) ds @ [d]"
      unfolding hist using len True by (intro take_all) simp
    have tc: "tick_count ?a + 1 \<ge> update_interval ?a" using snoc True by simp
    have upd: "apt_update d ?a = ?a\<lparr>tick_count := 0, depth_history := [],
        apt_current := best_threshold (promotable ms pr) fb
          (sum_list (drop (?n div k * k) ds @ [d]) / length (drop (?n div k * k) ds @ [d]))\<rparr>"
      using snoc tc by (simp add: apt_update_def Let_def select_is_best [of _ ms pr])
    have l: "length (ds @ [d]) div k = Suc (?n div k)" "length (ds @ [d]) mod k = 0"
      "length (drop (?n div k * k) ds @ [d]) = k"
      using q len True by simp_all
    have thr: "threshold_after k (promotable ms pr) fb (ds @ [d]) = best_threshold (promotable ms pr) fb
        (sum_list (drop (?n div k * k) ds @ [d]) / k)"
      by (simp only: threshold_after_def Let_def l tk diff_Suc_1 nat.distinct if_False)
    show ?thesis
      unfolding run upd thr l(1,2) d0 using snoc l(3) by simp
  next
    case False
    then have q: "Suc ?n div k = ?n div k" "Suc ?n mod k = Suc (?n mod k)"
      using last_interval [OF k, of ?n] by auto
    have tc: "\<not> tick_count ?a + 1 \<ge> update_interval ?a"
      using snoc False mod_less_divisor [OF k, of ?n] by simp
    have upd: "apt_update d ?a = ?a\<lparr>tick_count := tick_count ?a + 1, depth_history := depth_history ?a @ [d]\<rparr>"
      using tc by (simp add: apt_update_def Let_def)
    have same: "take k (drop ((?n div k - 1) * k) (ds @ [d])) = take k (drop ((?n div k - 1) * k) ds)"
      if "?n div k \<noteq> 0"
    proof -
      have "(?n div k - 1) * k + k = ?n div k * k" using that by (simp add: diff_mult_distrib)
      then have "(?n div k - 1) * k + k \<le> ?n" by simp
      then show ?thesis by simp
    qed
    have l: "length (ds @ [d]) div k = ?n div k" "length (ds @ [d]) mod k = Suc (?n mod k)"
      using q by simp_all
    have thr: "threshold_after k (promotable ms pr) fb (ds @ [d]) = threshold_after k (promotable ms pr) fb ds"
    proof (cases "?n div k = 0")
      case True
      then show ?thesis by (simp add: threshold_after_def q Let_def)
    next
      case False
      then show ?thesis by (simp only: threshold_after_def Let_def l same [OF False])
    qed
    show ?thesis
      unfolding run upd thr l hist using snoc by simp
  qed
qed

text \<open>C21: The runtime threshold is a function of the profile and of the queue depths alone: before
  the first full interval it is the least promotable segment length, and from then on it is
  the largest promotable length that does not exceed the mean depth of the last completed
  interval of updates, or the fallback when none qualifies. In particular it changes at most
  once per interval.\<close>

theorem threshold_follows_last_interval:
  assumes "0 < k"
  shows "current_threshold (apt_run ds (apt_init pr ms (int k) fb)) =
    (let q = length ds div k; S = promotable ms pr in
     if q = 0 then (if S = {} then fb else Min S)
     else let m = sum_list (take k (drop ((q - 1) * k) ds)) / k; T = {n \<in> S. of_int n \<le> m}
          in if T = {} then fb else Max T)"
  using apt_run_state [OF assms refl, of ds pr ms fb]
  by (simp add: current_threshold_def threshold_after_def best_threshold_def Let_def)

definition sample_profile :: profile where
  "sample_profile = \<lparr>hardware = ''a6000'', prof_warp_size = 32, crossover_curve =
     [(16, \<lparr>gemm_faster = True, psi_gemm = 3/2\<rparr>), (8, \<lparr>gemm_faster = True, psi_gemm = 5/4\<rparr>),
      (4, \<lparr>gemm_faster = False, psi_gemm = 2\<rparr>)]\<rparr>"

lemma promotable_sample: "promotable (21/20) sample_profile = {8, 16}"
  using fst_thresholds [of "21/20" sample_profile, symmetric]
  by (simp add: thresholds_of_def sample_profile_def insert_commute)

theorem threshold_follows_last_interval_witness:
  "current_threshold (apt_run [20, 10, 40] (apt_init sample_profile (21/20) (int 2) 32)) = 8"
proof -
  let ?a = "apt_run [20, 10, 40] (apt_init sample_profile (21/20) (int 2) 32)"
  let ?S = "{n \<in> {8, 16 :: int}. of_int n \<le> (15 :: real)}"
  have q: "length [20, 10, 40 :: real] div 2 = 1" and m: "sum_list (take 2 (drop ((1 - 1) * 2) [20, 10, 40])) / real 2 = 15"
    by simp_all
  have S: "?S = {8}" by auto
  have "current_threshold ?a = (if ?S = {} then 32 else Max ?S)"
    using threshold_follows_last_interval [of 2 "[20, 10, 40]" sample_profile "21/20" 32]
    unfolding Let_def promotable_sample q m by (simp only: zero_less_numeral one_neq_zero if_False)
  then show ?thesis unfolding S by simp
qed

end
