(* ===== verification/L3.thy ===== *)
theory L3
  imports Prelude "HOL-Library.Sublist"
begin

text \<open>
  \<^verbatim>\<open>kernel/l3.py\<close> and \<^verbatim>\<open>kernel/model_runner.py\<close>: the MergedWeightCache with its
  scheduler side (\<open>request\<close>, \<open>is_merged\<close>), its background loads and its runner side
  (\<open>process\<close>, \<open>get\<close>), and the runner's decision to run a step on merged weights. Tensors are a
  type parameter; the arithmetic on them, free GPU memory and the checkpoint reader are
  arguments. The lock makes each locked block one step. \<open>process\<close> is one step too, though the source takes
  its lock twice and merges in between: a request or a finished load that falls there counts as one that
  comes before or after it.
\<close>

subsection \<open>Names of projections\<close>

text \<open>\<open>name.split(".")\<close>, and Python's \<open>int\<close> on an ASCII string of digits.\<close>

fun split_dots :: "string \<Rightarrow> string \<Rightarrow> string list" where
  "split_dots [] acc = [rev acc]"
| "split_dots (c # cs) acc =
     (if c = CHR ''.'' then rev acc # split_dots cs [] else split_dots cs (c # acc))"

definition digit_value :: "char \<Rightarrow> int option" where
  "digit_value c = (if CHR ''0'' \<le> c \<and> c \<le> CHR ''9'' then Some (int (of_char c) - 48) else None)"

fun parse_digits :: "string \<Rightarrow> int \<Rightarrow> int option" where
  "parse_digits [] n = Some n"
| "parse_digits (c # cs) n =
     (case digit_value c of None \<Rightarrow> None | Some d \<Rightarrow> parse_digits cs (10 * n + d))"

definition parse_int :: "string \<Rightarrow> int option" where
  "parse_int s = (if s = [] then None else parse_digits s 0)"

fun index_of :: "'x \<Rightarrow> 'x list \<Rightarrow> nat option" where
  "index_of x [] = None"
| "index_of x (y # ys) = (if y = x then Some 0 else map_option Suc (index_of x ys))"

text \<open>\<open>_layer_index\<close>: \<open>list.index\<close> and \<open>int\<close> raise \<open>ValueError\<close>, a missing part \<open>IndexError\<close>.\<close>

definition layer_index :: "string \<Rightarrow> py_error + int" where
  "layer_index name =
     (let parts = split_dots name [] in
      case index_of ''layers'' parts of
        None \<Rightarrow> Inl ValueError
      | Some i \<Rightarrow> if Suc i < length parts
                 then (case parse_int (parts ! Suc i) of None \<Rightarrow> Inl ValueError | Some n \<Rightarrow> Inr n)
                 else Inl IndexError)"

definition ends_with :: "string \<Rightarrow> string \<Rightarrow> bool" where
  "ends_with s suf = suffix suf s"

subsection \<open>State\<close>

text \<open>
  Loaded LoRA tensors are keyed by layer and projection (the source joins the two with a dot).
\<close>

type_synonym 'm lora = "(int \<times> string, 'm \<times> 'm) dict"
type_synonym 'm merged = "(string, 'm) dict"

record 'm mwc =
  k_hot_max :: int
  margin_bytes :: int
  k_hot :: "int option"
  weights :: "(int, 'm merged) dict"
  loaded :: "(int, 'm lora) dict"
  requested :: "int set"
  n_merges :: nat

definition mwc_init :: "int \<Rightarrow> int \<Rightarrow> 'm mwc" where
  "mwc_init k margin = \<lparr>k_hot_max = k, margin_bytes = margin, k_hot = None, weights = [],
     loaded = [], requested = {}, n_merges = 0\<rparr>"

subsection \<open>Scheduler side\<close>

text \<open>\<open>request\<close>: whether a background load is started, and the new state.\<close>

definition request :: "int \<Rightarrow> 'm mwc \<Rightarrow> bool \<times> 'm mwc" where
  "request i m =
     (if k_hot m = Some 0 \<or> dict_has (weights m) i \<or> i \<in> requested m then (False, m)
      else (True, m\<lparr>requested := insert i (requested m)\<rparr>))"

definition is_merged :: "int \<Rightarrow> 'm mwc \<Rightarrow> bool" where
  "is_merged i m = dict_has (weights m) i"

definition lora_a_suffix :: string where
  "lora_a_suffix = ''.lora_A.weight''"

text \<open>The body of the reading loop of \<open>_load\<close> for one checkpoint key.\<close>

fun load_keys :: "(string \<Rightarrow> 'm option) \<Rightarrow> ('m \<Rightarrow> 'm) \<Rightarrow> string list \<Rightarrow> 'm lora \<Rightarrow> py_error + 'm lora" where
  "load_keys get_tensor scale [] d = Inr d"
| "load_keys get_tensor scale (key # ks) d =
     (if \<not> ends_with key lora_a_suffix then load_keys get_tensor scale ks d
      else let proj = take (length key - length lora_a_suffix) key;
               p = last (split_dots proj [])
           in if p \<notin> {''q_proj'', ''k_proj'', ''v_proj'', ''o_proj''}
              then load_keys get_tensor scale ks d
              else case (get_tensor key, get_tensor (proj @ ''.lora_B.weight'')) of
                     (Some a, Some b) \<Rightarrow>
                       (case layer_index proj of
                          Inl e \<Rightarrow> Inl e
                        | Inr i \<Rightarrow> load_keys get_tensor scale ks (dict_set (i, p) (a, scale b) d))
                   | _ \<Rightarrow> Inl KeyError)"

text \<open>The scaling \<open>cfg.get("lora_alpha", cfg["r"]) / cfg["r"]\<close>.\<close>

definition lora_scaling :: "real option \<Rightarrow> real option \<Rightarrow> py_error + real" where
  "lora_scaling alpha r =
     (case r of None \<Rightarrow> Inl KeyError
      | Some r' \<Rightarrow> if r' = 0 then Inl ZeroDivisionError
                  else Inr ((case alpha of None \<Rightarrow> r' | Some a \<Rightarrow> a) / r'))"

text \<open>The end of a background load: the tensors become visible to the runner.\<close>

definition finish_load :: "int \<Rightarrow> 'm lora \<Rightarrow> 'm mwc \<Rightarrow> 'm mwc" where
  "finish_load i ts m = m\<lparr>loaded := dict_set i ts (loaded m)\<rparr>"

subsection \<open>Model runner side\<close>

text \<open>\<open>_size\<close>: as many adapters as fit in the free memory, at most \<open>k_hot_max\<close>.\<close>

definition size_cache :: "int \<Rightarrow> int \<Rightarrow> 'm mwc \<Rightarrow> py_error + 'm mwc" where
  "size_cache free per_adapter m =
     (if per_adapter = 0 then Inl ZeroDivisionError
      else Inr (m\<lparr>k_hot := Some (min (k_hot_max m) (max 0 ((free - margin_bytes m) div per_adapter)))\<rparr>))"

fun get_deltas :: "'m lora \<Rightarrow> int \<Rightarrow> string list \<Rightarrow> py_error + ('m \<times> 'm) list" where
  "get_deltas ts i [] = Inr []"
| "get_deltas ts i (p # ps) =
     (case map_of ts (i, p) of
        None \<Rightarrow> Inl KeyError
      | Some ab \<Rightarrow> (case get_deltas ts i ps of Inl e \<Rightarrow> Inl e | Inr ds \<Rightarrow> Inr (ab # ds)))"

definition projections_of :: "string \<Rightarrow> string list" where
  "projections_of name =
     (if ends_with name ''qkv_proj'' then [''q_proj'', ''k_proj'', ''v_proj''] else [''o_proj''])"

text \<open>Merging one adapter: \<open>merge_w w deltas\<close> is \<open>W + cat(b a)\<close> of the layer, or the exception of
  tensors whose shapes do not fit.\<close>

fun merge_layers :: "('m \<Rightarrow> ('m \<times> 'm) list \<Rightarrow> py_error + 'm) \<Rightarrow> (string \<times> 'm) list \<Rightarrow> 'm lora \<Rightarrow> 'm merged \<Rightarrow>
    py_error + 'm merged" where
  "merge_layers merge_w [] ts d = Inr d"
| "merge_layers merge_w ((name, w) # ls) ts d =
     (case layer_index name of
        Inl e \<Rightarrow> Inl e
      | Inr i \<Rightarrow>
          (case get_deltas ts i (projections_of name) of
             Inl e \<Rightarrow> Inl e
           | Inr ds \<Rightarrow>
               (case merge_w w ds of
                  Inl e \<Rightarrow> Inl e
                | Inr v \<Rightarrow> merge_layers merge_w ls ts (dict_set name v d))))"

text \<open>Evicting from the least recently used end while the cache is full.\<close>

fun evict_loop :: "int \<Rightarrow> (int, 'm merged) dict \<Rightarrow> int set \<Rightarrow> py_error + (int, 'm merged) dict \<times> int set" where
  "evict_loop h [] req = (if int 0 \<ge> h then Inl KeyError else Inr ([], req))"
| "evict_loop h ((i, w) # ws) req =
     (if int (length ((i, w) # ws)) \<ge> h then evict_loop h ws (req - {i}) else Inr ((i, w) # ws, req))"

text \<open>The locked block that makes one merged adapter resident.\<close>

definition insert_merged :: "int \<Rightarrow> 'm merged \<Rightarrow> 'm mwc \<Rightarrow> py_error option \<times> 'm mwc" where
  "insert_merged i w m =
     (case k_hot m of
        None \<Rightarrow> (Some TypeError, m)
      | Some h \<Rightarrow>
          (case evict_loop h (weights m) (requested m) of
             Inl e \<Rightarrow> (Some e, m\<lparr>weights := [], requested := requested m - fst ` set (weights m)\<rparr>)
           | Inr (ws, req) \<Rightarrow> (None, m\<lparr>weights := dict_set i w ws, requested := req,
                                      n_merges := n_merges m + 1\<rparr>)))"

text \<open>\<open>process\<close>: \<open>popitem()\<close> takes the adapter loaded last.\<close>

definition process ::
  "('m \<Rightarrow> ('m \<times> 'm) list \<Rightarrow> py_error + 'm) \<Rightarrow> (string \<times> 'm) list \<Rightarrow> int \<Rightarrow> int \<Rightarrow> 'm mwc \<Rightarrow> py_error option \<times> 'm mwc" where
  "process merge_w layers free per_adapter m =
     (if loaded m = [] then (None, m)
      else let (i, ts) = last (loaded m);
               m1 = m\<lparr>loaded := butlast (loaded m)\<rparr>
           in case (if k_hot m1 = None then size_cache free per_adapter m1 else Inr m1) of
                Inl e \<Rightarrow> (Some e, m1)
              | Inr m2 \<Rightarrow>
                  if k_hot m2 = Some 0 then (None, m2\<lparr>requested := {}, loaded := []\<rparr>)
                  else case merge_layers merge_w layers ts [] of
                         Inl e \<Rightarrow> (Some e, m2)
                       | Inr w \<Rightarrow> insert_merged i w m2)"

definition mwc_get :: "int \<Rightarrow> 'm mwc \<Rightarrow> 'm merged option \<times> 'm mwc" where
  "mwc_get i m =
     (case map_of (weights m) i of
        None \<Rightarrow> (None, m)
      | Some w \<Rightarrow> (Some w, m\<lparr>weights := dict_pop i (weights m) @ [(i, w)]\<rparr>))"

subsection \<open>Histories of the cache\<close>

text \<open>
  The calls interleave: the scheduler requests, background threads finish or fail, the runner
  processes and reads. A state is the cache with the set of loads in flight.
\<close>

datatype 'm mwc_event =
    Request int
  | Loaded int "'m lora"
  | LoadFailed int
  | Process int
  | Get int

inductive mwc_step ::
  "('m \<Rightarrow> ('m \<times> 'm) list \<Rightarrow> py_error + 'm) \<Rightarrow> (string \<times> 'm) list \<Rightarrow> int \<Rightarrow>
   'm mwc \<times> int set \<Rightarrow> 'm mwc_event \<Rightarrow> 'm mwc \<times> int set \<Rightarrow> bool"
  for merge_w layers per_adapter where
  step_request: "request i m = (started, m') \<Longrightarrow>
    mwc_step merge_w layers per_adapter (m, F) (Request i) (m', if started then insert i F else F)"
| step_loaded: "i \<in> F \<Longrightarrow>
    mwc_step merge_w layers per_adapter (m, F) (Loaded i ts) (finish_load i ts m, F - {i})"
| step_failed: "i \<in> F \<Longrightarrow> mwc_step merge_w layers per_adapter (m, F) (LoadFailed i) (m, F - {i})"
| step_process: "process merge_w layers free per_adapter m = (e, m') \<Longrightarrow>
    mwc_step merge_w layers per_adapter (m, F) (Process free) (m', F)"
| step_get: "mwc_get i m = (w, m') \<Longrightarrow> mwc_step merge_w layers per_adapter (m, F) (Get i) (m', F)"

inductive_cases mwc_stepE: "mwc_step merge_w layers per_adapter (m, F) e (m', F')"

inductive mwc_reach ::
  "('m \<Rightarrow> ('m \<times> 'm) list \<Rightarrow> py_error + 'm) \<Rightarrow> (string \<times> 'm) list \<Rightarrow> int \<Rightarrow> int \<Rightarrow> int \<Rightarrow> 'm mwc \<Rightarrow> int set \<Rightarrow> bool"
  for merge_w layers per_adapter k margin where
  reach_init: "mwc_reach merge_w layers per_adapter k margin (mwc_init k margin) {}"
| reach_step: "mwc_reach merge_w layers per_adapter k margin m F \<Longrightarrow>
    mwc_step merge_w layers per_adapter (m, F) e (m', F') \<Longrightarrow>
    mwc_reach merge_w layers per_adapter k margin m' F'"

text \<open>The loads in flight, the loaded and the resident adapters are disjoint and all requested.\<close>

definition keys_ok :: "int set \<Rightarrow> int set \<Rightarrow> int set \<Rightarrow> int set \<Rightarrow> bool" where
  "keys_ok F L W R \<longleftrightarrow> F \<union> L \<union> W \<subseteq> R \<and> F \<inter> L = {} \<and> F \<inter> W = {} \<and> L \<inter> W = {}"

definition size_ok :: "int \<Rightarrow> int option \<Rightarrow> nat \<Rightarrow> bool" where
  "size_ok k h n \<longleftrightarrow> 0 \<le> k \<and>
     (case h of None \<Rightarrow> n = 0 | Some h' \<Rightarrow> 0 \<le> h' \<and> h' \<le> k \<and> int n \<le> h')"

text \<open>Once the cache is sized to 0 the record of requests is no longer kept.\<close>

definition live :: "'m mwc \<Rightarrow> int set" where
  "live m = (if k_hot m = Some 0 then UNIV else requested m)"

lemma live_simps [simp]: "live (m\<lparr>loaded := l\<rparr>) = live m" "live (m\<lparr>weights := w\<rparr>) = live m"
  by (simp_all add: live_def)

definition mwc_inv :: "int \<Rightarrow> 'm mwc \<Rightarrow> int set \<Rightarrow> bool" where
  "mwc_inv k m F \<longleftrightarrow> k_hot_max m = k \<and> dict_ok (weights m) \<and> dict_ok (loaded m) \<and>
     size_ok k (k_hot m) (length (weights m)) \<and>
     keys_ok F (fst ` set (loaded m)) (fst ` set (weights m)) (live m)"

lemma keys_ok_request: "keys_ok F L W R \<Longrightarrow> i \<notin> R \<Longrightarrow> keys_ok (insert i F) L W (insert i R)"
  unfolding keys_ok_def by blast

lemma keys_ok_loaded: "keys_ok F L W R \<Longrightarrow> i \<in> F \<Longrightarrow> keys_ok (F - {i}) (insert i L) W R"
  unfolding keys_ok_def by blast

lemma keys_ok_failed: "keys_ok F L W R \<Longrightarrow> keys_ok (F - {i}) L W R"
  unfolding keys_ok_def by blast

lemma keys_ok_pop:
  "keys_ok F (insert i L) W R \<Longrightarrow> keys_ok F L W R \<and> i \<in> R \<and> i \<notin> F \<and> i \<notin> W"
  unfolding keys_ok_def by blast

lemma keys_ok_mono: "keys_ok F L W R \<Longrightarrow> R \<subseteq> R' \<Longrightarrow> keys_ok F L W R'"
  unfolding keys_ok_def by blast

lemma keys_ok_insert:
  "keys_ok F L W R \<Longrightarrow> i \<in> R \<Longrightarrow> i \<notin> F \<Longrightarrow> i \<notin> L \<Longrightarrow> i \<notin> W \<Longrightarrow> E \<subseteq> W \<Longrightarrow>
   keys_ok F L (insert i (W - E)) (R - E)"
  unfolding keys_ok_def by blast

lemma evict_loop_eq:
  "0 < h \<Longrightarrow> evict_loop h ws req =
     (let n = length ws - (nat h - 1) in Inr (drop n ws, req - fst ` set (take n ws)))"
proof (induction h ws req rule: evict_loop.induct)
  case (2 h i w ws req)
  show ?case
  proof (cases "int (length ((i, w) # ws)) \<ge> h")
    case True
    then have n: "length ((i, w) # ws) - (nat h - 1) = Suc (length ws - (nat h - 1))"
      using 2(2) by (simp add: nat_le_iff Suc_diff_le)
    show ?thesis unfolding Let_def n using 2(1) [OF True 2(2)] True by (simp add: Let_def) blast
  next
    case False
    then have "length ((i, w) # ws) - (nat h - 1) = 0" using 2(2) by simp
    then show ?thesis using False by (simp add: Let_def)
  qed
qed (simp add: Let_def)

lemma evict_room:
  fixes ws :: "'x list"
  assumes "0 < h" and "int (length ws) \<le> h"
  shows "int (length (drop (length ws - (nat h - 1)) ws)) < h"
  using assms by simp

lemma set_take_drop_keys:
  assumes "dict_ok ws"
  shows "fst ` set (drop n ws) = fst ` set ws - fst ` set (take n ws)"
proof -
  have "dict_ok (take n ws @ drop n ws)" using assms by simp
  then have "fst ` set (take n ws) \<inter> fst ` set (drop n ws) = {}" by (simp only: map_append distinct_append set_map)
  moreover have "fst ` set ws = fst ` set (take n ws) \<union> fst ` set (drop n ws)"
    by (metis append_take_drop_id image_Un set_append)
  ultimately show ?thesis by blast
qed

text \<open>Making merged weights resident is an insertion into a bounded cache.\<close>

interpretation merged: bounded_cache "\<lambda>m. dict_keys (weights m)"
    "\<lambda>m. case k_hot m of Some h \<Rightarrow> nat h | None \<Rightarrow> 0" "\<lambda>w i m. snd (insert_merged i w m)"
    "\<lambda>m. dict_ok (weights m) \<and> (\<exists>h>0. k_hot m = Some h \<and> int (length (weights m)) \<le> h)"
proof
  fix m :: "'m mwc" and i w
  assume ok: "dict_ok (weights m) \<and> (\<exists>h>0. k_hot m = Some h \<and> int (length (weights m)) \<le> h)"
  then obtain h where h: "0 < h" "k_hot m = Some h" "int (length (weights m)) \<le> h" by blast
  show "length (dict_keys (weights m)) \<le> (case k_hot m of Some h \<Rightarrow> nat h | None \<Rightarrow> 0) \<and>
      distinct (dict_keys (weights m))"
    using ok h by (simp add: le_nat_iff)
  assume new: "i \<notin> set (dict_keys (weights m))"
  define n where "n = length (weights m) - (nat h - 1)"
  let ?ws = "drop n (weights m)"
  have sub: "fst ` set ?ws \<subseteq> fst ` set (weights m)" using set_drop_subset by fast
  then have i: "i \<notin> fst ` set ?ws" using new by auto
  have okd: "dict_ok ?ws" using ok by (simp flip: drop_map)
  have len: "int (length (dict_set i w ?ws)) \<le> h"
    using evict_room [OF h(1,3)] i by (simp add: length_dict_set n_def)
  have eq: "snd (insert_merged i w m) = m\<lparr>weights := dict_set i w ?ws,
      requested := requested m - fst ` set (take n (weights m)), n_merges := n_merges m + 1\<rparr>"
    using h(2) by (simp add: insert_merged_def evict_loop_eq [OF h(1)] Let_def n_def)
  show "dict_ok (weights (snd (insert_merged i w m))) \<and>
      (\<exists>h>0. k_hot (snd (insert_merged i w m)) = Some h \<and> int (length (weights (snd (insert_merged i w m)))) \<le> h)"
    using okd len h by (simp add: eq)
  show "(case k_hot (snd (insert_merged i w m)) of Some h \<Rightarrow> nat h | None \<Rightarrow> 0) =
      (case k_hot m of Some h \<Rightarrow> nat h | None \<Rightarrow> 0)"
    by (simp add: eq)
  show "i \<in> set (dict_keys (weights (snd (insert_merged i w m)))) \<and>
      set (dict_keys (weights (snd (insert_merged i w m)))) \<subseteq> insert i (set (dict_keys (weights m)))"
    using sub by (auto simp: eq)
qed

lemma inv_insert:
  assumes "mwc_inv k m F" and "k_hot m = Some h" and "h \<noteq> 0" and "i \<in> requested m" "i \<notin> F"
    and "i \<notin> fst ` set (loaded m)" "i \<notin> fst ` set (weights m)"
  shows "\<exists>m'. insert_merged i w m = (None, m') \<and> mwc_inv k m' F"
proof -
  define n where "n = length (weights m) - (nat h - 1)"
  have h: "0 < h" "h \<le> k" "int (length (weights m)) \<le> h"
    using assms(1-3) by (auto simp: mwc_inv_def size_ok_def)
  have ok: "dict_ok (weights m)" using assms(1) by (simp add: mwc_inv_def)
  let ?ws = "drop n (weights m)" and ?req = "requested m - fst ` set (take n (weights m))"
  have keys: "fst ` set ?ws = fst ` set (weights m) - fst ` set (take n (weights m))"
    by (rule set_take_drop_keys [OF ok])
  have okd: "dict_ok ?ws" using ok by (simp flip: drop_map)
  have i: "i \<notin> fst ` set ?ws" using assms(7) keys by blast
  have len: "int (length (dict_set i w ?ws)) \<le> h"
    using evict_room [OF h(1,3)] i by (simp add: length_dict_set n_def)
  let ?m = "m\<lparr>weights := dict_set i w ?ws, requested := ?req, n_merges := n_merges m + 1\<rparr>"
  have "insert_merged i w m = (None, ?m)"
    using assms(2) by (simp add: insert_merged_def evict_loop_eq [OF h(1)] Let_def n_def)
  moreover have "keys_ok F (fst ` set (loaded m))
      (insert i (fst ` set (weights m) - fst ` set (take n (weights m)))) ?req"
  proof (rule keys_ok_insert [OF _ assms(4-7)])
    show "keys_ok F (fst ` set (loaded m)) (fst ` set (weights m)) (requested m)"
      using assms(1-3) by (simp add: mwc_inv_def live_def)
    show "fst ` set (take n (weights m)) \<subseteq> fst ` set (weights m)"
      using set_take_subset by fast
  qed
  ultimately show ?thesis
    using assms(1,2) h(1,2) okd len by (simp add: mwc_inv_def size_ok_def keys live_def)
qed

lemma inv_pop:
  assumes inv: "mwc_inv k m F" and l: "loaded m = xs @ [(i, ts)]"
  shows "mwc_inv k (m\<lparr>loaded := xs\<rparr>) F" and "i \<in> live m" and "i \<notin> F" and "i \<notin> fst ` set xs"
    and "i \<notin> fst ` set (weights m)"
proof -
  have keys: "fst ` set (loaded m) = insert i (fst ` set xs)" and new: "i \<notin> fst ` set xs" and ok: "dict_ok xs"
    using inv by (auto simp: mwc_inv_def l)
  have pop: "keys_ok F (fst ` set xs) (fst ` set (weights m)) (live m) \<and>
      i \<in> live m \<and> i \<notin> F \<and> i \<notin> fst ` set (weights m)"
    using inv keys by (intro keys_ok_pop) (simp add: mwc_inv_def)
  show "i \<notin> fst ` set xs" by (rule new)
  show "i \<in> live m" "i \<notin> F" "i \<notin> fst ` set (weights m)" using pop by blast+
  show "mwc_inv k (m\<lparr>loaded := xs\<rparr>) F" using inv ok pop by (simp add: mwc_inv_def)
qed

lemma inv_size:
  assumes "mwc_inv k m F" and "k_hot m = None" and "size_cache free per m = Inr m'"
  shows "mwc_inv k m' F" and "loaded m' = loaded m" and "requested m' = requested m"
    and "weights m' = weights m" and "\<exists>h. k_hot m' = Some h"
proof -
  define h where "h = min (k_hot_max m) (max 0 ((free - margin_bytes m) div per))"
  have m': "m' = m\<lparr>k_hot := Some h\<rparr>" using assms(3) by (auto simp: size_cache_def h_def split: if_splits)
  have h: "0 \<le> h \<and> h \<le> k_hot_max m \<or> k_hot_max m < 0" by (auto simp: h_def)
  have "keys_ok F (fst ` set (loaded m)) (fst ` set (weights m)) (live m')"
    by (rule keys_ok_mono [of _ _ _ "live m"]) (use assms(1,2) in \<open>auto simp: mwc_inv_def live_def m'\<close>)
  then show "mwc_inv k m' F"
    using assms(1,2) h by (auto simp: mwc_inv_def size_ok_def m')
  show "loaded m' = loaded m" "requested m' = requested m" "weights m' = weights m" "\<exists>h. k_hot m' = Some h"
    by (simp_all add: m')
qed

lemma inv_process:
  assumes inv: "mwc_inv k m F" and p: "process merge_w layers free per m = (e, m')"
  shows "mwc_inv k m' F"
proof (cases "loaded m" rule: rev_cases)
  case Nil
  then show ?thesis using assms by (simp add: process_def)
next
  case (snoc xs x)
  obtain i ts where x: "x = (i, ts)" by force
  have l: "loaded m = xs @ [(i, ts)]" using snoc x by simp
  let ?m1 = "m\<lparr>loaded := xs\<rparr>"
  note pop = inv_pop [OF inv l]
  have step: "process merge_w layers free per m =
    (case (if k_hot m = None then size_cache free per ?m1 else Inr ?m1) of
       Inl e \<Rightarrow> (Some e, ?m1)
     | Inr m2 \<Rightarrow> if k_hot m2 = Some 0 then (None, m2\<lparr>requested := {}, loaded := []\<rparr>)
         else case merge_layers merge_w layers ts [] of
                Inl e \<Rightarrow> (Some e, m2) | Inr w \<Rightarrow> insert_merged i w m2)"
    by (simp add: process_def l Let_def)
  show ?thesis
  proof (cases "if k_hot m = None then size_cache free per ?m1 else Inr ?m1")
    case (Inl e')
    then show ?thesis using p pop(1) unfolding step by simp
  next
    case (Inr m2)
    have m2: "mwc_inv k m2 F" "loaded m2 = xs" "requested m2 = requested m" "weights m2 = weights m"
        "\<exists>h. k_hot m2 = Some h" "k_hot m2 \<noteq> Some 0 \<Longrightarrow> k_hot m \<noteq> Some 0"
      using inv_size [OF pop(1), of free per m2] Inr pop(1) by (auto split: if_splits)
    show ?thesis
    proof (cases "k_hot m2 = Some 0")
      case True
      then have "m' = m2\<lparr>requested := {}, loaded := []\<rparr>" using p Inr unfolding step by simp
      then show ?thesis using m2(1) True by (simp add: mwc_inv_def live_def keys_ok_def)
    next
      case False
      show ?thesis
      proof (cases "merge_layers merge_w layers ts []")
        case (Inl e')
        then show ?thesis using p Inr m2(1) False unfolding step by simp
      next
        case i: (Inr w)
        obtain h where "k_hot m2 = Some h" "h \<noteq> 0" using m2(5) False by auto
        then obtain m3 where "insert_merged i w m2 = (None, m3)" "mwc_inv k m3 F"
          using inv_insert [OF m2(1), of h i w] pop(2-5) m2 False by (auto simp: live_def)
        moreover have "insert_merged i w m2 = (e, m')" using p Inr i False unfolding step by simp
        ultimately show ?thesis by simp
      qed
    qed
  qed
qed

lemma inv_step:
  assumes "mwc_inv k m F" and "mwc_step merge_w layers per (m, F) e (m', F')"
  shows "mwc_inv k m' F'"
  using assms(2)
proof cases
  case (step_request i started)
  then show ?thesis using assms(1) keys_ok_request
    by (auto simp: request_def mwc_inv_def live_def split: if_splits)
next
  case (step_loaded i ts)
  then show ?thesis using assms(1) keys_ok_loaded [of F _ _ _ i] by (auto simp: finish_load_def mwc_inv_def live_def)
next
  case (step_failed i)
  then show ?thesis using assms(1) keys_ok_failed by (simp add: mwc_inv_def)
next
  case (step_process free r)
  then show ?thesis using inv_process [OF assms(1)] by simp
next
  case (step_get i w)
  show ?thesis
  proof (cases "map_of (weights m) i")
    case None
    then show ?thesis using step_get assms(1) by (simp add: mwc_get_def)
  next
    case (Some v)
    define ws where "ws = dict_pop i (weights m) @ [(i, v)]"
    have m': "m' = m\<lparr>weights := ws\<rparr>" "F' = F" using step_get Some by (simp_all add: mwc_get_def ws_def)
    have k: "i \<in> fst ` set (weights m)" using Some by (force dest: map_of_SomeD)
    have ok: "dict_ok (weights m)" using assms(1) by (simp add: mwc_inv_def)
    have "fst ` set ws = fst ` set (weights m)" using k by (auto simp: ws_def)
    moreover have "length ws = length (weights m)"
      using length_dict_pop [OF ok k] k by (cases "weights m") (auto simp: ws_def)
    moreover have "dict_ok ws" using ok by (simp add: ws_def)
    ultimately show ?thesis using assms(1) by (simp add: m' mwc_inv_def)
  qed
qed

lemma reach_inv: "mwc_reach merge_w layers per k margin m F \<Longrightarrow> 0 \<le> k \<Longrightarrow> mwc_inv k m F"
proof (induction rule: mwc_reach.induct)
  case reach_init
  then show ?case by (simp add: mwc_inv_def mwc_init_def size_ok_def keys_ok_def)
next
  case (reach_step m F e m' F')
  then show ?case using inv_step by blast
qed

text \<open>C13: In every history of requests, background loads (finished or failed), runner passes and
  reads, the merged-weight cache holds at most \<open>k_hot\<close> adapters and never more than the
  configured bound, no adapter is resident twice, and while it is in use every adapter being
  loaded, waiting to be merged or resident is recorded as requested and is in exactly one of
  these three stages, so no adapter is loaded or merged twice.\<close>

theorem merged_cache_is_bounded:
  assumes "mwc_reach merge_w layers per k margin m F" and "0 \<le> k"
  shows "int (length (weights m)) \<le> k \<and> dict_ok (weights m) \<and>
    (case k_hot m of None \<Rightarrow> weights m = [] | Some h \<Rightarrow> int (length (weights m)) \<le> h \<and> h \<le> k) \<and>
    (k_hot m = Some 0 \<or> F \<union> fst ` set (loaded m) \<union> fst ` set (weights m) \<subseteq> requested m) \<and>
    F \<inter> fst ` set (loaded m) = {} \<and> F \<inter> fst ` set (weights m) = {} \<and>
    fst ` set (loaded m) \<inter> fst ` set (weights m) = {}"
proof -
  have inv: "mwc_inv k m F" by (rule reach_inv [OF assms])
  then have "size_ok k (k_hot m) (length (weights m))" by (simp add: mwc_inv_def)
  then have s: "int (length (weights m)) \<le> k"
      "case k_hot m of None \<Rightarrow> weights m = [] | Some h \<Rightarrow> int (length (weights m)) \<le> h \<and> h \<le> k"
    by (auto simp: size_ok_def split: option.splits)
  have ko: "keys_ok F (fst ` set (loaded m)) (fst ` set (weights m)) (live m)"
    using inv unfolding mwc_inv_def by blast
  moreover from ko have "k_hot m = Some 0 \<or> F \<union> fst ` set (loaded m) \<union> fst ` set (weights m) \<subseteq> requested m"
    by (simp add: keys_ok_def live_def split: if_splits)
  moreover have "dict_ok (weights m)" using inv unfolding mwc_inv_def by blast
  moreover from ko have "F \<inter> fst ` set (loaded m) = {}" "F \<inter> fst ` set (weights m) = {}"
    "fst ` set (loaded m) \<inter> fst ` set (weights m) = {}"
    by (simp_all add: keys_ok_def)
  ultimately show ?thesis using s by (intro conjI)
qed


text \<open>One layer, numbers for tensors, room for one adapter: adapter 1 is merged, adapter 2 loaded.\<close>

definition sample_merge :: "int \<Rightarrow> (int \<times> int) list \<Rightarrow> py_error + int" where
  "sample_merge w ds = Inr (w + (\<Sum>(a, b)\<leftarrow>ds. b * a))"

definition sample_layers :: "(string \<times> int) list" where
  "sample_layers = [(''layers.0.o_proj'', 5)]"

definition sample_lora :: "int lora" where
  "sample_lora = [((0, ''o_proj''), (2, 3))]"

definition sample_cache1 :: "int mwc" where
  "sample_cache1 = snd (request 1 (mwc_init 1 0))"

definition sample_cache2 :: "int mwc" where
  "sample_cache2 = snd (process sample_merge sample_layers 10 1 (finish_load 1 sample_lora sample_cache1))"

definition sample_cache3 :: "int mwc" where
  "sample_cache3 = finish_load 2 sample_lora (snd (request 2 sample_cache2))"

lemmas cache_eval = request_def mwc_init_def process_def finish_load_def size_cache_def insert_merged_def
  sample_merge_def sample_layers_def sample_lora_def dict_set_def dict_has_def layer_index_def parse_int_def
  digit_value_def projections_of_def ends_with_def suffix_def

lemma sample_merge_layers:
  "merge_layers sample_merge sample_layers sample_lora [] = Inr [(''layers.0.o_proj'', 11)]"
proof -
  have "layer_index ''layers.0.o_proj'' = Inr 0"
    by (simp add: layer_index_def parse_int_def digit_value_def)
  moreover have "projections_of ''layers.0.o_proj'' = [''o_proj'']"
    by (simp add: projections_of_def ends_with_def suffix_to_prefix)
  ultimately show ?thesis by (simp add: sample_layers_def sample_lora_def sample_merge_def dict_set_def)
qed

lemma sample_cache_eval:
  "sample_cache1 = \<lparr>k_hot_max = 1, margin_bytes = 0, k_hot = None, weights = [], loaded = [],
     requested = {1}, n_merges = 0\<rparr>"
  "sample_cache2 = \<lparr>k_hot_max = 1, margin_bytes = 0, k_hot = Some 1,
     weights = [(1, [(''layers.0.o_proj'', 11)])], loaded = [], requested = {1}, n_merges = 1\<rparr>"
  "sample_cache3 = \<lparr>k_hot_max = 1, margin_bytes = 0, k_hot = Some 1,
     weights = [(1, [(''layers.0.o_proj'', 11)])], loaded = [(2, sample_lora)], requested = {1, 2}, n_merges = 1\<rparr>"
proof -
  show 1: "sample_cache1 = \<lparr>k_hot_max = 1, margin_bytes = 0, k_hot = None, weights = [], loaded = [],
     requested = {1}, n_merges = 0\<rparr>"
    by (simp add: sample_cache1_def request_def mwc_init_def dict_has_def)
  show 2: "sample_cache2 = \<lparr>k_hot_max = 1, margin_bytes = 0, k_hot = Some 1,
     weights = [(1, [(''layers.0.o_proj'', 11)])], loaded = [], requested = {1}, n_merges = 1\<rparr>"
    by (simp add: sample_cache2_def 1 finish_load_def process_def dict_set_def size_cache_def Let_def
        sample_merge_layers insert_merged_def)
  show "sample_cache3 = \<lparr>k_hot_max = 1, margin_bytes = 0, k_hot = Some 1,
     weights = [(1, [(''layers.0.o_proj'', 11)])], loaded = [(2, sample_lora)], requested = {1, 2}, n_merges = 1\<rparr>"
    by (simp add: sample_cache3_def 2 finish_load_def request_def dict_set_def dict_has_def insert_commute)
qed

lemma sample_reach1: "mwc_reach sample_merge sample_layers 1 1 0 sample_cache1 {1}"
proof -
  have "request 1 (mwc_init 1 0 :: int mwc) = (True, sample_cache1)"
    by (simp add: sample_cache1_def request_def mwc_init_def dict_has_def)
  from step_request [OF this, of sample_merge sample_layers 1 "{}"]
  show ?thesis using reach_step [OF reach_init] by simp
qed

lemma sample_reach3: "mwc_reach sample_merge sample_layers 1 1 0 sample_cache3 {}"
proof -
  let ?R = "mwc_reach sample_merge sample_layers 1 1 0"
  have "?R (finish_load 1 sample_lora sample_cache1) ({1} - {1})"
    by (rule reach_step [OF sample_reach1 step_loaded]) simp
  then have "?R (finish_load 1 sample_lora sample_cache1) {}" by simp
  then have r2: "?R sample_cache2 {}"
    by (rule reach_step) (rule step_process [of _ _ 10 _ _ "fst (process sample_merge sample_layers 10 1
        (finish_load 1 sample_lora sample_cache1))"], simp add: sample_cache2_def)
  have "request 2 sample_cache2 = (True, snd (request 2 sample_cache2))"
    by (simp add: request_def sample_cache_eval(2) dict_has_def)
  from reach_step [OF r2 step_request [OF this]]
  have "?R (snd (request 2 sample_cache2)) {2}" by simp
  then have "?R sample_cache3 ({2} - {2})"
    unfolding sample_cache3_def by (rule reach_step [OF _ step_loaded]) simp
  then show ?thesis by simp
qed

theorem merged_cache_is_bounded_witness:
  "int (length (weights sample_cache3)) \<le> 1 \<and> dict_ok (weights sample_cache3)"
  using merged_cache_is_bounded [OF sample_reach3] by simp


subsection \<open>A load that fails\<close>

text \<open>Adapter \<open>i\<close> was requested, but it is neither being loaded, nor loaded, nor resident.\<close>

definition abandoned :: "int \<Rightarrow> 'm mwc \<Rightarrow> int set \<Rightarrow> bool" where
  "abandoned i m F \<longleftrightarrow> i \<notin> F \<and> i \<notin> fst ` set (loaded m) \<and> i \<notin> fst ` set (weights m) \<and>
     (i \<in> requested m \<or> k_hot m = Some 0)"

inductive mwc_steps ::
  "('m \<Rightarrow> ('m \<times> 'm) list \<Rightarrow> py_error + 'm) \<Rightarrow> (string \<times> 'm) list \<Rightarrow> int \<Rightarrow>
   'm mwc \<times> int set \<Rightarrow> 'm mwc \<times> int set \<Rightarrow> bool"
  for merge_w layers per_adapter where
  steps_none: "mwc_steps merge_w layers per_adapter s s"
| steps_more: "mwc_step merge_w layers per_adapter s e s' \<Longrightarrow>
    mwc_steps merge_w layers per_adapter s' s'' \<Longrightarrow> mwc_steps merge_w layers per_adapter s s''"

lemma evict_loop_sub:
  "evict_loop h ws req = Inr (ws', req') \<Longrightarrow> fst ` set ws' \<subseteq> fst ` set ws \<and> req - fst ` set ws \<subseteq> req'"
  by (induction h ws req rule: evict_loop.induct) (auto split: if_splits)

lemma abandoned_insert:
  assumes "abandoned i m F" and "insert_merged j w m = (e, m')" and "j \<noteq> i"
  shows "abandoned i m' F"
proof (cases "k_hot m")
  case None
  then show ?thesis using assms by (auto simp: insert_merged_def abandoned_def)
next
  case (Some h)
  show ?thesis
  proof (cases "evict_loop h (weights m) (requested m)")
    case (Inl e')
    then have "m' = m\<lparr>weights := [], requested := requested m - fst ` set (weights m)\<rparr>"
      using assms(2) Some by (simp add: insert_merged_def)
    then show ?thesis using assms(1) by (simp add: abandoned_def)
  next
    case (Inr r)
    obtain ws req where r: "r = (ws, req)" by force
    have "m' = m\<lparr>weights := dict_set j w ws, requested := req, n_merges := n_merges m + 1\<rparr>"
      using assms(2) Some Inr r by (simp add: insert_merged_def)
    then show ?thesis using assms(1,3) evict_loop_sub [OF Inr [unfolded r]] by (auto simp: abandoned_def)
  qed
qed

lemma abandoned_process:
  assumes a: "abandoned i m F" and p: "process merge_w layers free per m = (e, m')"
  shows "abandoned i m' F"
proof (cases "loaded m" rule: rev_cases)
  case Nil
  then show ?thesis using assms by (simp add: process_def)
next
  case (snoc xs x)
  obtain j ts where x: "x = (j, ts)" by force
  have j: "j \<noteq> i" using a snoc x by (auto simp: abandoned_def)
  let ?m1 = "m\<lparr>loaded := xs\<rparr>"
  have a1: "abandoned i ?m1 F" using a snoc by (auto simp: abandoned_def)
  show ?thesis
  proof (cases "if k_hot m = None then size_cache free per ?m1 else Inr ?m1")
    case (Inl e')
    then show ?thesis using p a1 snoc x by (auto simp: process_def Let_def)
  next
    case (Inr m2)
    have a2: "abandoned i m2 F" using a1 Inr by (auto simp: abandoned_def size_cache_def split: if_splits)
    have m': "(if k_hot m2 = Some 0 then (None, m2\<lparr>requested := {}, loaded := []\<rparr>)
        else case merge_layers merge_w layers ts [] of
               Inl e \<Rightarrow> (Some e, m2) | Inr w \<Rightarrow> insert_merged j w m2) = (e, m')"
      using p Inr snoc x by (simp add: process_def Let_def)
    show ?thesis
      using m' a2 abandoned_insert [OF a2 _ j]
      by (auto simp: abandoned_def split: if_splits sum.splits)
  qed
qed

lemma abandoned_step:
  assumes a: "abandoned i m F" and "mwc_step merge_w layers per (m, F) e (m', F')"
  shows "abandoned i m' F'"
  using assms(2)
proof cases
  case (step_request j started)
  then show ?thesis using a by (auto simp: request_def abandoned_def split: if_splits)
next
  case (step_loaded j ts)
  then show ?thesis using a by (auto simp: finish_load_def abandoned_def)
next
  case (step_failed j)
  then show ?thesis using a by (auto simp: abandoned_def)
next
  case (step_process free r)
  then show ?thesis using abandoned_process [OF a] by simp
next
  case (step_get j w)
  have "fst ` set (weights m') = fst ` set (weights m)"
  proof (cases "map_of (weights m) j")
    case None
    then show ?thesis using step_get by (simp add: mwc_get_def)
  next
    case (Some v)
    then have "weights m' = dict_pop j (weights m) @ [(j, v)]" using step_get by (auto simp: mwc_get_def)
    then show ?thesis by (simp only: set_keys_move_to_end [OF Some])
  qed
  moreover have "loaded m' = loaded m" "requested m' = requested m" "k_hot m' = k_hot m" "F' = F"
    using step_get by (auto simp: mwc_get_def split: option.splits)
  ultimately show ?thesis using a by (simp add: abandoned_def)
qed

text \<open>An adapter whose background load failed is lost to the cache: its request stays recorded,
  so every later request for it is ignored, and whatever the scheduler, the loaders and the
  runner do afterwards, its weights never become resident.\<close>

theorem failed_load_is_never_retried:
  assumes "mwc_reach merge_w layers per k margin m F" and "0 \<le> k" and "i \<in> F"
    and "mwc_step merge_w layers per (m, F) (LoadFailed i) s"
    and "mwc_steps merge_w layers per s (m', F')"
  shows "is_merged i m' = False \<and> fst (request i m') = False"
proof -
  have inv: "mwc_inv k m F" by (rule reach_inv [OF assms(1,2)])
  have s: "s = (m, F - {i})" using assms(4) by (auto elim: mwc_step.cases)
  have "abandoned i m (F - {i})"
    using inv assms(3) by (auto simp: mwc_inv_def keys_ok_def abandoned_def live_def split: if_splits)
  moreover have "mwc_steps merge_w layers per s t \<Longrightarrow> abandoned i (fst s) (snd s) \<Longrightarrow> abandoned i (fst t) (snd t)" for s t
  proof (induction rule: mwc_steps.induct)
    case (steps_more s e s' s'')
    then show ?case using abandoned_step [of i "fst s" "snd s" merge_w layers per e "fst s'" "snd s'"] by simp
  qed simp
  ultimately have "abandoned i m' F'" using assms(5) s by fastforce
  then show ?thesis by (auto simp: abandoned_def is_merged_def request_def dict_has_iff)
qed

theorem failed_load_is_never_retried_witness:
  "is_merged 1 sample_cache1 = False \<and> fst (request 1 sample_cache1) = False"
  by (rule failed_load_is_never_retried [OF sample_reach1 _ _ step_failed steps_none]) simp_all

subsection \<open>The model runner\<close>

text \<open>\<open>promotable_adapter\<close>; \<open>lora_ids[0]\<close> of an empty list raises \<open>IndexError\<close>.\<close>

definition promotable_adapter :: "int list \<Rightarrow> int \<Rightarrow> py_error + int option" where
  "promotable_adapter lora_ids n_star =
     (if int (length lora_ids) < n_star then Inr None
      else if lora_ids = [] then Inl IndexError
      else let first = hd lora_ids in
        if first \<le> 0 \<or> (\<exists>i\<in>set lora_ids. i \<noteq> first) then Inr None else Inr (Some first))"

text \<open>The fields of vLLM's model input the runner reads.\<close>

record decode_metadata =
  use_cuda_graph :: bool

record attn_metadata =
  has_prefill :: bool
  decode :: "decode_metadata option"

record model_input =
  attn :: "attn_metadata option"
  index_mapping :: "int list option"

record 'm runner =
  wgkp_enabled :: bool
  n_star :: int
  l3_layers :: "(string \<times> 'm) list"
  run_mwc :: "'m mwc option"
  segmented_installed :: bool
  n_promoted_steps :: nat

text \<open>\<open>load_model\<close>: \<open>seggemm\<close> and \<open>k\<close> are the environment's AS_SEGGEMM and AS_MWC_K_HOT,
  \<open>layers\<close> what \<open>l3.install\<close> finds.\<close>

definition runner_init :: "bool \<Rightarrow> int \<Rightarrow> 'm runner" where
  "runner_init mode_is_wgkp threshold = \<lparr>wgkp_enabled = mode_is_wgkp, n_star = threshold,
     l3_layers = [], run_mwc = None, segmented_installed = False, n_promoted_steps = 0\<rparr>"

definition load_model ::
  "string \<Rightarrow> bool \<Rightarrow> int \<Rightarrow> int \<Rightarrow> int \<Rightarrow> (string \<times> 'm) list \<Rightarrow> 'm runner \<Rightarrow> 'm runner" where
  "load_model seggemm seg_installs k tp margin layers r =
     (if \<not> wgkp_enabled r then r
      else let r1 = (if seggemm \<in> {''1'', ''2'', ''3''} then r\<lparr>segmented_installed := seg_installs\<rparr> else r) in
        if k > 0 \<and> tp = 1
        then r1\<lparr>l3_layers := layers,
                run_mwc := (if layers \<noteq> [] then Some (mwc_init k margin) else run_mwc r1)\<rparr>
        else r1)"

definition promoted_weights ::
  "model_input \<Rightarrow> int \<Rightarrow> 'm mwc \<Rightarrow> py_error + 'm merged option \<times> 'm mwc" where
  "promoted_weights inp n m =
     (case attn inp of
        None \<Rightarrow> Inr (None, m)
      | Some a \<Rightarrow>
          if has_prefill a then Inr (None, m)
          else case (decode a, index_mapping inp) of
                 (Some d, Some ids) \<Rightarrow>
                   if use_cuda_graph d then Inr (None, m)
                   else (case promotable_adapter ids n of
                           Inl e \<Rightarrow> Inl e
                         | Inr None \<Rightarrow> Inr (None, m)
                         | Inr (Some i) \<Rightarrow> Inr (mwc_get i m))
               | _ \<Rightarrow> Inr (None, m))"

text \<open>\<open>execute_model\<close> up to the call of vLLM's own: the weights the step runs with
  (\<open>None\<close>: the base weights with the LoRA kernels), or the exception raised before it.\<close>

definition execute_model ::
  "('m \<Rightarrow> ('m \<times> 'm) list \<Rightarrow> py_error + 'm) \<Rightarrow> int \<Rightarrow> int \<Rightarrow> model_input \<Rightarrow> 'm runner \<Rightarrow>
   (py_error + 'm merged option) \<times> 'm runner" where
  "execute_model merge_w free per_adapter inp r =
     (case run_mwc r of
        None \<Rightarrow> (Inr None, r)
      | Some m \<Rightarrow>
          if l3_layers r = [] then (Inr None, r)
          else let (err, m1) = process merge_w (l3_layers r) free per_adapter m;
                   r1 = r\<lparr>run_mwc := Some m1\<rparr>
               in case err of
                    Some e \<Rightarrow> (Inl e, r1)
                  | None \<Rightarrow>
                      (case promoted_weights inp (n_star r1) m1 of
                         Inl e \<Rightarrow> (Inl e, r1)
                       | Inr (None, m2) \<Rightarrow> (Inr None, r1\<lparr>run_mwc := Some m2\<rparr>)
                       | Inr (Some w, m2) \<Rightarrow>
                           (Inr (Some w), r1\<lparr>run_mwc := Some m2, n_promoted_steps := n_promoted_steps r1 + 1\<rparr>)))"

lemma promotable_adapter_Some:
  "promotable_adapter ids n = Inr (Some i) \<Longrightarrow>
   0 < i \<and> n \<le> int (length ids) \<and> ids \<noteq> [] \<and> set ids = {i}"
  by (cases ids) (auto simp: promotable_adapter_def Let_def split: if_splits)

lemma mwc_get_weights: "mwc_get i m = (Some w, m') \<Longrightarrow> map_of (weights m) i = Some w"
  by (auto simp: mwc_get_def split: option.splits)

text \<open>C15: A step runs on merged weights only when the paper's gate holds for all of it: it is a
  decode step that replays no CUDA graph, every token belongs to one adapter, there are at
  least n* tokens, and the weights used are the ones resident for exactly that adapter.
  A promoted step therefore never applies one adapter's merged weights to another's token.\<close>

theorem promotion_gate_is_sound:
  assumes "execute_model merge_w free per inp r = (Inr (Some w), r')"
  shows "\<exists>i a d ids m. attn inp = Some a \<and> \<not> has_prefill a \<and> decode a = Some d \<and> \<not> use_cuda_graph d \<and>
    index_mapping inp = Some ids \<and> 0 < i \<and> set ids = {i} \<and> n_star r \<le> int (length ids) \<and>
    run_mwc r' = Some m \<and> map_of (weights m) i = Some w \<and> fst (last (weights m)) = i \<and>
    n_promoted_steps r' = n_promoted_steps r + 1"
proof -
  obtain m where m: "run_mwc r = Some m"
    using assms by (auto simp: execute_model_def split: option.splits)
  obtain err m1 where p: "process merge_w (l3_layers r) free per m = (err, m1)" by force
  have err: "err = None" using assms m p
    by (auto simp: execute_model_def Let_def split: option.splits if_splits)
  obtain m2 where g: "promoted_weights inp (n_star r) m1 = Inr (Some w, m2)"
      and r': "r' = r\<lparr>run_mwc := Some m2, n_promoted_steps := n_promoted_steps r + 1\<rparr>"
    using assms m p err
    by (auto simp: execute_model_def Let_def split: option.splits if_splits sum.splits)
  obtain a d ids i where a: "attn inp = Some a" "\<not> has_prefill a" "decode a = Some d" "\<not> use_cuda_graph d"
      "index_mapping inp = Some ids" "promotable_adapter ids (n_star r) = Inr (Some i)" "mwc_get i m1 = (Some w, m2)"
    using g by (auto simp: promoted_weights_def split: option.splits if_splits sum.splits)
  have w: "map_of (weights m1) i = Some w" by (rule mwc_get_weights [OF a(7)])
  then have "weights m2 = dict_pop i (weights m1) @ [(i, w)]" using a(7) by (auto simp: mwc_get_def)
  then have "map_of (weights m2) i = Some w" "fst (last (weights m2)) = i"
    by (simp_all add: map_add_def)
  then show ?thesis using a promotable_adapter_Some [OF a(6)] r'
    by (intro exI [of _ i] exI [of _ a] exI [of _ d] exI [of _ ids] exI [of _ m2]) simp
qed

definition sample_input :: model_input where
  "sample_input = \<lparr>attn = Some \<lparr>has_prefill = False, decode = Some \<lparr>use_cuda_graph = False\<rparr>\<rparr>,
     index_mapping = Some [1, 1]\<rparr>"

definition sample_runner :: "int runner" where
  "sample_runner = (load_model ''3'' True 1 1 0 sample_layers (runner_init True 2))\<lparr>run_mwc := Some sample_cache2\<rparr>"

theorem promotion_gate_is_sound_witness:
  "\<exists>i ids w r'. execute_model sample_merge 10 1 sample_input sample_runner = (Inr (Some w), r') \<and>
    index_mapping sample_input = Some ids \<and> set ids = {i} \<and> n_promoted_steps r' = 1"
proof -
  have "\<exists>w r'. execute_model sample_merge 10 1 sample_input sample_runner = (Inr (Some w), r')"
    by (simp add: execute_model_def sample_runner_def load_model_def runner_init_def sample_cache_eval
        process_def sample_layers_def promoted_weights_def sample_input_def promotable_adapter_def mwc_get_def)
  then obtain w r' where e: "execute_model sample_merge 10 1 sample_input sample_runner = (Inr (Some w), r')"
    by blast
  have "n_promoted_steps sample_runner = 0"
    by (simp add: sample_runner_def load_model_def runner_init_def)
  then show ?thesis using promotion_gate_is_sound [OF e] e by auto
qed

end
