(* ===== verification/Prefetch.thy ===== *)
theory Prefetch
  imports Prelude
begin

text \<open>
  \<^verbatim>\<open>prefetch/predictor.py\<close>, \<^verbatim>\<open>prefetch/cache_manager.py\<close> and \<^verbatim>\<open>prefetch/policy.py\<close>:
  Poisson scores of adapters, the prefetch and eviction decisions made from them, the warm-set
  cache with its three eviction policies and its accounting, and the policy factory. Adapter
  ids are of a linear order (strings in the program), rates and times are reals.
\<close>

subsection \<open>Scores\<close>

record predictor =
  tau_load_s :: real
  p_thresh :: real
  lambda_min :: real

definition predictor_init :: "real \<Rightarrow> real \<Rightarrow> py_error + predictor" where
  "predictor_init tau_load_ms p =
     (if tau_load_ms \<le> 0 then Inl ValueError
      else if \<not> (0 < p \<and> p < 1) then Inl ValueError
      else let tau = tau_load_ms / 1000 in
        Inr \<lparr>tau_load_s = tau, p_thresh = p, lambda_min = - ln (1 - p) / tau\<rparr>)"

definition score :: "predictor \<Rightarrow> real \<Rightarrow> real" where
  "score P l = (if l \<le> 0 then 0 else 1 - exp (- l * tau_load_s P))"

definition eviction_score :: "real \<Rightarrow> real \<Rightarrow> real" where
  "eviction_score l tau = (if l \<le> 0 \<or> tau \<le> 0 then 0 else 1 - exp (- l * tau))"

definition should_prefetch :: "predictor \<Rightarrow> real \<Rightarrow> bool" where
  "should_prefetch P l = (l > lambda_min P)"

definition lambda_threshold :: "predictor \<Rightarrow> real" where
  "lambda_threshold P = lambda_min P"

text \<open>\<open>candidates.sort(reverse=True)\<close> on (score, id) pairs.\<close>

definition get_prefetch_priorities ::
  "predictor \<Rightarrow> ('a :: linorder, real) dict \<Rightarrow> 'a set \<Rightarrow> nat option \<Rightarrow> (real \<times> 'a) list" where
  "get_prefetch_priorities P rates warm_set top_n =
     (let cs = rev (sort (map (\<lambda>(a, l). (score P l, a))
            (filter (\<lambda>(a, l). a \<notin> warm_set \<and> score P l > p_thresh P) rates)))
      in case top_n of None \<Rightarrow> cs | Some n \<Rightarrow> take n cs)"

definition get_eviction_target ::
  "predictor \<Rightarrow> ('a :: linorder, real) dict \<Rightarrow> 'a set \<Rightarrow> real option \<Rightarrow> 'a option" where
  "get_eviction_target P rates warm_set tau_evict =
     (if warm_set = {} then None
      else let tau = (case tau_evict of Some t \<Rightarrow> t | None \<Rightarrow> tau_load_s P)
        in Some (snd (hd (sort (map (\<lambda>a. (eviction_score (dict_get rates a 0) tau, a))
             (sorted_list_of_set warm_set))))))"

text \<open>The loop of \<open>prefetch_schedule\<close>. The eviction set is \<open>warm_set - P | E\<close> as Python
  parses it: the difference first.\<close>

fun schedule_loop ::
  "predictor \<Rightarrow> ('a :: linorder, real) dict \<Rightarrow> 'a set \<Rightarrow> (real \<times> 'a) list \<Rightarrow> int \<Rightarrow> 'a list \<Rightarrow> 'a list \<Rightarrow>
   'a list \<times> 'a list" where
  "schedule_loop P rates warm_set [] n_free pre ev = (pre, ev)"
| "schedule_loop P rates warm_set ((s, a) # cs) n_free pre ev =
     (if n_free > 0 then schedule_loop P rates warm_set cs (n_free - 1) (pre @ [a]) ev
      else case get_eviction_target P rates ((warm_set - set pre) \<union> set ev) None of
             None \<Rightarrow> (pre, ev)
           | Some v \<Rightarrow>
               if score P (dict_get rates a 0) > score P (dict_get rates v 0)
               then schedule_loop P rates warm_set cs n_free (pre @ [a]) (ev @ [v])
               else (pre, ev))"

definition prefetch_schedule ::
  "predictor \<Rightarrow> ('a :: linorder, real) dict \<Rightarrow> 'a set \<Rightarrow> int \<Rightarrow> 'a list \<times> 'a list" where
  "prefetch_schedule P rates warm_set k_warm_max =
     schedule_loop P rates warm_set (get_prefetch_priorities P rates warm_set None)
       (k_warm_max - int (card warm_set)) [] []"

subsection \<open>The warm cache\<close>

record 'a cache =
  k_warm_max :: int
  tau_load_ms :: real
  policy :: string
  warm :: "('a, real) dict"
  hits :: "('a, nat) dict"
  misses :: "('a, nat) dict"
  cold_start_ms_total :: "('a, real) dict"
  total_requests :: nat
  total_hits :: nat
  total_misses :: nat
  total_evictions :: nat

definition cache_init :: "int \<Rightarrow> real \<Rightarrow> string \<Rightarrow> py_error + 'a cache" where
  "cache_init k tau pol =
     (if k \<le> 0 then Inl ValueError
      else Inr \<lparr>k_warm_max = k, tau_load_ms = tau, policy = pol, warm = [], hits = [], misses = [],
        cold_start_ms_total = [], total_requests = 0, total_hits = 0, total_misses = 0,
        total_evictions = 0\<rparr>)"

text \<open>The scan of the \<open>topk\<close> policy; \<open>None\<close> is the initial infinite rate.\<close>

fun topk_scan :: "('a, real) dict \<Rightarrow> 'a list \<Rightarrow> real option \<Rightarrow> 'a option \<Rightarrow> 'a option" where
  "topk_scan rates [] m victim = victim"
| "topk_scan rates (a # as) m victim =
     (let l = dict_get rates a 0 in
      if (case m of None \<Rightarrow> True | Some x \<Rightarrow> l < x) then topk_scan rates as (Some l) (Some a)
      else topk_scan rates as m victim)"

text \<open>The predictor the cache builds has the default threshold 0.1; a non-positive load time
  makes its constructor raise.\<close>

definition choose_eviction :: "('a :: linorder, real) dict option \<Rightarrow> 'a cache \<Rightarrow> py_error + 'a option" where
  "choose_eviction rates c =
     (if warm c = [] then Inr None
      else let first = Some (fst (hd (warm c))) in
        if policy c = ''lru'' then Inr first
        else case rates of
          Some (r # rs) \<Rightarrow>
            if policy c = ''topk'' then Inr (topk_scan (r # rs) (dict_keys (warm c)) None None)
            else if policy c = ''predictive'' then
              (case predictor_init (tau_load_ms c) (1/10) of
                 Inl e \<Rightarrow> Inl e
               | Inr P \<Rightarrow> Inr (get_eviction_target P (r # rs) (fst ` set (warm c)) None))
            else Inr first
        | _ \<Rightarrow> Inr first)"

text \<open>\<open>_load\<close>: \<open>self._warm[id] = t\<close> then \<open>move_to_end\<close>.\<close>

definition load_adapter :: "'a :: linorder \<Rightarrow> real \<Rightarrow> ('a, real) dict option \<Rightarrow> 'a cache \<Rightarrow> py_error + 'a cache" where
  "load_adapter a t rates c =
     (let full = (if int (length (warm c)) \<ge> k_warm_max c then choose_eviction rates c else Inr None)
      in case full of
           Inl e \<Rightarrow> Inl e
         | Inr v \<Rightarrow>
             let c1 = (case v of None \<Rightarrow> c
                       | Some x \<Rightarrow> c\<lparr>warm := dict_pop x (warm c), total_evictions := total_evictions c + 1\<rparr>)
             in Inr (c1\<lparr>warm := dict_pop a (warm c1) @ [(a, t)]\<rparr>))"

definition cache_request :: "'a :: linorder \<Rightarrow> real \<Rightarrow> ('a, real) dict option \<Rightarrow> 'a cache \<Rightarrow>
    (py_error + bool \<times> real) \<times> 'a cache" where
  "cache_request a t rates c =
     (let c1 = c\<lparr>total_requests := total_requests c + 1, hits := dict_setdefault a 0 (hits c),
                 misses := dict_setdefault a 0 (misses c),
                 cold_start_ms_total := dict_setdefault a 0 (cold_start_ms_total c)\<rparr>
      in if dict_has (warm c1) a then
           (Inr (True, 0),
            c1\<lparr>warm := dict_pop a (warm c1) @ [(a, t)], hits := dict_set a (dict_get (hits c1) a 0 + 1) (hits c1),
               total_hits := total_hits c1 + 1\<rparr>)
         else
           let c2 = c1\<lparr>misses := dict_set a (dict_get (misses c1) a 0 + 1) (misses c1),
                       total_misses := total_misses c1 + 1,
                       cold_start_ms_total :=
                         dict_set a (dict_get (cold_start_ms_total c1) a 0 + tau_load_ms c1) (cold_start_ms_total c1)\<rparr>
           in case load_adapter a t rates c2 of
                Inl e \<Rightarrow> (Inl e, c2)
              | Inr c3 \<Rightarrow> (Inr (False, tau_load_ms c2), c3))"

definition cache_prefetch :: "'a :: linorder \<Rightarrow> real \<Rightarrow> ('a, real) dict option \<Rightarrow> 'a cache \<Rightarrow>
    (py_error + bool) \<times> 'a cache" where
  "cache_prefetch a t rates c =
     (if dict_has (warm c) a then (Inr False, c)
      else case load_adapter a t rates c of
             Inl e \<Rightarrow> (Inl e, c)
           | Inr c' \<Rightarrow> (Inr True, c'))"

definition is_warm :: "'a cache \<Rightarrow> 'a \<Rightarrow> bool" where
  "is_warm c a = dict_has (warm c) a"

definition warm_set :: "'a cache \<Rightarrow> 'a set" where
  "warm_set c = fst ` set (warm c)"

definition n_warm :: "'a cache \<Rightarrow> nat" where
  "n_warm c = length (warm c)"

definition hit_rate :: "'a cache \<Rightarrow> real" where
  "hit_rate c = (if total_requests c = 0 then 0 else real (total_hits c) / real (total_requests c))"

definition cold_fraction :: "'a cache \<Rightarrow> real" where
  "cold_fraction c = 1 - hit_rate c"

record adapter_stats =
  as_hits :: nat
  as_misses :: nat
  as_hit_rate :: real
  as_cold_ms :: real
  as_cold_ms_per_miss :: real

definition per_adapter_stats :: "'a cache \<Rightarrow> 'a \<Rightarrow> adapter_stats option" where
  "per_adapter_stats c a =
     (if \<not> dict_has (hits c) a \<and> \<not> dict_has (misses c) a then None
      else let h = dict_get (hits c) a 0; m = dict_get (misses c) a 0; total = h + m;
               cold = dict_get (cold_start_ms_total c) a 0
        in Some \<lparr>as_hits = h, as_misses = m,
             as_hit_rate = (if total \<noteq> 0 then real h / real total else 0), as_cold_ms = cold,
             as_cold_ms_per_miss = (if m \<noteq> 0 then cold / real m else 0)\<rparr>)"

definition cache_reset_stats :: "'a cache \<Rightarrow> 'a cache" where
  "cache_reset_stats c = c\<lparr>hits := [], misses := [], cold_start_ms_total := [], total_requests := 0,
     total_hits := 0, total_misses := 0, total_evictions := 0\<rparr>"

record cache_stats =
  cs_policy :: string
  cs_k_warm_max :: int
  cs_n_warm :: nat
  cs_tau_load_ms :: real
  cs_requests :: nat
  cs_hits :: nat
  cs_misses :: nat
  cs_evictions :: nat
  cs_hit_rate :: real
  cs_cold_fraction :: real

definition cache_stats_of :: "'a cache \<Rightarrow> cache_stats" where
  "cache_stats_of c = \<lparr>cs_policy = policy c, cs_k_warm_max = k_warm_max c, cs_n_warm = n_warm c,
     cs_tau_load_ms = tau_load_ms c, cs_requests = total_requests c, cs_hits = total_hits c,
     cs_misses = total_misses c, cs_evictions = total_evictions c,
     cs_hit_rate = py_round_to 4 (hit_rate c), cs_cold_fraction = py_round_to 4 (cold_fraction c)\<rparr>"

subsection \<open>The policy factory\<close>

datatype prefetch_policy = NONE | TOPK | LRU | PREDICTIVE

definition parse_policy :: "string \<Rightarrow> py_error + prefetch_policy" where
  "parse_policy s =
     (if s = ''none'' then Inr NONE else if s = ''topk'' then Inr TOPK
      else if s = ''lru'' then Inr LRU else if s = ''predictive'' then Inr PREDICTIVE
      else Inl ValueError)"

text \<open>\<open>policy.lower()\<close> on ASCII letters.\<close>

definition lower_char :: "char \<Rightarrow> char" where
  "lower_char c = (if CHR ''A'' \<le> c \<and> c \<le> CHR ''Z'' then char_of (of_char c + 32 :: nat) else c)"

definition eviction_name :: "prefetch_policy \<Rightarrow> string" where
  "eviction_name p = (case p of NONE \<Rightarrow> ''lru'' | TOPK \<Rightarrow> ''topk'' | LRU \<Rightarrow> ''lru''
     | PREDICTIVE \<Rightarrow> ''predictive'')"

definition make_prefetcher :: "string \<Rightarrow> int \<Rightarrow> real \<Rightarrow> real \<Rightarrow> py_error + 'a cache \<times> predictor option" where
  "make_prefetcher pol k tau p =
     (case parse_policy (map lower_char pol) of
        Inl e \<Rightarrow> Inl e
      | Inr pp \<Rightarrow>
          (case cache_init k tau (eviction_name pp) of
             Inl e \<Rightarrow> Inl e
           | Inr c \<Rightarrow>
               if pp = PREDICTIVE
               then (case predictor_init tau p of Inl e \<Rightarrow> Inl e | Inr P \<Rightarrow> Inr (c, Some P))
               else Inr (c, None)))"

subsection \<open>Scores and thresholds\<close>

lemma predictor_ok:
  assumes "predictor_init tau p = Inr P"
  shows "0 < tau_load_s P" and "p_thresh P = p" and "0 < p" and "p < 1"
    and "lambda_min P = - ln (1 - p) / tau_load_s P"
  using assms by (auto simp: predictor_init_def Let_def split: if_splits)

lemma score_range: "0 < tau_load_s P \<Longrightarrow> 0 \<le> score P l \<and> score P l < 1"
  by (simp add: score_def)

lemma score_mono: "0 < tau_load_s P \<Longrightarrow> l \<le> m \<Longrightarrow> score P l \<le> score P m"
  by (auto simp: score_def)

lemma score_above:
  assumes "predictor_init tau p = Inr P"
  shows "p_thresh P < score P l \<longleftrightarrow> lambda_min P < l"
proof -
  note ok = predictor_ok [OF assms]
  have pos: "0 < lambda_min P" using ok by (simp add: divide_neg_pos)
  show ?thesis
  proof (cases "l \<le> 0")
    case True
    then show ?thesis using pos ok by (simp add: score_def)
  next
    case False
    have "p < 1 - exp (- l * tau_load_s P) \<longleftrightarrow> exp (- l * tau_load_s P) < exp (ln (1 - p))"
      using ok by auto
    also have "\<dots> \<longleftrightarrow> - ln (1 - p) < l * tau_load_s P" by auto
    also have "\<dots> \<longleftrightarrow> lambda_min P < l" unfolding ok(5) by (rule pos_divide_less_eq [OF ok(1), symmetric])
    finally show ?thesis using False ok by (simp add: score_def)
  qed
qed

text \<open>The rate threshold used by the scheduler's fast path is exactly the score threshold: an
  adapter is a prefetch candidate when and only when its rate passes \<open>should_prefetch\<close> and it is
  not warm, and the candidates come with their scores in decreasing order.\<close>

theorem prefetch_candidates_are_exact:
  assumes "predictor_init tau p = Inr P"
  shows "snd ` set (get_prefetch_priorities P rates W None) =
      {a. a \<notin> W \<and> (\<exists>l. (a, l) \<in> set rates \<and> should_prefetch P l)} \<and>
    sorted_wrt (\<lambda>x y. fst y \<le> fst x) (get_prefetch_priorities P rates W None) \<and>
    (\<forall>(s, a) \<in> set (get_prefetch_priorities P rates W None). p_thresh P < s \<and> s < 1)"
proof -
  let ?cs = "map (\<lambda>(a, l). (score P l, a)) (filter (\<lambda>(a, l). a \<notin> W \<and> score P l > p_thresh P) rates)"
  have set: "set (get_prefetch_priorities P rates W None) = set ?cs"
    by (simp add: get_prefetch_priorities_def Let_def)
  have "snd ` set ?cs = {a. a \<notin> W \<and> (\<exists>l. (a, l) \<in> set rates \<and> should_prefetch P l)}"
    by (force simp: should_prefetch_def score_above [OF assms])
  moreover have "sorted_wrt (\<lambda>x y. fst y \<le> fst x) (get_prefetch_priorities P rates W None)"
  proof -
    have "sorted (sort ?cs)" by simp
    then have "sorted_wrt (\<lambda>x y. fst x \<le> fst y) (sort ?cs)"
      by (rule sorted_wrt_mono_rel [rotated]) (auto simp: less_eq_prod_def)
    then show ?thesis by (simp add: get_prefetch_priorities_def Let_def sorted_wrt_rev)
  qed
  moreover have "\<forall>(s, a) \<in> set ?cs. p_thresh P < s \<and> s < 1"
    using score_range [OF predictor_ok(1) [OF assms]] by auto
  ultimately show ?thesis unfolding set by blast
qed

lemma demo_predictor: "\<exists>P. predictor_init 100 (1/10) = Inr P"
  by (simp add: predictor_init_def Let_def)

theorem prefetch_candidates_are_exact_witness:
  "\<exists>P. predictor_init 100 (1/10) = Inr P \<and>
     snd ` set (get_prefetch_priorities P [(3 :: int, 0)] {} None) = {}"
proof -
  obtain P where P: "predictor_init 100 (1/10) = Inr P" using demo_predictor by blast
  have "\<not> should_prefetch P 0"
    using score_above [OF P, of 0] predictor_ok [OF P] by (simp add: should_prefetch_def score_def)
  then show ?thesis
    using prefetch_candidates_are_exact [OF P, of "[(3, 0)]" "{}"] P by auto
qed

subsection \<open>Eviction\<close>

lemma sorted_hd_le: "sorted xs \<Longrightarrow> x \<in> set xs \<Longrightarrow> hd xs \<le> (x :: 'x :: linorder)"
  by (cases xs) auto

lemma eviction_target_min:
  assumes "finite W" and "get_eviction_target P rates W tau = Some v"
  defines "t \<equiv> (case tau of Some t \<Rightarrow> t | None \<Rightarrow> tau_load_s P)"
  shows "v \<in> W" and "a \<in> W \<Longrightarrow> eviction_score (dict_get rates v 0) t \<le> eviction_score (dict_get rates a 0) t"
proof -
  let ?f = "\<lambda>a. (eviction_score (dict_get rates a 0) t, a)"
  let ?xs = "sort (map ?f (sorted_list_of_set W))"
  have v: "W \<noteq> {}" "v = snd (hd ?xs)"
    using assms(2) by (auto simp: get_eviction_target_def t_def split: if_splits)
  have xs: "set ?xs = ?f ` W" "?xs \<noteq> []"
    using assms(1) v(1) by (auto simp: sorted_list_of_set_eq_Nil_iff simp flip: set_empty)
  have "hd ?xs \<in> ?f ` W" unfolding xs(1) [symmetric] using xs(2) by (rule hd_in_set)
  then obtain u where u: "u \<in> W" "hd ?xs = ?f u" by (rule imageE)
  have "v = u" unfolding v(2) u(2) by (rule snd_conv)
  then have h: "v \<in> W" "hd ?xs = ?f v" using u by simp_all
  then show "v \<in> W" by simp
  assume "a \<in> W"
  then have "hd ?xs \<le> ?f a" using sorted_hd_le [of ?xs "?f a"] xs(1) by simp
  then show "eviction_score (dict_get rates v 0) t \<le> eviction_score (dict_get rates a 0) t"
    using h(2) by (auto simp: less_eq_prod_def)
qed

lemma eviction_target_Some: "W \<noteq> {} \<Longrightarrow> \<exists>v. get_eviction_target P rates W tau = Some v"
  by (simp add: get_eviction_target_def)

text \<open>Every eviction target of one schedule is the same adapter.\<close>

lemma schedule_loop_evicts:
  assumes "set pre \<inter> W = {}" and "snd ` set cs \<inter> W = {}" and "finite W"
    and "get_eviction_target P rates W None = Some v" and "ev = replicate n v"
    and "schedule_loop P rates W cs free pre ev = (pre', ev')"
  shows "\<exists>m us. ev' = replicate (n + m) v \<and> pre' = pre @ us \<and> us = take (length us) (map snd cs) \<and>
    (m > 0 \<longrightarrow> length us = m + nat free) \<and> (free \<le> 0 \<longrightarrow> length us = m)"
  using assms
proof (induction P rates W cs free pre ev arbitrary: n rule: schedule_loop.induct)
  case (1 P rates W free pre ev)
  then show ?case by (intro exI [of _ 0] exI [of _ "[]"]) simp
next
  case (2 P rates W s a cs free pre ev)
  have v: "v \<in> W" using eviction_target_min(1) [OF 2(5,6)] .
  have set: "(W - set pre) \<union> set ev = W" using 2(3,7) v by (auto simp: set_replicate_conv_if)
  have pa: "set (pre @ [a]) \<inter> W = {}" "snd ` set cs \<inter> W = {}" using 2(3,4) by auto
  show ?case
  proof (cases "free > 0")
    case True
    have "schedule_loop P rates W cs (free - 1) (pre @ [a]) ev = (pre', ev')" using 2(8) True by simp
    from 2(1) [OF True pa 2(5,6,7) this] obtain m us where m: "ev' = replicate (n + m) v"
        "pre' = (pre @ [a]) @ us" "us = take (length us) (map snd cs)" "m > 0 \<longrightarrow> length us = m + nat (free - 1)"
      by blast
    show ?thesis
      by (rule exI [of _ m], rule exI [of _ "a # us"]) (use m True in auto)
  next
    case False
    have tgt: "get_eviction_target P rates ((W - set pre) \<union> set ev) None = Some v" using set 2(6) by simp
    show ?thesis
    proof (cases "score P (dict_get rates a 0) > score P (dict_get rates v 0)")
      case True
      have ev: "ev @ [v] = replicate (Suc n) v" using 2(7) by (simp add: replicate_append_same)
      have run: "schedule_loop P rates W cs free (pre @ [a]) (ev @ [v]) = (pre', ev')"
        using 2(8) False True tgt by simp
      from 2(2) [OF False tgt True pa 2(5,6) ev run] obtain m us where m: "ev' = replicate (Suc n + m) v"
          "pre' = (pre @ [a]) @ us" "us = take (length us) (map snd cs)" "free \<le> 0 \<longrightarrow> length us = m"
        by blast
      show ?thesis
        by (rule exI [of _ "Suc m"], rule exI [of _ "a # us"]) (use m False in auto)
    next
      case f: False
      then have "pre' = pre" "ev' = ev" using 2(8) False tgt by auto
      then show ?thesis using 2(7) by (intro exI [of _ 0] exI [of _ "[]"]) simp
    qed
  qed
qed

lemma priorities_distinct:
  assumes "dict_ok rates"
  shows "distinct (map snd (get_prefetch_priorities P rates W None))"
    and "snd ` set (get_prefetch_priorities P rates W None) \<inter> W = {}"
proof -
  let ?cs = "map (\<lambda>(a, l). (score P l, a)) (filter (\<lambda>(a, l). a \<notin> W \<and> score P l > p_thresh P) rates)"
  have eq: "map snd ?cs = map fst (filter (\<lambda>(a, l). a \<notin> W \<and> score P l > p_thresh P) rates)"
    by (simp add: comp_def case_prod_beta)
  have "distinct (map snd ?cs)" unfolding eq using assms by (rule distinct_map_filter)
  moreover have "mset (map snd (sort ?cs)) = mset (map snd ?cs)" by (simp only: mset_map mset_sort)
  ultimately have "distinct (map snd (sort ?cs))" by (metis mset_eq_imp_distinct_iff)
  then show "distinct (map snd (get_prefetch_priorities P rates W None))"
    by (simp add: get_prefetch_priorities_def Let_def rev_map [symmetric])
  show "snd ` set (get_prefetch_priorities P rates W None) \<inter> W = {}"
    by (auto simp: get_prefetch_priorities_def Let_def)
qed

text \<open>All evictions a prefetch schedule asks for name one adapter: the warm adapter with the
  lowest score is proposed again for every candidate after the first, because Python reads
  \<open>warm - prefetched | evicted\<close> as \<open>(warm - prefetched) | evicted\<close> and the evicted adapter stays
  in the candidate set. Applying a schedule with \<open>m\<close> evictions to a full warm set therefore
  leaves \<open>m - 1\<close> adapters more than the capacity.\<close>

theorem schedule_evicts_one_adapter_only:
  assumes "dict_ok rates" and "finite W" and "get_eviction_target P rates W None = Some v"
    and "int (card W) \<le> k" and "prefetch_schedule P rates W k = (pre, ev)" and "ev \<noteq> []"
  shows "ev = replicate (length ev) v \<and>
    int (card ((W - set ev) \<union> set pre)) = k + int (length ev) - 1"
proof -
  let ?cs = "get_prefetch_priorities P rates W None"
  obtain m us where m: "ev = replicate m v" "pre = us" "us = take (length us) (map snd ?cs)"
      "m > 0 \<longrightarrow> length us = m + nat (k - int (card W))"
    using schedule_loop_evicts [OF _ _ assms(2,3), of "[]" ?cs "[]" 0 "k - int (card W)" pre ev]
      priorities_distinct(2) [OF assms(1)] assms(5) by (auto simp: prefetch_schedule_def)
  have len: "length ev = m" "m > 0" using m(1) assms(6) by auto
  have v: "v \<in> W" by (rule eviction_target_min(1) [OF assms(2,3)])
  have d: "distinct pre" using priorities_distinct(1) [OF assms(1), of P W] m(2,3) by (metis distinct_take)
  have "set pre \<inter> W = {}"
    using priorities_distinct(2) [OF assms(1), of P W] m(2,3) set_take_subset [of "length us" "map snd ?cs"]
    by force
  then have "card ((W - {v}) \<union> set pre) = card (W - {v}) + length pre"
    using assms(2) d by (subst card_Un_disjoint) (auto simp: distinct_card)
  moreover have "card (W - {v}) = card W - 1" "0 < card W" using v assms(2) by (auto simp: card_gt_0_iff)
  moreover have "set ev = {v}" using m(1) len(2) by auto
  ultimately have "int (card ((W - set ev) \<union> set pre)) = int (card W) - 1 + int (length pre)" by simp
  then show ?thesis using m(1,2,4) len assms(4) by simp
qed

text \<open>Adapters 1 and 2 are warm and idle; 3 and 4 are requested often.\<close>

lemma demo_schedule:
  assumes "predictor_init 100 (1/10) = Inr P"
  shows "get_eviction_target P [(3 :: int, 10), (4, 10)] {1, 2} None = Some 1"
    and "prefetch_schedule P [(3 :: int, 10), (4, 10)] {1, 2} 2 = ([4, 3], [1, 1])"
proof -
  have e: "eviction_score 0 t = 0" for t by (simp add: eviction_score_def)
  have l: "sorted_list_of_set {1, 2 :: int} = [1, 2]" by simp
  have l3: "sorted_list_of_set (insert 1 {1, 2 :: int}) = [1, 2]" by simp
  show t: "get_eviction_target P [(3 :: int, 10), (4, 10)] {1, 2} None = Some 1"
    by (simp add: get_eviction_target_def dict_get_def e l)
  have s: "p_thresh P < score P 10" "0 < score P 10" "score P 0 = 0"
  proof -
    have "lambda_min P < 10"
    proof -
      have "ln (10/9 :: real) \<le> 10/9 - 1" by (rule ln_le_minus_one) simp
      moreover have "ln (9/10 :: real) = - ln (10/9)" by (simp add: ln_div)
      ultimately show ?thesis using assms by (auto simp: predictor_init_def Let_def)
    qed
    then show "p_thresh P < score P 10" by (simp add: score_above [OF assms])
    then show "0 < score P 10" using predictor_ok [OF assms] by simp
  qed (simp add: score_def)
  have c: "get_prefetch_priorities P [(3 :: int, 10), (4, 10)] {1, 2} None = [(score P 10, 4), (score P 10, 3)]"
    using s by (simp add: get_prefetch_priorities_def)
  show "prefetch_schedule P [(3 :: int, 10), (4, 10)] {1, 2} 2 = ([4, 3], [1, 1])"
    using s t by (simp add: prefetch_schedule_def c dict_get_def insert_Diff_if)
qed

theorem schedule_evicts_one_adapter_only_witness:
  "\<exists>P. predictor_init 100 (1/10) = Inr P \<and>
     prefetch_schedule P [(3 :: int, 10), (4, 10)] {1, 2} 2 = ([4, 3], [1, 1]) \<and>
     int (card (({1, 2} - set [1, 1]) \<union> set [4, 3 :: int])) = 2 + int (length [1, 1 :: int]) - 1"
proof -
  obtain P where P: "predictor_init 100 (1/10) = Inr P" using demo_predictor by blast
  show ?thesis
    using schedule_evicts_one_adapter_only [OF _ _ demo_schedule(1) [OF P] _ demo_schedule(2) [OF P]]
      demo_schedule(2) [OF P] P by auto
qed

subsection \<open>The warm set stays within its capacity\<close>

definition warm_ok :: "'a cache \<Rightarrow> bool" where
  "warm_ok c \<longleftrightarrow> 0 < k_warm_max c \<and> dict_ok (warm c) \<and> int (length (warm c)) \<le> k_warm_max c \<and>
     (policy c = ''predictive'' \<longrightarrow> 0 < tau_load_ms c)"

lemma topk_scan_member:
  "topk_scan rates as m victim = Some v \<Longrightarrow> v \<in> set as \<or> victim = Some v"
  by (induction rates as m victim rule: topk_scan.induct) (auto simp: Let_def split: if_splits option.splits)

lemma topk_scan_Some: "as \<noteq> [] \<or> victim \<noteq> None \<Longrightarrow> (victim = None \<longrightarrow> m = None) \<Longrightarrow> topk_scan rates as m victim \<noteq> None"
  by (induction rates as m victim rule: topk_scan.induct) (auto simp: Let_def)

lemma choose_eviction_ok:
  assumes "warm_ok c" and "warm c \<noteq> []"
  shows "\<exists>v. choose_eviction rates c = Inr (Some v) \<and> v \<in> fst ` set (warm c)"
proof -
  have hd: "fst (hd (warm c)) \<in> fst ` set (warm c)" using assms(2) by simp
  have topk: "\<exists>v. topk_scan r (dict_keys (warm c)) None None = Some v \<and> v \<in> fst ` set (warm c)" for r
    using topk_scan_Some [of "dict_keys (warm c)" None None r] assms(2)
      topk_scan_member [of r "dict_keys (warm c)" None None] by fastforce
  have pred: "\<exists>v. get_eviction_target P r (fst ` set (warm c)) None = Some v \<and> v \<in> fst ` set (warm c)" for P r
    using eviction_target_Some [of "fst ` set (warm c)" P r None] assms(2)
      eviction_target_min(1) [of "fst ` set (warm c)" P r None] by auto
  have "policy c = ''predictive'' \<Longrightarrow> \<exists>P. predictor_init (tau_load_ms c) (1/10) = Inr P"
    using assms(1) by (simp add: warm_ok_def predictor_init_def Let_def)
  then show ?thesis
    using assms(2) hd topk pred by (auto simp: choose_eviction_def Let_def split: option.splits list.splits)
qed

lemma load_adapter_ok:
  assumes ok: "warm_ok c" and new: "a \<notin> fst ` set (warm c)"
  shows "\<exists>c'. load_adapter a t rates c = Inr c' \<and> warm_ok c' \<and> k_warm_max c' = k_warm_max c \<and>
    a \<in> fst ` set (warm c') \<and> fst ` set (warm c') \<subseteq> insert a (fst ` set (warm c)) \<and>
    fst (last (warm c')) = a \<and> total_requests c' = total_requests c \<and> total_hits c' = total_hits c \<and>
    total_misses c' = total_misses c"
proof (cases "int (length (warm c)) \<ge> k_warm_max c")
  case True
  then have "warm c \<noteq> []" using ok by (auto simp: warm_ok_def)
  then obtain v where v: "choose_eviction rates c = Inr (Some v)" "v \<in> fst ` set (warm c)"
    using choose_eviction_ok [OF ok] by blast
  let ?w = "dict_pop v (warm c)"
  have na: "a \<notin> fst ` set ?w" using new by simp
  have la: "length ?w = length (warm c) - 1"
    using ok v(2) by (intro length_dict_pop) (auto simp: warm_ok_def)
  have pa: "dict_pop a ?w = ?w" using na by (simp add: dict_pop_def)
  have "load_adapter a t rates c =
      Inr (c\<lparr>warm := ?w @ [(a, t)], total_evictions := total_evictions c + 1\<rparr>)"
    using True v(1) by (simp add: load_adapter_def pa)
  moreover have "fst ` set (?w @ [(a, t)]) \<subseteq> insert a (fst ` set (warm c))" by auto
  ultimately show ?thesis
    using ok na la \<open>warm c \<noteq> []\<close> by (simp add: warm_ok_def)
next
  case False
  have pa: "dict_pop a (warm c) = warm c" using new by (simp add: dict_pop_def)
  have "load_adapter a t rates c = Inr (c\<lparr>warm := warm c @ [(a, t)]\<rparr>)"
    using False by (simp add: load_adapter_def pa)
  then show ?thesis using ok new False by (simp add: warm_ok_def)
qed

definition insert_warm :: "real \<times> ('a, real) dict option \<Rightarrow> 'a :: linorder \<Rightarrow> 'a cache \<Rightarrow> 'a cache" where
  "insert_warm v a c = (case load_adapter a (fst v) (snd v) c of Inr c' \<Rightarrow> c' | Inl e \<Rightarrow> c)"

interpretation warm_set: bounded_cache "\<lambda>c. dict_keys (warm c)" "\<lambda>c. nat (k_warm_max c)" insert_warm
    "warm_ok :: 'a :: linorder cache \<Rightarrow> bool"
proof
  fix c :: "'a cache" and a v
  show "warm_ok c \<Longrightarrow> length (dict_keys (warm c)) \<le> nat (k_warm_max c) \<and> distinct (dict_keys (warm c))"
    by (simp add: warm_ok_def le_nat_iff)
  assume "warm_ok c" "a \<notin> set (dict_keys (warm c))"
  then obtain c' where "load_adapter a (fst v) (snd v) c = Inr c'" "warm_ok c'" "k_warm_max c' = k_warm_max c"
      "a \<in> fst ` set (warm c')" "fst ` set (warm c') \<subseteq> insert a (fst ` set (warm c))"
    using load_adapter_ok [of c a "fst v" "snd v"] by auto
  then show "warm_ok (insert_warm v a c)"
    "nat (k_warm_max (insert_warm v a c)) = nat (k_warm_max c)"
    "a \<in> set (dict_keys (warm (insert_warm v a c))) \<and>
     set (dict_keys (warm (insert_warm v a c))) \<subseteq> insert a (set (dict_keys (warm c)))"
    by (simp_all add: insert_warm_def)
qed

text \<open>Histories of requests and prefetches.\<close>

datatype 'a cache_op = Request_op 'a real "('a, real) dict option" | Prefetch_op 'a real "('a, real) dict option"

fun cache_step :: "'a :: linorder cache_op \<Rightarrow> 'a cache \<Rightarrow> 'a cache" where
  "cache_step (Request_op a t r) c = snd (cache_request a t r c)"
| "cache_step (Prefetch_op a t r) c = snd (cache_prefetch a t r c)"

fun cache_run :: "'a :: linorder cache_op list \<Rightarrow> 'a cache \<Rightarrow> 'a cache" where
  "cache_run [] c = c"
| "cache_run (x # xs) c = cache_run xs (cache_step x c)"

fun op_key :: "'a cache_op \<Rightarrow> 'a" where
  "op_key (Request_op a t r) = a"
| "op_key (Prefetch_op a t r) = a"

fun is_request :: "'a cache_op \<Rightarrow> bool" where
  "is_request (Request_op a t r) = True"
| "is_request (Prefetch_op a t r) = False"

lemma warm_ok_frame:
  "warm c' = warm c \<Longrightarrow> k_warm_max c' = k_warm_max c \<Longrightarrow> policy c' = policy c \<Longrightarrow>
   tau_load_ms c' = tau_load_ms c \<Longrightarrow> warm_ok c \<Longrightarrow> warm_ok c'"
  by (simp add: warm_ok_def)

lemma cache_step_ok:
  assumes ok: "warm_ok c"
  shows "warm_ok (cache_step x c) \<and> k_warm_max (cache_step x c) = k_warm_max c \<and>
    op_key x \<in> fst ` set (warm (cache_step x c)) \<and>
    fst ` set (warm (cache_step x c)) \<subseteq> insert (op_key x) (fst ` set (warm c)) \<and>
    total_requests (cache_step x c) = total_requests c + (if is_request x then 1 else 0) \<and>
    total_hits (cache_step x c) = total_hits c + (if is_request x \<and> is_warm c (op_key x) then 1 else 0) \<and>
    total_misses (cache_step x c) = total_misses c + (if is_request x \<and> \<not> is_warm c (op_key x) then 1 else 0)"
proof (cases x)
  case (Request_op a t r)
  define c1 where "c1 = c\<lparr>total_requests := total_requests c + 1, hits := dict_setdefault a 0 (hits c),
                 misses := dict_setdefault a 0 (misses c),
                 cold_start_ms_total := dict_setdefault a 0 (cold_start_ms_total c)\<rparr>"
  show ?thesis
  proof (cases "a \<in> fst ` set (warm c)")
    case True
    have d: "dict_ok (warm c)" using ok by (simp add: warm_ok_def)
    note mv = move_to_end [OF d True, of t]
    have "cache_step x c = c1\<lparr>warm := dict_pop a (warm c) @ [(a, t)],
        hits := dict_set a (dict_get (hits c1) a 0 + 1) (hits c1), total_hits := total_hits c + 1\<rparr>"
      using True Request_op by (simp add: cache_request_def c1_def dict_has_iff)
    then show ?thesis
      using ok mv Request_op True by (simp add: warm_ok_def c1_def is_warm_def dict_has_iff)
  next
    case False
    define c2 where "c2 = c1\<lparr>misses := dict_set a (dict_get (misses c1) a 0 + 1) (misses c1),
                       total_misses := total_misses c1 + 1,
                       cold_start_ms_total :=
                         dict_set a (dict_get (cold_start_ms_total c1) a 0 + tau_load_ms c1) (cold_start_ms_total c1)\<rparr>"
    have c2: "warm c2 = warm c" "k_warm_max c2 = k_warm_max c" "policy c2 = policy c" "tau_load_ms c2 = tau_load_ms c"
        "total_requests c2 = total_requests c + 1" "total_hits c2 = total_hits c" "total_misses c2 = total_misses c + 1"
      by (simp_all add: c2_def c1_def)
    have "warm_ok c2" using warm_ok_frame [OF c2(1-4) ok] .
    moreover have "a \<notin> fst ` set (warm c2)" using False c2 by simp
    ultimately obtain c' where c': "load_adapter a t r c2 = Inr c'" "warm_ok c'" "k_warm_max c' = k_warm_max c2"
        "a \<in> fst ` set (warm c')" "fst ` set (warm c') \<subseteq> insert a (fst ` set (warm c2))"
        "total_requests c' = total_requests c2" "total_hits c' = total_hits c2" "total_misses c' = total_misses c2"
      using load_adapter_ok [of c2 a t r] by auto
    have "cache_step x c = snd (case load_adapter a t r c2 of Inl e \<Rightarrow> (Inl e, c2) | Inr c3 \<Rightarrow> (Inr (False, tau_load_ms c2), c3))"
    proof -
      have nh: "dict_has (warm c1) a = False" using False by (simp add: c1_def dict_has_iff)
      show ?thesis
        by (simp only: Request_op cache_step.simps cache_request_def Let_def c1_def [symmetric]
            c2_def [symmetric] nh if_False)
    qed
    then have "cache_step x c = c'" using c'(1) by simp
    then show ?thesis using c' c2 Request_op False by (simp add: is_warm_def dict_has_iff)
  qed
next
  case (Prefetch_op a t r)
  show ?thesis
  proof (cases "a \<in> fst ` set (warm c)")
    case True
    then show ?thesis using ok Prefetch_op by (auto simp: cache_prefetch_def dict_has_iff)
  next
    case False
    obtain c' where "load_adapter a t r c = Inr c'" "warm_ok c'" "k_warm_max c' = k_warm_max c"
        "a \<in> fst ` set (warm c')" "fst ` set (warm c') \<subseteq> insert a (fst ` set (warm c))"
        "total_requests c' = total_requests c" "total_hits c' = total_hits c" "total_misses c' = total_misses c"
      using load_adapter_ok [OF ok False, of t r] by auto
    then show ?thesis using False Prefetch_op by (simp add: cache_prefetch_def dict_has_iff)
  qed
qed

lemma cache_run_append: "cache_run (xs @ ys) c = cache_run ys (cache_run xs c)"
  by (induction xs arbitrary: c) auto

lemma cache_run_ok:
  "warm_ok c \<Longrightarrow> warm_ok (cache_run xs c) \<and> k_warm_max (cache_run xs c) = k_warm_max c \<and>
   total_requests (cache_run xs c) = total_requests c + length (filter is_request xs) \<and>
   total_hits (cache_run xs c) + total_misses (cache_run xs c) =
     total_hits c + total_misses c + length (filter is_request xs)"
proof (induction xs arbitrary: c)
  case (Cons x xs)
  then show ?case using cache_step_ok [OF Cons.prems, of x] Cons.IH [of "cache_step x c"] by auto
qed simp

text \<open>C24: Under every eviction policy and for every history of requests and prefetches, the warm set
  never exceeds the configured capacity, holds no adapter twice, always contains the adapter
  just requested, and counts each request as exactly one hit or miss, so the hit rate is a
  fraction of the requests.\<close>

theorem warm_cache_is_bounded_and_counts:
  assumes "cache_init k tau pol = Inr c" and "pol = ''predictive'' \<longrightarrow> 0 < tau"
    and c'_def: "c' = cache_run (xs @ [x]) c"
  shows "int (n_warm c') \<le> k \<and> dict_ok (warm c') \<and> is_warm c' (op_key x) \<and>
    total_requests c' = length (filter is_request (xs @ [x])) \<and>
    total_hits c' + total_misses c' = total_requests c' \<and> 0 \<le> hit_rate c' \<and> hit_rate c' \<le> 1"
proof -
  have ok: "warm_ok c" and c: "k_warm_max c = k" "total_requests c = 0" "total_hits c = 0" "total_misses c = 0"
    using assms(1,2) by (auto simp: cache_init_def warm_ok_def split: if_splits)
  note all = cache_run_ok [OF ok, of "xs @ [x]"]
  have "warm_ok (cache_run xs c)" using cache_run_ok [OF ok] by blast
  from cache_step_ok [OF this, of x] have "is_warm c' (op_key x)"
    by (simp add: c'_def cache_run_append is_warm_def dict_has_iff)
  moreover have "int (n_warm c') \<le> k" "dict_ok (warm c')"
    using warm_set.ok_bounded [of c'] all c by (auto simp: c'_def n_warm_def le_nat_iff warm_ok_def)
  ultimately show ?thesis using all c by (simp add: c'_def hit_rate_def divide_le_eq)
qed

theorem warm_cache_is_bounded_and_counts_witness:
  "\<exists>c. cache_init 1 100 ''lru'' = Inr c \<and>
    int (n_warm (cache_run ([Request_op (1 :: int) 0 None] @ [Request_op 2 1 None]) c)) \<le> 1 \<and>
    is_warm (cache_run ([Request_op 1 0 None] @ [Request_op 2 1 None]) c) 2"
proof -
  obtain c :: "int cache" where c: "cache_init 1 100 ''lru'' = Inr c" by (simp add: cache_init_def)
  show ?thesis
    using warm_cache_is_bounded_and_counts [OF c _ refl, of "[Request_op 1 0 None]" "Request_op 2 1 None"] c by auto
qed

end
