(* ===== verification/SchedState.thy ===== *)
theory SchedState
  imports BufferTrace Dispatch Control Metrics Wgkp Apt L3 Prefetch
begin

text \<open>
  \<^verbatim>\<open>integrations/vllm_scheduler.py\<close>, the data: the environment variables and how they are
  parsed, the sequence groups the engine hands over, and the state of
  \<open>AlignmentAwareScheduler\<close> with its constructor.
\<close>

subsection \<open>Environment variables\<close>

text \<open>Python's \<open>int(s)\<close>: blanks around, a sign, decimal digits with single underscores between.\<close>

definition py_blank :: "char \<Rightarrow> bool" where
  "py_blank c \<longleftrightarrow> c \<in> {CHR '' '', CHR 0x09, CHR 0x0A, CHR 0x0B, CHR 0x0C, CHR 0x0D}"

definition py_strip :: "string \<Rightarrow> string" where
  "py_strip s = rev (dropWhile py_blank (rev (dropWhile py_blank s)))"

fun parse_sign :: "string \<Rightarrow> int \<times> string" where
  "parse_sign [] = (1, [])"
| "parse_sign (c # cs) =
     (if c = CHR ''-'' then (- 1, cs) else if c = CHR ''+'' then (1, cs) else (1, c # cs))"

text \<open>A run of digits, from the left: its value, its number of digits, and what follows.\<close>

fun take_digits :: "string \<Rightarrow> int \<Rightarrow> nat \<Rightarrow> int \<times> nat \<times> string" where
  "take_digits [] v n = (v, n, [])"
| "take_digits (c # cs) v n =
     (case digit_value c of
        Some d \<Rightarrow> take_digits cs (10 * v + d) (n + 1)
      | None \<Rightarrow>
          (case cs of
             [] \<Rightarrow> (v, n, [c])
           | c' # cs' \<Rightarrow>
               if c = CHR ''_'' \<and> 0 < n then
                 (case digit_value c' of
                    Some d \<Rightarrow> take_digits cs' (10 * v + d) (n + 1)
                  | None \<Rightarrow> (v, n, c # c' # cs'))
               else (v, n, c # c' # cs')))"

definition py_int :: "string \<Rightarrow> int option" where
  "py_int s =
     (let (sg, r) = parse_sign (py_strip s); (v, n, rest) = take_digits r 0 0
      in if n = 0 \<or> rest \<noteq> [] then None else Some (sg * v))"

text \<open>
  Python's \<open>float(s)\<close> on decimal literals, as the exact real: digits with an optional point and
  an optional exponent. The special values \<open>inf\<close> and \<open>nan\<close> have no real number and are not
  modelled (they count as unparsable here).
\<close>

definition parse_exponent :: "string \<Rightarrow> int option" where
  "parse_exponent s =
     (case s of
        [] \<Rightarrow> Some 0
      | c # cs \<Rightarrow>
          if c = CHR ''e'' \<or> c = CHR ''E'' then
            (let (sg, r) = parse_sign cs; (v, n, rest) = take_digits r 0 0
             in if n = 0 \<or> rest \<noteq> [] then None else Some (sg * v))
          else None)"

definition py_float :: "string \<Rightarrow> real option" where
  "py_float s =
     (let (sg, r) = parse_sign (py_strip s);
          (whole, n, r1) = take_digits r 0 0;
          (frac, m, r2) = (case r1 of
              c # cs \<Rightarrow> if c = CHR ''.'' then take_digits cs 0 0 else (0, 0, r1)
            | [] \<Rightarrow> (0, 0, r1))
      in if n + m = 0 then None
         else map_option (\<lambda>e. of_int sg * (of_int whole + of_int frac / 10 ^ m) * 10 powi e)
                (parse_exponent r2))"

type_synonym environ = "(string, string) dict"

definition env_float :: "environ \<Rightarrow> string \<Rightarrow> real \<Rightarrow> real" where
  "env_float env name dflt =
     (case map_of env name of
        None \<Rightarrow> dflt
      | Some s \<Rightarrow> (case py_float s of Some x \<Rightarrow> x | None \<Rightarrow> dflt))"

definition env_int :: "environ \<Rightarrow> string \<Rightarrow> int \<Rightarrow> int" where
  "env_int env name dflt =
     (case map_of env name of
        None \<Rightarrow> dflt
      | Some s \<Rightarrow> (case py_int s of Some x \<Rightarrow> x | None \<Rightarrow> dflt))"

lemma env_default [simp]: "env_float [] n x = x" "env_int [] n i = i"
  by (simp_all add: env_float_def env_int_def)

subsection \<open>Sequence groups\<close>

datatype seq_status = WAITING | RUNNING | SWAPPED | FINISHED

record seq =
  sid :: int
  prompt_len :: nat
  seq_len :: nat
  seq_status :: seq_status

record lora_req =
  lora_name :: string
  lora_int_id :: int
  lora_path :: string

text \<open>
  \<open>obj_id\<close> is Python's \<open>id()\<close> of the group; \<open>stage_prefill\<close> is \<open>is_prefill()\<close>; the three times
  are those of \<open>sg.metrics\<close>.
\<close>

record seq_group =
  obj_id :: int
  request_id :: string
  seqs :: "seq list"
  lora_request :: "lora_req option"
  stage_prefill :: bool
  sg_finished :: bool
  max_tokens :: "nat option"
  arrival_time :: real
  first_scheduled_time :: "real option"
  first_token_time :: "real option"

record scheduled =
  seq_group :: seq_group
  token_chunk_size :: nat

record sched_out =
  scheduled_seq_groups :: "scheduled list"
  wgkp_segments :: "string segment list option"

definition seqs_with :: "seq_status \<Rightarrow> seq_group \<Rightarrow> seq list" where
  "seqs_with st sg = filter (\<lambda>s. seq_status s = st) (seqs sg)"

definition group_lora_id :: "seq_group \<Rightarrow> int" where
  "group_lora_id sg = (case lora_request sg of None \<Rightarrow> 0 | Some lr \<Rightarrow> lora_int_id lr)"

definition adapter_id_of :: "seq_group \<Rightarrow> string" where
  "adapter_id_of sg = (case lora_request sg of None \<Rightarrow> ''__base__'' | Some lr \<Rightarrow> lora_name lr)"

definition seq_group_id :: "seq_group \<Rightarrow> int" where
  "seq_group_id sg = (case seqs sg of [] \<Rightarrow> obj_id sg | s # _ \<Rightarrow> sid s)"

abbreviation group_adapter :: "scheduled \<Rightarrow> string" where
  "group_adapter ssg \<equiv> adapter_id_of (seq_group ssg)"

abbreviation group_id :: "scheduled \<Rightarrow> int" where
  "group_id ssg \<equiv> seq_group_id (seq_group ssg)"

subsection \<open>Logs\<close>

record token_record =
  tok_adapter :: string
  tok_arrival_ms :: real
  tok_seq :: int

text \<open>One line of the batch log; the fields a mode does not write are \<open>None\<close>.\<close>

record log_record =
  log_batch_id :: nat
  log_dispatch_time_ms :: real
  log_war :: real
  log_gwar :: "real option"
  log_promotion_fraction :: "real option"
  log_intensity :: real
  log_tokens :: "token_record list"
  log_cache :: "(string \<times> real \<times> real \<times> nat) option"

record request_record =
  rr_id :: string
  rr_lora :: int
  rr_arrival :: real
  rr_first_scheduled :: "real option"
  rr_first_token :: "real option"
  rr_out_tokens :: nat

subsection \<open>The scheduler\<close>

text \<open>
  What the scheduler calls outside this repository: scipy's incomplete gamma function and its
  inverse, numpy, Python's (salted) string hash, and the order in which a set of adapter names
  is iterated. \<open>vllm_available\<close> is \<open>_VLLM_AVAILABLE\<close>.
\<close>

record libs =
  gammainc :: "nat \<Rightarrow> real \<Rightarrow> real"
  gammaincinv :: "nat \<Rightarrow> real \<Rightarrow> real"
  lib_numpy :: numpy
  str_hash :: "string \<Rightarrow> int"
  set_order :: "string list \<Rightarrow> string list"
  vllm_available :: bool

record 'm sched =
  sched_mode :: string
  fixed_deadline :: bool
  war_target :: real
  ttft_slo_ms :: real
  sched_warp :: nat
  log_enabled :: bool
  kv_admission :: bool
  admit_grouped :: bool
  group_max_wait_s :: real
  rotate_after_s :: real
  draining :: "int set"
  call_count :: nat
  buffer :: "string abuf"
  batch_id :: nat
  t0_ms :: real
  metrics_file :: "log_record list option"
  req_metrics :: "request_record list option"
  sched_estimator :: "string estimator"
  pi_ctrl :: "pi_controller option"
  sched_cash :: cash
  cache_mgr :: "string cache option"
  cold_boost :: real
  pcie_min_deferral_s :: real
  cold_first_seen :: "(string, real) dict"
  post_aligned :: "int set"
  wgkp_dispatcher :: "dispatcher option"
  sched_apt :: "apt option"
  static_threshold :: int
  sched_k_hot :: int
  lora_info :: "(string, int \<times> string) dict"
  shared_mwc :: "'m mwc option"
  running :: "seq_group list"
  waiting :: "seq_group list"

text \<open>\<open>_init_wgkp_components\<close>: the dispatcher, \<open>AS_MWC_K_HOT\<close>, the run-time threshold and n*.\<close>

definition init_wgkp ::
  "environ \<Rightarrow> (string \<Rightarrow> profile option) \<Rightarrow> string \<Rightarrow> dispatcher \<times> int \<times> apt option \<times> int" where
  "init_wgkp env read default_path =
     (let hw = dict_get env ''AS_WGKP_HW_PROFILE'' []
      in (dispatcher_init, env_int env ''AS_MWC_K_HOT'' 5,
          if dict_get env ''AS_WGKP_APT'' ''0'' = ''1''
          then Some (apt_init (load_profile read hw default_path hw) (105/100) 100 32) else None,
          env_int env ''AS_WGKP_THRESHOLD'' 8))"

definition init_pi :: "environ \<Rightarrow> real \<Rightarrow> real \<Rightarrow> py_error + pi_controller" where
  "init_pi env target slo_ms =
     pi_init (env_float env ''AS_PI_KP'' (1/100)) (env_float env ''AS_PI_KI'' (1/1000)) target
       (env_float env ''AS_PI_TMAX_INIT_MS'' 18 / 1000) (1/1000) (slo_ms / 1000) (9/10) (1/5)"

definition init_cache :: "environ \<Rightarrow> py_error + string cache option" where
  "init_cache env =
     (let pol = dict_get env ''AS_PREFETCH_POLICY'' ''none''; k = env_int env ''AS_K_WARM'' 0
      in if pol \<noteq> ''none'' \<and> k > 0
         then (case cache_init k (env_float env ''AS_TAU_LOAD_MS'' (963/10))
                     (if pol \<in> {''lru'', ''predictive'', ''topk''} then pol else ''lru'') of
                 Inl e \<Rightarrow> Inl e | Inr c \<Rightarrow> Inr (Some c))
         else Inr None)"

text \<open>
  \<open>__init__\<close>: \<open>t0\<close> is \<open>time.perf_counter()\<close> in seconds. Exceptions of the constructors it calls
  (a weight outside (0, 1), non-positive gains) propagate. The warp size is a natural number: AS_WARP_SIZE is
  positive in every use, and a negative value, which the source would carry on with, is 0 here.
\<close>

definition scheduler_init ::
  "environ \<Rightarrow> (string \<Rightarrow> profile option) \<Rightarrow> string \<Rightarrow> 'm mwc option \<Rightarrow> real \<Rightarrow> py_error + 'm sched" where
  "scheduler_init env read default_path mwc t0 =
     (let tmax_ms = env_float env ''AS_TMAX_MS'' 5;
          slo_ms = env_float env ''AS_TTFT_SLO_MS'' 200;
          w = nat (env_int env ''AS_WARP_SIZE'' 32);
          md = dict_get env ''AS_MODE'' ''threshold'';
          target = env_float env ''AS_WAR_TARGET'' (4/5);
          alpha = env_float env ''AS_EWMA_ALPHA'' (1/10);
          buffer_tmax_ms = (if md = ''pi_adaptive'' then env_float env ''AS_PI_TMAX_INIT_MS'' 18 else tmax_ms);
          nonempty = (\<lambda>x. dict_get env x [] \<noteq> []);
          (disp, k_hot, ap, n_static) = init_wgkp env read default_path;
          wgkp_on = (md = ''wgkp'')
      in case estimator_init alpha 1 False 0 of
           Inl e \<Rightarrow> Inl e
         | Inr es \<Rightarrow>
             (case (if md = ''pi_adaptive'' then map_sum id Some (init_pi env target slo_ms) else Inr None) of
                Inl e \<Rightarrow> Inl e
              | Inr pic \<Rightarrow>
                  (case init_cache env of
                     Inl e \<Rightarrow> Inl e
                   | Inr cm \<Rightarrow>
                       Inr \<lparr>sched_mode = md, fixed_deadline = (dict_get env ''AS_DEADLINE'' ''erlang'' = ''fixed''),
                         war_target = target, ttft_slo_ms = slo_ms, sched_warp = w,
                         log_enabled = (dict_get env ''AS_LOG_WAR'' ''0'' = ''1''),
                         kv_admission = (dict_get env ''AS_KV_ADMISSION'' ''0'' = ''1''),
                         admit_grouped = (dict_get env ''AS_ADMIT_GROUPED'' ''0'' = ''1''),
                         group_max_wait_s = env_float env ''AS_GROUP_MAX_WAIT_S'' 30,
                         rotate_after_s = env_float env ''AS_ROTATE_AFTER_S'' 3, draining = {},
                         call_count = 0, buffer = buffer_init [] w buffer_tmax_ms slo_ms, batch_id = 0,
                         t0_ms = t0 * 1000,
                         metrics_file = (if nonempty ''AS_METRICS_PATH'' then Some [] else None),
                         req_metrics = (if nonempty ''AS_REQ_METRICS_PATH'' then Some [] else None),
                         sched_estimator = es, pi_ctrl = pic, sched_cash = \<lparr>cash_W = w\<rparr>, cache_mgr = cm,
                         cold_boost = env_float env ''AS_COLD_BOOST'' (5/2),
                         pcie_min_deferral_s = env_float env ''AS_PCIE_MIN_DEFERRAL_S'' 0,
                         cold_first_seen = [], post_aligned = {},
                         wgkp_dispatcher = (if wgkp_on then Some disp else None),
                         sched_apt = (if wgkp_on then ap else None), static_threshold = n_static,
                         sched_k_hot = k_hot, lora_info = [], shared_mwc = mwc, running = [],
                         waiting = []\<rparr>)))"

end
