(* ===== verification/SchedTick.thy ===== *)
theory SchedTick
  imports SchedState
begin

text \<open>
  \<^verbatim>\<open>integrations/vllm_scheduler.py\<close>, one scheduling tick: \<open>_schedule\<close> and the five
  \<open>_schedule_*_inner\<close> methods with every helper they call. The selection of the superclass,
  \<open>super()._schedule()\<close>, is an argument. An exception ends the tick: the result is a sum, and
  the state of a tick that raised is not kept.
\<close>

subsection \<open>Clock readings of a tick\<close>

record clock =
  enq_time :: "int \<Rightarrow> real"
  mono_time :: real
  form_time :: real
  cash_time :: real
  cold_time :: real
  cache_time :: "string \<Rightarrow> real"
  log_time :: real

subsection \<open>Splitting the selection\<close>

definition is_decode :: "scheduled \<Rightarrow> bool" where
  "is_decode ssg \<longleftrightarrow> \<not> stage_prefill (seq_group ssg) \<and>
     (let ss = seqs_with RUNNING (seq_group ssg)
      in if ss \<noteq> [] then list_all (\<lambda>s. prompt_len s < seq_len s) ss else False)"

definition split_groups :: "sched_out \<Rightarrow> scheduled list \<times> scheduled list" where
  "split_groups out =
     (filter (\<lambda>g. \<not> is_decode g) (scheduled_seq_groups out), filter is_decode (scheduled_seq_groups out))"

text \<open>The post-alignment groups, and the groups whose first decode token is still to come.\<close>

definition split_aligned :: "int set \<Rightarrow> scheduled list \<Rightarrow> scheduled list \<times> scheduled list" where
  "split_aligned A gs = (filter (\<lambda>g. group_id g \<in> A) gs, filter (\<lambda>g. group_id g \<notin> A) gs)"

fun enqueue_decode_groups ::
  "clock \<Rightarrow> scheduled list \<Rightarrow> (int, scheduled) dict \<times> string abuf \<Rightarrow> (int, scheduled) dict \<times> string abuf" where
  "enqueue_decode_groups clk [] (d, b) = (d, b)"
| "enqueue_decode_groups clk (g # gs) (d, b) =
     enqueue_decode_groups clk gs
       (dict_set (group_id g) g d, enqueue (group_adapter g) (group_id g) (enq_time clk (group_id g)) b)"

text \<open>The loop of the modes with a rate estimator: at most one rate update per adapter and tick.\<close>

record arrivals =
  by_seq :: "(int, scheduled) dict"
  arr_buffer :: "string abuf"
  arr_estimator :: "string estimator"
  updated_adapters :: "string list"

fun enqueue_arrivals :: "clock \<Rightarrow> scheduled list \<Rightarrow> arrivals \<Rightarrow> arrivals" where
  "enqueue_arrivals clk [] a = a"
| "enqueue_arrivals clk (g # gs) a =
     (let adapter = group_adapter g; s = group_id g;
          is_new_arrival = (\<not> is_buffered (arr_buffer a) s);
          a1 = a\<lparr>by_seq := dict_set s g (by_seq a), arr_buffer := enqueue adapter s (enq_time clk s) (arr_buffer a)\<rparr>;
          a2 = (if is_new_arrival \<and> adapter \<notin> set (updated_adapters a1)
                then a1\<lparr>arr_estimator := fst (estimator_update adapter (mono_time clk) (arr_estimator a1)),
                        updated_adapters := updated_adapters a1 @ [adapter]\<rparr>
                else a1)
      in enqueue_arrivals clk gs a2)"

text \<open>The dispatched tokens whose group is part of this tick; the others are dropped.\<close>

definition collect_aligned ::
  "(int, scheduled) dict \<Rightarrow> (string \<times> int) list \<Rightarrow> scheduled list \<times> int list" where
  "collect_aligned d pairs =
     (List.map_filter (\<lambda>(a, s). map_of d s) pairs, filter (dict_has d) (map snd pairs))"

definition adapter_order :: "scheduled list \<Rightarrow> scheduled list" where
  "adapter_order gs = sort_key group_adapter gs"

subsection \<open>Deadlines and visiting order\<close>

definition deadlines :: "libs \<Rightarrow> (string, real) dict \<Rightarrow> 'm sched \<Rightarrow> (string, real) dict" where
  "deadlines L rates st =
     (if fixed_deadline st
      then dict_of (\<lambda>_. t_max (buffer st)) (dict_keys (queues (buffer st)) @ dict_keys rates) []
      else compute_tmax_erlang_batch (gammaincinv L) (sched_warp st) rates (war_target st) (ttft_slo_ms st))"

fun record_requests ::
  "clock \<Rightarrow> (string, real) dict \<Rightarrow> string list \<Rightarrow> string cache \<Rightarrow> py_error + string cache" where
  "record_requests clk rates [] c = Inr c"
| "record_requests clk rates (a # as) c =
     (case cache_request a (cache_time clk a) (Some rates) c of
        (Inl e, _) \<Rightarrow> Inl e
      | (Inr _, c') \<Rightarrow> record_requests clk rates as c')"

definition update_prefetch_cache ::
  "libs \<Rightarrow> clock \<Rightarrow> (string, real) dict \<Rightarrow> string list \<Rightarrow> string cache option \<Rightarrow> py_error + string cache option" where
  "update_prefetch_cache L clk rates new_arrivals cm =
     (case cm of
        None \<Rightarrow> Inr None
      | Some c \<Rightarrow> map_sum id Some (record_requests clk rates (set_order L new_arrivals) c))"

text \<open>One adapter of \<open>_penalize_cold\<close>; the cold-since dict is threaded.\<close>

definition penalize_one ::
  "string set \<Rightarrow> real \<Rightarrow> real \<Rightarrow> real \<Rightarrow> string \<Rightarrow> real \<Rightarrow> (string, real) dict \<Rightarrow>
   py_error + real \<times> (string, real) dict" where
  "penalize_one ws t_now deferral boost a score_a seen =
     (if a \<in> ws then Inr (score_a, dict_pop a seen)
      else if deferral > 0 then
        (case map_of seen a of
           None \<Rightarrow> Inr (0, dict_set a t_now seen)
         | Some first \<Rightarrow>
             if t_now - first < deferral
             then (if boost = 0 then Inl ZeroDivisionError else Inr (score_a / boost, seen))
             else Inr (score_a, seen))
      else if boost = 0 then Inl ZeroDivisionError else Inr (score_a / boost, seen))"

fun penalize_loop ::
  "string set \<Rightarrow> real \<Rightarrow> real \<Rightarrow> real \<Rightarrow> (string, real) dict \<Rightarrow> (string, real) dict \<Rightarrow> (string, real) dict \<Rightarrow>
   py_error + (string, real) dict \<times> (string, real) dict" where
  "penalize_loop ws t_now deferral boost [] penalized seen = Inr (penalized, seen)"
| "penalize_loop ws t_now deferral boost ((a, score_a) # scores) penalized seen =
     (case penalize_one ws t_now deferral boost a score_a seen of
        Inl e \<Rightarrow> Inl e
      | Inr (v, seen') \<Rightarrow> penalize_loop ws t_now deferral boost scores (dict_set a v penalized) seen')"

definition penalize_cold ::
  "clock \<Rightarrow> (string, real) dict \<Rightarrow> 'm sched \<Rightarrow> py_error + (string, real) dict \<times> (string, real) dict" where
  "penalize_cold clk scores st =
     (case cache_mgr st of
        None \<Rightarrow> Inr (scores, cold_first_seen st)
      | Some c \<Rightarrow> penalize_loop (warm_set c) (cold_time clk) (pcie_min_deferral_s st) (cold_boost st)
                    scores [] (cold_first_seen st))"

definition cash_scores ::
  "libs \<Rightarrow> clock \<Rightarrow> (string, real) dict \<Rightarrow> (string, real) dict \<Rightarrow> 'm sched \<Rightarrow> (string, real) dict" where
  "cash_scores L clk tmax_k rates st =
     (let pending = pending_count (buffer st);
          slo = ttft_slo_ms st / 1000;
          ages = [(k, cash_time clk - t). (k, Some t) \<leftarrow> enqueue_time (buffer st)];
          dls = dict_of (\<lambda>k. min (dict_get tmax_k k slo) slo) (dict_keys pending) []
      in compute_indices (gammainc L) (sched_cash st) pending ages rates dls)"

definition cash_order ::
  "libs \<Rightarrow> clock \<Rightarrow> (string, real) dict \<Rightarrow> (string, real) dict \<Rightarrow> 'm sched \<Rightarrow>
   py_error + string list \<times> (string, real) dict" where
  "cash_order L clk tmax_k rates st =
     (case penalize_cold clk (cash_scores L clk tmax_k rates st) st of
        Inl e \<Rightarrow> Inl e
      | Inr (scores, seen) \<Rightarrow> Inr (rank scores, seen))"

definition boosted_deadlines :: "string cache \<Rightarrow> real \<Rightarrow> real \<Rightarrow> (string, real) dict \<Rightarrow> (string, real) dict" where
  "boosted_deadlines c boost slo_s tmax_k =
     map (\<lambda>(a, tmax_s). (a, if \<not> is_warm c a then min (tmax_s * boost) slo_s else tmax_s)) tmax_k"

definition apply_cold_start_boost ::
  "libs \<Rightarrow> clock \<Rightarrow> (string, real) dict \<Rightarrow> (string, real) dict \<Rightarrow> string list \<Rightarrow> 'm sched \<Rightarrow>
   py_error + (string, real) dict \<times> string cache option" where
  "apply_cold_start_boost L clk tmax_k rates new_arrivals st =
     (case update_prefetch_cache L clk rates new_arrivals (cache_mgr st) of
        Inl e \<Rightarrow> Inl e
      | Inr None \<Rightarrow> Inr (tmax_k, None)
      | Inr (Some c) \<Rightarrow> Inr (boosted_deadlines c (cold_boost st) (ttft_slo_ms st / 1000) tmax_k, Some c))"

subsection \<open>The batch log\<close>

definition last_part :: "string \<Rightarrow> string" where
  "last_part a = rev (takeWhile (\<lambda>c. c \<noteq> CHR ''_'') (rev a))"

definition adapter_id_to_int :: "libs \<Rightarrow> string \<Rightarrow> int" where
  "adapter_id_to_int L a = (case py_int (last_part a) of Some n \<Rightarrow> n | None \<Rightarrow> str_hash L a mod 2 ^ 31)"

text \<open>The token records; each token's enqueue record is popped from the buffer.\<close>

fun token_records ::
  "real \<Rightarrow> real \<Rightarrow> scheduled list \<Rightarrow> string abuf \<Rightarrow> token_record list \<times> string abuf" where
  "token_records t0 now_ms [] b = ([], b)"
| "token_records t0 now_ms (g # gs) b =
     (let s = group_id g;
          arrival = (case map_of (seq_enqueue b) s of
                       Some t \<Rightarrow> py_round_to 3 (t * 1000 - t0) | None \<Rightarrow> py_round_to 3 now_ms);
          (rs, b') = token_records t0 now_ms gs (release s b)
      in (\<lparr>tok_adapter = group_adapter g, tok_arrival_ms = arrival, tok_seq = s\<rparr> # rs, b'))"

definition append_record ::
  "clock \<Rightarrow> real \<Rightarrow> real option \<Rightarrow> real option \<Rightarrow> (string \<times> real \<times> real \<times> nat) option \<Rightarrow>
   scheduled list \<Rightarrow> 'm sched \<Rightarrow> 'm sched" where
  "append_record clk war gwar promo cache_fields batch st =
     (case metrics_file st of
        None \<Rightarrow> st
      | Some lines \<Rightarrow>
          (let now_ms = log_time clk * 1000 - t0_ms st;
               (toks, b) = token_records (t0_ms st) now_ms batch (buffer st);
               n_adapters = length (remdups (map group_adapter batch));
               r = \<lparr>log_batch_id = batch_id st, log_dispatch_time_ms = py_round_to 3 now_ms,
                     log_war = py_round_to 6 war, log_gwar = gwar, log_promotion_fraction = promo,
                     log_intensity = py_round_to 4 (real (length batch) / real (max 1 n_adapters)),
                     log_tokens = toks, log_cache = cache_fields\<rparr>
           in st\<lparr>buffer := b, metrics_file := Some (lines @ [r]), batch_id := batch_id st + 1\<rparr>))"

definition batch_ids :: "libs \<Rightarrow> scheduled list \<Rightarrow> int list" where
  "batch_ids L batch = map (\<lambda>g. adapter_id_to_int L (group_adapter g)) batch"

definition log_war_stats ::
  "libs \<Rightarrow> clock \<Rightarrow> scheduled list \<Rightarrow> 'm sched \<Rightarrow> py_error + 'm sched" where
  "log_war_stats L clk batch st =
     (case compute_war_from_ids (lib_numpy L) (batch_ids L batch) (warp (buffer st)) of
        Inl e \<Rightarrow> Inl e
      | Inr war \<Rightarrow>
          Inr (append_record clk war None None
                 (map_option (\<lambda>c. let s = cache_stats_of c in
                    (cs_policy s, py_round_to 4 (cs_hit_rate s), py_round_to 4 (cs_cold_fraction s), cs_n_warm s))
                    (cache_mgr st)) batch st))"

definition log_war_stats_wgkp ::
  "libs \<Rightarrow> clock \<Rightarrow> int \<Rightarrow> scheduled list \<Rightarrow> 'm sched \<Rightarrow> py_error + 'm sched" where
  "log_war_stats_wgkp L clk n_prom batch st =
     (case compute_war_from_ids (lib_numpy L) (batch_ids L batch) (warp (buffer st)) of
        Inl e \<Rightarrow> Inl e
      | Inr war \<Rightarrow>
          Inr (append_record clk war (Some (py_round_to 6 (compute_gwar (batch_ids L batch) n_prom)))
                 (Some (py_round_to 4 (case wgkp_dispatcher st of
                    None \<Rightarrow> 0 | Some d \<Rightarrow> promotion_fraction d))) None batch st))"

subsection \<open>The modes\<close>

text \<open>What every mode does with the dispatched tokens.\<close>

definition emit ::
  "scheduled list \<Rightarrow> scheduled list \<Rightarrow> scheduled list \<Rightarrow> sched_out \<Rightarrow> sched_out" where
  "emit pre post aligned out = out\<lparr>scheduled_seq_groups := pre @ adapter_order post @ aligned\<rparr>"

definition log_if ::
  "bool \<Rightarrow> ('m sched \<Rightarrow> py_error + 'm sched) \<Rightarrow> 'm sched \<Rightarrow> sched_out \<Rightarrow> py_error + 'm sched \<times> sched_out" where
  "log_if on f st out =
     (if on then (case f st of Inl e \<Rightarrow> Inl e | Inr st' \<Rightarrow> Inr (st', out)) else Inr (st, out))"

definition schedule_threshold ::
  "libs \<Rightarrow> clock \<Rightarrow> sched_out \<Rightarrow> 'm sched \<Rightarrow> py_error + 'm sched \<times> sched_out" where
  "schedule_threshold L clk out st =
     (if \<not> vllm_available L then Inr (st, out)
      else let (pre, dec) = split_groups out in
        if dec = [] then Inr (st, out)
        else let (post, firsts) = split_aligned (post_aligned st) dec;
                 (d, b1) = enqueue_decode_groups clk firsts ([], buffer st);
                 (b2, pairs) = form_batch (Some (length dec)) (form_time clk) b1;
                 (aligned, ids) = collect_aligned d pairs;
                 st1 = st\<lparr>buffer := b2, post_aligned := post_aligned st \<union> set ids\<rparr>
          in log_if (log_enabled st) (log_war_stats L clk (adapter_order post @ aligned)) st1
               (emit pre post aligned out))"

definition running_ids :: "'m sched \<Rightarrow> int set" where
  "running_ids st = (\<Union>sg\<in>set (running st). sid ` set (seqs sg))"

text \<open>The PI update of a tick; the controller exists exactly in this mode.\<close>

definition pi_adapt ::
  "libs \<Rightarrow> scheduled list \<Rightarrow> 'm sched \<Rightarrow> py_error + 'm sched" where
  "pi_adapt L all_decode st =
     (if all_decode = [] then Inr st
      else case compute_war_from_ids (lib_numpy L) (batch_ids L all_decode) (warp (buffer st)) of
             Inl e \<Rightarrow> Inl e
           | Inr war_obs \<Rightarrow>
               (case pi_ctrl st of
                  None \<Rightarrow> Inl AttributeError
                | Some c \<Rightarrow>
                    (let (c', tmax) = pi_update war_obs c
                     in Inr (st\<lparr>pi_ctrl := Some c', buffer := (buffer st)\<lparr>t_max := tmax\<rparr>\<rparr>))))"

definition schedule_pi_adaptive ::
  "libs \<Rightarrow> clock \<Rightarrow> sched_out \<Rightarrow> 'm sched \<Rightarrow> py_error + 'm sched \<times> sched_out" where
  "schedule_pi_adaptive L clk out st =
     (if \<not> vllm_available L then Inr (st, out)
      else let (pre, dec) = split_groups out in
        if dec = [] then Inr (st, out)
        else let (post, firsts) = split_aligned (post_aligned st) dec;
                 (d, b1) = enqueue_decode_groups clk firsts ([], buffer st);
                 (b2, pairs) = form_batch (Some (length dec)) (form_time clk) b1;
                 (aligned, ids) = collect_aligned d pairs;
                 all_decode = adapter_order post @ aligned
          in case pi_adapt L all_decode (st\<lparr>buffer := b2, post_aligned := post_aligned st \<union> set ids\<rparr>) of
               Inl e \<Rightarrow> Inl e
             | Inr st1 \<Rightarrow>
                 (let st2 = (if call_count st1 mod 50000 = 0
                             then st1\<lparr>post_aligned := post_aligned st1 \<inter> running_ids st1\<rparr> else st1)
                  in log_if (log_enabled st) (log_war_stats L clk all_decode) st2
                       (emit pre post aligned out)))"

definition start_arrivals :: "'m sched \<Rightarrow> arrivals" where
  "start_arrivals st = \<lparr>by_seq = [], arr_buffer = buffer st, arr_estimator = sched_estimator st,
     updated_adapters = []\<rparr>"

definition schedule_erlang ::
  "libs \<Rightarrow> clock \<Rightarrow> sched_out \<Rightarrow> 'm sched \<Rightarrow> py_error + 'm sched \<times> sched_out" where
  "schedule_erlang L clk out st =
     (if \<not> vllm_available L then Inr (st, out)
      else let (pre, dec) = split_groups out in
        if dec = [] then Inr (st, out)
        else let (post, firsts) = split_aligned (post_aligned st) dec;
                 a = enqueue_arrivals clk firsts (start_arrivals st);
                 st1 = st\<lparr>buffer := arr_buffer a, sched_estimator := arr_estimator a\<rparr>;
                 rates = get_all_rates (sched_estimator st1)
          in case apply_cold_start_boost L clk (deadlines L rates st1) rates (updated_adapters a) st1 of
               Inl e \<Rightarrow> Inl e
             | Inr (tmax_k, cm) \<Rightarrow>
                 (let (b2, pairs) = form_batch_erlang tmax_k (Some (length dec)) (form_time clk) (buffer st1);
                      (aligned, ids) = collect_aligned (by_seq a) pairs;
                      st2 = st1\<lparr>cache_mgr := cm, buffer := b2, post_aligned := post_aligned st1 \<union> set ids\<rparr>
                  in log_if (log_enabled st) (log_war_stats L clk (adapter_order post @ aligned)) st2
                       (emit pre post aligned out)))"

definition schedule_cash ::
  "libs \<Rightarrow> clock \<Rightarrow> sched_out \<Rightarrow> 'm sched \<Rightarrow> py_error + 'm sched \<times> sched_out" where
  "schedule_cash L clk out st =
     (if \<not> vllm_available L then Inr (st, out)
      else let (pre, dec) = split_groups out in
        if dec = [] then Inr (st, out)
        else let (post, firsts) = split_aligned (post_aligned st) dec;
                 a = enqueue_arrivals clk firsts (start_arrivals st);
                 st1 = st\<lparr>buffer := arr_buffer a, sched_estimator := arr_estimator a\<rparr>;
                 rates = get_all_rates (sched_estimator st1);
                 tmax_k = deadlines L rates st1
          in case update_prefetch_cache L clk rates (updated_adapters a) (cache_mgr st1) of
               Inl e \<Rightarrow> Inl e
             | Inr cm \<Rightarrow>
                 (let st2 = st1\<lparr>cache_mgr := cm\<rparr> in
                  case cash_order L clk tmax_k rates st2 of
                    Inl e \<Rightarrow> Inl e
                  | Inr (ranked, seen) \<Rightarrow>
                      (let (b2, pairs) = form_batch_cash ranked tmax_k (Some (length dec)) (form_time clk) (buffer st2);
                           (aligned, ids) = collect_aligned (by_seq a) pairs;
                           st3 = st2\<lparr>cold_first_seen := seen, buffer := b2,
                                     post_aligned := post_aligned st2 \<union> set ids\<rparr>
                       in log_if (log_enabled st) (log_war_stats L clk (adapter_order post @ aligned)) st3
                            (emit pre post aligned out))))"

subsection \<open>WGKP mode\<close>

text \<open>\<open>xs[:n]\<close> for any integer \<open>n\<close>.\<close>

definition py_prefix :: "int \<Rightarrow> 'x list \<Rightarrow> 'x list" where
  "py_prefix n xs = (if 0 \<le> n then take (nat n) xs else take (length xs - nat (- n)) xs)"

fun request_loop ::
  "(string, int \<times> string) dict \<Rightarrow> (string, nat) dict \<Rightarrow> int \<Rightarrow> string list \<Rightarrow> 'm mwc \<Rightarrow> 'm mwc" where
  "request_loop info pending n_prom [] m = m"
| "request_loop info pending n_prom (a # as) m =
     request_loop info pending n_prom as
       (case map_of info a of
          None \<Rightarrow> m
        | Some (lid, path) \<Rightarrow>
            if int (dict_get pending a 0) \<ge> (n_prom + 1) div 2 then snd (request lid m) else m)"

definition request_merges ::
  "(string, nat) dict \<Rightarrow> (string, real) dict \<Rightarrow> int \<Rightarrow> 'm sched \<Rightarrow> 'm mwc \<Rightarrow> 'm mwc" where
  "request_merges pending rates n_prom st m =
     request_loop (lora_info st) pending n_prom
       (py_prefix (sched_k_hot st) (sort_desc (\<lambda>a. dict_get rates a 0) (dict_keys rates))) m"

definition current_n_star :: "'m sched \<Rightarrow> int" where
  "current_n_star st = (case sched_apt st of Some a \<Rightarrow> current_threshold a | None \<Rightarrow> static_threshold st)"

fun note_loras :: "scheduled list \<Rightarrow> (string, int \<times> string) dict \<Rightarrow> (string, int \<times> string) dict" where
  "note_loras [] info = info"
| "note_loras (g # gs) info =
     note_loras gs
       (case lora_request (seq_group g) of
          None \<Rightarrow> info
        | Some lr \<Rightarrow> if dict_has info (group_adapter g) then info
                     else dict_set (group_adapter g) (lora_int_id lr, lora_path lr) info)"

text \<open>\<open>release\<close> for every sequence of a set.\<close>

definition release_set :: "int set \<Rightarrow> 'a abuf \<Rightarrow> 'a abuf" where
  "release_set S b = b\<lparr>seq_enqueue := filter (\<lambda>(s, t). s \<notin> S) (seq_enqueue b)\<rparr>"

text \<open>\<open>_drain_buffer_remaining\<close>.\<close>

fun drain_remaining :: "scheduled list \<Rightarrow> int set \<Rightarrow> string abuf \<Rightarrow> scheduled list \<times> string abuf" where
  "drain_remaining [] done_ids b = ([], b)"
| "drain_remaining (g # gs) done_ids b =
     (if group_id g \<in> done_ids then drain_remaining gs done_ids b
      else let k = group_adapter g;
               b1 = (case map_of (queues b) k of
                       None \<Rightarrow> b
                     | Some q \<Rightarrow>
                         (let q' = filter (\<lambda>(s, t). s \<noteq> group_id g) q;
                              b' = b\<lparr>queues := dict_set k q' (queues b)\<rparr>
                          in if q' = [] then b'\<lparr>enqueue_time := dict_set k None (enqueue_time b')\<rparr> else b'));
               (rest, b2) = drain_remaining gs done_ids b1
           in (g # rest, b2))"

text \<open>L3: request merges and collect the adapters whose merged weights are resident.\<close>

definition l3_step ::
  "(string, nat) dict \<Rightarrow> (string, real) dict \<Rightarrow> int \<Rightarrow> 'm sched \<Rightarrow> 'm mwc option \<times> string set" where
  "l3_step pending rates n_prom st =
     (case shared_mwc st of
        None \<Rightarrow> (None, {})
      | Some m \<Rightarrow>
          (let m' = request_merges pending rates n_prom st m
           in (Some m', set (map fst (filter (\<lambda>(a, lid, _). is_merged lid m') (lora_info st))))))"

definition segments_of_batch ::
  "(string \<times> int \<times> bool) list \<Rightarrow> dispatcher option \<Rightarrow> string segment list \<times> dispatcher option" where
  "segments_of_batch raw disp =
     (case disp of
        None \<Rightarrow> ([], None)
      | Some d \<Rightarrow>
          if raw = [] then ([], Some d)
          else (case segment_and_promote raw d of
                  (Inl _, d') \<Rightarrow> ([], Some d')
                | (Inr gs, d') \<Rightarrow> (gs, Some d')))"

text \<open>The second half of a WGKP tick, from the ranking on.\<close>

definition wgkp_dispatch ::
  "libs \<Rightarrow> clock \<Rightarrow> sched_out \<Rightarrow> scheduled list \<Rightarrow> scheduled list \<Rightarrow> scheduled list \<Rightarrow> nat \<Rightarrow>
   (int, scheduled) dict \<Rightarrow> (string, real) dict \<Rightarrow> (string, real) dict \<Rightarrow> string list \<Rightarrow> 'm sched \<Rightarrow>
   py_error + 'm sched \<times> sched_out" where
  "wgkp_dispatch L clk out pre post firsts n_dec d rates tmax_k ranked st2 =
     (let pending = pending_count (buffer st2);
          mean_depth = real (sum_list (map snd pending)) / real (max (length pending) 1);
          st3 = st2\<lparr>sched_apt := map_option (apt_update mean_depth) (sched_apt st2)\<rparr>;
          n_prom = current_n_star st3;
          (mwc', merged_ids) = l3_step pending rates n_prom st3;
          (b3, raw) = form_batch_wgkp ranked tmax_k n_prom merged_ids (Some n_dec) (form_time clk) (buffer st3);
          (segs, disp) = segments_of_batch raw (wgkp_dispatcher st3);
          (aligned, ids) = collect_aligned d (map token_of raw);
          b4 = release_set (set ids) b3;
          would_be_empty = (pre = [] \<and> post = [] \<and> aligned = []);
          (drained, b5) = (if would_be_empty then drain_remaining firsts (set ids) b4 else ([], b4));
          drained_ids = set (map group_id drained);
          st4 = st3\<lparr>shared_mwc := mwc', wgkp_dispatcher := disp, buffer := release_set drained_ids b5,
                    post_aligned := post_aligned st3 \<union> set ids \<union> drained_ids\<rparr>;
          out1 = emit pre post (aligned @ drained) out;
          out2 = (if segs = [] then out1 else out1\<lparr>wgkp_segments := Some segs\<rparr>)
      in log_if (log_enabled st2) (log_war_stats_wgkp L clk n_prom (adapter_order post @ aligned)) st4 out2)"

definition schedule_wgkp ::
  "libs \<Rightarrow> clock \<Rightarrow> sched_out \<Rightarrow> 'm sched \<Rightarrow> py_error + 'm sched \<times> sched_out" where
  "schedule_wgkp L clk out st0 =
     (if \<not> vllm_available L then Inr (st0, out)
      else let (pre, dec) = split_groups out in
        if dec = [] then Inr (st0, out)
        else let stale = post_aligned st0 - running_ids st0;
                 st = st0\<lparr>post_aligned := post_aligned st0 - stale, buffer := release_set stale (buffer st0)\<rparr>;
                 (post, firsts) = split_aligned (post_aligned st) dec;
                 a = enqueue_arrivals clk firsts (start_arrivals st);
                 st1 = st\<lparr>lora_info := note_loras firsts (lora_info st), buffer := arr_buffer a,
                          sched_estimator := arr_estimator a\<rparr>;
                 rates = get_all_rates (sched_estimator st1);
                 tmax_k = deadlines L rates st1
          in case update_prefetch_cache L clk rates (updated_adapters a) (cache_mgr st1) of
               Inl e \<Rightarrow> Inl e
             | Inr cm \<Rightarrow>
                 (case cash_order L clk tmax_k rates (st1\<lparr>cache_mgr := cm\<rparr>) of
                    Inl e \<Rightarrow> Inl e
                  | Inr (ranked, seen) \<Rightarrow>
                      wgkp_dispatch L clk out pre post firsts (length dec) (by_seq a) rates tmax_k ranked
                        (st1\<lparr>cache_mgr := cm, cold_first_seen := seen\<rparr>)))"

definition schedule_tick ::
  "libs \<Rightarrow> clock \<Rightarrow> sched_out \<Rightarrow> 'm sched \<Rightarrow> py_error + 'm sched \<times> sched_out" where
  "schedule_tick L clk out st0 =
     (let st = st0\<lparr>call_count := call_count st0 + 1\<rparr> in
      if sched_mode st = ''pi_adaptive'' then schedule_pi_adaptive L clk out st
      else if sched_mode st = ''wgkp'' then schedule_wgkp L clk out st
      else if sched_mode st = ''erlang'' then schedule_erlang L clk out st
      else if sched_mode st = ''cash'' then schedule_cash L clk out st
      else schedule_threshold L clk out st)"

end
