(* ===== verification/SchedBatch.thy ===== *)
theory SchedBatch
  imports SchedTick
begin

text \<open>
  What one scheduling tick guarantees, for every mode: how the batch is composed, that no
  sequence is lost or served twice, and that the buffer and the set of aligned sequences stay
  consistent.
\<close>

subsection \<open>Each sequence waits in at most one place\<close>

definition qids :: "'a abuf \<Rightarrow> 'a \<Rightarrow> int set" where
  "qids b k = fst ` set (queue_of b k)"

definition queued_once :: "'a abuf \<Rightarrow> bool" where
  "queued_once b \<longleftrightarrow> buf_ok b \<and> (\<forall>k. distinct (map fst (queue_of b k))) \<and>
     (\<forall>k j. k \<noteq> j \<longrightarrow> qids b k \<inter> qids b j = {}) \<and> (\<forall>k. qids b k \<subseteq> fst ` set (seq_enqueue b))"

lemma queued_onceD:
  assumes "queued_once b"
  shows "buf_ok b" "distinct (map fst (queue_of b k))" "k \<noteq> j \<Longrightarrow> qids b k \<inter> qids b j = {}"
    "qids b k \<subseteq> fst ` set (seq_enqueue b)"
  using assms by (auto simp: queued_once_def)

lemma queued_once_init: "queued_once (buffer_init [] w t s)"
  by (simp add: queued_once_def buf_ok_init) (simp add: buffer_init_def qids_def queue_of_def dict_get_def)

lemma enqueue_keys: "fst ` set (seq_enqueue (enqueue k s t b)) = insert s (fst ` set (seq_enqueue b))"
  by (auto simp: enqueue_def Let_def dict_has_iff)

lemma enqueue_qids:
  "qids (enqueue k s t b) j =
     (if j = k \<and> s \<notin> fst ` set (seq_enqueue b) then insert s (qids b j) else qids b j)"
  by (auto simp: qids_def enqueue_queue is_buffered_def dict_has_iff)

lemma enqueue_queued_once:
  assumes "queued_once b"
  shows "queued_once (enqueue k s t b)"
proof (cases "s \<in> fst ` set (seq_enqueue b)")
  case True
  then show ?thesis using assms by (simp add: enqueue_def dict_has_iff)
next
  case False
  then have new: "s \<notin> qids b j" for j using queued_onceD(4) [OF assms, of j] by blast
  show ?thesis
    unfolding queued_once_def
  proof (intro conjI allI impI)
    show "buf_ok (enqueue k s t b)" by (rule enqueue_ok [OF queued_onceD(1) [OF assms]])
    show "distinct (map fst (queue_of (enqueue k s t b) j))" for j
      using queued_onceD(2) [OF assms, of j] new [of j] by (auto simp: enqueue_queue qids_def)
    show "qids (enqueue k s t b) j \<inter> qids (enqueue k s t b) i = {}" if "j \<noteq> i" for j i
      using queued_onceD(3) [OF assms that] new that by (auto simp: enqueue_qids)
    show "qids (enqueue k s t b) j \<subseteq> fst ` set (seq_enqueue (enqueue k s t b))" for j
      using queued_onceD(4) [OF assms, of j] by (auto simp: enqueue_qids enqueue_keys)
  qed
qed

text \<open>A dispatch: what left the queues.\<close>

lemma distinct_by_key:
  assumes "\<And>k. distinct (map snd (filter (\<lambda>e. fst e = k) out))"
    and "\<And>k j. k \<noteq> j \<Longrightarrow> snd ` {e \<in> set out. fst e = k} \<inter> snd ` {e \<in> set out. fst e = j} = {}"
  shows "distinct (map snd out)"
  using assms
proof (induction out)
  case (Cons e out)
  have "distinct (map snd (filter (\<lambda>e. fst e = k) out))" for k
    using Cons.prems(1) [of k] by (auto split: if_splits)
  moreover have "snd ` {e \<in> set out. fst e = k} \<inter> snd ` {e \<in> set out. fst e = j} = {}" if "k \<noteq> j" for k j
    using Cons.prems(2) [OF that] by fastforce
  ultimately have "distinct (map snd out)" by (rule Cons.IH)
  moreover have "snd e \<notin> snd ` set out"
  proof
    assume "snd e \<in> snd ` set out"
    then obtain e' where e': "e' \<in> set out" "snd e' = snd e" by force
    show False
    proof (cases "fst e' = fst e")
      case True
      then have "e' \<in> set (filter (\<lambda>x. fst x = fst e) out)" using e' by simp
      then have "snd e \<in> set (map snd (filter (\<lambda>x. fst x = fst e) out))" using e'(2) by (metis image_eqI list.set_map)
      then show False using Cons.prems(1) [of "fst e"] by simp
    next
      case False
      have "snd e' \<in> snd ` {x \<in> set (e # out). fst x = fst e'}" using e'(1) by simp
      then have "snd e \<in> snd ` {x \<in> set (e # out). fst x = fst e'}" using e'(2) by simp
      moreover have "snd e \<in> snd ` {x \<in> set (e # out). fst x = fst e}" by simp
      ultimately show False using Cons.prems(2) [OF False] by blast
    qed
  qed
  ultimately show ?case by simp
qed simp

lemma dispatch_leaves:
  assumes b: "queued_once b" and d: "dispatch p m t b = (b', out)"
  shows "queued_once b'" and "distinct (map snd out)" and "seq_enqueue b' = seq_enqueue b"
    and "(k, s) \<in> set out \<Longrightarrow> s \<in> qids b k" and "qids b' k \<subseteq> qids b k"
    and "snd ` set out \<inter> qids b' k = {}"
    and "s \<in> qids b k \<Longrightarrow> (k, s) \<in> set out \<or> s \<in> qids b' k"
proof -
  have tk: "tick b out b'" by (rule dispatch_tick(1) [OF d])
  have q: "map fst (queue_of b j) = sel j out @ map fst (queue_of b' j)" for j
    by (rule tick_queue [OF tk])
  have sets: "qids b j = set (sel j out) \<union> qids b' j" and disj: "set (sel j out) \<inter> qids b' j = {}"
    and ds: "distinct (sel j out)" "distinct (map fst (queue_of b' j))" for j
  proof -
    have "set (map fst (queue_of b j)) = set (sel j out) \<union> set (map fst (queue_of b' j))"
      by (simp only: q set_append)
    then show "qids b j = set (sel j out) \<union> qids b' j" by (simp add: qids_def)
    have "distinct (sel j out @ map fst (queue_of b' j))"
      using queued_onceD(2) [OF b, of j] by (simp only: q)
    then show "set (sel j out) \<inter> qids b' j = {}" "distinct (sel j out)" "distinct (map fst (queue_of b' j))"
      by (auto simp: qids_def)
  qed
  show seq: "seq_enqueue b' = seq_enqueue b" using tk by (simp add: tick_def)
  have selset: "set (sel j out) = snd ` {e \<in> set out. fst e = j}" for j by (auto simp: sel_def)
  show "distinct (map snd out)"
  proof (rule distinct_by_key)
    show "distinct (map snd (filter (\<lambda>e. fst e = j) out))" for j using ds(1) [of j] by (simp add: sel_def)
    show "snd ` {e \<in> set out. fst e = j} \<inter> snd ` {e \<in> set out. fst e = i} = {}" if "j \<noteq> i" for i j
      using queued_onceD(3) [OF b that] sets selset by blast
  qed
  show "qids b' k \<subseteq> qids b k" using sets by blast
  show mem: "(k, s) \<in> set out \<Longrightarrow> s \<in> qids b k" for k s using sets [of k] selset [of k] by force
  show "s \<in> qids b k \<Longrightarrow> (k, s) \<in> set out \<or> s \<in> qids b' k" using sets [of k] selset [of k] by force
  show "snd ` set out \<inter> qids b' k = {}"
  proof -
    have "s \<notin> qids b' k" if "(j, s) \<in> set out" for j s
    proof (cases "j = k")
      case True
      then show ?thesis using that disj [of k] selset [of k] by force
    next
      case False
      then show ?thesis using mem [OF that] queued_onceD(3) [OF b False] sets [of k] by blast
    qed
    then show ?thesis by force
  qed
  show "queued_once b'"
    unfolding queued_once_def
  proof (intro conjI allI impI)
    show "buf_ok b'" by (rule tick_ok [OF tk queued_onceD(1) [OF b]])
    show "distinct (map fst (queue_of b' j))" for j by (rule ds(2))
    show "qids b' j \<inter> qids b' i = {}" if "j \<noteq> i" for j i
      using queued_onceD(3) [OF b that] sets by blast
    show "qids b' j \<subseteq> fst ` set (seq_enqueue b')" for j
      using queued_onceD(4) [OF b, of j] sets [of j] seq by auto
  qed
qed

subsection \<open>Enqueueing the new sequences\<close>

text \<open>Both loops do the same to the buffer and to the index by sequence.\<close>

lemma arrivals_loop:
  "by_seq (enqueue_arrivals clk gs a) = fst (enqueue_decode_groups clk gs (by_seq a, arr_buffer a)) \<and>
   arr_buffer (enqueue_arrivals clk gs a) = snd (enqueue_decode_groups clk gs (by_seq a, arr_buffer a))"
proof (induction gs arbitrary: a)
  case (Cons g gs)
  show ?case by (simp add: Cons Let_def)
qed simp

lemma enqueue_loop:
  assumes "queued_once b" and "distinct (map group_id gs)"
    and "enqueue_decode_groups clk gs (d, b) = (d', b')"
  shows "queued_once b'"
    and "fst ` set (seq_enqueue b') = group_id ` set gs \<union> fst ` set (seq_enqueue b)"
    and "qids b' k = qids b k \<union>
           {group_id g |g. g \<in> set gs \<and> group_adapter g = k \<and> group_id g \<notin> fst ` set (seq_enqueue b)}"
    and "map_of d' s = (case find (\<lambda>g. group_id g = s) gs of Some g \<Rightarrow> Some g | None \<Rightarrow> map_of d s)"
proof -
  have "queued_once b' \<and> fst ` set (seq_enqueue b') = group_id ` set gs \<union> fst ` set (seq_enqueue b) \<and>
    qids b' k = qids b k \<union>
           {group_id g |g. g \<in> set gs \<and> group_adapter g = k \<and> group_id g \<notin> fst ` set (seq_enqueue b)} \<and>
    map_of d' s = (case find (\<lambda>g. group_id g = s) gs of Some g \<Rightarrow> Some g | None \<Rightarrow> map_of d s)"
    using assms
  proof (induction gs arbitrary: d b)
    case (Cons g gs)
    define b1 where "b1 = enqueue (group_adapter g) (group_id g) (enq_time clk (group_id g)) b"
    have IH: "queued_once b' \<and> fst ` set (seq_enqueue b') = group_id ` set gs \<union> fst ` set (seq_enqueue b1) \<and>
      qids b' k = qids b1 k \<union>
           {group_id g |g. g \<in> set gs \<and> group_adapter g = k \<and> group_id g \<notin> fst ` set (seq_enqueue b1)} \<and>
      map_of d' s = (case find (\<lambda>g. group_id g = s) gs of Some g \<Rightarrow> Some g
         | None \<Rightarrow> map_of (dict_set (group_id g) g d) s)"
      using Cons.prems by (intro Cons.IH) (auto simp: b1_def enqueue_queued_once)
    have new: "group_id g \<notin> group_id ` set gs" using Cons.prems(2) by simp
    have none: "find (\<lambda>h. group_id h = group_id g) gs = None" unfolding find_None_iff using new by (metis image_eqI)
    have keys: "fst ` set (seq_enqueue b1) = insert (group_id g) (fst ` set (seq_enqueue b))"
      by (simp add: b1_def enqueue_keys)
    have q1: "qids b1 k = (if k = group_adapter g \<and> group_id g \<notin> fst ` set (seq_enqueue b)
        then insert (group_id g) (qids b k) else qids b k)"
      by (simp add: b1_def enqueue_qids)
    have neq: "group_id h \<noteq> group_id g" if "h \<in> set gs" for h using new that by (metis image_eqI)
    have "{group_id h |h. h \<in> set gs \<and> group_adapter h = k \<and> group_id h \<notin> fst ` set (seq_enqueue b1)}
        = {group_id h |h. h \<in> set gs \<and> group_adapter h = k \<and> group_id h \<notin> fst ` set (seq_enqueue b)}"
      using neq keys by blast
    then have "qids b' k = qids b k \<union>
           {group_id h |h. h \<in> set (g # gs) \<and> group_adapter h = k \<and> group_id h \<notin> fst ` set (seq_enqueue b)}"
      using IH q1 by auto
    moreover have "map_of d' s = (case find (\<lambda>g. group_id g = s) (g # gs) of Some g \<Rightarrow> Some g | None \<Rightarrow> map_of d s)"
      using IH none by (cases "s = group_id g") (auto split: option.splits)
    ultimately show ?case using IH keys by simp
  qed auto
  then show "queued_once b'"
    "fst ` set (seq_enqueue b') = group_id ` set gs \<union> fst ` set (seq_enqueue b)"
    "qids b' k = qids b k \<union>
           {group_id g |g. g \<in> set gs \<and> group_adapter g = k \<and> group_id g \<notin> fst ` set (seq_enqueue b)}"
    "map_of d' s = (case find (\<lambda>g. group_id g = s) gs of Some g \<Rightarrow> Some g | None \<Rightarrow> map_of d s)"
    by blast+
qed

lemma find_by_id:
  assumes "distinct (map group_id gs)"
  shows "find (\<lambda>g. group_id g = s) gs = Some g \<longleftrightarrow> g \<in> set gs \<and> group_id g = s"
  using assms by (induction gs) auto

text \<open>The groups of a selection that a dispatch serves, in the order of the dispatch.\<close>

definition dispatched :: "scheduled list \<Rightarrow> ('a \<times> int) list \<Rightarrow> scheduled list" where
  "dispatched gs pairs = [g. (a, s) \<leftarrow> pairs, g \<leftarrow> gs, group_id g = s]"

lemma filter_by_id:
  "distinct (map group_id gs) \<Longrightarrow>
     filter (\<lambda>g. group_id g = s) gs = (case find (\<lambda>g. group_id g = s) gs of None \<Rightarrow> [] | Some g \<Rightarrow> [g])"
proof (induction gs)
  case (Cons g gs)
  have "filter (\<lambda>h. group_id h = group_id g) gs = []"
    using Cons.prems by (fastforce simp: filter_empty_conv image_iff)
  then show ?case using Cons by auto
qed simp

lemma collect_is_dispatched:
  assumes "distinct (map group_id gs)" and "\<And>s. map_of d s = find (\<lambda>g. group_id g = s) gs"
  shows "fst (collect_aligned d pairs) = dispatched gs pairs"
proof -
  have one: "concat (map (\<lambda>g. if group_id g = s then [g] else []) gs) = filter (\<lambda>g. group_id g = s) gs" for s
    by (induction gs) auto
  show ?thesis
    unfolding collect_aligned_def dispatched_def
    by (induction pairs) (auto simp: List.map_filter_simps one filter_by_id [OF assms(1)] assms(2) split: option.splits)
qed

text \<open>The groups collected for a list of dispatched tokens.\<close>

lemma collect_spec:
  assumes "distinct (map group_id gs)" and "distinct (map snd pairs)"
    and "\<And>s. map_of d s = find (\<lambda>g. group_id g = s) gs"
    and "collect_aligned d pairs = (aligned, ids)"
  shows "set aligned = {g \<in> set gs. group_id g \<in> snd ` set pairs}" and "map group_id aligned = ids"
    and "distinct aligned"
proof -
  have al: "aligned = List.map_filter (\<lambda>(a, s). map_of d s) pairs" and
    ids: "ids = filter (dict_has d) (map snd pairs)"
    using assms(4) by (auto simp: collect_aligned_def)
  have "g \<in> set aligned \<longleftrightarrow> (\<exists>a s. (a, s) \<in> set pairs \<and> map_of d s = Some g)" for g
    by (force simp: al List.map_filter_def image_iff)
  then show "set aligned = {g \<in> set gs. group_id g \<in> snd ` set pairs}"
    by (force simp: assms(3) find_by_id [OF assms(1)])
  show m: "map group_id aligned = ids"
    unfolding al ids
  proof (induction pairs)
    case (Cons e pairs)
    obtain a s where e: "e = (a, s)" by force
    show ?case
    proof (cases "find (\<lambda>g. group_id g = s) gs")
      case None
      then show ?thesis using Cons by (simp add: e List.map_filter_simps dict_has_def assms(3))
    next
      case (Some g)
      then have "group_id g = s" using find_by_id [OF assms(1)] by blast
      with Some show ?thesis using Cons by (simp add: e List.map_filter_simps dict_has_def assms(3))
    qed
  qed (simp add: List.map_filter_simps)
  have "distinct (map group_id aligned)" unfolding m ids using assms(2) by simp
  then show "distinct aligned" by (simp add: distinct_map)
qed

subsection \<open>Releasing and draining\<close>

lemma release_set_simps [simp]:
  "fst ` set (seq_enqueue (release_set S b)) = fst ` set (seq_enqueue b) - S"
  "qids (release_set S b) k = qids b k" "queue_of (release_set S b) k = queue_of b k"
  by (force simp: release_set_def qids_def queue_of_def)+

lemma release_set_queued_once:
  assumes "queued_once b" and "\<And>k. qids b k \<inter> S = {}"
  shows "queued_once (release_set S b)"
proof -
  have "buf_ok (release_set S b)" using queued_onceD(1) [OF assms(1)] by (simp add: buf_ok_def release_set_def)
  then show ?thesis using assms unfolding queued_once_def by auto
qed

lemma release_view [simp]: "qids (release s b) k = qids b k" "queue_of (release s b) k = queue_of b k"
  "fst ` set (seq_enqueue (release s b)) = fst ` set (seq_enqueue b) - {s}"
  by (simp_all add: release_def qids_def queue_of_def)

lemma release_queued_once:
  assumes "queued_once b" and "\<And>k. s \<notin> qids b k"
  shows "queued_once (release s b)"
  using assms release_ok [OF queued_onceD(1) [OF assms(1)], of s] unfolding queued_once_def by auto

lemma token_records_spec:
  assumes "queued_once b" and "\<And>k. qids b k \<inter> group_id ` set gs = {}"
    and "token_records t0 now_ms gs b = (rs, b')"
  shows "queued_once b' \<and> (\<forall>k. qids b' k = qids b k) \<and>
    fst ` set (seq_enqueue b') = fst ` set (seq_enqueue b) - group_id ` set gs"
  using assms
proof (induction gs arbitrary: b rs)
  case (Cons g gs)
  obtain rs1 where r: "token_records t0 now_ms gs (release (group_id g) b) = (rs1, b')"
    using Cons.prems(3) by (auto simp: Let_def split: prod.splits)
  have "queued_once (release (group_id g) b)" using Cons.prems(1,2) by (intro release_queued_once) auto
  from Cons.IH [OF this _ r] show ?case using Cons.prems(2) by auto
qed simp

lemma drain_spec:
  assumes "queued_once b" and "drain_remaining gs S b = (rest, b')"
  shows "rest = filter (\<lambda>g. group_id g \<notin> S) gs \<and> queued_once b' \<and>
    seq_enqueue b' = seq_enqueue b \<and>
    (\<forall>k. qids b' k = qids b k - {group_id g |g. g \<in> set gs \<and> group_id g \<notin> S \<and> group_adapter g = k})"
  using assms
proof (induction gs arbitrary: b rest)
  case Nil
  then show ?case by auto
next
  case (Cons g gs)
  show ?case
  proof (cases "group_id g \<in> S")
    case True
    then show ?thesis using Cons.IH [OF Cons.prems(1)] Cons.prems(2) by auto
  next
    case False
    define k where "k = group_adapter g"
    define b1 where "b1 = (case map_of (queues b) k of
                       None \<Rightarrow> b
                     | Some q \<Rightarrow>
                         (let q' = filter (\<lambda>(s, t). s \<noteq> group_id g) q;
                              b' = b\<lparr>queues := dict_set k q' (queues b)\<rparr>
                          in if q' = [] then b'\<lparr>enqueue_time := dict_set k None (enqueue_time b')\<rparr> else b'))"
    have queue: "queue_of b1 j = (if j = k then filter (\<lambda>(s, t). s \<noteq> group_id g) (queue_of b k) else queue_of b j)" for j
      by (auto simp: b1_def Let_def queue_of_def dict_get_def split: option.splits)
    have seq: "seq_enqueue b1 = seq_enqueue b" by (auto simp: b1_def Let_def split: option.splits)
    have keys: "map_of (queues b) k = Some q \<Longrightarrow> k \<in> fst ` set (queues b)" for q
      by (force dest: map_of_SomeD)
    have "buf_ok b1"
      using queued_onceD(1) [OF Cons.prems(1)] keys
      by (auto simp: b1_def buf_ok_def Let_def insert_absorb split: option.splits)
    moreover have qids: "qids b1 j = (if j = k then qids b k - {group_id g} else qids b j)" for j
      by (auto simp: qids_def queue)
    moreover have "distinct (map fst (queue_of b1 j))" for j
      using queued_onceD(2) [OF Cons.prems(1), of j] distinct_map_filter [of fst "queue_of b k"]
      by (auto simp: queue)
    moreover have "qids b1 i \<inter> qids b1 j = {}" if "i \<noteq> j" for i j
      using queued_onceD(3) [OF Cons.prems(1) that] that by (auto simp: qids)
    moreover have "qids b1 j \<subseteq> fst ` set (seq_enqueue b1)" for j
      using queued_onceD(4) [OF Cons.prems(1), of j] by (auto simp: qids seq)
    ultimately have "queued_once b1" unfolding queued_once_def by blast
    moreover have "drain_remaining (g # gs) S b = (let (rest, b2) = drain_remaining gs S b1 in (g # rest, b2))"
      by (simp only: drain_remaining.simps if_not_P [OF False] Let_def b1_def k_def)
    then obtain rest1 where "drain_remaining gs S b1 = (rest1, b')" "rest = g # rest1"
      using Cons.prems(2) by (auto split: prod.splits)
    ultimately show ?thesis using Cons.IH [of b1 rest1] qids seq False by (auto simp: k_def)
  qed
qed

subsection \<open>Consistent states\<close>

lemma sum_case_InrE:
  assumes "(case x of Inl e \<Rightarrow> Inl e | Inr y \<Rightarrow> f y) = Inr z"
  obtains y where "x = Inr y" and "f y = Inr z"
  using assms by (cases x) auto

definition sched_ok :: "'m sched \<Rightarrow> bool" where
  "sched_ok st \<longleftrightarrow> queued_once (buffer st) \<and> (\<forall>k. qids (buffer st) k \<inter> post_aligned st = {})"

text \<open>
  What the engine guarantees of its selection: one group per sequence, decode groups are in the
  running queue, and a sequence keeps its adapter.
\<close>

definition engine_ok :: "'m sched \<Rightarrow> sched_out \<Rightarrow> bool" where
  "engine_ok st out \<longleftrightarrow> distinct (map group_id (scheduled_seq_groups out)) \<and>
     (\<forall>g\<in>set (scheduled_seq_groups out). is_decode g \<longrightarrow> group_id g \<in> running_ids st) \<and>
     (\<forall>g\<in>set (scheduled_seq_groups out). \<forall>k. group_id g \<in> qids (buffer st) k \<longrightarrow> k = group_adapter g)"

text \<open>
  The contract of a tick that finds the buffer \<open>b\<close>: the new groups are offered to the buffer, which
  dispatches once under the mode's policy. The batch is the prefills as selected, the aligned decode
  groups by adapter, then exactly the new groups that were dispatched, in the order of the dispatch; if
  a WGKP batch would be empty, all new groups instead. A group that is served leaves the queues; a
  group that is not waits in the queue of its adapter, unless it was lost before (recorded as buffered, in no queue).
\<close>

definition lost :: "string abuf \<Rightarrow> int \<Rightarrow> bool" where
  "lost b s \<longleftrightarrow> is_buffered b s \<and> (\<forall>k. s \<notin> qids b k)"

definition policy_of :: "string \<Rightarrow> string policy \<Rightarrow> bool" where
  "policy_of mode p \<longleftrightarrow>
     (case p of Static \<Rightarrow> mode \<notin> {''erlang'', ''cash'', ''wgkp''} | Erlang tk \<Rightarrow> mode = ''erlang''
      | Cash ks tk \<Rightarrow> mode = ''cash'' | Wgkp ks tk n ms \<Rightarrow> mode = ''wgkp'')"

definition tick_serves ::
  "clock \<Rightarrow> string \<Rightarrow> string abuf \<Rightarrow> int set \<Rightarrow> sched_out \<Rightarrow> 'm sched \<Rightarrow> sched_out \<Rightarrow> bool" where
  "tick_serves clk mode b A out st' out' \<longleftrightarrow>
     (let (pre, dec) = split_groups out; (post, firsts) = split_aligned A dec;
          offered = snd (enqueue_decode_groups clk firsts ([], b))
      in \<exists>p b2 pairs.
           (if dec = [] then pairs = []
            else policy_of mode p \<and> dispatch p (Some (length dec)) (form_time clk) offered = (b2, pairs)) \<and>
           (let new = dispatched firsts pairs;
                served = (if mode = ''wgkp'' \<and> pre = [] \<and> post = [] \<and> new = [] then firsts else new)
            in scheduled_seq_groups out' = pre @ adapter_order post @ served \<and>
               distinct served \<and> set served \<subseteq> set firsts \<and>
               (\<forall>g\<in>set firsts.
                  if g \<in> set served then group_id g \<in> post_aligned st' \<and> (\<forall>k. group_id g \<notin> qids (buffer st') k)
                  else group_id g \<notin> post_aligned st' \<and> is_buffered (buffer st') (group_id g) \<and>
                    (group_id g \<in> qids (buffer st') (group_adapter g) \<or> lost b (group_id g)))))"

lemma scheduler_init_fields:
  assumes "scheduler_init env read path mwc t0 = Inr st"
  shows "\<exists>w t s. buffer st = buffer_init [] w t s" and "post_aligned st = {}" and "draining st = {}"
proof -
  obtain disp k ap n where w: "init_wgkp env read path = (disp, k, ap, n)" using prod_cases4 by blast
  have "(\<exists>w t s. buffer st = buffer_init [] w t s) \<and> post_aligned st = {} \<and> draining st = {}"
    using assms unfolding scheduler_init_def w Let_def split_conv
    by (elim sum_case_InrE) (simp only: sum.inject, (erule subst)?, simp, blast)
  then show "\<exists>w t s. buffer st = buffer_init [] w t s" "post_aligned st = {}" "draining st = {}" by blast+
qed

lemma scheduler_init_ok:
  assumes "scheduler_init env read path mwc t0 = Inr st"
  shows "sched_ok st"
  using scheduler_init_fields [OF assms] by (auto simp: sched_ok_def queued_once_init)

lemma split_groups_all_prefill:
  "split_groups out = (pre, []) \<Longrightarrow> scheduled_seq_groups out = pre"
  by (auto simp: split_groups_def filter_empty_conv filter_id_conv)

lemma serves_nothing:
  "split_groups out = (pre, []) \<Longrightarrow> tick_serves clk mode b A out st out"
  by (simp add: tick_serves_def dispatched_def split_aligned_def adapter_order_def split_groups_all_prefill)

text \<open>Enqueue, dispatch, collect: the middle of every mode.\<close>

lemma dispatch_core:
  assumes b: "queued_once b" and A: "\<And>k. qids b k \<inter> A = {}"
    and ids: "distinct (map group_id firsts)" "\<And>g. g \<in> set firsts \<Longrightarrow> group_id g \<notin> A"
    and e: "enqueue_decode_groups clk firsts ([], b) = (d, b1)"
    and t: "dispatch p m t b1 = (b2, pairs)" and c: "collect_aligned d pairs = (aligned, ds)"
  shows "queued_once b2" and "qids b2 k \<inter> (A \<union> set ds) = {}"
    and "set aligned \<subseteq> set firsts" and "distinct aligned" and "map group_id aligned = ds"
    and "fst ` set (seq_enqueue b2) = group_id ` set firsts \<union> fst ` set (seq_enqueue b)"
    and "g \<in> set firsts \<Longrightarrow> group_id g \<in> set ds \<longleftrightarrow> g \<in> set aligned"
    and "g \<in> set firsts \<Longrightarrow> (\<And>j. group_id g \<in> qids b j \<Longrightarrow> j = group_adapter g) \<Longrightarrow>
      group_id g \<in> qids b2 j \<Longrightarrow> j = group_adapter g"
    and "aligned = dispatched firsts pairs"
    and "g \<in> set firsts \<Longrightarrow> (\<And>j. group_id g \<in> qids b j \<Longrightarrow> j = group_adapter g) \<Longrightarrow> g \<notin> set aligned \<Longrightarrow>
      group_id g \<in> qids b2 (group_adapter g) \<or> lost b (group_id g)"
proof -
  note enq = enqueue_loop [OF b ids(1) e]
  note left = dispatch_leaves [OF enq(1) t]
  have d: "map_of d s = find (\<lambda>g. group_id g = s) firsts" for s
    by (simp add: enq(4) split: option.splits)
  note col = collect_spec [OF ids(1) left(2) d c]
  show "aligned = dispatched firsts pairs" using collect_is_dispatched [OF ids(1) d] c by (metis fst_conv)
  show "group_id g \<in> qids b2 (group_adapter g) \<or> lost b (group_id g)"
    if g: "g \<in> set firsts" "g \<notin> set aligned" and own: "\<And>j. group_id g \<in> qids b j \<Longrightarrow> j = group_adapter g"
  proof (cases "lost b (group_id g)")
    case False
    have "group_id g \<in> qids b1 (group_adapter g)"
    proof (cases "\<exists>j. group_id g \<in> qids b j")
      case True
      then show ?thesis using own enq(3) [of "group_adapter g"] by blast
    next
      case none: False
      then have "group_id g \<notin> fst ` set (seq_enqueue b)" using False by (simp add: lost_def is_buffered_def dict_has_iff)
      then show ?thesis using g(1) enq(3) [of "group_adapter g"] by blast
    qed
    moreover have "(k, group_id g) \<notin> set pairs" for k using g col(1) by force
    ultimately show ?thesis using left(7) by blast
  qed simp
  show "queued_once b2" by (rule left(1))
  show "set aligned \<subseteq> set firsts" "distinct aligned" "map group_id aligned = ds" using col by auto
  have ds: "set ds = group_id ` set aligned" using col(2) by force
  then have sub: "set ds \<subseteq> snd ` set pairs" using col(1) by auto
  show "qids b2 k \<inter> (A \<union> set ds) = {}"
  proof -
    have "qids b2 k \<subseteq> qids b k \<union> group_id ` set firsts"
      using left(5) [of k] enq(3) [of k] by auto
    then have "qids b2 k \<inter> A = {}" using A [of k] ids(2) by blast
    moreover have "qids b2 k \<inter> set ds = {}" using left(6) [of k] sub by blast
    ultimately show ?thesis by blast
  qed
  show "fst ` set (seq_enqueue b2) = group_id ` set firsts \<union> fst ` set (seq_enqueue b)"
    using left(3) enq(2) by simp
  show "group_id g \<in> set ds \<longleftrightarrow> g \<in> set aligned" if "g \<in> set firsts"
  proof
    assume "group_id g \<in> set ds"
    with sub have "group_id g \<in> snd ` set pairs" by blast
    then show "g \<in> set aligned" using that unfolding col(1) by blast
  qed (auto simp: ds)
  show "j = group_adapter g" if g: "g \<in> set firsts"
    and "\<And>j. group_id g \<in> qids b j \<Longrightarrow> j = group_adapter g" "group_id g \<in> qids b2 j"
  proof -
    have "group_id g \<in> qids b j \<or> (\<exists>h\<in>set firsts. group_id h = group_id g \<and> group_adapter h = j)"
      using that(3) left(5) [of j] enq(3) [of j] by fastforce
    moreover have "h = g" if "h \<in> set firsts" "group_id h = group_id g" for h
      using ids(1) g that by (auto simp: distinct_map inj_on_def)
    ultimately show ?thesis using that(2) by blast
  qed
qed

text \<open>Writing the log pops the enqueue records of the batch and nothing else.\<close>

lemma append_record_ok:
  assumes "sched_ok st" and "group_id ` set batch \<subseteq> post_aligned st"
  shows "sched_ok (append_record clk w x y z batch st)"
    and "post_aligned (append_record clk w x y z batch st) = post_aligned st"
    and "s \<notin> group_id ` set batch \<Longrightarrow>
      is_buffered (buffer (append_record clk w x y z batch st)) s = is_buffered (buffer st) s"
    and "qids (buffer (append_record clk w x y z batch st)) k = qids (buffer st) k"
proof -
  obtain rs b where r: "token_records (t0_ms st) (log_time clk * 1000 - t0_ms st) batch (buffer st) = (rs, b)"
    by force
  have q: "queued_once (buffer st)" and disj: "qids (buffer st) k \<inter> group_id ` set batch = {}" for k
    using assms by (auto simp: sched_ok_def)
  note b = token_records_spec [OF q disj r]
  show "sched_ok (append_record clk w x y z batch st)"
    using assms b r by (auto simp: append_record_def sched_ok_def Let_def split: option.splits)
  show "post_aligned (append_record clk w x y z batch st) = post_aligned st"
    by (simp add: append_record_def Let_def split: option.splits prod.splits)
  show "is_buffered (buffer (append_record clk w x y z batch st)) s = is_buffered (buffer st) s"
    if "s \<notin> group_id ` set batch"
    using b r that by (auto simp: append_record_def is_buffered_def dict_has_iff Let_def split: option.splits)
  show "qids (buffer (append_record clk w x y z batch st)) k = qids (buffer st) k"
    using b r by (simp add: append_record_def Let_def split: option.splits)
qed

lemma logged:
  assumes "log_if on f st out = Inr (st', out')" and "sched_ok st"
    and "group_id ` set batch \<subseteq> post_aligned st"
    and "\<And>st''. f st = Inr st'' \<Longrightarrow> \<exists>w x y z. st'' = append_record clk w x y z batch st"
  shows "out' = out" and "sched_ok st'" and "post_aligned st' = post_aligned st"
    and "s \<notin> group_id ` set batch \<Longrightarrow> is_buffered (buffer st') s = is_buffered (buffer st) s"
    and "qids (buffer st') k = qids (buffer st) k"
proof -
  have out: "out' = out" and cases: "st' = st \<or> (\<exists>w x y z. st' = append_record clk w x y z batch st)"
    using assms(1,4) by (auto simp: log_if_def split: if_splits sum.splits)
  show "out' = out" by (rule out)
  show "sched_ok st'" "post_aligned st' = post_aligned st"
    "s \<notin> group_id ` set batch \<Longrightarrow> is_buffered (buffer st') s = is_buffered (buffer st) s"
    "qids (buffer st') k = qids (buffer st) k"
    using cases append_record_ok [OF assms(2,3)] assms(2) by auto
qed

lemma log_is_append:
  "log_war_stats L clk batch st = Inr st' \<Longrightarrow> \<exists>w x y z. st' = append_record clk w x y z batch st"
  "log_war_stats_wgkp L clk n batch st = Inr st' \<Longrightarrow> \<exists>w x y z. st' = append_record clk w x y z batch st"
  by (auto simp: log_war_stats_def log_war_stats_wgkp_def split: sum.splits)

text \<open>The end of every mode.\<close>

lemma set_adapter_order [simp]: "set (adapter_order gs) = set gs"
  by (simp add: adapter_order_def)

lemma tick_servesE:
  assumes "tick_serves clk mode b A out st' out'" and "split_groups out = (pre, dec)" and "split_aligned A dec = (post, firsts)"
  obtains served where "scheduled_seq_groups out' = pre @ adapter_order post @ served"
    and "distinct served" and "set served \<subseteq> set firsts"
  using assms(1) unfolding tick_serves_def assms(2,3) split_conv Let_def by blast

lemma finish_tick:
  assumes sp: "split_groups out = (pre, dec)" "split_aligned A dec = (post, firsts)"
    and eng: "engine_ok st0 out"
    and disp: "dec \<noteq> []" "policy_of mode p"
      "dispatch p (Some (length dec)) (form_time clk) (snd (enqueue_decode_groups clk firsts ([], b))) = (b2, pairs)"
    and new: "served = (if mode = ''wgkp'' \<and> pre = [] \<and> post = [] \<and> dispatched firsts pairs = [] then firsts
      else dispatched firsts pairs)"
    and served: "set served \<subseteq> set firsts" "distinct served"
    and post: "group_id ` set post \<subseteq> post_aligned st"
    and mem: "\<And>g. g \<in> set firsts \<Longrightarrow> group_id g \<in> post_aligned st \<longleftrightarrow> g \<in> set served"
    and held: "\<And>g. g \<in> set firsts \<Longrightarrow> g \<notin> set served \<Longrightarrow> is_buffered (buffer st) (group_id g)"
    and queued: "\<And>g. g \<in> set firsts \<Longrightarrow> g \<notin> set served \<Longrightarrow>
      group_id g \<in> qids (buffer st) (group_adapter g) \<or> lost b (group_id g)"
    and batch: "set batch \<subseteq> set post \<union> set served"
    and ok: "sched_ok st"
    and lg: "log_if on f st out1 = Inr (st', out')"
      "\<And>st''. f st = Inr st'' \<Longrightarrow> \<exists>w x y z. st'' = append_record clk w x y z batch st"
    and out1: "scheduled_seq_groups out1 = pre @ adapter_order post @ served"
  shows "sched_ok st' \<and> tick_serves clk mode b A out st' out'"
proof -
  have bp: "group_id ` set batch \<subseteq> post_aligned st" using batch served post mem by blast
  note L = logged [OF lg(1) ok bp lg(2)]
  have "distinct (map group_id (scheduled_seq_groups out))" using eng by (simp add: engine_ok_def)
  then have inj: "inj_on group_id (set (scheduled_seq_groups out))" by (simp add: distinct_map)
  have sub: "set post \<subseteq> set (scheduled_seq_groups out)" "set firsts \<subseteq> set (scheduled_seq_groups out)"
    "set post \<inter> set firsts = {}"
    using sp by (auto simp: split_groups_def split_aligned_def)
  have "is_buffered (buffer st') (group_id g)" if g: "g \<in> set firsts" "g \<notin> set served" for g
  proof -
    have "group_id g \<notin> group_id ` set batch"
    proof
      assume "group_id g \<in> group_id ` set batch"
      then obtain h where h: "h \<in> set batch" "group_id h = group_id g" by auto
      then have "h \<in> set (scheduled_seq_groups out)" "g \<in> set (scheduled_seq_groups out)"
        using batch sub served(1) g(1) by blast+
      then have "h = g" using inj_onD [OF inj h(2)] by blast
      then show False using h(1) batch g sub(3) by blast
    qed
    then show ?thesis using L(4) held [OF g] by simp
  qed
  moreover have "\<forall>k. group_id g \<notin> qids (buffer st') k" if "g \<in> set firsts" "g \<in> set served" for g
    using mem [OF that(1)] that(2) L(2,3) unfolding sched_ok_def by blast
  ultimately have each: "\<forall>g\<in>set firsts.
      if g \<in> set served then group_id g \<in> post_aligned st' \<and> (\<forall>k. group_id g \<notin> qids (buffer st') k)
      else group_id g \<notin> post_aligned st' \<and> is_buffered (buffer st') (group_id g) \<and>
        (group_id g \<in> qids (buffer st') (group_adapter g) \<or> lost b (group_id g))"
    using mem L(3,5) queued by simp
  moreover have out': "scheduled_seq_groups out' = pre @ adapter_order post @ served" using out1 L(1) by simp
  have "tick_serves clk mode b A out st' out'"
    unfolding tick_serves_def sp split_conv Let_def
    using disp served out' each
    by (intro exI [of _ p] exI [of _ b2] exI [of _ pairs]) (unfold new [symmetric], simp)
  with L(2) show ?thesis by blast
qed

lemma ids_of_split:
  assumes "engine_ok st out" and "split_groups out = (pre, dec)" and "split_aligned A dec = (post, firsts)"
  shows "distinct (map group_id firsts)" and "g \<in> set firsts \<Longrightarrow> group_id g \<notin> A"
    and "g \<in> set post \<Longrightarrow> group_id g \<in> A" and "g \<in> set post \<union> set firsts \<Longrightarrow> group_id g \<in> running_ids st"
    and "g \<in> set firsts \<Longrightarrow> group_id g \<in> qids (buffer st) j \<Longrightarrow> j = group_adapter g"
proof -
  have "firsts = filter (\<lambda>g. group_id g \<notin> A) (filter is_decode (scheduled_seq_groups out))"
    using assms(2,3) by (auto simp: split_groups_def split_aligned_def)
  then show "distinct (map group_id firsts)"
    using assms(1) by (simp add: engine_ok_def distinct_map_filter)
  show "g \<in> set firsts \<Longrightarrow> group_id g \<notin> A" "g \<in> set post \<Longrightarrow> group_id g \<in> A"
    "g \<in> set post \<union> set firsts \<Longrightarrow> group_id g \<in> running_ids st"
    "g \<in> set firsts \<Longrightarrow> group_id g \<in> qids (buffer st) j \<Longrightarrow> j = group_adapter g"
    using assms by (auto simp: split_groups_def split_aligned_def engine_ok_def)
qed

lemma sched_ok_cong:
  assumes "sched_ok st" and "queues (buffer st') = queues (buffer st)"
    and "seq_enqueue (buffer st') = seq_enqueue (buffer st)" and "shadow (buffer st') = shadow (buffer st)"
    and "enqueue_time (buffer st') = enqueue_time (buffer st)" and "post_aligned st' \<subseteq> post_aligned st"
  shows "sched_ok st'"
proof -
  have q: "qids (buffer st') k = qids (buffer st) k" "queue_of (buffer st') k = queue_of (buffer st) k" for k
    using assms(2) by (simp_all add: qids_def queue_of_def)
  then have "queued_once (buffer st')"
    using assms(1-5) by (simp add: sched_ok_def queued_once_def buf_ok_def)
  moreover have "qids (buffer st') k \<inter> post_aligned st' = {}" for k
    using assms(1,6) q(1) [of k] unfolding sched_ok_def by blast
  ultimately show ?thesis by (simp add: sched_ok_def)
qed

subsection \<open>The modes without draining\<close>

text \<open>
  A tick of the threshold, PI, Erlang and CASH modes is: split, enqueue, one dispatch under some
  policy, collect, log. The state \<open>st1\<close> before the log has the buffer of the dispatch (but for
  T\_max), and \<open>post_aligned\<close> with the dispatched sequences, pruned to running ones at most.
\<close>

definition tick_parts ::
  "libs \<Rightarrow> clock \<Rightarrow> sched_out \<Rightarrow> 'm sched \<Rightarrow> scheduled list \<Rightarrow> scheduled list \<Rightarrow> scheduled list \<Rightarrow>
   (int, scheduled) dict \<Rightarrow> string abuf \<Rightarrow> string policy \<Rightarrow> string abuf \<Rightarrow> (string \<times> int) list \<Rightarrow>
   scheduled list \<Rightarrow> int list \<Rightarrow> 'm sched \<Rightarrow> 'm sched \<times> sched_out \<Rightarrow> bool" where
  "tick_parts L clk out st pre post firsts d b1 p b2 pairs aligned ids st1 result \<longleftrightarrow>
     enqueue_decode_groups clk firsts ([], buffer st) = (d, b1) \<and>
     dispatch p (Some (length post + length firsts)) (form_time clk) b1 = (b2, pairs) \<and> collect_aligned d pairs = (aligned, ids) \<and>
     queues (buffer st1) = queues b2 \<and> seq_enqueue (buffer st1) = seq_enqueue b2 \<and>
     shadow (buffer st1) = shadow b2 \<and> enqueue_time (buffer st1) = enqueue_time b2 \<and>
     post_aligned st1 \<subseteq> post_aligned st \<union> set ids \<and>
     (post_aligned st \<union> set ids) \<inter> running_ids st \<subseteq> post_aligned st1 \<and>
     metrics_file st1 = metrics_file st \<and> sched_mode st1 = sched_mode st \<and>
     log_if (log_enabled st) (log_war_stats L clk (adapter_order post @ aligned)) st1
       (emit pre post aligned out) = Inr result"

lemma split_aligned_length: "split_aligned A dec = (post, firsts) \<Longrightarrow> length dec = length post + length firsts"
  using sum_length_filter_compl [of "\<lambda>g. group_id g \<in> A" dec] by (auto simp: split_aligned_def)

lemma threshold_parts:
  assumes "vllm_available L" and sp: "split_groups out = (pre, dec)" and "dec \<noteq> []"
    and sa: "split_aligned (post_aligned st) dec = (post, firsts)"
    and r: "schedule_threshold L clk out st = Inr res"
  shows "\<exists>d b1 b2 pairs aligned ids st1.
    tick_parts L clk out st pre post firsts d b1 Static b2 pairs aligned ids st1 res"
proof -
  have n: "length dec = length post + length firsts" by (rule split_aligned_length [OF sa])
  obtain d b1 where e: "enqueue_decode_groups clk firsts ([], buffer st) = (d, b1)" by force
  obtain b2 pairs where t: "form_batch (Some (length dec)) (form_time clk) b1 = (b2, pairs)" by force
  obtain aligned ids where c: "collect_aligned d pairs = (aligned, ids)" by force
  define st1 where "st1 = st\<lparr>buffer := b2, post_aligned := post_aligned st \<union> set ids\<rparr>"
  have t': "dispatch Static (Some (length dec)) (form_time clk) b1 = (b2, pairs)" using t by simp
  have "log_if (log_enabled st) (log_war_stats L clk (adapter_order post @ aligned)) st1
      (emit pre post aligned out) = Inr res"
    using r assms(1,3) by (simp add: schedule_threshold_def sp sa e t c st1_def)
  then have "tick_parts L clk out st pre post firsts d b1 Static b2 pairs aligned ids st1 res"
    unfolding tick_parts_def using e c t' n by (simp add: st1_def)
  then show ?thesis by blast
qed

lemma pi_adapt_frame:
  assumes "pi_adapt L batch st = Inr st'"
  shows "queues (buffer st') = queues (buffer st) \<and> seq_enqueue (buffer st') = seq_enqueue (buffer st) \<and>
    shadow (buffer st') = shadow (buffer st) \<and> enqueue_time (buffer st') = enqueue_time (buffer st) \<and>
    post_aligned st' = post_aligned st \<and> running st' = running st \<and> metrics_file st' = metrics_file st \<and>
    sched_mode st' = sched_mode st"
  using assms by (auto simp: pi_adapt_def Let_def split: if_splits sum.splits option.splits prod.splits)

lemma pi_parts:
  assumes "vllm_available L" and sp: "split_groups out = (pre, dec)" and "dec \<noteq> []"
    and sa: "split_aligned (post_aligned st) dec = (post, firsts)"
    and r: "schedule_pi_adaptive L clk out st = Inr res"
  shows "\<exists>d b1 b2 pairs aligned ids st1.
    tick_parts L clk out st pre post firsts d b1 Static b2 pairs aligned ids st1 res"
proof -
  have n: "length dec = length post + length firsts" by (rule split_aligned_length [OF sa])
  obtain d b1 where e: "enqueue_decode_groups clk firsts ([], buffer st) = (d, b1)" by force
  obtain b2 pairs where t: "form_batch (Some (length dec)) (form_time clk) b1 = (b2, pairs)" by force
  obtain aligned ids where c: "collect_aligned d pairs = (aligned, ids)" by force
  have t': "dispatch Static (Some (length dec)) (form_time clk) b1 = (b2, pairs)" using t by simp
  define st0 where "st0 = st\<lparr>buffer := b2, post_aligned := post_aligned st \<union> set ids\<rparr>"
  obtain st1 where st1: "pi_adapt L (adapter_order post @ aligned) st0 = Inr st1"
    using r unfolding schedule_pi_adaptive_def sp sa split_conv e t c Let_def st0_def
    by (simp only: assms(1,3) not_True_eq_False if_False) (auto split: sum.splits)
  define st2 where "st2 = (if call_count st1 mod 50000 = 0
                           then st1\<lparr>post_aligned := post_aligned st1 \<inter> running_ids st1\<rparr> else st1)"
  have "log_if (log_enabled st) (log_war_stats L clk (adapter_order post @ aligned)) st2
      (emit pre post aligned out) = Inr res"
    using r assms(1,3) st1 unfolding schedule_pi_adaptive_def sp sa Let_def split_conv e t c
    by (simp add: st0_def st2_def)
  moreover note fr = pi_adapt_frame [OF st1]
  moreover have "running_ids st1 = running_ids st" using fr by (simp add: running_ids_def st0_def)
  ultimately have "tick_parts L clk out st pre post firsts d b1 Static b2 pairs aligned ids st2 res"
    unfolding tick_parts_def using e c t' n
    by (auto simp: st0_def st2_def)
  then show ?thesis by blast
qed

text \<open>The modes with a rate estimator enqueue in the other loop.\<close>

lemma arrivals_enqueue:
  "enqueue_decode_groups clk firsts ([], buffer st) =
     (by_seq (enqueue_arrivals clk firsts (start_arrivals st)),
      arr_buffer (enqueue_arrivals clk firsts (start_arrivals st)))"
  using arrivals_loop [of clk firsts "start_arrivals st"] by (simp add: start_arrivals_def)

lemma erlang_parts:
  assumes "vllm_available L" and sp: "split_groups out = (pre, dec)" and "dec \<noteq> []"
    and sa: "split_aligned (post_aligned st) dec = (post, firsts)"
    and r: "schedule_erlang L clk out st = Inr res"
  shows "\<exists>d b1 tk b2 pairs aligned ids st1.
    tick_parts L clk out st pre post firsts d b1 (Erlang tk) b2 pairs aligned ids st1 res"
proof -
  have n: "length dec = length post + length firsts" by (rule split_aligned_length [OF sa])
  define a where "a = enqueue_arrivals clk firsts (start_arrivals st)"
  define s1 where "s1 = st\<lparr>buffer := arr_buffer a, sched_estimator := arr_estimator a\<rparr>"
  define rates where "rates = get_all_rates (sched_estimator s1)"
  have r1: "(case apply_cold_start_boost L clk (deadlines L rates s1) rates (updated_adapters a) s1 of
             Inl e \<Rightarrow> Inl e
           | Inr (tmax_k, cm) \<Rightarrow>
               (let (b2, pairs) = form_batch_erlang tmax_k (Some (length dec)) (form_time clk) (buffer s1);
                    (aligned, ids) = collect_aligned (by_seq a) pairs;
                    st2 = s1\<lparr>cache_mgr := cm, buffer := b2, post_aligned := post_aligned s1 \<union> set ids\<rparr>
                in log_if (log_enabled st) (log_war_stats L clk (adapter_order post @ aligned)) st2
                     (emit pre post aligned out))) = Inr res"
    using r unfolding schedule_erlang_def sp sa split_conv Let_def a_def s1_def rates_def
    by (simp only: assms(1,3) not_True_eq_False if_False)
  obtain tk cm where tk: "apply_cold_start_boost L clk (deadlines L rates s1) rates (updated_adapters a) s1 = Inr (tk, cm)"
    using r1 by (auto split: sum.splits)
  obtain b2 pairs where t: "form_batch_erlang tk (Some (length dec)) (form_time clk) (buffer s1) = (b2, pairs)"
    by force
  obtain aligned ids where c: "collect_aligned (by_seq a) pairs = (aligned, ids)" by force
  have t': "dispatch (Erlang tk) (Some (length dec)) (form_time clk) (arr_buffer a) = (b2, pairs)"
    using t by (simp add: s1_def)
  define st1 where "st1 = s1\<lparr>cache_mgr := cm, buffer := b2, post_aligned := post_aligned s1 \<union> set ids\<rparr>"
  have "log_if (log_enabled st) (log_war_stats L clk (adapter_order post @ aligned)) st1
      (emit pre post aligned out) = Inr res"
    using r1 by (simp add: tk t c st1_def)
  then have "tick_parts L clk out st pre post firsts (by_seq a) (arr_buffer a) (Erlang tk) b2 pairs aligned ids st1 res"
    unfolding tick_parts_def using arrivals_enqueue [of clk firsts st] c t' n
    by (simp add: a_def st1_def s1_def)
  then show ?thesis by blast
qed

lemma cash_parts:
  assumes "vllm_available L" and sp: "split_groups out = (pre, dec)" and "dec \<noteq> []"
    and sa: "split_aligned (post_aligned st) dec = (post, firsts)"
    and r: "schedule_cash L clk out st = Inr res"
  shows "\<exists>d b1 ks tk b2 pairs aligned ids st1.
    tick_parts L clk out st pre post firsts d b1 (Cash ks tk) b2 pairs aligned ids st1 res"
proof -
  have n: "length dec = length post + length firsts" by (rule split_aligned_length [OF sa])
  define a where "a = enqueue_arrivals clk firsts (start_arrivals st)"
  define s1 where "s1 = st\<lparr>buffer := arr_buffer a, sched_estimator := arr_estimator a\<rparr>"
  define rates where "rates = get_all_rates (sched_estimator s1)"
  define tk where "tk = deadlines L rates s1"
  obtain cm where cm: "update_prefetch_cache L clk rates (updated_adapters a) (cache_mgr s1) = Inr cm"
    using r unfolding schedule_cash_def sp sa split_conv Let_def a_def s1_def rates_def
    by (simp only: assms(1,3) not_True_eq_False if_False) (auto split: sum.splits)
  define s2 where "s2 = s1\<lparr>cache_mgr := cm\<rparr>"
  have r1: "(case cash_order L clk tk rates s2 of
                  Inl e \<Rightarrow> Inl e
                | Inr (ranked, seen) \<Rightarrow>
                    (let (b2, pairs) = form_batch_cash ranked tk (Some (length dec)) (form_time clk) (buffer s2);
                         (aligned, ids) = collect_aligned (by_seq a) pairs;
                         st3 = s2\<lparr>cold_first_seen := seen, buffer := b2,
                                   post_aligned := post_aligned s2 \<union> set ids\<rparr>
                     in log_if (log_enabled st) (log_war_stats L clk (adapter_order post @ aligned)) st3
                          (emit pre post aligned out))) = Inr res"
    using r cm unfolding schedule_cash_def sp sa split_conv Let_def a_def s1_def s2_def rates_def tk_def
    by (simp only: assms(1,3) not_True_eq_False if_False sum.case)
  obtain ranked seen where ro: "cash_order L clk tk rates s2 = Inr (ranked, seen)"
    using r1 by (auto split: sum.splits)
  obtain b2 pairs where t: "form_batch_cash ranked tk (Some (length dec)) (form_time clk) (buffer s2) = (b2, pairs)"
    by force
  obtain aligned ids where c: "collect_aligned (by_seq a) pairs = (aligned, ids)" by force
  have t': "dispatch (Cash ranked tk) (Some (length dec)) (form_time clk) (arr_buffer a) = (b2, pairs)"
    using t by (simp add: s1_def s2_def)
  define st1 where "st1 = s2\<lparr>cold_first_seen := seen, buffer := b2, post_aligned := post_aligned s2 \<union> set ids\<rparr>"
  have "log_if (log_enabled st) (log_war_stats L clk (adapter_order post @ aligned)) st1
      (emit pre post aligned out) = Inr res"
    using r1 by (simp add: ro t c st1_def)
  then have "tick_parts L clk out st pre post firsts (by_seq a) (arr_buffer a) (Cash ranked tk) b2 pairs aligned ids st1 res"
    unfolding tick_parts_def using arrivals_enqueue [of clk firsts st] c t' n
    by (simp add: a_def st1_def s1_def s2_def)
  then show ?thesis by blast
qed

lemma parts_serve:
  assumes ok: "sched_ok st" and eng: "engine_ok st out"
    and sp: "split_groups out = (pre, dec)" "split_aligned (post_aligned st) dec = (post, firsts)"
    and parts: "tick_parts L clk out st pre post firsts d b1 p b2 pairs aligned ids st1 (st', out')"
    and "dec \<noteq> []" and "policy_of mode p" and "mode \<noteq> ''wgkp''"
  shows "sched_ok st' \<and> tick_serves clk mode (buffer st) (post_aligned st) out st' out'"
proof -
  from parts have e: "enqueue_decode_groups clk firsts ([], buffer st) = (d, b1)"
    and t: "dispatch p (Some (length post + length firsts)) (form_time clk) b1 = (b2, pairs)"
    and c: "collect_aligned d pairs = (aligned, ids)"
    and buf: "queues (buffer st1) = queues b2" "seq_enqueue (buffer st1) = seq_enqueue b2"
      "shadow (buffer st1) = shadow b2" "enqueue_time (buffer st1) = enqueue_time b2"
    and pa: "post_aligned st1 \<subseteq> post_aligned st \<union> set ids"
      "(post_aligned st \<union> set ids) \<inter> running_ids st \<subseteq> post_aligned st1"
    and lg: "log_if (log_enabled st) (log_war_stats L clk (adapter_order post @ aligned)) st1
       (emit pre post aligned out) = Inr (st', out')"
    unfolding tick_parts_def by simp_all
  have q: "queued_once (buffer st)" and A: "\<And>k. qids (buffer st) k \<inter> post_aligned st = {}"
    using ok by (auto simp: sched_ok_def)
  note ids = ids_of_split [OF eng sp]
  note core = dispatch_core [OF q A ids(1,2) e t c]
  have n: "length dec = length post + length firsts" by (rule split_aligned_length [OF sp(2)])
  have t1: "dispatch p (Some (length dec)) (form_time clk) (snd (enqueue_decode_groups clk firsts ([], buffer st))) = (b2, pairs)"
    using t e n by simp
  show ?thesis
  proof (rule finish_tick [OF sp eng assms(6,7) t1 _ core(3,4) _ _ _ _ _ _ lg log_is_append(1)])
    show "aligned = (if mode = ''wgkp'' \<and> pre = [] \<and> post = [] \<and> dispatched firsts pairs = [] then firsts
        else dispatched firsts pairs)" using assms(8) core(9) by auto
    show "group_id g \<in> qids (buffer st1) (group_adapter g) \<or> lost (buffer st) (group_id g)"
      if "g \<in> set firsts" "g \<notin> set aligned" for g
    proof -
      have "group_id g \<in> qids b2 (group_adapter g) \<or> lost (buffer st) (group_id g)"
        using core(10) [of g] ids(5) [OF that(1)] that by blast
      then show ?thesis using buf(1) by (simp add: qids_def queue_of_def)
    qed
    show "group_id ` set post \<subseteq> post_aligned st1" using ids(3,4) pa(2) by auto
    show "group_id g \<in> post_aligned st1 \<longleftrightarrow> g \<in> set aligned" if "g \<in> set firsts" for g
      using that ids(2) [OF that] ids(4) [of g] core(7) [of g] pa by auto
    show "is_buffered (buffer st1) (group_id g)" if "g \<in> set firsts" for g
      using that core(6) by (auto simp: is_buffered_def dict_has_iff buf)
    show "set (adapter_order post @ aligned) \<subseteq> set post \<union> set aligned" by simp
    have "sched_ok (st\<lparr>buffer := b2, post_aligned := post_aligned st \<union> set ids\<rparr>)"
      using core(1,2) by (auto simp: sched_ok_def)
    then show "sched_ok st1" by (rule sched_ok_cong) (use buf pa in simp_all)
    show "scheduled_seq_groups (emit pre post aligned out) = pre @ adapter_order post @ aligned"
      by (simp add: emit_def)
  qed
qed

text \<open>The early release of a step that would be empty.\<close>

lemma drain_core:
  assumes b: "queued_once b" and disj: "\<And>k. qids b k \<inter> S = {}"
    and firsts: "distinct (map group_id firsts)"
      "\<And>g j. g \<in> set firsts \<Longrightarrow> group_id g \<in> qids b j \<Longrightarrow> j = group_adapter g"
    and d: "(drained, b') = (if e then drain_remaining firsts S b else ([], b))"
    and D: "D = set (map group_id drained)"
  shows "queued_once (release_set D b')" and "qids (release_set D b') k \<inter> (S \<union> D) = {}"
    and "qids (release_set D b') k \<subseteq> qids b k"
    and "fst ` set (seq_enqueue (release_set D b')) = fst ` set (seq_enqueue b) - D"
    and "drained = (if e then filter (\<lambda>g. group_id g \<notin> S) firsts else [])"
proof -
  show dr: "drained = (if e then filter (\<lambda>g. group_id g \<notin> S) firsts else [])"
    using d drain_spec [OF b, of firsts S drained b'] by (cases e) auto
  have sp: "queued_once b' \<and> seq_enqueue b' = seq_enqueue b \<and>
    (\<forall>k. qids b' k = qids b k - (if e then {group_id g |g. g \<in> set firsts \<and> group_id g \<notin> S \<and> group_adapter g = k} else {}))"
  proof (cases e)
    case True
    then have "drain_remaining firsts S b = (drained, b')" using d by simp
    from drain_spec [OF b this] True show ?thesis by simp
  next
    case False
    then show ?thesis using d b by simp
  qed
  have D': "D \<subseteq> group_id ` set firsts" "D \<inter> S = {}" by (auto simp: D dr)
  have q: "qids b' j \<inter> D = {}" for j
  proof -
    have "s \<notin> qids b' j" if s: "s \<in> D" for s
    proof
      assume sj: "s \<in> qids b' j"
      from s obtain g where g: "g \<in> set firsts" "group_id g = s" "s \<notin> S" e
        by (auto simp: D dr split: if_splits)
      have "s \<in> qids b j" using sj sp by auto
      then have "group_adapter g = j" using firsts(2) [OF g(1)] g(2) by blast
      then show False using sj sp g by auto
    qed
    then show ?thesis by blast
  qed
  show "queued_once (release_set D b')" using sp q by (intro release_set_queued_once) auto
  show "qids (release_set D b') k \<inter> (S \<union> D) = {}" "qids (release_set D b') k \<subseteq> qids b k"
    using sp q [of k] disj [of k] by auto
  show "fst ` set (seq_enqueue (release_set D b')) = fst ` set (seq_enqueue b) - D" using sp by simp
qed

lemma wgkp_dispatch_serves:
  assumes b: "queued_once b" and A: "\<And>k. qids b k \<inter> A = {}"
    and eng: "engine_ok st0 out" and sp: "split_groups out = (pre, dec)" "split_aligned A dec = (post, firsts)"
    and adapter: "\<And>g j. g \<in> set firsts \<Longrightarrow> group_id g \<in> qids b j \<Longrightarrow> j = group_adapter g"
    and e: "enqueue_decode_groups clk firsts ([], b) = (d, b1)"
    and st2: "buffer st2 = b1" "post_aligned st2 = A"
    and r: "wgkp_dispatch L clk out pre post firsts (length dec) d rates tmax_k ranked st2 = Inr (st', out')"
    and dec: "dec \<noteq> []"
  shows "sched_ok st' \<and> tick_serves clk ''wgkp'' b A out st' out'"
    and "scheduled_seq_groups out' \<noteq> []"
proof -
  define pending where "pending = pending_count (buffer st2)"
  define mean_depth where "mean_depth = real (sum_list (map snd pending)) / real (max (length pending) 1)"
  define st3 where "st3 = st2\<lparr>sched_apt := map_option (apt_update mean_depth) (sched_apt st2)\<rparr>"
  define n_prom where "n_prom = current_n_star st3"
  obtain mwc' ms where m: "l3_step pending rates n_prom st3 = (mwc', ms)" by force
  obtain b3 raw where t: "form_batch_wgkp ranked tmax_k n_prom ms (Some (length dec)) (form_time clk) (buffer st3) = (b3, raw)"
    by force
  obtain segs disp where sg: "segments_of_batch raw (wgkp_dispatcher st3) = (segs, disp)" by force
  obtain aligned ids where c: "collect_aligned d (map token_of raw) = (aligned, ids)" by force
  define empt where "empt = (pre = [] \<and> post = [] \<and> aligned = [])"
  obtain drained b5 where dr: "(if empt then drain_remaining firsts (set ids) (release_set (set ids) b3)
      else ([], release_set (set ids) b3)) = (drained, b5)" by force
  define D where "D = set (map group_id drained)"
  define st4 where "st4 = st3\<lparr>shared_mwc := mwc', wgkp_dispatcher := disp, buffer := release_set D b5,
                    post_aligned := post_aligned st3 \<union> set ids \<union> D\<rparr>"
  define out1 where "out1 = emit pre post (aligned @ drained) out"
  define out2 where "out2 = (if segs = [] then out1 else out1\<lparr>wgkp_segments := Some segs\<rparr>)"
  have lg: "log_if (log_enabled st2) (log_war_stats_wgkp L clk n_prom (adapter_order post @ aligned)) st4 out2
      = Inr (st', out')"
    using r unfolding wgkp_dispatch_def Let_def pending_def [symmetric] mean_depth_def [symmetric]
      st3_def [symmetric] n_prom_def [symmetric] m split_conv t sg c empt_def [symmetric] dr
      D_def [symmetric] st4_def [symmetric] out1_def [symmetric] out2_def [symmetric] .
  have t': "dispatch (Wgkp ranked tmax_k n_prom ms) (Some (length dec)) (form_time clk) b1 = (b3, map token_of raw)"
    using t st2 by (simp add: st3_def)
  note ids = ids_of_split [OF eng sp]
  note core = dispatch_core [OF b A ids(1,2) e t' c]
  have b4: "queued_once (release_set (set ids) b3)" "\<And>k. qids (release_set (set ids) b3) k \<inter> set ids = {}"
    using core(1,2) by (auto intro: release_set_queued_once)
  have ad: "j = group_adapter g" if "g \<in> set firsts" "group_id g \<in> qids (release_set (set ids) b3) j" for g j
    using core(8) [of g j] that adapter [OF that(1)] by auto
  have D: "queued_once (release_set D b5)" "\<And>k. qids (release_set D b5) k \<inter> (set ids \<union> D) = {}"
    "\<And>k. qids (release_set D b5) k \<subseteq> qids (release_set (set ids) b3) k"
    "fst ` set (seq_enqueue (release_set D b5)) = fst ` set (seq_enqueue (release_set (set ids) b3)) - D"
    "drained = (if empt then filter (\<lambda>g. group_id g \<notin> set ids) firsts else [])"
    using drain_core [OF b4 ids(1) _ dr [symmetric] D_def] ad by blast+
  have al: "set aligned = {g \<in> set firsts. group_id g \<in> set ids}"
    using core(3,7) by blast
  have dset: "set drained = (if empt then {g \<in> set firsts. group_id g \<notin> set ids} else {})"
    unfolding D(5) by simp
  have out2: "scheduled_seq_groups out2 = pre @ adapter_order post @ aligned @ drained"
    by (simp add: out2_def out1_def emit_def)
  have "out' = out2" using lg by (auto simp: log_if_def split: if_splits sum.splits)
  moreover have "dec = []" if "pre @ adapter_order post @ aligned @ drained = []"
  proof -
    have none: "pre = []" "adapter_order post = []" "aligned = []" "drained = []" using that by auto
    then have "post = []" by (metis set_adapter_order set_empty)
    moreover have "ids = []" using core(5) none by simp
    ultimately have "firsts = []" using D(5) none by (simp add: empt_def)
    with \<open>post = []\<close> sp(2) show "dec = []" by (auto simp: split_aligned_def filter_empty_conv)
  qed
  ultimately show "scheduled_seq_groups out' \<noteq> []" using out2 dec by metis
  have pol: "policy_of ''wgkp'' (Wgkp ranked tmax_k n_prom ms)" by (simp add: policy_of_def)
  have t1: "dispatch (Wgkp ranked tmax_k n_prom ms) (Some (length dec)) (form_time clk)
      (snd (enqueue_decode_groups clk firsts ([], b))) = (b3, map token_of raw)" using t' e by simp
  show "sched_ok st' \<and> tick_serves clk ''wgkp'' b A out st' out'"
  proof (rule finish_tick [OF sp eng dec pol t1, of "aligned @ drained" st4, OF _ _ _ _ _ _ _ _ _ lg log_is_append(2)])
    have "aligned = dispatched firsts (map token_of raw)" "aligned = [] \<Longrightarrow> ids = []" using core(5,9) by auto
    then show "aligned @ drained = (if ''wgkp'' = ''wgkp'' \<and> pre = [] \<and> post = [] \<and> dispatched firsts (map token_of raw) = []
        then firsts else dispatched firsts (map token_of raw))"
      by (auto simp: D(5) empt_def)
    show "group_id g \<in> qids (buffer st4) (group_adapter g) \<or> lost b (group_id g)"
      if g: "g \<in> set firsts" "g \<notin> set (aligned @ drained)" for g
    proof -
      have "\<not> empt" using g dset al by (auto split: if_splits)
      then have "b5 = release_set (set ids) b3" using dr by simp
      then have "qids (buffer st4) k = qids b3 k" for k by (simp add: st4_def)
      moreover have "group_id g \<in> qids b3 (group_adapter g) \<or> lost b (group_id g)"
        using core(10) [of g] adapter [OF g(1)] g by auto
      ultimately show ?thesis by simp
    qed
    show "set (aligned @ drained) \<subseteq> set firsts" using al dset by auto
    have "distinct firsts" using ids(1) by (simp add: distinct_map)
    then show "distinct (aligned @ drained)" using core(4) al by (auto simp: D(5))
    show "group_id ` set post \<subseteq> post_aligned st4" using ids(3) st2(2) by (auto simp: st4_def st3_def)
    show "group_id g \<in> post_aligned st4 \<longleftrightarrow> g \<in> set (aligned @ drained)" if g: "g \<in> set firsts" for g
    proof -
      have "inj_on group_id (set firsts)" using ids(1) by (simp add: distinct_map)
      then have "group_id g \<in> D \<longleftrightarrow> g \<in> set drained"
        using g dset by (auto simp: D_def inj_on_def split: if_splits)
      then show ?thesis using ids(2) [OF g] g st2(2) al by (auto simp: st4_def st3_def)
    qed
    show "is_buffered (buffer st4) (group_id g)" if g: "g \<in> set firsts" "g \<notin> set (aligned @ drained)" for g
    proof -
      have "group_id g \<notin> D"
        using g ids(1) dset by (auto simp: D_def distinct_map inj_on_def split: if_splits)
      moreover have "fst ` set (seq_enqueue (buffer st4)) = fst ` set (seq_enqueue b3) - set ids - D"
        unfolding st4_def using D(4) by simp
      ultimately show ?thesis
        using g al core(6) by (auto simp: is_buffered_def dict_has_iff)
    qed
    show "set (adapter_order post @ aligned) \<subseteq> set post \<union> set (aligned @ drained)" by auto
    have "qids (release_set D b5) k \<inter> A = {}" for k using D(3) [of k] core(2) [of k] by auto
    then show "sched_ok st4"
      using D(1,2) st2(2) by (auto simp: sched_ok_def st4_def st3_def)
    show "scheduled_seq_groups out2 = pre @ adapter_order post @ aligned @ drained" by (rule out2)
  qed
qed

lemma wgkp_serves:
  assumes ok: "sched_ok st0" and eng: "engine_ok st0 out" and "vllm_available L"
    and r: "schedule_wgkp L clk out st0 = Inr (st', out')"
  shows "sched_ok st' \<and>
    tick_serves clk ''wgkp'' (release_set (post_aligned st0 - running_ids st0) (buffer st0)) (post_aligned st0) out st' out' \<and>
    (list_ex is_decode (scheduled_seq_groups out) \<longrightarrow> scheduled_seq_groups out' \<noteq> [])"
proof -
  obtain pre dec where sp: "split_groups out = (pre, dec)" by force
  show ?thesis
  proof (cases "dec = []")
    case True
    then show ?thesis
      using assms sp serves_nothing [of out pre]
      by (auto simp: schedule_wgkp_def split_groups_def list_ex_iff filter_empty_conv)
  next
    case False
    define stale where "stale = post_aligned st0 - running_ids st0"
    define st where "st = st0\<lparr>post_aligned := post_aligned st0 - stale, buffer := release_set stale (buffer st0)\<rparr>"
    have "split_aligned (post_aligned st) dec = split_aligned (post_aligned st0) dec"
      using eng sp by (auto simp: split_aligned_def split_groups_def engine_ok_def st_def stale_def
          intro!: filter_cong)
    moreover obtain post firsts where "split_aligned (post_aligned st) dec = (post, firsts)" by force
    ultimately have sa: "split_aligned (post_aligned st) dec = (post, firsts)"
      "split_aligned (post_aligned st0) dec = (post, firsts)" by auto
    define a where "a = enqueue_arrivals clk firsts (start_arrivals st)"
    define st1 where "st1 = st\<lparr>lora_info := note_loras firsts (lora_info st), buffer := arr_buffer a,
                          sched_estimator := arr_estimator a\<rparr>"
    define rates where "rates = get_all_rates (sched_estimator st1)"
    define tk where "tk = deadlines L rates st1"
    note r1 = r [unfolded schedule_wgkp_def sp split_conv Let_def stale_def [symmetric] st_def [symmetric] sa(1)
        a_def [symmetric] st1_def [symmetric] rates_def [symmetric] tk_def [symmetric]]
    obtain cm where cm: "update_prefetch_cache L clk rates (updated_adapters a) (cache_mgr st1) = Inr cm"
      using r1 by (simp only: assms(3) False not_True_eq_False if_False) (auto split: sum.splits)
    obtain ranked seen where ro: "cash_order L clk tk rates (st1\<lparr>cache_mgr := cm\<rparr>) = Inr (ranked, seen)"
      using r1 by (simp only: assms(3) False cm not_True_eq_False if_False sum.case) (auto split: sum.splits)
    have w: "wgkp_dispatch L clk out pre post firsts (length dec) (by_seq a) rates tk ranked
        (st1\<lparr>cache_mgr := cm, cold_first_seen := seen\<rparr>) = Inr (st', out')"
      using r1 by (simp only: assms(3) False cm ro not_True_eq_False if_False sum.case split_conv)
    have q: "queued_once (buffer st0)" "\<And>k. qids (buffer st0) k \<inter> post_aligned st0 = {}"
      using ok by (auto simp: sched_ok_def)
    have b: "queued_once (buffer st)" "\<And>k. qids (buffer st) k \<inter> post_aligned st = {}"
      using q by (auto simp: st_def stale_def intro!: release_set_queued_once)
    have e: "enqueue_decode_groups clk firsts ([], buffer st) = (by_seq a, arr_buffer a)"
      using arrivals_loop [of clk firsts "start_arrivals st"] by (simp add: a_def start_arrivals_def)
    have ad: "j = group_adapter g" if "g \<in> set firsts" "group_id g \<in> qids (buffer st) j" for g j
      using ids_of_split(5) [OF eng sp sa(2) that(1)] that(2) by (simp add: st_def)
    have "sched_ok st' \<and> tick_serves clk ''wgkp'' (buffer st) (post_aligned st) out st' out'"
      by (rule wgkp_dispatch_serves(1) [OF b eng sp sa(1) ad e _ _ w False]) (simp_all add: st1_def)
    moreover have "scheduled_seq_groups out' \<noteq> []"
      by (rule wgkp_dispatch_serves(2) [OF b eng sp sa(1) ad e _ _ w False]) (simp_all add: st1_def)
    moreover have "tick_serves clk ''wgkp'' (buffer st) (post_aligned st) out st' out' =
        tick_serves clk ''wgkp'' (buffer st) (post_aligned st0) out st' out'"
      by (simp add: tick_serves_def sp sa)
    moreover have "buffer st = release_set (post_aligned st0 - running_ids st0) (buffer st0)" by (simp add: st_def stale_def)
    ultimately show ?thesis by simp
  qed
qed

end
