(* ===== verification/Scheduler.thy ===== *)
theory Scheduler
  imports SchedBatch
begin

text \<open>
  Reachable states of the scheduler and the guarantees of its ticks: which groups a batch
  holds, in which order, and which sequences never run.
\<close>

subsection \<open>Reachable states\<close>

text \<open>
  Between two ticks the engine changes its running and waiting queues, and admission changes the
  set of draining adapters; nothing else touches the scheduler.
\<close>

inductive sched_reach :: "libs \<Rightarrow> 'm sched \<Rightarrow> bool" for L where
  start: "scheduler_init env read path mwc t0 = Inr st \<Longrightarrow> sched_reach L st"
| engine: "sched_reach L st \<Longrightarrow> sched_reach L (st\<lparr>running := r, waiting := w, draining := d\<rparr>)"
| tick: "sched_reach L st \<Longrightarrow> engine_ok st out \<Longrightarrow> schedule_tick L clk out st = Inr (st', out') \<Longrightarrow>
    sched_reach L st'"

lemma sched_ok_call_count [simp]:
  "sched_ok (st\<lparr>call_count := n\<rparr>) = sched_ok st" "engine_ok (st\<lparr>call_count := n\<rparr>) out = engine_ok st out"
  by (simp_all add: sched_ok_def engine_ok_def running_ids_def)

text \<open>Every mode but WGKP takes one dispatch apart in the same way.\<close>

lemma tick_has_parts:
  assumes "vllm_available L" and "sched_mode st \<noteq> ''wgkp''"
    and r: "schedule_tick L clk out st = Inr res"
    and "split_groups out = (pre, dec)" and "dec \<noteq> []" and "split_aligned (post_aligned st) dec = (post, firsts)"
  shows "\<exists>d b1 p b2 pairs aligned ids st1. policy_of (sched_mode st) p \<and> tick_parts L clk out (st\<lparr>call_count := call_count st + 1\<rparr>)
      pre post firsts d b1 p b2 pairs aligned ids st1 res"
proof -
  define s0 where "s0 = st\<lparr>call_count := call_count st + 1\<rparr>"
  have sa: "split_aligned (post_aligned s0) dec = (post, firsts)" and m: "sched_mode s0 \<noteq> ''wgkp''"
    using assms(2,6) by (simp_all add: s0_def)
  consider (pi) "sched_mode s0 = ''pi_adaptive''" | (er) "sched_mode s0 = ''erlang''" | (ca) "sched_mode s0 = ''cash''"
    | (th) "sched_mode s0 \<notin> {''pi_adaptive'', ''wgkp'', ''erlang'', ''cash''}" using m by blast
  then show ?thesis
  proof cases
    case pi
    then have "policy_of (sched_mode st) Static" by (simp add: policy_of_def s0_def)
    moreover have "schedule_pi_adaptive L clk out s0 = Inr res" using pi m r by (simp add: schedule_tick_def Let_def s0_def)
    ultimately show ?thesis using pi_parts [OF assms(1,4,5) sa] unfolding s0_def [symmetric] by blast
  next
    case er
    then have "policy_of (sched_mode st) (Erlang tk)" for tk by (simp add: policy_of_def s0_def)
    moreover have "schedule_erlang L clk out s0 = Inr res" using er m r by (simp add: schedule_tick_def Let_def s0_def)
    ultimately show ?thesis using erlang_parts [OF assms(1,4,5) sa] unfolding s0_def [symmetric] by blast
  next
    case ca
    then have "schedule_cash L clk out s0 = Inr res" using m r by (simp add: schedule_tick_def Let_def s0_def)
    then obtain d b1 ks tk b2 pairs aligned ids st1
      where t: "tick_parts L clk out s0 pre post firsts d b1 (Cash ks tk) b2 pairs aligned ids st1 res"
      using cash_parts [OF assms(1,4,5) sa] by blast
    have "policy_of (sched_mode st) (Cash ks tk)" using ca by (simp add: policy_of_def s0_def)
    then show ?thesis using t unfolding s0_def [symmetric] by blast
  next
    case th
    then have "policy_of (sched_mode st) Static" by (simp add: policy_of_def s0_def)
    moreover have "schedule_threshold L clk out s0 = Inr res" using th m r by (simp add: schedule_tick_def Let_def s0_def)
    ultimately show ?thesis using threshold_parts [OF assms(1,4,5) sa] unfolding s0_def [symmetric] by blast
  qed
qed

lemma quiet_selection:
  assumes "split_groups out = (pre, [])"
  shows "schedule_tick L clk out st = Inr (st\<lparr>call_count := call_count st + 1\<rparr>, out)"
  using assms by (simp add: schedule_tick_def schedule_pi_adaptive_def schedule_wgkp_def schedule_erlang_def
      schedule_cash_def schedule_threshold_def Let_def)

text \<open>The buffer a tick finds: WGKP releases the records of sequences that no longer run first.\<close>

definition tick_buffer :: "'m sched \<Rightarrow> string abuf" where
  "tick_buffer st = (if sched_mode st = ''wgkp'' then release_set (post_aligned st - running_ids st) (buffer st) else buffer st)"

lemma tick_serves_state:
  assumes "sched_ok st" and "engine_ok st out" and "vllm_available L"
    and r: "schedule_tick L clk out st = Inr (st', out')"
  shows "sched_ok st' \<and> tick_serves clk (sched_mode st) (tick_buffer st) (post_aligned st) out st' out'"
proof -
  define s0 where "s0 = st\<lparr>call_count := call_count st + 1\<rparr>"
  have s0: "sched_ok s0" "engine_ok s0 out" "post_aligned s0 = post_aligned st"
    "buffer s0 = buffer st" "running_ids s0 = running_ids st"
    using assms(1,2) by (simp_all add: s0_def running_ids_def)
  obtain pre dec where sp: "split_groups out = (pre, dec)" by force
  obtain post firsts where sa: "split_aligned (post_aligned s0) dec = (post, firsts)" by force
  show ?thesis
  proof (cases "sched_mode st = ''wgkp''")
    case True
    then have "schedule_wgkp L clk out s0 = Inr (st', out')" using r by (simp add: schedule_tick_def Let_def s0_def)
    from wgkp_serves [OF s0(1,2) assms(3) this] show ?thesis using True by (simp add: s0(3-5) tick_buffer_def)
  next
    case False
    show ?thesis
    proof (cases "dec = []")
      case True
      then show ?thesis
        using r sp quiet_selection [of out pre L clk st] serves_nothing [of out pre] assms(1) by auto
    next
      case dec: False
      obtain d b1 p b2 pairs aligned ids st1
        where pol: "policy_of (sched_mode st) p" and parts: "tick_parts L clk out s0 pre post firsts d b1 p b2 pairs aligned ids st1 (st', out')"
        using tick_has_parts [OF assms(3) False r sp dec] sa s0(3) unfolding s0_def by fastforce
      from parts_serve [OF s0(1,2) sp sa parts dec pol False] show ?thesis using False by (simp add: s0(3,4) tick_buffer_def)
    qed
  qed
qed

lemma unavailable_tick:
  "\<not> vllm_available L \<Longrightarrow> schedule_tick L clk out st = Inr (st\<lparr>call_count := call_count st + 1\<rparr>, out)"
  by (simp add: schedule_tick_def schedule_pi_adaptive_def schedule_wgkp_def schedule_erlang_def
      schedule_cash_def schedule_threshold_def Let_def)

lemma reach_ok: "sched_reach L st \<Longrightarrow> sched_ok st"
proof (induction rule: sched_reach.induct)
  case (start env read path mwc t0 st)
  then show ?case by (rule scheduler_init_ok)
next
  case (engine st r w d)
  then show ?case by (simp add: sched_ok_def)
next
  case (tick st out clk st' out')
  then show ?case
    using tick_serves_state [of st out L clk st' out'] by (cases "vllm_available L") (auto simp: unavailable_tick)
qed

subsection \<open>What a batch holds\<close>

lemma served_distinct:
  assumes "engine_ok st out" and "tick_serves clk mode b A out st' out'"
  shows "distinct (map group_id (scheduled_seq_groups out'))"
    and "set (scheduled_seq_groups out') \<subseteq> set (scheduled_seq_groups out)"
proof -
  define gs where "gs = scheduled_seq_groups out"
  have gs: "distinct (map group_id gs)" using assms(1) by (simp add: engine_ok_def gs_def)
  define pre dec where "pre = filter (\<lambda>g. \<not> is_decode g) gs" and "dec = filter is_decode gs"
  define post firsts where "post = filter (\<lambda>g. group_id g \<in> A) dec" and "firsts = filter (\<lambda>g. group_id g \<notin> A) dec"
  have "split_groups out = (pre, dec)" "split_aligned A dec = (post, firsts)"
    by (simp_all add: split_groups_def split_aligned_def gs_def pre_def dec_def post_def firsts_def)
  then obtain served where out': "scheduled_seq_groups out' = pre @ adapter_order post @ served"
    and s: "distinct served" "set served \<subseteq> set firsts"
    by (rule tick_servesE [OF assms(2)])
  have sub: "set pre \<union> set post \<union> set served \<subseteq> set gs"
    using s(2) by (auto simp: pre_def post_def firsts_def dec_def)
  then show "set (scheduled_seq_groups out') \<subseteq> set (scheduled_seq_groups out)"
    by (simp add: out' gs_def)
  have "distinct (pre @ adapter_order post @ served)"
    using gs s by (auto simp: distinct_map adapter_order_def pre_def post_def firsts_def dec_def)
  moreover have "inj_on group_id (set (pre @ adapter_order post @ served))"
    using gs sub by (auto simp: distinct_map intro: inj_on_subset)
  ultimately show "distinct (map group_id (scheduled_seq_groups out'))"
    unfolding out' distinct_map by blast
qed

text \<open>C1: Every tick of every mode, from every reachable state, composes its batch as documented:
  first the prefills as vLLM selected them, then all decode groups that were aligned before, in
  adapter order, then the new groups the buffer dispatched, in the order of the dispatch. The dispatch is one
  call of the mode's \<open>form_batch\<close> function (for some deadlines and ranking), on the buffer with all new groups
  offered and with the number of decode groups as budget, and the batch holds exactly the new groups this call
  returned (in WGKP mode all new groups, if the batch would be empty). No group is added or duplicated. A new
  group that is served leaves the queues and is marked as aligned. A new group that is not served is not marked
  and waits in the queue of its adapter, so it is offered to the next dispatch, unless an earlier tick had lost
  it: such a group has an enqueue record and stands in no queue.\<close>

theorem tick_composes_batch:
  assumes "sched_reach L st" and "vllm_available L" and "engine_ok st out"
    and "schedule_tick L clk out st = Inr (st', out')"
  shows "tick_serves clk (sched_mode st) (tick_buffer st) (post_aligned st) out st' out' \<and>
    distinct (map group_id (scheduled_seq_groups out')) \<and>
    set (scheduled_seq_groups out') \<subseteq> set (scheduled_seq_groups out)"
  using tick_serves_state [OF reach_ok [OF assms(1)] assms(3,2,4)] served_distinct [OF assms(3)] by blast

text \<open>A small instance: two adapters, one prefill, two new decode groups.\<close>

definition demo_libs :: libs where
  "demo_libs = \<lparr>gammainc = (\<lambda>n x. 0), gammaincinv = (\<lambda>n q. 1), lib_numpy = numpy_ref,
     str_hash = (\<lambda>s. 0), set_order = (\<lambda>xs. xs), vllm_available = True\<rparr>"

definition demo_clock :: "real \<Rightarrow> real \<Rightarrow> clock" where
  "demo_clock t dt = \<lparr>enq_time = (\<lambda>s. t), mono_time = t, form_time = t + dt, cash_time = t, cold_time = t,
     cache_time = (\<lambda>a. t), log_time = t\<rparr>"

definition demo_group :: "int \<Rightarrow> string \<Rightarrow> nat \<Rightarrow> scheduled" where
  "demo_group s a n = \<lparr>seq_group = \<lparr>obj_id = s, request_id = a,
     seqs = [\<lparr>sid = s, prompt_len = 2, seq_len = 2 + n, seq_status = RUNNING\<rparr>],
     lora_request = Some \<lparr>lora_name = a, lora_int_id = s, lora_path = a\<rparr>, stage_prefill = (n = 0),
     sg_finished = False, max_tokens = Some 8, arrival_time = 0, first_scheduled_time = None,
     first_token_time = None\<rparr>, token_chunk_size = 1\<rparr>"

definition demo_out :: "scheduled list \<Rightarrow> sched_out" where
  "demo_out gs = \<lparr>scheduled_seq_groups = gs, wgkp_segments = None\<rparr>"

lemmas demo_defs = demo_libs_def demo_clock_def demo_group_def demo_out_def

lemma demo_init: "\<exists>st. scheduler_init [] (\<lambda>p. None) [] None 0 = Inr (st :: 'm sched) \<and>
  sched_mode st = ''threshold'' \<and> log_enabled st = False \<and> buffer st = buffer_init [] 32 5 200 \<and>
  post_aligned st = {}"
  by (simp add: scheduler_init_def init_wgkp_def init_cache_def estimator_init_def Let_def dict_get_def)

lemmas tick_eval = schedule_tick_def schedule_threshold_def split_groups_def is_decode_def seqs_with_def
  split_aligned_def seq_group_id_def adapter_id_of_def collect_aligned_def emit_def log_if_def
  adapter_order_def Let_def enqueue_def buffer_init_def register_adapter_def is_buffered_def
  dict_set_def dict_get_def dict_has_def form_batch_def warp_body_def queue_of_def pop_front_def
  popped_def budget_of_def age_of_def head_time_def global_deadline_def List.map_filter_simps

lemma demo_tick:
  assumes "sched_mode st = ''threshold''" and "log_enabled st = False"
    and "buffer st = buffer_init [] 32 5 200" and "post_aligned st = {}"
  shows "\<exists>st'. schedule_tick demo_libs (demo_clock 0 1)
      (demo_out [demo_group 1 ''b'' 0, demo_group 2 ''b'' 1, demo_group 3 ''a'' 1]) st =
    Inr (st', demo_out [demo_group 1 ''b'' 0, demo_group 2 ''b'' 1, demo_group 3 ''a'' 1])"
  by (simp add: tick_eval demo_defs assms)

lemma demo_reach:
  "\<exists>st :: unit sched. sched_reach demo_libs st \<and> sched_mode st = ''threshold'' \<and> log_enabled st = False \<and>
     buffer st = buffer_init [] 32 5 200 \<and> post_aligned st = {} \<and> running st = map seq_group gs"
proof -
  obtain s0 :: "unit sched" where s0: "scheduler_init [] (\<lambda>p. None) [] None 0 = Inr s0"
    "sched_mode s0 = ''threshold''" "log_enabled s0 = False" "buffer s0 = buffer_init [] 32 5 200"
    "post_aligned s0 = {}"
    using demo_init [where 'm = unit] by blast
  let ?st = "s0\<lparr>running := map seq_group gs, waiting := [], draining := {}\<rparr>"
  have "sched_reach demo_libs ?st" by (intro sched_reach.engine sched_reach.start [OF s0(1)])
  with s0 show ?thesis by (intro exI [of _ ?st]) simp
qed

theorem tick_composes_batch_witness:
  "\<exists>(st :: unit sched) st' out'. sched_reach demo_libs st \<and>
     schedule_tick demo_libs (demo_clock 0 1)
       (demo_out [demo_group 1 ''b'' 0, demo_group 2 ''b'' 1, demo_group 3 ''a'' 1]) st = Inr (st', out') \<and>
     tick_serves (demo_clock 0 1) (sched_mode st) (buffer st) {} (demo_out [demo_group 1 ''b'' 0, demo_group 2 ''b'' 1, demo_group 3 ''a'' 1]) st' out' \<and>
     length (scheduled_seq_groups out') = 3 \<and> distinct (map group_id (scheduled_seq_groups out'))"
proof -
  let ?gs = "[demo_group 1 ''b'' 0, demo_group 2 ''b'' 1, demo_group 3 ''a'' 1]"
  obtain st :: "unit sched" where st: "sched_reach demo_libs st" "sched_mode st = ''threshold''"
    "log_enabled st = False" "buffer st = buffer_init [] 32 5 200" "post_aligned st = {}"
    "running st = map seq_group ?gs"
    using demo_reach [of ?gs] by blast
  obtain st' where t: "schedule_tick demo_libs (demo_clock 0 1) (demo_out ?gs) st = Inr (st', demo_out ?gs)"
    using demo_tick [OF st(2-5)] by blast
  have e: "engine_ok st (demo_out ?gs)"
    by (simp add: engine_ok_def demo_defs seq_group_id_def is_decode_def running_ids_def st(4,6)
        qids_def queue_of_def buffer_init_def dict_get_def)
  have "vllm_available demo_libs" by (simp add: demo_libs_def)
  from tick_composes_batch [OF st(1) this e t] st t show ?thesis by (auto simp: demo_out_def tick_buffer_def)
qed

text \<open>C2: A WGKP step is never empty: when vLLM selects at least one decode group, the batch holds
  at least one group, because sequences held back by the dispatch rules are released when nothing
  else would run. So holding tokens back never stops the engine.\<close>

theorem wgkp_step_is_never_empty:
  assumes "sched_reach L st" and "vllm_available L" and "engine_ok st out"
    and "sched_mode st = ''wgkp''" and "list_ex is_decode (scheduled_seq_groups out)"
    and "schedule_tick L clk out st = Inr (st', out')"
  shows "scheduled_seq_groups out' \<noteq> []"
proof -
  define s0 where "s0 = st\<lparr>call_count := call_count st + 1\<rparr>"
  have s0: "sched_ok s0" "engine_ok s0 out" using reach_ok [OF assms(1)] assms(3) by (simp_all add: s0_def)
  have "schedule_wgkp L clk out s0 = Inr (st', out')"
    using assms(4,6) by (simp add: schedule_tick_def Let_def s0_def)
  from wgkp_serves [OF s0 assms(2) this] assms(5) show ?thesis by blast
qed

text \<open>Without logging, prefetch tracking and PI control no tick raises.\<close>

lemma quiet_tick_returns:
  assumes "log_enabled st = False" and "cache_mgr st = None" and "sched_mode st \<noteq> ''pi_adaptive''"
  shows "\<exists>st' out'. schedule_tick L clk out st = Inr (st', out')"
  using assms
  by (simp add: schedule_tick_def schedule_wgkp_def wgkp_dispatch_def schedule_erlang_def schedule_cash_def
      schedule_threshold_def log_if_def update_prefetch_cache_def cash_order_def penalize_cold_def
      apply_cold_start_boost_def Let_def split: prod.splits)

theorem wgkp_step_is_never_empty_witness:
  "\<exists>(st :: unit sched) st' out'. sched_reach demo_libs st \<and> sched_mode st = ''wgkp'' \<and>
     schedule_tick demo_libs (demo_clock 0 1) (demo_out [demo_group 2 ''b'' 1]) st = Inr (st', out') \<and>
     scheduled_seq_groups out' \<noteq> []"
proof -
  let ?out = "demo_out [demo_group 2 ''b'' 1]"
  obtain s0 :: "unit sched" where s0: "scheduler_init [(''AS_MODE'', ''wgkp'')] (\<lambda>p. None) [] None 0 = Inr s0"
    "sched_mode s0 = ''wgkp''" "log_enabled s0 = False" "cache_mgr s0 = None"
    "buffer s0 = buffer_init [] 32 5 200"
    by (simp add: scheduler_init_def init_wgkp_def init_cache_def estimator_init_def Let_def dict_get_def
        env_float_def env_int_def)
  define st where "st = s0\<lparr>running := [seq_group (demo_group 2 ''b'' 1)], waiting := [], draining := {}\<rparr>"
  have r: "sched_reach demo_libs st"
    unfolding st_def by (intro sched_reach.engine sched_reach.start [OF s0(1)])
  have e: "engine_ok st ?out"
    by (simp add: engine_ok_def demo_defs seq_group_id_def is_decode_def running_ids_def st_def s0(5)
        qids_def queue_of_def buffer_init_def dict_get_def)
  have d: "list_ex is_decode (scheduled_seq_groups ?out)"
    by (simp add: demo_defs is_decode_def seqs_with_def)
  obtain st' out' where t: "schedule_tick demo_libs (demo_clock 0 1) ?out st = Inr (st', out')"
    using quiet_tick_returns [of st demo_libs "demo_clock 0 1" ?out] s0 by (auto simp: st_def)
  have v: "vllm_available demo_libs" by (simp add: demo_libs_def)
  have m: "sched_mode st = ''wgkp''" by (simp add: st_def s0)
  from wgkp_step_is_never_empty [OF r v e m d t] r m t show ?thesis by blast
qed

subsection \<open>Sequences that never run\<close>

text \<open>Enqueueing a list of groups is a history of the buffer.\<close>

definition enq_events :: "clock \<Rightarrow> scheduled list \<Rightarrow> string event list" where
  "enq_events clk gs = map (\<lambda>g. Enq (group_adapter g) (group_id g) (enq_time clk (group_id g))) gs"

lemma enqueue_is_trace:
  "run_trace (enq_events clk gs) b = (snd (enqueue_decode_groups clk gs (d, b)), [])"
  by (induction gs arbitrary: d b) (simp_all add: enq_events_def Let_def)

lemma ghost_tick:
  assumes g: "ghost s b" "buf_ok b"
    and e: "enqueue_decode_groups clk firsts (d0, b) = (d, b1)" and t: "dispatch p m u b1 = (b2, pairs)"
  shows "ghost s b2" "buf_ok b2" "s \<notin> snd ` set pairs"
proof -
  have r: "run_trace (enq_events clk firsts) b = (b1, [])"
    using enqueue_is_trace [of clk firsts b d0] e by simp
  have no: "Rel s \<notin> set (enq_events clk firsts)" by (auto simp: enq_events_def)
  have b1: "ghost s b1" "buf_ok b1"
    using trace_ghost [OF g no r] trace_ok [OF g(2), of "enq_events clk firsts"] r by auto
  show "ghost s b2" "s \<notin> snd ` set pairs"
    using ghost_step [OF b1, of "Tick p m u"] t by auto
  show "buf_ok b2" using dispatch_tick(1) [OF t] b1(2) by (rule tick_ok)
qed

text \<open>The groups indexed by sequence are their own.\<close>

lemma by_seq_id:
  assumes "enqueue_decode_groups clk gs (d, b) = (d', b')" and "\<forall>s g. map_of d s = Some g \<longrightarrow> group_id g = s"
  shows "\<forall>s g. map_of d' s = Some g \<longrightarrow> group_id g = s"
  using assms
proof (induction gs arbitrary: d b)
  case (Cons g gs)
  show ?case by (rule Cons.IH [OF Cons.prems(1) [unfolded enqueue_decode_groups.simps]]) (use Cons.prems(2) in simp)
qed simp

lemma collected_id:
  assumes "\<forall>s g. map_of d s = Some g \<longrightarrow> group_id g = s" and "collect_aligned d pairs = (aligned, ids)"
  shows "set ids \<subseteq> snd ` set pairs" and "group_id ` set aligned \<subseteq> snd ` set pairs"
  using assms by (auto simp: collect_aligned_def List.map_filter_def rev_image_eqI)

definition dropped :: "int \<Rightarrow> 'm sched \<Rightarrow> bool" where
  "dropped s st \<longleftrightarrow> ghost s (buffer st) \<and> buf_ok (buffer st) \<and> s \<notin> post_aligned st \<and>
     sched_mode st \<noteq> ''wgkp'' \<and> metrics_file st = None"

lemma ghost_cong:
  "queues b' = queues b \<Longrightarrow> seq_enqueue b' = seq_enqueue b \<Longrightarrow> shadow b' = shadow b \<Longrightarrow>
   enqueue_time b' = enqueue_time b \<Longrightarrow> ghost s b' = ghost s b \<and> buf_ok b' = buf_ok b"
  by (simp add: ghost_def buf_ok_def is_buffered_def queue_of_def shadow_of_def)

lemma log_silent:
  assumes "metrics_file st = None" and "log_if on (log_war_stats L clk batch) st out = Inr (st', out')"
  shows "st' = st \<and> out' = out"
  using assms by (auto simp: log_if_def log_war_stats_def append_record_def split: if_splits sum.splits)

lemma dropped_tick:
  assumes dr: "dropped s st" and av: "vllm_available L" and r: "schedule_tick L clk out st = Inr (st', out')"
  shows "dropped s st'" and "g \<in> set (scheduled_seq_groups out') \<Longrightarrow> is_decode g \<Longrightarrow> group_id g \<noteq> s"
proof -
  define s0 where "s0 = st\<lparr>call_count := call_count st + 1\<rparr>"
  have s0: "dropped s s0" "post_aligned s0 = post_aligned st" using dr by (simp_all add: dropped_def s0_def)
  obtain pre dec where sp: "split_groups out = (pre, dec)" by force
  obtain post firsts where sa: "split_aligned (post_aligned st) dec = (post, firsts)" by force
  have pre: "g \<in> set pre \<Longrightarrow> \<not> is_decode g" for g using sp by (auto simp: split_groups_def)
  have "dropped s st' \<and> (\<forall>g\<in>set (scheduled_seq_groups out'). is_decode g \<longrightarrow> group_id g \<noteq> s)"
  proof (cases "dec = []")
    case True
    have "scheduled_seq_groups out = pre" using sp True split_groups_all_prefill by blast
    then show ?thesis
      using r sp True quiet_selection [of out pre L clk st] s0(1) pre by (auto simp: s0_def)
  next
    case False
    have m: "sched_mode st \<noteq> ''wgkp''" and log: "metrics_file s0 = None"
      using dr by (simp_all add: dropped_def s0_def)
    obtain d b1 p b2 pairs aligned ids st1
      where parts: "tick_parts L clk out s0 pre post firsts d b1 p b2 pairs aligned ids st1 (st', out')"
      using tick_has_parts [OF av m r sp False sa] unfolding s0_def by blast
    then have e: "enqueue_decode_groups clk firsts ([], buffer s0) = (d, b1)"
      and t: "dispatch p (Some (length post + length firsts)) (form_time clk) b1 = (b2, pairs)"
      and c: "collect_aligned d pairs = (aligned, ids)"
      and buf: "queues (buffer st1) = queues b2" "seq_enqueue (buffer st1) = seq_enqueue b2"
        "shadow (buffer st1) = shadow b2" "enqueue_time (buffer st1) = enqueue_time b2"
      and pa: "post_aligned st1 \<subseteq> post_aligned s0 \<union> set ids"
      and frame: "metrics_file st1 = metrics_file s0" "sched_mode st1 = sched_mode s0"
      and lg: "log_if (log_enabled s0) (log_war_stats L clk (adapter_order post @ aligned)) st1
         (emit pre post aligned out) = Inr (st', out')"
      unfolding tick_parts_def by simp_all
    have g: "ghost s (buffer s0)" "buf_ok (buffer s0)" using s0(1) by (simp_all add: dropped_def)
    note gt = ghost_tick [OF g e t]
    have "\<forall>s g. map_of d s = Some g \<longrightarrow> group_id g = s" by (rule by_seq_id [OF e]) simp
    note ci = collected_id [OF this c]
    have st': "st' = st1" "out' = emit pre post aligned out"
      using log_silent [OF _ lg] frame(1) log by auto
    have "dropped s st1"
      using gt(1,2) ghost_cong [OF buf] ci(1) gt(3) pa frame s0(1) by (auto simp: dropped_def)
    moreover have "group_id g \<noteq> s" if "g \<in> set post \<union> set aligned" for g
    proof -
      have "g \<in> set post \<Longrightarrow> group_id g \<in> post_aligned st" using sa by (auto simp: split_aligned_def)
      then show ?thesis using that ci(2) gt(3) s0 by (auto simp: dropped_def)
    qed
    ultimately show ?thesis using st' pre by (auto simp: emit_def)
  qed
  then show "dropped s st'" "g \<in> set (scheduled_seq_groups out') \<Longrightarrow> is_decode g \<Longrightarrow> group_id g \<noteq> s" by blast+
qed

text \<open>A run of ticks; before each one the engine sets its running queue.\<close>

fun run_ticks ::
  "libs \<Rightarrow> (clock \<times> seq_group list \<times> sched_out) list \<Rightarrow> 'm sched \<Rightarrow> py_error + 'm sched \<times> sched_out list" where
  "run_ticks L [] st = Inr (st, [])"
| "run_ticks L ((clk, r, out) # xs) st =
     (case schedule_tick L clk out (st\<lparr>running := r\<rparr>) of
        Inl e \<Rightarrow> Inl e
      | Inr (st', out') \<Rightarrow>
          (case run_ticks L xs st' of
             Inl e \<Rightarrow> Inl e
           | Inr (st'', outs) \<Rightarrow> Inr (st'', out' # outs)))"

text \<open>C22: A sequence whose token the buffer dispatched in a tick that did not select it is lost:
  without the batch log, in every mode but WGKP, no later tick ever puts it into a decode batch,
  however often vLLM selects it. The tick drops the token without \<open>release\<close>, so the buffer takes
  every later \<open>enqueue\<close> of the sequence for a repetition.\<close>

theorem dropped_sequence_never_decodes:
  assumes "dropped s st" and "vllm_available L" and "run_ticks L xs st = Inr (st', outs)"
  shows "dropped s st' \<and> (\<forall>out\<in>set outs. \<forall>g\<in>set (scheduled_seq_groups out). is_decode g \<longrightarrow> group_id g \<noteq> s)"
  using assms(1,3)
proof (induction xs arbitrary: st outs)
  case (Cons x xs)
  obtain clk r out where x: "x = (clk, r, out)" by (cases x) auto
  obtain st1 out1 outs1 where t: "schedule_tick L clk out (st\<lparr>running := r\<rparr>) = Inr (st1, out1)"
    and rest: "run_ticks L xs st1 = Inr (st', outs1)" "outs = out1 # outs1"
    using Cons.prems(2) x by (auto split: sum.splits)
  have "dropped s (st\<lparr>running := r\<rparr>)" using Cons.prems(1) by (simp add: dropped_def)
  note d = dropped_tick [OF this assms(2) t]
  show ?case using Cons.IH [OF d(1) rest(1)] d(2) rest(2) by auto
qed simp

text \<open>
  Two ticks that lose sequence 2: it is enqueued and held; then its group is not selected (say,
  swapped out) while another group of its adapter is, and the budget of one goes to its token.
\<close>

lemma demo_hold:
  assumes "sched_mode st = ''threshold''" and "log_enabled st = False" and "metrics_file st = None"
    and "buffer st = buffer_init [] 32 5 200" and "post_aligned st = {}" and "cache_mgr st = None"
  shows "\<exists>s1. schedule_tick demo_libs (demo_clock 0 (1/1000)) (demo_out [demo_group 2 ''b'' 1]) st =
      Inr (s1, demo_out []) \<and> sched_mode s1 = ''threshold'' \<and> log_enabled s1 = False \<and>
      metrics_file s1 = None \<and> buffer s1 = enqueue ''b'' 2 0 (buffer_init [] 32 5 200) \<and>
      post_aligned s1 = {} \<and> cache_mgr s1 = None"
  by (simp add: tick_eval demo_defs assms)

lemma demo_lose:
  assumes "sched_mode st = ''threshold''" and "log_enabled st = False" and "metrics_file st = None"
    and "buffer st = enqueue ''b'' 2 0 (buffer_init [] 32 5 200)" and "post_aligned st = {}"
    and "cache_mgr st = None"
  shows "\<exists>s2. schedule_tick demo_libs (demo_clock 1 0) (demo_out [demo_group 3 ''b'' 1]) st =
      Inr (s2, demo_out []) \<and> dropped 2 s2 \<and> log_enabled s2 = False \<and> cache_mgr s2 = None \<and>
      sched_mode s2 = ''threshold''"
  by (simp add: tick_eval demo_defs assms dropped_def ghost_def buf_ok_def shadow_of_def)

lemma demo_engine_ok:
  assumes "buffer st = buffer_init [] 32 5 200 \<or> buffer st = enqueue ''b'' 2 0 (buffer_init [] 32 5 200)"
    and "running st = [seq_group (demo_group s ''b'' 1)]"
  shows "engine_ok st (demo_out [demo_group s ''b'' 1])"
  using assms
  by (auto simp: engine_ok_def demo_defs seq_group_id_def is_decode_def running_ids_def qids_def tick_eval
      split: if_splits option.splits)

lemma demo_dropped:
  "\<exists>st :: unit sched. sched_reach demo_libs st \<and> dropped 2 st \<and> log_enabled st = False \<and>
     cache_mgr st = None \<and> sched_mode st = ''threshold''"
proof -
  obtain s0 :: "unit sched" where s0: "scheduler_init [] (\<lambda>p. None) [] None 0 = Inr s0"
    "sched_mode s0 = ''threshold''" "log_enabled s0 = False" "buffer s0 = buffer_init [] 32 5 200"
    "post_aligned s0 = {}" "metrics_file s0 = None" "cache_mgr s0 = None"
    by (simp add: scheduler_init_def init_wgkp_def init_cache_def estimator_init_def Let_def dict_get_def)
  let ?a = "s0\<lparr>running := [seq_group (demo_group 2 ''b'' 1)], waiting := [], draining := {}\<rparr>"
  obtain s1 where s1: "schedule_tick demo_libs (demo_clock 0 (1/1000)) (demo_out [demo_group 2 ''b'' 1]) ?a =
      Inr (s1, demo_out [])" "sched_mode s1 = ''threshold''" "log_enabled s1 = False"
    "metrics_file s1 = None" "buffer s1 = enqueue ''b'' 2 0 (buffer_init [] 32 5 200)" "post_aligned s1 = {}"
    "cache_mgr s1 = None"
    using demo_hold [of ?a] s0 by auto
  have "sched_reach demo_libs ?a" by (intro sched_reach.engine sched_reach.start [OF s0(1)])
  then have r1: "sched_reach demo_libs s1"
    by (rule sched_reach.tick [OF _ _ s1(1)]) (rule demo_engine_ok, simp_all add: s0)
  let ?b = "s1\<lparr>running := [seq_group (demo_group 3 ''b'' 1)], waiting := [], draining := {}\<rparr>"
  obtain s2 where s2: "schedule_tick demo_libs (demo_clock 1 0) (demo_out [demo_group 3 ''b'' 1]) ?b =
      Inr (s2, demo_out [])" "dropped 2 s2" "log_enabled s2 = False" "cache_mgr s2 = None"
    "sched_mode s2 = ''threshold''"
    using demo_lose [of ?b] s1 by auto
  have "sched_reach demo_libs ?b" using r1 by (rule sched_reach.engine)
  then have "sched_reach demo_libs s2"
    by (rule sched_reach.tick [OF _ _ s2(1)]) (rule demo_engine_ok, simp_all add: s1)
  with s2 show ?thesis by blast
qed

theorem dropped_sequence_never_decodes_witness:
  "\<exists>(st :: unit sched) st' out. sched_reach demo_libs st \<and> dropped 2 st \<and>
     run_ticks demo_libs [(demo_clock 2 1, [seq_group (demo_group 2 ''b'' 1)], demo_out [demo_group 2 ''b'' 1])] st
       = Inr (st', [out]) \<and>
     dropped 2 st' \<and> list_all (\<lambda>g. \<not> (is_decode g \<and> group_id g = 2)) (scheduled_seq_groups out)"
proof -
  obtain st :: "unit sched" where st: "sched_reach demo_libs st" "dropped 2 st" "log_enabled st = False"
    "cache_mgr st = None" "sched_mode st = ''threshold''"
    using demo_dropped by blast
  let ?xs = "[(demo_clock 2 1, [seq_group (demo_group 2 ''b'' 1)], demo_out [demo_group 2 ''b'' 1])]"
  obtain st' out where t: "schedule_tick demo_libs (demo_clock 2 1) (demo_out [demo_group 2 ''b'' 1])
      (st\<lparr>running := [seq_group (demo_group 2 ''b'' 1)]\<rparr>) = Inr (st', out)"
    using quiet_tick_returns [of "st\<lparr>running := [seq_group (demo_group 2 ''b'' 1)]\<rparr>" demo_libs "demo_clock 2 1"
        "demo_out [demo_group 2 ''b'' 1]"] st by auto
  then have r: "run_ticks demo_libs ?xs st = Inr (st', [out])" by simp
  have "vllm_available demo_libs" by (simp add: demo_libs_def)
  from dropped_sequence_never_decodes [OF st(2) this r] st(1,2) r show ?thesis
    by (auto simp: list_all_iff)
qed

end
