(* ===== verification/Admission.thy ===== *)
theory Admission
  imports Scheduler
begin

text \<open>
  \<^verbatim>\<open>integrations/vllm_scheduler.py\<close>, admission: the overrides of \<open>_schedule_running\<close> and
  \<open>_schedule_prefills\<close>, adapter rotation, grouped admission, and the KV-aware allocation check.
  The superclass method is an argument: a function from the queue it sees to its outcome and
  the queue it leaves; for \<open>_schedule_prefills\<close> it is \<open>schedule_prefills_admit\<close> of vLLM's method. \<open>finally\<close> blocks run on every outcome.
\<close>

subsection \<open>Running groups\<close>

type_synonym 'o super_call = "seq_group list \<Rightarrow> (py_error + 'o) \<times> seq_group list"

definition schedule_running :: "bool \<Rightarrow> 'o \<Rightarrow> 'o super_call \<Rightarrow> bool \<Rightarrow> 'o super_call" where
  "schedule_running available create_empty super enable_chunking queue =
     (if available \<and> queue \<noteq> [] \<and> \<not> enable_chunking then
        (let pending = filter stage_prefill queue in
         if pending \<noteq> [] then
           (if length pending = length queue then (Inr create_empty, queue)
            else let (r, queue') = super (filter (\<lambda>sg. \<not> stage_prefill sg) queue)
              in (r, pending @ queue'))
         else super queue)
      else super queue)"

definition request_row :: "seq_group \<Rightarrow> request_record" where
  "request_row sg = \<lparr>rr_id = request_id sg, rr_lora = group_lora_id sg, rr_arrival = arrival_time sg,
     rr_first_scheduled = first_scheduled_time sg, rr_first_token = first_token_time sg,
     rr_out_tokens = sum_list (map (\<lambda>s. seq_len s - prompt_len s) (seqs sg))\<rparr>"

definition free_finished_seq_groups :: "(seq_group list \<Rightarrow> seq_group list) \<Rightarrow> 'm sched \<Rightarrow> 'm sched" where
  "free_finished_seq_groups super st =
     (let st1 = st\<lparr>req_metrics := map_option (\<lambda>rows. rows @ map request_row (filter sg_finished (running st)))
                   (req_metrics st)\<rparr>
      in st1\<lparr>running := super (running st1)\<rparr>)"

subsection \<open>KV memory\<close>

text \<open>\<open>-(-n // bs)\<close>: the ceiling of \<open>n / bs\<close>.\<close>

definition ceil_div :: "int \<Rightarrow> int \<Rightarrow> int" where
  "ceil_div n bs = - ((- n) div bs)"

definition lifetime_blocks :: "int \<Rightarrow> int \<Rightarrow> seq \<Rightarrow> seq_group \<Rightarrow> int" where
  "lifetime_blocks bs max_model_len s sg =
     (let max_new = (case max_tokens sg of Some m \<Rightarrow> int m | None \<Rightarrow> max_model_len - int (prompt_len s))
      in ceil_div (int (prompt_len s) + max_new) bs)"

text \<open>The growth still owed to the running sequences.\<close>

definition kv_owed :: "int \<Rightarrow> int \<Rightarrow> seq_group list \<Rightarrow> int" where
  "kv_owed bs mml groups =
     (\<Sum>sg\<leftarrow>groups. \<Sum>s\<leftarrow>seqs_with RUNNING sg. max 0 (lifetime_blocks bs mml s sg - ceil_div (int (seq_len s)) bs))"

definition kv_need :: "int \<Rightarrow> int \<Rightarrow> seq_group \<Rightarrow> int" where
  "kv_need bs mml sg = (\<Sum>s\<leftarrow>seqs_with WAITING sg. lifetime_blocks bs mml s sg)"

datatype alloc_status = OK | LATER | NEVER

text \<open>The closure's two cells: \<open>headroom\<close> and \<open>nothing_running\<close>.\<close>

record kv_state =
  headroom :: int
  nothing_running :: bool

definition kv_start :: "int \<Rightarrow> int \<Rightarrow> int \<Rightarrow> seq_group list \<Rightarrow> kv_state" where
  "kv_start bs mml free_blocks run = \<lparr>headroom = free_blocks - kv_owed bs mml run, nothing_running = (run = [])\<rparr>"

text \<open>\<open>can_allocate\<close>; \<open>stock\<close> is vLLM's own answer, for the lookahead slots that are only passed on to it.\<close>

definition can_allocate :: "int \<Rightarrow> int \<Rightarrow> alloc_status \<Rightarrow> seq_group \<Rightarrow> kv_state \<Rightarrow> alloc_status \<times> kv_state" where
  "can_allocate bs mml stock sg kv =
     (if stock \<noteq> OK then (stock, kv)
      else let need = kv_need bs mml sg in
        if need > headroom kv \<and> \<not> nothing_running kv then (LATER, kv)
        else (stock, \<lparr>headroom = headroom kv - need, nothing_running = False\<rparr>))"

text \<open>The calls the superclass makes during one admission pass, with the stock answers.\<close>

fun admission_pass :: "int \<Rightarrow> int \<Rightarrow> (seq_group \<times> alloc_status) list \<Rightarrow> kv_state \<Rightarrow> seq_group list \<times> kv_state" where
  "admission_pass bs mml [] kv = ([], kv)"
| "admission_pass bs mml ((sg, stock) # calls) kv =
     (let (st, kv1) = can_allocate bs mml stock sg kv; (acc, kv2) = admission_pass bs mml calls kv1
      in (if st = OK then sg # acc else acc, kv2))"

text \<open>
  \<open>_schedule_prefills_admit\<close>. The superclass asks the allocator; its \<open>can_allocate\<close> is replaced for
  the duration of the call by the closure above, which sees the stock answer first.
\<close>

type_synonym allocator = "alloc_status \<Rightarrow> seq_group \<Rightarrow> kv_state \<Rightarrow> alloc_status \<times> kv_state"

definition schedule_prefills_admit ::
  "int \<Rightarrow> int \<Rightarrow> int \<Rightarrow> (allocator \<Rightarrow> kv_state \<Rightarrow> 'o super_call) \<Rightarrow> 'm sched \<Rightarrow> 'o super_call" where
  "schedule_prefills_admit bs mml free_blocks super st =
     (if \<not> kv_admission st then super (\<lambda>stock sg kv. (stock, kv)) (kv_start bs mml free_blocks [])
      else super (can_allocate bs mml) (kv_start bs mml free_blocks (running st)))"

subsection \<open>Adapter rotation\<close>

definition waiting_count :: "seq_group list \<Rightarrow> int \<Rightarrow> nat" where
  "waiting_count q lid = (if lid \<le> 0 then 0 else length (filter (\<lambda>sg. group_lora_id sg = lid) q))"

text \<open>
  \<open>resident\<close> is \<open>set(curr_loras)\<close> as the list Python iterates it; \<open>max_loras\<close> is \<open>None\<close> without a
  LoRA configuration. The result is the new \<open>_draining\<close>.
\<close>

definition rotation_holdout :: "int option \<Rightarrow> int list \<Rightarrow> real \<Rightarrow> 'm sched \<Rightarrow> int set" where
  "rotation_holdout max_loras resident now st =
     (case max_loras of
        None \<Rightarrow> {}
      | Some cap \<Rightarrow>
          if resident = [] then {}
          else let dr = draining st \<inter> set resident in
            if int (length resident) < cap then dr
            else let oldest = map arrival_time (filter (\<lambda>sg. 0 < group_lora_id sg \<and>
                       group_lora_id sg \<notin> set resident) (waiting st))
              in if oldest = [] \<or> dr \<noteq> {} then dr
                 else if now - Min (set oldest) \<ge> rotate_after_s st
                 then insert (arg_min_list (waiting_count (waiting st)) resident) dr
                 else dr)"

subsection \<open>Prefill admission\<close>

definition admission_key :: "real \<Rightarrow> real \<Rightarrow> seq_group list \<Rightarrow> seq_group \<Rightarrow> int \<times> real \<times> int \<times> int \<times> real" where
  "admission_key now max_wait q sg =
     (if now - arrival_time sg \<ge> max_wait then (0, arrival_time sg, 0, 0, 0)
      else (1, 0, - int (length (filter (\<lambda>x. group_lora_id x = group_lora_id sg) q)), group_lora_id sg,
            arrival_time sg))"

definition group_waiting :: "real \<Rightarrow> real \<Rightarrow> seq_group list \<Rightarrow> seq_group list" where
  "group_waiting now max_wait q = sort_key (admission_key now max_wait q) q"

definition prefills_rotated :: "int set \<Rightarrow> 'o super_call \<Rightarrow> 'o super_call" where
  "prefills_rotated hold_set super q =
     (if hold_set \<noteq> {} then
        (let (r, q') = super (filter (\<lambda>sg. group_lora_id sg \<notin> hold_set) q)
         in (r, sort_key arrival_time (q' @ filter (\<lambda>sg. group_lora_id sg \<in> hold_set) q)))
      else super q)"

definition schedule_prefills ::
  "bool \<Rightarrow> int option \<Rightarrow> int list \<Rightarrow> real \<Rightarrow> real \<Rightarrow> 'o super_call \<Rightarrow> 'm sched \<Rightarrow> (py_error + 'o) \<times> 'm sched" where
  "schedule_prefills available max_loras resident now_group now super st =
     (if \<not> available then (let (r, q) = super (waiting st) in (r, st\<lparr>waiting := q\<rparr>))
      else if admit_grouped st \<and> length (waiting st) > 1 then
        (let st1 = st\<lparr>waiting := group_waiting now_group (group_max_wait_s st) (waiting st)\<rparr>;
             hold_set = rotation_holdout max_loras resident now st1;
             (r, q) = prefills_rotated hold_set super (waiting st1)
         in (r, st1\<lparr>draining := hold_set, waiting := sort_key arrival_time q\<rparr>))
      else
        (let hold_set = rotation_holdout max_loras resident now st;
             (r, q) = prefills_rotated hold_set super (waiting st)
         in (r, st\<lparr>draining := hold_set, waiting := q\<rparr>)))"

subsection \<open>KV memory is never over-committed\<close>

lemma ceil_div_mono: "0 < bs \<Longrightarrow> m \<le> n \<Longrightarrow> ceil_div m bs \<le> ceil_div n bs"
  by (simp add: ceil_div_def zdiv_mono1)

lemma ceil_div_nonneg: "0 < bs \<Longrightarrow> 0 \<le> n \<Longrightarrow> 0 \<le> ceil_div n bs"
  by (simp add: ceil_div_def div_nonpos_pos_le0)

text \<open>What a sequence may at most produce, as the engine enforces it.\<close>

definition within_lifetime :: "int \<Rightarrow> seq_group \<Rightarrow> bool" where
  "within_lifetime mml sg \<longleftrightarrow> (\<forall>s\<in>set (seqs sg). int (seq_len s) \<le> int (prompt_len s) +
     (case max_tokens sg of Some m \<Rightarrow> int m | None \<Rightarrow> mml - int (prompt_len s)))"

text \<open>Admission allocates the blocks of the present tokens and starts the sequences.\<close>

definition start_group :: "seq_group \<Rightarrow> seq_group" where
  "start_group sg = sg\<lparr>seqs := map (\<lambda>s. if seq_status s = WAITING then s\<lparr>seq_status := RUNNING\<rparr> else s) (seqs sg)\<rparr>"

definition blocks_now :: "int \<Rightarrow> seq_group \<Rightarrow> int" where
  "blocks_now bs sg = (\<Sum>s\<leftarrow>seqs_with WAITING sg. ceil_div (int (seq_len s)) bs)"

lemma kv_owed_append [simp]: "kv_owed bs mml (xs @ ys) = kv_owed bs mml xs + kv_owed bs mml ys"
  by (simp add: kv_owed_def)

lemma lifetime_covers:
  assumes "0 < bs" and "within_lifetime mml sg" and "s \<in> set (seqs sg)"
  shows "ceil_div (int (seq_len s)) bs \<le> lifetime_blocks bs mml s sg"
  using assms by (auto simp: lifetime_blocks_def Let_def within_lifetime_def intro!: ceil_div_mono)

text \<open>Starting a waiting group turns its whole need into present blocks and owed growth.\<close>

lemma need_splits:
  assumes bs: "0 < bs" and ok: "within_lifetime mml sg" and new: "seqs_with RUNNING sg = []"
  shows "kv_need bs mml sg = blocks_now bs sg + kv_owed bs mml [start_group sg]"
proof -
  define run where "run = (\<lambda>s :: seq. s\<lparr>seq_status := RUNNING\<rparr>)"
  have "seqs_with RUNNING (start_group sg) = map run (seqs_with WAITING sg)"
  proof -
    have "filter (\<lambda>s. seq_status s = RUNNING) (map (\<lambda>s. if seq_status s = WAITING then run s else s) ss) =
        map run (filter (\<lambda>s. seq_status s = WAITING) ss)" if "filter (\<lambda>s. seq_status s = RUNNING) ss = []" for ss
      using that by (induction ss) (auto simp: run_def split: if_splits)
    from this [of "seqs sg"] new show ?thesis unfolding run_def by (simp add: seqs_with_def start_group_def)
  qed
  moreover have "lifetime_blocks bs mml (run s) (start_group sg) = lifetime_blocks bs mml s sg" for s
    by (simp add: lifetime_blocks_def start_group_def run_def split: option.splits)
  ultimately have "kv_owed bs mml [start_group sg] =
      (\<Sum>s\<leftarrow>seqs_with WAITING sg. max 0 (lifetime_blocks bs mml s sg - ceil_div (int (seq_len s)) bs))"
    by (simp add: kv_owed_def o_def run_def)
  also have "\<dots> = (\<Sum>s\<leftarrow>seqs_with WAITING sg. lifetime_blocks bs mml s sg - ceil_div (int (seq_len s)) bs)"
  proof -
    have "ceil_div (int (seq_len s)) bs \<le> lifetime_blocks bs mml s sg" if "s \<in> set (seqs_with WAITING sg)" for s
      using that by (intro lifetime_covers [OF bs ok]) (simp add: seqs_with_def)
    then show ?thesis by (intro arg_cong [of _ _ sum_list] map_cong) auto
  qed
  finally show ?thesis by (simp add: kv_need_def blocks_now_def sum_list_subtractf)
qed

lemma need_nonneg:
  assumes "0 < bs" and "within_lifetime mml sg"
  shows "0 \<le> kv_need bs mml sg"
  unfolding kv_need_def
proof (rule sum_list_nonneg)
  fix x assume "x \<in> set (map (\<lambda>s. lifetime_blocks bs mml s sg) (seqs_with WAITING sg))"
  then obtain s where s: "s \<in> set (seqs sg)" "x = lifetime_blocks bs mml s sg" by (auto simp: seqs_with_def)
  then show "0 \<le> x"
    using lifetime_covers [OF assms s(1)] ceil_div_nonneg [OF assms(1), of "int (seq_len s)"] by linarith
qed

lemma admission_headroom:
  assumes "admission_pass bs mml calls kv = (acc, kv')"
  shows "headroom kv' = headroom kv - (\<Sum>sg\<leftarrow>acc. kv_need bs mml sg)"
  using assms
proof (induction calls arbitrary: kv acc)
  case (Cons c calls)
  obtain sg stock where c: "c = (sg, stock)" by force
  then show ?case using Cons by (auto simp: can_allocate_def Let_def split: prod.splits if_splits)
qed simp

lemma admitted_offered:
  "admission_pass bs mml calls kv = (acc, kv') \<Longrightarrow> set acc \<subseteq> fst ` set calls"
proof (induction calls arbitrary: kv acc)
  case (Cons c calls)
  obtain sg stock where c: "c = (sg, stock)" by force
  obtain st kv1 acc1 where "can_allocate bs mml stock sg kv = (st, kv1)"
    "admission_pass bs mml calls kv1 = (acc1, kv')" "acc = (if st = OK then sg # acc1 else acc1)"
    using Cons.prems c by (auto split: prod.splits)
  then show ?case using Cons.IH c by auto
qed simp

lemma busy_pass:
  assumes "admission_pass bs mml calls kv = (acc, kv')" and "\<not> nothing_running kv"
    and "\<forall>c\<in>set calls. 0 \<le> kv_need bs mml (fst c)"
  shows "headroom kv < 0 \<Longrightarrow> acc = []" and "0 \<le> headroom kv \<Longrightarrow> 0 \<le> headroom kv'"
proof -
  have "(headroom kv < 0 \<longrightarrow> acc = []) \<and> (0 \<le> headroom kv \<longrightarrow> 0 \<le> headroom kv')"
    using assms
  proof (induction calls arbitrary: kv acc)
    case (Cons c calls)
    obtain sg stock where c: "c = (sg, stock)" by force
    then show ?case using Cons by (auto simp: can_allocate_def Let_def split: prod.splits if_splits)
  qed auto
  then show "headroom kv < 0 \<Longrightarrow> acc = []" "0 \<le> headroom kv \<Longrightarrow> 0 \<le> headroom kv'" by blast+
qed

lemma pass_bounded:
  assumes "admission_pass bs mml calls kv = (acc, kv')"
    and "\<forall>c\<in>set calls. 0 \<le> kv_need bs mml (fst c)" and "0 \<le> headroom kv \<or> nothing_running kv"
  shows "0 \<le> headroom kv' \<or> nothing_running kv \<and> length acc \<le> 1"
  using assms
proof (induction calls arbitrary: kv acc)
  case (Cons c calls)
  obtain sg stock where c: "c = (sg, stock)" by force
  obtain st kv1 where k: "can_allocate bs mml stock sg kv = (st, kv1)" by force
  obtain acc1 where a: "admission_pass bs mml calls kv1 = (acc1, kv')" "acc = (if st = OK then sg # acc1 else acc1)"
    using Cons.prems(1) c k by (auto split: prod.splits)
  have ne: "\<forall>c\<in>set calls. 0 \<le> kv_need bs mml (fst c)" using Cons.prems(2) by simp
  show ?case
  proof (cases "st = OK")
    case True
    then have kv1: "kv1 = \<lparr>headroom = headroom kv - kv_need bs mml sg, nothing_running = False\<rparr>"
      "headroom kv < kv_need bs mml sg \<longrightarrow> nothing_running kv"
      using k by (auto simp: can_allocate_def Let_def split: if_splits)
    show ?thesis
    proof (cases "0 \<le> headroom kv1")
      case True
      then show ?thesis using busy_pass(2) [OF a(1) _ ne] kv1 by simp
    next
      case False
      then have "acc1 = []" using busy_pass(1) [OF a(1) _ ne] kv1 by simp
      then show ?thesis using kv1 False a(2) by auto
    qed
  next
    case False
    then have "kv1 = kv" using k by (auto simp: can_allocate_def Let_def split: if_splits)
    then show ?thesis using Cons.IH [OF a(1) ne] Cons.prems(3) a(2) False by simp
  qed
qed auto

text \<open>C3: KV-aware admission never over-commits memory. Whatever requests the superclass offers in one
  pass and whatever the stock allocator answers, if the free blocks covered the growth owed to
  the running sequences before, they still cover it afterwards, with the admitted requests
  started, their present tokens allocated and their remaining growth counted. The one exception
  is an idle engine, where a single request may be admitted although it alone exceeds memory.\<close>

theorem kv_admission_never_overcommits:
  assumes "0 < bs" and "kv_owed bs mml run \<le> free_blocks"
    and "list_all (\<lambda>(sg, st). within_lifetime mml sg \<and> seqs_with RUNNING sg = []) calls"
    and "admission_pass bs mml calls (kv_start bs mml free_blocks run) = (acc, kv)"
  shows "kv_owed bs mml (run @ map start_group acc) \<le> free_blocks - (\<Sum>sg\<leftarrow>acc. blocks_now bs sg) \<or>
    run = [] \<and> length acc = 1"
proof -
  have ok: "within_lifetime mml sg \<and> seqs_with RUNNING sg = []" if "sg \<in> set acc" for sg
  proof -
    have "sg \<in> fst ` set calls" using admitted_offered [OF assms(4)] that by blast
    then show ?thesis using that assms(3) by (fastforce simp: list_all_iff)
  qed
  have "(\<Sum>sg\<leftarrow>acc. kv_need bs mml sg) = (\<Sum>sg\<leftarrow>acc. blocks_now bs sg + kv_owed bs mml [start_group sg])"
    using ok need_splits [OF assms(1)] by (intro arg_cong [of _ _ sum_list] map_cong) auto
  also have "\<dots> = (\<Sum>sg\<leftarrow>acc. blocks_now bs sg) + kv_owed bs mml (map start_group acc)"
    by (simp add: sum_list_addf kv_owed_def o_def)
  finally have head: "headroom kv = free_blocks - kv_owed bs mml run - (\<Sum>sg\<leftarrow>acc. blocks_now bs sg)
      - kv_owed bs mml (map start_group acc)"
    using admission_headroom [OF assms(4)] by (simp add: kv_start_def)
  have "\<forall>c\<in>set calls. 0 \<le> kv_need bs mml (fst c)"
    using assms(3) need_nonneg [OF assms(1)] by (fastforce simp: list_all_iff)
  from pass_bounded [OF assms(4) this] assms(2)
  have b: "0 \<le> headroom kv \<or> run = [] \<and> length acc \<le> 1" by (auto simp: kv_start_def)
  show ?thesis
  proof (cases "0 \<le> headroom kv")
    case True
    then show ?thesis using head by simp
  next
    case False
    show ?thesis
    proof (cases "length acc = 1")
      case False
      with b \<open>\<not> 0 \<le> headroom kv\<close> have "acc = []" by (auto simp: le_Suc_eq)
      then show ?thesis using head assms(2) \<open>\<not> 0 \<le> headroom kv\<close> by (simp add: kv_owed_def)
    qed (use b False in simp)
  qed
qed

definition demo_request :: "int \<Rightarrow> seq_status \<Rightarrow> nat \<Rightarrow> seq_group" where
  "demo_request s st m = \<lparr>obj_id = s, request_id = ''r'',
     seqs = [\<lparr>sid = s, prompt_len = 20, seq_len = 20, seq_status = st\<rparr>], lora_request = None,
     stage_prefill = (st = WAITING), sg_finished = False, max_tokens = Some m, arrival_time = 0,
     first_scheduled_time = None, first_token_time = None\<rparr>"

text \<open>Ten free blocks of 16 tokens, 4 owed: a request of 6 blocks fits, the next one does not.\<close>

theorem kv_admission_never_overcommits_witness:
  "kv_owed 16 4096 ([demo_request 1 RUNNING 76] @ map start_group [demo_request 2 WAITING 76]) \<le> 10 - 2"
proof -
  have pass: "admission_pass 16 4096 [(demo_request 2 WAITING 76, OK), (demo_request 3 WAITING 76, OK)]
      (kv_start 16 4096 10 [demo_request 1 RUNNING 76]) =
    ([demo_request 2 WAITING 76], \<lparr>headroom = 0, nothing_running = False\<rparr>)"
    by (simp add: demo_request_def kv_start_def can_allocate_def kv_need_def kv_owed_def seqs_with_def
        lifetime_blocks_def ceil_div_def Let_def)
  have "kv_owed 16 4096 ([demo_request 1 RUNNING 76] @ map start_group [demo_request 2 WAITING 76])
      \<le> 10 - (\<Sum>sg\<leftarrow>[demo_request 2 WAITING 76]. blocks_now 16 sg) \<or>
    [demo_request 1 RUNNING 76] = [] \<and> length [demo_request 2 WAITING 76] = 1"
    by (rule kv_admission_never_overcommits [OF _ _ _ pass])
      (simp_all add: demo_request_def kv_owed_def seqs_with_def lifetime_blocks_def ceil_div_def
        within_lifetime_def)
  then show ?thesis by (simp add: demo_request_def blocks_now_def seqs_with_def ceil_div_def)
qed

subsection \<open>Rotation\<close>

lemma arg_min_list_member: "xs \<noteq> [] \<Longrightarrow> arg_min_list f xs \<in> set xs"
  by (rule arg_min_list_in)

lemma arg_min_list_least: "x \<in> set xs \<Longrightarrow> f (arg_min_list f xs) \<le> f x"
  by (metis Min.coboundedI List.finite_set emptyE f_arg_min_list_f finite_imageI image_eqI list.set(1))

text \<open>The set of draining adapters along a run of the admission step.\<close>

inductive rotation_reach :: "'m sched \<Rightarrow> bool" where
  fresh: "draining st = {} \<Longrightarrow> rotation_reach st"
| rotate: "rotation_reach st \<Longrightarrow> draining st' = rotation_holdout cap resident now st \<Longrightarrow> rotation_reach st'"

lemma holdout_one:
  assumes "finite (draining st)" and "card (draining st) \<le> 1"
  shows "finite (rotation_holdout cap resident now st) \<and> card (rotation_holdout cap resident now st) \<le> 1"
proof -
  have "card (draining st \<inter> set resident) \<le> 1"
    using assms by (meson card_mono inf_le1 le_trans)
  then show ?thesis using assms(1) by (auto simp: rotation_holdout_def Let_def split: option.splits)
qed

lemma rotation_one: "rotation_reach st \<Longrightarrow> finite (draining st) \<and> card (draining st) \<le> 1"
proof (induction rule: rotation_reach.induct)
  case (rotate st st' cap resident now)
  then show ?case using holdout_one [of st cap resident now] by simp
qed simp

text \<open>Rotation gives every adapter its turn, one at a time: in every history at most one adapter
  drains, and only a resident one. When all slots are taken, nothing drains yet and some
  non-resident adapter's oldest request has waited the rotation time, exactly one adapter starts
  to drain, a resident one with the fewest waiting requests; when nobody has waited that long,
  none does.\<close>

theorem rotation_drains_one_adapter:
  assumes "rotation_reach st" and "H = rotation_holdout (Some cap) resident now st" and "resident \<noteq> []"
  shows "card H \<le> 1 \<and> H \<subseteq> set resident \<and>
    (cap \<le> int (length resident) \<and> draining st \<inter> set resident = {} \<longrightarrow>
      (if \<exists>sg\<in>set (waiting st). 0 < group_lora_id sg \<and> group_lora_id sg \<notin> set resident \<and>
            rotate_after_s st \<le> now - arrival_time sg
       then \<exists>k\<in>set resident. H = {k} \<and>
              (\<forall>j\<in>set resident. waiting_count (waiting st) k \<le> waiting_count (waiting st) j)
       else H = {}))"
proof -
  define old where "old = map arrival_time (filter (\<lambda>sg. 0 < group_lora_id sg \<and>
    group_lora_id sg \<notin> set resident) (waiting st))"
  define k where "k = arg_min_list (waiting_count (waiting st)) resident"
  have k: "k \<in> set resident" "\<forall>j\<in>set resident. waiting_count (waiting st) k \<le> waiting_count (waiting st) j"
    using arg_min_list_member [OF assms(3)] arg_min_list_least by (auto simp: k_def)
  have H: "H = (let dr = draining st \<inter> set resident in
      if int (length resident) < cap then dr else if old = [] \<or> dr \<noteq> {} then dr
      else if rotate_after_s st \<le> now - Min (set old) then insert k dr else dr)"
    using assms(2,3) by (simp add: rotation_holdout_def Let_def old_def k_def)
  have "card H \<le> 1" using holdout_one rotation_one [OF assms(1)] assms(2) by blast
  moreover have "H \<subseteq> set resident" using H k(1) by (auto simp: Let_def)
  moreover have "(\<exists>sg\<in>set (waiting st). 0 < group_lora_id sg \<and> group_lora_id sg \<notin> set resident \<and>
            rotate_after_s st \<le> now - arrival_time sg) \<longleftrightarrow> old \<noteq> [] \<and> rotate_after_s st \<le> now - Min (set old)"
    (is "?late \<longleftrightarrow> _")
  proof
    assume ?late
    then obtain sg where "sg \<in> set (waiting st)" "0 < group_lora_id sg" "group_lora_id sg \<notin> set resident"
      and late: "rotate_after_s st \<le> now - arrival_time sg" by blast
    then have sg: "arrival_time sg \<in> set old" "rotate_after_s st \<le> now - arrival_time sg"
      unfolding old_def by auto
    from sg(1) have "Min (set old) \<le> arrival_time sg" by (intro Min_le) auto
    moreover from sg(1) have "old \<noteq> []" by auto
    ultimately show "old \<noteq> [] \<and> rotate_after_s st \<le> now - Min (set old)" using sg(2) by linarith
  next
    assume o: "old \<noteq> [] \<and> rotate_after_s st \<le> now - Min (set old)"
    then have "Min (set old) \<in> set old" by (intro Min_in) auto
    then show ?late using o by (auto simp: old_def)
  qed
  ultimately show ?thesis using H k by (auto simp: Let_def)
qed

text \<open>
  Slots 1 and 2 are taken; adapter 3's request came at time 0, it is time 7, adapter 1 has a
  waiting request and adapter 2 none: adapter 2 drains.
\<close>

definition demo_waiting :: "int \<Rightarrow> real \<Rightarrow> seq_group" where
  "demo_waiting a t = (demo_request a WAITING 4)\<lparr>lora_request := Some \<lparr>lora_name = ''a'',
     lora_int_id = a, lora_path = ''p''\<rparr>, arrival_time := t\<rparr>"

theorem rotation_drains_one_adapter_witness:
  "\<exists>st :: unit sched. rotation_reach st \<and> waiting st = [demo_waiting 3 0, demo_waiting 1 2] \<and>
     rotation_holdout (Some 2) [1, 2] 7 st = {2}"
proof -
  obtain st0 :: "unit sched" where "scheduler_init [] (\<lambda>p. None) [] None 0 = Inr st0"
    using demo_init [where 'm = unit] by blast
  define st where "st = st0\<lparr>draining := {}, rotate_after_s := 3, waiting := [demo_waiting 3 0, demo_waiting 1 2]\<rparr>"
  have r: "rotation_reach st" by (rule rotation_reach.fresh) (simp add: st_def)
  have H: "{2} = rotation_holdout (Some 2) [1, 2] 7 st"
    by (simp add: st_def rotation_holdout_def demo_waiting_def demo_request_def group_lora_id_def waiting_count_def)
  from rotation_drains_one_adapter [OF r H] H r show ?thesis by (auto simp: st_def)
qed

subsection \<open>The waiting queue\<close>

lemma rotated_queue:
  assumes "prefills_rotated H super q = (r, q')"
  shows "\<exists>seen. seen = filter (\<lambda>sg. group_lora_id sg \<notin> H) q \<and> r = fst (super seen) \<and>
    mset q' = mset (snd (super seen)) + mset (filter (\<lambda>sg. group_lora_id sg \<in> H) q) \<and>
    (H \<noteq> {} \<longrightarrow> sorted (map arrival_time q'))"
  using assms by (cases "H = {}") (auto simp: prefills_rotated_def Let_def split: prod.splits)

lemma mset_split: "mset q = mset (filter P q) + mset (filter (\<lambda>x. \<not> P x) q)"
  by (simp add: mset_filter multiset_partition [symmetric])

text \<open>Grouped order: the requests past the waiting limit first, oldest first, then whole adapters.\<close>

definition aged :: "real \<Rightarrow> real \<Rightarrow> seq_group \<Rightarrow> bool" where
  "aged now limit sg \<longleftrightarrow> limit \<le> now - arrival_time sg"

definition grouped_order :: "real \<Rightarrow> real \<Rightarrow> seq_group list \<Rightarrow> bool" where
  "grouped_order now limit g \<longleftrightarrow>
     sorted_wrt (\<lambda>a b. aged now limit b \<longrightarrow> aged now limit a \<and> arrival_time a \<le> arrival_time b) g \<and>
     (\<forall>i j k. i < j \<longrightarrow> j < k \<longrightarrow> k < length g \<longrightarrow> \<not> aged now limit (g ! i) \<longrightarrow>
        group_lora_id (g ! i) = group_lora_id (g ! k) \<longrightarrow> group_lora_id (g ! j) = group_lora_id (g ! i))"

lemma key_grouped:
  assumes "sorted (map (admission_key now limit q) g)"
  shows "grouped_order now limit g"
proof -
  let ?f = "admission_key now limit q"
  have ord: "?f (g ! a) \<le> ?f (g ! b)" if "a < b" "b < length g" for a b
    using sorted_nth_mono [OF assms, of a b] that by simp
  have "aged now limit (g ! i) \<and> arrival_time (g ! i) \<le> arrival_time (g ! j)"
    if "aged now limit (g ! j)" "i < j" "j < length g" for i j
    using ord [OF that(2,3)] that(1) by (auto simp: admission_key_def aged_def less_eq_prod_def split: if_splits)
  moreover have "group_lora_id (g ! j) = group_lora_id (g ! i)"
    if "\<not> aged now limit (g ! i)" "i < j" "j < k" "k < length g" "group_lora_id (g ! i) = group_lora_id (g ! k)" for i j k
    using ord [OF that(2)] ord [OF that(3,4)] that
    by (auto simp: admission_key_def aged_def less_eq_prod_def less_prod_def split: if_splits)
  ultimately show ?thesis unfolding grouped_order_def sorted_wrt_iff_nth_less by blast
qed

lemma filter_grouped: "grouped_order now limit (filter P (group_waiting now limit q))"
  by (rule key_grouped [of _ _ q]) (simp add: group_waiting_def sorted_filter)

text \<open>C4: Prefill admission never loses or duplicates a waiting request and never admits one of a
  draining adapter. The superclass is offered exactly the requests of the adapters that do not
  drain; what it leaves in its queue and every held-back request are the new waiting queue,
  whether the call succeeds or raises; and whenever the queue was reordered or split it is back in
  arrival order. With grouped admission the superclass sees the requests past the waiting limit
  first, oldest first, and then each adapter's requests without interruption.\<close>

theorem prefill_admission_keeps_the_queue:
  assumes "schedule_prefills True cap resident now_group now super st = (r, st')"
  shows "\<exists>seen. r = fst (super seen) \<and>
    mset seen = mset (filter (\<lambda>sg. group_lora_id sg \<notin> draining st') (waiting st)) \<and>
    mset (waiting st') = mset (snd (super seen)) +
      mset (filter (\<lambda>sg. group_lora_id sg \<in> draining st') (waiting st)) \<and>
    (draining st' \<noteq> {} \<or> admit_grouped st \<and> 1 < length (waiting st) \<longrightarrow> sorted (map arrival_time (waiting st'))) \<and>
    (admit_grouped st \<and> 1 < length (waiting st) \<longrightarrow> grouped_order now_group (group_max_wait_s st) seen)"
proof (cases "admit_grouped st \<and> 1 < length (waiting st)")
  case True
  let ?g = "group_waiting now_group (group_max_wait_s st) (waiting st)"
  let ?H = "rotation_holdout cap resident now (st\<lparr>waiting := ?g\<rparr>)"
  obtain q where pr: "prefills_rotated ?H super ?g = (r, q)" and st': "draining st' = ?H"
    "waiting st' = sort_key arrival_time q"
    using assms True by (auto simp: schedule_prefills_def Let_def split: prod.splits)
  let ?seen = "filter (\<lambda>sg. group_lora_id sg \<notin> ?H) ?g"
  from rotated_queue [OF pr] have "r = fst (super ?seen)"
    "mset q = mset (snd (super ?seen)) + mset (filter (\<lambda>sg. group_lora_id sg \<in> ?H) ?g)" by blast+
  then show ?thesis using filter_grouped [of now_group "group_max_wait_s st"] st'
    by (intro exI [of _ ?seen]) (simp add: mset_filter, simp add: group_waiting_def)
next
  case False
  let ?H = "rotation_holdout cap resident now st"
  obtain q where "prefills_rotated ?H super (waiting st) = (r, q)" and st': "draining st' = ?H" "waiting st' = q"
    using assms False by (auto simp: schedule_prefills_def Let_def split: prod.splits)
  from rotated_queue [OF this(1)] st' False show ?thesis by auto
qed

text \<open>
  Grouped admission of three requests, the one of adapter 3 past its limit: the superclass takes the
  first it is offered and raises afterwards.
\<close>

definition demo_super :: "bool super_call" where
  "demo_super q = (Inl KeyError, tl q)"

theorem prefill_admission_keeps_the_queue_witness:
  "\<exists>st st' :: unit sched. schedule_prefills True None [] 40 40 demo_super st = (Inl KeyError, st') \<and>
     waiting st = [demo_waiting 1 30, demo_waiting 3 1, demo_waiting 1 31] \<and>
     mset (waiting st') = {# demo_waiting 1 30, demo_waiting 1 31 #} \<and> sorted (map arrival_time (waiting st'))"
proof -
  obtain st0 :: "unit sched" where "scheduler_init [] (\<lambda>p. None) [] None 0 = Inr st0"
    using demo_init [where 'm = unit] by blast
  let ?w = "[demo_waiting 1 30, demo_waiting 3 1, demo_waiting 1 31]"
  define st where "st = st0\<lparr>admit_grouped := True, group_max_wait_s := 30, waiting := ?w\<rparr>"
  define st' where "st' = snd (schedule_prefills True None [] 40 40 demo_super st)"
  have g: "group_waiting 40 30 ?w = [demo_waiting 3 1, demo_waiting 1 30, demo_waiting 1 31]"
    by (simp add: group_waiting_def admission_key_def demo_waiting_def demo_request_def group_lora_id_def less_eq_prod_def)
  have r: "schedule_prefills True None [] 40 40 demo_super st = (Inl KeyError, st')"
    and d: "waiting st' = [demo_waiting 1 30, demo_waiting 1 31]"
    unfolding st'_def by (simp_all add: schedule_prefills_def st_def g rotation_holdout_def prefills_rotated_def
        demo_super_def Let_def) (simp add: demo_waiting_def)
  from prefill_admission_keeps_the_queue [OF r] have "sorted (map arrival_time (waiting st'))" by (auto simp: st_def)
  with r d show ?thesis by (intro exI [of _ st] exI [of _ st']) (simp add: st_def)
qed

end
