(* ===== verification/Segments.thy ===== *)
theory Segments
  imports Prelude
begin

text \<open>
  \<^verbatim>\<open>kernel/segmented_punica_wrapper.py\<close> and the tile map of \<^verbatim>\<open>kernel/tiled_segment_gemm.py\<close>:
  the per-step metadata of the grouped LoRA kernels. A decode batch is cut into runs of one
  adapter, the runs are written into a fixed number of segment slots, and the segments into a
  list of work tiles. Tensors are lists; elementwise arithmetic is \<open>map\<close>, and the torch
  operations that combine positions are the fields of a record \<open>torch\<close>, specified by
  \<open>torch_ok\<close> as torch documents them.
\<close>

subsection \<open>The torch operations used\<close>

record torch =
  cumsum :: "int list \<Rightarrow> int list"
  scatter_add :: "int list \<Rightarrow> int list \<Rightarrow> int list \<Rightarrow> int list"
  scatter_amin :: "int list \<Rightarrow> int list \<Rightarrow> int list \<Rightarrow> int list"
  scatter_set :: "int list \<Rightarrow> int list \<Rightarrow> int list \<Rightarrow> int list"
  searchsorted_right :: "int list \<Rightarrow> int list \<Rightarrow> int list"

text \<open>The positions of a scatter index that name slot \<open>j\<close>.\<close>

definition hits :: "int list \<Rightarrow> nat \<Rightarrow> nat set" where
  "hits idx j = {t. t < length idx \<and> idx ! t = int j}"

text \<open>
  \<open>scatter_\<close> with repeated indices writes one of the sources, unspecified which. An index
  outside the destination is an error in torch, so nothing is said about it.
\<close>

definition torch_ok :: "torch \<Rightarrow> bool" where
  "torch_ok T \<longleftrightarrow>
     (\<forall>xs. length (cumsum T xs) = length xs \<and>
        (\<forall>i<length xs. cumsum T xs ! i = sum_list (take (Suc i) xs))) \<and>
     (\<forall>d idx src. length idx = length src \<longrightarrow> (\<forall>i\<in>set idx. 0 \<le> i \<and> i < int (length d)) \<longrightarrow>
        length (scatter_add T d idx src) = length d \<and>
        length (scatter_amin T d idx src) = length d \<and>
        length (scatter_set T d idx src) = length d \<and>
        (\<forall>j<length d.
           scatter_add T d idx src ! j = d ! j + (\<Sum>t\<in>hits idx j. src ! t) \<and>
           scatter_amin T d idx src ! j =
             (if hits idx j = {} then d ! j else Min ((\<lambda>t. src ! t) ` hits idx j)) \<and>
           (if hits idx j = {} then scatter_set T d idx src ! j = d ! j
            else scatter_set T d idx src ! j \<in> (\<lambda>t. src ! t) ` hits idx j))) \<and>
     (\<forall>bs ps. sorted bs \<longrightarrow> searchsorted_right T bs ps =
        map (\<lambda>p. int (length (filter (\<lambda>b. b \<le> p) bs))) ps)"

subsection \<open>Segments\<close>

text \<open>The work of \<open>_refresh_segments\<close>: start, length and adapter index of each slot.\<close>

definition refresh_segments :: "torch \<Rightarrow> nat \<Rightarrow> int list \<Rightarrow> int list \<times> int list \<times> int list" where
  "refresh_segments T n_loras idx =
     (let n = length idx;
          start = replicate n_loras 0; len = replicate n_loras 0; lora = replicate n_loras (- 1)
      in if n = 0 then (start, len, lora)
         else let is_start = True # map2 (\<noteq>) (tl idx) (butlast idx);
                  seg_id = map (\<lambda>x. x - 1) (cumsum T (map of_bool is_start));
                  seg_id = map (\<lambda>x. min x (int n_loras - 1)) seg_id;
                  pos = map int [0..<n];
                  len = scatter_add T len seg_id (replicate n 1);
                  start = scatter_amin T start seg_id pos;
                  lora = scatter_set T lora seg_id idx
              in (start, len, map2 (\<lambda>l x. if l = 0 then - 1 else x) len lora))"

text \<open>The number of adapter runs \<open>update_metadata\<close> counts on the host for a prefill step.\<close>

definition count_runs :: "int list \<Rightarrow> nat" where
  "count_runs ids = 1 + length (filter (\<lambda>(a, b). a \<noteq> b) (zip ids (tl ids)))"

subsection \<open>Tiles\<close>

definition tile_map_tokens :: nat where
  "tile_map_tokens = 8192"

definition cdiv :: "nat \<Rightarrow> nat \<Rightarrow> nat" where
  "cdiv n k = (n + k - 1) div k"

text \<open>The launch grid of a step, and the capacity of the work list.\<close>

definition tile_cap :: "nat \<Rightarrow> nat \<Rightarrow> nat \<Rightarrow> nat" where
  "tile_cap block_m n_loras n_tok = cdiv n_tok block_m + n_loras + 1"

definition tile_capacity :: "nat \<Rightarrow> nat \<Rightarrow> nat" where
  "tile_capacity block_m n_loras = cdiv tile_map_tokens block_m + n_loras + 1"

definition build_tile_map :: "torch \<Rightarrow> int list \<Rightarrow> int \<Rightarrow> nat \<Rightarrow> int list \<times> int list" where
  "build_tile_map T seg_len block_m max_tiles =
     (let n_seg = int (length seg_len);
          ntiles = map (\<lambda>l. (l + block_m - 1) div block_m) seg_len;
          cum = cumsum T ntiles;
          starts = map2 (-) cum ntiles;
          pos = map int [0..<max_tiles];
          seg_of = searchsorted_right T cum pos;
          seg_clamped = map (\<lambda>s. min s (n_seg - 1)) seg_of;
          local = map2 (\<lambda>p s. p - starts ! nat s) pos seg_clamped;
          valid = map (\<lambda>p. p < cum ! nat (n_seg - 1)) pos
      in (map2 (\<lambda>v s. if v then s else - 1) valid seg_clamped,
          map2 (\<lambda>v m. if v then m else 0) valid local))"

subsection \<open>What \<open>update_metadata\<close> refreshes\<close>

record wrapper =
  prefill_ok :: bool
  tile_grid :: nat
  seg_start :: "int list"
  seg_len :: "int list"
  seg_lora :: "int list"
  tile_seg :: "int list"
  tile_m :: "int list"

definition set_segments :: "torch \<Rightarrow> nat \<Rightarrow> int list \<Rightarrow> wrapper \<Rightarrow> wrapper" where
  "set_segments T max_loras idx w =
     (let (s, l, a) = refresh_segments T max_loras idx in w\<lparr>seg_start := s, seg_len := l, seg_lora := a\<rparr>)"

text \<open>\<open>tile_grid\<close> is \<open>_tile_cap\<close>, the size of this step's launch grid.\<close>

definition set_tiles :: "torch \<Rightarrow> nat \<Rightarrow> nat \<Rightarrow> nat \<Rightarrow> wrapper \<Rightarrow> wrapper" where
  "set_tiles T block_m max_loras n_tok w =
     (let (s, m) = build_tile_map T (seg_len w) (int block_m)
            (max (tile_capacity block_m max_loras) (length (tile_seg w)))
      in w\<lparr>tile_grid := tile_cap block_m max_loras n_tok, tile_seg := s, tile_m := m\<rparr>)"

text \<open>
  \<open>ids\<close> is the host mapping, \<open>idx\<close> the device tensor \<open>token_lora_indices\<close> the superclass
  fills from it; \<open>mode\<close> is AS_SEGGEMM and \<open>grouped\<close> AS_SEGGEMM_PREFILL.
\<close>

definition update_metadata ::
  "torch \<Rightarrow> int \<Rightarrow> bool \<Rightarrow> nat \<Rightarrow> bool \<Rightarrow> int list \<Rightarrow> int list \<Rightarrow> nat \<Rightarrow> wrapper \<Rightarrow> wrapper" where
  "update_metadata T mode grouped block_m is_prefill ids idx max_loras w =
     (let w = w\<lparr>prefill_ok := False\<rparr> in
      if \<not> is_prefill then
        (let w = set_segments T max_loras idx w
         in if mode \<ge> 2 then set_tiles T block_m max_loras (length idx) w else w)
      else if mode = 3 \<and> grouped then
        (let n = length ids in
         if 0 < n \<and> n \<le> tile_map_tokens \<and> count_runs ids \<le> max_loras
         then (set_tiles T block_m max_loras (length idx) (set_segments T max_loras idx w))\<lparr>prefill_ok := True\<rparr>
         else w)
      else w)"

definition use_grouped :: "nat \<Rightarrow> bool \<Rightarrow> nat \<Rightarrow> bool" where
  "use_grouped min_tokens is_prefill n_rows = (\<not> is_prefill \<and> n_rows \<ge> min_tokens)"

definition use_multislice :: "int \<Rightarrow> nat \<Rightarrow> bool \<Rightarrow> nat \<Rightarrow> wrapper \<Rightarrow> bool" where
  "use_multislice mode min_tokens is_prefill n_rows w =
     (if is_prefill then prefill_ok w else mode = 3 \<and> use_grouped min_tokens is_prefill n_rows)"

text \<open>Block sizes by rank.\<close>

definition shrink_cfg :: "nat \<Rightarrow> nat \<times> nat \<times> nat \<times> nat" where
  "shrink_cfg N = (if N \<ge> 128 then (16, 32, 64, 4) else if N \<ge> 64 then (16, 16, 64, 8) else (32, 16, 32, 8))"

definition expand_cfg :: "nat \<Rightarrow> nat \<times> nat \<times> nat" where
  "expand_cfg K = (if K \<ge> 128 then (32, 64, 32) else if K \<ge> 64 then (32, 128, 32) else (32, 32, 16))"

definition tiled_shrink_cfg :: "nat \<Rightarrow> nat \<times> nat \<times> nat \<times> nat" where
  "tiled_shrink_cfg rank =
     (if rank \<ge> 128 then (32, 64, 4, 4) else if rank \<ge> 64 then (16, 64, 8, 4) else (16, 64, 16, 4))"

definition tiled_expand_cfg :: "nat \<Rightarrow> nat \<times> nat \<times> nat" where
  "tiled_expand_cfg rank = (if rank \<ge> 128 then (64, 32, 4) else (128, min rank 32, 4))"

subsection \<open>Consecutive blocks\<close>

text \<open>The start of block \<open>k\<close> when blocks of the given sizes follow one another.\<close>

definition off :: "nat list \<Rightarrow> nat \<Rightarrow> nat" where
  "off ns k = sum_list (take k ns)"

lemma off_0 [simp]: "off ns 0 = 0"
  by (simp add: off_def)

lemma off_Suc: "k < length ns \<Longrightarrow> off ns (Suc k) = off ns k + ns ! k"
  by (simp add: off_def take_Suc_conv_app_nth)

lemma off_all: "off ns (length ns) = sum_list ns"
  by (simp add: off_def)

lemma off_mono: "j \<le> k \<Longrightarrow> off ns j \<le> off ns k"
  unfolding off_def by (metis le_iff_add sum_list_append take_add le_add1)

lemma sum_list_int: "sum_list (map int ns) = int (sum_list ns)"
  by (induction ns) auto

lemma block_exists:
  assumes "p < sum_list ns"
  shows "\<exists>k<length ns. off ns k \<le> p \<and> p < off ns k + ns ! k"
proof -
  define k where "k = (LEAST k. p < off ns (Suc k))"
  have ex: "p < off ns (Suc (length ns - 1))"
    using assms by (cases ns) (simp_all add: off_def)
  have k: "p < off ns (Suc k)" unfolding k_def using LeastI [of "\<lambda>k. p < off ns (Suc k)", OF ex] .
  have below: "\<not> p < off ns (Suc j)" if "j < k" for j using that not_less_Least [of j "\<lambda>k. p < off ns (Suc k)"] unfolding k_def by blast
  have "k \<le> length ns - 1" unfolding k_def using Least_le [of "\<lambda>k. p < off ns (Suc k)", OF ex] .
  moreover have "ns \<noteq> []" using assms by auto
  ultimately have len: "k < length ns" by (cases ns) auto
  have "off ns k \<le> p" using below [of "k - 1"] by (cases k) auto
  then show ?thesis using k len by (auto simp: off_Suc)
qed

lemma block_unique:
  assumes "off ns j \<le> p" "p < off ns j + ns ! j" "j < length ns"
    and "off ns k \<le> p" "p < off ns k + ns ! k" "k < length ns"
  shows "j = k"
proof -
  have "\<not> i < l" if "off ns l \<le> p" "p < off ns i + ns ! i" "i < length ns" for i l
  proof
    assume "i < l"
    then have "off ns (Suc i) \<le> off ns l" by (intro off_mono) simp
    then show False using that by (simp add: off_Suc)
  qed
  then show ?thesis using assms by (metis linorder_neqE_nat)
qed

lemma nth_concat_block:
  "k < length xss \<Longrightarrow> off (map length xss) k \<le> t \<Longrightarrow> t < off (map length xss) k + length (xss ! k) \<Longrightarrow>
   concat xss ! t = xss ! k ! (t - off (map length xss) k)"
proof (induction xss arbitrary: k t)
  case (Cons xs xss)
  show ?case
  proof (cases k)
    case 0
    then show ?thesis using Cons.prems by (simp add: nth_append)
  next
    case (Suc j)
    have o': "off (map length (xs # xss)) k = length xs + off (map length xss) j"
      by (simp add: off_def Suc)
    then have "t = length xs + (t - length xs)" "off (map length xss) j \<le> t - length xs"
        "t - length xs < off (map length xss) j + length (xss ! j)"
      using Cons.prems(2,3) Suc by auto
    then show ?thesis
      using Cons.IH [of j "t - length xs"] Cons.prems(1,2) o' Suc by (simp add: nth_append)
  qed
qed simp

subsection \<open>The segment of a token\<close>

text \<open>The running segment number of each position of a batch.\<close>

fun run_labels :: "int \<Rightarrow> int list list \<Rightarrow> int list" where
  "run_labels c [] = []"
| "run_labels c (r # rs) = replicate (length r) c @ run_labels (c + 1) rs"

fun csum :: "int \<Rightarrow> int list \<Rightarrow> int list" where
  "csum c [] = []"
| "csum c (x # xs) = (c + x) # csum (c + x) xs"

lemma csum_append: "csum c (xs @ ys) = csum c xs @ csum (c + sum_list xs) ys"
  by (induction c xs rule: csum.induct) (auto simp: add.assoc)

lemma csum_zeros: "csum c (replicate n 0) = replicate n c"
  by (induction n) auto

lemma length_csum [simp]: "length (csum c xs) = length xs"
  by (induction c xs rule: csum.induct) auto

lemma csum_nth: "i < length xs \<Longrightarrow> csum c xs ! i = c + sum_list (take (Suc i) xs)"
  by (induction c xs arbitrary: i rule: csum.induct) (auto simp: nth_Cons split: nat.splits)

lemma torch_cumsum: "torch_ok T \<Longrightarrow> cumsum T xs = csum 0 xs"
  by (intro nth_equalityI) (auto simp: torch_ok_def csum_nth)

text \<open>The start flags: 1 where a new run begins.\<close>

fun flags :: "int list \<Rightarrow> int list" where
  "flags [] = []"
| "flags [x] = [1]"
| "flags (x # y # ys) = 1 # (if x = y then 0 # tl (flags (y # ys)) else flags (y # ys))"

lemma flags_hd: "flags (x # xs) = 1 # tl (flags (x # xs))"
  by (cases xs) auto

lemma is_start_flags:
  "xs \<noteq> [] \<Longrightarrow> map of_bool (True # map2 (\<noteq>) (tl xs) (butlast xs)) = flags xs"
proof (induction xs rule: flags.induct)
  case (3 x y ys)
  have "flags (y # ys) = 1 # tl (flags (y # ys))" by (rule flags_hd)
  then have "map of_bool (map2 (\<noteq>) ys (butlast (y # ys))) = tl (flags (y # ys))"
    using 3 by (metis list.sel(3) list.simps(9) list.distinct(1))
  then show ?case using flags_hd [of y ys] by auto
qed simp_all

lemma flags_run:
  "flags (x # xs) = 1 # replicate (length (takeWhile ((=) x) xs)) 0 @ flags (dropWhile ((=) x) xs)"
proof (induction xs)
  case (Cons y ys)
  show ?case
  proof (cases "y = x")
    case True
    then show ?thesis using Cons by simp
  next
    case False
    then show ?thesis by auto
  qed
qed simp

lemma labels_flags: "map (\<lambda>x. x - 1) (csum c (flags xs)) = run_labels c (runs xs)"
proof (induction xs arbitrary: c rule: runs.induct)
  case (2 x xs)
  show ?case
    using 2 [of "c + 1"] by (simp add: flags_run csum_append csum_zeros sum_list_replicate)
qed simp

lemma length_run_labels [simp]: "length (run_labels c rs) = sum_list (map length rs)"
  by (induction c rs rule: run_labels.induct) auto

lemma run_labels_nth:
  "k < length rs \<Longrightarrow> off (map length rs) k \<le> t \<Longrightarrow> t < off (map length rs) k + length (rs ! k) \<Longrightarrow>
   run_labels c rs ! t = c + int k"
proof (induction c rs arbitrary: k t rule: run_labels.induct)
  case (2 c r rs)
  show ?case
  proof (cases k)
    case 0
    then show ?thesis using 2 by (simp add: nth_append)
  next
    case (Suc j)
    have o': "off (map length (r # rs)) k = length r + off (map length rs) j"
      by (simp add: off_def Suc)
    then have "off (map length rs) j \<le> t - length r" "t - length r < off (map length rs) j + length (rs ! j)"
        "\<not> t < length r"
      using 2(3,4) Suc by auto
    then show ?thesis using 2(1) [of j "t - length r"] 2(2) Suc by (simp add: nth_append)
  qed
qed simp

lemma run_of_position:
  assumes "t < length xs"
  obtains k where "k < length (runs xs)" "off (map length (runs xs)) k \<le> t"
    "t < off (map length (runs xs)) k + length (runs xs ! k)" "xs ! t = hd (runs xs ! k)"
    "run_labels 0 (runs xs) ! t = int k"
proof -
  have "t < sum_list (map length (runs xs))" using assms by simp
  from block_exists [OF this] obtain k where k: "k < length (runs xs)"
      "off (map length (runs xs)) k \<le> t" "t < off (map length (runs xs)) k + length (runs xs ! k)"
    by auto
  have "xs ! t = runs xs ! k ! (t - off (map length (runs xs)) k)"
    using nth_concat_block [OF k] by simp
  then have "xs ! t \<in> set (runs xs ! k)" using k(2,3) by simp
  then have "xs ! t = hd (runs xs ! k)" using runs_homogeneous k(1) by (metis nth_mem)
  then show ?thesis using that k run_labels_nth [OF k, of 0] by simp
qed

lemma hits_labels:
  "hits (run_labels 0 rs) j =
   (if j < length rs then {off (map length rs) j ..< off (map length rs) j + length (rs ! j)} else {})"
  (is "_ = ?B")
proof (intro set_eqI iffI)
  fix t assume t: "t \<in> hits (run_labels 0 rs) j"
  then have "t < sum_list (map length rs)" by (simp add: hits_def)
  from block_exists [OF this] obtain k where k: "k < length rs" "off (map length rs) k \<le> t"
      "t < off (map length rs) k + length (rs ! k)" by auto
  then have "k = j" using t run_labels_nth [OF k, of 0] by (simp add: hits_def)
  then show "t \<in> ?B" using k by simp
next
  fix t assume "t \<in> ?B"
  then have k: "j < length rs" "off (map length rs) j \<le> t" "t < off (map length rs) j + length (rs ! j)"
    by (auto split: if_splits)
  have "off (map length rs) (Suc j) \<le> off (map length rs) (length (map length rs))"
    using k(1) by (intro off_mono) simp
  then have "t < sum_list (map length rs)" using k by (simp add: off_Suc off_all [of "map length rs", simplified])
  then show "t \<in> hits (run_labels 0 rs) j" using run_labels_nth [OF k, of 0] by (simp add: hits_def)
qed

lemma run_labels_range:
  "i \<in> set (run_labels c rs) \<Longrightarrow> c \<le> i \<and> i < c + int (length rs)"
  by (induction c rs rule: run_labels.induct) auto

lemma refresh_eq:
  assumes "torch_ok T" and "idx \<noteq> []"
    and sid_def: "sid = map (\<lambda>x. min x (int n_loras - 1)) (run_labels 0 (runs idx))"
  shows "refresh_segments T n_loras idx =
    (let len = scatter_add T (replicate n_loras 0) sid (replicate (length idx) 1) in
     (scatter_amin T (replicate n_loras 0) sid (map int [0..<length idx]), len,
      map2 (\<lambda>l x. if l = 0 then - 1 else x) len (scatter_set T (replicate n_loras (- 1)) sid idx)))"
proof -
  have "map (\<lambda>x. x - 1) (cumsum T (map of_bool (True # map2 (\<noteq>) (tl idx) (butlast idx)))) =
      run_labels 0 (runs idx)"
    unfolding torch_cumsum [OF assms(1)] is_start_flags [OF assms(2)] by (rule labels_flags)
  then show ?thesis using assms(2) by (simp only: refresh_segments_def sid_def Let_def) simp
qed

lemma torch_scatter:
  assumes "torch_ok T" and "length idx = length src" and "\<forall>i\<in>set idx. 0 \<le> i \<and> i < int (length d)"
  shows "length (scatter_add T d idx src) = length d \<and>
    length (scatter_amin T d idx src) = length d \<and> length (scatter_set T d idx src) = length d \<and>
    (\<forall>j<length d.
       scatter_add T d idx src ! j = d ! j + (\<Sum>t\<in>hits idx j. src ! t) \<and>
       scatter_amin T d idx src ! j =
         (if hits idx j = {} then d ! j else Min ((\<lambda>t. src ! t) ` hits idx j)) \<and>
       (if hits idx j = {} then scatter_set T d idx src ! j = d ! j
        else scatter_set T d idx src ! j \<in> (\<lambda>t. src ! t) ` hits idx j))"
  by (rule assms(1) [unfolded torch_ok_def, THEN conjunct2, THEN conjunct1, THEN spec [of _ d],
      THEN spec [of _ idx], THEN spec [of _ src], THEN mp, OF assms(2), THEN mp, OF assms(3)])

text \<open>What the slots hold, whether or not the runs fit.\<close>

lemma refresh_slots:
  assumes T: "torch_ok T" and "idx \<noteq> []" and n: "0 < n_loras"
    and r: "refresh_segments T n_loras idx = (st, lens, lo)" and j: "j < n_loras"
  defines "H \<equiv> hits (map (\<lambda>x. min x (int n_loras - 1)) (run_labels 0 (runs idx))) j"
  shows "lens ! j = int (card H)" and "st ! j = (if H = {} then 0 else int (Min H))"
    and "if H = {} then lo ! j = - 1 else lo ! j \<in> (\<lambda>t. idx ! t) ` H"
    and "length lens = n_loras" and "length st = n_loras" and "length lo = n_loras"
proof -
  define sid where "sid = map (\<lambda>x. min x (int n_loras - 1)) (run_labels 0 (runs idx))"
  have Hs: "H = hits sid j" unfolding H_def sid_def ..
  have H: "H \<subseteq> {..<length idx}" "finite H"
    by (auto simp: Hs sid_def hits_def intro: finite_subset [of _ "{..<length idx}"])
  have rng: "\<forall>i\<in>set sid. 0 \<le> i \<and> i < int n_loras"
    using n run_labels_range [of _ 0 "runs idx"] by (auto simp: sid_def)
  have l: "length sid = length idx" by (simp add: sid_def)
  note eq = r [unfolded refresh_eq [OF T assms(2) sid_def] Let_def]
  have lens: "lens = scatter_add T (replicate n_loras 0) sid (replicate (length idx) 1)" and
    st: "st = scatter_amin T (replicate n_loras 0) sid (map int [0..<length idx])"
    using eq by simp_all
  have sc: "length (scatter_add T d sid src) = length d \<and> length (scatter_amin T d sid src) = length d \<and>
      length (scatter_set T d sid src) = length d \<and>
      scatter_add T d sid src ! j = d ! j + (\<Sum>t\<in>H. src ! t) \<and>
      scatter_amin T d sid src ! j = (if H = {} then d ! j else Min ((\<lambda>t. src ! t) ` H)) \<and>
      (if H = {} then scatter_set T d sid src ! j = d ! j
       else scatter_set T d sid src ! j \<in> (\<lambda>t. src ! t) ` H)"
    if "length d = n_loras" "length src = length idx" for d src
  proof -
    have "length sid = length src" "\<forall>i\<in>set sid. 0 \<le> i \<and> i < int (length d)"
      using that l rng by simp_all
    note A = torch_scatter [OF T this]
    show ?thesis unfolding Hs
      using A [THEN conjunct1] A [THEN conjunct2, THEN conjunct1]
        A [THEN conjunct2, THEN conjunct2, THEN conjunct1]
        A [THEN conjunct2, THEN conjunct2, THEN conjunct2, THEN spec [of _ j], THEN mp] j that(1)
      by (intro conjI) (assumption | simp)+
  qed
  show len: "length lens = n_loras" "length st = n_loras" using sc by (auto simp: lens st)
  have "(\<Sum>t\<in>H. replicate (length idx) 1 ! t) = (\<Sum>t\<in>H. 1 :: int)"
    using H by (intro sum.cong) auto
  then show c: "lens ! j = int (card H)" using sc j by (simp add: lens)
  have "Min ((\<lambda>t. map int [0..<length idx] ! t) ` H) = int (Min H)" if "H \<noteq> {}"
  proof -
    have "(\<lambda>t. map int [0..<length idx] ! t) ` H = int ` H" using H by (intro image_cong) auto
    then show ?thesis using that H(2) by (simp add: mono_Min_commute mono_def)
  qed
  then show "st ! j = (if H = {} then 0 else int (Min H))" using sc j by (simp add: st)
  have lo: "lo = map2 (\<lambda>l x. if l = 0 then - 1 else x) lens (scatter_set T (replicate n_loras (- 1)) sid idx)"
    using eq by auto
  show "length lo = n_loras" using len sc by (simp add: lo)
  have "lo ! j = (if lens ! j = 0 then - 1 else scatter_set T (replicate n_loras (- 1)) sid idx ! j)"
    using len sc j by (simp add: lo)
  then show "if H = {} then lo ! j = - 1 else lo ! j \<in> (\<lambda>t. idx ! t) ` H"
    using c sc [of "replicate n_loras (- 1)" idx] H(2) by auto
qed

lemma hits_unclamped:
  assumes "length rs \<le> n"
  shows "hits (map (\<lambda>x. min x (int n - 1)) (run_labels 0 rs)) j = hits (run_labels 0 rs) j"
proof -
  have "map (\<lambda>x. min x (int n - 1)) (run_labels 0 rs) = run_labels 0 rs"
    using assms by (intro map_idI) (auto dest: run_labels_range)
  then show ?thesis by simp
qed

text \<open>The last slot also takes every run that has no slot of its own.\<close>

lemma hits_last:
  assumes "0 < n" and "t < sum_list (map length rs)" and "run_labels 0 rs ! t = int k" and "n \<le> Suc k"
  shows "t \<in> hits (map (\<lambda>x. min x (int n - 1)) (run_labels 0 rs)) (n - 1)"
  using assms by (auto simp: hits_def of_nat_diff)

text \<open>Torch on lists, to evaluate the definitions; \<open>scatter_\<close> lets the last write win.\<close>

definition list_torch :: torch where
  "list_torch = \<lparr>cumsum = csum 0,
     scatter_add = (\<lambda>d idx src. map (\<lambda>j. d ! j +
       sum_list (map snd (filter (\<lambda>p. fst p = int j) (zip idx src)))) [0..<length d]),
     scatter_amin = (\<lambda>d idx src. map (\<lambda>j. let xs = map snd (filter (\<lambda>p. fst p = int j) (zip idx src))
       in if xs = [] then d ! j else Min (set xs)) [0..<length d]),
     scatter_set = (\<lambda>d idx src. map (\<lambda>j. let xs = map snd (filter (\<lambda>p. fst p = int j) (zip idx src))
       in if xs = [] then d ! j else last xs) [0..<length d]),
     searchsorted_right = (\<lambda>bs ps. map (\<lambda>p. int (length (filter (\<lambda>b. b \<le> p) bs))) ps)\<rparr>"

lemma hits_zip:
  assumes "length idx = length src"
  shows "set (map snd (filter (\<lambda>p. fst p = int j) (zip idx src))) = (\<lambda>t. src ! t) ` hits idx j"
  using assms by (force simp: set_zip hits_def image_iff)

lemma sum_hits_zip:
  assumes "length idx = length src"
  shows "sum_list (map snd (filter (\<lambda>p. fst p = int j) (zip idx src))) = (\<Sum>t\<in>hits idx j. src ! t :: int)"
proof -
  have "sum_list (map snd (filter (\<lambda>p. fst p = int j) (zip idx src))) =
      (\<Sum>p\<leftarrow>zip idx src. if fst p = int j then snd p else 0)"
    by (simp add: sum_list_map_filter')
  also have "\<dots> = (\<Sum>t<length idx. if idx ! t = int j then src ! t else 0)"
    using assms by (auto simp: sum_list_sum_nth atLeast0LessThan intro!: sum.cong)
  also have "\<dots> = (\<Sum>t\<in>{t\<in>{..<length idx}. idx ! t = int j}. src ! t)"
    by (rule sum.inter_filter [symmetric]) simp
  finally show ?thesis by (simp add: hits_def lessThan_def)
qed

lemma list_torch_ok: "torch_ok list_torch"
proof -
  have "length idx = length src \<Longrightarrow>
      (filter (\<lambda>p. fst p = int j) (zip idx src) = []) = (hits idx j = {})" for idx src :: "int list" and j
    using hits_zip [of idx src j] by (metis image_is_empty list.map_disc_iff set_empty)
  moreover have "filter (\<lambda>p. fst p = int j) (zip idx src) \<noteq> [] \<Longrightarrow> length idx = length src \<Longrightarrow>
      snd (last (filter (\<lambda>p. fst p = int j) (zip idx src))) \<in> (\<lambda>t. src ! t) ` hits idx j"
    for idx src :: "int list" and j
  proof -
    assume "filter (\<lambda>p. fst p = int j) (zip idx src) \<noteq> []" and l: "length idx = length src"
    then have "last (filter (\<lambda>p. fst p = int j) (zip idx src)) \<in> set (filter (\<lambda>p. fst p = int j) (zip idx src))"
      by (intro last_in_set)
    then show ?thesis unfolding hits_zip [OF l, symmetric] by simp
  qed
  ultimately show ?thesis
    unfolding torch_ok_def list_torch_def
    by (auto simp: csum_nth sum_hits_zip hits_zip [simplified] Let_def last_map)
qed

lemma segments_cover:
  assumes "torch_ok T" and "0 < n_loras" and "length (runs idx) \<le> n_loras" and "idx \<noteq> []"
    and "refresh_segments T n_loras idx = (st, lens, lo)"
  shows "(\<forall>t<length idx. \<exists>!j. j < n_loras \<and> st ! j \<le> int t \<and> int t < st ! j + lens ! j) \<and>
    (\<forall>t<length idx. \<forall>j<n_loras. st ! j \<le> int t \<and> int t < st ! j + lens ! j \<longrightarrow> lo ! j = idx ! t) \<and>
    (\<forall>j<n_loras. length (runs idx) \<le> j \<longrightarrow> lens ! j = 0 \<and> lo ! j = - 1) \<and>
    sum_list lens = int (length idx) \<and> (\<exists>ns. lens = map int ns \<and> length ns = n_loras) \<and>
    (\<forall>j<n_loras. lens ! j \<noteq> 0 \<longrightarrow> 0 \<le> st ! j \<and> st ! j + lens ! j \<le> int (length idx))"
proof -
  let ?R = "runs idx" and ?ls = "map length (runs idx)"
  note slots = refresh_slots [OF assms(1,4,2,5), unfolded hits_unclamped [OF assms(3)] hits_labels]
  have ne: "0 < length (?R ! j)" if "j < length ?R" for j using runs_nonempty that by (metis length_greater_0_conv nth_mem)
  have used: "lens ! j = int (length (?R ! j))" "st ! j = int (off ?ls j)"
      "lo ! j = hd (?R ! j)" if "j < length ?R" for j
  proof -
    let ?H = "{off ?ls j ..< off ?ls j + length (?R ! j)}"
    have jn: "j < n_loras" using that assms(3) by simp
    have "off ?ls j \<in> ?H" using ne [OF that] by simp
    then have H: "?H \<noteq> {}" by blast
    show "lens ! j = int (length (?R ! j))" using slots(1) [OF jn] that by simp
    have "Min ?H = off ?ls j" by (rule Min_eqI) (use ne [OF that] in auto)
    then show "st ! j = int (off ?ls j)" using slots(2) [OF jn] that H by simp
    have "lo ! j \<in> (\<lambda>t. idx ! t) ` ?H" using slots(3) [OF jn] that H by simp
    then obtain t where t: "t \<in> ?H" "lo ! j = idx ! t" by blast
    have "idx ! t = ?R ! j ! (t - off ?ls j)" using nth_concat_block [OF that, of t] t(1) by simp
    moreover have "t - off ?ls j < length (?R ! j)" using t(1) by auto
    ultimately have "idx ! t \<in> set (?R ! j)" by simp
    then show "lo ! j = hd (?R ! j)" using t(2) runs_homogeneous that by (metis nth_mem)
  qed
  have unused: "lens ! j = 0 \<and> lo ! j = - 1" if "j < n_loras" "length ?R \<le> j" for j
    using slots(1,3) [OF that(1)] that(2) by simp
  have block: "j < n_loras \<and> st ! j \<le> int t \<and> int t < st ! j + lens ! j \<longleftrightarrow>
      j < length ?R \<and> off ?ls j \<le> t \<and> t < off ?ls j + ?ls ! j" for j t
    using used [of j] unused [of j] assms(3) by (cases "j < length ?R") auto
  have "\<exists>!j. j < length ?R \<and> off ?ls j \<le> t \<and> t < off ?ls j + ?ls ! j" if "t < length idx" for t
    using block_exists [of t ?ls] block_unique [of ?ls _ t] that by auto
  moreover have "lo ! j = idx ! t" if t: "t < length idx" and j: "j < n_loras" "st ! j \<le> int t \<and> int t < st ! j + lens ! j" for t j
  proof -
    have b: "j < length ?R" "off ?ls j \<le> t" "t < off ?ls j + length (?R ! j)" using block [of j t] j by auto
    obtain k where k: "k < length ?R" "off ?ls k \<le> t" "t < off ?ls k + length (?R ! k)" "idx ! t = hd (?R ! k)"
      using run_of_position [OF t] by metis
    have "j = k" by (rule block_unique [of ?ls _ t]) (use b k in simp_all)
    then show ?thesis using used(3) b(1) k(4) by simp
  qed
  moreover have "sum_list lens = int (length idx) \<and> (\<exists>ns. lens = map int ns \<and> length ns = n_loras)"
  proof -
    have lens: "lens = map int (?ls @ replicate (n_loras - length ?R) 0)"
    proof (rule nth_equalityI)
      show "length lens = length (map int (?ls @ replicate (n_loras - length ?R) 0))"
        using slots(4) [of 0] assms(2,3) by simp
      show "lens ! j = map int (?ls @ replicate (n_loras - length ?R) 0) ! j" if "j < length lens" for j
        using used(1) [of j] unused [of j] that slots(4) [of 0] assms(2,3) by (auto simp: nth_append)
    qed
    then have "sum_list lens = int (sum_list (?ls @ replicate (n_loras - length ?R) 0))"
      by (simp only: sum_list_int)
    note total = this
    moreover have "length (?ls @ replicate (n_loras - length ?R) 0) = n_loras" using assms(3) by simp
    ultimately have "\<exists>ns. lens = map int ns \<and> length ns = n_loras" using lens by blast
    then show ?thesis using total by (simp add: sum_list_replicate)
  qed
  moreover have "0 \<le> st ! j \<and> st ! j + lens ! j \<le> int (length idx)" if "j < n_loras" "lens ! j \<noteq> 0" for j
  proof -
    have j: "j < length ?R" using unused [OF that(1)] that(2) by force
    have "off ?ls (Suc j) \<le> off ?ls (length ?ls)" using j by (intro off_mono) simp
    moreover have "off ?ls (length ?ls) = length idx"
      unfolding off_all by (metis concat_runs length_concat)
    ultimately have "off ?ls j + length (?R ! j) \<le> length idx" using off_Suc [of j ?ls] j by simp
    then show ?thesis using used [OF j] by simp
  qed
  ultimately show ?thesis using unused unfolding block by blast
qed

text \<open>C16: When a batch has at most as many adapter runs as there are segment slots, the metadata the
  grouped kernels read is right for every token: each token lies in exactly one segment, that
  segment's adapter index is the token's own, slots beyond the runs are empty with adapter
  index -1, and the segments' lengths add up to the batch.\<close>

theorem segments_cover_each_token_once:
  assumes "torch_ok T" and "0 < n_loras" and "length (runs idx) \<le> n_loras" and "idx \<noteq> []"
    and "refresh_segments T n_loras idx = (st, lens, lo)"
  shows "(\<forall>t<length idx. \<exists>!j. j < n_loras \<and> st ! j \<le> int t \<and> int t < st ! j + lens ! j) \<and>
    (\<forall>t<length idx. \<forall>j<n_loras. st ! j \<le> int t \<and> int t < st ! j + lens ! j \<longrightarrow> lo ! j = idx ! t) \<and>
    (\<forall>j<n_loras. length (runs idx) \<le> j \<longrightarrow> lens ! j = 0 \<and> lo ! j = - 1) \<and>
    sum_list lens = int (length idx)"
  using segments_cover [OF assms] by blast

theorem segments_cover_each_token_once_witness:
  "let (st, lens, lo) = refresh_segments list_torch 3 [7, 7, 4]
   in sum_list lens = 3 \<and> (\<exists>!j. j < 3 \<and> st ! j \<le> int 2 \<and> int 2 < st ! j + lens ! j)"
proof -
  obtain st lens lo where r: "refresh_segments list_torch 3 [7, 7, 4] = (st, lens, lo)"
    by (metis prod_cases3)
  note T = segments_cover_each_token_once [OF list_torch_ok _ _ _ r]
  have "\<exists>!j. j < 3 \<and> st ! j \<le> int 2 \<and> int 2 < st ! j + lens ! j"
    by (rule T [THEN conjunct1, THEN spec, THEN mp]) simp_all
  moreover have "sum_list lens = 3" using T by simp
  ultimately show ?thesis by (simp add: r)
qed

lemma adjacent_runs_differ:
  "Suc k < length (runs xs) \<Longrightarrow> hd (runs xs ! k) \<noteq> hd (runs xs ! Suc k)"
proof -
  assume k: "Suc k < length (runs xs)"
  have "distinct_adj (remdups_adj xs)" by (rule distinct_adj_remdups_adj)
  then have "remdups_adj xs ! k \<noteq> remdups_adj xs ! Suc k"
    using k by (metis distinct_adj_conv_nth length_map map_hd_runs)
  then show ?thesis using k by (metis Suc_lessD map_hd_runs nth_map)
qed

lemma surplus_runs_share_a_slot:
  assumes "torch_ok T" and "0 < n_loras" and "n_loras < length (runs idx)"
    and "refresh_segments T n_loras idx = (st, lens, lo)"
  shows "\<exists>t<length idx. st ! (n_loras - 1) \<le> int t \<and>
    int t < st ! (n_loras - 1) + lens ! (n_loras - 1) \<and> lo ! (n_loras - 1) \<noteq> idx ! t"
proof -
  let ?R = "runs idx" and ?ls = "map length (runs idx)" and ?j = "n_loras - 1"
  let ?sid = "map (\<lambda>x. min x (int n_loras - 1)) (run_labels 0 ?R)"
  let ?H = "hits ?sid ?j" and ?o = "off ?ls ?j"
  have ne: "idx \<noteq> []" using assms(3) by auto
  have j: "?j < n_loras" "?j < length ?R" "Suc ?j < length ?R" using assms(2,3) by auto
  note slots = refresh_slots [OF assms(1) ne assms(2,4) j(1)]
  have H: "?H = {?o ..< length idx}"
  proof (intro set_eqI iffI)
    fix t assume t: "t \<in> ?H"
    then have tl: "t < length idx" by (simp add: hits_def)
    obtain k where k: "k < length ?R" "off ?ls k \<le> t" "run_labels 0 ?R ! t = int k"
      using run_of_position [OF tl] by metis
    have "int ?j \<le> int k" using t tl k(3) assms(2) by (auto simp: hits_def of_nat_diff)
    then have "?o \<le> off ?ls k" by (intro off_mono) simp
    then show "t \<in> {?o ..< length idx}" using k(2) tl by simp
  next
    fix t assume t: "t \<in> {?o ..< length idx}"
    then have tl: "t < length idx" by simp
    obtain k where k: "k < length ?R" "t < off ?ls k + length (?R ! k)" "run_labels 0 ?R ! t = int k"
      using run_of_position [OF tl] by metis
    have "\<not> k < ?j"
    proof
      assume "k < ?j"
      then have "off ?ls (Suc k) \<le> ?o" by (intro off_mono) simp
      then show False using t k(1,2) by (simp add: off_Suc)
    qed
    then show "t \<in> ?H" using hits_last [OF assms(2), of t ?R k] k(3) tl by simp
  qed
  have o1: "off ?ls (Suc ?j) \<le> off ?ls (length ?ls)" "off ?ls (Suc (Suc ?j)) \<le> off ?ls (length ?ls)"
    using j by (intro off_mono; simp)+
  have pos: "0 < length (?R ! ?j)" "0 < length (?R ! Suc ?j)"
    using j runs_nonempty by (metis length_greater_0_conv nth_mem)+
  have total: "off ?ls (length ?ls) = length idx" using off_all [of ?ls] by simp
  have lt: "?o < length idx" "off ?ls (Suc ?j) < length idx"
  proof -
    have "off ?ls (Suc ?j) = ?o + ?ls ! ?j" "off ?ls (Suc (Suc ?j)) = off ?ls (Suc ?j) + ?ls ! Suc ?j"
      using j by (intro off_Suc; simp)+
    moreover have "?ls ! ?j = length (?R ! ?j)" "?ls ! Suc ?j = length (?R ! Suc ?j)"
      using j by (intro nth_map; simp)+
    ultimately show "?o < length idx" "off ?ls (Suc ?j) < length idx" using o1 pos total by linarith+
  qed
  have st: "st ! ?j = int ?o" and ln: "lens ! ?j = int (length idx - ?o)"
  proof -
    have "Min {?o ..< length idx} = ?o" by (rule Min_eqI) (use lt in auto)
    then show "st ! ?j = int ?o" "lens ! ?j = int (length idx - ?o)"
      using slots(1,2) lt unfolding H by simp_all
  qed
  have "idx ! ?o = hd (?R ! ?j)" "idx ! off ?ls (Suc ?j) = hd (?R ! Suc ?j)"
    using nth_concat_block [of ?j ?R ?o] nth_concat_block [of "Suc ?j" ?R "off ?ls (Suc ?j)"] pos j
    by (simp_all add: hd_conv_nth)
  then have "idx ! ?o \<noteq> idx ! off ?ls (Suc ?j)" using adjacent_runs_differ [OF j(3)] by simp
  then have "lo ! ?j \<noteq> idx ! ?o \<or> lo ! ?j \<noteq> idx ! off ?ls (Suc ?j)" by metis
  moreover have "?o \<le> off ?ls (Suc ?j)" by (rule off_mono) simp
  ultimately show ?thesis using lt st ln
    by (elim disjE) (rule exI [of _ ?o], simp, rule exI [of _ "off ?ls (Suc ?j)"], simp)
qed

text \<open>When a decode batch has more adapter runs than segment slots, the metadata is wrong, and
  nothing reports it: the surplus runs are merged into the last slot, so some token lies in a
  segment whose adapter index is another adapter's and would be computed with the wrong LoRA
  weights. Only the prefill path counts the runs before it uses the slots.\<close>

theorem too_many_runs_corrupt_a_segment:
  assumes "torch_ok T" and "0 < n_loras" and "n_loras < length (runs idx)"
    and "refresh_segments T n_loras idx = (st, lens, lo)"
  shows "\<exists>t<length idx. st ! (n_loras - 1) \<le> int t \<and>
    int t < st ! (n_loras - 1) + lens ! (n_loras - 1) \<and> lo ! (n_loras - 1) \<noteq> idx ! t"
  by (rule surplus_runs_share_a_slot [OF assms])

theorem too_many_runs_corrupt_a_segment_witness:
  "let (st, lens, lo) = refresh_segments list_torch 2 [7, 4, 7]
   in \<exists>t<3. st ! 1 \<le> int t \<and> int t < st ! 1 + lens ! 1 \<and> lo ! 1 \<noteq> [7, 4, 7] ! t"
proof -
  obtain st lens lo where r: "refresh_segments list_torch 2 [7, 4, 7] = (st, lens, lo)"
    by (metis prod_cases3)
  show ?thesis
    using too_many_runs_corrupt_a_segment [OF list_torch_ok _ _ r] by (simp add: r numeral_3_eq_3)
qed

subsection \<open>The tile map\<close>

lemma cdiv_int: "0 < b \<Longrightarrow> (int n + int b - 1) div int b = int (cdiv n b)"
  by (simp add: cdiv_def zdiv_int of_nat_diff)

lemma cdiv_le: "0 < b \<Longrightarrow> cdiv n b \<le> n div b + 1"
  using div_le_mono [of "n + b - 1" "n + b" b] by (simp add: cdiv_def)

lemma row_tile: "0 < b \<Longrightarrow> r < n \<Longrightarrow> r div b < cdiv n b"
proof -
  assume b: "0 < b" and r: "r < n"
  have "r + b \<le> n + b - 1" using r by simp
  then have "(r + b) div b \<le> cdiv n b" unfolding cdiv_def by (rule div_le_mono)
  then show ?thesis using b by simp
qed

lemma tile_row: "0 < b \<Longrightarrow> m < cdiv n b \<Longrightarrow> m * b < n"
proof (rule ccontr)
  assume b: "0 < b" and m: "m < cdiv n b" and "\<not> m * b < n"
  then have "n + b - 1 < (m + 1) * b" by simp
  then have "cdiv n b < m + 1" unfolding cdiv_def using b by (simp add: div_less_iff_less_mult)
  then show False using m by simp
qed

lemma sum_cdiv: "0 < b \<Longrightarrow> sum_list (map (\<lambda>n. cdiv n b) ns) \<le> sum_list ns div b + length ns"
proof (induction ns)
  case (Cons n ns)
  have "n div b + sum_list ns div b \<le> (n + sum_list ns) div b"
    unfolding div_add1_eq [of n "sum_list ns" b] by (rule le_add1)
  then show ?case using Cons cdiv_le [of b n] by simp
qed simp

lemma div_le_cdiv: "0 < b \<Longrightarrow> n div b \<le> cdiv n b"
  unfolding cdiv_def by (rule div_le_mono) simp

lemma count_le_block:
  assumes "k < length ns" and "off ns k \<le> p" and "p < off ns k + ns ! k"
  shows "length (filter (\<lambda>b. b \<le> int p) (csum 0 (map int ns))) = k"
proof -
  have nth: "csum 0 (map int ns) ! i = int (off ns (Suc i))" if "i < length ns" for i
    using that by (simp add: csum_nth off_def take_map sum_list_int)
  have "(csum 0 (map int ns) ! i \<le> int p) = (i < k)" if i: "i < length ns" for i
  proof (cases "i < k")
    case True
    then have "off ns (Suc i) \<le> off ns k" by (intro off_mono) simp
    then show ?thesis using True nth [OF i] assms(2) by simp
  next
    case False
    then have "off ns (Suc k) \<le> off ns (Suc i)" by (intro off_mono) simp
    then show ?thesis using False nth [OF i] assms by (simp add: off_Suc)
  qed
  then have "{i. i < length (csum 0 (map int ns)) \<and> csum 0 (map int ns) ! i \<le> int p} = {i. i < k}"
    using assms(1) by auto
  then show ?thesis by (simp add: length_filter_conv_card)
qed

lemma sorted_csum: "sorted (csum c (map int ns)) \<and> (\<forall>x\<in>set (csum c (map int ns)). c \<le> x)"
proof (induction ns arbitrary: c)
  case (Cons n ns)
  have "c + int n \<le> x" if "x \<in> set (csum (c + int n) (map int ns))" for x
    using Cons [of "c + int n"] that by blast
  then show ?case using Cons [of "c + int n"] by fastforce
qed simp

lemma tile_slots:
  assumes T: "torch_ok T" and ne: "ns \<noteq> []" and b: "0 < b"
    and m: "build_tile_map T (map int ns) (int b) N = (ts, tm)"
  defines "nt \<equiv> map (\<lambda>n. cdiv n b) ns"
  shows "length ts = N" and "length tm = N"
    and "p < N \<Longrightarrow> sum_list nt \<le> p \<Longrightarrow> ts ! p = - 1"
    and "p < N \<Longrightarrow> k < length ns \<Longrightarrow> off nt k \<le> p \<Longrightarrow> p < off nt k + nt ! k \<Longrightarrow>
      ts ! p = int k \<and> tm ! p = int (p - off nt k)"
proof -
  let ?cum = "csum 0 (map int nt)"
  have nts: "map (\<lambda>l. (l + int b - 1) div int b) (map int ns) = map int nt"
    using b by (simp add: nt_def cdiv_int)
  have ss: "searchsorted_right T ?cum ps = map (\<lambda>p. int (length (filter (\<lambda>b. b \<le> p) ?cum))) ps" for ps
    using T [unfolded torch_ok_def, THEN conjunct2, THEN conjunct2, THEN spec [of _ ?cum],
        THEN spec [of _ ps]] sorted_csum by blast
  let ?seg = "\<lambda>p. min (int (length (filter (\<lambda>b. b \<le> int p) ?cum))) (int (length ns) - 1)"
  let ?ok = "\<lambda>p. int p < ?cum ! nat (int (length ns) - 1)"
  have len: "length nt = length ns" by (simp add: nt_def)
  have eq: "ts = map (\<lambda>p. if ?ok p then ?seg p else - 1) [0..<N]"
    "tm = map (\<lambda>p. if ?ok p then int p - map2 (-) ?cum (map int nt) ! nat (?seg p) else 0) [0..<N]"
    using m unfolding build_tile_map_def Let_def nts torch_cumsum [OF T] ss
    by (auto intro!: nth_equalityI)
  show "length ts = N" "length tm = N" by (simp_all add: eq)
  have last: "?cum ! nat (int (length ns) - 1) = int (sum_list nt)"
  proof -
    have i: "nat (int (length ns) - 1) = length nt - 1" and l: "length nt - 1 < length (map int nt)"
      using ne len by (cases ns; simp)+
    have t: "take (Suc (length nt - 1)) (map int nt) = map int nt" using l by simp
    show ?thesis unfolding i csum_nth [OF l] t sum_list_int by (rule add_0)
  qed
  show "p < N \<Longrightarrow> sum_list nt \<le> p \<Longrightarrow> ts ! p = - 1" by (simp add: eq last)
  assume p: "p < N" "k < length ns" "off nt k \<le> p" "p < off nt k + nt ! k"
  have cnt: "length (filter (\<lambda>b. b \<le> int p) ?cum) = k"
    using count_le_block [of k nt p] p len by simp
  have "off nt (Suc k) \<le> off nt (length nt)" using p(2) len by (intro off_mono) simp
  then have "p < sum_list nt" using p len using off_all [of nt] by (simp add: off_Suc)
  moreover have "map2 (-) ?cum (map int nt) ! k = int (off nt k)"
    using p(2) len by (simp add: csum_nth take_Suc_conv_app_nth take_map sum_list_int off_def)
  moreover have "min (int k) (int (length ns) - 1) = int k" using p(2) by simp
  ultimately show "ts ! p = int k \<and> tm ! p = int (p - off nt k)"
    using p by (simp add: eq last cnt of_nat_diff)
qed

lemma tiles_cover:
  assumes "torch_ok T" and "ns \<noteq> []" and "0 < b" and "sum_list ns \<le> tile_map_tokens"
    and "tile_capacity b (length ns) \<le> N"
    and "build_tile_map T (map int ns) (int b) N = (ts, tm)"
  shows "(\<forall>j<length ns. \<forall>r<ns ! j. \<exists>!p. p < N \<and> ts ! p = int j \<and>
      tm ! p * int b \<le> int r \<and> int r < tm ! p * int b + int b) \<and>
    (\<forall>p<N. ts ! p = - 1 \<or>
      p < tile_cap b (length ns) (sum_list ns) \<and>
      (\<exists>j<length ns. ts ! p = int j \<and> 0 \<le> tm ! p \<and> tm ! p * int b < int (ns ! j)))"
proof -
  let ?nt = "map (\<lambda>n. cdiv n b) ns"
  note slots = tile_slots [OF assms(1-3,6)]
  have total: "sum_list ?nt < tile_cap b (length ns) (sum_list ns)"
    using sum_cdiv [OF assms(3), of ns] div_le_cdiv [OF assms(3), of "sum_list ns"] by (simp add: tile_cap_def)
  have "cdiv (sum_list ns) b \<le> cdiv tile_map_tokens b"
    unfolding cdiv_def using assms(4) by (intro div_le_mono) simp
  then have capN: "tile_cap b (length ns) (sum_list ns) \<le> N"
    using assms(5) by (simp add: tile_cap_def tile_capacity_def)
  have used: "\<exists>k<length ns. off ?nt k \<le> p \<and> p < off ?nt k + ?nt ! k \<and>
      ts ! p = int k \<and> tm ! p = int (p - off ?nt k)" if "p < N" "p < sum_list ?nt" for p
    using block_exists [OF that(2)] slots(4) [OF that(1)] by auto
  have row: "\<exists>!p. p < N \<and> ts ! p = int j \<and> tm ! p * int b \<le> int r \<and> int r < tm ! p * int b + int b"
    if j: "j < length ns" and r: "r < ns ! j" for j r
  proof -
    let ?p = "off ?nt j + r div b"
    have m: "r div b < ?nt ! j" using row_tile [OF assms(3) r] j by simp
    have "off ?nt (Suc j) \<le> off ?nt (length ?nt)" using j by (intro off_mono) simp
    then have p: "?p < sum_list ?nt" using j m off_Suc [of j ?nt] off_all [of ?nt] by simp
    then have pN: "?p < N" using total capN by simp
    have at: "ts ! ?p = int j" "tm ! ?p = int (r div b)" using slots(4) [OF pN j] m by simp_all
    have in': "int (r div b) * int b \<le> int r \<and> int r < int (r div b) * int b + int b"
      using assms(3) by (metis div_times_less_eq_dividend of_nat_le_iff of_nat_mult of_nat_add of_nat_less_iff
          dividend_less_div_times mult.commute add.commute)
    show ?thesis
    proof (rule ex1I [of _ ?p])
      show "?p < N \<and> ts ! ?p = int j \<and> tm ! ?p * int b \<le> int r \<and> int r < tm ! ?p * int b + int b"
        using pN at in' by simp
    next
      fix q assume q: "q < N \<and> ts ! q = int j \<and> tm ! q * int b \<le> int r \<and> int r < tm ! q * int b + int b"
      have "q < sum_list ?nt" using q slots(3) [of q] by (cases "q < sum_list ?nt") auto
      then obtain k where k: "k < length ns" "off ?nt k \<le> q" "ts ! q = int k" "tm ! q = int (q - off ?nt k)"
        using used q by blast
      have "k = j" using k(3) q by simp
      moreover have "r div b = q - off ?nt k"
      proof -
        have "(q - off ?nt k) * b \<le> r" "r < (q - off ?nt k) * b + b"
          using q k(4) by (simp_all flip: of_nat_mult of_nat_add)
        then show ?thesis using assms(3) by (intro div_nat_eqI) (simp_all add: mult.commute)
      qed
      ultimately show "q = ?p" using k(2) by simp
    qed
  qed
  moreover have "ts ! p = - 1 \<or> p < tile_cap b (length ns) (sum_list ns) \<and>
      (\<exists>j<length ns. ts ! p = int j \<and> 0 \<le> tm ! p \<and> tm ! p * int b < int (ns ! j))" if pN: "p < N" for p
  proof (cases "p < sum_list ?nt")
    case True
    then obtain k where k: "k < length ns" "off ?nt k \<le> p" "p < off ?nt k + ?nt ! k" "ts ! p = int k"
        "tm ! p = int (p - off ?nt k)"
      using used [OF pN True] by blast
    have "(p - off ?nt k) * b < ns ! k" using k by (intro tile_row [OF assms(3)]) simp
    then have "tm ! p * int b < int (ns ! k)" unfolding k(5) by (metis of_nat_less_iff of_nat_mult)
    then show ?thesis using k(1,4,5) True total by auto
  qed (use slots(3) pN in auto)
  ultimately show ?thesis by blast
qed

text \<open>C17: The tile map covers each row of each segment exactly once: for a batch of at most 8192
  tokens there is exactly one work item whose segment is the row's and whose tile contains the
  row; it lies within the launch grid of the step, and every entry of the work list either
  names a non-empty tile of an existing segment or is the idle marker -1.\<close>

theorem tiles_cover_each_row_once:
  assumes "torch_ok T" and "ns \<noteq> []" and "0 < b" and "sum_list ns \<le> tile_map_tokens"
    and "tile_capacity b (length ns) \<le> N"
    and "build_tile_map T (map int ns) (int b) N = (ts, tm)"
  shows "(\<forall>j<length ns. \<forall>r<ns ! j. \<exists>!p. p < N \<and> ts ! p = int j \<and>
      tm ! p * int b \<le> int r \<and> int r < tm ! p * int b + int b) \<and>
    (\<forall>p<N. ts ! p = - 1 \<or>
      p < tile_cap b (length ns) (sum_list ns) \<and>
      (\<exists>j<length ns. ts ! p = int j \<and> 0 \<le> tm ! p \<and> tm ! p * int b < int (ns ! j)))"
  by (rule tiles_cover [OF assms])

theorem tiles_cover_each_row_once_witness:
  "let (ts, tm) = build_tile_map list_torch [20, 5] 16 515
   in \<exists>!p. p < 515 \<and> ts ! p = 0 \<and> tm ! p * 16 \<le> 17 \<and> 17 < tm ! p * 16 + 16"
proof -
  obtain ts tm where m: "build_tile_map list_torch (map int [20, 5]) (int 16) 515 = (ts, tm)"
    by (metis prod.collapse)
  have "\<exists>!p. p < 515 \<and> ts ! p = int 0 \<and> tm ! p * int 16 \<le> int 17 \<and> int 17 < tm ! p * int 16 + int 16"
    by (rule tiles_cover_each_row_once [OF list_torch_ok _ _ _ _ m, THEN conjunct1, THEN spec [of _ 0], THEN mp,
        THEN spec [of _ 17], THEN mp])
      (simp_all add: tile_map_tokens_def tile_capacity_def cdiv_def)
  then show ?thesis using m by simp
qed

end
