(* ===== verification/Batches.thy ===== *)
theory Batches
  imports Scheduler Segments
begin

text \<open>
  The scheduler's batches in the grouped kernels' metadata: \<^verbatim>\<open>vllm_scheduler.py\<close> composed with
  \<^verbatim>\<open>segmented_punica_wrapper.py\<close>. The order of a batch decides how many segments it needs.
\<close>

text \<open>
  Two ticks: both adapters get an aligned sequence, then each gets a new one. The second batch is
  the aligned part sorted by adapter followed by the dispatched part, so it switches adapter
  three times.
\<close>

definition two_old :: "scheduled list" where
  "two_old = [demo_group 1 ''a'' 1, demo_group 2 ''b'' 1]"

definition two_new :: "scheduled list" where
  "two_new = [demo_group 3 ''a'' 1, demo_group 4 ''b'' 1]"

lemma first_two:
  assumes "sched_mode st = ''threshold''" and "log_enabled st = False"
    and "buffer st = buffer_init [] 32 5 200" and "post_aligned st = {}"
  shows "\<exists>s1. schedule_tick demo_libs (demo_clock 0 1) (demo_out two_old) st = Inr (s1, demo_out two_old) \<and>
      sched_mode s1 = ''threshold'' \<and> log_enabled s1 = False \<and> post_aligned s1 = {1, 2} \<and>
      queues (buffer s1) = [(''a'', []), (''b'', [])] \<and> shadow (buffer s1) = [(''a'', []), (''b'', [])] \<and>
      seq_enqueue (buffer s1) = [(1, 0), (2, 0)] \<and> enqueue_time (buffer s1) = [(''a'', None), (''b'', None)] \<and>
      warp (buffer s1) = 32 \<and> t_max (buffer s1) = 5 / 1000 \<and> ttft_slo (buffer s1) = 200 / 1000"
  by (simp add: tick_eval demo_defs assms two_old_def) auto

lemma next_two:
  assumes "sched_mode st = ''threshold''" and "log_enabled st = False" and "post_aligned st = {1, 2}"
    and "queues (buffer st) = [(''a'', []), (''b'', [])]" and "shadow (buffer st) = [(''a'', []), (''b'', [])]"
    and "seq_enqueue (buffer st) = [(1, 0), (2, 0)]"
    and "enqueue_time (buffer st) = [(''a'', None), (''b'', None)]" and "warp (buffer st) = 32"
    and "t_max (buffer st) = 5 / 1000" and "ttft_slo (buffer st) = 200 / 1000"
  shows "\<exists>s2. schedule_tick demo_libs (demo_clock 2 1) (demo_out (two_old @ two_new)) st =
      Inr (s2, demo_out (two_old @ two_new))"
  by (simp add: tick_eval demo_defs assms two_old_def two_new_def insert_commute)

definition slot_index :: "string \<Rightarrow> int" where
  "slot_index a = (if a = ''a'' then 0 else 1)"

text \<open>C23: The scheduler's batches are not adapter-contiguous as a whole, and the kernel metadata does
  not survive it. There is a reachable tick whose decode batch has tokens of two adapters only,
  but in the order a b a b: the aligned sequences sorted by adapter, then the newly dispatched
  ones. With the three segment slots of a server with two LoRA slots, the segment refresh then
  merges tokens of both adapters into the last slot, so one of them is computed with the other
  adapter's weights, whichever source the scatter keeps.\<close>

theorem two_adapters_overflow_three_slots:
  assumes "torch_ok T"
  shows "\<exists>(st :: unit sched) st' clk out out'. sched_reach demo_libs st \<and> engine_ok st out \<and>
    schedule_tick demo_libs clk out st = Inr (st', out') \<and>
    map group_adapter (scheduled_seq_groups out') = [''a'', ''b'', ''a'', ''b''] \<and>
    (let idx = map (slot_index \<circ> group_adapter) (scheduled_seq_groups out');
         (start, len, lora) = refresh_segments T 3 idx
     in \<exists>t<4. start ! 2 \<le> int t \<and> int t < start ! 2 + len ! 2 \<and> lora ! 2 \<noteq> idx ! t)"
proof -
  let ?out = "demo_out (two_old @ two_new)"
  obtain s0 :: "unit sched" where s0: "scheduler_init [] (\<lambda>p. None) [] None 0 = Inr s0"
    "sched_mode s0 = ''threshold''" "log_enabled s0 = False" "buffer s0 = buffer_init [] 32 5 200"
    "post_aligned s0 = {}"
    using demo_init [where 'm = unit] by blast
  let ?a = "s0\<lparr>running := map seq_group two_old, waiting := [], draining := {}\<rparr>"
  obtain s1 where s1: "schedule_tick demo_libs (demo_clock 0 1) (demo_out two_old) ?a = Inr (s1, demo_out two_old)"
    "sched_mode s1 = ''threshold''" "log_enabled s1 = False" "post_aligned s1 = {1, 2}"
    "queues (buffer s1) = [(''a'', []), (''b'', [])]" "shadow (buffer s1) = [(''a'', []), (''b'', [])]"
    "seq_enqueue (buffer s1) = [(1, 0), (2, 0)]"
    "enqueue_time (buffer s1) = [(''a'', None), (''b'', None)]" "warp (buffer s1) = 32"
    "t_max (buffer s1) = 5 / 1000" "ttft_slo (buffer s1) = 200 / 1000"
    using first_two [of ?a] s0 by auto
  have "sched_reach demo_libs ?a" by (intro sched_reach.engine sched_reach.start [OF s0(1)])
  moreover have "engine_ok ?a (demo_out two_old)"
    by (simp add: engine_ok_def demo_defs two_old_def seq_group_id_def running_ids_def s0(4)
        qids_def queue_of_def buffer_init_def dict_get_def)
  ultimately have r1: "sched_reach demo_libs s1" using s1(1) by (rule sched_reach.tick)
  define st where "st = s1\<lparr>running := map seq_group (two_old @ two_new), waiting := [], draining := {}\<rparr>"
  have reach: "sched_reach demo_libs st" unfolding st_def using r1 by (rule sched_reach.engine)
  have eng: "engine_ok st ?out"
    by (simp add: engine_ok_def demo_defs two_old_def two_new_def seq_group_id_def running_ids_def st_def s1
        qids_def queue_of_def dict_get_def)
  obtain s2 where s2: "schedule_tick demo_libs (demo_clock 2 1) ?out st = Inr (s2, ?out)"
    using next_two [of st] s1 by (auto simp: st_def)
  have ad: "map group_adapter (scheduled_seq_groups ?out) = [''a'', ''b'', ''a'', ''b'']"
    by (simp add: demo_defs two_old_def two_new_def adapter_id_of_def)
  have idx: "map (slot_index \<circ> group_adapter) (scheduled_seq_groups ?out) = [0, 1, 0, 1]"
    using arg_cong [OF ad, of "map slot_index"] by (simp add: slot_index_def)
  obtain start len lora where r: "refresh_segments T 3 [0, 1, 0, 1] = (start, len, lora)"
    by (metis prod_cases3)
  have "\<exists>t<4. start ! 2 \<le> int t \<and> int t < start ! 2 + len ! 2 \<and> lora ! 2 \<noteq> [0, 1, 0, 1] ! t"
  proof -
    have four: "length [0, 1, 0, 1 :: int] = 4" and "3 < length (runs [0, 1, 0, 1 :: int])" by simp_all
    from surplus_runs_share_a_slot [OF assms _ this(2) r, unfolded four] show ?thesis by simp
  qed
  then show ?thesis
    using reach eng s2 ad idx r by (intro exI [of _ st] exI [of _ s2] exI [of _ "demo_clock 2 1"] exI [of _ ?out]) simp
qed

theorem two_adapters_overflow_three_slots_witness:
  "\<exists>(st :: unit sched) st' clk out out'. sched_reach demo_libs st \<and>
    schedule_tick demo_libs clk out st = Inr (st', out') \<and>
    (let idx = map (slot_index \<circ> group_adapter) (scheduled_seq_groups out');
         (start, len, lora) = refresh_segments list_torch 3 idx
     in \<exists>t<4. start ! 2 \<le> int t \<and> int t < start ! 2 + len ! 2 \<and> lora ! 2 \<noteq> idx ! t)"
  using two_adapters_overflow_three_slots [OF list_torch_ok] by blast

end
