(* ===== verification/Kernels.thy ===== *)
theory Kernels
  imports Segments
begin

text \<open>
  The tile-scheduled LoRA kernels: \<^verbatim>\<open>kernel/tiled_segment_gemm.py\<close> and
  \<^verbatim>\<open>kernel/tiled_multislice.py\<close>. A memory maps an element offset to its value, a block is a function
  of a row and a column, and a launch runs the programs of its grid in any order. Values are
  reals; a conversion to the weights' element type is a parameter, applied where the kernels
  convert. The compiler hints \<open>tl.max_contiguous\<close> and \<open>tl.multiple_of\<close> have no effect on values.
\<close>

subsection \<open>Triton blocks\<close>

type_synonym mem = "int \<Rightarrow> real"
type_synonym block = "nat \<Rightarrow> nat \<Rightarrow> real"
type_synonym ptrs = "nat \<Rightarrow> nat \<Rightarrow> int"
type_synonym mask = "nat \<Rightarrow> nat \<Rightarrow> bool"

definition tl_load :: "mem \<Rightarrow> ptrs \<Rightarrow> mask \<Rightarrow> block" where
  "tl_load m ptr on = (\<lambda>i j. if on i j then m (ptr i j) else 0)"

definition tl_dot :: "nat \<Rightarrow> block \<Rightarrow> block \<Rightarrow> block" where
  "tl_dot n a b = (\<lambda>i j. \<Sum>l<n. a i l * b l j)"

definition cell_update :: "(real \<Rightarrow> real \<Rightarrow> real) \<Rightarrow> ptrs \<Rightarrow> block \<Rightarrow> mask \<Rightarrow> nat \<times> nat \<Rightarrow> mem \<Rightarrow> mem" where
  "cell_update f ptr v on = (\<lambda>(i, j) m. if on i j then m(ptr i j := f (m (ptr i j)) (v i j)) else m)"

definition tl_update :: "(real \<Rightarrow> real \<Rightarrow> real) \<Rightarrow> nat \<Rightarrow> nat \<Rightarrow> ptrs \<Rightarrow> block \<Rightarrow> mask \<Rightarrow> mem \<Rightarrow> mem" where
  "tl_update f rows cols ptr v on = fold (cell_update f ptr v on) (List.product [0..<rows] [0..<cols])"

definition tl_store :: "nat \<Rightarrow> nat \<Rightarrow> ptrs \<Rightarrow> block \<Rightarrow> mask \<Rightarrow> mem \<Rightarrow> mem" where
  "tl_store = tl_update (\<lambda>old v. v)"

definition tl_atomic_add :: "nat \<Rightarrow> nat \<Rightarrow> ptrs \<Rightarrow> block \<Rightarrow> mask \<Rightarrow> mem \<Rightarrow> mem" where
  "tl_atomic_add = tl_update (+)"

subsection \<open>The kernels\<close>

text \<open>
  The arguments the kernels share: the two inputs' memories from their base pointers on, the
  sizes, the strides and the block sizes.
\<close>

record kernel =
  k_x :: mem
  k_w :: mem
  k_N :: nat
  k_K :: nat
  xm_stride :: int
  xk_stride :: int
  l0_stride :: int
  lora_k_stride :: int
  lora_n_stride :: int
  cm_stride :: int
  cn_stride :: int
  blk_m :: nat
  blk_n :: nat
  blk_k :: nat
  even_k :: bool

text \<open>The prologue of every kernel: the work item of a tile, \<open>None\<close> for an early return.\<close>

definition work_item :: "wrapper \<Rightarrow> nat \<Rightarrow> nat \<Rightarrow> (int \<times> int \<times> int \<times> int) option" where
  "work_item W block_m pid_t =
     (let s = tile_seg W ! pid_t in
      if s < 0 then None
      else let lora_index = seg_lora W ! nat s in
        if lora_index = - 1 then None
        else let M = seg_len W ! nat s; pid_m = tile_m W ! pid_t in
          if pid_m * int block_m \<ge> M then None
          else Some (lora_index, M, pid_m, seg_start W ! nat s))"

text \<open>The accumulation loop over the iterations \<open>ks\<close>, which advance both pointer blocks.\<close>

fun k_loop ::
  "kernel \<Rightarrow> (real \<Rightarrow> real) \<Rightarrow> (nat \<Rightarrow> nat) \<Rightarrow> nat \<Rightarrow> nat list \<Rightarrow> ptrs \<Rightarrow> ptrs \<Rightarrow> block \<Rightarrow> block" where
  "k_loop A cast offset_k step [] a_ptr b_ptr acc = acc"
| "k_loop A cast offset_k step (k # ks) a_ptr b_ptr acc =
     (let krem = int (k_K A) - int k * int step;
          a = tl_load (k_x A) a_ptr (\<lambda>i l. even_k A \<or> int (offset_k l) < krem);
          b = tl_load (k_w A) b_ptr (\<lambda>l j. even_k A \<or> int (offset_k l) < krem);
          a = (\<lambda>i l. cast (a i l))
      in k_loop A cast offset_k step ks
           (\<lambda>i l. a_ptr i l + int step * xk_stride A) (\<lambda>l j. b_ptr l j + int step * lora_n_stride A)
           (\<lambda>i j. acc i j + tl_dot (blk_k A) a b i j))"

text \<open>
  The body of both shrink kernels; the weights of the slice start \<open>woff\<close> elements after the base
  pointer and its output columns at \<open>col\<close>.
\<close>

definition shrink_program ::
  "wrapper \<Rightarrow> kernel \<Rightarrow> nat \<Rightarrow> real \<Rightarrow> int \<Rightarrow> nat \<Rightarrow> nat \<times> nat \<times> nat \<Rightarrow> mem \<Rightarrow> mem" where
  "shrink_program W A split_k scaling woff col prog out =
     (let (pid_t, pid_n, pid_sk) = prog in
      case work_item W (blk_m A) pid_t of
        None \<Rightarrow> out
      | Some (lora_index, M, pid_m, cur_seq_start) \<Rightarrow>
          let offset_m = (\<lambda>i. int i + pid_m * int (blk_m A));
              offset_n = (\<lambda>j. j + pid_n * blk_n A);
              offset_k = (\<lambda>l. pid_sk * blk_k A + l);
              ram = (\<lambda>i. offset_m i mod M); rbn = (\<lambda>j. offset_n j mod k_N A);
              a_ptr = (\<lambda>i l. cur_seq_start * xm_stride A + ram i * xm_stride A + int (offset_k l) * xk_stride A);
              b_ptr = (\<lambda>l j. woff + l0_stride A * lora_index + int (rbn j) * lora_k_stride A
                        + int (offset_k l) * lora_n_stride A);
              acc = k_loop A (\<lambda>x. x) offset_k (blk_k A * split_k)
                      [0..<cdiv (k_K A) (blk_k A * split_k)] a_ptr b_ptr (\<lambda>i j. 0);
              offset_cm = (\<lambda>i. cur_seq_start + int i + pid_m * int (blk_m A));
              c_ptr = (\<lambda>i j. offset_cm i * cm_stride A + int (offset_n j + col) * cn_stride A);
              c_mask = (\<lambda>i j. offset_cm i < cur_seq_start + M \<and> offset_n j < k_N A);
              scaled = (\<lambda>i j. acc i j * scaling)
          in if split_k = 1 then tl_store (blk_m A) (blk_n A) c_ptr scaled c_mask out
             else tl_atomic_add (blk_m A) (blk_n A) c_ptr scaled c_mask out)"

definition tiled_shrink_kernel :: "wrapper \<Rightarrow> kernel \<Rightarrow> nat \<Rightarrow> real \<Rightarrow> nat \<times> nat \<times> nat \<Rightarrow> mem \<Rightarrow> mem" where
  "tiled_shrink_kernel W A split_k scaling prog = shrink_program W A split_k scaling 0 0 prog"

definition slice_woff :: "int \<Rightarrow> int \<Rightarrow> nat \<Rightarrow> int" where
  "slice_woff woff1 woff2 sid = (if sid = 1 then woff1 else if sid = 2 then woff2 else 0)"

definition tiled_shrink_ms_kernel ::
  "wrapper \<Rightarrow> kernel \<Rightarrow> nat \<Rightarrow> real \<Rightarrow> int \<Rightarrow> int \<Rightarrow> nat \<times> nat \<times> nat \<Rightarrow> mem \<Rightarrow> mem" where
  "tiled_shrink_ms_kernel W A split_k scaling woff1 woff2 prog =
     (let (pid_t, pid_n, pid_2) = prog; sid = pid_2 div split_k; pid_sk = pid_2 mod split_k
      in shrink_program W A split_k scaling (slice_woff woff1 woff2 sid) (sid * k_N A) (pid_t, pid_n, pid_sk))"

text \<open>
  The body of both expand kernels. \<open>to_dtype\<close> converts to the weights' element type; \<open>kcol\<close> is
  the first input column and \<open>col\<close> the first output column of the slice.
\<close>

definition expand_program ::
  "wrapper \<Rightarrow> kernel \<Rightarrow> (real \<Rightarrow> real) \<Rightarrow> bool \<Rightarrow> bool \<Rightarrow> int \<Rightarrow> nat \<Rightarrow> nat \<Rightarrow> nat \<times> nat \<Rightarrow> mem \<Rightarrow> mem" where
  "expand_program W A to_dtype cast_type add_inputs woff kcol col prog out =
     (let (pid_t, pid_n) = prog in
      case work_item W (blk_m A) pid_t of
        None \<Rightarrow> out
      | Some (lora_index, M, pid_m, cur_seq_start) \<Rightarrow>
          let offset_m = (\<lambda>i. int i + pid_m * int (blk_m A));
              offset_n = (\<lambda>j. j + pid_n * blk_n A);
              offset_k = (\<lambda>l. l);
              ram = (\<lambda>i. offset_m i mod M); rbn = (\<lambda>j. offset_n j mod k_N A);
              a_ptr = (\<lambda>i l. cur_seq_start * xm_stride A + ram i * xm_stride A + int (offset_k l + kcol) * xk_stride A);
              b_ptr = (\<lambda>l j. woff + l0_stride A * lora_index + int (offset_k l) * lora_n_stride A
                        + int (rbn j) * lora_k_stride A);
              acc = k_loop A (if cast_type then to_dtype else (\<lambda>x. x)) offset_k (blk_k A)
                      [0..<cdiv (k_K A) (blk_k A)] a_ptr b_ptr (\<lambda>i j. 0);
              tiled_c = (\<lambda>i j. to_dtype (acc i j));
              offset_cm = (\<lambda>i. cur_seq_start + int i + pid_m * int (blk_m A));
              c_ptr = (\<lambda>i j. offset_cm i * cm_stride A + int (offset_n j + col) * cn_stride A);
              c_mask = (\<lambda>i j. offset_cm i < cur_seq_start + M \<and> offset_n j < k_N A);
              tiled_c = (if add_inputs then (\<lambda>i j. tiled_c i j + tl_load out c_ptr c_mask i j) else tiled_c)
          in tl_store (blk_m A) (blk_n A) c_ptr tiled_c c_mask out)"

definition tiled_expand_slice_kernel ::
  "wrapper \<Rightarrow> kernel \<Rightarrow> (real \<Rightarrow> real) \<Rightarrow> bool \<Rightarrow> bool \<Rightarrow> nat \<Rightarrow> nat \<times> nat \<Rightarrow> mem \<Rightarrow> mem" where
  "tiled_expand_slice_kernel W A to_dtype cast_type add_inputs slice_offset prog =
     expand_program W A to_dtype cast_type add_inputs 0 0 slice_offset prog"

definition tiled_expand_ms_kernel ::
  "wrapper \<Rightarrow> kernel \<Rightarrow> (real \<Rightarrow> real) \<Rightarrow> bool \<Rightarrow> bool \<Rightarrow> int \<Rightarrow> int \<Rightarrow> nat \<Rightarrow> nat \<Rightarrow> nat \<Rightarrow>
   nat \<times> nat \<times> nat \<Rightarrow> mem \<Rightarrow> mem" where
  "tiled_expand_ms_kernel W A to_dtype cast_type add_inputs woff1 woff2 yoff0 yoff1 yoff2 prog =
     (let (pid_t, pid_n, sid) = prog;
          yoff = (if sid = 1 then yoff1 else if sid = 2 then yoff2 else yoff0)
      in expand_program W A to_dtype cast_type add_inputs (slice_woff woff1 woff2 sid) (sid * k_K A) yoff
           (pid_t, pid_n))"

text \<open>\<open>slice_offsets\<close>: from data pointers in bytes to element offsets; \<open>esz\<close> is the element size.\<close>

fun slice_diffs :: "int \<Rightarrow> int \<Rightarrow> int list \<Rightarrow> py_error + int list" where
  "slice_diffs base esz [] = Inr []"
| "slice_diffs base esz (p # ps) =
     (if (p - base) mod esz \<noteq> 0 then Inl AssertionError
      else map_sum id (\<lambda>offs. (p - base) div esz # offs) (slice_diffs base esz ps))"

definition slice_offsets :: "int \<Rightarrow> int list \<Rightarrow> py_error + int list" where
  "slice_offsets esz ps =
     (case ps of [] \<Rightarrow> Inl IndexError
      | base # _ \<Rightarrow> map_sum id (\<lambda>offs. offs @ replicate (3 - length offs) 0) (slice_diffs base esz ps))"

text \<open>A launch: \<open>order\<close> is the order in which the hardware runs the programs of the grid.\<close>

definition grid2 :: "nat \<Rightarrow> nat \<Rightarrow> (nat \<times> nat) list" where
  "grid2 g0 g1 = List.product [0..<g0] [0..<g1]"

definition grid3 :: "nat \<Rightarrow> nat \<Rightarrow> nat \<Rightarrow> (nat \<times> nat \<times> nat) list" where
  "grid3 g0 g1 g2 = List.product [0..<g0] (List.product [0..<g1] [0..<g2])"

definition launch :: "('p list \<Rightarrow> 'p list) \<Rightarrow> ('p \<Rightarrow> mem \<Rightarrow> mem) \<Rightarrow> 'p list \<Rightarrow> mem \<Rightarrow> mem" where
  "launch order program grid = fold program (order grid)"

subsection \<open>Block stores\<close>

lemma cell_step: "cell_update f ptr v on (i, j) m = (if on i j then m(ptr i j := f (m (ptr i j)) (v i j)) else m)"
  by (simp add: cell_update_def)

lemma cells_miss:
  "(\<And>i j. (i, j) \<in> set cs \<Longrightarrow> on i j \<Longrightarrow> ptr i j \<noteq> a) \<Longrightarrow> fold (cell_update f ptr v on) cs m a = m a"
proof (induction cs arbitrary: m)
  case (Cons p cs)
  obtain i j where p: "p = (i, j)" by force
  have "fold (cell_update f ptr v on) cs m' a = m' a" for m' by (rule Cons.IH) (use Cons.prems in auto)
  then show ?case using Cons.prems [of i j] by (auto simp: p cell_step)
qed simp

lemma cells_hit:
  assumes "distinct cs" and "(i, j) \<in> set cs" and "on i j"
    and inj: "\<And>i' j'. (i', j') \<in> set cs \<Longrightarrow> on i' j' \<Longrightarrow> ptr i' j' = ptr i j \<Longrightarrow> i' = i \<and> j' = j"
  shows "fold (cell_update f ptr v on) cs m (ptr i j) = f (m (ptr i j)) (v i j)"
proof -
  obtain pre post where cs: "cs = pre @ (i, j) # post" using assms(2) by (metis split_list)
  have out: "(i, j) \<notin> set pre" "(i, j) \<notin> set post" using assms(1) cs by auto
  have 1: "fold (cell_update f ptr v on) pre m' (ptr i j) = m' (ptr i j)" for m'
    by (rule cells_miss) (use inj cs out in fastforce)
  have 2: "fold (cell_update f ptr v on) post m' (ptr i j) = m' (ptr i j)" for m'
    by (rule cells_miss) (use inj cs out in fastforce)
  show ?thesis using assms(3) by (simp add: cs 1 2 cell_step)
qed

lemma update_miss:
  "(\<And>i j. i < rows \<Longrightarrow> j < cols \<Longrightarrow> on i j \<Longrightarrow> ptr i j \<noteq> a) \<Longrightarrow> tl_update f rows cols ptr v on m a = m a"
  unfolding tl_update_def by (rule cells_miss) auto

lemma update_hit:
  assumes "i < rows" and "j < cols" and "on i j"
    and "\<And>i' j'. i' < rows \<Longrightarrow> j' < cols \<Longrightarrow> on i' j' \<Longrightarrow> ptr i' j' = ptr i j \<Longrightarrow> i' = i \<and> j' = j"
  shows "tl_update f rows cols ptr v on m (ptr i j) = f (m (ptr i j)) (v i j)"
  unfolding tl_update_def by (rule cells_hit) (use assms in \<open>auto simp: distinct_product\<close>)

subsection \<open>The accumulation loop\<close>

definition k_terms ::
  "kernel \<Rightarrow> (real \<Rightarrow> real) \<Rightarrow> (nat \<Rightarrow> nat) \<Rightarrow> nat \<Rightarrow> ptrs \<Rightarrow> ptrs \<Rightarrow> nat \<Rightarrow> nat \<Rightarrow> nat \<Rightarrow> real" where
  "k_terms A cast offset_k step ap bp i j k = (\<Sum>l<blk_k A.
     if even_k A \<or> offset_k l + k * step < k_K A
     then cast (k_x A (ap i l + int (k * step) * xk_stride A)) * k_w A (bp l j + int (k * step) * lora_n_stride A)
     else 0)"

lemma k_loop_from:
  assumes "k0 \<le> n"
  shows "k_loop A cast offset_k step [k0..<n] (\<lambda>i l. ap i l + int (k0 * step) * xk_stride A)
      (\<lambda>l j. bp l j + int (k0 * step) * lora_n_stride A) acc i j =
    acc i j + (\<Sum>k\<in>{k0..<n}. k_terms A cast offset_k step ap bp i j k)"
  using assms
proof (induction "n - k0" arbitrary: k0 acc)
  case (Suc d)
  then have k0: "k0 < n" by simp
  have adv: "(\<lambda>i l. ap i l + int (k0 * step) * xk_stride A + int step * xk_stride A) =
      (\<lambda>i l. ap i l + int (Suc k0 * step) * xk_stride A)"
    "(\<lambda>l j. bp l j + int (k0 * step) * lora_n_stride A + int step * lora_n_stride A) =
      (\<lambda>l j. bp l j + int (Suc k0 * step) * lora_n_stride A)"
    by (simp_all add: algebra_simps fun_eq_iff)
  have "tl_dot (blk_k A)
      (\<lambda>i l. cast (tl_load (k_x A) (\<lambda>i l. ap i l + int (k0 * step) * xk_stride A)
        (\<lambda>i l. even_k A \<or> int (offset_k l) < int (k_K A) - int k0 * int step) i l))
      (tl_load (k_w A) (\<lambda>l j. bp l j + int (k0 * step) * lora_n_stride A)
        (\<lambda>l j. even_k A \<or> int (offset_k l) < int (k_K A) - int k0 * int step)) i j =
    k_terms A cast offset_k step ap bp i j k0"
    unfolding tl_dot_def k_terms_def tl_load_def
    by (intro sum.cong refl) (auto simp flip: of_nat_mult of_nat_add)
  then show ?case using Suc.hyps(1) [of "Suc k0"] Suc.hyps(2) k0
    by (simp only: upt_conv_Cons k_loop.simps Let_def adv)
      (simp add: sum.atLeast_Suc_lessThan Suc_leI)
qed simp

lemma k_loop_sum:
  "k_loop A cast offset_k step [0..<n] ap bp (\<lambda>i j. 0) i j = (\<Sum>k<n. k_terms A cast offset_k step ap bp i j k)"
  using k_loop_from [of 0 n A cast offset_k step ap bp "\<lambda>i j. 0" i j] by (simp add: atLeast0LessThan)

text \<open>Split-K: the programs' partial sums add up to the whole inner product.\<close>

lemma sum_split: "(\<Sum>k<C. \<Sum>r<w. g (k * w + r)) = (\<Sum>x<C * w. g (x :: nat) :: real)"
proof -
  have "(\<Sum>r<w. g (k * w + r)) = sum g {k * w..<k * w + w}" for k
    using sum.shift_bounds_nat_ivl [of g 0 "k * w" w] by (simp add: atLeast0LessThan add.commute)
  then show ?thesis by (simp add: sum.nat_group)
qed

lemma cdiv_mult:
  assumes "0 < b"
  shows "cdiv (b * q) b = q"
proof -
  have "b * q + b - 1 = (b - 1) + q * b" using assms by (simp add: mult.commute)
  then show ?thesis unfolding cdiv_def using assms by (simp only: div_mult_self1) simp
qed

lemma split_k_total:
  assumes "0 < b" and "0 < sk" and "ev \<longrightarrow> b * sk dvd K"
  shows "(\<Sum>s<sk. \<Sum>k<cdiv K (b * sk). \<Sum>l<b. if ev \<or> s * b + l + k * (b * sk) < K then g (k * (b * sk) + (s * b + l)) else 0)
    = (\<Sum>x<K. g x :: real)"
proof -
  let ?C = "cdiv K (b * sk)" and ?st = "b * sk"
  define h where "h x = (if x < K then g x else 0)" for x
  have st: "0 < ?st" using assms(1,2) by simp
  have term_eq: "(if ev \<or> s * b + l + k * ?st < K then g (k * ?st + (s * b + l)) else 0) = h (k * ?st + (s * b + l))"
    if "s < sk" "l < b" "k < ?C" for s l k
  proof -
    have "s * b + l < sk * b"
      using that(1,2) by (metis (no_types) add_less_cancel_left mult_Suc less_le_trans add.commute Suc_leI mult_le_mono1)
    moreover have "Suc k * ?st \<le> K" if ev
    proof -
      obtain q where q: "K = ?st * q" using assms(3) \<open>ev\<close> by (auto elim: dvdE)
      then have "?C = q" using cdiv_mult [OF st] by simp
      then show ?thesis using \<open>k < ?C\<close> q by (metis Suc_leI mult.commute mult_le_mono1)
    qed
    ultimately show ?thesis by (auto simp: h_def mult.commute add.commute add.left_commute)
  qed
  have "K \<le> ?C * ?st"
  proof (rule ccontr)
    assume "\<not> K \<le> ?C * ?st"
    then have "\<not> ?C * ?st div ?st * ?st + ?st \<le> ?C * ?st" using st by simp
    then show False using \<open>\<not> K \<le> ?C * ?st\<close> row_tile [OF st, of "?C * ?st" K] st by simp
  qed
  have "(\<Sum>s<sk. \<Sum>k<?C. \<Sum>l<b. if ev \<or> s * b + l + k * ?st < K then g (k * ?st + (s * b + l)) else 0) =
      (\<Sum>k<?C. \<Sum>s<sk. \<Sum>l<b. h (k * ?st + (s * b + l)))"
    by (subst sum.swap) (auto intro!: sum.cong simp: term_eq)
  also have "\<dots> = (\<Sum>k<?C. \<Sum>r<sk * b. h (k * ?st + r))"
    by (rule sum.cong [OF refl]) (use sum_split [of "\<lambda>r. h (_ * ?st + r)" b sk] in blast)
  also have "\<dots> = (\<Sum>x<?C * ?st. h x)" using sum_split [of h ?st ?C] by (simp add: mult.commute)
  also have "\<dots> = (\<Sum>x<K. h x)"
    by (rule sum.mono_neutral_right) (use \<open>K \<le> ?C * ?st\<close> in \<open>auto simp: h_def\<close>)
  also have "\<dots> = (\<Sum>x<K. g x)" by (simp add: h_def)
  finally show ?thesis .
qed

subsection \<open>One program\<close>

text \<open>The rows and columns a program writes, and where.\<close>

definition item_rows :: "nat \<Rightarrow> int \<times> int \<times> int \<times> int \<Rightarrow> nat set" where
  "item_rows bm it = (let (lora, M, pm, start) = it
     in {t. start + pm * int bm \<le> int t \<and> int t < start + pm * int bm + int bm \<and> int t < start + M})"

definition item_ok :: "nat \<Rightarrow> int \<times> int \<times> int \<times> int \<Rightarrow> bool" where
  "item_ok n it = (let (lora, M, pm, start) = it in 0 \<le> start \<and> 0 \<le> pm \<and> start + M \<le> int n)"

definition tile_cols :: "nat \<Rightarrow> nat \<Rightarrow> nat \<Rightarrow> nat set" where
  "tile_cols bn N q = {c. q * bn \<le> c \<and> c < q * bn + bn \<and> c < N}"

definition out_addr :: "kernel \<Rightarrow> nat \<Rightarrow> nat \<Rightarrow> nat \<Rightarrow> int" where
  "out_addr A col t c = int t * cm_stride A + int (c + col) * cn_stride A"

definition addr_inj :: "kernel \<Rightarrow> nat \<Rightarrow> nat \<Rightarrow> bool" where
  "addr_inj A col n \<longleftrightarrow> inj_on (\<lambda>(t, c). out_addr A col t c) ({..<n} \<times> {..<k_N A})"

lemma cell_of_row:
  assumes "item_ok n (lora, M, pm, start)" and "t \<in> item_rows bm (lora, M, pm, start)"
  shows "nat (int t - start - pm * int bm) < bm"
    and "start + int (nat (int t - start - pm * int bm)) + pm * int bm = int t"
    and "(int (nat (int t - start - pm * int bm)) + pm * int bm) mod M = int t - start"
    and "t < n"
proof -
  have "0 \<le> pm * int bm" "0 \<le> start" "start + M \<le> int n" using assms(1) by (simp_all add: item_ok_def)
  moreover have "start + pm * int bm \<le> int t" "int t < start + pm * int bm + int bm" "int t < start + M"
    using assms(2) by (simp_all add: item_rows_def)
  ultimately show "nat (int t - start - pm * int bm) < bm"
    "start + int (nat (int t - start - pm * int bm)) + pm * int bm = int t"
    "(int (nat (int t - start - pm * int bm)) + pm * int bm) mod M = int t - start" "t < n"
    by (auto intro: mod_pos_pos_trivial)
qed

text \<open>A masked update of a tile, for any way \<open>f\<close> of combining the old with the new value.\<close>

definition tile_ptr :: "kernel \<Rightarrow> nat \<Rightarrow> nat \<Rightarrow> int \<times> int \<times> int \<times> int \<Rightarrow> ptrs" where
  "tile_ptr A q col it = (let (lora, M, pm, start) = it in (\<lambda>i j.
     (start + int i + pm * int (blk_m A)) * cm_stride A + int (j + q * blk_n A + col) * cn_stride A))"

definition tile_mask :: "kernel \<Rightarrow> nat \<Rightarrow> int \<times> int \<times> int \<times> int \<Rightarrow> mask" where
  "tile_mask A q it = (let (lora, M, pm, start) = it in (\<lambda>i j.
     start + int i + pm * int (blk_m A) < start + M \<and> j + q * blk_n A < k_N A))"

lemma masked_cell:
  assumes "item_ok n (lora, M, pm, start)" and "i < blk_m A" and "j < blk_n A" and "tile_mask A q (lora, M, pm, start) i j"
  shows "\<exists>t c. t \<in> item_rows (blk_m A) (lora, M, pm, start) \<and> c \<in> tile_cols (blk_n A) (k_N A) q \<and> t < n \<and> c < k_N A \<and>
    int t = start + int i + pm * int (blk_m A) \<and> c = j + q * blk_n A \<and>
    tile_ptr A q col (lora, M, pm, start) i j = out_addr A col t c"
proof -
  define t where "t = nat (start + int i + pm * int (blk_m A))"
  have "0 \<le> pm * int (blk_m A)" using assms(1) by (simp add: item_ok_def)
  then have t: "int t = start + int i + pm * int (blk_m A)" using assms(1) by (simp add: item_ok_def t_def)
  have "int t < int n" using t assms(1,4) by (simp add: item_ok_def tile_mask_def)
  moreover have "t \<in> item_rows (blk_m A) (lora, M, pm, start)" using t assms(2,4) by (simp add: item_rows_def tile_mask_def)
  moreover have "j + q * blk_n A \<in> tile_cols (blk_n A) (k_N A) q" using assms(3,4) by (simp add: tile_cols_def tile_mask_def)
  moreover have "tile_ptr A q col (lora, M, pm, start) i j = out_addr A col t (j + q * blk_n A)"
    unfolding tile_ptr_def out_addr_def Let_def prod.case t ..
  ultimately show ?thesis using t by (auto simp: tile_cols_def)
qed

lemma tile_miss:
  assumes "item_ok n it" and "\<And>t c. t \<in> item_rows (blk_m A) it \<Longrightarrow> c \<in> tile_cols (blk_n A) (k_N A) q \<Longrightarrow> a \<noteq> out_addr A col t c"
  shows "tl_update f (blk_m A) (blk_n A) (tile_ptr A q col it) v (tile_mask A q it) m a = m a"
proof -
  obtain lora M pm start where it: "it = (lora, M, pm, start)" by (metis prod_cases4)
  show ?thesis
  proof (rule update_miss)
    fix i j assume "i < blk_m A" "j < blk_n A" "tile_mask A q it i j"
    then show "tile_ptr A q col it i j \<noteq> a"
      using masked_cell [OF assms(1) [unfolded it]] assms(2) unfolding it by metis
  qed
qed

lemma tile_hit:
  assumes it: "item_ok n (lora, M, pm, start)" and "addr_inj A col n"
    and t: "t \<in> item_rows (blk_m A) (lora, M, pm, start)" and c: "c \<in> tile_cols (blk_n A) (k_N A) q"
  shows "tl_update f (blk_m A) (blk_n A) (tile_ptr A q col (lora, M, pm, start)) v (tile_mask A q (lora, M, pm, start)) m
      (out_addr A col t c) =
    f (m (out_addr A col t c)) (v (nat (int t - start - pm * int (blk_m A))) (c - q * blk_n A))"
proof -
  let ?i = "nat (int t - start - pm * int (blk_m A))" and ?j = "c - q * blk_n A" and ?it = "(lora, M, pm, start)"
  note i = cell_of_row [OF it t]
  have j: "?j < blk_n A" "?j + q * blk_n A = c" "c < k_N A" using c by (auto simp: tile_cols_def)
  have on: "tile_mask A q ?it ?i ?j" using i(2) j t by (auto simp: tile_mask_def item_rows_def)
  have at: "tile_ptr A q col ?it ?i ?j = out_addr A col t c"
    unfolding tile_ptr_def out_addr_def Let_def prod.case i(2) j(2) ..
  have inj: "i' = ?i \<and> j' = ?j"
    if m: "i' < blk_m A" "j' < blk_n A" "tile_mask A q ?it i' j'" and e: "tile_ptr A q col ?it i' j' = tile_ptr A q col ?it ?i ?j" for i' j'
  proof -
    obtain t' c' where tc: "t' < n" "c' < k_N A" "int t' = start + int i' + pm * int (blk_m A)" "c' = j' + q * blk_n A"
      "tile_ptr A q col ?it i' j' = out_addr A col t' c'"
      using masked_cell [OF it m] by blast
    then have "t' = t \<and> c' = c"
      using assms(2) e i(4) j(3) unfolding at addr_inj_def inj_on_def by force
    then show ?thesis using tc(3,4) i(2) j(2) by auto
  qed
  from update_hit [where i = ?i and j = ?j and on = "tile_mask A q ?it" and ptr = "tile_ptr A q col ?it", OF i(1) j(1) on inj]
  show ?thesis unfolding at .
qed

text \<open>The products a program adds up for row \<open>t\<close> and column \<open>c\<close>.\<close>

definition gemm_term ::
  "kernel \<Rightarrow> (real \<Rightarrow> real) \<Rightarrow> int \<Rightarrow> nat \<Rightarrow> int \<Rightarrow> nat \<Rightarrow> nat \<Rightarrow> nat \<Rightarrow> real" where
  "gemm_term A cast woff kcol lora t c k =
     cast (k_x A (int t * xm_stride A + int (k + kcol) * xk_stride A)) *
     k_w A (woff + l0_stride A * lora + int c * lora_k_stride A + int k * lora_n_stride A)"

definition gemm_part ::
  "kernel \<Rightarrow> (real \<Rightarrow> real) \<Rightarrow> int \<Rightarrow> nat \<Rightarrow> nat \<Rightarrow> nat \<Rightarrow> int \<Rightarrow> nat \<Rightarrow> nat \<Rightarrow> real" where
  "gemm_part A cast woff kcol step s lora t c = (\<Sum>k<cdiv (k_K A) step. \<Sum>l<blk_k A.
     if even_k A \<or> s * blk_k A + l + k * step < k_K A
     then gemm_term A cast woff kcol lora t c (k * step + (s * blk_k A + l)) else 0)"

lemma loop_part:
  assumes it: "item_ok n (lora, M, pm, start)" and t: "t \<in> item_rows (blk_m A) (lora, M, pm, start)"
    and c: "c \<in> tile_cols (blk_n A) (k_N A) q"
    and ap: "\<And>i l. ap i l = start * xm_stride A + ((int i + pm * int (blk_m A)) mod M) * xm_stride A +
      int (s * blk_k A + l + kcol) * xk_stride A"
    and bp: "\<And>l j. bp l j = woff + l0_stride A * lora + int ((j + q * blk_n A) mod k_N A) * lora_k_stride A +
      int (s * blk_k A + l) * lora_n_stride A"
  shows "k_loop A cast (\<lambda>l. s * blk_k A + l) step [0..<cdiv (k_K A) step] ap bp (\<lambda>i j. 0)
      (nat (int t - start - pm * int (blk_m A))) (c - q * blk_n A) = gemm_part A cast woff kcol step s lora t c"
proof -
  have cm: "(c - q * blk_n A + q * blk_n A) mod k_N A = c" using c by (auto simp: tile_cols_def)
  have a: "ap (nat (int t - start - pm * int (blk_m A))) l + int (k * step) * xk_stride A =
      int t * xm_stride A + int (k * step + (s * blk_k A + l) + kcol) * xk_stride A" for k l
    unfolding ap cell_of_row(3) [OF it t] by (simp add: algebra_simps)
  have b: "bp l (c - q * blk_n A) + int (k * step) * lora_n_stride A = woff + l0_stride A * lora +
      int c * lora_k_stride A + int (k * step + (s * blk_k A + l)) * lora_n_stride A" for k l
    unfolding bp cm by (simp add: algebra_simps)
  show ?thesis unfolding k_loop_sum k_terms_def gemm_part_def gemm_term_def a b ..
qed

definition shrink_comb :: "nat \<Rightarrow> real \<Rightarrow> real \<Rightarrow> real" where
  "shrink_comb split_k old v = (if split_k = 1 then v else old + v)"

lemma shrink_comb_fun: "shrink_comb split_k = (if split_k = 1 then \<lambda>old v. v else (+))"
  by (auto simp: shrink_comb_def fun_eq_iff)

text \<open>The pointer blocks of the loop.\<close>

definition loop_ap :: "kernel \<Rightarrow> nat \<Rightarrow> nat \<Rightarrow> int \<times> int \<times> int \<times> int \<Rightarrow> ptrs" where
  "loop_ap A kcol s it = (let (lora, M, pm, start) = it in (\<lambda>i l.
     start * xm_stride A + ((int i + pm * int (blk_m A)) mod M) * xm_stride A + int (s * blk_k A + l + kcol) * xk_stride A))"

definition loop_bp :: "kernel \<Rightarrow> int \<Rightarrow> nat \<Rightarrow> nat \<Rightarrow> int \<Rightarrow> ptrs" where
  "loop_bp A woff q s lora = (\<lambda>l j. woff + l0_stride A * lora + int ((j + q * blk_n A) mod k_N A) * lora_k_stride A
     + int (s * blk_k A + l) * lora_n_stride A)"

lemma shrink_program_eq:
  assumes w: "work_item W (blk_m A) p = Some (lora, M, pm, start)"
  shows "shrink_program W A split_k scaling woff col (p, q, s) m =
    tl_update (shrink_comb split_k) (blk_m A) (blk_n A) (tile_ptr A q col (lora, M, pm, start))
      (\<lambda>i j. k_loop A (\<lambda>x. x) (\<lambda>l. s * blk_k A + l) (blk_k A * split_k) [0..<cdiv (k_K A) (blk_k A * split_k)]
         (loop_ap A 0 s (lora, M, pm, start)) (loop_bp A woff q s lora) (\<lambda>i j. 0) i j * scaling)
      (tile_mask A q (lora, M, pm, start)) m"
  unfolding shrink_program_def shrink_comb_fun tile_ptr_def tile_mask_def loop_ap_def loop_bp_def
  by (simp only: prod.case w option.case Let_def tl_store_def tl_atomic_add_def add_0_right if_distrib [of tl_update] split: if_split)
    simp

lemma shrink_hit:
  assumes w: "work_item W (blk_m A) p = Some (lora, M, pm, start)" and it: "item_ok n (lora, M, pm, start)"
    and inj: "addr_inj A col n" and t: "t \<in> item_rows (blk_m A) (lora, M, pm, start)"
    and c: "c \<in> tile_cols (blk_n A) (k_N A) q"
  shows "shrink_program W A split_k scaling woff col (p, q, s) m (out_addr A col t c) =
    shrink_comb split_k (m (out_addr A col t c))
      (gemm_part A (\<lambda>x. x) woff 0 (blk_k A * split_k) s lora t c * scaling)"
  unfolding shrink_program_eq [OF w] tile_hit [OF it inj t c]
  by (subst loop_part [OF it t c, where woff = woff and kcol = 0]) (simp_all add: loop_ap_def loop_bp_def)

lemma shrink_miss:
  assumes "\<And>it. work_item W (blk_m A) p = Some it \<Longrightarrow> item_ok n it"
    and "\<And>it t c. work_item W (blk_m A) p = Some it \<Longrightarrow> t \<in> item_rows (blk_m A) it \<Longrightarrow>
      c \<in> tile_cols (blk_n A) (k_N A) q \<Longrightarrow> a \<noteq> out_addr A col t c"
  shows "shrink_program W A split_k scaling woff col (p, q, s) m a = m a"
proof (cases "work_item W (blk_m A) p")
  case (Some it)
  obtain lora M pm start where it: "it = (lora, M, pm, start)" by (metis prod_cases4)
  note w = Some [unfolded it]
  show ?thesis unfolding shrink_program_eq [OF w]
    by (rule tile_miss [OF assms(1) [OF w]]) (use assms(2) [OF w] in blast)
qed (simp add: shrink_program_def)

lemma expand_program_eq:
  assumes w: "work_item W (blk_m A) p = Some (lora, M, pm, start)"
  shows "expand_program W A to_dtype cast_type add_inputs woff kcol col (p, q) m =
    tl_update (\<lambda>old v. v) (blk_m A) (blk_n A) (tile_ptr A q col (lora, M, pm, start))
      (\<lambda>i j. to_dtype (k_loop A (if cast_type then to_dtype else (\<lambda>x. x)) (\<lambda>l. 0 * blk_k A + l) (blk_k A)
         [0..<cdiv (k_K A) (blk_k A)] (loop_ap A kcol 0 (lora, M, pm, start)) (loop_bp A woff q 0 lora) (\<lambda>i j. 0) i j) +
         (if add_inputs then tl_load m (tile_ptr A q col (lora, M, pm, start)) (tile_mask A q (lora, M, pm, start)) i j else 0))
      (tile_mask A q (lora, M, pm, start)) m"
proof -
  have b: "(\<lambda>l j. woff + l0_stride A * lora + int l * lora_n_stride A + int ((j + q * blk_n A) mod k_N A) * lora_k_stride A) =
      (\<lambda>l j. woff + l0_stride A * lora + int ((j + q * blk_n A) mod k_N A) * lora_k_stride A + int l * lora_n_stride A)"
    by (simp add: fun_eq_iff)
  show ?thesis
    unfolding expand_program_def tile_ptr_def tile_mask_def loop_ap_def loop_bp_def
    by (cases add_inputs)
      (simp_all only: prod.case w option.case Let_def tl_store_def mult_0 add_0 add_0_right if_True if_False b simp_thms)
qed

lemma expand_hit:
  assumes w: "work_item W (blk_m A) p = Some (lora, M, pm, start)" and it: "item_ok n (lora, M, pm, start)"
    and inj: "addr_inj A col n" and t: "t \<in> item_rows (blk_m A) (lora, M, pm, start)"
    and c: "c \<in> tile_cols (blk_n A) (k_N A) q"
  shows "expand_program W A to_dtype cast_type add_inputs woff kcol col (p, q) m (out_addr A col t c) =
    to_dtype (gemm_part A (if cast_type then to_dtype else (\<lambda>x. x)) woff kcol (blk_k A) 0 lora t c) +
    (if add_inputs then m (out_addr A col t c) else 0)"
proof -
  let ?it = "(lora, M, pm, start)" and ?i = "nat (int t - start - pm * int (blk_m A))" and ?j = "c - q * blk_n A"
  have j: "?j + q * blk_n A = c" using c by (auto simp: tile_cols_def)
  have "tile_ptr A q col ?it ?i ?j = out_addr A col t c"
    unfolding tile_ptr_def out_addr_def Let_def prod.case cell_of_row(2) [OF it t] j ..
  moreover have "tile_mask A q ?it ?i ?j"
    using cell_of_row(2) [OF it t] j c t by (auto simp: tile_mask_def item_rows_def tile_cols_def)
  ultimately have ld: "tl_load m (tile_ptr A q col ?it) (tile_mask A q ?it) ?i ?j = m (out_addr A col t c)"
    by (simp add: tl_load_def)
  show ?thesis
    unfolding expand_program_eq [OF w] tile_hit [OF it inj t c] ld
    by (subst loop_part [OF it t c, where woff = woff and kcol = kcol]) (simp_all add: loop_ap_def loop_bp_def)
qed

lemma expand_miss:
  assumes "\<And>it. work_item W (blk_m A) p = Some it \<Longrightarrow> item_ok n it"
    and "\<And>it t c. work_item W (blk_m A) p = Some it \<Longrightarrow> t \<in> item_rows (blk_m A) it \<Longrightarrow>
      c \<in> tile_cols (blk_n A) (k_N A) q \<Longrightarrow> a \<noteq> out_addr A col t c"
  shows "expand_program W A to_dtype cast_type add_inputs woff kcol col (p, q) m a = m a"
proof (cases "work_item W (blk_m A) p")
  case (Some it)
  obtain lora M pm start where it: "it = (lora, M, pm, start)" by (metis prod_cases4)
  note w = Some [unfolded it]
  show ?thesis unfolding expand_program_eq [OF w]
    by (rule tile_miss [OF assms(1) [OF w]]) (use assms(2) [OF w] in blast)
qed (simp add: expand_program_def)

subsection \<open>The work list of a step\<close>

text \<open>
  Every work item of the launch grid belongs to tokens of its adapter, and each token that has an
  adapter is in exactly one work item.
\<close>

definition work_ok :: "wrapper \<Rightarrow> nat \<Rightarrow> int list \<Rightarrow> bool" where
  "work_ok W bm idx \<longleftrightarrow>
     (\<forall>p it. p < tile_grid W \<longrightarrow> work_item W bm p = Some it \<longrightarrow>
        item_ok (length idx) it \<and> (\<forall>t\<in>item_rows bm it. idx ! t = fst it \<and> idx ! t \<noteq> - 1)) \<and>
     (\<forall>t<length idx. idx ! t \<noteq> - 1 \<longrightarrow>
        (\<exists>!p. p < tile_grid W \<and> (\<exists>it. work_item W bm p = Some it \<and> t \<in> item_rows bm it)))"

lemma item_rows_simp:
  "t \<in> item_rows bm (lora, M, pm, start) \<longleftrightarrow>
     start + pm * int bm \<le> int t \<and> int t < start + pm * int bm + int bm \<and> int t < start + M"
  by (simp add: item_rows_def)

lemma refreshed_work_ok:
  assumes T: "torch_ok T" and ml: "0 < max_loras" and rn: "length (runs idx) \<le> max_loras" and ne: "idx \<noteq> []"
    and bm: "0 < bm" and len: "length idx \<le> tile_map_tokens"
    and W: "W = set_tiles T bm max_loras (length idx) (set_segments T max_loras idx w)"
  shows "work_ok W bm idx"
proof -
  obtain st lens lo where r: "refresh_segments T max_loras idx = (st, lens, lo)" by (metis prod_cases3)
  note cov = segments_cover [OF T ml rn ne r]
  obtain ns where ns: "lens = map int ns" "length ns = max_loras" using cov by blast
  have total: "sum_list ns = length idx" using cov ns(1) by (simp add: sum_list_int)
  define N where "N = max (tile_capacity bm max_loras) (length (tile_seg w))"
  obtain ts tm where b: "build_tile_map T (map int ns) (int bm) N = (ts, tm)" by (metis prod.collapse)
  have W': "tile_grid W = tile_cap bm max_loras (length idx)" "tile_seg W = ts" "tile_m W = tm"
    "seg_start W = st" "seg_len W = map int ns" "seg_lora W = lo"
    using r b by (simp_all add: W set_tiles_def set_segments_def N_def ns(1) Let_def)
  have tl: "(\<forall>j<length ns. \<forall>r<ns ! j. \<exists>!p. p < N \<and> ts ! p = int j \<and>
      tm ! p * int bm \<le> int r \<and> int r < tm ! p * int bm + int bm) \<and>
    (\<forall>p<N. ts ! p = - 1 \<or> p < tile_cap bm (length ns) (sum_list ns) \<and>
      (\<exists>j<length ns. ts ! p = int j \<and> 0 \<le> tm ! p \<and> tm ! p * int bm < int (ns ! j)))"
    by (rule tiles_cover [OF T _ bm _ _ b]) (use ml ns len total in \<open>auto simp: N_def\<close>)
  have "cdiv (length idx) bm \<le> cdiv tile_map_tokens bm"
    unfolding cdiv_def using len by (intro div_le_mono) simp
  then have cap: "tile_grid W \<le> N" by (simp add: W'(1) N_def tile_cap_def tile_capacity_def)
  have item: "\<exists>j<max_loras. ts ! p = int j \<and> 0 \<le> tm ! p \<and> tm ! p * int bm < int (ns ! j) \<and> lo ! j \<noteq> - 1 \<and>
      it = (lo ! j, int (ns ! j), tm ! p, st ! j)" if p: "p < tile_grid W" and it: "work_item W bm p = Some it" for p it
  proof -
    have "ts ! p \<noteq> - 1" using it by (auto simp: work_item_def W' split: if_splits)
    then obtain j where j: "j < length ns" "ts ! p = int j" "0 \<le> tm ! p" "tm ! p * int bm < int (ns ! j)"
      using tl p cap by (meson less_le_trans)
    moreover have "lo ! j \<noteq> - 1 \<and> it = (lo ! j, int (ns ! j), tm ! p, st ! j)"
      using it j(1,2) by (auto simp: work_item_def W' Let_def split: if_splits)
    ultimately show ?thesis using ns(2) by blast
  qed
  have seg: "0 \<le> st ! j \<and> st ! j + int (ns ! j) \<le> int (length idx)" if "j < max_loras" "ns ! j \<noteq> 0" for j
    using cov that ns by auto
  have own: "idx ! t = lo ! j" if "t < length idx" "j < max_loras" "st ! j \<le> int t" "int t < st ! j + int (ns ! j)" for t j
    using cov that ns by auto
  have "item_ok (length idx) it \<and> (\<forall>t\<in>item_rows bm it. idx ! t = fst it \<and> idx ! t \<noteq> - 1)"
    if p: "p < tile_grid W" and w: "work_item W bm p = Some it" for p it
  proof -
    obtain j where j: "j < max_loras" "ts ! p = int j" "0 \<le> tm ! p" "tm ! p * int bm < int (ns ! j)" "lo ! j \<noteq> - 1"
      "it = (lo ! j, int (ns ! j), tm ! p, st ! j)" using item [OF p w] by blast
    have pos: "0 \<le> tm ! p * int bm" using j(3) by simp
    then have "ns ! j \<noteq> 0" using j(4) by auto
    from seg [OF j(1) this] have s: "0 \<le> st ! j" "st ! j + int (ns ! j) \<le> int (length idx)" by auto
    have "idx ! t = lo ! j" if "t \<in> item_rows bm it" for t
      using that own [OF _ j(1)] s pos by (auto simp: j(6) item_rows_simp)
    then show ?thesis using s j(3,5) by (auto simp: j(6) item_ok_def)
  qed
  moreover have "\<exists>!p. p < tile_grid W \<and> (\<exists>it. work_item W bm p = Some it \<and> t \<in> item_rows bm it)"
    if t: "t < length idx" and lora: "idx ! t \<noteq> - 1" for t
  proof -
    obtain j where j: "j < max_loras" "st ! j \<le> int t" "int t < st ! j + int (ns ! j)"
      and uniq: "\<And>j'. j' < max_loras \<Longrightarrow> st ! j' \<le> int t \<Longrightarrow> int t < st ! j' + int (ns ! j') \<Longrightarrow> j' = j"
    proof -
      have "\<exists>!j. j < max_loras \<and> st ! j \<le> int t \<and> int t < st ! j + lens ! j" using cov t by blast
      then show thesis using that ns by (metis nth_map)
    qed
    define r where "r = nat (int t - st ! j)"
    have r: "r < ns ! j" "int r = int t - st ! j" using j by (auto simp: r_def)
    have "\<exists>!p. p < N \<and> ts ! p = int j \<and> tm ! p * int bm \<le> int r \<and> int r < tm ! p * int bm + int bm"
      using tl j(1) ns(2) r(1) by blast
    then obtain p where p: "p < N" "ts ! p = int j" "tm ! p * int bm \<le> int r" "int r < tm ! p * int bm + int bm"
      and puniq: "\<And>p'. p' < N \<Longrightarrow> ts ! p' = int j \<Longrightarrow> tm ! p' * int bm \<le> int r \<Longrightarrow> int r < tm ! p' * int bm + int bm \<Longrightarrow> p' = p"
      by blast
    have pg: "p < tile_grid W" using tl p(1,2) ns(2) total by (metis W'(1) of_nat_neq_0 int_ops(1) neg_0_le_iff_le of_nat_0_le_iff not_one_le_zero)
    have "work_item W bm p = Some (lo ! j, int (ns ! j), tm ! p, st ! j)"
      using p r own [OF t j] lora j(1) ns(2) by (simp add: work_item_def W' Let_def)
    moreover have "t \<in> item_rows bm (lo ! j, int (ns ! j), tm ! p, st ! j)"
      using p(3,4) r(2) j(3) by (simp add: item_rows_simp)
    ultimately have ex: "p < tile_grid W \<and> (\<exists>it. work_item W bm p = Some it \<and> t \<in> item_rows bm it)" using pg by blast
    show ?thesis
    proof (rule ex1I [of _ p])
      show "p < tile_grid W \<and> (\<exists>it. work_item W bm p = Some it \<and> t \<in> item_rows bm it)" by (rule ex)
    next
      fix p' assume "p' < tile_grid W \<and> (\<exists>it. work_item W bm p' = Some it \<and> t \<in> item_rows bm it)"
      then obtain it where p': "p' < tile_grid W" "work_item W bm p' = Some it" "t \<in> item_rows bm it" by blast
      obtain j' where j': "j' < max_loras" "ts ! p' = int j'" "0 \<le> tm ! p'" "it = (lo ! j', int (ns ! j'), tm ! p', st ! j')"
        using item [OF p'(1,2)] by blast
      have rows: "st ! j' + tm ! p' * int bm \<le> int t" "int t < st ! j' + tm ! p' * int bm + int bm" "int t < st ! j' + int (ns ! j')"
        using p'(3) by (simp_all add: j'(4) item_rows_simp)
      have "0 \<le> tm ! p' * int bm" using j'(3) by simp
      then have "j' = j" using uniq [OF j'(1)] rows by linarith
      then show "p' = p" using puniq [of p'] p'(1) cap j'(2) rows r(2) by simp
    qed
  qed
  ultimately show ?thesis unfolding work_ok_def by blast
qed

end
