(* ===== verification/Launches.thy ===== *)
theory Launches
  imports Kernels
begin

text \<open>
  What a whole launch computes: the programs of a grid in any order, over a work list as
  \<open>update_metadata\<close> leaves it. Rows are tokens; a token without an adapter (index -1) is in no work
  item.
\<close>

subsection \<open>Programs in any order\<close>

lemma fold_miss: "(\<And>p m. p \<in> set ps \<Longrightarrow> prog p m a = m a) \<Longrightarrow> fold prog ps m a = (m a :: real)"
  by (induction ps arbitrary: m) simp_all

lemma fold_one:
  assumes "distinct ps" and "p \<in> set ps" and "\<And>m. prog p m a = g (m a)"
    and "\<And>q m. q \<in> set ps \<Longrightarrow> q \<noteq> p \<Longrightarrow> prog q m a = m a"
  shows "fold prog ps m a = (g (m a) :: real)"
proof -
  obtain us vs where ps: "ps = us @ p # vs" using assms(2) by (metis split_list)
  have "fold prog us m' a = m' a" "fold prog vs m' a = m' a" for m'
    using assms(1,4) by (auto simp: ps intro!: fold_miss)
  then show ?thesis using assms(3) by (simp add: ps)
qed

lemma fold_add:
  assumes "distinct ps" and "S \<subseteq> set ps" and "\<And>q m. q \<in> S \<Longrightarrow> prog q m a = m a + v q"
    and "\<And>q m. q \<in> set ps \<Longrightarrow> q \<notin> S \<Longrightarrow> prog q m a = m a"
  shows "fold prog ps m a = m a + (\<Sum>q\<in>S. v q :: real)"
proof -
  have "fold prog ps m a = m a + (\<Sum>q\<in>set ps. if q \<in> S then v q else 0)"
    using assms(1,3,4)
  proof (induction ps arbitrary: m)
    case (Cons p ps)
    then show ?case by (cases "p \<in> S") simp_all
  qed simp
  moreover have "(\<Sum>q\<in>set ps. if q \<in> S then v q else 0) = (\<Sum>q\<in>S. v q)"
    using assms(2) by (simp add: sum.inter_restrict [symmetric] Int_absorb1)
  ultimately show ?thesis by simp
qed

subsection \<open>Addresses\<close>

definition wide_inj :: "kernel \<Rightarrow> nat \<Rightarrow> nat \<Rightarrow> bool" where
  "wide_inj A n w \<longleftrightarrow> inj_on (\<lambda>(t, c). int t * cm_stride A + int c * cn_stride A) ({..<n} \<times> {..<w})"

lemma wide_addr:
  assumes "wide_inj A n w" and "t < n" "t' < n" "c + col < w" "c' + col' < w"
    and "out_addr A col t c = out_addr A col' t' c'"
  shows "t = t' \<and> c + col = c' + col'"
  using assms unfolding wide_inj_def inj_on_def out_addr_def by fastforce

lemma wide_narrow: "wide_inj A n w \<Longrightarrow> col + k_N A \<le> w \<Longrightarrow> addr_inj A col n"
  unfolding addr_inj_def
proof (rule inj_onI)
  fix p p'
  assume w: "wide_inj A n w" "col + k_N A \<le> w" and p: "p \<in> {..<n} \<times> {..<k_N A}" "p' \<in> {..<n} \<times> {..<k_N A}"
    and e: "(case p of (t, c) \<Rightarrow> out_addr A col t c) = (case p' of (t, c) \<Rightarrow> out_addr A col t c)"
  obtain t c t' c' where q: "p = (t, c)" "p' = (t', c')" by force
  show "p = p'" using wide_addr [OF w(1), of t t' c col c' col] p e w(2) by (auto simp: q)
qed

lemma mixed_radix:
  assumes "c < w" and "c' < w" and "c + t * w = c' + t' * (w :: nat)"
  shows "t = t' \<and> c = c'"
proof -
  have "(c + t * w) div w = t" "(c' + t' * w) div w = t'" using assms(1,2) by simp_all
  then have "t = t'" using assms(3) by simp
  then show ?thesis using assms(3) by simp
qed

lemma row_major_addr: "inj_on (\<lambda>(t, c). int t * int w + int c) ({..<n} \<times> {..<w})"
proof (rule inj_onI)
  fix p p'
  assume p: "p \<in> {..<n} \<times> {..<w}" "p' \<in> {..<n} \<times> {..<w}"
    and e: "(case p of (t, c) \<Rightarrow> int t * int w + int c) = (case p' of (t, c) \<Rightarrow> int t * int w + int c)"
  obtain t c t' c' where q: "p = (t, c)" "p' = (t', c')" by force
  have "int (c + t * w) = int (c' + t' * w)" using e by (simp add: q)
  then have "c + t * w = c' + t' * w" by (simp only: of_nat_eq_iff)
  then show "p = p'" using mixed_radix [of c w c' t t'] p by (simp add: q)
qed

lemma row_major_inj:
  assumes "cm_stride A = int w" and "cn_stride A = 1"
  shows "wide_inj A n w"
  using row_major_addr [of w n] by (simp add: wide_inj_def assms)

lemma col_tile:
  assumes "0 < bn" and "c < N"
  shows "c \<in> tile_cols bn N q \<longleftrightarrow> q = c div bn" and "c div bn < cdiv N bn"
proof -
  have "q * bn \<le> c \<and> c < q * bn + bn \<longleftrightarrow> q = c div bn"
  proof
    assume "q * bn \<le> c \<and> c < q * bn + bn"
    then show "q = c div bn" by (intro div_nat_eqI [symmetric]) (simp_all add: mult.commute)
  next
    assume "q = c div bn"
    then show "q * bn \<le> c \<and> c < q * bn + bn"
      using div_times_less_eq_dividend [of c bn] dividend_less_div_times [OF assms(1), of c] by simp
  qed
  then show "c \<in> tile_cols bn N q \<longleftrightarrow> q = c div bn" using assms(2) by (simp add: tile_cols_def)
  show "c div bn < cdiv N bn" by (rule row_tile [OF assms])
qed

lemma distinct_grid3: "distinct (grid3 a b c)"
  by (simp add: grid3_def distinct_product)

lemma set_grid3: "set (grid3 a b c) = {..<a} \<times> {..<b} \<times> {..<c}"
  by (auto simp: grid3_def)

subsection \<open>Work items\<close>

lemma work_item_ok:
  "work_ok W bm idx \<Longrightarrow> p < tile_grid W \<Longrightarrow> work_item W bm p = Some it \<Longrightarrow> item_ok (length idx) it"
  unfolding work_ok_def by blast

lemma work_rows:
  assumes "work_ok W bm idx" and "p < tile_grid W" and "work_item W bm p = Some it" and "t \<in> item_rows bm it"
  shows "idx ! t = fst it" and "idx ! t \<noteq> - 1" and "t < length idx"
proof -
  obtain lora M pm start where it: "it = (lora, M, pm, start)" by (metis prod_cases4)
  have "\<forall>t\<in>item_rows bm it. idx ! t = fst it \<and> idx ! t \<noteq> - 1" using assms(1-3) unfolding work_ok_def by blast
  then show "idx ! t = fst it" "idx ! t \<noteq> - 1" using assms(4) by blast+
  show "t < length idx" using cell_of_row(4) [OF work_item_ok [OF assms(1-3), unfolded it] assms(4) [unfolded it]] .
qed

lemma work_owner:
  assumes "work_ok W bm idx" and "t < length idx" and "idx ! t \<noteq> - 1"
  obtains p M pm start where "p < tile_grid W" "work_item W bm p = Some (idx ! t, M, pm, start)"
    "t \<in> item_rows bm (idx ! t, M, pm, start)"
    "\<And>p' it. p' < tile_grid W \<Longrightarrow> work_item W bm p' = Some it \<Longrightarrow> t \<in> item_rows bm it \<Longrightarrow> p' = p"
proof -
  have "\<exists>!p. p < tile_grid W \<and> (\<exists>it. work_item W bm p = Some it \<and> t \<in> item_rows bm it)"
    using assms by (simp add: work_ok_def)
  then obtain p it where p: "p < tile_grid W" "work_item W bm p = Some it" "t \<in> item_rows bm it"
    "\<And>p' it. p' < tile_grid W \<Longrightarrow> work_item W bm p' = Some it \<Longrightarrow> t \<in> item_rows bm it \<Longrightarrow> p' = p" by blast
  obtain lora M pm start where it: "it = (lora, M, pm, start)" by (metis prod_cases4)
  have "lora = idx ! t" using work_rows(1) [OF assms(1) p(1-3)] it by simp
  then show thesis using that p it by blast
qed

subsection \<open>Tile kernels\<close>

text \<open>The slices' output columns are disjoint and lie within the output's width.\<close>

definition slices_ok :: "(nat \<Rightarrow> nat) \<Rightarrow> nat \<Rightarrow> nat \<Rightarrow> nat \<Rightarrow> bool" where
  "slices_ok col N ns w \<longleftrightarrow> (\<forall>i<ns. col i + N \<le> w) \<and>
     (\<forall>i<ns. \<forall>j<ns. \<forall>c<N. \<forall>c'<N. c + col i = c' + col j \<longrightarrow> i = j)"

lemma slices_in_order: "slices_ok (\<lambda>i. i * N) N ns (ns * N)"
  unfolding slices_ok_def
proof (intro conjI allI impI)
  show "i * N + N \<le> ns * N" if "i < ns" for i
    using that by (metis Suc_leI add.commute mult_Suc mult_le_mono1)
  show "i = j" if "c < N" "c' < N" "c + i * N = c' + j * N" for i j c c'
    using mixed_radix [OF that] by simp
qed

text \<open>
  What the launches rely on, whichever kernel runs: program \<open>(p, q, s)\<close> works on slice \<open>slice s\<close>,
  changes nothing outside the rows of work item \<open>p\<close> and the columns of tile \<open>q\<close>, and updates each
  cell of them by \<open>upd\<close>.
\<close>

locale tile_kernel =
  fixes kern :: "wrapper \<Rightarrow> kernel \<Rightarrow> nat \<times> nat \<times> nat \<Rightarrow> mem \<Rightarrow> mem"
    and slice :: "nat \<Rightarrow> nat"
    and col :: "kernel \<Rightarrow> nat \<Rightarrow> nat"
    and upd :: "kernel \<Rightarrow> nat \<Rightarrow> int \<Rightarrow> nat \<Rightarrow> nat \<Rightarrow> real \<Rightarrow> real"
  assumes miss: "(\<And>it. work_item W (blk_m A) p = Some it \<Longrightarrow> item_ok n it) \<Longrightarrow>
      (\<And>it t c. work_item W (blk_m A) p = Some it \<Longrightarrow> t \<in> item_rows (blk_m A) it \<Longrightarrow>
        c \<in> tile_cols (blk_n A) (k_N A) q \<Longrightarrow> a \<noteq> out_addr A (col A (slice s)) t c) \<Longrightarrow>
      kern W A (p, q, s) m a = m a"
    and hit: "work_item W (blk_m A) p = Some (lora, M, pm, start) \<Longrightarrow> item_ok n (lora, M, pm, start) \<Longrightarrow>
      addr_inj A (col A (slice s)) n \<Longrightarrow> t \<in> item_rows (blk_m A) (lora, M, pm, start) \<Longrightarrow>
      c \<in> tile_cols (blk_n A) (k_N A) q \<Longrightarrow>
      kern W A (p, q, s) m (out_addr A (col A (slice s)) t c) = upd A s lora t c (m (out_addr A (col A (slice s)) t c))"
begin

lemma outside:
  assumes w: "work_ok W (blk_m A) idx" and ps: "set ps \<subseteq> {..<tile_grid W} \<times> UNIV \<times> {s. slice s < ns}"
    and a: "\<And>t i c. t < length idx \<Longrightarrow> i < ns \<Longrightarrow> c < k_N A \<Longrightarrow> a \<noteq> out_addr A (col A i) t c"
  shows "fold (kern W A) ps m a = m a"
proof (rule fold_miss)
  fix x m' assume x: "x \<in> set ps"
  obtain p q s where pq: "x = (p, q, s)" by (metis prod_cases3)
  have p: "p < tile_grid W" "slice s < ns" using x ps pq by auto
  show "kern W A x m' a = m' a" unfolding pq
  proof (rule miss [OF work_item_ok [OF w p(1)]])
    fix it t c assume "work_item W (blk_m A) p = Some it" "t \<in> item_rows (blk_m A) it" "c \<in> tile_cols (blk_n A) (k_N A) q"
    then show "a \<noteq> out_addr A (col A (slice s)) t c"
      using a [OF work_rows(3) [OF w p(1)] p(2)] by (simp add: tile_cols_def)
  qed
qed

text \<open>A program that is not in charge of a cell leaves it alone.\<close>

lemma other_cell:
  assumes w: "work_ok W (blk_m A) idx" and inj: "wide_inj A (length idx) wd" and sl: "slices_ok (col A) (k_N A) ns wd"
    and bn: "0 < blk_n A" and p: "p < tile_grid W" and s: "slice s < ns" and t: "t < length idx" and i: "i < ns" and c: "c < k_N A"
    and off: "\<And>it. work_item W (blk_m A) p = Some it \<Longrightarrow> t \<in> item_rows (blk_m A) it \<Longrightarrow> q = c div blk_n A \<Longrightarrow> slice s \<noteq> i"
  shows "kern W A (p, q, s) m (out_addr A (col A i) t c) = m (out_addr A (col A i) t c)"
proof (rule miss [OF work_item_ok [OF w p]])
  fix it t' c'
  assume it: "work_item W (blk_m A) p = Some it" "t' \<in> item_rows (blk_m A) it" "c' \<in> tile_cols (blk_n A) (k_N A) q"
  have c': "c' < k_N A" using it(3) by (simp add: tile_cols_def)
  have room: "c + col A i < wd" "c' + col A (slice s) < wd"
    using sl i s c c' by (force simp: slices_ok_def)+
  show "out_addr A (col A i) t c \<noteq> out_addr A (col A (slice s)) t' c'"
  proof
    assume "out_addr A (col A i) t c = out_addr A (col A (slice s)) t' c'"
    from wide_addr [OF inj t work_rows(3) [OF w p it(1,2)] room this]
    have e: "t = t'" "c + col A i = c' + col A (slice s)" by auto
    with sl i s c c' have "i = slice s" by (auto simp: slices_ok_def)
    with e have "c = c'" by simp
    then show False using off [OF it(1)] it(2,3) e(1) \<open>i = slice s\<close> col_tile(1) [OF bn c] by auto
  qed
qed

lemma idle:
  assumes w: "work_ok W (blk_m A) idx" and inj: "wide_inj A (length idx) wd" and sl: "slices_ok (col A) (k_N A) ns wd"
    and bn: "0 < blk_n A" and ps: "set ps \<subseteq> {..<tile_grid W} \<times> UNIV \<times> {s. slice s < ns}"
    and t: "t < length idx" and i: "i < ns" and c: "c < k_N A" and base: "idx ! t = - 1"
  shows "fold (kern W A) ps m (out_addr A (col A i) t c) = m (out_addr A (col A i) t c)"
proof (rule fold_miss)
  fix x m' assume x: "x \<in> set ps"
  obtain p q s where pq: "x = (p, q, s)" by (metis prod_cases3)
  have p: "p < tile_grid W" "slice s < ns" using x ps pq by auto
  show "kern W A x m' (out_addr A (col A i) t c) = m' (out_addr A (col A i) t c)" unfolding pq
    by (rule other_cell [OF w inj sl bn p t i c]) (use work_rows(2) [OF w p(1)] base in blast)
qed

text \<open>The programs in charge of a cell of a token that has an adapter.\<close>

lemma in_charge:
  assumes w: "work_ok W (blk_m A) idx" and inj: "wide_inj A (length idx) wd" and sl: "slices_ok (col A) (k_N A) ns wd"
    and bn: "0 < blk_n A" and t: "t < length idx" and i: "i < ns" and c: "c < k_N A" and lora: "idx ! t \<noteq> - 1"
  obtains p where "p < tile_grid W"
    "\<And>s m. slice s = i \<Longrightarrow> kern W A (p, c div blk_n A, s) m (out_addr A (col A i) t c) =
      upd A s (idx ! t) t c (m (out_addr A (col A i) t c))"
    "\<And>p' q s m. p' < tile_grid W \<Longrightarrow> slice s < ns \<Longrightarrow> \<not> (p' = p \<and> q = c div blk_n A \<and> slice s = i) \<Longrightarrow>
      kern W A (p', q, s) m (out_addr A (col A i) t c) = m (out_addr A (col A i) t c)"
proof -
  obtain p M pm start where p: "p < tile_grid W" "work_item W (blk_m A) p = Some (idx ! t, M, pm, start)"
    "t \<in> item_rows (blk_m A) (idx ! t, M, pm, start)"
    and uniq: "\<And>p' it. p' < tile_grid W \<Longrightarrow> work_item W (blk_m A) p' = Some it \<Longrightarrow> t \<in> item_rows (blk_m A) it \<Longrightarrow> p' = p"
    by (rule work_owner [OF w t lora]) blast
  have cc: "c \<in> tile_cols (blk_n A) (k_N A) (c div blk_n A)" using col_tile(1) [OF bn c] by blast
  have "col A i + k_N A \<le> wd" using sl i by (simp add: slices_ok_def)
  then have ai: "addr_inj A (col A i) (length idx)" by (rule wide_narrow [OF inj])
  show thesis
  proof (rule that [OF p(1)])
    show "kern W A (p, c div blk_n A, s) m (out_addr A (col A i) t c) =
        upd A s (idx ! t) t c (m (out_addr A (col A i) t c))" if "slice s = i" for s m
      using hit [OF p(2) work_item_ok [OF w p(1,2)] _ p(3) cc, of s m] ai that by simp
    show "kern W A (p', q, s) m (out_addr A (col A i) t c) = m (out_addr A (col A i) t c)"
      if "p' < tile_grid W" "slice s < ns" "\<not> (p' = p \<and> q = c div blk_n A \<and> slice s = i)" for p' q s m
      by (rule other_cell [OF w inj sl bn that(1,2) t i c]) (use that uniq in blast)
  qed
qed

end

lemma shrink_ms_eq: "tiled_shrink_ms_kernel W A sk scaling w1 w2 (p, q, s) =
    shrink_program W A sk scaling (slice_woff w1 w2 (s div sk)) (s div sk * k_N A) (p, q, s mod sk)"
  by (simp only: tiled_shrink_ms_kernel_def Let_def prod.case)

lemma expand_ms_eq: "tiled_expand_ms_kernel W A to_dtype cast_type add_inputs w1 w2 y0 y1 y2 (p, q, s) =
    expand_program W A to_dtype cast_type add_inputs (slice_woff w1 w2 s) (s * k_K A)
      (if s = 1 then y1 else if s = 2 then y2 else y0) (p, q)"
  by (simp only: tiled_expand_ms_kernel_def Let_def prod.case)

interpretation shrink: tile_kernel "\<lambda>W A. tiled_shrink_ms_kernel W A sk scaling w1 w2" "\<lambda>s. s div sk"
  "\<lambda>A i. i * k_N A"
  "\<lambda>A s lora t c old. shrink_comb sk old
     (gemm_part A (\<lambda>x. x) (slice_woff w1 w2 (s div sk)) 0 (blk_k A * sk) (s mod sk) lora t c * scaling)"
  for sk scaling w1 w2
proof unfold_locales
  fix W A n and p q s :: nat and a :: int and m :: mem
  assume "\<And>it. work_item W (blk_m A) p = Some it \<Longrightarrow> item_ok n it"
    and "\<And>it t c. work_item W (blk_m A) p = Some it \<Longrightarrow> t \<in> item_rows (blk_m A) it \<Longrightarrow>
      c \<in> tile_cols (blk_n A) (k_N A) q \<Longrightarrow> a \<noteq> out_addr A (s div sk * k_N A) t c"
  then show "tiled_shrink_ms_kernel W A sk scaling w1 w2 (p, q, s) m a = m a"
    unfolding shrink_ms_eq by (rule shrink_miss)
qed (unfold shrink_ms_eq, rule shrink_hit)

interpretation expand: tile_kernel "\<lambda>W A. tiled_expand_ms_kernel W A to_dtype cast_type add_inputs w1 w2 y0 y1 y2" "\<lambda>s. s"
  "\<lambda>A i. if i = 1 then y1 else if i = 2 then y2 else y0"
  "\<lambda>A s lora t c old. to_dtype (gemm_part A (if cast_type then to_dtype else (\<lambda>x. x)) (slice_woff w1 w2 s)
     (s * k_K A) (blk_k A) 0 lora t c) + (if add_inputs then old else 0)"
  for to_dtype cast_type add_inputs w1 w2 y0 y1 y2
proof unfold_locales
  fix W A n and p q s :: nat and a :: int and m :: mem
  assume "\<And>it. work_item W (blk_m A) p = Some it \<Longrightarrow> item_ok n it"
    and "\<And>it t c. work_item W (blk_m A) p = Some it \<Longrightarrow> t \<in> item_rows (blk_m A) it \<Longrightarrow>
      c \<in> tile_cols (blk_n A) (k_N A) q \<Longrightarrow> a \<noteq> out_addr A (if s = 1 then y1 else if s = 2 then y2 else y0) t c"
  then show "tiled_expand_ms_kernel W A to_dtype cast_type add_inputs w1 w2 y0 y1 y2 (p, q, s) m a = m a"
    unfolding expand_ms_eq by (rule expand_miss)
qed (unfold expand_ms_eq, rule expand_hit)

subsection \<open>Results of the launches\<close>

lemma split_k_one:
  assumes "0 < b" and "ev \<longrightarrow> b dvd K"
  shows "(\<Sum>k<cdiv K b. \<Sum>l<b. if ev \<or> 0 * b + l + k * b < K then g (k * b + (0 * b + l)) else 0) = (\<Sum>x<K. g x :: real)"
proof -
  have "(\<Sum>s<1. f s) = f (0 :: nat)" for f :: "nat \<Rightarrow> real" by (simp add: lessThan_Suc)
  then show ?thesis using split_k_total [OF assms(1) zero_less_one, of ev K g] assms(2)
    by (simp only: mult_1_right)
qed

lemma shrink_launch:
  assumes w: "work_ok W (blk_m A) idx" and pos: "0 < blk_n A" "0 < blk_k A" "0 < sk"
    and ev: "even_k A \<longrightarrow> blk_k A * sk dvd k_K A" and inj: "wide_inj A (length idx) (ns * k_N A)"
    and ps: "mset ps = mset (grid3 (tile_grid W) (cdiv (k_N A) (blk_n A)) (ns * sk))"
    and t: "t < length idx" and i: "i < ns" and c: "c < k_N A" and lora: "idx ! t \<noteq> - 1"
  shows "fold (tiled_shrink_ms_kernel W A sk scaling w1 w2) ps m (out_addr A (i * k_N A) t c) =
    (if sk = 1 then 0 else m (out_addr A (i * k_N A) t c)) +
       (\<Sum>k<k_K A. gemm_term A (\<lambda>x. x) (slice_woff w1 w2 i) 0 (idx ! t) t c k) * scaling"
    (is "fold ?prog ps m ?a = _")
proof -
  have dist: "distinct ps" using mset_eq_imp_distinct_iff [OF ps] distinct_grid3 by blast
  have grid: "set ps = {..<tile_grid W} \<times> {..<cdiv (k_N A) (blk_n A)} \<times> {..<ns * sk}"
    using mset_eq_setD [OF ps] set_grid3 by metis
  have slice: "s div sk < ns" if "s < ns * sk" for s
    using that pos(3) by (simp add: less_mult_imp_div_less)
  let ?part = "\<lambda>s. gemm_part A (\<lambda>x. x) (slice_woff w1 w2 i) 0 (blk_k A * sk) s (idx ! t) t c"
  obtain p where p: "p < tile_grid W"
    and hit: "\<And>s m. s div sk = i \<Longrightarrow> ?prog (p, c div blk_n A, s) m ?a = shrink_comb sk (m ?a)
      (gemm_part A (\<lambda>x. x) (slice_woff w1 w2 (s div sk)) 0 (blk_k A * sk) (s mod sk) (idx ! t) t c * scaling)"
    and other: "\<And>p' q s m. p' < tile_grid W \<Longrightarrow> s div sk < ns \<Longrightarrow> \<not> (p' = p \<and> q = c div blk_n A \<and> s div sk = i) \<Longrightarrow>
      ?prog (p', q, s) m ?a = m ?a"
    by (rule shrink.in_charge [where sk = sk and scaling = scaling and ?w1.0 = w1 and ?w2.0 = w2,
        OF w inj slices_in_order pos(1) t i c lora]) blast
  define pr where "pr = (\<lambda>s. (p, c div blk_n A, i * sk + s))"
  have hit: "?prog (pr s) m' ?a = shrink_comb sk (m' ?a) (?part s * scaling)" if "s < sk" for s m'
    using hit [of "i * sk + s" m'] that by (simp add: pr_def)
  have in_grid: "pr s \<in> set ps" if "s < sk" for s
  proof -
    have "i * sk + s < Suc i * sk" using that by simp
    also have "\<dots> \<le> ns * sk" using i by (intro mult_le_mono1) simp
    finally show ?thesis using p col_tile(2) [OF pos(1) c] by (simp add: grid pr_def)
  qed
  have other: "?prog x m' ?a = m' ?a" if x: "x \<in> set ps" "x \<notin> pr ` {..<sk}" for x m'
  proof -
    obtain p' q s where pq: "x = (p', q, s)" by (metis prod_cases3)
    have "\<not> (p' = p \<and> q = c div blk_n A \<and> s div sk = i)"
    proof
      assume e: "p' = p \<and> q = c div blk_n A \<and> s div sk = i"
      have "s = i * sk + s mod sk" using e by (metis div_mult_mod_eq)
      then have "x = pr (s mod sk)" using e by (simp add: pq pr_def)
      then show False using x(2) pos(3) by auto
    qed
    then show ?thesis using other [of p' s q m'] x(1) slice [of s] by (auto simp: pq grid)
  qed
  have total: "(\<Sum>s<sk. ?part s) = (\<Sum>k<k_K A. gemm_term A (\<lambda>x. x) (slice_woff w1 w2 i) 0 (idx ! t) t c k)"
    unfolding gemm_part_def by (rule split_k_total [OF pos(2,3) ev])
  show ?thesis
  proof (cases "sk = 1")
    case True
    have "fold ?prog ps m ?a = (\<lambda>_. ?part 0 * scaling) (m ?a)"
      by (rule fold_one [OF dist in_grid [of 0]]) (use True hit [of 0] other in \<open>auto simp: shrink_comb_def lessThan_Suc\<close>)
    then show ?thesis using total True by simp
  next
    case sk: False
    have inj_pr: "inj_on pr {..<sk}" by (auto simp: inj_on_def pr_def)
    have "fold ?prog ps m ?a = m ?a + (\<Sum>x\<in>pr ` {..<sk}. ?part (snd (snd x) - i * sk) * scaling)"
      by (rule fold_add [OF dist]) (use in_grid hit other sk in \<open>auto simp: shrink_comb_def pr_def\<close>)
    also have "(\<Sum>x\<in>pr ` {..<sk}. ?part (snd (snd x) - i * sk) * scaling) = (\<Sum>s<sk. ?part s) * scaling"
      using sum.reindex [OF inj_pr, of "\<lambda>x. ?part (snd (snd x) - i * sk) * scaling"]
      by (simp add: pr_def sum_distrib_right)
    finally show ?thesis using total sk by simp
  qed
qed

lemma expand_launch:
  fixes y0 y1 y2 :: nat
  defines "col \<equiv> \<lambda>i. if i = 1 then y1 else if i = 2 then y2 else y0"
  assumes w: "work_ok W (blk_m A) idx" and pos: "0 < blk_n A" "0 < blk_k A"
    and ev: "even_k A \<longrightarrow> blk_k A dvd k_K A" and inj: "wide_inj A (length idx) wd"
    and sl: "slices_ok col (k_N A) ns wd"
    and ps: "mset ps = mset (grid3 (tile_grid W) (cdiv (k_N A) (blk_n A)) ns)"
  shows "t < length idx \<Longrightarrow> i < ns \<Longrightarrow> c < k_N A \<Longrightarrow>
      fold (tiled_expand_ms_kernel W A to_dtype cast_type add_inputs w1 w2 y0 y1 y2) ps m (out_addr A (col i) t c) =
      (if idx ! t = - 1 then m (out_addr A (col i) t c)
       else to_dtype (\<Sum>k<k_K A. gemm_term A (if cast_type then to_dtype else (\<lambda>x. x)) (slice_woff w1 w2 i)
              (i * k_K A) (idx ! t) t c k) + (if add_inputs then m (out_addr A (col i) t c) else 0))"
    and "(\<And>t i c. t < length idx \<Longrightarrow> i < ns \<Longrightarrow> c < k_N A \<Longrightarrow> a \<noteq> out_addr A (col i) t c) \<Longrightarrow>
      fold (tiled_expand_ms_kernel W A to_dtype cast_type add_inputs w1 w2 y0 y1 y2) ps m a = m a"
proof -
  let ?prog = "tiled_expand_ms_kernel W A to_dtype cast_type add_inputs w1 w2 y0 y1 y2"
  have dist: "distinct ps" using mset_eq_imp_distinct_iff [OF ps] distinct_grid3 by blast
  have grid: "set ps = {..<tile_grid W} \<times> {..<cdiv (k_N A) (blk_n A)} \<times> {..<ns}"
    using mset_eq_setD [OF ps] set_grid3 by metis
  then have sub: "set ps \<subseteq> {..<tile_grid W} \<times> UNIV \<times> {s. s < ns}" by auto
  show "fold ?prog ps m a = m a" if "\<And>t i c. t < length idx \<Longrightarrow> i < ns \<Longrightarrow> c < k_N A \<Longrightarrow> a \<noteq> out_addr A (col i) t c"
    by (rule expand.outside [OF w sub]) (use that in \<open>simp add: col_def\<close>)
  show "fold ?prog ps m (out_addr A (col i) t c) =
      (if idx ! t = - 1 then m (out_addr A (col i) t c)
       else to_dtype (\<Sum>k<k_K A. gemm_term A (if cast_type then to_dtype else (\<lambda>x. x)) (slice_woff w1 w2 i)
              (i * k_K A) (idx ! t) t c k) + (if add_inputs then m (out_addr A (col i) t c) else 0))"
    if t: "t < length idx" and i: "i < ns" and c: "c < k_N A"
  proof (cases "idx ! t = - 1")
    case True
    have "fold ?prog ps m (out_addr A (col i) t c) = m (out_addr A (col i) t c)"
      unfolding col_def by (rule expand.idle [OF w inj sl [unfolded col_def] pos(1) sub t i c True])
    then show ?thesis using True by simp
  next
    case False
    let ?cast = "if cast_type then to_dtype else (\<lambda>x. x)"
    obtain p where p: "p < tile_grid W"
      and hit: "\<And>s m. s = i \<Longrightarrow> ?prog (p, c div blk_n A, s) m (out_addr A (col i) t c) =
        to_dtype (gemm_part A ?cast (slice_woff w1 w2 s) (s * k_K A) (blk_k A) 0 (idx ! t) t c) +
        (if add_inputs then m (out_addr A (col i) t c) else 0)"
      and other: "\<And>p' q s m. p' < tile_grid W \<Longrightarrow> s < ns \<Longrightarrow> \<not> (p' = p \<and> q = c div blk_n A \<and> s = i) \<Longrightarrow>
        ?prog (p', q, s) m (out_addr A (col i) t c) = m (out_addr A (col i) t c)"
      unfolding col_def
      by (rule expand.in_charge [where to_dtype = to_dtype and cast_type = cast_type and add_inputs = add_inputs
          and ?w1.0 = w1 and ?w2.0 = w2, OF w inj sl [unfolded col_def] pos(1) t i c False]) blast
    have "gemm_part A ?cast (slice_woff w1 w2 i) (i * k_K A) (blk_k A) 0 (idx ! t) t c =
        (\<Sum>k<k_K A. gemm_term A ?cast (slice_woff w1 w2 i) (i * k_K A) (idx ! t) t c k)"
      unfolding gemm_part_def by (rule split_k_one [OF pos(2) ev])
    moreover have "fold ?prog ps m (out_addr A (col i) t c) =
        (\<lambda>old. to_dtype (gemm_part A ?cast (slice_woff w1 w2 i) (i * k_K A) (blk_k A) 0 (idx ! t) t c) +
          (if add_inputs then old else 0)) (m (out_addr A (col i) t c))"
    proof (rule fold_one [OF dist])
      show "(p, c div blk_n A, i) \<in> set ps" using p i col_tile(2) [OF pos(1) c] by (simp add: grid)
      show "?prog q' m' (out_addr A (col i) t c) = m' (out_addr A (col i) t c)"
        if "q' \<in> set ps" "q' \<noteq> (p, c div blk_n A, i)" for q' m'
        using that other by (cases q' rule: prod_cases3) (auto simp: grid)
    qed (use hit in simp)
    ultimately show ?thesis using False by simp
  qed
qed

end
