(* ===== verification/GroupedLora.thy ===== *)
theory GroupedLora
  imports Launches
begin

text \<open>
  The grouped LoRA operations of \<^verbatim>\<open>kernel/segmented_punica_wrapper.py\<close>: what
  \<open>SegmentedPunicaWrapper\<close> launches and what the launches compute. The results of the superclass's
  methods and of vLLM's own SGMV kernels are arguments.
\<close>

subsection \<open>Tensors\<close>

text \<open>A matrix in its own memory, and a stack of LoRA matrices in the weights' memory (bytes).\<close>

record tensor =
  t_mem :: mem
  t_rows :: nat
  t_cols :: nat
  t_s0 :: int
  t_s1 :: int

record stacked =
  data_ptr :: int
  str0 :: int
  str1 :: int
  str2 :: int
  str3 :: int
  dim2 :: nat
  dim3 :: nat

definition strides :: "stacked \<Rightarrow> int \<times> int \<times> int \<times> int" where
  "strides t = (str0 t, str1 t, str2 t, str3 t)"

text \<open>
  The wrapper's surroundings: AS_SEGGEMM, AS_SEGGEMM_MIN_TOKENS, AS_TILE_BM, \<open>is_prefill\<close>, the weights'
  memory, their element size and the conversion to their element type.
\<close>

record lora_env =
  e_mode :: int
  e_min_tokens :: nat
  e_block_m :: nat
  e_prefill :: bool
  e_weights :: "int \<Rightarrow> real"
  e_esz :: int
  e_dtype :: "real \<Rightarrow> real"

definition weight_mem :: "lora_env \<Rightarrow> stacked \<Rightarrow> mem" where
  "weight_mem E w = (\<lambda>o'. e_weights E (data_ptr w + o' * e_esz E))"

definition gemm_args :: "lora_env \<Rightarrow> mem \<Rightarrow> stacked \<Rightarrow> nat \<Rightarrow> nat \<Rightarrow> int \<Rightarrow> int \<Rightarrow> int \<Rightarrow> int \<Rightarrow> nat \<Rightarrow> nat \<Rightarrow> nat \<Rightarrow> kernel" where
  "gemm_args E x w N K xs0 xs1 ys0 ys1 bn bk step = \<lparr>k_x = x, k_w = weight_mem E w, k_N = N, k_K = K,
     xm_stride = xs0, xk_stride = xs1, l0_stride = str0 w, lora_k_stride = str2 w, lora_n_stride = str3 w,
     cm_stride = ys0, cn_stride = ys1, blk_m = e_block_m E, blk_n = bn, blk_k = bk, even_k = (K mod step = 0)\<rparr>"

subsection \<open>Decode steps\<close>

definition shrink_decode ::
  "lora_env \<Rightarrow> wrapper \<Rightarrow> ((nat \<times> nat \<times> nat) list \<Rightarrow> (nat \<times> nat \<times> nat) list) \<Rightarrow> mem \<Rightarrow> mem \<Rightarrow>
   tensor \<Rightarrow> tensor \<Rightarrow> stacked \<Rightarrow> real \<Rightarrow> mem" where
  "shrink_decode E W order super sgmv y x w scale =
     (if \<not> use_grouped (e_min_tokens E) (e_prefill E) (t_rows x) then super
      else if seg_start W = [] then super
      else let N = dim2 w in
        if e_mode E \<ge> 2 then
          (let (bn, bk, sk, nw) = tiled_shrink_cfg N
           in launch order
                (tiled_shrink_kernel W (gemm_args E (t_mem x) w N (t_cols x) (t_s0 x) (t_s1 x) (t_s0 y) (t_s1 y) bn bk (bk * sk))
                  sk scale)
                (grid3 (tile_grid W) (cdiv N bn) sk) (t_mem y))
        else sgmv)"

definition expand_slice_decode ::
  "lora_env \<Rightarrow> wrapper \<Rightarrow> ((nat \<times> nat) list \<Rightarrow> (nat \<times> nat) list) \<Rightarrow> mem \<Rightarrow> mem \<Rightarrow> bool \<Rightarrow>
   tensor \<Rightarrow> tensor \<Rightarrow> stacked \<Rightarrow> nat \<Rightarrow> nat \<Rightarrow> bool \<Rightarrow> mem" where
  "expand_slice_decode E W order super sgmv cast_type y x w y_offset y_slice_size add_input =
     (if \<not> use_grouped (e_min_tokens E) (e_prefill E) (t_rows x) then super
      else if seg_start W = [] then super
      else let K = t_cols x; N = y_slice_size in
        if e_mode E \<ge> 2 then
          (let (bn, bk, nw) = tiled_expand_cfg K
           in launch order
                (tiled_expand_slice_kernel W (gemm_args E (t_mem x) w N K (t_s0 x) (t_s1 x) (t_s0 y) (t_s1 y) bn bk bk)
                  (e_dtype E) cast_type add_input y_offset)
                (grid2 (tile_grid W) (cdiv N bn)) (t_mem y))
        else sgmv)"

definition expand_decode ::
  "lora_env \<Rightarrow> wrapper \<Rightarrow> ((nat \<times> nat) list \<Rightarrow> (nat \<times> nat) list) \<Rightarrow> mem \<Rightarrow> mem \<Rightarrow> bool \<Rightarrow>
   tensor \<Rightarrow> tensor \<Rightarrow> stacked \<Rightarrow> bool \<Rightarrow> mem" where
  "expand_decode E W order super sgmv cast_type y x w add_input =
     expand_slice_decode E W order super sgmv cast_type y x w 0 (dim2 w) add_input"

subsection \<open>Packed projections\<close>

text \<open>The two launches of a packed projection: shrink into a buffer, expand into the output.\<close>

definition shrink_packed ::
  "lora_env \<Rightarrow> wrapper \<Rightarrow> ((nat \<times> nat \<times> nat) list \<Rightarrow> (nat \<times> nat \<times> nat) list) \<Rightarrow> nat \<Rightarrow> nat \<Rightarrow> nat \<times> nat \<times> nat \<Rightarrow>
   tensor \<Rightarrow> stacked \<Rightarrow> real \<Rightarrow> int list \<Rightarrow> mem \<Rightarrow> mem" where
  "shrink_packed E W order ns r cfg x a0 scale wa buf =
     (let (bn, bk, sk) = cfg in launch order
        (tiled_shrink_ms_kernel W
          (gemm_args E (t_mem x) a0 r (t_cols x) (t_s0 x) (t_s1 x) (int (ns * r)) 1 bn bk (bk * sk))
          sk scale (wa ! 1) (wa ! 2))
        (grid3 (tile_grid W) (cdiv r bn) (ns * sk)) buf)"

definition expand_packed ::
  "lora_env \<Rightarrow> wrapper \<Rightarrow> ((nat \<times> nat \<times> nat) list \<Rightarrow> (nat \<times> nat \<times> nat) list) \<Rightarrow> nat \<Rightarrow> nat \<Rightarrow> nat \<Rightarrow>
   mem \<Rightarrow> stacked \<Rightarrow> int list \<Rightarrow> tensor \<Rightarrow> mem" where
  "expand_packed E W order ns r n_out buf b0 wb y =
     (let (bn2, bk2, nw2) = tiled_expand_cfg r;
          yo = map (\<lambda>i. i * n_out) [0..<ns] @ replicate (3 - ns) 0
      in launch order
           (tiled_expand_ms_kernel W
             (gemm_args E buf b0 n_out r (int (ns * r)) 1 (t_s0 y) (t_s1 y) bn2 bk2 bk2)
             (e_dtype E) True True (wb ! 1) (wb ! 2) (yo ! 0) (yo ! 1) (yo ! 2))
           (grid3 (tile_grid W) (cdiv n_out bn2) ns) (t_mem y))"

text \<open>
  \<open>fresh_mem\<close> is what \<open>torch.empty\<close> happens to hold. The views \<open>x2\<close> and \<open>y2\<close> are the matrices passed in.
\<close>

definition add_lora_packed_nslice ::
  "lora_env \<Rightarrow> wrapper \<Rightarrow> ((nat \<times> nat \<times> nat) list \<Rightarrow> (nat \<times> nat \<times> nat) list) \<Rightarrow>
   ((nat \<times> nat \<times> nat) list \<Rightarrow> (nat \<times> nat \<times> nat) list) \<Rightarrow> mem \<Rightarrow> mem \<Rightarrow>
   tensor \<Rightarrow> tensor \<Rightarrow> stacked list \<Rightarrow> stacked list \<Rightarrow> real \<Rightarrow> nat list \<Rightarrow> py_error + mem" where
  "add_lora_packed_nslice E W order1 order2 fresh_mem super y x as bs scale output_slices =
     (case (as, bs) of
        (a0 # _, b0 # _) \<Rightarrow>
          if \<not> use_multislice (e_mode E) (e_min_tokens E) (e_prefill E) (t_rows x) W \<or> seg_start W = [] \<or>
             \<not> (1 \<le> length output_slices \<and> length output_slices \<le> 3) \<or> card (set output_slices) \<noteq> 1 \<or>
             list_ex (\<lambda>t. strides t \<noteq> strides a0) as \<or> list_ex (\<lambda>t. strides t \<noteq> strides b0) bs
          then Inr super
          else let ns = length output_slices; r = dim3 b0; n_out = hd output_slices in
            (case slice_offsets (e_esz E) (map data_ptr as) of
               Inl e \<Rightarrow> Inl e
             | Inr wa \<Rightarrow>
                 (case slice_offsets (e_esz E) (map data_ptr bs) of
                    Inl e \<Rightarrow> Inl e
                  | Inr wb \<Rightarrow>
                      (let (bn, bk, sk0, nw) = tiled_shrink_cfg r;
                           sk = (if e_prefill E then 1 else sk0);
                           buf = shrink_packed E W order1 ns r (bn, bk, sk) x a0 scale wa
                             (if sk > 1 then (\<lambda>_. 0) else fresh_mem)
                       in Inr (expand_packed E W order2 ns r n_out buf b0 wb y))))
      | _ \<Rightarrow> Inl IndexError)"

text \<open>\<open>buffer_given\<close>: the caller passed its own buffer.\<close>

definition add_lora ::
  "lora_env \<Rightarrow> wrapper \<Rightarrow> ((nat \<times> nat \<times> nat) list \<Rightarrow> (nat \<times> nat \<times> nat) list) \<Rightarrow>
   ((nat \<times> nat \<times> nat) list \<Rightarrow> (nat \<times> nat \<times> nat) list) \<Rightarrow> mem \<Rightarrow> mem \<Rightarrow> mem \<Rightarrow>
   tensor \<Rightarrow> tensor \<Rightarrow> stacked \<Rightarrow> stacked \<Rightarrow> real \<Rightarrow> nat option \<Rightarrow> nat option \<Rightarrow> bool \<Rightarrow> py_error + mem" where
  "add_lora E W order1 order2 fresh_mem super_packed super y x wa wb scale y_offset y_slice_size buffer_given =
     (if (y_offset = None \<or> y_offset = Some 0) \<and> \<not> buffer_given \<and>
         (y_slice_size = None \<or> y_slice_size = Some (dim2 wb)) \<and>
         use_multislice (e_mode E) (e_min_tokens E) (e_prefill E) (t_rows x) W
      then add_lora_packed_nslice E W order1 order2 fresh_mem super_packed y x [wa] [wb] scale [dim2 wb]
      else Inr super)"

text \<open>\<open>install_segmented_punica_wrapper\<close>: the shared wrapper object and whether it was replaced.\<close>

record punica =
  is_segmented :: bool
  seg_cap :: int
  seg_dirty :: bool

definition install_segmented_punica_wrapper ::
  "bool \<Rightarrow> punica option option \<Rightarrow> bool \<times> punica option option" where
  "install_segmented_punica_wrapper available adapter_manager =
     (if \<not> available then (False, adapter_manager)
      else case adapter_manager of
        None \<Rightarrow> (False, adapter_manager)
      | Some None \<Rightarrow> (False, adapter_manager)
      | Some (Some pw) \<Rightarrow>
          if is_segmented pw then (False, adapter_manager)
          else (True, Some (Some \<lparr>is_segmented = True, seg_cap = - 1, seg_dirty = True\<rparr>)))"

text \<open>\<open>DirectPrefillMixin\<close>: the three prefill calls; \<open>sgmv\<close> is the result of vLLM's function.\<close>

definition direct_prefill :: "bool \<Rightarrow> mem \<Rightarrow> mem \<Rightarrow> mem" where
  "direct_prefill no_lora sgmv y = (if no_lora then y else sgmv)"

subsection \<open>The work list of every step\<close>

lemma length_runs: "length (runs xs) = length (remdups_adj xs)"
  by (metis length_map map_hd_runs)

lemma runs_map: "length (runs (map f xs)) \<le> length (runs xs)"
  unfolding length_runs
proof (induction xs rule: remdups_adj.induct)
  case (3 x y xs)
  then show ?case by (cases "x = y") auto
qed simp_all

lemma host_runs: "ids \<noteq> [] \<Longrightarrow> count_runs ids = length (runs ids)"
  unfolding length_runs count_runs_def
proof (induction ids rule: remdups_adj.induct)
  case (3 x y xs)
  then show ?case by (cases "x = y") auto
qed simp_all

text \<open>
  \<open>ids\<close> is the host mapping of the step and \<open>idx\<close> the device tensor filled from it. For a prefill
  step the code checks the bounds itself.
\<close>

definition step_fits :: "bool \<Rightarrow> int list \<Rightarrow> int list \<Rightarrow> nat \<Rightarrow> bool" where
  "step_fits is_prefill ids idx max_loras \<longleftrightarrow>
     0 < max_loras \<and> idx \<noteq> [] \<and> (\<exists>f. idx = map f ids) \<and>
     (is_prefill \<or> length (runs idx) \<le> max_loras \<and> length idx \<le> tile_map_tokens)"

lemma step_work_ok:
  assumes T: "torch_ok T" and fits: "step_fits pre ids idx max_loras" and bm: "0 < bm"
    and W: "W = update_metadata T mode grouped bm pre ids idx max_loras w"
    and on: "if pre then prefill_ok W else 2 \<le> mode"
  shows "work_ok W bm idx" and "seg_start W \<noteq> []"
proof -
  define V where "V = set_tiles T bm max_loras (length idx) (set_segments T max_loras idx (w\<lparr>prefill_ok := False\<rparr>))"
  have eq: "W = V\<lparr>prefill_ok := pre\<rparr> \<and> length (runs idx) \<le> max_loras \<and> length idx \<le> tile_map_tokens"
  proof (cases pre)
    case True
    then have guard: "mode = 3 \<and> grouped \<and> 0 < length ids \<and> length ids \<le> tile_map_tokens \<and> count_runs ids \<le> max_loras"
      using on W by (auto simp: update_metadata_def Let_def split: if_splits)
    then have "length (runs idx) \<le> max_loras" "length idx \<le> tile_map_tokens"
      using fits runs_map host_runs [of ids] by (auto simp: step_fits_def intro: le_trans)
    then show ?thesis using True guard W by (simp add: update_metadata_def V_def)
  next
    case False
    have "prefill_ok V = False" by (simp add: V_def set_tiles_def set_segments_def Let_def split: prod.splits)
    then have "V\<lparr>prefill_ok := False\<rparr> = V" by simp
    then show ?thesis using False on W fits by (simp add: update_metadata_def V_def step_fits_def)
  qed
  have "work_ok V bm idx"
    by (rule refreshed_work_ok [OF T _ _ _ bm _ V_def]) (use eq fits in \<open>auto simp: step_fits_def\<close>)
  moreover have "work_item W bm = work_item V bm" "tile_grid W = tile_grid V"
    using eq by (simp_all add: work_item_def fun_eq_iff Let_def)
  ultimately show "work_ok W bm idx" by (simp only: work_ok_def)
  obtain st lens lo where r: "refresh_segments T max_loras idx = (st, lens, lo)" by (metis prod_cases3)
  have "length st = max_loras"
    by (rule refresh_slots(5) [OF T _ _ r, of 0]) (use fits in \<open>auto simp: step_fits_def\<close>)
  moreover have "seg_start W = st"
    using eq r by (simp add: V_def set_tiles_def set_segments_def Let_def split: prod.splits)
  ultimately show "seg_start W \<noteq> []" using fits by (auto simp: step_fits_def)
qed

subsection \<open>What is computed\<close>

text \<open>Entry of a matrix, entry of one adapter's matrix, and one output of LoRA for a token.\<close>

definition x_at :: "tensor \<Rightarrow> nat \<Rightarrow> nat \<Rightarrow> real" where
  "x_at x t k = t_mem x (int t * t_s0 x + int k * t_s1 x)"

definition w_at :: "lora_env \<Rightarrow> stacked \<Rightarrow> int \<Rightarrow> nat \<Rightarrow> nat \<Rightarrow> real" where
  "w_at E w l j k = e_weights E (data_ptr w + (l * str0 w + int j * str2 w + int k * str3 w) * e_esz E)"

definition lora_out ::
  "lora_env \<Rightarrow> (real \<Rightarrow> real) \<Rightarrow> nat \<Rightarrow> tensor \<Rightarrow> stacked \<Rightarrow> stacked \<Rightarrow> real \<Rightarrow> int \<Rightarrow> nat \<Rightarrow> nat \<Rightarrow> real" where
  "lora_out E cast r x a b scale l t c = e_dtype E (\<Sum>j<r.
     cast ((\<Sum>k<t_cols x. x_at x t k * w_at E a l j k) * scale) * w_at E b l c j)"

lemma cfg_pos:
  assumes "tiled_shrink_cfg r = (bn, bk, sk, nw)"
  shows "0 < bn" "0 < bk" "0 < sk"
  using assms by (auto simp: tiled_shrink_cfg_def split: if_splits)

lemma expand_cfg_pos:
  assumes "tiled_expand_cfg r = (bn, bk, nw)" and "0 < r"
  shows "0 < bn" "0 < bk"
  using assms by (auto simp: tiled_expand_cfg_def split: if_splits)

lemma gemm_args_simps [simp]:
  "k_N (gemm_args E x w N K a b c d bn bk step) = N" "k_K (gemm_args E x w N K a b c d bn bk step) = K"
  "blk_m (gemm_args E x w N K a b c d bn bk step) = e_block_m E" "blk_n (gemm_args E x w N K a b c d bn bk step) = bn"
  "blk_k (gemm_args E x w N K a b c d bn bk step) = bk"
  "cm_stride (gemm_args E x w N K a b c d bn bk step) = c" "cn_stride (gemm_args E x w N K a b c d bn bk step) = d"
  by (simp_all add: gemm_args_def)

lemma even_dvd: "even_k (gemm_args E x w N K a b c d bn bk step) \<longrightarrow> step dvd K"
  by (simp add: gemm_args_def mod_eq_0_iff_dvd)

lemma out_addr_args: "out_addr (gemm_args E x w N K a b ys0 ys1 bn bk step) col t c = int t * ys0 + int (c + col) * ys1"
  by (simp add: out_addr_def gemm_args_def)

text \<open>A term of a product, for the slice whose weights start \<open>woff\<close> elements after the base.\<close>

lemma gemm_term_args:
  assumes "data_ptr w' = data_ptr w + woff * e_esz E" and "strides w' = strides w"
  shows "gemm_term (gemm_args E x w N K xs0 xs1 c d bn bk step) cast woff kcol l t j k =
    cast (x (int t * xs0 + int (k + kcol) * xs1)) * w_at E w' l j k"
proof -
  have "(woff + str0 w * l + int j * str2 w + int k * str3 w) * e_esz E =
      woff * e_esz E + (l * str0 w' + int j * str2 w' + int k * str3 w') * e_esz E"
    using assms(2) by (simp add: strides_def algebra_simps)
  then show ?thesis using assms(1) by (simp add: gemm_term_def gemm_args_def weight_mem_def w_at_def add.assoc)
qed

text \<open>The two launches, one after the other, for slice \<open>i\<close>; the buffer is row-major.\<close>

lemma shrink_then_expand:
  assumes w: "work_ok W (e_block_m E) idx" and r: "0 < r"
    and s1: "mset ps1 = mset (grid3 (tile_grid W) (cdiv r bn) (ns * sk))"
    and c1: "0 < bn" "0 < bk" "0 < sk" and b0: "sk \<noteq> 1 \<Longrightarrow> b0 = (\<lambda>_. 0)"
    and s2: "mset ps2 = mset (grid3 (tile_grid W) (cdiv n bn2) ns)" and c2: "0 < bn2" "0 < bk2"
    and buf: "buf = fold (tiled_shrink_ms_kernel W
      (gemm_args E (t_mem x) a r (t_cols x) (t_s0 x) (t_s1 x) (int (ns * r)) 1 bn bk (bk * sk)) sk scale u1 u2) ps1 b0"
    and y': "y' = fold (tiled_expand_ms_kernel W
      (gemm_args E buf b n r (int (ns * r)) 1 (t_s0 y) (t_s1 y) bn2 bk2 bk2) (e_dtype E) cast_type True v1 v2 y0 y1 y2)
      ps2 (t_mem y)"
    and col: "col = (\<lambda>i. if i = 1 then y1 else if i = 2 then y2 else y0)"
    and sl: "slices_ok col n ns wd"
    and inj: "inj_on (\<lambda>(t, c). int t * t_s0 y + int c * t_s1 y) ({..<length idx} \<times> {..<wd})"
  shows "t < length idx \<Longrightarrow> i < ns \<Longrightarrow> c < n \<Longrightarrow>
      data_ptr ai = data_ptr a + slice_woff u1 u2 i * e_esz E \<Longrightarrow> strides ai = strides a \<Longrightarrow>
      data_ptr bi = data_ptr b + slice_woff v1 v2 i * e_esz E \<Longrightarrow> strides bi = strides b \<Longrightarrow>
      y' (int t * t_s0 y + int (c + col i) * t_s1 y) = t_mem y (int t * t_s0 y + int (c + col i) * t_s1 y) +
        (if idx ! t = - 1 then 0
         else lora_out E (if cast_type then e_dtype E else (\<lambda>x. x)) r x ai bi scale (idx ! t) t c)"
    and "(\<And>t i c. t < length idx \<Longrightarrow> i < ns \<Longrightarrow> c < n \<Longrightarrow> p \<noteq> int t * t_s0 y + int (c + col i) * t_s1 y) \<Longrightarrow>
      y' p = t_mem y p"
proof -
  let ?A = "gemm_args E (t_mem x) a r (t_cols x) (t_s0 x) (t_s1 x) (int (ns * r)) 1 bn bk (bk * sk)"
  let ?B = "gemm_args E buf b n r (int (ns * r)) 1 (t_s0 y) (t_s1 y) bn2 bk2 bk2"
  let ?cast = "if cast_type then e_dtype E else (\<lambda>x. x)"
  have injB: "wide_inj ?B (length idx) wd" using inj by (simp add: wide_inj_def)
  have injA: "wide_inj ?A (length idx) (ns * r)" by (rule row_major_inj) simp_all
  note ex = expand_launch [where A = ?B and W = W and idx = idx and ?y0.0 = y0 and ?y1.0 = y1 and ?y2.0 = y2 and ns = ns
      and wd = wd and ps = ps2 and to_dtype = "e_dtype E" and cast_type = cast_type and add_inputs = True
      and ?w1.0 = v1 and ?w2.0 = v2 and m = "t_mem y", unfolded gemm_args_simps,
      OF w c2 even_dvd injB sl [unfolded col] s2, folded y', unfolded out_addr_args]
  show "y' p = t_mem y p"
    if "\<And>t i c. t < length idx \<Longrightarrow> i < ns \<Longrightarrow> c < n \<Longrightarrow> p \<noteq> int t * t_s0 y + int (c + col i) * t_s1 y"
    by (rule ex(2)) (use that in \<open>simp add: col\<close>)
  assume t: "t < length idx" and i: "i < ns" and c: "c < n"
    and ai: "data_ptr ai = data_ptr a + slice_woff u1 u2 i * e_esz E" "strides ai = strides a"
    and bi: "data_ptr bi = data_ptr b + slice_woff v1 v2 i * e_esz E" "strides bi = strides b"
  have "gemm_term ?B ?cast (slice_woff v1 v2 i) (i * r) (idx ! t) t c j =
      ?cast ((\<Sum>k<t_cols x. x_at x t k * w_at E ai (idx ! t) j k) * scale) * w_at E bi (idx ! t) c j"
    if j: "j < r" and l: "idx ! t \<noteq> - 1" for j
  proof -
    have "buf (int t * int (ns * r) + int (j + i * r) * 1) =
        (if sk = 1 then 0 else b0 (int t * int (ns * r) + int (j + i * r) * 1)) +
        (\<Sum>k<t_cols x. gemm_term ?A (\<lambda>x. x) (slice_woff u1 u2 i) 0 (idx ! t) t j k) * scale"
      unfolding buf
      by (rule shrink_launch [where A = ?A and W = W and idx = idx and ps = ps1 and ns = ns, unfolded gemm_args_simps out_addr_args,
            OF w c1 even_dvd injA s1 t i j l])
    then show ?thesis unfolding gemm_term_args [OF bi] gemm_term_args [OF ai] using b0 by (simp add: x_at_def)
  qed
  then show "y' (int t * t_s0 y + int (c + col i) * t_s1 y) = t_mem y (int t * t_s0 y + int (c + col i) * t_s1 y) +
        (if idx ! t = - 1 then 0 else lora_out E ?cast r x ai bi scale (idx ! t) t c)"
    using ex(1) [OF t i c, folded fun_cong [OF col, of i]] by (simp add: lora_out_def)
qed

subsection \<open>Weight slices\<close>

lemma slice_diffs_spec:
  assumes "0 < esz" and "list_all (\<lambda>p. (p - base) mod esz = 0) ps"
  shows "slice_diffs base esz ps = Inr (map (\<lambda>p. (p - base) div esz) ps)"
  using assms(2) by (induction ps) simp_all

lemma slice_offsets_spec:
  assumes "0 < esz" and "ps \<noteq> []" and "length ps \<le> 3" and "list_all (\<lambda>p. (p - hd ps) mod esz = 0) ps"
  obtains offs where "slice_offsets esz ps = Inr offs"
    "\<And>i. i < length ps \<Longrightarrow> ps ! i = hd ps + slice_woff (offs ! 1) (offs ! 2) i * esz"
proof -
  define offs where "offs = map (\<lambda>p. (p - hd ps) div esz) ps @ replicate (3 - length ps) 0"
  have "slice_offsets esz ps = Inr offs"
    using assms(2) slice_diffs_spec [OF assms(1,4)] by (cases ps) (simp_all add: slice_offsets_def offs_def)
  moreover have "ps ! i = hd ps + slice_woff (offs ! 1) (offs ! 2) i * esz" if i: "i < length ps" for i
  proof (cases "i = 0")
    case True
    then show ?thesis using assms(2) by (simp add: slice_woff_def hd_conv_nth)
  next
    case False
    then have "i = 1 \<or> i = 2" using i assms(3) by linarith
    then have "slice_woff (offs ! 1) (offs ! 2) i = offs ! i" by (auto simp: slice_woff_def)
    moreover have "(ps ! i - hd ps) mod esz = 0" using assms(4) i by (simp add: list_all_iff)
    then have "(ps ! i - hd ps) div esz * esz = ps ! i - hd ps" by (simp add: mod_0_imp_dvd)
    ultimately show ?thesis using i by (simp add: offs_def nth_append)
  qed
  ultimately show thesis by (rule that)
qed

lemma stacked_offsets:
  assumes "0 < esz" and "as \<noteq> []" and "length as \<le> 3"
    and "list_all (\<lambda>a. strides a = strides (hd as) \<and> (data_ptr a - data_ptr (hd as)) mod esz = 0) as"
  obtains offs where "slice_offsets esz (map data_ptr as) = Inr offs"
    "\<And>i. i < length as \<Longrightarrow> data_ptr (as ! i) = data_ptr (hd as) + slice_woff (offs ! 1) (offs ! 2) i * esz"
proof -
  have "list_all (\<lambda>p. (p - hd (map data_ptr as)) mod esz = 0) (map data_ptr as)"
    using assms(2,4) by (simp add: list_all_iff hd_map)
  from slice_offsets_spec [OF assms(1) _ _ this] assms(2,3) obtain offs where
    "slice_offsets esz (map data_ptr as) = Inr offs"
    "\<And>i. i < length as \<Longrightarrow> map data_ptr as ! i = hd (map data_ptr as) + slice_woff (offs ! 1) (offs ! 2) i * esz"
    by auto
  then show thesis using that assms(2) by (simp add: hd_map)
qed

lemma slices_cong:
  assumes "slices_ok col N ns w" and "\<And>i. i < ns \<Longrightarrow> col' i = col i"
  shows "slices_ok col' N ns w"
  using assms unfolding slices_ok_def by simp

text \<open>The two kernels of one slice are the packed kernels with one slice.\<close>

lemma shrink_single:
  assumes "x \<in> set (grid3 a b sk)"
  shows "tiled_shrink_kernel W A sk scaling x = tiled_shrink_ms_kernel W A sk scaling w1 w2 x"
  using assms by (auto simp: set_grid3 tiled_shrink_kernel_def tiled_shrink_ms_kernel_def slice_woff_def)

lemma fold_on: "(\<And>x. x \<in> set xs \<Longrightarrow> f x = g x) \<Longrightarrow> fold f xs = fold g xs"
  by (induction xs) auto

lemma expand_single:
  "fold (tiled_expand_slice_kernel W A to_dtype cast_type add_inputs y0) ps =
   fold (tiled_expand_ms_kernel W A to_dtype cast_type add_inputs w1 w2 y0 y1 y2) (map (\<lambda>(p, q). (p, q, 0)) ps)"
proof (induction ps)
  case (Cons p ps)
  then show ?case
    by (cases p) (simp add: tiled_expand_slice_kernel_def tiled_expand_ms_kernel_def slice_woff_def Let_def)
qed simp

lemma mset_grid2: "mset (map (\<lambda>(p, q). (p, q, 0)) (grid2 a b)) = mset (grid3 a b 1)"
proof -
  have "map (\<lambda>(p, q). (p, q, 0)) (grid2 a b) = grid3 a b 1"
    by (simp add: grid2_def grid3_def product_concat_map map_concat o_def concat_map_singleton)
  then show ?thesis by simp
qed

subsection \<open>Grouped LoRA is LoRA\<close>

lemma packed_run:
  assumes "use_multislice (e_mode E) (e_min_tokens E) (e_prefill E) (t_rows x) W" and "seg_start W \<noteq> []"
    and "1 \<le> ns" and "ns \<le> 3" and "list_all (\<lambda>a. strides a = strides a0) (a0 # as)"
    and "list_all (\<lambda>b. strides b = strides b0) (b0 # bs)"
    and "slice_offsets (e_esz E) (map data_ptr (a0 # as)) = Inr wa" and "slice_offsets (e_esz E) (map data_ptr (b0 # bs)) = Inr wb"
    and "tiled_shrink_cfg (dim3 b0) = (bn, bk, sk0, nw)" and "sk = (if e_prefill E then 1 else sk0)"
  shows "add_lora_packed_nslice E W order1 order2 fresh_mem super y x (a0 # as) (b0 # bs) scale (replicate ns n_out) =
    Inr (expand_packed E W order2 ns (dim3 b0) n_out (shrink_packed E W order1 ns (dim3 b0) (bn, bk, sk) x a0 scale wa
      (if sk > 1 then (\<lambda>_. 0) else fresh_mem)) b0 wb y)"
proof -
  have "\<not> (\<not> use_multislice (e_mode E) (e_min_tokens E) (e_prefill E) (t_rows x) W \<or> seg_start W = [] \<or>
      \<not> (1 \<le> ns \<and> ns \<le> 3) \<or> card (set (replicate ns n_out)) \<noteq> 1 \<or>
      list_ex (\<lambda>t. strides t \<noteq> strides a0) (a0 # as) \<or> list_ex (\<lambda>t. strides t \<noteq> strides b0) (b0 # bs))"
    using assms(1-6) by (auto simp: list_ex_iff list_all_iff)
  moreover have "hd (replicate ns n_out) = n_out" using assms(3) by simp
  ultimately show ?thesis
    unfolding add_lora_packed_nslice_def
    by (simp only: list.case prod.case if_False Let_def length_replicate assms(7-10) sum.case)
qed

text \<open>What the two launches compute together, slice by slice.\<close>

lemma packed_launches:
  assumes w: "work_ok W (e_block_m E) idx" and r: "0 < r" and ns: "ns \<le> 3"
    and cfg: "tiled_shrink_cfg r = (bn, bk, sk0, nw)" and sk: "sk = (if e_prefill E then 1 else sk0)"
    and inj: "inj_on (\<lambda>(t, c). int t * t_s0 y + int c * t_s1 y) ({..<length idx} \<times> {..<ns * n_out})"
    and o1: "\<And>g. mset (order1 g) = mset g" and o2: "\<And>g. mset (order2 g) = mset g"
    and y': "y' = expand_packed E W order2 ns r n_out (shrink_packed E W order1 ns r (bn, bk, sk) x a0 scale wa
      (if sk > 1 then (\<lambda>_. 0) else fresh_mem)) b0 wb y"
  shows "t < length idx \<Longrightarrow> i < ns \<Longrightarrow> c < n_out \<Longrightarrow>
      data_ptr ai = data_ptr a0 + slice_woff (wa ! 1) (wa ! 2) i * e_esz E \<Longrightarrow> strides ai = strides a0 \<Longrightarrow>
      data_ptr bi = data_ptr b0 + slice_woff (wb ! 1) (wb ! 2) i * e_esz E \<Longrightarrow> strides bi = strides b0 \<Longrightarrow>
      y' (int t * t_s0 y + int (c + i * n_out) * t_s1 y) = t_mem y (int t * t_s0 y + int (c + i * n_out) * t_s1 y) +
        (if idx ! t = - 1 then 0 else lora_out E (e_dtype E) r x ai bi scale (idx ! t) t c)"
    and "\<forall>t<length idx. \<forall>c<ns * n_out. p \<noteq> int t * t_s0 y + int c * t_s1 y \<Longrightarrow> y' p = t_mem y p"
proof -
  obtain bn2 bk2 nw2 where cfg2: "tiled_expand_cfg r = (bn2, bk2, nw2)" by (metis prod_cases3)
  define yo where "yo = map (\<lambda>i. i * n_out) [0..<ns] @ replicate (3 - ns) 0"
  define buf0 where "buf0 = (if sk > 1 then (\<lambda>_. 0) else fresh_mem)"
  define buf where "buf = shrink_packed E W order1 ns r (bn, bk, sk) x a0 scale wa buf0"
  define col :: "nat \<Rightarrow> nat" where "col = (\<lambda>i. if i = 1 then yo ! 1 else if i = 2 then yo ! 2 else yo ! 0)"
  have col: "col i = i * n_out" if "i < ns" for i
    using that ns by (auto simp: col_def yo_def nth_append)
  have sk_pos: "0 < sk" "sk \<noteq> 1 \<Longrightarrow> buf0 = (\<lambda>_. 0)" using cfg_pos(3) [OF cfg] by (auto simp: sk buf0_def)
  note b = buf_def [unfolded shrink_packed_def launch_def prod.case Let_def]
  note y = y' [folded buf0_def, folded buf_def, unfolded expand_packed_def cfg2 launch_def prod.case Let_def, folded yo_def]
  note main = shrink_then_expand [OF w r o1 cfg_pos(1,2) [OF cfg] sk_pos o2 expand_cfg_pos [OF cfg2 r] b y
      col_def slices_cong [OF slices_in_order col] inj]
  show "t < length idx \<Longrightarrow> i < ns \<Longrightarrow> c < n_out \<Longrightarrow>
      data_ptr ai = data_ptr a0 + slice_woff (wa ! 1) (wa ! 2) i * e_esz E \<Longrightarrow> strides ai = strides a0 \<Longrightarrow>
      data_ptr bi = data_ptr b0 + slice_woff (wb ! 1) (wb ! 2) i * e_esz E \<Longrightarrow> strides bi = strides b0 \<Longrightarrow>
      y' (int t * t_s0 y + int (c + i * n_out) * t_s1 y) = t_mem y (int t * t_s0 y + int (c + i * n_out) * t_s1 y) +
        (if idx ! t = - 1 then 0 else lora_out E (e_dtype E) r x ai bi scale (idx ! t) t c)"
    using main(1) [of t i c ai bi] col by simp
  assume p: "\<forall>t<length idx. \<forall>c<ns * n_out. p \<noteq> int t * t_s0 y + int c * t_s1 y"
  show "y' p = t_mem y p"
  proof (rule main(2))
    fix t i c assume h: "t < length idx" "i < ns" "c < n_out"
    have "c + i * n_out < Suc i * n_out" using h(3) by simp
    also have "\<dots> \<le> ns * n_out" using h(2) by (intro mult_le_mono1) simp
    finally have "p \<noteq> int t * t_s0 y + int (c + i * n_out) * t_s1 y" using p h(1) by blast
    then show "p \<noteq> int t * t_s0 y + int (c + col i) * t_s1 y" unfolding col [OF h(2)] .
  qed
qed

text \<open>C5: A packed projection (one to three slices) is exact on the grouped path: whatever the order
  in which the programs run, whatever \<open>torch.empty\<close> held and however the adapters' runs are cut
  into tiles, each token's output slice \<open>i\<close> gains the LoRA product of the token with its own adapter's
  slice-\<open>i\<close> matrices, a token without an adapter gains nothing, and nothing else is written. This
  holds for every prefill step the mode serves (it serves none that has more runs or tokens than the
  metadata holds), and for every decode step that fits: at most \<open>max_loras\<close> runs of equal adapter slots in at most 8192 tokens. The decode path does
  not check that condition (it clamps the number of runs), and a step that breaks it is served wrongly.
  The layer has one to three stacked weights of equal strides whose addresses differ by whole elements,
  positive rank, and output elements at distinct addresses.\<close>

theorem packed_lora_is_exact:
  assumes "torch_ok T" and "step_fits (e_prefill E) ids idx max_loras" and "0 < e_block_m E" and "0 < e_esz E"
    and "W = update_metadata T (e_mode E) grouped (e_block_m E) (e_prefill E) ids idx max_loras w"
    and "use_multislice (e_mode E) (e_min_tokens E) (e_prefill E) (t_rows x) W"
    and "1 \<le> ns" and "ns \<le> 3" and "length as = ns" and "length bs = ns" and "0 < dim3 (hd bs)"
    and "list_all (\<lambda>a. strides a = strides (hd as) \<and> (data_ptr a - data_ptr (hd as)) mod e_esz E = 0) as"
    and "list_all (\<lambda>b. strides b = strides (hd bs) \<and> (data_ptr b - data_ptr (hd bs)) mod e_esz E = 0) bs"
    and "inj_on (\<lambda>(t, c). int t * t_s0 y + int c * t_s1 y) ({..<length idx} \<times> {..<ns * n_out})"
    and "\<And>g. mset (order1 g) = mset g" and "\<And>g. mset (order2 g) = mset g"
  shows "\<exists>y'. add_lora_packed_nslice E W order1 order2 fresh_mem super y x as bs scale (replicate ns n_out) = Inr y' \<and>
    (\<forall>t<length idx. \<forall>i<ns. \<forall>c<n_out.
      y' (int t * t_s0 y + int (c + i * n_out) * t_s1 y) = t_mem y (int t * t_s0 y + int (c + i * n_out) * t_s1 y) +
        (if idx ! t = - 1 then 0
         else lora_out E (e_dtype E) (dim3 (hd bs)) x (as ! i) (bs ! i) scale (idx ! t) t c)) \<and>
    (\<forall>p. (\<forall>t<length idx. \<forall>c<ns * n_out. p \<noteq> int t * t_s0 y + int c * t_s1 y) \<longrightarrow> y' p = t_mem y p)"
proof -
  have on: "if e_prefill E then prefill_ok W else 2 \<le> e_mode E"
    using assms(6) by (auto simp: use_multislice_def)
  note work = step_work_ok [OF assms(1-3,5) on]
  obtain a0 as' b0 bs' where ab: "as = a0 # as'" "bs = b0 # bs'"
    using assms(7,9,10) by (metis length_0_conv neq_Nil_conv not_one_le_zero)
  obtain wa where wa: "slice_offsets (e_esz E) (map data_ptr as) = Inr wa"
    "\<And>i. i < ns \<Longrightarrow> data_ptr (as ! i) = data_ptr a0 + slice_woff (wa ! 1) (wa ! 2) i * e_esz E"
  proof (rule stacked_offsets [OF assms(4) _ _ assms(12)])
    show "as \<noteq> []" "length as \<le> 3" using assms(8,9) ab by auto
  qed (use assms(9) ab in simp)
  obtain wb where wb: "slice_offsets (e_esz E) (map data_ptr bs) = Inr wb"
    "\<And>i. i < ns \<Longrightarrow> data_ptr (bs ! i) = data_ptr b0 + slice_woff (wb ! 1) (wb ! 2) i * e_esz E"
  proof (rule stacked_offsets [OF assms(4) _ _ assms(13)])
    show "bs \<noteq> []" "length bs \<le> 3" using assms(8,10) ab by auto
  qed (use assms(10) ab in simp)
  obtain bn bk sk0 nw where cfg: "tiled_shrink_cfg (dim3 b0) = (bn, bk, sk0, nw)" by (metis prod_cases4)
  have st: "list_all (\<lambda>t. strides t = strides a0) (a0 # as')" "list_all (\<lambda>t. strides t = strides b0) (b0 # bs')"
    using assms(12,13) ab by (auto simp: list_all_iff)
  have r: "0 < dim3 b0" using assms(11) ab by simp
  define sk where "sk = (if e_prefill E then 1 else sk0)"
  define y' where "y' = expand_packed E W order2 ns (dim3 b0) n_out (shrink_packed E W order1 ns (dim3 b0) (bn, bk, sk) x a0
    scale wa (if sk > 1 then (\<lambda>_. 0) else fresh_mem)) b0 wb y"
  note main = packed_launches [OF work(1) r assms(8) cfg sk_def assms(14-16) y'_def]
  have own: "strides (as ! i) = strides a0 \<and> strides (bs ! i) = strides b0" if "i < ns" for i
    using that st assms(9,10) unfolding ab [symmetric] by (simp add: list_all_length)
  have "add_lora_packed_nslice E W order1 order2 fresh_mem super y x as bs scale (replicate ns n_out) = Inr y'"
    unfolding y'_def ab
    by (rule packed_run [OF assms(6) work(2) assms(7,8) st wa(1) [unfolded ab] wb(1) [unfolded ab] cfg sk_def])
  moreover have "dim3 (hd bs) = dim3 b0" by (simp add: ab)
  ultimately show ?thesis
    using main(1) [OF _ _ _ wa(2) own [THEN conjunct1] wb(2) own [THEN conjunct2]] main(2)
    by (intro exI [of _ y'] conjI allI impI) simp_all
qed

text \<open>
  Three tokens of two adapters, rank 1, two slices of two columns; the weight at an address is the
  address. The shrink programs run backwards.
\<close>

definition demo_env :: lora_env where
  "demo_env = \<lparr>e_mode = 3, e_min_tokens = 2, e_block_m = 16, e_prefill = False,
     e_weights = real_of_int, e_esz = 2, e_dtype = (\<lambda>x. x)\<rparr>"

definition demo_stack :: "int \<Rightarrow> nat \<Rightarrow> stacked" where
  "demo_stack p n = \<lparr>data_ptr = p, str0 = 1, str1 = 1, str2 = 1, str3 = 1, dim2 = n, dim3 = 1\<rparr>"

definition demo_x :: tensor where
  "demo_x = \<lparr>t_mem = (\<lambda>_. 1), t_rows = 3, t_cols = 1, t_s0 = 1, t_s1 = 1\<rparr>"

definition demo_y :: tensor where
  "demo_y = \<lparr>t_mem = (\<lambda>_. 0), t_rows = 3, t_cols = 4, t_s0 = 4, t_s1 = 1\<rparr>"

definition demo_wrapper :: wrapper where
  "demo_wrapper = \<lparr>prefill_ok = False, tile_grid = 0, seg_start = [], seg_len = [], seg_lora = [], tile_seg = [], tile_m = []\<rparr>"

lemmas demo_lora_defs = demo_env_def demo_stack_def demo_x_def demo_y_def demo_wrapper_def

theorem packed_lora_is_exact_witness:
  "\<exists>W y'. W = update_metadata list_torch 3 True 16 False [0, 0, 1] [0, 0, 1] 3 demo_wrapper \<and>
     add_lora_packed_nslice demo_env W rev (\<lambda>g. g) (\<lambda>_. 5) (\<lambda>_. 7) demo_y demo_x [demo_stack 0 1, demo_stack 20 1]
       [demo_stack 40 2, demo_stack 60 2] 1 [2, 2] = Inr y' \<and> y' 10 = 22 * 62"
proof -
  define W where "W = update_metadata list_torch (e_mode demo_env) True (e_block_m demo_env) (e_prefill demo_env)
    [0, 0, 1] [0, 0, 1] 3 demo_wrapper"
  have fits: "step_fits (e_prefill demo_env) [0, 0, 1] [0, 0, 1] 3"
    by (auto simp: step_fits_def demo_env_def tile_map_tokens_def intro!: exI [of _ "\<lambda>x. x"])
  have inj: "inj_on (\<lambda>(t, c). int t * t_s0 demo_y + int c * t_s1 demo_y) ({..<length [0, 0, 1 :: int]} \<times> {..<2 * 2})"
    using row_major_addr [of 4 3] by (simp add: demo_y_def numeral_3_eq_3)
  have "\<exists>y'. add_lora_packed_nslice demo_env W rev (\<lambda>g. g) (\<lambda>_. 5) (\<lambda>_. 7) demo_y demo_x [demo_stack 0 1, demo_stack 20 1]
      [demo_stack 40 2, demo_stack 60 2] 1 (replicate 2 2) = Inr y' \<and>
    (\<forall>t<length [0, 0, 1 :: int]. \<forall>i<2. \<forall>c<2.
      y' (int t * t_s0 demo_y + int (c + i * 2) * t_s1 demo_y) =
        t_mem demo_y (int t * t_s0 demo_y + int (c + i * 2) * t_s1 demo_y) +
        (if [0, 0, 1] ! t = (- 1 :: int) then 0
         else lora_out demo_env (e_dtype demo_env) (dim3 (hd [demo_stack 40 2, demo_stack 60 2])) demo_x
           ([demo_stack 0 1, demo_stack 20 1] ! i) ([demo_stack 40 2, demo_stack 60 2] ! i) 1 ([0, 0, 1] ! t) t c)) \<and>
    (\<forall>p. (\<forall>t<length [0, 0, 1 :: int]. \<forall>c<2 * 2. p \<noteq> int t * t_s0 demo_y + int c * t_s1 demo_y) \<longrightarrow> y' p = t_mem demo_y p)"
    by (rule packed_lora_is_exact [OF list_torch_ok fits _ _ W_def _ _ _ _ _ _ _ _ inj])
      (simp_all add: demo_lora_defs use_multislice_def use_grouped_def strides_def)
  then obtain y' where y': "add_lora_packed_nslice demo_env W rev (\<lambda>g. g) (\<lambda>_. 5) (\<lambda>_. 7) demo_y demo_x
      [demo_stack 0 1, demo_stack 20 1] [demo_stack 40 2, demo_stack 60 2] 1 [2, 2] = Inr y'"
    and all: "\<forall>t<3. \<forall>i<2. \<forall>c<2. y' (int t * 4 + int (c + i * 2) * 1) =
        (if [0, 0, 1] ! t = (- 1 :: int) then 0
         else lora_out demo_env (\<lambda>x. x) 1 demo_x ([demo_stack 0 1, demo_stack 20 1] ! i)
           ([demo_stack 40 2, demo_stack 60 2] ! i) 1 ([0, 0, 1] ! t) t c)"
    by (auto simp: demo_y_def demo_env_def demo_stack_def numeral_2_eq_2)
  from all [THEN spec [of _ 2], THEN mp, THEN spec [of _ 1], THEN mp, THEN spec [of _ 0], THEN mp]
  have "y' 10 = 22 * 62" by (simp add: lora_out_def x_at_def w_at_def demo_lora_defs)
  with y' W_def show ?thesis by (auto simp: demo_env_def)
qed

text \<open>C6: The decode path of one slice is exact too: a zeroed row-major buffer shrunk by the split-K
  kernel and expanded by the slice kernel adds to each token's output columns the LoRA product with
  its own adapter's matrices, adds nothing for a token without an adapter, and writes nothing
  outside those columns, for every launch order and every mixture of adapters that fits.\<close>

theorem decode_lora_is_exact:
  assumes "torch_ok T" and "step_fits False ids idx max_loras" and "0 < e_block_m E"
    and "W = update_metadata T (e_mode E) grouped (e_block_m E) False ids idx max_loras w"
    and "2 \<le> e_mode E" and "\<not> e_prefill E" and "t_rows x = length idx" and "e_min_tokens E \<le> length idx"
    and "0 < dim2 a" and "y_offset + n_out \<le> wd"
    and "inj_on (\<lambda>(t, c). int t * t_s0 y + int c * t_s1 y) ({..<length idx} \<times> {..<wd})"
    and "\<And>g. mset (order1 g) = mset g" and "\<And>g. mset (order2 g) = mset g"
    and "h = \<lparr>t_mem = (\<lambda>_. 0), t_rows = length idx, t_cols = dim2 a, t_s0 = int (dim2 a), t_s1 = 1\<rparr>"
    and "y' = expand_slice_decode E W order2 super2 sgmv2 cast_type y
      (h\<lparr>t_mem := shrink_decode E W order1 super1 sgmv1 h x a scale\<rparr>) b y_offset n_out True"
  shows "(\<forall>t<length idx. \<forall>c<n_out.
      y' (int t * t_s0 y + int (c + y_offset) * t_s1 y) = t_mem y (int t * t_s0 y + int (c + y_offset) * t_s1 y) +
        (if idx ! t = - 1 then 0
         else lora_out E (if cast_type then e_dtype E else (\<lambda>x. x)) (dim2 a) x a b scale (idx ! t) t c)) \<and>
    (\<forall>p. (\<forall>t<length idx. \<forall>c<n_out. p \<noteq> int t * t_s0 y + int (c + y_offset) * t_s1 y) \<longrightarrow> y' p = t_mem y p)"
proof -
  have work: "work_ok W (e_block_m E) idx" "seg_start W \<noteq> []"
    by (rule step_work_ok [OF assms(1-4)], use assms(5) in simp)+
  let ?r = "dim2 a"
  obtain bn bk sk nw where cfg1: "tiled_shrink_cfg ?r = (bn, bk, sk, nw)" by (metis prod_cases4)
  obtain bn2 bk2 nw2 where cfg2: "tiled_expand_cfg ?r = (bn2, bk2, nw2)" by (metis prod_cases3)
  define ps1 where "ps1 = order1 (grid3 (tile_grid W) (cdiv ?r bn) sk)"
  define ps2 where "ps2 = map (\<lambda>(p, q). (p, q, 0 :: nat)) (order2 (grid2 (tile_grid W) (cdiv n_out bn2)))"
  define buf where "buf = fold (tiled_shrink_ms_kernel W
      (gemm_args E (t_mem x) a ?r (t_cols x) (t_s0 x) (t_s1 x) (int (1 * ?r)) 1 bn bk (bk * sk)) sk scale 0 0) ps1 (\<lambda>_. 0)"
  have perm1: "mset ps1 = mset (grid3 (tile_grid W) (cdiv ?r bn) (1 * sk))" using assms(12) by (simp add: ps1_def)
  have perm2: "mset ps2 = mset (grid3 (tile_grid W) (cdiv n_out bn2) 1)"
    using assms(13) mset_grid2 by (metis (no_types, lifting) mset_map ps2_def)
  have "shrink_decode E W order1 super1 sgmv1 h x a scale = buf"
  proof -
    have "fold (tiled_shrink_kernel W A sk scale) ps1 = fold (tiled_shrink_ms_kernel W A sk scale 0 0) ps1" for A
      using mset_eq_setD [OF perm1] by (intro fold_on shrink_single) auto
    then show ?thesis using assms(5-8,14) work(2)
      by (simp add: shrink_decode_def use_grouped_def cfg1 launch_def buf_def ps1_def Let_def)
  qed
  then have y': "y' = fold (tiled_expand_ms_kernel W
      (gemm_args E buf b n_out ?r (int (1 * ?r)) 1 (t_s0 y) (t_s1 y) bn2 bk2 bk2) (e_dtype E) cast_type True 0 0 y_offset 0 0)
      ps2 (t_mem y)"
    using assms(5,6,8,14,15) work(2)
    by (simp add: expand_slice_decode_def use_grouped_def cfg2 launch_def ps2_def Let_def
        expand_single [where ?w1.0 = 0 and ?w2.0 = 0 and ?y1.0 = 0 and ?y2.0 = 0])
  define col :: "nat \<Rightarrow> nat" where "col = (\<lambda>i. if i = 1 then 0 else if i = 2 then 0 else y_offset)"
  have sl: "slices_ok col n_out 1 wd" using assms(10) by (simp add: slices_ok_def col_def)
  note main = shrink_then_expand [OF work(1) assms(9) perm1 cfg_pos [OF cfg1] refl perm2 expand_cfg_pos [OF cfg2 assms(9)]
      buf_def y' col_def sl assms(11)]
  show ?thesis
  proof (intro conjI allI impI)
    fix t c assume "t < length idx" "c < n_out"
    then show "y' (int t * t_s0 y + int (c + y_offset) * t_s1 y) = t_mem y (int t * t_s0 y + int (c + y_offset) * t_s1 y) +
        (if idx ! t = - 1 then 0
         else lora_out E (if cast_type then e_dtype E else (\<lambda>x. x)) (dim2 a) x a b scale (idx ! t) t c)"
      using main(1) [of t 0 c a b] by (simp add: col_def slice_woff_def)
  next
    fix p assume p: "\<forall>t<length idx. \<forall>c<n_out. p \<noteq> int t * t_s0 y + int (c + y_offset) * t_s1 y"
    show "y' p = t_mem y p" by (rule main(2)) (use p in \<open>simp add: col_def\<close>)
  qed
qed

text \<open>Two tokens of two adapters and one without, rank 1.\<close>

theorem decode_lora_is_exact_witness:
  "\<exists>W. W = update_metadata list_torch 3 True 16 False [4, -1, 5] [4, -1, 5] 3 demo_wrapper \<and>
     expand_slice_decode demo_env W rev (\<lambda>_. 7) (\<lambda>_. 8) False demo_y
       (\<lparr>t_mem = (\<lambda>_. 0), t_rows = 3, t_cols = 1, t_s0 = 1, t_s1 = 1\<rparr>\<lparr>t_mem := shrink_decode demo_env W rev (\<lambda>_. 7) (\<lambda>_. 8)
         \<lparr>t_mem = (\<lambda>_. 0), t_rows = 3, t_cols = 1, t_s0 = 1, t_s1 = 1\<rparr> demo_x (demo_stack 0 1) 1\<rparr>)
       (demo_stack 40 2) 1 2 True 9 = 10 * 50"
proof -
  define W where "W = update_metadata list_torch (e_mode demo_env) True (e_block_m demo_env) False
    [4, -1, 5] [4, -1, 5] 3 demo_wrapper"
  define h where "h = \<lparr>t_mem = (\<lambda>_. 0 :: real), t_rows = length [4, -1, 5 :: int], t_cols = dim2 (demo_stack 0 1),
    t_s0 = int (dim2 (demo_stack 0 1)), t_s1 = 1\<rparr>"
  define y' where "y' = expand_slice_decode demo_env W rev (\<lambda>_. 7) (\<lambda>_. 8) False demo_y
    (h\<lparr>t_mem := shrink_decode demo_env W rev (\<lambda>_. 7) (\<lambda>_. 8) h demo_x (demo_stack 0 1) 1\<rparr>) (demo_stack 40 2) 1 2 True"
  have fits: "step_fits False [4, -1, 5] [4, -1, 5] 3"
    by (auto simp: step_fits_def tile_map_tokens_def intro!: exI [of _ "\<lambda>x. x"])
  have inj: "inj_on (\<lambda>(t, c). int t * t_s0 demo_y + int c * t_s1 demo_y) ({..<length [4, -1, 5 :: int]} \<times> {..<4})"
    using row_major_addr [of 4 3] by (simp add: demo_y_def numeral_3_eq_3)
  have main: "(\<forall>t<length [4, -1, 5 :: int]. \<forall>c<2.
      y' (int t * t_s0 demo_y + int (c + 1) * t_s1 demo_y) = t_mem demo_y (int t * t_s0 demo_y + int (c + 1) * t_s1 demo_y) +
        (if [4, -1, 5] ! t = (- 1 :: int) then 0
         else lora_out demo_env (if False then e_dtype demo_env else (\<lambda>x. x)) (dim2 (demo_stack 0 1)) demo_x (demo_stack 0 1)
           (demo_stack 40 2) 1 ([4, -1, 5] ! t) t c)) \<and>
    (\<forall>p. (\<forall>t<length [4, -1, 5 :: int]. \<forall>c<2. p \<noteq> int t * t_s0 demo_y + int (c + 1) * t_s1 demo_y) \<longrightarrow> y' p = t_mem demo_y p)"
    by (rule decode_lora_is_exact [OF list_torch_ok fits _ W_def _ _ _ _ _ _ inj _ _ h_def y'_def])
      (simp_all add: demo_lora_defs)
  from main [THEN conjunct1, THEN spec [of _ 2], THEN mp, THEN spec [of _ 0], THEN mp]
  have "y' 9 = 10 * 50" by (simp add: lora_out_def x_at_def w_at_def demo_lora_defs)
  moreover have "h = \<lparr>t_mem = (\<lambda>_. 0), t_rows = 3, t_cols = 1, t_s0 = 1, t_s1 = 1\<rparr>" by (simp add: h_def demo_stack_def)
  moreover have "W = update_metadata list_torch 3 True 16 False [4, -1, 5] [4, -1, 5] 3 demo_wrapper"
    by (simp add: W_def demo_env_def)
  ultimately show ?thesis unfolding y'_def by metis
qed

end
