(* ===== verification/Promoted.thy ===== *)
theory Promoted
  imports GroupedLora L3
begin

text \<open>
  \<^verbatim>\<open>kernel/l3.py\<close>, the arithmetic: the merge of one matrix, the promotable attention layers and the
  \<open>promoted\<close> context, on matrices of reals. The conversion to the weights' type is an argument. A layer
  that runs on merged weights computes the base layer on W + (alpha/r) B A, entry by entry converted; where
  the conversion is exact that is what the base layer and its LoRA path (theory \<open>GroupedLora\<close>) compute
  together.
\<close>

subsection \<open>Matrices\<close>

record matrix =
  m_rows :: nat
  m_cols :: nat
  m_at :: "nat \<Rightarrow> nat \<Rightarrow> real"

text \<open>\<open>b @ a\<close>, \<open>torch.cat(..., dim=0)\<close>, \<open>w + delta\<close>, \<open>b * scaling\<close> and \<open>F.linear\<close>. Matrices whose shapes
  do not fit raise; \<open>+\<close> repeats a dimension of size 1.\<close>

definition matmul :: "matrix \<Rightarrow> matrix \<Rightarrow> py_error + matrix" where
  "matmul b a = (if m_cols b \<noteq> m_rows a then Inl RuntimeError
     else Inr \<lparr>m_rows = m_rows b, m_cols = m_cols a, m_at = (\<lambda>i j. \<Sum>l<m_cols b. m_at b i l * m_at a l j)\<rparr>)"

fun products :: "(matrix \<times> matrix) list \<Rightarrow> py_error + matrix list" where
  "products [] = Inr []"
| "products ((a, b) # ds) =
     (case matmul b a of
        Inl e \<Rightarrow> Inl e
      | Inr m \<Rightarrow> (case products ds of Inl e \<Rightarrow> Inl e | Inr ms \<Rightarrow> Inr (m # ms)))"

fun vcat :: "matrix list \<Rightarrow> matrix" where
  "vcat [] = \<lparr>m_rows = 0, m_cols = 0, m_at = (\<lambda>i j. 0)\<rparr>"
| "vcat (a # as) = (let r = vcat as in
     \<lparr>m_rows = m_rows a + m_rows r, m_cols = m_cols a,
      m_at = (\<lambda>i j. if i < m_rows a then m_at a i j else m_at r (i - m_rows a) j)\<rparr>)"

definition cat :: "matrix list \<Rightarrow> py_error + matrix" where
  "cat ms = (if ms = [] \<or> \<not> list_all (\<lambda>m. m_cols m = m_cols (hd ms)) ms then Inl RuntimeError else Inr (vcat ms))"

definition broadcast_dim :: "nat \<Rightarrow> nat \<Rightarrow> nat option" where
  "broadcast_dim n m = (if n = m \<or> m = 1 then Some n else if n = 1 then Some m else None)"

definition repeated :: "nat \<Rightarrow> nat \<Rightarrow> nat" where
  "repeated n i = (if n = 1 then 0 else i)"

lemma repeated_in: "i < n \<Longrightarrow> repeated n i = i"
  by (simp add: repeated_def)

definition madd :: "matrix \<Rightarrow> matrix \<Rightarrow> py_error + matrix" where
  "madd a b =
     (case (broadcast_dim (m_rows a) (m_rows b), broadcast_dim (m_cols a) (m_cols b)) of
        (Some r, Some c) \<Rightarrow> Inr \<lparr>m_rows = r, m_cols = c,
          m_at = (\<lambda>i j. m_at a (repeated (m_rows a) i) (repeated (m_cols a) j) +
                        m_at b (repeated (m_rows b) i) (repeated (m_cols b) j))\<rparr>
      | _ \<Rightarrow> Inl RuntimeError)"

definition mscale :: "real \<Rightarrow> matrix \<Rightarrow> matrix" where
  "mscale s b = b\<lparr>m_at := (\<lambda>i j. m_at b i j * s)\<rparr>"

definition linear :: "(nat \<Rightarrow> nat \<Rightarrow> real) \<Rightarrow> matrix \<Rightarrow> (nat \<Rightarrow> real) option \<Rightarrow> nat \<Rightarrow> nat \<Rightarrow> real" where
  "linear x w bias t i = (\<Sum>k<m_cols w. x t k * m_at w i k) + (case bias of None \<Rightarrow> 0 | Some b \<Rightarrow> b i)"

subsection \<open>Merging\<close>

text \<open>\<open>(w.float() + delta).to(w.dtype)\<close>; \<open>to_dtype\<close> converts to the weight's type.\<close>

definition merge_weight :: "(real \<Rightarrow> real) \<Rightarrow> matrix \<Rightarrow> (matrix \<times> matrix) list \<Rightarrow> py_error + matrix" where
  "merge_weight to_dtype w deltas =
     (case products deltas of
        Inl e \<Rightarrow> Inl e
      | Inr ms \<Rightarrow>
          (case cat ms of
             Inl e \<Rightarrow> Inl e
           | Inr delta \<Rightarrow>
               (case madd w delta of
                  Inl e \<Rightarrow> Inl e
                | Inr m \<Rightarrow> Inr (m\<lparr>m_at := (\<lambda>i j. to_dtype (m_at m i j))\<rparr>))))"

subsection \<open>Promotable layers\<close>

text \<open>\<open>_ACTIVE\<close>, the \<open>promoted\<close> context and \<open>_active_weight\<close>.\<close>

type_synonym active = "matrix merged option"

definition promoted :: "matrix merged \<Rightarrow> (active \<Rightarrow> 'o) \<Rightarrow> 'o \<times> active" where
  "promoted ws body = (body (Some ws), None)"

definition active_weight :: "active \<Rightarrow> string \<Rightarrow> matrix option" where
  "active_weight act name = (case act of None \<Rightarrow> None | Some ws \<Rightarrow> map_of ws name)"

definition qkv_apply ::
  "active \<Rightarrow> string \<Rightarrow> (nat \<Rightarrow> nat \<Rightarrow> real) \<Rightarrow> (nat \<Rightarrow> nat \<Rightarrow> real) \<Rightarrow> (nat \<Rightarrow> real) option \<Rightarrow> nat \<Rightarrow> nat \<Rightarrow> real" where
  "qkv_apply act name super x bias =
     (case active_weight act name of Some w \<Rightarrow> linear x w bias | None \<Rightarrow> super)"

definition row_apply ::
  "active \<Rightarrow> string \<Rightarrow> (nat \<Rightarrow> nat \<Rightarrow> real) \<Rightarrow> (nat \<Rightarrow> nat \<Rightarrow> real) \<Rightarrow> nat \<Rightarrow> nat \<Rightarrow> real" where
  "row_apply act name super x =
     (case active_weight act name of Some w \<Rightarrow> linear x w None | None \<Rightarrow> super)"

text \<open>\<open>install\<close>: the modules with their (exact) class, and the promotable layers found.\<close>

datatype module_class = MergedQKV | RowParallel | PromotableQKV | PromotableRow | OtherModule

fun install_loop :: "(string \<times> module_class) list \<Rightarrow> (string \<times> module_class) list \<times> string list" where
  "install_loop [] = ([], [])"
| "install_loop ((name, cls) # ms) =
     (let (ms', ls) = install_loop ms in
      if cls = MergedQKV \<and> ends_with name ''qkv_proj'' then ((name, PromotableQKV) # ms', name # ls)
      else if cls = RowParallel \<and> ends_with name ''o_proj'' then ((name, PromotableRow) # ms', name # ls)
      else ((name, cls) # ms', ls))"

definition install :: "bool \<Rightarrow> (string \<times> module_class) list \<Rightarrow> (string \<times> module_class) list \<times> string list" where
  "install available ms = (if \<not> available then (ms, []) else install_loop ms)"

subsection \<open>A promoted step computes base plus LoRA\<close>

lemma install_names:
  "install_loop ms = (ms', ls) \<Longrightarrow> map fst ms' = map fst ms \<and> set ls \<subseteq> fst ` set ms \<and>
     (\<forall>n\<in>set ls. ends_with n ''qkv_proj'' \<or> ends_with n ''o_proj'')"
proof (induction ms arbitrary: ms' ls)
  case (Cons m ms)
  obtain name cls where m: "m = (name, cls)" by force
  obtain ns ks where r: "install_loop ms = (ns, ks)" by force
  show ?case using Cons.IH [OF r] Cons.prems by (auto simp: m r Let_def split: if_splits)
qed simp

text \<open>A second installation finds nothing: the layers are already promotable.\<close>

lemma install_twice: "install_loop ms = (ms', ls) \<Longrightarrow> install_loop ms' = (ms', [])"
proof (induction ms arbitrary: ms' ls)
  case (Cons m ms)
  obtain name cls where m: "m = (name, cls)" by force
  obtain ns ks where r: "install_loop ms = (ns, ks)" by force
  show ?case using Cons.IH [OF r] Cons.prems by (auto simp: m r Let_def split: if_splits)
qed simp

lemma products_nth:
  assumes "products ds = Inr ms"
  shows "length ms = length ds"
    and "\<And>j. j < length ds \<Longrightarrow> matmul (snd (ds ! j)) (fst (ds ! j)) = Inr (ms ! j)"
proof -
  have "length ms = length ds \<and> (\<forall>j<length ds. matmul (snd (ds ! j)) (fst (ds ! j)) = Inr (ms ! j))"
    using assms
  proof (induction ds arbitrary: ms rule: products.induct)
    case (2 a b ds)
    then obtain m ns where "matmul b a = Inr m" "products ds = Inr ns" "ms = m # ns"
      by (auto split: sum.splits)
    then show ?case using 2(1) [of m ns] by (auto simp: nth_Cons split: nat.splits)
  qed simp
  then show "length ms = length ds"
    "\<And>j. j < length ds \<Longrightarrow> matmul (snd (ds ! j)) (fst (ds ! j)) = Inr (ms ! j)" by auto
qed

lemma vcat_shape:
  "ms \<noteq> [] \<Longrightarrow> m_cols (vcat ms) = m_cols (hd ms)" "m_rows (vcat ms) = sum_list (map m_rows ms)"
  by (induction ms) (auto simp: Let_def)

lemma vcat_at:
  assumes "j < length ms" and "i < m_rows (ms ! j)"
  shows "m_at (vcat ms) (sum_list (map m_rows (take j ms)) + i) c = m_at (ms ! j) i c"
  using assms
proof (induction ms arbitrary: j)
  case (Cons m ms)
  show ?case
  proof (cases j)
    case (Suc j')
    then show ?thesis using Cons.IH [of j'] Cons.prems by (simp add: Let_def add.assoc)
  qed (use Cons.prems in \<open>simp add: Let_def\<close>)
qed simp

lemma merge_layers_keep:
  "merge_layers mg ls ts d = Inr d' \<Longrightarrow> n \<notin> fst ` set ls \<Longrightarrow> map_of d' n = map_of d n"
proof (induction ls arbitrary: d)
  case (Cons l ls)
  obtain name w where l: "l = (name, w)" by force
  from Cons.prems obtain v where "merge_layers mg ls ts (dict_set name v d) = Inr d'"
    by (auto simp: l split: sum.splits)
  from Cons.IH [OF this] Cons.prems(2) show ?case by (simp add: l)
qed simp

lemma merged_layer:
  assumes "merge_layers mg ls ts d = Inr d'" and "(name, w) \<in> set ls" and "distinct (map fst ls)"
  shows "\<exists>i ds v. layer_index name = Inr i \<and> get_deltas ts i (projections_of name) = Inr ds \<and>
    mg w ds = Inr v \<and> map_of d' name = Some v"
  using assms
proof (induction ls arbitrary: d)
  case (Cons l ls)
  obtain n v where l: "l = (n, v)" by force
  from Cons.prems(1) obtain i ds u where i: "layer_index n = Inr i" "get_deltas ts i (projections_of n) = Inr ds"
    "mg v ds = Inr u" "merge_layers mg ls ts (dict_set n u d) = Inr d'" by (auto simp: l split: sum.splits)
  show ?case
  proof (cases "(name, w) = l")
    case True
    have "map_of d' n = map_of (dict_set n u d) n"
      by (rule merge_layers_keep [OF i(4)]) (use Cons.prems(3) l in simp)
    then show ?thesis using True i(1-3) by (simp add: l)
  qed (use Cons l i(4) in auto)
qed simp

lemma get_deltas_nth:
  assumes "get_deltas ts i ps = Inr ds"
  shows "length ds = length ps" and "\<And>j. j < length ps \<Longrightarrow> map_of ts (i, ps ! j) = Some (ds ! j)"
proof -
  have "length ds = length ps \<and> (\<forall>j<length ps. map_of ts (i, ps ! j) = Some (ds ! j))"
    using assms
  proof (induction ps arbitrary: ds)
    case (Cons p ps)
    from Cons.prems obtain ab es where "map_of ts (i, p) = Some ab" "get_deltas ts i ps = Inr es" "ds = ab # es"
      by (auto split: option.splits sum.splits)
    then show ?case using Cons.IH [of es] by (auto simp: nth_Cons split: nat.splits)
  qed simp
  then show "length ds = length ps" "\<And>j. j < length ps \<Longrightarrow> map_of ts (i, ps ! j) = Some (ds ! j)" by auto
qed

text \<open>The shapes of a layer's matrix and of its projections' tensors agree.\<close>

definition fits_layer :: "matrix \<Rightarrow> (matrix \<times> matrix) list \<Rightarrow> bool" where
  "fits_layer w ds \<longleftrightarrow> m_rows w = sum_list (map (m_rows \<circ> snd) ds) \<and> list_all (\<lambda>d. m_cols (fst d) = m_cols w) ds"

lemma merge_weight_at:
  assumes m: "merge_weight to_dtype w ds = Inr v" and fit: "fits_layer w ds" and j: "j < length ds"
    and d: "ds ! j = (a, b)" and r: "r < m_rows b"
  shows "m_cols v = m_cols w" and "m_cols b = m_rows a"
    and "k < m_cols w \<Longrightarrow> m_at v (sum_list (map (m_rows \<circ> snd) (take j ds)) + r) k =
      to_dtype (m_at w (sum_list (map (m_rows \<circ> snd) (take j ds)) + r) k + (\<Sum>l<m_cols b. m_at b r l * m_at a l k))"
proof -
  let ?o = "sum_list (map (m_rows \<circ> snd) (take j ds)) + r"
  obtain ms delta u where ms: "products ds = Inr ms" "cat ms = Inr delta" "madd w delta = Inr u"
    and v: "v = u\<lparr>m_at := (\<lambda>i j. to_dtype (m_at u i j))\<rparr>"
    using m by (auto simp: merge_weight_def split: sum.splits)
  note p = products_nth [OF ms(1)]
  have delta: "delta = vcat ms" "ms \<noteq> []" using ms(2) by (auto simp: cat_def split: if_splits)
  have mat: "ms ! n = \<lparr>m_rows = m_rows (snd (ds ! n)), m_cols = m_cols (fst (ds ! n)),
      m_at = (\<lambda>i c. \<Sum>l<m_cols (snd (ds ! n)). m_at (snd (ds ! n)) i l * m_at (fst (ds ! n)) l c)\<rparr> \<and>
      m_cols (snd (ds ! n)) = m_rows (fst (ds ! n))" if "n < length ds" for n
    using p(2) [OF that] by (auto simp: matmul_def split: if_splits)
  show "m_cols b = m_rows a" using mat [OF j] d by simp
  have rows: "map m_rows ms = map (m_rows \<circ> snd) ds"
    using p(1) mat by (intro nth_equalityI) auto
  have "0 < length ms" "0 < length ds" using delta(2) p(1) by auto
  then have hd: "m_cols (hd ms) = m_cols w"
    using fit mat [of 0] by (auto simp: fits_layer_def list_all_length hd_conv_nth)
  have u: "u = \<lparr>m_rows = m_rows w, m_cols = m_cols w,
      m_at = (\<lambda>i c. m_at w (repeated (m_rows w) i) (repeated (m_cols w) c) +
                    m_at (vcat ms) (repeated (m_rows w) i) (repeated (m_cols w) c))\<rparr>"
    using ms(3) vcat_shape(1) [OF delta(2)] vcat_shape(2) [of ms] rows hd fit
    by (auto simp: madd_def broadcast_dim_def fits_layer_def delta(1) split: if_splits)
  show "m_cols v = m_cols w" using u v by simp
  have "?o < m_rows w"
  proof -
    have "?o < sum_list (map (m_rows \<circ> snd) (take (Suc j) ds))"
      using j r d by (simp add: take_Suc_conv_app_nth)
    also have "\<dots> \<le> sum_list (map (m_rows \<circ> snd) (take (Suc j) ds)) + sum_list (map (m_rows \<circ> snd) (drop (Suc j) ds))"
      by simp
    also have "\<dots> = m_rows w" using fit
      by (simp add: fits_layer_def flip: sum_list_append map_append)
    finally show ?thesis .
  qed
  moreover assume k: "k < m_cols w"
  ultimately have rep: "repeated (m_rows w) ?o = ?o" "repeated (m_cols w) k = k" using repeated_in by blast+
  have "map m_rows (take j ms) = map (m_rows \<circ> snd) (take j ds)" using rows by (simp flip: take_map)
  then have "m_at (vcat ms) ?o k = (\<Sum>l<m_cols b. m_at b r l * m_at a l k)"
    using vcat_at [of j ms r k] mat [OF j] p(1) j d r by simp
  then show "m_at v ?o k = to_dtype (m_at w ?o k + (\<Sum>l<m_cols b. m_at b r l * m_at a l k))"
    unfolding v u by (simp add: rep)
qed

lemma fits_layer_mscale: "fits_layer w (map (\<lambda>(A, B). (A, mscale s B)) ABs) = fits_layer w ABs"
proof -
  have "map (m_rows \<circ> snd) (map (\<lambda>(A, B). (A, mscale s B)) ABs) = map (m_rows \<circ> snd) ABs"
    by (induction ABs) (auto simp: mscale_def)
  then show ?thesis unfolding fits_layer_def by (simp only: list_all_iff) (simp add: split_beta)
qed

definition bias_at :: "(nat \<Rightarrow> real) option \<Rightarrow> nat \<Rightarrow> real" where
  "bias_at bias i = (case bias of None \<Rightarrow> 0 | Some b \<Rightarrow> b i)"

lemma sum_lora:
  fixes x :: "nat \<Rightarrow> real"
  shows "(\<Sum>k<n. x k * (w k + (\<Sum>l<m. b l * a l k))) = (\<Sum>k<n. x k * w k) + (\<Sum>l<m. (\<Sum>k<n. x k * a l k) * b l)"
proof -
  have "(\<Sum>k<n. x k * (\<Sum>l<m. b l * a l k)) = (\<Sum>l<m. (\<Sum>k<n. x k * a l k) * b l)"
    unfolding sum_distrib_left sum_distrib_right
    by (subst sum.swap) (intro sum.cong refl, simp add: algebra_simps)
  then show ?thesis by (simp add: distrib_left sum.distrib)
qed

text \<open>The adapter's slot of the stacked weights holds its A and its scaled B, as vLLM stores them.\<close>

definition slot_holds :: "lora_env \<Rightarrow> stacked \<Rightarrow> stacked \<Rightarrow> int \<Rightarrow> real \<Rightarrow> matrix \<Rightarrow> matrix \<Rightarrow> bool" where
  "slot_holds E a b l s A B \<longleftrightarrow> (\<forall>j<m_rows A. \<forall>k<m_cols A. w_at E a l j k = m_at A j k) \<and>
     (\<forall>c<m_rows B. \<forall>j<m_cols B. w_at E b l c j = m_at B c j * s)"

lemma slot_lora_out:
  assumes "slot_holds E a b l s A B" and "m_cols B = m_rows A" and "r < m_rows B" and "t_cols X = m_cols A"
    and "\<forall>k<m_cols A. x_at X t k = x k" and "e_dtype E = (\<lambda>v. v)"
  shows "lora_out E (\<lambda>v. v) (m_rows A) X a b 1 l t r =
    (\<Sum>j<m_cols B. (\<Sum>k<m_cols A. x k * m_at A j k) * (m_at B r j * s))"
  using assms by (simp add: lora_out_def slot_holds_def)

text \<open>What the checkpoint reader leaves: the scaled tensors of the projection's own keys.\<close>

definition from_checkpoint ::
  "(string \<Rightarrow> matrix option) \<Rightarrow> real \<Rightarrow> int \<Rightarrow> string \<Rightarrow> matrix \<Rightarrow> matrix \<Rightarrow> bool" where
  "from_checkpoint get_tensor s i p a b \<longleftrightarrow>
     (\<exists>proj. get_tensor (proj @ lora_a_suffix) = Some a \<and> get_tensor (proj @ ''.lora_B.weight'') = Some b \<and>
        layer_index proj = Inr i \<and> last (split_dots proj []) = p)"

lemma loaded_from_checkpoint:
  assumes "load_keys get_tensor (mscale s) keys d = Inr ts" and "map_of ts (i, p) = Some ab"
  shows "map_of d (i, p) = Some ab \<or> (\<exists>a b. ab = (a, mscale s b) \<and> from_checkpoint get_tensor s i p a b)"
  using assms
proof (induction keys arbitrary: d)
  case (Cons key keys)
  define proj where "proj = take (length key - length lora_a_suffix) key"
  define q where "q = last (split_dots proj [])"
  note step = Cons.prems(1) [unfolded load_keys.simps Let_def, folded proj_def, folded q_def]
  show ?case
  proof (cases "ends_with key lora_a_suffix \<and> q \<in> {''q_proj'', ''k_proj'', ''v_proj'', ''o_proj''}")
    case False
    then have "load_keys get_tensor (mscale s) keys d = Inr ts"
      using step by (auto split: if_splits)
    then show ?thesis by (rule Cons.IH [OF _ Cons.prems(2)])
  next
    case True
    then have key: "key = proj @ lora_a_suffix" by (auto simp: ends_with_def suffix_def proj_def)
    from step True obtain a b l where t: "get_tensor key = Some a" "get_tensor (proj @ ''.lora_B.weight'') = Some b"
      "layer_index proj = Inr l" "load_keys get_tensor (mscale s) keys (dict_set (l, q) (a, mscale s b) d) = Inr ts"
      by (auto simp del: insert_iff split: if_splits option.splits sum.splits)
    from Cons.IH [OF t(4) Cons.prems(2)] show ?thesis
    proof
      assume "map_of (dict_set (l, q) (a, mscale s b) d) (i, p) = Some ab"
      then show ?thesis using t(1-3) key q_def
        by (cases "(l, q) = (i, p)") (auto simp: from_checkpoint_def)
    qed blast
  qed
qed simp

lemma read_projections:
  assumes "load_keys get_tensor (mscale s) keys [] = Inr ts" and "get_deltas ts i ps = Inr ds"
  shows "\<exists>ABs. length ds = length ps \<and> ds = map (\<lambda>(A, B). (A, mscale s B)) ABs \<and>
    (\<forall>j<length ABs. from_checkpoint get_tensor s i (ps ! j) (fst (ABs ! j)) (snd (ABs ! j)))"
proof -
  note ds = get_deltas_nth [OF assms(2)]
  have "\<exists>ab. ds ! j = (fst ab, mscale s (snd ab)) \<and> from_checkpoint get_tensor s i (ps ! j) (fst ab) (snd ab)"
    if "j < length ds" for j
    using loaded_from_checkpoint [OF assms(1) ds(2) [of j]] that ds(1) by fastforce
  then obtain AB where AB: "\<And>j. j < length ds \<Longrightarrow> ds ! j = (fst (AB j), mscale s (snd (AB j))) \<and>
      from_checkpoint get_tensor s i (ps ! j) (fst (AB j)) (snd (AB j))" by metis
  then have "ds = map (\<lambda>(A, B). (A, mscale s B)) (map AB [0..<length ds])"
    by (intro nth_equalityI) (auto simp: case_prod_beta)
  then show ?thesis using AB ds(1) by (intro exI [of _ "map AB [0..<length ds]"]) auto
qed

text \<open>\<open>_load\<close>: the scaling of the config, then the checkpoint's tensors.\<close>

definition load_adapter ::
  "(string \<Rightarrow> matrix option) \<Rightarrow> real option \<Rightarrow> real option \<Rightarrow> string list \<Rightarrow> py_error + matrix lora" where
  "load_adapter get_tensor alpha rank keys =
     (case lora_scaling alpha rank of
        Inl e \<Rightarrow> Inl e
      | Inr s \<Rightarrow> load_keys get_tensor (mscale s) keys [])"

text \<open>C7: A promoted step computes base plus LoRA. Take any adapter as the background load reads it from
  its checkpoint and config. For every attention layer merged from it, each of the layer's three
  projections (one for the output projection) comes from the checkpoint tensors A, B of that layer and
  projection. If their shapes are the layer's, the layer's output on the merged weights is \<open>F.linear\<close> with
  the entries of W + s B A converted to the weights' type, where s is \<open>lora_alpha\<close> / r of the config (1 if it
  names no alpha). If the conversion loses nothing, that is the base layer's output plus s (x A) B, and it
  is the base layer's output plus what the unmerged path adds for the token, when the adapter's slot of the
  stacked weights holds A and s B as vLLM loads them. All sums are over the reals: the rounding of float
  additions is not modelled. Outside the promoted context the layer runs the original path.\<close>

theorem promoted_step_is_base_plus_lora:
  assumes "load_adapter get_tensor alpha (Some rank) keys = Inr ts"
    and "merge_layers (merge_weight to_dtype) layers ts [] = Inr ws" and "(name, w) \<in> set layers"
    and "distinct (map fst layers)"
  shows "\<exists>s i ABs. s = (case alpha of None \<Rightarrow> 1 | Some v \<Rightarrow> v / rank) \<and>
    layer_index name = Inr i \<and> length ABs = (if ends_with name ''qkv_proj'' then 3 else 1) \<and>
    (\<forall>j<length ABs. from_checkpoint get_tensor s i (projections_of name ! j) (fst (ABs ! j)) (snd (ABs ! j))) \<and>
    (fits_layer w ABs \<longrightarrow> (\<forall>j<length ABs. \<forall>r<m_rows (snd (ABs ! j)).
      let A = fst (ABs ! j); B = snd (ABs ! j); out = sum_list (map (m_rows \<circ> snd) (take j ABs)) + r;
          y = fst (promoted ws (\<lambda>act. qkv_apply act name base x bias)) t out
      in y = (\<Sum>k<m_cols w. x t k * to_dtype (m_at w out k + (\<Sum>l<m_cols B. m_at B r l * s * m_at A l k))) + bias_at bias out \<and>
        ((\<forall>v. to_dtype v = v) \<longrightarrow>
           y = linear x w bias t out + (\<Sum>l<m_cols B. (\<Sum>k<m_cols w. x t k * m_at A l k) * (m_at B r l * s)) \<and>
           (\<forall>E a b l X. slot_holds E a b l s A B \<and> e_dtype E = to_dtype \<and> t_cols X = m_cols w \<and>
              (\<forall>k<m_cols w. x_at X t k = x t k) \<longrightarrow>
              y = linear x w bias t out + lora_out E to_dtype (m_rows A) X a b 1 l t r)))) \<and>
    fst (promoted ws (\<lambda>act. row_apply act name base x)) = fst (promoted ws (\<lambda>act. qkv_apply act name base x None)) \<and>
    qkv_apply (snd (promoted ws (\<lambda>act. qkv_apply act name base x bias))) name base x bias = base"
proof -
  obtain s where s: "s = (case alpha of None \<Rightarrow> 1 | Some v \<Rightarrow> v / rank)" and ld: "load_keys get_tensor (mscale s) keys [] = Inr ts"
    using assms(1) by (auto simp: load_adapter_def lora_scaling_def split: sum.splits option.splits if_splits)
  obtain i ds v where d: "layer_index name = Inr i" "get_deltas ts i (projections_of name) = Inr ds"
    "merge_weight to_dtype w ds = Inr v" "map_of ws name = Some v"
    using merged_layer [OF assms(2-4)] by blast
  obtain ABs where ds: "length ds = length (projections_of name)" "ds = map (\<lambda>(A, B). (A, mscale s B)) ABs"
    and ck: "\<forall>j<length ABs. from_checkpoint get_tensor s i (projections_of name ! j) (fst (ABs ! j)) (snd (ABs ! j))"
    using read_projections [OF ld d(2)] by blast
  have rows: "map (m_rows \<circ> snd) (take j ds) = map (m_rows \<circ> snd) (take j ABs)" for j
    by (auto simp: ds(2) take_map mscale_def)
  have run: "fst (promoted ws (\<lambda>act. qkv_apply act name base x bias)) = linear x v bias"
      "fst (promoted ws (\<lambda>act. row_apply act name base x)) = linear x v None" for bias
    using d(4) by (simp_all add: promoted_def qkv_apply_def row_apply_def active_weight_def)
  have y: "linear x v bias t out = (\<Sum>k<m_cols w. x t k * to_dtype (m_at w out k + (\<Sum>l<m_cols B. m_at B r l * s * m_at A l k))) + bias_at bias out
      \<and> m_cols B = m_rows A \<and> m_cols A = m_cols w"
    if fit: "fits_layer w ABs" and j: "j < length ABs" and r: "r < m_rows B" and A: "A = fst (ABs ! j)" and B: "B = snd (ABs ! j)"
      and out: "out = sum_list (map (m_rows \<circ> snd) (take j ABs)) + r" for j r A B out
  proof -
    have fits: "fits_layer w ds" using fit by (simp add: ds(2) fits_layer_mscale)
    have dj: "ds ! j = (A, mscale s B)" "j < length ds" "r < m_rows (mscale s B)"
      using j r A B ds(2) by (auto simp: mscale_def split: prod.splits)
    note at = merge_weight_at [OF d(3) fits dj(2,1,3), unfolded rows, folded out]
    have cols: "m_cols A = m_cols w" using fit A j by (auto simp: fits_layer_def list_all_length case_prod_beta)
    have "(\<Sum>k<m_cols w. x t k * m_at v out k) =
        (\<Sum>k<m_cols w. x t k * to_dtype (m_at w out k + (\<Sum>l<m_cols B. m_at B r l * s * m_at A l k)))"
      by (rule sum.cong) (use at(3) in \<open>simp_all add: mscale_def\<close>)
    then show ?thesis using cols at(1,2) by (simp add: linear_def bias_at_def mscale_def)
  qed
  have exact: "(\<Sum>k<m_cols w. x t k * (m_at w out k + (\<Sum>l<n. m_at B r l * s * m_at A l k))) + bias_at bias out =
      linear x w bias t out + (\<Sum>l<n. (\<Sum>k<m_cols w. x t k * m_at A l k) * (m_at B r l * s))" for A B r out and n :: nat
    by (simp add: sum_lora linear_def bias_at_def)
  have "length ABs = (if ends_with name ''qkv_proj'' then 3 else 1)"
    using ds by (simp add: projections_of_def split: if_splits)
  moreover have "let A = fst (ABs ! j); B = snd (ABs ! j); out = sum_list (map (m_rows \<circ> snd) (take j ABs)) + r;
          y = linear x v bias t out
      in y = (\<Sum>k<m_cols w. x t k * to_dtype (m_at w out k + (\<Sum>l<m_cols B. m_at B r l * s * m_at A l k))) + bias_at bias out \<and>
        ((\<forall>v. to_dtype v = v) \<longrightarrow>
           y = linear x w bias t out + (\<Sum>l<m_cols B. (\<Sum>k<m_cols w. x t k * m_at A l k) * (m_at B r l * s)) \<and>
           (\<forall>E a b l X. slot_holds E a b l s A B \<and> e_dtype E = to_dtype \<and> t_cols X = m_cols w \<and>
              (\<forall>k<m_cols w. x_at X t k = x t k) \<longrightarrow>
              y = linear x w bias t out + lora_out E to_dtype (m_rows A) X a b 1 l t r))"
    if h: "fits_layer w ABs" "j < length ABs" "r < m_rows (snd (ABs ! j))" for j r
  proof -
    note yj = y [OF h refl refl refl]
    have id: "to_dtype = (\<lambda>v. v)" if "\<forall>v. to_dtype v = v" using that by auto
    show ?thesis unfolding Let_def
      using yj exact slot_lora_out [OF _ yj [THEN conjunct2, THEN conjunct1] h(3), where x = "x t"]
      by (auto dest!: id)
  qed
  ultimately show ?thesis
    using s d(1) ck unfolding run by (intro exI [of _ s] exI [of _ i] exI [of _ ABs])
      (simp add: promoted_def qkv_apply_def active_weight_def)
qed

text \<open>One layer's output projection, rank 1, scaling 2.\<close>

definition demo_matrix :: "real \<Rightarrow> matrix" where
  "demo_matrix v = \<lparr>m_rows = 1, m_cols = 1, m_at = (\<lambda>i j. v)\<rparr>"

definition demo_checkpoint :: "string \<Rightarrow> matrix option" where
  "demo_checkpoint k = (if k = ''layers.0.o_proj.lora_A.weight'' then Some (demo_matrix 3)
     else if k = ''layers.0.o_proj.lora_B.weight'' then Some (demo_matrix 5) else None)"

theorem promoted_step_is_base_plus_lora_witness:
  "\<exists>ts ws. load_adapter demo_checkpoint (Some 4) (Some 2) [''layers.0.o_proj.lora_A.weight''] = Inr ts \<and>
     merge_layers (merge_weight (\<lambda>v. v)) [(''layers.0.o_proj'', demo_matrix 7)] ts [] = Inr ws \<and>
     fst (promoted ws (\<lambda>act. qkv_apply act ''layers.0.o_proj'' (\<lambda>t i. 0) (\<lambda>t k. 1) None)) 0 0 = 7 + 3 * 2 * 5"
proof -
  let ?name = "''layers.0.o_proj''"
  have ln: "layer_index ?name = Inr 0"
    by (simp add: layer_index_def parse_int_def digit_value_def)
  define ts where "ts = [((0 :: int, ''o_proj''), (demo_matrix 3, mscale 2 (demo_matrix 5)))]"
  have l: "load_adapter demo_checkpoint (Some 4) (Some 2) [''layers.0.o_proj.lora_A.weight''] = Inr ts"
    by (simp add: load_adapter_def lora_scaling_def demo_checkpoint_def lora_a_suffix_def ends_with_def suffix_def ln ts_def dict_set_def)
  obtain ws where m: "merge_layers (merge_weight (\<lambda>v. v)) [(?name, demo_matrix 7)] ts [] = Inr ws"
    by (simp add: ln ts_def projections_of_def ends_with_def suffix_def merge_weight_def matmul_def cat_def madd_def
        broadcast_dim_def demo_matrix_def mscale_def)
  have "(?name, demo_matrix 7) \<in> set [(?name, demo_matrix 7)]" "distinct (map fst [(?name, demo_matrix 7)])" by simp_all
  from promoted_step_is_base_plus_lora [OF l m this, of "\<lambda>t i. 0" "\<lambda>t k. 1" None 0]
  have "\<exists>i ABs. length ABs = 1 \<and>
      from_checkpoint demo_checkpoint 2 i (projections_of ?name ! 0) (fst (ABs ! 0)) (snd (ABs ! 0)) \<and>
      (fits_layer (demo_matrix 7) ABs \<longrightarrow> (\<forall>r<m_rows (snd (ABs ! 0)).
        fst (promoted ws (\<lambda>act. qkv_apply act ?name (\<lambda>t i. 0) (\<lambda>t k. 1) None)) 0 r =
        linear (\<lambda>t k. 1) (demo_matrix 7) None 0 r + (\<Sum>l<m_cols (snd (ABs ! 0)). (\<Sum>k<m_cols (demo_matrix 7).
          1 * m_at (fst (ABs ! 0)) l k) * (m_at (snd (ABs ! 0)) r l * 2))))"
    apply (elim exE conjE)
    subgoal for s i ABs
      by (rule exI [of _ i], rule exI [of _ ABs]) (auto simp: ends_with_def suffix_def Let_def)
    done
  then obtain i ABs where "length ABs = 1"
    and from_ck: "from_checkpoint demo_checkpoint 2 i (projections_of ?name ! 0) (fst (ABs ! 0)) (snd (ABs ! 0))"
    and out: "fits_layer (demo_matrix 7) ABs \<longrightarrow> (\<forall>r<m_rows (snd (ABs ! 0)).
      fst (promoted ws (\<lambda>act. qkv_apply act ?name (\<lambda>t i. 0) (\<lambda>t k. 1) None)) 0 r =
      linear (\<lambda>t k. 1) (demo_matrix 7) None 0 r + (\<Sum>l<m_cols (snd (ABs ! 0)). (\<Sum>k<m_cols (demo_matrix 7).
        1 * m_at (fst (ABs ! 0)) l k) * (m_at (snd (ABs ! 0)) r l * 2)))"
    by blast
  have "fst (ABs ! 0) = demo_matrix 3" "snd (ABs ! 0) = demo_matrix 5"
    using from_ck by (auto simp: from_checkpoint_def demo_checkpoint_def lora_a_suffix_def split: if_splits)
  moreover obtain AB where "ABs = [AB]" using \<open>length ABs = 1\<close> by (auto simp: length_Suc_conv)
  ultimately have "ABs = [(demo_matrix 3, demo_matrix 5)]" by (cases AB) simp
  then have "fst (promoted ws (\<lambda>act. qkv_apply act ?name (\<lambda>t i. 0) (\<lambda>t k. 1) None)) 0 0 = 7 + 3 * 2 * 5"
    using out by (simp add: demo_matrix_def linear_def fits_layer_def)
  with l m show ?thesis by blast
qed

end
