(* ===== verification/FusedKernel.thy ===== *)
theory FusedKernel
  imports Kernels
begin

text \<open>
  \<^verbatim>\<open>kernel/fused_lora_kernel.py\<close>: one launch computes the base product and the LoRA term. With
  \<open>SPLIT_K > 1\<close> the programs of a tile add their shares into a shared workspace with atomic adds and
  count themselves in; the last one to arrive writes the tile and clears the workspace. The launch is a
  step relation in which the programs interleave freely: every atomic add of one element is a step
  of its own; the K loop, which reads only inputs, is folded into the step that uses its result, and a load
  or store of a tile by the last program is one step (no other program touches the tile then). Memory is
  sequentially consistent; the conversion to half precision and whether Triton compiles the kernel for a
  rank are parameters.
\<close>

subsection \<open>Configurations\<close>

record fused_cfg =
  cfg_m :: nat
  cfg_n :: nat
  cfg_k :: nat
  cfg_split :: nat
  cfg_warps :: nat
  cfg_stages :: nat

definition small_m_block :: "nat \<Rightarrow> nat" where
  "small_m_block M = (if M \<le> 16 then 16 else if M \<le> 32 then 32 else 64)"

definition small_shapes :: "(nat \<times> nat \<times> nat \<times> nat \<times> nat) list" where
  "small_shapes = map (\<lambda>(bn, bk, sk). (bn, bk, sk, 4, 3))
     [(32, 128, 1), (32, 128, 2), (32, 128, 4), (32, 256, 1), (32, 256, 2),
      (64, 128, 1), (64, 128, 2), (64, 128, 4), (64, 128, 8), (64, 256, 2), (64, 256, 4),
      (128, 64, 4), (128, 64, 8), (128, 128, 2), (128, 128, 4), (128, 128, 8)]
     @ [(64, 128, 4, 4, 4), (64, 128, 4, 8, 3), (128, 128, 4, 8, 3), (32, 128, 4, 2, 4)]"

definition large_shapes :: "(nat \<times> nat \<times> nat \<times> nat \<times> nat \<times> nat) list" where
  "large_shapes =
     [(64, 64, 64, 1, 4, 3), (64, 128, 32, 1, 4, 3), (64, 128, 64, 1, 8, 3),
      (64, 64, 64, 2, 4, 3), (128, 64, 32, 1, 4, 3), (128, 64, 64, 1, 8, 3),
      (128, 128, 32, 1, 8, 3), (128, 64, 32, 2, 4, 3)]"

text \<open>The configurations; the flag stands for membership of the object's id in \<open>large_ids\<close>.\<close>

definition autotune_configs :: "(bool \<times> fused_cfg) list" where
  "autotune_configs =
     concat (map (\<lambda>bm. map (\<lambda>(bn, bk, sk, nw, ns). (False, \<lparr>cfg_m = bm, cfg_n = bn, cfg_k = bk, cfg_split = sk,
         cfg_warps = nw, cfg_stages = ns\<rparr>)) small_shapes) [16, 32, 64])
     @ map (\<lambda>(bm, bn, bk, sk, nw, ns). (True, \<lparr>cfg_m = bm, cfg_n = bn, cfg_k = bk, cfg_split = sk,
         cfg_warps = nw, cfg_stages = ns\<rparr>)) large_shapes"

definition prune_configs :: "nat \<Rightarrow> (bool \<times> fused_cfg) list \<Rightarrow> (bool \<times> fused_cfg) list" where
  "prune_configs M configs =
     (if M > 64 then filter fst configs
      else filter (\<lambda>(large, c). \<not> large \<and> cfg_m c = small_m_block M) configs)"

subsection \<open>The program\<close>

record fused =
  f_x :: mem
  f_w :: mem
  f_a :: mem
  f_b :: mem
  f_M :: nat
  f_N :: nat
  f_K :: nat
  f_R :: nat
  f_alpha :: real
  s_xm :: int
  s_xk :: int
  s_wn :: int
  s_wk :: int
  s_an :: int
  s_ak :: int
  s_bn :: int
  s_br :: int
  s_ym :: int
  s_yn :: int
  f_cfg :: fused_cfg

abbreviation blkM :: "fused \<Rightarrow> nat" where "blkM F \<equiv> cfg_m (f_cfg F)"
abbreviation blkN :: "fused \<Rightarrow> nat" where "blkN F \<equiv> cfg_n (f_cfg F)"
abbreviation blkK :: "fused \<Rightarrow> nat" where "blkK F \<equiv> cfg_k (f_cfg F)"
abbreviation splitK :: "fused \<Rightarrow> nat" where "splitK F \<equiv> cfg_split (f_cfg F)"

text \<open>\<open>_fused_lora_cpu_reference\<close>, for one element of the output.\<close>

definition fused_cpu_reference :: "fused \<Rightarrow> nat \<Rightarrow> nat \<Rightarrow> real" where
  "fused_cpu_reference F t c =
     (let base_out = (\<Sum>k<f_K F. f_x F (int t * s_xm F + int k * s_xk F) * f_w F (int c * s_wn F + int k * s_wk F));
          h = (\<lambda>r. \<Sum>k<f_K F. f_x F (int t * s_xm F + int k * s_xk F) * f_a F (int r * s_an F + int k * s_ak F));
          lora_out = (\<Sum>r<f_R F. h r * f_b F (int c * s_bn F + int r * s_br F))
      in base_out + f_alpha F * lora_out)"

definition k_chunk :: "fused \<Rightarrow> nat" where
  "k_chunk F = cdiv (cdiv (f_K F) (splitK F)) (blkK F) * blkK F"

text \<open>The loop over \<open>k in range(0, k_chunk, BLOCK_K)\<close>: both accumulators, and the pointers advanced.\<close>

fun fused_loop ::
  "fused \<Rightarrow> (nat \<Rightarrow> nat) \<Rightarrow> (nat \<Rightarrow> nat) \<Rightarrow> nat \<Rightarrow> nat list \<Rightarrow> ptrs \<Rightarrow> ptrs \<Rightarrow> ptrs \<Rightarrow> block \<Rightarrow> block \<Rightarrow> block \<times> block" where
  "fused_loop F offs_m offs_n k_lo [] x_ptrs w_ptrs a_ptrs acc h = (acc, h)"
| "fused_loop F offs_m offs_n k_lo (k # ks) x_ptrs w_ptrs a_ptrs acc h =
     (let k_on = (\<lambda>l. k_lo + k + l < f_K F);
          x = tl_load (f_x F) x_ptrs (\<lambda>i l. offs_m i < f_M F \<and> k_on l);
          w = tl_load (f_w F) w_ptrs (\<lambda>j l. offs_n j < f_N F \<and> k_on l);
          a = tl_load (f_a F) a_ptrs (\<lambda>r l. k_on l)
      in fused_loop F offs_m offs_n k_lo ks
           (\<lambda>i l. x_ptrs i l + int (blkK F) * s_xk F) (\<lambda>j l. w_ptrs j l + int (blkK F) * s_wk F)
           (\<lambda>r l. a_ptrs r l + int (blkK F) * s_ak F)
           (\<lambda>i j. tl_dot (blkK F) x (\<lambda>l j. w j l) i j + acc i j)
           (\<lambda>i r. tl_dot (blkK F) x (\<lambda>l r. a r l) i r + h i r))"

definition rows_of :: "fused \<Rightarrow> nat \<Rightarrow> nat \<Rightarrow> nat" where "rows_of F pid_m = (\<lambda>i. pid_m * blkM F + i)"
definition cols_of :: "fused \<Rightarrow> nat \<Rightarrow> nat \<Rightarrow> nat" where "cols_of F pid_n = (\<lambda>j. pid_n * blkN F + j)"

text \<open>What a program has accumulated before it writes: its K slice of the base product and of the LoRA term.\<close>

definition fused_acc :: "fused \<Rightarrow> (real \<Rightarrow> real) \<Rightarrow> nat \<times> nat \<times> nat \<Rightarrow> block" where
  "fused_acc F half prog =
     (let (pid_n, pid_s, pid_m) = prog;
          offs_m = rows_of F pid_m; offs_n = cols_of F pid_n;
          k_lo = pid_s * k_chunk F;
          x_ptrs = (\<lambda>i l. int (offs_m i) * s_xm F + int (k_lo + l) * s_xk F);
          w_ptrs = (\<lambda>j l. int (offs_n j) * s_wn F + int (k_lo + l) * s_wk F);
          a_ptrs = (\<lambda>r l. int r * s_an F + int (k_lo + l) * s_ak F);
          (acc, h) = fused_loop F offs_m offs_n k_lo (map (\<lambda>q. q * blkK F) [0..<k_chunk F div blkK F])
                       x_ptrs w_ptrs a_ptrs (\<lambda>i j. 0) (\<lambda>i r. 0);
          b = tl_load (f_b F) (\<lambda>j r. int (offs_n j) * s_bn F + int r * s_br F) (\<lambda>j r. offs_n j < f_N F)
      in (\<lambda>i j. tl_dot (f_R F) (\<lambda>i r. half (h i r * f_alpha F)) (\<lambda>r j. b j r) i j + acc i j))"

subsection \<open>The launch\<close>

datatype phase =
    Computing
  | Adding "(nat \<times> nat) list"
  | Arriving
  | Finishing
  | Writing block
  | Zeroing
  | Resetting
  | Finished

record fstate =
  ls_y :: mem
  ls_ws :: mem
  ls_cnt :: "int \<Rightarrow> int"
  ls_pc :: "nat \<times> nat \<times> nat \<Rightarrow> phase"

definition grid_n :: "fused \<Rightarrow> nat" where "grid_n F = cdiv (f_N F) (blkN F)"
definition grid_m :: "fused \<Rightarrow> nat" where "grid_m F = cdiv (f_M F) (blkM F)"

definition fused_grid :: "fused \<Rightarrow> (nat \<times> nat \<times> nat) list" where
  "fused_grid F = grid3 (grid_n F) (splitK F) (grid_m F)"

fun y_mask :: "fused \<Rightarrow> nat \<times> nat \<times> nat \<Rightarrow> mask" where
  "y_mask F (pid_n, pid_s, pid_m) = (\<lambda>i j. rows_of F pid_m i < f_M F \<and> cols_of F pid_n j < f_N F)"

fun y_ptrs :: "fused \<Rightarrow> nat \<times> nat \<times> nat \<Rightarrow> ptrs" where
  "y_ptrs F (pid_n, pid_s, pid_m) = (\<lambda>i j. int (rows_of F pid_m i) * s_ym F + int (cols_of F pid_n j) * s_yn F)"

fun ws_ptrs :: "fused \<Rightarrow> nat \<times> nat \<times> nat \<Rightarrow> ptrs" where
  "ws_ptrs F (pid_n, pid_s, pid_m) = (\<lambda>i j. int (rows_of F pid_m i) * int (f_N F) + int (cols_of F pid_n j))"

fun tile_of :: "fused \<Rightarrow> nat \<times> nat \<times> nat \<Rightarrow> int" where
  "tile_of F (pid_n, pid_s, pid_m) = int (pid_m * grid_n F + pid_n)"

definition cells :: "fused \<Rightarrow> nat \<times> nat \<times> nat \<Rightarrow> (nat \<times> nat) list" where
  "cells F p = filter (\<lambda>(i, j). y_mask F p i j) (List.product [0..<blkM F] [0..<blkN F])"

definition goto :: "nat \<times> nat \<times> nat \<Rightarrow> phase \<Rightarrow> fstate \<Rightarrow> fstate" where
  "goto p ph s = s\<lparr>ls_pc := (ls_pc s)(p := ph)\<rparr>"

inductive fused_step :: "fused \<Rightarrow> (real \<Rightarrow> real) \<Rightarrow> fstate \<Rightarrow> fstate \<Rightarrow> bool" for F half where
  fused_store: "p \<in> set (fused_grid F) \<Longrightarrow> ls_pc s p = Computing \<Longrightarrow> splitK F = 1 \<Longrightarrow>
    fused_step F half s (goto p Finished (s\<lparr>ls_y := tl_store (blkM F) (blkN F) (y_ptrs F p)
      (\<lambda>i j. half (fused_acc F half p i j)) (y_mask F p) (ls_y s)\<rparr>))"
| fused_split: "p \<in> set (fused_grid F) \<Longrightarrow> ls_pc s p = Computing \<Longrightarrow> splitK F \<noteq> 1 \<Longrightarrow>
    fused_step F half s (goto p (Adding (cells F p)) s)"
| fused_add: "p \<in> set (fused_grid F) \<Longrightarrow> ls_pc s p = Adding cs \<Longrightarrow> cell \<in> set cs \<Longrightarrow>
    fused_step F half s (goto p (Adding (removeAll cell cs))
      (s\<lparr>ls_ws := cell_update (+) (ws_ptrs F p) (fused_acc F half p) (y_mask F p) cell (ls_ws s)\<rparr>))"
| fused_barrier: "p \<in> set (fused_grid F) \<Longrightarrow> ls_pc s p = Adding [] \<Longrightarrow> fused_step F half s (goto p Arriving s)"
| fused_arrive: "p \<in> set (fused_grid F) \<Longrightarrow> ls_pc s p = Arriving \<Longrightarrow> arrived = ls_cnt s (tile_of F p) \<Longrightarrow>
    fused_step F half s (goto p (if arrived = int (splitK F) - 1 then Finishing else Finished)
      (s\<lparr>ls_cnt := (ls_cnt s)(tile_of F p := arrived + 1)\<rparr>))"
| fused_load: "p \<in> set (fused_grid F) \<Longrightarrow> ls_pc s p = Finishing \<Longrightarrow>
    fused_step F half s (goto p (Writing (tl_load (ls_ws s) (ws_ptrs F p) (y_mask F p))) s)"
| fused_write: "p \<in> set (fused_grid F) \<Longrightarrow> ls_pc s p = Writing tot \<Longrightarrow>
    fused_step F half s (goto p Zeroing (s\<lparr>ls_y := tl_store (blkM F) (blkN F) (y_ptrs F p)
      (\<lambda>i j. half (tot i j)) (y_mask F p) (ls_y s)\<rparr>))"
| fused_zero: "p \<in> set (fused_grid F) \<Longrightarrow> ls_pc s p = Zeroing \<Longrightarrow>
    fused_step F half s (goto p Resetting (s\<lparr>ls_ws := tl_store (blkM F) (blkN F) (ws_ptrs F p)
      (\<lambda>i j. 0) (y_mask F p) (ls_ws s)\<rparr>))"
| fused_reset: "p \<in> set (fused_grid F) \<Longrightarrow> ls_pc s p = Resetting \<Longrightarrow>
    fused_step F half s (goto p Finished (s\<lparr>ls_cnt := (ls_cnt s)(tile_of F p := 0)\<rparr>))"

inductive fused_run :: "fused \<Rightarrow> (real \<Rightarrow> real) \<Rightarrow> fstate \<Rightarrow> nat \<Rightarrow> fstate \<Rightarrow> bool" for F half where
  run_done: "fused_run F half s 0 s"
| run_step: "fused_run F half s n s' \<Longrightarrow> fused_step F half s' s'' \<Longrightarrow> fused_run F half s (Suc n) s''"

definition launch_start :: "mem \<Rightarrow> mem \<Rightarrow> (int \<Rightarrow> int) \<Rightarrow> fstate" where
  "launch_start y ws cnt = \<lparr>ls_y = y, ls_ws = ws, ls_cnt = cnt, ls_pc = (\<lambda>p. Computing)\<rparr>"

definition launch_over :: "fused \<Rightarrow> fstate \<Rightarrow> bool" where
  "launch_over F s \<longleftrightarrow> list_all (\<lambda>p. ls_pc s p = Finished) (fused_grid F)"

subsection \<open>The workspace and the call\<close>

record scratch =
  sc_ws :: mem
  sc_nws :: nat
  sc_cnt :: "int \<Rightarrow> int"
  sc_ncnt :: nat

text \<open>\<open>_get_workspace\<close>: arrays that are missing or too small are replaced by zeroed ones.\<close>

definition get_workspace :: "('d \<Rightarrow> scratch option) \<Rightarrow> 'd \<Rightarrow> nat \<Rightarrow> nat \<Rightarrow> scratch \<times> ('d \<Rightarrow> scratch option)" where
  "get_workspace workspace device n_ws n_cnt =
     (let old = workspace device;
          (ws, nws) = (case old of
              Some sc \<Rightarrow> if sc_nws sc < n_ws then (\<lambda>a. 0, max n_ws (2 ^ 20)) else (sc_ws sc, sc_nws sc)
            | None \<Rightarrow> (\<lambda>a. 0, max n_ws (2 ^ 20)));
          (cnt, ncnt) = (case old of
              Some sc \<Rightarrow> if sc_ncnt sc < n_cnt then (\<lambda>a. 0, max n_cnt 4096) else (sc_cnt sc, sc_ncnt sc)
            | None \<Rightarrow> (\<lambda>a. 0, max n_cnt 4096));
          new = \<lparr>sc_ws = ws, sc_nws = nws, sc_cnt = cnt, sc_ncnt = ncnt\<rparr>
      in (new, workspace(device := Some new)))"

text \<open>The output \<open>torch.empty\<close> allocates is contiguous.\<close>

definition contiguous_out :: "fused \<Rightarrow> fused" where
  "contiguous_out F = F\<lparr>s_ym := int (f_N F), s_yn := 1\<rparr>"

text \<open>Launches one after another on one workspace, each with its own configuration.\<close>

fun launches :: "fused \<Rightarrow> (real \<Rightarrow> real) \<Rightarrow> fused_cfg list \<Rightarrow> scratch \<Rightarrow> mem \<Rightarrow> mem \<Rightarrow> scratch \<Rightarrow> bool" where
  "launches F half [] sc y y' sc' \<longleftrightarrow> y' = y \<and> sc' = sc"
| "launches F half (c # cs) sc y y' sc' \<longleftrightarrow>
     (\<exists>n s. fused_run (F\<lparr>f_cfg := c\<rparr>) half (launch_start y (sc_ws sc) (sc_cnt sc)) n s \<and> launch_over (F\<lparr>f_cfg := c\<rparr>) s \<and>
        launches F half cs (sc\<lparr>sc_ws := ls_ws s, sc_cnt := ls_cnt s\<rparr>) (ls_y s) y' sc')"

text \<open>The key of \<open>_launch_cache\<close>: device, sizes, strides, and which pointers are aligned.\<close>

type_synonym 'd launch_key = "'d \<times> (nat \<times> nat \<times> nat \<times> nat) \<times> int list \<times> bool list"

definition launch_key :: "fused \<Rightarrow> 'd \<Rightarrow> bool list \<Rightarrow> 'd launch_key" where
  "launch_key F device aligned =
     (device, (f_M F, f_N F, f_K F, f_R F),
      [s_xm F, s_xk F, s_wn F, s_wk F, s_an F, s_ak F, s_bn F, s_br F, s_ym F, s_yn F], aligned)"

text \<open>
  One call of \<open>_forward_triton\<close>: \<open>y0\<close> is the uninitialised output. On a miss the autotuner launches the
  configurations it times, and then the one it chose; both are the argument \<open>tuned\<close>. Triton is asked to
  compile the kernel for the rank: \<open>compiles\<close> says whether it does (it wants a power of two for
  \<open>tl.arange(0, R)\<close> and at least 16 for \<open>tl.dot\<close>). If not, the call raises: the outcome is \<open>None\<close>, the
  workspace is allocated and nothing is cached. A hit was compiled before.
\<close>

definition forward_triton ::
  "fused \<Rightarrow> (real \<Rightarrow> real) \<Rightarrow> (nat \<Rightarrow> bool) \<Rightarrow> 'd \<Rightarrow> bool list \<Rightarrow> fused_cfg list \<times> fused_cfg \<Rightarrow>
     ('d \<Rightarrow> scratch option) \<Rightarrow> ('d launch_key \<Rightarrow> fused_cfg option) \<Rightarrow> mem \<Rightarrow>
     mem option \<Rightarrow> ('d \<Rightarrow> scratch option) \<Rightarrow> ('d launch_key \<Rightarrow> fused_cfg option) \<Rightarrow> bool" where
  "forward_triton F half compiles device aligned tuned workspace cache y0 out workspace' cache' \<longleftrightarrow>
     (let G = contiguous_out F;
          (sc, wsp) = get_workspace workspace device (f_M G * f_N G) (cdiv (f_M G) 16 * cdiv (f_N G) 32);
          key = launch_key G device aligned
      in case cache key of
           Some c \<Rightarrow>
             (\<exists>sc' y. out = Some y \<and> workspace' = wsp(device := Some sc') \<and> cache' = cache \<and> launches G half [c] sc y0 y sc')
         | None \<Rightarrow>
             if compiles (f_R G)
             then \<exists>sc' y. out = Some y \<and> workspace' = wsp(device := Some sc') \<and> cache' = cache(key := Some (snd tuned)) \<and>
               launches G half (fst tuned @ [snd tuned]) sc y0 y sc'
             else out = None \<and> workspace' = wsp \<and> cache' = cache)"

text \<open>\<open>_check_triton\<close> with its cached answer, and \<open>forward\<close>'s choice.\<close>

definition check_triton :: "(string, string) dict \<Rightarrow> bool \<Rightarrow> bool option \<Rightarrow> bool \<times> bool option" where
  "check_triton env import_ok cached =
     (case cached of
        Some b \<Rightarrow> (b, cached)
      | None \<Rightarrow> if dict_get env ''AS_FUSED_KERNEL'' ''1'' = ''0'' then (False, Some False)
                else (import_ok, Some import_ok))"

definition fused_forward ::
  "bool \<Rightarrow> bool \<Rightarrow> fused \<Rightarrow> (real \<Rightarrow> real) \<Rightarrow> (nat \<Rightarrow> bool) \<Rightarrow> 'd \<Rightarrow> bool list \<Rightarrow> fused_cfg list \<times> fused_cfg \<Rightarrow>
     ('d \<Rightarrow> scratch option) \<Rightarrow> ('d launch_key \<Rightarrow> fused_cfg option) \<Rightarrow> mem \<Rightarrow>
     mem option \<Rightarrow> ('d \<Rightarrow> scratch option) \<Rightarrow> ('d launch_key \<Rightarrow> fused_cfg option) \<Rightarrow> bool" where
  "fused_forward available is_cuda F half compiles device aligned tuned workspace cache y0 out workspace' cache' \<longleftrightarrow>
     (if \<not> available \<or> \<not> is_cuda
      then workspace' = workspace \<and> cache' = cache \<and>
        (\<exists>y. out = Some y \<and> (\<forall>t<f_M F. \<forall>c<f_N F. y (int t * int (f_N F) + int c) = fused_cpu_reference F t c))
      else forward_triton F half compiles device aligned tuned workspace cache y0 out workspace' cache')"

end
