(* ===== verification/FusedLaunch.thy ===== *)
theory FusedLaunch
  imports FusedKernel Launches
begin

text \<open>
  What a launch of the fused kernel computes, whatever the interleaving. One output element is an
  abstract counted sum: its contributors add their shares and count themselves in, and the last
  one stores the total and clears the sum. Every step of the launch is a step of that machine, or no
  step, for every element (a refinement); the machine's invariant gives the result.
\<close>

subsection \<open>A counted sum\<close>

datatype part = Before | Added | Closing | Holding real | Stored | Cleared | Done

record counted =
  c_ws :: real
  c_y :: real
  c_cnt :: int
  c_pc :: "nat \<Rightarrow> part"

abbreviation part_to :: "nat \<Rightarrow> part \<Rightarrow> counted \<Rightarrow> counted" where
  "part_to i ph c \<equiv> c\<lparr>c_pc := (c_pc c)(i := ph)\<rparr>"

inductive counted_step :: "nat \<Rightarrow> (nat \<Rightarrow> real) \<Rightarrow> (real \<Rightarrow> real) \<Rightarrow> counted \<Rightarrow> counted \<Rightarrow> bool" for k v half where
  c_direct: "i < k \<Longrightarrow> k = 1 \<Longrightarrow> c_pc c i = Before \<Longrightarrow>
    counted_step k v half c (part_to i Done (c\<lparr>c_y := half (v i)\<rparr>))"
| c_add: "i < k \<Longrightarrow> c_pc c i = Before \<Longrightarrow>
    counted_step k v half c (part_to i Added (c\<lparr>c_ws := c_ws c + v i\<rparr>))"
| c_arrive: "i < k \<Longrightarrow> c_pc c i = Added \<Longrightarrow>
    counted_step k v half c (part_to i (if c_cnt c = int k - 1 then Closing else Done) (c\<lparr>c_cnt := c_cnt c + 1\<rparr>))"
| c_load: "i < k \<Longrightarrow> c_pc c i = Closing \<Longrightarrow> counted_step k v half c (part_to i (Holding (c_ws c)) c)"
| c_write: "i < k \<Longrightarrow> c_pc c i = Holding x \<Longrightarrow> counted_step k v half c (part_to i Stored (c\<lparr>c_y := half x\<rparr>))"
| c_zero: "i < k \<Longrightarrow> c_pc c i = Stored \<Longrightarrow> counted_step k v half c (part_to i Cleared (c\<lparr>c_ws := 0\<rparr>))"
| c_reset: "i < k \<Longrightarrow> c_pc c i = Cleared \<Longrightarrow> counted_step k v half c (part_to i Done (c\<lparr>c_cnt := 0\<rparr>))"

definition summing :: "nat \<Rightarrow> (nat \<Rightarrow> real) \<Rightarrow> counted \<Rightarrow> bool" where
  "summing k v c \<longleftrightarrow> (\<forall>i<k. c_pc c i \<in> {Before, Added, Done}) \<and> (\<exists>i<k. c_pc c i \<noteq> Done) \<and>
     c_cnt c = int (card {i. i < k \<and> c_pc c i = Done}) \<and>
     c_ws c = (\<Sum>i<k. if c_pc c i = Before then 0 else v i)"

definition closing :: "nat \<Rightarrow> (real \<Rightarrow> real) \<Rightarrow> real \<Rightarrow> counted \<Rightarrow> nat \<Rightarrow> bool" where
  "closing k half V c f \<longleftrightarrow> f < k \<and> (\<forall>i<k. i \<noteq> f \<longrightarrow> c_pc c i = Done) \<and>
     (c_pc c f \<in> {Closing, Holding V} \<and> c_cnt c = int k \<and> c_ws c = V \<or>
      c_pc c f = Stored \<and> c_cnt c = int k \<and> c_ws c = V \<and> c_y c = half V \<or>
      c_pc c f = Cleared \<and> c_cnt c = int k \<and> c_ws c = 0 \<and> c_y c = half V \<or>
      c_pc c f = Done \<and> c_cnt c = 0 \<and> c_ws c = 0 \<and> c_y c = half V)"

definition counted_inv :: "nat \<Rightarrow> (nat \<Rightarrow> real) \<Rightarrow> (real \<Rightarrow> real) \<Rightarrow> counted \<Rightarrow> bool" where
  "counted_inv k v half c \<longleftrightarrow> summing k v c \<or> (\<exists>f. closing k half (\<Sum>i<k. v i) c f)"

lemma counted_start:
  "0 < k \<Longrightarrow> counted_inv k v half \<lparr>c_ws = 0, c_y = y, c_cnt = 0, c_pc = (\<lambda>i. Before)\<rparr>"
  by (auto simp: counted_inv_def summing_def)

lemma sum_marked:
  assumes "i < (k :: nat)" and "pc i = Before" and "ph \<noteq> Before"
  shows "(\<Sum>j<k. if (pc(i := ph)) j = Before then 0 else v j) = (\<Sum>j<k. if pc j = Before then 0 else v j) + (v i :: real)"
proof -
  have "(\<Sum>j<k. if (pc(i := ph)) j = Before then 0 else v j) = v i + (\<Sum>j\<in>{..<k} - {i}. if pc j = Before then 0 else v j)"
    using assms by (subst sum.remove [of _ i]) (auto intro!: sum.cong)
  also have "(\<Sum>j\<in>{..<k} - {i}. if pc j = Before then 0 else v j) = (\<Sum>j<k. if pc j = Before then 0 else v j)"
    using assms by (subst sum.remove [of "{..<k}" i]) auto
  finally show ?thesis by simp
qed

lemma summing_arrive:
  assumes s: "summing k v c" and i: "i < k" "c_pc c i = Added"
  shows "counted_inv k v half (part_to i (if c_cnt c = int k - 1 then Closing else Done) (c\<lparr>c_cnt := c_cnt c + 1\<rparr>))"
proof -
  let ?D = "{j. j < k \<and> c_pc c j = Done}"
  have fin: "finite ?D" "?D \<subseteq> {..<k} - {i}" using i by auto
  have ws: "c_ws c = (\<Sum>j<k. if c_pc c j = Before then 0 else v j)" and cnt: "c_cnt c = int (card ?D)"
    using s by (auto simp: summing_def)
  show ?thesis
  proof (cases "card ?D = k - 1")
    case True
    then have "?D = {..<k} - {i}" using i fin by (intro card_subset_eq) auto
    then have dn: "j < k \<Longrightarrow> j \<noteq> i \<Longrightarrow> c_pc c j = Done" for j by auto
    then have "c_ws c = (\<Sum>j<k. v j)" unfolding ws using i by (intro sum.cong) (auto, metis part.distinct(1,11))
    then have "closing k half (\<Sum>j<k. v j) (part_to i Closing (c\<lparr>c_cnt := c_cnt c + 1\<rparr>)) i"
      using True i dn cnt by (auto simp: closing_def)
    then show ?thesis using True i cnt by (auto simp: counted_inv_def)
  next
    case False
    have "{j. j < k \<and> ((c_pc c)(i := Done)) j = Done} = insert i ?D" using i by auto
    then have card: "card {j. j < k \<and> ((c_pc c)(i := Done)) j = Done} = Suc (card ?D)" using i fin by simp
    have "\<exists>j<k. j \<noteq> i \<and> c_pc c j \<noteq> Done"
    proof (rule ccontr)
      assume "\<not> ?thesis"
      then have "?D = {..<k} - {i}" using i by auto
      then show False using False i by simp
    qed
    moreover have "(\<Sum>j<k. if ((c_pc c)(i := Done)) j = Before then 0 else v j) = c_ws c"
      unfolding ws using i by (intro sum.cong) auto
    moreover have "c_cnt c \<noteq> int k - 1" using False cnt i by auto
    ultimately have "summing k v (part_to i Done (c\<lparr>c_cnt := c_cnt c + 1\<rparr>))"
      using s card cnt by (auto simp: summing_def)
    then show ?thesis using \<open>c_cnt c \<noteq> int k - 1\<close> by (simp add: counted_inv_def)
  qed
qed

lemma closer:
  assumes "counted_inv k v half c" and "i < k" and "c_pc c i \<notin> {Before, Added, Done}"
  shows "closing k half (\<Sum>i<k. v i) c i"
proof -
  obtain f where "closing k half (\<Sum>i<k. v i) c f"
    using assms by (auto simp: counted_inv_def summing_def)
  moreover from this have "f = i" using assms(2,3) by (auto simp: closing_def)
  ultimately show ?thesis by simp
qed

lemma counted_step_inv:
  assumes "counted_step k v half c c'" and "counted_inv k v half c"
  shows "counted_inv k v half c'"
  using assms
proof (cases rule: counted_step.cases)
  case (c_direct i)
  then have "i = 0" by simp
  with c_direct assms(2) have "closing k half (\<Sum>i<k. v i) c' 0"
    by (auto simp: counted_inv_def summing_def closing_def)
  then show ?thesis by (auto simp: counted_inv_def)
next
  case (c_add i)
  then have s: "summing k v c" using assms(2) by (fastforce simp: counted_inv_def closing_def)
  have "{j. j < k \<and> ((c_pc c)(i := Added)) j = Done} = {j. j < k \<and> c_pc c j = Done}" using c_add by auto
  then have "summing k v c'"
    using s c_add sum_marked [of i k "c_pc c" Added v] by (auto simp: summing_def simp del: fun_upd_apply)
      (auto simp: fun_upd_apply)
  then show ?thesis by (simp add: counted_inv_def)
next
  case (c_arrive i)
  then have "summing k v c" using assms(2) by (fastforce simp: counted_inv_def closing_def)
  from summing_arrive [OF this c_arrive(2,3)] show ?thesis by (simp only: c_arrive(1))
next
  case (c_load i)
  then have "closing k half (\<Sum>i<k. v i) c' i" using closer [OF assms(2), of i] by (simp add: closing_def)
  then show ?thesis by (auto simp: counted_inv_def)
next
  case (c_write i x)
  then have "closing k half (\<Sum>i<k. v i) c' i" using closer [OF assms(2), of i] by (simp add: closing_def)
  then show ?thesis by (auto simp: counted_inv_def)
next
  case (c_zero i)
  then have "closing k half (\<Sum>i<k. v i) c' i" using closer [OF assms(2), of i] by (simp add: closing_def)
  then show ?thesis by (auto simp: counted_inv_def)
next
  case (c_reset i)
  then have "closing k half (\<Sum>i<k. v i) c' i" using closer [OF assms(2), of i] by (simp add: closing_def)
  then show ?thesis by (auto simp: counted_inv_def)
qed

subsection \<open>One output element of the launch\<close>

text \<open>What the theorems assume of a call: block sizes and the output's strides.\<close>

definition fused_ok :: "fused \<Rightarrow> bool" where
  "fused_ok F \<longleftrightarrow> 0 < blkM F \<and> 0 < blkN F \<and> 0 < blkK F \<and> 0 < splitK F \<and>
     inj_on (\<lambda>(t, c). int t * s_ym F + int c * s_yn F) ({..<f_M F} \<times> {..<f_N F})"

fun abs_part :: "nat \<times> nat \<Rightarrow> phase \<Rightarrow> part" where
  "abs_part cell Computing = Before"
| "abs_part cell (Adding cs) = (if cell \<in> set cs then Before else Added)"
| "abs_part cell Arriving = Added"
| "abs_part cell Finishing = Closing"
| "abs_part cell (Writing tot) = Holding (tot (fst cell) (snd cell))"
| "abs_part cell Zeroing = Stored"
| "abs_part cell Resetting = Cleared"
| "abs_part cell Finished = Done"

definition cell_of :: "fused \<Rightarrow> nat \<Rightarrow> nat \<Rightarrow> nat \<times> nat" where
  "cell_of F t c = (t mod blkM F, c mod blkN F)"

definition prog_of :: "fused \<Rightarrow> nat \<Rightarrow> nat \<Rightarrow> nat \<Rightarrow> nat \<times> nat \<times> nat" where
  "prog_of F t c i = (c div blkN F, i, t div blkM F)"

definition abs_cell :: "fused \<Rightarrow> nat \<Rightarrow> nat \<Rightarrow> fstate \<Rightarrow> counted" where
  "abs_cell F t c s =
     \<lparr>c_ws = ls_ws s (int t * int (f_N F) + int c), c_y = ls_y s (int t * s_ym F + int c * s_yn F),
      c_cnt = ls_cnt s (tile_of F (prog_of F t c 0)),
      c_pc = (\<lambda>i. abs_part (cell_of F t c) (ls_pc s (prog_of F t c i)))\<rparr>"

definition share :: "fused \<Rightarrow> (real \<Rightarrow> real) \<Rightarrow> nat \<Rightarrow> nat \<Rightarrow> nat \<Rightarrow> real" where
  "share F half t c i = (case cell_of F t c of (a, b) \<Rightarrow> fused_acc F half (prog_of F t c i) a b)"

text \<open>The tile of an element contains the program \<open>p\<close>.\<close>

definition at_tile :: "fused \<Rightarrow> nat \<Rightarrow> nat \<Rightarrow> nat \<times> nat \<times> nat \<Rightarrow> bool" where
  "at_tile F t c p \<longleftrightarrow> p = prog_of F t c (fst (snd p))"

lemma at_tileE:
  assumes "at_tile F t c p"
  obtains i where "p = prog_of F t c i"
  using assms by (auto simp: at_tile_def)

lemma at_tile_prog [simp]: "at_tile F t c (prog_of F t c i)"
  by (simp add: at_tile_def prog_of_def)

lemma at_tile_tuple: "at_tile F t c (n, i, m) \<longleftrightarrow> m = t div blkM F \<and> n = c div blkN F"
  by (auto simp: at_tile_def prog_of_def)

lemma abs_goto:
  "abs_cell F t c (goto (prog_of F t c i) ph s) = part_to i (abs_part (cell_of F t c) ph) (abs_cell F t c s)"
  "\<not> at_tile F t c p \<Longrightarrow> abs_cell F t c (goto p ph s) = abs_cell F t c s"
  by (auto simp: abs_cell_def goto_def at_tile_def prog_of_def fun_eq_iff)

lemma abs_upd [simp]:
  "abs_cell F t c (s\<lparr>ls_y := y\<rparr>) = (abs_cell F t c s)\<lparr>c_y := y (int t * s_ym F + int c * s_yn F)\<rparr>"
  "abs_cell F t c (s\<lparr>ls_ws := w\<rparr>) = (abs_cell F t c s)\<lparr>c_ws := w (int t * int (f_N F) + int c)\<rparr>"
  "abs_cell F t c (s\<lparr>ls_cnt := n\<rparr>) = (abs_cell F t c s)\<lparr>c_cnt := n (tile_of F (prog_of F t c 0))\<rparr>"
  by (simp_all add: abs_cell_def)

text \<open>A masked cell of a program's tile is one output element, and no other.\<close>

lemma tile_cell:
  assumes "0 < (bm :: nat)" and "0 < bn" and "i < bm" and "j < (bn :: nat)"
  shows "m * bm + i = t \<and> n * bn + j = c \<longleftrightarrow> (m, i) = (t div bm, t mod bm) \<and> (n, j) = (c div bn, c mod (bn :: nat))"
  using assms by (auto simp: mult.commute)

lemma block_update:
  assumes inj: "inj_on (\<lambda>(t, c). ad t c) ({..<M} \<times> {..<N})" and tc: "t < M" "c < N" and b: "0 < bm" "0 < bn"
  shows "tl_update f bm bn (\<lambda>i j. ad (m * bm + i) (n * bn + j)) v (\<lambda>i j. m * bm + i < M \<and> n * bn + j < N) mem (ad t c) =
    (if m = t div bm \<and> n = c div bn then f (mem (ad t c)) (v (t mod bm) (c mod bn)) else mem (ad t c))"
proof -
  have same: "ad (m * bm + i) (n * bn + j) = ad t c \<longleftrightarrow> m * bm + i = t \<and> n * bn + j = c"
    if "m * bm + i < M" "n * bn + j < N" for i j
    using inj_onD [OF inj, of "(m * bm + i, n * bn + j)" "(t, c)"] that tc by auto
  show ?thesis
  proof (cases "m = t div bm \<and> n = c div bn")
    case True
    then have e: "m * bm + t mod bm = t" "n * bn + c mod bn = c" by simp_all
    have "tl_update f bm bn (\<lambda>i j. ad (m * bm + i) (n * bn + j)) v (\<lambda>i j. m * bm + i < M \<and> n * bn + j < N) mem
        (ad (m * bm + t mod bm) (n * bn + c mod bn)) =
      f (mem (ad (m * bm + t mod bm) (n * bn + c mod bn))) (v (t mod bm) (c mod bn))"
    proof (rule update_hit)
      fix i j assume a: "i < bm" "j < bn" "m * bm + i < M \<and> n * bn + j < N"
        "ad (m * bm + i) (n * bn + j) = ad (m * bm + t mod bm) (n * bn + c mod bn)"
      then show "i = t mod bm \<and> j = c mod bn" using same [of i j] e tile_cell [OF b a(1,2), of m t n c] by simp
    qed (use b tc e in auto)
    then show ?thesis using True e by simp
  next
    case False
    have "tl_update f bm bn (\<lambda>i j. ad (m * bm + i) (n * bn + j)) v (\<lambda>i j. m * bm + i < M \<and> n * bn + j < N) mem (ad t c)
        = mem (ad t c)"
      by (rule update_miss) (use same tile_cell [OF b] False in blast)
    then show ?thesis using False by auto
  qed
qed

lemma y_block:
  assumes "fused_ok F" and "t < f_M F" and "c < f_N F"
  shows "tl_update f (blkM F) (blkN F) (y_ptrs F p) v (y_mask F p) mem (int t * s_ym F + int c * s_yn F) =
    (if at_tile F t c p then f (mem (int t * s_ym F + int c * s_yn F)) (case cell_of F t c of (a, b) \<Rightarrow> v a b)
     else mem (int t * s_ym F + int c * s_yn F))"
proof -
  obtain n i m where p: "p = (n, i, m)" by (cases p)
  from assms show ?thesis unfolding p
    using block_update [of "\<lambda>t c. int t * s_ym F + int c * s_yn F" "f_M F" "f_N F" t c "blkM F" "blkN F" f m n v mem]
    by (simp add: fused_ok_def rows_of_def cols_of_def at_tile_tuple cell_of_def)
qed

lemma ws_block:
  assumes "fused_ok F" and "t < f_M F" and "c < f_N F"
  shows "tl_update f (blkM F) (blkN F) (ws_ptrs F p) v (y_mask F p) mem (int t * int (f_N F) + int c) =
    (if at_tile F t c p then f (mem (int t * int (f_N F) + int c)) (case cell_of F t c of (a, b) \<Rightarrow> v a b)
     else mem (int t * int (f_N F) + int c))"
proof -
  obtain n i m where p: "p = (n, i, m)" by (cases p)
  from assms show ?thesis unfolding p
    using block_update [OF row_major_addr [of "f_N F" "f_M F"], of t c "blkM F" "blkN F" f m n v mem]
    by (simp add: fused_ok_def rows_of_def cols_of_def at_tile_tuple cell_of_def)
qed

lemma ws_cell:
  assumes "fused_ok F" and "t < f_M F" and "c < f_N F" and "cell \<in> set (cells F p)"
  shows "cell_update f (ws_ptrs F p) v (y_mask F p) cell mem (int t * int (f_N F) + int c) =
    (if at_tile F t c p \<and> cell = cell_of F t c
     then f (mem (int t * int (f_N F) + int c)) (case cell_of F t c of (a, b) \<Rightarrow> v a b)
     else mem (int t * int (f_N F) + int c))"
proof -
  obtain a b n i m where cell: "cell = (a, b)" "p = (n, i, m)" by (cases cell, cases p)
  then have ab: "a < blkM F" "b < blkN F" "rows_of F m a < f_M F" "cols_of F n b < f_N F"
    using assms(4) by (auto simp: cells_def)
  have "int (rows_of F m a) * int (f_N F) + int (cols_of F n b) = int t * int (f_N F) + int c \<longleftrightarrow>
      rows_of F m a = t \<and> cols_of F n b = c"
    using inj_onD [OF row_major_addr [of "f_N F" "f_M F"], of "(rows_of F m a, cols_of F n b)" "(t, c)"] ab assms(2,3)
    by auto
  also have "\<dots> \<longleftrightarrow> at_tile F t c p \<and> cell = cell_of F t c"
    using tile_cell [of "blkM F" "blkN F" a b m t n c] ab assms(1)
    by (auto simp: rows_of_def cols_of_def at_tile_tuple cell_of_def cell fused_ok_def)
  finally have eq: "ws_ptrs F p a b = int t * int (f_N F) + int c \<longleftrightarrow> at_tile F t c p \<and> cell = cell_of F t c"
    by (simp add: cell)
  have "y_mask F p a b" using ab by (simp add: cell)
  then show ?thesis using eq cell(1) by (cases "at_tile F t c p \<and> cell = cell_of F t c") (auto simp: cell_update_def)
qed

lemma in_grid [simp]: "(n, i, m) \<in> set (fused_grid F) \<longleftrightarrow> n < grid_n F \<and> i < splitK F \<and> m < grid_m F"
  by (simp add: fused_grid_def set_grid3)

lemma tile_eq:
  assumes "fused_ok F" and "p \<in> set (fused_grid F)" and "t < f_M F" and "c < f_N F"
  shows "tile_of F (prog_of F t c 0) = tile_of F p \<longleftrightarrow> at_tile F t c p"
proof -
  obtain n i m where p: "p = (n, i, m)" by (cases p)
  have "c div blkN F < grid_n F" using row_tile [of "blkN F" c "f_N F"] assms by (simp add: grid_n_def fused_ok_def)
  moreover have "n < grid_n F" using assms(2) by (simp add: p)
  ultimately show ?thesis using mixed_radix [of n "grid_n F" "c div blkN F" m "t div blkM F"] unfolding p
    by (auto simp: prog_of_def at_tile_tuple add.commute simp del: of_nat_add of_nat_mult)
qed

lemma tile_prog: "tile_of F (prog_of F t c i) = tile_of F (prog_of F t c 0)"
  by (simp add: prog_of_def)

text \<open>A program adds only cells of its own tile.\<close>

definition adding_ok :: "fused \<Rightarrow> fstate \<Rightarrow> bool" where
  "adding_ok F s \<longleftrightarrow> (\<forall>p cs. ls_pc s p = Adding cs \<longrightarrow> set cs \<subseteq> set (cells F p))"

lemma adding_goto:
  "adding_ok F s \<Longrightarrow> (\<And>cs. ph = Adding cs \<Longrightarrow> set cs \<subseteq> set (cells F p)) \<Longrightarrow> ls_pc s' = ls_pc s \<Longrightarrow>
     adding_ok F (goto p ph s')"
  by (simp add: adding_ok_def goto_def)

lemma adding_step: "fused_step F half s s' \<Longrightarrow> adding_ok F s \<Longrightarrow> adding_ok F s'"
proof (induction rule: fused_step.induct)
  case (fused_add p s cs cell)
  then have "set cs \<subseteq> set (cells F p)" unfolding adding_ok_def by blast
  then show ?case using fused_add by (intro adding_goto [of F s]) auto
qed (auto intro!: adding_goto)

lemma cell_in_tile: "fused_ok F \<Longrightarrow> t < f_M F \<Longrightarrow> c < f_N F \<Longrightarrow> cell_of F t c \<in> set (cells F (prog_of F t c i))"
  by (auto simp: cells_def cell_of_def prog_of_def fused_ok_def rows_of_def cols_of_def)

text \<open>Every step of the launch is a step of each element's counted sum, or leaves it alone.\<close>

lemma abs_pc: "c_pc (abs_cell F t c s) i = abs_part (cell_of F t c) (ls_pc s (prog_of F t c i))"
  by (simp add: abs_cell_def)

lemma abs_fields [simp]:
  "c_ws (abs_cell F t c s) = ls_ws s (int t * int (f_N F) + int c)"
  "c_y (abs_cell F t c s) = ls_y s (int t * s_ym F + int c * s_yn F)"
  "c_cnt (abs_cell F t c s) = ls_cnt s (tile_of F (prog_of F t c 0))"
  by (simp_all add: abs_cell_def)

lemma counted_eqI:
  "c_ws c = c_ws c' \<Longrightarrow> c_y c = c_y c' \<Longrightarrow> c_cnt c = c_cnt c' \<Longrightarrow> c_pc c = c_pc c' \<Longrightarrow> c = (c' :: counted)"
  by simp

lemma load_cell:
  "t < f_M F \<Longrightarrow> c < f_N F \<Longrightarrow>
     tl_load w (ws_ptrs F (prog_of F t c i)) (y_mask F (prog_of F t c i)) (fst (cell_of F t c)) (snd (cell_of F t c)) =
       w (int t * int (f_N F) + int c)"
  by (simp add: tl_load_def prog_of_def cell_of_def rows_of_def cols_of_def flip: of_nat_mult of_nat_add)

lemma fused_refines:
  assumes step: "fused_step F half s s'" and ok: "fused_ok F" "adding_ok F s" and tc: "t < f_M F" "c < f_N F"
  shows "abs_cell F t c s' = abs_cell F t c s \<or>
    counted_step (splitK F) (share F half t c) half (abs_cell F t c s) (abs_cell F t c s')"
proof -
  note blocks = y_block [OF ok(1) tc] ws_block [OF ok(1) tc] tl_store_def
  show ?thesis using step
  proof (cases rule: fused_step.cases)
    case (fused_store p)
    show ?thesis
    proof (cases "at_tile F t c p")
      case True
      then obtain i where p: "p = prog_of F t c i" by (rule at_tileE)
      then have "i < splitK F" using fused_store(2) by (simp add: prog_of_def)
      from c_direct [OF this fused_store(4), of "abs_cell F t c s" "share F half t c" half] fused_store(1,3)
      show ?thesis by (simp add: p abs_goto abs_pc blocks share_def split: prod.splits)
    qed (use fused_store in \<open>simp add: abs_goto blocks\<close>)
  next
    case (fused_add p cs cell)
    then have cell: "cell \<in> set (cells F p)" using ok(2) unfolding adding_ok_def by blast
    show ?thesis
    proof (cases "at_tile F t c p")
      case True
      then obtain i where p: "p = prog_of F t c i" by (rule at_tileE)
      then have i: "i < splitK F" using fused_add(2) by (simp add: prog_of_def)
      show ?thesis
      proof (cases "cell = cell_of F t c")
        case True
        from c_add [OF i, of "abs_cell F t c s" "share F half t c" half] fused_add True
        show ?thesis by (simp add: p abs_goto abs_pc ws_cell [OF ok(1) tc cell [unfolded p True]] share_def split: prod.splits)
      next
        case False
        have "abs_cell F t c s' = abs_cell F t c s"
          using fused_add(1,3) False
          by (intro counted_eqI ext)
             (simp_all add: p abs_goto abs_pc ws_cell [OF ok(1) tc cell [unfolded p]])
        then show ?thesis by simp
      qed
    qed (use fused_add cell in \<open>simp add: abs_goto ws_cell [OF ok(1) tc cell]\<close>)
  next
    case (fused_split p)
    show ?thesis
    proof (cases "at_tile F t c p")
      case True
      then obtain i where p: "p = prog_of F t c i" by (rule at_tileE)
      have "abs_cell F t c s' = abs_cell F t c s"
        using fused_split(1,3) by (intro counted_eqI ext) (simp_all add: p abs_goto abs_pc cell_in_tile [OF ok(1) tc])
      then show ?thesis by simp
    qed (use fused_split in \<open>simp add: abs_goto\<close>)
  next
    case (fused_barrier p)
    show ?thesis
    proof (cases "at_tile F t c p")
      case True
      then obtain i where p: "p = prog_of F t c i" by (rule at_tileE)
      have "abs_cell F t c s' = abs_cell F t c s"
        using fused_barrier(1,3) by (intro counted_eqI ext) (simp_all add: p abs_goto abs_pc)
      then show ?thesis by simp
    qed (use fused_barrier in \<open>simp add: abs_goto\<close>)
  next
    case (fused_arrive p arrived)
    show ?thesis
    proof (cases "at_tile F t c p")
      case True
      then obtain i where p: "p = prog_of F t c i" by (rule at_tileE)
      then have i: "i < splitK F" using fused_arrive(2) by (simp add: prog_of_def)
      from c_arrive [OF i, of "abs_cell F t c s" "share F half t c" half] fused_arrive
      show ?thesis
        by (cases "arrived = int (splitK F) - 1") (simp_all add: p abs_goto abs_pc tile_prog [of F t c i])
    qed (use fused_arrive in \<open>simp add: abs_goto tile_eq [OF ok(1) _ tc]\<close>)
  next
    case (fused_load p)
    show ?thesis
    proof (cases "at_tile F t c p")
      case True
      then obtain i where p: "p = prog_of F t c i" by (rule at_tileE)
      then have i: "i < splitK F" using fused_load(2) by (simp add: prog_of_def)
      from c_load [OF i, of "abs_cell F t c s" "share F half t c" half] fused_load
      show ?thesis by (simp add: p abs_goto abs_pc load_cell [OF tc] split: prod.splits)
    qed (use fused_load in \<open>simp add: abs_goto\<close>)
  next
    case (fused_write p tot)
    show ?thesis
    proof (cases "at_tile F t c p")
      case True
      then obtain i where p: "p = prog_of F t c i" by (rule at_tileE)
      then have i: "i < splitK F" using fused_write(2) by (simp add: prog_of_def)
      from c_write [OF i, of "abs_cell F t c s" _ "share F half t c" half] fused_write
      show ?thesis by (simp add: p abs_goto abs_pc blocks case_prod_unfold)
    qed (use fused_write in \<open>simp add: abs_goto blocks\<close>)
  next
    case (fused_zero p)
    show ?thesis
    proof (cases "at_tile F t c p")
      case True
      then obtain i where p: "p = prog_of F t c i" by (rule at_tileE)
      then have i: "i < splitK F" using fused_zero(2) by (simp add: prog_of_def)
      from c_zero [OF i, of "abs_cell F t c s" "share F half t c" half] fused_zero
      show ?thesis by (simp add: p abs_goto abs_pc blocks case_prod_unfold)
    qed (use fused_zero in \<open>simp add: abs_goto blocks\<close>)
  next
    case (fused_reset p)
    show ?thesis
    proof (cases "at_tile F t c p")
      case True
      then obtain i where p: "p = prog_of F t c i" by (rule at_tileE)
      then have i: "i < splitK F" using fused_reset(2) by (simp add: prog_of_def)
      from c_reset [OF i, of "abs_cell F t c s" "share F half t c" half] fused_reset
      show ?thesis by (simp add: p abs_goto abs_pc tile_prog [of F t c i] if_distrib [of "abs_part (cell_of F t c)"] split: prod.splits)
    qed (use fused_reset in \<open>simp add: abs_goto tile_eq [OF ok(1) _ tc]\<close>)
  qed
qed

subsection \<open>The shares of the K slices\<close>

definition x_at :: "fused \<Rightarrow> nat \<Rightarrow> nat \<Rightarrow> real" where "x_at F t k = f_x F (int t * s_xm F + int k * s_xk F)"
definition w_at :: "fused \<Rightarrow> nat \<Rightarrow> nat \<Rightarrow> real" where "w_at F c k = f_w F (int c * s_wn F + int k * s_wk F)"
definition a_at :: "fused \<Rightarrow> nat \<Rightarrow> nat \<Rightarrow> real" where "a_at F r k = f_a F (int r * s_an F + int k * s_ak F)"
definition b_at :: "fused \<Rightarrow> nat \<Rightarrow> nat \<Rightarrow> real" where "b_at F c r = f_b F (int c * s_bn F + int r * s_br F)"

lemma fused_loop_from:
  assumes "q0 \<le> n"
  shows "fused_loop F om cn k_lo (map (\<lambda>q. q * blkK F) [q0..<n])
      (\<lambda>i l. int (om i) * s_xm F + int (k_lo + q0 * blkK F + l) * s_xk F)
      (\<lambda>j l. int (cn j) * s_wn F + int (k_lo + q0 * blkK F + l) * s_wk F)
      (\<lambda>r l. int r * s_an F + int (k_lo + q0 * blkK F + l) * s_ak F) acc h =
    (\<lambda>i j. acc i j + (\<Sum>q\<in>{q0..<n}. \<Sum>l<blkK F. if om i < f_M F \<and> cn j < f_N F \<and> k_lo + q * blkK F + l < f_K F
        then x_at F (om i) (k_lo + q * blkK F + l) * w_at F (cn j) (k_lo + q * blkK F + l) else 0),
     \<lambda>i r. h i r + (\<Sum>q\<in>{q0..<n}. \<Sum>l<blkK F. if om i < f_M F \<and> k_lo + q * blkK F + l < f_K F
        then x_at F (om i) (k_lo + q * blkK F + l) * a_at F r (k_lo + q * blkK F + l) else 0))"
  using assms
proof (induction "n - q0" arbitrary: q0 acc h)
  case (Suc d)
  then have q0: "q0 < n" by simp
  have adv: "(\<lambda>i l. u i + int (k_lo + q0 * blkK F + l) * st + int (blkK F) * st) =
      (\<lambda>i l. u i + int (k_lo + Suc q0 * blkK F + l) * st)" for u :: "nat \<Rightarrow> int" and st
    by (simp add: algebra_simps fun_eq_iff)
  have split: "(\<Sum>q\<in>{q0..<n}. g q) = g q0 + (\<Sum>q\<in>{Suc q0..<n}. g q)" for g :: "nat \<Rightarrow> real"
    using q0 by (simp add: sum.atLeast_Suc_lessThan)
  show ?case
    unfolding upt_conv_Cons [OF q0] list.map fused_loop.simps Let_def adv
    by (subst Suc.hyps(1)) (use Suc.hyps(2) q0 in \<open>auto simp: split fun_eq_iff tl_dot_def tl_load_def
        x_at_def w_at_def a_at_def intro!: sum.cong\<close>)
qed simp

definition slice_sum :: "fused \<Rightarrow> (nat \<Rightarrow> real) \<Rightarrow> nat \<Rightarrow> real" where
  "slice_sum F g i = (\<Sum>y<k_chunk F. if i * k_chunk F + y < f_K F then g (i * k_chunk F + y) else 0)"

lemma share_eq:
  assumes ok: "fused_ok F" and tc: "t < f_M F" "c < f_N F"
  shows "share F half t c i =
    (\<Sum>r<f_R F. half (slice_sum F (\<lambda>k. x_at F t k * a_at F r k) i * f_alpha F) * b_at F c r) +
    slice_sum F (\<lambda>k. x_at F t k * w_at F c k) i"
proof -
  let ?n = "k_chunk F div blkK F" and ?lo = "i * k_chunk F"
  have n: "?n * blkK F = k_chunk F" using ok by (simp add: k_chunk_def fused_ok_def)
  have tc_eq: "rows_of F (t div blkM F) (t mod blkM F) = t" "cols_of F (c div blkN F) (c mod blkN F) = c"
    by (simp_all add: rows_of_def cols_of_def)
  have slice: "(\<Sum>q\<in>{0..<?n}. \<Sum>l<blkK F. if ?lo + q * blkK F + l < f_K F then g (?lo + q * blkK F + l) else 0) = slice_sum F g i"
    for g :: "nat \<Rightarrow> real"
    using sum_split [of "\<lambda>y. if ?lo + y < f_K F then g (?lo + y) else 0" "blkK F" ?n]
    by (simp add: n slice_sum_def atLeast0LessThan add.assoc cong: if_cong)
  have loop: "fused_loop F om cn ?lo (map (\<lambda>q. q * blkK F) [0..<?n])
      (\<lambda>i l. int (om i) * s_xm F + int (?lo + l) * s_xk F) (\<lambda>j l. int (cn j) * s_wn F + int (?lo + l) * s_wk F)
      (\<lambda>r l. int r * s_an F + int (?lo + l) * s_ak F) (\<lambda>i j. 0) (\<lambda>i r. 0) =
    (\<lambda>i j. \<Sum>q\<in>{0..<?n}. \<Sum>l<blkK F. if om i < f_M F \<and> cn j < f_N F \<and> ?lo + q * blkK F + l < f_K F
        then x_at F (om i) (?lo + q * blkK F + l) * w_at F (cn j) (?lo + q * blkK F + l) else 0,
     \<lambda>i r. \<Sum>q\<in>{0..<?n}. \<Sum>l<blkK F. if om i < f_M F \<and> ?lo + q * blkK F + l < f_K F
        then x_at F (om i) (?lo + q * blkK F + l) * a_at F r (?lo + q * blkK F + l) else 0)" for om cn
    using fused_loop_from [of 0 ?n F om cn ?lo "\<lambda>i j. 0" "\<lambda>i r. 0"] by simp
  show ?thesis
    using slice [of "\<lambda>k. x_at F t k * w_at F c k"] slice [of "\<lambda>k. x_at F t k * a_at F _ k"] tc
    unfolding share_def cell_of_def prog_of_def fused_acc_def prod.case Let_def loop
    by (simp add: tc_eq tl_dot_def tl_load_def b_at_def cong: if_cong)
qed

lemma le_cdiv: "0 < b \<Longrightarrow> n \<le> cdiv n b * b"
  using div_mult_mod_eq [of "n + b - 1" b] mod_less_divisor [of b "n + b - 1"] unfolding cdiv_def by linarith

lemma slices_total:
  assumes "fused_ok F"
  shows "(\<Sum>i<splitK F. slice_sum F g i) = (\<Sum>k<f_K F. g k)"
proof -
  let ?h = "\<lambda>x. if x < f_K F then g x else 0"
  have "f_K F \<le> cdiv (f_K F) (splitK F) * splitK F" "cdiv (f_K F) (splitK F) \<le> k_chunk F"
    using le_cdiv assms by (auto simp: fused_ok_def k_chunk_def)
  then have K: "f_K F \<le> splitK F * k_chunk F" by (metis le_trans mult.commute mult_le_mono2)
  have "(\<Sum>i<splitK F. slice_sum F g i) = (\<Sum>x<splitK F * k_chunk F. ?h x)"
    using sum_split [of ?h "k_chunk F" "splitK F"] by (simp add: slice_sum_def)
  also have "\<dots> = (\<Sum>x<f_K F. ?h x)" by (rule sum.mono_neutral_right) (use K in auto)
  finally show ?thesis by simp
qed

lemma shares_total:
  assumes ok: "fused_ok F" and tc: "t < f_M F" "c < f_N F"
  shows "(\<Sum>i<splitK F. share F (\<lambda>x. x) t c i) = fused_cpu_reference F t c"
proof -
  have "(\<Sum>i<splitK F. share F (\<lambda>x. x) t c i) =
      (\<Sum>r<f_R F. (\<Sum>i<splitK F. slice_sum F (\<lambda>k. x_at F t k * a_at F r k) i) * f_alpha F * b_at F c r) +
      (\<Sum>i<splitK F. slice_sum F (\<lambda>k. x_at F t k * w_at F c k) i)"
    by (simp add: share_eq [OF ok tc] sum.distrib sum_distrib_right) (rule sum.swap)
  then show ?thesis
    by (simp add: slices_total [OF ok] fused_cpu_reference_def x_at_def w_at_def a_at_def b_at_def
        sum_distrib_left mult.assoc mult.left_commute)
qed

subsection \<open>Every launch ends\<close>

fun phase_weight :: "fused \<Rightarrow> phase \<Rightarrow> nat" where
  "phase_weight F Computing = blkM F * blkN F + 8"
| "phase_weight F (Adding cs) = length cs + 7"
| "phase_weight F Arriving = 6"
| "phase_weight F Finishing = 5"
| "phase_weight F (Writing tot) = 4"
| "phase_weight F Zeroing = 3"
| "phase_weight F Resetting = 2"
| "phase_weight F Finished = 0"

definition launch_weight :: "fused \<Rightarrow> fstate \<Rightarrow> nat" where
  "launch_weight F s = (\<Sum>p\<in>set (fused_grid F). phase_weight F (ls_pc s p))"

lemma weight_goto:
  assumes "p \<in> set (fused_grid F)" and "phase_weight F ph < phase_weight F (ls_pc s p)" and "ls_pc s' = ls_pc s"
  shows "launch_weight F (goto p ph s') < launch_weight F s"
  unfolding launch_weight_def using assms
  by (intro sum_strict_mono_ex1) (auto simp: goto_def)

lemma step_weight: "fused_step F half s s' \<Longrightarrow> launch_weight F s' < launch_weight F s"
proof (induction rule: fused_step.induct)
  case (fused_split p s)
  have "length (cells F p) \<le> blkM F * blkN F"
    using length_filter_le [of _ "List.product [0..<blkM F] [0..<blkN F]"] by (simp add: cells_def)
  then show ?case using fused_split by (intro weight_goto) auto
next
  case (fused_add p s cs cell)
  have "length (removeAll cell cs) < length cs"
    using fused_add(3) by (simp add: length_removeAll_less)
  then show ?case using fused_add by (intro weight_goto) auto
qed (auto intro!: weight_goto)

lemma run_weight: "fused_run F half s n s' \<Longrightarrow> n + launch_weight F s' \<le> launch_weight F s"
proof (induction rule: fused_run.induct)
  case (run_step s n s' s'')
  then show ?case using step_weight [of F half s' s''] by simp
qed simp

text \<open>As long as one program is not finished, it can move.\<close>

lemma not_stuck:
  assumes "p \<in> set (fused_grid F)" and "ls_pc s p \<noteq> Finished"
  shows "\<exists>s'. fused_step F half s s'"
proof (cases "ls_pc s p")
  case Computing
  then show ?thesis using fused_store [OF assms(1)] fused_split [OF assms(1)] by blast
next
  case (Adding cs)
  then show ?thesis
  proof (cases cs)
    case (Cons cell rest)
    then show ?thesis using fused_add [OF assms(1) Adding, of cell] by auto
  qed (use fused_barrier [OF assms(1)] in blast)
next
  case Arriving
  then show ?thesis using fused_arrive [OF assms(1)] by blast
next
  case Finishing
  then show ?thesis using fused_load [OF assms(1)] by blast
next
  case (Writing tot)
  then show ?thesis using fused_write [OF assms(1)] by blast
next
  case Zeroing
  then show ?thesis using fused_zero [OF assms(1)] by blast
next
  case Resetting
  then show ?thesis using fused_reset [OF assms(1)] by blast
qed (use assms(2) in simp)

lemma run_to_end: "\<exists>n s'. fused_run F half s n s' \<and> launch_over F s'"
proof -
  have "\<exists>m s''. fused_run F half s m s'' \<and> launch_over F s''" if "fused_run F half s n s'" for n s'
    using that
  proof (induction "launch_weight F s'" arbitrary: n s' rule: less_induct)
    case less
    show ?case
    proof (cases "launch_over F s'")
      case False
      then obtain p where "p \<in> set (fused_grid F)" "ls_pc s' p \<noteq> Finished"
        unfolding launch_over_def list_all_iff by blast
      from not_stuck [OF this] obtain s'' where "fused_step F half s' s''" by blast
      then show ?thesis using less step_weight run_step by blast
    qed (use less in blast)
  qed
  then show ?thesis using run_done by blast
qed

subsection \<open>A whole call\<close>

lemma in_fused_grid: "fused_ok F \<Longrightarrow> t < f_M F \<Longrightarrow> c < f_N F \<Longrightarrow> i < splitK F \<Longrightarrow> prog_of F t c i \<in> set (fused_grid F)"
  using row_tile [of "blkN F" c "f_N F"] row_tile [of "blkM F" t "f_M F"]
  by (simp add: prog_of_def grid_n_def grid_m_def fused_ok_def)

definition ws_cells :: "fused \<Rightarrow> int set" where
  "ws_cells F = (\<lambda>(t, c). int t * int (f_N F) + int c) ` ({..<f_M F} \<times> {..<f_N F})"

lemma ws_ptr_cell: "y_mask F p i j \<Longrightarrow> ws_ptrs F p i j \<in> ws_cells F"
  by (cases p) (auto simp: ws_cells_def)

lemma step_frame:
  assumes "fused_step F half s s'"
  shows "a \<notin> ws_cells F \<Longrightarrow> ls_ws s' a = ls_ws s a"
    and "a \<notin> tile_of F ` set (fused_grid F) \<Longrightarrow> ls_cnt s' a = ls_cnt s a"
proof -
  have ws: "tl_update f (blkM F) (blkN F) (ws_ptrs F p) v (y_mask F p) mem a = mem a" if "a \<notin> ws_cells F" for f p v mem
    by (rule update_miss) (use ws_ptr_cell that in metis)
  have cell: "cell_update f (ws_ptrs F p) v (y_mask F p) cell mem a = mem a" if "a \<notin> ws_cells F" for f p v mem cell
    using that ws_ptr_cell [of F p] by (cases cell) (auto simp: cell_update_def)
  show "a \<notin> ws_cells F \<Longrightarrow> ls_ws s' a = ls_ws s a"
    using assms by (cases rule: fused_step.cases) (simp_all add: goto_def tl_store_def ws cell)
  show "a \<notin> tile_of F ` set (fused_grid F) \<Longrightarrow> ls_cnt s' a = ls_cnt s a"
    using assms by (cases rule: fused_step.cases) (auto simp: goto_def)
qed

lemma run_frame:
  "fused_run F half s n s' \<Longrightarrow> (a \<notin> ws_cells F \<longrightarrow> ls_ws s' a = ls_ws s a) \<and>
     (b \<notin> tile_of F ` set (fused_grid F) \<longrightarrow> ls_cnt s' b = ls_cnt s b)"
  by (induction rule: fused_run.induct) (auto simp: step_frame)

lemma run_inv:
  assumes "fused_run F half s n s'" and "fused_ok F" and "adding_ok F s" and "t < f_M F" and "c < f_N F"
    and "counted_inv (splitK F) (share F half t c) half (abs_cell F t c s)"
  shows "adding_ok F s' \<and> counted_inv (splitK F) (share F half t c) half (abs_cell F t c s')"
  using assms
proof (induction rule: fused_run.induct)
  case (run_step s n s' s'')
  then have ih: "adding_ok F s'" "counted_inv (splitK F) (share F half t c) half (abs_cell F t c s')" by auto
  have "counted_inv (splitK F) (share F half t c) half (abs_cell F t c s'')"
    using fused_refines [OF run_step.hyps(2) run_step.prems(1) ih(1) run_step.prems(3,4)]
      counted_step_inv [OF _ ih(2)] ih(2) by auto
  then show ?case using adding_step [OF run_step.hyps(2) ih(1)] by simp
qed simp

lemma launch_result:
  assumes ok: "fused_ok F" and run: "fused_run F half (launch_start y ws cnt) n s" "launch_over F s"
    and zero: "\<forall>a\<in>ws_cells F. ws a = 0" "\<forall>a\<in>tile_of F ` set (fused_grid F). cnt a = 0"
    and tc: "t < f_M F" "c < f_N F"
  shows "ls_y s (int t * s_ym F + int c * s_yn F) = half (\<Sum>i<splitK F. share F half t c i)"
    and "ls_ws s (int t * int (f_N F) + int c) = 0" and "ls_cnt s (tile_of F (prog_of F t c 0)) = 0"
proof -
  have k: "0 < splitK F" using ok by (simp add: fused_ok_def)
  have "ws (int t * int (f_N F) + int c) = 0" using zero(1) tc by (force simp: ws_cells_def)
  moreover have "cnt (tile_of F (prog_of F t c 0)) = 0" using zero(2) in_fused_grid [OF ok tc k] by blast
  ultimately have start: "abs_cell F t c (launch_start y ws cnt) =
      \<lparr>c_ws = 0, c_y = y (int t * s_ym F + int c * s_yn F), c_cnt = 0, c_pc = (\<lambda>i. Before)\<rparr>"
    by (simp add: abs_cell_def launch_start_def)
  have "adding_ok F (launch_start y ws cnt)" by (simp add: adding_ok_def launch_start_def)
  from run_inv [OF run(1) ok this tc] start counted_start [OF k]
  have inv: "counted_inv (splitK F) (share F half t c) half (abs_cell F t c s)" by simp
  have "c_pc (abs_cell F t c s) i = Done" if "i < splitK F" for i
    using run(2) in_fused_grid [OF ok tc that] by (simp add: abs_pc launch_over_def list_all_iff)
  with inv k show "ls_y s (int t * s_ym F + int c * s_yn F) = half (\<Sum>i<splitK F. share F half t c i)"
    "ls_ws s (int t * int (f_N F) + int c) = 0" "ls_cnt s (tile_of F (prog_of F t c 0)) = 0"
    by (auto simp: counted_inv_def summing_def closing_def)
qed

lemma config_sizes:
  assumes "(large, C) \<in> set (prune_configs M autotune_configs)"
  shows "16 \<le> cfg_m C \<and> 32 \<le> cfg_n C \<and> 0 < cfg_k C \<and> 0 < cfg_split C"
proof -
  have "list_all (\<lambda>(l, c). 16 \<le> cfg_m c \<and> 32 \<le> cfg_n c \<and> 0 < cfg_k c \<and> 0 < cfg_split c) autotune_configs"
    by (simp add: autotune_configs_def small_shapes_def large_shapes_def)
  then show ?thesis using assms by (auto simp: list_all_iff prune_configs_def split: if_splits)
qed

definition scratch_zero :: "scratch \<Rightarrow> bool" where
  "scratch_zero sc \<longleftrightarrow> (\<forall>a. 0 \<le> a \<longrightarrow> a < int (sc_nws sc) \<longrightarrow> sc_ws sc a = 0) \<and>
     (\<forall>a. 0 \<le> a \<longrightarrow> a < int (sc_ncnt sc) \<longrightarrow> sc_cnt sc a = 0)"

lemma get_workspace_ok:
  assumes "\<And>sc. workspace d = Some sc \<Longrightarrow> scratch_zero sc" and "get_workspace workspace d n_ws n_cnt = (sc, wsp)"
  shows "scratch_zero sc \<and> n_ws \<le> sc_nws sc \<and> n_cnt \<le> sc_ncnt sc \<and> wsp = workspace(d := Some sc)"
  using assms by (auto simp: get_workspace_def scratch_zero_def Let_def split: option.splits if_splits)

lemma ws_cells_fit: "a \<in> ws_cells F \<Longrightarrow> 0 \<le> a \<and> a < int (f_M F * f_N F)"
proof -
  assume "a \<in> ws_cells F"
  then obtain t c where a: "a = int (t * f_N F + c)" "t < f_M F" "c < f_N F" by (auto simp: ws_cells_def)
  have "t * f_N F + c < Suc t * f_N F" using a(3) by simp
  also have "\<dots> \<le> f_M F * f_N F" using a(2) by (intro mult_le_mono1) simp
  finally show ?thesis using a(1) by (simp only: of_nat_0_le_iff of_nat_less_iff)
qed

lemma cdiv_mono: "b \<le> b' \<Longrightarrow> 0 < b \<Longrightarrow> cdiv n b' \<le> cdiv n b"
proof (cases "n = 0")
  case False
  assume b: "b \<le> b'" "0 < b"
  have "n - 1 < cdiv n b * b" using le_cdiv [OF b(2), of n] False by simp
  also have "\<dots> \<le> cdiv n b * b'" using b(1) by simp
  finally have "(n - 1) div b' < cdiv n b" using b by (simp add: less_mult_imp_div_less)
  moreover have "cdiv n b' = (n - 1) div b' + 1"
    using False b div_add_self2 [of b' "n - 1"] by (simp add: cdiv_def)
  ultimately show ?thesis by simp
qed (auto simp: cdiv_def)

lemma tiles_fit:
  assumes "16 \<le> blkM F" and "32 \<le> blkN F" and "a \<in> tile_of F ` set (fused_grid F)"
  shows "0 \<le> a \<and> a < int (cdiv (f_M F) 16 * cdiv (f_N F) 32)"
proof -
  obtain n i m where a: "a = int (m * grid_n F + n)" "n < grid_n F" "m < grid_m F" using assms(3) by auto
  have "m * grid_n F + n < Suc m * grid_n F" using a(2) by simp
  also have "\<dots> \<le> grid_m F * grid_n F" using a(3) by (intro mult_le_mono1) simp
  also have "\<dots> \<le> cdiv (f_M F) 16 * cdiv (f_N F) 32"
    unfolding grid_m_def grid_n_def using assms(1,2) by (intro mult_le_mono cdiv_mono) auto
  finally show ?thesis using a(1) by (simp only: of_nat_0_le_iff of_nat_less_iff)
qed

text \<open>One launch on a cleared workspace that is large enough.\<close>

definition scratch_fits :: "fused \<Rightarrow> scratch \<Rightarrow> bool" where
  "scratch_fits F sc \<longleftrightarrow> f_M F * f_N F \<le> sc_nws sc \<and> cdiv (f_M F) 16 * cdiv (f_N F) 32 \<le> sc_ncnt sc"

definition valid_cfg :: "nat \<Rightarrow> fused_cfg \<Rightarrow> bool" where
  "valid_cfg M c \<longleftrightarrow> c \<in> snd ` set (prune_configs M autotune_configs)"

lemma fits_addresses:
  assumes "valid_cfg (f_M F) (f_cfg F)" and "scratch_fits F sc"
  shows "a \<in> ws_cells F \<Longrightarrow> 0 \<le> a \<and> a < int (sc_nws sc)"
    and "a \<in> tile_of F ` set (fused_grid F) \<Longrightarrow> 0 \<le> a \<and> a < int (sc_ncnt sc)"
proof -
  have "16 \<le> blkM F" "32 \<le> blkN F" using assms(1) config_sizes by (force simp: valid_cfg_def)+
  note fit = tiles_fit [OF this]
  have "int (f_M F * f_N F) \<le> int (sc_nws sc)" "int (cdiv (f_M F) 16 * cdiv (f_N F) 32) \<le> int (sc_ncnt sc)"
    using assms(2) unfolding scratch_fits_def by (simp_all only: of_nat_mono)
  then show "a \<in> ws_cells F \<Longrightarrow> 0 \<le> a \<and> a < int (sc_nws sc)"
    "a \<in> tile_of F ` set (fused_grid F) \<Longrightarrow> 0 \<le> a \<and> a < int (sc_ncnt sc)"
    using ws_cells_fit fit by (meson less_le_trans)+
qed

lemma contiguous_inj:
  "s_ym F = int (f_N F) \<Longrightarrow> s_yn F = 1 \<Longrightarrow> inj_on (\<lambda>(t, c). int t * s_ym F + int c * s_yn F) ({..<f_M F} \<times> {..<f_N F})"
proof (rule inj_onI, clarsimp)
  fix t c t' c' assume c: "c < f_N F" "c' < f_N F" and eq: "int t * int (f_N F) + int c = int t' * int (f_N F) + int c'"
  then have eq': "t * f_N F + c = t' * f_N F + c'" by (metis of_nat_add of_nat_eq_iff of_nat_mult)
  then have "(t * f_N F + c) div f_N F = (t' * f_N F + c') div f_N F" by simp
  then have "t = t'" using c by simp
  then show "t = t' \<and> c = c'" using eq' by simp
qed

lemma launch_cleared:
  assumes valid: "valid_cfg (f_M F) (f_cfg F)" and out: "s_ym F = int (f_N F)" "s_yn F = 1"
    and sc: "scratch_fits F sc" "scratch_zero sc"
    and run: "fused_run F half (launch_start y0 (sc_ws sc) (sc_cnt sc)) n s" "launch_over F s"
  shows "scratch_zero (sc\<lparr>sc_ws := ls_ws s, sc_cnt := ls_cnt s\<rparr>)"
    and "t < f_M F \<Longrightarrow> c < f_N F \<Longrightarrow> ls_y s (int t * int (f_N F) + int c) = half (\<Sum>i<splitK F. share F half t c i)"
    and "fused_ok F"
proof -
  have sizes: "16 \<le> blkM F \<and> 32 \<le> blkN F \<and> 0 < blkK F \<and> 0 < splitK F"
    using valid config_sizes by (force simp: valid_cfg_def)
  then show ok: "fused_ok F" using contiguous_inj [OF out] by (simp add: fused_ok_def)
  have clear: "\<forall>a\<in>ws_cells F. sc_ws sc a = 0" "\<forall>a\<in>tile_of F ` set (fused_grid F). sc_cnt sc a = 0"
    using sc(2) fits_addresses [OF valid sc(1)] unfolding scratch_zero_def by blast+
  note result = launch_result [OF ok run clear]
  show "t < f_M F \<Longrightarrow> c < f_N F \<Longrightarrow> ls_y s (int t * int (f_N F) + int c) = half (\<Sum>i<splitK F. share F half t c i)"
    using result(1) [of t c] out by simp
  have "ls_ws s a = 0" if "0 \<le> a" "a < int (sc_nws sc)" for a
  proof (cases "a \<in> ws_cells F")
    case True
    then show ?thesis using result(2) by (auto simp: ws_cells_def)
  next
    case False
    then show ?thesis using run_frame [OF run(1)] sc(2) that by (simp add: launch_start_def scratch_zero_def)
  qed
  moreover have "ls_cnt s a = 0" if a: "0 \<le> a" "a < int (sc_ncnt sc)" for a
  proof (cases "a \<in> tile_of F ` set (fused_grid F)")
    case True
    then obtain n i m where p: "a = tile_of F (n, i, m)" "n < grid_n F" "m < grid_m F" by auto
    have "n * blkN F < f_N F" "m * blkM F < f_M F"
      using p(2,3) sizes by (auto simp: grid_n_def grid_m_def cdiv_def less_eq_div_iff_mult_less_eq Suc_le_eq
          simp flip: Suc_le_eq)
    from result(3) [OF this(2,1)] show ?thesis using sizes p(1) by (simp add: prog_of_def)
  next
    case False
    then show ?thesis using run_frame [OF run(1)] sc(2) a by (simp add: launch_start_def scratch_zero_def)
  qed
  ultimately show "scratch_zero (sc\<lparr>sc_ws := ls_ws s, sc_cnt := ls_cnt s\<rparr>)" by (simp add: scratch_zero_def)
qed

lemma launches_ok:
  assumes "launches F half (cs @ [c]) sc y0 y sc'" and "\<forall>b\<in>set cs \<union> {c}. valid_cfg (f_M F) b"
    and "s_ym F = int (f_N F)" and "s_yn F = 1" and "scratch_fits F sc" and "scratch_zero sc"
  shows "scratch_zero sc' \<and> scratch_fits F sc' \<and> fused_ok (F\<lparr>f_cfg := c\<rparr>) \<and>
    (\<forall>t<f_M F. \<forall>i<f_N F. y (int t * int (f_N F) + int i) = half (\<Sum>k<cfg_split c. share (F\<lparr>f_cfg := c\<rparr>) half t i k))"
  using assms
proof (induction cs arbitrary: sc y0)
  case Nil
  then obtain n s where s: "fused_run (F\<lparr>f_cfg := c\<rparr>) half (launch_start y0 (sc_ws sc) (sc_cnt sc)) n s"
    "launch_over (F\<lparr>f_cfg := c\<rparr>) s" "y = ls_y s" "sc' = sc\<lparr>sc_ws := ls_ws s, sc_cnt := ls_cnt s\<rparr>" by auto
  show ?case using launch_cleared [OF _ _ _ _ Nil(6) s(1,2)] Nil(2-5) s(3,4) by (simp add: scratch_fits_def)
next
  case (Cons b cs)
  from Cons.prems(1) obtain n s where s: "fused_run (F\<lparr>f_cfg := b\<rparr>) half (launch_start y0 (sc_ws sc) (sc_cnt sc)) n s"
    "launch_over (F\<lparr>f_cfg := b\<rparr>) s" and
    rest: "launches F half (cs @ [c]) (sc\<lparr>sc_ws := ls_ws s, sc_cnt := ls_cnt s\<rparr>) (ls_y s) y sc'" by auto
  have "scratch_zero (sc\<lparr>sc_ws := ls_ws s, sc_cnt := ls_cnt s\<rparr>)"
    using launch_cleared(1) [OF _ _ _ _ Cons.prems(6) s] Cons.prems(2-5) by (simp add: scratch_fits_def)
  with Cons.IH [OF rest] Cons.prems(2-5) show ?case by (simp add: scratch_fits_def)
qed

lemma launches_end: "\<exists>y sc'. launches F half cs sc y0 y sc'"
proof (induction cs arbitrary: sc y0)
  case (Cons c cs)
  obtain n s where "fused_run (F\<lparr>f_cfg := c\<rparr>) half (launch_start y0 (sc_ws sc) (sc_cnt sc)) n s" "launch_over (F\<lparr>f_cfg := c\<rparr>) s"
    using run_to_end by blast
  then show ?case using Cons by fastforce
qed (intro exI, simp)

lemma contiguous_sizes [simp]:
  "f_M (contiguous_out F) = f_M F" "f_R (contiguous_out F) = f_R F" "f_N (contiguous_out F) = f_N F"
  "s_ym (contiguous_out F) = int (f_N F)" "s_yn (contiguous_out F) = 1"
  by (simp_all add: contiguous_out_def)

text \<open>The configurations one call launches.\<close>

definition tried :: "fused_cfg option \<Rightarrow> fused_cfg list \<times> fused_cfg \<Rightarrow> fused_cfg list \<times> fused_cfg" where
  "tried hit tuned = (case hit of Some c \<Rightarrow> ([], c) | None \<Rightarrow> tuned)"

lemma forward_launches:
  assumes "get_workspace workspace d (f_M F * f_N F) (cdiv (f_M F) 16 * cdiv (f_N F) 32) = (sc, wsp)"
    and "tried (cache (launch_key (contiguous_out F) d aligned)) tuned = (cs, c)"
  shows "forward_triton F half compiles d aligned tuned workspace cache y0 (Some y) workspace' cache' \<longleftrightarrow>
    (compiles (f_R F) \<or> cache (launch_key (contiguous_out F) d aligned) \<noteq> None) \<and>
    (\<exists>sc'. workspace' = wsp(d := Some sc') \<and> launches (contiguous_out F) half (cs @ [c]) sc y0 y sc' \<and>
       cache' = cache(launch_key (contiguous_out F) d aligned := Some c))"
  using assms
  by (auto simp: forward_triton_def Let_def tried_def fun_upd_idem simp del: launches.simps split: option.splits)

lemma forward_ends:
  assumes "compiles (f_R F)"
  shows "\<exists>y workspace' cache'. forward_triton F half compiles d aligned tuned workspace cache y0 (Some y) workspace' cache'"
proof -
  obtain sc wsp where sc: "get_workspace workspace d (f_M F * f_N F) (cdiv (f_M F) 16 * cdiv (f_N F) 32) = (sc, wsp)"
    by force
  obtain cs c where cs: "tried (cache (launch_key (contiguous_out F) d aligned)) tuned = (cs, c)" by force
  from launches_end [of "contiguous_out F" half "cs @ [c]" sc y0] obtain y sc' where
    l: "launches (contiguous_out F) half (cs @ [c]) sc y0 y sc'" by (elim exE)
  have "forward_triton F half compiles d aligned tuned workspace cache y0 (Some y) (wsp(d := Some sc'))
      (cache(launch_key (contiguous_out F) d aligned := Some c))"
    unfolding forward_launches [where workspace = workspace and d = d and F = F and cache = cache and aligned = aligned and tuned = tuned, OF sc cs]
    using assms l by blast
  then show ?thesis by (intro exI)
qed

text \<open>Every configuration in the launch cache is one the autotuner could choose for its key's batch size.\<close>

definition cache_valid :: "('d launch_key \<Rightarrow> fused_cfg option) \<Rightarrow> bool" where
  "cache_valid cache \<longleftrightarrow> (\<forall>d M N K R st al c. cache (d, (M, N, K, R), st, al) = Some c \<longrightarrow> valid_cfg M c)"

text \<open>C8: The fused kernel computes the reference, under every interleaving, and leaves its device state ready
  for the next call. Let the autotuner try and choose among the configurations that pruning leaves for
  the batch size, and let the device's workspace be absent or cleared and the launch cache hold only
  such configurations. Whenever a call returns, hit or miss
  (a miss raises when Triton does not compile the kernel for the rank), each output element is the converted sum of
  the K slices' shares for the configuration now cached, which for an exact conversion is the CPU
  reference X W' + alpha (X A') B'; the workspace is large enough for every address the kernel uses and all
  zero again, and the cache still holds valid configurations.\<close>

theorem fused_call_is_exact:
  assumes "\<forall>c\<in>set (fst tuned) \<union> {snd tuned}. valid_cfg (f_M F) c"
    and "case workspace d of None \<Rightarrow> True | Some sc \<Rightarrow> scratch_zero sc" and "cache_valid cache"
    and "forward_triton F half compiles d aligned tuned workspace cache y0 (Some y) workspace' cache'"
  shows "cache_valid cache' \<and>
    (\<exists>c G sc. cache' (launch_key (contiguous_out F) d aligned) = Some c \<and> G = (contiguous_out F)\<lparr>f_cfg := c\<rparr> \<and>
       (\<forall>t<f_M F. \<forall>i<f_N F. y (int t * int (f_N F) + int i) = half (\<Sum>k<splitK G. share G half t i k) \<and>
          (half = (\<lambda>x. x) \<longrightarrow> y (int t * int (f_N F) + int i) = fused_cpu_reference F t i)) \<and>
       workspace' d = Some sc \<and> scratch_zero sc \<and>
       (\<forall>a\<in>ws_cells G. 0 \<le> a \<and> a < int (sc_nws sc)) \<and>
       (\<forall>a\<in>tile_of G ` set (fused_grid G). 0 \<le> a \<and> a < int (sc_ncnt sc)))"
proof -
  let ?H = "contiguous_out F" and ?key = "launch_key (contiguous_out F) d aligned"
  obtain sc wsp where sc: "get_workspace workspace d (f_M F * f_N F) (cdiv (f_M F) 16 * cdiv (f_N F) 32) = (sc, wsp)"
    by force
  have start: "scratch_fits ?H sc" "scratch_zero sc"
    using get_workspace_ok [OF _ sc] assms(2) by (auto simp: scratch_fits_def split: option.splits)
  obtain cs c where cs: "tried (cache ?key) tuned = (cs, c)" by force
  have valid: "\<forall>b\<in>set cs \<union> {c}. valid_cfg (f_M ?H) b"
    using cs assms(1,3) by (auto simp: tried_def cache_valid_def launch_key_def split: option.splits)
  obtain sc' where run: "launches ?H half (cs @ [c]) sc y0 y sc'"
    "cache' = cache(?key := Some c)" "workspace' d = Some sc'"
    using assms(4) sc unfolding forward_launches [where workspace = workspace and d = d and F = F and cache = cache and aligned = aligned and tuned = tuned, OF sc cs] by (auto simp del: launches.simps)
  define G where "G = ?H\<lparr>f_cfg := c\<rparr>"
  note over = launches_ok [OF run(1) valid _ _ start, simplified, folded G_def]
  have fits: "scratch_fits G sc'" "valid_cfg (f_M G) (f_cfg G)"
    using over valid by (auto simp: scratch_fits_def G_def)
  have "fused_cpu_reference G t i = fused_cpu_reference F t i" for t i
    by (simp add: G_def contiguous_out_def fused_cpu_reference_def)
  moreover have "f_M G = f_M F" "f_N G = f_N F" "splitK G = cfg_split c" by (simp_all add: G_def)
  ultimately have elems: "\<forall>t<f_M F. \<forall>i<f_N F. y (int t * int (f_N F) + int i) = half (\<Sum>k<splitK G. share G half t i k) \<and>
      (half = (\<lambda>x. x) \<longrightarrow> y (int t * int (f_N F) + int i) = fused_cpu_reference F t i)"
    using over shares_total [of G] by auto
  have "cache_valid cache'" using assms(3) run(2) valid by (auto simp: cache_valid_def launch_key_def)
  moreover have "cache' ?key = Some c" by (simp add: run(2))
  ultimately show ?thesis using elems over run(3) fits_addresses [OF fits(2,1)] unfolding G_def by blast
qed

text \<open>One element, two K slices, rank 16: x = 2, w = 3, a = 5, b = 7, alpha = 1/2. The autotuner tries a configuration
  without splitting first.\<close>

definition demo_cfg :: "nat \<Rightarrow> fused_cfg" where
  "demo_cfg split = \<lparr>cfg_m = 16, cfg_n = 32, cfg_k = 128, cfg_split = split, cfg_warps = 4, cfg_stages = 3\<rparr>"

definition demo_fused :: fused where
  "demo_fused = \<lparr>f_x = (\<lambda>a. 2), f_w = (\<lambda>a. 3), f_a = (\<lambda>a. 5), f_b = (\<lambda>a. 7), f_M = 1, f_N = 1, f_K = 1, f_R = 16,
     f_alpha = 1 / 2, s_xm = 1, s_xk = 1, s_wn = 1, s_wk = 1, s_an = 1, s_ak = 1, s_bn = 1, s_br = 1, s_ym = 1, s_yn = 1,
     f_cfg = demo_cfg 2\<rparr>"

text \<open>What Triton documents: a power of two, at least 16.\<close>

definition demo_compiles :: "nat \<Rightarrow> bool" where
  "demo_compiles R \<longleftrightarrow> 16 \<le> R \<and> list_ex (\<lambda>e. R = 2 ^ e) [0..<R]"

theorem fused_call_is_exact_witness:
  "\<exists>y workspace' cache'. forward_triton demo_fused (\<lambda>x. x) demo_compiles () [] ([demo_cfg 1], demo_cfg 2)
     (\<lambda>d. None) (\<lambda>k. None) (\<lambda>a. 9) (Some y) workspace' cache' \<and> y 0 = 566"
proof -
  have "f_R demo_fused = 2 ^ 4" by (simp add: demo_fused_def)
  then have rank: "demo_compiles (f_R demo_fused)"
    unfolding demo_compiles_def list_ex_iff by (intro conjI bexI [of _ 4]) simp_all
  obtain y workspace' cache' where y: "forward_triton demo_fused (\<lambda>x. x) demo_compiles () [] ([demo_cfg 1], demo_cfg 2)
     (\<lambda>d. None) (\<lambda>k. None) (\<lambda>a. 9) (Some y) workspace' cache'"
    using forward_ends [where compiles = demo_compiles and F = demo_fused and half = "\<lambda>x. x" and d = "()" and aligned = "[]" and
        tuned = "([demo_cfg 1], demo_cfg 2)" and workspace = "\<lambda>d. None" and cache = "\<lambda>k. None" and ?y0.0 = "\<lambda>a. 9", OF rank]
    by (elim exE)
  have small: "f_M demo_fused = 1" "f_N demo_fused = 1" by (simp_all add: demo_fused_def)
  have cfg: "valid_cfg (f_M demo_fused) (demo_cfg 1)" "valid_cfg (f_M demo_fused) (demo_cfg 2)"
    by (simp_all add: small valid_cfg_def demo_cfg_def prune_configs_def autotune_configs_def small_shapes_def small_m_block_def)
  have tuned: "\<forall>c\<in>set (fst ([demo_cfg 1], demo_cfg 2)) \<union> {snd ([demo_cfg 1], demo_cfg 2)}. valid_cfg (f_M demo_fused) c"
    using cfg by simp
  have cache: "cache_valid (\<lambda>k :: unit launch_key. None)" by (simp add: cache_valid_def)
  have scratch: "case (\<lambda>d :: unit. None) () of None \<Rightarrow> True | Some sc \<Rightarrow> scratch_zero sc" by simp
  from fused_call_is_exact [OF tuned scratch cache y] obtain G where
    elems: "\<forall>t<f_M demo_fused. \<forall>i<f_N demo_fused.
       y (int t * int (f_N demo_fused) + int i) = (\<Sum>k<splitK G. share G (\<lambda>x. x) t i k) \<and>
       ((\<lambda>x :: real. x) = (\<lambda>x. x) \<longrightarrow> y (int t * int (f_N demo_fused) + int i) = fused_cpu_reference demo_fused t i)"
    by (elim conjE exE)
  have "y 0 = fused_cpu_reference demo_fused 0 0" using elems [rule_format, of 0 0] small by simp
  also have "\<dots> = 566" by (simp add: fused_cpu_reference_def demo_fused_def)
  finally show ?thesis using y by (intro exI conjI)
qed

end
