(* ===== verification/Router.thy ===== *)
theory Router
  imports Control
begin

text \<open>
  \<^verbatim>\<open>adapter_slots/integrations/apis_router.py\<close>: adapters to independent shards by rate-sorted
  round-robin. The router keeps the rate estimator of \<^verbatim>\<open>control/estimator.py\<close> (theory
  \<open>Control\<close>) and a dict from adapter to shard. Reading a missing key would be \<open>KeyError\<close>,
  here \<open>None\<close>.
\<close>

subsection \<open>State and operations\<close>

text \<open>\<open>str(a)\<close> of an integer.\<close>

fun nat_digits :: "nat \<Rightarrow> string" where
  "nat_digits n = (if n < 10 then [char_of (48 + n)] else nat_digits (n div 10) @ [char_of (48 + n mod 10)])"

declare nat_digits.simps [simp del]

definition py_str :: "int \<Rightarrow> string" where
  "py_str i = (if i < 0 then CHR ''-'' # nat_digits (nat (- i)) else nat_digits (nat i))"

record router =
  n_shards :: int
  rebalance_s :: real
  router_estimator :: "int estimator"
  assignment :: "(int, int) dict"
  last_rebalance :: "real option"
  n_rebalances :: nat

definition rate_order :: "(int, real) dict \<Rightarrow> int list" where
  "rate_order rates = sort_key (\<lambda>a. (- dict_get rates a 0, py_str a)) (dict_keys rates)"

definition round_robin :: "int \<Rightarrow> int list \<Rightarrow> (int, int) dict" where
  "round_robin n order = dict_update (map (\<lambda>(i, a). (a, int i mod n)) (enumerate 0 order)) []"

definition rebalance :: "router \<Rightarrow> router" where
  "rebalance r =
     r\<lparr>assignment := round_robin (n_shards r) (rate_order (get_all_rates (router_estimator r))),
       n_rebalances := n_rebalances r + 1\<rparr>"

definition router_init :: "int \<Rightarrow> real \<Rightarrow> real \<Rightarrow> (int, real) dict \<Rightarrow> py_error + router" where
  "router_init n rebal alpha initial_rates =
     (if n < 1 then Inl ValueError
      else case estimator_init alpha 1 False 0 of
             Inl e \<Rightarrow> Inl e
           | Inr e \<Rightarrow>
               (let r = \<lparr>n_shards = n, rebalance_s = rebal, router_estimator = e, assignment = [],
                         last_rebalance = None, n_rebalances = 0\<rparr>
                in Inr (if initial_rates = [] then r
                        else rebalance (r\<lparr>router_estimator := set_rates initial_rates e\<rparr>))))"

definition route :: "int \<Rightarrow> real \<Rightarrow> router \<Rightarrow> router \<times> int option" where
  "route adapter_id t_now r =
     (let r1 = r\<lparr>router_estimator := fst (estimator_update adapter_id t_now (router_estimator r))\<rparr>;
          r2 = (case last_rebalance r1 of
                  None \<Rightarrow> r1\<lparr>last_rebalance := Some t_now\<rparr>
                | Some t \<Rightarrow> if t_now - t \<ge> rebalance_s r1
                           then (rebalance r1)\<lparr>last_rebalance := Some t_now\<rparr> else r1);
          r3 = (if dict_has (assignment r2) adapter_id then r2
                else r2\<lparr>assignment := dict_set adapter_id
                         (int (length (assignment r2)) mod n_shards r2) (assignment r2)\<rparr>)
      in (r3, map_of (assignment r3) adapter_id))"

subsection \<open>Round robin\<close>

lemma dict_update_fresh:
  "distinct (map fst kvs) \<Longrightarrow> fst ` set kvs \<inter> fst ` set d = {} \<Longrightarrow> dict_update kvs d = d @ kvs"
proof (induction kvs d rule: dict_update.induct)
  case (2 k v kvs d)
  then have "dict_set k v d = d @ [(k, v)]" by (intro dict_set_new) auto
  then show ?case using 2 by auto
qed simp

lemma round_robin_eq:
  "distinct order \<Longrightarrow> round_robin n order = map (\<lambda>i. (order ! i, int i mod n)) [0..<length order]"
proof -
  assume d: "distinct order"
  have e: "map (\<lambda>(i, a). (a, int i mod n)) (enumerate 0 order)
      = map (\<lambda>i. (order ! i, int i mod n)) [0..<length order]"
    by (rule nth_equalityI) (auto simp: nth_enumerate_eq)
  have "map fst (map (\<lambda>i. (order ! i, int i mod n)) [0..<length order]) = order"
    by (simp add: o_def map_nth)
  then show ?thesis unfolding round_robin_def e using d by (subst dict_update_fresh) auto
qed

lemma rate_order_props [simp]:
  "distinct (rate_order rates) = dict_ok rates" "set (rate_order rates) = fst ` set rates"
  "length (rate_order rates) = length rates"
  by (simp_all add: rate_order_def)

text \<open>The shard at position \<open>i\<close> of the assignment is always \<open>i mod n\<close>.\<close>

definition router_ok :: "router \<Rightarrow> bool" where
  "router_ok r \<longleftrightarrow> 1 \<le> n_shards r \<and> dict_ok (assignment r) \<and> dict_ok (rate_estimate (router_estimator r)) \<and>
     map snd (assignment r) = map (\<lambda>i. int i mod n_shards r) [0..<length (assignment r)]"

lemma rebalance_ok: "router_ok r \<Longrightarrow> router_ok (rebalance r)"
  using map_nth [of "rate_order (rate_estimate (router_estimator r))"]
  by (simp add: router_ok_def rebalance_def get_all_rates_def round_robin_eq o_def)

lemma router_ok_frame [simp]:
  "router_ok (r\<lparr>last_rebalance := x\<rparr>) = router_ok r"
  by (simp add: router_ok_def)

lemma router_ok_estimator:
  "dict_ok (rate_estimate e) \<Longrightarrow> router_ok r \<Longrightarrow> router_ok (r\<lparr>router_estimator := e\<rparr>)"
  by (simp add: router_ok_def)

lemma keys_estimator_update:
  "dict_ok (rate_estimate e) \<Longrightarrow> dict_ok (rate_estimate (fst (estimator_update k t e)))"
  by (auto simp: estimator_update_def Let_def dict_setdefault_def split: option.splits)

lemma router_init_ok: "router_init n s a rates = Inr r \<Longrightarrow> router_ok r \<and> n_shards r = n"
  by (auto simp: router_init_def estimator_init_def Let_def set_rates_def split: if_splits sum.splits
        intro!: rebalance_ok)
     (auto simp: router_ok_def rebalance_def)

lemma join_ok:
  assumes "router_ok r" and "\<not> dict_has (assignment r) k"
  shows "router_ok (r\<lparr>assignment := dict_set k (int (length (assignment r)) mod n_shards r) (assignment r)\<rparr>)"
  using assms by (simp add: router_ok_def dict_has_iff dict_set_new)

lemma route_ok:
  assumes "router_ok r" and "route k t r = (r', s)"
  shows "router_ok r' \<and> n_shards r' = n_shards r \<and> map_of (assignment r') k = s \<and> s \<noteq> None"
proof -
  define r1 where "r1 = r\<lparr>router_estimator := fst (estimator_update k t (router_estimator r))\<rparr>"
  define r2 where "r2 = (case last_rebalance r1 of
                  None \<Rightarrow> r1\<lparr>last_rebalance := Some t\<rparr>
                | Some u \<Rightarrow> if t - u \<ge> rebalance_s r1
                           then (rebalance r1)\<lparr>last_rebalance := Some t\<rparr> else r1)"
  have 1: "router_ok r1"
    using assms(1) by (auto simp: r1_def router_ok_def keys_estimator_update)
  then have 2: "router_ok r2" "n_shards r2 = n_shards r"
    using rebalance_ok [OF 1] by (auto simp: r2_def r1_def rebalance_def split: option.splits)
  show ?thesis
    using assms(2) 2 join_ok [OF 2(1), of k]
    by (auto simp: route_def Let_def r1_def [symmetric] r2_def [symmetric] dict_has_def dest: sym
        split: if_splits)
qed

fun route_all :: "(int \<times> real) list \<Rightarrow> router \<Rightarrow> router" where
  "route_all [] r = r"
| "route_all ((k, t) # reqs) r = route_all reqs (fst (route k t r))"

lemma route_all_ok: "router_ok r \<Longrightarrow> router_ok (route_all reqs r) \<and> n_shards (route_all reqs r) = n_shards r"
proof (induction reqs r rule: route_all.induct)
  case (2 k t reqs r)
  then show ?case using route_ok [OF 2(2), of k t "fst (route k t r)" "snd (route k t r)"] by simp
qed simp

subsection \<open>Balance\<close>

lemma residue_count:
  fixes N :: nat
  assumes "0 < N" and "j < N"
  shows "length (filter (\<lambda>i. i mod N = j) [0..<m]) = m div N + of_bool (j < m mod N)"
proof (induction m)
  case (Suc m)
  have "m mod N < N" using assms(1) by simp
  with Suc show ?case using assms by (auto simp: div_Suc mod_Suc)
qed simp

definition shard_size :: "router \<Rightarrow> int \<Rightarrow> nat" where
  "shard_size r j = length (filter (\<lambda>(a, s). s = j) (assignment r))"

lemma shard_size_eq:
  assumes "router_ok r" and "0 \<le> j" and "j < n_shards r"
  shows "shard_size r j = length (assignment r) div nat (n_shards r) +
    of_bool (nat j < length (assignment r) mod nat (n_shards r))"
proof -
  define N where "N = nat (n_shards r)"
  have N: "n_shards r = int N" "0 < N" "nat j < N"
    using assms by (auto simp: router_ok_def N_def)
  have "shard_size r j = length (filter (\<lambda>s. s = j) (map snd (assignment r)))"
    by (simp add: shard_size_def filter_map o_def case_prod_unfold)
  also have "\<dots> = length (filter (\<lambda>i. int i mod n_shards r = j) [0..<length (assignment r)])"
    using assms(1) by (simp add: router_ok_def filter_map o_def)
  also have "\<dots> = length (filter (\<lambda>i. i mod N = nat j) [0..<length (assignment r)])"
    using assms(2) by (intro arg_cong [of _ _ length] filter_cong)
      (auto simp: N(1) simp flip: zmod_int)
  finally show ?thesis using residue_count [OF N(2,3)] by (simp add: N_def)
qed

subsection \<open>Stickiness\<close>

text \<open>The interval since the last rebalance (or the first request) has passed at time \<open>t\<close>.\<close>

definition rebalance_due :: "router \<Rightarrow> real \<Rightarrow> bool" where
  "rebalance_due r t \<longleftrightarrow> (case last_rebalance r of None \<Rightarrow> False | Some u \<Rightarrow> rebalance_s r \<le> t - u)"

lemma route_timing:
  assumes "route k t r = (r', out)"
  shows "rebalance_s r' = rebalance_s r" and "n_rebalances r' = n_rebalances r + of_bool (rebalance_due r t)"
    and "last_rebalance r' = (if rebalance_due r t \<or> last_rebalance r = None then Some t else last_rebalance r)"
    and "\<not> rebalance_due r t \<Longrightarrow> map_of (assignment r) \<subseteq>\<^sub>m map_of (assignment r')"
  using assms
  by (auto simp: route_def Let_def rebalance_def rebalance_due_def map_le_def dict_has_def
      split: option.splits if_splits)

lemma route_window:
  assumes "last_rebalance r = Some u" and "\<forall>(k, t)\<in>set reqs. t - u < rebalance_s r"
  shows "n_rebalances (route_all reqs r) = n_rebalances r \<and>
    map_of (assignment r) \<subseteq>\<^sub>m map_of (assignment (route_all reqs r))"
  using assms
proof (induction reqs r rule: route_all.induct)
  case (2 k t reqs r)
  obtain r' out where route: "route k t r = (r', out)" by force
  have due: "\<not> rebalance_due r t" using 2(2,3) by (auto simp: rebalance_due_def)
  note step = route_timing [OF route]
  have "n_rebalances (route_all reqs r') = n_rebalances r' \<and>
      map_of (assignment r') \<subseteq>\<^sub>m map_of (assignment (route_all reqs r'))"
    using 2(1) 2(2,3) step(1,3) due by (simp add: route)
  then show ?case using step(2) step(4) [OF due] due map_le_trans by (auto simp: route)
qed simp

lemma route_all_interval: "rebalance_s (route_all reqs r) = rebalance_s r"
proof (induction reqs r rule: route_all.induct)
  case (2 k t reqs r)
  obtain r' out where route: "route k t r = (r', out)" by force
  show ?case using 2 route_timing(1) [OF route] by (simp add: route)
qed simp

lemma router_init_interval: "router_init n s a rates = Inr r \<Longrightarrow> rebalance_s r = s"
  by (auto simp: router_init_def estimator_init_def Let_def rebalance_def split: if_splits sum.splits)

text \<open>C25: Routing is total, sticky and balanced. From a constructor call that succeeds, after any
  sequence of requests, the next request is sent to an existing shard, the one its adapter is then
  assigned to, and the numbers of adapters on any two shards differ by at most one, whether
  adapters came in through a rebalance or joined one by one. The request rebalances exactly if the interval
  has passed since the request of the last rebalance (or since the first request); otherwise every adapter
  that has a shard keeps it. So from there on, whatever requests follow until the interval has passed, nothing
  is rebalanced and no adapter changes its shard.\<close>

theorem routing_is_total_and_balanced:
  assumes "router_init n s a rates = Inr r0" and "r = route_all reqs r0"
    and "0 \<le> i" and "i < n" and "0 \<le> j" and "j < n" and "route k t r = (r', out)"
    and "due = (case last_rebalance r of None \<Rightarrow> False | Some u \<Rightarrow> s \<le> t - u)"
  shows "(\<exists>x. out = Some x \<and> 0 \<le> x \<and> x < n \<and> map_of (assignment r') k = Some x) \<and>
    shard_size r' i \<le> shard_size r' j + 1 \<and>
    n_rebalances r' = n_rebalances r + of_bool due \<and>
    last_rebalance r' = (if due \<or> last_rebalance r = None then Some t else last_rebalance r) \<and>
    (\<forall>b x. \<not> due \<and> map_of (assignment r) b = Some x \<longrightarrow> map_of (assignment r') b = Some x) \<and>
    (\<forall>later u. last_rebalance r' = Some u \<and> (\<forall>(b, v)\<in>set later. v - u < s) \<longrightarrow>
       n_rebalances (route_all later r') = n_rebalances r' \<and>
       (\<forall>b x. map_of (assignment r') b = Some x \<longrightarrow> map_of (assignment (route_all later r')) b = Some x))"
proof -
  have r: "router_ok r" "n_shards r = n" "rebalance_s r = s"
    using router_init_ok [OF assms(1)] route_all_ok [of r0 reqs] assms(2) route_all_interval
      router_init_interval [OF assms(1)] by auto
  have r': "router_ok r'" "n_shards r' = n" "map_of (assignment r') k = out" "out \<noteq> None"
    using route_ok [OF r(1) assms(7)] r(2) by auto
  then obtain x where x: "out = Some x" by auto
  have "x \<in> snd ` set (assignment r')" using map_of_SomeD [of "assignment r'" k x] r'(3) x by force
  also have "\<dots> = set (map snd (assignment r'))" by simp
  also have "\<dots> = (\<lambda>i. int i mod n) ` {0..<length (assignment r')}"
    using r'(1,2) by (simp add: router_ok_def)
  finally have bounds: "0 \<le> x \<and> x < n" using assms(3,4) by auto
  have due: "rebalance_due r t = due" using r(3) assms(8) by (simp add: rebalance_due_def split: option.splits)
  note timing = route_timing [OF assms(7), unfolded due r(3)]
  have keep: "map_of (assignment r') b = Some y"
    if "\<not> due" "map_of (assignment r) b = Some y" for b y
    using timing(4) [OF that(1)] that(2) by (force simp: map_le_def)
  have window: "n_rebalances (route_all later r') = n_rebalances r'"
      "map_of (assignment r') b = Some y \<longrightarrow> map_of (assignment (route_all later r')) b = Some y"
    if "last_rebalance r' = Some u \<and> (\<forall>(b, v)\<in>set later. v - u < s)" for later u b y
    using route_window [of r' u later] that timing(1) by (force simp: map_le_def)+
  show ?thesis
    using r' x assms(3-6) bounds timing(2,3) keep window by (auto simp: shard_size_eq)
qed

theorem routing_is_total_and_balanced_witness:
  "\<exists>r0. router_init 2 30 (1/10) [(7, 4), (8, 1), (9, 2)] = Inr r0 \<and>
     (\<exists>x. snd (route 5 1 (route_all [(7, 0)] r0)) = Some x \<and> 0 \<le> x \<and> x < 2 \<and>
        map_of (assignment (route_all [(6, 12), (5, 29)] (fst (route 5 1 (route_all [(7, 0)] r0))))) 5 = Some x)"
proof -
  obtain r0 where r0: "router_init 2 30 (1/10) [(7, 4), (8, 1), (9, 2)] = Inr r0"
    by (simp add: router_init_def estimator_init_def Let_def)
  let ?r = "route_all [(7, 0)] r0" and ?step = "route 5 1 (route_all [(7, 0)] r0)"
  have last: "last_rebalance ?r = Some 0"
    using r0 by (auto simp: router_init_def estimator_init_def Let_def rebalance_def route_def)
  have step: "?step = (fst ?step, snd ?step)" "False = (case last_rebalance ?r of None \<Rightarrow> False | Some u \<Rightarrow> 30 \<le> 1 - u)"
    by (simp_all add: last del: route_all.simps)
  have ij: "(0 :: int) \<le> 0" "(0 :: int) < 2" "(0 :: int) \<le> 1" "(1 :: int) < 2" by simp_all
  note main = routing_is_total_and_balanced [OF r0 refl ij step, unfolded last]
  from main obtain x where x: "snd ?step = Some x" "0 \<le> x" "x < 2" "map_of (assignment (fst ?step)) 5 = Some x" by auto
  have "last_rebalance (fst ?step) = Some 0" using main by simp
  then have "\<forall>b y. map_of (assignment (fst ?step)) b = Some y \<longrightarrow>
      map_of (assignment (route_all [(6, 12), (5, 29)] (fst ?step))) b = Some y"
    using main by (elim conjE) (drule spec [of _ "[(6, 12), (5, 29)]"], drule spec [of _ 0], simp del: route_all.simps)
  then show ?thesis using r0 x by blast
qed

subsection \<open>Traffic\<close>

lemma sum_residue:
  fixes f :: "nat \<Rightarrow> real"
  assumes "0 < N" and "i < N"
  shows "(\<Sum>p<m * N. if p mod N = i then f p else 0) = (\<Sum>q<m. f (q * N + i))"
proof (induction m)
  case (Suc m)
  have "(\<Sum>p<Suc m * N. if p mod N = i then f p else 0)
      = (\<Sum>p<m * N. if p mod N = i then f p else 0) + (\<Sum>p=m * N..<m * N + N. if p mod N = i then f p else 0)"
    using sum.atLeastLessThan_concat [of 0 "m * N" "m * N + N" "\<lambda>p. if p mod N = i then f p else 0"]
    by (simp add: add.commute atLeast0LessThan)
  also have "(\<Sum>p=m * N..<m * N + N. if p mod N = i then f p else 0)
      = (\<Sum>p=0..<N. if (p + m * N) mod N = i then f (p + m * N) else 0)"
    using sum.shift_bounds_nat_ivl [of "\<lambda>p. if p mod N = i then f p else 0" 0 "m * N" N]
    by (simp add: add.commute)
  also have "\<dots> = (\<Sum>p=0..<N. if p = i then f (p + m * N) else 0)"
    by (intro sum.cong) auto
  also have "\<dots> = f (m * N + i)" using assms by (simp add: add.commute)
  finally show ?case using Suc by simp
qed simp

text \<open>Dealing a decreasing sequence out in rounds: an earlier seat gets more than a later one, by
  at most the first item.\<close>

lemma deal_decreasing:
  fixes f :: "nat \<Rightarrow> real"
  assumes "\<And>p q. p \<le> q \<Longrightarrow> f q \<le> f p" and "\<And>p. 0 \<le> f p" and "i < j" and "j < N"
  shows "(\<Sum>q<m. f (q * N + j)) \<le> (\<Sum>q<m. f (q * N + i))"
    and "(\<Sum>q<m. f (q * N + i)) \<le> (\<Sum>q<m. f (q * N + j)) + f 0"
proof -
  show "(\<Sum>q<m. f (q * N + j)) \<le> (\<Sum>q<m. f (q * N + i))"
    using assms by (intro sum_mono) auto
  have "(\<Sum>q<m. f (q * N + i)) + f (m * N + i) \<le> (\<Sum>q<m. f (q * N + j)) + f i"
  proof (induction m)
    case (Suc m)
    have "f (N + m * N + i) \<le> f (m * N + j)" using assms(3,4) by (intro assms(1)) simp
    with Suc show ?case by simp
  qed simp
  with assms(1) [of 0 i] assms(2) [of "m * N + i"]
  show "(\<Sum>q<m. f (q * N + i)) \<le> (\<Sum>q<m. f (q * N + j)) + f 0" by linarith
qed

definition shard_traffic :: "router \<Rightarrow> int \<Rightarrow> real" where
  "shard_traffic r j =
     (\<Sum>(a, s)\<leftarrow>assignment r. if s = j then get_rate (router_estimator r) a else 0)"

definition ranked_rate :: "(int, real) dict \<Rightarrow> nat \<Rightarrow> real" where
  "ranked_rate rates p = (if p < length rates then dict_get rates (rate_order rates ! p) 0 else 0)"

lemma ranked_rate_antitone:
  assumes "\<forall>x\<in>snd ` set rates. 0 \<le> x" and "dict_ok rates"
  shows "p \<le> q \<Longrightarrow> ranked_rate rates q \<le> ranked_rate rates p" and "0 \<le> ranked_rate rates p"
proof -
  have pos: "0 \<le> dict_get rates (rate_order rates ! p) 0" if "p < length rates" for p
  proof -
    have "rate_order rates ! p \<in> fst ` set rates" using that nth_mem [of p "rate_order rates"] by simp
    then obtain x where x: "map_of rates (rate_order rates ! p) = Some x" using map_of_keyD by metis
    then show ?thesis using assms(1) map_of_SomeD [OF x] by (force simp: dict_get_def)
  qed
  then show "0 \<le> ranked_rate rates p" by (simp add: ranked_rate_def)
  assume pq: "p \<le> q"
  show "ranked_rate rates q \<le> ranked_rate rates p"
  proof (cases "q < length rates")
    case True
    have "sorted (map (\<lambda>a. (- dict_get rates a 0, py_str a)) (rate_order rates))"
      by (simp add: rate_order_def)
    from sorted_nth_mono [OF this, of p q] True pq
    have "- dict_get rates (rate_order rates ! p) 0 \<le> - dict_get rates (rate_order rates ! q) 0"
      by (auto simp: less_eq_prod_def)
    then show ?thesis using True pq by (simp add: ranked_rate_def)
  next
    case False
    then show ?thesis using pos [of p] by (simp add: ranked_rate_def)
  qed
qed

lemma traffic_eq:
  assumes "router_ok r" and "0 \<le> j" and "j < n_shards r"
    and "rates = rate_estimate (router_estimator r)" and "N = nat (n_shards r)"
  shows "shard_traffic (rebalance r) j = (\<Sum>q<length rates. ranked_rate rates (q * N + nat j))"
proof -
  have N: "n_shards r = int N" "0 < N" "nat j < N"
    using assms by (auto simp: router_ok_def)
  define L where "L = length rates"
  have d: "dict_ok rates" using assms(1,4) by (simp add: router_ok_def)
  have rate: "get_rate (router_estimator r) (rate_order rates ! p) = ranked_rate rates p" if "p < L" for p
  proof -
    have "rate_order rates ! p \<in> fst ` set rates"
      using that nth_mem [of p "rate_order rates"] by (simp add: L_def)
    then obtain x where "map_of rates (rate_order rates ! p) = Some x" using map_of_keyD by metis
    then show ?thesis using that assms(4) by (simp add: get_rate_def dict_get_def ranked_rate_def L_def)
  qed
  have "shard_traffic (rebalance r) j
      = (\<Sum>p\<leftarrow>[0..<L]. if int p mod n_shards r = j then get_rate (router_estimator r) (rate_order rates ! p) else 0)"
  proof -
    have "assignment (rebalance r) = map (\<lambda>p. (rate_order rates ! p, int p mod n_shards r)) [0..<L]"
      using d assms(4) by (simp add: rebalance_def get_all_rates_def round_robin_eq L_def)
    moreover have "router_estimator (rebalance r) = router_estimator r" by (simp add: rebalance_def)
    ultimately show ?thesis by (simp add: shard_traffic_def o_def cong: if_cong)
  qed
  also have "\<dots> = (\<Sum>p<L. if p mod N = nat j then ranked_rate rates p else 0)"
    using assms(2) by (auto simp: interv_sum_list_conv_sum_set_nat atLeast0LessThan N(1) rate
        simp flip: zmod_int intro!: sum.cong)
  also have "\<dots> = (\<Sum>p<L * N. if p mod N = nat j then ranked_rate rates p else 0)"
    using N(2) by (intro sum.mono_neutral_left) (auto simp: ranked_rate_def L_def)
  finally show ?thesis using sum_residue [OF N(2,3)] by (simp add: L_def)
qed

text \<open>A rebalance shares the traffic: after it a lower-numbered shard carries at least the
  traffic of a higher-numbered one, and exceeds it by at most the rate of the hottest adapter,
  so the imbalance does not grow with the number of adapters.\<close>

theorem rebalance_shares_traffic:
  assumes "router_ok r" and "\<forall>x\<in>snd ` set (rate_estimate (router_estimator r)). 0 \<le> x"
    and "0 \<le> i" and "i < j" and "j < n_shards r" and "rate_estimate (router_estimator r) \<noteq> []"
  shows "shard_traffic (rebalance r) j \<le> shard_traffic (rebalance r) i \<and>
    shard_traffic (rebalance r) i \<le>
      shard_traffic (rebalance r) j + Max (snd ` set (rate_estimate (router_estimator r)))"
proof -
  define rates where "rates = rate_estimate (router_estimator r)"
  define N where "N = nat (n_shards r)"
  define f where "f = ranked_rate rates"
  have d: "dict_ok rates" using assms(1) by (simp add: router_ok_def rates_def)
  have ij: "nat i < nat j" "nat j < N" using assms(3-5) by (auto simp: N_def)
  have anti: "\<And>p q. p \<le> q \<Longrightarrow> f q \<le> f p" and pos: "\<And>p. 0 \<le> f p"
    using ranked_rate_antitone [OF _ d] assms(2) by (auto simp: f_def rates_def)
  have eq: "shard_traffic (rebalance r) i = (\<Sum>q<length rates. f (q * N + nat i))"
    "shard_traffic (rebalance r) j = (\<Sum>q<length rates. f (q * N + nat j))"
    using traffic_eq [OF assms(1) _ _ rates_def N_def] assms(3-5) by (auto simp: f_def)
  have "rate_order rates ! 0 \<in> fst ` set rates"
    using assms(6) nth_mem [of 0 "rate_order rates"] by (simp add: rates_def)
  then obtain x where x: "map_of rates (rate_order rates ! 0) = Some x" using map_of_keyD by metis
  then have "f 0 \<le> Max (snd ` set rates)"
    using map_of_SomeD [OF x] assms(6)
    by (auto simp: f_def ranked_rate_def rates_def dict_get_def intro!: Max_ge image_eqI)
  moreover note deal_decreasing [of f, OF anti pos ij, of "length rates"]
  ultimately show ?thesis unfolding eq rates_def [symmetric] by linarith
qed

theorem rebalance_shares_traffic_witness:
  "\<exists>r. router_init 2 30 (1/10) [(7, 4), (8, 1), (9, 2)] = Inr r \<and>
     shard_traffic (rebalance r) 1 \<le> shard_traffic (rebalance r) 0 \<and>
     shard_traffic (rebalance r) 0 \<le> shard_traffic (rebalance r) 1 + 4"
proof -
  obtain r where r: "router_init 2 30 (1/10) [(7, 4), (8, 1), (9, 2)] = Inr r"
    by (simp add: router_init_def estimator_init_def Let_def)
  then have rates: "rate_estimate (router_estimator r) = [(7, 4), (8, 1), (9, 2)]"
    by (auto simp: router_init_def estimator_init_def Let_def set_rates_def rebalance_def dict_set_def)
  show ?thesis
    using rebalance_shares_traffic [of r 0 1] router_init_ok [OF r] rates r by auto
qed

end
