(* ===== verification/Workload.thy ===== *)
theory Workload
  imports Router
begin

text \<open>
  \<^verbatim>\<open>workloads/pattern_generator.py\<close>: request lists with Poisson arrivals and four adapter
  distributions, and the replay of a trace. Python's \<open>random.Random\<close> is given by its two primitives,
  \<open>random()\<close> and \<open>_randbelow(n)\<close>; \<open>expovariate\<close>, \<open>choices\<close> and \<open>shuffle\<close> are the library's functions
  over them.
\<close>

subsection \<open>Random numbers\<close>

record 'r rng_lib =
  rng_new :: "int \<Rightarrow> 'r"
  rng_random :: "'r \<Rightarrow> real \<times> 'r"
  rng_below :: "nat \<Rightarrow> 'r \<Rightarrow> nat \<times> 'r"

definition rng_ok :: "'r rng_lib \<Rightarrow> bool" where
  "rng_ok lib \<longleftrightarrow> (\<forall>r. 0 \<le> fst (rng_random lib r) \<and> fst (rng_random lib r) < 1 \<and>
     (\<forall>n>0. fst (rng_below lib n r) < n))"

fun draws :: "('r \<Rightarrow> 'x \<times> 'r) \<Rightarrow> nat \<Rightarrow> 'r \<Rightarrow> 'x list \<times> 'r" where
  "draws f 0 r = ([], r)"
| "draws f (Suc n) r = (let (x, r1) = f r; (xs, r2) = draws f n r1 in (x # xs, r2))"

text \<open>\<open>expovariate(rate)\<close>, \<open>choices(range(m), k=n)\<close> for \<open>m > 0\<close>, and \<open>shuffle(xs)\<close>.\<close>

definition expovariate :: "'r rng_lib \<Rightarrow> real \<Rightarrow> 'r \<Rightarrow> real \<times> 'r" where
  "expovariate lib rate r = (let (u, r') = rng_random lib r in (- ln (1 - u) / rate, r'))"

definition choices :: "'r rng_lib \<Rightarrow> nat \<Rightarrow> nat \<Rightarrow> 'r \<Rightarrow> nat list \<times> 'r" where
  "choices lib m n = draws (\<lambda>r. let (u, r') = rng_random lib r in (nat \<lfloor>u * real m\<rfloor>, r')) n"

fun shuffle_loop :: "'r rng_lib \<Rightarrow> nat \<Rightarrow> 'x list \<Rightarrow> 'r \<Rightarrow> 'x list \<times> 'r" where
  "shuffle_loop lib 0 xs r = (xs, r)"
| "shuffle_loop lib (Suc i) xs r =
     (let (j, r') = rng_below lib (Suc i + 1) r
      in shuffle_loop lib i (xs[j := xs ! Suc i, Suc i := xs ! j]) r')"

definition shuffle_list :: "'r rng_lib \<Rightarrow> 'x list \<Rightarrow> 'r \<Rightarrow> 'x list \<times> 'r" where
  "shuffle_list lib xs = shuffle_loop lib (length xs - 1) xs"

subsection \<open>Requests\<close>

record load_request =
  req_id :: string
  adapter_id :: int
  prompt :: string
  inter_arrival_s :: real
  req_max_tokens :: int

record generator =
  gen_prompts :: "string list"
  gen_max_tokens :: int

text \<open>\<open>f"req_{i:05d}"\<close>: at least five digits.\<close>

definition pad5 :: "nat \<Rightarrow> string" where
  "pad5 i = (let d = nat_digits i in replicate (5 - length d) (CHR ''0'') @ d)"

definition poisson_arrivals :: "'r rng_lib \<Rightarrow> real \<Rightarrow> nat \<Rightarrow> 'r \<Rightarrow> real list \<times> 'r" where
  "poisson_arrivals lib rate n r =
     (if rate \<le> 0 then (replicate n 0, r) else draws (expovariate lib rate) n r)"

definition make_requests ::
  "'r rng_lib \<Rightarrow> generator \<Rightarrow> int list \<Rightarrow> real list \<Rightarrow> string list option \<Rightarrow> 'r \<Rightarrow>
     py_error + load_request list" where
  "make_requests lib g adapter_ids inter_arrivals prompt_list r =
     (let prompts = (case prompt_list of
            Some ps \<Rightarrow> if ps = [] then gen_prompts g else ps | None \<Rightarrow> gen_prompts g);
          n = length adapter_ids
      in if 0 < n \<and> (prompts = [] \<or> length inter_arrivals < n) then Inl IndexError
         else (let (prompt_indices, r') = choices lib (length prompts) n r
               in Inr (map (\<lambda>i. \<lparr>req_id = ''req_'' @ pad5 i, adapter_id = adapter_ids ! i,
                      prompt = prompts ! (prompt_indices ! i), inter_arrival_s = inter_arrivals ! i,
                      req_max_tokens = gen_max_tokens g\<rparr>) [0..<n])))"

subsection \<open>The four patterns\<close>

definition identical ::
  "'r rng_lib \<Rightarrow> generator \<Rightarrow> real \<Rightarrow> nat \<Rightarrow> int \<Rightarrow> int \<Rightarrow> py_error + load_request list" where
  "identical lib g rate n adapter seed =
     (let (arr, r) = poisson_arrivals lib rate n (rng_new lib seed)
      in make_requests lib g (replicate n adapter) arr None r)"

definition uniform ::
  "'r rng_lib \<Rightarrow> generator \<Rightarrow> real \<Rightarrow> nat \<Rightarrow> int \<Rightarrow> int \<Rightarrow> py_error + load_request list" where
  "uniform lib g rate n K seed =
     (let (arr, r) = poisson_arrivals lib rate n (rng_new lib seed)
      in if K = 0 \<and> 0 < n then Inl ZeroDivisionError
         else (let ids = map (\<lambda>i. int i mod K) [0..<n];
                   (ids', r2) = shuffle_list lib ids (rng_new lib (seed + 1))
               in make_requests lib g ids' arr None r))"

fun cumulate :: "real \<Rightarrow> real \<Rightarrow> real list \<Rightarrow> real list" where
  "cumulate tot c [] = []"
| "cumulate tot c (w # ws) = (let c' = c + w / tot in c' # cumulate tot c' ws)"

function search_cdf :: "real list \<Rightarrow> real \<Rightarrow> int \<Rightarrow> int \<Rightarrow> int" where
  "search_cdf cdf u lo hi =
     (if lo < hi then
        (let mid = (lo + hi) div 2
         in if cdf ! nat mid < u then search_cdf cdf u (mid + 1) hi else search_cdf cdf u lo mid)
      else lo)"
  by pat_completeness auto
termination
  by (relation "measure (\<lambda>(cdf, u, lo, hi). nat (hi - lo))") auto

declare search_cdf.simps [simp del]

definition zipf_weights :: "int \<Rightarrow> real \<Rightarrow> real list" where
  "zipf_weights K alpha = map (\<lambda>k. (real k + 1) powr (- alpha)) [0..<nat K]"

definition zipf ::
  "'r rng_lib \<Rightarrow> generator \<Rightarrow> real \<Rightarrow> nat \<Rightarrow> int \<Rightarrow> real \<Rightarrow> int \<Rightarrow> py_error + load_request list" where
  "zipf lib g rate n K alpha seed =
     (let (arr, r) = poisson_arrivals lib rate n (rng_new lib seed);
          ws = zipf_weights K alpha;
          cdf = cumulate (sum_list ws) 0 ws;
          (ids, r2) = draws (\<lambda>r. let (u, r') = rng_random lib r in (search_cdf cdf u 0 (K - 1), r')) n r
      in make_requests lib g ids arr None r2)"

definition distinct_pattern ::
  "'r rng_lib \<Rightarrow> generator \<Rightarrow> real \<Rightarrow> nat \<Rightarrow> int \<Rightarrow> int \<Rightarrow> py_error + load_request list" where
  "distinct_pattern lib g rate n K seed =
     (let (arr, r) = poisson_arrivals lib rate n (rng_new lib seed)
      in if K = 0 \<and> 0 < n then Inl ZeroDivisionError
         else make_requests lib g (map (\<lambda>i. int i mod K) [0..<n]) arr None r)"

subsection \<open>Traces\<close>

text \<open>A trace file is its lines, parsed: \<open>None\<close> is a blank line. The defaults \<open>i % K\<close> and
  \<open>self._prompts[i % len(self._prompts)]\<close> are evaluated whether they are needed or not.\<close>

record trace_record =
  trace_ts :: "real option"
  trace_adapter :: "int option"
  trace_prompt :: "string option"

definition timestamp :: "trace_record \<Rightarrow> real" where
  "timestamp rec = (case trace_ts rec of Some t \<Rightarrow> t | None \<Rightarrow> 0)"

fun trace_loop :: "generator \<Rightarrow> int \<Rightarrow> real \<Rightarrow> nat \<Rightarrow> trace_record list \<Rightarrow> load_request list" where
  "trace_loop g K prev i [] = []"
| "trace_loop g K prev i (rec # recs) =
     (let ts = timestamp rec;
          inter = max 0 (ts - prev);
          aid = (case trace_adapter rec of Some a \<Rightarrow> a | None \<Rightarrow> int i mod K);
          pr = (case trace_prompt rec of Some p \<Rightarrow> p | None \<Rightarrow> gen_prompts g ! (i mod length (gen_prompts g)))
      in \<lparr>req_id = ''trace_'' @ pad5 i, adapter_id = aid mod K, prompt = pr, inter_arrival_s = inter,
          req_max_tokens = gen_max_tokens g\<rparr> # trace_loop g K ts (i + 1) recs)"

definition from_trace ::
  "generator \<Rightarrow> trace_record option list \<Rightarrow> int \<Rightarrow> py_error + load_request list" where
  "from_trace g lines K =
     (let records = sort_key timestamp (List.map_filter (\<lambda>x. x) lines)
      in if records \<noteq> [] \<and> (K = 0 \<or> gen_prompts g = []) then Inl ZeroDivisionError
         else Inr (trace_loop g K 0 0 records))"

subsection \<open>The random functions\<close>

lemma length_draws [simp]: "length (fst (draws f n r)) = n"
  by (induction n arbitrary: r) (auto simp: case_prod_unfold Let_def)

lemma draws_map:
  "draws (\<lambda>r. let (u, r') = f r in (h u, r')) n r = (map h (fst (draws f n r)), snd (draws f n r))"
  by (induction n arbitrary: r) (auto simp: case_prod_unfold Let_def)

lemma set_draws: "(\<And>r. P (fst (f r))) \<Longrightarrow> x \<in> set (fst (draws f n r)) \<Longrightarrow> P x"
  by (induction n arbitrary: r) (auto simp: case_prod_unfold Let_def)

lemma length_shuffle [simp]: "length (fst (shuffle_loop lib i xs r)) = length xs"
  by (induction i arbitrary: xs r) (auto simp: case_prod_unfold Let_def)

lemma mset_shuffle:
  "rng_ok lib \<Longrightarrow> i < length xs \<or> i = 0 \<Longrightarrow> mset (fst (shuffle_loop lib i xs r)) = mset xs"
proof (induction i arbitrary: xs r)
  case (Suc i)
  let ?j = "fst (rng_below lib (Suc i + 1) r)"
  have j: "?j < length xs" using Suc.prems unfolding rng_ok_def
    by (metis Suc_eq_plus1 Suc_leI le_neq_implies_less less_trans zero_less_Suc Zero_not_Suc
        Suc_less_eq less_Suc_eq)
  have "mset (xs[?j := xs ! Suc i, Suc i := xs ! ?j]) = mset xs"
    using j Suc.prems(2) mset_swap [of "Suc i" xs ?j] by simp
  then show ?case using Suc by (auto simp: case_prod_unfold Let_def)
qed simp

lemma arrivals_ok:
  assumes "rng_ok lib"
  shows "length (fst (poisson_arrivals lib rate n r)) = n"
    and "x \<in> set (fst (poisson_arrivals lib rate n r)) \<Longrightarrow> 0 \<le> x"
proof -
  show "length (fst (poisson_arrivals lib rate n r)) = n" by (simp add: poisson_arrivals_def)
  have "0 \<le> fst (expovariate lib rate s)" if "0 < rate" for s
  proof -
    have "0 \<le> fst (rng_random lib s)" "fst (rng_random lib s) < 1" using assms by (auto simp: rng_ok_def)
    then have "ln (1 - fst (rng_random lib s)) \<le> 0" by simp
    then show ?thesis using that by (simp add: expovariate_def case_prod_unfold Let_def divide_nonpos_pos)
  qed
  then show "0 \<le> x" if "x \<in> set (fst (poisson_arrivals lib rate n r))"
    using that set_draws [of "\<lambda>x. 0 \<le> x" "expovariate lib rate"]
    by (auto simp: poisson_arrivals_def split: if_splits)
qed

text \<open>What every pattern gives: the adapters asked for, in order, with distinct names.\<close>

definition digits_value :: "string \<Rightarrow> nat" where
  "digits_value s = foldl (\<lambda>v c. 10 * v + (of_char c - 48)) 0 s"

lemma digits_value_nat: "digits_value (nat_digits n) = n"
proof (induction n rule: nat_digits.induct)
  case (1 n)
  have c: "of_char (char_of (48 + d :: nat)) = 48 + d" if "d < 10" for d
    using that by (simp add: of_char_of)
  show ?case using 1 c [of n] c [of "n mod 10"] by (subst nat_digits.simps) (simp add: digits_value_def)
qed

lemma digits_value_pad: "digits_value (pad5 n) = n"
proof -
  have "foldl (\<lambda>v c. 10 * v + (of_char c - 48 :: nat)) 0 (replicate k (CHR ''0'')) = 0" for k
    by (induction k) auto
  then show ?thesis using digits_value_nat [of n] by (simp add: pad5_def Let_def digits_value_def)
qed

lemma pad5_inj: "pad5 i = pad5 j \<Longrightarrow> i = j"
  using digits_value_pad by metis

lemma make_requests_ok:
  assumes "gen_prompts g \<noteq> []" and "length arr = length ids"
  shows "\<exists>reqs. make_requests lib g ids arr None r = Inr reqs \<and> map adapter_id reqs = ids \<and>
    map inter_arrival_s reqs = arr \<and> distinct (map req_id reqs)"
proof -
  define idx where "idx = fst (choices lib (length (gen_prompts g)) (length ids) r)"
  define f where "f = (\<lambda>i. \<lparr>req_id = ''req_'' @ pad5 i, adapter_id = ids ! i, prompt = gen_prompts g ! (idx ! i),
    inter_arrival_s = arr ! i, req_max_tokens = gen_max_tokens g\<rparr>)"
  have "make_requests lib g ids arr None r = Inr (map f [0..<length ids])"
    using assms by (simp add: make_requests_def Let_def case_prod_unfold f_def idx_def)
  moreover have "inj_on (\<lambda>i. ''req_'' @ pad5 i) A" for A using pad5_inj by (auto intro: inj_onI)
  then have "distinct (map req_id (map f [0..<length ids]))"
    by (simp only: map_map o_def f_def load_request.simps distinct_map) simp
  moreover have "map adapter_id (map f [0..<length ids]) = ids" "map inter_arrival_s (map f [0..<length ids]) = arr"
    using assms(2) by (auto simp: f_def intro: nth_equalityI)
  ultimately show ?thesis by blast
qed

subsection \<open>Uniform\<close>

text \<open>The uniform workload sends every adapter the same number of requests, up to one: for n
  requests over K adapters and any random source, the generator succeeds, adapter k gets n div K
  requests, one more for k < n mod K, the requests have distinct names and non-negative gaps, and the
  distinct pattern gives the same requests per adapter in rotation.\<close>

theorem uniform_workload_is_balanced:
  assumes "rng_ok lib" and "0 < K" and "gen_prompts g \<noteq> []"
  shows "\<exists>reqs reqs'. uniform lib g rate n K seed = Inr reqs \<and>
    (\<forall>k<nat K. count (mset (map adapter_id reqs)) (int k) = n div nat K + of_bool (k < n mod nat K)) \<and>
    distinct (map req_id reqs) \<and> (\<forall>r\<in>set reqs. 0 \<le> inter_arrival_s r) \<and>
    distinct_pattern lib g rate n K seed = Inr reqs' \<and>
    map adapter_id reqs' = map (\<lambda>i. int i mod K) [0..<n] \<and>
    mset (map adapter_id reqs') = mset (map adapter_id reqs) \<and>
    map inter_arrival_s reqs' = map inter_arrival_s reqs"
proof -
  define arr where "arr = poisson_arrivals lib rate n (rng_new lib seed)"
  define ids where "ids = map (\<lambda>i. int i mod K) [0..<n]"
  define ids' where "ids' = fst (shuffle_list lib ids (rng_new lib (seed + 1)))"
  have perm: "mset ids' = mset ids" "length ids' = n" "length ids = n"
    using mset_shuffle [OF assms(1), of "length ids - 1" ids "rng_new lib (seed + 1)"]
    by (cases n) (auto simp: ids'_def ids_def shuffle_list_def)
  have arr: "length (fst arr) = n" "\<And>x. x \<in> set (fst arr) \<Longrightarrow> 0 \<le> x"
    using arrivals_ok [OF assms(1)] by (auto simp: arr_def)
  obtain reqs where r: "make_requests lib g ids' (fst arr) None (snd arr) = Inr reqs"
    "map adapter_id reqs = ids'" "map inter_arrival_s reqs = fst arr" "distinct (map req_id reqs)"
    using make_requests_ok [OF assms(3), of "fst arr" ids' lib "snd arr"] arr perm by auto
  obtain reqs' where r': "make_requests lib g ids (fst arr) None (snd arr) = Inr reqs'"
    "map adapter_id reqs' = ids" "map inter_arrival_s reqs' = fst arr"
    using make_requests_ok [OF assms(3), of "fst arr" ids lib "snd arr"] arr perm by auto
  have "count (mset ids') (int k) = n div nat K + of_bool (k < n mod nat K)" if "k < nat K" for k
  proof -
    have "K = int (nat K)" using assms(2) by simp
    then have "int k = int i mod K \<longleftrightarrow> i mod nat K = k" for i by (metis of_nat_eq_iff zmod_int)
    then have "count (mset ids) (int k) = length (filter (\<lambda>i. i mod nat K = k) [0..<n])"
      by (simp only: ids_def count_mset count_list_eq_length_filter filter_map o_def length_map)
    then show ?thesis using residue_count [of "nat K" k n] that perm(1) by simp
  qed
  moreover have "uniform lib g rate n K seed = Inr reqs" "distinct_pattern lib g rate n K seed = Inr reqs'"
    using assms(2) r(1) r'(1)
    by (simp_all add: uniform_def distinct_pattern_def arr_def ids_def ids'_def case_prod_unfold Let_def)
  moreover have "0 \<le> inter_arrival_s q" if "q \<in> set reqs" for q
    using arr(2) that r(3) by (metis image_eqI set_map)
  ultimately show ?thesis using r r' perm(1)
    by (intro exI [of _ reqs] exI [of _ reqs']) (simp add: ids_def [symmetric] del: mset_map)
qed

text \<open>A small congruential generator.\<close>

definition demo_rng :: "nat rng_lib" where
  "demo_rng = \<lparr>rng_new = nat, rng_random = (\<lambda>s. (real (s mod 8) / 8, 5 * s + 3)),
     rng_below = (\<lambda>n s. (s mod n, 5 * s + 3))\<rparr>"

lemma demo_rng_ok: "rng_ok demo_rng"
  by (simp add: rng_ok_def demo_rng_def)

definition demo_generator :: generator where
  "demo_generator = \<lparr>gen_prompts = [''hello'', ''world''], gen_max_tokens = 128\<rparr>"

theorem uniform_workload_is_balanced_witness:
  "\<exists>reqs. uniform demo_rng demo_generator 2 7 3 42 = Inr reqs \<and>
     map (count (mset (map adapter_id reqs))) [0, 1, 2] = [3, 2, 2]"
proof -
  from uniform_workload_is_balanced [OF demo_rng_ok, of 3 demo_generator 2 7 42]
  obtain reqs where r: "uniform demo_rng demo_generator 2 7 3 42 = Inr reqs"
    and c: "\<forall>k<3. count (mset (map adapter_id reqs)) (int k) = 7 div 3 + of_bool (k < 7 mod 3)"
    by (auto simp: demo_generator_def)
  from c [rule_format, of 0] c [rule_format, of 1] c [rule_format, of 2] r show ?thesis by auto
qed

subsection \<open>Zipf\<close>

text \<open>The binary search finds the first position whose cumulative weight reaches \<open>u\<close>.\<close>

lemma search_cdf_spec:
  assumes "sorted cdf" and "0 \<le> lo" and "lo \<le> hi" and "hi < int (length cdf)"
    and "\<And>k. int k < lo \<Longrightarrow> cdf ! k < u" and "u \<le> cdf ! nat hi"
  shows "lo \<le> search_cdf cdf u lo hi \<and> search_cdf cdf u lo hi \<le> hi \<and>
    u \<le> cdf ! nat (search_cdf cdf u lo hi) \<and> (\<forall>k. int k < search_cdf cdf u lo hi \<longrightarrow> cdf ! k < u)"
  using assms
proof (induction cdf u lo hi rule: search_cdf.induct)
  case (1 cdf u lo hi)
  define mid where "mid = (lo + hi) div 2"
  show ?case
  proof (cases "lo < hi")
    case True
    then have mid: "lo \<le> mid" "mid < hi" by (auto simp: mid_def)
    show ?thesis
    proof (cases "cdf ! nat mid < u")
      case right: True
      have "cdf ! k < u" if "int k < mid + 1" for k
      proof -
        have "k \<le> nat mid" "nat mid < length cdf" using that mid 1(4,6) by linarith+
        from sorted_nth_mono [OF 1(3) this] right show ?thesis by simp
      qed
      then show ?thesis
        using 1(1) [OF True mid_def right 1(3)] 1(4,6,8) mid right True
        by (subst (1 2 3 4) search_cdf.simps) (auto simp: mid_def [symmetric] Let_def)
    next
      case left: False
      then show ?thesis
        using 1(2) [OF True mid_def left 1(3) 1(4)] 1(6,7) mid left True
        by (subst (1 2 3 4) search_cdf.simps) (auto simp: mid_def [symmetric] Let_def)
    qed
  next
    case False
    then have "search_cdf cdf u lo hi = lo" by (subst search_cdf.simps) simp
    moreover have "hi = lo" using False 1(5) by simp
    ultimately show ?thesis using 1(7,8) by simp
  qed
qed

lemma length_cumulate [simp]: "length (cumulate tot c ws) = length ws"
  by (induction ws arbitrary: c) (auto simp: Let_def)

lemma cumulate_nth:
  "j < length ws \<Longrightarrow> cumulate tot c ws ! j = c + (\<Sum>k\<le>j. ws ! k / tot)"
proof (induction ws arbitrary: c j)
  case (Cons w ws)
  then show ?case
    by (cases j) (auto simp: Let_def sum.atMost_Suc_shift add.assoc simp del: sum.atMost_Suc)
qed simp

lemma search_cdf_iff:
  assumes "sorted_wrt (<) cdf" and "cdf \<noteq> []" and "u \<le> last cdf" and "j < length cdf"
  shows "search_cdf cdf u 0 (int (length cdf) - 1) = int j \<longleftrightarrow> (\<forall>k<j. cdf ! k < u) \<and> u \<le> cdf ! j"
    and "search_cdf cdf u 0 (int (length cdf) - 1) \<in> {0..<int (length cdf)}"
proof -
  define m where "m = search_cdf cdf u 0 (int (length cdf) - 1)"
  have "sorted cdf" using assms(1) by (rule sorted_wrt_mono_rel [rotated]) simp
  then have m: "0 \<le> m" "m \<le> int (length cdf) - 1" "u \<le> cdf ! nat m" "\<And>k. int k < m \<Longrightarrow> cdf ! k < u"
    using search_cdf_spec [of cdf 0 "int (length cdf) - 1" u] assms
    by (auto simp: m_def last_conv_nth nat_diff_distrib)
  then show "m \<in> {0..<int (length cdf)}" by simp
  show "m = int j \<longleftrightarrow> (\<forall>k<j. cdf ! k < u) \<and> u \<le> cdf ! j"
  proof
    assume r: "(\<forall>k<j. cdf ! k < u) \<and> u \<le> cdf ! j"
    have "\<not> nat m < j" using r m(3) by (meson not_le)
    moreover have "\<not> int j < m" using r m(4) [of j] by auto
    ultimately show "m = int j" using m(1) by linarith
  qed (use m in auto)
qed

lemma zipf_cdf:
  fixes K :: int and alpha :: real
  assumes "0 < K"
  defines "tot \<equiv> (\<Sum>l<nat K. (real l + 1) powr (- alpha))"
  defines "p \<equiv> (\<lambda>k. (real k + 1) powr (- alpha) / tot)"
  defines "cdf \<equiv> cumulate tot 0 (zipf_weights K alpha)"
  shows "sum_list (zipf_weights K alpha) = tot" and "(\<Sum>k<nat K. p k) = 1" and "length cdf = nat K"
    and "\<And>j. j < nat K \<Longrightarrow> cdf ! j = (\<Sum>k<j. p k) + p j" and "sorted_wrt (<) cdf" and "cdf \<noteq> []" and "last cdf = 1"
proof -
  have tot: "0 < tot" using assms(1) by (auto simp: tot_def intro!: sum_pos simp: lessThan_empty_iff)
  then have p: "0 < p k" for k by (simp add: p_def)
  show "sum_list (zipf_weights K alpha) = tot"
    by (simp add: zipf_weights_def tot_def interv_sum_list_conv_sum_set_nat atLeast0LessThan)
  show one: "(\<Sum>k<nat K. p k) = 1"
    using tot by (simp add: p_def flip: sum_divide_distrib) (simp add: tot_def)
  show len: "length cdf = nat K" by (simp add: cdf_def zipf_weights_def)
  have nth: "cdf ! j = (\<Sum>k\<le>j. p k)" if "j < nat K" for j
    using that by (simp add: cdf_def cumulate_nth zipf_weights_def p_def)
  show "cdf ! j = (\<Sum>k<j. p k) + p j" if "j < nat K" for j
    using nth [OF that] by (simp flip: lessThan_Suc_atMost)
  have "(\<Sum>k\<le>i. p k) < (\<Sum>k\<le>j. p k)" if "i < j" for i j
    using that p by (intro sum_strict_mono2 [of _ _ j]) (auto intro: less_imp_le)
  then show "sorted_wrt (<) cdf" using nth len by (auto simp: sorted_wrt_iff_nth_less)
  show ne: "cdf \<noteq> []" using len assms(1) by auto
  show "last cdf = 1" using ne len assms(1) nth [of "nat K - 1"] one
    by (simp add: last_conv_nth flip: lessThan_Suc_atMost)
qed

lemma zipf_interval:
  fixes K :: int and alpha :: real
  assumes "0 < K" and "u < 1"
  defines "tot \<equiv> (\<Sum>l<nat K. (real l + 1) powr (- alpha))"
  defines "p \<equiv> (\<lambda>k. (real k + 1) powr (- alpha) / tot)"
  defines "cdf \<equiv> cumulate tot 0 (zipf_weights K alpha)"
  shows "search_cdf cdf u 0 (K - 1) \<in> {0..<K}"
    and "\<And>j. j < nat K \<Longrightarrow> search_cdf cdf u 0 (K - 1) = int j \<longleftrightarrow>
      (j = 0 \<or> (\<Sum>k<j. p k) < u) \<and> u \<le> (\<Sum>k<j. p k) + p j"
proof -
  note cdf = zipf_cdf [OF assms(1), where alpha = alpha, folded tot_def, folded p_def cdf_def]
  have last: "cdf \<noteq> []" "u \<le> last cdf" using cdf(6,7) assms(2) by auto
  have K: "int (length cdf) = K" using cdf(3) assms(1) by simp
  note iff = search_cdf_iff [OF cdf(5) last, unfolded K]
  show "search_cdf cdf u 0 (K - 1) \<in> {0..<K}"
    using iff(2) [of 0] last(1) by simp
  fix j
  assume j: "j < nat K"
  have "(\<forall>k<j. cdf ! k < u) \<longleftrightarrow> j = 0 \<or> (\<Sum>k<j. p k) < u"
  proof (cases j)
    case (Suc j')
    have "cdf ! k \<le> cdf ! j'" if "k < j" for k
      using that j Suc cdf(3) sorted_wrt_nth_less [OF cdf(5), of k j'] by (cases "k = j'") auto
    moreover have "cdf ! j' = (\<Sum>k<j. p k)" using cdf(4) [of j'] j Suc by (simp add: p_def)
    ultimately show ?thesis using Suc by (metis Zero_not_Suc le_less_trans lessI)
  qed simp
  then show "search_cdf cdf u 0 (K - 1) = int j \<longleftrightarrow>
      (j = 0 \<or> (\<Sum>k<j. p k) < u) \<and> u \<le> (\<Sum>k<j. p k) + p j"
    using iff(1) [of j] cdf(4) [OF j] j by (simp add: cdf(3) p_def)
qed

lemma zipf_ok:
  fixes alpha rate :: real and n :: nat and seed :: int
  assumes "rng_ok lib" and "0 < K" and "gen_prompts g \<noteq> []"
  defines "arr \<equiv> poisson_arrivals lib rate n (rng_new lib seed)"
  defines "us \<equiv> fst (draws (rng_random lib) n (snd arr))"
  defines "cdf \<equiv> cumulate (\<Sum>l<nat K. (real l + 1) powr (- alpha)) 0 (zipf_weights K alpha)"
  obtains reqs where "zipf lib g rate n K alpha seed = Inr reqs"
    and "map adapter_id reqs = map (\<lambda>u. search_cdf cdf u 0 (K - 1)) us" and "map inter_arrival_s reqs = fst arr"
proof -
  define ids where "ids = map (\<lambda>u. search_cdf cdf u 0 (K - 1)) us"
  define dr where "dr = draws (\<lambda>r. let (u, r') = rng_random lib r in (search_cdf cdf u 0 (K - 1), r')) n (snd arr)"
  have dr: "fst dr = ids" by (simp only: dr_def draws_map us_def ids_def fst_conv)
  have "zipf lib g rate n K alpha seed = make_requests lib g ids (fst arr) None (snd dr)"
    by (simp add: zipf_def Let_def case_prod_unfold zipf_cdf(1) [OF assms(2)] arr_def cdf_def dr_def flip: dr)
  then show thesis
    using make_requests_ok [OF assms(3), of "fst arr" ids lib "snd dr"] arrivals_ok(1) [OF assms(1), of rate n "rng_new lib seed"] that
    by (auto simp: ids_def arr_def us_def)
qed

text \<open>C27: The Zipf workload samples the Zipf distribution by inversion. For any random source, the
  generator succeeds with one request per draw and non-negative gaps, every adapter is below K, and
  request i goes to adapter j exactly when its uniform draw lies in the j-th interval of the unit
  interval, whose length is the adapter's Zipf probability (j+1)^-alpha over the sum of all.\<close>

theorem zipf_is_inverse_transform:
  assumes "rng_ok lib" and "0 < K" and "gen_prompts g \<noteq> []"
  shows "\<exists>reqs. zipf lib g rate n K alpha seed = Inr reqs \<and> length reqs = n \<and>
    (let us = fst (draws (rng_random lib) n (snd (poisson_arrivals lib rate n (rng_new lib seed))));
         p = (\<lambda>k. (real k + 1) powr (- alpha) / (\<Sum>l<nat K. (real l + 1) powr (- alpha)))
     in (\<Sum>k<nat K. p k) = 1 \<and>
        (\<forall>i<n. 0 \<le> inter_arrival_s (reqs ! i) \<and> adapter_id (reqs ! i) \<in> {0..<K} \<and>
          (\<forall>j<nat K. adapter_id (reqs ! i) = int j \<longleftrightarrow>
             (j = 0 \<or> (\<Sum>k<j. p k) < us ! i) \<and> us ! i \<le> (\<Sum>k<j. p k) + p j)))"
proof -
  define arr where "arr = poisson_arrivals lib rate n (rng_new lib seed)"
  define us where "us = fst (draws (rng_random lib) n (snd arr))"
  obtain reqs where r: "zipf lib g rate n K alpha seed = Inr reqs"
    "map adapter_id reqs = map (\<lambda>u. search_cdf (cumulate (\<Sum>l<nat K. (real l + 1) powr (- alpha)) 0
       (zipf_weights K alpha)) u 0 (K - 1)) us" "map inter_arrival_s reqs = fst arr"
    using zipf_ok [OF assms] unfolding us_def arr_def by blast
  have us: "length us = n" "\<And>i. i < n \<Longrightarrow> us ! i < 1"
    using assms(1) set_draws [of "\<lambda>u. u < 1" "rng_random lib" "us ! _" n "snd arr"]
    by (auto simp: us_def rng_ok_def)
  have n: "length reqs = n" using arg_cong [OF r(2), of length] us(1) by simp
  have id: "adapter_id (reqs ! i) = search_cdf (cumulate (\<Sum>l<nat K. (real l + 1) powr (- alpha)) 0
       (zipf_weights K alpha)) (us ! i) 0 (K - 1)" if "i < n" for i
    using arg_cong [OF r(2), of "\<lambda>xs. xs ! i"] n us(1) that by simp
  have "0 \<le> inter_arrival_s (reqs ! i)" if "i < n" for i
    using arg_cong [OF r(3), of "\<lambda>xs. xs ! i"] n that arrivals_ok(1) [OF assms(1), of rate n "rng_new lib seed"]
      arrivals_ok(2) [OF assms(1), of "fst arr ! i" rate n "rng_new lib seed"] by (simp add: arr_def)
  then show ?thesis
    using r(1) n zipf_cdf(2) [OF assms(2), of alpha] zipf_interval [OF assms(2) us(2), where alpha = alpha]
    by (simp add: id flip: us_def arr_def)
qed

theorem zipf_is_inverse_transform_witness:
  "\<exists>reqs. zipf demo_rng demo_generator 2 5 2 0 42 = Inr reqs \<and> length reqs = 5 \<and>
     list_all (\<lambda>q. adapter_id q \<in> {0, 1}) reqs"
proof -
  from zipf_is_inverse_transform [OF demo_rng_ok, of 2 demo_generator 2 5 0 42]
  obtain reqs where "zipf demo_rng demo_generator 2 5 2 0 42 = Inr reqs" "length reqs = 5"
    "\<forall>i<5. adapter_id (reqs ! i) \<in> {0..<2}" by (auto simp: demo_generator_def Let_def)
  then show ?thesis by (force simp: list_all_length)
qed

subsection \<open>Replaying a trace\<close>

lemma length_trace_loop [simp]: "length (trace_loop g K prev i recs) = length recs"
  by (induction recs arbitrary: prev i) (auto simp: Let_def)

lemma trace_loop_sent:
  assumes "sorted (map timestamp recs)" and "j < length recs"
  shows "(\<Sum>l\<le>j. inter_arrival_s (trace_loop g K prev i recs ! l)) =
    timestamp (recs ! j) - min prev (timestamp (recs ! 0))"
  using assms
proof (induction recs arbitrary: prev i j)
  case (Cons rec recs)
  show ?case
  proof (cases j)
    case (Suc j')
    then have "timestamp rec \<le> timestamp (recs ! 0)" using Cons.prems by (cases recs) auto
    then show ?thesis using Suc Cons.prems Cons.IH [of j' "timestamp rec" "i + 1"]
      by (simp add: Let_def sum.atMost_Suc_shift min_def max_def del: sum.atMost_Suc)
  qed (auto simp: Let_def)
qed simp

lemma trace_loop_request:
  assumes "0 < K" and "r \<in> set (trace_loop g K prev i recs)"
  shows "adapter_id r \<in> {0..<K}" and "0 \<le> inter_arrival_s r"
  using assms by (induction recs arbitrary: prev i) (auto simp: Let_def)

text \<open>Replaying a trace keeps its clock. For K adapters and a generator with prompts, a trace in any
  order of lines, with blank lines, gives one request per record, and the time at which request j
  is sent, the sum of the gaps up to it, is the j-th smallest timestamp (shifted to start at 0 when the
  first one is negative); gaps are non-negative and adapters below K.\<close>

theorem trace_replay_keeps_the_clock:
  assumes "0 < K" and "gen_prompts g \<noteq> []"
  shows "\<exists>reqs. from_trace g lines K = Inr reqs \<and>
    (let ts = sort (map timestamp (List.map_filter (\<lambda>x. x) lines))
     in length reqs = length ts \<and>
        (\<forall>j<length ts. (\<Sum>l\<le>j. inter_arrival_s (reqs ! l)) = ts ! j - min 0 (ts ! 0) \<and>
          0 \<le> inter_arrival_s (reqs ! j) \<and> adapter_id (reqs ! j) \<in> {0..<K}))"
proof -
  define recs where "recs = sort_key timestamp (List.map_filter (\<lambda>x. x) lines)"
  have ts: "sort (map timestamp (List.map_filter (\<lambda>x. x) lines)) = map timestamp recs"
    by (rule properties_for_sort) (auto simp: recs_def)
  have "from_trace g lines K = Inr (trace_loop g K 0 0 recs)"
    using assms by (simp add: from_trace_def recs_def)
  moreover have "sorted (map timestamp recs)" by (simp add: recs_def)
  moreover have "map timestamp recs ! 0 = timestamp (recs ! 0)" if "j < length recs" for j
    using that by (cases recs) auto
  ultimately show ?thesis
    using trace_loop_sent [of recs] trace_loop_request [OF assms(1) nth_mem]
    by (auto simp: ts Let_def)
qed

theorem trace_replay_keeps_the_clock_witness:
  "\<exists>reqs. from_trace demo_generator [Some \<lparr>trace_ts = Some 5, trace_adapter = Some 9, trace_prompt = None\<rparr>, None,
       Some \<lparr>trace_ts = Some 2, trace_adapter = None, trace_prompt = Some ''hi''\<rparr>] 4 = Inr reqs \<and>
     length reqs = 2 \<and> inter_arrival_s (reqs ! 0) + inter_arrival_s (reqs ! 1) = 5"
  using trace_replay_keeps_the_clock [of 4 demo_generator "[Some \<lparr>trace_ts = Some 5, trace_adapter = Some 9,
    trace_prompt = None\<rparr>, None, Some \<lparr>trace_ts = Some 2, trace_adapter = None, trace_prompt = Some ''hi''\<rparr>]"]
  by (auto simp: demo_generator_def List.map_filter_simps timestamp_def Let_def numeral_2_eq_2 less_Suc_eq)

end
