(* ===== verification/Backend.thy ===== *)
theory Backend
  imports Workload SchedState
begin

text \<open>
  \<^verbatim>\<open>backends/backend_adapterslots.py\<close>: the lattice modes C0 to C7 as environments, the server's command
  line and the request payload, with the child environment of \<^verbatim>\<open>backends/base.py\<close>. The server reads
  these strings back in the scheduler's constructor (theory \<open>SchedState\<close>). Starting, polling and
  stopping the process is I/O and not modelled.
\<close>

subsection \<open>Modes\<close>

definition config_map :: "(string, environ) dict" where
  "config_map =
    [(''C0'', [(''AS_SCHEDULER'', ''0'')]),
     (''C1'', [(''AS_SCHEDULER'', ''1''), (''AS_MODE'', ''threshold'')]),
     (''C2'', [(''AS_SCHEDULER'', ''1''), (''AS_MODE'', ''erlang'')]),
     (''C3'', [(''AS_SCHEDULER'', ''1''), (''AS_MODE'', ''pi_adaptive'')]),
     (''C4'', [(''AS_SCHEDULER'', ''1''), (''AS_MODE'', ''cash'')]),
     (''C5'', [(''AS_SCHEDULER'', ''1''), (''AS_MODE'', ''cash''), (''AS_PREFETCH_POLICY'', ''predictive'')]),
     (''C6'', [(''AS_SCHEDULER'', ''1''), (''AS_MODE'', ''wgkp''), (''AS_SEGGEMM'', ''0'')]),
     (''C7'', [(''AS_SCHEDULER'', ''1''), (''AS_MODE'', ''wgkp''), (''AS_SEGGEMM'', ''3'')])]"

subsection \<open>The backend\<close>

text \<open>The attributes \<open>BaseBackend.__init__\<close> sets; the process object and the log file are in theory \<open>Lifecycle\<close>.\<close>

record base_backend =
  be_model :: string
  adapter_dirs :: "string list"
  port :: int
  tp :: int
  max_lora_rank :: int
  max_loras :: int
  extra_args :: "string list"
  gpu_id :: "int option"

record backend = base_backend +
  be_mode :: string
  be_tmax_ms :: "int option"
  be_threshold :: "int option"
  metrics_path :: string

definition backend_init ::
  "environ \<Rightarrow> string \<Rightarrow> string list \<Rightarrow> int \<Rightarrow> int \<Rightarrow> int \<Rightarrow> int \<Rightarrow> string \<Rightarrow> int option \<Rightarrow> int option \<Rightarrow>
     string list option \<Rightarrow> int option \<Rightarrow> py_error + backend" where
  "backend_init os mdl dirs prt tensor_par rnk loras md tmax thr extra gpu =
     (let build = (\<lambda>loras. \<lparr>be_model = mdl, adapter_dirs = dirs, port = prt, tp = tensor_par,
            max_lora_rank = rnk, max_loras = loras,
            extra_args = (case extra of None \<Rightarrow> [] | Some xs \<Rightarrow> xs), gpu_id = gpu, be_mode = md,
            be_tmax_ms = tmax, be_threshold = thr,
            metrics_path = (if dict_get os ''AS_METRICS_PATH'' [] \<noteq> [] then dict_get os ''AS_METRICS_PATH'' []
              else ''/tmp/adapter_slots_metrics_'' @ py_str prt @ ''.jsonl'')\<rparr>)
      in if dict_get os ''AS_MAX_LORAS'' [] \<noteq> [] then
           (case py_int (dict_get os ''AS_MAX_LORAS'' []) of
              None \<Rightarrow> Inl ValueError | Some n \<Rightarrow> Inr (build n))
         else Inr (build loras))"

definition adapter_name :: "int \<Rightarrow> string" where
  "adapter_name i = ''adapter_'' @ py_str i"

text \<open>\<open>py\<close> is \<open>sys.executable\<close>, \<open>script\<close> the path of \<^verbatim>\<open>scripts/vllm_serve_adapter_slots.py\<close>.\<close>

definition server_flags :: "string \<Rightarrow> string \<Rightarrow> environ \<Rightarrow> backend \<Rightarrow> string list" where
  "server_flags py script cfg b =
     (let entrypoint = (if dict_get cfg ''AS_SCHEDULER'' [] = ''1'' then [py, script]
                        else [py, ''-m'', ''vllm.entrypoints.openai.api_server''])
      in entrypoint @
           [''--model'', be_model b, ''--port'', py_str (port b), ''--tensor-parallel-size'', py_str (tp b),
            ''--enable-lora'', ''--max-lora-rank'', py_str (max_lora_rank b), ''--max-loras'', py_str (max_loras b)])"

definition build_server_cmd :: "string \<Rightarrow> string \<Rightarrow> backend \<Rightarrow> py_error + string list" where
  "build_server_cmd py script b =
     (let lora_modules = map (\<lambda>(i, d). adapter_name (int i) @ ''='' @ d) (enumerate 0 (adapter_dirs b))
      in case map_of config_map (be_mode b) of
           None \<Rightarrow> Inl KeyError
         | Some cfg \<Rightarrow>
             Inr (server_flags py script cfg b
               @ (if lora_modules \<noteq> [] then ''--lora-modules'' # lora_modules else []) @ extra_args b))"

definition passed_through :: "string list" where
  "passed_through = [''AS_MWC_K_HOT'', ''AS_SEGGEMM'', ''AS_DEADLINE'', ''AS_TMAX_MS'', ''AS_SEGGEMM_MIN_TOKENS'']"

fun pass_through :: "environ \<Rightarrow> string list \<Rightarrow> environ \<Rightarrow> environ" where
  "pass_through os [] env = env"
| "pass_through os (k # ks) env =
     pass_through os ks (case map_of os k of None \<Rightarrow> env | Some v \<Rightarrow> dict_set k v env)"

definition server_env :: "environ \<Rightarrow> backend \<Rightarrow> py_error + environ" where
  "server_env os b =
     (case map_of config_map (be_mode b) of
        None \<Rightarrow> Inl KeyError
      | Some cfg \<Rightarrow>
          (let env = dict_update cfg [(''AS_METRICS_PATH'', metrics_path b)];
               env = (if dict_has env ''AS_PREFETCH_POLICY''
                      then dict_set ''AS_K_WARM'' (py_str (max_loras b)) env else env);
               env = (case be_tmax_ms b of None \<Rightarrow> env | Some t \<Rightarrow> dict_set ''AS_TMAX_MS'' (py_str t) env);
               env = (case be_threshold b of None \<Rightarrow> env
                      | Some n \<Rightarrow> dict_set ''AS_WGKP_THRESHOLD'' (py_str n) env)
           in Inr (pass_through os passed_through env)))"

text \<open>\<open>env = {**os.environ, **self._server_env()}\<close> and the device, in \<open>start()\<close>.\<close>

definition child_env :: "environ \<Rightarrow> backend \<Rightarrow> py_error + environ" where
  "child_env os b =
     (case server_env os b of
        Inl e \<Rightarrow> Inl e
      | Inr env \<Rightarrow>
          (let env = dict_update env os
           in Inr (case gpu_id b of None \<Rightarrow> env | Some g \<Rightarrow> dict_set ''CUDA_VISIBLE_DEVICES'' (py_str g) env)))"

record payload =
  pl_model :: string
  pl_prompt :: string
  pl_max_tokens :: int
  pl_temperature :: real

definition build_request_payload :: "backend \<Rightarrow> string \<Rightarrow> int \<Rightarrow> int \<Rightarrow> string \<times> payload" where
  "build_request_payload b pr adapter maxt =
     (''http://localhost:'' @ py_str (port b) @ ''/v1/completions'',
      \<lparr>pl_model = adapter_name adapter, pl_prompt = pr, pl_max_tokens = maxt, pl_temperature = 0\<rparr>)"

subsection \<open>Numbers survive the environment\<close>

lemma digit_value_char: "d < 10 \<Longrightarrow> digit_value (char_of (48 + d :: nat)) = Some (int d)"
  by (simp add: digit_value_def less_eq_char_def of_char_of)

lemma take_digits_append:
  "list_all (\<lambda>c. digit_value c \<noteq> None) ds \<Longrightarrow>
     take_digits (ds @ es) v n = (let (w, m, r) = take_digits ds v n in take_digits es w m)"
  by (induction ds arbitrary: v n) auto

lemma nat_digits_digits: "list_all (\<lambda>c. digit_value c \<noteq> None) (nat_digits n)"
proof (induction n rule: nat_digits.induct)
  case (1 n)
  then show ?case
    using digit_value_char [of n] digit_value_char [of "n mod 10"] by (subst nat_digits.simps) auto
qed

lemma take_nat_digits: "take_digits (nat_digits n) 0 0 = (int n, length (nat_digits n), [])"
proof (induction n rule: nat_digits.induct)
  case (1 n)
  show ?case
  proof (cases "n < 10")
    case True
    then show ?thesis using digit_value_char [of n] by (simp add: nat_digits.simps)
  next
    case False
    have "nat_digits n = nat_digits (n div 10) @ [char_of (48 + n mod 10)]"
      using False by (subst nat_digits.simps) simp
    moreover have "10 * int (n div 10) + int (n mod 10) = int n" by presburger
    ultimately show ?thesis
      using 1 False digit_value_char [of "n mod 10"] nat_digits_digits [of "n div 10"]
      by (simp add: take_digits_append)
  qed
qed

lemma nat_digits_nonempty [simp]: "nat_digits n \<noteq> []"
  by (subst nat_digits.simps) simp

lemma parse_sign_py_str: "parse_sign (py_str i) = (if i < 0 then -1 else 1, nat_digits (nat \<bar>i\<bar>))"
proof -
  obtain c cs where c: "nat_digits (nat \<bar>i\<bar>) = c # cs" by (meson neq_Nil_conv nat_digits_nonempty)
  then have "digit_value c \<noteq> None" using nat_digits_digits [of "nat \<bar>i\<bar>"] by simp
  then have "c \<noteq> CHR ''-''" "c \<noteq> CHR ''+''" by (auto simp: digit_value_def)
  then show ?thesis using c by (auto simp: py_str_def)
qed

lemma strip_py_str: "py_strip (py_str i) = py_str i"
proof -
  have "\<not> py_blank c" if "digit_value c \<noteq> None" for c
    using that by (auto simp: py_blank_def digit_value_def)
  moreover have "\<not> py_blank (CHR ''-'')" by (simp add: py_blank_def)
  moreover have "digit_value c \<noteq> None" if "c \<in> set (nat_digits n)" for c n
    using that nat_digits_digits [of n] by (simp add: list_all_iff)
  ultimately have b: "\<not> py_blank c" if "c \<in> set (py_str i)" for c
    using that by (metis py_str_def set_ConsD)
  have "dropWhile py_blank s = s" if "set s \<subseteq> set (py_str i)" for s
    using that b by (cases s) auto
  then show ?thesis by (simp add: py_strip_def)
qed

lemma py_int_py_str [simp]: "py_int (py_str i) = Some i"
  by (simp add: py_int_def strip_py_str parse_sign_py_str take_nat_digits)

lemma py_float_py_str [simp]: "py_float (py_str i) = Some (of_int i)"
  by (simp add: py_float_def strip_py_str parse_sign_py_str take_nat_digits parse_exponent_def)

lemma py_str_inj: "py_str i = py_str j \<Longrightarrow> i = j"
  by (metis option.inject py_int_py_str)

subsection \<open>A mode reaches its scheduler\<close>

lemma map_of_pass_through:
  "map_of (pass_through os ks env) k =
     (if k \<in> set ks \<and> map_of os k \<noteq> None then map_of os k else map_of env k)"
  by (induction os ks env rule: pass_through.induct) (auto split: option.splits)

lemma map_of_dict_update_ok:
  "dict_ok kvs \<Longrightarrow> map_of (dict_update kvs d) k = (case map_of kvs k of Some v \<Rightarrow> Some v | None \<Rightarrow> map_of d k)"
proof -
  assume "dict_ok kvs"
  then have "map_of (rev kvs) k = map_of kvs k"
  proof (cases "map_of kvs k")
    case None
    then have "k \<notin> fst ` set (rev kvs)" by (simp add: map_of_eq_None_iff)
    with None show ?thesis by (simp only: map_of_eq_None_iff [symmetric])
  qed (simp add: map_of_eq_Some_iff rev_map [symmetric])
  then show ?thesis by (simp add: map_of_dict_update)
qed

text \<open>An entry written only if an option is set, or if a condition holds.\<close>

lemma map_of_set_option:
  "map_of (case opt of None \<Rightarrow> env | Some t \<Rightarrow> dict_set n (f t) env) k =
     (if k = n \<and> opt \<noteq> None then map_option f opt else map_of env k)"
  by (cases opt) auto

lemma map_of_set_if:
  "map_of (if c then dict_set n v env else env) k = (if k = n \<and> c then Some v else map_of env k)"
  by simp

lemma dict_ok_pass_through [simp]: "dict_ok env \<Longrightarrow> dict_ok (pass_through os ks env)"
  by (induction os ks env rule: pass_through.induct) (auto split: option.splits)

lemma config_ok:
  "map_of config_map md = Some cfg \<Longrightarrow> dict_ok cfg \<and>
     fst ` set cfg \<subseteq> {''AS_SCHEDULER'', ''AS_MODE'', ''AS_PREFETCH_POLICY'', ''AS_SEGGEMM''}"
  by (auto simp: config_map_def split: if_splits)

lemma config_lookup:
  assumes "map_of config_map md = Some cfg"
  shows "map_of cfg ''AS_EWMA_ALPHA'' = None \<and> map_of cfg ''AS_PI_KP'' = None \<and> map_of cfg ''AS_PI_KI'' = None \<and>
    map_of cfg ''AS_PI_TMAX_INIT_MS'' = None \<and> map_of cfg ''AS_TAU_LOAD_MS'' = None \<and> map_of cfg ''AS_K_WARM'' = None \<and>
    map_of cfg ''AS_METRICS_PATH'' = None"
  and "dict_get cfg ''AS_SCHEDULER'' [] = ''1'' \<Longrightarrow> \<exists>m. map_of cfg ''AS_MODE'' = Some m \<and>
    (m = ''pi_adaptive'') = (md = ''C3'') \<and> (m = ''wgkp'') = (md \<in> {''C6'', ''C7''}) \<and>
    map_of cfg ''AS_PREFETCH_POLICY'' = (if md = ''C5'' then Some ''predictive'' else None)"
  using assms by (auto simp: config_map_def dict_get_def split: if_splits)

text \<open>What the server sees of a variable the driver's environment does not set.\<close>

lemma child_env_lookup:
  assumes "map_of config_map (be_mode b) = Some cfg"
  shows "\<exists>env. child_env os b = Inr env \<and> (\<forall>k. k \<noteq> ''CUDA_VISIBLE_DEVICES'' \<longrightarrow> map_of os k = None \<longrightarrow>
    map_of env k =
      (if k = ''AS_WGKP_THRESHOLD'' \<and> be_threshold b \<noteq> None then map_option py_str (be_threshold b)
       else if k = ''AS_TMAX_MS'' \<and> be_tmax_ms b \<noteq> None then map_option py_str (be_tmax_ms b)
       else if k = ''AS_K_WARM'' \<and> dict_has cfg ''AS_PREFETCH_POLICY'' then Some (py_str (max_loras b))
       else case map_of cfg k of Some v \<Rightarrow> Some v
            | None \<Rightarrow> if k = ''AS_METRICS_PATH'' then Some (metrics_path b) else None))"
proof -
  note cfg = config_ok [OF assms]
  obtain e where e: "server_env os b = Inr e" by (simp add: server_env_def assms Let_def)
  have ok: "dict_ok e" using e cfg
    by (cases "be_tmax_ms b"; cases "be_threshold b") (auto simp: server_env_def assms Let_def)
  have look: "map_of e k =
      (if k = ''AS_WGKP_THRESHOLD'' \<and> be_threshold b \<noteq> None then map_option py_str (be_threshold b)
       else if k = ''AS_TMAX_MS'' \<and> be_tmax_ms b \<noteq> None then map_option py_str (be_tmax_ms b)
       else if k = ''AS_K_WARM'' \<and> dict_has cfg ''AS_PREFETCH_POLICY'' then Some (py_str (max_loras b))
       else case map_of cfg k of Some v \<Rightarrow> Some v
            | None \<Rightarrow> if k = ''AS_METRICS_PATH'' then Some (metrics_path b) else None)" if "map_of os k = None" for k
  proof -
    define env0 where "env0 = dict_update cfg [(''AS_METRICS_PATH'', metrics_path b)]"
    have env0: "map_of env0 k = (case map_of cfg k of Some v \<Rightarrow> Some v
        | None \<Rightarrow> if k = ''AS_METRICS_PATH'' then Some (metrics_path b) else None)" for k
      using cfg by (simp add: env0_def map_of_dict_update_ok split: option.splits)
    then have "dict_has env0 ''AS_PREFETCH_POLICY'' = dict_has cfg ''AS_PREFETCH_POLICY''"
      by (simp add: dict_has_def split: option.splits)
    then show ?thesis
      using e that by (simp only: server_env_def assms option.case Let_def env0_def [symmetric] sum.inject)
        (auto simp only: map_of_pass_through map_of_set_option map_of_set_if env0 if_False simp_thms)
  qed
  obtain env where env: "child_env os b = Inr env"
    "env = (case gpu_id b of None \<Rightarrow> dict_update e os
            | Some g \<Rightarrow> dict_set ''CUDA_VISIBLE_DEVICES'' (py_str g) (dict_update e os))"
    by (simp add: child_env_def e Let_def)
  have "map_of env k = map_of e k" if "k \<noteq> ''CUDA_VISIBLE_DEVICES''" "map_of os k = None" for k
    using that by (auto simp: env(2) map_of_dict_update_ok [OF ok] split: option.splits)
  then show ?thesis using env(1) look by auto
qed

lemma scheduler_init_parts:
  assumes "estimator_init (env_float env ''AS_EWMA_ALPHA'' (1/10)) 1 False 0 = Inr (es :: string estimator)"
    and "0 < env_float env ''AS_PI_KP'' (1/100)" and "0 < env_float env ''AS_PI_KI'' (1/1000)"
    and "init_cache env = Inr cm" and "md = dict_get env ''AS_MODE'' ''threshold''"
  shows "\<exists>s. scheduler_init env read path mwc t0 = Inr s \<and> sched_mode s = md \<and>
    t_max (buffer s) = (if md = ''pi_adaptive'' then env_float env ''AS_PI_TMAX_INIT_MS'' 18
                        else env_float env ''AS_TMAX_MS'' 5) / 1000 \<and>
    (pi_ctrl s = None) = (md \<noteq> ''pi_adaptive'') \<and> (wgkp_dispatcher s = None) = (md \<noteq> ''wgkp'') \<and>
    static_threshold s = env_int env ''AS_WGKP_THRESHOLD'' 8 \<and> cache_mgr s = cm \<and>
    metrics_file s = (if dict_get env ''AS_METRICS_PATH'' [] \<noteq> [] then Some [] else None) \<and>
    kv_admission s = (dict_get env ''AS_KV_ADMISSION'' ''0'' = ''1'') \<and> admit_grouped s = (dict_get env ''AS_ADMIT_GROUPED'' ''0'' = ''1'') \<and>
    log_enabled s = (dict_get env ''AS_LOG_WAR'' ''0'' = ''1'') \<and> group_max_wait_s s = env_float env ''AS_GROUP_MAX_WAIT_S'' 30"
proof -
  obtain pic where pic: "init_pi env target slo = Inr (pic target slo)" for target slo
    using assms(2,3) by (simp add: init_pi_def pi_init_def)
  obtain disp k_hot ap where w: "init_wgkp env read path = (disp, k_hot, ap, env_int env ''AS_WGKP_THRESHOLD'' 8)"
    by (simp add: init_wgkp_def Let_def)
  show ?thesis
    unfolding scheduler_init_def Let_def w assms(1,4) pic assms(5) [symmetric] prod.case sum.case
    by (simp split del: if_split) (simp add: buffer_init_def split: if_splits)
qed

text \<open>C26: Every lattice mode reaches its scheduler. Take a backend constructed for one of the modes C1 to
  C7 with a T_max, a promotion threshold and at least one adapter slot, and a driver whose environment
  sets no AS_ variable. The scheduler that the server then constructs from its environment, parsing the
  strings the backend printed, runs in the mode's dispatch rule, with the T_max and threshold given
  (18 ms under PI control), a controller exactly in C3, the WGKP dispatcher exactly in C6 and C7, a
  predictive warm cache of as many adapters as GPU slots exactly in C5, and a batch log.\<close>

theorem lattice_mode_reaches_the_scheduler:
  assumes "backend_init os mdl dirs prt tensor_par rnk loras md (Some T) (Some N) extra gpu = Inr b"
    and "list_all (\<lambda>k. \<not> prefix ''AS_'' k) (dict_keys os)" and "map_of config_map md = Some cfg"
    and "dict_get cfg ''AS_SCHEDULER'' [] = ''1''" and "0 < loras"
  shows "\<exists>env s. child_env os b = Inr env \<and> scheduler_init env read path mwc t0 = Inr s \<and>
    map_of cfg ''AS_MODE'' = Some (sched_mode s) \<and>
    t_max (buffer s) = (if sched_mode s = ''pi_adaptive'' then 18 / 1000 else of_int T / 1000) \<and>
    (pi_ctrl s = None) = (md \<noteq> ''C3'') \<and> (wgkp_dispatcher s = None) = (md \<notin> {''C6'', ''C7''}) \<and>
    static_threshold s = N \<and> metrics_file s = Some [] \<and>
    (case cache_mgr s of None \<Rightarrow> md \<noteq> ''C5''
     | Some c \<Rightarrow> md = ''C5'' \<and> k_warm_max c = loras \<and> policy c = ''predictive'')"
proof -
  have os: "map_of os k = None" if "prefix ''AS_'' k" for k
    using assms(2) that by (auto simp: map_of_eq_None_iff list_all_iff)
  have b: "be_mode b = md" "be_tmax_ms b = Some T" "be_threshold b = Some N" "max_loras b = loras"
    "metrics_path b \<noteq> []"
    using assms(1) os [of "''AS_MAX_LORAS''"] os [of "''AS_METRICS_PATH''"]
    by (auto simp: backend_init_def dict_get_def)
  obtain env where env: "child_env os b = Inr env"
    and "\<forall>k. k \<noteq> ''CUDA_VISIBLE_DEVICES'' \<longrightarrow> map_of os k = None \<longrightarrow>
    map_of env k =
      (if k = ''AS_WGKP_THRESHOLD'' \<and> be_threshold b \<noteq> None then map_option py_str (be_threshold b)
       else if k = ''AS_TMAX_MS'' \<and> be_tmax_ms b \<noteq> None then map_option py_str (be_tmax_ms b)
       else if k = ''AS_K_WARM'' \<and> dict_has cfg ''AS_PREFETCH_POLICY'' then Some (py_str (max_loras b))
       else case map_of cfg k of Some v \<Rightarrow> Some v
            | None \<Rightarrow> if k = ''AS_METRICS_PATH'' then Some (metrics_path b) else None)"
    using child_env_lookup [of b cfg os] assms(3) b(1) by auto
  then have look: "map_of env (''AS_'' @ k) =
      (if k = ''WGKP_THRESHOLD'' then Some (py_str N) else if k = ''TMAX_MS'' then Some (py_str T)
       else if k = ''K_WARM'' \<and> dict_has cfg ''AS_PREFETCH_POLICY'' then Some (py_str loras)
       else case map_of cfg (''AS_'' @ k) of Some v \<Rightarrow> Some v
            | None \<Rightarrow> if k = ''METRICS_PATH'' then Some (metrics_path b) else None)" for k
    using os [of "''AS_'' @ k"] b by simp
  have seen: "map_of env ''AS_EWMA_ALPHA'' = None" "map_of env ''AS_PI_KP'' = None" "map_of env ''AS_PI_KI'' = None"
    "map_of env ''AS_PI_TMAX_INIT_MS'' = None" "map_of env ''AS_TAU_LOAD_MS'' = None"
    "map_of env ''AS_TMAX_MS'' = Some (py_str T)" "map_of env ''AS_WGKP_THRESHOLD'' = Some (py_str N)"
    "map_of env ''AS_METRICS_PATH'' = Some (metrics_path b)"
    using config_lookup(1) [OF assms(3)] look [of "''EWMA_ALPHA''"] look [of "''PI_KP''"] look [of "''PI_KI''"]
      look [of "''PI_TMAX_INIT_MS''"] look [of "''TAU_LOAD_MS''"] look [of "''TMAX_MS''"]
      look [of "''WGKP_THRESHOLD''"] look [of "''METRICS_PATH''"] by simp_all
  obtain m where m: "map_of cfg ''AS_MODE'' = Some m" "(m = ''pi_adaptive'') = (md = ''C3'')"
    "(m = ''wgkp'') = (md \<in> {''C6'', ''C7''})"
    "map_of cfg ''AS_PREFETCH_POLICY'' = (if md = ''C5'' then Some ''predictive'' else None)"
    using config_lookup(2) [OF assms(3,4)] by blast
  have seen2: "map_of env ''AS_MODE'' = Some m" "map_of env ''AS_PREFETCH_POLICY'' = (if md = ''C5'' then Some ''predictive'' else None)"
    "md = ''C5'' \<Longrightarrow> map_of env ''AS_K_WARM'' = Some (py_str loras)"
    using look [of "''MODE''"] look [of "''PREFETCH_POLICY''"] look [of "''K_WARM''"] m(1,4) by (simp_all add: dict_has_def)
  have "\<exists>cm. init_cache env = Inr cm \<and> (case cm of None \<Rightarrow> md \<noteq> ''C5''
      | Some c \<Rightarrow> md = ''C5'' \<and> k_warm_max c = loras \<and> policy c = ''predictive'')"
    using seen2(2,3) assms(5)
    by (cases "md = ''C5''") (simp_all add: init_cache_def dict_get_def env_int_def cache_init_def)
  then obtain cm where cm: "init_cache env = Inr cm" "case cm of None \<Rightarrow> md \<noteq> ''C5''
      | Some c \<Rightarrow> md = ''C5'' \<and> k_warm_max c = loras \<and> policy c = ''predictive''" by blast
  obtain es :: "string estimator" where es: "estimator_init (env_float env ''AS_EWMA_ALPHA'' (1/10)) 1 False 0 = Inr es"
    by (simp add: estimator_init_def env_float_def seen)
  obtain s where s: "scheduler_init env read path mwc t0 = Inr s" "sched_mode s = m"
    "t_max (buffer s) = (if m = ''pi_adaptive'' then env_float env ''AS_PI_TMAX_INIT_MS'' 18
                        else env_float env ''AS_TMAX_MS'' 5) / 1000"
    "(pi_ctrl s = None) = (m \<noteq> ''pi_adaptive'')" "(wgkp_dispatcher s = None) = (m \<noteq> ''wgkp'')"
    "static_threshold s = env_int env ''AS_WGKP_THRESHOLD'' 8" "cache_mgr s = cm"
    "metrics_file s = (if dict_get env ''AS_METRICS_PATH'' [] \<noteq> [] then Some [] else None)"
    using scheduler_init_parts [OF es _ _ cm(1), of m read path mwc t0] seen seen2(1)
    by (auto simp: env_float_def dict_get_def)
  have "t_max (buffer s) = (if m = ''pi_adaptive'' then 18 / 1000 else of_int T / 1000)"
    "static_threshold s = N" "metrics_file s = Some []"
    using s(3,6,8) seen b(5)
    by (cases "m = ''pi_adaptive''"; simp add: env_float_def env_int_def dict_get_def)+
  then show ?thesis using env s(1,2,4,5,7) m(1-3) cm(2)
    by (intro exI [of _ env] exI [of _ s]) simp
qed

theorem lattice_mode_reaches_the_scheduler_witness:
  "\<exists>b env s. backend_init [(''PATH'', ''/bin'')] ''llama'' [''a0''] 8100 1 32 16 ''C5'' (Some 7) (Some 4) None None = Inr b \<and>
     child_env [(''PATH'', ''/bin'')] b = Inr env \<and>
     scheduler_init env (\<lambda>p. None) ''profile'' (None :: unit mwc option) 0 = Inr s \<and>
     sched_mode s = ''cash'' \<and> t_max (buffer s) = 7 / 1000 \<and> map_option k_warm_max (cache_mgr s) = Some 16"
proof -
  obtain b where b: "backend_init [(''PATH'', ''/bin'')] ''llama'' [''a0''] 8100 1 32 16 ''C5'' (Some 7) (Some 4) None None = Inr b"
    by (simp add: backend_init_def dict_get_def Let_def)
  define cfg where "cfg = [(''AS_SCHEDULER'', ''1''), (''AS_MODE'', ''cash''), (''AS_PREFETCH_POLICY'', ''predictive'')]"
  have "map_of config_map ''C5'' = Some cfg" "dict_get cfg ''AS_SCHEDULER'' [] = ''1''"
    by (simp_all add: config_map_def cfg_def dict_get_def)
  from lattice_mode_reaches_the_scheduler [OF b _ this, of "\<lambda>p. None" "''profile''" "None :: unit mwc option" 0] b
  show ?thesis by (fastforce simp: cfg_def split: option.splits)
qed

end
