(* ===== verification/Datasets.thy ===== *)
theory Datasets
  imports Backend
begin

text \<open>
  \<^verbatim>\<open>workloads/sharegpt_loader.py\<close>: prompts from the two data sets, filtered by length, and the shard files
  they are cached in. A file system maps paths to texts; \<open>json.loads\<close>, \<open>json.dumps\<close>, \<open>str.lower\<close> and the positions
  \<open>random.Random(seed).sample\<close> draws are arguments. Error results are the exceptions of the loader.
\<close>

subsection \<open>Values and texts\<close>

datatype json =
    JNull
  | JBool bool
  | JNum real
  | JStr string
  | JList "json list"
  | JObj "(string \<times> json) list"

datatype load_error = FileNotFound | PyError py_error

fun json_truthy :: "json \<Rightarrow> bool" where
  "json_truthy JNull = False"
| "json_truthy (JBool b) = b"
| "json_truthy (JNum x) = (x \<noteq> 0)"
| "json_truthy (JStr s) = (s \<noteq> [])"
| "json_truthy (JList xs) = (xs \<noteq> [])"
| "json_truthy (JObj kvs) = (kvs \<noteq> [])"

text \<open>\<open>v.get(k, d)\<close>: only a dict has \<open>get\<close>.\<close>

fun json_get :: "json \<Rightarrow> string \<Rightarrow> json \<Rightarrow> load_error + json" where
  "json_get (JObj kvs) k d = Inr (dict_get kvs k d)"
| "json_get v k d = Inl (PyError AttributeError)"

text \<open>The elements a \<open>for\<close> loop visits.\<close>

fun json_iter :: "json \<Rightarrow> load_error + json list" where
  "json_iter (JList xs) = Inr xs"
| "json_iter (JStr s) = Inr (map (\<lambda>c. JStr [c]) s)"
| "json_iter (JObj kvs) = Inr (map (\<lambda>(k, v). JStr k) kvs)"
| "json_iter v = Inl (PyError TypeError)"

definition str_space :: "char \<Rightarrow> bool" where
  "str_space c \<longleftrightarrow> py_blank c \<or> of_char c \<in> {0x1C, 0x1D, 0x1E, 0x1F, 0x85, 0xA0 :: nat}"

definition str_strip :: "string \<Rightarrow> string" where
  "str_strip s = rev (dropWhile str_space (rev (dropWhile str_space s)))"

text \<open>\<open>s.split()\<close>; \<open>w\<close> is the word being read.\<close>

fun str_split :: "string \<Rightarrow> string \<Rightarrow> string list" where
  "str_split [] w = (if w = [] then [] else [w])"
| "str_split (c # cs) w =
     (if str_space c then (if w = [] then str_split cs [] else w # str_split cs []) else str_split cs (w @ [c]))"

definition estimate_tokens :: "string \<Rightarrow> nat" where
  "estimate_tokens s = max 1 (length (str_split s []))"

text \<open>The lines of a text, without their ends.\<close>

fun text_lines :: "string \<Rightarrow> string \<Rightarrow> string list" where
  "text_lines [] l = (if l = [] then [] else [l])"
| "text_lines (c # cs) l = (if c = CHR 0x0A then l # text_lines cs [] else text_lines cs (l @ [c]))"

fun try_map :: "('x \<Rightarrow> 'e + 'y) \<Rightarrow> 'x list \<Rightarrow> 'e + 'y list" where
  "try_map f [] = Inr []"
| "try_map f (x # xs) =
     (case f x of Inl e \<Rightarrow> Inl e | Inr y \<Rightarrow> (case try_map f xs of Inl e \<Rightarrow> Inl e | Inr ys \<Rightarrow> Inr (y # ys)))"

subsection \<open>Loading\<close>

record json_lib =
  js_loads :: "string \<Rightarrow> json option"
  js_dumps :: "json \<Rightarrow> string"
  js_lower :: "string \<Rightarrow> string"
  js_sample :: "int \<Rightarrow> nat \<Rightarrow> nat \<Rightarrow> nat list"

definition parse_json :: "json_lib \<Rightarrow> string \<Rightarrow> load_error + json" where
  "parse_json lib s = (case js_loads lib s of None \<Rightarrow> Inl (PyError ValueError) | Some v \<Rightarrow> Inr v)"

definition jsonl_records :: "json_lib \<Rightarrow> string \<Rightarrow> load_error + json list" where
  "jsonl_records lib content = try_map (parse_json lib) (filter (\<lambda>l. str_strip l \<noteq> []) (text_lines content []))"

text \<open>One turn of a conversation: the prompts it adds.\<close>

definition turn_prompts :: "json_lib \<Rightarrow> nat \<Rightarrow> nat \<Rightarrow> json \<Rightarrow> load_error + string list" where
  "turn_prompts lib mx mn turn =
     (case json_get turn ''role'' (JStr []) of Inl e \<Rightarrow> Inl e | Inr role0 \<Rightarrow>
      (case json_get turn ''from'' role0 of Inl e \<Rightarrow> Inl e | Inr role \<Rightarrow>
       (case json_get turn ''content'' (JStr []) of Inl e \<Rightarrow> Inl e | Inr value0 \<Rightarrow>
        (case json_get turn ''value'' value0 of Inl e \<Rightarrow> Inl e | Inr value \<Rightarrow>
         (case role of
            JStr r \<Rightarrow>
              (if js_lower lib r = ''human'' \<or> js_lower lib r = ''user''
               then (case value of
                       JStr s \<Rightarrow> Inr (if mn \<le> estimate_tokens s \<and> estimate_tokens s \<le> mx then [s] else [])
                     | _ \<Rightarrow> Inr [])
               else Inr [])
          | _ \<Rightarrow> Inl (PyError AttributeError))))))"

definition record_prompts :: "json_lib \<Rightarrow> nat \<Rightarrow> nat \<Rightarrow> json \<Rightarrow> load_error + string list" where
  "record_prompts lib mx mn rec =
     (case json_get rec ''conversations'' JNull of Inl e \<Rightarrow> Inl e | Inr a \<Rightarrow>
      (case (if json_truthy a then Inr a else json_get rec ''conversation'' JNull) of Inl e \<Rightarrow> Inl e | Inr b \<Rightarrow>
       (case json_iter (if json_truthy b then b else JList []) of Inl e \<Rightarrow> Inl e | Inr convs \<Rightarrow>
        map_sum id concat (try_map (turn_prompts lib mx mn) convs))))"

definition load_sharegpt ::
  "json_lib \<Rightarrow> (string \<Rightarrow> string option) \<Rightarrow> string \<Rightarrow> nat \<Rightarrow> nat \<Rightarrow> load_error + string list" where
  "load_sharegpt lib fs path mx mn =
     (case fs path of
        None \<Rightarrow> Inl FileNotFound
      | Some content \<Rightarrow>
          (let records =
             (if take 1 content = ''['' then
                (case parse_json lib content of Inl e \<Rightarrow> Inl e | Inr v \<Rightarrow> json_iter v)
              else jsonl_records lib content)
           in case records of Inl e \<Rightarrow> Inl e
              | Inr rs \<Rightarrow> map_sum id concat (try_map (record_prompts lib mx mn) rs)))"

text \<open>\<open>(instruction + " " + inp).strip() if inp else instruction\<close>: only strings can be joined.\<close>

definition alpaca_prompts :: "json_lib \<Rightarrow> nat \<Rightarrow> nat \<Rightarrow> json \<Rightarrow> load_error + string list" where
  "alpaca_prompts lib mx mn rec =
     (case json_get rec ''instruction'' (JStr []) of Inl e \<Rightarrow> Inl e | Inr ins \<Rightarrow>
      (case json_get rec ''input'' (JStr []) of Inl e \<Rightarrow> Inl e | Inr inp \<Rightarrow>
       (case (if json_truthy inp
              then (case (ins, inp) of
                      (JStr a, JStr b) \<Rightarrow> Inr (JStr (str_strip (a @ '' '' @ b))) | _ \<Rightarrow> Inl (PyError TypeError))
              else Inr ins) of
          Inl e \<Rightarrow> Inl e
        | Inr (JStr s) \<Rightarrow> Inr (if mn \<le> estimate_tokens s \<and> estimate_tokens s \<le> mx then [s] else [])
        | Inr _ \<Rightarrow> Inr [])))"

definition load_alpaca ::
  "json_lib \<Rightarrow> (string \<Rightarrow> string option) \<Rightarrow> string \<Rightarrow> nat \<Rightarrow> nat \<Rightarrow> load_error + string list" where
  "load_alpaca lib fs path mx mn =
     (case fs path of
        None \<Rightarrow> Inl FileNotFound
      | Some content \<Rightarrow>
          (case jsonl_records lib content of Inl e \<Rightarrow> Inl e
           | Inr rs \<Rightarrow> map_sum id concat (try_map (alpaca_prompts lib mx mn) rs)))"

subsection \<open>Shards\<close>

definition shard_text :: "json_lib \<Rightarrow> string list \<Rightarrow> string" where
  "shard_text lib shard = concat (map (\<lambda>s. js_dumps lib (JObj [(''prompt'', JStr s)]) @ [CHR 0x0A]) shard)"

definition make_shard ::
  "json_lib \<Rightarrow> string list \<Rightarrow> nat \<Rightarrow> int \<Rightarrow> string option \<Rightarrow> (string \<Rightarrow> string option) \<Rightarrow>
     string list \<times> (string \<Rightarrow> string option)" where
  "make_shard lib prompts n seed output_path fs =
     (let shard = map (\<lambda>i. prompts ! i) (js_sample lib seed (length prompts) (min n (length prompts)))
      in (shard, case output_path of
                   None \<Rightarrow> fs
                 | Some p \<Rightarrow> if p = [] then fs else fs(p := Some (shard_text lib shard))))"

text \<open>\<open>json.loads(line)["prompt"]\<close>, as a string.\<close>

fun prompt_field :: "json \<Rightarrow> load_error + json" where
  "prompt_field (JObj kvs) = (case map_of kvs ''prompt'' of None \<Rightarrow> Inl (PyError KeyError) | Some v \<Rightarrow> Inr v)"
| "prompt_field v = Inl (PyError TypeError)"

definition load_shard :: "json_lib \<Rightarrow> (string \<Rightarrow> string option) \<Rightarrow> string \<Rightarrow> load_error + json list" where
  "load_shard lib fs path =
     (case fs path of
        None \<Rightarrow> Inl FileNotFound
      | Some content \<Rightarrow>
          try_map (\<lambda>l. case parse_json lib l of Inl e \<Rightarrow> Inl e | Inr v \<Rightarrow> prompt_field v)
            (filter (\<lambda>l. l \<noteq> []) (map str_strip (text_lines content []))))"

definition shard_path :: "string \<Rightarrow> string \<Rightarrow> nat \<Rightarrow> int \<Rightarrow> string" where
  "shard_path dir dataset n seed = dir @ ''/'' @ dataset @ ''_n'' @ py_str (int n) @ ''_seed'' @ py_str seed @ ''.jsonl''"

definition load_dataset :: "json_lib \<Rightarrow> (string \<Rightarrow> string option) \<Rightarrow> string \<Rightarrow> nat \<Rightarrow> load_error + string list" where
  "load_dataset lib fs dataset mx =
     (if dataset = ''sharegpt'' then load_sharegpt lib fs ''data/sharegpt/sharegpt.jsonl'' mx 4
      else if dataset = ''alpaca'' then load_alpaca lib fs ''data/alpaca/alpaca_raw.jsonl'' mx 4
      else Inl (PyError ValueError))"

definition get_prompts ::
  "json_lib \<Rightarrow> string \<Rightarrow> nat \<Rightarrow> nat \<Rightarrow> int \<Rightarrow> string option \<Rightarrow> (string \<Rightarrow> string option) \<Rightarrow>
     (load_error + json list) \<times> (string \<Rightarrow> string option)" where
  "get_prompts lib dataset mx n seed shard_dir fs =
     (let path = (case shard_dir of None \<Rightarrow> None
                  | Some d \<Rightarrow> if d = [] then None else Some (shard_path d dataset n seed))
      in case (case path of None \<Rightarrow> None | Some p \<Rightarrow> if fs p \<noteq> None then Some p else None) of
           Some p \<Rightarrow> (load_shard lib fs p, fs)
         | None \<Rightarrow>
             (case load_dataset lib fs dataset mx of
                Inl e \<Rightarrow> (Inl e, fs)
              | Inr ps \<Rightarrow> (let (shard, fs') = make_shard lib ps n seed path fs in (Inr (map JStr shard), fs'))))"

subsection \<open>Which prompts are loaded\<close>

lemma try_map_Inr: "try_map f xs = Inr ys \<longleftrightarrow> length ys = length xs \<and> (\<forall>i<length xs. f (xs ! i) = Inr (ys ! i))"
proof (induction xs arbitrary: ys)
  case (Cons x xs)
  show ?case
  proof (cases ys)
    case Nil
    then show ?thesis by (auto split: sum.splits)
  next
    case (Cons y ys')
    then show ?thesis using Cons.IH [of ys'] Cons
      by (auto split: sum.splits simp: nth_Cons split: nat.splits)
  qed
qed auto

lemma try_map_pure: "(\<And>x. x \<in> set xs \<Longrightarrow> f x = Inr (g x)) \<Longrightarrow> try_map f xs = Inr (map g xs)"
  by (induction xs) auto

lemma try_map_each: "try_map f xs = Inr ys \<Longrightarrow> y \<in> set ys \<Longrightarrow> \<exists>x\<in>set xs. f x = Inr y"
  by (induction xs arbitrary: ys) (auto split: sum.splits)

lemma map_sum_Inr: "map_sum id g x = Inr y \<longleftrightarrow> (\<exists>z. x = Inr z \<and> y = g z)"
  by (cases x) auto

definition fits_tokens :: "nat \<Rightarrow> nat \<Rightarrow> string \<Rightarrow> bool" where
  "fits_tokens mn mx s \<longleftrightarrow> mn \<le> estimate_tokens s \<and> estimate_tokens s \<le> mx"

lemma turn_within: "turn_prompts lib mx mn turn = Inr ps \<Longrightarrow> s \<in> set ps \<Longrightarrow> fits_tokens mn mx s"
  by (auto simp: turn_prompts_def fits_tokens_def split: sum.splits json.splits if_splits)

lemma record_within:
  assumes "record_prompts lib mx mn rec = Inr ps" and "s \<in> set ps"
  shows "fits_tokens mn mx s"
proof -
  obtain convs pss where "try_map (turn_prompts lib mx mn) convs = Inr pss" "ps = concat pss"
    using assms(1) by (auto simp: record_prompts_def split: sum.splits if_splits simp: map_sum_Inr)
  then show ?thesis using assms(2) turn_within by (auto dest!: try_map_each)
qed

lemma alpaca_fits: "alpaca_prompts lib mx mn rec = Inr ps \<Longrightarrow> s \<in> set ps \<Longrightarrow> fits_tokens mn mx s"
  by (auto simp: alpaca_prompts_def fits_tokens_def split: sum.splits json.splits if_splits)

lemma loaded_fit:
  assumes "load_dataset lib fs dataset mx = Inr ps" and "s \<in> set ps"
  shows "fits_tokens 4 mx s"
proof -
  obtain f rs pss where f: "f \<in> {record_prompts lib mx 4, alpaca_prompts lib mx 4}" "try_map f rs = Inr pss" "ps = concat pss"
    using assms(1)
    by (fastforce simp: load_dataset_def load_sharegpt_def load_alpaca_def Let_def map_sum_Inr
        split: if_splits option.splits sum.splits)
  then obtain qs where "qs \<in> set pss" "s \<in> set qs" using assms(2) by auto
  moreover obtain x where "f x = Inr qs" using try_map_each [OF f(2) \<open>qs \<in> set pss\<close>] by blast
  ultimately show ?thesis using f(1) record_within alpaca_fits by blast
qed

subsection \<open>Shards are kept\<close>

lemma text_lines_line: "CHR 0x0A \<notin> set l \<Longrightarrow> text_lines (l @ CHR 0x0A # rest) w = (w @ l) # text_lines rest []"
  by (induction l arbitrary: w) auto

lemma lines_of_records:
  "\<forall>x\<in>set xs. CHR 0x0A \<notin> set (d x) \<Longrightarrow> text_lines (concat (map (\<lambda>x. d x @ [CHR 0x0A]) xs)) [] = map d xs"
  by (induction xs) (simp_all add: text_lines_line)

text \<open>What the loader relies on: \<open>dumps\<close> writes one line that \<open>loads\<close> reads back, and \<open>sample\<close> draws distinct positions.\<close>

definition dumps_ok :: "json_lib \<Rightarrow> string \<Rightarrow> bool" where
  "dumps_ok lib s \<longleftrightarrow> (let d = js_dumps lib (JObj [(''prompt'', JStr s)]) in
     js_loads lib d = Some (JObj [(''prompt'', JStr s)]) \<and> CHR 0x0A \<notin> set d \<and> str_strip d = d \<and> d \<noteq> [])"

definition sample_ok :: "json_lib \<Rightarrow> bool" where
  "sample_ok lib \<longleftrightarrow> (\<forall>seed n k. k \<le> n \<longrightarrow>
     length (js_sample lib seed n k) = k \<and> distinct (js_sample lib seed n k) \<and> set (js_sample lib seed n k) \<subseteq> {..<n})"

lemma load_shard_text:
  assumes "\<forall>s\<in>set shard. dumps_ok lib s" and "fs path = Some (shard_text lib shard)"
  shows "load_shard lib fs path = Inr (map JStr shard)"
proof -
  define d where "d = (\<lambda>s. js_dumps lib (JObj [(''prompt'', JStr s)]))"
  have d: "js_loads lib (d s) = Some (JObj [(''prompt'', JStr s)])" "CHR 0x0A \<notin> set (d s)" "str_strip (d s) = d s" "d s \<noteq> []"
    if "s \<in> set shard" for s
    using assms(1) that by (auto simp: dumps_ok_def d_def Let_def)
  have "text_lines (shard_text lib shard) [] = map d shard" using lines_of_records [of shard d] d(2) by (simp add: d_def shard_text_def)
  moreover have "filter (\<lambda>l. l \<noteq> []) (map str_strip (map d shard)) = map d shard"
    using d(3,4) by (induction shard) auto
  moreover have "try_map (\<lambda>l. case parse_json lib l of Inl e \<Rightarrow> Inl e | Inr v \<Rightarrow> prompt_field v) (map d shard) = Inr (map JStr shard)"
    using d(1) by (induction shard) (auto simp: parse_json_def)
  ultimately show ?thesis by (simp add: load_shard_def assms(2))
qed

lemma sampled_subset:
  assumes "distinct is" and "set is \<subseteq> {..<length ps}"
  shows "mset (map (\<lambda>i. ps ! i) is) \<subseteq># mset ps"
proof -
  have "mset is \<subseteq># mset [0..<length ps]"
    using assms by (simp add: mset_set_set [symmetric] atLeast0LessThan subset_imp_msubset_mset_set)
  then have "image_mset (\<lambda>i. ps ! i) (mset is) \<subseteq># image_mset (\<lambda>i. ps ! i) (mset [0..<length ps])"
    by (rule image_mset_subseteq_mono)
  moreover have "image_mset (\<lambda>i. ps ! i) (mset [0..<length ps]) = mset ps" by (metis map_nth mset_map)
  ultimately show ?thesis by simp
qed

text \<open>A prompt shard is a sample of the data set and is kept. When no shard for this data set, size and seed is
  cached yet, the prompts returned are drawn from those the data set holds, without replacement, as many
  as asked for or all of them, and each within the token cap; and every later call with the same data set
  name, size and seed returns the same prompts in the same order, whatever became of the data set's file,
  and also whatever token cap it asks for, which the name of the shard does not record.\<close>

theorem prompt_shards_are_kept:
  assumes "\<forall>s\<in>set ps. dumps_ok lib s" and "sample_ok lib" and "dir \<noteq> []"
    and "fs (shard_path dir dataset n seed) = None" and "load_dataset lib fs dataset mx = Inr ps"
    and "get_prompts lib dataset mx n seed (Some dir) fs = (res, fs')"
  shows "\<exists>shard. res = Inr (map JStr shard) \<and> length shard = min n (length ps) \<and> mset shard \<subseteq># mset ps \<and>
    (\<forall>s\<in>set shard. fits_tokens 4 mx s) \<and>
    (\<forall>mx2 fs2. fs2 (shard_path dir dataset n seed) = fs' (shard_path dir dataset n seed) \<longrightarrow>
       get_prompts lib dataset mx2 n seed (Some dir) fs2 = (Inr (map JStr shard), fs2))"
proof -
  let ?path = "shard_path dir dataset n seed"
  define ix where "ix = js_sample lib seed (length ps) (min n (length ps))"
  define shard where "shard = map (\<lambda>i. ps ! i) ix"
  have ix: "length ix = min n (length ps)" "distinct ix" "set ix \<subseteq> {..<length ps}"
    using assms(2) by (simp_all add: sample_ok_def ix_def)
  have path: "?path \<noteq> []" using assms(3) by (simp add: shard_path_def)
  have first: "res = Inr (map JStr shard)" "fs' = fs(?path := Some (shard_text lib shard))"
    using assms(3-6) path by (simp_all add: get_prompts_def make_shard_def Let_def shard_def ix_def)
  have sub: "set shard \<subseteq> set ps" using ix(3) by (auto simp: shard_def)
  then have ok: "\<forall>s\<in>set shard. dumps_ok lib s" using assms(1) by blast
  have "get_prompts lib dataset mx2 n seed (Some dir) fs2 = (Inr (map JStr shard), fs2)"
    if "fs2 ?path = fs' ?path" for mx2 fs2
    using load_shard_text [OF ok, of fs2 ?path] that first(2) assms(3) by (simp add: get_prompts_def Let_def)
  moreover have "length shard = min n (length ps)" "mset shard \<subseteq># mset ps" "\<forall>s\<in>set shard. fits_tokens 4 mx s"
    using ix(1) sampled_subset [OF ix(2,3)] sub loaded_fit [OF assms(5)] by (auto simp: shard_def)
  ultimately show ?thesis using first(1) by blast
qed

text \<open>One conversation with one short question, and a second call that asks for at most two tokens.\<close>

definition demo_json :: json_lib where
  "demo_json = \<lparr>js_loads = (\<lambda>s. if s = ''[0]'' then Some (JList [JObj [(''conversations'',
       JList [JObj [(''from'', JStr ''human''), (''value'', JStr ''a b c d'')]])]])
     else if s = ''{}'' then Some (JObj [(''prompt'', JStr ''a b c d'')]) else None),
     js_dumps = (\<lambda>j. ''{}''), js_lower = (\<lambda>s. s), js_sample = (\<lambda>seed n k. [0..<k])\<rparr>"

theorem prompt_shards_are_kept_witness:
  "\<exists>fs'. get_prompts demo_json ''sharegpt'' 8 1 42 (Some ''s'') [''data/sharegpt/sharegpt.jsonl'' \<mapsto> ''[0]''] = (Inr [JStr ''a b c d''], fs') \<and>
     get_prompts demo_json ''sharegpt'' 2 1 42 (Some ''s'') fs' = (Inr [JStr ''a b c d''], fs')"
proof -
  let ?fs = "[''data/sharegpt/sharegpt.jsonl'' \<mapsto> ''[0]'']"
  obtain res fs' where r: "get_prompts demo_json ''sharegpt'' 8 1 42 (Some ''s'') ?fs = (res, fs')" by force
  have load: "load_dataset demo_json ?fs ''sharegpt'' 8 = Inr [''a b c d'']"
    by (simp add: load_dataset_def load_sharegpt_def demo_json_def parse_json_def record_prompts_def turn_prompts_def
        dict_get_def estimate_tokens_def str_space_def py_blank_def Let_def)
  have d: "\<forall>s\<in>set [''a b c d'']. dumps_ok demo_json s"
    by (simp add: dumps_ok_def demo_json_def str_strip_def str_space_def py_blank_def Let_def)
  have s: "sample_ok demo_json" by (auto simp: sample_ok_def demo_json_def)
  have "?fs (shard_path ''s'' ''sharegpt'' 1 42) = None" by (simp add: shard_path_def)
  from prompt_shards_are_kept [OF d s _ this load r] obtain shard where sh: "res = Inr (map JStr shard)"
    "length shard = 1" "mset shard \<subseteq># mset [''a b c d'']"
    "get_prompts demo_json ''sharegpt'' 2 1 42 (Some ''s'') fs' = (Inr (map JStr shard), fs')" by auto
  then have "shard = [''a b c d'']" by (cases shard) auto
  then show ?thesis using r sh by auto
qed

end
