(* ===== verification/Replay.thy ===== *)
theory Replay
  imports Datasets Workload
begin

text \<open>
  The end of \<^verbatim>\<open>workloads/pattern_generator.py\<close>: saving a request list as one JSON object per line and loading it
  again for replay. A loaded request has the values of the
  file, of whatever type they are.
\<close>

subsection \<open>Request files\<close>

definition request_json :: "load_request \<Rightarrow> json" where
  "request_json r =
     JObj [(''req_id'', JStr (req_id r)), (''adapter_id'', JNum (of_int (load_request.adapter_id r))),
           (''prompt'', JStr (prompt r)), (''inter_arrival_s'', JNum (inter_arrival_s r)),
           (''max_tokens'', JNum (of_int (req_max_tokens r)))]"

definition save_requests ::
  "json_lib \<Rightarrow> load_request list \<Rightarrow> string \<Rightarrow> (string \<Rightarrow> string option) \<Rightarrow> (string \<Rightarrow> string option)" where
  "save_requests lib reqs path fs =
     fs(path := Some (concat (map (\<lambda>r. js_dumps lib (request_json r) @ [CHR 0x0A]) reqs)))"

record loaded_request =
  ld_req_id :: json
  ld_adapter :: json
  ld_prompt :: json
  ld_gap :: json
  ld_max_tokens :: json

text \<open>\<open>d[k]\<close> of a JSON value, with a string \<open>k\<close>.\<close>

fun json_item :: "json \<Rightarrow> string \<Rightarrow> load_error + json" where
  "json_item (JObj kvs) k = (case map_of kvs k of None \<Rightarrow> Inl (PyError KeyError) | Some v \<Rightarrow> Inr v)"
| "json_item v k = Inl (PyError TypeError)"

definition read_request :: "json \<Rightarrow> load_error + loaded_request" where
  "read_request d =
     (case json_item d ''req_id'' of Inl e \<Rightarrow> Inl e | Inr i \<Rightarrow>
      (case json_item d ''adapter_id'' of Inl e \<Rightarrow> Inl e | Inr a \<Rightarrow>
       (case json_item d ''prompt'' of Inl e \<Rightarrow> Inl e | Inr p \<Rightarrow>
        (case json_item d ''inter_arrival_s'' of Inl e \<Rightarrow> Inl e | Inr g \<Rightarrow>
         (case json_get d ''max_tokens'' (JNum 128) of Inl e \<Rightarrow> Inl e | Inr m \<Rightarrow>
          Inr \<lparr>ld_req_id = i, ld_adapter = a, ld_prompt = p, ld_gap = g, ld_max_tokens = m\<rparr>)))))"

definition load_requests ::
  "json_lib \<Rightarrow> (string \<Rightarrow> string option) \<Rightarrow> string \<Rightarrow> load_error + loaded_request list" where
  "load_requests lib fs path =
     (case fs path of
        None \<Rightarrow> Inl FileNotFound
      | Some content \<Rightarrow>
          try_map (\<lambda>l. case parse_json lib l of Inl e \<Rightarrow> Inl e | Inr d \<Rightarrow> read_request d)
            (filter (\<lambda>l. l \<noteq> []) (map str_strip (text_lines content []))))"

subsection \<open>A saved workload is replayed\<close>

definition saved_request :: "load_request \<Rightarrow> loaded_request" where
  "saved_request r = \<lparr>ld_req_id = JStr (req_id r), ld_adapter = JNum (of_int (load_request.adapter_id r)),
     ld_prompt = JStr (prompt r), ld_gap = JNum (inter_arrival_s r), ld_max_tokens = JNum (of_int (req_max_tokens r))\<rparr>"

lemma read_request_json: "read_request (request_json r) = Inr (saved_request r)"
  by (simp add: read_request_def request_json_def saved_request_def dict_get_def)

text \<open>\<open>dumps\<close> writes an object on one line without surrounding blanks, and \<open>loads\<close> reads it back.\<close>

definition line_ok :: "json_lib \<Rightarrow> json \<Rightarrow> bool" where
  "line_ok lib v \<longleftrightarrow> js_loads lib (js_dumps lib v) = Some v \<and> CHR 0x0A \<notin> set (js_dumps lib v) \<and>
     str_strip (js_dumps lib v) = js_dumps lib v \<and> js_dumps lib v \<noteq> []"

text \<open>A saved workload is replayed exactly. Loading the file that \<open>save_requests\<close> wrote gives the same requests in
  the same order with the same five fields, as long as nothing else is written to that path; and
  no other file is touched.\<close>

theorem saved_requests_are_replayed:
  assumes "\<forall>r\<in>set reqs. line_ok lib (request_json r)" and "fs2 path = save_requests lib reqs path fs path"
  shows "load_requests lib fs2 path = Inr (map saved_request reqs) \<and>
    (\<forall>q. q \<noteq> path \<longrightarrow> save_requests lib reqs path fs q = fs q)"
proof -
  define d where "d r = js_dumps lib (request_json r)" for r
  have d: "js_loads lib (d r) = Some (request_json r)" "CHR 0x0A \<notin> set (d r)" "str_strip (d r) = d r" "d r \<noteq> []"
    if "r \<in> set reqs" for r
    using assms(1) that by (auto simp: line_ok_def d_def)
  have "text_lines (concat (map (\<lambda>r. d r @ [CHR 0x0A]) reqs)) [] = map d reqs" using lines_of_records [of reqs d] d(2) by simp
  moreover have "filter (\<lambda>l. l \<noteq> []) (map str_strip (map d reqs)) = map d reqs"
    using d(3,4) by (induction reqs) auto
  moreover have "try_map (\<lambda>l. case parse_json lib l of Inl e \<Rightarrow> Inl e | Inr d \<Rightarrow> read_request d) (map d reqs) =
      Inr (map saved_request reqs)"
    using d(1) by (induction reqs) (auto simp: parse_json_def read_request_json)
  ultimately show ?thesis
    using assms(2) by (simp add: load_requests_def save_requests_def d_def)
qed

definition demo_request :: load_request where
  "demo_request = \<lparr>req_id = ''r0'', adapter_id = 3, prompt = ''p'', inter_arrival_s = 1 / 2, req_max_tokens = 8\<rparr>"

definition demo_lines :: json_lib where
  "demo_lines = \<lparr>js_loads = (\<lambda>s. if s = ''{}'' then Some (request_json demo_request) else None),
     js_dumps = (\<lambda>j. ''{}''), js_lower = (\<lambda>s. s), js_sample = (\<lambda>seed n k. [0..<k])\<rparr>"

theorem saved_requests_are_replayed_witness:
  "load_requests demo_lines (save_requests demo_lines [demo_request, demo_request] ''f'' Map.empty) ''f'' =
     Inr [saved_request demo_request, saved_request demo_request]"
proof -
  have "\<forall>r\<in>set [demo_request, demo_request]. line_ok demo_lines (request_json r)"
    by (simp add: line_ok_def demo_lines_def str_strip_def str_space_def py_blank_def)
  from saved_requests_are_replayed [OF this, of "save_requests demo_lines [demo_request, demo_request] ''f'' Map.empty" "''f''" Map.empty]
  show ?thesis by simp
qed

end
