(* ===== verification/Collector.thy ===== *)
theory Collector
  imports SchedState
begin

text \<open>
  \<^verbatim>\<open>benchmarks/metrics_collector.py\<close> and \<^verbatim>\<open>benchmarks/streaming.py\<close>: time stamps per request, the summary
  computed from them, and the streaming client that records them. Clock readings are arguments; \<open>nan\<close>
  is \<open>None\<close>.
\<close>

subsection \<open>The collector\<close>

record request_rec =
  cr_adapter :: int
  submit_time :: real
  first_time :: "real option"
  token_times :: "real list"
  end_time :: "real option"
  output_tokens :: int

record collector =
  co_records :: "(string, request_rec) dict"
  run_start :: "real option"
  run_end :: "real option"
  ttft_slo_limit :: real
  tbt_slo_limit :: real
  warmup_ids :: "string set"

definition collector_init :: "real \<Rightarrow> real \<Rightarrow> collector" where
  "collector_init ttft tbt = \<lparr>co_records = [], run_start = None, run_end = None, ttft_slo_limit = ttft,
     tbt_slo_limit = tbt, warmup_ids = {}\<rparr>"

definition mark_run_start :: "real \<Rightarrow> collector \<Rightarrow> collector" where
  "mark_run_start now co = co\<lparr>run_start := Some now\<rparr>"

definition mark_run_end :: "real \<Rightarrow> collector \<Rightarrow> collector" where
  "mark_run_end now co = co\<lparr>run_end := Some now\<rparr>"

definition mark_warmup :: "string \<Rightarrow> collector \<Rightarrow> collector" where
  "mark_warmup rid co = co\<lparr>warmup_ids := insert rid (warmup_ids co)\<rparr>"

definition record_request_start :: "string \<Rightarrow> int \<Rightarrow> real \<Rightarrow> collector \<Rightarrow> collector" where
  "record_request_start rid adapter submit co =
     co\<lparr>co_records := dict_set rid \<lparr>cr_adapter = adapter, submit_time = submit, first_time = None,
       token_times = [], end_time = None, output_tokens = 0\<rparr> (co_records co)\<rparr>"

definition update_record :: "string \<Rightarrow> (request_rec \<Rightarrow> request_rec) \<Rightarrow> collector \<Rightarrow> collector" where
  "update_record rid f co =
     (case map_of (co_records co) rid of
        None \<Rightarrow> co | Some r \<Rightarrow> co\<lparr>co_records := dict_set rid (f r) (co_records co)\<rparr>)"

definition record_first_token :: "string \<Rightarrow> real \<Rightarrow> collector \<Rightarrow> collector" where
  "record_first_token rid t = update_record rid (\<lambda>r. r\<lparr>first_time := Some t\<rparr>)"

definition record_token :: "string \<Rightarrow> real \<Rightarrow> collector \<Rightarrow> collector" where
  "record_token rid t = update_record rid (\<lambda>r. r\<lparr>token_times := token_times r @ [t]\<rparr>)"

definition record_completion :: "string \<Rightarrow> real \<Rightarrow> int \<Rightarrow> collector \<Rightarrow> collector" where
  "record_completion rid t n = update_record rid (\<lambda>r. r\<lparr>end_time := Some t, output_tokens := n\<rparr>)"

subsection \<open>The summary\<close>

text \<open>\<open>_percentile\<close>, for \<open>p\<close> between 0 and 100.\<close>

definition percentile :: "real list \<Rightarrow> real \<Rightarrow> real option" where
  "percentile data p =
     (if data = [] then None
      else let sorted_data = sort data;
               idx = real (length sorted_data - 1) * p / 100;
               lo = nat \<lfloor>idx\<rfloor>;
               hi = min (lo + 1) (length sorted_data - 1);
               fr = idx - real lo
           in Some (sorted_data ! lo * (1 - fr) + sorted_data ! hi * fr))"

text \<open>Python's truth value of an optional float: \<open>None\<close> and \<open>0.0\<close> are false.\<close>

definition truthy :: "real option \<Rightarrow> bool" where
  "truthy x \<longleftrightarrow> x \<noteq> None \<and> x \<noteq> Some 0"

definition value_or :: "real option \<Rightarrow> real \<Rightarrow> real" where
  "value_or x d = (if truthy x then the x else d)"

definition times_of :: "request_rec \<Rightarrow> real list" where
  "times_of r = (if truthy (first_time r) then the (first_time r) # token_times r else token_times r)"

definition gaps_ms :: "real list \<Rightarrow> real list" where
  "gaps_ms ts = map (\<lambda>i. (ts ! i - ts ! (i - 1)) * 1000) [1..<length ts]"

definition measured :: "collector \<Rightarrow> request_rec list" where
  "measured co = map snd (filter (\<lambda>(rid, r). rid \<notin> warmup_ids co \<and> end_time r \<noteq> None) (co_records co))"

definition mean :: "real list \<Rightarrow> real option" where
  "mean xs = (if xs = [] then None else Some (sum_list xs / real (length xs)))"

fun ttfts_loop :: "request_rec list \<Rightarrow> real list" where
  "ttfts_loop [] = []"
| "ttfts_loop (r # rs) =
     (case first_time r of None \<Rightarrow> ttfts_loop rs | Some f \<Rightarrow> (f - submit_time r) * 1000 # ttfts_loop rs)"

fun tbts_loop :: "request_rec list \<Rightarrow> real list \<times> real list" where
  "tbts_loop [] = ([], [])"
| "tbts_loop (r # rs) =
     (let (tbts, tpots) = tbts_loop rs; ts = times_of r
      in if 2 \<le> length ts then
           (gaps_ms ts @ tbts,
            if 1 < output_tokens r
            then ((the (end_time r) - value_or (first_time r) (submit_time r)) * 1000
                   / of_int (max (output_tokens r - 1) 1)) # tpots
            else tpots)
         else (tbts, tpots))"

definition slo_ok :: "collector \<Rightarrow> request_rec \<Rightarrow> bool" where
  "slo_ok co r =
     (let ttft_ok = (case first_time r of None \<Rightarrow> False | Some f \<Rightarrow> (f - submit_time r) * 1000 < ttft_slo_limit co);
          tbt_ok = (if token_times r \<noteq> [] \<and> 2 \<le> length (times_of r)
                    then Max (set (gaps_ms (times_of r))) < tbt_slo_limit co else True)
      in ttft_ok \<and> tbt_ok)"

fun slo_loop :: "collector \<Rightarrow> request_rec list \<Rightarrow> nat" where
  "slo_loop co [] = 0"
| "slo_loop co (r # rs) = (if slo_ok co r then 1 else 0) + slo_loop co rs"

record summary =
  throughput_toks :: real
  throughput_reqs :: real
  ttft_p50 :: "real option"
  ttft_p99 :: "real option"
  tbt_p50 :: "real option"
  tbt_p99 :: "real option"
  tpot :: "real option"
  slo_attainment :: real
  n_completed :: nat
  wall_time :: real

definition compute :: "real \<Rightarrow> collector \<Rightarrow> summary" where
  "compute now co =
     (let wall = value_or (run_end co) now - value_or (run_start co) 0; rs = measured co
      in if rs = [] then
           \<lparr>throughput_toks = 0, throughput_reqs = 0, ttft_p50 = None, ttft_p99 = None, tbt_p50 = None,
            tbt_p99 = None, tpot = None, slo_attainment = 0, n_completed = 0, wall_time = 0\<rparr>
         else
           (let ttfts = ttfts_loop rs; (tbts, tpots) = tbts_loop rs
            in \<lparr>throughput_toks = of_int (sum_list (map output_tokens rs)) / max wall (1 / 10 ^ 9),
                throughput_reqs = real (length rs) / max wall (1 / 10 ^ 9),
                ttft_p50 = percentile ttfts 50, ttft_p99 = percentile ttfts 99,
                tbt_p50 = percentile tbts 50, tbt_p99 = percentile tbts 99,
                tpot = mean tpots, slo_attainment = real (slo_loop co rs) / real (length rs),
                n_completed = length rs, wall_time = wall\<rparr>))"

subsection \<open>The scheduler's log\<close>

text \<open>
  A line of the log: blank, not JSON, or an object whose values \<open>float\<close> converts, rejects with
  ValueError, or rejects with TypeError, which is not caught.
\<close>

datatype log_value = Number real | NotANumber | NullValue
datatype log_line = Blank | NotJson | Fields "(string, log_value) dict"

fun append_value :: "log_value option \<Rightarrow> real list \<Rightarrow> py_error + real list" where
  "append_value None xs = Inr xs"
| "append_value (Some (Number x)) xs = Inr (xs @ [x])"
| "append_value (Some NotANumber) xs = Inl ValueError"
| "append_value (Some NullValue) xs = Inl TypeError"

text \<open>One \<open>try\<close> block: what was appended before a ValueError stays.\<close>

definition log_fields ::
  "(string, log_value) dict \<Rightarrow> real list \<times> real list \<times> real list \<Rightarrow> py_error + real list \<times> real list \<times> real list" where
  "log_fields d acc =
     (let (wars, gwars, promos) = acc in
      case append_value (map_of d ''war'') wars of
        Inl ValueError \<Rightarrow> Inr (wars, gwars, promos) | Inl e \<Rightarrow> Inl e
      | Inr wars' \<Rightarrow>
          (case append_value (map_of d ''gwar8'') gwars of
             Inl ValueError \<Rightarrow> Inr (wars', gwars, promos) | Inl e \<Rightarrow> Inl e
           | Inr gwars' \<Rightarrow>
               (case append_value (map_of d ''promotion_fraction'') promos of
                  Inl ValueError \<Rightarrow> Inr (wars', gwars', promos) | Inl e \<Rightarrow> Inl e
                | Inr promos' \<Rightarrow> Inr (wars', gwars', promos'))))"

fun parse_lines :: "log_line list \<Rightarrow> real list \<times> real list \<times> real list \<Rightarrow> py_error + real list \<times> real list \<times> real list" where
  "parse_lines [] acc = Inr acc"
| "parse_lines (Fields d # ls) acc = (case log_fields d acc of Inl e \<Rightarrow> Inl e | Inr acc' \<Rightarrow> parse_lines ls acc')"
| "parse_lines (l # ls) acc = parse_lines ls acc"

definition with_mean :: "string \<Rightarrow> real list \<Rightarrow> (string, real) dict \<Rightarrow> (string, real) dict" where
  "with_mean name xs d = (case mean xs of None \<Rightarrow> d | Some m \<Rightarrow> dict_set name m d)"

definition parse_as_metrics_jsonl :: "log_line list option \<Rightarrow> py_error + (string, real) dict" where
  "parse_as_metrics_jsonl file =
     (case file of
        None \<Rightarrow> Inr []
      | Some ls \<Rightarrow>
          map_sum id (\<lambda>(wars, gwars, promos).
            with_mean ''promotion_fraction'' promos (with_mean ''gwar8'' gwars (with_mean ''war'' wars [])))
            (parse_lines ls ([], [], [])))"

subsection \<open>The streaming client\<close>

text \<open>
  A parsed chunk: \<open>ch_usage\<close> is the usage object when it is there and not empty, with its
  \<open>completion_tokens\<close>; \<open>ch_texts\<close> the texts of the choices, empty when missing.
\<close>

record chunk =
  ch_usage :: "int option option"
  ch_texts :: "string list"

definition data_of :: "string \<Rightarrow> string option" where
  "data_of raw = (let line = py_strip raw in if prefix ''data:'' line then Some (py_strip (drop 5 line)) else None)"

text \<open>What the loop does with one line; \<open>parse\<close> is \<open>json.loads\<close>. \<open>Chunk\<close> tells whether the chunk has text, and
  the token count it carries.\<close>

datatype line_action = Skip | Stop | Malformed | Chunk bool "int option"

definition openai_line :: "(string \<Rightarrow> chunk option) \<Rightarrow> string \<Rightarrow> line_action" where
  "openai_line parse raw =
     (case data_of raw of
        None \<Rightarrow> Skip
      | Some data \<Rightarrow>
          if data = ''[DONE]'' then Stop
          else (case parse data of
                  None \<Rightarrow> Malformed
                | Some ch \<Rightarrow> Chunk (ch_texts ch \<noteq> [] \<and> hd (ch_texts ch) \<noteq> [])
                    (case ch_usage ch of Some u \<Rightarrow> u | None \<Rightarrow> None)))"

definition record_chunk :: "string \<Rightarrow> real \<Rightarrow> bool \<Rightarrow> nat \<Rightarrow> collector \<Rightarrow> collector" where
  "record_chunk rid now has_text n_chunks co =
     (if has_text then (if n_chunks = 0 then record_first_token rid now co else record_token rid now co) else co)"

definition count_chunk :: "bool \<Rightarrow> nat \<Rightarrow> nat" where
  "count_chunk has_text n_chunks = (if has_text then n_chunks + 1 else n_chunks)"

definition new_usage :: "int option \<Rightarrow> int option \<Rightarrow> int option" where
  "new_usage u n_usage = (case u of Some n \<Rightarrow> Some n | None \<Rightarrow> n_usage)"

text \<open>The loop over the response's lines, each with the clock at that time.\<close>

fun stream_loop ::
  "(string \<Rightarrow> line_action) \<Rightarrow> string \<Rightarrow> (string \<times> real) list \<Rightarrow> collector \<Rightarrow> int option \<Rightarrow> nat \<Rightarrow>
     py_error + collector \<times> int option \<times> nat" where
  "stream_loop act rid [] co n_usage n_chunks = Inr (co, n_usage, n_chunks)"
| "stream_loop act rid ((raw, now) # ls) co n_usage n_chunks =
     (case act raw of
        Skip \<Rightarrow> stream_loop act rid ls co n_usage n_chunks
      | Stop \<Rightarrow> Inr (co, n_usage, n_chunks)
      | Malformed \<Rightarrow> Inl ValueError
      | Chunk has_text u \<Rightarrow>
          stream_loop act rid ls (record_chunk rid now has_text n_chunks co) (new_usage u n_usage)
            (count_chunk has_text n_chunks))"

definition token_count :: "int option \<Rightarrow> nat \<Rightarrow> int" where
  "token_count n_usage n_chunks = (case n_usage of Some n \<Rightarrow> n | None \<Rightarrow> int n_chunks)"

definition stream_completion ::
  "(string \<Rightarrow> chunk option) \<Rightarrow> string \<Rightarrow> (string \<times> real) list \<Rightarrow> collector \<Rightarrow> py_error + collector \<times> int" where
  "stream_completion parse rid ls co =
     map_sum id (\<lambda>(co, n_usage, n_chunks). (co, token_count n_usage n_chunks))
       (stream_loop (openai_line parse) rid ls co None 0)"

subsection \<open>Percentiles\<close>

definition interpolate :: "real list \<Rightarrow> real \<Rightarrow> real" where
  "interpolate xs x =
     (let lo = nat \<lfloor>x\<rfloor>; hi = min (lo + 1) (length xs - 1); fr = x - real lo in xs ! lo * (1 - fr) + xs ! hi * fr)"

lemma percentile_interpolate:
  "data \<noteq> [] \<Longrightarrow> percentile data p = Some (interpolate (sort data) (real (length data - 1) * p / 100))"
  by (simp add: percentile_def interpolate_def Let_def)

lemma interpolate_at: "interpolate xs (real i) = xs ! i"
  by (simp add: interpolate_def Let_def)

lemma next_le:
  assumes "sorted xs" and "xs \<noteq> []" and "lo \<le> length xs - 1"
  shows "xs ! lo \<le> xs ! min (lo + 1) (length xs - 1)"
  using assms by (intro sorted_nth_mono) (cases xs; auto)+

lemma interpolate_between:
  assumes "sorted xs" and "0 \<le> x" and "x \<le> real (length xs - 1)" and "xs \<noteq> []"
  shows "xs ! nat \<lfloor>x\<rfloor> \<le> interpolate xs x" and "interpolate xs x \<le> xs ! min (nat \<lfloor>x\<rfloor> + 1) (length xs - 1)"
proof -
  define lo where "lo = nat \<lfloor>x\<rfloor>"
  have fr: "0 \<le> x - real lo" "x - real lo \<le> 1" using assms(2) by (simp_all add: lo_def) linarith+
  have "lo \<le> length xs - 1" using assms(2,3) by (simp add: lo_def nat_le_iff floor_le_iff)
  then have le: "xs ! lo \<le> xs ! min (lo + 1) (length xs - 1)"
    by (rule next_le [OF assms(1,4)])
  have i: "interpolate xs x = xs ! lo + (xs ! min (lo + 1) (length xs - 1) - xs ! lo) * (x - real lo)"
    by (simp add: interpolate_def Let_def lo_def algebra_simps)
  show "xs ! nat \<lfloor>x\<rfloor> \<le> interpolate xs x"
    unfolding i lo_def [symmetric] using fr(1) le by simp
  have "(xs ! min (lo + 1) (length xs - 1) - xs ! lo) * (x - real lo) \<le> (xs ! min (lo + 1) (length xs - 1) - xs ! lo) * 1"
    using fr(2) le by (intro mult_left_mono) auto
  then show "interpolate xs x \<le> xs ! min (nat \<lfloor>x\<rfloor> + 1) (length xs - 1)"
    unfolding i lo_def [symmetric] by simp
qed

lemma interpolate_mono:
  assumes "sorted xs" and "0 \<le> x" and "x \<le> y" and "y \<le> real (length xs - 1)" and "xs \<noteq> []"
  shows "interpolate xs x \<le> interpolate xs y"
proof (cases "\<lfloor>x\<rfloor> = \<lfloor>y\<rfloor>")
  case True
  define lo where "lo = nat \<lfloor>y\<rfloor>"
  have "lo \<le> length xs - 1" using assms(2-4) by (simp add: lo_def nat_le_iff floor_le_iff)
  then have le: "xs ! lo \<le> xs ! min (lo + 1) (length xs - 1)"
    by (rule next_le [OF assms(1,5)])
  have "interpolate xs z = xs ! lo + (xs ! min (lo + 1) (length xs - 1) - xs ! lo) * (z - real lo)"
    if "\<lfloor>z\<rfloor> = \<lfloor>y\<rfloor>" for z
    using that by (simp add: interpolate_def Let_def lo_def algebra_simps)
  from this [OF True] this [OF refl] show ?thesis
    using mult_left_mono [of "x - real lo" "y - real lo" "xs ! min (lo + 1) (length xs - 1) - xs ! lo"] le assms(3) by simp
next
  case False
  then have "\<lfloor>x\<rfloor> < \<lfloor>y\<rfloor>" using floor_mono [OF assms(3)] by simp
  then have lt: "nat \<lfloor>x\<rfloor> + 1 \<le> nat \<lfloor>y\<rfloor>" using assms(2) by linarith
  have "nat \<lfloor>y\<rfloor> \<le> length xs - 1" using assms(2-4) by (simp add: nat_le_iff floor_le_iff)
  then have "xs ! min (nat \<lfloor>x\<rfloor> + 1) (length xs - 1) \<le> xs ! nat \<lfloor>y\<rfloor>"
    using lt assms(1,5) by (intro sorted_nth_mono) (cases xs; auto)+
  then show ?thesis
    using interpolate_between [OF assms(1), of x] interpolate_between [OF assms(1), of y] assms by linarith
qed

lemma percentile_mono:
  assumes "0 \<le> p" and "p \<le> q" and "q \<le> 100" and "percentile data p = Some a" and "percentile data q = Some b"
  shows "a \<le> b"
proof -
  have ne: "data \<noteq> []" using assms(4) by (auto simp: percentile_def)
  then have "sort data \<noteq> []" by (metis length_0_conv length_sort)
  moreover have "real (length data - 1) * q \<le> real (length data - 1) * 100" using assms(3) by (intro mult_left_mono) auto
  moreover have "real (length data - 1) * p \<le> real (length data - 1) * q" using assms(2) by (intro mult_left_mono) auto
  ultimately show ?thesis
    using interpolate_mono [of "sort data" "real (length data - 1) * p / 100" "real (length data - 1) * q / 100"] ne assms
    by (auto simp: percentile_interpolate divide_right_mono)
qed

lemma percentile_ends:
  assumes "data \<noteq> []"
  shows "percentile data 0 = Some (Min (set data))" and "percentile data 100 = Some (Max (set data))"
proof -
  let ?xs = "sort data"
  have "0 < length ?xs" using assms by simp
  then have mem: "?xs ! 0 \<in> set ?xs" "?xs ! (length data - 1) \<in> set ?xs" by (auto intro!: nth_mem simp del: set_sort)
  have "?xs ! 0 = Min (set ?xs)" "?xs ! (length data - 1) = Max (set ?xs)"
    using mem sorted_nth_mono [of ?xs]
    by (auto intro!: Min_eqI [symmetric] Max_eqI [symmetric] simp: in_set_conv_nth simp del: set_sort)
  then show "percentile data 0 = Some (Min (set data))" "percentile data 100 = Some (Max (set data))"
    using interpolate_at [of ?xs 0] interpolate_at [of ?xs "length data - 1"] assms
    by (simp_all add: percentile_interpolate)
qed

subsection \<open>What the summary says\<close>

text \<open>The limits a request has to meet, in terms of its own time stamps.\<close>

definition meets_slo :: "collector \<Rightarrow> request_rec \<Rightarrow> bool" where
  "meets_slo co r \<longleftrightarrow> (\<exists>f. first_time r = Some f \<and> (f - submit_time r) * 1000 < ttft_slo_limit co) \<and>
     (\<forall>i. Suc i < length (times_of r) \<longrightarrow> (times_of r ! Suc i - times_of r ! i) * 1000 < tbt_slo_limit co)"

lemma set_gaps: "set (gaps_ms xs) = (\<lambda>i. (xs ! Suc i - xs ! i) * 1000) ` {i. Suc i < length xs}"
proof -
  have "x \<in> Suc ` {i. Suc i < length xs}" if "x \<in> {1..<length xs}" for x
    using that by (intro image_eqI [of _ _ "x - 1"]) auto
  then have "{1..<length xs} = Suc ` {i. Suc i < length xs}" by auto
  then show ?thesis by (simp add: gaps_ms_def image_image)
qed

lemma slo_ok_iff: "slo_ok co r \<longleftrightarrow> meets_slo co r"
proof -
  have "(if token_times r \<noteq> [] \<and> 2 \<le> length (times_of r)
       then Max (set (gaps_ms (times_of r))) < tbt_slo_limit co else True) \<longleftrightarrow>
    (\<forall>x\<in>set (gaps_ms (times_of r)). x < tbt_slo_limit co)"
  proof (cases "2 \<le> length (times_of r)")
    case True
    then have "token_times r \<noteq> []" "set (gaps_ms (times_of r)) \<noteq> {}"
      by (auto simp: times_of_def gaps_ms_def split: if_splits)
    then show ?thesis using True Max_less_iff [of "set (gaps_ms (times_of r))"] by simp
  qed (simp add: gaps_ms_def)
  then show ?thesis by (auto simp: slo_ok_def meets_slo_def Let_def set_gaps split: option.splits)
qed

lemma slo_loop_count: "slo_loop co rs = length (filter (meets_slo co) rs)"
  by (induction rs) (simp_all add: slo_ok_iff)

text \<open>C32: The summary of a run says what the time stamps say. For any recorded run with at least one completed
  request outside the warm-up: the SLO attainment is the fraction of these requests whose first token came
  within the TTFT limit after submission and whose every gap between consecutive tokens is within the TBT
  limit, a number between 0 and 1; and for both latencies the 99th percentile exists exactly when
  the median does and is at least the median, which lies between the smallest and the largest sample.\<close>

theorem summary_is_sound:
  assumes "measured co \<noteq> []" and "s = compute now co"
  shows "slo_attainment s = real (length (filter (meets_slo co) (measured co))) / real (length (measured co)) \<and>
    0 \<le> slo_attainment s \<and> slo_attainment s \<le> 1 \<and> n_completed s = length (measured co) \<and>
    (\<forall>(m, h, data)\<in>{(ttft_p50 s, ttft_p99 s, ttfts_loop (measured co)),
                     (tbt_p50 s, tbt_p99 s, fst (tbts_loop (measured co)))}.
       (m = None) = (data = []) \<and> (h = None) = (data = []) \<and>
       (\<forall>a b. m = Some a \<longrightarrow> h = Some b \<longrightarrow> Min (set data) \<le> a \<and> a \<le> b \<and> b \<le> Max (set data)))"
proof -
  have s: "slo_attainment s = real (length (filter (meets_slo co) (measured co))) / real (length (measured co))"
    "n_completed s = length (measured co)"
    "ttft_p50 s = percentile (ttfts_loop (measured co)) 50" "ttft_p99 s = percentile (ttfts_loop (measured co)) 99"
    "tbt_p50 s = percentile (fst (tbts_loop (measured co))) 50" "tbt_p99 s = percentile (fst (tbts_loop (measured co))) 99"
    using assms by (simp_all add: compute_def Let_def case_prod_unfold slo_loop_count)
  have ex: "(percentile data p = None) = (data = [])" for data p by (simp add: percentile_def Let_def)
  have "Min (set data) \<le> a \<and> a \<le> b \<and> b \<le> Max (set data)"
    if "percentile data 50 = Some a" "percentile data 99 = Some b" for data a b
  proof -
    have "data \<noteq> []" using that(1) by (auto simp: percentile_def)
    from percentile_ends [OF this] that show ?thesis
      using percentile_mono [of 0 50 data _ a] percentile_mono [of 50 99 data a b] percentile_mono [of 99 100 data b] by auto
  qed
  moreover have "real (length (filter (meets_slo co) (measured co))) / real (length (measured co)) \<le> 1"
    using assms(1) by (simp add: divide_le_eq_1)
  ultimately show ?thesis unfolding s by (simp add: ex)
qed

definition demo_run :: collector where
  "demo_run = record_completion ''b'' 9 2 (record_first_token ''b'' 8 (record_request_start ''b'' 0 1
     (record_completion ''a'' 3 2 (record_token ''a'' (3/2) (record_first_token ''a'' (5/4)
       (record_request_start ''a'' 0 1 (collector_init 1000 300)))))))"

theorem summary_is_sound_witness: "slo_attainment (compute 10 demo_run) = 1 / 2"
proof -
  define ra where "ra = \<lparr>cr_adapter = 0, submit_time = 1, first_time = Some (5/4), token_times = [3/2],
      end_time = Some 3, output_tokens = 2\<rparr>"
  define rb where "rb = \<lparr>cr_adapter = 0, submit_time = 1, first_time = Some 8, token_times = [],
      end_time = Some 9, output_tokens = 2\<rparr>"
  have m: "measured demo_run = [ra, rb]"
    by (simp add: demo_run_def record_completion_def record_token_def record_first_token_def record_request_start_def
        update_record_def collector_init_def measured_def dict_set_def ra_def rb_def)
  have lim: "ttft_slo_limit demo_run = 1000" "tbt_slo_limit demo_run = 300"
    by (simp_all add: demo_run_def record_completion_def record_token_def record_first_token_def
        record_request_start_def update_record_def collector_init_def dict_set_def)
  have "slo_ok demo_run ra" "\<not> slo_ok demo_run rb"
    by (simp_all add: slo_ok_def ra_def rb_def lim times_of_def truthy_def gaps_ms_def)
  then have "filter (meets_slo demo_run) (measured demo_run) = [ra]" by (simp add: m slo_ok_iff)
  with summary_is_sound [of demo_run _ 10] show ?thesis by (simp add: m)
qed

subsection \<open>What the stream records\<close>

text \<open>The chunks of a response up to the end mark with their arrival times, \<open>None\<close> if one does not parse.\<close>

fun stream_events :: "(string \<Rightarrow> line_action) \<Rightarrow> (string \<times> real) list \<Rightarrow> ((bool \<times> int option) \<times> real) list option" where
  "stream_events act [] = Some []"
| "stream_events act ((raw, t) # ls) =
     (case act raw of
        Skip \<Rightarrow> stream_events act ls | Stop \<Rightarrow> Some [] | Malformed \<Rightarrow> None
      | Chunk has_text u \<Rightarrow> map_option ((#) ((has_text, u), t)) (stream_events act ls))"

definition token_clocks :: "((bool \<times> int option) \<times> real) list \<Rightarrow> real list" where
  "token_clocks evs = map snd (filter (\<lambda>((has_text, u), t). has_text) evs)"

definition usages :: "((bool \<times> int option) \<times> real) list \<Rightarrow> int list" where
  "usages evs = List.map_filter (\<lambda>((has_text, u), t). u) evs"

definition after_tokens :: "nat \<Rightarrow> real list \<Rightarrow> request_rec \<Rightarrow> request_rec" where
  "after_tokens n ts r =
     (if ts = [] then r
      else if n = 0 then r\<lparr>first_time := Some (hd ts), token_times := token_times r @ tl ts\<rparr>
      else r\<lparr>token_times := token_times r @ ts\<rparr>)"

lemma event_simps [simp]:
  "token_clocks [] = []" "token_clocks (((has_text, u), t) # evs) = (if has_text then t # token_clocks evs else token_clocks evs)"
  "usages [] = []" "usages (((has_text, u), t) # evs) = (case u of Some n \<Rightarrow> n # usages evs | None \<Rightarrow> usages evs)"
  by (simp_all add: token_clocks_def usages_def List.map_filter_simps split: option.splits)

lemma after_no_tokens [simp]: "after_tokens n [] r = r"
  by (simp add: after_tokens_def)

lemma after_tokens_Cons: "after_tokens (Suc n) ts (after_tokens n [t] r) = after_tokens n (t # ts) r"
  by (simp add: after_tokens_def)

lemma record_chunk_spec:
  assumes "map_of (co_records co) rid = Some r"
  shows "\<exists>recs. record_chunk rid now has_text n co = co\<lparr>co_records := recs\<rparr> \<and>
    map_of recs = (map_of (co_records co))(rid \<mapsto> after_tokens n (if has_text then [now] else []) r)"
proof (cases has_text)
  case True
  then show ?thesis using assms
    by (auto simp: record_chunk_def record_first_token_def record_token_def update_record_def after_tokens_def)
next
  case False
  then show ?thesis using assms
    by (intro exI [of _ "co_records co"]) (auto simp: record_chunk_def)
qed

lemma stream_loop_spec:
  assumes "map_of (co_records co) rid = Some r"
  shows "case stream_events act ls of
      None \<Rightarrow> stream_loop act rid ls co nu n = Inl ValueError
    | Some evs \<Rightarrow> \<exists>recs. stream_loop act rid ls co nu n =
        Inr (co\<lparr>co_records := recs\<rparr>, if usages evs = [] then nu else Some (last (usages evs)), n + length (token_clocks evs)) \<and>
        map_of recs = (map_of (co_records co))(rid \<mapsto> after_tokens n (token_clocks evs) r)"
  using assms
proof (induction act rid ls co nu n arbitrary: r rule: stream_loop.induct)
  case (1 act rid co nu n)
  then show ?case by (auto intro!: exI [of _ "co_records co"])
next
  case (2 act rid raw now ls co nu n)
  show ?case
  proof (cases "act raw")
    case Skip
    then show ?thesis using 2(1) [OF Skip 2(3)] by (auto split: option.splits)
  next
    case Stop
    then show ?thesis using 2(3) by (auto intro!: exI [of _ "co_records co"])
  next
    case (Chunk has_text u)
    obtain recs where recs: "record_chunk rid now has_text n co = co\<lparr>co_records := recs\<rparr>"
      "map_of recs = (map_of (co_records co))(rid \<mapsto> after_tokens n (if has_text then [now] else []) r)"
      using record_chunk_spec [OF 2(3)] by blast
    then have "map_of (co_records (record_chunk rid now has_text n co)) rid =
        Some (after_tokens n (if has_text then [now] else []) r)" by simp
    note ih = 2(2) [OF Chunk this]
    show ?thesis
    proof (cases "stream_events act ls")
      case None
      then show ?thesis using ih Chunk by simp
    next
      case (Some evs)
      then show ?thesis using ih Chunk recs
        by (cases has_text) (auto simp: new_usage_def count_chunk_def after_tokens_Cons split: option.splits)
    qed
  qed simp
qed

text \<open>The streaming client records exactly the tokens of the response. For a request just started on any
  collector and any response: if a chunk before \<open>[DONE]\<close> is not JSON, the call raises; otherwise the request's
  first-token time is the arrival of the first chunk with text (none if there is no such chunk), its
  token times are the arrivals of the later ones in order, nothing else in the collector changes, and
  the call returns the last usage count sent, or the number of chunks with text.\<close>

theorem stream_records_every_token:
  "case stream_events (openai_line parse) ls of
      None \<Rightarrow> stream_completion parse rid ls (record_request_start rid adapter submit co) = Inl ValueError
    | Some evs \<Rightarrow> \<exists>recs. stream_completion parse rid ls (record_request_start rid adapter submit co) =
        Inr ((record_request_start rid adapter submit co)\<lparr>co_records := recs\<rparr>, if usages evs = [] then int (length (token_clocks evs)) else last (usages evs)) \<and>
        map_of recs rid = Some \<lparr>cr_adapter = adapter, submit_time = submit,
          first_time = (if token_clocks evs = [] then None else Some (hd (token_clocks evs))),
          token_times = tl (token_clocks evs), end_time = None, output_tokens = 0\<rparr> \<and>
        (\<forall>k. k \<noteq> rid \<longrightarrow> map_of recs k = map_of (co_records co) k)"
proof -
  define co1 where "co1 = record_request_start rid adapter submit co"
  define r where "r = \<lparr>cr_adapter = adapter, submit_time = submit, first_time = None, token_times = [],
    end_time = None, output_tokens = 0\<rparr>"
  have recs: "map_of (co_records co1) = (map_of (co_records co))(rid \<mapsto> r)"
    by (simp add: co1_def record_request_start_def r_def)
  then have "map_of (co_records co1) rid = Some r" by simp
  from stream_loop_spec [OF this, of "openai_line parse" ls None 0] show ?thesis
    by (auto simp: stream_completion_def token_count_def recs r_def after_tokens_def co1_def [symmetric] split: option.splits)
qed

theorem stream_records_every_token_witness:
  "\<exists>recs. stream_completion (\<lambda>d. Some \<lparr>ch_usage = None, ch_texts = [d]\<rparr>) ''a''
       [(''data: x'', 1), ('': ping'', 2), (''data: y'', 3), (''data: [DONE]'', 4)]
       (record_request_start ''a'' 0 0 (collector_init 1 1)) =
     Inr ((record_request_start ''a'' 0 0 (collector_init 1 1))\<lparr>co_records := recs\<rparr>, 2) \<and>
     map_option first_time (map_of recs ''a'') = Some (Some 1)"
  using stream_records_every_token [where parse = "\<lambda>d. Some \<lparr>ch_usage = None, ch_texts = [d]\<rparr>" and rid = "''a''"
      and ls = "[(''data: x'', 1), ('': ping'', 2), (''data: y'', 3), (''data: [DONE]'', 4)]" and adapter = 0
      and submit = 0 and co = "collector_init 1 1"]
  by (auto simp: openai_line_def data_of_def py_strip_def py_blank_def)

end
