(* ===== verification/Baselines.thy ===== *)
theory Baselines
  imports Backend Collector
begin

text \<open>
  \<^verbatim>\<open>backends/backend_vllm.py\<close>, \<^verbatim>\<open>backends/backend_slora.py\<close>, \<^verbatim>\<open>backends/__init__.py\<close> and the constructor of
  \<^verbatim>\<open>backends/base.py\<close>: the command lines, environments and payloads of the two baselines, the token
  stream of S-LoRA, and the registry. Constructors of the baselines are \<open>BaseBackend\<close>'s.
\<close>

subsection \<open>The base class and vLLM\<close>

definition base_init ::
  "string \<Rightarrow> string list \<Rightarrow> int \<Rightarrow> int \<Rightarrow> int \<Rightarrow> int \<Rightarrow> string list option \<Rightarrow> int option \<Rightarrow> base_backend" where
  "base_init mdl dirs prt tensor_par rnk loras extra gpu =
     \<lparr>be_model = mdl, adapter_dirs = dirs, port = prt, tp = tensor_par, max_lora_rank = rnk, max_loras = loras,
      extra_args = (case extra of None \<Rightarrow> [] | Some xs \<Rightarrow> xs), gpu_id = gpu\<rparr>"

text \<open>The pairs for \<open>--lora-modules\<close>.\<close>

definition lora_modules :: "'z base_backend_scheme \<Rightarrow> string list" where
  "lora_modules b = map (\<lambda>(i, d). adapter_name (int i) @ ''='' @ d) (enumerate 0 (adapter_dirs b))"

definition vllm_cmd :: "string \<Rightarrow> 'z base_backend_scheme \<Rightarrow> string list" where
  "vllm_cmd py b =
     [py, ''-m'', ''vllm.entrypoints.openai.api_server'', ''--model'', be_model b, ''--port'', py_str (port b),
      ''--tensor-parallel-size'', py_str (tp b), ''--enable-lora'', ''--max-lora-rank'', py_str (max_lora_rank b),
      ''--max-loras'', py_str (max_loras b)]
     @ (if lora_modules b \<noteq> [] then ''--lora-modules'' # lora_modules b else []) @ extra_args b"

definition vllm_payload :: "'z base_backend_scheme \<Rightarrow> string \<Rightarrow> int \<Rightarrow> int \<Rightarrow> string \<times> payload" where
  "vllm_payload b pr adapter maxt =
     (''http://localhost:'' @ py_str (port b) @ ''/v1/completions'',
      \<lparr>pl_model = adapter_name adapter, pl_prompt = pr, pl_max_tokens = maxt, pl_temperature = 0\<rparr>)"

subsection \<open>S-LoRA\<close>

fun dir_flags :: "string list \<Rightarrow> string list" where
  "dir_flags [] = []"
| "dir_flags (d # ds) = [''--lora-dirs'', d] @ dir_flags ds"

definition slora_cmd :: "string \<Rightarrow> environ \<Rightarrow> 'z base_backend_scheme \<Rightarrow> string list" where
  "slora_cmd py os b =
     [py, ''-m'', ''slora.server.api_server'', ''--model_dir'', be_model b, ''--port'', py_str (port b),
      ''--tp'', py_str (tp b), ''--max_req_input_len'', ''2048'', ''--max_req_total_len'', ''2560'',
      ''--max_total_token_num'', dict_get os ''SLORA_MAX_TOTAL_TOKENS'' ''50000'',
      ''--scheduler'', ''slora'', ''--swap''] @ dir_flags (adapter_dirs b)"

definition joined :: "environ \<Rightarrow> string \<Rightarrow> string \<Rightarrow> string" where
  "joined os new var =
     (if dict_get os var [] \<noteq> [] then new @ '':'' @ dict_get os var [] else new)"

text \<open>\<open>vendored\<close> is the vendored copy, \<open>torch_lib\<close> torch's own libraries.\<close>

definition slora_env :: "environ \<Rightarrow> string \<Rightarrow> string \<Rightarrow> environ" where
  "slora_env os vendored torch_lib =
     [(''PYTHONPATH'', joined os (dict_get os ''SLORA_ROOT'' vendored) ''PYTHONPATH''),
      (''LD_LIBRARY_PATH'', joined os torch_lib ''LD_LIBRARY_PATH'')]"

record slora_payload =
  sp_inputs :: string
  sp_max_new :: int
  sp_sample :: bool
  sp_lora_dir :: string

definition slora_request :: "'z base_backend_scheme \<Rightarrow> string \<Rightarrow> int \<Rightarrow> int \<Rightarrow> py_error + string \<times> slora_payload" where
  "slora_request b pr adapter maxt =
     (if adapter_dirs b = [] then Inl ZeroDivisionError
      else Inr (''http://localhost:'' @ py_str (port b) @ ''/generate_stream'',
        \<lparr>sp_inputs = pr, sp_max_new = maxt, sp_sample = False,
         sp_lora_dir = adapter_dirs b ! nat (adapter mod int (length (adapter_dirs b)))\<rparr>))"

text \<open>\<open>stream_request\<close>: \<open>parse\<close> is \<open>json.loads\<close>, and tells whether the chunk has a token.\<close>

definition slora_line :: "(string \<Rightarrow> bool option) \<Rightarrow> string \<Rightarrow> line_action" where
  "slora_line parse raw =
     (let line = py_strip raw
      in if \<not> prefix ''data:'' line then Skip
         else (case parse (drop 5 line) of
                 None \<Rightarrow> Malformed | Some has_token \<Rightarrow> if has_token then Chunk True None else Skip))"

definition slora_stream ::
  "(string \<Rightarrow> bool option) \<Rightarrow> string \<Rightarrow> (string \<times> real) list \<Rightarrow> collector \<Rightarrow> py_error + collector \<times> int" where
  "slora_stream parse rid ls co =
     map_sum id (\<lambda>(co, n_usage, n). (co, int n)) (stream_loop (slora_line parse) rid ls co None 0)"

subsection \<open>The registry\<close>

datatype server_kind = AdapterSlotsServer | VllmServer | SloraServer

datatype lookup_error = MissingDependency string | UnknownBackend

text \<open>\<open>_REGISTRY\<close> and \<open>_UNAVAILABLE\<close> after the module is loaded; \<open>slora_import\<close> is the message of the failed
  import of the S-LoRA backend, if it failed. \<open>to_lower\<close> is \<open>str.lower\<close>.\<close>

definition registry :: "string option \<Rightarrow> (string, server_kind) dict \<times> (string, string) dict" where
  "registry slora_import =
     (let reg = [(''adapterslots'', AdapterSlotsServer), (''vllm'', VllmServer)]
      in case slora_import of
           None \<Rightarrow> (reg @ [(''slora'', SloraServer)], [])
         | Some e \<Rightarrow> (reg, [(''slora'', e)]))"

definition get_backend :: "(string \<Rightarrow> string) \<Rightarrow> string option \<Rightarrow> string \<Rightarrow> lookup_error + server_kind" where
  "get_backend to_lower slora_import name =
     (let (reg, unavailable) = registry slora_import; n = to_lower name
      in case map_of unavailable n of
           Some e \<Rightarrow> Inl (MissingDependency e)
         | None \<Rightarrow> (case map_of reg n of None \<Rightarrow> Inl UnknownBackend | Some k \<Rightarrow> Inr k))"

subsection \<open>Requests reach the adapter they name\<close>

lemma nth_lora_modules:
  "a < length (adapter_dirs b) \<Longrightarrow> lora_modules b ! a = adapter_name (int a) @ ''='' @ adapter_dirs b ! a"
  by (simp add: lora_modules_def nth_enumerate_eq)

lemma build_cmd_modules:
  assumes "build_server_cmd py script b = Inr cmd" and "adapter_dirs b \<noteq> []"
  shows "\<exists>pre. cmd = pre @ ''--lora-modules'' # lora_modules b @ extra_args b"
proof -
  have "lora_modules b \<noteq> []" using assms(2) by (cases "adapter_dirs b") (simp_all add: lora_modules_def)
  then show ?thesis using assms(1)
    by (auto simp: build_server_cmd_def Let_def lora_modules_def split: option.splits)
qed

lemma vllm_cmd_modules:
  "adapter_dirs b \<noteq> [] \<Longrightarrow> \<exists>pre. vllm_cmd py b = pre @ ''--lora-modules'' # lora_modules b @ extra_args b"
  by (cases "adapter_dirs b") (auto simp: vllm_cmd_def lora_modules_def intro: exI [of _ "[_, _, _, _, _, _, _, _, _, _, _, _, _]"])

lemma nth_dir_flags: "a < length ds \<Longrightarrow> dir_flags ds ! (2 * a) = ''--lora-dirs'' \<and> dir_flags ds ! (2 * a + 1) = ds ! a"
proof (induction ds arbitrary: a)
  case (Cons d ds)
  then show ?case by (cases a) auto
qed simp

lemma length_dir_flags [simp]: "length (dir_flags ds) = 2 * length ds"
  by (induction ds) auto

lemma adapter_name_inj: "adapter_name i = adapter_name j \<longleftrightarrow> i = j"
  using py_str_inj by (auto simp: adapter_name_def)

text \<open>Every backend serves a request with the adapter it names. For a pool of K adapter directories and any
  adapter index below K: the model named by a request to AdapterSlots or vLLM is registered on that
  server's command line, after \<open>--lora-modules\<close>, with exactly that adapter's directory, and no other registration
  has that name; and the directory in a request to S-LoRA is that adapter's, and is given to the server with
  \<open>--lora-dirs\<close>.\<close>

theorem requests_name_registered_adapters:
  assumes "a < length (adapter_dirs b)" and "build_server_cmd py script b = Inr cmd"
  shows "(\<forall>c\<in>{cmd, vllm_cmd py b}. \<exists>pre mods. c = pre @ ''--lora-modules'' # mods @ extra_args b \<and>
      length mods = length (adapter_dirs b) \<and>
      (\<forall>i<length mods. mods ! i = adapter_name (int i) @ ''='' @ adapter_dirs b ! i) \<and>
      (\<forall>p\<in>{build_request_payload b pr (int a) n, vllm_payload b pr (int a) n}.
         \<forall>i<length mods. pl_model (snd p) = adapter_name (int i) \<longleftrightarrow> i = a)) \<and>
    (\<exists>url p k. slora_request b pr (int a) n = Inr (url, p) \<and> sp_lora_dir p = adapter_dirs b ! a \<and>
      k + 1 < length (slora_cmd py os b) \<and> slora_cmd py os b ! k = ''--lora-dirs'' \<and>
      slora_cmd py os b ! (k + 1) = sp_lora_dir p)"
proof (intro conjI)
  have dirs: "adapter_dirs b \<noteq> []" using assms(1) by auto
  have mods: "length (lora_modules b) = length (adapter_dirs b)"
    "\<forall>i<length (lora_modules b). lora_modules b ! i = adapter_name (int i) @ ''='' @ adapter_dirs b ! i"
    by (simp_all add: lora_modules_def nth_enumerate_eq)
  have named: "\<forall>p\<in>{build_request_payload b pr (int a) n, vllm_payload b pr (int a) n}.
      \<forall>i<length (lora_modules b). pl_model (snd p) = adapter_name (int i) \<longleftrightarrow> i = a"
    by (auto simp: build_request_payload_def vllm_payload_def adapter_name_inj)
  have "\<forall>c\<in>{cmd, vllm_cmd py b}. \<exists>pre. c = pre @ ''--lora-modules'' # lora_modules b @ extra_args b"
    using build_cmd_modules [OF assms(2) dirs] vllm_cmd_modules [OF dirs, of py] by auto
  then show "\<forall>c\<in>{cmd, vllm_cmd py b}. \<exists>pre mods. c = pre @ ''--lora-modules'' # mods @ extra_args b \<and>
      length mods = length (adapter_dirs b) \<and>
      (\<forall>i<length mods. mods ! i = adapter_name (int i) @ ''='' @ adapter_dirs b ! i) \<and>
      (\<forall>p\<in>{build_request_payload b pr (int a) n, vllm_payload b pr (int a) n}.
         \<forall>i<length mods. pl_model (snd p) = adapter_name (int i) \<longleftrightarrow> i = a)"
    using mods named by meson
  define pre where "pre = take 18 (slora_cmd py os b)"
  have cmd: "slora_cmd py os b = pre @ dir_flags (adapter_dirs b)" "length pre = 18"
    by (simp_all add: pre_def slora_cmd_def)
  have "nat (int a mod int (length (adapter_dirs b))) = a" using assms(1) by simp
  then obtain url p where p: "slora_request b pr (int a) n = Inr (url, p)" "sp_lora_dir p = adapter_dirs b ! a"
    using dirs by (auto simp: slora_request_def)
  have "slora_cmd py os b ! (18 + 2 * a) = ''--lora-dirs''" "slora_cmd py os b ! (18 + 2 * a + 1) = adapter_dirs b ! a"
    "18 + 2 * a + 1 < length (slora_cmd py os b)"
    using nth_dir_flags [OF assms(1)] assms(1) unfolding cmd(1) by (simp_all add: nth_append cmd(2))
  then show "\<exists>url p k. slora_request b pr (int a) n = Inr (url, p) \<and> sp_lora_dir p = adapter_dirs b ! a \<and>
      k + 1 < length (slora_cmd py os b) \<and> slora_cmd py os b ! k = ''--lora-dirs'' \<and>
      slora_cmd py os b ! (k + 1) = sp_lora_dir p"
    using p by metis
qed

definition demo_backend :: backend where
  "demo_backend = \<lparr>be_model = ''llama'', adapter_dirs = [''a'', ''b''], port = 8100, tp = 1, max_lora_rank = 32,
     max_loras = 16, extra_args = [], gpu_id = None, be_mode = ''C7'', be_tmax_ms = None, be_threshold = None,
     metrics_path = ''m''\<rparr>"

theorem requests_name_registered_adapters_witness:
  "\<exists>url p. slora_request demo_backend ''hi'' 1 8 = Inr (url, p) \<and> sp_lora_dir p = ''b'' \<and>
     ''b'' \<in> set (slora_cmd ''python'' [] demo_backend)"
proof -
  have "1 < length (adapter_dirs demo_backend)" by (simp add: demo_backend_def)
  moreover obtain cmd where "build_server_cmd ''python'' ''serve'' demo_backend = Inr cmd"
    by (simp add: build_server_cmd_def demo_backend_def config_map_def Let_def)
  ultimately obtain url p k where "slora_request demo_backend ''hi'' (int 1) 8 = Inr (url, p)"
    "sp_lora_dir p = adapter_dirs demo_backend ! 1" "k + 1 < length (slora_cmd ''python'' [] demo_backend)"
    "slora_cmd ''python'' [] demo_backend ! (k + 1) = sp_lora_dir p"
    using requests_name_registered_adapters [of 1 demo_backend "''python''" "''serve''" cmd "''hi''" 8 "[]"] by blast
  then show ?thesis by (auto simp: demo_backend_def in_set_conv_nth)
qed

text \<open>S-LoRA's stream is read by the same loop, so it records each token chunk, and never a usage count.\<close>

lemma slora_stream_spec:
  assumes "map_of (co_records co) rid = Some r"
  shows "case stream_events (slora_line parse) ls of
      None \<Rightarrow> slora_stream parse rid ls co = Inl ValueError
    | Some evs \<Rightarrow> \<exists>recs. slora_stream parse rid ls co = Inr (co\<lparr>co_records := recs\<rparr>, int (length (token_clocks evs))) \<and>
        map_of recs = (map_of (co_records co))(rid \<mapsto> after_tokens 0 (token_clocks evs) r)"
  using stream_loop_spec [OF assms, of "slora_line parse" ls None 0]
  by (auto simp: slora_stream_def split: option.splits)

end
