(* ===== verification/Harness.thy ===== *)
theory Harness
  imports Baselines
begin

text \<open>
  The request clients of \<^verbatim>\<open>benchmarks/ablations/bench.py\<close> and \<^verbatim>\<open>benchmarks/ablations/bench_apis.py\<close>. One asyncio
  task per request runs concurrently with the loop that spawns the tasks; between two awaits a task is
  atomic, so a run is a step relation in which the loop and the tasks interleave. A step takes place at a
  clock reading that is not before the previous one. A response is the list of lines the server sends;
  a request may fail at any await (time-out, connection, HTTP status). \<open>rn_shard\<close> says which server, and so
  which collector, a request goes to; the single-server harness has one.
\<close>

subsection \<open>Clients\<close>

datatype client =
    Waiting
  | Streaming "string list" "int option" nat
  | Closing int
  | Failing
  | Ended

record run_input =
  rn_requests :: "load_request list"
  rn_delays :: "real list"
  rn_shard :: "nat \<Rightarrow> nat"
  rn_warm :: "string set"
  rn_lines :: "nat \<Rightarrow> string list"
  rn_act :: "string \<Rightarrow> line_action"

record world =
  wo_collectors :: "nat \<Rightarrow> collector"
  wo_now :: real
  wo_spawned :: nat
  wo_last_spawn :: real
  wo_client :: "nat \<Rightarrow> client"

abbreviation rid_of :: "run_input \<Rightarrow> nat \<Rightarrow> string" where "rid_of R i \<equiv> req_id (rn_requests R ! i)"

text \<open>The atomic effect of task \<open>i\<close> on its collector.\<close>

definition on_shard :: "run_input \<Rightarrow> nat \<Rightarrow> real \<Rightarrow> (collector \<Rightarrow> collector) \<Rightarrow> client \<Rightarrow> world \<Rightarrow> world" where
  "on_shard R i t f c w =
     w\<lparr>wo_now := t, wo_client := (wo_client w)(i := c),
       wo_collectors := (wo_collectors w)(rn_shard R i := f (wo_collectors w (rn_shard R i)))\<rparr>"

definition submit_effect :: "run_input \<Rightarrow> nat \<Rightarrow> real \<Rightarrow> collector \<Rightarrow> collector" where
  "submit_effect R i t co =
     record_request_start (rid_of R i) (load_request.adapter_id (rn_requests R ! i)) t
       (if rid_of R i \<in> rn_warm R then mark_warmup (rid_of R i) co else co)"

definition line_client :: "line_action \<Rightarrow> string list \<Rightarrow> int option \<Rightarrow> nat \<Rightarrow> client" where
  "line_client act ls nu n =
     (case act of
        Skip \<Rightarrow> Streaming ls nu n
      | Stop \<Rightarrow> Closing (token_count nu n)
      | Malformed \<Rightarrow> Failing
      | Chunk has_text u \<Rightarrow> Streaming ls (new_usage u nu) (count_chunk has_text n))"

definition line_effect :: "line_action \<Rightarrow> string \<Rightarrow> real \<Rightarrow> nat \<Rightarrow> collector \<Rightarrow> collector" where
  "line_effect act rid t n co = (case act of Chunk has_text u \<Rightarrow> record_chunk rid t has_text n co | _ \<Rightarrow> co)"

inductive client_step :: "run_input \<Rightarrow> world \<Rightarrow> world \<Rightarrow> bool" for R where
  cs_spawn: "wo_spawned w < length (rn_requests R) \<Longrightarrow> wo_now w \<le> t \<Longrightarrow>
    wo_last_spawn w + rn_delays R ! wo_spawned w \<le> t \<Longrightarrow>
    client_step R w (w\<lparr>wo_now := t, wo_last_spawn := t, wo_spawned := wo_spawned w + 1\<rparr>)"
| cs_submit: "i < wo_spawned w \<Longrightarrow> wo_client w i = Waiting \<Longrightarrow> wo_now w \<le> t \<Longrightarrow>
    client_step R w (on_shard R i t (submit_effect R i t) (Streaming (rn_lines R i) None 0) w)"
| cs_line: "wo_client w i = Streaming (raw # ls) nu n \<Longrightarrow> wo_now w \<le> t \<Longrightarrow>
    client_step R w (on_shard R i t (line_effect (rn_act R raw) (rid_of R i) t n) (line_client (rn_act R raw) ls nu n) w)"
| cs_eof: "wo_client w i = Streaming [] nu n \<Longrightarrow> wo_now w \<le> t \<Longrightarrow>
    client_step R w (on_shard R i t id (Closing (token_count nu n)) w)"
| cs_error: "wo_client w i = Streaming ls nu n \<or> wo_client w i = Closing k \<Longrightarrow> wo_now w \<le> t \<Longrightarrow>
    client_step R w (on_shard R i t id Failing w)"
| cs_complete: "wo_client w i = Closing k \<Longrightarrow> wo_now w \<le> t \<Longrightarrow>
    client_step R w (on_shard R i t (record_completion (rid_of R i) t k) Ended w)"
| cs_fail: "wo_client w i = Failing \<Longrightarrow> wo_now w \<le> t \<Longrightarrow>
    client_step R w (on_shard R i t (record_completion (rid_of R i) t 0) Ended w)"

inductive client_run :: "run_input \<Rightarrow> world \<Rightarrow> nat \<Rightarrow> world \<Rightarrow> bool" for R where
  cr_none: "client_run R w 0 w"
| cr_step: "client_run R w n w' \<Longrightarrow> client_step R w' w'' \<Longrightarrow> client_run R w (Suc n) w''"

definition run_over :: "run_input \<Rightarrow> world \<Rightarrow> bool" where
  "run_over R w \<longleftrightarrow> wo_spawned w = length (rn_requests R) \<and> (\<forall>i<length (rn_requests R). wo_client w i = Ended)"

definition world_start :: "real \<Rightarrow> world" where
  "world_start t0 = \<lparr>wo_collectors = (\<lambda>s. mark_run_start t0 (collector_init 1000 100)), wo_now = t0,
     wo_spawned = 0, wo_last_spawn = t0, wo_client = (\<lambda>i. Waiting)\<rparr>"

subsection \<open>One repetition of the harness\<close>

text \<open>\<open>_send_requests_async\<close> sleeps the request's inter-arrival time if it is positive.\<close>

definition bench_delays :: "load_request list \<Rightarrow> real list" where
  "bench_delays reqs = map (\<lambda>r. if inter_arrival_s r > 0 then inter_arrival_s r else 0) reqs"

definition bench_input :: "(string \<Rightarrow> line_action) \<Rightarrow> load_request list \<Rightarrow> nat \<Rightarrow> (nat \<Rightarrow> string list) \<Rightarrow> run_input" where
  "bench_input act reqs warmup resp =
     \<lparr>rn_requests = reqs, rn_delays = bench_delays reqs, rn_shard = (\<lambda>i. 0),
      rn_warm = req_id ` set (take warmup reqs), rn_lines = resp, rn_act = act\<rparr>"

text \<open>\<open>_send_requests_sync\<close>: per request the clock readings and what \<open>send_request\<close> returned, if it did.\<close>

record sync_reply =
  sy_submit :: real
  sy_first :: real
  sy_end :: real
  sy_tokens :: "int option"

fun send_requests_sync :: "string set \<Rightarrow> (load_request \<times> sync_reply) list \<Rightarrow> collector \<Rightarrow> collector" where
  "send_requests_sync warmups [] co = co"
| "send_requests_sync warmups ((r, y) # ys) co =
     (let co = (if req_id r \<in> warmups then mark_warmup (req_id r) co else co);
          co = record_request_start (req_id r) (load_request.adapter_id r) (sy_submit y) co;
          co = (case sy_tokens y of
                  Some k \<Rightarrow> record_completion (req_id r) (sy_end y) k (record_first_token (req_id r) (sy_first y) co)
                | None \<Rightarrow> record_completion (req_id r) (sy_end y) 0 co)
      in send_requests_sync warmups ys co)"

definition rep_metrics :: "summary \<Rightarrow> (string, real) dict \<Rightarrow> (string, real option) dict" where
  "rep_metrics s alignment =
     dict_update (map (\<lambda>(k, v). (k, Some v)) alignment)
       [(''throughput_toks'', Some (throughput_toks s)), (''throughput_reqs'', Some (throughput_reqs s)),
        (''ttft_p50_ms'', ttft_p50 s), (''ttft_p99_ms'', ttft_p99 s), (''tbt_p50_ms'', tbt_p50 s),
        (''tbt_p99_ms'', tbt_p99 s), (''tpot_ms'', tpot s), (''slo_attainment'', Some (slo_attainment s)),
        (''n_completed'', Some (real (n_completed s))), (''wall_time_s'', Some (wall_time s))]"

text \<open>\<open>_run_one_rep\<close> with the asynchronous client, from \<open>t0\<close> to \<open>t1\<close>; \<open>lines\<close> is the scheduler's log, for a
  backend that has one.\<close>

definition run_one_rep ::
  "(string \<Rightarrow> line_action) \<Rightarrow> load_request list \<Rightarrow> nat \<Rightarrow> (nat \<Rightarrow> string list) \<Rightarrow> log_line list option \<Rightarrow>
     real \<Rightarrow> real \<Rightarrow> collector \<Rightarrow> py_error + (string, real option) dict \<Rightarrow> bool" where
  "run_one_rep act reqs warmup resp lines t0 t1 co metrics \<longleftrightarrow>
     (\<exists>n w. client_run (bench_input act reqs warmup resp) (world_start t0) n w \<and>
        run_over (bench_input act reqs warmup resp) w \<and> wo_now w \<le> t1 \<and>
        co = mark_run_end t1 (wo_collectors w 0)) \<and>
     metrics = map_sum id (rep_metrics (compute t1 co)) (parse_as_metrics_jsonl lines)"

subsection \<open>What a request records\<close>

text \<open>The outcome of a whole response: the last usage count and the number of token chunks, \<open>None\<close> if a line
  does not parse.\<close>

fun reply :: "(string \<Rightarrow> line_action) \<Rightarrow> string list \<Rightarrow> int option \<Rightarrow> nat \<Rightarrow> (int option \<times> nat) option" where
  "reply act [] nu n = Some (nu, n)"
| "reply act (raw # ls) nu n =
     (case act raw of
        Skip \<Rightarrow> reply act ls nu n | Stop \<Rightarrow> Some (nu, n) | Malformed \<Rightarrow> None
      | Chunk has_text u \<Rightarrow> reply act ls (new_usage u nu) (count_chunk has_text n))"

text \<open>The time stamps of a record in the order they are taken.\<close>

definition stamps :: "request_rec \<Rightarrow> real list" where
  "stamps r = submit_time r # (case first_time r of None \<Rightarrow> [] | Some f \<Rightarrow> [f]) @ token_times r
     @ (case end_time r of None \<Rightarrow> [] | Some e \<Rightarrow> [e])"

definition tokens_seen :: "request_rec \<Rightarrow> nat" where
  "tokens_seen r = (if first_time r = None then 0 else 1) + length (token_times r)"

text \<open>Request \<open>i\<close> is due when the delays up to it have passed.\<close>

definition due :: "run_input \<Rightarrow> real \<Rightarrow> nat \<Rightarrow> real" where
  "due R t0 i = t0 + sum_list (take (Suc i) (rn_delays R))"

definition answered :: "run_input \<Rightarrow> nat \<Rightarrow> request_rec \<Rightarrow> int \<Rightarrow> bool" where
  "answered R i r k \<longleftrightarrow> (\<exists>nu n. reply (rn_act R) (rn_lines R i) None 0 = Some (nu, n) \<and> k = token_count nu n \<and> tokens_seen r = n)"

definition record_ok :: "run_input \<Rightarrow> real \<Rightarrow> nat \<Rightarrow> real \<Rightarrow> client \<Rightarrow> request_rec \<Rightarrow> bool" where
  "record_ok R t0 i now c r \<longleftrightarrow>
     cr_adapter r = load_request.adapter_id (rn_requests R ! i) \<and> due R t0 i \<le> submit_time r \<and>
     sorted (stamps r) \<and> last (stamps r) \<le> now \<and> (first_time r = None \<longrightarrow> token_times r = []) \<and>
     (case c of
        Waiting \<Rightarrow> False
      | Streaming ls nu n \<Rightarrow> end_time r = None \<and> tokens_seen r = n \<and>
          reply (rn_act R) ls nu n = reply (rn_act R) (rn_lines R i) None 0
      | Closing k \<Rightarrow> end_time r = None \<and> answered R i r k
      | Failing \<Rightarrow> end_time r = None
      | Ended \<Rightarrow> end_time r \<noteq> None \<and> (output_tokens r = 0 \<or> answered R i r (output_tokens r)))"

definition client_ok :: "run_input \<Rightarrow> real \<Rightarrow> nat \<Rightarrow> real \<Rightarrow> client \<Rightarrow> request_rec option \<Rightarrow> bool" where
  "client_ok R t0 i now c ro = (case ro of None \<Rightarrow> c = Waiting | Some r \<Rightarrow> record_ok R t0 i now c r)"

text \<open>One atomic effect changes one record only.\<close>

definition touches :: "run_input \<Rightarrow> nat \<Rightarrow> (collector \<Rightarrow> collector) \<Rightarrow> bool" where
  "touches R i f \<longleftrightarrow> (\<forall>co.
     (\<forall>k. k \<noteq> rid_of R i \<longrightarrow> map_of (co_records (f co)) k = map_of (co_records co) k) \<and>
     (dict_ok (co_records co) \<longrightarrow> dict_ok (co_records (f co))) \<and> run_start (f co) = run_start co \<and>
     warmup_ids co \<subseteq> warmup_ids (f co) \<and> warmup_ids (f co) \<subseteq> warmup_ids co \<union> ({rid_of R i} \<inter> rn_warm R))"

definition world_ok :: "run_input \<Rightarrow> real \<Rightarrow> world \<Rightarrow> bool" where
  "world_ok R t0 w \<longleftrightarrow>
     wo_spawned w \<le> length (rn_requests R) \<and> wo_last_spawn w \<le> wo_now w \<and>
     t0 + sum_list (take (wo_spawned w) (rn_delays R)) \<le> wo_last_spawn w \<and>
     (\<forall>i\<ge>wo_spawned w. wo_client w i = Waiting) \<and>
     (\<forall>i<length (rn_requests R). client_ok R t0 i (wo_now w) (wo_client w i)
        (map_of (co_records (wo_collectors w (rn_shard R i))) (rid_of R i))) \<and>
     (\<forall>s. dict_ok (co_records (wo_collectors w s)) \<and> run_start (wo_collectors w s) = Some t0 \<and>
        warmup_ids (wo_collectors w s) \<subseteq> rn_warm R \<and>
        (\<forall>k\<in>dom (map_of (co_records (wo_collectors w s))). \<exists>i<length (rn_requests R). rid_of R i = k \<and> rn_shard R i = s)) \<and>
     (\<forall>i<length (rn_requests R). wo_client w i \<noteq> Waiting \<longrightarrow> rid_of R i \<in> rn_warm R \<longrightarrow>
        rid_of R i \<in> warmup_ids (wo_collectors w (rn_shard R i)))"

text \<open>Each shape of effect touches one record.\<close>

lemma touches_id [simp]: "touches R i id" "touches R i (\<lambda>co. co)"
  by (simp_all add: touches_def)

lemma touches_update: "touches R i (update_record (rid_of R i) g)"
  by (auto simp: touches_def update_record_def split: option.splits)

lemma touches_completion [simp]: "touches R i (record_completion (rid_of R i) t k)"
  unfolding record_completion_def by (rule touches_update)

lemma touches_line [simp]: "touches R i (line_effect a (rid_of R i) t n)"
proof (cases a)
  case (Chunk has_text u)
  then have "line_effect a (rid_of R i) t n = record_chunk (rid_of R i) t has_text n"
    by (simp add: line_effect_def fun_eq_iff)
  moreover have "touches R i (record_chunk (rid_of R i) t has_text n)"
    using touches_update [of R i] touches_id [of R i]
    by (cases has_text; cases "n = 0")
      (simp_all add: record_chunk_def [abs_def] record_first_token_def record_token_def id_def)
  ultimately show ?thesis by simp
qed (simp_all add: line_effect_def [abs_def])

lemma touches_submit [simp]: "touches R i (submit_effect R i t)"
  by (auto simp: touches_def submit_effect_def record_request_start_def mark_warmup_def)

lemma map_of_completion:
  "map_of (co_records co) rid = Some r \<Longrightarrow>
     map_of (co_records (record_completion rid t k co)) rid = Some (r\<lparr>end_time := Some t, output_tokens := k\<rparr>)"
  by (simp add: record_completion_def update_record_def)

text \<open>Later clock readings and other tasks' steps keep a client's state.\<close>

lemma client_ok_later: "client_ok R t0 i now c ro \<Longrightarrow> now \<le> now' \<Longrightarrow> client_ok R t0 i now' c ro"
  by (auto simp: client_ok_def record_ok_def split: option.splits)

lemma on_shard_ok:
  assumes w: "world_ok R t0 w" and dist: "distinct (map req_id (rn_requests R))" and i: "i < wo_spawned w"
    and t: "wo_now w \<le> t" and f: "touches R i f"
    and new: "client_ok R t0 i t c (map_of (co_records (f (wo_collectors w (rn_shard R i)))) (rid_of R i))"
    and warm: "rid_of R i \<in> rn_warm R \<longrightarrow> rid_of R i \<in> warmup_ids (f (wo_collectors w (rn_shard R i)))"
  shows "world_ok R t0 (on_shard R i t f c w)"
proof -
  let ?w = "on_shard R i t f c w"
  have len: "i < length (rn_requests R)" using w i by (simp add: world_ok_def)
  have other: "rid_of R j \<noteq> rid_of R i" if "j \<noteq> i" "j < length (rn_requests R)" for j
    using dist that len by (auto simp: distinct_conv_nth)
  note f' = f [unfolded touches_def, rule_format]
  have rec: "map_of (co_records (wo_collectors ?w (rn_shard R j))) (rid_of R j) =
      map_of (co_records (wo_collectors w (rn_shard R j))) (rid_of R j)" if "j \<noteq> i" "j < length (rn_requests R)" for j
    using f' other [OF that] by (simp add: on_shard_def)
  have "client_ok R t0 j (wo_now ?w) (wo_client ?w j) (map_of (co_records (wo_collectors ?w (rn_shard R j))) (rid_of R j))"
    if "j < length (rn_requests R)" for j
  proof (cases "j = i")
    case True
    then show ?thesis using new by (simp add: on_shard_def)
  next
    case False
    then show ?thesis using w that t rec [OF False that] unfolding world_ok_def
      by (auto simp: on_shard_def intro: client_ok_later)
  qed
  moreover have "dict_ok (co_records (wo_collectors ?w s)) \<and> run_start (wo_collectors ?w s) = Some t0 \<and>
      warmup_ids (wo_collectors ?w s) \<subseteq> rn_warm R \<and>
      (\<forall>k\<in>dom (map_of (co_records (wo_collectors ?w s))). \<exists>i<length (rn_requests R). rid_of R i = k \<and> rn_shard R i = s)" for s
  proof (cases "s = rn_shard R i")
    case True
    have "\<exists>j<length (rn_requests R). rid_of R j = k \<and> rn_shard R j = s"
      if "k \<in> dom (map_of (co_records (f (wo_collectors w s))))" for k
    proof (cases "k = rid_of R i")
      case False
      then have "map_of (co_records (f (wo_collectors w s))) k = map_of (co_records (wo_collectors w s)) k" using f' by simp
      then have "k \<in> dom (map_of (co_records (wo_collectors w s)))" using that unfolding domIff by simp
      then show ?thesis using w unfolding world_ok_def by blast
    qed (use len True in auto)
    moreover have "dict_ok (co_records (wo_collectors w s))" "run_start (wo_collectors w s) = Some t0"
      "warmup_ids (wo_collectors w s) \<subseteq> rn_warm R" using w unfolding world_ok_def by blast+
    ultimately show ?thesis using f' [of "wo_collectors w s"] True by (auto simp: on_shard_def)
  next
    case False
    then show ?thesis using w by (simp add: on_shard_def world_ok_def)
  qed
  moreover have "rid_of R j \<in> warmup_ids (wo_collectors ?w (rn_shard R j))"
    if "j < length (rn_requests R)" "wo_client ?w j \<noteq> Waiting" "rid_of R j \<in> rn_warm R" for j
  proof (cases "j = i")
    case False
    then have "rid_of R j \<in> warmup_ids (wo_collectors w (rn_shard R j))"
      using that w by (simp add: on_shard_def world_ok_def)
    then show ?thesis using f' [of "wo_collectors w (rn_shard R i)"] by (auto simp: on_shard_def)
  qed (use that warm in \<open>simp add: on_shard_def\<close>)
  moreover have "wo_spawned ?w \<le> length (rn_requests R) \<and> wo_last_spawn ?w \<le> wo_now ?w \<and>
      t0 + sum_list (take (wo_spawned ?w) (rn_delays R)) \<le> wo_last_spawn ?w \<and> (\<forall>j\<ge>wo_spawned ?w. wo_client ?w j = Waiting)"
    using w t i by (auto simp: on_shard_def world_ok_def)
  ultimately show ?thesis unfolding world_ok_def by blast
qed

subsection \<open>Every step keeps the records right\<close>

lemma sorted_stamp: "sorted xs \<Longrightarrow> xs \<noteq> [] \<Longrightarrow> last xs \<le> (t :: real) \<Longrightarrow> sorted (xs @ [t])"
proof (induction xs)
  case (Cons x xs)
  then show ?case by (cases "xs = []") (auto intro: order_trans [of _ "last xs"])
qed simp

lemma stamps_nonempty [simp]: "stamps r \<noteq> []"
  by (simp add: stamps_def)

lemma stamps_token:
  assumes "end_time r = None" and "first_time r = None \<longrightarrow> token_times r = []" and "tokens_seen r = n"
  shows "stamps (after_tokens n [t] r) = stamps r @ [t] \<and> tokens_seen (after_tokens n [t] r) = Suc n \<and>
    end_time (after_tokens n [t] r) = None \<and> first_time (after_tokens n [t] r) \<noteq> None \<and>
    cr_adapter (after_tokens n [t] r) = cr_adapter r \<and> submit_time (after_tokens n [t] r) = submit_time r"
  using assms by (cases "first_time r") (auto simp: stamps_def tokens_seen_def after_tokens_def)

lemma stamps_end:
  "end_time r = None \<Longrightarrow> stamps (r\<lparr>end_time := Some t, output_tokens := k\<rparr>) = stamps r @ [t]"
  by (simp add: stamps_def split: option.splits)

lemma client_has_record:
  assumes "world_ok R t0 w" and "i < length (rn_requests R)" and "wo_client w i \<noteq> Waiting"
  obtains r where "map_of (co_records (wo_collectors w (rn_shard R i))) (rid_of R i) = Some r"
    "record_ok R t0 i (wo_now w) (wo_client w i) r"
proof -
  have "client_ok R t0 i (wo_now w) (wo_client w i) (map_of (co_records (wo_collectors w (rn_shard R i))) (rid_of R i))"
    using assms(1,2) unfolding world_ok_def by blast
  then show thesis using assms(3) that by (auto simp: client_ok_def split: option.splits)
qed

lemma due_by_spawn:
  assumes "\<forall>d\<in>set ds. (0 :: real) \<le> d" and "i < n"
  shows "sum_list (take (Suc i) ds) \<le> sum_list (take n ds)"
proof -
  have "take n ds = take (Suc i) ds @ take (n - Suc i) (drop (Suc i) ds)"
    using assms(2) by (metis Suc_leI le_add_diff_inverse take_add)
  moreover have "0 \<le> sum_list (take (n - Suc i) (drop (Suc i) ds))"
    using assms(1) by (intro sum_list_nonneg) (meson in_set_dropD in_set_takeD)
  ultimately show ?thesis by simp
qed

lemma line_record_ok:
  assumes "record_ok R t0 i now (Streaming (raw # ls) nu n) r" and "now \<le> t"
  shows "record_ok R t0 i t (line_client (rn_act R raw) ls nu n)
    (case rn_act R raw of Chunk has_text u \<Rightarrow> after_tokens n (if has_text then [t] else []) r | _ \<Rightarrow> r)"
proof (cases "rn_act R raw")
  case (Chunk has_text u)
  then show ?thesis using assms stamps_token [of r n t] sorted_stamp [of "stamps r" t]
    by (cases has_text) (auto simp: record_ok_def line_client_def count_chunk_def)
next
  case Stop
  then have "reply (rn_act R) (rn_lines R i) None 0 = Some (nu, n)" using assms(1) by (simp add: record_ok_def)
  then show ?thesis using assms Stop by (auto simp: record_ok_def line_client_def answered_def)
qed (use assms in \<open>auto simp: record_ok_def line_client_def\<close>)

lemma client_step_ok:
  assumes step: "client_step R w w'" and w: "world_ok R t0 w"
    and dist: "distinct (map req_id (rn_requests R))" and len: "length (rn_delays R) = length (rn_requests R)"
    and delays: "\<forall>d\<in>set (rn_delays R). 0 \<le> d"
  shows "world_ok R t0 w'"
proof -
  have started: "i < wo_spawned w" if "wo_client w i \<noteq> Waiting" for i
    using w that unfolding world_ok_def by (meson not_le)
  have inlen: "i < length (rn_requests R)" if "i < wo_spawned w" for i
    using w that by (simp add: world_ok_def)
  have warm: "rid_of R i \<in> rn_warm R \<longrightarrow> rid_of R i \<in> warmup_ids (f (wo_collectors w (rn_shard R i)))"
    if "wo_client w i \<noteq> Waiting" "touches R i f" for i f
    using w that(1) inlen [OF started [OF that(1)]] that(2) unfolding world_ok_def touches_def by blast
  note put = on_shard_ok [OF w dist]
  show ?thesis using step
  proof (cases rule: client_step.cases)
    case (cs_spawn t)
    have "take (Suc (wo_spawned w)) (rn_delays R) = take (wo_spawned w) (rn_delays R) @ [rn_delays R ! wo_spawned w]"
      using cs_spawn(2) len by (simp add: take_Suc_conv_app_nth)
    moreover have "client_ok R t0 i t (wo_client w i) (map_of (co_records (wo_collectors w (rn_shard R i))) (rid_of R i))"
      if "i < length (rn_requests R)" for i
      using w that cs_spawn(3) unfolding world_ok_def by (blast intro: client_ok_later)
    ultimately show ?thesis using w cs_spawn unfolding world_ok_def by auto
  next
    case (cs_submit i t)
    have "sum_list (take (Suc i) (rn_delays R)) \<le> sum_list (take (wo_spawned w) (rn_delays R))"
      by (rule due_by_spawn [OF delays cs_submit(2)])
    then have "due R t0 i \<le> t" using w cs_submit(4) by (simp add: due_def world_ok_def)
    then have "client_ok R t0 i t (Streaming (rn_lines R i) None 0)
        (map_of (co_records (submit_effect R i t (wo_collectors w (rn_shard R i)))) (rid_of R i))"
      by (simp add: client_ok_def record_ok_def submit_effect_def record_request_start_def stamps_def tokens_seen_def)
    then show ?thesis unfolding cs_submit(1)
      by (intro put cs_submit) (simp_all add: submit_effect_def record_request_start_def mark_warmup_def)
  next
    case (cs_line i raw ls nu n t)
    have alive: "wo_client w i \<noteq> Waiting" using cs_line(2) by simp
    obtain r where r: "map_of (co_records (wo_collectors w (rn_shard R i))) (rid_of R i) = Some r"
      "record_ok R t0 i (wo_now w) (Streaming (raw # ls) nu n) r"
      using client_has_record [OF w inlen [OF started [OF alive]] alive] cs_line(2) by metis
    have "map_of (co_records (line_effect (rn_act R raw) (rid_of R i) t n (wo_collectors w (rn_shard R i)))) (rid_of R i) =
        Some (case rn_act R raw of Chunk has_text u \<Rightarrow> after_tokens n (if has_text then [t] else []) r | _ \<Rightarrow> r)"
    proof (cases "rn_act R raw")
      case (Chunk has_text u)
      then show ?thesis using record_chunk_spec [OF r(1), of t has_text n] by (auto simp: line_effect_def)
    qed (simp_all add: line_effect_def r(1))
    then show ?thesis unfolding cs_line(1)
      using line_record_ok [OF r(2) cs_line(3)]
      by (intro put started alive warm cs_line) (simp_all add: client_ok_def)
  next
    case (cs_eof i nu n t)
    have alive: "wo_client w i \<noteq> Waiting" using cs_eof(2) by simp
    obtain r where r: "map_of (co_records (wo_collectors w (rn_shard R i))) (rid_of R i) = Some r"
      "record_ok R t0 i (wo_now w) (Streaming [] nu n) r"
      using client_has_record [OF w inlen [OF started [OF alive]] alive] cs_eof(2) by metis
    then have "reply (rn_act R) (rn_lines R i) None 0 = Some (nu, n)" by (simp add: record_ok_def)
    then have "record_ok R t0 i t (Closing (token_count nu n)) r"
      using r(2) cs_eof(3) by (auto simp: record_ok_def answered_def)
    then show ?thesis unfolding cs_eof(1) using cs_eof(3) r(1)
      by (intro put started alive warm cs_eof) (simp_all add: client_ok_def)
  next
    case (cs_error i ls nu n k t)
    have alive: "wo_client w i \<noteq> Waiting" using cs_error(2) by auto
    obtain r where r: "map_of (co_records (wo_collectors w (rn_shard R i))) (rid_of R i) = Some r"
      "record_ok R t0 i (wo_now w) (wo_client w i) r"
      using client_has_record [OF w inlen [OF started [OF alive]] alive] by metis
    then show ?thesis unfolding cs_error(1) using cs_error(2,3)
      by (intro put started alive warm cs_error) (auto simp: client_ok_def record_ok_def)
  next
    case (cs_complete i k t)
    have alive: "wo_client w i \<noteq> Waiting" using cs_complete(2) by simp
    obtain r where r: "map_of (co_records (wo_collectors w (rn_shard R i))) (rid_of R i) = Some r"
      "record_ok R t0 i (wo_now w) (Closing k) r"
      using client_has_record [OF w inlen [OF started [OF alive]] alive] cs_complete(2) by metis
    have "record_ok R t0 i t Ended (r\<lparr>end_time := Some t, output_tokens := k\<rparr>)"
      using r(2) cs_complete(3) stamps_end [where r = r and t = t and k = k] sorted_stamp [of "stamps r" t]
      by (auto simp: record_ok_def answered_def tokens_seen_def)
    then show ?thesis unfolding cs_complete(1) using r(1)
      by (intro put started alive warm cs_complete) (simp_all add: client_ok_def map_of_completion)
  next
    case (cs_fail i t)
    have alive: "wo_client w i \<noteq> Waiting" using cs_fail(2) by simp
    obtain r where r: "map_of (co_records (wo_collectors w (rn_shard R i))) (rid_of R i) = Some r"
      "record_ok R t0 i (wo_now w) Failing r"
      using client_has_record [OF w inlen [OF started [OF alive]] alive] cs_fail(2) by metis
    have "record_ok R t0 i t Ended (r\<lparr>end_time := Some t, output_tokens := 0\<rparr>)"
      using r(2) cs_fail(3) stamps_end [where r = r and t = t and k = 0] sorted_stamp [of "stamps r" t]
      by (auto simp: record_ok_def)
    then show ?thesis unfolding cs_fail(1) using r(1)
      by (intro put started alive warm cs_fail) (simp_all add: client_ok_def map_of_completion)
  qed
qed

lemma world_start_ok: "world_ok R t0 (world_start t0)"
  by (simp add: world_ok_def world_start_def client_ok_def collector_init_def mark_run_start_def)

lemma run_ok:
  assumes "client_run R (world_start t0) n w" and "distinct (map req_id (rn_requests R))"
    and "length (rn_delays R) = length (rn_requests R)" and "\<forall>d\<in>set (rn_delays R). 0 \<le> d"
  shows "world_ok R t0 w"
  using assms by (induction "world_start t0" n w rule: client_run.induct) (auto intro: world_start_ok client_step_ok)

subsection \<open>A run ends\<close>

fun client_weight :: "nat \<Rightarrow> client \<Rightarrow> nat" where
  "client_weight len Waiting = len + 4"
| "client_weight len (Streaming ls nu n) = length ls + 3"
| "client_weight len (Closing k) = 2"
| "client_weight len Failing = 1"
| "client_weight len Ended = 0"

definition world_weight :: "run_input \<Rightarrow> world \<Rightarrow> nat" where
  "world_weight R w = (length (rn_requests R) - wo_spawned w) +
     (\<Sum>i<length (rn_requests R). client_weight (length (rn_lines R i)) (wo_client w i))"

definition spawned_only :: "run_input \<Rightarrow> world \<Rightarrow> bool" where
  "spawned_only R w \<longleftrightarrow> wo_spawned w \<le> length (rn_requests R) \<and> (\<forall>i\<ge>wo_spawned w. wo_client w i = Waiting)"

lemma weight_on_shard:
  assumes "i < length (rn_requests R)" and "client_weight (length (rn_lines R i)) c < client_weight (length (rn_lines R i)) (wo_client w i)"
  shows "world_weight R (on_shard R i t f c w) < world_weight R w"
proof -
  have "(\<Sum>j<length (rn_requests R). client_weight (length (rn_lines R j)) (((wo_client w)(i := c)) j)) <
      (\<Sum>j<length (rn_requests R). client_weight (length (rn_lines R j)) (wo_client w j))"
    using assms by (intro sum_strict_mono_ex1) auto
  then show ?thesis by (simp add: world_weight_def on_shard_def del: fun_upd_apply)
qed

lemma client_step_weight:
  assumes "client_step R w w'" and "spawned_only R w"
  shows "spawned_only R w' \<and> world_weight R w' < world_weight R w"
proof -
  have started: "i < wo_spawned w \<and> i < length (rn_requests R)" if "wo_client w i \<noteq> Waiting" for i
    using assms(2) that unfolding spawned_only_def by (meson leD le_less_trans not_le)
  have later: "spawned_only R (on_shard R i t f c w)" if "i < wo_spawned w" for i t f c
    using assms(2) that by (auto simp: spawned_only_def on_shard_def)
  show ?thesis using assms(1)
  proof (cases rule: client_step.cases)
    case (cs_spawn t)
    then show ?thesis using assms(2) by (auto simp: spawned_only_def world_weight_def)
  next
    case (cs_submit i t)
    then show ?thesis using assms(2) later [of i]
      by (auto simp: spawned_only_def intro!: weight_on_shard)
  next
    case (cs_line i raw ls nu n t)
    then show ?thesis using started [of i] later [of i]
      by (auto simp: line_client_def split: line_action.splits intro!: weight_on_shard)
  qed (use started later in \<open>force intro!: weight_on_shard\<close>)+
qed

lemma client_run_weight:
  "client_run R w n w' \<Longrightarrow> spawned_only R w \<Longrightarrow> spawned_only R w' \<and> n + world_weight R w' \<le> world_weight R w"
proof (induction rule: client_run.induct)
  case (cr_step w n w' w'')
  then show ?case using client_step_weight [of R w' w''] by auto
qed simp

lemma client_not_stuck:
  assumes "spawned_only R w" and "\<not> run_over R w"
  shows "\<exists>w'. client_step R w w'"
proof (cases "wo_spawned w < length (rn_requests R)")
  case True
  then show ?thesis
    using cs_spawn [OF True, of "max (wo_now w) (wo_last_spawn w + rn_delays R ! wo_spawned w)"] by auto
next
  case False
  then obtain i where "i < wo_spawned w" "wo_client w i \<noteq> Ended"
    using assms by (auto simp: run_over_def spawned_only_def)
  then show ?thesis
  proof (cases "wo_client w i")
    case (Streaming ls nu n)
    then show ?thesis using cs_line [of w i _ _ nu n "wo_now w" R] cs_eof [of w i nu n "wo_now w" R] by (cases ls) blast+
  qed (use cs_submit [of i w "wo_now w" R] cs_complete [of w i _ "wo_now w" R] cs_fail [of w i "wo_now w" R] in blast)+
qed

text \<open>A run of the load generator comes to an end. Whatever the requests, delays, shards and responses, and
  however tasks, arrivals and failures interleave, a run takes at most one step per request for spawning
  it and four plus the number of lines of its response for its task, and a run in which some request
  is not finished can always go on.\<close>

theorem harness_run_ends:
  assumes "client_run R (world_start t0) n w"
  shows "n \<le> length (rn_requests R) + (\<Sum>i<length (rn_requests R). length (rn_lines R i) + 4) \<and>
    (run_over R w \<or> (\<exists>w'. client_step R w w'))"
proof -
  have start: "spawned_only R (world_start t0)" by (simp add: spawned_only_def world_start_def)
  have "world_weight R (world_start t0) = length (rn_requests R) + (\<Sum>i<length (rn_requests R). length (rn_lines R i) + 4)"
    by (simp add: world_weight_def world_start_def)
  with client_run_weight [OF assms start] client_not_stuck [of R w] show ?thesis by auto
qed

lemma run_completes: "\<exists>n w. client_run R (world_start t0) n w \<and> run_over R w"
proof -
  have "\<exists>m w'. client_run R (world_start t0) m w' \<and> run_over R w'" if "client_run R (world_start t0) n w" for n w
    using that
  proof (induction "world_weight R w" arbitrary: n w rule: less_induct)
    case less
    have "spawned_only R w" using client_run_weight [OF less.prems] by (simp add: spawned_only_def world_start_def)
    then show ?case using less client_not_stuck client_step_weight cr_step by metis
  qed
  from this [OF cr_none] show ?thesis .
qed

subsection \<open>What a run measures\<close>

text \<open>A finished request: its record, with time stamps in order between its due time and \<open>t1\<close>, and its token count.\<close>

definition finished_record :: "run_input \<Rightarrow> real \<Rightarrow> real \<Rightarrow> nat \<Rightarrow> request_rec \<Rightarrow> bool" where
  "finished_record R t0 t1 i r \<longleftrightarrow>
     cr_adapter r = load_request.adapter_id (rn_requests R ! i) \<and> due R t0 i \<le> submit_time r \<and>
     sorted (stamps r) \<and> last (stamps r) \<le> t1 \<and> end_time r \<noteq> None \<and> (first_time r = None \<longrightarrow> token_times r = []) \<and>
     (output_tokens r = 0 \<or> answered R i r (output_tokens r))"

lemma over_record:
  assumes "world_ok R t0 w" and "run_over R w" and "wo_now w \<le> t1" and "i < length (rn_requests R)"
  shows "\<exists>r. map_of (co_records (wo_collectors w (rn_shard R i))) (rid_of R i) = Some r \<and> finished_record R t0 t1 i r"
proof -
  have e: "wo_client w i = Ended" using assms(2,4) by (simp add: run_over_def)
  obtain r where r: "map_of (co_records (wo_collectors w (rn_shard R i))) (rid_of R i) = Some r"
    "record_ok R t0 i (wo_now w) (wo_client w i) r"
    using client_has_record [OF assms(1,4)] e by (metis client.distinct(7))
  moreover have "finished_record R t0 t1 i r"
    using r(2) assms(3) unfolding e by (auto simp: record_ok_def finished_record_def)
  ultimately show ?thesis by blast
qed

lemma over_measured:
  assumes w: "world_ok R t0 w" "run_over R w" "wo_now w \<le> t1" and dist: "distinct (map req_id (rn_requests R))"
  shows "\<forall>r\<in>set (measured (wo_collectors w s)). \<exists>i<length (rn_requests R). rn_shard R i = s \<and> finished_record R t0 t1 i r"
    and "length (measured (wo_collectors w s)) = card {i. i < length (rn_requests R) \<and> rn_shard R i = s \<and> rid_of R i \<notin> rn_warm R}"
proof -
  let ?co = "wo_collectors w s" and ?N = "length (rn_requests R)"
  define P where "P = (\<lambda>(rid, r :: request_rec). rid \<notin> warmup_ids ?co \<and> end_time r \<noteq> None)"
  have ok: "dict_ok (co_records ?co)" and keys: "\<forall>k\<in>dom (map_of (co_records ?co)). \<exists>i<?N. rid_of R i = k \<and> rn_shard R i = s"
    and sub: "warmup_ids ?co \<subseteq> rn_warm R"
    using w(1) unfolding world_ok_def by blast+
  have m: "measured ?co = map snd (filter P (co_records ?co))" by (simp add: measured_def P_def)
  have ended: "wo_client w i \<noteq> Waiting" if "i < ?N" for i using w(2) that by (simp add: run_over_def)
  have warm: "rid_of R i \<in> warmup_ids ?co \<longleftrightarrow> rid_of R i \<in> rn_warm R" if "i < ?N" "rn_shard R i = s" for i
    using w(1) ended [OF that(1)] that sub unfolding world_ok_def by blast
  have entry: "\<exists>i<?N. rid_of R i = k \<and> rn_shard R i = s \<and> finished_record R t0 t1 i r" if "(k, r) \<in> set (co_records ?co)" for k r
  proof -
    have k: "map_of (co_records ?co) k = Some r" using that ok by (simp add: map_of_eq_Some_iff)
    then obtain i where i: "i < ?N" "rid_of R i = k" "rn_shard R i = s" using keys by (auto simp: dom_def)
    then show ?thesis using over_record [OF w i(1)] k by auto
  qed
  show "\<forall>r\<in>set (measured ?co). \<exists>i<?N. rn_shard R i = s \<and> finished_record R t0 t1 i r"
    using entry by (fastforce simp: measured_def)
  have "fst ` set (filter P (co_records ?co)) = rid_of R ` {i. i < ?N \<and> rn_shard R i = s \<and> rid_of R i \<notin> rn_warm R}"
  proof (intro set_eqI iffI)
    fix k assume "k \<in> fst ` set (filter P (co_records ?co))"
    then obtain r where r: "(k, r) \<in> set (co_records ?co)" "k \<notin> warmup_ids ?co" by (auto simp: P_def)
    then show "k \<in> rid_of R ` {i. i < ?N \<and> rn_shard R i = s \<and> rid_of R i \<notin> rn_warm R}"
      using entry [OF r(1)] warm by force
  next
    fix k assume "k \<in> rid_of R ` {i. i < ?N \<and> rn_shard R i = s \<and> rid_of R i \<notin> rn_warm R}"
    then obtain i where i: "k = rid_of R i" "i < ?N" "rn_shard R i = s" "rid_of R i \<notin> rn_warm R" by auto
    then obtain r where "map_of (co_records ?co) k = Some r" "end_time r \<noteq> None"
      using over_record [OF w i(2)] by (auto simp: finished_record_def)
    then have "(k, r) \<in> set (filter P (co_records ?co))" using i warm ok by (auto simp: P_def map_of_eq_Some_iff)
    then show "k \<in> fst ` set (filter P (co_records ?co))" by force
  qed
  moreover have "distinct (map fst (filter P (co_records ?co)))" using ok by (rule distinct_map_filter)
  then have "length (filter P (co_records ?co)) = card (fst ` set (filter P (co_records ?co)))"
    by (metis distinct_card length_map set_map)
  moreover have "inj_on (rid_of R) {i. i < ?N \<and> rn_shard R i = s \<and> rid_of R i \<notin> rn_warm R}"
    using dist by (auto simp: inj_on_def distinct_conv_nth)
  ultimately show "length (measured ?co) = card {i. i < ?N \<and> rn_shard R i = s \<and> rid_of R i \<notin> rn_warm R}"
    using m by (simp add: card_image)
qed

text \<open>No latency of a summary is negative.\<close>

lemma sorted_gaps: "sorted xs \<Longrightarrow> x \<in> set (gaps_ms xs) \<Longrightarrow> 0 \<le> x"
  using sorted_nth_mono [of xs] by (auto simp: set_gaps)

lemma ordered_latencies:
  assumes "\<forall>r\<in>set rs. sorted (stamps r) \<and> (first_time r = None \<longrightarrow> token_times r = [])"
  shows "\<forall>x\<in>set (ttfts_loop rs) \<union> set (fst (tbts_loop rs)). 0 \<le> x"
  using assms
proof (induction rs)
  case (Cons r rs)
  have s: "sorted (stamps r)" "first_time r = None \<longrightarrow> token_times r = []" using Cons.prems by auto
  then have "sorted (times_of r)" by (auto simp: times_of_def stamps_def sorted_append truthy_def split: option.splits)
  moreover have "submit_time r \<le> f" if "first_time r = Some f" for f using s that by (simp add: stamps_def)
  ultimately show ?case using Cons sorted_gaps [of "times_of r"]
    by (auto simp: Let_def case_prod_unfold split: option.splits)
qed simp

lemma percentile_nonneg:
  assumes "percentile data p = Some x" and "\<forall>d\<in>set data. 0 \<le> d" and "0 \<le> p" and "p \<le> 100"
  shows "0 \<le> x"
proof -
  have ne: "data \<noteq> []" using assms(1) by (auto simp: percentile_def)
  then have "Min (set data) \<le> x" using percentile_ends [OF ne] percentile_mono [of 0 p data _ x] assms by auto
  moreover have "0 \<le> Min (set data)" using assms(2) ne by simp
  ultimately show ?thesis by simp
qed

lemma measured_run_end [simp]: "measured (mark_run_end t co) = measured co"
  by (simp add: measured_def mark_run_end_def)

lemma run_end_records [simp]: "co_records (mark_run_end t co) = co_records co"
  by (simp add: mark_run_end_def)

text \<open>Everything a finished run says about one shard.\<close>

lemma run_measures:
  assumes "world_ok R t0 w" and "run_over R w" and "wo_now w \<le> t1" and "distinct (map req_id (rn_requests R))"
    and "s = compute now (mark_run_end t1 (wo_collectors w sh))"
  shows "n_completed s = card {i. i < length (rn_requests R) \<and> rn_shard R i = sh \<and> rid_of R i \<notin> rn_warm R}"
    and "\<forall>q\<in>{ttft_p50 s, ttft_p99 s, tbt_p50 s, tbt_p99 s}. \<forall>x. q = Some x \<longrightarrow> 0 \<le> x"
    and "n_completed s \<noteq> 0 \<Longrightarrow> t1 \<noteq> 0 \<Longrightarrow> wall_time s = t1 - t0"
proof -
  note m = over_measured [OF assms(1-4), of sh]
  define rs where "rs = measured (wo_collectors w sh)"
  have lat: "\<forall>x\<in>set (ttfts_loop rs) \<union> set (fst (tbts_loop rs)). 0 \<le> x"
    using m(1) by (intro ordered_latencies) (auto simp: rs_def finished_record_def)
  show n: "n_completed s = card {i. i < length (rn_requests R) \<and> rn_shard R i = sh \<and> rid_of R i \<notin> rn_warm R}"
  proof -
    have "n_completed s = length (measured (wo_collectors w sh))"
      by (simp add: assms(5) compute_def Let_def case_prod_unfold)
    then show ?thesis using m(2) by (simp only:)
  qed
  have "percentile data p = Some x \<Longrightarrow> 0 \<le> x"
    if "data \<in> {ttfts_loop rs, fst (tbts_loop rs)}" "p \<in> {50, 99}" for data p x
    using percentile_nonneg [of data p x] lat that by auto
  then show "\<forall>q\<in>{ttft_p50 s, ttft_p99 s, tbt_p50 s, tbt_p99 s}. \<forall>x. q = Some x \<longrightarrow> 0 \<le> x"
    by (auto simp: assms(5) compute_def Let_def case_prod_unfold rs_def)
  have "run_start (wo_collectors w sh) = Some t0" using assms(1) unfolding world_ok_def by blast
  then show "n_completed s \<noteq> 0 \<Longrightarrow> t1 \<noteq> 0 \<Longrightarrow> wall_time s = t1 - t0"
    by (auto simp: assms(5) compute_def Let_def case_prod_unfold mark_run_end_def value_or_def truthy_def measured_def)
qed

lemma nth_in_take: "distinct xs \<Longrightarrow> i < length xs \<Longrightarrow> xs ! i \<in> set (take n xs) \<longleftrightarrow> i < n"
  by (auto simp: in_set_conv_nth nth_eq_iff_index_eq intro: exI [of _ i])

lemma bench_delays_ok: "length (bench_delays reqs) = length reqs" "\<forall>d\<in>set (bench_delays reqs). 0 \<le> d"
  by (auto simp: bench_delays_def)

text \<open>C28: A repetition measures exactly its trace. For any requests with distinct ids, any interleaving of arrivals
  and streams, any responses and any failures, when a repetition that ran from \<open>t0\<close> to \<open>t1\<close> returns, every
  request has one record: with its own adapter, submitted no earlier than its arrival time in the
  trace, with its time stamps in order, and with either no tokens counted (it failed) or exactly the token
  chunks and the count its own response carries, whatever the other streams did meanwhile. The summary counts all
  requests but the warm-up, reports the wall time, which covers the trace, and has no negative latency.\<close>

theorem rep_measures_its_trace:
  assumes "distinct (map req_id reqs)" and "0 < t0" and "run_one_rep act reqs warmup resp lines t0 t1 co metrics"
  shows "(\<forall>i<length reqs. \<exists>r. map_of (co_records co) (req_id (reqs ! i)) = Some r \<and>
      cr_adapter r = load_request.adapter_id (reqs ! i) \<and>
      t0 + sum_list (map (\<lambda>r. max 0 (inter_arrival_s r)) (take (Suc i) reqs)) \<le> submit_time r \<and>
      sorted (stamps r) \<and> last (stamps r) \<le> t1 \<and>
      (output_tokens r = 0 \<or> (\<exists>nu n. reply act (resp i) None 0 = Some (nu, n) \<and>
         output_tokens r = token_count nu n \<and> tokens_seen r = n))) \<and>
    n_completed (compute t1 co) = length reqs - warmup \<and>
    (warmup < length reqs \<longrightarrow> wall_time (compute t1 co) = t1 - t0 \<and>
       sum_list (map (\<lambda>r. max 0 (inter_arrival_s r)) reqs) \<le> t1 - t0) \<and>
    (\<forall>q\<in>{ttft_p50 (compute t1 co), ttft_p99 (compute t1 co), tbt_p50 (compute t1 co), tbt_p99 (compute t1 co)}.
       \<forall>x. q = Some x \<longrightarrow> 0 \<le> x)"
proof -
  let ?R = "bench_input act reqs warmup resp"
  have R: "rn_requests ?R = reqs" "rn_delays ?R = bench_delays reqs" "rn_shard ?R i = 0" "rn_act ?R = act"
    "rn_lines ?R = resp" "rn_warm ?R = req_id ` set (take warmup reqs)" for i
    by (simp_all add: bench_input_def)
  obtain n w where w: "client_run ?R (world_start t0) n w" "run_over ?R w" "wo_now w \<le> t1"
    "co = mark_run_end t1 (wo_collectors w 0)" using assms(3) by (auto simp: run_one_rep_def)
  have ok: "world_ok ?R t0 w" using run_ok [OF w(1)] assms(1) bench_delays_ok by (simp add: R)
  have dl: "map (\<lambda>r. max 0 (inter_arrival_s r)) xs = bench_delays xs" for xs
    by (auto simp: bench_delays_def)
  have each: "\<exists>r. map_of (co_records co) (req_id (reqs ! i)) = Some r \<and> finished_record ?R t0 t1 i r" if "i < length reqs" for i
    using over_record [OF ok w(2,3), of i] that w(4) by (simp add: R)
  note m = run_measures [OF ok w(2,3) _ refl, of t1 0, folded w(4)]
  have late: "t0 + sum_list (bench_delays reqs) \<le> t1"
    using ok w(2,3) bench_delays_ok(1) [of reqs] by (simp add: world_ok_def run_over_def R)
  have "{i. i < length reqs \<and> req_id (reqs ! i) \<notin> req_id ` set (take warmup reqs)} = {warmup..<length reqs}"
  proof -
    have "req_id (reqs ! i) \<in> req_id ` set (take warmup reqs) \<longleftrightarrow> i < warmup" if "i < length reqs" for i
      using nth_in_take [OF assms(1), of i warmup] that by (simp add: take_map)
    then have "{i. i < length reqs \<and> req_id (reqs ! i) \<notin> req_id ` set (take warmup reqs)} = {i. i < length reqs \<and> \<not> i < warmup}"
      by (intro Collect_cong conj_cong refl) (simp only:)
    also have "\<dots> = {warmup..<length reqs}" by auto
    finally show ?thesis .
  qed
  then have n: "n_completed (compute t1 co) = length reqs - warmup" using m(1) assms(1) by (simp add: R)
  have bd: "bench_delays (take k reqs) = take k (bench_delays reqs)" for k by (simp add: bench_delays_def take_map)
  have "\<exists>r. map_of (co_records co) (req_id (reqs ! i)) = Some r \<and>
      cr_adapter r = load_request.adapter_id (reqs ! i) \<and> t0 + sum_list (bench_delays (take (Suc i) reqs)) \<le> submit_time r \<and>
      sorted (stamps r) \<and> last (stamps r) \<le> t1 \<and>
      (output_tokens r = 0 \<or> (\<exists>nu n. reply act (resp i) None 0 = Some (nu, n) \<and>
         output_tokens r = token_count nu n \<and> tokens_seen r = n))" if "i < length reqs" for i
    using each [OF that] unfolding finished_record_def due_def answered_def R bd by blast
  moreover have "t1 \<noteq> 0" using late assms(2) bench_delays_ok(2) [of reqs] sum_list_nonneg [of "bench_delays reqs"] by auto
  then have "wall_time (compute t1 co) = t1 - t0" if "warmup < length reqs" using m(3) assms(1) n that by (simp add: R)
  ultimately show ?thesis unfolding dl using n m(2) assms(1) late by (simp add: R)
qed

definition demo_trace :: "load_request list" where
  "demo_trace = [\<lparr>req_id = ''r0'', adapter_id = 0, prompt = ''p'', inter_arrival_s = 1, req_max_tokens = 8\<rparr>,
     \<lparr>req_id = ''r1'', adapter_id = 1, prompt = ''q'', inter_arrival_s = 2, req_max_tokens = 8\<rparr>]"

theorem harness_run_ends_witness:
  "\<exists>n w. client_run (bench_input (openai_line (\<lambda>d. None)) demo_trace 1 (\<lambda>i. [])) (world_start 1) n w \<and> n \<le> 10"
proof -
  let ?R = "bench_input (openai_line (\<lambda>d. None)) demo_trace 1 (\<lambda>i. [])"
  obtain n w where w: "client_run ?R (world_start 1) n w" using run_completes by blast
  moreover have "n \<le> 10" using harness_run_ends [OF w] by (simp add: bench_input_def demo_trace_def lessThan_Suc)
  ultimately show ?thesis by blast
qed

theorem rep_measures_its_trace_witness:
  "\<exists>t1 co metrics. run_one_rep (openai_line (\<lambda>d. None)) demo_trace 1 (\<lambda>i. []) None 1 t1 co metrics \<and>
     n_completed (compute t1 co) = 1 \<and> 3 \<le> wall_time (compute t1 co)"
proof -
  let ?R = "bench_input (openai_line (\<lambda>d. None)) demo_trace 1 (\<lambda>i. [])"
  obtain n w where w: "client_run ?R (world_start 1) n w" "run_over ?R w" using run_completes by blast
  define t1 where "t1 = wo_now w"
  define co where "co = mark_run_end t1 (wo_collectors w 0)"
  have r: "run_one_rep (openai_line (\<lambda>d. None)) demo_trace 1 (\<lambda>i. []) None 1 t1 co
      (map_sum id (rep_metrics (compute t1 co)) (parse_as_metrics_jsonl None))"
    using w by (auto simp: run_one_rep_def t1_def co_def)
  have "distinct (map req_id demo_trace)" "length demo_trace = 2"
    "sum_list (map (\<lambda>r. max 0 (inter_arrival_s r)) demo_trace) = 3" by (simp_all add: demo_trace_def)
  then have "n_completed (compute t1 co) = 1" "3 \<le> wall_time (compute t1 co)"
    using rep_measures_its_trace [OF _ _ r] by simp_all
  then show ?thesis using r by blast
qed

end
