(* ===== verification/ApisBench.thy ===== *)
theory ApisBench
  imports Harness
begin

text \<open>
  \<^verbatim>\<open>benchmarks/ablations/bench_apis.py\<close>: the two-server runner. The router of theory \<open>Router\<close> (or strict
  alternation) sends each request of a trace to one of two servers, whose collectors are summarised and
  combined. The clients are those of theory \<open>Harness\<close>, with one collector per server.
\<close>

subsection \<open>The runner\<close>

text \<open>\<open>-(-num_adapters // 2)\<close> under adapter affinity.\<close>

definition shard_loras :: "bool \<Rightarrow> int \<Rightarrow> int" where
  "shard_loras affinity num_adapters = (if affinity then - ((- num_adapters) div 2) else num_adapters)"

definition apis_max_loras :: "bool \<Rightarrow> int \<Rightarrow> int" where
  "apis_max_loras affinity num_adapters = max 16 (shard_loras affinity num_adapters)"

text \<open>\<open>APISBenchmarkRunner.__init__\<close>: the two servers, one per device.\<close>

definition apis_server ::
  "environ \<Rightarrow> string \<Rightarrow> string list \<Rightarrow> bool \<Rightarrow> int \<Rightarrow> int option \<Rightarrow> int option \<Rightarrow> string \<Rightarrow> int \<Rightarrow> int \<Rightarrow> py_error + backend" where
  "apis_server os mdl dirs affinity rnk tmax thr md prt gpu =
     backend_init os mdl dirs prt 1 rnk (apis_max_loras affinity (int (length dirs))) md tmax thr None (Some gpu)"

definition apis_runner ::
  "environ \<Rightarrow> string \<Rightarrow> string list \<Rightarrow> bool \<Rightarrow> int \<Rightarrow> int option \<Rightarrow> int option \<Rightarrow> string \<Rightarrow> int \<Rightarrow> int \<Rightarrow>
     py_error + backend \<times> backend" where
  "apis_runner os mdl dirs affinity rnk tmax thr md port_a port_b =
     (case apis_server os mdl dirs affinity rnk tmax thr md port_a 0 of
        Inl e \<Rightarrow> Inl e
      | Inr a \<Rightarrow> map_sum id (\<lambda>b. (a, b)) (apis_server os mdl dirs affinity rnk tmax thr md port_b 1))"

subsection \<open>Routing a trace\<close>

fun send_times :: "real \<Rightarrow> load_request list \<Rightarrow> real list" where
  "send_times t [] = []"
| "send_times t (r # rs) = (t + inter_arrival_s r) # send_times (t + inter_arrival_s r) rs"

fun count_adapters :: "load_request list \<Rightarrow> (int, nat) dict \<Rightarrow> (int, nat) dict" where
  "count_adapters [] counts = counts"
| "count_adapters (r # rs) counts =
     count_adapters rs (dict_set (load_request.adapter_id r) (dict_get counts (load_request.adapter_id r) 0 + 1) counts)"

fun route_requests :: "(int \<times> real) list \<Rightarrow> router \<Rightarrow> int option list \<times> router" where
  "route_requests [] r = ([], r)"
| "route_requests ((a, t) # reqs) r =
     (let (r1, s) = route a t r; (ss, r2) = route_requests reqs r1 in (s # ss, r2))"

definition timed :: "load_request list \<Rightarrow> (int \<times> real) list" where
  "timed reqs = zip (map load_request.adapter_id reqs) (send_times 0 reqs)"

definition trace_router :: "load_request list \<Rightarrow> py_error + router" where
  "trace_router reqs =
     (let span = max (last (send_times 0 reqs)) (1 / 10 ^ 9)
      in if reqs = [] then Inl IndexError
         else router_init 2 30 (1 / 10) (map (\<lambda>(a, c). (a, real c / span)) (count_adapters reqs [])))"

definition apis_shards :: "bool \<Rightarrow> load_request list \<Rightarrow> py_error + int option list" where
  "apis_shards affinity reqs =
     (if affinity then map_sum id (\<lambda>r. fst (route_requests (timed reqs) r)) (trace_router reqs)
      else Inr (map (\<lambda>i. Some (int (i mod 2))) [0..<length reqs]))"

subsection \<open>The run\<close>

text \<open>\<open>_send_async\<close> sleeps from one send time to the next.\<close>

fun spawn_delays :: "real \<Rightarrow> real list \<Rightarrow> real list" where
  "spawn_delays last_t [] = []"
| "spawn_delays last_t (s # ss) = (if s > last_t then (s - last_t) # spawn_delays s ss else 0 # spawn_delays last_t ss)"

definition apis_input :: "(string \<Rightarrow> line_action) \<Rightarrow> load_request list \<Rightarrow> int option list \<Rightarrow> nat \<Rightarrow> (nat \<Rightarrow> string list) \<Rightarrow> run_input" where
  "apis_input act reqs shards warmup resp =
     \<lparr>rn_requests = reqs, rn_delays = spawn_delays 0 (send_times 0 reqs), rn_shard = (\<lambda>i. nat (the (shards ! i))),
      rn_warm = req_id ` set (take warmup reqs), rn_lines = resp, rn_act = act\<rparr>"

text \<open>Python's \<open>max(a, b)\<close> and \<open>nan\<close>: a comparison with \<open>nan\<close> is false, so the first argument stays.\<close>

definition nan_max :: "real option \<Rightarrow> real option \<Rightarrow> real option" where
  "nan_max a b = (case (a, b) of (Some x, Some y) \<Rightarrow> Some (if y > x then y else x) | _ \<Rightarrow> a)"

record combined =
  cb_throughput :: real
  cb_ttft_p50 :: "real option"
  cb_ttft_p99 :: "real option"
  cb_slo :: real
  cb_completed :: nat
  cb_share0 :: real

definition combine :: "summary \<Rightarrow> summary \<Rightarrow> int option list \<Rightarrow> nat \<Rightarrow> combined" where
  "combine sa sb shards warmup =
     (let measured_shards = drop warmup shards
      in \<lparr>cb_throughput = throughput_toks sa + throughput_toks sb,
          cb_ttft_p50 = nan_max (ttft_p50 sa) (ttft_p50 sb), cb_ttft_p99 = nan_max (ttft_p99 sa) (ttft_p99 sb),
          cb_slo = min (slo_attainment sa) (slo_attainment sb), cb_completed = n_completed sa + n_completed sb,
          cb_share0 = real (count_list measured_shards (Some 0)) / real (max (length measured_shards) 1)\<rparr>)"

text \<open>\<open>side\<close>: a server's summary and what its scheduler logged; \<open>file\<close> is the log, if there is one.\<close>

definition apis_side :: "summary \<Rightarrow> log_line list option \<Rightarrow> py_error + summary \<times> (string, real) dict" where
  "apis_side sm file = map_sum id (\<lambda>d. (sm, d)) (parse_as_metrics_jsonl file)"

text \<open>\<open>run\<close> from \<open>t0\<close> to \<open>t1\<close>: what it returns for the two sides and combined; \<open>logs\<close> are the servers' logs.\<close>

definition apis_run ::
  "(string \<Rightarrow> line_action) \<Rightarrow> bool \<Rightarrow> load_request list \<Rightarrow> nat \<Rightarrow> (nat \<Rightarrow> string list) \<Rightarrow> (nat \<Rightarrow> log_line list option) \<Rightarrow>
     real \<Rightarrow> real \<Rightarrow> (nat \<Rightarrow> collector) \<Rightarrow>
     py_error + (summary \<times> (string, real) dict) \<times> (summary \<times> (string, real) dict) \<times> combined \<Rightarrow> bool" where
  "apis_run act affinity reqs warmup resp logs t0 t1 colls result \<longleftrightarrow>
     (case apis_shards affinity reqs of
        Inl e \<Rightarrow> result = Inl e
      | Inr shards \<Rightarrow>
          (\<exists>n w. client_run (apis_input act reqs shards warmup resp) (world_start t0) n w \<and>
             run_over (apis_input act reqs shards warmup resp) w \<and> wo_now w \<le> t1 \<and>
             colls = (\<lambda>s. mark_run_end t1 (wo_collectors w s)) \<and>
             result =
               (let sa = compute t1 (colls 0); sb = compute t1 (colls 1)
                in case apis_side sa (logs 0) of Inl e \<Rightarrow> Inl e | Inr side_a \<Rightarrow>
                  (case apis_side sb (logs 1) of Inl e \<Rightarrow> Inl e | Inr side_b \<Rightarrow>
                     Inr (side_a, side_b, combine sa sb shards warmup)))))"

subsection \<open>Where requests go\<close>

lemma length_send_times [simp]: "length (send_times t reqs) = length reqs"
  by (induction reqs arbitrary: t) auto

lemma length_spawn_delays [simp]: "length (spawn_delays t ss) = length ss"
  by (induction ss arbitrary: t) auto

lemma spawn_delays_nonneg: "d \<in> set (spawn_delays t ss) \<Longrightarrow> 0 \<le> d"
  by (induction ss arbitrary: t) (auto split: if_splits)

lemma length_route_requests [simp]: "length (fst (route_requests reqs r)) = length reqs"
  by (induction reqs arbitrary: r) (auto simp: Let_def case_prod_unfold)

text \<open>Without non-positive gaps the two harnesses sleep the same: the request's inter-arrival time.\<close>

lemma spawn_delays_are_gaps:
  "\<forall>r\<in>set reqs. 0 \<le> inter_arrival_s r \<Longrightarrow> spawn_delays t (send_times t reqs) = bench_delays reqs"
  by (induction reqs arbitrary: t) (auto simp: bench_delays_def)

lemma route_requests_ok:
  assumes "router_ok r" and "n_shards r = n" and "route_requests reqs r = (ss, r2)"
  shows "router_ok r2 \<and> n_shards r2 = n \<and> (\<forall>s\<in>set ss. \<exists>x. s = Some x \<and> 0 \<le> x \<and> x < n)"
  using assms
proof (induction reqs arbitrary: r ss)
  case (Cons q reqs)
  obtain a t where q: "q = (a, t)" by force
  obtain r1 s where 1: "route a t r = (r1, s)" by force
  obtain ss1 where ss: "route_requests reqs r1 = (ss1, r2)" "ss = s # ss1"
    using Cons.prems(3) 1 q by (auto simp: Let_def split: prod.splits)
  have ok: "router_ok r1" "n_shards r1 = n" "map_of (assignment r1) a = s" "s \<noteq> None"
    using route_ok [OF Cons.prems(1) 1] Cons.prems(2) by auto
  then obtain x where x: "s = Some x" by auto
  have "x \<in> snd ` set (assignment r1)" using map_of_SomeD [of "assignment r1" a x] ok(3) x by force
  also have "\<dots> = set (map snd (assignment r1))" by simp
  also have "\<dots> = (\<lambda>i. int i mod n) ` {0..<length (assignment r1)}" using ok(1,2) by (simp add: router_ok_def)
  finally have "0 \<le> x \<and> x < n" using ok(1,2) by (auto simp: router_ok_def)
  then show ?case using Cons.IH [OF ok(1,2) ss(1)] x ss(2) by auto
qed simp

lemma trace_router_ok:
  assumes "trace_router reqs = Inr r"
  shows "router_ok r \<and> n_shards r = 2 \<and> rebalance_s r = 30 \<and> last_rebalance r = None \<and> reqs \<noteq> []"
proof -
  have ne: "reqs \<noteq> []" using assms by (auto simp: trace_router_def split: if_splits)
  define rates where "rates = map (\<lambda>(a, c). (a, real c / max (last (send_times 0 reqs)) (1 / 10 ^ 9))) (count_adapters reqs [])"
  have r: "router_init 2 30 (1 / 10) rates = Inr r" using assms ne by (simp add: trace_router_def rates_def Let_def)
  then have "rebalance_s r = 30 \<and> last_rebalance r = None"
    by (auto simp: router_init_def estimator_init_def Let_def rebalance_def split: if_splits)
  then show ?thesis using router_init_ok [OF r] ne by simp
qed

lemma apis_shards_ok:
  assumes "apis_shards affinity reqs = Inr shards"
  shows "length shards = length reqs \<and> (\<forall>s\<in>set shards. s = Some 0 \<or> s = Some 1)"
proof (cases affinity)
  case True
  then obtain r where r: "trace_router reqs = Inr r" "shards = fst (route_requests (timed reqs) r)"
    using assms by (cases "trace_router reqs") (auto simp: apis_shards_def)
  have "router_ok r" "n_shards r = 2" using trace_router_ok [OF r(1)] by auto
  from route_requests_ok [OF this, of "timed reqs" shards "snd (route_requests (timed reqs) r)"]
  have s: "\<forall>s\<in>set shards. \<exists>x. s = Some x \<and> 0 \<le> x \<and> x < 2" by (simp add: r(2))
  have "x = 0 \<or> x = 1" if "0 \<le> x" "x < 2" for x :: int using that by auto
  with s show ?thesis by (auto simp: r(2) timed_def)
next
  case False
  then have "shards = map (\<lambda>i. Some (int (i mod 2))) [0..<length reqs]" using assms by (simp add: apis_shards_def)
  moreover have "int (i mod 2) = 0 \<or> int (i mod 2) = 1" for i by auto
  ultimately show ?thesis by auto
qed

subsection \<open>Every request is measured once\<close>

lemma count_list_card: "count_list xs x = card {i. i < length xs \<and> xs ! i = x}"
  by (simp add: count_list_eq_length_filter length_filter_conv_card eq_commute)

lemma count_two: "set xs \<subseteq> {a, b} \<Longrightarrow> a \<noteq> b \<Longrightarrow> count_list xs a + count_list xs b = length xs"
  by (induction xs) auto

lemma card_drop: "card {i. i < length xs \<and> \<not> i < n \<and> P (xs ! i)} = card {i. i < length (drop n xs) \<and> P (drop n xs ! i)}"
proof -
  have "{i. i < length xs \<and> \<not> i < n \<and> P (xs ! i)} = (\<lambda>i. i + n) ` {i. i < length (drop n xs) \<and> P (drop n xs ! i)}"
  proof (intro set_eqI iffI)
    fix i assume "i \<in> {i. i < length xs \<and> \<not> i < n \<and> P (xs ! i)}"
    then show "i \<in> (\<lambda>i. i + n) ` {i. i < length (drop n xs) \<and> P (drop n xs ! i)}"
      by (intro image_eqI [of _ _ "i - n"]) auto
  qed (auto simp: add.commute)
  then show ?thesis by (simp add: card_image)
qed

text \<open>The facts of a finished two-server run, from the invariant of the client.\<close>

lemma apis_input_fields [simp]:
  "rn_requests (apis_input act reqs shards warmup resp) = reqs"
  "rn_delays (apis_input act reqs shards warmup resp) = spawn_delays 0 (send_times 0 reqs)"
  "rn_shard (apis_input act reqs shards warmup resp) i = nat (the (shards ! i))"
  "rn_warm (apis_input act reqs shards warmup resp) = req_id ` set (take warmup reqs)"
  by (simp_all add: apis_input_def)

lemma apis_request_measured:
  fixes R :: run_input
  assumes "R = apis_input act reqs shards warmup resp" and "apis_shards affinity reqs = Inr shards" and "distinct (map req_id reqs)"
    and "world_ok R t0 w" and "run_over R w" and "wo_now w \<le> t1" and "i < length reqs"
  shows "\<exists>s\<in>{0, 1}. shards ! i = Some (int s) \<and>
      (\<exists>r. map_of (co_records (wo_collectors w s)) (req_id (reqs ! i)) = Some r \<and> finished_record R t0 t1 i r) \<and>
      map_of (co_records (wo_collectors w (1 - s))) (req_id (reqs ! i)) = None"
proof -
  define s where "s = nat (the (shards ! i))"
  have "shards ! i \<in> set shards" using apis_shards_ok [OF assms(2)] assms(7) by simp
  then have s: "s \<in> {0, 1}" "shards ! i = Some (int s)" using apis_shards_ok [OF assms(2)] by (force simp: s_def)+
  have "\<exists>r. map_of (co_records (wo_collectors w s)) (req_id (reqs ! i)) = Some r \<and> finished_record R t0 t1 i r"
    using over_record [OF assms(4-6), of i] assms(7) by (simp add: assms(1) s_def)
  moreover have "req_id (reqs ! i) \<notin> dom (map_of (co_records (wo_collectors w (1 - s))))"
  proof
    assume "req_id (reqs ! i) \<in> dom (map_of (co_records (wo_collectors w (1 - s))))"
    then obtain j where j: "j < length reqs" "req_id (reqs ! j) = req_id (reqs ! i)" "rn_shard R j = 1 - s"
      using assms(4) unfolding world_ok_def assms(1) apis_input_fields by blast
    then have "j = i" using assms(3,7) nth_eq_iff_index_eq [of "map req_id reqs" j i] by simp
    moreover have "rn_shard R i = s" by (simp add: assms(1) s_def)
    ultimately show False using j(3) s(1) by auto
  qed
  ultimately show ?thesis using s by (auto simp: domIff)
qed

lemma apis_server_completed:
  assumes "R = apis_input act reqs shards warmup resp" and "apis_shards affinity reqs = Inr shards" and "distinct (map req_id reqs)"
    and "world_ok R t0 w" and "run_over R w" and "wo_now w \<le> t1"
  shows "n_completed (compute t1 (mark_run_end t1 (wo_collectors w s))) = count_list (drop warmup shards) (Some (int s))"
proof -
  note sh = apis_shards_ok [OF assms(2)]
  have warm: "req_id (reqs ! i) \<notin> req_id ` set (take warmup reqs) \<longleftrightarrow> \<not> i < warmup" if "i < length reqs" for i
    using nth_in_take [OF assms(3), of i warmup] that by (simp add: take_map)
  have "n_completed (compute t1 (mark_run_end t1 (wo_collectors w s))) = card {i. i < length reqs \<and> nat (the (shards ! i)) = s \<and>
      req_id (reqs ! i) \<notin> req_id ` set (take warmup reqs)}"
    using run_measures(1) [OF assms(4-6) _ refl, of t1 s] assms(3) by (simp add: assms(1))
  also have "{i. i < length reqs \<and> nat (the (shards ! i)) = s \<and> req_id (reqs ! i) \<notin> req_id ` set (take warmup reqs)} =
      {i. i < length shards \<and> \<not> i < warmup \<and> shards ! i = Some (int s)}"
  proof (intro Collect_cong)
    fix i
    have "shards ! i = Some 0 \<or> shards ! i = Some 1" if "i < length reqs" using sh that by auto
    then show "(i < length reqs \<and> nat (the (shards ! i)) = s \<and> req_id (reqs ! i) \<notin> req_id ` set (take warmup reqs)) =
        (i < length shards \<and> \<not> i < warmup \<and> shards ! i = Some (int s))"
      using warm [of i] sh by (cases "i < length reqs") (simp only:, fastforce, simp)
  qed
  finally show ?thesis by (simp only: card_drop [where P = "\<lambda>x. x = Some (int s)"] count_list_card)
qed

lemma apis_side_summary: "apis_side sm file = Inr (sm', d) \<Longrightarrow> sm' = sm"
  by (cases "parse_as_metrics_jsonl file") (simp_all add: apis_side_def)

text \<open>C29: A two-server run measures every request once, on the server it was routed to. For any trace with distinct
  ids, either routing, any interleaving of the two servers' streams and any failures, if the run returns (the
  servers' own logs can be read): each request has a
  finished record in the collector of the server chosen for it and none in the other; the completed requests
  of the two servers add up to all requests but the warm-up; and the share reported for the first server is
  the fraction of them it completed.\<close>

theorem apis_run_measures_each_request_once:
  assumes "distinct (map req_id reqs)" and "apis_shards affinity reqs = Inr shards"
    and "apis_run act affinity reqs warmup resp logs t0 t1 colls (Inr ((sa, la), (sb, lb), cb))"
  shows "(\<forall>i<length reqs. \<exists>s\<in>{0, 1}. shards ! i = Some (int s) \<and>
      (\<exists>r. map_of (co_records (colls s)) (req_id (reqs ! i)) = Some r \<and>
         finished_record (apis_input act reqs shards warmup resp) t0 t1 i r) \<and>
      map_of (co_records (colls (1 - s))) (req_id (reqs ! i)) = None) \<and>
    cb_completed cb = length reqs - warmup \<and>
    (warmup < length reqs \<longrightarrow> cb_share0 cb = real (n_completed sa) / real (cb_completed cb))"
proof -
  let ?R = "apis_input act reqs shards warmup resp"
  note sh = apis_shards_ok [OF assms(2)]
  obtain n w where w: "client_run ?R (world_start t0) n w" "run_over ?R w" "wo_now w \<le> t1"
    "colls = (\<lambda>s. mark_run_end t1 (wo_collectors w s))" "sa = compute t1 (colls 0)" "sb = compute t1 (colls 1)"
    "cb = combine sa sb shards warmup"
    using assms(2,3)
    by (auto simp: apis_run_def Let_def dest!: apis_side_summary split: sum.splits)
  have ok: "world_ok ?R t0 w" using run_ok [OF w(1)] assms(1) spawn_delays_nonneg by auto
  note each = apis_request_measured [OF refl assms(2,1) ok w(2,3)]
  note side = apis_server_completed [OF refl assms(2,1) ok w(2,3)]
  have "set (drop warmup shards) \<subseteq> {Some 0, Some 1}" using sh by (auto dest: in_set_dropD)
  then have "count_list (drop warmup shards) (Some 0) + count_list (drop warmup shards) (Some 1) = length (drop warmup shards)"
    by (intro count_two) auto
  then have total: "cb_completed cb = length reqs - warmup"
    using side [of 0] side [of 1] sh by (simp add: w(4-7) combine_def Let_def)
  moreover have "cb_share0 cb = real (n_completed sa) / real (cb_completed cb)" if "warmup < length reqs"
    using side [of 0] total that sh by (simp add: w(4-7) combine_def Let_def)
  moreover have "\<exists>s\<in>{0, 1}. shards ! i = Some (int s) \<and>
      (\<exists>r. map_of (co_records (colls s)) (req_id (reqs ! i)) = Some r \<and> finished_record ?R t0 t1 i r) \<and>
      map_of (co_records (colls (1 - s))) (req_id (reqs ! i)) = None" if "i < length reqs" for i
    using each [OF that] by (auto simp: w(4))
  ultimately show ?thesis by blast
qed

subsection \<open>Adapter affinity\<close>

definition keys_below :: "int \<Rightarrow> router \<Rightarrow> bool" where
  "keys_below K r \<longleftrightarrow> fst ` set (assignment r) \<subseteq> {0..<K} \<and> fst ` set (rate_estimate (router_estimator r)) \<subseteq> {0..<K}"

lemma rebalance_keys: "router_ok r \<Longrightarrow> fst ` set (assignment (rebalance r)) = fst ` set (rate_estimate (router_estimator r))"
proof -
  assume "router_ok r"
  then have d: "dict_ok (rate_estimate (router_estimator r))" by (simp add: router_ok_def)
  have "map fst (assignment (rebalance r)) = rate_order (rate_estimate (router_estimator r))"
    using d map_nth [of "rate_order (rate_estimate (router_estimator r))"]
    by (simp add: rebalance_def get_all_rates_def round_robin_eq o_def)
  then show ?thesis by (metis list.set_map rate_order_props(2))
qed

lemma estimator_keys: "fst ` set (rate_estimate (fst (estimator_update k t e))) \<subseteq> insert k (fst ` set (rate_estimate e))"
  by (auto simp: estimator_update_def Let_def dict_setdefault_def split: option.splits if_splits)

lemma rebalance_frame [simp]:
  "router_estimator (rebalance r) = router_estimator r" "last_rebalance (rebalance r) = last_rebalance r"
  "rebalance_s (rebalance r) = rebalance_s r"
  by (simp_all add: rebalance_def)

lemma keys_below_frame [simp]: "keys_below K (r\<lparr>last_rebalance := x\<rparr>) = keys_below K r"
  by (simp add: keys_below_def)

lemma keys_below_join:
  assumes "keys_below K r" and "0 \<le> k" and "k < K"
  shows "keys_below K (r\<lparr>assignment := dict_set k v (assignment r)\<rparr>)"
    and "keys_below K (r\<lparr>last_rebalance := x, assignment := dict_set k v (assignment r)\<rparr>)"
  using assms by (simp_all add: keys_below_def)

lemma route_keys:
  assumes "router_ok r" and "keys_below K r" and "0 \<le> k" and "k < K" and "route k t r = (r', s)"
  shows "keys_below K r'"
proof -
  define r1 where "r1 = r\<lparr>router_estimator := fst (estimator_update k t (router_estimator r))\<rparr>"
  have "fst ` set (rate_estimate (router_estimator r1)) \<subseteq> insert k (fst ` set (rate_estimate (router_estimator r)))"
    by (simp add: r1_def estimator_keys)
  also have "\<dots> \<subseteq> {0..<K}" using assms(2-4) by (simp add: keys_below_def)
  finally have 1: "keys_below K r1" "router_ok r1"
    using assms(1,2) by (auto simp: r1_def router_ok_def keys_estimator_update keys_below_def)
  then have 2: "keys_below K (rebalance r1)" using rebalance_keys [OF 1(2)] by (simp add: keys_below_def)
  show ?thesis using assms(3-5) 1(1) 2
    by (auto simp: route_def Let_def r1_def [symmetric] intro!: keys_below_join split: option.splits if_splits)
qed

lemma shard_fits:
  assumes "router_ok r" and "n_shards r = 2" and "keys_below K r" and "s \<in> {0, 1}" and "0 \<le> K"
  shows "int (shard_size r s) \<le> shard_loras True K"
proof -
  have "length (assignment r) = card (fst ` set (assignment r))"
    using assms(1) by (metis distinct_card length_map list.set_map router_ok_def)
  also have "\<dots> \<le> card {0..<K}" using assms(3) by (intro card_mono) (auto simp: keys_below_def)
  finally have L: "int (length (assignment r)) \<le> K" using assms(5) by simp
  have "shard_size r s \<le> length (assignment r) div 2 + of_bool (0 < length (assignment r) mod 2)"
    using assms(2,4) shard_size_eq [OF assms(1), of s] by auto
  also have "\<dots> \<le> (length (assignment r) + 1) div 2" unfolding of_bool_def by presburger
  finally have "shard_size r s \<le> (length (assignment r) + 1) div 2" .
  then have "int (shard_size r s) \<le> (int (length (assignment r)) + 1) div 2" by presburger
  also have "\<dots> \<le> - ((- K) div 2)" using L by presburger
  finally show ?thesis by (simp add: shard_loras_def)
qed

text \<open>Until the next rebalance an adapter keeps its shard.\<close>

lemma route_keeps:
  assumes "last_rebalance r = Some u" and "t - u < rebalance_s r" and "route k t r = (r', s)"
  shows "last_rebalance r' = Some u \<and> rebalance_s r' = rebalance_s r \<and> map_of (assignment r') k = s \<and>
    (\<forall>a x. map_of (assignment r) a = Some x \<longrightarrow> map_of (assignment r') a = Some x)"
  using assms by (auto simp: route_def Let_def dict_has_def split: if_splits)

lemma route_first:
  assumes "last_rebalance r = None" and "route k t r = (r', s)"
  shows "last_rebalance r' = Some t \<and> rebalance_s r' = rebalance_s r \<and> map_of (assignment r') k = s"
  using assms by (auto simp: route_def Let_def dict_has_def split: if_splits)

lemma route_requests_keep:
  assumes "last_rebalance r = Some u" and "\<forall>(a, t)\<in>set reqs. t - u < rebalance_s r" and "route_requests reqs r = (ss, r2)"
    and "router_ok r"
  shows "(\<forall>a x. map_of (assignment r) a = Some x \<longrightarrow> map_of (assignment r2) a = Some x) \<and>
    (\<forall>i<length reqs. ss ! i = map_of (assignment r2) (fst (reqs ! i)))"
  using assms
proof (induction reqs arbitrary: r ss)
  case (Cons q reqs)
  obtain a t where q: "q = (a, t)" by force
  obtain r1 s where 1: "route a t r = (r1, s)" by force
  obtain ss1 where ss: "route_requests reqs r1 = (ss1, r2)" "ss = s # ss1"
    using Cons.prems(3) 1 q by (auto simp: Let_def split: prod.splits)
  have k: "last_rebalance r1 = Some u" "rebalance_s r1 = rebalance_s r" "map_of (assignment r1) a = s"
    "\<forall>a x. map_of (assignment r) a = Some x \<longrightarrow> map_of (assignment r1) a = Some x"
    using route_keeps [OF Cons.prems(1) _ 1] Cons.prems(2) q by auto
  have ok: "router_ok r1" "s \<noteq> None" using route_ok [OF Cons.prems(4) 1] by auto
  note ih = Cons.IH [OF k(1) _ ss(1) ok(1)]
  have "\<forall>(a, t)\<in>set reqs. t - u < rebalance_s r1" using Cons.prems(2) k(2) by simp
  note ih = ih [OF this]
  have "ss ! i = map_of (assignment r2) (fst ((q # reqs) ! i))" if "i < Suc (length reqs)" for i
    using that ih k(3) ok(2) ss(2) q by (cases i) auto
  then show ?case using ih k(4) by auto
qed simp

lemma count_adapters_keys:
  "fst ` set (count_adapters reqs c) = load_request.adapter_id ` set reqs \<union> fst ` set c"
  by (induction reqs c rule: count_adapters.induct) auto

lemma count_adapters_ok: "dict_ok c \<Longrightarrow> dict_ok (count_adapters reqs c)"
  by (induction reqs c rule: count_adapters.induct) auto

lemma trace_router_keys:
  assumes "trace_router reqs = Inr r" and "\<forall>q\<in>set reqs. load_request.adapter_id q \<in> {0..<K}"
  shows "keys_below K r"
proof -
  define rates where "rates = map (\<lambda>(a, c). (a, real c / max (last (send_times 0 reqs)) (1 / 10 ^ 9))) (count_adapters reqs [])"
  have r: "router_init 2 30 (1 / 10) rates = Inr r"
    using assms(1) by (simp add: trace_router_def rates_def Let_def split: if_splits)
  have "fst ` set rates = fst ` set (count_adapters reqs [])" by (force simp: rates_def)
  then have k: "fst ` set rates \<subseteq> {0..<K}" using assms(2) by (auto simp: count_adapters_keys)
  show ?thesis
  proof (cases "rates = []")
    case True
    then show ?thesis using r by (auto simp: router_init_def estimator_init_def Let_def keys_below_def)
  next
    case False
    then obtain r1 where r1: "r = rebalance r1" "rate_estimate (router_estimator r1) = dict_update rates []" "router_ok r1"
      using r by (auto simp: router_init_def estimator_init_def set_rates_def Let_def router_ok_def)
    then show ?thesis using k rebalance_keys [OF r1(3)] by (simp add: keys_below_def)
  qed
qed

lemma route_all_take:
  assumes "router_ok r" and "n_shards r = 2" and "keys_below K r" and "\<forall>(a, t)\<in>set reqs. 0 \<le> a \<and> a < K"
  shows "router_ok (route_all reqs r) \<and> n_shards (route_all reqs r) = 2 \<and> keys_below K (route_all reqs r)"
  using assms
proof (induction reqs r rule: route_all.induct)
  case (2 a t reqs r)
  obtain r1 s where 1: "route a t r = (r1, s)" by force
  then show ?case using 2 route_ok [OF 2(2) 1] route_keys [OF 2(2,4) _ _ 1] by simp
qed simp

lemma set_timed: "(a, t) \<in> set (timed reqs) \<Longrightarrow> \<exists>q\<in>set reqs. load_request.adapter_id q = a"
  using set_zip_leftD [of a t "map load_request.adapter_id reqs" "send_times 0 reqs"] by (auto simp: timed_def)

lemma send_times_bound:
  "\<forall>q\<in>set reqs. 0 \<le> inter_arrival_s q \<Longrightarrow> u \<in> set (send_times t reqs) \<Longrightarrow> u \<le> t + sum_list (map inter_arrival_s reqs)"
proof (induction reqs arbitrary: t)
  case (Cons q reqs)
  have "0 \<le> sum_list (map inter_arrival_s reqs)" using Cons.prems(1) by (intro sum_list_nonneg) auto
  then show ?case using Cons.prems Cons.IH [of "t + inter_arrival_s q"] by auto
qed simp

text \<open>C30: Adapter affinity keeps each server within its LoRA slots, and each adapter on one server until the next
  rebalance. For a trace over K adapters, before and after every request the adapters assigned to a
  server are at most the slots it was started with; and while less than 30 seconds pass after the first
  request, all requests of an adapter go to the same server.\<close>

theorem affinity_fits_the_slots:
  assumes "apis_shards True reqs = Inr shards" and "0 \<le> K"
    and "\<forall>q\<in>set reqs. load_request.adapter_id q \<in> {0..<K}"
  shows "\<exists>r0. trace_router reqs = Inr r0 \<and> shards = fst (route_requests (timed reqs) r0) \<and>
    (\<forall>i\<le>length reqs. \<forall>s\<in>{0, 1}. int (shard_size (route_all (take i (timed reqs)) r0) s) \<le> apis_max_loras True K) \<and>
    ((\<forall>q\<in>set reqs. 0 \<le> inter_arrival_s q) \<and> sum_list (map inter_arrival_s (tl reqs)) < 30 \<longrightarrow>
       (\<forall>i<length reqs. \<forall>j<length reqs.
          load_request.adapter_id (reqs ! i) = load_request.adapter_id (reqs ! j) \<longrightarrow> shards ! i = shards ! j))"
proof -
  obtain r0 where r0: "trace_router reqs = Inr r0" "shards = fst (route_requests (timed reqs) r0)"
    using assms(1) by (cases "trace_router reqs") (auto simp: apis_shards_def)
  note start = trace_router_ok [OF r0(1)]
  have "int (shard_size (route_all (take i (timed reqs)) r0) s) \<le> apis_max_loras True K" if "s \<in> {0, 1}" for i s
  proof -
    have "\<forall>(a, t)\<in>set (take i (timed reqs)). 0 \<le> a \<and> a < K"
      using assms(3) set_timed by (fastforce dest: in_set_takeD)
    then have "router_ok (route_all (take i (timed reqs)) r0)" "n_shards (route_all (take i (timed reqs)) r0) = 2"
      "keys_below K (route_all (take i (timed reqs)) r0)"
      using route_all_take start trace_router_keys [OF r0(1) assms(3)] by auto
    from shard_fits [OF this that assms(2)] show ?thesis by (simp add: apis_max_loras_def)
  qed
  moreover have "shards ! i = shards ! j"
    if gaps: "\<forall>q\<in>set reqs. 0 \<le> inter_arrival_s q" "sum_list (map inter_arrival_s (tl reqs)) < 30"
      and ij: "i < length reqs" "j < length reqs" "load_request.adapter_id (reqs ! i) = load_request.adapter_id (reqs ! j)" for i j
  proof -
    obtain q rest where reqs: "reqs = q # rest" using start by (cases reqs) auto
    define t0 where "t0 = inter_arrival_s q"
    have timed: "timed reqs = (load_request.adapter_id q, t0) # zip (map load_request.adapter_id rest) (send_times t0 rest)"
      by (simp add: reqs timed_def t0_def)
    obtain r1 s where 1: "route (load_request.adapter_id q) t0 r0 = (r1, s)" by force
    have r1: "last_rebalance r1 = Some t0" "rebalance_s r1 = 30" "map_of (assignment r1) (load_request.adapter_id q) = s"
      "router_ok r1" "s \<noteq> None"
      using route_first [OF _ 1] route_ok [OF _ 1] start by auto
    obtain ss r2 where ss: "route_requests (zip (map load_request.adapter_id rest) (send_times t0 rest)) r1 = (ss, r2)" by force
    have "u - t0 < 30" if "u \<in> set (send_times t0 rest)" for u
      using send_times_bound [OF _ that] gaps by (auto simp: reqs)
    then have near: "\<forall>(a, u)\<in>set (zip (map load_request.adapter_id rest) (send_times t0 rest)). u - t0 < rebalance_s r1"
      unfolding r1(2) by (auto dest: set_zip_rightD)
    note keep = route_requests_keep [OF r1(1) near ss r1(4)]
    have "shards = s # ss" using r0(2) 1 ss by (simp add: timed Let_def)
    then have "shards ! l = map_of (assignment r2) (load_request.adapter_id (reqs ! l))" if "l < length reqs" for l
      using keep that r1(3,5) by (cases l) (auto simp: reqs)
    then show ?thesis using ij by simp
  qed
  ultimately show ?thesis using r0 by (intro exI [of _ r0]) blast
qed

theorem apis_run_measures_each_request_once_witness:
  "\<exists>t1 colls sa sb cb. apis_run (openai_line (\<lambda>d. None)) False demo_trace 1 (\<lambda>i. []) (\<lambda>s. None) 1 t1 colls
       (Inr ((sa, []), (sb, []), cb)) \<and>
     cb_completed cb = 1 \<and> map_of (co_records (colls 0)) ''r1'' = None"
proof -
  have sh: "apis_shards False demo_trace = Inr [Some 0, Some 1]" by (simp add: apis_shards_def demo_trace_def)
  let ?R = "apis_input (openai_line (\<lambda>d. None)) demo_trace [Some 0, Some 1] 1 (\<lambda>i. [])"
  obtain n w where w: "client_run ?R (world_start 1) n w" "run_over ?R w" using run_completes by blast
  define colls where "colls = (\<lambda>s. mark_run_end (wo_now w) (wo_collectors w s))"
  define sa where "sa = compute (wo_now w) (colls 0)"
  define sb where "sb = compute (wo_now w) (colls 1)"
  have r: "apis_run (openai_line (\<lambda>d. None)) False demo_trace 1 (\<lambda>i. []) (\<lambda>s. None) 1 (wo_now w) colls
      (Inr ((sa, []), (sb, []), combine sa sb [Some 0, Some 1] 1))"
    unfolding apis_run_def sh using w
    by (auto simp: colls_def sa_def sb_def Let_def apis_side_def parse_as_metrics_jsonl_def)
  have d: "distinct (map req_id demo_trace)" "length demo_trace = 2" "req_id (demo_trace ! 1) = ''r1''"
    by (simp_all add: demo_trace_def)
  note once = apis_run_measures_each_request_once [OF d(1) sh r]
  have "cb_completed (combine sa sb [Some 0, Some 1] 1) = 1" using once d(2) by simp
  moreover have "map_of (co_records (colls 0)) ''r1'' = None" using once [THEN conjunct1, rule_format, of 1] d(2,3) by auto
  ultimately show ?thesis using r by blast
qed

theorem affinity_fits_the_slots_witness:
  "\<exists>shards. apis_shards True (map (\<lambda>q. q\<lparr>load_request.adapter_id := 5\<rparr>) demo_trace) = Inr shards \<and> shards ! 0 = shards ! 1"
proof -
  let ?reqs = "map (\<lambda>q. q\<lparr>load_request.adapter_id := 5\<rparr>) demo_trace"
  obtain shards where sh: "apis_shards True ?reqs = Inr shards"
    by (simp add: apis_shards_def trace_router_def router_init_def estimator_init_def demo_trace_def dict_set_def
        dict_get_def Let_def)
  have "\<forall>q\<in>set ?reqs. load_request.adapter_id q \<in> {0..<6}" "length ?reqs = 2"
    "\<forall>q\<in>set ?reqs. 0 \<le> inter_arrival_s q" "sum_list (map inter_arrival_s (tl ?reqs)) < 30"
    "load_request.adapter_id (?reqs ! 0) = load_request.adapter_id (?reqs ! 1)"
    by (simp_all add: demo_trace_def)
  with affinity_fits_the_slots [OF sh, of 6] have "shards ! 0 = shards ! 1" by fastforce
  then show ?thesis using sh by blast
qed

end
