(* ===== verification/Lifecycle.thy ===== *)
theory Lifecycle
  imports Backend
begin

text \<open>
  \<^verbatim>\<open>backends/base.py\<close>: starting and stopping a server. The operating system answers through scripts: what
  the i-th probe of a loop finds and the clock at that time. A server is a process group: the leader that
  \<open>Popen\<close> started and the other members it spawned. \<open>poll\<close> and \<open>wait\<close> reap a leader that has exited, and
  \<open>getpgid\<close> fails on a reaped one, as POSIX has it.
\<close>

subsection \<open>Processes\<close>

datatype leader_state = Running | Zombie | Reaped

record pgroup =
  leader :: leader_state
  others :: nat

definition proc_exited :: "pgroup \<Rightarrow> bool" where
  "proc_exited g \<longleftrightarrow> leader g \<noteq> Running"

text \<open>\<open>Popen.poll\<close>: reaps a leader that has exited.\<close>

definition reap :: "pgroup \<Rightarrow> pgroup" where
  "reap g = (if proc_exited g then g\<lparr>leader := Reaped\<rparr> else g)"

text \<open>SIGKILL cannot be ignored. SIGTERM ends the leader and members or not: \<open>term_left\<close> of the members stay.\<close>

definition sigkill :: "pgroup \<Rightarrow> pgroup" where
  "sigkill g = g\<lparr>leader := (if leader g = Running then Zombie else leader g), others := 0\<rparr>"

record term_response =
  term_leader :: bool
  term_left :: nat

definition sigterm :: "term_response \<Rightarrow> pgroup \<Rightarrow> pgroup" where
  "sigterm resp g = g\<lparr>leader := (if leader g = Running \<and> term_leader resp then Zombie else leader g),
     others := min (others g) (term_left resp)\<rparr>"

text \<open>\<open>stop\<close>; the process object is dropped at its end. Both waits reap a leader that has exited.\<close>

definition stop_server :: "term_response \<Rightarrow> pgroup option \<Rightarrow> pgroup option \<times> pgroup option" where
  "stop_server resp proc =
     (case proc of
        None \<Rightarrow> (None, None)
      | Some g \<Rightarrow>
          (let has_pgid = (leader g \<noteq> Reaped);
               g = (if has_pgid then sigterm resp g else g);
               g = reap g;
               g = (if has_pgid then sigkill g else g);
               g = (if proc_exited g then reap g else g\<lparr>leader := Zombie\<rparr>)
           in (None, Some g)))"

subsection \<open>The loops\<close>

datatype server_error = PortInUse | NotHealthy

text \<open>\<open>_wait_for_port_free\<close>: \<open>bound i\<close> tells whether the i-th bind succeeds.\<close>

partial_function (option) wait_for_port :: "(nat \<Rightarrow> real) \<Rightarrow> (nat \<Rightarrow> bool) \<Rightarrow> real \<Rightarrow> nat \<Rightarrow> (server_error + nat) option" where
  "wait_for_port clk bound deadline i =
     (if bound i then Some (Inr i)
      else if clk i \<ge> deadline then Some (Inl PortInUse)
      else wait_for_port clk bound deadline (i + 1))"

text \<open>\<open>_wait_for_gpus_free\<close>: \<open>used i\<close> is the output of nvidia-smi, \<open>None\<close> when it cannot be run or read.\<close>

fun split_commas :: "string \<Rightarrow> string \<Rightarrow> string list" where
  "split_commas [] acc = [acc]"
| "split_commas (c # cs) acc =
     (if c = CHR '','' then acc # split_commas cs [] else split_commas cs (acc @ [c]))"

definition gpu_ids :: "environ \<Rightarrow> string list" where
  "gpu_ids env = filter (\<lambda>i. py_strip i \<noteq> []) (split_commas (dict_get env ''CUDA_VISIBLE_DEVICES'' []) [])"

partial_function (option) gpu_loop :: "(nat \<Rightarrow> real) \<Rightarrow> (nat \<Rightarrow> int list option) \<Rightarrow> int \<Rightarrow> real \<Rightarrow> nat \<Rightarrow> nat option" where
  "gpu_loop clk used max_used_mib deadline i =
     (if clk i < deadline then
        (case used i of
           None \<Rightarrow> Some i
         | Some us \<Rightarrow> if us \<noteq> [] \<and> Max (set us) \<le> max_used_mib then Some i
                      else gpu_loop clk used max_used_mib deadline (i + 1))
      else Some i)"

definition wait_for_gpus :: "(nat \<Rightarrow> real) \<Rightarrow> (nat \<Rightarrow> int list option) \<Rightarrow> environ \<Rightarrow> real \<Rightarrow> nat option" where
  "wait_for_gpus clk used env start =
     (if gpu_ids env = [] then Some 0 else gpu_loop clk used 1024 (start + 180) 0)"

text \<open>\<open>_wait_for_health\<close>: \<open>up i\<close> tells whether /health answers, \<open>grp i\<close> is the process group then. The
  result is the answer and the group as the last \<open>poll\<close> left it.\<close>

definition health_timeout :: real where "health_timeout = 480"

partial_function (option) health_loop ::
  "(nat \<Rightarrow> real) \<Rightarrow> (nat \<Rightarrow> bool) \<Rightarrow> (nat \<Rightarrow> pgroup) \<Rightarrow> real \<Rightarrow> nat \<Rightarrow> (bool \<times> pgroup) option" where
  "health_loop clk up grp deadline i =
     (if clk i < deadline then
        (if up i then Some (True, grp i)
         else if proc_exited (grp i) then Some (False, reap (grp i))
         else health_loop clk up grp deadline (i + 1))
      else Some (False, grp i))"

text \<open>The scripts of one start: for each loop the time its deadline is computed from, the clock at each of
  its checks, and what it finds there.\<close>

record os_script =
  port_start :: real
  gpu_start :: real
  health_start :: real
  port_clk :: "nat \<Rightarrow> real"
  port_bound :: "nat \<Rightarrow> bool"
  gpu_clk :: "nat \<Rightarrow> real"
  gpu_used :: "nat \<Rightarrow> int list option"
  health_clk :: "nat \<Rightarrow> real"
  health_up :: "nat \<Rightarrow> bool"
  health_grp :: "nat \<Rightarrow> pgroup"
  stop_response :: term_response

text \<open>\<open>start\<close> after the command and the environment are built: the process object it leaves and the
  group that is alive.\<close>

definition start_server :: "os_script \<Rightarrow> environ \<Rightarrow> ((server_error + bool) \<times> pgroup option \<times> pgroup option) option" where
  "start_server os env =
     (case wait_for_port (port_clk os) (port_bound os) (port_start os + 180) 0 of
        None \<Rightarrow> None
      | Some (Inl e) \<Rightarrow> Some (Inl e, None, None)
      | Some (Inr i) \<Rightarrow>
          (case wait_for_gpus (gpu_clk os) (gpu_used os) env (gpu_start os) of
             None \<Rightarrow> None
           | Some k \<Rightarrow>
               (case health_loop (health_clk os) (health_up os) (health_grp os) (health_start os + health_timeout) 0 of
                  None \<Rightarrow> None
                | Some (True, g) \<Rightarrow> Some (Inr True, Some g, Some g)
                | Some (False, g) \<Rightarrow> Some (Inl NotHealthy, stop_server (stop_response os) (Some g)))))"

subsection \<open>The loops end\<close>

text \<open>The clock does not go back, and each round of a loop sleeps two seconds.\<close>

definition sleeps :: "real \<Rightarrow> (nat \<Rightarrow> real) \<Rightarrow> bool" where
  "sleeps start clk \<longleftrightarrow> start \<le> clk 0 \<and> (\<forall>i. clk i + 2 \<le> clk (i + 1))"

lemma sleeps_from: "sleeps start clk \<Longrightarrow> clk i + 2 * real n \<le> clk (i + n)"
proof (induction n)
  case (Suc n)
  then have "clk (i + n) + 2 \<le> clk (Suc (i + n))" by (simp add: sleeps_def)
  then show ?case using Suc by simp
qed simp

lemma sleeps_past: "sleeps start clk \<Longrightarrow> T \<le> 2 * real n \<Longrightarrow> start + T \<le> clk n"
  using sleeps_from [of start clk 0 n] by (simp add: sleeps_def)

text \<open>A probing loop whose deadline passes at round \<open>n\<close> returns at the first round that decides it.\<close>

lemma wait_for_port_ends:
  assumes "deadline \<le> clk (i + n)"
  shows "\<exists>j\<le>i + n. wait_for_port clk bound deadline i = Some (if bound j then Inr j else Inl PortInUse) \<and>
    (bound j \<or> deadline \<le> clk j)"
  using assms
proof (induction n arbitrary: i)
  case 0
  then show ?case by (intro exI [of _ i]) (subst wait_for_port.simps, auto)
next
  case (Suc n)
  show ?case
  proof (cases "bound i \<or> deadline \<le> clk i")
    case True
    then show ?thesis by (intro exI [of _ i]) (subst wait_for_port.simps, auto)
  next
    case False
    then have "wait_for_port clk bound deadline i = wait_for_port clk bound deadline (i + 1)"
      by (subst wait_for_port.simps) simp
    then show ?thesis using Suc.IH [of "i + 1"] Suc.prems by auto
  qed
qed

lemma gpu_loop_step:
  "gpu_loop clk used m deadline i = Some i \<or>
     clk i < deadline \<and> gpu_loop clk used m deadline i = gpu_loop clk used m deadline (i + 1)"
  by (subst (1 2) gpu_loop.simps) (auto split: option.splits)

lemma gpu_loop_ends: "deadline \<le> clk (i + n) \<Longrightarrow> \<exists>j\<le>i + n. gpu_loop clk used m deadline i = Some j"
proof (induction n arbitrary: i)
  case 0
  then show ?case using gpu_loop_step [of clk used m deadline i] by auto
next
  case (Suc n)
  then show ?case using gpu_loop_step [of clk used m deadline i] Suc.IH [of "i + 1"] by auto
qed

lemma wait_for_gpus_ends:
  assumes "sleeps start clk"
  shows "\<exists>k\<le>90. wait_for_gpus clk used env start = Some k"
proof -
  obtain j where "j \<le> 90" "gpu_loop clk used 1024 (start + 180) 0 = Some j"
    using gpu_loop_ends [of "start + 180" clk 0 90 used 1024] sleeps_past [OF assms, of 180 90] by auto
  then show ?thesis by (cases "gpu_ids env = []") (auto simp: wait_for_gpus_def)
qed

text \<open>The round that decides: the server answers, its process has exited, or time is up.\<close>

definition decides :: "(nat \<Rightarrow> real) \<Rightarrow> (nat \<Rightarrow> bool) \<Rightarrow> (nat \<Rightarrow> pgroup) \<Rightarrow> real \<Rightarrow> nat \<Rightarrow> bool" where
  "decides clk up grp deadline j \<longleftrightarrow> deadline \<le> clk j \<or> up j \<or> proc_exited (grp j)"

lemma health_loop_ends:
  assumes "deadline \<le> clk (i + n)"
  shows "\<exists>j. i \<le> j \<and> j \<le> i + n \<and> decides clk up grp deadline j \<and> (\<forall>l. i \<le> l \<longrightarrow> l < j \<longrightarrow> \<not> decides clk up grp deadline l) \<and>
    health_loop clk up grp deadline i = Some
      (if deadline \<le> clk j then (False, grp j) else if up j then (True, grp j) else (False, reap (grp j)))"
  using assms
proof (induction n arbitrary: i)
  case 0
  then show ?case by (intro exI [of _ i]) (subst health_loop.simps, simp add: decides_def)
next
  case (Suc n)
  show ?case
  proof (cases "decides clk up grp deadline i")
    case True
    then show ?thesis by (intro exI [of _ i]) (subst health_loop.simps, auto simp: decides_def)
  next
    case False
    then have "health_loop clk up grp deadline i = health_loop clk up grp deadline (i + 1)"
      by (subst health_loop.simps) (simp add: decides_def)
    moreover obtain j where "i + 1 \<le> j" "j \<le> i + 1 + n" "decides clk up grp deadline j"
      "\<forall>l. i + 1 \<le> l \<longrightarrow> l < j \<longrightarrow> \<not> decides clk up grp deadline l"
      "health_loop clk up grp deadline (i + 1) = Some
        (if deadline \<le> clk j then (False, grp j) else if up j then (True, grp j) else (False, reap (grp j)))"
      using Suc.IH [of "i + 1"] Suc.prems by auto
    moreover have "\<not> decides clk up grp deadline l" if "i \<le> l" "l < j" for l
      using calculation(5) False that by (cases "l = i") auto
    ultimately show ?thesis by (intro exI [of _ j]) auto
  qed
qed

subsection \<open>Stopping\<close>

lemma stop_kills_group: "leader g \<noteq> Reaped \<Longrightarrow> stop_server resp (Some g) = (None, Some \<lparr>leader = Reaped, others = 0\<rparr>)"
  by (cases "leader g") (auto simp: stop_server_def Let_def sigterm_def sigkill_def reap_def proc_exited_def)

lemma stop_reaped: "leader g = Reaped \<Longrightarrow> stop_server resp (Some g) = (None, Some g)"
  by (simp add: stop_server_def Let_def reap_def proc_exited_def)

text \<open>The outcome of a start: bind attempt \<open>i\<close> and health probe \<open>j\<close> decide it.\<close>

abbreviation health_deadline :: "os_script \<Rightarrow> real" where
  "health_deadline os \<equiv> health_start os + health_timeout"

lemma start_server_outcome:
  assumes "sleeps (port_start os) (port_clk os)" and "sleeps (gpu_start os) (gpu_clk os)" and "sleeps (health_start os) (health_clk os)"
  obtains i j where "i \<le> 90" "port_bound os i \<or> port_start os + 180 \<le> port_clk os i"
    "j \<le> 240" "decides (health_clk os) (health_up os) (health_grp os) (health_deadline os) j"
    "\<forall>l<j. \<not> decides (health_clk os) (health_up os) (health_grp os) (health_deadline os) l"
    "start_server os env = Some
      (if \<not> port_bound os i then (Inl PortInUse, None, None)
       else if health_deadline os \<le> health_clk os j then (Inl NotHealthy, stop_server (stop_response os) (Some (health_grp os j)))
       else if health_up os j then (Inr True, Some (health_grp os j), Some (health_grp os j))
       else (Inl NotHealthy, stop_server (stop_response os) (Some (reap (health_grp os j)))))"
proof -
  obtain i where i: "i \<le> 90" "port_bound os i \<or> port_start os + 180 \<le> port_clk os i"
    "wait_for_port (port_clk os) (port_bound os) (port_start os + 180) 0 = Some (if port_bound os i then Inr i else Inl PortInUse)"
    using wait_for_port_ends [of "port_start os + 180" "port_clk os" 0 90 "port_bound os"] sleeps_past [OF assms(1), of 180 90]
    by auto
  obtain k where k: "wait_for_gpus (gpu_clk os) (gpu_used os) env (gpu_start os) = Some k"
    using wait_for_gpus_ends [OF assms(2)] by blast
  have "health_deadline os \<le> health_clk os (0 + 240)" using sleeps_past [OF assms(3), of 480 240] by (simp add: health_timeout_def)
  from health_loop_ends [of "health_deadline os" "health_clk os" 0 240 "health_up os" "health_grp os", OF this]
  obtain j where j: "j \<le> 240" "decides (health_clk os) (health_up os) (health_grp os) (health_deadline os) j"
    "\<forall>l<j. \<not> decides (health_clk os) (health_up os) (health_grp os) (health_deadline os) l"
    "health_loop (health_clk os) (health_up os) (health_grp os) (health_deadline os) 0 = Some
      (if health_deadline os \<le> health_clk os j then (False, health_grp os j)
       else if health_up os j then (True, health_grp os j) else (False, reap (health_grp os j)))"
    by auto
  show thesis by (rule that [OF i(1,2) j(1-3)]) (simp add: start_server_def i(3) k j(4))
qed

text \<open>C31: Starting a server always comes to an end, and says how. If every round of a waiting loop sleeps two
  seconds, \<open>start\<close> returns or raises after at most 91 bind attempts and 240 health probes: it raises for a
  port that never became free, having started nothing; or it returns True with the process kept, and then
  the server answered while its leader was running in every earlier round; or it raises because the server
  was not healthy, with the process object dropped. In that last case, if time ran out, no process of the
  group is left, whatever the server does on SIGTERM.\<close>

theorem start_server_returns:
  assumes "sleeps (port_start os) (port_clk os)" and "sleeps (gpu_start os) (gpu_clk os)" and "sleeps (health_start os) (health_clk os)"
    and "\<forall>j. leader (health_grp os j) \<noteq> Reaped"
  shows "\<exists>res proc alive. start_server os env = Some (res, proc, alive) \<and>
    (case res of
       Inl PortInUse \<Rightarrow> proc = None \<and> alive = None \<and> (\<exists>i\<le>90. \<not> port_bound os i \<and> port_start os + 180 \<le> port_clk os i)
     | Inl NotHealthy \<Rightarrow> proc = None \<and> (\<exists>j\<le>240. (\<forall>l<j. \<not> health_up os l) \<and>
         (health_start os + health_timeout \<le> health_clk os j \<and> alive = Some \<lparr>leader = Reaped, others = 0\<rparr> \<or>
          \<not> health_up os j \<and> proc_exited (health_grp os j)))
     | Inr b \<Rightarrow> b \<and> (\<exists>j<240. health_up os j \<and> proc = Some (health_grp os j) \<and> alive = proc \<and>
         (\<forall>l<j. \<not> health_up os l \<and> leader (health_grp os l) = Running)))"
proof -
  obtain i j where o: "i \<le> 90" "port_bound os i \<or> port_start os + 180 \<le> port_clk os i"
    "j \<le> 240" "decides (health_clk os) (health_up os) (health_grp os) (health_deadline os) j"
    "\<forall>l<j. \<not> decides (health_clk os) (health_up os) (health_grp os) (health_deadline os) l"
    "start_server os env = Some
      (if \<not> port_bound os i then (Inl PortInUse, None, None)
       else if health_deadline os \<le> health_clk os j then (Inl NotHealthy, stop_server (stop_response os) (Some (health_grp os j)))
       else if health_up os j then (Inr True, Some (health_grp os j), Some (health_grp os j))
       else (Inl NotHealthy, stop_server (stop_response os) (Some (reap (health_grp os j)))))"
    using start_server_outcome [OF assms(1-3)] .
  have before: "\<not> health_up os l \<and> leader (health_grp os l) = Running" if "l < j" for l
    using o(5) that by (simp add: decides_def proc_exited_def)
  have early: "j < 240" if "\<not> health_deadline os \<le> health_clk os j"
    using that o(3) sleeps_past [OF assms(3), of 480 240] by (cases "j = 240") (auto simp: health_timeout_def)
  consider "\<not> port_bound os i" | (time) "port_bound os i" "health_deadline os \<le> health_clk os j"
    | (up) "port_bound os i" "\<not> health_deadline os \<le> health_clk os j" "health_up os j"
    | (exited) "port_bound os i" "\<not> health_deadline os \<le> health_clk os j" "\<not> health_up os j" "proc_exited (health_grp os j)"
    using o(4) by (auto simp: decides_def)
  then show ?thesis
  proof cases
    case 1
    then show ?thesis using o by auto
  next
    case time
    then show ?thesis using o(3,6) before stop_kills_group assms(4) by auto
  next
    case up
    then show ?thesis using o(6) early before by auto
  next
    case exited
    then have "leader (reap (health_grp os j)) = Reaped" by (simp add: reap_def)
    then show ?thesis using exited o(3,6) before by (auto simp: stop_reaped)
  qed
qed

text \<open>A server whose leader exits during start-up leaves its other processes running. The health loop's
  \<open>poll\<close> reaps the leader, \<open>getpgid\<close> then fails in \<open>stop\<close>, and neither signal is sent: for any such start,
  however it goes, \<open>start\<close> raises and all other members of the group are still alive.\<close>

theorem early_exit_leaks_the_group:
  assumes "sleeps (port_start os) (port_clk os)" and "sleeps (gpu_start os) (gpu_clk os)" and "sleeps (health_start os) (health_clk os)"
    and "port_bound os 0" and "health_clk os j < health_start os + health_timeout"
    and "\<forall>l\<le>j. \<not> health_up os l" and "\<forall>l<j. leader (health_grp os l) = Running" and "leader (health_grp os j) = Zombie"
  shows "start_server os env = Some (Inl NotHealthy, None, Some \<lparr>leader = Reaped, others = others (health_grp os j)\<rparr>)"
proof -
  let ?dl = "health_start os + health_timeout"
  have clk: "health_clk os l < ?dl" if "l \<le> j" for l
    using sleeps_from [OF assms(3), of l "j - l"] that assms(5) by simp
  have "health_loop (health_clk os) (health_up os) (health_grp os) ?dl (j - n) = Some (False, reap (health_grp os j))"
    if "n \<le> j" for n
    using that
  proof (induction n)
    case 0
    then show ?case using assms(5,6,8) by (subst health_loop.simps) (simp add: proc_exited_def)
  next
    case (Suc n)
    then have "j - Suc n < j" "j - Suc n + 1 = j - n" by auto
    then show ?case using Suc clk [of "j - Suc n"] assms(6,7)
      by (subst health_loop.simps) (simp add: proc_exited_def)
  qed
  from this [of j] have h: "health_loop (health_clk os) (health_up os) (health_grp os) ?dl 0 =
      Some (False, reap (health_grp os j))" by simp
  have r: "reap (health_grp os j) = \<lparr>leader = Reaped, others = others (health_grp os j)\<rparr>"
    using assms(8) by (simp add: reap_def proc_exited_def)
  have p: "wait_for_port (port_clk os) (port_bound os) (port_start os + 180) 0 = Some (Inr 0)"
    using assms(4) by (subst wait_for_port.simps) simp
  obtain k where k: "wait_for_gpus (gpu_clk os) (gpu_used os) env (gpu_start os) = Some k"
    using wait_for_gpus_ends [OF assms(2)] by blast
  show ?thesis by (simp add: start_server_def p k h r stop_reaped)
qed

text \<open>The leader dies in the second round while three workers live.\<close>

definition demo_os :: "nat \<Rightarrow> os_script" where
  "demo_os n = \<lparr>port_start = 0, gpu_start = 0, health_start = 0, port_clk = (\<lambda>i. 2 * real i), port_bound = (\<lambda>i. True), gpu_clk = (\<lambda>i. 2 * real i), gpu_used = (\<lambda>i. None),
     health_clk = (\<lambda>i. 2 * real i), health_up = (\<lambda>i. False),
     health_grp = (\<lambda>i. \<lparr>leader = (if i < n then Running else Zombie), others = 3\<rparr>),
     stop_response = \<lparr>term_leader = True, term_left = 0\<rparr>\<rparr>"

lemma demo_os_sleeps:
  "sleeps (port_start (demo_os n)) (port_clk (demo_os n))"
  "sleeps (gpu_start (demo_os n)) (gpu_clk (demo_os n))"
  "sleeps (health_start (demo_os n)) (health_clk (demo_os n))"
  by (simp_all add: demo_os_def sleeps_def)

theorem early_exit_leaks_the_group_witness:
  "start_server (demo_os 1) [] = Some (Inl NotHealthy, None, Some \<lparr>leader = Reaped, others = 3\<rparr>)"
proof -
  have g: "others (health_grp (demo_os 1) 1) = 3" by (simp add: demo_os_def)
  show ?thesis
    using early_exit_leaks_the_group [OF demo_os_sleeps, of 1 1 "[]", unfolded g]
    by (force simp: demo_os_def health_timeout_def)
qed

theorem start_server_returns_witness:
  "\<exists>res proc alive. start_server (demo_os 1000) [] = Some (res, proc, alive)"
proof -
  have "\<forall>j. leader (health_grp (demo_os 1000) j) \<noteq> Reaped" by (simp add: demo_os_def)
  from start_server_returns [OF demo_os_sleeps this, of "[]"] show ?thesis by blast
qed

end
