(* ===== verification/Drivers.thy ===== *)
theory Drivers
  imports ApisBench Lifecycle Datasets
begin

text \<open>
  The benchmark loops around the clients: \<^verbatim>\<open>run_benchmark\<close> of \<^verbatim>\<open>benchmarks/ablations/bench.py\<close> and one repetition
  of \<^verbatim>\<open>run_apis_benchmark\<close> of \<^verbatim>\<open>benchmarks/ablations/bench_apis.py\<close>, over the server lifecycle of theory
  \<open>Lifecycle\<close>. What a started server and its measurement do is an argument; printing is left out.
\<close>

subsection \<open>Adapter directories and traces\<close>

text \<open>\<open>available\<close> is \<open>sorted(base.glob("adapter_*"))\<close>, \<open>exists\<close> the file system's answer.\<close>

definition adapter_candidates :: "string \<Rightarrow> int \<Rightarrow> nat \<Rightarrow> string list" where
  "adapter_candidates base rnk i =
     (let r = py_str rnk; k = py_str (int i)
      in map (\<lambda>s. base @ ''/'' @ s)
           [''adapter_r'' @ r @ ''_k'' @ k @ ''_s42'', ''adapter_r'' @ r @ ''_k'' @ k, ''adapter_'' @ k])"

definition list_adapters :: "(string \<Rightarrow> bool) \<Rightarrow> string list \<Rightarrow> string \<Rightarrow> nat \<Rightarrow> int \<Rightarrow> string list" where
  "list_adapters exists available base num_adapters rnk =
     map (\<lambda>i. case find exists (adapter_candidates base rnk i) of
                Some c \<Rightarrow> c
              | None \<Rightarrow> if available \<noteq> [] then available ! (i mod length available) else base) [0..<num_adapters]"

text \<open>\<open>ZIPF_ALPHA\<close> is 0.9.\<close>

definition bench_trace ::
  "'r rng_lib \<Rightarrow> generator \<Rightarrow> string \<Rightarrow> real \<Rightarrow> nat \<Rightarrow> int \<Rightarrow> int \<Rightarrow> py_error + load_request list" where
  "bench_trace lib g pattern rate n K seed =
     (if pattern = ''zipf'' then zipf lib g rate n K (9 / 10) seed
      else if pattern = ''uniform'' then Workload.uniform lib g rate n K seed
      else if pattern = ''identical'' then identical lib g rate n 0 seed
      else if pattern = ''distinct'' then distinct_pattern lib g rate n K seed
      else Inl ValueError)"

datatype server = AdapterSlotsSrv backend | VllmSrv base_backend | SloraSrv base_backend

text \<open>The backend of repetition \<open>i\<close>: each on its own port, S-LoRA with the default slots and no extra flags.\<close>

definition rep_server ::
  "environ \<Rightarrow> (string \<Rightarrow> string) \<Rightarrow> string \<Rightarrow> string \<Rightarrow> string \<Rightarrow> string list \<Rightarrow> int \<Rightarrow> int \<Rightarrow> int option \<Rightarrow> int option \<Rightarrow>
     int \<Rightarrow> int \<Rightarrow> string list option \<Rightarrow> nat \<Rightarrow> py_error + server" where
  "rep_server os to_lower name md mdl dirs prt tensor_par tmax thr rnk K extra i =
     (let rep_port = prt + int i; n = to_lower name
      in if n = ''adapterslots'' then
           map_sum id AdapterSlotsSrv (backend_init os mdl dirs rep_port tensor_par rnk (max 16 K) md tmax thr extra None)
         else if n = ''vllm'' then Inr (VllmSrv (base_init mdl dirs rep_port tensor_par rnk (max 16 K) extra None))
         else if n = ''slora'' then Inr (SloraSrv (base_init mdl dirs rep_port tensor_par rnk 16 None None))
         else Inl ValueError)"

subsection \<open>The repetitions\<close>

text \<open>\<open>trace\<close> makes the requests of a seed, \<open>serve\<close> the backend object of a repetition, \<open>start\<close> is its \<open>start()\<close>,
  and \<open>meas\<close> the body of the \<open>try\<close> with the \<open>stop()\<close> of its \<open>finally\<close>: the metrics or the exception.\<close>

type_synonym metrics = "(string, real option) dict"

datatype driver_error = ServerDown server_error | Raised py_error

fun rep_loop ::
  "(int \<Rightarrow> py_error + load_request list) \<Rightarrow> (nat \<Rightarrow> py_error + server) \<Rightarrow> (nat \<Rightarrow> server \<Rightarrow> server_error + bool) \<Rightarrow>
     (nat \<Rightarrow> server \<Rightarrow> load_request list \<Rightarrow> py_error + metrics) \<Rightarrow> nat \<Rightarrow> int list \<Rightarrow> metrics list \<Rightarrow>
     driver_error + metrics list" where
  "rep_loop trace serve start meas i [] results = Inr results"
| "rep_loop trace serve start meas i (seed # seeds) results =
     (case trace seed of
        Inl e \<Rightarrow> Inl (Raised e)
      | Inr requests \<Rightarrow>
          (case serve i of
             Inl e \<Rightarrow> Inl (Raised e)
           | Inr srv \<Rightarrow>
               (case start i srv of
                  Inl e \<Rightarrow> Inl (ServerDown e)
                | Inr ok \<Rightarrow>
                    if \<not> ok then rep_loop trace serve start meas (i + 1) seeds results
                    else (case meas i srv requests of
                            Inl e \<Rightarrow> Inl (Raised e)
                          | Inr m \<Rightarrow> rep_loop trace serve start meas (i + 1) seeds
                                     (results @ [dict_set ''seed'' (Some (of_int seed)) m])))))"

record bench_summary =
  bs_mean :: real
  bs_std :: real
  bs_min :: real
  bs_positive :: bool
  bs_gwar8 :: "real option"

text \<open>\<open>statistics.stdev\<close> of at least two values.\<close>

definition stdev :: "real list \<Rightarrow> real" where
  "stdev xs = (let m = sum_list xs / real (length xs)
     in sqrt (sum_list (map (\<lambda>x. (x - m)\<^sup>2) xs) / real (length xs - 1)))"

definition summarize_reps :: "metrics list \<Rightarrow> bench_summary option" where
  "summarize_reps results =
     (let tps = map (\<lambda>r. the (dict_get r ''throughput_toks'' None)) results
      in if tps = [] then None
         else Some \<lparr>bs_mean = py_round_to 2 (sum_list tps / real (length tps)),
                bs_std = py_round_to 2 (if 1 < length tps then stdev tps else 0),
                bs_min = py_round_to 2 (Min (set tps)), bs_positive = True,
                bs_gwar8 = (if dict_has (hd results) ''gwar8''
                  then Some (sum_list (map (\<lambda>r. the (dict_get r ''gwar8'' (Some 0))) results) / real (length results))
                  else None)\<rparr>)"

text \<open>\<open>run_benchmark\<close>: the result is written to the output file only when the loop has ended.\<close>

definition run_benchmark ::
  "(int \<Rightarrow> py_error + load_request list) \<Rightarrow> (nat \<Rightarrow> py_error + server) \<Rightarrow> (nat \<Rightarrow> server \<Rightarrow> server_error + bool) \<Rightarrow>
     (nat \<Rightarrow> server \<Rightarrow> load_request list \<Rightarrow> py_error + metrics) \<Rightarrow> int list \<Rightarrow>
     (driver_error + metrics list \<times> bench_summary option) \<times> (metrics list \<times> bench_summary option) option" where
  "run_benchmark trace serve start meas seeds =
     (case rep_loop trace serve start meas 0 seeds [] of
        Inl e \<Rightarrow> (Inl e, None)
      | Inr ms \<Rightarrow> (Inr (ms, summarize_reps ms), Some (ms, summarize_reps ms)))"

subsection \<open>Starting is all or nothing\<close>

text \<open>What \<open>start()\<close> answers for a server whose loops end.\<close>

definition start_answer :: "os_script \<Rightarrow> environ \<Rightarrow> server_error + bool" where
  "start_answer os env = (case start_server os env of Some (a, p, g) \<Rightarrow> a | None \<Rightarrow> Inl NotHealthy)"

lemma start_never_false: "start_answer os env = Inr b \<Longrightarrow> b"
  by (auto simp: start_answer_def start_server_def split: option.splits sum.splits prod.splits bool.splits)

lemma rep_loop_all:
  assumes "\<forall>j srv b. start j srv = Inr b \<longrightarrow> b" and "rep_loop trace serve start meas i seeds results = Inr ms"
  shows "length ms = length results + length seeds \<and> take (length results) ms = results \<and>
    (\<forall>k<length seeds. \<exists>srv. serve (i + k) = Inr srv \<and> start (i + k) srv = Inr True)"
  using assms(2)
proof (induction seeds arbitrary: i results)
  case (Cons seed seeds)
  obtain requests srv m where 1: "trace seed = Inr requests" "serve i = Inr srv" "start i srv = Inr True"
    "meas i srv requests = Inr m"
    "rep_loop trace serve start meas (i + 1) seeds (results @ [dict_set ''seed'' (Some (of_int seed)) m]) = Inr ms"
    using Cons.prems assms(1) by (auto split: sum.splits if_splits)
  note ih = Cons.IH [OF 1(5)]
  have "\<exists>srv. serve (i + k) = Inr srv \<and> start (i + k) srv = Inr True" if "k < Suc (length seeds)" for k
    using ih 1(2,3) that by (cases k) auto
  moreover have "take (length results) ms = results"
  proof -
    have "take (length results) (take (length results + 1) ms) = take (length results) (results @ [dict_set ''seed'' (Some (of_int seed)) m])"
      using ih by simp
    then show ?thesis by simp
  qed
  ultimately show ?case using ih by simp
qed simp

lemma rep_loop_down:
  assumes "\<forall>j srv b. start j srv = Inr b \<longrightarrow> b" and "k < length seeds" and "\<And>srv. serve (i + k) = Inr srv \<Longrightarrow> start (i + k) srv = Inl e"
  shows "\<exists>e. rep_loop trace serve start meas i seeds results = Inl e"
proof (cases "rep_loop trace serve start meas i seeds results")
  case (Inr ms)
  then show ?thesis using rep_loop_all [OF assms(1) Inr] assms(2,3) by force
qed simp

text \<open>A server that cannot be started loses the whole benchmark. With servers started by \<open>start()\<close>, which
  raises instead of answering False, the branch that reports a failed repetition and goes on is never taken:
  either every repetition started its server and the result file holds one row per seed, in order, or the
  benchmark raises and writes nothing; and if any one server does not start, it raises, whatever the
  repetitions before it measured.\<close>

theorem failed_start_loses_the_benchmark:
  assumes "\<forall>i srv. start i srv = start_answer (os i srv) (env i srv)"
    and "run_benchmark trace serve start meas seeds = (res, file)"
  shows "(case res of Inl e \<Rightarrow> file = None
          | Inr out \<Rightarrow> file = Some out \<and> length (fst out) = length seeds \<and>
              (\<forall>k<length seeds. \<exists>srv. serve k = Inr srv \<and> start k srv = Inr True)) \<and>
    (\<forall>k<length seeds. \<forall>e. (\<forall>srv. serve k = Inr srv \<longrightarrow> start k srv = Inl e) \<longrightarrow> (\<exists>e. res = Inl e) \<and> file = None)"
proof -
  have true: "\<forall>j srv b. start j srv = Inr b \<longrightarrow> b" using assms(1) by (auto dest: start_never_false)
  have "case res of Inl e \<Rightarrow> file = None
          | Inr out \<Rightarrow> file = Some out \<and> length (fst out) = length seeds \<and>
              (\<forall>k<length seeds. \<exists>srv. serve k = Inr srv \<and> start k srv = Inr True)"
    using assms(2) rep_loop_all [where start = start and trace = trace and serve = serve and meas = meas and i = 0 and seeds = seeds
        and results = "[]", OF true]
    by (cases "rep_loop trace serve start meas 0 seeds []") (auto simp: run_benchmark_def)
  moreover have "(\<exists>e. res = Inl e) \<and> file = None" if "k < length seeds" "\<forall>srv. serve k = Inr srv \<longrightarrow> start k srv = Inl e" for k e
    using assms(2) rep_loop_down [where start = start and k = k and seeds = seeds and serve = serve and i = 0 and e = e and trace = trace
        and meas = meas and results = "[]", OF true that(1)] that(2)
    by (auto simp: run_benchmark_def)
  ultimately show ?thesis by blast
qed

subsection \<open>One repetition on two servers and a baseline\<close>

text \<open>\<open>runner.start()\<close>: the second server is started when the first answers. The result is the answer or the
  exception, and the process objects of the two backends.\<close>

definition apis_start ::
  "os_script \<Rightarrow> environ \<Rightarrow> os_script \<Rightarrow> environ \<Rightarrow> ((server_error + bool) \<times> pgroup option \<times> pgroup option) option" where
  "apis_start os_a env_a os_b env_b =
     (case start_server os_a env_a of
        None \<Rightarrow> None
      | Some (Inl e, proc_a, group_a) \<Rightarrow> Some (Inl e, group_a, None)
      | Some (Inr ok_a, proc_a, group_a) \<Rightarrow>
          (case start_server os_b env_b of
             None \<Rightarrow> None
           | Some (Inl e, proc_b, group_b) \<Rightarrow> Some (Inl e, group_a, group_b)
           | Some (Inr ok_b, proc_b, group_b) \<Rightarrow> Some (Inr (ok_a \<and> ok_b), group_a, group_b)))"

text \<open>One repetition: both starts stand before the \<open>try\<close> whose \<open>finally\<close> stops the servers. \<open>aw_during\<close> is what
  becomes of a server's group while the load runs, \<open>run\<close> the two-server measurement and \<open>base_run\<close> that of the
  baseline. The result is the row, \<open>None\<close> for a skipped one, or the exception, and the three groups afterwards.\<close>

record apis_world =
  aw_a :: os_script
  aw_b :: os_script
  aw_base :: os_script
  aw_env_a :: environ
  aw_env_b :: environ
  aw_env_base :: environ
  aw_during :: "pgroup \<Rightarrow> pgroup"

definition stop_group :: "os_script \<Rightarrow> (pgroup \<Rightarrow> pgroup) \<Rightarrow> pgroup option \<Rightarrow> pgroup option" where
  "stop_group os during g = snd (stop_server (stop_response os) (map_option during g))"

definition apis_row :: "int \<Rightarrow> summary \<Rightarrow> summary \<Rightarrow> combined \<Rightarrow> real \<Rightarrow> metrics" where
  "apis_row seed sa sb cb baseline_tps =
     [(''seed'', Some (of_int seed)),
      (''gpu0_throughput_toks'', Some (py_round_to 2 (throughput_toks sa))),
      (''gpu1_throughput_toks'', Some (py_round_to 2 (throughput_toks sb))),
      (''apis_throughput_toks'', Some (py_round_to 2 (cb_throughput cb))),
      (''apis_ttft_p99_ms'', map_option (py_round_to 1) (cb_ttft_p99 cb)),
      (''apis_slo_attainment'', Some (py_round_to 4 (cb_slo cb))),
      (''baseline_tp2_toks'', Some (py_round_to 2 baseline_tps)),
      (''ratio'', Some (py_round_to 4 (cb_throughput cb / max baseline_tps 1)))]"

definition measured_row ::
  "int \<Rightarrow> py_error + summary \<times> summary \<times> combined \<Rightarrow> py_error + metrics \<Rightarrow> bool \<Rightarrow> py_error + metrics" where
  "measured_row seed run base_run base_ok =
     (case run of
        Inl e \<Rightarrow> Inl e
      | Inr (sa, sb, cb) \<Rightarrow>
          (if base_ok then map_sum id (\<lambda>m. apis_row seed sa sb cb (the (dict_get m ''throughput_toks'' None))) base_run
           else Inr (apis_row seed sa sb cb 0)))"

definition apis_rep ::
  "apis_world \<Rightarrow> int \<Rightarrow> py_error + summary \<times> summary \<times> combined \<Rightarrow> py_error + metrics \<Rightarrow>
     ((driver_error + metrics option) \<times> pgroup option \<times> pgroup option \<times> pgroup option) option" where
  "apis_rep W seed run base_run =
     (case apis_start (aw_a W) (aw_env_a W) (aw_b W) (aw_env_b W) of
        None \<Rightarrow> None
      | Some (Inl e, ga, gb) \<Rightarrow> Some (Inl (ServerDown e), ga, gb, None)
      | Some (Inr apis_ok, ga, gb) \<Rightarrow>
          (case start_server (aw_base W) (aw_env_base W) of
             None \<Rightarrow> None
           | Some (Inl e, proc, gc) \<Rightarrow> Some (Inl (ServerDown e), ga, gb, gc)
           | Some (Inr base_ok, proc, gc) \<Rightarrow>
               Some (if \<not> apis_ok then Inr None else map_sum Raised Some (measured_row seed run base_run base_ok),
                     stop_group (aw_a W) (aw_during W) ga, stop_group (aw_b W) (aw_during W) gb,
                     stop_group (aw_base W) (aw_during W) gc)))"

text \<open>The summary of the rows; \<open>None\<close> stands for the summary that says no repetition completed.\<close>

record apis_summary =
  as_throughput_mean :: real
  as_throughput_std :: real
  as_ratio_mean :: real
  as_ratio_min :: real

definition summarize_apis :: "metrics list \<Rightarrow> apis_summary option" where
  "summarize_apis rows =
     (if rows = [] then None
      else (let apis = map (\<lambda>r. the (dict_get r ''apis_throughput_toks'' None)) rows;
                ratios = map (\<lambda>r. the (dict_get r ''ratio'' None)) rows
            in Some \<lparr>as_throughput_mean = py_round_to 2 (sum_list apis / real (length apis)),
                 as_throughput_std = py_round_to 2 (if 1 < length apis then stdev apis else 0),
                 as_ratio_mean = py_round_to 4 (sum_list ratios / real (length ratios)),
                 as_ratio_min = py_round_to 4 (Min (set ratios))\<rparr>))"

text \<open>What the clocks of a start do, and that a group's leader is reaped by nobody but its parent.\<close>

definition paced :: "os_script \<Rightarrow> bool" where
  "paced os \<longleftrightarrow> sleeps (port_start os) (port_clk os) \<and> sleeps (gpu_start os) (gpu_clk os) \<and>
     sleeps (health_start os) (health_clk os) \<and> (\<forall>j. leader (health_grp os j) \<noteq> Reaped)"

lemma start_server_cases:
  assumes "paced os"
  obtains j where "start_server os env = Some (Inr True, Some (health_grp os j), Some (health_grp os j))" "health_up os j"
  | e g where "start_server os env = Some (Inl e, None, g)"
proof -
  have gone: "stop_server resp (Some g) = (None, snd (stop_server resp (Some g)))" for resp g by (simp add: stop_server_def Let_def)
  have s: "sleeps (port_start os) (port_clk os)" "sleeps (gpu_start os) (gpu_clk os)" "sleeps (health_start os) (health_clk os)"
    using assms by (simp_all add: paced_def)
  show thesis
  proof (rule start_server_outcome [OF s, of env])
    fix i j assume "start_server os env = Some
      (if \<not> port_bound os i then (Inl PortInUse, None, None)
       else if health_deadline os \<le> health_clk os j then (Inl NotHealthy, stop_server (stop_response os) (Some (health_grp os j)))
       else if health_up os j then (Inr True, Some (health_grp os j), Some (health_grp os j))
       else (Inl NotHealthy, stop_server (stop_response os) (Some (reap (health_grp os j)))))"
    then have "(\<exists>e g. start_server os env = Some (Inl e, None, g)) \<or>
        start_server os env = Some (Inr True, Some (health_grp os j), Some (health_grp os j)) \<and> health_up os j"
      using gone [of "stop_response os"] by (auto split: if_splits)
    then show thesis using that by blast
  qed
qed

lemma stop_group_kills:
  "leader (during g) \<noteq> Reaped \<Longrightarrow> stop_group os during (Some g) = Some \<lparr>leader = Reaped, others = 0\<rparr>"
  by (simp add: stop_group_def stop_kills_group)

text \<open>A server that fails to start leaves the servers started before it running. One repetition of the
  two-server benchmark always comes to an end. When all three servers answer, every one of their process
  groups is dead afterwards, whether the measurement succeeded or raised. But when the second server or the
  baseline does not start, the repetition raises and each server that had already answered still has the
  processes it had then: the starts stand before the \<open>try\<close>.\<close>

theorem failed_start_leaks_earlier_servers:
  assumes "paced (aw_a W)" and "paced (aw_b W)" and "paced (aw_base W)" and "\<forall>g. leader (aw_during W g) \<noteq> Reaped"
  shows "\<exists>res ga gb gc. apis_rep W seed run base_run = Some (res, ga, gb, gc) \<and>
    (case res of
       Inl (ServerDown e) \<Rightarrow>
         (start_answer (aw_a W) (aw_env_a W) = Inl e) \<or>
         (\<exists>j. health_up (aw_a W) j \<and> ga = Some (health_grp (aw_a W) j)) \<and>
         (start_answer (aw_b W) (aw_env_b W) = Inl e \<or>
          (\<exists>j. health_up (aw_b W) j \<and> gb = Some (health_grp (aw_b W) j)) \<and> start_answer (aw_base W) (aw_env_base W) = Inl e)
     | _ \<Rightarrow> start_answer (aw_a W) (aw_env_a W) = Inr True \<and> start_answer (aw_b W) (aw_env_b W) = Inr True \<and>
         start_answer (aw_base W) (aw_env_base W) = Inr True \<and>
         res = map_sum Raised Some (measured_row seed run base_run True) \<and>
         (\<forall>g\<in>{ga, gb, gc}. g = Some \<lparr>leader = Reaped, others = 0\<rparr>))"
proof -
  note defs = apis_rep_def apis_start_def start_answer_def
  show ?thesis
  proof (rule start_server_cases [OF assms(1), of "aw_env_a W"])
    fix j assume a: "start_server (aw_a W) (aw_env_a W) = Some (Inr True, Some (health_grp (aw_a W) j), Some (health_grp (aw_a W) j))"
      and ua: "health_up (aw_a W) j"
    show ?thesis
    proof (rule start_server_cases [OF assms(2), of "aw_env_b W"])
      fix k assume b: "start_server (aw_b W) (aw_env_b W) = Some (Inr True, Some (health_grp (aw_b W) k), Some (health_grp (aw_b W) k))"
        and ub: "health_up (aw_b W) k"
      show ?thesis
      proof (rule start_server_cases [OF assms(3), of "aw_env_base W"])
        fix l assume "start_server (aw_base W) (aw_env_base W) = Some (Inr True, Some (health_grp (aw_base W) l), Some (health_grp (aw_base W) l))"
        then show ?thesis using a b assms(4)
          by (cases "measured_row seed run base_run True") (simp_all add: defs stop_group_kills)
      qed (use a ua b ub in \<open>auto simp: defs\<close>)
    qed (use a ua in \<open>auto simp: defs\<close>)
  qed (auto simp: defs)
qed

text \<open>The witnesses: the first repetition's server never comes up; of the three servers the baseline does not.\<close>

definition up_os :: os_script where
  "up_os = (demo_os 1000)\<lparr>health_up := (\<lambda>i. True)\<rparr>"

lemma up_os_paced: "paced up_os"
  by (simp add: paced_def up_os_def demo_os_def sleeps_def)

definition down_os :: os_script where
  "down_os = (demo_os 1000)\<lparr>port_bound := (\<lambda>i. False)\<rparr>"

lemma down_os_paced: "paced down_os"
  by (simp add: paced_def down_os_def demo_os_def sleeps_def)

lemma up_answers: "start_answer up_os env = Inr True"
proof -
  have "health_loop (health_clk up_os) (health_up up_os) (health_grp up_os) (health_start up_os + health_timeout) 0 =
      Some (True, health_grp up_os 0)"
    by (subst health_loop.simps) (simp add: up_os_def demo_os_def health_timeout_def)
  moreover have "wait_for_port (port_clk up_os) (port_bound up_os) (port_start up_os + 180) 0 = Some (Inr 0)"
    by (subst wait_for_port.simps) (simp add: up_os_def demo_os_def)
  moreover obtain k where "wait_for_gpus (gpu_clk up_os) (gpu_used up_os) env (gpu_start up_os) = Some k"
    using wait_for_gpus_ends [of "gpu_start up_os" "gpu_clk up_os" "gpu_used up_os" env] up_os_paced unfolding paced_def by blast
  ultimately show ?thesis by (simp add: start_answer_def start_server_def)
qed

lemma down_answers: "start_answer down_os env = Inl PortInUse"
proof -
  obtain j where "wait_for_port (port_clk down_os) (port_bound down_os) (port_start down_os + 180) 0 =
      Some (if port_bound down_os j then Inr j else Inl PortInUse)"
    using wait_for_port_ends [of "port_start down_os + 180" "port_clk down_os" 0 90 "port_bound down_os"]
    by (auto simp: down_os_def demo_os_def)
  then show ?thesis by (simp add: start_answer_def start_server_def down_os_def demo_os_def)
qed

theorem failed_start_loses_the_benchmark_witness:
  "fst (run_benchmark (\<lambda>s. Inr []) (\<lambda>i. Inr (VllmSrv (base_init [] [] 8100 1 8 16 None None)))
     (\<lambda>i srv. start_answer (if i = 0 then up_os else down_os) []) (\<lambda>i srv reqs. Inr []) [42, 43]) \<noteq> Inr ([], None)"
proof -
  let ?start = "\<lambda>(i :: nat) (srv :: server). start_answer (if i = 0 then up_os else down_os) []"
  let ?R = "run_benchmark (\<lambda>s. Inr []) (\<lambda>i. Inr (VllmSrv (base_init [] [] 8100 1 8 16 None None))) ?start (\<lambda>i srv reqs. Inr []) [42, 43]"
  have down: "?start 1 srv = Inl PortInUse" for srv using down_answers [of "[]"] by simp
  have "\<exists>e. fst ?R = Inl e"
    using conjunct2 [OF failed_start_loses_the_benchmark [of ?start "\<lambda>i srv. if i = 0 then up_os else down_os" "\<lambda>i srv. []"
        "\<lambda>s. Inr []" "\<lambda>i. Inr (VllmSrv (base_init [] [] 8100 1 8 16 None None))" "\<lambda>i srv reqs. Inr []" "[42, 43]"
        "fst ?R" "snd ?R"], rule_format, of 1 PortInUse] down
    by simp
  then show ?thesis by auto
qed

definition demo_world :: apis_world where
  "demo_world = \<lparr>aw_a = up_os, aw_b = up_os, aw_base = down_os, aw_env_a = [], aw_env_b = [], aw_env_base = [],
     aw_during = (\<lambda>g. g\<lparr>leader := Running\<rparr>)\<rparr>"

theorem failed_start_leaks_earlier_servers_witness:
  "\<exists>j k gc. apis_rep demo_world 42 (Inl ValueError) (Inl ValueError) =
     Some (Inl (ServerDown PortInUse), Some (health_grp up_os j), Some (health_grp up_os k), gc)"
proof -
  have world: "paced (aw_a demo_world)" "paced (aw_b demo_world)" "paced (aw_base demo_world)" "\<forall>g. leader (aw_during demo_world g) \<noteq> Reaped"
    by (simp_all add: demo_world_def up_os_paced down_os_paced)
  have "aw_a demo_world = up_os" "aw_b demo_world = up_os" "aw_base demo_world = down_os" by (simp_all add: demo_world_def)
  note answers = this
  obtain res ga gb gc where r: "apis_rep demo_world 42 (Inl ValueError) (Inl ValueError) = Some (res, ga, gb, gc)"
    "case res of
       Inl (ServerDown e) \<Rightarrow> (\<exists>j. ga = Some (health_grp up_os j)) \<and> (\<exists>j. gb = Some (health_grp up_os j)) \<and> PortInUse = e
     | _ \<Rightarrow> False"
    using failed_start_leaks_earlier_servers [OF world, of 42 "Inl ValueError" "Inl ValueError"]
    by (elim exE conjE) (auto simp: answers up_answers down_answers split: sum.splits driver_error.splits)
  then show ?thesis by (auto split: sum.splits driver_error.splits)
qed

end
