(* ===== verification/AdapterPool.thy ===== *)
theory AdapterPool
  imports Drivers
begin

text \<open>
  The adapters a benchmark serves: \<^verbatim>\<open>scripts/gen_adapters.py\<close> writes one directory per rank and index, and
  \<open>_list_adapters\<close> of the benchmarks looks them up again.
\<close>

subsection \<open>Names of generated adapters\<close>

definition generated_adapter :: "int \<Rightarrow> int \<Rightarrow> int \<Rightarrow> string" where
  "generated_adapter rnk k seed = ''adapter_r'' @ py_str rnk @ ''_k'' @ py_str k @ ''_s'' @ py_str seed"

record manifest_entry =
  mf_name :: string
  mf_rank :: int
  mf_k :: int
  mf_seed :: int

definition gen_manifest :: "int \<Rightarrow> int \<Rightarrow> nat \<Rightarrow> int list \<Rightarrow> manifest_entry list" where
  "gen_manifest base_seed start_k K ranks =
     concat (map (\<lambda>r. map (\<lambda>i. let k = start_k + int i; s = base_seed + k
         in \<lparr>mf_name = generated_adapter r k s, mf_rank = r, mf_k = k, mf_seed = s\<rparr>) [0..<K]) ranks)"

subsection \<open>Names are read back\<close>

lemma py_str_chars:
  assumes "c \<in> set (py_str i)"
  shows "c \<noteq> CHR ''_''" and "c \<noteq> CHR ''r''"
proof -
  have "c = CHR ''-'' \<or> digit_value c \<noteq> None"
    using assms nat_digits_digits [of "nat \<bar>i\<bar>"] by (auto simp: py_str_def list_all_iff split: if_splits)
  then show "c \<noteq> CHR ''_''" "c \<noteq> CHR ''r''" by (auto simp: digit_value_def)
qed

lemma cut_at: "c \<notin> set a \<Longrightarrow> c \<notin> set a' \<Longrightarrow> a @ c # x = a' @ c # y \<longleftrightarrow> a = a' \<and> x = y"
proof (induction a arbitrary: a')
  case Nil
  then show ?case by (cases a') auto
next
  case (Cons d a)
  then show ?case by (cases a') auto
qed

lemma generated_adapter_inj:
  "generated_adapter r k s = generated_adapter r' k' s' \<longleftrightarrow> r = r' \<and> k = k' \<and> s = s'"
proof -
  have "CHR ''_'' \<notin> set (py_str i)" for i using py_str_chars by blast
  then show ?thesis
    by (simp add: generated_adapter_def cut_at [of "CHR ''_''" "py_str r" "py_str r'", simplified]
        cut_at [of "CHR ''_''" "py_str k" "py_str k'", simplified])
      (metis py_str_inj)
qed

lemma short_names_not_generated:
  "''adapter_r'' @ py_str r @ ''_k'' @ py_str k \<noteq> generated_adapter r' k' s'"
  "''adapter_'' @ py_str k \<noteq> generated_adapter r' k' s'"
proof -
  have n: "CHR ''_'' \<notin> set (py_str i)" "CHR ''r'' \<notin> set (py_str i)" for i using py_str_chars by blast+
  have "py_str k \<noteq> py_str k' @ CHR ''_'' # x" for x using n(1) [of k] by (metis in_set_conv_decomp)
  then show "''adapter_r'' @ py_str r @ ''_k'' @ py_str k \<noteq> generated_adapter r' k' s'"
    using n(1) by (simp add: generated_adapter_def cut_at [of "CHR ''_''" "py_str r" "py_str r'", simplified])
  show "''adapter_'' @ py_str k \<noteq> generated_adapter r' k' s'"
    using n(2) [of k] by (auto simp: generated_adapter_def dest: arg_cong [where f = set])
qed

subsection \<open>Looking adapters up\<close>

text \<open>The paths of a pool, and a directory that has no other entries named \<open>adapter_*\<close>.\<close>

definition pool_paths :: "string \<Rightarrow> manifest_entry list \<Rightarrow> string set" where
  "pool_paths base es = (\<lambda>e. base @ ''/'' @ mf_name e) ` set es"

definition holds_pool :: "(string \<Rightarrow> bool) \<Rightarrow> string list \<Rightarrow> string \<Rightarrow> manifest_entry list \<Rightarrow> bool" where
  "holds_pool exists available base es \<longleftrightarrow> set available = pool_paths base es \<and>
     (\<forall>nm. exists (base @ ''/adapter_'' @ nm) \<longleftrightarrow> base @ ''/adapter_'' @ nm \<in> pool_paths base es)"

lemma in_manifest:
  "mf \<in> mf_name ` set (gen_manifest b start K ranks) \<longleftrightarrow>
     (\<exists>r\<in>set ranks. \<exists>i<K. mf = generated_adapter r (start + int i) (b + (start + int i)))"
proof -
  have "mf_name ` set (gen_manifest b start K ranks) =
      (\<Union>r\<in>set ranks. (\<lambda>i. generated_adapter r (start + int i) (b + (start + int i))) ` {0..<K})"
    by (simp add: gen_manifest_def Let_def image_UN image_image)
  then show ?thesis by (simp only: UN_iff image_iff Bex_def atLeastLessThan_iff) auto
qed

lemma lookup_generated:
  assumes "holds_pool exists available base (gen_manifest b start K ranks)"
  shows "exists (base @ ''/'' @ generated_adapter r (int i) s) \<longleftrightarrow>
      r \<in> set ranks \<and> start \<le> int i \<and> int i < start + int K \<and> s = b + int i"
    and "\<not> exists (base @ ''/adapter_r'' @ py_str r @ ''_k'' @ py_str (int i))"
    and "\<not> exists (base @ ''/adapter_'' @ py_str (int i))"
proof -
  have ex: "exists (base @ ''/adapter_'' @ nm) \<longleftrightarrow> ''adapter_'' @ nm \<in> mf_name ` set (gen_manifest b start K ranks)" for nm
    using assms by (auto simp: holds_pool_def pool_paths_def)
  have "exists (base @ ''/'' @ generated_adapter r (int i) s) \<longleftrightarrow>
      (\<exists>r'\<in>set ranks. \<exists>j<K. generated_adapter r (int i) s = generated_adapter r' (start + int j) (b + (start + int j)))"
    using ex [of "''r'' @ py_str r @ ''_k'' @ py_str (int i) @ ''_s'' @ py_str s"] by (simp add: in_manifest generated_adapter_def)
  also have "\<dots> \<longleftrightarrow> r \<in> set ranks \<and> (\<exists>j<K. int i = start + int j \<and> s = b + (start + int j))"
    by (auto simp: generated_adapter_inj)
  also have "\<dots> \<longleftrightarrow> r \<in> set ranks \<and> start \<le> int i \<and> int i < start + int K \<and> s = b + int i"
    by (auto intro: exI [of _ "nat (int i - start)"])
  finally show "exists (base @ ''/'' @ generated_adapter r (int i) s) \<longleftrightarrow>
      r \<in> set ranks \<and> start \<le> int i \<and> int i < start + int K \<and> s = b + int i" .
  show "\<not> exists (base @ ''/adapter_r'' @ py_str r @ ''_k'' @ py_str (int i))"
    using ex [of "''r'' @ py_str r @ ''_k'' @ py_str (int i)"] short_names_not_generated(1) by (auto simp: in_manifest)
  show "\<not> exists (base @ ''/adapter_'' @ py_str (int i))"
    using ex [of "py_str (int i)"] short_names_not_generated(2) by (auto simp: in_manifest)
qed

text \<open>The rank of generated adapters is hardly looked at. \<open>_list_adapters\<close> looks for the name of seed 42, but
  \<^verbatim>\<open>gen_adapters.py\<close> names adapter \<open>k\<close> after seed \<open>base_seed + k\<close>. In a directory generated for any ranks, entry i is
  the adapter of that rank and index only where \<open>base_seed + i\<close> is 42, so at most once; every other entry
  is the i-th adapter of the directory in file name order, cyclically, whatever its rank, and so the
  same for servers of different ranks.\<close>

theorem rank_of_generated_adapters_is_ignored:
  assumes "holds_pool exists available base (gen_manifest b start K ranks)" and "available \<noteq> []" and "i < n"
  shows "list_adapters exists available base n rnk ! i =
      (if b + int i = 42 \<and> rnk \<in> set ranks \<and> start \<le> int i \<and> int i < start + int K
       then base @ ''/'' @ generated_adapter rnk (int i) 42 else available ! (i mod length available)) \<and>
    (b + int i \<noteq> 42 \<longrightarrow> (\<forall>rnk2. list_adapters exists available base n rnk2 ! i = list_adapters exists available base n rnk ! i))"
proof -
  have cand: "adapter_candidates base r i = [base @ ''/'' @ generated_adapter r (int i) 42,
      base @ ''/adapter_r'' @ py_str r @ ''_k'' @ py_str (int i), base @ ''/adapter_'' @ py_str (int i)]" for r
  proof -
    have "py_str 42 = ''42''" by code_simp
    then show ?thesis by (simp add: adapter_candidates_def Let_def generated_adapter_def)
  qed
  have found: "find exists (adapter_candidates base r i) =
      (if b + int i = 42 \<and> r \<in> set ranks \<and> start \<le> int i \<and> int i < start + int K
       then Some (base @ ''/'' @ generated_adapter r (int i) 42) else None)" for r
    unfolding cand by (simp only: find.simps lookup_generated [OF assms(1)] if_False) auto
  have each: "list_adapters exists available base n r ! i =
      (if b + int i = 42 \<and> r \<in> set ranks \<and> start \<le> int i \<and> int i < start + int K
       then base @ ''/'' @ generated_adapter r (int i) 42 else available ! (i mod length available))" for r
    using assms(2,3) by (simp add: list_adapters_def found)
  show ?thesis by (simp add: each)
qed

text \<open>Two adapters of rank 16 and two of rank 32 in one directory: a rank-32 server gets a rank-16 adapter.\<close>

definition demo_pool :: "string list" where
  "demo_pool = map (\<lambda>e. ''d/'' @ mf_name e) (gen_manifest 42 0 2 [16, 32])"

theorem rank_of_generated_adapters_is_ignored_witness:
  "list_adapters (\<lambda>s. s \<in> set demo_pool) demo_pool ''d'' 2 32 ! 1 = ''d/adapter_r16_k1_s43''"
proof -
  have pool: "holds_pool (\<lambda>s. s \<in> set demo_pool) demo_pool ''d'' (gen_manifest 42 0 2 [16, 32])"
    by (simp add: holds_pool_def demo_pool_def pool_paths_def)
  have "demo_pool ! 1 = ''d/adapter_r16_k1_s43''" and n: "demo_pool \<noteq> []" "length demo_pool = 4"
    by code_simp+
  then show ?thesis using rank_of_generated_adapters_is_ignored [OF pool n(1), of 1 2 32] by simp
qed

end
