(* ===== verification/Sweep.thy ===== *)
theory Sweep
  imports Drivers L3
begin

text \<open>
  The experiment sweeps of \<^verbatim>\<open>benchmarks/paper/\<close>: \<^verbatim>\<open>common.py\<close> (ports, the results file, the settings of the
  AdapterSlots arms) and the loop of \<^verbatim>\<open>cell.py\<close>, which runs one serving cell per tag and can be resumed; the
  arms of \<^verbatim>\<open>k10.py\<close>. What a run does is an argument, and so are \<open>os.path.abspath\<close>, the ports that can be bound
  and \<open>json\<close>.
\<close>

subsection \<open>Shared helpers\<close>

type_synonym files = "string \<Rightarrow> string option"

text \<open>\<open>setup\<close>: the environment it leaves.\<close>

definition setup_env :: "string \<Rightarrow> environ \<Rightarrow> environ" where
  "setup_env gpu env =
     dict_setdefault ''BENCH_TIMEOUT'' ''3600'' (dict_setdefault ''BENCH_CONN_LIMIT'' ''1024''
       (dict_set ''CUDA_VISIBLE_DEVICES'' (dict_get env ''GPU'' gpu) env))"

text \<open>\<open>bind\<close> raises OverflowError for a port number that does not exist; \<open>binds\<close> tells which ports accept.\<close>

function free_port :: "(int \<Rightarrow> bool) \<Rightarrow> int \<Rightarrow> py_error + int" where
  "free_port binds prt =
     (if prt < 0 \<or> 65535 < prt then Inl OverflowError
      else if binds prt then Inr prt
      else free_port binds (prt + 1))"
  by pat_completeness auto
termination
  by (relation "measure (\<lambda>(binds, prt). nat (65536 - prt))") auto

declare free_port.simps [simp del]

definition results_path :: "string \<Rightarrow> string" where
  "results_path out = out @ ''/results.json''"

definition load_results :: "json_lib \<Rightarrow> files \<Rightarrow> string \<Rightarrow> load_error + json" where
  "load_results lib fs out =
     (case fs (results_path out) of None \<Rightarrow> Inr (JObj []) | Some content \<Rightarrow> parse_json lib content)"

text \<open>\<open>res[tag] = row\<close>: only a dict takes a string as index.\<close>

fun json_set :: "json \<Rightarrow> string \<Rightarrow> json \<Rightarrow> load_error + json" where
  "json_set (JObj kvs) k v = Inr (JObj (dict_set k v kvs))"
| "json_set w k v = Inl (PyError TypeError)"

definition record_row :: "json_lib \<Rightarrow> files \<Rightarrow> string \<Rightarrow> string \<Rightarrow> json \<Rightarrow> load_error + files" where
  "record_row lib fs out tag row =
     (case load_results lib fs out of
        Inl e \<Rightarrow> Inl e
      | Inr res \<Rightarrow> map_sum id (\<lambda>res. fs(results_path out := Some (js_dumps lib res))) (json_set res tag row))"

text \<open>\<open>tag in res\<close>.\<close>

fun json_has :: "json \<Rightarrow> string \<Rightarrow> load_error + bool" where
  "json_has (JObj kvs) k = Inr (dict_has kvs k)"
| "json_has (JList xs) k = Inr (JStr k \<in> set xs)"
| "json_has (JStr s) k = Inr (sublist k s)"
| "json_has v k = Inl (PyError TypeError)"

definition as_env :: "environ \<Rightarrow> environ" where
  "as_env env = [(''AS_MWC_K_HOT'', ''5''), (''AS_SEGGEMM'', dict_get env ''SEGMODE'' ''3''), (''AS_SEGGEMM_MIN_TOKENS'', ''64'')]"

fun strip_scheduler_steps :: "string list \<Rightarrow> string list" where
  "strip_scheduler_steps [] = []"
| "strip_scheduler_steps [a] = (if a = ''--num-scheduler-steps'' then [] else [a])"
| "strip_scheduler_steps (a # b # as) =
     (if a = ''--num-scheduler-steps'' then strip_scheduler_steps as else a # strip_scheduler_steps (b # as))"

text \<open>The server classes of \<open>vllm_nolora_backend\<close> and \<open>vllm050_backend\<close>. vLLM 0.5.0 is asked without streaming: \<open>usage\<close> is
  the token count of the body, \<open>None\<close> if the request fails.\<close>

definition nolora_cmd :: "string \<Rightarrow> 'z base_backend_scheme \<Rightarrow> string list" where
  "nolora_cmd py b =
     [py, ''-m'', ''vllm.entrypoints.openai.api_server'', ''--model'', be_model b, ''--port'', py_str (port b),
      ''--tensor-parallel-size'', py_str (tp b)] @ extra_args b"

definition nolora_payload :: "'z base_backend_scheme \<Rightarrow> string \<Rightarrow> int \<Rightarrow> int \<Rightarrow> string \<times> payload" where
  "nolora_payload b pr adapter maxt =
     (''http://localhost:'' @ py_str (port b) @ ''/v1/completions'',
      \<lparr>pl_model = be_model b, pl_prompt = pr, pl_max_tokens = maxt, pl_temperature = 0\<rparr>)"

definition vllm050_cmd :: "string \<Rightarrow> string \<Rightarrow> 'z base_backend_scheme \<Rightarrow> string list" where
  "vllm050_cmd python py b = (vllm_cmd py b)[0 := python]"

definition vllm050_stream :: "int option \<Rightarrow> string \<Rightarrow> real \<Rightarrow> collector \<Rightarrow> (collector \<times> int) option" where
  "vllm050_stream usage rid t co = map_option (\<lambda>n. (record_first_token rid t co, n)) usage"

subsection \<open>The cells\<close>

fun split_char :: "char \<Rightarrow> string \<Rightarrow> string \<Rightarrow> string list" where
  "split_char s [] acc = [acc]"
| "split_char s (c # cs) acc = (if c = s then acc # split_char s cs [] else split_char s cs (acc @ [c]))"

record cell =
  ce_mt :: string
  ce_seqs :: string
  ce_arm :: string

definition parse_cell :: "string \<Rightarrow> load_error + cell" where
  "parse_cell text =
     (case split_char (CHR '':'') text [] of
        [mt, sq, arm] \<Rightarrow> Inr \<lparr>ce_mt = mt, ce_seqs = sq, ce_arm = arm\<rparr>
      | _ \<Rightarrow> Inl (PyError ValueError))"

record cell_config =
  cc_rank :: int
  cc_seed :: int
  cc_prompts :: int
  cc_out :: string
  cc_abspath :: "string \<Rightarrow> string"

definition cell_tag :: "cell_config \<Rightarrow> cell \<Rightarrow> string" where
  "cell_tag cfg c =
     ''r'' @ py_str (cc_rank cfg) @ ''_mt'' @ ce_mt c @ ''_seqs'' @ ce_seqs c @ ''_'' @ ce_arm c
     @ ''_s'' @ py_str (cc_seed cfg) @ ''_n'' @ py_str (cc_prompts cfg)"

definition cell_log :: "cell_config \<Rightarrow> cell \<Rightarrow> string" where
  "cell_log cfg c = cc_abspath cfg (cc_out cfg @ ''/'' @ cell_tag cfg c @ ''.metrics.jsonl'')"

definition is_as :: "string \<Rightarrow> bool" where
  "is_as arm \<longleftrightarrow> arm \<in> {''C6'', ''C7''}"

definition wants_log :: "environ \<Rightarrow> string \<Rightarrow> bool" where
  "wants_log env arm \<longleftrightarrow> is_as arm \<and> map_of env ''AS_LOG_WAR'' = Some ''1''"

definition cell_envs :: "environ \<Rightarrow> string \<Rightarrow> string \<Rightarrow> environ" where
  "cell_envs env arm mpath =
     (let envs = (if arm = ''C6'' then dict_set ''AS_SEGGEMM'' ''0'' (as_env env)
                  else if arm = ''C7'' then as_env env else [])
      in if wants_log env arm then dict_set ''AS_METRICS_PATH'' mpath envs else envs)"

text \<open>The arms of \<^verbatim>\<open>k10.py\<close>: the lattice mode of an arm, and its settings.\<close>

definition k10_is_as :: "string \<Rightarrow> bool" where
  "k10_is_as arm \<longleftrightarrow> arm = ''as'' \<or> prefix ''asC'' arm"

definition k10_mode :: "string \<Rightarrow> string" where
  "k10_mode arm = (if prefix ''asC'' arm then drop 2 arm else if arm = ''as'' then ''C7'' else ''C0'')"

definition k10_envs :: "environ \<Rightarrow> string \<Rightarrow> string \<Rightarrow> environ" where
  "k10_envs env arm mpath =
     (let envs = (if arm = ''asC6'' then dict_set ''AS_SEGGEMM'' ''0'' (as_env env)
                  else if k10_is_as arm then as_env env else [])
      in if k10_is_as arm \<and> map_of env ''AS_LOG_WAR'' = Some ''1'' then dict_set ''AS_METRICS_PATH'' mpath envs else envs)"

subsection \<open>The loop\<close>

record sweep =
  sw_env :: environ
  sw_port :: int
  sw_fs :: files

text \<open>A run sees the environment, its port and the files; it leaves the row or an exception, and the files.\<close>

type_synonym ('c, 'e) item_run = "environ \<Rightarrow> int \<Rightarrow> 'c \<Rightarrow> files \<Rightarrow> ('e + json) \<times> files"

text \<open>The drivers share the loop body and differ in the results directory, the tag of an item, what they convert before
  the run, the log they remove and the settings they add to the environment.\<close>

record 'c driver =
  dr_out :: string
  dr_tag :: "'c \<Rightarrow> string"
  dr_check :: "'c \<Rightarrow> load_error option"
  dr_clear :: "environ \<Rightarrow> 'c \<Rightarrow> string option"
  dr_envs :: "environ \<Rightarrow> 'c \<Rightarrow> environ"

fun pop_all :: "string list \<Rightarrow> environ \<Rightarrow> environ" where
  "pop_all [] env = env"
| "pop_all (k # ks) env = pop_all ks (dict_pop k env)"

definition run_item :: "json_lib \<Rightarrow> 'c driver \<Rightarrow> ('c, 'e) item_run \<Rightarrow> 'c \<Rightarrow> int \<Rightarrow> sweep \<Rightarrow> sweep" where
  "run_item lib dr run c prt st =
     (let env = sw_env st; envs = dr_envs dr env c;
          fs = (case dr_clear dr env c of None \<Rightarrow> sw_fs st | Some path \<Rightarrow> (sw_fs st)(path := None));
          env1 = dict_update envs env;
          (res, fs) = run env1 prt c fs;
          fs = (case res of
                  Inl e \<Rightarrow> fs
                | Inr row \<Rightarrow> (case record_row lib fs (dr_out dr) (dr_tag dr c) row of Inl e \<Rightarrow> fs | Inr fs' \<Rightarrow> fs'))
      in \<lparr>sw_env = pop_all (map fst envs) env1, sw_port = prt, sw_fs = fs\<rparr>)"

text \<open>An item that cannot be read is an exception, raised when the loop comes to it.\<close>

definition sweep_step ::
  "json_lib \<Rightarrow> 'c driver \<Rightarrow> (int \<Rightarrow> bool) \<Rightarrow> ('c, 'e) item_run \<Rightarrow> load_error + 'c \<Rightarrow> sweep \<Rightarrow> load_error + sweep" where
  "sweep_step lib dr binds run item st =
     (case item of Inl e \<Rightarrow> Inl e | Inr c \<Rightarrow>
      (case load_results lib (sw_fs st) (dr_out dr) of Inl e \<Rightarrow> Inl e | Inr res \<Rightarrow>
       (case json_has res (dr_tag dr c) of Inl e \<Rightarrow> Inl e | Inr recorded \<Rightarrow>
        if recorded then Inr st
        else (case free_port binds (sw_port st + 1) of Inl e \<Rightarrow> Inl (PyError e) | Inr prt \<Rightarrow>
              (case dr_check dr c of Some e \<Rightarrow> Inl e | None \<Rightarrow> Inr (run_item lib dr run c prt st))))))"

text \<open>The ports that can be bound change during a sweep; \<open>binds n\<close> are those when \<open>n\<close> items follow.\<close>

fun sweep_items ::
  "json_lib \<Rightarrow> 'c driver \<Rightarrow> (nat \<Rightarrow> int \<Rightarrow> bool) \<Rightarrow> ('c, 'e) item_run \<Rightarrow> (load_error + 'c) list \<Rightarrow> sweep \<Rightarrow> load_error + sweep" where
  "sweep_items lib dr binds run [] st = Inr st"
| "sweep_items lib dr binds run (item # items) st =
     (case sweep_step lib dr (binds (length items)) run item st of
        Inl e \<Rightarrow> Inl e
      | Inr st' \<Rightarrow> sweep_items lib dr binds run items st')"

definition cell_driver :: "cell_config \<Rightarrow> cell driver" where
  "cell_driver cfg =
     \<lparr>dr_out = cc_out cfg, dr_tag = cell_tag cfg,
      dr_check = (\<lambda>c. case py_int (ce_mt c) of None \<Rightarrow> Some (PyError ValueError) | Some mt \<Rightarrow> None),
      dr_clear = (\<lambda>env c. if wants_log env (ce_arm c) then Some (cell_log cfg c) else None),
      dr_envs = (\<lambda>env c. cell_envs env (ce_arm c) (cell_log cfg c))\<rparr>"

definition cell_sweep ::
  "json_lib \<Rightarrow> cell_config \<Rightarrow> (nat \<Rightarrow> int \<Rightarrow> bool) \<Rightarrow> (cell, 'e) item_run \<Rightarrow> string list \<Rightarrow> sweep \<Rightarrow> load_error + sweep" where
  "cell_sweep lib cfg binds run texts = sweep_items lib (cell_driver cfg) binds run (map parse_cell texts)"

subsection \<open>Ports and environments\<close>

lemma free_port_first:
  "free_port binds prt = Inr p \<Longrightarrow> prt \<le> p \<and> p \<le> 65535 \<and> binds p \<and> (\<forall>q. prt \<le> q \<longrightarrow> q < p \<longrightarrow> \<not> binds q)"
proof (induction binds prt rule: free_port.induct)
  case (1 binds prt)
  show ?case
  proof (cases "(prt < 0 \<or> 65535 < prt) \<or> binds prt")
    case True
    then show ?thesis using "1.prems" by (subst (asm) free_port.simps) (auto split: if_splits)
  next
    case False
    then have "free_port binds (prt + 1) = Inr p" using "1.prems" by (subst (asm) free_port.simps) simp
    then have ih: "prt + 1 \<le> p \<and> p \<le> 65535 \<and> binds p \<and> (\<forall>q. prt + 1 \<le> q \<longrightarrow> q < p \<longrightarrow> \<not> binds q)"
      using "1.IH" False by auto
    have "\<not> binds q" if "prt \<le> q" "q < p" for q using ih False that by (cases "q = prt") auto
    then show ?thesis using ih by auto
  qed
qed

lemma map_of_pop_all: "map_of (pop_all ks env) k = (if k \<in> set ks then None else map_of env k)"
  by (induction ks env rule: pop_all.induct) auto

definition setting_names :: "string set" where
  "setting_names = {''AS_MWC_K_HOT'', ''AS_SEGGEMM'', ''AS_SEGGEMM_MIN_TOKENS'', ''AS_METRICS_PATH''}"

text \<open>A driver sets only variables of \<open>N\<close>, and its settings depend only on other variables.\<close>

definition driver_ok :: "'c driver \<Rightarrow> string set \<Rightarrow> bool" where
  "driver_ok dr N \<longleftrightarrow> (\<forall>env c. dict_ok (dr_envs dr env c) \<and> fst ` set (dr_envs dr env c) \<subseteq> N) \<and>
     (\<forall>env env' c. (\<forall>k. k \<notin> N \<longrightarrow> map_of env k = map_of env' k) \<longrightarrow> dr_envs dr env c = dr_envs dr env' c)"

lemma cell_driver_ok: "driver_ok (cell_driver cfg) setting_names"
  by (auto simp: driver_ok_def cell_driver_def cell_envs_def as_env_def wants_log_def dict_get_def setting_names_def Let_def)

text \<open>What a run sees: its own settings over the environment the sweep started with.\<close>

definition run_env_ok :: "'c driver \<Rightarrow> environ \<Rightarrow> 'c \<Rightarrow> environ \<Rightarrow> bool" where
  "run_env_ok dr env0 c env \<longleftrightarrow>
     (\<forall>k. map_of env k = (case map_of (dr_envs dr env0 c) k of Some v \<Rightarrow> Some v | None \<Rightarrow> map_of env0 k))"

subsection \<open>A sweep can be resumed\<close>

text \<open>What \<open>json\<close> must keep: result files with tags of \<open>T\<close> and rows of \<open>R\<close>.\<close>

definition results_kept :: "json_lib \<Rightarrow> string set \<Rightarrow> json set \<Rightarrow> bool" where
  "results_kept lib T R \<longleftrightarrow> (\<forall>kvs. dict_ok kvs \<longrightarrow> fst ` set kvs \<subseteq> T \<longrightarrow> snd ` set kvs \<subseteq> R \<longrightarrow>
     js_loads lib (js_dumps lib (JObj kvs)) = Some (JObj kvs))"

text \<open>The results file holds the dict \<open>kvs\<close>.\<close>

definition holds_results :: "json_lib \<Rightarrow> string set \<Rightarrow> json set \<Rightarrow> string \<Rightarrow> files \<Rightarrow> (string, json) dict \<Rightarrow> bool" where
  "holds_results lib T R out fs kvs \<longleftrightarrow> load_results lib fs out = Inr (JObj kvs) \<and> dict_ok kvs \<and>
     fst ` set kvs \<subseteq> T \<and> snd ` set kvs \<subseteq> R"

lemma set_dict_set: "set (dict_set k v d) \<subseteq> insert (k, v) (set d)"
proof -
  have "set (AList.update k v d) \<subseteq> insert (k, v) (set d)" by (induction d) auto
  then show ?thesis by (simp add: dict_set_def)
qed

lemma record_row_holds:
  assumes "results_kept lib T R" and "holds_results lib T R out fs kvs" and "tag \<in> T" and "row \<in> R"
  shows "\<exists>fs'. record_row lib fs out tag row = Inr fs' \<and> holds_results lib T R out fs' (dict_set tag row kvs)"
proof -
  have "dict_ok (dict_set tag row kvs)" "fst ` set (dict_set tag row kvs) \<subseteq> T" "snd ` set (dict_set tag row kvs) \<subseteq> R"
    using assms(2-4) image_mono [OF set_dict_set [of tag row kvs], of snd] by (auto simp: holds_results_def)
  then show ?thesis using assms(1,2)
    by (auto simp: record_row_def holds_results_def results_kept_def load_results_def parse_json_def)
qed
text \<open>What a run may do: it leaves the results file alone, its rows are in \<open>R\<close>, and its log is another file.\<close>

definition run_ok :: "'c driver \<Rightarrow> json set \<Rightarrow> ('c, 'e) item_run \<Rightarrow> bool" where
  "run_ok dr R run \<longleftrightarrow> (\<forall>env prt c fs r fs'. run env prt c fs = (r, fs') \<longrightarrow>
     fs' (results_path (dr_out dr)) = fs (results_path (dr_out dr)) \<and> (\<forall>row. r = Inr row \<longrightarrow> row \<in> R)) \<and>
     (\<forall>env c. dr_clear dr env c \<noteq> Some (results_path (dr_out dr)))"

definition made_row :: "'c driver \<Rightarrow> ('c, 'e) item_run \<Rightarrow> environ \<Rightarrow> 'c \<Rightarrow> 'e + json \<Rightarrow> bool" where
  "made_row dr run env0 c r \<longleftrightarrow> (\<exists>env prt fs fs'. run env prt c fs = (r, fs') \<and> run_env_ok dr env0 c env)"

text \<open>The state of the results after a part of the sweep.\<close>

definition sweep_inv ::
  "json_lib \<Rightarrow> string set \<Rightarrow> json set \<Rightarrow> 'c driver \<Rightarrow> ('c, 'e) item_run \<Rightarrow> environ \<Rightarrow> (string, json) dict \<Rightarrow> 'c set \<Rightarrow> sweep \<Rightarrow>
     (string, json) dict \<Rightarrow> bool" where
  "sweep_inv lib T R dr run env0 kvs0 cs st kvs \<longleftrightarrow>
     holds_results lib T R (dr_out dr) (sw_fs st) kvs \<and> map_of (sw_env st) = map_of env0 \<and>
     (\<forall>t\<in>fst ` set kvs0. map_of kvs t = map_of kvs0 t) \<and>
     (\<forall>c\<in>cs. dr_tag dr c \<in> fst ` set kvs \<or> (\<exists>e. made_row dr run env0 c (Inl e))) \<and>
     (\<forall>t row. t \<notin> fst ` set kvs0 \<longrightarrow> map_of kvs t = Some row \<longrightarrow> (\<exists>c\<in>cs. dr_tag dr c = t \<and> made_row dr run env0 c (Inr row)))"

text \<open>The contract between the shared loop and a driver: what the driver sets, it sets every time in the same way, so
  removing its variables after a run restores an environment without them.\<close>

locale sweep_driver =
  fixes dr :: "'c driver" and N :: "string set"
  assumes envs_ok: "dict_ok (dr_envs dr env c)"
    and envs_names: "fst ` set (dr_envs dr env c) \<subseteq> N"
    and envs_cong: "(\<And>k. k \<notin> N \<Longrightarrow> map_of env k = map_of env' k) \<Longrightarrow> dr_envs dr env c = dr_envs dr env' c"
begin

lemma item_env:
  assumes "map_of (sw_env st) = map_of env0" and "\<forall>k\<in>N. map_of env0 k = None"
  shows "run_env_ok dr env0 c (dict_update (dr_envs dr (sw_env st) c) (sw_env st))"
    and "map_of (sw_env (run_item lib dr run c prt st)) = map_of env0"
proof -
  let ?envs = "dr_envs dr (sw_env st) c"
  have e: "?envs = dr_envs dr env0 c" using assms(1) envs_cong by metis
  have u: "map_of (dict_update ?envs (sw_env st)) k = (case map_of ?envs k of Some v \<Rightarrow> Some v | None \<Rightarrow> map_of env0 k)" for k
    by (simp add: map_of_dict_update_ok [OF envs_ok] assms(1) split: option.split)
  then show "run_env_ok dr env0 c (dict_update ?envs (sw_env st))" by (simp add: run_env_ok_def e)
  have "map_of (pop_all (map fst ?envs) (dict_update ?envs (sw_env st))) k = map_of env0 k" for k
  proof (cases "k \<in> fst ` set ?envs")
    case True
    then have "k \<in> N" using envs_names by blast
    then show ?thesis using True assms(2) by (simp add: map_of_pop_all)
  next
    case False
    then have "map_of ?envs k = None" by (simp add: map_of_eq_None_iff)
    then show ?thesis using False u [of k] by (simp add: map_of_pop_all)
  qed
  then show "map_of (sw_env (run_item lib dr run c prt st)) = map_of env0"
    by (auto simp: run_item_def Let_def case_prod_unfold)
qed

lemma item_results:
  assumes "results_kept lib T R" and "holds_results lib T R (dr_out dr) (sw_fs st) kvs" and "run_ok dr R run"
    and "dr_tag dr c \<in> T" and "map_of (sw_env st) = map_of env0" and "\<forall>k\<in>N. map_of env0 k = None"
  shows "\<exists>r. made_row dr run env0 c r \<and> holds_results lib T R (dr_out dr) (sw_fs (run_item lib dr run c prt st))
      (case r of Inl e \<Rightarrow> kvs | Inr row \<Rightarrow> dict_set (dr_tag dr c) row kvs)"
proof -
  define env1 where "env1 = dict_update (dr_envs dr (sw_env st) c) (sw_env st)"
  define fs1 where "fs1 = (case dr_clear dr (sw_env st) c of None \<Rightarrow> sw_fs st | Some path \<Rightarrow> (sw_fs st)(path := None))"
  obtain r fs2 where r: "run env1 prt c fs1 = (r, fs2)" by force
  have made: "made_row dr run env0 c r"
    using r item_env(1) [OF assms(5,6)] by (auto simp: made_row_def env1_def)
  have "fs2 (results_path (dr_out dr)) = fs1 (results_path (dr_out dr))" "dr_clear dr (sw_env st) c \<noteq> Some (results_path (dr_out dr))"
    using assms(3) r unfolding run_ok_def by blast+
  then have "fs2 (results_path (dr_out dr)) = sw_fs st (results_path (dr_out dr))" by (auto simp: fs1_def split: option.splits)
  then have h: "holds_results lib T R (dr_out dr) fs2 kvs"
    using assms(2) by (simp add: holds_results_def load_results_def)
  have f: "sw_fs (run_item lib dr run c prt st) = (case r of Inl e \<Rightarrow> fs2
      | Inr row \<Rightarrow> (case record_row lib fs2 (dr_out dr) (dr_tag dr c) row of Inl e \<Rightarrow> fs2 | Inr fs' \<Rightarrow> fs'))"
    using r by (simp add: run_item_def Let_def env1_def [symmetric] fs1_def [symmetric])
  show ?thesis
  proof (cases r)
    case (Inl e)
    then show ?thesis using made h f by auto
  next
    case (Inr row)
    then have "row \<in> R" using assms(3) r by (auto simp: run_ok_def)
    from record_row_holds [OF assms(1) h assms(4) this] show ?thesis using made f Inr by force
  qed
qed

end

lemma sweep_step_cases:
  assumes "sweep_step lib dr binds run item st = Inr st'" and "holds_results lib T R (dr_out dr) (sw_fs st) kvs"
  obtains c where "item = Inr c" "dr_tag dr c \<in> fst ` set kvs" "st' = st"
  | c prt where "item = Inr c" "dr_tag dr c \<notin> fst ` set kvs" "st' = run_item lib dr run c prt st"
  using assms by (auto simp: sweep_step_def holds_results_def dict_has_iff split: sum.splits if_splits option.splits)

lemma recorded_items_are_skipped:
  assumes "holds_results lib T R (dr_out dr) (sw_fs st) kvs"
    and "\<forall>item\<in>set items. \<exists>c. item = Inr c \<and> dr_tag dr c \<in> fst ` set kvs"
  shows "sweep_items lib dr binds run items st = Inr st"
  using assms(2)
proof (induction items)
  case (Cons item items)
  obtain c where "item = Inr c" "dr_tag dr c \<in> fst ` set kvs" using Cons.prems by auto
  then have "sweep_step lib dr (binds (length items)) run item st = Inr st"
    using assms(1) by (simp add: sweep_step_def holds_results_def dict_has_iff)
  then show ?case using Cons by simp
qed simp

context sweep_driver begin

lemma step_inv:
  assumes "results_kept lib T R" and "run_ok dr R run" and "\<forall>k\<in>N. map_of env0 k = None"
    and "sweep_inv lib T R dr run env0 kvs0 cs st kvs" and "sweep_step lib dr binds run item st = Inr st'"
    and "\<And>c. item = Inr c \<Longrightarrow> dr_tag dr c \<in> T"
  shows "\<exists>c kvs'. item = Inr c \<and> sweep_inv lib T R dr run env0 kvs0 (insert c cs) st' kvs'"
proof -
  note inv = assms(4) [unfolded sweep_inv_def]
  have h: "holds_results lib T R (dr_out dr) (sw_fs st) kvs" and e: "map_of (sw_env st) = map_of env0" using inv by auto
  show ?thesis
  proof (rule sweep_step_cases [OF assms(5) h])
    fix c assume "item = Inr c" "dr_tag dr c \<in> fst ` set kvs" "st' = st"
    then show ?thesis using inv by (auto simp: sweep_inv_def)
  next
    fix c prt assume c: "item = Inr c" and new: "dr_tag dr c \<notin> fst ` set kvs" and st': "st' = run_item lib dr run c prt st"
    obtain r where r: "made_row dr run env0 c r" "holds_results lib T R (dr_out dr) (sw_fs st')
        (case r of Inl e \<Rightarrow> kvs | Inr row \<Rightarrow> dict_set (dr_tag dr c) row kvs)"
      using item_results [OF assms(1) h assms(2) assms(6) [OF c] e assms(3)] st' by blast
    have env: "map_of (sw_env st') = map_of env0" unfolding st' by (rule item_env(2) [OF e assms(3)])
    have old: "dr_tag dr c \<notin> fst ` set kvs0" using inv new by (metis map_of_not_None_iff)
    show ?thesis
    proof (cases r)
      case (Inl x)
      then have "sweep_inv lib T R dr run env0 kvs0 (insert c cs) st' kvs" using inv r env by (auto simp: sweep_inv_def)
      then show ?thesis using c by blast
    next
      case (Inr row)
      then have "sweep_inv lib T R dr run env0 kvs0 (insert c cs) st' (dict_set (dr_tag dr c) row kvs)"
        using inv r env old unfolding sweep_inv_def by (simp add: image_iff) fastforce
      then show ?thesis using c by blast
    qed
  qed
qed

lemma items_inv:
  assumes "results_kept lib T R" and "run_ok dr R run" and "\<forall>k\<in>N. map_of env0 k = None"
    and "sweep_inv lib T R dr run env0 kvs0 cs st kvs" and "sweep_items lib dr binds run items st = Inr st'"
    and "\<And>c. Inr c \<in> set items \<Longrightarrow> dr_tag dr c \<in> T"
  shows "\<exists>kvs' ds. items = map Inr ds \<and> sweep_inv lib T R dr run env0 kvs0 (cs \<union> set ds) st' kvs'"
  using assms(4-6)
proof (induction items arbitrary: cs st kvs)
  case Nil
  then show ?case by auto
next
  case (Cons item items)
  obtain st1 where s: "sweep_step lib dr (binds (length items)) run item st = Inr st1" "sweep_items lib dr binds run items st1 = Inr st'"
    using Cons.prems(2) by (auto split: sum.splits)
  obtain c kvs1 where 1: "item = Inr c" "sweep_inv lib T R dr run env0 kvs0 (insert c cs) st1 kvs1"
    using step_inv [OF assms(1-3) Cons.prems(1) s(1)] Cons.prems(3) by (metis list.set_intros(1))
  obtain kvs' ds where "items = map Inr ds" "sweep_inv lib T R dr run env0 kvs0 (insert c cs \<union> set ds) st' kvs'"
    using Cons.IH [OF 1(2) s(2)] Cons.prems(3) by (metis list.set_intros(2))
  then show ?case using 1(1) by (intro exI [of _ kvs'] exI [of _ "c # ds"]) simp
qed

end

lemma driver_ok_locale: "driver_ok dr N \<Longrightarrow> sweep_driver dr N"
  unfolding driver_ok_def by unfold_locales blast+

interpretation cell: sweep_driver "cell_driver cfg" setting_names for cfg
  by (rule driver_ok_locale [OF cell_driver_ok])

text \<open>C34: A sweep can be interrupted and resumed, and its runs do not influence one another. This holds for every driver
  that sets the same variables in the same way for an item (\<open>cell.py\<close>, and the drivers of Experiments), started
  in an environment without those variables, from a results file that may hold rows of an earlier run. When
  the sweep ends, every item could be read; the rows found at the start are unchanged; each item has a row,
  or a run of it raised in this sweep; each new row was made by a run of an item with that tag which saw
  exactly the starting environment with that item's own settings over it; the environment is as at the
  start; and from then on every sweep over items that have rows changes nothing.\<close>

theorem interrupted_sweeps_resume:
  assumes "driver_ok dr N" and "results_kept lib T R" and "run_ok dr R run" and "\<forall>k\<in>N. map_of (sw_env st) k = None"
    and "holds_results lib T R (dr_out dr) (sw_fs st) kvs0" and "\<forall>c. Inr c \<in> set items \<longrightarrow> dr_tag dr c \<in> T"
    and "sweep_items lib dr binds run items st = Inr st'"
  shows "\<exists>kvs cs. items = map Inr cs \<and> load_results lib (sw_fs st') (dr_out dr) = Inr (JObj kvs) \<and>
    map_of (sw_env st') = map_of (sw_env st) \<and>
    (\<forall>t\<in>fst ` set kvs0. map_of kvs t = map_of kvs0 t) \<and>
    (\<forall>c\<in>set cs. dr_tag dr c \<in> fst ` set kvs \<or> (\<exists>e. made_row dr run (sw_env st) c (Inl e))) \<and>
    (\<forall>t row. t \<notin> fst ` set kvs0 \<longrightarrow> map_of kvs t = Some row \<longrightarrow>
       (\<exists>c\<in>set cs. dr_tag dr c = t \<and> made_row dr run (sw_env st) c (Inr row))) \<and>
    (\<forall>binds2 run2 items2. (\<forall>item\<in>set items2. \<exists>c. item = Inr c \<and> dr_tag dr c \<in> fst ` set kvs) \<longrightarrow>
       sweep_items lib dr binds2 (run2 :: ('c, 'e) item_run) items2 st' = Inr st')"
proof -
  have "sweep_inv lib T R dr run (sw_env st) kvs0 {} st kvs0"
    using assms(5) by (auto simp: sweep_inv_def map_of_eq_None_iff)
  then have "\<exists>kvs cs. items = map Inr cs \<and> sweep_inv lib T R dr run (sw_env st) kvs0 ({} \<union> set cs) st' kvs"
    by (rule sweep_driver.items_inv [OF driver_ok_locale [OF assms(1)] assms(2-4) _ assms(7)]) (use assms(6) in blast)
  then obtain kvs cs where cs: "items = map Inr cs" and inv: "sweep_inv lib T R dr run (sw_env st) kvs0 (set cs) st' kvs"
    by (simp only: sup_bot_left) blast
  have h: "holds_results lib T R (dr_out dr) (sw_fs st') kvs" using inv by (simp add: sweep_inv_def)
  then have load: "load_results lib (sw_fs st') (dr_out dr) = Inr (JObj kvs)" by (simp add: holds_results_def)
  have skip: "\<forall>binds2 run2 items2. (\<forall>item\<in>set items2. \<exists>c. item = Inr c \<and> dr_tag dr c \<in> fst ` set kvs) \<longrightarrow>
      sweep_items lib dr binds2 (run2 :: ('c, 'e) item_run) items2 st' = Inr st'"
    by (intro allI impI recorded_items_are_skipped [OF h])
  show ?thesis using cs load skip inv [unfolded sweep_inv_def] by (intro exI [of _ kvs] exI [of _ cs]) simp
qed

text \<open>Two cells; the run of the second raises. The results file is kept as the empty string or one row.\<close>

definition demo_cfg :: cell_config where
  "demo_cfg = \<lparr>cc_rank = 32, cc_seed = 42, cc_prompts = 400, cc_out = ''o'', cc_abspath = (\<lambda>p. ''/'' @ p)\<rparr>"

definition demo_c7 :: cell where
  "demo_c7 = \<lparr>ce_mt = ''8'', ce_seqs = ''256'', ce_arm = ''C7''\<rparr>"

definition demo_store :: json_lib where
  "demo_store = \<lparr>js_loads = (\<lambda>s. Some (JObj (if s = [] then [] else [(cell_tag demo_cfg demo_c7, JNull)]))),
     js_dumps = (\<lambda>v. if v = JObj [] then [] else ''x''), js_lower = (\<lambda>s. s), js_sample = (\<lambda>seed n k. [0..<k])\<rparr>"

definition demo_cell_run :: "(cell, string) item_run" where
  "demo_cell_run env prt c fs = ((if ce_arm c = ''C7'' then Inr JNull else Inl ''RuntimeError''), fs)"

definition demo_sweep :: sweep where
  "demo_sweep = \<lparr>sw_env = [(''SEGMODE'', ''2'')], sw_port = 28100, sw_fs = Map.empty\<rparr>"

lemma demo_results_kept: "results_kept demo_store {cell_tag demo_cfg demo_c7} {JNull}"
  unfolding results_kept_def
proof (intro allI impI)
  fix kvs :: "(string, json) dict"
  assume ok: "dict_ok kvs" "fst ` set kvs \<subseteq> {cell_tag demo_cfg demo_c7}" "snd ` set kvs \<subseteq> {JNull}"
  have "kvs = [] \<or> kvs = [(cell_tag demo_cfg demo_c7, JNull)]"
  proof (cases kvs)
    case (Cons kv kvs')
    then have "kvs' = []" using ok(1,2) by (cases kvs') auto
    then show ?thesis using Cons ok(2,3) by (cases kv) auto
  qed simp
  then show "js_loads demo_store (js_dumps demo_store (JObj kvs)) = Some (JObj kvs)" by (auto simp: demo_store_def)
qed

theorem interrupted_sweeps_resume_witness:
  "\<exists>st'. cell_sweep demo_store demo_cfg (\<lambda>n p. True) demo_cell_run [''8:256:C7''] demo_sweep = Inr st' \<and>
     load_results demo_store (sw_fs st') ''o'' = Inr (JObj [(cell_tag demo_cfg demo_c7, JNull)]) \<and>
     map_of (sw_env st') = map_of [(''SEGMODE'', ''2'')]"
proof -
  have p: "parse_cell ''8:256:C7'' = Inr demo_c7" by (simp add: parse_cell_def demo_c7_def)
  have fp: "free_port (\<lambda>p. True) 28101 = Inr 28101" by (simp add: free_port.simps)
  have mt: "py_int ''8'' = Some 8" by code_simp
  obtain st' where s: "cell_sweep demo_store demo_cfg (\<lambda>n p. True) demo_cell_run [''8:256:C7''] demo_sweep = Inr st'"
    using p fp mt by (simp add: cell_sweep_def sweep_step_def load_results_def demo_sweep_def dict_has_def demo_c7_def cell_driver_def)
  have r: "run_ok (cell_driver demo_cfg) {JNull} demo_cell_run"
    by (auto simp: run_ok_def demo_cell_run_def cell_driver_def cell_log_def results_path_def demo_cfg_def split: if_splits)
  have e: "\<forall>k\<in>setting_names. map_of (sw_env demo_sweep) k = None" by (simp add: setting_names_def demo_sweep_def)
  have h: "holds_results demo_store {cell_tag demo_cfg demo_c7} {JNull} (dr_out (cell_driver demo_cfg)) (sw_fs demo_sweep) []"
    by (simp add: holds_results_def load_results_def demo_sweep_def)
  have t: "\<forall>c. Inr c \<in> set (map parse_cell [''8:256:C7'']) \<longrightarrow> dr_tag (cell_driver demo_cfg) c \<in> {cell_tag demo_cfg demo_c7}"
    by (simp add: p cell_driver_def)
  obtain kvs cs where k: "map parse_cell [''8:256:C7''] = map Inr cs" "load_results demo_store (sw_fs st') (dr_out (cell_driver demo_cfg)) = Inr (JObj kvs)"
    "map_of (sw_env st') = map_of (sw_env demo_sweep)"
    "\<forall>c\<in>set cs. dr_tag (cell_driver demo_cfg) c \<in> fst ` set kvs \<or> (\<exists>e. made_row (cell_driver demo_cfg) demo_cell_run (sw_env demo_sweep) c (Inl e))"
    using interrupted_sweeps_resume [OF cell_driver_ok demo_results_kept r e h t s [unfolded cell_sweep_def]] by blast
  have "cs = [demo_c7]" using k(1) p by auto
  then have "kvs \<noteq> []" using k(4) by (auto simp: made_row_def demo_cell_run_def demo_c7_def)
  moreover have "kvs = [] \<or> kvs = [(cell_tag demo_cfg demo_c7, JNull)]"
    using k(2) by (auto simp: load_results_def parse_json_def demo_store_def split: option.splits if_splits)
  ultimately show ?thesis using s k(2,3) by (simp add: demo_cfg_def demo_sweep_def cell_driver_def)
qed
subsection \<open>The settings reach the server\<close>

lemma child_env_wgkp:
  assumes "be_mode b \<in> {''C6'', ''C7''}"
  shows "\<exists>e. child_env os b = Inr e \<and> map_of e ''AS_MODE'' = Some ''wgkp'' \<and> map_of e ''AS_METRICS_PATH'' = Some (metrics_path b) \<and>
    (\<forall>k\<in>{''AS_MWC_K_HOT'', ''AS_SEGGEMM'', ''AS_SEGGEMM_MIN_TOKENS''}. \<forall>v. map_of os k = Some v \<longrightarrow> map_of e k = Some v)"
proof -
  define m where "m = (if be_mode b = ''C6'' then ''0'' else ''3'')"
  have cfg: "map_of config_map (be_mode b) = Some [(''AS_SCHEDULER'', ''1''), (''AS_MODE'', ''wgkp''), (''AS_SEGGEMM'', m)]"
    using assms by (auto simp: config_map_def m_def)
  obtain e where e: "server_env os b = Inr e" by (simp add: server_env_def cfg Let_def)
  have ok: "dict_ok e" using e by (cases "be_tmax_ms b"; cases "be_threshold b") (auto simp: server_env_def cfg Let_def)
  have look: "map_of e ''AS_MODE'' = Some ''wgkp''" "map_of e ''AS_METRICS_PATH'' = Some (metrics_path b)"
    "\<forall>k\<in>{''AS_MWC_K_HOT'', ''AS_SEGGEMM'', ''AS_SEGGEMM_MIN_TOKENS''}. \<forall>v. map_of os k = Some v \<longrightarrow> map_of e k = Some v"
    using e by (auto simp: server_env_def cfg Let_def map_of_pass_through map_of_set_option dict_has_def passed_through_def)
  obtain env where env: "child_env os b = Inr env"
    "env = (case gpu_id b of None \<Rightarrow> dict_update e os
            | Some g \<Rightarrow> dict_set ''CUDA_VISIBLE_DEVICES'' (py_str g) (dict_update e os))"
    by (simp add: child_env_def e Let_def)
  have "map_of env k = map_of (dict_update e os) k" if "k \<noteq> ''CUDA_VISIBLE_DEVICES''" for k
    using that by (auto simp: env(2) split: option.splits)
  then show ?thesis using env(1) look by (auto simp: map_of_dict_update_ok [OF ok])
qed

text \<open>The settings of a cell reach the server it starts. For an AdapterSlots arm, in the environment a run of
  the cell sees: the server's environment has WGKP mode, the hot-set size and the token gate of the arm, and
  the kernel mode of the arm, which is 0 for C6 and the SEGMODE of the sweep, or 3, for C7; so the model runner
  installs the grouped kernels exactly for C7 with a SEGMODE of 1, 2 or 3. With AS_LOG_WAR=1 the server
  writes its batch log to the file the cell's row is read from.\<close>

theorem cell_settings_reach_the_server:
  assumes "is_as (ce_arm c)" and "run_env_ok (cell_driver cfg) env0 c env"
    and "backend_init env mdl dirs prt tensor_par rnk loras (ce_arm c) tmax thr extra gpu = Inr b"
  shows "\<exists>e. child_env env b = Inr e \<and> map_of e ''AS_MODE'' = Some ''wgkp'' \<and>
    map_of e ''AS_MWC_K_HOT'' = Some ''5'' \<and> map_of e ''AS_SEGGEMM_MIN_TOKENS'' = Some ''64'' \<and>
    map_of e ''AS_SEGGEMM'' = Some (if ce_arm c = ''C6'' then ''0'' else dict_get env0 ''SEGMODE'' ''3'') \<and>
    (segmented_installed (load_model (dict_get e ''AS_SEGGEMM'' ''0'') True 5 tensor_par margin layers (runner_init True n)) \<longleftrightarrow>
       ce_arm c = ''C7'' \<and> dict_get env0 ''SEGMODE'' ''3'' \<in> {''1'', ''2'', ''3''}) \<and>
    (wants_log env0 (ce_arm c) \<longrightarrow> cell_log cfg c \<noteq> [] \<longrightarrow> map_of e ''AS_METRICS_PATH'' = Some (cell_log cfg c))"
proof -
  have b: "be_mode b = ce_arm c" "metrics_path b = (if dict_get env ''AS_METRICS_PATH'' [] \<noteq> [] then dict_get env ''AS_METRICS_PATH'' []
      else ''/tmp/adapter_slots_metrics_'' @ py_str prt @ ''.jsonl'')"
    using assms(3) by (auto simp: backend_init_def Let_def split: if_splits option.splits)
  have arm: "ce_arm c = ''C6'' \<or> ce_arm c = ''C7''" using assms(1) by (auto simp: is_as_def)
  have env: "map_of env ''AS_MWC_K_HOT'' = Some ''5''" "map_of env ''AS_SEGGEMM_MIN_TOKENS'' = Some ''64''"
    "map_of env ''AS_SEGGEMM'' = Some (if ce_arm c = ''C6'' then ''0'' else dict_get env0 ''SEGMODE'' ''3'')"
    "wants_log env0 (ce_arm c) \<Longrightarrow> map_of env ''AS_METRICS_PATH'' = Some (cell_log cfg c)"
    using assms(2) arm by (auto simp: run_env_ok_def cell_driver_def cell_envs_def as_env_def Let_def)
  obtain e where e: "child_env env b = Inr e" "map_of e ''AS_MODE'' = Some ''wgkp''" "map_of e ''AS_METRICS_PATH'' = Some (metrics_path b)"
    "\<forall>k\<in>{''AS_MWC_K_HOT'', ''AS_SEGGEMM'', ''AS_SEGGEMM_MIN_TOKENS''}. \<forall>v. map_of env k = Some v \<longrightarrow> map_of e k = Some v"
    using child_env_wgkp [of b env] arm b(1) by auto
  have e2: "map_of e ''AS_MWC_K_HOT'' = Some ''5''" "map_of e ''AS_SEGGEMM_MIN_TOKENS'' = Some ''64''"
    "map_of e ''AS_SEGGEMM'' = Some (if ce_arm c = ''C6'' then ''0'' else dict_get env0 ''SEGMODE'' ''3'')"
    using e(4) env(1-3) by auto
  have "segmented_installed (load_model (dict_get e ''AS_SEGGEMM'' ''0'') True 5 tensor_par margin layers (runner_init True n)) \<longleftrightarrow>
      ce_arm c = ''C7'' \<and> dict_get env0 ''SEGMODE'' ''3'' \<in> {''1'', ''2'', ''3''}"
    using arm by (auto simp: load_model_def runner_init_def Let_def dict_get_Some [OF e2(3)])
  moreover have "map_of e ''AS_METRICS_PATH'' = Some (cell_log cfg c)" if "wants_log env0 (ce_arm c)" "cell_log cfg c \<noteq> []"
    using e(3) b(2) dict_get_Some [OF env(4) [OF that(1)]] that(2) by simp
  ultimately show ?thesis using e(1,2) e2 by blast
qed

theorem cell_settings_reach_the_server_witness:
  "\<exists>b e. backend_init [(''AS_SEGGEMM'', ''2''), (''AS_MWC_K_HOT'', ''5''), (''AS_SEGGEMM_MIN_TOKENS'', ''64''), (''SEGMODE'', ''2'')]
       ''m'' [''d''] 8100 1 32 16 ''C7'' None None None None = Inr b \<and>
     child_env [(''AS_SEGGEMM'', ''2''), (''AS_MWC_K_HOT'', ''5''), (''AS_SEGGEMM_MIN_TOKENS'', ''64''), (''SEGMODE'', ''2'')] b = Inr e \<and>
     map_of e ''AS_SEGGEMM'' = Some ''2''"
proof -
  let ?env = "[(''AS_SEGGEMM'', ''2''), (''AS_MWC_K_HOT'', ''5''), (''AS_SEGGEMM_MIN_TOKENS'', ''64''), (''SEGMODE'', ''2'')]"
  obtain b where b: "backend_init ?env ''m'' [''d''] 8100 1 32 16 (ce_arm demo_c7) None None None None = Inr b"
    by (simp add: backend_init_def dict_get_def)
  have arm: "is_as (ce_arm demo_c7)" by (simp add: is_as_def demo_c7_def)
  have env: "run_env_ok (cell_driver demo_cfg) [(''SEGMODE'', ''2'')] demo_c7 ?env"
    by (auto simp: run_env_ok_def cell_driver_def cell_envs_def as_env_def wants_log_def demo_c7_def dict_get_def)
  have "dict_get [(''SEGMODE'', ''2'')] ''SEGMODE'' ''3'' = ''2''" by (simp add: dict_get_def)
  then have "\<exists>e. child_env ?env b = Inr e \<and> map_of e ''AS_SEGGEMM'' = Some ''2''"
    using cell_settings_reach_the_server [OF arm env b, where margin = 0 and layers = "[] :: (string \<times> nat) list" and n = 8]
    by (auto simp: demo_c7_def)
  then show ?thesis using b by (auto simp: demo_c7_def)
qed

end
