(* ===== verification/Report.thy ===== *)
theory Report
  imports Drivers Metrics
begin

text \<open>
  What the experiments report: the row of a run and the alignment of its logged batches (\<open>rep_row\<close>, \<open>gwar\<close> and
  \<open>batch_metrics\<close> of \<^verbatim>\<open>benchmarks/paper/common.py\<close>), and the statistics over seeds of \<^verbatim>\<open>benchmarks/paper/summarize.py\<close>.
  The log is given as the scheduler's records (theory \<open>SchedState\<close>).
\<close>

subsection \<open>Rows\<close>

definition row_field :: "metrics \<Rightarrow> string \<Rightarrow> py_error + real option" where
  "row_field m k = (case map_of m k of None \<Rightarrow> Inl KeyError | Some v \<Rightarrow> Inr v)"

record rep_row =
  rw_tput :: "real option"
  rw_ttft_p50 :: "real option"
  rw_ttft_p99 :: "real option"
  rw_n :: "real option"
  rw_wall :: "real option"
  rw_tok_per_req :: real

text \<open>The fields of the first repetition; the throughput, the count and the wall time are numbers.\<close>

definition rep_row_of :: "metrics list \<Rightarrow> py_error + rep_row" where
  "rep_row_of reps =
     (case reps of
        [] \<Rightarrow> Inl IndexError
      | r # rs \<Rightarrow>
          (case (row_field r ''throughput_toks'', row_field r ''ttft_p50_ms'', row_field r ''ttft_p99_ms'',
                 row_field r ''n_completed'', row_field r ''wall_time_s'') of
             (Inr t, Inr p50, Inr p99, Inr n, Inr w) \<Rightarrow>
               Inr \<lparr>rw_tput = t, rw_ttft_p50 = p50, rw_ttft_p99 = p99, rw_n = n, rw_wall = w,
                    rw_tok_per_req = the t * the w / max (the n) 1\<rparr>
           | _ \<Rightarrow> Inl KeyError))"

subsection \<open>Alignment of the logged batches\<close>

text \<open>\<open>gwar\<close>: the same double loop as \<open>compute_gwar\<close>, without its special cases.\<close>

definition paper_gwar :: "'a list \<Rightarrow> int \<Rightarrow> real" where
  "paper_gwar adapter_ids threshold =
     (if adapter_ids = [] then 0 else real (gwar_scan adapter_ids threshold 0 0) / real (length adapter_ids))"

record batch_stats =
  st_war :: real
  st_gwar8 :: real
  st_gwar8_tok :: real
  st_batches :: nat

definition avg :: "real list \<Rightarrow> real" where
  "avg v = sum_list v / real (length v)"

definition batch_adapters :: "log_record \<Rightarrow> string list" where
  "batch_adapters r = map tok_adapter (log_tokens r)"

definition batch_metrics :: "log_record list option \<Rightarrow> batch_stats option" where
  "batch_metrics log_file =
     (case log_file of
        None \<Rightarrow> None
      | Some records \<Rightarrow>
          (let rows = filter (\<lambda>r. log_tokens r \<noteq> []) records
           in if rows = [] then None
              else (let g8 = map (\<lambda>r. paper_gwar (batch_adapters r) 8) rows;
                        tok = map (\<lambda>r. length (log_tokens r)) rows
                    in Some \<lparr>st_war = avg (map log_war rows), st_gwar8 = avg g8,
                         st_gwar8_tok = sum_list (map (\<lambda>(g, n). g * real n) (zip g8 tok)) / real (sum_list tok),
                         st_batches = length rows\<rparr>)))"

subsection \<open>Statistics over seeds\<close>

definition pstdev :: "real list \<Rightarrow> real" where
  "pstdev v = sqrt (sum_list (map (\<lambda>x. (x - avg v)\<^sup>2) v) / real (length v))"

definition cv :: "real list \<Rightarrow> py_error + real" where
  "cv v = (if 1 < length v then (if avg v = 0 then Inl ZeroDivisionError else Inr (pstdev v / avg v)) else Inr 0)"

definition pearson :: "real list \<Rightarrow> real list \<Rightarrow> py_error + real" where
  "pearson x y =
     (if x = [] \<or> y = [] then Inl ValueError
      else let mx = avg x; my = avg y;
               num = sum_list (map (\<lambda>(a, b). (a - mx) * (b - my)) (zip x y));
               den = sqrt (sum_list (map (\<lambda>a. (a - mx)\<^sup>2) x) * sum_list (map (\<lambda>b. (b - my)\<^sup>2) y))
           in if den = 0 then Inl ZeroDivisionError else Inr (num / den))"

record ratio_block =
  rb_per_seed :: "(int \<times> real) list"
  rb_mean :: real
  rb_min :: real
  rb_max :: real
  rb_cv :: real

text \<open>The ratios of the seeds both arms have; the mean of no ratio is \<open>None\<close>, which \<open>round\<close> rejects.\<close>

fun seed_ratios :: "(int, real) dict \<Rightarrow> (int, real) dict \<Rightarrow> py_error + (int \<times> real) list" where
  "seed_ratios [] den = Inr []"
| "seed_ratios ((s, n) # num) den =
     (case map_of den s of
        None \<Rightarrow> seed_ratios num den
      | Some d \<Rightarrow> if d = 0 then Inl ZeroDivisionError
                  else map_sum id (\<lambda>rs. (s, n / d) # rs) (seed_ratios num den))"

definition ratio_block_of :: "(int, real) dict \<Rightarrow> (int, real) dict \<Rightarrow> py_error + ratio_block" where
  "ratio_block_of num den =
     (case seed_ratios num den of
        Inl e \<Rightarrow> Inl e
      | Inr r \<Rightarrow>
          (let v = map snd r
           in if v = [] then Inl TypeError
              else map_sum id (\<lambda>c. \<lparr>rb_per_seed = map (\<lambda>(s, x). (s, py_round_to 4 x)) r, rb_mean = py_round_to 4 (avg v),
                     rb_min = py_round_to 4 (Min (set v)), rb_max = py_round_to 4 (Max (set v)), rb_cv = py_round_to 4 c\<rparr>) (cv v)))"

subsection \<open>The reported alignment is the scheduler's\<close>

lemma paper_gwar_promoted: "paper_gwar xs t * real (length xs) = real (promoted_tokens xs t)"
  by (auto simp: paper_gwar_def gwar_scan_runs promoted_tokens_def)

lemma paper_gwar_eq: "1 \<le> t \<Longrightarrow> paper_gwar xs t = compute_gwar xs t"
  by (cases "xs = []") (simp_all add: paper_gwar_def compute_gwar_runs gwar_scan_runs, simp add: compute_gwar_def)

lemma avg_bounds:
  assumes "v \<noteq> []" and "\<forall>x\<in>set v. a \<le> x \<and> x \<le> b"
  shows "a \<le> avg v \<and> avg v \<le> b"
proof -
  have "a * real (length v) \<le> sum_list v \<and> sum_list v \<le> b * real (length v)"
    using assms(2) by (induction v) (auto simp: algebra_simps)
  then show ?thesis using assms(1) by (simp add: avg_def pos_le_divide_eq pos_divide_le_eq)
qed

lemma sum_list_map_zip_map: "sum_list (map (\<lambda>(a, b). f a b) (zip (map g xs) (map h xs))) = sum_list (map (\<lambda>x. f (g x) (h x)) xs)"
  by (induction xs) auto

text \<open>The GWAR(8) reported beside a throughput is the scheduler's measure of the batches it logged. For any log,
  the mean over batches is the mean of \<open>compute_gwar\<close> at threshold 8 of the logged tokens, in the order they
  were dispatched; the token-weighted value is the share of all logged tokens that stood in runs of at least
  8 tokens of one adapter; both lie between 0 and 1, and no value is reported exactly when no logged batch
  has a token.\<close>

theorem reported_gwar_is_measured:
  "let rows = filter (\<lambda>r. log_tokens r \<noteq> []) records in
   case batch_metrics (Some records) of
      None \<Rightarrow> rows = []
    | Some st \<Rightarrow> rows \<noteq> [] \<and> st_batches st = length rows \<and>
        st_gwar8 st = avg (map (\<lambda>r. compute_gwar (batch_adapters r) 8) rows) \<and>
        st_gwar8_tok st = real (\<Sum>r\<leftarrow>rows. promoted_tokens (batch_adapters r) 8) / real (\<Sum>r\<leftarrow>rows. length (log_tokens r)) \<and>
        0 \<le> st_gwar8 st \<and> st_gwar8 st \<le> 1 \<and> 0 \<le> st_gwar8_tok st \<and> st_gwar8_tok st \<le> 1"
proof -
  define rows where "rows = filter (\<lambda>r. log_tokens r \<noteq> []) records"
  define P where "P = (\<Sum>r\<leftarrow>rows. promoted_tokens (batch_adapters r) 8)"
  define N where "N = (\<Sum>r\<leftarrow>rows. length (log_tokens r))"
  have g: "paper_gwar (batch_adapters r) 8 = compute_gwar (batch_adapters r) 8" for r :: log_record by (simp add: paper_gwar_eq)
  have w: "paper_gwar (batch_adapters r) 8 * real (length (log_tokens r)) = real (promoted_tokens (batch_adapters r) 8)" for r :: log_record
    using paper_gwar_promoted [of "batch_adapters r" 8] by (simp add: batch_adapters_def)
  have "(\<Sum>(x, n)\<leftarrow>zip (map (\<lambda>r. paper_gwar (batch_adapters r) 8) rows) (map (\<lambda>r. length (log_tokens r)) rows). x * real n) = real P"
    unfolding sum_list_map_zip_map w P_def by (induction rows) auto
  then have m: "batch_metrics (Some records) = (if rows = [] then None
      else Some \<lparr>st_war = avg (map log_war rows), st_gwar8 = avg (map (\<lambda>r. compute_gwar (batch_adapters r) 8) rows),
        st_gwar8_tok = real P / real N, st_batches = length rows\<rparr>)"
    by (simp add: batch_metrics_def Let_def rows_def [symmetric] N_def g)
  have "P \<le> N" unfolding P_def N_def
    using promoted_tokens_le [of "batch_adapters r" 8 for r] by (intro sum_list_mono) (simp add: batch_adapters_def)
  then have share: "0 \<le> real P / real N" "real P / real N \<le> 1" by (auto simp: divide_le_eq_1)
  have "0 \<le> compute_gwar (batch_adapters r) 8 \<and> compute_gwar (batch_adapters r) 8 \<le> 1" if "r \<in> set rows" for r
    using w [of r] g [of r] that promoted_tokens_le [of "batch_adapters r" 8]
    by (auto simp: rows_def batch_adapters_def compute_gwar_runs divide_le_eq_1)
  then have "0 \<le> avg (map (\<lambda>r. compute_gwar (batch_adapters r) 8) rows) \<and> avg (map (\<lambda>r. compute_gwar (batch_adapters r) 8) rows) \<le> 1"
    if "rows \<noteq> []" using that by (intro avg_bounds) auto
  then show ?thesis unfolding Let_def rows_def [symmetric] P_def [symmetric] N_def [symmetric] m using share by auto
qed

subsection \<open>The statistics are in range\<close>

lemma cauchy_schwarz_list:
  "(\<Sum>(a, b)\<leftarrow>zip x y. a * b)\<^sup>2 \<le> (\<Sum>a\<leftarrow>x. a\<^sup>2) * (\<Sum>b\<leftarrow>y. (b :: real)\<^sup>2)"
proof (induction x y rule: list_induct2')
  case (4 a x b y)
  define s A B where "s = (\<Sum>(a, b)\<leftarrow>zip x y. a * b)" and "A = (\<Sum>a\<leftarrow>x. a\<^sup>2)" and "B = (\<Sum>b\<leftarrow>y. b\<^sup>2)"
  have nn: "0 \<le> A" "0 \<le> B" unfolding A_def B_def by (auto intro!: sum_list_nonneg)
  have s: "s\<^sup>2 \<le> A * B" using 4 by (simp add: s_def A_def B_def)
  have "(s * (a * b))\<^sup>2 \<le> (A * B) * (a * b)\<^sup>2" using s by (simp add: power_mult_distrib mult_right_mono)
  also have "\<dots> = (A * b\<^sup>2) * (B * a\<^sup>2)" by (simp add: power2_eq_square)
  also have "\<dots> \<le> ((A * b\<^sup>2 + B * a\<^sup>2) / 2)\<^sup>2"
    using zero_le_power2 [of "A * b\<^sup>2 - B * a\<^sup>2"] by (simp add: power2_eq_square field_simps)
  finally have "\<bar>s * (a * b)\<bar> \<le> \<bar>(A * b\<^sup>2 + B * a\<^sup>2) / 2\<bar>" by (simp only: abs_le_square_iff)
  moreover have "0 \<le> (A * b\<^sup>2 + B * a\<^sup>2) / 2" using nn by simp
  ultimately have "s * (a * b) \<le> (A * b\<^sup>2 + B * a\<^sup>2) / 2" by (simp only: abs_of_nonneg abs_le_iff)
  then have "2 * (s * (a * b)) \<le> A * b\<^sup>2 + B * a\<^sup>2" by simp
  then have "(a * b + s)\<^sup>2 \<le> (a\<^sup>2 + A) * (b\<^sup>2 + B)" using s by (simp add: power2_eq_square algebra_simps)
  then show ?case by (simp add: s_def A_def B_def)
qed simp_all

lemma pearson_in_range: "pearson x y = Inr r \<Longrightarrow> - 1 \<le> r \<and> r \<le> 1"
proof -
  assume r: "pearson x y = Inr r"
  define u v where "u = map (\<lambda>a. a - avg x) x" and "v = map (\<lambda>b. b - avg y) y"
  define n d where "n = (\<Sum>(a, b)\<leftarrow>zip u v. a * b)" and "d = sqrt ((\<Sum>a\<leftarrow>u. a\<^sup>2) * (\<Sum>b\<leftarrow>v. b\<^sup>2))"
  have "zip u v = map (\<lambda>(a, b). (a - avg x, b - avg y)) (zip x y)"
    by (simp add: u_def v_def zip_map1 zip_map2 case_prod_unfold comp_def)
  then have "n = (\<Sum>(a, b)\<leftarrow>zip x y. (a - avg x) * (b - avg y))" by (simp add: n_def case_prod_unfold comp_def)
  moreover have "d = sqrt ((\<Sum>a\<leftarrow>x. (a - avg x)\<^sup>2) * (\<Sum>b\<leftarrow>y. (b - avg y)\<^sup>2))" by (simp add: d_def u_def v_def comp_def)
  ultimately have rd: "d \<noteq> 0" "r = n / d" using r by (auto simp: pearson_def Let_def split: if_splits)
  have "0 \<le> d" unfolding d_def by (intro real_sqrt_ge_zero mult_nonneg_nonneg sum_list_nonneg) auto
  moreover have "\<bar>n\<bar> \<le> d" using cauchy_schwarz_list [of u v] unfolding n_def d_def by (intro real_le_rsqrt) simp
  ultimately show ?thesis using rd by (simp add: abs_le_iff le_divide_eq divide_le_eq)
qed

lemma py_round_mono: "x \<le> y \<Longrightarrow> py_round x \<le> py_round y"
proof -
  assume xy: "x \<le> y"
  show ?thesis
  proof (cases "\<lfloor>x\<rfloor> = \<lfloor>y\<rfloor>")
    case True
    then show ?thesis using xy by (auto simp: py_round_def Let_def)
  next
    case False
    then have "\<lfloor>x\<rfloor> + 1 \<le> \<lfloor>y\<rfloor>" using floor_mono [OF xy] by simp
    then show ?thesis by (simp add: py_round_def Let_def)
  qed
qed

lemma py_round_to_mono: "x \<le> y \<Longrightarrow> py_round_to n x \<le> py_round_to n y"
  using py_round_mono [of "x * 10 ^ n" "y * 10 ^ n"] by (simp add: py_round_to_def divide_right_mono)
lemma seed_ratios_ok:
  assumes "\<forall>d\<in>snd ` set den. 0 < d" and "\<forall>n\<in>snd ` set num. (0 :: real) < n"
  shows "\<exists>r. seed_ratios num den = Inr r \<and> map fst r = filter (\<lambda>s. s \<in> fst ` set den) (map fst num) \<and> (\<forall>x\<in>snd ` set r. 0 < x)"
  using assms(2)
proof (induction num)
  case (Cons sn num)
  obtain s n where sn: "sn = (s, n)" by force
  obtain r where r: "seed_ratios num den = Inr r" "map fst r = filter (\<lambda>s. s \<in> fst ` set den) (map fst num)" "\<forall>x\<in>snd ` set r. 0 < x"
    using Cons by auto
  show ?case
  proof (cases "map_of den s")
    case None
    then have "s \<notin> fst ` set den" by (simp add: map_of_eq_None_iff)
    then show ?thesis using r sn None by simp
  next
    case (Some d)
    then have "0 < d" "s \<in> fst ` set den" using assms(1) map_of_SomeD [OF Some] by force+
    then show ?thesis using r sn Some Cons.prems by simp
  qed
qed simp

lemma cv_nonneg: "\<forall>x\<in>set v. 0 < x \<Longrightarrow> \<exists>c. cv v = Inr c \<and> 0 \<le> c"
proof -
  assume pos: "\<forall>x\<in>set v. 0 < x"
  have "0 < avg v" if "v \<noteq> []"
  proof -
    have "0 < sum_list v" using pos that by (induction v) (auto simp: sum_list_nonneg less_imp_le add_pos_nonneg)
    then show ?thesis using that by (simp add: avg_def)
  qed
  moreover have "0 \<le> pstdev v" unfolding pstdev_def
    by (intro real_sqrt_ge_zero divide_nonneg_nonneg sum_list_nonneg) auto
  ultimately show ?thesis by (cases "v = []") (auto simp: cv_def)
qed

text \<open>The statistics of the report are in range. For two arms with positive throughputs and a seed in common, the
  ratio block is computed, has one ratio for each seed of the first arm that the second has, in order, and
  the mean and every per-seed ratio lie between the reported minimum and maximum, rounding included; the
  coefficient of variation is not negative. Pearson's coefficient, where it is defined, lies in [-1, 1].\<close>

theorem reported_statistics_are_in_range:
  assumes "\<forall>d\<in>snd ` set den. 0 < d" and "\<forall>n\<in>snd ` set num. (0 :: real) < n" and "s \<in> fst ` set num" and "s \<in> fst ` set den"
  shows "(\<exists>rb. ratio_block_of num den = Inr rb \<and>
      map fst (rb_per_seed rb) = filter (\<lambda>s. s \<in> fst ` set den) (map fst num) \<and>
      (\<forall>x\<in>snd ` set (rb_per_seed rb). rb_min rb \<le> x \<and> x \<le> rb_max rb) \<and>
      rb_min rb \<le> rb_mean rb \<and> rb_mean rb \<le> rb_max rb \<and> 0 \<le> rb_cv rb) \<and>
    (case pearson x y of Inl e \<Rightarrow> True | Inr r \<Rightarrow> - 1 \<le> r \<and> r \<le> 1)"
proof -
  obtain r where r: "seed_ratios num den = Inr r" "map fst r = filter (\<lambda>s. s \<in> fst ` set den) (map fst num)" "\<forall>x\<in>snd ` set r. 0 < x"
    using seed_ratios_ok [OF assms(1,2)] by blast
  define v where "v = map snd r"
  have "s \<in> set (map fst r)" using r(2) assms(3,4) by auto
  then have ne: "v \<noteq> []" by (auto simp: v_def)
  have pos: "\<forall>x\<in>set v. 0 < x" using r(3) by (simp add: v_def)
  obtain c where c: "cv v = Inr c" "0 \<le> c" using cv_nonneg [OF pos] by blast
  have range: "Min (set v) \<le> x" "x \<le> Max (set v)" if "x \<in> set v" for x using that by auto
  have a: "Min (set v) \<le> avg v" "avg v \<le> Max (set v)" using avg_bounds [OF ne, of "Min (set v)" "Max (set v)"] range by auto
  have c0: "0 \<le> py_round_to 4 c" using py_round_to_mono [OF c(2), of 4] by (simp add: py_round_to_def py_round_def)
  have "\<exists>rb. ratio_block_of num den = Inr rb \<and> rb = \<lparr>rb_per_seed = map (\<lambda>(s, x). (s, py_round_to 4 x)) r,
      rb_mean = py_round_to 4 (avg v), rb_min = py_round_to 4 (Min (set v)), rb_max = py_round_to 4 (Max (set v)), rb_cv = py_round_to 4 c\<rparr>"
    using r(1) ne c(1) by (simp add: ratio_block_of_def Let_def v_def)
  moreover have "map fst (map (\<lambda>(s, x). (s, py_round_to 4 x)) r) = map fst r" by (simp add: case_prod_unfold)
  moreover have "py_round_to 4 (Min (set v)) \<le> x \<and> x \<le> py_round_to 4 (Max (set v))"
    if "x \<in> snd ` set (map (\<lambda>(s, x). (s, py_round_to 4 x)) r)" for x
  proof -
    obtain z where "z \<in> set v" "x = py_round_to 4 z" using \<open>x \<in> _\<close> by (force simp: v_def)
    then show ?thesis using py_round_to_mono [OF range(1) [of z], of 4] py_round_to_mono [OF range(2) [of z], of 4] by simp
  qed
  moreover have "case pearson x y of Inl e \<Rightarrow> True | Inr r \<Rightarrow> - 1 \<le> r \<and> r \<le> 1"
    using pearson_in_range by (auto split: sum.splits)
  ultimately show ?thesis using r(2) py_round_to_mono [OF a(1), of 4] py_round_to_mono [OF a(2), of 4] c0 by force
qed

theorem reported_statistics_are_in_range_witness:
  "\<exists>rb. ratio_block_of [(42, 900), (43, 1000)] [(43, 500)] = Inr rb \<and> map fst (rb_per_seed rb) = [43]"
  using reported_statistics_are_in_range [of "[(43, 500)]" "[(42, 900), (43, 1000)]" 43 "[]" "[]"] by auto

end
