(* ===== verification/Experiments.thy ===== *)
theory Experiments
  imports Sweep Report Admission
begin

text \<open>
  The drivers of single experiments under \<^verbatim>\<open>benchmarks/paper/\<close>: \<^verbatim>\<open>k10.py\<close>, \<^verbatim>\<open>tp2_13b.py\<close>, \<^verbatim>\<open>c3_deadline.py\<close> and
  \<^verbatim>\<open>k4.py\<close> as instances of the loop of theory \<open>Sweep\<close>, with the call of \<open>run_benchmark\<close> each arm makes and what they add
  to a row. Formatting of floats is an argument.
\<close>

subsection \<open>What an arm runs\<close>

record bench_kw =
  kw_backend :: string
  kw_mode :: string
  kw_model :: string
  kw_adir :: string
  kw_K :: int
  kw_rank :: int
  kw_rate :: real
  kw_prompts :: nat
  kw_warmup :: nat
  kw_seed :: int
  kw_tp :: int
  kw_extra :: "string list option"
  kw_tmax :: "int option"
  kw_threshold :: "int option"

abbreviation engine_flags :: "string list" where
  "engine_flags \<equiv> [''--max-num-seqs'', ''256'', ''--num-scheduler-steps'', ''8'']"

text \<open>The trace and the server of \<open>run_benchmark(**kw)\<close> with its one seed; \<open>pattern\<close> is zipf in every driver.\<close>

definition kw_trace :: "'r rng_lib \<Rightarrow> (nat \<Rightarrow> int \<Rightarrow> string list) \<Rightarrow> int \<Rightarrow> bench_kw \<Rightarrow> py_error + load_request list" where
  "kw_trace lib prompts maxt kw =
     bench_trace lib \<lparr>gen_prompts = prompts (kw_prompts kw + kw_warmup kw + 50) (kw_seed kw), gen_max_tokens = maxt\<rparr>
       ''zipf'' (kw_rate kw) (kw_prompts kw + kw_warmup kw) (kw_K kw) (kw_seed kw)"

definition kw_server :: "environ \<Rightarrow> (string \<Rightarrow> string) \<Rightarrow> string list \<Rightarrow> int \<Rightarrow> bench_kw \<Rightarrow> py_error + server" where
  "kw_server os to_lower dirs prt kw =
     rep_server os to_lower (kw_backend kw) (kw_mode kw) (kw_model kw) dirs prt (kw_tp kw) (kw_tmax kw) (kw_threshold kw)
       (kw_rank kw) (kw_K kw) (kw_extra kw) 0"

subsection \<open>The drivers\<close>

text \<open>\<^verbatim>\<open>k10.py\<close>: an item is an arm and a seed.\<close>

record k10_config =
  k10_out :: string
  k10_abspath :: "string \<Rightarrow> string"
  k10_rate :: real
  k10_prompts :: nat
  k10_warmup :: nat

definition k10_tag :: "string \<times> int \<Rightarrow> string" where
  "k10_tag = (\<lambda>(arm, seed). arm @ ''_s'' @ py_str seed)"

definition k10_log :: "k10_config \<Rightarrow> string \<times> int \<Rightarrow> string" where
  "k10_log cfg c = k10_abspath cfg (k10_out cfg @ ''/'' @ k10_tag c @ ''.metrics.jsonl'')"

definition k10_driver :: "k10_config \<Rightarrow> (string \<times> int) driver" where
  "k10_driver cfg =
     \<lparr>dr_out = k10_out cfg, dr_tag = k10_tag, dr_check = (\<lambda>c. None),
      dr_clear = (\<lambda>env c. if k10_is_as (fst c) \<and> map_of env ''AS_LOG_WAR'' = Some ''1'' then Some (k10_log cfg c) else None),
      dr_envs = (\<lambda>env c. k10_envs env (fst c) (k10_log cfg c))\<rparr>"

definition k10_kw :: "k10_config \<Rightarrow> string \<times> int \<Rightarrow> bench_kw" where
  "k10_kw cfg = (\<lambda>(arm, seed).
     \<lparr>kw_backend = (if k10_is_as arm then ''adapterslots'' else if arm = ''slora'' then ''slora'' else ''vllm''),
      kw_mode = k10_mode arm, kw_model = ''./models/llama-7b'', kw_adir = ''./adapters'', kw_K = 10, kw_rank = 32,
      kw_rate = k10_rate cfg, kw_prompts = k10_prompts cfg, kw_warmup = k10_warmup cfg, kw_seed = seed, kw_tp = 1,
      kw_extra = (if arm \<in> {''v050'', ''slora''} then None else Some engine_flags),
      kw_tmax = (if k10_is_as arm then Some 90 else None), kw_threshold = (if k10_is_as arm then Some 8 else None)\<rparr>)"

definition k10_sweep ::
  "json_lib \<Rightarrow> k10_config \<Rightarrow> (nat \<Rightarrow> int \<Rightarrow> bool) \<Rightarrow> (string \<times> int, 'e) item_run \<Rightarrow> int list \<Rightarrow> string list \<Rightarrow> sweep \<Rightarrow> load_error + sweep" where
  "k10_sweep lib cfg binds run seeds arms =
     sweep_items lib (k10_driver cfg) binds run [Inr (arm, seed). seed \<leftarrow> seeds, arm \<leftarrow> arms]"

text \<open>\<^verbatim>\<open>tp2_13b.py\<close>: rank, number of adapters, arm. The directory of a rank outside the table raises KeyError in the run.\<close>

record tp2_config =
  tp2_out :: string
  tp2_seed :: int
  tp2_tp :: int

definition tp2_tag :: "tp2_config \<Rightarrow> int \<times> int \<times> string \<Rightarrow> string" where
  "tp2_tag cfg = (\<lambda>(rnk, K, arm). ''r'' @ py_str rnk @ ''_sat_K'' @ py_str K @ ''_'' @ arm @
     (if tp2_seed cfg = 42 then [] else ''_s'' @ py_str (tp2_seed cfg)))"

definition tp2_driver :: "tp2_config \<Rightarrow> (int \<times> int \<times> string) driver" where
  "tp2_driver cfg =
     \<lparr>dr_out = tp2_out cfg, dr_tag = tp2_tag cfg, dr_check = (\<lambda>c. None), dr_clear = (\<lambda>env c. None),
      dr_envs = (\<lambda>env (rnk, K, arm). if arm = ''as'' then as_env env else [])\<rparr>"

definition tp2_adir :: "(int, string) dict" where
  "tp2_adir = [(16, ''./adapters_13b_r16''), (32, ''./adapters_13b''), (64, ''./adapters_13b_r64''), (128, ''./adapters_13b_r128'')]"

definition tp2_kw :: "tp2_config \<Rightarrow> int \<times> int \<times> string \<Rightarrow> py_error + bench_kw" where
  "tp2_kw cfg = (\<lambda>(rnk, K, arm).
     (case map_of tp2_adir rnk of
        None \<Rightarrow> Inl KeyError
      | Some adir \<Rightarrow> Inr
          \<lparr>kw_backend = (if arm = ''vllm'' then ''vllm'' else ''adapterslots''), kw_mode = (if arm = ''vllm'' then ''C0'' else ''C7''),
           kw_model = ''./models/llama-13b'', kw_adir = adir, kw_K = K, kw_rank = rnk, kw_rate = 300, kw_prompts = 400,
           kw_warmup = 30, kw_seed = tp2_seed cfg, kw_tp = tp2_tp cfg, kw_extra = Some engine_flags,
           kw_tmax = (if arm = ''as'' then Some 90 else None), kw_threshold = (if arm = ''as'' then Some 8 else None)\<rparr>))"

definition tp2_sweep ::
  "json_lib \<Rightarrow> tp2_config \<Rightarrow> (nat \<Rightarrow> int \<Rightarrow> bool) \<Rightarrow> (int \<times> int \<times> string, 'e) item_run \<Rightarrow> int list \<Rightarrow> int list \<Rightarrow> string list \<Rightarrow>
     sweep \<Rightarrow> load_error + sweep" where
  "tp2_sweep lib cfg binds run ranks Ks arms =
     sweep_items lib (tp2_driver cfg) binds run [Inr (rnk, K, arm). rnk \<leftarrow> ranks, K \<leftarrow> Ks, arm \<leftarrow> arms]"

text \<open>\<^verbatim>\<open>c3_deadline.py\<close>: an item is a deadline; \<open>c3_g\<close> and \<open>c3_str\<close> are \<open>f"{d:g}"\<close> and \<open>str(d)\<close>.\<close>

record c3_config =
  c3_out :: string
  c3_abspath :: "string \<Rightarrow> string"
  c3_g :: "real \<Rightarrow> string"
  c3_str :: "real \<Rightarrow> string"
  c3_rank :: int
  c3_adir :: string
  c3_seed :: int
  c3_prompts :: nat
  c3_flags :: "string list"

definition c3_tag :: "c3_config \<Rightarrow> real \<Rightarrow> string" where
  "c3_tag cfg d = ''dl'' @ c3_g cfg d"

definition c3_log :: "c3_config \<Rightarrow> real \<Rightarrow> string" where
  "c3_log cfg d = c3_abspath cfg (c3_out cfg @ ''/'' @ c3_tag cfg d @ ''.metrics.jsonl'')"

definition c3_envs :: "c3_config \<Rightarrow> environ \<Rightarrow> real \<Rightarrow> environ" where
  "c3_envs cfg env d =
     dict_update [(''AS_KV_ADMISSION'', ''1''), (''AS_ADMIT_GROUPED'', ''1''), (''AS_GROUP_MAX_WAIT_S'', c3_str cfg d),
       (''AS_LOG_WAR'', ''1''), (''AS_METRICS_PATH'', c3_log cfg d)] (as_env env)"

definition c3_driver :: "c3_config \<Rightarrow> real driver" where
  "c3_driver cfg =
     \<lparr>dr_out = c3_out cfg, dr_tag = c3_tag cfg, dr_check = (\<lambda>d. None), dr_clear = (\<lambda>env d. Some (c3_log cfg d)),
      dr_envs = c3_envs cfg\<rparr>"

definition c3_kw :: "c3_config \<Rightarrow> bench_kw" where
  "c3_kw cfg =
     \<lparr>kw_backend = ''adapterslots'', kw_mode = ''C7'', kw_model = ''./models/llama-13b'', kw_adir = c3_adir cfg, kw_K = 16,
      kw_rank = c3_rank cfg, kw_rate = 300, kw_prompts = c3_prompts cfg, kw_warmup = 30, kw_seed = c3_seed cfg, kw_tp = 1,
      kw_extra = Some (engine_flags @ c3_flags cfg), kw_tmax = Some 90, kw_threshold = Some 16\<rparr>"

definition c3_sweep ::
  "json_lib \<Rightarrow> c3_config \<Rightarrow> (nat \<Rightarrow> int \<Rightarrow> bool) \<Rightarrow> (real, 'e) item_run \<Rightarrow> real list \<Rightarrow> sweep \<Rightarrow> load_error + sweep" where
  "c3_sweep lib cfg binds run ds = sweep_items lib (c3_driver cfg) binds run (map Inr ds)"

text \<open>\<^verbatim>\<open>k4.py\<close>: variant, seed and arm. An unknown variant raises KeyError when the loop comes to it. Both variants add no
  settings of their own.\<close>

record k4_config =
  k4_out :: string
  k4_abspath :: "string \<Rightarrow> string"

definition k4_variants :: "(string, string list option) dict" where
  "k4_variants = [(''engine'', None), (''sync'', Some [''--disable-async-output-proc''])]"

definition k4_tag :: "string \<times> int \<times> string \<Rightarrow> string" where
  "k4_tag = (\<lambda>(var, seed, arm). ''k4_'' @ var @ ''_'' @ arm @ ''_s'' @ py_str seed)"

definition k4_log :: "k4_config \<Rightarrow> string \<times> int \<times> string \<Rightarrow> string" where
  "k4_log cfg c = k4_abspath cfg (k4_out cfg @ ''/'' @ k4_tag c @ ''_req.jsonl'')"

definition k4_envs :: "k4_config \<Rightarrow> environ \<Rightarrow> string \<times> int \<times> string \<Rightarrow> environ" where
  "k4_envs cfg env c =
     (if snd (snd c) = ''as'' then dict_set ''AS_REQ_METRICS_PATH'' (k4_log cfg c) (as_env env) else [])"

definition k4_driver :: "k4_config \<Rightarrow> (string \<times> int \<times> string) driver" where
  "k4_driver cfg =
     \<lparr>dr_out = k4_out cfg, dr_tag = k4_tag, dr_check = (\<lambda>c. None),
      dr_clear = (\<lambda>env c. if snd (snd c) = ''as'' then Some (k4_log cfg c) else None), dr_envs = k4_envs cfg\<rparr>"

definition k4_kw :: "string list option \<Rightarrow> int \<Rightarrow> string \<Rightarrow> bench_kw" where
  "k4_kw extra seed arm =
     \<lparr>kw_backend = (if arm = ''vllm'' then ''vllm'' else ''adapterslots''), kw_mode = (if arm = ''vllm'' then ''C0'' else ''C7''),
      kw_model = ''./models/llama-7b'', kw_adir = ''./adapters_r16d'', kw_K = 4, kw_rank = 16, kw_rate = 7, kw_prompts = 500,
      kw_warmup = 20, kw_seed = seed, kw_tp = 1, kw_extra = extra,
      kw_tmax = (if arm = ''as'' then Some 90 else None), kw_threshold = (if arm = ''as'' then Some 8 else None)\<rparr>"

definition k4_items :: "string \<Rightarrow> int list \<Rightarrow> string list \<Rightarrow> (load_error + string \<times> int \<times> string) list" where
  "k4_items var seeds arms =
     (if dict_has k4_variants var then [Inr (var, seed, arm). seed \<leftarrow> seeds, arm \<leftarrow> arms] else [Inl (PyError KeyError)])"

definition k4_sweep ::
  "json_lib \<Rightarrow> k4_config \<Rightarrow> (nat \<Rightarrow> int \<Rightarrow> bool) \<Rightarrow> (string \<times> int \<times> string, 'e) item_run \<Rightarrow> string list \<Rightarrow> int list \<Rightarrow>
     string list \<Rightarrow> sweep \<Rightarrow> load_error + sweep" where
  "k4_sweep lib cfg binds run vars seeds arms =
     sweep_items lib (k4_driver cfg) binds run (concat (map (\<lambda>var. k4_items var seeds arms) vars))"

subsection \<open>What they add to a row\<close>

text \<open>\<^verbatim>\<open>k4.py\<close>: the engine's time to first token of the requests after the client's warm-up, from the scheduler's request records.
  A first token at time 0 counts as missing, and \<open>np.percentile\<close> (the linear interpolation of \<open>Collector\<close>) raises
  IndexError for no number.\<close>

definition engine_ttfts :: "request_record list \<Rightarrow> real list" where
  "engine_ttfts records =
     List.map_filter (\<lambda>x. case rr_first_token x of None \<Rightarrow> None | Some t \<Rightarrow> if t = 0 then None else Some ((t - rr_arrival x) * 1000))
       (drop 20 (sort_key rr_arrival records))"

record engine_row =
  eng_p50 :: real
  eng_p99 :: real
  eng_n :: nat

definition k4_engine_row :: "request_record list \<Rightarrow> py_error + engine_row" where
  "k4_engine_row records =
     (let eng = engine_ttfts records
      in case (percentile eng 50, percentile eng 99) of
           (Some p50, Some p99) \<Rightarrow> Inr \<lparr>eng_p50 = p50, eng_p99 = p99, eng_n = length eng\<rparr>
         | _ \<Rightarrow> Inl IndexError)"

lemma length_map_filter: "length (List.map_filter f xs) \<le> length xs"
  by (induction xs) (simp_all split: option.split)

lemma k4_engine_row_ok:
  assumes "k4_engine_row records = Inr row"
  shows "eng_p50 row \<le> eng_p99 row \<and> 0 < eng_n row \<and> eng_n row + 20 \<le> length records"
proof -
  let ?eng = "engine_ttfts records"
  have p: "percentile ?eng 50 = Some (eng_p50 row)" "percentile ?eng 99 = Some (eng_p99 row)" "eng_n row = length ?eng"
    using assms by (auto simp: k4_engine_row_def Let_def split: option.splits)
  have ne: "?eng \<noteq> []" using p(1) by (auto simp: percentile_def)
  have "length ?eng \<le> length (drop 20 (sort_key rr_arrival records))"
    unfolding engine_ttfts_def by (rule length_map_filter)
  then have "length ?eng + 20 \<le> length records" using ne by (cases ?eng) auto
  then show ?thesis using percentile_mono [OF _ _ _ p(1,2)] ne p(3) by simp
qed

text \<open>\<^verbatim>\<open>c3_deadline.py\<close>: the points with an alignment, by deadline, then throughput, then GWAR(8), and their correlation; it is
  printed for at least three points (\<open>np.corrcoef\<close> gives \<open>nan\<close> where the quotient has no value).\<close>

record c3_row =
  pt_deadline :: real
  pt_tput :: real
  pt_gwar8 :: "real option"

definition c3_points :: "(string, c3_row) dict \<Rightarrow> (real \<times> real \<times> real) list" where
  "c3_points res =
     sort_key (\<lambda>p. p) (List.map_filter (\<lambda>(tag, r). map_option (\<lambda>g. (pt_deadline r, pt_tput r, g)) (pt_gwar8 r)) res)"

definition c3_correlation :: "(string, c3_row) dict \<Rightarrow> real option option" where
  "c3_correlation res =
     (let pts = c3_points res
      in if 3 \<le> length pts
         then Some (case pearson (map (\<lambda>(d, t, g). g) pts) (map (\<lambda>(d, t, g). t) pts) of Inl e \<Rightarrow> None | Inr r \<Rightarrow> Some r)
         else None)"

lemma c3_correlation_bounded: "c3_correlation res = Some (Some r) \<Longrightarrow> \<bar>r\<bar> \<le> 1"
  using pearson_in_range by (fastforce simp: c3_correlation_def Let_def split: if_splits sum.splits)

subsection \<open>The drivers keep their settings apart\<close>

lemmas driver_sets = as_env_def Let_def setting_names_def dict_get_def

lemma k10_driver_ok: "driver_ok (k10_driver cfg) setting_names"
  by (auto simp: driver_ok_def k10_driver_def k10_envs_def driver_sets)

lemma tp2_driver_ok: "driver_ok (tp2_driver cfg) setting_names"
  by (auto simp: driver_ok_def tp2_driver_def driver_sets)

definition c3_names :: "string set" where
  "c3_names = setting_names \<union> {''AS_KV_ADMISSION'', ''AS_ADMIT_GROUPED'', ''AS_GROUP_MAX_WAIT_S'', ''AS_LOG_WAR''}"

lemma c3_driver_ok: "driver_ok (c3_driver cfg) c3_names"
  by (auto simp: driver_ok_def c3_driver_def c3_envs_def c3_names_def driver_sets)

definition k4_names :: "string set" where
  "k4_names = insert ''AS_REQ_METRICS_PATH'' setting_names"

lemma k4_driver_ok: "driver_ok (k4_driver cfg) k4_names"
  by (auto simp: driver_ok_def k4_driver_def k4_envs_def k4_names_def driver_sets)

interpretation k10: sweep_driver "k10_driver cfg" setting_names for cfg
  by (rule driver_ok_locale [OF k10_driver_ok])

interpretation tp2: sweep_driver "tp2_driver cfg" setting_names for cfg
  by (rule driver_ok_locale [OF tp2_driver_ok])

interpretation c3: sweep_driver "c3_driver cfg" c3_names for cfg
  by (rule driver_ok_locale [OF c3_driver_ok])

interpretation k4: sweep_driver "k4_driver cfg" k4_names for cfg
  by (rule driver_ok_locale [OF k4_driver_ok])

text \<open>The arms of a driver are compared on the same requests.\<close>

lemma k10_arms_share_trace: "kw_trace lib prompts maxt (k10_kw cfg (arm, seed)) = kw_trace lib prompts maxt (k10_kw cfg (arm2, seed))"
  by (simp add: kw_trace_def k10_kw_def)

lemma k4_arms_share_trace: "kw_trace lib prompts maxt (k4_kw extra seed arm) = kw_trace lib prompts maxt (k4_kw extra2 seed arm2)"
  by (simp add: kw_trace_def k4_kw_def)

subsection \<open>The deadline of a point reaches admission\<close>

lemma child_env_keeps:
  assumes "map_of config_map (be_mode b) = Some cfg" and "child_env os b = Inr env" and "map_of os k = Some v" and "map_of cfg k = None"
    and "k \<notin> {''AS_METRICS_PATH'', ''AS_K_WARM'', ''AS_TMAX_MS'', ''AS_WGKP_THRESHOLD'', ''CUDA_VISIBLE_DEVICES''}"
  shows "map_of env k = Some v"
proof -
  note cfg = config_ok [OF assms(1)]
  obtain e where e: "server_env os b = Inr e" by (simp add: server_env_def assms(1) Let_def)
  have ok: "dict_ok e" using e cfg
    by (cases "be_tmax_ms b"; cases "be_threshold b") (auto simp: server_env_def assms(1) Let_def)
  define env1 where "env1 = dict_update cfg [(''AS_METRICS_PATH'', metrics_path b)]"
  have "map_of env1 k = None" using cfg assms(4,5) by (simp add: env1_def map_of_dict_update_ok)
  then have "map_of e k = (if k \<in> set passed_through then Some v else None)"
    using e assms(3,5) by (simp only: server_env_def assms(1) option.case Let_def env1_def [symmetric] sum.inject)
      (auto simp: map_of_pass_through map_of_set_option map_of_set_if)
  then show ?thesis using assms(2,3,5) by (auto simp: child_env_def e Let_def map_of_dict_update_ok [OF ok] split: option.splits if_splits)
qed

lemma deadline_zero_keeps_arrival_order:
  assumes "sorted (map arrival_time q)" and "\<forall>sg\<in>set q. arrival_time sg \<le> now"
  shows "group_waiting now 0 q = q"
proof -
  have "map (admission_key now 0 q) q = map (\<lambda>sg. (0, arrival_time sg, 0, 0, 0)) q" using assms(2) by (simp add: admission_key_def)
  moreover have "sorted (map (\<lambda>sg. (0 :: int, arrival_time sg, 0 :: int, 0 :: int, 0 :: real)) q)"
    using assms(1) by (auto simp: sorted_iff_nth_mono less_eq_prod_def)
  ultimately have "sorted (map (admission_key now 0 q) q)" by (simp only:)
  then show ?thesis by (simp only: group_waiting_def sort_key_id_if_sorted)
qed

text \<open>C38: The deadline a point of the C3 sweep is labelled with is the deadline its scheduler admits with. The sweep starts in
  an environment without AS_ variables, and the printed deadline is read back as the same number. Then a run
  of the point makes an AdapterSlots server on the GPU slots of its 16 adapters; the scheduler that server
  constructs from its environment is in WGKP mode with KV-aware and grouped admission, the batch log, a T_max
  of 90 ms, the threshold 16 and the point's deadline; and at deadline 0 regrouping leaves a queue in
  arrival order as it is, so that alignment at admission is off, as the driver says.\<close>

theorem c3_deadline_reaches_admission:
  assumes "list_all (\<lambda>k. \<not> prefix ''AS_'' k) (dict_keys env0)" and "run_env_ok (c3_driver cfg) env0 d env"
    and "py_float (c3_str cfg d) = Some d" and "c3_log cfg d \<noteq> []" and "to_lower ''adapterslots'' = ''adapterslots''"
  shows "\<exists>b e s. kw_server env to_lower dirs prt (c3_kw cfg) = Inr (AdapterSlotsSrv b) \<and> max_loras b = 16 \<and>
    child_env env b = Inr e \<and> scheduler_init e read path mwc t0 = Inr s \<and>
    sched_mode s = ''wgkp'' \<and> kv_admission s \<and> admit_grouped s \<and> log_enabled s \<and> metrics_path b = c3_log cfg d \<and>
    t_max (buffer s) = 90 / 1000 \<and> static_threshold s = 16 \<and> group_max_wait_s s = d \<and>
    (d = 0 \<longrightarrow> sorted (map arrival_time q) \<longrightarrow> (\<forall>sg\<in>set q. arrival_time sg \<le> now) \<longrightarrow>
       group_waiting now (group_max_wait_s s) q = q)"
proof -
  have env0: "map_of env0 k = None" if "prefix ''AS_'' k" for k
    using assms(1) that by (auto simp: map_of_eq_None_iff list_all_iff)
  have look: "map_of env k = (case map_of (c3_envs cfg env0 d) k of Some v \<Rightarrow> Some v | None \<Rightarrow> map_of env0 k)" for k
    using assms(2) by (simp add: run_env_ok_def c3_driver_def)
  note set = look c3_envs_def as_env_def env0
  have env: "map_of env ''AS_MAX_LORAS'' = None" "map_of env ''AS_METRICS_PATH'' = Some (c3_log cfg d)"
    "map_of env ''AS_KV_ADMISSION'' = Some ''1''" "map_of env ''AS_ADMIT_GROUPED'' = Some ''1''" "map_of env ''AS_LOG_WAR'' = Some ''1''"
    "map_of env ''AS_GROUP_MAX_WAIT_S'' = Some (c3_str cfg d)" by (simp_all add: set)
  have none: "map_of env ''AS_EWMA_ALPHA'' = None" "map_of env ''AS_PI_KP'' = None" "map_of env ''AS_PI_KI'' = None"
    "map_of env ''AS_PREFETCH_POLICY'' = None" "map_of env ''AS_MODE'' = None" "map_of env ''AS_TMAX_MS'' = None"
    "map_of env ''AS_WGKP_THRESHOLD'' = None" by (simp_all add: set)
  obtain b where b: "kw_server env to_lower dirs prt (c3_kw cfg) = Inr (AdapterSlotsSrv b)" "be_mode b = ''C7''" "be_tmax_ms b = Some 90"
    "be_threshold b = Some 16" "max_loras b = 16" "metrics_path b = c3_log cfg d"
    using env(1,2) assms(4,5) by (simp add: kw_server_def rep_server_def c3_kw_def backend_init_def dict_get_def Let_def)
  define c7 where "c7 = [(''AS_SCHEDULER'', ''1''), (''AS_MODE'', ''wgkp''), (''AS_SEGGEMM'', ''3'')]"
  have c7: "map_of config_map (be_mode b) = Some c7" by (simp add: b(2) config_map_def c7_def)
  obtain e where e: "child_env env b = Inr e" and "\<forall>k. k \<noteq> ''CUDA_VISIBLE_DEVICES'' \<longrightarrow> map_of env k = None \<longrightarrow> map_of e k =
      (if k = ''AS_WGKP_THRESHOLD'' \<and> be_threshold b \<noteq> None then map_option py_str (be_threshold b)
       else if k = ''AS_TMAX_MS'' \<and> be_tmax_ms b \<noteq> None then map_option py_str (be_tmax_ms b)
       else if k = ''AS_K_WARM'' \<and> dict_has c7 ''AS_PREFETCH_POLICY'' then Some (py_str (max_loras b))
       else case map_of c7 k of Some v \<Rightarrow> Some v | None \<Rightarrow> if k = ''AS_METRICS_PATH'' then Some (metrics_path b) else None)"
    using child_env_lookup [OF c7, of env] by blast
  then have "map_of e ''AS_EWMA_ALPHA'' = None" "map_of e ''AS_PI_KP'' = None" "map_of e ''AS_PI_KI'' = None"
    "map_of e ''AS_PREFETCH_POLICY'' = None" "map_of e ''AS_MODE'' = Some ''wgkp''" "map_of e ''AS_TMAX_MS'' = Some (py_str 90)"
    "map_of e ''AS_WGKP_THRESHOLD'' = Some (py_str 16)"
    using b(3,4) by (simp_all add: none c7_def dict_has_def)
  then have seen: "env_float e ''AS_EWMA_ALPHA'' (1/10) = 1/10" "env_float e ''AS_PI_KP'' (1/100) = 1/100"
    "env_float e ''AS_PI_KI'' (1/1000) = 1/1000" "init_cache e = Inr None" "dict_get e ''AS_MODE'' ''threshold'' = ''wgkp''"
    "env_float e ''AS_TMAX_MS'' 5 = 90" "env_int e ''AS_WGKP_THRESHOLD'' 8 = 16"
    by (simp_all add: env_float_def env_int_def init_cache_def dict_get_def Let_def)
  have "map_of e k = Some v" if "map_of env k = Some v" "k \<in> {''AS_KV_ADMISSION'', ''AS_ADMIT_GROUPED'', ''AS_LOG_WAR'', ''AS_GROUP_MAX_WAIT_S''}"
    for k v using that by (intro child_env_keeps [OF c7 e that(1)]) (auto simp: c7_def)
  then have kept: "dict_get e ''AS_KV_ADMISSION'' ''0'' = ''1''" "dict_get e ''AS_ADMIT_GROUPED'' ''0'' = ''1''"
    "dict_get e ''AS_LOG_WAR'' ''0'' = ''1''" "env_float e ''AS_GROUP_MAX_WAIT_S'' 30 = d"
    using env(3-6) assms(3) by (simp_all add: dict_get_def env_float_def)
  obtain es :: "string estimator" where es: "estimator_init (env_float e ''AS_EWMA_ALPHA'' (1/10)) 1 False 0 = Inr es"
    by (simp add: estimator_init_def seen(1))
  obtain s where s: "scheduler_init e read path mwc t0 = Inr s" "sched_mode s = ''wgkp''" "t_max (buffer s) = 90 / 1000"
    "static_threshold s = 16" "kv_admission s" "admit_grouped s" "log_enabled s" "group_max_wait_s s = d"
    using scheduler_init_parts [OF es _ _ seen(4) seen(5) [symmetric], of read path mwc t0] by (auto simp: seen kept)
  have "d = 0 \<longrightarrow> sorted (map arrival_time q) \<longrightarrow> (\<forall>sg\<in>set q. arrival_time sg \<le> now) \<longrightarrow>
      group_waiting now (group_max_wait_s s) q = q"
    by (simp add: s(8) deadline_zero_keeps_arrival_order)
  then show ?thesis using b e s by blast
qed

text \<open>Deadline 15; the strings of the other deadlines do not matter.\<close>

definition demo_c3 :: c3_config where
  "demo_c3 = \<lparr>c3_out = ''o'', c3_abspath = (\<lambda>p. ''/'' @ p), c3_g = (\<lambda>d. ''15''), c3_str = (\<lambda>d. ''15.0''), c3_rank = 64,
     c3_adir = ''a'', c3_seed = 42, c3_prompts = 2000, c3_flags = []\<rparr>"

theorem c3_deadline_reaches_admission_witness:
  "\<exists>b e s. kw_server (c3_envs demo_c3 [] 15) (\<lambda>s. s) [''a0''] 51101 (c3_kw demo_c3) = Inr (AdapterSlotsSrv b) \<and>
     child_env (c3_envs demo_c3 [] 15) b = Inr e \<and>
     scheduler_init e (\<lambda>p. None) ''profile'' (None :: unit mwc option) 0 = Inr s \<and> group_max_wait_s s = 15"
proof -
  have f: "py_float (c3_str demo_c3 15) = Some 15" by (simp add: demo_c3_def) code_simp
  have env: "run_env_ok (c3_driver demo_c3) [] 15 (c3_envs demo_c3 [] 15)"
    by (simp add: run_env_ok_def c3_driver_def split: option.splits)
  have l: "c3_log demo_c3 15 \<noteq> []" by (simp add: c3_log_def demo_c3_def)
  from c3_deadline_reaches_admission [OF _ env f l, where to_lower = "\<lambda>s. s" and dirs = "[''a0'']" and prt = 51101 and read = "\<lambda>p. None"
      and path = "''profile''" and mwc = "None :: unit mwc option" and ?t0.0 = 0 and q = "[]" and now = 0]
  show ?thesis by (simp add: list_all_iff) blast
qed

end
