(* ===== verification/ApisDriver.thy ===== *)
theory ApisDriver
  imports Experiments ApisBench
begin

text \<open>
  \<^verbatim>\<open>benchmarks/paper/apis.py\<close>: the two-server experiment. The pair of ports, the servers of each arm, and the loop
  over seeds and arms, which keeps all results in memory and writes them after every arm. What a run of an arm
  measures, the ports that can be bound, the traces and \<open>json\<close> are arguments.
\<close>

subsection \<open>Ports\<close>

text \<open>The \<open>while\<close> of \<open>two_server\<close>. An exception leaves the last value of \<open>port\<close>.\<close>

function next_pair :: "(int \<Rightarrow> bool) \<Rightarrow> int \<Rightarrow> (py_error \<times> int) + int" where
  "next_pair binds prt =
     (case free_port binds (prt + 1) of
        Inl e \<Rightarrow> Inl (e, prt)
      | Inr q \<Rightarrow> if q = prt + 1 then Inr prt
                  else (case free_port binds (prt + 2) of Inl e \<Rightarrow> Inl (e, prt) | Inr prt' \<Rightarrow> next_pair binds prt'))"
  by pat_completeness auto
termination
  by (relation "measure (\<lambda>(binds, prt). nat (65536 - prt))") (auto dest: free_port_first)

declare next_pair.simps [simp del]

definition two_ports :: "(int \<Rightarrow> bool) \<Rightarrow> int \<Rightarrow> (py_error \<times> int) + int" where
  "two_ports binds prt = (case free_port binds (prt + 2) of Inl e \<Rightarrow> Inl (e, prt) | Inr p \<Rightarrow> next_pair binds p)"

subsection \<open>Arms\<close>

text \<open>\<open>AsPair\<close> and \<open>VllmPair\<close> with whether routing follows adapter affinity; \<open>OneVllm\<close> with whether it is vLLM 0.5.0.\<close>

datatype apis_arm =
    AsPair backend backend bool
  | VllmPair base_backend base_backend bool
  | OneVllm base_backend bool

definition apis_model :: string where
  "apis_model = ''./models/llama-7b''"

text \<open>\<open>two_server\<close> up to the start. The runner constructs its own servers also for the vLLM arms, which replace them.\<close>

definition two_server ::
  "environ \<Rightarrow> string list \<Rightarrow> int \<Rightarrow> int \<Rightarrow> string list \<Rightarrow> bool \<Rightarrow> bool \<Rightarrow> int option \<Rightarrow> py_error + apis_arm" where
  "two_server env dirs rnk prt extra vanilla affinity slots =
     (case apis_runner env apis_model dirs affinity rnk (Some 90) (Some 8) ''C7'' prt (prt + 1) of
        Inl e \<Rightarrow> Inl e
      | Inr (a, b) \<Rightarrow>
          (let loras = (case slots of Some n \<Rightarrow> if n \<noteq> 0 then n else apis_max_loras affinity (int (length dirs))
                        | None \<Rightarrow> apis_max_loras affinity (int (length dirs)));
               extra = (case slots of Some n \<Rightarrow> if n \<noteq> 0 then extra @ [''--max-cpu-loras'', ''50''] else extra | None \<Rightarrow> extra)
           in if vanilla
              then Inr (VllmPair (base_init apis_model dirs prt 1 rnk loras (Some extra) (Some 0))
                          (base_init apis_model dirs (prt + 1) 1 rnk loras (Some extra) (Some 1)) affinity)
              else Inr (AsPair (a\<lparr>extra_args := extra\<rparr>) (b\<lparr>extra_args := extra\<rparr>) affinity)))"

definition one_server :: "string list \<Rightarrow> int \<Rightarrow> int \<Rightarrow> string list \<Rightarrow> bool \<Rightarrow> apis_arm" where
  "one_server dirs rnk prt extra v050 = OneVllm (base_init apis_model dirs prt 2 rnk (max 16 50) (Some extra) None) v050"

definition arm_servers :: "environ \<Rightarrow> string list \<Rightarrow> int \<Rightarrow> string \<Rightarrow> int \<Rightarrow> py_error + apis_arm" where
  "arm_servers env dirs rnk arm prt =
     (if arm = ''tp2'' then Inr (one_server dirs rnk prt engine_flags False)
      else if arm = ''tp2_v050'' then Inr (one_server dirs rnk prt (strip_scheduler_steps engine_flags) True)
      else if arm = ''topo_rr'' then two_server env dirs rnk prt engine_flags True False None
      else if arm = ''topo_rr25'' then two_server env dirs rnk prt engine_flags True False (Some (- ((- 50) div 2)))
      else two_server env dirs rnk prt engine_flags (arm = ''topo'') True None)"

definition arm_port :: "(int \<Rightarrow> bool) \<Rightarrow> string \<Rightarrow> int \<Rightarrow> (py_error \<times> int) + int" where
  "arm_port binds arm prt =
     (if arm \<in> {''tp2'', ''tp2_v050''}
      then (case free_port binds (prt + 1) of Inl e \<Rightarrow> Inl (e, prt) | Inr p \<Rightarrow> Inr p)
      else two_ports binds prt)"

subsection \<open>The loop\<close>

record apis_state =
  ap_env :: environ
  ap_port :: int
  ap_res :: "(string, json) dict"
  ap_fs :: files

type_synonym arm_run = "environ \<Rightarrow> apis_arm \<Rightarrow> load_request list \<Rightarrow> files \<Rightarrow> real option \<times> files"

text \<open>The body of the \<open>try\<close>: the throughput, or \<open>None\<close> for any exception, the port and the files it leaves.\<close>

definition try_arm ::
  "(int \<Rightarrow> bool) \<Rightarrow> arm_run \<Rightarrow> string list \<Rightarrow> int \<Rightarrow> string \<Rightarrow> load_request list \<Rightarrow> environ \<Rightarrow> int \<Rightarrow> files \<Rightarrow>
     real option \<times> int \<times> files" where
  "try_arm binds run dirs rnk arm reqs env prt fs =
     (case arm_port binds arm prt of
        Inl (e, p) \<Rightarrow> (None, p, fs)
      | Inr p \<Rightarrow>
          (case arm_servers env dirs rnk arm p of
             Inl e \<Rightarrow> (None, p, fs)
           | Inr servers \<Rightarrow> (let (tput, fs) = run env servers reqs fs in (tput, p, fs))))"

text \<open>\<open>row\<close> is the entry of the seed in \<open>res\<close>, not a copy.\<close>

definition arm_step ::
  "json_lib \<Rightarrow> string \<Rightarrow> (int \<Rightarrow> bool) \<Rightarrow> arm_run \<Rightarrow> string list \<Rightarrow> int \<Rightarrow> string \<Rightarrow> load_request list \<Rightarrow> string \<Rightarrow>
     apis_state \<Rightarrow> load_error + apis_state" where
  "arm_step lib out binds run dirs rnk key reqs arm st =
     (let row = dict_get (ap_res st) key (JObj [])
      in case json_has row arm of
           Inl e \<Rightarrow> Inl e
         | Inr True \<Rightarrow> Inr st
         | Inr False \<Rightarrow>
             (let envs = (if arm = ''apis'' then as_env (ap_env st) else []);
                  env1 = dict_update envs (ap_env st);
                  (tput, prt, fs) = try_arm binds run dirs rnk arm reqs env1 (ap_port st) (ap_fs st);
                  row = (case tput of
                           None \<Rightarrow> row
                         | Some t \<Rightarrow> (case json_set row arm (JNum t) of Inl e \<Rightarrow> row | Inr row' \<Rightarrow> row'));
                  res = dict_set key row (ap_res st)
              in Inr \<lparr>ap_env = pop_all (map fst envs) env1, ap_port = prt, ap_res = res,
                   ap_fs = fs(results_path out := Some (js_dumps lib (JObj res)))\<rparr>))"

fun arm_loop ::
  "json_lib \<Rightarrow> string \<Rightarrow> (nat \<Rightarrow> int \<Rightarrow> bool) \<Rightarrow> arm_run \<Rightarrow> string list \<Rightarrow> int \<Rightarrow> string \<Rightarrow> load_request list \<Rightarrow> string list \<Rightarrow>
     apis_state \<Rightarrow> load_error + apis_state" where
  "arm_loop lib out binds run dirs rnk key reqs [] st = Inr st"
| "arm_loop lib out binds run dirs rnk key reqs (arm # arms) st =
     (case arm_step lib out (binds (length arms)) run dirs rnk key reqs arm st of
        Inl e \<Rightarrow> Inl e
      | Inr st' \<Rightarrow> arm_loop lib out binds run dirs rnk key reqs arms st')"

definition seed_key :: "int \<Rightarrow> string" where
  "seed_key seed = ''sat_s'' @ py_str seed"

fun seed_loop ::
  "json_lib \<Rightarrow> string \<Rightarrow> (nat \<Rightarrow> nat \<Rightarrow> int \<Rightarrow> bool) \<Rightarrow> arm_run \<Rightarrow> (int \<Rightarrow> py_error + load_request list) \<Rightarrow> string list \<Rightarrow> int \<Rightarrow>
     string list \<Rightarrow> int list \<Rightarrow> apis_state \<Rightarrow> load_error + apis_state" where
  "seed_loop lib out binds run trace dirs rnk arms [] st = Inr st"
| "seed_loop lib out binds run trace dirs rnk arms (seed # seeds) st =
     (let key = seed_key seed; st1 = st\<lparr>ap_res := dict_setdefault key (JObj []) (ap_res st)\<rparr>
      in case trace seed of
           Inl e \<Rightarrow> Inl (PyError e)
         | Inr reqs \<Rightarrow>
             (case arm_loop lib out (binds (length seeds)) run dirs rnk key reqs arms st1 of
                Inl e \<Rightarrow> Inl e
              | Inr st2 \<Rightarrow> seed_loop lib out binds run trace dirs rnk arms seeds st2))"

text \<open>\<open>a/b\<close> over the seeds that have both; a throughput of 0 counts as missing.\<close>

definition arm_ratios :: "string \<Rightarrow> string \<Rightarrow> (string, (string, real) dict) dict \<Rightarrow> real list" where
  "arm_ratios a b res =
     (let both = filter (\<lambda>r. dict_get r a 0 \<noteq> 0 \<and> dict_get r b 0 \<noteq> 0) (map snd res)
      in map (\<lambda>r. dict_get r a 0 / dict_get r b 0) both)"

subsection \<open>The ports are the first free pair\<close>

lemma free_port_cases:
  assumes "0 \<le> prt"
  obtains p where "free_port binds prt = Inr p" "prt \<le> p" "p \<le> 65535" "binds p" "\<forall>q. prt \<le> q \<longrightarrow> q < p \<longrightarrow> \<not> binds q"
  | "free_port binds prt = Inl OverflowError" "\<forall>q. prt \<le> q \<longrightarrow> q \<le> 65535 \<longrightarrow> \<not> binds q"
proof (cases "free_port binds prt")
  case (Inr p)
  then show thesis using free_port_first [OF Inr] that(1) by blast
next
  case (Inl e)
  have "0 \<le> prt \<Longrightarrow> free_port binds prt = Inl e \<Longrightarrow> e = OverflowError \<and> (\<forall>q. prt \<le> q \<longrightarrow> q \<le> 65535 \<longrightarrow> \<not> binds q)"
  proof (induction binds prt rule: free_port.induct)
    case (1 binds prt)
    show ?case
    proof (cases "65535 < prt")
      case False
      then have "\<not> binds prt \<and> free_port binds (prt + 1) = Inl e" using "1.prems" by (subst (asm) free_port.simps) (auto split: if_splits)
      then have b: "\<not> binds prt" "free_port binds (prt + 1) = Inl e" by simp_all
      then have "e = OverflowError \<and> (\<forall>q. prt + 1 \<le> q \<longrightarrow> q \<le> 65535 \<longrightarrow> \<not> binds q)" using "1.IH" "1.prems" False by auto
      moreover have "\<not> binds q" if "prt \<le> q" "q \<le> 65535" "\<forall>q. prt + 1 \<le> q \<longrightarrow> q \<le> 65535 \<longrightarrow> \<not> binds q" for q
        using that b(1) by (cases "q = prt") auto
      ultimately show ?thesis by blast
    qed (use "1.prems" in \<open>subst (asm) free_port.simps, auto split: if_splits\<close>)
  qed
  then show thesis using assms Inl that(2) by blast
qed

lemma next_pair_first:
  assumes "0 \<le> prt" and "prt \<le> 65535" and "binds prt"
  shows "case next_pair binds prt of
     Inl (e, p) \<Rightarrow> e = OverflowError \<and> (\<forall>r. prt \<le> r \<longrightarrow> r < 65535 \<longrightarrow> \<not> (binds r \<and> binds (r + 1)))
   | Inr q \<Rightarrow> prt \<le> q \<and> q < 65535 \<and> binds q \<and> binds (q + 1) \<and> (\<forall>r. prt \<le> r \<longrightarrow> r < q \<longrightarrow> \<not> (binds r \<and> binds (r + 1)))"
  using assms
proof (induction binds prt rule: next_pair.induct)
  case (1 binds prt)
  have le1: "0 \<le> prt + 1" "0 \<le> prt + 2" using "1.prems"(1) by simp_all
  show ?case
  proof (rule free_port_cases [OF le1(1), of binds])
    assume f: "free_port binds (prt + 1) = Inl OverflowError" "\<forall>q. prt + 1 \<le> q \<longrightarrow> q \<le> 65535 \<longrightarrow> \<not> binds q"
    have "\<not> binds (r + 1)" if "prt \<le> r" "r < 65535" for r using f(2) that by simp
    then show ?thesis using f(1) by (subst next_pair.simps) simp
  next
    fix q assume f: "free_port binds (prt + 1) = Inr q" "prt + 1 \<le> q" "q \<le> 65535" "binds q" "\<forall>r. prt + 1 \<le> r \<longrightarrow> r < q \<longrightarrow> \<not> binds r"
    show ?thesis
    proof (cases "q = prt + 1")
      case True
      then show ?thesis using f "1.prems" by (subst next_pair.simps) simp
    next
      case False
      then have no1: "\<not> binds (prt + 1)" using f(2,5) by simp
      show ?thesis
      proof (rule free_port_cases [OF le1(2), of binds])
        assume g: "free_port binds (prt + 2) = Inl OverflowError" "\<forall>q. prt + 2 \<le> q \<longrightarrow> q \<le> 65535 \<longrightarrow> \<not> binds q"
        have "\<not> binds (r + 1)" if "prt \<le> r" "r < 65535" for r using g(2) that no1 by (cases "r = prt") auto
        then show ?thesis using f(1) False g(1) by (subst next_pair.simps) simp
      next
        fix p assume g: "free_port binds (prt + 2) = Inr p" "prt + 2 \<le> p" "p \<le> 65535" "binds p" "\<forall>r. prt + 2 \<le> r \<longrightarrow> r < p \<longrightarrow> \<not> binds r"
        have gap: "\<not> (binds r \<and> binds (r + 1))" if "prt \<le> r" "r < p" for r
          using g(5) that no1 by (cases "r = prt"; cases "r = prt + 1") auto
        have e: "next_pair binds prt = next_pair binds p" using f(1) False g(1) by (subst next_pair.simps) simp
        have "case next_pair binds p of
            Inl (e, x) \<Rightarrow> e = OverflowError \<and> (\<forall>r. p \<le> r \<longrightarrow> r < 65535 \<longrightarrow> \<not> (binds r \<and> binds (r + 1)))
          | Inr q \<Rightarrow> p \<le> q \<and> q < 65535 \<and> binds q \<and> binds (q + 1) \<and> (\<forall>r. p \<le> r \<longrightarrow> r < q \<longrightarrow> \<not> (binds r \<and> binds (r + 1)))"
          using "1.IH" [OF f(1) False g(1)] g "1.prems"(1) by simp
        then show ?thesis unfolding e using gap g(2) by (auto split: sum.splits) (metis not_le)+
      qed
    qed
  qed
qed

text \<open>The two servers of an arm get the first two neighbouring ports that are free, at least two above the last port
  used; the search always ends. It fails exactly if no such pair exists up to 65535, and then with the
  OverflowError of \<open>bind\<close>.\<close>

theorem servers_get_first_free_pair:
  assumes "0 \<le> prt + 2"
  shows "case two_ports binds prt of
     Inl (e, p) \<Rightarrow> e = OverflowError \<and> (\<forall>r. prt + 2 \<le> r \<longrightarrow> r < 65535 \<longrightarrow> \<not> (binds r \<and> binds (r + 1)))
   | Inr p \<Rightarrow> prt + 2 \<le> p \<and> p + 1 \<le> 65535 \<and> binds p \<and> binds (p + 1) \<and>
       (\<forall>r. prt + 2 \<le> r \<longrightarrow> r < p \<longrightarrow> \<not> (binds r \<and> binds (r + 1)))"
proof (rule free_port_cases [OF assms, of binds])
  assume "free_port binds (prt + 2) = Inl OverflowError" "\<forall>q. prt + 2 \<le> q \<longrightarrow> q \<le> 65535 \<longrightarrow> \<not> binds q"
  then show ?thesis by (simp add: two_ports_def)
next
  fix p assume p: "free_port binds (prt + 2) = Inr p" "prt + 2 \<le> p" "p \<le> 65535" "binds p" "\<forall>r. prt + 2 \<le> r \<longrightarrow> r < p \<longrightarrow> \<not> binds r"
  then show ?thesis using next_pair_first [of p binds] assms by (auto simp: two_ports_def split: sum.splits)
qed

text \<open>Every third port is in use.\<close>

theorem servers_get_first_free_pair_witness:
  "\<exists>p. two_ports (\<lambda>q. q mod 3 \<noteq> 0) 23101 = Inr p \<and> p = 23104"
proof -
  note first = servers_get_first_free_pair [where prt = 23101 and binds = "\<lambda>q. q mod 3 \<noteq> 0"]
  show ?thesis
  proof (cases "two_ports (\<lambda>q. q mod 3 \<noteq> 0) 23101")
    case (Inl ep)
    have "\<not> (\<forall>r :: int. 23101 + 2 \<le> r \<longrightarrow> r < 65535 \<longrightarrow> \<not> (r mod 3 \<noteq> 0 \<and> (r + 1) mod 3 \<noteq> 0))"
      by (intro notI) (drule spec [of _ 23104], simp)
    then show ?thesis using first Inl by (cases ep) auto
  next
    case (Inr p)
    then have p: "23103 \<le> p" "p mod 3 \<noteq> 0" "(p + 1) mod 3 \<noteq> 0" "\<forall>r. 23103 \<le> r \<longrightarrow> r < p \<longrightarrow> \<not> (r mod 3 \<noteq> 0 \<and> (r + 1) mod 3 \<noteq> 0)"
      using first by simp_all
    have "\<not> 23104 < p" using p(4) by (intro notI) (drule spec [of _ 23104], simp)
    moreover have "p \<noteq> 23103" using p(2) by auto
    ultimately show ?thesis using p(1) Inr by auto
  qed
qed

subsection \<open>The arms are compared on equal terms\<close>

definition server_share :: "'z base_backend_scheme \<Rightarrow> int \<times> string list \<times> int \<times> int \<times> int \<times> int option" where
  "server_share b = (max_loras b, adapter_dirs b, max_lora_rank b, tp b, port b, gpu_id b)"

text \<open>The arms of the two-server experiment differ only in what they are meant to compare. With the 50 adapters and no
  AS_MAX_LORAS, the APIS arm, its vLLM counterpart \<open>topo\<close> and the topology-matched \<open>topo_rr25\<close> all run one server on
  each GPU, on neighbouring ports, over all 50 adapters with 25 LoRA slots each, and with the same engine flags, but
  for the host cache of \<open>topo_rr25\<close>; only the first two route by affinity. \<open>topo_rr\<close> and the single TP=2 servers
  have all 50 slots.\<close>

theorem apis_arms_have_equal_slots:
  assumes "length dirs = 50" and "dict_get env ''AS_MAX_LORAS'' [] = []"
  shows "\<exists>a b c d e f g h i.
    arm_servers env dirs rnk ''apis'' p = Inr (AsPair a b True) \<and> arm_servers env dirs rnk ''topo'' p = Inr (VllmPair c d True) \<and>
    arm_servers env dirs rnk ''topo_rr25'' p = Inr (VllmPair e f False) \<and> arm_servers env dirs rnk ''topo_rr'' p = Inr (VllmPair g h False) \<and>
    arm_servers env dirs rnk ''tp2'' p = Inr (OneVllm i False) \<and>
    server_share a = (25, dirs, rnk, 1, p, Some 0) \<and> server_share b = (25, dirs, rnk, 1, p + 1, Some 1) \<and>
    server_share c = server_share a \<and> server_share d = server_share b \<and> server_share e = server_share a \<and> server_share f = server_share b \<and>
    be_mode a = ''C7'' \<and> be_mode b = ''C7'' \<and>
    extra_args a = engine_flags \<and> extra_args b = engine_flags \<and> extra_args c = engine_flags \<and> extra_args d = engine_flags \<and>
    extra_args e = engine_flags @ [''--max-cpu-loras'', ''50''] \<and> extra_args f = extra_args e \<and>
    max_loras g = 50 \<and> max_loras h = 50 \<and> max_loras i = 50 \<and> tp i = 2 \<and> adapter_dirs i = dirs"
  using assms
  by (simp add: arm_servers_def two_server_def one_server_def apis_runner_def apis_server_def backend_init_def base_init_def
      apis_max_loras_def shard_loras_def server_share_def Let_def)

theorem apis_arms_have_equal_slots_witness:
  "\<exists>a b. arm_servers [] (replicate 50 ''d'') 32 ''apis'' 23104 = Inr (AsPair a b True) \<and> max_loras a = 25 \<and> port b = 23105"
  using apis_arms_have_equal_slots [of "replicate 50 ''d''" "[]" 32 23104] by (auto simp: dict_get_def server_share_def)

subsection \<open>Finished arms are kept\<close>

definition entry :: "(string, json) dict \<Rightarrow> string \<Rightarrow> string \<Rightarrow> json option" where
  "entry res key arm = (case map_of res key of Some (JObj row) \<Rightarrow> map_of row arm | _ \<Rightarrow> None)"

definition apis_kept :: "apis_state \<Rightarrow> apis_state \<Rightarrow> bool" where
  "apis_kept st st' \<longleftrightarrow> (\<forall>key arm v. entry (ap_res st) key arm = Some v \<longrightarrow> entry (ap_res st') key arm = Some v) \<and>
     map_of (ap_env st') = map_of (ap_env st)"

lemma apis_kept_trans: "apis_kept st st1 \<Longrightarrow> apis_kept st1 st2 \<Longrightarrow> apis_kept st st2"
  by (simp add: apis_kept_def)

lemma entry_set_same:
  assumes "json_has (dict_get res key (JObj [])) arm = Inr False"
    and "row = dict_get res key (JObj []) \<or> json_set (dict_get res key (JObj [])) arm v = Inr row"
    and "entry res k a = Some w"
  shows "entry (dict_set key row res) k a = Some w"
proof (cases "k = key")
  case True
  then obtain r where r: "map_of res key = Some (JObj r)" "map_of r a = Some w"
    using assms(3) by (auto simp: entry_def split: option.splits json.splits)
  then have "map_of r arm = None" using assms(1) by (simp add: dict_get_def dict_has_def)
  then have "a \<noteq> arm" using r(2) by auto
  then show ?thesis using assms(2) r True by (auto simp: entry_def dict_get_def)
next
  case False
  then show ?thesis using assms(3) by (simp add: entry_def)
qed

lemma arm_step_keeps:
  assumes "arm_step lib out binds run dirs rnk key reqs arm st = Inr st'" and "\<forall>k\<in>setting_names. map_of (ap_env st) k = None"
  shows "apis_kept st st'"
proof -
  let ?row = "dict_get (ap_res st) key (JObj [])"
  obtain h where h: "json_has ?row arm = Inr h" using assms(1) by (auto simp: arm_step_def Let_def split: sum.splits)
  show ?thesis
  proof (cases h)
    case True
    then show ?thesis using assms(1) h by (simp add: arm_step_def apis_kept_def)
  next
    case False
    define envs where "envs = (if arm = ''apis'' then as_env (ap_env st) else [])"
    obtain tput prt fs where t: "try_arm binds run dirs rnk arm reqs (dict_update envs (ap_env st)) (ap_port st) (ap_fs st) = (tput, prt, fs)"
      by (metis prod_cases3)
    define row where "row = (case tput of None \<Rightarrow> ?row | Some t \<Rightarrow> (case json_set ?row arm (JNum t) of Inl e \<Rightarrow> ?row | Inr row' \<Rightarrow> row'))"
    have st': "ap_res st' = dict_set key row (ap_res st)" "ap_env st' = pop_all (map fst envs) (dict_update envs (ap_env st))"
      using assms(1) h False t unfolding arm_step_def Let_def envs_def [symmetric] by (auto simp: row_def)
    have ok: "dict_ok envs" and sub: "fst ` set envs \<subseteq> setting_names" by (auto simp: envs_def as_env_def setting_names_def split: if_splits)
    have "map_of (ap_env st') k = map_of (ap_env st) k" for k
    proof (cases "k \<in> fst ` set envs")
      case True
      then have "k \<in> setting_names" using sub by (rule subsetD [rotated])
      then have "map_of (ap_env st) k = None" using assms(2) by simp
      then show ?thesis using True by (simp add: st'(2) map_of_pop_all)
    next
      case False
      then have "map_of envs k = None" by (simp add: map_of_eq_None_iff)
      then show ?thesis using False by (simp add: st'(2) map_of_pop_all map_of_dict_update_ok [OF ok])
    qed
    moreover have "\<exists>v. row = ?row \<or> json_set ?row arm v = Inr row" by (auto simp: row_def split: option.splits sum.splits)
    then obtain v where "row = ?row \<or> json_set ?row arm v = Inr row" by blast
    then have "entry (dict_set key row (ap_res st)) k a = Some w" if "entry (ap_res st) k a = Some w" for k a w
      using entry_set_same [of "ap_res st" key arm row v k a w] h False that by simp
    ultimately show ?thesis by (auto simp: apis_kept_def st'(1))
  qed
qed

lemma apis_kept_env:
  "apis_kept st st' \<Longrightarrow> \<forall>k\<in>N. map_of (ap_env st) k = None \<Longrightarrow> \<forall>k\<in>N. map_of (ap_env st') k = None"
  by (simp add: apis_kept_def)

lemma arm_loop_keeps:
  assumes "arm_loop lib out binds run dirs rnk key reqs arms st = Inr st'" and "\<forall>k\<in>setting_names. map_of (ap_env st) k = None"
  shows "apis_kept st st'"
  using assms
proof (induction arms arbitrary: st)
  case Nil
  then show ?case by (simp add: apis_kept_def)
next
  case (Cons arm arms)
  then obtain st1 where s: "arm_step lib out (binds (length arms)) run dirs rnk key reqs arm st = Inr st1"
    "arm_loop lib out binds run dirs rnk key reqs arms st1 = Inr st'" by (auto split: sum.splits)
  have k: "apis_kept st st1" by (rule arm_step_keeps [OF s(1) Cons.prems(2)])
  show ?case using apis_kept_trans [OF k Cons.IH [OF s(2) apis_kept_env [OF k Cons.prems(2)]]] .
qed

text \<open>Whatever the runs do, an arm that has a throughput for a seed keeps it, and the environment is as before.\<close>

lemma seed_loop_keeps:
  assumes "seed_loop lib out binds run trace dirs rnk arms seeds st = Inr st'" and "\<forall>k\<in>setting_names. map_of (ap_env st) k = None"
  shows "apis_kept st st'"
  using assms
proof (induction seeds arbitrary: st)
  case Nil
  then show ?case by (simp add: apis_kept_def)
next
  case (Cons seed seeds)
  let ?st1 = "st\<lparr>ap_res := dict_setdefault (seed_key seed) (JObj []) (ap_res st)\<rparr>"
  have k1: "apis_kept st ?st1" by (auto simp: apis_kept_def entry_def dict_setdefault_def dict_has_def split: option.splits)
  obtain reqs st2 where s: "arm_loop lib out (binds (length seeds)) run dirs rnk (seed_key seed) reqs arms ?st1 = Inr st2"
    "seed_loop lib out binds run trace dirs rnk arms seeds st2 = Inr st'"
    using Cons.prems(1) by (auto simp: Let_def split: sum.splits)
  have k2: "apis_kept ?st1 st2" by (rule arm_loop_keeps [OF s(1)]) (use Cons.prems(2) in simp)
  have k: "apis_kept st st2" by (rule apis_kept_trans [OF k1 k2])
  show ?case using apis_kept_trans [OF k Cons.IH [OF s(2) apis_kept_env [OF k Cons.prems(2)]]] .
qed

end
