(* ===== verification/Claims.thy ===== *)
theory Claims
  imports ApisDriver
begin

text \<open>
  The numbers of \<^verbatim>\<open>benchmarks/paper/summarize.py\<close> that come from the drivers' results: C1, Table I, C2, C3, Table III and
  Table V as functions of the recorded rows, and that they look up the tags the drivers of \<open>Sweep\<close>, \<open>Experiments\<close> and
  \<open>ApisDriver\<close> record. A row is a dict of numbers. The tables' text and the numbers read from profiler files are left out.
\<close>

subsection \<open>Reading rows\<close>

type_synonym run_rows = "(string, (string, real) dict) dict"

fun also_ok :: "'e + 'a \<Rightarrow> ('a \<Rightarrow> 'e + 'b) \<Rightarrow> 'e + 'b" where
  "also_ok (Inl e) f = Inl e"
| "also_ok (Inr x) f = f x"

definition row_of :: "run_rows \<Rightarrow> string \<Rightarrow> py_error + (string, real) dict" where
  "row_of rows tag = (case map_of rows tag of None \<Rightarrow> Inl KeyError | Some r \<Rightarrow> Inr r)"

definition number :: "(string, real) dict \<Rightarrow> string \<Rightarrow> py_error + real" where
  "number r f = (case map_of r f of None \<Rightarrow> Inl KeyError | Some v \<Rightarrow> Inr v)"

definition row_number :: "run_rows \<Rightarrow> string \<Rightarrow> string \<Rightarrow> py_error + real" where
  "row_number rows tag f = also_ok (row_of rows tag) (\<lambda>r. number r f)"

text \<open>\<open>[f(x) for x in xs]\<close>, and \<open>{s: rows[tag(s)]["tput"] for s in seeds}\<close>.\<close>

fun each :: "('a \<Rightarrow> 'e + 'b) \<Rightarrow> 'a list \<Rightarrow> 'e + 'b list" where
  "each f [] = Inr []"
| "each f (x # xs) = also_ok (f x) (\<lambda>y. also_ok (each f xs) (\<lambda>ys. Inr (y # ys)))"

definition by_seed :: "run_rows \<Rightarrow> (int \<Rightarrow> string) \<Rightarrow> int list \<Rightarrow> py_error + (int, real) dict" where
  "by_seed rows tag seeds = each (\<lambda>s. also_ok (row_number rows (tag s) ''tput'') (\<lambda>t. Inr (s, t))) seeds"

definition seeds :: "int list" where
  "seeds = [42, 43, 44]"

subsection \<open>C1 and Table II\<close>

definition cell_key :: "string \<Rightarrow> int \<Rightarrow> string" where
  "cell_key arm s = ''r32_mt128_seqs256_'' @ arm @ ''_s'' @ py_str s @ ''_n400''"

definition arm_key :: "string \<Rightarrow> int \<Rightarrow> string" where
  "arm_key arm s = arm @ ''_s'' @ py_str s"

record c1_claims =
  c1_vllm050 :: ratio_block
  c1_vllm063 :: ratio_block
  c1_slora :: ratio_block
  c1_punica :: ratio_block
  c1_dlora :: ratio_block

definition c1_of :: "run_rows \<Rightarrow> run_rows \<Rightarrow> run_rows \<Rightarrow> run_rows \<Rightarrow> py_error + c1_claims" where
  "c1_of cells base punica_rows dlora_rows =
     also_ok (by_seed cells (cell_key ''C7'') seeds) (\<lambda>as_tput.
     also_ok (by_seed cells (cell_key ''C0'') seeds) (\<lambda>v063.
     also_ok (by_seed base (arm_key ''v050'') seeds) (\<lambda>v050.
     also_ok (by_seed base (arm_key ''slora'') seeds) (\<lambda>slora.
     also_ok (by_seed punica_rows (arm_key ''punica'') seeds) (\<lambda>pun.
     also_ok (by_seed dlora_rows (arm_key ''dlora'') seeds) (\<lambda>dlo.
     also_ok (ratio_block_of as_tput v050) (\<lambda>b050.
     also_ok (ratio_block_of as_tput v063) (\<lambda>b063.
     also_ok (ratio_block_of as_tput slora) (\<lambda>bsl.
     also_ok (ratio_block_of as_tput pun) (\<lambda>bpu.
     also_ok (ratio_block_of as_tput dlo) (\<lambda>bdl.
       Inr \<lparr>c1_vllm050 = b050, c1_vllm063 = b063, c1_slora = bsl, c1_punica = bpu, c1_dlora = bdl\<rparr>)))))))))))"

definition c1_lambda7_of :: "run_rows \<Rightarrow> py_error + ratio_block \<times> ratio_block" where
  "c1_lambda7_of lam =
     also_ok (by_seed lam (arm_key ''as'') seeds) (\<lambda>la.
     also_ok (by_seed lam (arm_key ''v063'') seeds) (\<lambda>lv63.
     also_ok (by_seed lam (arm_key ''v050'') [42, 43]) (\<lambda>lv50.
     also_ok (ratio_block_of la lv50) (\<lambda>b50. also_ok (ratio_block_of la lv63) (\<lambda>b63. Inr (b50, b63))))))"

subsection \<open>Table I\<close>

record lattice_row =
  la_tput_mean :: real
  la_gain50 :: real
  la_gain63 :: real
  la_war :: real
  la_gwar8 :: real

definition lattice_of :: "run_rows \<Rightarrow> (int, real) dict \<Rightarrow> (int, real) dict \<Rightarrow> int \<Rightarrow> py_error + lattice_row" where
  "lattice_of lat v050 v063 m =
     (let key = arm_key (''asC'' @ py_str m) in
     also_ok (by_seed lat key seeds) (\<lambda>d.
     also_ok (ratio_block_of d v050) (\<lambda>g50.
     also_ok (ratio_block_of d v063) (\<lambda>g63.
     also_ok (each (\<lambda>s. row_number lat (key s) ''war'') seeds) (\<lambda>wars.
     also_ok (each (\<lambda>s. row_number lat (key s) ''gwar8'') seeds) (\<lambda>g8s.
       Inr \<lparr>la_tput_mean = py_round_to 1 (avg (map snd d)), la_gain50 = rb_mean g50, la_gain63 = rb_mean g63,
          la_war = py_round_to 3 (avg wars), la_gwar8 = py_round_to 3 (avg g8s)\<rparr>))))))"

definition lattice_table :: "run_rows \<Rightarrow> (int, real) dict \<Rightarrow> (int, real) dict \<Rightarrow> py_error + (string \<times> lattice_row) list" where
  "lattice_table lat v050 v063 = each (\<lambda>m. also_ok (lattice_of lat v050 v063 m) (\<lambda>r. Inr (''C'' @ py_str m, r))) [1..7]"

text \<open>One step of the ablation: the first row of its results.\<close>

record ablation_step =
  ab_tput :: real
  ab_gain :: real
  ab_gwar8 :: "real option"

definition ablation_of :: "real \<Rightarrow> run_rows \<Rightarrow> py_error + ablation_step" where
  "ablation_of base_tput rows =
     (case rows of
        [] \<Rightarrow> Inl IndexError
      | (tag, r) # rs \<Rightarrow>
          also_ok (number r ''tput'') (\<lambda>t.
            if base_tput = 0 then Inl ZeroDivisionError
            else Inr \<lparr>ab_tput = py_round_to 1 t, ab_gain = py_round_to 4 (t / base_tput),
                   ab_gwar8 = map_option (py_round_to 3) (map_of r ''gwar8'')\<rparr>))"

subsection \<open>C2\<close>

text \<open>\<open>{int(k[5:]): v[arm] for k, v in c2.items() if arm in v}\<close>: a later entry of a seed replaces the earlier one.\<close>

fun by_arm :: "run_rows \<Rightarrow> string \<Rightarrow> (int, real) dict \<Rightarrow> py_error + (int, real) dict" where
  "by_arm [] arm d = Inr d"
| "by_arm ((k, v) # c2) arm d =
     (case map_of v arm of
        None \<Rightarrow> by_arm c2 arm d
      | Some t \<Rightarrow> (case py_int (drop 5 k) of None \<Rightarrow> Inl ValueError | Some s \<Rightarrow> by_arm c2 arm (dict_set s t d)))"

record c2_claims =
  c2_vs_tp2 :: ratio_block
  c2_vs_matched :: ratio_block
  c2_topology :: ratio_block

definition c2_of :: "run_rows \<Rightarrow> py_error + c2_claims" where
  "c2_of c2 =
     also_ok (by_arm c2 ''apis'' []) (\<lambda>ap. also_ok (by_arm c2 ''tp2'' []) (\<lambda>tp2. also_ok (by_arm c2 ''topo_rr25'' []) (\<lambda>topo.
     also_ok (ratio_block_of ap tp2) (\<lambda>a. also_ok (ratio_block_of ap topo) (\<lambda>b. also_ok (ratio_block_of topo tp2) (\<lambda>c.
       Inr \<lparr>c2_vs_tp2 = a, c2_vs_matched = b, c2_topology = c\<rparr>))))))"

subsection \<open>C3\<close>

record c3_claims =
  c3_deadlines :: "real list"
  c3_tputs :: "real list"
  c3_gwars :: "real list"
  c3_pearson :: real

text \<open>Two runs per point; the points are those of the first run.\<close>

definition c3_of :: "run_rows \<Rightarrow> run_rows \<Rightarrow> py_error + c3_claims" where
  "c3_of run0 run1 =
     (let keys = map fst run0; two = (\<lambda>f k. also_ok (row_number run0 k f) (\<lambda>a. also_ok (row_number run1 k f) (\<lambda>b. Inr (avg [a, b])))) in
     also_ok (each (two ''tput'') keys) (\<lambda>ts.
     also_ok (each (two ''gwar8'') keys) (\<lambda>gs.
     also_ok (each (\<lambda>k. row_number run0 k ''deadline_s'') keys) (\<lambda>ds.
     also_ok (pearson gs ts) (\<lambda>r.
       Inr \<lparr>c3_deadlines = ds, c3_tputs = map (py_round_to 1) ts, c3_gwars = map (py_round_to 3) gs, c3_pearson = py_round_to 4 r\<rparr>)))))"

definition c3_mean :: "c3_claims \<Rightarrow> c3_claims \<Rightarrow> real" where
  "c3_mean a b = py_round_to 4 (avg [c3_pearson a, c3_pearson b])"

subsection \<open>Tables III and V\<close>

definition k4_key :: "string \<Rightarrow> string \<Rightarrow> int \<Rightarrow> string" where
  "k4_key var arm s = ''k4_'' @ var @ ''_'' @ arm @ ''_s'' @ py_str s"

record table3 =
  t3_tput :: "real list"
  t3_engine_p50 :: "real list"
  t3_engine_p99 :: "real list"
  t3_client_p50 :: "real list"
  t3_client_p99 :: "real list"
  t3_vllm :: "real \<times> real \<times> real"

definition table3_of :: "run_rows \<Rightarrow> py_error + table3" where
  "table3_of k4 =
     (let col = (\<lambda>f. each (\<lambda>s. also_ok (row_number k4 (k4_key ''sync'' ''as'' s) f) (\<lambda>x. Inr (py_round_to 1 x))) seeds);
          v = (\<lambda>f. also_ok (row_number k4 (k4_key ''engine'' ''vllm'' 42) f) (\<lambda>x. Inr (py_round_to 1 x))) in
     also_ok (col ''tput'') (\<lambda>ts. also_ok (col ''eng_ttft_p50'') (\<lambda>e50. also_ok (col ''eng_ttft_p99'') (\<lambda>e99.
     also_ok (col ''ttft_p50'') (\<lambda>p50. also_ok (col ''ttft_p99'') (\<lambda>p99.
     also_ok (v ''tput'') (\<lambda>vt. also_ok (v ''ttft_p50'') (\<lambda>v50. also_ok (v ''ttft_p99'') (\<lambda>v99.
       Inr \<lparr>t3_tput = ts, t3_engine_p50 = e50, t3_engine_p99 = e99, t3_client_p50 = p50, t3_client_p99 = p99, t3_vllm = (vt, v50, v99)\<rparr>)))))))))"

record table5_entry =
  t5_ratio :: ratio_block
  t5_as :: real
  t5_vllm :: real

definition t5_key :: "string \<Rightarrow> int \<Rightarrow> string" where
  "t5_key arm s = ''r64_mt64_seqs256_'' @ arm @ ''_s'' @ py_str s @ ''_n2000''"

definition table5_entry_of :: "(int, real) dict \<Rightarrow> (int, real) dict \<Rightarrow> py_error + table5_entry" where
  "table5_entry_of an bn =
     also_ok (ratio_block_of an bn) (\<lambda>rb.
       Inr \<lparr>t5_ratio = rb, t5_as = py_round_to 1 (avg (map snd an)), t5_vllm = py_round_to 1 (avg (map snd bn))\<rparr>)"

definition table5_of :: "run_rows \<Rightarrow> run_rows \<Rightarrow> py_error + table5_entry" where
  "table5_of a b =
     also_ok (by_seed a (t5_key ''C7'') seeds) (\<lambda>an. also_ok (by_seed b (t5_key ''C0'') seeds) (\<lambda>bn. table5_entry_of an bn))"

definition tp2_key :: "int \<Rightarrow> string \<Rightarrow> int \<Rightarrow> string" where
  "tp2_key k arm s = ''r32_sat_K'' @ py_str k @ ''_'' @ arm @ (if s = 42 then [] else ''_s'' @ py_str s)"

definition tp2_entry :: "run_rows \<Rightarrow> int \<Rightarrow> py_error + table5_entry" where
  "tp2_entry tp2 k =
     (let ss = (if k = 4 then seeds else [42]) in
     also_ok (by_seed tp2 (tp2_key k ''as'') ss) (\<lambda>an. also_ok (by_seed tp2 (tp2_key k ''vllm'') ss) (\<lambda>bn. table5_entry_of an bn)))"

subsection \<open>The tags are those the drivers record\<close>

lemma each_Inr: "\<forall>x\<in>set xs. f x = Inr (g x) \<Longrightarrow> each f xs = Inr (map g xs)"
  by (induction xs) simp_all

lemma by_seed_ok:
  assumes "\<forall>s\<in>set ss. \<exists>r. map_of rows (tag s) = Some r \<and> map_of r ''tput'' = Some (t s)"
  shows "by_seed rows tag ss = Inr (map (\<lambda>s. (s, t s)) ss)"
  unfolding by_seed_def using assms by (intro each_Inr) (auto simp: row_number_def row_of_def number_def)

text \<open>The results of apis.py are read back by seed.\<close>

lemma by_arm_seeds:
  assumes "\<forall>kv\<in>set c2. \<exists>s. fst kv = seed_key s" and "dict_ok c2"
  shows "\<exists>d'. by_arm c2 arm d = Inr d' \<and>
    (\<forall>s. map_of d' s = (case map_of c2 (seed_key s) of None \<Rightarrow> map_of d s
       | Some v \<Rightarrow> (case map_of v arm of None \<Rightarrow> map_of d s | Some t \<Rightarrow> Some t)))"
  using assms
proof (induction c2 arbitrary: d)
  case (Cons kv c2)
  obtain k v where kv: "kv = (k, v)" by force
  obtain s0 where s0: "k = seed_key s0" using Cons.prems kv by auto
  have k: "py_int (drop 5 k) = Some s0" by (simp add: s0 seed_key_def)
  have eq: "k = seed_key s \<longleftrightarrow> s = s0" for s using py_str_inj by (auto simp: s0 seed_key_def)
  have new: "map_of c2 (seed_key s0) = None" using Cons.prems(2) by (simp add: kv s0 map_of_eq_None_iff)
  have IH: "\<exists>d'. by_arm c2 arm d = Inr d' \<and>
      (\<forall>s. map_of d' s = (case map_of c2 (seed_key s) of None \<Rightarrow> map_of d s
         | Some v \<Rightarrow> (case map_of v arm of None \<Rightarrow> map_of d s | Some t \<Rightarrow> Some t)))" for d
    using Cons.IH Cons.prems by simp
  obtain d1 where d1: "by_arm ((k, v) # c2) arm d = Inr d1"
    "\<And>s. map_of d1 s = (case map_of c2 (seed_key s) of None \<Rightarrow> (if s = s0 \<and> map_of v arm \<noteq> None then map_of v arm else map_of d s)
       | Some w \<Rightarrow> (case map_of w arm of None \<Rightarrow> (if s = s0 \<and> map_of v arm \<noteq> None then map_of v arm else map_of d s) | Some t \<Rightarrow> Some t))"
  proof (cases "map_of v arm")
    case None
    then show thesis using IH [of d] that by auto
  next
    case (Some t)
    have m: "map_of (dict_set s0 t d) s = (if s = s0 \<and> map_of v arm \<noteq> None then map_of v arm else map_of d s)" for s
      using Some by simp
    obtain d1 where e: "by_arm c2 arm (dict_set s0 t d) = Inr d1"
      "\<forall>s. map_of d1 s = (case map_of c2 (seed_key s) of None \<Rightarrow> map_of (dict_set s0 t d) s
         | Some v \<Rightarrow> (case map_of v arm of None \<Rightarrow> map_of (dict_set s0 t d) s | Some t \<Rightarrow> Some t))"
      using IH [of "dict_set s0 t d"] by blast
    show thesis
    proof (rule that [of d1])
      show "by_arm ((k, v) # c2) arm d = Inr d1" using e(1) Some k by simp
    qed (use e(2) [unfolded m] in blast)
  qed
  have "map_of d1 s = (case map_of ((k, v) # c2) (seed_key s) of None \<Rightarrow> map_of d s
      | Some v \<Rightarrow> (case map_of v arm of None \<Rightarrow> map_of d s | Some t \<Rightarrow> Some t))" for s
  proof (cases "s = s0")
    case True
    then show ?thesis using d1(2) [of s] new by (simp add: s0 split: option.split)
  next
    case False
    then have "k \<noteq> seed_key s" using eq by simp
    then show ?thesis using d1(2) [of s] False by (simp split: option.split)
  qed
  then show ?case using d1(1) by (simp only: kv) blast
qed simp

text \<open>Two arms with a positive throughput for the same seeds.\<close>

definition mean_ratio :: "(int \<Rightarrow> real) \<Rightarrow> (int \<Rightarrow> real) \<Rightarrow> int list \<Rightarrow> real" where
  "mean_ratio a b ss = py_round_to 4 (avg (map (\<lambda>s. a s / b s) ss))"

lemma seed_ratios_same:
  assumes "\<forall>s\<in>set ss. map_of den s = Some (b s) \<and> b s \<noteq> 0"
  shows "seed_ratios (map (\<lambda>s. (s, a s)) ss) den = Inr (map (\<lambda>s. (s, a s / b s)) ss)"
  using assms by (induction ss) simp_all

lemma ratio_same_seeds:
  assumes "\<forall>s\<in>set ss. 0 < a s \<and> 0 < b s" and "ss \<noteq> []"
  shows "\<exists>rb. ratio_block_of (map (\<lambda>s. (s, a s)) ss) (map (\<lambda>s. (s, b s)) ss) = Inr rb \<and> rb_mean rb = mean_ratio a b ss"
proof -
  have den: "map_of (map (\<lambda>s. (s, b s)) ss) s = Some (b s)" if "s \<in> set ss" for s using that by (simp add: map_of_map_restrict)
  then have r: "seed_ratios (map (\<lambda>s. (s, a s)) ss) (map (\<lambda>s. (s, b s)) ss) = Inr (map (\<lambda>s. (s, a s / b s)) ss)"
    using assms(1) by (intro seed_ratios_same) force
  obtain c where "cv (map (\<lambda>s. a s / b s) ss) = Inr c" using cv_nonneg [of "map (\<lambda>s. a s / b s) ss"] assms(1) by auto
  then show ?thesis using assms(2) by (simp add: ratio_block_of_def r comp_def mean_ratio_def Let_def)
qed

lemma driver_tags:
  "cell_key arm s = cell_tag \<lparr>cc_rank = 32, cc_seed = s, cc_prompts = 400, cc_out = out, cc_abspath = ap\<rparr> \<lparr>ce_mt = ''128'', ce_seqs = ''256'', ce_arm = arm\<rparr>"
  "t5_key arm s = cell_tag \<lparr>cc_rank = 64, cc_seed = s, cc_prompts = 2000, cc_out = out, cc_abspath = ap\<rparr> \<lparr>ce_mt = ''64'', ce_seqs = ''256'', ce_arm = arm\<rparr>"
  "arm_key arm s = k10_tag (arm, s)" "k4_key var arm s = k4_tag (var, s, arm)"
  "tp2_key k arm s = tp2_tag \<lparr>tp2_out = out, tp2_seed = s, tp2_tp = 2\<rparr> (32, k, arm)"
proof -
  have "py_str 32 = ''32''" by code_simp
  moreover have "py_str 64 = ''64''" by code_simp
  moreover have "py_str 400 = ''400''" by code_simp
  moreover have "py_str 2000 = ''2000''" by code_simp
  ultimately show "cell_key arm s = cell_tag \<lparr>cc_rank = 32, cc_seed = s, cc_prompts = 400, cc_out = out, cc_abspath = ap\<rparr> \<lparr>ce_mt = ''128'', ce_seqs = ''256'', ce_arm = arm\<rparr>"
    "t5_key arm s = cell_tag \<lparr>cc_rank = 64, cc_seed = s, cc_prompts = 2000, cc_out = out, cc_abspath = ap\<rparr> \<lparr>ce_mt = ''64'', ce_seqs = ''256'', ce_arm = arm\<rparr>"
    "arm_key arm s = k10_tag (arm, s)" "k4_key var arm s = k4_tag (var, s, arm)"
    "tp2_key k arm s = tp2_tag \<lparr>tp2_out = out, tp2_seed = s, tp2_tp = 2\<rparr> (32, k, arm)"
    by (simp_all add: cell_key_def t5_key_def cell_tag_def arm_key_def k10_tag_def k4_key_def k4_tag_def tp2_key_def tp2_tag_def)
qed

text \<open>C40: The headline numbers are means of per-seed ratios of what the drivers recorded. Take results in which the cells of
  cell.py at rank 32, 128 tokens, 256 sequences and 400 prompts, and the arms of k10.py, punica_engine.py and
  dlora_engine.py have a positive throughput for each of the seeds 42, 43 and 44, under the tags these drivers write.
  Then every look-up of the summary finds its row, and each speedup is the mean over the three seeds, rounded to
  four digits, of AdapterSlots' throughput over that system's on the same seed.\<close>

theorem headline_numbers_are_mean_ratios:
  assumes "\<And>s arm. s \<in> set seeds \<Longrightarrow> arm \<in> {''C7'', ''C0''} \<Longrightarrow>
      row_number cells (cell_tag \<lparr>cc_rank = 32, cc_seed = s, cc_prompts = 400, cc_out = out, cc_abspath = ap\<rparr>
        \<lparr>ce_mt = ''128'', ce_seqs = ''256'', ce_arm = arm\<rparr>) ''tput'' = Inr (t arm s)"
    and "\<And>s arm. s \<in> set seeds \<Longrightarrow> arm \<in> {''v050'', ''slora''} \<Longrightarrow> row_number base (k10_tag (arm, s)) ''tput'' = Inr (t arm s)"
    and "\<And>s. s \<in> set seeds \<Longrightarrow> row_number pun (k10_tag (''punica'', s)) ''tput'' = Inr (t ''punica'' s)"
    and "\<And>s. s \<in> set seeds \<Longrightarrow> row_number dlo (k10_tag (''dlora'', s)) ''tput'' = Inr (t ''dlora'' s)"
    and "\<And>s arm. s \<in> set seeds \<Longrightarrow> 0 < t arm s"
  shows "\<exists>c. c1_of cells base pun dlo = Inr c \<and>
    rb_mean (c1_vllm050 c) = mean_ratio (t ''C7'') (t ''v050'') seeds \<and>
    rb_mean (c1_vllm063 c) = mean_ratio (t ''C7'') (t ''C0'') seeds \<and>
    rb_mean (c1_slora c) = mean_ratio (t ''C7'') (t ''slora'') seeds \<and>
    rb_mean (c1_punica c) = mean_ratio (t ''C7'') (t ''punica'') seeds \<and>
    rb_mean (c1_dlora c) = mean_ratio (t ''C7'') (t ''dlora'') seeds"
proof -
  note tags = driver_tags(1) [of _ _ out ap, symmetric] driver_tags(3) [symmetric]
  have rows: "by_seed rs key seeds = Inr (map (\<lambda>s. (s, f s)) seeds)"
    if "\<And>s. s \<in> set seeds \<Longrightarrow> row_number rs (key s) ''tput'' = Inr (f s)" for rs key f
    unfolding by_seed_def using that by (intro each_Inr) simp
  have c: "by_seed cells (cell_key ''C7'') seeds = Inr (map (\<lambda>s. (s, t ''C7'' s)) seeds)"
    "by_seed cells (cell_key ''C0'') seeds = Inr (map (\<lambda>s. (s, t ''C0'' s)) seeds)"
    "by_seed base (arm_key ''v050'') seeds = Inr (map (\<lambda>s. (s, t ''v050'' s)) seeds)"
    "by_seed base (arm_key ''slora'') seeds = Inr (map (\<lambda>s. (s, t ''slora'' s)) seeds)"
    "by_seed pun (arm_key ''punica'') seeds = Inr (map (\<lambda>s. (s, t ''punica'' s)) seeds)"
    "by_seed dlo (arm_key ''dlora'') seeds = Inr (map (\<lambda>s. (s, t ''dlora'' s)) seeds)"
    using assms(1-4) unfolding tags by (intro rows; simp)+
  have ratio: "\<exists>rb. ratio_block_of (map (\<lambda>s. (s, t ''C7'' s)) seeds) (map (\<lambda>s. (s, t arm s)) seeds) = Inr rb \<and>
      rb_mean rb = mean_ratio (t ''C7'') (t arm) seeds" for arm
    using assms(5) by (intro ratio_same_seeds) (simp_all add: seeds_def)
  obtain b1 b2 b3 b4 b5 where b: "ratio_block_of (map (\<lambda>s. (s, t ''C7'' s)) seeds) (map (\<lambda>s. (s, t ''v050'' s)) seeds) = Inr b1"
    "rb_mean b1 = mean_ratio (t ''C7'') (t ''v050'') seeds"
    "ratio_block_of (map (\<lambda>s. (s, t ''C7'' s)) seeds) (map (\<lambda>s. (s, t ''C0'' s)) seeds) = Inr b2"
    "rb_mean b2 = mean_ratio (t ''C7'') (t ''C0'') seeds"
    "ratio_block_of (map (\<lambda>s. (s, t ''C7'' s)) seeds) (map (\<lambda>s. (s, t ''slora'' s)) seeds) = Inr b3"
    "rb_mean b3 = mean_ratio (t ''C7'') (t ''slora'') seeds"
    "ratio_block_of (map (\<lambda>s. (s, t ''C7'' s)) seeds) (map (\<lambda>s. (s, t ''punica'' s)) seeds) = Inr b4"
    "rb_mean b4 = mean_ratio (t ''C7'') (t ''punica'') seeds"
    "ratio_block_of (map (\<lambda>s. (s, t ''C7'' s)) seeds) (map (\<lambda>s. (s, t ''dlora'' s)) seeds) = Inr b5"
    "rb_mean b5 = mean_ratio (t ''C7'') (t ''dlora'') seeds"
    using ratio [of "''v050''"] ratio [of "''C0''"] ratio [of "''slora''"] ratio [of "''punica''"] ratio [of "''dlora''"] by blast
  show ?thesis unfolding c1_of_def c also_ok.simps b(1,3,5,7,9) using b by simp
qed

text \<open>All systems equally fast.\<close>

definition equal_rows :: "string list \<Rightarrow> run_rows" where
  "equal_rows tags = map (\<lambda>tag. (tag, [(''tput'', 1)])) tags"

lemma equal_rows_number: "tag \<in> set tags \<Longrightarrow> row_number (equal_rows tags) tag ''tput'' = Inr 1"
  by (simp add: row_number_def row_of_def number_def equal_rows_def map_of_map_restrict)

theorem headline_numbers_are_mean_ratios_witness:
  "\<exists>c. c1_of (equal_rows [cell_tag \<lparr>cc_rank = 32, cc_seed = s, cc_prompts = 400, cc_out = [], cc_abspath = id\<rparr>
         \<lparr>ce_mt = ''128'', ce_seqs = ''256'', ce_arm = arm\<rparr>. s \<leftarrow> seeds, arm \<leftarrow> [''C7'', ''C0'']])
       (equal_rows [k10_tag (arm, s). s \<leftarrow> seeds, arm \<leftarrow> [''v050'', ''slora'']])
       (equal_rows [k10_tag (''punica'', s). s \<leftarrow> seeds]) (equal_rows [k10_tag (''dlora'', s). s \<leftarrow> seeds]) = Inr c \<and>
     rb_mean (c1_vllm050 c) = 1"
  (is "\<exists>c. c1_of ?cells ?base ?pun ?dlo = Inr c \<and> _")
proof -
  have cells: "row_number ?cells (cell_tag \<lparr>cc_rank = 32, cc_seed = s, cc_prompts = 400, cc_out = [], cc_abspath = id\<rparr>
      \<lparr>ce_mt = ''128'', ce_seqs = ''256'', ce_arm = arm\<rparr>) ''tput'' = Inr ((\<lambda>arm s. 1) arm s)"
    if "s \<in> set seeds" "arm \<in> {''C7'', ''C0''}" for s arm using that by (intro equal_rows_number) auto
  have base: "row_number ?base (k10_tag (arm, s)) ''tput'' = Inr ((\<lambda>arm s. 1) arm s)"
    if "s \<in> set seeds" "arm \<in> {''v050'', ''slora''}" for s arm using that by (intro equal_rows_number) auto
  have pun: "row_number ?pun (k10_tag (''punica'', s)) ''tput'' = Inr ((\<lambda>arm s. 1) ''punica'' s)" if "s \<in> set seeds" for s
    using that by (intro equal_rows_number) auto
  have dlo: "row_number ?dlo (k10_tag (''dlora'', s)) ''tput'' = Inr ((\<lambda>arm s. 1) ''dlora'' s)" if "s \<in> set seeds" for s
    using that by (intro equal_rows_number) auto
  obtain c where "c1_of ?cells ?base ?pun ?dlo = Inr c" "rb_mean (c1_vllm050 c) = mean_ratio (\<lambda>s. 1) (\<lambda>s. 1) seeds"
    using headline_numbers_are_mean_ratios [where t = "\<lambda>arm s. 1", OF cells base pun dlo] by auto
  moreover have "mean_ratio (\<lambda>s. 1) (\<lambda>s. 1) seeds = 1" by (simp add: mean_ratio_def seeds_def avg_def py_round_to_def py_round_def)
  ultimately show ?thesis by auto
qed

end
