(* ===== verification/OutputCheck.thy ===== *)
theory OutputCheck
  imports L3 Report
begin

text \<open>
  The checks of served outputs: \<^verbatim>\<open>benchmarks/paper/output_check.py\<close> (completions against vLLM's) and
  \<^verbatim>\<open>benchmarks/paper/l3_check.py\<close> (completions with and without WGKP L3, and the promoted steps read from the
  server's log). The completions, the throughputs and what other code logs are arguments.
\<close>

subsection \<open>Agreement of completions\<close>

text \<open>The two scripts measure the shared prefix with different loops.\<close>

fun count_agreeing :: "(char \<times> char) list \<Rightarrow> nat \<Rightarrow> nat" where
  "count_agreeing [] n = n"
| "count_agreeing ((a, b) # ps) n = (if a \<noteq> b then n else count_agreeing ps (n + 1))"

definition prefix_frac :: "string \<Rightarrow> string \<Rightarrow> real" where
  "prefix_frac x y = real (count_agreeing (zip x y) 0) / real (max 1 (max (length x) (length y)))"

function agree_from :: "string \<Rightarrow> string \<Rightarrow> nat \<Rightarrow> nat" where
  "agree_from a b n = (if n < min (length a) (length b) \<and> a ! n = b ! n then agree_from a b (n + 1) else n)"
  by pat_completeness auto
termination
  by (relation "measure (\<lambda>(a, b, n). length a - n)") auto

declare agree_from.simps [simp del]

definition common_prefix :: "string \<Rightarrow> string \<Rightarrow> real" where
  "common_prefix a b = real (agree_from a b 0) / real (max (max (length a) (length b)) 1)"

record output_row =
  or_mode :: int
  or_n :: nat
  or_exact :: nat
  or_prefix :: real

text \<open>\<open>statistics.mean\<close> of no number raises StatisticsError, a ValueError.\<close>

definition output_check_row :: "environ \<Rightarrow> nat \<Rightarrow> string list \<Rightarrow> string list \<Rightarrow> py_error + output_row" where
  "output_check_row env n ref got =
     (case map_of env ''AS_SEGGEMM'' of
        None \<Rightarrow> Inl KeyError
      | Some s \<Rightarrow>
          (case py_int s of
             None \<Rightarrow> Inl ValueError
           | Some md \<Rightarrow>
               (let ps = zip ref got
                in if ps = [] then Inl ValueError
                   else Inr \<lparr>or_mode = md, or_n = n, or_exact = length (filter (\<lambda>(a, b). a = b) ps),
                          or_prefix = avg (map (\<lambda>(a, b). prefix_frac a b) ps)\<rparr>)))"

subsection \<open>Promoted steps in the log\<close>

text \<open>\<open>re.findall(r"L3: (\d+) promoted steps")\<close>: a match at the start of the string, and the text after it.\<close>

definition is_digit :: "char \<Rightarrow> bool" where
  "is_digit c \<longleftrightarrow> digit_value c \<noteq> None"

definition match_steps :: "string \<Rightarrow> (string \<times> string) option" where
  "match_steps s =
     (let ds = takeWhile is_digit (drop 4 s); rest = dropWhile is_digit (drop 4 s)
      in if prefix ''L3: '' s \<and> ds \<noteq> [] \<and> prefix '' promoted steps'' rest then Some (ds, drop 15 rest) else None)"

lemma match_shorter: "match_steps s = Some (ds, rest) \<Longrightarrow> length rest < length s"
proof -
  assume "match_steps s = Some (ds, rest)"
  then have "prefix ''L3: '' s" "rest = drop 15 (dropWhile is_digit (drop 4 s))"
    by (auto simp: match_steps_def Let_def split: if_splits)
  moreover have "length (dropWhile is_digit (drop 4 s)) \<le> length (drop 4 s)" by (rule length_dropWhile_le)
  ultimately show "length rest < length s" by (auto simp: prefix_def)
qed

function find_steps :: "string \<Rightarrow> string list" where
  "find_steps [] = []"
| "find_steps (c # cs) =
     (case match_steps (c # cs) of Some (ds, rest) \<Rightarrow> ds # find_steps rest | None \<Rightarrow> find_steps cs)"
  by pat_completeness auto
termination
  by (relation "measure length") (auto dest: match_shorter)

text \<open>\<open>int\<close> of a run of digits succeeds.\<close>

definition promoted_steps :: "string \<Rightarrow> int" where
  "promoted_steps log_text = foldl max 0 (map (\<lambda>ds. the (py_int ds)) (find_steps log_text))"

text \<open>The prefix the server's formatter gives a line of \<^verbatim>\<open>model_runner.py\<close>; \<open>stamp\<close> is its date and time.\<close>

definition log_head :: "string \<Rightarrow> nat \<Rightarrow> string" where
  "log_head stamp line = ''INFO '' @ stamp @ '' model_runner.py:'' @ py_str (int line) @ ''] ''"

text \<open>What \<open>load_model\<close> logs; \<open>mt\<close> is AS_SEGGEMM_MIN_TOKENS.\<close>

definition seg_line :: "string \<Rightarrow> bool \<Rightarrow> string \<Rightarrow> string \<Rightarrow> string" where
  "seg_line stamp seg mode mt = log_head stamp 62 @ ''install_segmented_punica_wrapper: installed='' @
     (if seg then ''True'' else ''False'') @ '' mode='' @ mode @ '' min_tokens='' @ mt"

definition projections_line :: "string \<Rightarrow> nat \<Rightarrow> int \<Rightarrow> string" where
  "projections_line stamp n k =
     log_head stamp 70 @ ''L3: '' @ py_str (int n) @ '' promotable attention projections, AS_MWC_K_HOT='' @ py_str k"

definition load_model_log :: "string \<Rightarrow> string \<Rightarrow> string \<Rightarrow> int \<Rightarrow> 'm runner \<Rightarrow> string list" where
  "load_model_log stamp seggemm mt k r0 =
     (if \<not> wgkp_enabled r0 then []
      else (if seggemm \<in> {''1'', ''2'', ''3''} then [seg_line stamp (segmented_installed r0) seggemm mt] else []) @
           [projections_line stamp (length (l3_layers r0)) k])"

text \<open>What \<open>execute_model\<close> logs for a promoted step.\<close>

definition counts_logged :: "nat \<Rightarrow> bool" where
  "counts_logged n \<longleftrightarrow> n \<in> {1, 10, 100} \<or> n mod 1000 = 0"

definition steps_line :: "string \<Rightarrow> nat \<Rightarrow> string" where
  "steps_line stamp n = log_head stamp 89 @ ''L3: '' @ py_str (int n) @ '' promoted steps''"

text \<open>A step of the server: what other code logs before it, what the loaders and the scheduler do to the cache, the call
  of \<open>execute_model\<close>, the time its own line is stamped with, and whether vLLM's \<open>execute_model\<close> raises. An exception
  ends the engine.\<close>

record 'm served_step =
  ss_lines :: "string list"
  ss_change :: "'m mwc option \<Rightarrow> 'm mwc option"
  ss_free :: int
  ss_input :: model_input
  ss_stamp :: string
  ss_raises :: bool

fun serve_steps ::
  "('m \<Rightarrow> ('m \<times> 'm) list \<Rightarrow> py_error + 'm) \<Rightarrow> int \<Rightarrow> 'm served_step list \<Rightarrow> 'm runner \<Rightarrow> 'm runner \<times> string list" where
  "serve_steps merge_w per [] r = (r, [])"
| "serve_steps merge_w per (st # sts) r =
     (let (res, r1) = execute_model merge_w (ss_free st) per (ss_input st) (r\<lparr>run_mwc := ss_change st (run_mwc r)\<rparr>)
      in case res of
           Inl e \<Rightarrow> (r1, ss_lines st)
         | Inr w \<Rightarrow>
             (let logged = (if w \<noteq> None \<and> counts_logged (n_promoted_steps r1) then [steps_line (ss_stamp st) (n_promoted_steps r1)] else []);
                  (r2, lines) = (if ss_raises st then (r1, []) else serve_steps merge_w per sts r1)
              in (r2, ss_lines st @ logged @ lines)))"

text \<open>The log of a server: what other code logs before the model is loaded, what \<open>load_model\<close> logs, and the steps.\<close>

definition server_log ::
  "('m \<Rightarrow> ('m \<times> 'm) list \<Rightarrow> py_error + 'm) \<Rightarrow> int \<Rightarrow> string list \<Rightarrow> string \<Rightarrow> string \<Rightarrow> string \<Rightarrow> int \<Rightarrow> 'm served_step list \<Rightarrow>
     'm runner \<Rightarrow> 'm runner \<times> string list" where
  "server_log merge_w per boot stamp seggemm mt k sts r0 =
     (let (r, lines) = serve_steps merge_w per sts r0
      in (r, boot @ load_model_log stamp seggemm mt k r0 @ lines))"

definition log_text :: "string list \<Rightarrow> string" where
  "log_text lines = concat (map (\<lambda>l. l @ [CHR 0x0A]) lines)"

record l3_row =
  lr_tput_l3 :: real
  lr_tput_no_l3 :: real
  lr_speedup :: real
  lr_promoted :: int
  lr_identical :: nat
  lr_n :: nat
  lr_shared :: real

definition l3_check_row :: "nat \<Rightarrow> string list \<times> real \<times> string \<Rightarrow> string list \<times> real \<Rightarrow> py_error + l3_row" where
  "l3_check_row n on off =
     (let (texts_on, tput_on, log_on) = on; (texts_off, tput_off) = off; ps = zip texts_on texts_off
      in if tput_off = 0 \<or> n = 0 then Inl ZeroDivisionError
         else Inr \<lparr>lr_tput_l3 = tput_on, lr_tput_no_l3 = tput_off, lr_speedup = tput_on / tput_off,
                lr_promoted = promoted_steps log_on, lr_identical = length (filter (\<lambda>(a, b). a = b) ps), lr_n = n,
                lr_shared = sum_list (map (\<lambda>(a, b). common_prefix a b) ps) / real n\<rparr>)"

subsection \<open>The two measures of agreement are one\<close>

lemma count_agreeing_lcp: "count_agreeing (zip x y) n = n + length (longest_common_prefix x y)"
  by (induction x y arbitrary: n rule: longest_common_prefix.induct) auto

lemma agree_from_lcp: "n \<le> length a \<Longrightarrow> n \<le> length b \<Longrightarrow>
    agree_from a b n = n + length (longest_common_prefix (drop n a) (drop n b))"
proof (induction a b n rule: agree_from.induct)
  case (1 a b n)
  show ?case
  proof (cases "n < min (length a) (length b) \<and> a ! n = b ! n")
    case True
    then have "drop n a = a ! n # drop (n + 1) a" "drop n b = b ! n # drop (n + 1) b" by (metis Cons_nth_drop_Suc Suc_eq_plus1 min_less_iff_conj)+
    then show ?thesis using 1 True by (subst agree_from.simps) simp
  next
    case False
    then have "longest_common_prefix (drop n a) (drop n b) = []"
      using "1.prems" by (cases "n < length a"; cases "n < length b") (auto simp: Cons_nth_drop_Suc [symmetric])
    moreover have "agree_from a b n = n" using False by (subst agree_from.simps) (simp only: if_False)
    ultimately show ?thesis by simp
  qed
qed

lemma lcp_le: "length (longest_common_prefix x y) \<le> length x" "length (longest_common_prefix x y) \<le> length y"
  by (simp_all add: prefix_length_le longest_common_prefix_prefix1 longest_common_prefix_prefix2)

lemma lcp_full:
  assumes "length (longest_common_prefix x y) = length x" and "length x = length y"
  shows "x = y"
  using assms by (induction x y rule: longest_common_prefix.induct) (auto split: if_splits)

text \<open>The two checks measure agreement alike, and as they say: the number of characters before the first difference over
  the length of the longer completion. It is a number from 0 to 1, the same whichever completion comes first;
  it is 1 exactly for equal completions that are not empty, while two empty completions count as identical but
  share 0.\<close>

theorem shared_prefix_is_measured:
  "prefix_frac x y = common_prefix x y \<and>
   prefix_frac x y = real (length (longest_common_prefix x y)) / real (max 1 (max (length x) (length y))) \<and>
   0 \<le> prefix_frac x y \<and> prefix_frac x y \<le> 1 \<and> prefix_frac y x = prefix_frac x y \<and>
   (prefix_frac x y = 1 \<longleftrightarrow> x = y \<and> x \<noteq> [])"
proof -
  let ?l = "length (longest_common_prefix x y)" and ?m = "max 1 (max (length x) (length y))"
  have p: "prefix_frac x y = real ?l / real ?m" by (simp add: prefix_frac_def count_agreeing_lcp)
  have c: "common_prefix x y = real ?l / real ?m" by (simp add: common_prefix_def agree_from_lcp max.commute)
  have lcp: "longest_common_prefix y x = longest_common_prefix x y"
    by (induction x y rule: longest_common_prefix.induct) auto
  have s: "prefix_frac y x = prefix_frac x y" by (simp add: prefix_frac_def count_agreeing_lcp lcp max.commute)
  have le: "?l \<le> ?m" using lcp_le [of x y] by simp
  have "real ?l / real ?m = 1 \<longleftrightarrow> ?l = ?m" by (auto simp: divide_eq_1_iff)
  also have "\<dots> \<longleftrightarrow> x = y \<and> x \<noteq> []"
  proof
    assume "?l = ?m"
    then have "?l = length x" "length x = length y" "1 \<le> length x" using lcp_le [of x y] by auto
    then show "x = y \<and> x \<noteq> []" using lcp_full by fastforce
  next
    assume eq: "x = y \<and> x \<noteq> []"
    have "longest_common_prefix x x = x" by (induction x) auto
    then show "?l = ?m" using eq by (cases x) auto
  qed
  finally show ?thesis using p c s le by (simp add: divide_le_eq_1 less_max_iff_disj)
qed

subsection \<open>Matches do not cross lines\<close>

lemma prefix_before:
  assumes "c \<notin> set p"
  shows "prefix p (l @ c # r) \<longleftrightarrow> prefix p l"
proof
  assume "prefix p (l @ c # r)"
  moreover have "us = []" if "p = l @ us" "prefix us (c # r)" for us using that assms by (cases us) auto
  ultimately show "prefix p l" by (auto simp: prefix_append)
qed (simp add: prefix_append)

lemma newline_not_digit: "\<not> is_digit (CHR 0x0A)"
  by (simp add: is_digit_def digit_value_def)

lemma match_steps_line:
  "match_steps (l @ CHR 0x0A # r) = map_option (\<lambda>(ds, rest). (ds, rest @ CHR 0x0A # r)) (match_steps l)"
proof (cases "prefix ''L3: '' l")
  case True
  then obtain k where l: "l = ''L3: '' @ k" by (auto simp: prefix_def)
  let ?rest = "dropWhile is_digit k"
  have d: "drop 4 (l @ CHR 0x0A # r) = k @ CHR 0x0A # r" "drop 4 l = k" by (simp_all add: l)
  have ds: "takeWhile is_digit (k @ CHR 0x0A # r) = takeWhile is_digit k" "dropWhile is_digit (k @ CHR 0x0A # r) = ?rest @ CHR 0x0A # r"
    using newline_not_digit by (induction k) auto
  have p: "prefix ''L3: '' (l @ CHR 0x0A # r)" by (simp add: l)
  have q: "prefix '' promoted steps'' (?rest @ CHR 0x0A # r) \<longleftrightarrow> prefix '' promoted steps'' ?rest" by (rule prefix_before) simp
  have "drop 15 (?rest @ CHR 0x0A # r) = drop 15 ?rest @ CHR 0x0A # r" if "prefix '' promoted steps'' ?rest"
    using prefix_length_le [OF that] by simp
  then show ?thesis unfolding match_steps_def d ds q Let_def using p True by simp
next
  case False
  then have "\<not> prefix ''L3: '' (l @ CHR 0x0A # r)" by (subst prefix_before) simp_all
  then show ?thesis using False by (simp add: match_steps_def Let_def del: prefix_code)
qed

lemma find_steps_line: "find_steps (l @ CHR 0x0A # r) = find_steps l @ find_steps r"
proof (induction l rule: find_steps.induct)
  case 1
  have "match_steps (CHR 0x0A # r) = None" by (simp add: match_steps_def)
  then show ?case by simp
next
  case (2 c cs)
  show ?case
  proof (cases "match_steps (c # cs)")
    case None
    then have "match_steps (c # cs @ CHR 0x0A # r) = None" using match_steps_line [of "c # cs" r] by simp
    then show ?thesis using 2 None by simp
  next
    case (Some m)
    obtain ds rest where m: "m = (ds, rest)" by force
    then have "match_steps (c # cs @ CHR 0x0A # r) = Some (ds, rest @ CHR 0x0A # r)" using Some match_steps_line [of "c # cs" r] by simp
    then show ?thesis using 2 Some m by simp
  qed
qed

lemma find_steps_log: "find_steps (log_text lines) = concat (map find_steps lines)"
  by (induction lines) (simp_all add: log_text_def find_steps_line)

lemma no_match_without_L: "CHR ''L'' \<noteq> c \<Longrightarrow> match_steps (c # cs) = None"
proof -
  assume "CHR ''L'' \<noteq> c"
  then have "\<not> prefix ''L3: '' (c # cs)" by simp
  then show ?thesis by (simp add: match_steps_def Let_def del: prefix_code)
qed

lemma find_steps_head: "CHR ''L'' \<notin> set head \<Longrightarrow> find_steps (head @ l) = find_steps l"
  by (induction head) (simp_all add: no_match_without_L)

lemma find_steps_other: "CHR ''L'' \<notin> set l \<Longrightarrow> find_steps l = []"
  using find_steps_head [of l "[]"] by simp

lemma nat_digits_are_digits: "list_all is_digit (nat_digits n)"
  using nat_digits_digits [of n] by (simp add: is_digit_def list_all_iff)

lemma py_str_without_L: "CHR ''L'' \<notin> set (py_str i)"
proof -
  have "\<not> is_digit (CHR ''L'')" by (simp add: is_digit_def digit_value_def)
  then have "CHR ''L'' \<notin> set (nat_digits n)" for n using nat_digits_are_digits [of n] by (auto simp: list_all_iff)
  then show ?thesis by (simp add: py_str_def)
qed

lemma log_head_without_L: "CHR ''L'' \<notin> set stamp \<Longrightarrow> CHR ''L'' \<notin> set (log_head stamp line)"
  using py_str_without_L by (simp add: log_head_def)

lemma digits_split:
  "takeWhile is_digit (py_str (int n) @ CHR '' '' # r) = py_str (int n)"
  "dropWhile is_digit (py_str (int n) @ CHR '' '' # r) = CHR '' '' # r"
proof -
  have d: "list_all is_digit (py_str (int n))" "\<not> is_digit (CHR '' '')"
    using nat_digits_are_digits by (simp_all add: py_str_def is_digit_def digit_value_def)
  then show "takeWhile is_digit (py_str (int n) @ CHR '' '' # r) = py_str (int n)"
    "dropWhile is_digit (py_str (int n) @ CHR '' '' # r) = CHR '' '' # r"
    by (simp_all add: takeWhile_append dropWhile_append list_all_iff)
qed

lemma find_steps_count:
  assumes "CHR ''L'' \<notin> set stamp"
  shows "find_steps (steps_line stamp n) = [py_str (int n)]"
proof -
  have "py_str (int n) \<noteq> []" by (simp add: py_str_def)
  then have "match_steps (''L3: '' @ py_str (int n) @ '' promoted steps'') = Some (py_str (int n), [])"
    by (simp add: match_steps_def Let_def digits_split)
  then show ?thesis unfolding steps_line_def find_steps_head [OF log_head_without_L [OF assms]] by simp
qed

lemma find_steps_projections:
  assumes "CHR ''L'' \<notin> set stamp"
  shows "find_steps (projections_line stamp n k) = []"
proof -
  let ?tail = "py_str (int n) @ '' promotable attention projections, AS_MWC_K_HOT='' @ py_str k"
  have "match_steps (''L3: '' @ ?tail) = None" by (simp add: match_steps_def Let_def digits_split)
  moreover have "find_steps (''3: '' @ ?tail) = []"
    using py_str_without_L by (intro find_steps_other) simp
  ultimately show ?thesis unfolding projections_line_def find_steps_head [OF log_head_without_L [OF assms]] by simp
qed

lemma find_steps_seg:
  assumes "CHR ''L'' \<notin> set stamp" and "seggemm \<in> {''1'', ''2'', ''3''}" and "CHR ''L'' \<notin> set mt"
  shows "find_steps (seg_line stamp seg seggemm mt) = []"
  using assms log_head_without_L [OF assms(1)] by (intro find_steps_other) (auto simp: seg_line_def)

lemma find_steps_load:
  assumes "CHR ''L'' \<notin> set stamp" and "CHR ''L'' \<notin> set mt"
  shows "concat (map find_steps (load_model_log stamp seggemm mt k r0)) = []"
  using find_steps_projections [OF assms(1)] find_steps_seg [OF assms(1) _ assms(2)] by (simp add: load_model_log_def)

text \<open>A step counts as promoted exactly when it runs on merged weights.\<close>

lemma execute_model_count:
  "execute_model merge_w free per inp (r\<lparr>run_mwc := m\<rparr>) = (res, r') \<Longrightarrow>
     n_promoted_steps r' = (case res of Inr (Some w) \<Rightarrow> Suc (n_promoted_steps r) | _ \<Rightarrow> n_promoted_steps r)"
  by (auto simp: execute_model_def Let_def split: option.splits prod.splits if_splits sum.splits)

lemma find_steps_lines:
  assumes "\<forall>st\<in>set sts. CHR ''L'' \<notin> set (ss_stamp st) \<and> (\<forall>l\<in>set (ss_lines st). find_steps l = [])"
    and "serve_steps merge_w per sts r = (r', lines)"
  shows "n_promoted_steps r \<le> n_promoted_steps r' \<and>
    find_steps (log_text lines) =
      map (\<lambda>n. py_str (int n)) (filter counts_logged [Suc (n_promoted_steps r)..<Suc (n_promoted_steps r')])"
  using assms
proof (induction sts arbitrary: r r' lines)
  case Nil
  then show ?case by (simp add: log_text_def)
next
  case (Cons st sts)
  have other: "concat (map find_steps (ss_lines st)) = []" using Cons.prems(1) by simp
  obtain res r1 where ex: "execute_model merge_w (ss_free st) per (ss_input st) (r\<lparr>run_mwc := ss_change st (run_mwc r)\<rparr>) = (res, r1)"
    by force
  note n1 = execute_model_count [OF ex]
  show ?case
  proof (cases res)
    case (Inl e)
    then show ?thesis using Cons.prems(2) ex n1 other by (auto simp: find_steps_log)
  next
    case (Inr w)
    obtain r2 ls where s: "(if ss_raises st then (r1, []) else serve_steps merge_w per sts r1) = (r2, ls)" by force
    define logged where "logged = (if w \<noteq> None \<and> counts_logged (n_promoted_steps r1) then [steps_line (ss_stamp st) (n_promoted_steps r1)] else [])"
    have out: "r' = r2" "lines = ss_lines st @ logged @ ls"
      using Cons.prems(2) ex s Inr by (auto simp: logged_def Let_def simp del: split_paired_All split: if_splits)
    have ih: "n_promoted_steps r1 \<le> n_promoted_steps r2 \<and>
      concat (map find_steps ls) = map (\<lambda>n. py_str (int n)) (filter counts_logged [Suc (n_promoted_steps r1)..<Suc (n_promoted_steps r2)])"
    proof (cases "ss_raises st")
      case True
      then show ?thesis using s by simp
    next
      case False
      then show ?thesis using Cons.IH [of r1 r2 ls] s Cons.prems(1) by (auto simp: find_steps_log)
    qed
    have c: "n_promoted_steps r1 = (if w = None then n_promoted_steps r else Suc (n_promoted_steps r))" using n1 Inr by (cases w) simp_all
    have up: "[Suc (n_promoted_steps r)..<Suc (n_promoted_steps r2)] = n_promoted_steps r1 # [Suc (n_promoted_steps r1)..<Suc (n_promoted_steps r2)]"
      if "w \<noteq> None" using c that ih by (simp add: upt_conv_Cons del: upt_Suc)
    show ?thesis
    proof (cases "w = None")
      case True
      then show ?thesis using out other ih c by (simp add: find_steps_log logged_def)
    next
      case False
      have "find_steps (log_text lines) = concat (map find_steps logged) @ concat (map find_steps ls)"
        using out other by (simp add: find_steps_log)
      moreover have "concat (map find_steps logged) = map (\<lambda>n. py_str (int n)) (filter counts_logged [n_promoted_steps r1])"
        using False find_steps_count [of "ss_stamp st"] Cons.prems(1) by (simp add: logged_def)
      moreover have "n_promoted_steps r \<le> n_promoted_steps r'" using c ih out(1) by (simp split: if_splits)
      ultimately show ?thesis unfolding out(1) up [OF False] ih [THEN conjunct2] by simp
    qed
  qed
qed

text \<open>The last count the runner has logged after \<open>n\<close> promoted steps.\<close>

definition last_logged :: "nat \<Rightarrow> nat" where
  "last_logged n = (if n = 0 then 0 else if n < 10 then 1 else if n < 100 then 10 else if n < 1000 then 100 else 1000 * (n div 1000))"

lemma last_logged_Suc: "last_logged (Suc n) = (if counts_logged (Suc n) then Suc n else last_logged n)"
proof (cases "n < 1000")
  case True
  then have "n = 999 \<or> n < 999" by linarith
  then show ?thesis by (auto simp: last_logged_def counts_logged_def)
next
  case False
  have "Suc n div 1000 = (if Suc n mod 1000 = 0 then Suc (n div 1000) else n div 1000)" by (rule div_Suc)
  moreover have "1000 * (Suc n div 1000) = Suc n" if "Suc n mod 1000 = 0" using mult_div_mod_eq [of 1000 "Suc n"] that by simp
  ultimately show ?thesis using False by (auto simp: last_logged_def counts_logged_def)
qed

lemma last_logged_le: "last_logged n \<le> n"
  by (auto simp: last_logged_def)

lemma last_logged_0: "last_logged n = 0 \<longleftrightarrow> n = 0"
  by (auto simp: last_logged_def div_eq_0_iff)

lemma foldl_max_logged: "foldl max 0 (map int (filter counts_logged [Suc 0..<Suc n])) = int (last_logged n)"
proof (induction n)
  case (Suc n)
  then show ?case using last_logged_le [of n] by (simp add: last_logged_Suc)
qed (simp add: last_logged_def)

text \<open>C39: The count of promoted steps in the check of L3 is what the runner logged last, and a lower bound on the steps that ran
  on merged weights. Take the log of a server: the lines \<open>load_model\<close> writes (among them the count of promotable
  projections, which also begins with L3), the lines the steps write, and any other lines in which the check's
  pattern does not match. Serve any steps with a new runner, with any loads and merges between them; an
  exception, the runner's or vLLM's, ends the engine. The number found in the log is 0, 1, 10 or 100
  for fewer than 1000 promoted steps and from then on the last multiple of 1000: never more than the promoted steps, and
  0 only if there was none. The dates of the runner's lines and AS_SEGGEMM_MIN_TOKENS, both numbers, contain no
  letter L, and lines are written whole.\<close>

theorem logged_steps_are_a_lower_bound:
  assumes "CHR ''L'' \<notin> set stamp" and "CHR ''L'' \<notin> set mt" and "\<forall>l\<in>set boot. find_steps l = []"
    and "\<forall>st\<in>set sts. CHR ''L'' \<notin> set (ss_stamp st) \<and> (\<forall>l\<in>set (ss_lines st). find_steps l = [])"
    and "server_log merge_w per boot stamp seggemm mt k sts
      (load_model seggemm installs k tensor_par margin layers (runner_init wgkp threshold)) = (r, lines)"
  shows "promoted_steps (log_text lines) = int (last_logged (n_promoted_steps r)) \<and>
    promoted_steps (log_text lines) \<le> int (n_promoted_steps r) \<and>
    (promoted_steps (log_text lines) = 0 \<longleftrightarrow> n_promoted_steps r = 0)"
proof -
  let ?loaded = "load_model seggemm installs k tensor_par margin layers (runner_init wgkp threshold)"
  have 0: "n_promoted_steps ?loaded = 0" by (simp add: load_model_def runner_init_def Let_def)
  obtain ls where s: "serve_steps merge_w per sts ?loaded = (r, ls)" "lines = boot @ load_model_log stamp seggemm mt k ?loaded @ ls"
    using assms(5) by (auto simp: server_log_def split: prod.splits)
  have "concat (map find_steps boot) = []" using assms(3) by simp
  then have "find_steps (log_text lines) = map (\<lambda>n. py_str (int n)) (filter counts_logged [Suc 0..<Suc (n_promoted_steps r)])"
    using find_steps_lines [OF assms(4) s(1)] find_steps_load [OF assms(1,2)] s(2) 0 by (simp add: find_steps_log)
  then have "promoted_steps (log_text lines) = int (last_logged (n_promoted_steps r))"
    using foldl_max_logged [of "n_promoted_steps r"] by (simp add: promoted_steps_def comp_def del: upt_Suc)
  then show ?thesis using last_logged_le [of "n_promoted_steps r"] last_logged_0 [of "n_promoted_steps r"] by simp
qed

text \<open>One promoted step of the runner of theory \<open>L3\<close>, after a line of the server that mentions L3 itself.\<close>

definition demo_stamp :: string where
  "demo_stamp = ''01-02 03:04:05''"

definition demo_step :: "int served_step" where
  "demo_step = \<lparr>ss_lines = [''INFO L3 merged-weight cache: 1''], ss_change = (\<lambda>m. Some sample_cache2), ss_free = 10,
     ss_input = sample_input, ss_stamp = demo_stamp, ss_raises = False\<rparr>"

theorem logged_steps_are_a_lower_bound_witness:
  "\<exists>r lines. server_log sample_merge 1 [''INFO started''] demo_stamp ''3'' ''64'' 1 [demo_step]
       (load_model ''3'' True 1 1 0 sample_layers (runner_init True 2)) = (r, lines) \<and>
     projections_line demo_stamp 1 1 \<in> set lines \<and> n_promoted_steps r = 1 \<and> promoted_steps (log_text lines) = 1"
proof -
  obtain r lines where s: "server_log sample_merge 1 [''INFO started''] demo_stamp ''3'' ''64'' 1 [demo_step]
       (load_model ''3'' True 1 1 0 sample_layers (runner_init True 2)) = (r, lines)"
    by force
  have r: "n_promoted_steps r = 1" "projections_line demo_stamp 1 1 \<in> set lines" using s
    by (auto simp: server_log_def load_model_log_def demo_step_def execute_model_def load_model_def runner_init_def sample_cache_eval
        process_def sample_layers_def promoted_weights_def sample_input_def promotable_adapter_def mwc_get_def)
  have "match_steps (''L3 merged-weight cache: 1'') = None" by (simp add: match_steps_def)
  moreover have "find_steps (''3 merged-weight cache: 1'') = []" by (intro find_steps_other) simp
  ultimately have "find_steps ''INFO L3 merged-weight cache: 1'' = []"
    using find_steps_head [of "''INFO ''" "''L3 merged-weight cache: 1''"] by simp
  moreover have "find_steps ''INFO started'' = []" by (intro find_steps_other) simp
  ultimately show ?thesis using logged_steps_are_a_lower_bound [OF _ _ _ _ s] s r
    by (auto simp: demo_step_def demo_stamp_def last_logged_def simp del: find_steps.simps)
qed

end
