(* ===== verification/Serve.thy ===== *)
theory Serve
  imports Backend
begin

text \<open>
  The server process: the command line of \<^verbatim>\<open>scripts/vllm_serve_adapter_slots.py\<close>, the executors that
  \<^verbatim>\<open>integrations/aligned_engine.py\<close> and \<^verbatim>\<open>integrations/aligned_mp_engine.py\<close> choose, and \<open>run_server\<close> of
  \<^verbatim>\<open>integrations/aligned_api_server.py\<close> with the engine process it spawns. vLLM's engine, its client and its
  HTTP server are what they answer: arguments of the model.
\<close>

subsection \<open>Flags\<close>

text \<open>The loop over \<open>argv\<close>: the environment it leaves and the arguments it hands to vLLM.\<close>

fun serve_args :: "string list \<Rightarrow> environ \<Rightarrow> string list \<Rightarrow> environ \<times> string list" where
  "serve_args [] env clean = (env, clean)"
| "serve_args [arg] env clean =
     (if prefix ''--tmax='' arg then (dict_set ''AS_TMAX_MS'' (drop 7 arg) env, clean)
      else if prefix ''--wgkp-threshold='' arg then (dict_set ''AS_WGKP_THRESHOLD'' (drop 17 arg) env, clean)
      else (env, clean @ [arg]))"
| "serve_args (arg # val # raw) env clean =
     (if arg = ''--tmax'' then serve_args raw (dict_set ''AS_TMAX_MS'' val env) clean
      else if arg = ''--wgkp-threshold'' then serve_args raw (dict_set ''AS_WGKP_THRESHOLD'' val env) clean
      else if prefix ''--tmax='' arg then serve_args (val # raw) (dict_set ''AS_TMAX_MS'' (drop 7 arg) env) clean
      else if prefix ''--wgkp-threshold='' arg then serve_args (val # raw) (dict_set ''AS_WGKP_THRESHOLD'' (drop 17 arg) env) clean
      else serve_args (val # raw) env (clean @ [arg]))"

subsection \<open>Executors\<close>

datatype executor =
    GPUExecutor
  | GPUExecutorAsync
  | MultiprocessingGPUExecutor
  | OtherExecutor string
  | AlignedGPUExecutor
  | AlignedGPUExecutorAsync
  | AlignedMultiprocGPUExecutor

text \<open>The model runner a worker is built with: \<open>_get_worker_kwargs\<close> of the aligned executors names theirs.\<close>

datatype runner_class = VllmRunner | AlignmentAwareModelRunner

definition runner_of :: "executor \<Rightarrow> runner_class" where
  "runner_of e = (if e \<in> {AlignedGPUExecutor, AlignedGPUExecutorAsync, AlignedMultiprocGPUExecutor}
     then AlignmentAwareModelRunner else VllmRunner)"

text \<open>\<open>chosen\<close> is what vLLM's own \<open>_get_executor_cls\<close> returns.\<close>

definition async_executor :: "executor \<Rightarrow> executor" where
  "async_executor chosen = (if chosen = GPUExecutorAsync then AlignedGPUExecutorAsync else chosen)"

definition mp_executor :: "executor \<Rightarrow> executor" where
  "mp_executor chosen =
     (if chosen = GPUExecutor then AlignedGPUExecutor
      else if chosen = MultiprocessingGPUExecutor then AlignedMultiprocGPUExecutor
      else chosen)"

subsection \<open>The server\<close>

datatype setup_result = Connected | TimedOut | SetupError

datatype serve_outcome =
  ConfigRaised | RayRefused | PortTaken | EngineStartFailed | SetupRaised | EngineRaised | Served | ServeRaised

text \<open>\<open>EngineTerminating\<close>: sent SIGTERM, and neither seen to exit nor killed.\<close>

datatype engine_state = NoEngine | EngineAlive | EngineTerminating | EngineExited | EngineKilled

datatype shutdown_step = Terminate | CloseClient | Join | Kill | MarkDead

text \<open>What the server meets: whether vLLM's configuration is created, the engine process starts and the port binds;
  \<open>sv_setup i\<close> is the i-th attempt to connect to the engine and \<open>sv_alive i\<close> whether its process runs after it;
  \<open>sv_gap\<close>, a SIGTERM between the connection and the \<open>try\<close>; \<open>sv_serve\<close>, whether serving ends without an exception;
  \<open>sv_crashed\<close>, whether the engine has ended by then; \<open>sv_raises\<close>, the steps of the \<open>finally\<close> that raise before they
  take effect, of themselves or because a further SIGTERM arrives; \<open>sv_exits\<close>, whether the engine exits within four
  seconds of SIGTERM.\<close>

record server_world =
  sv_config :: bool
  sv_ray :: bool
  sv_bind :: bool
  sv_disable_mp :: bool
  sv_unsupported :: bool
  sv_spawn :: bool
  sv_setup :: "nat \<Rightarrow> setup_result"
  sv_alive :: "nat \<Rightarrow> bool"
  sv_gap :: bool
  sv_inprocess :: bool
  sv_serve :: bool
  sv_crashed :: bool
  sv_raises :: "shutdown_step \<Rightarrow> bool"
  sv_exits :: bool

definition use_mp :: "server_world \<Rightarrow> bool" where
  "use_mp W \<longleftrightarrow> \<not> sv_disable_mp W \<and> \<not> sv_unsupported W"

partial_function (option) connect :: "server_world \<Rightarrow> nat \<Rightarrow> (serve_outcome option \<times> nat) option" where
  "connect W i =
     (case sv_setup W i of
        Connected \<Rightarrow> Some (None, i)
      | SetupError \<Rightarrow> Some (Some SetupRaised, i)
      | TimedOut \<Rightarrow> if \<not> sv_alive W i then Some (Some EngineStartFailed, i) else connect W (i + 1))"

text \<open>The \<open>finally\<close>: SIGTERM, the client's \<open>close\<close>, four seconds, SIGKILL, \<open>mark_process_dead\<close>. Whether it
  completes, and the engine it leaves.\<close>

definition shut_down :: "server_world \<Rightarrow> bool \<times> engine_state" where
  "shut_down W =
     (let ended = (\<lambda>st. if sv_crashed W then EngineExited else st) in
      if sv_raises W Terminate then (False, ended EngineAlive)
      else if sv_raises W CloseClient \<or> sv_raises W Join then (False, ended EngineTerminating)
      else if sv_crashed W \<or> sv_exits W then (\<not> sv_raises W MarkDead, EngineExited)
      else if sv_raises W Kill then (False, EngineTerminating)
      else (\<not> sv_raises W MarkDead, EngineKilled))"

definition run_server :: "server_world \<Rightarrow> (serve_outcome \<times> engine_state) option" where
  "run_server W =
     (if \<not> sv_config W then Some (ConfigRaised, NoEngine)
      else if sv_ray W then Some (RayRefused, NoEngine)
      else if \<not> sv_bind W then Some (PortTaken, NoEngine)
      else if use_mp W then
        (if \<not> sv_spawn W then Some (SetupRaised, NoEngine)
         else case connect W 0 of
           None \<Rightarrow> None
         | Some (Some out, i) \<Rightarrow> Some (out, if sv_alive W i then EngineAlive else EngineExited)
         | Some (None, i) \<Rightarrow>
             if sv_gap W then Some (SetupRaised, if sv_alive W i then EngineAlive else EngineExited)
             else let (completed, engine) = shut_down W
                  in Some (if sv_serve W \<and> completed then Served else ServeRaised, engine))
      else if \<not> sv_inprocess W then Some (EngineRaised, NoEngine)
      else Some (if sv_serve W then Served else ServeRaised, NoEngine))"

subsection \<open>Connecting\<close>

definition waits :: "server_world \<Rightarrow> nat \<Rightarrow> bool" where
  "waits W i \<longleftrightarrow> sv_setup W i = TimedOut \<and> sv_alive W i"

lemma connect_waits: "waits W i \<Longrightarrow> connect W i = connect W (i + 1)"
  by (subst connect.simps) (simp add: waits_def)

lemma connect_decides:
  "\<not> waits W i \<Longrightarrow> connect W i = Some (case sv_setup W i of Connected \<Rightarrow> None | SetupError \<Rightarrow> Some SetupRaised
     | TimedOut \<Rightarrow> Some EngineStartFailed, i)"
  by (subst connect.simps) (simp add: waits_def split: setup_result.splits)

lemma connect_some:
  assumes "connect W i = Some r"
  shows "\<not> waits W (snd r)"
proof (rule connect.raw_induct [of "\<lambda>W i r. \<not> waits W (snd r)", OF _ assms])
  fix cn :: "server_world \<Rightarrow> nat \<Rightarrow> (serve_outcome option \<times> nat) option" and W i r
  assume "\<And>W i r. cn W i = Some r \<Longrightarrow> \<not> waits W (snd r)"
    and "(case sv_setup W i of Connected \<Rightarrow> Some (None, i) | TimedOut \<Rightarrow> if \<not> sv_alive W i then Some (Some EngineStartFailed, i) else cn W (i + 1)
      | SetupError \<Rightarrow> Some (Some SetupRaised, i)) = Some r"
  then show "\<not> waits W (snd r)" by (auto simp: waits_def split: setup_result.splits if_splits)
qed

lemma connect_skip: "\<forall>j<n. waits W j \<Longrightarrow> connect W 0 = connect W n"
proof (induction n)
  case (Suc n)
  then show ?case using connect_waits [of W n] by simp
qed simp

text \<open>Connecting ends at the first attempt that does not wait, or not at all.\<close>

lemma connect_cases:
  obtains "\<forall>i. waits W i" "connect W 0 = None"
  | k where "\<not> waits W k" "\<forall>j<k. waits W j" "connect W 0 = connect W k"
proof (cases "\<forall>i. waits W i")
  case True
  then show thesis using that(1) connect_some [of W 0] by (cases "connect W 0") auto
next
  case False
  define k where "k = (LEAST i. \<not> waits W i)"
  have k: "\<not> waits W k" "\<forall>j<k. waits W j" using False LeastI_ex [of "\<lambda>i. \<not> waits W i"] not_less_Least by (auto simp: k_def)
  then show thesis using that(2) [of k] connect_skip [of k W] by blast
qed

text \<open>The server got as far as spawning its engine process.\<close>

definition spawns :: "server_world \<Rightarrow> bool" where
  "spawns W \<longleftrightarrow> sv_config W \<and> \<not> sv_ray W \<and> sv_bind W \<and> use_mp W \<and> sv_spawn W"

lemma run_server_spawned:
  assumes "spawns W" and "\<not> waits W k" and "\<forall>j<k. waits W j"
  shows "run_server W = Some
    (case sv_setup W k of
       Connected \<Rightarrow> if sv_gap W then (SetupRaised, if sv_alive W k then EngineAlive else EngineExited)
         else (if sv_serve W \<and> fst (shut_down W) then Served else ServeRaised, snd (shut_down W))
     | SetupError \<Rightarrow> (SetupRaised, if sv_alive W k then EngineAlive else EngineExited)
     | TimedOut \<Rightarrow> (EngineStartFailed, EngineExited))"
  using assms connect_decides [OF assms(2)] connect_skip [OF assms(3)]
  by (simp add: run_server_def spawns_def waits_def split: setup_result.splits prod.splits)

lemma run_server_None: "run_server W = None \<longleftrightarrow> spawns W \<and> (\<forall>i. waits W i)"
proof (rule connect_cases [of W])
  assume "\<forall>i. waits W i" "connect W 0 = None"
  then show ?thesis by (auto simp: run_server_def spawns_def)
next
  fix k assume k: "\<not> waits W k" "\<forall>j<k. waits W j"
  show ?thesis
  proof (cases "spawns W")
    case True
    then show ?thesis using run_server_spawned [OF True k] k(1) by auto
  next
    case False
    then show ?thesis by (auto simp: run_server_def spawns_def)
  qed
qed

text \<open>C33: The server takes its engine process down with it once serving has begun, unless the cleanup itself is
  interrupted. \<open>run_server\<close> does not return only if it spawns an engine that stays alive and never answers: every
  attempt to connect times out. Otherwise the first attempt that does not time out with a living engine decides. A
  time-out with a dead engine is reported as a failed start. An exception of that attempt, or a SIGTERM just after it
  connected, leaves a living engine running, because the process is not yet known to the \<open>finally\<close> that stops
  it. After a connection the \<open>finally\<close> runs however serving ends, and then the engine has exited or was killed
  exactly if it had ended before or no step up to the kill raises (the kill is reached only if the engine outlives SIGTERM by
  four seconds): if \<open>engine_client.close()\<close> raises, or a further SIGTERM arrives while the process is joined, an engine
  that ignores SIGTERM is left behind, and the server raises. A server that ends normally always leaves an ended
  engine. What Python does with children at its exit is not modelled.\<close>

theorem server_stops_its_engine:
  "(run_server W = None \<longleftrightarrow> spawns W \<and> (\<forall>i. sv_setup W i = TimedOut \<and> sv_alive W i)) \<and>
   (\<forall>k. spawns W \<and> (\<forall>j<k. sv_setup W j = TimedOut \<and> sv_alive W j) \<longrightarrow>
      (sv_setup W k = TimedOut \<and> \<not> sv_alive W k \<longrightarrow> run_server W = Some (EngineStartFailed, EngineExited)) \<and>
      (sv_setup W k = SetupError \<or> sv_setup W k = Connected \<and> sv_gap W \<longrightarrow>
         run_server W = Some (SetupRaised, if sv_alive W k then EngineAlive else EngineExited)) \<and>
      (sv_setup W k = Connected \<and> \<not> sv_gap W \<longrightarrow>
         (\<exists>out engine. run_server W = Some (out, engine) \<and> out \<in> {Served, ServeRaised} \<and>
            (engine \<in> {EngineExited, EngineKilled} \<longleftrightarrow> sv_crashed W \<or>
               \<not> sv_raises W Terminate \<and> \<not> sv_raises W CloseClient \<and> \<not> sv_raises W Join \<and> (sv_exits W \<or> \<not> sv_raises W Kill)) \<and>
            (engine = EngineKilled \<longrightarrow> \<not> sv_exits W) \<and>
            (engine = EngineAlive \<longleftrightarrow> \<not> sv_crashed W \<and> sv_raises W Terminate) \<and>
            (out = Served \<longleftrightarrow> sv_serve W \<and> \<not> sv_raises W MarkDead \<and> engine \<in> {EngineExited, EngineKilled} \<and>
               \<not> sv_raises W Terminate \<and> \<not> sv_raises W CloseClient \<and> \<not> sv_raises W Join)))) \<and>
   (\<forall>out engine. run_server W = Some (out, engine) \<and> \<not> spawns W \<longrightarrow> engine = NoEngine)"
proof (intro conjI allI impI)
  show "run_server W = None \<longleftrightarrow> spawns W \<and> (\<forall>i. sv_setup W i = TimedOut \<and> sv_alive W i)"
    by (simp add: run_server_None waits_def)
next
  fix k assume h: "spawns W \<and> (\<forall>j<k. sv_setup W j = TimedOut \<and> sv_alive W j)"
  then have pre: "spawns W" "\<forall>j<k. waits W j" by (auto simp: waits_def)
  note run = run_server_spawned [OF pre(1) _ pre(2)]
  show "run_server W = Some (EngineStartFailed, EngineExited)" if "sv_setup W k = TimedOut \<and> \<not> sv_alive W k"
    using run that by (simp add: waits_def)
  show "run_server W = Some (SetupRaised, if sv_alive W k then EngineAlive else EngineExited)"
    if "sv_setup W k = SetupError \<or> sv_setup W k = Connected \<and> sv_gap W"
    using run that by (auto simp: waits_def)
  assume c: "sv_setup W k = Connected \<and> \<not> sv_gap W"
  then have r: "run_server W = Some (if sv_serve W \<and> fst (shut_down W) then Served else ServeRaised, snd (shut_down W))"
    using run by (simp add: waits_def)
  show "\<exists>out engine. run_server W = Some (out, engine) \<and> out \<in> {Served, ServeRaised} \<and>
            (engine \<in> {EngineExited, EngineKilled} \<longleftrightarrow> sv_crashed W \<or>
               \<not> sv_raises W Terminate \<and> \<not> sv_raises W CloseClient \<and> \<not> sv_raises W Join \<and> (sv_exits W \<or> \<not> sv_raises W Kill)) \<and>
            (engine = EngineKilled \<longrightarrow> \<not> sv_exits W) \<and>
            (engine = EngineAlive \<longleftrightarrow> \<not> sv_crashed W \<and> sv_raises W Terminate) \<and>
            (out = Served \<longleftrightarrow> sv_serve W \<and> \<not> sv_raises W MarkDead \<and> engine \<in> {EngineExited, EngineKilled} \<and>
               \<not> sv_raises W Terminate \<and> \<not> sv_raises W CloseClient \<and> \<not> sv_raises W Join)"
    unfolding r by (cases "sv_raises W Terminate"; cases "sv_raises W CloseClient"; cases "sv_raises W Join"; cases "sv_crashed W";
        cases "sv_exits W"; cases "sv_raises W Kill"; simp add: shut_down_def)
next
  fix out engine assume "run_server W = Some (out, engine) \<and> \<not> spawns W"
  then show "engine = NoEngine" by (auto simp: run_server_def spawns_def split: if_splits)
qed

text \<open>An engine that answers at the third attempt and ignores SIGTERM; and the same one when a second SIGTERM
  arrives during the join.\<close>

definition demo_server :: "(shutdown_step \<Rightarrow> bool) \<Rightarrow> server_world" where
  "demo_server raises = \<lparr>sv_config = True, sv_ray = False, sv_bind = True, sv_disable_mp = False, sv_unsupported = False,
     sv_spawn = True, sv_setup = (\<lambda>i. if i < 2 then TimedOut else Connected), sv_alive = (\<lambda>i. True), sv_gap = False,
     sv_inprocess = True, sv_serve = True, sv_crashed = False, sv_raises = raises, sv_exits = False\<rparr>"

theorem server_stops_its_engine_witness:
  "(\<exists>out engine. run_server (demo_server (\<lambda>st. False)) = Some (out, engine) \<and> engine \<in> {EngineExited, EngineKilled}) \<and>
   (\<exists>out engine. run_server (demo_server (\<lambda>st. st = Join)) = Some (out, engine) \<and> engine \<notin> {EngineExited, EngineKilled})"
proof -
  have "spawns (demo_server r) \<and> (\<forall>j<2. sv_setup (demo_server r) j = TimedOut \<and> sv_alive (demo_server r) j)"
    "sv_setup (demo_server r) 2 = Connected \<and> \<not> sv_gap (demo_server r)" for r
    by (simp_all add: demo_server_def spawns_def use_mp_def)
  note main = server_stops_its_engine [THEN conjunct2, THEN conjunct1, rule_format, OF this(1), THEN conjunct2, THEN conjunct2, rule_format, OF this(2)]
  have fields: "sv_crashed (demo_server r) = False" "sv_raises (demo_server r) = r" "sv_exits (demo_server r) = False" for r
    by (simp_all add: demo_server_def)
  show ?thesis using main [of "\<lambda>st. False"] main [of "\<lambda>st. st = Join"] unfolding fields by blast
qed

subsection \<open>Flags and executors\<close>

definition plain_arg :: "string \<Rightarrow> bool" where
  "plain_arg a \<longleftrightarrow> a \<noteq> ''--tmax'' \<and> a \<noteq> ''--wgkp-threshold'' \<and> \<not> prefix ''--tmax='' a \<and> \<not> prefix ''--wgkp-threshold='' a"

lemma serve_args_plain: "\<forall>a\<in>set raw. plain_arg a \<Longrightarrow> serve_args raw env clean = (env, clean @ raw)"
proof (induction raw arbitrary: clean)
  case (Cons a raw)
  have "serve_args (a # raw) env clean = serve_args raw env (clean @ [a])"
  proof (cases raw)
    case Nil
    then show ?thesis using Cons.prems by (simp add: plain_arg_def del: prefix_code)
  next
    case (Cons b bs)
    then show ?thesis using Cons.prems by (simp add: plain_arg_def del: prefix_code)
  qed
  then show ?case using Cons by simp
qed simp

lemma executors_aligned:
  "runner_of (mp_executor e) = AlignmentAwareModelRunner \<longleftrightarrow> e \<notin> {GPUExecutorAsync} \<union> range OtherExecutor"
  "runner_of (async_executor e) = VllmRunner \<longleftrightarrow> e \<in> {GPUExecutor, MultiprocessingGPUExecutor} \<union> range OtherExecutor"
  by (cases e; auto simp: runner_of_def mp_executor_def async_executor_def)+

end
