(* ===== verification/Engine.thy ===== *)
theory Engine
  imports Serve
begin

text \<open>
  The engines the server constructs: \<open>AlignmentAwareLLMEngine\<close> and \<open>AlignmentAwareMQLLMEngine\<close> of
  \<^verbatim>\<open>integrations/aligned_mp_engine.py\<close> and the in-process engine of \<^verbatim>\<open>integrations/aligned_engine.py\<close>. vLLM's
  configuration, the executor it chooses, what its own constructors raise, the suffixes of its sockets and whether
  ZeroMQ binds an address are arguments.
\<close>

subsection \<open>Schedulers of the pipeline stages\<close>

text \<open>What vLLM's constructors leave in the engine; \<open>ec_callbacks\<close> are its \<open>async_callbacks\<close>.\<close>

record 'b engine_config =
  ec_stages :: nat
  ec_async_output :: bool
  ec_callbacks :: "'b list"
  ec_executor :: executor

definition stage_callback :: "'b engine_config \<Rightarrow> nat \<Rightarrow> py_error + 'b option" where
  "stage_callback ec v =
     (if ec_async_output ec then (if v < length (ec_callbacks ec) then Inr (Some (ec_callbacks ec ! v)) else Inl IndexError)
      else Inr None)"

text \<open>The list comprehension: \<open>t0 v\<close> is the clock when the scheduler of stage \<open>v\<close> is constructed.\<close>

fun rebuild_schedulers ::
  "environ \<Rightarrow> (string \<Rightarrow> profile option) \<Rightarrow> string \<Rightarrow> 'm mwc option \<Rightarrow> (nat \<Rightarrow> real) \<Rightarrow> 'b engine_config \<Rightarrow> nat list \<Rightarrow>
     py_error + ('b option \<times> 'm sched) list" where
  "rebuild_schedulers env read path mwc t0 ec [] = Inr []"
| "rebuild_schedulers env read path mwc t0 ec (v # vs) =
     (case stage_callback ec v of Inl e \<Rightarrow> Inl e | Inr cb \<Rightarrow>
      (case scheduler_init env read path mwc (t0 v) of Inl e \<Rightarrow> Inl e | Inr s \<Rightarrow>
      (case rebuild_schedulers env read path mwc t0 ec vs of Inl e \<Rightarrow> Inl e | Inr ss \<Rightarrow> Inr ((cb, s) # ss))))"

record ('b, 'm) llm_engine =
  en_scheduler :: "('b option \<times> 'm sched) list"
  en_executor :: executor
  en_cached_outputs :: bool
  en_log_stats :: bool
  en_socket_callback :: bool

datatype engine_error = VllmError string | EngineError py_error | BindError string

text \<open>\<open>raised\<close>: the exception of vLLM's \<open>super().__init__\<close>, if it raises one.\<close>

definition llm_engine_init ::
  "environ \<Rightarrow> (string \<Rightarrow> profile option) \<Rightarrow> string \<Rightarrow> 'm mwc option \<Rightarrow> (nat \<Rightarrow> real) \<Rightarrow> string option \<Rightarrow> 'b engine_config \<Rightarrow>
     executor \<Rightarrow> bool \<Rightarrow> bool \<Rightarrow> engine_error + ('b, 'm) llm_engine" where
  "llm_engine_init env read path mwc t0 raised ec ex cached stats =
     (case raised of
        Some e \<Rightarrow> Inl (VllmError e)
      | None \<Rightarrow> map_sum EngineError
          (\<lambda>ss. \<lparr>en_scheduler = ss, en_executor = ex, en_cached_outputs = cached, en_log_stats = stats, en_socket_callback = False\<rparr>)
          (rebuild_schedulers env read path mwc t0 ec [0..<ec_stages ec]))"

text \<open>The in-process engine: the executor of \<open>_get_executor_cls\<close>.\<close>

definition async_engine_init ::
  "environ \<Rightarrow> (string \<Rightarrow> profile option) \<Rightarrow> string \<Rightarrow> 'm mwc option \<Rightarrow> (nat \<Rightarrow> real) \<Rightarrow> (executor \<Rightarrow> string option) \<Rightarrow>
     'b engine_config \<Rightarrow> bool \<Rightarrow> engine_error + ('b, 'm) llm_engine" where
  "async_engine_init env read path mwc t0 raised ec stats =
     (let ex = async_executor (ec_executor ec) in llm_engine_init env read path mwc t0 (raised ex) ec ex False stats)"

subsection \<open>The engine process\<close>

record socket_suffixes =
  ipc_input :: string
  ipc_output :: string
  ipc_health :: string
  ipc_data :: string

record ('b, 'm) mq_engine =
  mq_llm :: "('b, 'm) llm_engine"
  mq_log_requests :: bool
  mq_async_sockets :: bool
  mq_input :: string
  mq_output :: string
  mq_health :: string
  mq_data :: string
  mq_errored :: "py_error option"
  mq_interval :: real
  mq_last_alive :: real
  mq_threshold :: real

text \<open>Whether ZeroMQ binds an address is \<open>binds\<close>; the first that it refuses raises. An ipc address that is bound
  already is not refused: ZeroMQ takes it over.\<close>

fun bind_all :: "(string \<Rightarrow> bool) \<Rightarrow> string list \<Rightarrow> engine_error option" where
  "bind_all binds [] = None"
| "bind_all binds (a # as) = (if \<not> binds a then Some (BindError a) else bind_all binds as)"

text \<open>\<open>timeout\<close> is \<open>VLLM_RPC_TIMEOUT\<close> in milliseconds.\<close>

definition mq_engine_init ::
  "socket_suffixes \<Rightarrow> real \<Rightarrow> real \<Rightarrow> (string \<Rightarrow> bool) \<Rightarrow> string \<Rightarrow> bool \<Rightarrow> bool \<Rightarrow> engine_error + ('b, 'm) llm_engine \<Rightarrow>
     engine_error + ('b, 'm) mq_engine" where
  "mq_engine_init suf timeout now binds ipc use_async logreq made =
     (case made of
        Inl e \<Rightarrow> Inl e
      | Inr en \<Rightarrow>
          (let en = (if use_async then en\<lparr>en_socket_callback := True\<rparr> else en);
               inp = ipc @ ipc_input suf; outp = ipc @ ipc_output suf; health = ipc @ ipc_health suf
           in case bind_all binds [inp, outp, health] of
                Some e \<Rightarrow> Inl e
              | None \<Rightarrow> Inr \<lparr>mq_llm = en, mq_log_requests = logreq, mq_async_sockets = use_async, mq_input = inp, mq_output = outp,
                  mq_health = health, mq_data = ipc @ ipc_data suf, mq_errored = None, mq_interval = timeout / 5000,
                  mq_last_alive = now, mq_threshold = timeout * 3 / 1000\<rparr>))"

record engine_args =
  disable_log_requests :: bool
  disable_log_stats :: bool

text \<open>\<open>created\<close> is the configuration \<open>create_engine_config\<close> makes, or the exception of it, of the plugins or of
  \<open>_get_executor_cls\<close>; \<open>raised\<close> is what vLLM's constructor raises with an executor class.\<close>

definition mq_from_engine_args ::
  "environ \<Rightarrow> (string \<Rightarrow> profile option) \<Rightarrow> string \<Rightarrow> 'm mwc option \<Rightarrow> (nat \<Rightarrow> real) \<Rightarrow> socket_suffixes \<Rightarrow> real \<Rightarrow> real \<Rightarrow>
     (string \<Rightarrow> bool) \<Rightarrow> string \<Rightarrow> (executor \<Rightarrow> string option) \<Rightarrow> string + 'b engine_config \<Rightarrow> engine_args \<Rightarrow>
     engine_error + ('b, 'm) mq_engine" where
  "mq_from_engine_args env read path mwc t0 suf timeout now binds ipc raised created ea =
     (case created of
        Inl e \<Rightarrow> Inl (VllmError e)
      | Inr ec \<Rightarrow>
          (let ex = mp_executor (ec_executor ec)
           in mq_engine_init suf timeout now binds ipc (ec_async_output ec) (\<not> disable_log_requests ea)
                (llm_engine_init env read path mwc t0 (raised ex) ec ex True (\<not> disable_log_stats ea))))"

text \<open>\<open>PROMETHEUS_MULTIPROC_DIR\<close> of the server process, set before the engine is spawned.\<close>

definition prometheus_env :: "string \<Rightarrow> environ \<Rightarrow> environ" where
  "prometheus_env dir env = dict_setdefault ''PROMETHEUS_MULTIPROC_DIR'' dir env"

subsection \<open>Every stage schedules with the aligned scheduler\<close>

lemma rebuild_schedulers_Inr:
  "rebuild_schedulers env read path mwc t0 ec vs = Inr ss \<Longrightarrow>
     list_all2 (\<lambda>v st. stage_callback ec v = Inr (fst st) \<and> scheduler_init env read path mwc (t0 v) = Inr (snd st)) vs ss"
  by (induction vs arbitrary: ss) (auto split: sum.splits)

lemma rebuilt_stage:
  assumes "rebuild_schedulers env read path mwc t0 ec [0..<n] = Inr ss"
  shows "length ss = n \<and> (\<forall>v<n. stage_callback ec v = Inr (fst (ss ! v)) \<and> scheduler_init env read path mwc (t0 v) = Inr (snd (ss ! v)))"
  using rebuild_schedulers_Inr [OF assms] by (auto simp: list_all2_conv_all_nth)

lemma bind_all_None: "bind_all binds as = None \<longleftrightarrow> list_all binds as"
  by (induction binds as rule: bind_all.induct) auto

lemma stage_callback_possible: "(\<exists>cb. stage_callback ec v = Inr cb) \<longleftrightarrow> (ec_async_output ec \<longrightarrow> v < length (ec_callbacks ec))"
  by (simp add: stage_callback_def)

lemma rebuild_possible:
  "(\<exists>ss. rebuild_schedulers env read path mwc t0 ec vs = Inr ss) \<longleftrightarrow>
     (\<forall>v\<in>set vs. (\<exists>cb. stage_callback ec v = Inr cb) \<and> (\<exists>s. scheduler_init env read path mwc (t0 v) = Inr s))"
proof (induction vs)
  case (Cons v vs)
  then show ?case
    by (cases "stage_callback ec v"; cases "scheduler_init env read path mwc (t0 v)";
        cases "rebuild_schedulers env read path mwc t0 ec vs") simp_all
qed simp

text \<open>C37: The engine process schedules every pipeline stage with the aligned scheduler, or is not constructed. Construction
  succeeds exactly when vLLM creates its configuration and its own constructor returns, the environment is one the
  scheduler accepts, vLLM has a callback for every stage (if output is processed asynchronously) and ZeroMQ binds
  the three socket addresses. Then there is one scheduler per stage, made from the process's environment and given its
  stage's callback; on one GPU and with multiprocess tensor parallelism every worker has the aligned model runner; outputs
  go through the socket callback exactly if they are processed asynchronously; no error is recorded; the sockets are
  at the path's addresses; and a loop that beats at its interval is far from being declared dead: the threshold is
  fifteen intervals.\<close>

theorem every_stage_is_aligned:
  "case mq_from_engine_args env read path mwc t0 suf timeout now binds ipc raised created ea of
     Inl e \<Rightarrow> \<not> (\<exists>ec. created = Inr ec \<and> raised (mp_executor (ec_executor ec)) = None \<and>
        (\<forall>v<ec_stages ec. (ec_async_output ec \<longrightarrow> v < length (ec_callbacks ec)) \<and> (\<exists>s. scheduler_init env read path mwc (t0 v) = Inr s)) \<and>
        binds (ipc @ ipc_input suf) \<and> binds (ipc @ ipc_output suf) \<and> binds (ipc @ ipc_health suf))
   | Inr eng \<Rightarrow> (\<exists>ec. created = Inr ec \<and> raised (mp_executor (ec_executor ec)) = None \<and>
        length (en_scheduler (mq_llm eng)) = ec_stages ec \<and>
        (\<forall>v<ec_stages ec. (ec_async_output ec \<longrightarrow> v < length (ec_callbacks ec)) \<and>
           fst (en_scheduler (mq_llm eng) ! v) = (if ec_async_output ec then Some (ec_callbacks ec ! v) else None) \<and>
           scheduler_init env read path mwc (t0 v) = Inr (snd (en_scheduler (mq_llm eng) ! v))) \<and>
        (ec_executor ec \<in> {GPUExecutor, MultiprocessingGPUExecutor} \<longrightarrow> runner_of (en_executor (mq_llm eng)) = AlignmentAwareModelRunner) \<and>
        en_socket_callback (mq_llm eng) = ec_async_output ec \<and> mq_errored eng = None \<and>
        mq_input eng = ipc @ ipc_input suf \<and> mq_output eng = ipc @ ipc_output suf \<and> mq_health eng = ipc @ ipc_health suf \<and>
        binds (mq_input eng) \<and> binds (mq_output eng) \<and> binds (mq_health eng) \<and>
        mq_threshold eng = 15 * mq_interval eng)"
proof (cases "\<exists>ec. created = Inr ec \<and> raised (mp_executor (ec_executor ec)) = None")
  case False
  then show ?thesis
    by (auto simp: mq_from_engine_args_def mq_engine_init_def llm_engine_init_def Let_def split: sum.splits option.splits)
next
  case True
  then obtain ec where ec: "created = Inr ec" "raised (mp_executor (ec_executor ec)) = None" by blast
  show ?thesis
  proof (cases "rebuild_schedulers env read path mwc t0 ec [0..<ec_stages ec]")
    case (Inl e)
    then have "\<not> (\<forall>v<ec_stages ec. (ec_async_output ec \<longrightarrow> v < length (ec_callbacks ec)) \<and> (\<exists>s. scheduler_init env read path mwc (t0 v) = Inr s))"
      using rebuild_possible [of env read path mwc t0 ec "[0..<ec_stages ec]"] by (auto simp: stage_callback_possible)
    then show ?thesis using Inl ec by (simp add: mq_from_engine_args_def mq_engine_init_def llm_engine_init_def Let_def)
  next
    case (Inr ss)
    note stages = rebuilt_stage [OF Inr]
    have cb: "fst (ss ! v) = (if ec_async_output ec then Some (ec_callbacks ec ! v) else None) \<and>
        (ec_async_output ec \<longrightarrow> v < length (ec_callbacks ec))" if "v < ec_stages ec" for v
    proof -
      have "stage_callback ec v = Inr (fst (ss ! v))" using stages that by blast
      then show ?thesis by (simp add: stage_callback_def split: if_splits)
    qed
    have mp: "ec_executor ec \<in> {GPUExecutor, MultiprocessingGPUExecutor} \<longrightarrow> runner_of (mp_executor (ec_executor ec)) = AlignmentAwareModelRunner"
      by (auto simp: runner_of_def mp_executor_def)
    show ?thesis
    proof (cases "bind_all binds [ipc @ ipc_input suf, ipc @ ipc_output suf, ipc @ ipc_health suf]")
      case None
      then have bound: "binds (ipc @ ipc_input suf)" "binds (ipc @ ipc_output suf)" "binds (ipc @ ipc_health suf)"
        unfolding bind_all_None by simp_all
      obtain eng where eng: "mq_from_engine_args env read path mwc t0 suf timeout now binds ipc raised created ea = Inr eng"
        "en_scheduler (mq_llm eng) = ss" "en_executor (mq_llm eng) = mp_executor (ec_executor ec)"
        "en_socket_callback (mq_llm eng) = ec_async_output ec" "mq_errored eng = None" "mq_input eng = ipc @ ipc_input suf"
        "mq_output eng = ipc @ ipc_output suf" "mq_health eng = ipc @ ipc_health suf" "mq_threshold eng = 15 * mq_interval eng"
        using Inr None ec by (simp add: mq_from_engine_args_def mq_engine_init_def llm_engine_init_def Let_def del: bind_all.simps)
      show ?thesis unfolding eng sum.case using stages cb mp bound ec by blast
    next
      case (Some e)
      then have "\<not> (binds (ipc @ ipc_input suf) \<and> binds (ipc @ ipc_output suf) \<and> binds (ipc @ ipc_health suf))"
        using bind_all_None [of binds "[ipc @ ipc_input suf, ipc @ ipc_output suf, ipc @ ipc_health suf]"] by simp
      then show ?thesis using Inr Some ec
        by (simp add: mq_from_engine_args_def mq_engine_init_def llm_engine_init_def Let_def del: bind_all.simps)
    qed
  qed
qed

text \<open>Two stages on two GPUs, with vLLM's suffixes.\<close>

definition demo_suffixes :: socket_suffixes where
  "demo_suffixes = \<lparr>ipc_input = ''_input_socket'', ipc_output = ''_output_socket'', ipc_health = ''_health_socket'', ipc_data = ''_data_socket''\<rparr>"

definition demo_stages :: "nat engine_config" where
  "demo_stages = \<lparr>ec_stages = 2, ec_async_output = True, ec_callbacks = [7, 8], ec_executor = MultiprocessingGPUExecutor\<rparr>"

lemma demo_scheduler_constructed: "\<exists>s. scheduler_init [] (\<lambda>p. None) ''profile'' (None :: unit mwc option) t0 = Inr s"
  by (simp add: scheduler_init_def Let_def init_wgkp_def estimator_init_def env_float_def env_int_def init_cache_def dict_get_def)

theorem every_stage_is_aligned_witness:
  "\<exists>eng. mq_from_engine_args [] (\<lambda>p. None) ''profile'' (None :: unit mwc option) real demo_suffixes 10000 0 (\<lambda>a. True) ''ipc:///tmp/x''
       (\<lambda>ex. None) (Inr demo_stages) \<lparr>disable_log_requests = True, disable_log_stats = False\<rparr> = Inr eng \<and>
     length (en_scheduler (mq_llm eng)) = 2 \<and> fst (en_scheduler (mq_llm eng) ! 1) = Some 8 \<and>
     runner_of (en_executor (mq_llm eng)) = AlignmentAwareModelRunner"
proof -
  let ?made = "mq_from_engine_args [] (\<lambda>p. None) ''profile'' (None :: unit mwc option) real demo_suffixes 10000 0 (\<lambda>a. True) ''ipc:///tmp/x''
     (\<lambda>ex. None) (Inr demo_stages) \<lparr>disable_log_requests = True, disable_log_stats = False\<rparr>"
  note aligned = every_stage_is_aligned [where env = "[]" and read = "\<lambda>p. None" and path = "''profile''" and mwc = "None :: unit mwc option"
      and ?t0.0 = real and suf = demo_suffixes and timeout = 10000 and now = 0 and binds = "\<lambda>a. True" and ipc = "''ipc:///tmp/x''"
      and raised = "\<lambda>ex. None" and created = "Inr demo_stages" and ea = "\<lparr>disable_log_requests = True, disable_log_stats = False\<rparr>"]
  have ok: "(\<forall>v<ec_stages demo_stages. (ec_async_output demo_stages \<longrightarrow> v < length (ec_callbacks demo_stages)) \<and>
      (\<exists>s. scheduler_init [] (\<lambda>p. None) ''profile'' (None :: unit mwc option) (real v) = Inr s))"
    using demo_scheduler_constructed by (auto simp: demo_stages_def)
  show ?thesis
  proof (cases ?made)
    case (Inl e)
    then show ?thesis using aligned ok by simp
  next
    case (Inr eng)
    have "(1 :: nat) < ec_stages demo_stages" "ec_executor demo_stages \<in> {GPUExecutor, MultiprocessingGPUExecutor}" "ec_stages demo_stages = 2"
      "(if ec_async_output demo_stages then Some (ec_callbacks demo_stages ! 1) else None) = Some 8" by (simp_all add: demo_stages_def)
    then show ?thesis using aligned unfolding Inr sum.case by (metis sum.inject(2))
  qed
qed

end
