(* ===== verification/Layouts.thy ===== *)
theory Layouts
  imports Metrics
begin

text \<open>
  The batch layouts of the mixing experiment E1: \<^verbatim>\<open>scripts/experiments/isolation_batch_conditions.py\<close> and
  \<^verbatim>\<open>benchmarks/micro/m1_sgmv_throughput.py\<close>, which hold the same builders, alignment measure and SGMV
  segments. The lemmas say how aligned each layout is and what its segments are; GPU timing is left out.
\<close>

subsection \<open>Layouts\<close>

definition build_condition_A :: "nat \<Rightarrow> int \<Rightarrow> int list" where
  "build_condition_A N K = replicate N 0"

definition build_condition_B :: "nat \<Rightarrow> int \<Rightarrow> int list" where
  "build_condition_B N K = (let half = N div 2 in replicate half 0 @ replicate (N - half) 1)"

text \<open>The loop of condition C never ends for a block size of 0 and a positive N.\<close>

partial_function (option) alternate :: "nat \<Rightarrow> nat \<Rightarrow> int list \<Rightarrow> int \<Rightarrow> int list option" where
  "alternate N block_size ids adapter =
     (if length ids < N
      then alternate N block_size (ids @ replicate (min block_size (N - length ids)) adapter) (1 - adapter)
      else Some (take N ids))"

definition build_condition_C :: "nat \<Rightarrow> int \<Rightarrow> nat \<Rightarrow> int list option" where
  "build_condition_C N K block_size = alternate N block_size [] 0"

definition build_condition_D :: "nat \<Rightarrow> int \<Rightarrow> py_error + int list" where
  "build_condition_D N K =
     (if K = 0 \<and> 0 < N then Inl ZeroDivisionError else Inr (map (\<lambda>i. int i mod K) [0..<N]))"

definition build_condition_S :: "nat \<Rightarrow> int \<Rightarrow> int list" where
  "build_condition_S N K = map (\<lambda>i. min (int i * K div int N) (K - 1)) [0..<N]"

text \<open>\<open>BUILDERS[condition](N, K)\<close> and the chain of comparisons of the other file; both use blocks of 16.\<close>

definition build_batch :: "string \<Rightarrow> nat \<Rightarrow> int \<Rightarrow> (py_error + int list) option" where
  "build_batch c N K =
     (if c = ''S'' then Some (Inr (build_condition_S N K))
      else if c = ''A'' then Some (Inr (build_condition_A N K))
      else if c = ''B'' then Some (Inr (build_condition_B N K))
      else if c = ''C'' then map_option Inr (build_condition_C N K 16)
      else if c = ''D'' then Some (build_condition_D N K)
      else Some (Inl KeyError))"

definition build_adapter_ids :: "string \<Rightarrow> nat \<Rightarrow> int \<Rightarrow> (py_error + int list) option" where
  "build_adapter_ids c N K =
     (if c = ''A'' then Some (Inr (replicate N 0))
      else if c = ''B'' then (let half = N div 2 in Some (Inr (replicate half 0 @ replicate (N - half) 1)))
      else if c = ''C'' then map_option Inr (alternate N 16 [] 0)
      else if c = ''D'' then
        Some (if K = 0 \<and> 0 < N then Inl ZeroDivisionError else Inr (map (\<lambda>i. int i mod K) [0..<N]))
      else if c = ''S'' then Some (Inr (map (\<lambda>i. min (int i * K div int N) (K - 1)) [0..<N]))
      else Some (Inl ValueError))"

text \<open>\<open>np.mean\<close> of the comparison of two arrays, beside the numpy calls of \<^verbatim>\<open>metrics/war.py\<close>.\<close>

record numpy_mean = numpy +
  np_mean_eq :: "int list \<Rightarrow> int list \<Rightarrow> real"

definition numpy_mean_ok :: "numpy_mean \<Rightarrow> bool" where
  "numpy_mean_ok np \<longleftrightarrow> numpy_ok (numpy.truncate np) \<and>
     (\<forall>xs ys. xs \<noteq> [] \<longrightarrow> length xs = length ys \<longrightarrow>
        np_mean_eq np xs ys = real (length (filter (\<lambda>(x, y). x = y) (zip xs ys))) / real (length xs))"

definition layout_war :: "numpy_mean \<Rightarrow> int list \<Rightarrow> nat \<Rightarrow> py_error + real" where
  "layout_war np adapter_ids warp_size =
     (case np_array_int32 np adapter_ids of
        Inl e \<Rightarrow> Inl e
      | Inr arr \<Rightarrow>
          (if warp_size = 0 then Inl ZeroDivisionError
           else let m = length arr div warp_size in
             if m = 0 then Inr 0
             else let warps = np_reshape np (take (m * warp_size) arr) m warp_size
               in Inr (np_mean_eq np (np_row_min np warps) (np_row_max np warps))))"

text \<open>The segments SGMV executes, and the number of adapter changes the scripts print.\<close>

definition segment_body :: "int list \<Rightarrow> nat \<Rightarrow> int list \<times> nat list \<Rightarrow> int list \<times> nat list" where
  "segment_body ids i = (\<lambda>(seg_adapters, s).
     if i = 0 \<or> ids ! i \<noteq> ids ! (i - 1) then (seg_adapters @ [ids ! i], if i \<noteq> 0 then s @ [i] else s)
     else (seg_adapters, s))"

definition build_sgmv_segments :: "int list \<Rightarrow> int list \<times> nat list" where
  "build_sgmv_segments ids =
     (let (seg_adapters, s) = fold (segment_body ids) [0..<length ids] ([], [0])
      in (seg_adapters, s @ [length ids]))"

definition n_flips :: "int list \<Rightarrow> nat" where
  "n_flips ids = length (filter (\<lambda>i. ids ! i \<noteq> ids ! (i - 1)) [1..<length ids])"

definition condition_war :: "(string, real) dict" where
  "condition_war = [(''A'', 1), (''B'', 1), (''C'', 1/2), (''D'', 0), (''S'', 1)]"

subsection \<open>The numpy version measures WAR\<close>

lemma layout_war_eq:
  assumes "numpy_mean_ok np" and "\<forall>x\<in>set ids. fits_int32 x" and "0 < w"
  shows "layout_war np ids w = compute_war ids w"
proof -
  let ?np = "numpy.truncate np"
  have ok: "numpy_ok ?np" using assms(1) by (simp add: numpy_mean_ok_def)
  have arr: "np_array_int32 np ids = Inr ids"
    using ok assms(2) by (simp add: numpy_ok_def numpy.defs)
  define m where "m = length ids div w"
  define rows where "rows = np_reshape np (take (m * w) ids) m w"
  have len: "length (take (m * w) ids) = m * w" by (simp add: m_def)
  then have rows: "rows = map (warp_slice (take (m * w) ids) w) [0..<m]"
    using ok unfolding numpy_ok_def rows_def by (simp add: numpy.defs)
  have "length (warp_slice (take (m * w) ids) w j) = w" if "j < m" for j
    using length_warp_slice [of j "take (m * w) ids" w] that assms(3) len by simp
  then have "[] \<notin> set rows" using assms(3) by (force simp: rows)
  then have "length (np_row_min np rows) = m" "length (np_row_max np rows) = m"
    using ok by (simp_all add: numpy_ok_def numpy.defs rows)
  then have "np_mean_eq np (np_row_min np rows) (np_row_max np rows) =
      real (np_count_eq np (np_row_min np rows) (np_row_max np rows)) / real m" if "0 < m"
    using assms(1) ok that unfolding numpy_mean_ok_def numpy_ok_def by (simp add: numpy.defs) force
  then have "layout_war np ids w = compute_war_from_ids ?np ids w"
    using assms(3) by (simp add: layout_war_def compute_war_from_ids_def arr m_def rows_def Let_def numpy.defs)
  also have "\<dots> = compute_war ids w" by (rule war_from_ids_agrees [OF ok assms(2,3)])
  finally show ?thesis .
qed

subsection \<open>Segments and adapter changes\<close>

abbreviation changes :: "int list \<Rightarrow> nat \<Rightarrow> bool" where
  "changes ids i \<equiv> ids ! i \<noteq> ids ! (i - 1)"

definition starts :: "int list \<Rightarrow> nat list" where
  "starts ids = filter (\<lambda>i. i = 0 \<or> changes ids i) [0..<length ids]"

lemma fold_segment_body:
  "fold (segment_body ids) [0..<n] ([], [0]) =
     (map ((!) ids) (filter (\<lambda>i. i = 0 \<or> changes ids i) [0..<n]), 0 # filter (changes ids) [1..<n])"
proof (induction n)
  case (Suc n)
  then show ?case by (cases n) (simp_all add: segment_body_def)
qed simp

lemma starts_Cons: "ids \<noteq> [] \<Longrightarrow> starts ids = 0 # filter (changes ids) [1..<length ids]"
proof -
  assume "ids \<noteq> []"
  then have "[0..<length ids] = 0 # [1..<length ids]" by (simp add: upt_conv_Cons)
  then have "starts ids = 0 # filter (\<lambda>i. i = 0 \<or> changes ids i) [1..<length ids]" by (simp add: starts_def)
  also have "filter (\<lambda>i. i = 0 \<or> changes ids i) [1..<length ids] = filter (changes ids) [1..<length ids]"
    by (intro filter_cong) auto
  finally show ?thesis .
qed

lemma build_sgmv_segments_eq:
  "build_sgmv_segments ids = (map ((!) ids) (starts ids), (if ids = [] then [0] else starts ids) @ [length ids])"
  using starts_Cons [of ids] by (simp add: build_sgmv_segments_def fold_segment_body) (simp add: starts_def)

lemma length_starts: "ids \<noteq> [] \<Longrightarrow> length (starts ids) = Suc (n_flips ids)"
  by (simp add: starts_Cons n_flips_def)

lemma sorted_starts: "sorted_wrt (<) (starts ids)" "set (starts ids) \<subseteq> {..<length ids}"
  by (auto simp: starts_def sorted_wrt_filter)

text \<open>Between two starts the adapter does not change.\<close>

lemma constant_between:
  assumes "a \<le> i" and "i < length ids" and "\<And>j. a < j \<Longrightarrow> j \<le> i \<Longrightarrow> \<not> changes ids j"
  shows "ids ! i = ids ! a"
  using assms
proof (induction i rule: dec_induct)
  case (step i)
  then have "ids ! Suc i = ids ! i" using step.prems(2) [of "Suc i"] step.hyps by simp
  then show ?case using step by simp
qed simp

lemma segment_tokens:
  assumes "k < length (starts ids)" and "starts ids ! k \<le> i" and "i < (starts ids @ [length ids]) ! Suc k"
  shows "i < length ids \<and> ids ! i = ids ! (starts ids ! k)"
proof -
  have "x < length ids" if "x \<in> set (starts ids)" for x using that sorted_starts(2) by auto
  then have le: "i < length ids" using assms nth_mem [of "Suc k" "starts ids"]
    by (cases "Suc k < length (starts ids)") (auto simp: nth_append intro: less_trans)
  have "\<not> changes ids j" if j: "starts ids ! k < j" "j \<le> i" for j
  proof
    assume "changes ids j"
    then have "j \<in> set (starts ids)" using j(2) le by (simp add: starts_def)
    then obtain l where l: "l < length (starts ids)" "starts ids ! l = j" by (auto simp: in_set_conv_nth)
    have "sorted (starts ids)" using sorted_starts(1) by (rule sorted_wrt_mono_rel [rotated]) simp
    then have "k < l" using l j(1) assms(1) by (metis leI le_less_trans less_irrefl sorted_nth_mono)
    then have "starts ids ! Suc k \<le> j" using l \<open>sorted (starts ids)\<close> sorted_nth_mono [of "starts ids" "Suc k" l] by simp
    then show False using j(2) assms(3) \<open>k < l\<close> l(1) by (simp add: nth_append)
  qed
  then show ?thesis using le assms(2) by (auto intro: constant_between)
qed

subsection \<open>Alignment against adapter changes\<close>

lemma nth_warp_slice: "j < length xs div w \<Longrightarrow> i < w \<Longrightarrow> warp_slice xs w j ! i = xs ! (j * w + i)"
  using length_warp_slice [of j xs w] by (simp add: warp_slice_def)

lemma warp_bound: "j < length xs div w \<Longrightarrow> j * w + w \<le> length xs"
  by (metis Suc_leI add.commute mult_Suc mult_le_mono1 order_trans times_div_less_eq_dividend mult.commute)

lemma card_1_iff_all: "a \<in> A \<Longrightarrow> card A = 1 \<longleftrightarrow> (\<forall>x\<in>A. x = a)"
  by (auto simp: card_1_singleton_iff)

lemma warp_aligned_iff:
  assumes "j < length xs div w" and "0 < w"
  shows "card (set (warp_slice xs w j)) = 1 \<longleftrightarrow> (\<forall>i<w. xs ! (j * w + i) = xs ! (j * w))"
proof -
  have len: "length (warp_slice xs w j) = w" using assms(1) by simp
  have nth: "warp_slice xs w j ! i = xs ! (j * w + i)" if "i < w" for i using nth_warp_slice [OF assms(1) that] .
  have "card (set (warp_slice xs w j)) = 1 \<longleftrightarrow> (\<forall>x\<in>set (warp_slice xs w j). x = warp_slice xs w j ! 0)"
    using card_1_iff_all [OF nth_mem [of 0 "warp_slice xs w j"]] assms(2) len by simp
  also have "\<dots> \<longleftrightarrow> (\<forall>i<w. xs ! (j * w + i) = xs ! (j * w))"
    using nth nth [of 0] len assms(2) by (auto simp: all_set_conv_all_nth)
  finally show ?thesis .
qed

lemma mixed_warp_has_change:
  assumes "j < length ids div w" and "0 < w" and "card (set (warp_slice ids w j)) \<noteq> 1"
  shows "\<exists>i. j * w < i \<and> i < j * w + w \<and> changes ids i"
proof (rule ccontr)
  assume none: "\<not> ?thesis"
  have "ids ! (j * w + i) = ids ! (j * w)" if "i < w" for i
    using none that warp_bound [OF assms(1)] by (intro constant_between) auto
  then show False using assms warp_aligned_iff by blast
qed

lemma mixed_warps_le_flips:
  assumes "0 < w"
  shows "length ids div w \<le> length (aligned_warps ids w) + n_flips ids"
proof -
  let ?m = "length ids div w"
  define M where "M = {j. j < ?m \<and> card (set (warp_slice ids w j)) \<noteq> 1}"
  have "\<forall>j\<in>M. \<exists>i. j * w < i \<and> i < j * w + w \<and> changes ids i"
    using mixed_warp_has_change assms by (auto simp: M_def)
  then obtain f where f: "\<forall>j\<in>M. j * w < f j \<and> f j < j * w + w \<and> changes ids (f j)" by metis
  have dv: "f j div w = j" if "j \<in> M" for j
    using f that by (intro div_nat_eqI) (auto simp: mult.commute)
  then have "inj_on f M" by (metis inj_onI)
  moreover have "f ` M \<subseteq> set (filter (changes ids) [1..<length ids])"
  proof
    fix i
    assume "i \<in> f ` M"
    then obtain j where j: "j \<in> M" "i = f j" by blast
    then have "j * w + w \<le> length ids" using warp_bound [of j ids w] by (simp add: M_def)
    then show "i \<in> set (filter (changes ids) [1..<length ids])" using f j by force
  qed
  ultimately have "card M \<le> card (set (filter (changes ids) [1..<length ids]))" by (intro card_inj_on_le) auto
  also have "\<dots> \<le> n_flips ids" unfolding n_flips_def by (rule card_length)
  finally have "card M \<le> n_flips ids" .
  moreover have "length (aligned_warps ids w) = card (set (aligned_warps ids w))"
    by (rule distinct_card [symmetric]) (simp add: aligned_warps_def)
  moreover have "set (aligned_warps ids w) = {..<?m} - M" by (auto simp: aligned_warps_def M_def)
  moreover have "M \<subseteq> {..<?m}" by (auto simp: M_def)
  ultimately show ?thesis by (simp add: card_Diff_subset finite_subset)
qed

lemma war_lower_bound:
  assumes "w \<le> length ids" and "0 < w"
  shows "\<exists>r. compute_war ids w = Inr r \<and> 1 - real (n_flips ids) / real (length ids div w) \<le> r"
proof -
  let ?m = "length ids div w"
  have m: "0 < ?m" using assms by (simp add: div_greater_zero_iff)
  have "real ?m - real (n_flips ids) \<le> real (length (aligned_warps ids w))"
    using mixed_warps_le_flips [OF assms(2), of ids] by linarith
  then have "(real ?m - real (n_flips ids)) / real ?m \<le> real (length (aligned_warps ids w)) / real ?m"
    by (rule divide_right_mono) simp
  then show ?thesis using m assms(2) by (simp add: compute_war_eq diff_divide_distrib)
qed

lemma war_all_mixed:
  assumes "w \<le> length ids" and "0 < w" and "\<And>j. j < length ids div w \<Longrightarrow> \<exists>i<w. ids ! (j * w + i) \<noteq> ids ! (j * w)"
  shows "compute_war ids w = Inr 0"
proof -
  have "aligned_warps ids w = []"
    using assms(3) warp_aligned_iff [OF _ assms(2), of _ ids] by (force simp: aligned_warps_def filter_empty_conv)
  then show ?thesis using assms(1,2) by (simp add: compute_war_eq)
qed

lemma war_all_aligned:
  assumes "w \<le> length ids" and "0 < w" and "\<And>i j. j < length ids div w \<Longrightarrow> i < w \<Longrightarrow> ids ! (j * w + i) = ids ! (j * w)"
  shows "compute_war ids w = Inr 1"
proof -
  have "aligned_warps ids w = [0..<length ids div w]"
    using assms(3) warp_aligned_iff [OF _ assms(2), of _ ids] by (force simp: aligned_warps_def filter_id_conv)
  then show ?thesis using assms(1,2) div_greater_zero_iff [of "length ids" w] by (simp add: compute_war_eq)
qed

subsection \<open>The layouts\<close>

text \<open>A sequence that starts at 0 and climbs by at most one changes as often as it climbs.\<close>

lemma climbing_changes:
  fixes g :: "nat \<Rightarrow> nat"
  assumes "g 0 = 0" and "\<And>i. g i \<le> g (Suc i) \<and> g (Suc i) \<le> Suc (g i)"
  shows "length (filter (\<lambda>i. g i \<noteq> g (i - 1)) [1..<Suc n]) = g n"
proof (induction n)
  case (Suc n)
  then show ?case using assms(2) [of n] by auto
qed (simp add: assms(1))

lemma n_flips_map:
  assumes "\<And>i. 0 < i \<Longrightarrow> i < N \<Longrightarrow> (f i \<noteq> f (i - 1)) = (g i \<noteq> g (i - 1))"
  shows "n_flips (map f [0..<N]) = length (filter (\<lambda>i. g i \<noteq> g (i - 1)) [1..<N])"
  unfolding n_flips_def using assms by (intro arg_cong [where f = length] filter_cong) auto

lemma block_steps:
  fixes c d :: nat
  assumes "c \<le> d" and "0 < d"
  shows "i * c div d \<le> Suc i * c div d \<and> Suc i * c div d \<le> Suc (i * c div d)"
proof -
  have "Suc i * c div d \<le> (i * c + d) div d" using assms(1) by (intro div_le_mono) simp
  then show ?thesis using assms(2) by (auto intro: div_le_mono)
qed

text \<open>Condition S: token \<open>i\<close> belongs to adapter \<open>i * K div N\<close>; the \<open>min\<close> never matters.\<close>

lemma condition_S_eq:
  assumes "0 < k" and "0 < N"
  shows "build_condition_S N (int k) = map (\<lambda>i. int (i * k div N)) [0..<N]"
proof -
  have "i * k div N < k" if "i < N" for i
    using that assms(1) by (simp add: less_mult_imp_div_less mult.commute [of i])
  then have "int i * int k div int N \<le> int k - 1" if "i < N" for i
    using that by (fastforce simp flip: of_nat_mult of_nat_div)
  then show ?thesis by (auto simp: build_condition_S_def min_def zdiv_int)
qed

lemma condition_S_flips:
  assumes "0 < k" and "k \<le> N"
  shows "n_flips (build_condition_S N (int k)) = k - 1"
proof -
  have N: "0 < N" using assms by simp
  have "n_flips (build_condition_S N (int k)) = length (filter (\<lambda>i. i * k div N \<noteq> (i - 1) * k div N) [1..<Suc (N - 1)])"
    unfolding condition_S_eq [OF assms(1) N] using N
    by (subst n_flips_map [where g = "\<lambda>i. i * k div N"]) simp_all
  also have "\<dots> = (N - 1) * k div N"
    using block_steps [OF assms(2) N] by (intro climbing_changes [where g = "\<lambda>i. i * k div N"]) simp_all
  also have "\<dots> = k - 1"
  proof (rule div_nat_eqI)
    have "N * k - N \<le> N * k - k" using assms(2) by (rule diff_le_mono2)
    then show "N * (k - 1) \<le> (N - 1) * k" by (simp add: algebra_simps)
    show "(N - 1) * k < N * Suc (k - 1)" using assms N by (simp add: algebra_simps)
  qed
  finally show ?thesis .
qed

text \<open>Condition C: blocks of \<open>b\<close> tokens.\<close>

definition striped :: "nat \<Rightarrow> nat \<Rightarrow> int list" where
  "striped b n = map (\<lambda>i. int (i div b mod 2)) [0..<n]"

lemma striped_block:
  assumes "0 < b" and "m \<le> b"
  shows "striped b (b * k) @ replicate m (int (k mod 2)) = striped b (b * k + m)"
proof (rule nth_equalityI)
  fix i
  assume "i < length (striped b (b * k) @ replicate m (int (k mod 2)))"
  then have i: "i < b * k + m" by (simp add: striped_def)
  have "i div b = k" if "\<not> i < b * k" using that i assms by (intro div_nat_eqI) (auto simp: mult.commute)
  then show "(striped b (b * k) @ replicate m (int (k mod 2))) ! i = striped b (b * k + m) ! i"
    using i by (simp add: striped_def nth_append)
qed (simp add: striped_def)

lemma take_striped: "take n (striped b m) = striped b (min n m)"
  by (simp add: striped_def take_map min_def)

lemma length_striped [simp]: "length (striped b n) = n"
  by (simp add: striped_def)

lemma alternate_striped:
  assumes "0 < b"
  shows "alternate N b (striped b (b * k)) (int (k mod 2)) = Some (striped b N)"
proof (induction "N - b * k" arbitrary: k rule: less_induct)
  case less
  have adapter: "1 - int (k mod 2) = int (Suc k mod 2)" by (simp add: mod_Suc)
  show ?case
  proof (cases "b * k < N")
    case True
    define m where "m = min b (N - b * k)"
    have step: "alternate N b (striped b (b * k)) (int (k mod 2)) =
        alternate N b (striped b (b * k + m)) (int (Suc k mod 2))"
      using True striped_block [OF assms, of m k] adapter by (subst alternate.simps) (simp add: m_def)
    show ?thesis
    proof (cases "b \<le> N - b * k")
      case True
      then have "b * k + m = b * Suc k" by (simp add: m_def)
      moreover have "N - b * Suc k < N - b * k" using \<open>b * k < N\<close> assms by simp
      ultimately show ?thesis using less [of "Suc k"] step by (simp add: add.commute)
    next
      case False
      then have "b * k + m = N" using \<open>b * k < N\<close> by (simp add: m_def)
      then show ?thesis using step by (subst (asm) (2) alternate.simps) (simp add: take_striped)
    qed
  next
    case False
    then show ?thesis by (subst alternate.simps) (simp add: take_striped)
  qed
qed

lemma condition_C_eq: "0 < b \<Longrightarrow> build_condition_C N K b = Some (striped b N)"
  using alternate_striped [of b N 0] by (simp add: build_condition_C_def striped_def)

lemma striped_flips:
  assumes "0 < b"
  shows "n_flips (striped b N) = (N - 1) div b"
proof (cases N)
  case 0
  then show ?thesis by (simp add: n_flips_def)
next
  case (Suc n)
  have step: "i div b \<le> Suc i div b \<and> Suc i div b \<le> Suc (i div b)" for i
    using block_steps [of 1 b i] assms by simp
  have "(int (i div b mod 2) \<noteq> int ((i - 1) div b mod 2)) = (i div b \<noteq> (i - 1) div b)" if "0 < i" for i
    using step [of "i - 1"] that by (auto simp: le_Suc_eq mod_Suc split: if_splits)
  then have "n_flips (striped b N) = length (filter (\<lambda>i. i div b \<noteq> (i - 1) div b) [1..<Suc n])"
    unfolding striped_def Suc by (intro n_flips_map) simp
  also have "\<dots> = n div b" using step by (intro climbing_changes [where g = "\<lambda>i. i div b"]) simp_all
  finally show ?thesis using Suc by simp
qed

lemma same_builders:
  "build_adapter_ids c N K = (if c \<in> {''A'', ''B'', ''C'', ''D'', ''S''} then build_batch c N K else Some (Inl ValueError))"
  by (simp add: build_adapter_ids_def build_batch_def build_condition_A_def build_condition_B_def
      build_condition_C_def build_condition_D_def build_condition_S_def Let_def)

lemma war_A: "32 \<le> N \<Longrightarrow> compute_war (build_condition_A N K) 32 = Inr 1"
  using warp_bound [of _ "build_condition_A N K" 32] by (intro war_all_aligned) (fastforce simp: build_condition_A_def)+

lemma war_B:
  assumes "32 \<le> N"
  shows "\<exists>r. compute_war (build_condition_B N K) 32 = Inr r \<and> 1 - 1 / real (N div 32) \<le> r"
proof -
  have "n_flips (build_condition_B N K) = length (filter (\<lambda>i. i = N div 2) [1..<N])"
    unfolding n_flips_def using assms
    by (intro arg_cong [where f = length] filter_cong) (auto simp: build_condition_B_def Let_def nth_append)
  also have "\<dots> = card (set (filter (\<lambda>i. i = N div 2) [1..<N]))" by (rule distinct_card [symmetric]) simp
  also have "\<dots> \<le> card {N div 2}" by (rule card_mono) auto
  finally have "1 - 1 / real (N div 32) \<le> 1 - real (n_flips (build_condition_B N K)) / real (N div 32)"
    by (simp add: divide_right_mono)
  moreover have "length (build_condition_B N K) = N" by (simp add: build_condition_B_def Let_def)
  ultimately show ?thesis using war_lower_bound [of 32 "build_condition_B N K"] assms by (auto intro: order_trans)
qed

lemma war_C: "32 \<le> N \<Longrightarrow> compute_war (striped 16 N) 32 = Inr 0"
proof (intro war_all_mixed)
  fix j
  assume j: "j < length (striped 16 N) div 32"
  have "(j * 32 + 16) div 16 mod 2 = 1" "j * 32 div 16 mod 2 = 0" by presburger+
  then have "striped 16 N ! (j * 32 + 16) \<noteq> striped 16 N ! (j * 32)"
    using warp_bound [OF j] by (simp add: striped_def)
  then show "\<exists>i<32. striped 16 N ! (j * 32 + i) \<noteq> striped 16 N ! (j * 32)" by (intro exI [of _ 16]) simp
qed simp_all

lemma mod_changes: "2 \<le> k \<Longrightarrow> Suc i mod k \<noteq> i mod k" for i k :: nat
  by (simp add: mod_Suc)

lemma condition_D_eq: "0 < k \<Longrightarrow> build_condition_D N (int k) = Inr (map (\<lambda>i. int (i mod k)) [0..<N])"
  by (simp add: build_condition_D_def zmod_int)

lemma war_D:
  assumes "32 \<le> N" and "2 \<le> k"
  shows "compute_war (map (\<lambda>i. int (i mod k)) [0..<N]) 32 = Inr 0"
proof (intro war_all_mixed)
  let ?d = "map (\<lambda>i. int (i mod k)) [0..<N]"
  fix j
  assume j: "j < length ?d div 32"
  have "?d ! (j * 32 + 1) \<noteq> ?d ! (j * 32)"
    using warp_bound [OF j] mod_changes [OF assms(2), of "j * 32"] by simp
  then show "\<exists>i<32. ?d ! (j * 32 + i) \<noteq> ?d ! (j * 32)" by (intro exI [of _ 1]) simp
qed (use assms in simp_all)

lemma flips_D:
  assumes "2 \<le> k"
  shows "n_flips (map (\<lambda>i. int (i mod k)) [0..<N]) = N - 1"
proof -
  have "i mod k \<noteq> (i - 1) mod k" if "0 < i" for i using mod_changes [OF assms, of "i - 1"] that by simp
  then have "filter (changes (map (\<lambda>i. int (i mod k)) [0..<N])) [1..<N] = [1..<N]" by (auto simp: filter_id_conv)
  then show ?thesis by (simp add: n_flips_def)
qed

lemma war_S:
  assumes "32 \<le> N" and "0 < k" and "k \<le> N"
  shows "\<exists>r. compute_war (build_condition_S N (int k)) 32 = Inr r \<and> 1 - real (k - 1) / real (N div 32) \<le> r \<and>
    (32 * k dvd N \<longrightarrow> r = 1)"
proof -
  have eq: "build_condition_S N (int k) = map (\<lambda>i. int (i * k div N)) [0..<N]"
    using condition_S_eq assms by simp
  have full: "compute_war (build_condition_S N (int k)) 32 = Inr 1" if d: "32 * k dvd N"
  proof -
    obtain c where c: "N = 32 * k * c" using d by (elim dvdE)
    have "i * k div N = i div 32 div c" for i
      using assms(2) by (simp add: c div_mult2_eq [symmetric] mult.assoc mult.left_commute [of k] mult.commute [of i])
    moreover have "(j * 32 + i) div 32 = j" if "i < 32" for i j :: nat using that by simp
    ultimately show ?thesis using warp_bound [of _ "build_condition_S N (int k)" 32] assms(1)
      by (intro war_all_aligned) (fastforce simp: eq)+
  qed
  obtain r where "compute_war (build_condition_S N (int k)) 32 = Inr r" "1 - real (k - 1) / real (N div 32) \<le> r"
    using war_lower_bound [of 32 "build_condition_S N (int k)"] condition_S_flips [OF assms(2,3)] assms(1)
    by (auto simp: eq)
  then show ?thesis using full by auto
qed

subsection \<open>Properties\<close>

text \<open>SGMV runs one segment per maximal stretch of an adapter. For every non-empty layout the boundaries
  rise from 0 to the number of tokens, there is one segment more than there are changes of adapter,
  neighbouring segments are of different adapters, and every token between two boundaries is of the
  adapter of that segment.\<close>

theorem sgmv_segments_partition:
  assumes "ids \<noteq> []" and "build_sgmv_segments ids = (seg, s)"
  shows "length seg = Suc (n_flips ids) \<and> length s = Suc (length seg) \<and> s ! 0 = 0 \<and> last s = length ids \<and>
    sorted_wrt (<) s \<and> (\<forall>k. Suc k < length seg \<longrightarrow> seg ! k \<noteq> seg ! Suc k) \<and>
    (\<forall>k<length seg. \<forall>i. s ! k \<le> i \<longrightarrow> i < s ! Suc k \<longrightarrow> ids ! i = seg ! k)"
proof -
  have seg: "seg = map ((!) ids) (starts ids)" and s: "s = starts ids @ [length ids]"
    using assms by (simp_all add: build_sgmv_segments_eq)
  have "seg ! k \<noteq> seg ! Suc k" if k: "Suc k < length seg" for k
  proof -
    let ?i = "starts ids ! Suc k"
    have lt: "starts ids ! k < ?i" using sorted_starts(1) k by (simp add: seg sorted_wrt_nth_less)
    have "?i \<in> set (starts ids)" using k by (simp add: seg)
    then have "changes ids ?i" using lt by (auto simp: starts_def)
    moreover have "ids ! (?i - 1) = ids ! (starts ids ! k)"
      using segment_tokens [of k ids "?i - 1"] k lt by (simp add: seg nth_append)
    ultimately show ?thesis using k by (simp add: seg)
  qed
  moreover have "sorted_wrt (<) s" using sorted_starts by (auto simp: s sorted_wrt_append)
  moreover have "ids ! i = seg ! k" if "k < length seg" "s ! k \<le> i" "i < s ! Suc k" for k i
    using segment_tokens [of k ids i] that by (simp add: seg s nth_append_left)
  moreover have "s ! 0 = 0" using assms(1) by (simp add: s starts_Cons)
  ultimately show ?thesis using assms(1) by (simp add: length_starts) (simp add: seg s length_starts)
qed

theorem sgmv_segments_partition_witness:
  "build_sgmv_segments [0, 0, 1, 0] = ([0, 1, 0], [0, 2, 3, 4]) \<and> n_flips [0, 0, 1, 0] = 2"
proof -
  have b: "build_sgmv_segments [0, 0, 1, 0] = ([0, 1, 0], [0, 2, 3, 4])" by code_simp
  then show ?thesis using sgmv_segments_partition [OF _ b] by simp
qed

text \<open>How aligned the layouts of E1 are, at the warp size of 32. With at least 32 tokens and at least one adapter: A is
  fully aligned; B loses at most one warp and S at most one per adapter after the first, and none when 32 K
  divides N; C, documented with 0.5, and D with two adapters or more have no aligned warp at all. S has one
  segment per adapter, C one per 16 tokens, D one per token.\<close>

theorem e1_layout_alignment:
  assumes "numpy_mean_ok np" and "32 \<le> N" and "0 < k" and "k \<le> N" and "k \<le> 2 ^ 31"
  shows "\<exists>a b c d s. map (\<lambda>x. build_batch x N (int k)) [''A'', ''B'', ''C'', ''D'', ''S''] = map (Some \<circ> Inr) [a, b, c, d, s] \<and>
    layout_war np a 32 = Inr 1 \<and>
    (\<exists>r. layout_war np b 32 = Inr r \<and> 1 - 1 / real (N div 32) \<le> r) \<and>
    layout_war np c 32 = Inr 0 \<and> map_of condition_war ''C'' = Some (1/2) \<and>
    (2 \<le> k \<longrightarrow> layout_war np d 32 = Inr 0) \<and>
    (\<exists>r. layout_war np s 32 = Inr r \<and> 1 - real (k - 1) / real (N div 32) \<le> r \<and> (32 * k dvd N \<longrightarrow> r = 1)) \<and>
    length (fst (build_sgmv_segments s)) = k \<and> length (fst (build_sgmv_segments c)) = Suc ((N - 1) div 16) \<and>
    (2 \<le> k \<longrightarrow> length (fst (build_sgmv_segments d)) = N)"
proof -
  let ?b = "build_condition_B N (int k)" and ?s = "build_condition_S N (int k)"
  let ?d = "map (\<lambda>i. int (i mod k)) [0..<N]"
  have int32: "layout_war np ids 32 = compute_war ids 32" if "\<forall>x\<in>set ids. 0 \<le> x \<and> x < max 2 (int k)" for ids
    using that assms(5) by (intro layout_war_eq [OF assms(1)]) (auto simp: fits_int32_def max_def split: if_splits)
  have builders: "map (\<lambda>x. build_batch x N (int k)) [''A'', ''B'', ''C'', ''D'', ''S''] =
      map (Some \<circ> Inr) [build_condition_A N (int k), ?b, striped 16 N, ?d, ?s]"
    using assms(3) by (simp add: build_batch_def condition_C_eq condition_D_eq)
  have a: "layout_war np (build_condition_A N (int k)) 32 = Inr 1"
    using war_A [OF assms(2)] by (subst int32) (auto simp: build_condition_A_def)
  have b: "\<exists>r. layout_war np ?b 32 = Inr r \<and> 1 - 1 / real (N div 32) \<le> r"
    using war_B [OF assms(2)] by (subst int32) (auto simp: build_condition_B_def Let_def)
  have c: "layout_war np (striped 16 N) 32 = Inr 0" "length (fst (build_sgmv_segments (striped 16 N))) = Suc ((N - 1) div 16)"
    using war_C [OF assms(2)] striped_flips [of 16 N] assms(2) length_starts [of "striped 16 N"]
    by (subst int32, auto simp: striped_def build_sgmv_segments_eq)
  have mod: "int (x mod k) < max 2 (int k)" for x using assms(3) by (simp add: less_max_iff_disj)
  have d: "layout_war np ?d 32 = Inr 0" "length (fst (build_sgmv_segments ?d)) = N" if "2 \<le> k"
    using war_D [OF assms(2) that] flips_D [OF that, of N] assms(2) length_starts [of ?d] mod
    by (subst int32, auto simp: build_sgmv_segments_eq)
  have bound: "i * k div N < k" if "i < N" for i
    using that assms(3) by (simp add: less_mult_imp_div_less mult.commute [of i])
  have s: "layout_war np ?s 32 = compute_war ?s 32" "length (fst (build_sgmv_segments ?s)) = k"
    using condition_S_flips [OF assms(3,4)] condition_S_eq [OF assms(3)] assms(2,3) length_starts [of ?s] bound
    by (subst int32, auto simp: build_sgmv_segments_eq less_max_iff_disj)
  show ?thesis
    by (rule exI [of _ "build_condition_A N (int k)"], rule exI [of _ ?b], rule exI [of _ "striped 16 N"], rule exI [of _ ?d],
        rule exI [of _ ?s], intro conjI builders a b c impI d s(2))
      (use war_S [OF assms(2-4)] s(1) in \<open>simp_all add: condition_war_def\<close>)
qed

definition numpy_mean_ref :: numpy_mean where
  "numpy_mean_ref = numpy.extend numpy_ref \<lparr>np_mean_eq = (\<lambda>xs ys.
     real (length (filter (\<lambda>(x, y). x = y) (zip xs ys))) / real (length xs))\<rparr>"

lemma numpy_mean_ref_ok: "numpy_mean_ok numpy_mean_ref"
proof -
  have "numpy.truncate numpy_mean_ref = numpy_ref" by (simp add: numpy_mean_ref_def numpy.defs)
  then show ?thesis using numpy_ref_ok by (simp add: numpy_mean_ok_def) (simp add: numpy_mean_ref_def numpy.defs)
qed

theorem e1_layout_alignment_witness:
  "layout_war numpy_mean_ref (striped 16 64) 32 = Inr 0 \<and> layout_war numpy_mean_ref (build_condition_S 64 2) 32 = Inr 1"
proof -
  have "build_batch ''C'' 64 2 = Some (Inr (striped 16 64))" "build_batch ''S'' 64 2 = Some (Inr (build_condition_S 64 2))"
    using condition_C_eq [of 16 64 2] by (simp_all add: build_batch_def)
  then show ?thesis using e1_layout_alignment [OF numpy_mean_ref_ok, of 64 2] by auto
qed

end
