(* ===== verification/Scale.thy ===== *)
theory Scale
  imports Sweep Report
begin

text \<open>
  \<^verbatim>\<open>benchmarks/micro/m1_sgmv_throughput_scale.py\<close>: the sweep of E1 over batch sizes, adapters and layouts, with the GPU
  clock locks it shares with \<^verbatim>\<open>m1_sgmv_throughput.py\<close>. What \<open>nvidia-smi\<close> and the run of a point answer are
  arguments. \<open>None\<close> stands for \<open>nan\<close>.
\<close>

subsection \<open>Clocks\<close>

definition only_digits :: "string \<Rightarrow> bool" where
  "only_digits s \<longleftrightarrow> s \<noteq> [] \<and> list_all (\<lambda>c. digit_value c \<noteq> None) s"

fun int_list :: "string list \<Rightarrow> py_error + int list" where
  "int_list [] = Inr []"
| "int_list (x # xs) =
     (case py_int x of None \<Rightarrow> Inl ValueError
      | Some i \<Rightarrow> (case int_list xs of Inl e \<Rightarrow> Inl e | Inr is \<Rightarrow> Inr (i # is)))"

text \<open>The test lets \<open>--3\<close> through, which \<open>int\<close> refuses. \<open>cvd\<close> is \<open>CUDA_VISIBLE_DEVICES\<close>.\<close>

definition gpu_ids_from_env :: "string \<Rightarrow> int \<Rightarrow> py_error + int list" where
  "gpu_ids_from_env cvd tensor_par =
     (if cvd \<noteq> [] then
        map_sum id (take (if tensor_par > 1 then nat tensor_par else 1))
          (int_list (filter (\<lambda>x. only_digits (dropWhile (\<lambda>c. c = CHR ''-'') (py_strip x))) (split_char (CHR '','') cvd [])))
      else Inr [0..tensor_par - 1])"

definition max_clock :: "nat \<times> string \<Rightarrow> int" where
  "max_clock answer = (case answer of (code, out) \<Rightarrow> if code = 0 then (case py_int out of Some f \<Rightarrow> f | None \<Rightarrow> 1800) else 1800)"

text \<open>The clocks of the GPUs, \<open>None\<close> when the driver manages them; \<open>locks g\<close> tells whether locking GPU \<open>g\<close> succeeds.\<close>

type_synonym clocks = "int \<Rightarrow> int option"

fun lock_clocks :: "(int \<Rightarrow> bool) \<Rightarrow> int list \<Rightarrow> int \<Rightarrow> clocks \<Rightarrow> clocks" where
  "lock_clocks locks [] freq ck = ck"
| "lock_clocks locks (g # gs) freq ck = lock_clocks locks gs freq (if locks g then ck(g := Some freq) else ck)"

fun unlock_clocks :: "int list \<Rightarrow> clocks \<Rightarrow> clocks" where
  "unlock_clocks [] ck = ck"
| "unlock_clocks (g # gs) ck = unlock_clocks gs (ck(g := None))"

text \<open>\<open>args.clock_freq or _query_max_clock(gpu_ids[0])\<close>.\<close>

definition clock_freq :: "int option \<Rightarrow> (int \<Rightarrow> nat \<times> string) \<Rightarrow> int list \<Rightarrow> py_error + int" where
  "clock_freq arg query ids =
     (case arg of Some f \<Rightarrow> if f \<noteq> 0 then Inr f else (if ids = [] then Inl IndexError else Inr (max_clock (query (hd ids))))
      | None \<Rightarrow> if ids = [] then Inl IndexError else Inr (max_clock (query (hd ids))))"

subsection \<open>Points\<close>

type_synonym point_key = "int \<times> int \<times> string"

record point =
  pt_key :: point_key
  pt_runs :: nat
  pt_mean :: "real option"
  pt_std :: "real option"
  pt_wall :: real

text \<open>A run writes throughputs or fails; an empty file is a failure.\<close>

definition run_one :: "point_key \<Rightarrow> real list option \<times> real \<Rightarrow> point option" where
  "run_one key answer =
     (case answer of
        (Some (v # vs), elapsed) \<Rightarrow>
          (let tok_s = v # vs in
           Some \<lparr>pt_key = key, pt_runs = length tok_s, pt_mean = Some (py_round_to 2 (avg tok_s)),
                 pt_std = Some (py_round_to 2 (pstdev tok_s)), pt_wall = py_round_to 1 elapsed\<rparr>)
      | _ \<Rightarrow> None)"

definition failed_point :: "point_key \<Rightarrow> point" where
  "failed_point key = \<lparr>pt_key = key, pt_runs = 0, pt_mean = None, pt_std = None, pt_wall = 0\<rparr>"

fun run_points ::
  "(clocks \<Rightarrow> nat \<Rightarrow> point_key \<Rightarrow> real list option \<times> real) \<Rightarrow> clocks \<Rightarrow> nat \<Rightarrow> point_key list \<Rightarrow>
     (point_key, real list) dict \<Rightarrow> point list \<Rightarrow> (point_key, real list) dict \<times> point list" where
  "run_points run ck i [] raw summary = (raw, summary)"
| "run_points run ck i (key # keys) raw summary =
     (let answer = run ck i key in
      case run_one key answer of
        None \<Rightarrow> run_points run ck (i + 1) keys raw (summary @ [failed_point key])
      | Some p \<Rightarrow> run_points run ck (i + 1) keys (dict_set key (the (fst answer)) raw) (summary @ [p]))"

subsection \<open>Gaps\<close>

definition norm_cdf :: "real \<Rightarrow> real" where
  "norm_cdf x =
     (let x = \<bar>x\<bar>; t = 1 / (1 + 2316419 / 10000000 * x);
          poly = t * (319381530 / 10^9 + t * (- 356563782 / 10^9 + t * (1781477937 / 10^9 + t * (- 1821255978 / 10^9 + t * (1330274429 / 10^9)))))
      in 1 - (1 / sqrt (2 * pi)) * exp (- (1/2) * x * x) * poly)"

definition sample_var :: "real list \<Rightarrow> real" where
  "sample_var v = sum_list (map (\<lambda>x. (x - avg v)\<^sup>2) v) / real (max (length v - 1) 1)"

definition ttest_p :: "real list \<Rightarrow> real list \<Rightarrow> real option" where
  "ttest_p a d =
     (if a = [] \<or> d = [] then None
      else let se = sqrt (sample_var a / real (length a) + sample_var d / real (length d))
           in if se = 0 then Some 1 else Some (2 * (1 - norm_cdf (\<bar>avg a - avg d\<bar> / se))))"

definition mean_or_nan :: "real list \<Rightarrow> real option" where
  "mean_or_nan v = (if v = [] then None else Some (avg v))"

definition gap :: "real option \<Rightarrow> real option \<Rightarrow> real option" where
  "gap ref d =
     (case (ref, d) of
        (Some r, Some x) \<Rightarrow> if r \<noteq> 0 then Some (py_round_to 2 (100 * (r - x) / r)) else None
      | _ \<Rightarrow> None)"

text \<open>A row of another layout than D has empty fields.\<close>

record final_row =
  fr_point :: point
  fr_gaps :: "(real option \<times> real option \<times> real option) option"

definition final_row :: "(point_key, real list) dict \<Rightarrow> point \<Rightarrow> final_row" where
  "final_row raw p =
     (case pt_key p of (N, K, cond) \<Rightarrow>
        if cond \<noteq> ''D'' then \<lparr>fr_point = p, fr_gaps = None\<rparr>
        else let s = dict_get raw (N, K, ''S'') []; d = dict_get raw (N, K, ''D'') []; a = dict_get raw (N, K, ''A'') []
             in \<lparr>fr_point = p, fr_gaps = Some (map_option (py_round_to 6) (ttest_p s d), gap (mean_or_nan s) (mean_or_nan d),
                  gap (mean_or_nan a) (mean_or_nan d))\<rparr>)"

definition sweep_points :: "int list \<Rightarrow> int list \<Rightarrow> string list \<Rightarrow> point_key list" where
  "sweep_points Ns Ks conds = [(N, K, c). N \<leftarrow> Ns, K \<leftarrow> Ks, c \<leftarrow> conds]"

text \<open>\<open>main\<close>: the rows it writes, and the clocks it leaves.\<close>

definition scale_main ::
  "string \<Rightarrow> int \<Rightarrow> bool \<Rightarrow> int option \<Rightarrow> (int \<Rightarrow> nat \<times> string) \<Rightarrow> (int \<Rightarrow> bool) \<Rightarrow>
     (clocks \<Rightarrow> nat \<Rightarrow> point_key \<Rightarrow> real list option \<times> real) \<Rightarrow> point_key list \<Rightarrow> clocks \<Rightarrow> (py_error + final_row list) \<times> clocks" where
  "scale_main cvd tensor_par want_lock freq query locks run keys ck =
     (let lock = want_lock \<or> tensor_par > 1 in
      case gpu_ids_from_env cvd tensor_par of
        Inl e \<Rightarrow> (Inl e, ck)
      | Inr ids \<Rightarrow>
          (case (if lock then map_sum id (\<lambda>f. lock_clocks locks ids f ck) (clock_freq freq query ids) else Inr ck) of
             Inl e \<Rightarrow> (Inl e, ck)
           | Inr ck1 \<Rightarrow>
               (let (raw, summary) = run_points run ck1 1 keys [] []
                in (Inr (map (final_row raw) summary), if lock then unlock_clocks ids ck1 else ck1))))"

subsection \<open>Facts\<close>

lemma unlock_clocks_apply: "unlock_clocks ids ck g = (if g \<in> set ids then None else ck g)"
  by (induction ids arbitrary: ck) simp_all

lemma lock_clocks_apply: "lock_clocks locks ids f ck g = (if g \<in> set ids \<and> locks g then Some f else ck g)"
  by (induction ids arbitrary: ck) auto

lemma run_one_key: "run_one key answer = Some p \<Longrightarrow> pt_key p = key \<and> (\<exists>v. fst answer = Some v \<and> v \<noteq> [] \<and> pt_runs p = length v)"
  by (auto simp: run_one_def Let_def split: prod.splits option.splits list.splits)

lemma run_points_rows:
  "run_points run ck i keys raw summary = (raw', summary') \<Longrightarrow> map pt_key summary' = map pt_key summary @ keys"
  by (induction run ck i keys raw summary rule: run_points.induct)
    (auto simp: Let_def failed_point_def dest: run_one_key split: option.splits)

text \<open>One row per point in their order, and no clock stays locked: the GPUs of the sweep are back with the driver, the others
  as they were. While the points run, each GPU whose lock succeeded has the chosen frequency.\<close>

lemma scale_sweep_ends_unlocked:
  assumes "scale_main cvd tensor_par want_lock freq query locks run keys ck = (Inr rows, ck')"
  shows "map (\<lambda>r. pt_key (fr_point r)) rows = keys \<and>
    (\<exists>ids. gpu_ids_from_env cvd tensor_par = Inr ids \<and>
       (\<forall>g. ck' g = (if (want_lock \<or> tensor_par > 1) \<and> g \<in> set ids then None else ck g)))"
proof -
  obtain ids where ids: "gpu_ids_from_env cvd tensor_par = Inr ids" using assms
    by (cases "gpu_ids_from_env cvd tensor_par") (simp_all add: scale_main_def Let_def)
  have key: "pt_key (fr_point (final_row raw p)) = pt_key p" for raw p
    by (auto simp: final_row_def Let_def split: prod.splits)
  obtain ck1 where ck1: "(if want_lock \<or> tensor_par > 1 then map_sum id (\<lambda>f. lock_clocks locks ids f ck) (clock_freq freq query ids) else Inr ck) = Inr ck1"
    using assms ids by (auto simp: scale_main_def Let_def split: sum.splits if_splits)
  obtain raw summary where pts: "run_points run ck1 1 keys [] [] = (raw, summary)" by force
  have out: "rows = map (final_row raw) summary" "ck' = (if want_lock \<or> tensor_par > 1 then unlock_clocks ids ck1 else ck1)"
    using assms ids ck1 pts by (simp_all add: scale_main_def Let_def)
  have "map pt_key summary = keys" using run_points_rows [OF pts] by simp
  then have "map (\<lambda>r. pt_key (fr_point r)) rows = keys" by (simp add: out(1) comp_def key)
  moreover have "ck' g = (if (want_lock \<or> tensor_par > 1) \<and> g \<in> set ids then None else ck g)" for g
    using ck1 by (cases "clock_freq freq query ids") (auto simp: out(2) unlock_clocks_apply lock_clocks_apply split: if_splits)
  ultimately show ?thesis using ids by blast
qed

text \<open>Devices named by UUID leave no id, and the sweep fails before its first point unless a frequency is given.\<close>

lemma no_ids_fails:
  "gpu_ids_from_env cvd tensor_par = Inr [] \<Longrightarrow> want_lock \<or> tensor_par > 1 \<Longrightarrow> freq = None \<Longrightarrow>
     scale_main cvd tensor_par want_lock freq query locks run keys ck = (Inl IndexError, ck)"
  by (auto simp: scale_main_def clock_freq_def Let_def)

text \<open>Two samples without spread count as equal, however far apart they are.\<close>

lemma constant_samples_are_equal: "ttest_p [1, 1] [2, 2] = Some 1"
  by (simp add: ttest_p_def sample_var_def avg_def)

end
