(* ===== verification/KvPool.thy ===== *)
theory KvPool
  imports Prelude
begin

text \<open>
  Punica's paged key-value cache (\<^verbatim>\<open>deps/punica/src/punica/utils/kvcache.py\<close>) and batch layout
  (\<^verbatim>\<open>cat_tensor.py\<close>), which the Punica baseline runs on: the pool of pages, the cache of one sequence, the
  caches of a batch. A page is named by the number of its allocation, so pages are equal exactly when they are
  the same tensor; their contents are left out. \<open>addr\<close> stands for \<open>data_ptr\<close> and \<open>junk\<close> for what
  \<open>torch.empty\<close> finds in memory.
\<close>

subsection \<open>The pool\<close>

record kv_pool =
  page_shape :: "nat list"
  page_len :: nat
  next_page :: nat
  allocated :: "nat set"

definition pool_init :: "nat \<Rightarrow> nat \<Rightarrow> nat \<Rightarrow> nat \<Rightarrow> kv_pool" where
  "pool_init num_layers num_heads head_dim plen =
     \<lparr>page_shape = [num_layers, 2, num_heads, plen, head_dim], page_len = plen, next_page = 0, allocated = {}\<rparr>"

definition num_pages :: "kv_pool \<Rightarrow> nat" where
  "num_pages p = card (allocated p)"

definition alloc_page :: "kv_pool \<Rightarrow> nat \<times> kv_pool" where
  "alloc_page p = (let page = next_page p
     in (page, p\<lparr>next_page := Suc page, allocated := insert page (allocated p)\<rparr>))"

definition free_page :: "nat \<Rightarrow> kv_pool \<Rightarrow> py_error + kv_pool" where
  "free_page page p =
     (if page \<in> allocated p then Inr (p\<lparr>allocated := allocated p - {page}\<rparr>) else Inl KeyError)"

subsection \<open>A tensor that grows\<close>

record 'a growable =
  buf :: "'a list"
  used :: nat

definition grow_init :: "'a list \<Rightarrow> 'a growable" where
  "grow_init xs = \<lparr>buf = xs, used = length xs\<rparr>"

definition view :: "'a growable \<Rightarrow> 'a list" where
  "view g = take (used g) (buf g)"

fun bit_length :: "nat \<Rightarrow> nat" where
  "bit_length n = (if n = 0 then 0 else Suc (bit_length (n div 2)))"

declare bit_length.simps [simp del]

definition next_power_of_two :: "nat \<Rightarrow> nat" where
  "next_power_of_two x = push_bit (bit_length (x - 1)) 1"

definition maybe_grow :: "(nat \<Rightarrow> 'a) \<Rightarrow> nat \<Rightarrow> 'a growable \<Rightarrow> 'a growable" where
  "maybe_grow junk capacity g =
     (if capacity \<le> length (buf g) then g
      else let new_buf = map junk [0..<next_power_of_two capacity]
        in g\<lparr>buf := take (used g) (buf g) @ drop (used g) new_buf\<rparr>)"

definition grow_append :: "(nat \<Rightarrow> 'a) \<Rightarrow> 'a \<Rightarrow> 'a growable \<Rightarrow> 'a growable" where
  "grow_append junk x g =
     (let g = maybe_grow junk (used g + 1) g in g\<lparr>buf := (buf g)[used g := x], used := used g + 1\<rparr>)"

definition grow_clear :: "'a growable \<Rightarrow> 'a growable" where
  "grow_clear g = g\<lparr>used := 0\<rparr>"

subsection \<open>The cache of one sequence\<close>

record kv_cache =
  kv_pages :: "nat list"
  seqlen :: int
  ptrs :: "int growable"

fun alloc_pages :: "nat \<Rightarrow> kv_pool \<Rightarrow> nat list \<times> kv_pool" where
  "alloc_pages 0 p = ([], p)"
| "alloc_pages (Suc n) p =
     (let (page, p) = alloc_page p; (pages, p) = alloc_pages n p in (page # pages, p))"

definition kv_init :: "(nat \<Rightarrow> int) \<Rightarrow> int \<Rightarrow> kv_pool \<Rightarrow> py_error + kv_cache \<times> kv_pool" where
  "kv_init addr init_len p =
     (if init_len < 0 then Inl ValueError
      else if init_len > 0 then
        (if page_len p = 0 then Inl ZeroDivisionError
         else let npages = nat ((init_len + int (page_len p) - 1) div int (page_len p));
                  (pages, p) = alloc_pages npages p
           in Inr (\<lparr>kv_pages = pages, seqlen = init_len, ptrs = grow_init (map addr pages)\<rparr>, p))
      else Inr (\<lparr>kv_pages = [], seqlen = 0, ptrs = grow_init []\<rparr>, p))"

definition last_offset :: "kv_pool \<Rightarrow> kv_cache \<Rightarrow> int" where
  "last_offset p c = (seqlen c - 1) mod int (page_len p) + 1"

definition acquire_one :: "(nat \<Rightarrow> int) \<Rightarrow> (nat \<Rightarrow> int) \<Rightarrow> kv_cache \<Rightarrow> kv_pool \<Rightarrow> py_error + kv_cache \<times> kv_pool" where
  "acquire_one addr junk c p =
     (if page_len p = 0 then Inl ZeroDivisionError
      else if last_offset p c = int (page_len p) then
        (let (page, p) = alloc_page p
         in Inr (c\<lparr>kv_pages := kv_pages c @ [page], ptrs := grow_append junk (addr page) (ptrs c), seqlen := seqlen c + 1\<rparr>, p))
      else Inr (c\<lparr>seqlen := seqlen c + 1\<rparr>, p))"

fun free_pages :: "nat list \<Rightarrow> kv_pool \<Rightarrow> py_error + kv_pool" where
  "free_pages [] p = Inr p"
| "free_pages (page # pages) p = (case free_page page p of Inl e \<Rightarrow> Inl e | Inr p \<Rightarrow> free_pages pages p)"

definition kv_release :: "kv_cache \<Rightarrow> kv_pool \<Rightarrow> py_error + kv_cache \<times> kv_pool" where
  "kv_release c p =
     (case free_pages (kv_pages c) p of
        Inl e \<Rightarrow> Inl e
      | Inr p \<Rightarrow> Inr (c\<lparr>seqlen := 0, kv_pages := [], ptrs := grow_clear (ptrs c)\<rparr>, p))"

subsection \<open>The caches of a batch\<close>

text \<open>There is one pool, so the assertion that every cache is of the first one's pool holds.\<close>

record batched_kv =
  bk_ptrs :: "int list"
  bk_indptr :: "nat list"
  bk_last_page_offset :: "int list"

fun batch_caches :: "kv_pool \<Rightarrow> kv_cache list \<Rightarrow> batched_kv \<Rightarrow> py_error + batched_kv" where
  "batch_caches p [] b = Inr b"
| "batch_caches p (c # cs) b =
     (if kv_pages c = [] then Inl AssertionError
      else batch_caches p cs \<lparr>bk_ptrs = bk_ptrs b @ view (ptrs c),
             bk_indptr = bk_indptr b @ [last (bk_indptr b) + length (kv_pages c)],
             bk_last_page_offset = bk_last_page_offset b @ [last_offset p c]\<rparr>)"

definition batched_kv_cache :: "kv_pool \<Rightarrow> kv_cache list \<Rightarrow> py_error + batched_kv" where
  "batched_kv_cache p cs =
     (if cs = [] then Inl AssertionError
      else batch_caches p cs \<lparr>bk_ptrs = [], bk_indptr = [0], bk_last_page_offset = []\<rparr>)"

text \<open>\<open>np.cumsum\<close>, and the layout of a batch: prefills first, then one token for each decode.\<close>

fun cumsum :: "nat \<Rightarrow> nat list \<Rightarrow> nat list" where
  "cumsum acc [] = []"
| "cumsum acc (x # xs) = (acc + x) # cumsum (acc + x) xs"

record batch_len_info =
  bl_prefills :: "nat list"
  bl_decode :: nat
  bl_indptr :: "nat list option"
  doff :: nat

definition batch_len_info :: "nat list \<Rightarrow> nat \<Rightarrow> batch_len_info" where
  "batch_len_info prefills dec =
     (let tmp = 0 # prefills in
      if 0 < length prefills
      then \<lparr>bl_prefills = prefills, bl_decode = dec, bl_indptr = Some (cumsum 0 tmp), doff = last (cumsum 0 tmp)\<rparr>
      else \<lparr>bl_prefills = prefills, bl_decode = dec, bl_indptr = None, doff = 0\<rparr>)"

subsection \<open>A tensor that grows is a list\<close>

lemma less_bit_length: "n < 2 ^ bit_length n"
proof (induction n rule: bit_length.induct)
  case (1 n)
  then show ?case by (subst bit_length.simps) auto
qed

lemma next_power_of_two_ge: "x \<le> next_power_of_two x"
  using less_bit_length [of "x - 1"] by (simp add: next_power_of_two_def push_bit_eq_mult)

definition growable_ok :: "'a growable \<Rightarrow> bool" where
  "growable_ok g \<longleftrightarrow> used g \<le> length (buf g)"

lemma view_grow_init [simp]: "view (grow_init xs) = xs" "growable_ok (grow_init xs)"
  by (simp_all add: view_def grow_init_def growable_ok_def)

lemma view_grow_clear [simp]: "view (grow_clear g) = []" "growable_ok (grow_clear g)"
  by (simp_all add: view_def grow_clear_def growable_ok_def)

lemma view_maybe_grow:
  assumes "growable_ok g"
  shows "view (maybe_grow junk n g) = view g" and "growable_ok (maybe_grow junk n g)"
    and "used (maybe_grow junk n g) = used g" and "n \<le> length (buf (maybe_grow junk n g))"
  using assms next_power_of_two_ge [of n] by (auto simp: maybe_grow_def growable_ok_def view_def Let_def)

lemma view_grow_append [simp]:
  assumes "growable_ok g"
  shows "view (grow_append junk x g) = view g @ [x]" and "growable_ok (grow_append junk x g)"
  using view_maybe_grow [OF assms, where junk = junk and n = "used g + 1"]
  by (simp_all add: grow_append_def Let_def view_def growable_ok_def take_Suc_conv_app_nth)

subsection \<open>Pools of pages\<close>

text \<open>What a cache relies on: a new page is not in use, and freeing a page in use gives back exactly that page.\<close>

locale page_pool =
  fixes alloc :: "'p \<Rightarrow> 'g \<times> 'p"
    and free :: "'g \<Rightarrow> 'p \<Rightarrow> 'e + 'p"
    and in_use :: "'p \<Rightarrow> 'g set"
    and pool_ok :: "'p \<Rightarrow> bool"
  assumes alloc_fresh: "pool_ok p \<Longrightarrow> alloc p = (g, p') \<Longrightarrow> g \<notin> in_use p \<and> in_use p' = insert g (in_use p) \<and> pool_ok p'"
    and free_page_in_use: "pool_ok p \<Longrightarrow> g \<in> in_use p \<Longrightarrow> \<exists>p'. free g p = Inr p' \<and> in_use p' = in_use p - {g} \<and> pool_ok p'"
begin

fun alloc_many :: "nat \<Rightarrow> 'p \<Rightarrow> 'g list \<times> 'p" where
  "alloc_many 0 p = ([], p)"
| "alloc_many (Suc n) p = (let (g, p) = alloc p; (gs, p) = alloc_many n p in (g # gs, p))"

fun free_many :: "'g list \<Rightarrow> 'p \<Rightarrow> 'e + 'p" where
  "free_many [] p = Inr p"
| "free_many (g # gs) p = (case free g p of Inl e \<Rightarrow> Inl e | Inr p \<Rightarrow> free_many gs p)"

lemma alloc_many_fresh:
  "pool_ok p \<Longrightarrow> alloc_many n p = (gs, p') \<Longrightarrow>
     length gs = n \<and> distinct gs \<and> set gs \<inter> in_use p = {} \<and> in_use p' = in_use p \<union> set gs \<and> pool_ok p'"
proof (induction n p arbitrary: gs p' rule: alloc_many.induct)
  case (2 n p)
  obtain g p1 where a: "alloc p = (g, p1)" by force
  obtain gs1 where b: "alloc_many n p1 = (gs1, p')" "gs = g # gs1" using "2.prems"(2) a by (auto split: prod.splits)
  show ?case using alloc_fresh [OF "2.prems"(1) a] "2.IH" [OF a [symmetric] refl _ b(1)] b(2) by auto
qed simp

lemma free_many_in_use:
  "pool_ok p \<Longrightarrow> distinct gs \<Longrightarrow> set gs \<subseteq> in_use p \<Longrightarrow>
     \<exists>p'. free_many gs p = Inr p' \<and> in_use p' = in_use p - set gs \<and> pool_ok p'"
proof (induction gs arbitrary: p)
  case (Cons g gs)
  obtain p1 where p1: "free g p = Inr p1" "in_use p1 = in_use p - {g}" "pool_ok p1"
    using free_page_in_use [of p g] Cons.prems by auto
  moreover have "set gs \<subseteq> in_use p1" "in_use p - set (g # gs) = in_use p1 - set gs" using p1(2) Cons.prems by auto
  ultimately show ?case using Cons.IH [of p1] Cons.prems(2) by simp
qed simp

end

definition kv_pool_ok :: "kv_pool \<Rightarrow> bool" where
  "kv_pool_ok p \<longleftrightarrow> allocated p \<subseteq> {..<next_page p}"

interpretation kv: page_pool alloc_page free_page allocated kv_pool_ok
  by unfold_locales (auto simp: alloc_page_def free_page_def kv_pool_ok_def Let_def)

lemma alloc_pages_eq: "alloc_pages n p = kv.alloc_many n p"
  by (induction n arbitrary: p) (simp_all add: case_prod_unfold Let_def)

lemma free_pages_eq: "free_pages gs p = kv.free_many gs p"
  by (induction gs p rule: free_pages.induct) (simp_all split: sum.split)

lemma pool_frame [simp]:
  "page_len (snd (alloc_page p)) = page_len p" "free_page g p = Inr p' \<Longrightarrow> page_len p' = page_len p"
  by (auto simp: alloc_page_def free_page_def Let_def split: if_splits)

lemma page_len_alloc_pages [simp]: "page_len (snd (alloc_pages n p)) = page_len p"
  by (induction n arbitrary: p) (simp_all add: case_prod_unfold Let_def)

lemma page_len_free_pages: "free_pages gs p = Inr p' \<Longrightarrow> page_len p' = page_len p"
  by (induction gs p rule: free_pages.induct) (auto split: sum.splits)

subsection \<open>One sequence holds the pages its tokens need\<close>

definition pages_for :: "kv_pool \<Rightarrow> int \<Rightarrow> int" where
  "pages_for p n = (n + int (page_len p) - 1) div int (page_len p)"

definition kv_ok :: "(nat \<Rightarrow> int) \<Rightarrow> kv_pool \<Rightarrow> kv_cache \<Rightarrow> bool" where
  "kv_ok addr p c \<longleftrightarrow> distinct (kv_pages c) \<and> set (kv_pages c) \<subseteq> allocated p \<and> 0 \<le> seqlen c \<and>
     int (length (kv_pages c)) = pages_for p (seqlen c) \<and> view (ptrs c) = map addr (kv_pages c) \<and> growable_ok (ptrs c)"

lemma pages_for_frame: "page_len p' = page_len p \<Longrightarrow> pages_for p' n = pages_for p n"
  by (simp add: pages_for_def)

lemma kv_ok_frame:
  "kv_ok addr p c \<Longrightarrow> set (kv_pages c) \<subseteq> allocated p' \<Longrightarrow> page_len p' = page_len p \<Longrightarrow> kv_ok addr p' c"
  by (simp add: kv_ok_def pages_for_def)

text \<open>One page more exactly when the last one is full.\<close>

lemma pages_for_Suc:
  assumes "0 < page_len p" and "0 \<le> n"
  shows "pages_for p (n + 1) = pages_for p n + (if (n - 1) mod int (page_len p) + 1 = int (page_len p) then 1 else 0)"
proof -
  define L where "L = int (page_len p)"
  have L: "0 < L" using assms(1) by (simp add: L_def)
  define q r where "q = (n - 1) div L" and "r = (n - 1) mod L"
  have n: "n = q * L + r + 1" by (simp add: q_def r_def)
  have r: "0 \<le> r" "r < L" using L by (simp_all add: r_def)
  have "(n + L - 1) div L = q + 1"
    using r n by (intro int_div_pos_eq [of _ _ _ r]) (simp_all add: algebra_simps)
  moreover have "(n + 1 + L - 1) div L = (if r + 1 = L then q + 2 else q + 1)"
    using r n by (auto intro!: int_div_pos_eq [of _ _ _ "if r + 1 = L then 0 else r + 1"] simp: algebra_simps)
  ultimately show ?thesis by (simp add: pages_for_def r_def L_def)
qed

lemma kv_init_ok:
  assumes "kv_pool_ok p" and "0 < page_len p" and "0 \<le> n"
  shows "\<exists>c p'. kv_init addr n p = Inr (c, p') \<and> kv_ok addr p' c \<and> seqlen c = n \<and>
    set (kv_pages c) \<inter> allocated p = {} \<and> allocated p' = allocated p \<union> set (kv_pages c) \<and>
    kv_pool_ok p' \<and> page_len p' = page_len p"
proof (cases "n = 0")
  case True
  then show ?thesis using assms by (simp add: kv_init_def kv_ok_def pages_for_def)
next
  case False
  obtain gs p' where a: "alloc_pages (nat (pages_for p n)) p = (gs, p')" by force
  note f = kv.alloc_many_fresh [OF assms(1) a [unfolded alloc_pages_eq]]
  have len: "page_len p' = page_len p" using page_len_alloc_pages [of "nat (pages_for p n)" p] a by simp
  have "0 \<le> pages_for p n" using assms(2,3) by (simp add: pages_for_def pos_imp_zdiv_nonneg_iff)
  then show ?thesis using a f len False assms(2,3) pages_for_frame [OF len, of n]
    by (auto simp: kv_init_def pages_for_def kv_ok_def)
qed

lemma acquire_one_ok:
  assumes "kv_pool_ok p" and "0 < page_len p" and "kv_ok addr p c"
  shows "\<exists>c' p' gs. acquire_one addr junk c p = Inr (c', p') \<and> kv_ok addr p' c' \<and> seqlen c' = seqlen c + 1 \<and>
    kv_pages c' = kv_pages c @ gs \<and> set gs \<inter> allocated p = {} \<and> allocated p' = allocated p \<union> set gs \<and>
    kv_pool_ok p' \<and> page_len p' = page_len p"
proof (cases "last_offset p c = int (page_len p)")
  case True
  obtain g p' where a: "alloc_page p = (g, p')" by force
  have len: "page_len p' = page_len p" using pool_frame(1) [of p] a by simp
  note f = kv.alloc_fresh [OF assms(1) a]
  show ?thesis
    using True a f len assms(2,3) pages_for_Suc [OF assms(2), of "seqlen c"] pages_for_frame [OF len, of "seqlen c + 1"]
    by (intro exI [of _ "c\<lparr>kv_pages := kv_pages c @ [g], ptrs := grow_append junk (addr g) (ptrs c), seqlen := seqlen c + 1\<rparr>"]
        exI [of _ p'] exI [of _ "[g]"]) (auto simp: acquire_one_def kv_ok_def last_offset_def)
next
  case False
  then show ?thesis using assms pages_for_Suc [OF assms(2), of "seqlen c"]
    by (intro exI [of _ "c\<lparr>seqlen := seqlen c + 1\<rparr>"] exI [of _ p] exI [of _ "[]"])
      (auto simp: acquire_one_def kv_ok_def last_offset_def)
qed

lemma kv_release_ok:
  assumes "kv_pool_ok p" and "kv_ok addr p c"
  shows "\<exists>c' p'. kv_release c p = Inr (c', p') \<and> kv_pages c' = [] \<and> allocated p' = allocated p - set (kv_pages c) \<and>
    kv_pool_ok p' \<and> page_len p' = page_len p"
proof -
  obtain p' where "free_pages (kv_pages c) p = Inr p'" "allocated p' = allocated p - set (kv_pages c)" "kv_pool_ok p'"
    using kv.free_many_in_use [OF assms(1), of "kv_pages c"] assms(2) by (auto simp: kv_ok_def free_pages_eq)
  then show ?thesis using page_len_free_pages by (auto simp: kv_release_def)
qed

text \<open>The caches of a batch: the pointers of every sequence's pages, one after the other.\<close>

lemma batch_caches_ok:
  assumes "\<forall>c\<in>set cs. kv_ok addr p c \<and> kv_pages c \<noteq> []"
  shows "\<exists>b'. batch_caches p cs b = Inr b' \<and> bk_ptrs b' = bk_ptrs b @ map addr (concat (map kv_pages cs)) \<and>
    length (bk_indptr b') = length (bk_indptr b) + length cs \<and>
    bk_last_page_offset b' = bk_last_page_offset b @ map (last_offset p) cs"
  using assms
proof (induction cs arbitrary: b)
  case (Cons c cs)
  from Cons.IH [of "\<lparr>bk_ptrs = bk_ptrs b @ view (ptrs c), bk_indptr = bk_indptr b @ [last (bk_indptr b) + length (kv_pages c)],
      bk_last_page_offset = bk_last_page_offset b @ [last_offset p c]\<rparr>"]
  show ?case using Cons.prems by (auto simp: kv_ok_def)
qed simp

subsection \<open>The pool holds exactly the pages of its caches\<close>

definition pool_holds :: "(nat \<Rightarrow> int) \<Rightarrow> kv_pool \<Rightarrow> kv_cache multiset \<Rightarrow> bool" where
  "pool_holds addr p C \<longleftrightarrow> kv_pool_ok p \<and> 0 < page_len p \<and> (\<forall>c\<in>#C. kv_ok addr p c) \<and>
     sum_mset (image_mset (\<lambda>c. mset (kv_pages c)) C) = mset_set (allocated p)"

lemma kv_pool_finite: "kv_pool_ok p \<Longrightarrow> finite (allocated p)"
  unfolding kv_pool_ok_def by (rule finite_subset [of _ "{..<next_page p}"]) simp_all

lemma pool_holds_pages:
  assumes "pool_holds addr p C" and "d \<in># C"
  shows "set (kv_pages d) \<subseteq> allocated p"
  using assms by (auto simp: pool_holds_def kv_ok_def)

lemma pool_holds_frame:
  assumes "pool_holds addr p C" and "kv_pool_ok p'" and "page_len p' = page_len p" and "allocated p \<subseteq> allocated p'"
    and "d \<in># C"
  shows "kv_ok addr p' d"
  using assms kv_ok_frame [of addr p d p'] unfolding pool_holds_def kv_ok_def by blast

lemma mset_set_Un_list:
  "finite A \<Longrightarrow> distinct gs \<Longrightarrow> set gs \<inter> A = {} \<Longrightarrow> mset_set (A \<union> set gs) = mset_set A + mset gs"
  by (simp add: mset_set_Union mset_set_set Int_commute)

lemma kv_init_holds:
  assumes "pool_holds addr p C" and "0 \<le> n"
  shows "\<exists>c p'. kv_init addr n p = Inr (c, p') \<and> pool_holds addr p' (add_mset c C) \<and> seqlen c = n \<and> page_len p' = page_len p"
proof -
  have p: "kv_pool_ok p" "0 < page_len p" using assms(1) by (auto simp: pool_holds_def)
  obtain c p' where c: "kv_init addr n p = Inr (c, p')" "kv_ok addr p' c" "seqlen c = n" "set (kv_pages c) \<inter> allocated p = {}"
    "allocated p' = allocated p \<union> set (kv_pages c)" "kv_pool_ok p'" "page_len p' = page_len p"
    using kv_init_ok [OF p assms(2), of addr] by blast
  have "distinct (kv_pages c)" using c(2) by (simp add: kv_ok_def)
  then have "mset_set (allocated p') = mset_set (allocated p) + mset (kv_pages c)"
    using mset_set_Un_list [OF kv_pool_finite [OF p(1)]] c(4,5) by simp
  then have "pool_holds addr p' (add_mset c C)"
    using assms(1) c pool_holds_frame [OF assms(1) c(6,7)] p by (auto simp: pool_holds_def)
  then show ?thesis using c by blast
qed

lemma acquire_one_holds:
  assumes "pool_holds addr p (add_mset c C)"
  shows "\<exists>c' p'. acquire_one addr junk c p = Inr (c', p') \<and> pool_holds addr p' (add_mset c' C) \<and> seqlen c' = seqlen c + 1 \<and>
    page_len p' = page_len p"
proof -
  have p: "kv_pool_ok p" "0 < page_len p" "kv_ok addr p c" using assms by (auto simp: pool_holds_def)
  obtain c' p' gs where c: "acquire_one addr junk c p = Inr (c', p')" "kv_ok addr p' c'" "seqlen c' = seqlen c + 1"
    "kv_pages c' = kv_pages c @ gs" "set gs \<inter> allocated p = {}" "allocated p' = allocated p \<union> set gs" "kv_pool_ok p'"
    "page_len p' = page_len p"
    using acquire_one_ok [OF p, of junk] by blast
  have "distinct gs" using c(2,4) by (simp add: kv_ok_def)
  then have "mset_set (allocated p') = mset_set (allocated p) + mset gs"
    using mset_set_Un_list [OF kv_pool_finite [OF p(1)]] c(5,6) by simp
  then have "pool_holds addr p' (add_mset c' C)"
    using assms c pool_holds_frame [OF assms c(7,8)] p by (auto simp: pool_holds_def simp flip: union_assoc)
  then show ?thesis using c by blast
qed

lemma kv_release_holds:
  assumes "pool_holds addr p (add_mset c C)"
  shows "\<exists>c' p'. kv_release c p = Inr (c', p') \<and> pool_holds addr p' C \<and> page_len p' = page_len p"
proof -
  have p: "kv_pool_ok p" "0 < page_len p" "kv_ok addr p c" using assms by (auto simp: pool_holds_def)
  obtain c' p' where c: "kv_release c p = Inr (c', p')" "allocated p' = allocated p - set (kv_pages c)" "kv_pool_ok p'"
    "page_len p' = page_len p"
    using kv_release_ok [OF p(1,3)] by blast
  have fin: "finite (allocated p)" by (rule kv_pool_finite [OF p(1)])
  have "mset_set (allocated p') = mset_set (allocated p) - mset (kv_pages c)"
    using p(3) by (simp add: c(2) mset_set_Diff fin kv_ok_def mset_set_set)
  also have "mset_set (allocated p) = mset (kv_pages c) + sum_mset (image_mset (\<lambda>c. mset (kv_pages c)) C)"
    using assms by (simp add: pool_holds_def)
  finally have eq: "sum_mset (image_mset (\<lambda>c. mset (kv_pages c)) C) = mset_set (allocated p')" by simp
  have "kv_ok addr p' d" if d: "d \<in># C" for d
  proof (rule kv_ok_frame [of _ p])
    show "kv_ok addr p d" using assms d by (simp add: pool_holds_def)
    have "mset (kv_pages d) \<subseteq># mset_set (allocated p')"
      using multi_member_split [OF d] by (auto simp flip: eq)
    then show "set (kv_pages d) \<subseteq> allocated p'"
      using set_mset_mono fin c(2) by fastforce
  qed (rule c(4))
  then show ?thesis using c eq p(2) by (auto simp: pool_holds_def)
qed

lemma size_pages: "size (sum_mset (image_mset (\<lambda>c. mset (kv_pages c)) C)) = (\<Sum>c\<in>#C. length (kv_pages c))"
  by (induction C) simp_all

lemma int_pages:
  "\<forall>c\<in>#C. kv_ok addr p c \<Longrightarrow> int (\<Sum>c\<in>#C. length (kv_pages c)) = (\<Sum>c\<in>#C. pages_for p (seqlen c))"
  by (induction C) (simp_all add: kv_ok_def)

text \<open>C36: The pool and its caches are well formed, and every operation keeps them so. While the pool holds the pages of the
  caches of a batch (no page belongs to two of them, none is lost, each cache has the pages its length needs and
  the pointers to them), a new cache, one more token and a release succeed and leave such a pool; only a
  negative length is refused. So the pages in use are those the lengths need.\<close>

theorem cache_operations_keep_the_pool:
  assumes "pool_holds addr p C"
  shows "(\<forall>n. case kv_init addr n p of Inl e \<Rightarrow> n < 0 \<and> e = ValueError
        | Inr (c, p') \<Rightarrow> 0 \<le> n \<and> seqlen c = n \<and> pool_holds addr p' (add_mset c C)) \<and>
    (\<forall>c\<in>#C. \<exists>c' p'. acquire_one addr junk c p = Inr (c', p') \<and> seqlen c' = seqlen c + 1 \<and>
        pool_holds addr p' (add_mset c' (C - {#c#}))) \<and>
    (\<forall>c\<in>#C. \<exists>c' p'. kv_release c p = Inr (c', p') \<and> pool_holds addr p' (C - {#c#})) \<and>
    int (num_pages p) = (\<Sum>c\<in>#C. pages_for p (seqlen c))"
proof (intro conjI allI ballI)
  fix n :: int
  show "case kv_init addr n p of Inl e \<Rightarrow> n < 0 \<and> e = ValueError | Inr (c, p') \<Rightarrow> 0 \<le> n \<and> seqlen c = n \<and> pool_holds addr p' (add_mset c C)"
  proof (cases "n < 0")
    case True
    then show ?thesis by (simp add: kv_init_def)
  next
    case False
    then show ?thesis using kv_init_holds [OF assms, of n] by auto
  qed
next
  fix c assume "c \<in># C"
  then have "pool_holds addr p (add_mset c (C - {#c#}))" using assms by simp
  from acquire_one_holds [OF this, of junk] kv_release_holds [OF this]
  show "\<exists>c' p'. acquire_one addr junk c p = Inr (c', p') \<and> seqlen c' = seqlen c + 1 \<and> pool_holds addr p' (add_mset c' (C - {#c#}))"
    "\<exists>c' p'. kv_release c p = Inr (c', p') \<and> pool_holds addr p' (C - {#c#})" by blast+
next
  have "card (allocated p) = (\<Sum>c\<in>#C. length (kv_pages c))"
    using size_pages [of C] assms [unfolded pool_holds_def] by (metis size_mset_set)
  moreover have "int (\<Sum>c\<in>#C. length (kv_pages c)) = (\<Sum>c\<in>#C. pages_for p (seqlen c))"
    using assms by (intro int_pages [of C addr]) (simp add: pool_holds_def)
  ultimately show "int (num_pages p) = (\<Sum>c\<in>#C. pages_for p (seqlen c))" by (simp add: num_pages_def)
qed

text \<open>A pool of pages of four tokens with one cache of five tokens.\<close>

theorem cache_operations_keep_the_pool_witness:
  "case kv_init (\<lambda>g. 64 * int g) 5 (pool_init 2 2 8 4) of Inl e \<Rightarrow> False
   | Inr (c, p) \<Rightarrow> int (num_pages p) = 2 \<and> (\<exists>c' p'. kv_release c p = Inr (c', p') \<and> num_pages p' = 0)"
proof -
  have "pool_holds (\<lambda>g. 64 * int g) (pool_init 2 2 8 4) {#}" by (simp add: pool_holds_def kv_pool_ok_def pool_init_def)
  note new = cache_operations_keep_the_pool [OF this]
  obtain c p where k: "kv_init (\<lambda>g. 64 * int g) 5 (pool_init 2 2 8 4) = Inr (c, p)" "seqlen c = 5"
    "pool_holds (\<lambda>g. 64 * int g) p {#c#}" "page_len p = 4"
    using conjunct1 [OF new, THEN spec, of 5] by (cases "kv_init (\<lambda>g. 64 * int g) 5 (pool_init 2 2 8 4)")
      (auto simp: kv_init_def pool_init_def alloc_page_def numeral_2_eq_2 eval_nat_numeral)
  note more = cache_operations_keep_the_pool [OF k(3), where junk = "\<lambda>i. 0"]
  obtain c' p' where r: "kv_release c p = Inr (c', p')" "pool_holds (\<lambda>g. 64 * int g) p' {#}" using conjunct1 [OF conjunct2 [OF conjunct2 [OF more]]] by auto
  have "int (num_pages p') = 0" using cache_operations_keep_the_pool [OF r(2)] by simp
  moreover have "int (num_pages p) = 2" using more k(2,4) by (simp add: pages_for_def)
  ultimately show ?thesis using k(1) r(1) by simp
qed

end
