(* ===== verification/Punica.thy ===== *)
theory Punica
  imports KvPool Workload
begin

text \<open>
  The Punica baseline (\<^verbatim>\<open>benchmarks/paper/punica_engine.py\<close>): the batching loop that serves the request set of
  the other runs in one process. The model is a function from a launch to the most likely token of every row; the
  random prompt tokens are an argument. Every launch is kept in the state, as what the loop does to the GPU.
\<close>

subsection \<open>One launch\<close>

record launch =
  la_ids :: "int list"
  la_len :: batch_len_info
  la_prefill :: "batched_kv option"
  la_decode :: "batched_kv option"
  la_loras :: "int list"
  la_lens :: "nat list"

record punica_cfg =
  plens :: "nat list"
  lidx :: "int list"
  prompt_ids :: "nat \<Rightarrow> int list"
  batch_cap :: int
  max_tokens :: int
  n_loras :: int
  p_addr :: "nat \<Rightarrow> int"
  p_junk :: "nat \<Rightarrow> int"
  model_tokens :: "launch \<Rightarrow> int list"

record work =
  wi :: nat
  wkv :: kv_cache
  wout :: "int list"

record punica =
  nxt :: nat
  workset :: "work list"
  n_done :: nat
  out_tok :: nat
  kvpool :: kv_pool
  launches :: "launch list"

type_synonym admitted = "nat \<times> int list \<times> kv_cache"

definition admit :: "punica_cfg \<Rightarrow> punica \<Rightarrow> py_error + admitted list \<times> punica" where
  "admit cfg st =
     (if int (length (workset st)) < batch_cap cfg \<and> nxt st < length (plens cfg)
      then (case kv_init (p_addr cfg) (int (plens cfg ! nxt st)) (kvpool st) of
              Inl e \<Rightarrow> Inl e
            | Inr (kv, p) \<Rightarrow> Inr ([(nxt st, prompt_ids cfg (nxt st), kv)], st\<lparr>nxt := nxt st + 1, kvpool := p\<rparr>))
      else Inr ([], st))"

text \<open>The token ids and the LoRA segments: a segment for each prompt, and the decodes merged into the last segment
  where the adapter is the same.\<close>

definition add_prompt :: "punica_cfg \<Rightarrow> admitted \<Rightarrow> int list \<times> int list \<times> nat list \<Rightarrow> int list \<times> int list \<times> nat list" where
  "add_prompt cfg = (\<lambda>(i, pr, kv) (ids, li, ll). (ids @ pr, li @ [lidx cfg ! i], ll @ [length pr]))"

definition add_decode :: "punica_cfg \<Rightarrow> work \<Rightarrow> int list \<times> int list \<times> nat list \<Rightarrow> int list \<times> int list \<times> nat list" where
  "add_decode cfg w = (\<lambda>(ids, li, ll).
     (let a = lidx cfg ! wi w in
      if li \<noteq> [] \<and> last li = a then (ids @ [last (wout w)], li, ll[length ll - 1 := last ll + 1])
      else (ids @ [last (wout w)], li @ [a], ll @ [1])))"

text \<open>\<open>BatchedLlamaLoraWeight\<close>: its assertion, and reading the first of its weights.\<close>

definition lora_weights :: "punica_cfg \<Rightarrow> int list \<Rightarrow> nat list \<Rightarrow> py_error + unit" where
  "lora_weights cfg li ll =
     (if list_ex (\<lambda>a. a < - n_loras cfg \<or> n_loras cfg \<le> a) li then Inl IndexError
      else if length li \<noteq> length ll then Inl AssertionError
      else if li = [] then Inl IndexError
      else Inr ())"

definition opt_batch :: "kv_pool \<Rightarrow> kv_cache list \<Rightarrow> py_error + batched_kv option" where
  "opt_batch p cs = (if cs = [] then Inr None else map_sum id Some (batched_kv_cache p cs))"

definition build_launch :: "punica_cfg \<Rightarrow> kv_pool \<Rightarrow> admitted list \<Rightarrow> work list \<Rightarrow> py_error + launch" where
  "build_launch cfg p new ws =
     (let (ids, li, ll) = fold (add_decode cfg) ws (fold (add_prompt cfg) new ([], [], []));
          blen = batch_len_info (map (\<lambda>(i, pr, kv). length pr) new) (length ws)
      in case opt_batch p (map (\<lambda>(i, pr, kv). kv) new) of Inl e \<Rightarrow> Inl e | Inr pk \<Rightarrow>
        (case opt_batch p (map wkv ws) of Inl e \<Rightarrow> Inl e | Inr dk \<Rightarrow>
          (case lora_weights cfg li ll of Inl e \<Rightarrow> Inl e | Inr _ \<Rightarrow>
             Inr \<lparr>la_ids = ids, la_len = blen, la_prefill = pk, la_decode = dk, la_loras = li, la_lens = ll\<rparr>)))"

subsection \<open>One iteration\<close>

text \<open>\<open>logits[blen.indptr[1:] - 1]\<close>: the last row of each prompt; \<open>logits[blen.doff:]\<close>: the rows of the decodes.\<close>

definition prompt_rows :: "launch \<Rightarrow> int list \<Rightarrow> int list" where
  "prompt_rows la rows = (case bl_indptr (la_len la) of None \<Rightarrow> [] | Some xs \<Rightarrow> map (\<lambda>k. rows ! (k - 1)) (tl xs))"

definition decode_rows :: "launch \<Rightarrow> int list \<Rightarrow> int list" where
  "decode_rows la rows = drop (doff (la_len la)) rows"

fun start_new :: "punica_cfg \<Rightarrow> admitted list \<Rightarrow> int list \<Rightarrow> kv_pool \<Rightarrow> py_error + work list \<times> kv_pool" where
  "start_new cfg [] toks p = Inr ([], p)"
| "start_new cfg (n # ns) [] p = Inl IndexError"
| "start_new cfg ((i, pr, kv) # ns) (t # toks) p =
     (case acquire_one (p_addr cfg) (p_junk cfg) kv p of Inl e \<Rightarrow> Inl e | Inr (kv, p) \<Rightarrow>
        (case start_new cfg ns toks p of Inl e \<Rightarrow> Inl e | Inr (ws, p) \<Rightarrow>
           Inr (\<lparr>wi = i, wkv = kv, wout = [t]\<rparr> # ws, p)))"

text \<open>The sequences that go on, and how many are done.\<close>

fun decode_all :: "punica_cfg \<Rightarrow> work list \<Rightarrow> int list \<Rightarrow> kv_pool \<Rightarrow> py_error + work list \<times> nat \<times> kv_pool" where
  "decode_all cfg [] toks p = Inr ([], 0, p)"
| "decode_all cfg (w # ws) [] p = Inl IndexError"
| "decode_all cfg (w # ws) (t # toks) p =
     (let w = w\<lparr>wout := wout w @ [t]\<rparr> in
      if int (length (wout w)) = max_tokens cfg then
        (case kv_release (wkv w) p of Inl e \<Rightarrow> Inl e | Inr (kv, p) \<Rightarrow>
           (case decode_all cfg ws toks p of Inl e \<Rightarrow> Inl e | Inr (us, d, p) \<Rightarrow> Inr (us, Suc d, p)))
      else
        (case acquire_one (p_addr cfg) (p_junk cfg) (wkv w) p of Inl e \<Rightarrow> Inl e | Inr (kv, p) \<Rightarrow>
           (case decode_all cfg ws toks p of Inl e \<Rightarrow> Inl e | Inr (us, d, p) \<Rightarrow> Inr (w\<lparr>wkv := kv\<rparr> # us, d, p))))"

definition engine_step :: "punica_cfg \<Rightarrow> punica \<Rightarrow> py_error + punica" where
  "engine_step cfg st =
     (case admit cfg st of Inl e \<Rightarrow> Inl e | Inr (new, st) \<Rightarrow>
      (case build_launch cfg (kvpool st) new (workset st) of Inl e \<Rightarrow> Inl e | Inr la \<Rightarrow>
       (let rows = model_tokens cfg la in
        case start_new cfg new (prompt_rows la rows) (kvpool st) of Inl e \<Rightarrow> Inl e | Inr (started, p) \<Rightarrow>
        (case decode_all cfg (workset st) (decode_rows la rows) p of Inl e \<Rightarrow> Inl e | Inr (kept, d, p) \<Rightarrow>
           Inr (st\<lparr>workset := sort_key (\<lambda>w. lidx cfg ! wi w) (started @ kept), n_done := n_done st + d,
                   out_tok := out_tok st + length new + length (workset st), kvpool := p,
                   launches := launches st @ [la]\<rparr>)))))"

subsection \<open>The loop\<close>

partial_function (option) engine_loop :: "punica_cfg \<Rightarrow> punica \<Rightarrow> (py_error + punica) option" where
  "engine_loop cfg st =
     (if n_done st < length (plens cfg)
      then (case engine_step cfg st of Inl e \<Rightarrow> Some (Inl e) | Inr st' \<Rightarrow> engine_loop cfg st')
      else Some (Inr st))"

definition punica_start :: "kv_pool \<Rightarrow> punica" where
  "punica_start p = \<lparr>nxt = 0, workset = [], n_done = 0, out_tok = 0, kvpool = p, launches = []\<rparr>"

definition punica_run :: "punica_cfg \<Rightarrow> kv_pool \<Rightarrow> (py_error + punica) option" where
  "punica_run cfg p = engine_loop cfg (punica_start p)"

text \<open>The recorded row: \<open>n / wall\<close> raises if the clock did not move.\<close>

definition punica_tput :: "punica \<Rightarrow> real \<Rightarrow> py_error + real" where
  "punica_tput st wall = (if wall = 0 then Inl ZeroDivisionError else Inr (real (out_tok st) / wall))"

subsection \<open>The LoRA segments\<close>

text \<open>\<open>xs\<close> lists the adapter of every token of the launch.\<close>

definition segments_of :: "int list \<Rightarrow> int list \<times> int list \<times> nat list \<Rightarrow> bool" where
  "segments_of xs = (\<lambda>(ids, li, ll). length ids = length xs \<and> li = remdups_adj xs \<and> length ll = length li \<and>
     concat (map2 replicate ll li) = xs)"

lemma remdups_adj_snoc:
  "remdups_adj (xs @ [a]) = (if xs \<noteq> [] \<and> last xs = a then remdups_adj xs else remdups_adj xs @ [a])"
  by (cases xs rule: rev_cases) (auto simp: remdups_adj_append_two)

lemma segments_of_decode:
  assumes "segments_of xs (ids, li, ll)"
  shows "segments_of (xs @ [lidx cfg ! wi w]) (add_decode cfg w (ids, li, ll))"
proof (cases "li \<noteq> [] \<and> last li = lidx cfg ! wi w")
  case True
  then obtain li0 ll0 l where s: "li = li0 @ [lidx cfg ! wi w]" "ll = ll0 @ [l]" "length ll0 = length li0"
    using assms by (cases li rule: rev_cases; cases ll rule: rev_cases) (auto simp: segments_of_def)
  have "xs \<noteq> []" "last xs = lidx cfg ! wi w" using assms True by (auto simp: segments_of_def)
  then have "li = remdups_adj (xs @ [lidx cfg ! wi w])" using assms by (simp add: segments_of_def remdups_adj_snoc)
  moreover have "concat (map2 replicate ll li) = xs" using assms unfolding segments_of_def by blast
  then have "concat (map2 replicate (ll0 @ [l + 1]) li) = xs @ [lidx cfg ! wi w]"
    using s(3) by (auto simp: s(1,2) replicate_append_same)
  moreover have "length ids = length xs" "length ll = length li" using assms by (auto simp: segments_of_def)
  moreover have "add_decode cfg w (ids, li, ll) = (ids @ [last (wout w)], li, ll0 @ [l + 1])"
    using True s(2) by (simp add: add_decode_def)
  ultimately show ?thesis using s(2) by (simp add: segments_of_def)
next
  case False
  then have "remdups_adj (xs @ [lidx cfg ! wi w]) = li @ [lidx cfg ! wi w]"
    using assms by (auto simp: segments_of_def remdups_adj_snoc)
  then show ?thesis using assms False by (auto simp: segments_of_def add_decode_def Let_def)
qed

lemma segments_of_decodes:
  "segments_of xs s \<Longrightarrow> segments_of (xs @ map (\<lambda>w. lidx cfg ! wi w) ws) (fold (add_decode cfg) ws s)"
proof (induction ws arbitrary: xs s)
  case (Cons w ws)
  obtain ids li ll where s: "s = (ids, li, ll)" by (cases s) auto
  show ?case using Cons.IH [OF segments_of_decode [of xs ids li ll cfg w]] Cons.prems by (simp add: s)
qed simp

lemma segments_of_prompt:
  assumes "pr \<noteq> []"
  shows "segments_of (replicate (length pr) (lidx cfg ! i)) (add_prompt cfg (i, pr, kv) ([], [], []))"
  using assms by (simp add: segments_of_def add_prompt_def remdups_adj_replicate)

lemma length_segments: "concat (map2 replicate ll li) = xs \<Longrightarrow> length ll = length li \<Longrightarrow> sum_list ll = length xs"
  by (induction ll li arbitrary: xs rule: list_induct2') auto

lemma distinct_remdups_adj_sorted: "sorted xs \<Longrightarrow> distinct (remdups_adj xs)"
  for xs :: "'a::linorder list"
  by (induction xs rule: remdups_adj.induct) auto

lemma length_remdups_adj_append: "length (remdups_adj (xs @ ys)) \<le> length (remdups_adj xs) + length (remdups_adj ys)"
proof (induction ys rule: rev_induct)
  case (snoc y ys)
  then show ?case by (auto simp: remdups_adj_snoc simp flip: append_assoc)
qed simp

lemma few_segments:
  assumes "sorted ys" and "set ys \<subseteq> {0..<k}"
  shows "length (remdups_adj (replicate m a @ ys)) \<le> Suc (nat k)"
proof -
  have "length (remdups_adj ys) = card (set ys)" using distinct_card [OF distinct_remdups_adj_sorted [OF assms(1)]] by simp
  also have "\<dots> \<le> nat k" using card_mono [OF _ assms(2)] by simp
  finally have "length (remdups_adj ys) \<le> nat k" .
  moreover have "length (remdups_adj (replicate m a)) \<le> 1" by (simp add: remdups_adj_replicate)
  ultimately show ?thesis using length_remdups_adj_append [of "replicate m a" ys] by linarith
qed

subsection \<open>What an iteration keeps\<close>

definition punica_cfg_ok :: "punica_cfg \<Rightarrow> bool" where
  "punica_cfg_ok cfg \<longleftrightarrow> length (lidx cfg) = length (plens cfg) \<and> (\<forall>n\<in>set (plens cfg). 0 < n) \<and>
     set (lidx cfg) \<subseteq> {0..<n_loras cfg} \<and> (\<forall>i<length (plens cfg). length (prompt_ids cfg i) = plens cfg ! i) \<and>
     1 < max_tokens cfg \<and> 0 < batch_cap cfg \<and> (\<forall>la. length (model_tokens cfg la) = length (la_ids la))"

definition work_ok :: "punica_cfg \<Rightarrow> work \<Rightarrow> bool" where
  "work_ok cfg w \<longleftrightarrow> wi w < length (plens cfg) \<and> seqlen (wkv w) = int (plens cfg ! wi w + length (wout w)) \<and>
     wout w \<noteq> [] \<and> int (length (wout w)) < max_tokens cfg"

definition launch_ok :: "punica_cfg \<Rightarrow> launch \<Rightarrow> bool" where
  "launch_ok cfg la \<longleftrightarrow> sum_list (la_lens la) = length (la_ids la) \<and> length (la_lens la) = length (la_loras la) \<and>
     distinct_adj (la_loras la) \<and> length (la_loras la) \<le> Suc (nat (n_loras cfg)) \<and>
     length (la_ids la) = doff (la_len la) + bl_decode (la_len la) \<and>
     int (length (bl_prefills (la_len la)) + bl_decode (la_len la)) \<le> batch_cap cfg"

definition work_tokens :: "work list \<Rightarrow> nat" where
  "work_tokens ws = sum_list (map (\<lambda>w. length (wout w)) ws)"

definition punica_inv :: "punica_cfg \<Rightarrow> punica \<Rightarrow> bool" where
  "punica_inv cfg st \<longleftrightarrow> pool_holds (p_addr cfg) (kvpool st) (mset (map wkv (workset st))) \<and>
     (\<forall>w\<in>set (workset st). work_ok cfg w) \<and> n_done st + length (workset st) = nxt st \<and> nxt st \<le> length (plens cfg) \<and>
     int (out_tok st) = int (n_done st) * max_tokens cfg + int (work_tokens (workset st)) \<and>
     int (length (workset st)) \<le> batch_cap cfg \<and> sorted (map (\<lambda>w. lidx cfg ! wi w) (workset st)) \<and>
     (\<forall>la\<in>set (launches st). launch_ok cfg la)"

lemma kv_pages_nonempty:
  assumes "kv_ok addr p c" and "0 < page_len p" and "0 < seqlen c"
  shows "kv_pages c \<noteq> []"
proof
  assume "kv_pages c = []"
  then have "pages_for p (seqlen c) = 0" using assms(1) by (simp add: kv_ok_def)
  then show False using assms(2,3) by (simp add: pages_for_def zdiv_eq_0_iff)
qed

lemma opt_batch_ok:
  assumes "pool_holds addr p C" and "mset cs \<subseteq># C" and "\<forall>c\<in>set cs. 0 < seqlen c"
  shows "\<exists>b. opt_batch p cs = Inr b"
proof -
  have "kv_ok addr p c \<and> kv_pages c \<noteq> []" if "c \<in> set cs" for c
    using assms kv_pages_nonempty [of addr p c] that set_mset_mono [OF assms(2)] by (auto simp: pool_holds_def)
  then obtain b where "batch_caches p cs \<lparr>bk_ptrs = [], bk_indptr = [0], bk_last_page_offset = []\<rparr> = Inr b"
    using batch_caches_ok [of cs addr p] by blast
  then show ?thesis by (simp add: opt_batch_def batched_kv_cache_def)
qed

lemma start_new_ok:
  assumes "pool_holds addr p (mset (map (\<lambda>(i, pr, kv). kv) new) + C)" and "addr = p_addr cfg" and "length toks = length new"
  shows "\<exists>ws p'. start_new cfg new toks p = Inr (ws, p') \<and> pool_holds addr p' (mset (map wkv ws) + C) \<and>
    list_all2 (\<lambda>(i, pr, kv) w. wi w = i \<and> seqlen (wkv w) = seqlen kv + 1 \<and> length (wout w) = 1) new ws"
  using assms
proof (induction cfg new toks p arbitrary: C rule: start_new.induct)
  case (3 cfg i pr kv ns t toks p)
  have h: "pool_holds addr p (add_mset kv (mset (map (\<lambda>(i, pr, kv). kv) ns) + C))" using "3.prems"(1) by simp
  obtain kv' p1 where 1: "acquire_one addr (p_junk cfg) kv p = Inr (kv', p1)"
    "pool_holds addr p1 (add_mset kv' (mset (map (\<lambda>(i, pr, kv). kv) ns) + C))" "seqlen kv' = seqlen kv + 1"
    using acquire_one_holds [OF h, of "p_junk cfg"] by blast
  obtain ws p' where "start_new cfg ns toks p1 = Inr (ws, p')" "pool_holds addr p' (mset (map wkv ws) + add_mset kv' C)"
    "list_all2 (\<lambda>(i, pr, kv) w. wi w = i \<and> seqlen (wkv w) = seqlen kv + 1 \<and> length (wout w) = 1) ns ws"
    using "3.IH" [of "(kv', p1)" kv' p1 "add_mset kv' C"] 1 "3.prems" by auto
  then show ?case using 1 "3.prems"(2) by simp
qed simp_all

lemma decode_all_ok:
  assumes "pool_holds addr p (mset (map wkv ws) + C)" and "addr = p_addr cfg" and "length toks = length ws"
    and "\<forall>w\<in>set ws. work_ok cfg w"
  shows "\<exists>us d p'. decode_all cfg ws toks p = Inr (us, d, p') \<and> pool_holds addr p' (mset (map wkv us) + C) \<and>
    (\<forall>w\<in>set us. work_ok cfg w) \<and> length us + d = length ws \<and>
    int (work_tokens us) + int d * max_tokens cfg = int (work_tokens ws + length ws)"
  using assms
proof (induction cfg ws toks p arbitrary: C rule: decode_all.induct)
  case (3 cfg w ws t toks p)
  let ?w = "w\<lparr>wout := wout w @ [t]\<rparr>"
  have h: "pool_holds addr p (add_mset (wkv w) (mset (map wkv ws) + C))" using "3.prems"(1) by simp
  show ?case
  proof (cases "int (length (wout ?w)) = max_tokens cfg")
    case True
    obtain kv p1 where 1: "kv_release (wkv w) p = Inr (kv, p1)" "pool_holds addr p1 (mset (map wkv ws) + C)"
      using kv_release_holds [OF h] by blast
    obtain us d p' where "decode_all cfg ws toks p1 = Inr (us, d, p')" "pool_holds addr p' (mset (map wkv us) + C)"
      "\<forall>w\<in>set us. work_ok cfg w" "length us + d = length ws"
      "int (work_tokens us) + int d * max_tokens cfg = int (work_tokens ws + length ws)"
      using "3.IH"(1) [OF refl True, of "(kv, p1)" kv p1 C] 1 "3.prems" by auto
    then show ?thesis using 1(1) True by (simp add: work_tokens_def algebra_simps)
  next
    case False
    obtain kv p1 where 1: "acquire_one addr (p_junk cfg) (wkv w) p = Inr (kv, p1)"
      "pool_holds addr p1 (add_mset kv (mset (map wkv ws) + C))" "seqlen kv = seqlen (wkv w) + 1"
      using acquire_one_holds [OF h, of "p_junk cfg"] by blast
    have "work_ok cfg (?w\<lparr>wkv := kv\<rparr>)" using "3.prems"(4) False 1(3) by (auto simp: work_ok_def)
    moreover obtain us d p' where "decode_all cfg ws toks p1 = Inr (us, d, p')"
      "pool_holds addr p' (mset (map wkv us) + add_mset kv C)" "\<forall>w\<in>set us. work_ok cfg w" "length us + d = length ws"
      "int (work_tokens us) + int d * max_tokens cfg = int (work_tokens ws + length ws)"
      using "3.IH"(2) [OF refl False, of "(kv, p1)" kv p1 "add_mset kv C"] 1 "3.prems" by auto
    ultimately show ?thesis using 1(1) False "3.prems"(2) by (simp add: work_tokens_def)
  qed
qed (simp_all add: work_tokens_def)

subsection \<open>The iterations\<close>

definition admitted_ok :: "punica_cfg \<Rightarrow> punica \<Rightarrow> admitted list \<Rightarrow> bool" where
  "admitted_ok cfg st new \<longleftrightarrow> new = [] \<and> \<not> (int (length (workset st)) < batch_cap cfg \<and> nxt st < length (plens cfg)) \<or>
     (\<exists>kv. new = [(nxt st, prompt_ids cfg (nxt st), kv)] \<and> seqlen kv = int (plens cfg ! nxt st) \<and>
        int (length (workset st)) < batch_cap cfg \<and> nxt st < length (plens cfg))"

lemma admit_ok:
  assumes "punica_inv cfg st"
  shows "\<exists>new p. admit cfg st = Inr (new, st\<lparr>nxt := nxt st + length new, kvpool := p\<rparr>) \<and> admitted_ok cfg st new \<and>
    pool_holds (p_addr cfg) p (mset (map (\<lambda>(i, pr, kv). kv) new) + mset (map wkv (workset st)))"
proof (cases "int (length (workset st)) < batch_cap cfg \<and> nxt st < length (plens cfg)")
  case True
  obtain kv p where kv: "kv_init (p_addr cfg) (int (plens cfg ! nxt st)) (kvpool st) = Inr (kv, p)"
    "pool_holds (p_addr cfg) p (add_mset kv (mset (map wkv (workset st))))" "seqlen kv = int (plens cfg ! nxt st)"
    using kv_init_holds [of "p_addr cfg" "kvpool st" "mset (map wkv (workset st))" "int (plens cfg ! nxt st)"] assms
    by (auto simp: punica_inv_def)
  then show ?thesis using True
    by (intro exI [of _ "[(nxt st, prompt_ids cfg (nxt st), kv)]"] exI [of _ p]) (simp add: admit_def admitted_ok_def)
next
  case False
  then have "admit cfg st = Inr ([], st)" by (auto simp: admit_def)
  then show ?thesis using False assms
    by (intro exI [of _ "[]"] exI [of _ "kvpool st"]) (simp add: admitted_ok_def punica_inv_def)
qed

lemma work_ok_seqlen: "work_ok cfg w \<Longrightarrow> 0 < seqlen (wkv w)"
  using length_greater_0_conv [of "wout w"] unfolding work_ok_def by linarith

lemma admitted_shape:
  assumes "punica_cfg_ok cfg" and "admitted_ok cfg st new"
  shows "new = [] \<or> (\<exists>i pr kv. new = [(i, pr, kv)] \<and> pr \<noteq> [] \<and> i < length (plens cfg) \<and> 0 < seqlen kv)"
proof (cases "new = []")
  case False
  then obtain kv where n: "new = [(nxt st, prompt_ids cfg (nxt st), kv)]" "seqlen kv = int (plens cfg ! nxt st)"
    "nxt st < length (plens cfg)" using assms(2) by (auto simp: admitted_ok_def)
  then have "0 < plens cfg ! nxt st" "length (prompt_ids cfg (nxt st)) = plens cfg ! nxt st"
    using assms(1) by (simp_all add: punica_cfg_ok_def)
  then show ?thesis using n by auto
qed simp

text \<open>The number of prompt tokens of a launch.\<close>

definition prompt_tokens :: "admitted list \<Rightarrow> nat" where
  "prompt_tokens new = sum_list (map (\<lambda>(i, pr, kv). length pr) new)"

lemma launch_segments_ok:
  assumes "punica_cfg_ok cfg" and "punica_inv cfg st" and "admitted_ok cfg st new" and "new \<noteq> [] \<or> workset st \<noteq> []"
    and "fold (add_decode cfg) (workset st) (fold (add_prompt cfg) new ([], [], [])) = (ids, li, ll)"
  shows "lora_weights cfg li ll = Inr ()" and "length ll = length li" and "sum_list ll = length ids"
    and "length ids = prompt_tokens new + length (workset st)" and "distinct_adj li" and "length li \<le> Suc (nat (n_loras cfg))"
proof -
  let ?ws = "workset st" and ?f = "\<lambda>w. lidx cfg ! wi w"
  note inv = assms(2) [unfolded punica_inv_def] and new = admitted_shape [OF assms(1,3)]
  have lid: "lidx cfg ! i \<in> {0..<n_loras cfg}" if "i < length (plens cfg)" for i
    using assms(1) that unfolding punica_cfg_ok_def by (metis nth_mem subsetD)
  define a where "a = (case new of [] \<Rightarrow> 0 | (i, pr, kv) # _ \<Rightarrow> lidx cfg ! i)"
  have "segments_of (replicate (prompt_tokens new) a) (fold (add_prompt cfg) new ([], [], []))"
    using new segments_of_prompt by (auto simp: prompt_tokens_def a_def segments_of_def [of "[]"])
  then have "segments_of (replicate (prompt_tokens new) a @ map ?f ?ws) (ids, li, ll)"
    using segments_of_decodes [of _ _ cfg ?ws] assms(5) by metis
  then have li: "li = remdups_adj (replicate (prompt_tokens new) a @ map ?f ?ws)" "length ll = length li" "sum_list ll = length ids"
    "length ids = prompt_tokens new + length ?ws"
    using length_segments [of ll li] by (auto simp: segments_of_def)
  then show "length ll = length li" "sum_list ll = length ids" "length ids = prompt_tokens new + length ?ws" "distinct_adj li" by auto
  have ws: "set (map ?f ?ws) \<subseteq> {0..<n_loras cfg}" using inv lid by (auto simp: work_ok_def)
  then show "length li \<le> Suc (nat (n_loras cfg))" using few_segments [OF _ ws] inv by (simp add: li(1))
  have "set (replicate (prompt_tokens new) a) \<subseteq> {0..<n_loras cfg}" using new lid by (auto simp: prompt_tokens_def a_def)
  then have "set li \<subseteq> {0..<n_loras cfg}" using ws by (simp add: li(1))
  moreover have "li \<noteq> []" using assms(4) new by (auto simp: li(1) prompt_tokens_def)
  ultimately show "lora_weights cfg li ll = Inr ()" using li(2) by (fastforce simp: lora_weights_def list_ex_iff)
qed

lemma build_launch_ok:
  assumes "punica_cfg_ok cfg" and "punica_inv cfg st" and "admitted_ok cfg st new" and "new \<noteq> [] \<or> workset st \<noteq> []"
    and "pool_holds (p_addr cfg) p (mset (map (\<lambda>(i, pr, kv). kv) new) + mset (map wkv (workset st)))"
  shows "\<exists>la. build_launch cfg p new (workset st) = Inr la \<and> launch_ok cfg la \<and>
    (\<forall>rows. length rows = length (la_ids la) \<longrightarrow>
      length (prompt_rows la rows) = length new \<and> length (decode_rows la rows) = length (workset st))"
proof -
  let ?ws = "workset st"
  let ?blen = "batch_len_info (map (\<lambda>(i, pr, kv). length pr) new) (length ?ws)"
  note inv = assms(2) [unfolded punica_inv_def] and new = admitted_shape [OF assms(1,3)]
  obtain ids li ll where f: "fold (add_decode cfg) ?ws (fold (add_prompt cfg) new ([], [], [])) = (ids, li, ll)"
    by (cases "fold (add_decode cfg) ?ws (fold (add_prompt cfg) new ([], [], []))") auto
  note li = launch_segments_ok [OF assms(1-4) f]
  have pos: "\<forall>c\<in>set (map wkv ?ws). 0 < seqlen c" "\<forall>c\<in>set (map (\<lambda>(i, pr, kv). kv) new). 0 < seqlen c"
    using inv work_ok_seqlen new by auto
  obtain pk dk where "opt_batch p (map (\<lambda>(i, pr, kv). kv) new) = Inr pk" "opt_batch p (map wkv ?ws) = Inr dk"
    using opt_batch_ok [OF assms(5) _ pos(1)] opt_batch_ok [OF assms(5) _ pos(2)] by auto
  then have b: "build_launch cfg p new ?ws =
      Inr \<lparr>la_ids = ids, la_len = ?blen, la_prefill = pk, la_decode = dk, la_loras = li, la_lens = ll\<rparr>"
    by (simp add: build_launch_def f li(1))
  have cap: "int (length new + length ?ws) \<le> batch_cap cfg" using assms(3) inv by (auto simp: admitted_ok_def)
  have blen: "doff ?blen = prompt_tokens new" "bl_decode ?blen = length ?ws" "length (bl_prefills ?blen) = length new"
    "case bl_indptr ?blen of None \<Rightarrow> new = [] | Some xs \<Rightarrow> length (tl xs) = length new"
    using new by (auto simp: batch_len_info_def prompt_tokens_def)
  show ?thesis using cap li(2-6) blen by (auto simp: b launch_ok_def prompt_rows_def decode_rows_def split: option.splits)
qed

lemma started_ok:
  assumes "punica_cfg_ok cfg" and "admitted_ok cfg st new"
    and "list_all2 (\<lambda>(i, pr, kv) w. wi w = i \<and> seqlen (wkv w) = seqlen kv + 1 \<and> length (wout w) = 1) new ws"
  shows "length ws = length new" and "work_tokens ws = length new" and "\<forall>w\<in>set ws. work_ok cfg w"
  using assms by (auto simp: admitted_ok_def work_tokens_def work_ok_def punica_cfg_ok_def list_all2_Cons1)

lemma engine_step_ok:
  assumes "punica_cfg_ok cfg" and "punica_inv cfg st" and "n_done st < length (plens cfg)"
  shows "\<exists>st'. engine_step cfg st = Inr st' \<and> punica_inv cfg st' \<and> out_tok st < out_tok st'"
proof -
  let ?ws = "workset st"
  note inv = assms(2) [unfolded punica_inv_def]
  obtain new p where ad: "admit cfg st = Inr (new, st\<lparr>nxt := nxt st + length new, kvpool := p\<rparr>)" "admitted_ok cfg st new"
    and p: "pool_holds (p_addr cfg) p (mset (map (\<lambda>(i, pr, kv). kv) new) + mset (map wkv ?ws))"
    using admit_ok [OF assms(2)] by blast
  have busy: "new \<noteq> [] \<or> ?ws \<noteq> []"
    using ad(2) inv assms(1,3) by (auto simp: admitted_ok_def punica_cfg_ok_def)
  obtain la where la: "build_launch cfg p new ?ws = Inr la" "launch_ok cfg la"
    "length (prompt_rows la (model_tokens cfg la)) = length new" "length (decode_rows la (model_tokens cfg la)) = length ?ws"
    using build_launch_ok [OF assms(1,2) ad(2) busy p] assms(1) unfolding punica_cfg_ok_def by blast
  obtain started p1 where s: "start_new cfg new (prompt_rows la (model_tokens cfg la)) p = Inr (started, p1)"
    "pool_holds (p_addr cfg) p1 (mset (map wkv started) + mset (map wkv ?ws))"
    "list_all2 (\<lambda>(i, pr, kv) w. wi w = i \<and> seqlen (wkv w) = seqlen kv + 1 \<and> length (wout w) = 1) new started"
    using start_new_ok [OF p refl la(3)] by blast
  note st = started_ok [OF assms(1) ad(2) s(3)]
  obtain kept d p2 where k: "decode_all cfg ?ws (decode_rows la (model_tokens cfg la)) p1 = Inr (kept, d, p2)"
    "pool_holds (p_addr cfg) p2 (mset (map wkv kept) + mset (map wkv started))" "\<forall>w\<in>set kept. work_ok cfg w"
    "length kept + d = length ?ws" "int (work_tokens kept) + int d * max_tokens cfg = int (work_tokens ?ws + length ?ws)"
    using decode_all_ok [of "p_addr cfg" p1 ?ws "mset (map wkv started)" cfg] s(2) la(4) inv
    by (metis (no_types, lifting) add.commute)
  define st' where "st' = st\<lparr>nxt := nxt st + length new, workset := sort_key (\<lambda>w. lidx cfg ! wi w) (started @ kept),
    n_done := n_done st + d, out_tok := out_tok st + length new + length ?ws, kvpool := p2, launches := launches st @ [la]\<rparr>"
  have step: "engine_step cfg st = Inr st'"
    using ad(1) la(1) s(1) k(1) by (simp add: engine_step_def Let_def st'_def)
  have ws': "mset (workset st') = mset started + mset kept" by (simp add: st'_def)
  have "mset (map wkv (workset st')) = mset (map wkv kept) + mset (map wkv started)"
    by (simp add: ws' add.commute)
  moreover have "length (workset st') = length new + length kept" using st(1) by (simp add: st'_def)
  moreover have "set (workset st') = set started \<union> set kept" by (simp add: st'_def)
  moreover have "work_tokens (workset st') = length new + work_tokens kept"
    using st(2) sum_mset_sum_list [of "map (\<lambda>w. length (wout w)) (workset st')"] ws'
    by (simp add: work_tokens_def flip: sum_mset_sum_list)
  moreover have "nxt st + length new \<le> length (plens cfg)" "int (length new + length ?ws) \<le> batch_cap cfg"
    using ad(2) inv by (auto simp: admitted_ok_def)
  moreover have "sorted (map (\<lambda>w. lidx cfg ! wi w) (workset st'))" by (simp add: st'_def)
  ultimately have "punica_inv cfg st'" using inv st(3) k la(2)
    by (auto simp: punica_inv_def st'_def algebra_simps)
  moreover have "out_tok st < out_tok st'" using busy by (auto simp: st'_def)
  ultimately show ?thesis using step by blast
qed

subsection \<open>The whole run\<close>

lemma out_tok_bound:
  assumes "punica_cfg_ok cfg" and "punica_inv cfg st"
  shows "int (out_tok st) \<le> int (length (plens cfg)) * max_tokens cfg"
proof -
  note inv = assms(2) [unfolded punica_inv_def]
  have "int (work_tokens ws) \<le> int (length ws) * max_tokens cfg" if "\<forall>w\<in>set ws. work_ok cfg w" for ws
    using that by (induction ws) (auto simp: work_tokens_def work_ok_def algebra_simps)
  from this [of "workset st"] have "int (work_tokens (workset st)) \<le> int (length (workset st)) * max_tokens cfg"
    using inv by blast
  moreover have "int (out_tok st) = int (n_done st) * max_tokens cfg + int (work_tokens (workset st))" using inv by blast
  ultimately have "int (out_tok st) \<le> int (n_done st + length (workset st)) * max_tokens cfg"
    by (simp only: of_nat_add distrib_right)
  also have "\<dots> \<le> int (length (plens cfg)) * max_tokens cfg"
    using inv assms(1) by (intro mult_right_mono) (auto simp: punica_cfg_ok_def)
  finally show ?thesis .
qed

lemma engine_loop_ok:
  assumes "punica_cfg_ok cfg" and "punica_inv cfg st"
  shows "\<exists>st'. engine_loop cfg st = Some (Inr st') \<and> punica_inv cfg st' \<and> length (plens cfg) \<le> n_done st'"
  using assms(2)
proof (induction "nat (int (length (plens cfg)) * max_tokens cfg - int (out_tok st))" arbitrary: st rule: less_induct)
  case less
  show ?case
  proof (cases "n_done st < length (plens cfg)")
    case True
    obtain st1 where 1: "engine_step cfg st = Inr st1" "punica_inv cfg st1" "out_tok st < out_tok st1"
      using engine_step_ok [OF assms(1) less.prems True] by blast
    have "engine_loop cfg st = engine_loop cfg st1" using True 1(1) by (subst engine_loop.simps) simp
    then show ?thesis using less.hyps [OF _ 1(2)] 1(3) out_tok_bound [OF assms(1) 1(2)] by simp
  next
    case False
    then show ?thesis using less.prems by (subst engine_loop.simps) auto
  qed
qed

lemma punica_start_inv:
  assumes "punica_cfg_ok cfg" and "0 < page_len p" and "kv_pool_ok p" and "allocated p = {}"
  shows "punica_inv cfg (punica_start p)"
  using assms by (simp add: punica_inv_def punica_start_def pool_holds_def work_tokens_def punica_cfg_ok_def)

text \<open>C35: Punica's batching loop serves the whole request set. For any prompt lengths and adapter ids of the LoRA
  weights it has, any model that returns a row per token, a positive batch cap and at least two output
  tokens per request: the loop ends without an exception, every request is done with exactly its output
  tokens, and every page of the key-value pool has been freed, none twice. Every launch's LoRA segments cover
  its tokens, neighbouring segments differ, there is at most one more segment than adapters, and a launch
  never holds more sequences than the cap.\<close>

theorem punica_serves_every_request:
  assumes "punica_cfg_ok cfg" and "0 < plen"
  shows "\<exists>st. punica_run cfg (pool_init layers heads hdim plen) = Some (Inr st) \<and>
    n_done st = length (plens cfg) \<and> nxt st = length (plens cfg) \<and> workset st = [] \<and>
    int (out_tok st) = int (length (plens cfg)) * max_tokens cfg \<and> allocated (kvpool st) = {} \<and>
    (\<forall>la\<in>set (launches st). sum_list (la_lens la) = length (la_ids la) \<and> distinct_adj (la_loras la) \<and>
       length (la_loras la) \<le> Suc (nat (n_loras cfg)) \<and>
       int (length (bl_prefills (la_len la)) + bl_decode (la_len la)) \<le> batch_cap cfg)"
proof -
  let ?p = "pool_init layers heads hdim plen"
  have "punica_inv cfg (punica_start ?p)"
    using assms by (intro punica_start_inv) (simp_all add: pool_init_def kv_pool_ok_def)
  then obtain st where st: "engine_loop cfg (punica_start ?p) = Some (Inr st)" "punica_inv cfg st" "length (plens cfg) \<le> n_done st"
    using engine_loop_ok [OF assms(1)] by blast
  note inv = st(2) [unfolded punica_inv_def]
  have "length (workset st) = 0" using inv st(3) by linarith
  then have ws: "workset st = []" "n_done st = length (plens cfg)" "nxt st = length (plens cfg)" using inv st(3) by auto
  then have "mset_set (allocated (kvpool st)) = {#}" using inv by (simp add: pool_holds_def)
  moreover have "finite (allocated (kvpool st))" using inv kv_pool_finite by (auto simp: pool_holds_def)
  ultimately have "allocated (kvpool st) = {}" by (simp add: mset_set_empty_iff)
  then show ?thesis using st(1) inv ws by (auto simp: punica_run_def launch_ok_def work_tokens_def)
qed

definition demo_punica :: punica_cfg where
  "demo_punica = \<lparr>plens = [2, 17, 1], lidx = [1, 0, 1], prompt_ids = (\<lambda>i. replicate ([2, 17, 1] ! i) 5), batch_cap = 2,
     max_tokens = 3, n_loras = 2, p_addr = (\<lambda>page. 4096 * int page), p_junk = (\<lambda>i. 0),
     model_tokens = (\<lambda>la. replicate (length (la_ids la)) 7)\<rparr>"

theorem punica_serves_every_request_witness:
  "\<exists>st. punica_run demo_punica (pool_init 2 2 4 16) = Some (Inr st) \<and> n_done st = 3 \<and> out_tok st = 9 \<and>
     allocated (kvpool st) = {}"
proof -
  have "length (prompt_ids demo_punica i) = plens demo_punica ! i" if "i < 3" for i by (simp add: demo_punica_def)
  then have "punica_cfg_ok demo_punica" by (simp add: punica_cfg_ok_def) (simp add: demo_punica_def)
  then obtain st where "punica_run demo_punica (pool_init 2 2 4 16) = Some (Inr st)" "n_done st = length (plens demo_punica)"
    "int (out_tok st) = int (length (plens demo_punica)) * max_tokens demo_punica" "allocated (kvpool st) = {}"
    using punica_serves_every_request [of demo_punica 16 2 2 4] by auto
  then show ?thesis by (auto simp: demo_punica_def)
qed

subsection \<open>The request set of the experiment\<close>

text \<open>The 400 requests after the warm-up of 30, over 10 adapters; \<open>tok_len\<close> is the tokenizer's number of tokens.\<close>

definition punica_requests :: "'r rng_lib \<Rightarrow> generator \<Rightarrow> int \<Rightarrow> py_error + load_request list" where
  "punica_requests lib g seed = map_sum id (drop 30) (zipf lib g 300 430 10 (9/10 :: real) seed)"

definition punica_setup ::
  "load_request list \<Rightarrow> (string \<Rightarrow> nat) \<Rightarrow> (nat \<Rightarrow> int list) \<Rightarrow> int \<Rightarrow> (nat \<Rightarrow> int) \<Rightarrow> (nat \<Rightarrow> int) \<Rightarrow> (launch \<Rightarrow> int list) \<Rightarrow> punica_cfg" where
  "punica_setup reqs tok_len ids bs addr junk model =
     \<lparr>plens = map (tok_len \<circ> prompt) reqs, lidx = map adapter_id reqs, prompt_ids = ids, batch_cap = bs,
      max_tokens = 128, n_loras = 10, p_addr = addr, p_junk = junk, model_tokens = model\<rparr>"

lemma punica_requests_ok:
  assumes "rng_ok lib" and "gen_prompts g \<noteq> []"
  shows "\<exists>reqs. punica_requests lib g seed = Inr reqs \<and> length reqs = 400 \<and> adapter_id ` set reqs \<subseteq> {0..<10}"
proof -
  let ?arr = "poisson_arrivals lib 300 430 (rng_new lib seed)"
  let ?us = "fst (draws (rng_random lib) 430 (snd ?arr))"
  let ?cdf = "cumulate (\<Sum>l<nat 10. (real l + 1) powr (- (9/10))) 0 (zipf_weights 10 (9/10))"
  obtain reqs where r: "zipf lib g 300 430 10 (9/10 :: real) seed = Inr reqs"
    "map adapter_id reqs = map (\<lambda>u. search_cdf ?cdf u 0 (10 - 1)) ?us"
    using zipf_ok [OF assms(1) _ assms(2), where K = 10 and rate = 300 and n = 430 and seed = seed and alpha = "9/10"] by auto
  have us: "u < 1" if "u \<in> set ?us" for u
    using assms(1) set_draws [of "\<lambda>u. u < 1" "rng_random lib" u 430 "snd ?arr"] that by (auto simp: rng_ok_def)
  have "length reqs = 430" using arg_cong [OF r(2), of length] by simp
  moreover have "adapter_id ` set reqs = (\<lambda>u. search_cdf ?cdf u 0 (10 - 1)) ` set ?us"
    using arg_cong [OF r(2), of set] by simp
  then have "adapter_id ` set reqs \<subseteq> {0..<10}"
    using zipf_interval(1) [where K = 10 and alpha = "9/10"] us by (force simp del: sum.lessThan_Suc)
  ultimately show ?thesis using r(1) by (auto simp: punica_requests_def dest: in_set_dropD)
qed

text \<open>The measured request set meets what the loop needs, for a tokenizer that gives every prompt a token.\<close>

lemma punica_setup_ok:
  assumes "rng_ok lib" and "gen_prompts g \<noteq> []" and "punica_requests lib g seed = Inr reqs" and "\<And>p. 0 < tok_len p"
    and "\<And>i. i < 400 \<Longrightarrow> length (ids i) = tok_len (prompt (reqs ! i))" and "0 < bs"
    and "\<And>la. length (model la) = length (la_ids la)"
  shows "punica_cfg_ok (punica_setup reqs tok_len ids bs addr junk model)"
    and "length (plens (punica_setup reqs tok_len ids bs addr junk model)) = 400"
  using punica_requests_ok [OF assms(1,2), of seed] assms(3-)
  by (auto simp: punica_cfg_ok_def punica_setup_def)

end
