(* ===== verification/Dlora.thy ===== *)
theory Dlora
  imports ApisBench Lifecycle
begin

text \<open>
  \<^verbatim>\<open>benchmarks/paper/dlora_engine.py\<close>: the client of the dLoRA baseline. The answers of its server and the times at which
  they come are arguments; the times are those of \<open>time.perf_counter()\<close>.
\<close>

subsection \<open>The server\<close>

definition dlora_cmd :: "string \<Rightarrow> string \<Rightarrow> int \<Rightarrow> int \<Rightarrow> string list" where
  "dlora_cmd py mdl prt K =
     [py, ''-m'', ''vllm.entrypoints.api_server'', ''--host'', ''127.0.0.1'', ''--port'', py_str prt,
      ''--model'', mdl, ''--tokenizer'', mdl, ''--use-dummy-weights'', ''--exec-type'', ''3'',
      ''--num-models'', py_str K, ''--num-groups'', ''1'', ''--max-r'', ''32'', ''--engine-use-ray'',
      ''--worker-use-ray'', ''--disable-log-requests'', ''--max-num-seqs'', ''256'', ''--swap-space'', ''4'']"

text \<open>The \<open>for ... else\<close>: \<open>probe i\<close> is the status of the i-th probe, \<open>None\<close> an exception.\<close>

datatype dlora_error = NotUp | Failed | Python py_error

fun wait_dlora :: "(nat \<Rightarrow> nat option) \<Rightarrow> nat \<Rightarrow> nat \<Rightarrow> dlora_error + nat" where
  "wait_dlora probe i 0 = Inl NotUp"
| "wait_dlora probe i (Suc n) = (if probe i = Some 200 then Inr i else wait_dlora probe (i + 1) n)"

subsection \<open>The measured requests\<close>

text \<open>The delays from the start of the measurement: the warm-up requests come before it, all at once.\<close>

definition dlora_delays :: "nat \<Rightarrow> load_request list \<Rightarrow> real list" where
  "dlora_delays WU reqs = (let send = send_times 0 reqs; base = send ! WU in map (\<lambda>s. s - base) (drop WU send))"

definition dlora_payload :: "int \<Rightarrow> load_request \<Rightarrow> string \<times> int \<times> int" where
  "dlora_payload MT r = (load_request.prompt r, load_request.adapter_id r, MT)"

text \<open>What became of a request: the time at which its body was read, whatever its status, or an exception.\<close>

datatype dlora_answer = Body nat real | Broken

text \<open>\<open>asyncio.gather\<close> raises the first exception; \<open>done\<close> has one time per request.\<close>

fun gather :: "dlora_answer list \<Rightarrow> real list option" where
  "gather [] = Some []"
| "gather (Broken # as) = None"
| "gather (Body status t # as) = map_option (\<lambda>ts. t # ts) (gather as)"

record dlora_row =
  dl_tput :: real
  dl_n :: nat
  dl_wall :: real

text \<open>\<open>max(done)\<close> of no time raises ValueError.\<close>

definition dlora_main :: "int \<Rightarrow> (nat \<Rightarrow> nat option) \<Rightarrow> dlora_answer list \<Rightarrow> real \<Rightarrow> dlora_answer list \<Rightarrow> dlora_error + dlora_row" where
  "dlora_main MT probe warmed t0 answers =
     (case wait_dlora probe 0 600 of
        Inl e \<Rightarrow> Inl e
      | Inr i \<Rightarrow>
          (case (gather warmed, gather answers) of
             (Some ws, Some ts) \<Rightarrow>
               if ts = [] then Inl (Python ValueError)
               else (let wall = Max (set ts) - t0
                     in if wall = 0 then Inl (Python ZeroDivisionError)
                        else Inr \<lparr>dl_tput = real (length ts) * of_int MT / wall, dl_n = length ts, dl_wall = wall\<rparr>)
           | _ \<Rightarrow> Inl Failed))"

subsection \<open>Facts\<close>

lemma wait_dlora_first:
  "wait_dlora probe i n = Inr k \<Longrightarrow> i \<le> k \<and> k < i + n \<and> probe k = Some 200 \<and> (\<forall>j. i \<le> j \<longrightarrow> j < k \<longrightarrow> probe j \<noteq> Some 200)"
proof (induction probe i n rule: wait_dlora.induct)
  case (2 probe i n)
  show ?case
  proof (cases "probe i = Some 200")
    case False
    then have ih: "i + 1 \<le> k \<and> k < i + 1 + n \<and> probe k = Some 200 \<and> (\<forall>j. i + 1 \<le> j \<longrightarrow> j < k \<longrightarrow> probe j \<noteq> Some 200)"
      using 2 by simp
    have "probe j \<noteq> Some 200" if "i \<le> j" "j < k" for j using ih False that by (cases "j = i") auto
    then show ?thesis using ih by auto
  qed (use 2 in auto)
qed simp

lemma send_times_length [simp]: "length (send_times t reqs) = length reqs"
  by (induction t reqs rule: send_times.induct) simp_all

lemma send_times_ge: "\<forall>r\<in>set reqs. 0 \<le> inter_arrival_s r \<Longrightarrow> \<forall>s\<in>set (send_times t reqs). t \<le> s"
  by (induction t reqs rule: send_times.induct) fastforce+

lemma send_times_sorted: "\<forall>r\<in>set reqs. 0 \<le> inter_arrival_s r \<Longrightarrow> sorted (send_times t reqs)"
  by (induction t reqs rule: send_times.induct) (auto dest: send_times_ge)

text \<open>The measured requests start at 0 and keep the gaps of the trace.\<close>

lemma dlora_delays_ok:
  assumes "WU < length reqs" and "\<forall>r\<in>set reqs. 0 \<le> inter_arrival_s r"
  shows "length (dlora_delays WU reqs) = length reqs - WU \<and> hd (dlora_delays WU reqs) = 0 \<and> sorted (dlora_delays WU reqs)"
proof -
  let ?s = "send_times 0 reqs"
  have "sorted (drop WU ?s)" using send_times_sorted [OF assms(2), of 0] by (rule sorted_wrt_drop)
  then have "sorted (map (\<lambda>s. s - ?s ! WU) (drop WU ?s))" by (auto simp: sorted_iff_nth_mono)
  moreover have "hd (map (\<lambda>s. s - ?s ! WU) (drop WU ?s)) = 0" using assms(1) by (simp add: hd_map hd_drop_conv_nth)
  ultimately show ?thesis by (simp add: dlora_delays_def Let_def)
qed

lemma gather_times: "gather as = Some ts \<Longrightarrow> length ts = length as \<and> Broken \<notin> set as"
  by (induction as arbitrary: ts rule: gather.induct) auto

fun with_status :: "nat \<Rightarrow> dlora_answer \<Rightarrow> dlora_answer" where
  "with_status s Broken = Broken"
| "with_status s (Body s' t) = Body s t"

lemma gather_status: "gather (map (with_status s) as) = gather as"
  by (induction as rule: gather.induct) simp_all

text \<open>The baseline's throughput counts all tokens of every request whose body was read. The status is not looked at: a
  server that answers every request with an error is credited with the full token count.\<close>

lemma every_body_counts:
  assumes "dlora_main MT probe warmed t0 answers = Inr row"
  shows "dl_n row = length answers \<and> Broken \<notin> set answers \<and> dl_tput row * dl_wall row = real (length answers) * of_int MT \<and>
    dlora_main MT probe warmed t0 (map (with_status s) answers) = Inr row"
  using assms gather_times [of answers]
  by (auto simp: dlora_main_def gather_status Let_def split: sum.splits option.splits if_splits)

end
