(* ===== verification/Spec2Isabelle.thy ===== *)
theory Spec2Isabelle
  imports Admission Batches GroupedLora Promoted FusedLaunch Replay AdapterPool Claims OutputCheck
    Engine Layouts Scale Punica Dlora
begin

text \<open>
  Adapter Slots schedules decode steps of a LoRA server (vLLM) so that tokens of one adapter run
  together, and runs them with grouped kernels. This development models its Python and Triton code
  under \<^verbatim>\<open>src/adapter_slots/\<close>, and the load generator, server backends and benchmark harness beside it
  (\<^verbatim>\<open>src/workloads/\<close>, \<^verbatim>\<open>src/backends/\<close>, \<^verbatim>\<open>src/benchmarks/\<close>), and proves what the parts promise.

  \<^bold>\<open>The program.\<close> A scheduler subclass (\<^verbatim>\<open>integrations/vllm_scheduler.py\<close>) takes each step's selection
  from vLLM. Sequences in their first decode step go into the AlignmentBuffer (\<^verbatim>\<open>buffer.py\<close>), which
  holds them per adapter until a warp is full or a deadline passes; later steps of a sequence run
  every tick. Deadlines come from a fixed T_max, a PI controller on the measured alignment (WAR,
  \<^verbatim>\<open>control/\<close>, \<^verbatim>\<open>metrics/\<close>) or an Erlang inversion of the estimated arrival rates (\<^verbatim>\<open>dispatch/erlang.py\<close>);
  adapters are visited in CASH order (\<^verbatim>\<open>dispatch/cash.py\<close>). In WGKP mode the dispatched tokens are cut
  into segments (\<^verbatim>\<open>kernel/wgkp_dispatcher.py\<close>), promoted above a threshold (\<^verbatim>\<open>kernel/apt.py\<close>) to merged
  weights (\<^verbatim>\<open>kernel/l3.py\<close>, \<^verbatim>\<open>kernel/model_runner.py\<close>). The punica wrapper turns the batch into segments
  and tiles and launches the grouped kernels (\<^verbatim>\<open>kernel/segmented_punica_wrapper.py\<close>,
  \<^verbatim>\<open>kernel/tiled_segment_gemm.py\<close>, \<^verbatim>\<open>kernel/tiled_multislice.py\<close>). Prefetching (\<^verbatim>\<open>prefetch/\<close>) tracks a warm set,
  and a router (\<^verbatim>\<open>integrations/apis_router.py\<close>) spreads adapters over shards. The harness
  (\<^verbatim>\<open>benchmarks/ablations/\<close>) starts a server through a backend, whose environment variables configure the
  scheduler, replays a generated trace against it with one task per request, and computes latency
  and throughput from what the tasks recorded.

  \<^bold>\<open>Theories and code.\<close>
  \<^item> Prelude: Python's exceptions as \<open>py_error\<close> (a call that may raise returns \<open>py_error + 'a\<close>), a dict as
    an association list in insertion order, \<open>round\<close>, stable sorting, maximal runs, and the
    interfaces \<open>dict_interface\<close>, \<open>bounded_cache\<close> and \<open>run_encoder\<close>.
  \<^item> Buffer, BufferTick, BufferTrace: every operation of AlignmentBuffer on the record \<open>abuf\<close>; the
    interfaces \<open>queue_dispatch\<close> and \<open>prompt_dispatch\<close>, shared by the four \<open>form_batch\<close> functions;
    histories of calls. Lemmas: conservation of tokens, FIFO service within the budget, deadlines,
    contiguous adapters, first-come-first-served against an abstract queue.
  \<^item> Metrics (\<^verbatim>\<open>metrics/war.py\<close>, \<^verbatim>\<open>metrics/gwar.py\<close>), Control (\<^verbatim>\<open>control/estimator.py\<close>,
    \<^verbatim>\<open>control/pi_controller.py\<close>), Dispatch (\<^verbatim>\<open>dispatch/erlang.py\<close>, \<^verbatim>\<open>dispatch/cash.py\<close>): the loops and their
    numpy versions, the controllers' stability, the deadline formula over scipy's incomplete gamma
    function (interface \<open>incomplete_gamma\<close>).
  \<^item> Wgkp, Apt, L3, Promoted: segments and promotion, threshold selection, the merged-weight cache and
    the model runner's gate; the promotable layers, which compute base plus LoRA where the conversion to the
    weights' type is exact.
  \<^item> Prefetch, Router: predictor, warm cache and policies; sharding.
  \<^item> SchedState, SchedTick: the scheduler's state, its construction from the environment, and one tick
    of each mode with the batch log. SchedBatch, Scheduler: what a tick guarantees in every reachable
    state (\<open>sched_reach\<close>: any interleaving of ticks with changes vLLM makes to its queues).
  \<^item> Admission: the overrides of \<open>_schedule_running\<close>, \<open>_schedule_prefills\<close> and \<open>free_finished_seq_groups\<close>,
    adapter rotation and KV admission.
  \<^item> Segments: \<open>_refresh_segments\<close>, \<open>build_tile_map\<close> and \<open>update_metadata\<close> on the record \<open>wrapper\<close>. Kernels:
    the four Triton kernels as programs on memories. Launches: a whole grid in any order (interface
    \<open>tile_kernel\<close>, interpreted on the packed shrink and expand kernels). GroupedLora: the wrapper's
    operations, and that they compute LoRA. Batches: the scheduler's batches in this metadata.

  \<^item> FusedKernel, FusedLaunch: \<^verbatim>\<open>kernel/fused_lora_kernel.py\<close>: configurations, the one-launch kernel as programs
    that interleave step by step on a shared scratch buffer with counters, the workspace and the
    launch cache; the launch is exact under every interleaving.
  \<^item> Workload (\<^verbatim>\<open>workloads/pattern_generator.py\<close>), Datasets (\<^verbatim>\<open>workloads/sharegpt_loader.py\<close>): arrival patterns
    over a random source, trace replay, prompt loaders and shards.
  \<^item> Backend, Baselines, Lifecycle: \<^verbatim>\<open>backends/\<close>: command lines, environments and payloads of the three servers,
    their registry, and starting and stopping a process group. Backend shows that a lattice mode
    reaches the scheduler's construction of SchedState.
  \<^item> Collector (\<^verbatim>\<open>benchmarks/metrics_collector.py\<close>, \<^verbatim>\<open>benchmarks/streaming.py\<close>): the collector, its summary, the
    scheduler's log and a streamed response. Harness (\<^verbatim>\<open>benchmarks/ablations/bench.py\<close>): the concurrent
    clients as the step relation \<open>client_step\<close>, invariant \<open>world_ok\<close>, and what a repetition measures.
    ApisBench (\<^verbatim>\<open>benchmarks/ablations/bench_apis.py\<close>): the same with two servers and the router.
    Drivers: the loops over repetitions of both, with servers that may fail to start.
  \<^item> Replay (request files of \<^verbatim>\<open>workloads/pattern_generator.py\<close>), AdapterPool (\<^verbatim>\<open>scripts/gen_adapters.py\<close> against the
    lookup of the benchmarks), Sweep (\<^verbatim>\<open>benchmarks/paper/common.py\<close>, \<^verbatim>\<open>cell.py\<close>, \<^verbatim>\<open>k10.py\<close>): resumable experiment sweeps
    over an environment and a results file, composed with Backend and the model runner. Report
    (\<^verbatim>\<open>common.py\<close>, \<^verbatim>\<open>summarize.py\<close>): the reported alignment against Metrics, and the statistics.
    Experiments (\<^verbatim>\<open>k10.py\<close>, \<^verbatim>\<open>tp2_13b.py\<close>, \<^verbatim>\<open>c3_deadline.py\<close>, \<^verbatim>\<open>k4.py\<close>): the drivers as instances of one loop (interface
    \<open>sweep_driver\<close>, interpreted on each). ApisDriver (\<^verbatim>\<open>apis.py\<close>): ports, servers and loop of the two-server experiment.
    Claims (\<^verbatim>\<open>summarize.py\<close>): the reported numbers as functions of the rows, looked up under the drivers' tags.
    OutputCheck (\<^verbatim>\<open>output_check.py\<close>, \<^verbatim>\<open>l3_check.py\<close>): agreement of completions, and the promoted steps read from the
    text of the server's log, against the model runner of L3.
  \<^item> Serve: the server's command line (\<^verbatim>\<open>scripts/vllm_serve_adapter_slots.py\<close>), its choice of executor and
    \<open>run_server\<close> with the engine process (\<^verbatim>\<open>integrations/aligned_*.py\<close>). Engine: the engines it constructs, with one
    scheduler of SchedState per pipeline stage.
  \<^item> Layouts (\<^verbatim>\<open>scripts/experiments/isolation_batch_conditions.py\<close>, \<^verbatim>\<open>benchmarks/micro/m1_sgmv_throughput.py\<close>): the batch
    layouts of E1, their alignment and the segments SGMV runs. Scale (\<^verbatim>\<open>m1_sgmv_throughput_scale.py\<close>): the sweep of
    E1, its clock locks and its gaps. KvPool (\<^verbatim>\<open>deps/punica/src/punica/utils/\<close>): the paged
    key-value cache the Punica baseline uses (interface \<open>page_pool\<close>). Punica (\<^verbatim>\<open>benchmarks/paper/punica_engine.py\<close>): the
    baseline's batching loop, which serves every request and gives back every page.
    Dlora (\<^verbatim>\<open>benchmarks/paper/dlora_engine.py\<close>): the client of the dLoRA baseline.

  \<^bold>\<open>State and time.\<close> Operations take and return their record. A clock reading is an argument of the
  operation that takes it. An exception ends an operation with \<open>Inl\<close>. Loops are structural
  recursion over the data they traverse, so no fuel is needed; the loops that wait for a
  server or an engine are partial functions: their end is proved from a clock that advances, or
  it is shown exactly when they do not end. Concurrency
  (GPU programs of the fused kernel, asyncio tasks of the harness) is a step relation, and the
  properties hold for every interleaving.

  \<^bold>\<open>Parameters.\<close> vLLM's own methods (the selection of a step, prefill admission, its SGMV kernels, what its
  constructors raise), whether Triton compiles a kernel and ZeroMQ binds an address, the torch operations that combine positions (\<open>torch_ok\<close> states their documentation), scipy's incomplete
  gamma functions, numpy, the string hash, the iteration order of sets, \<open>json\<close>, \<open>random\<close>, \<open>str.lower\<close>, the
  file system and the operating system's answers to a starting server are arguments. Each
  hypothesis about one of them is discharged for a concrete function in the witness beside the
  property.

  \<^bold>\<open>Abstractions.\<close> A float is a real number, so rounding errors of arithmetic are not modelled; Python's
  \<open>round\<close> is. \<open>nan\<close> is \<open>None\<close> where the code produces it. The grouped kernels' programs are atomic and run in
  any order (their writes are disjoint); those of the fused kernel interleave on sequentially
  consistent memory; conversions to the weights' type are a
  parameter applied where the kernels and the merge convert. The K loop of the fused kernel, which reads only
  inputs, and its loads and stores of a whole tile are single steps. Tensors passed to the kernels do not alias. Lines of
  the scheduler's log are records; the server's log is text only in OutputCheck.

  \<^bold>\<open>Bounds.\<close> The tile map is proved for batches of up to 8192 tokens, the capacity the code allocates,
  and the segments for as many adapter runs as there are slots; \<open>too_many_runs_corrupt_a_segment\<close> and
  \<open>two_adapters_overflow_three_slots\<close> show what happens beyond that; the exactness of a decode step is stated for
  the steps that fit, which the code does not check. Warp sizes are positive. Starting a server is proved to
  end after at most 91 binds and 240 probes, and a run of the harness after at most five steps per request and
  one per line of its response.

  \<^bold>\<open>Not modelled.\<close> Reading profiles and adapters from disk; vLLM's own part of the engines (heartbeat thread,
  request handling); the text of the tables of \<^verbatim>\<open>summarize.py\<close>, its numbers from profiler files, and the result files' config
  blocks; the scripts that time GPU code (\<^verbatim>\<open>kernel_layer.py\<close>, \<^verbatim>\<open>kernel_tiles.py\<close>, the timing half of the micro benchmarks) or
  download data; and the third-party systems under \<^verbatim>\<open>src/deps/\<close>, but for the Punica modules named above.
\<close>

end
